(* ===== verification/Acl_Prelude.thy ===== *)
theory Acl_Prelude
  imports Main "HOL-Library.Word" "HOL-Library.Multiset"
begin

text \<open>
  Shared vocabulary of the development: bytes and C strings, the result type of code that may
  touch memory outside an object, the element-moving loops of the array based containers, and
  the hint collections used by the component theories.
\<close>

unbundle bit_operations_syntax

subsection \<open>Bytes and C strings\<close>

type_synonym byte = "8 word"

abbreviation ch :: "char \<Rightarrow> byte" where
  "ch c \<equiv> of_char c"

abbreviation bytes_of :: "string \<Rightarrow> byte list" where
  "bytes_of s \<equiv> map of_char s"

text \<open>
  A NUL terminated C string is the list of the bytes before its terminator; reading one byte
  past them reads the terminator.
\<close>

definition c_string :: "byte list \<Rightarrow> bool" where
  "c_string s \<longleftrightarrow> 0 \<notin> set s"

fun peek :: "byte list \<Rightarrow> byte" where
  "peek [] = 0"
| "peek (b # _) = b"

lemma c_string_simps [simp]:
  "c_string []"
  "c_string (b # s) \<longleftrightarrow> b \<noteq> 0 \<and> c_string s"
  "c_string (s @ t) \<longleftrightarrow> c_string s \<and> c_string t"
  by (auto simp: c_string_def)

lemma peek_eq_0_iff: "c_string s \<Longrightarrow> peek s = 0 \<longleftrightarrow> s = []"
  by (cases s) auto

text \<open>The \<open>ctype.h\<close> predicates and conversions used by the code, in the C locale.\<close>

definition is_digit :: "byte \<Rightarrow> bool" where
  "is_digit c \<longleftrightarrow> 48 \<le> c \<and> c \<le> 57"

definition is_upper :: "byte \<Rightarrow> bool" where
  "is_upper c \<longleftrightarrow> 65 \<le> c \<and> c \<le> 90"

definition is_lower :: "byte \<Rightarrow> bool" where
  "is_lower c \<longleftrightarrow> 97 \<le> c \<and> c \<le> 122"

definition is_alpha :: "byte \<Rightarrow> bool" where
  "is_alpha c \<longleftrightarrow> is_upper c \<or> is_lower c"

definition is_alnum :: "byte \<Rightarrow> bool" where
  "is_alnum c \<longleftrightarrow> is_alpha c \<or> is_digit c"

definition is_xdigit :: "byte \<Rightarrow> bool" where
  "is_xdigit c \<longleftrightarrow> is_digit c \<or> 97 \<le> c \<and> c \<le> 102 \<or> 65 \<le> c \<and> c \<le> 70"

definition c_space :: "byte \<Rightarrow> bool" where
  "c_space c \<longleftrightarrow> c = 32 \<or> 9 \<le> c \<and> c \<le> 13"

definition to_lower :: "byte \<Rightarrow> byte" where
  "to_lower c = (if is_upper c then c + 32 else c)"

definition to_upper :: "byte \<Rightarrow> byte" where
  "to_upper c = (if is_lower c then c - 32 else c)"

lemmas ctype_defs = is_digit_def is_upper_def is_lower_def is_alpha_def is_alnum_def

lemma to_lower_idem [simp]: "to_lower (to_lower c) = to_lower c"
proof (cases "is_upper c")
  case True
  then have "65 \<le> uint c" "uint c \<le> 90"
    by (simp_all add: is_upper_def word_le_def)
  then have "\<not> is_upper (c + 32)"
    by (simp add: is_upper_def word_le_def uint_word_ariths)
  with True show ?thesis by (simp add: to_lower_def)
qed (simp add: to_lower_def)

subsection \<open>Memory accesses that may fall outside an object\<close>

text \<open>
  \<open>Fault\<close> stands for an access outside the object the code indexes: undefined behaviour in C.
  A function that returns \<open>Ret\<close> has made only accesses inside its objects.
\<close>

datatype 'a cres = Ret 'a | Fault

fun cbind :: "'a cres \<Rightarrow> ('a \<Rightarrow> 'b cres) \<Rightarrow> 'b cres" where
  "cbind Fault f = Fault"
| "cbind (Ret x) f = f x"

definition tab_at :: "'a list \<Rightarrow> nat \<Rightarrow> 'a cres" where
  "tab_at t i = (if i < length t then Ret (t ! i) else Fault)"

lemma cbind_cong [fundef_cong]: "m = m' \<Longrightarrow> (\<And>x. m' = Ret x \<Longrightarrow> f x = g x) \<Longrightarrow> cbind m f = cbind m' g"
  by (cases m') auto

text \<open>
  A pointer into a C string is the text from it on. It may be moved up to the terminator, not past it.
  \<open>bytes_at b i n\<close> reads the \<open>n\<close> bytes from \<open>b[i]\<close> on, as \<open>memcpy\<close> does.
\<close>

fun ptr_inc :: "byte list \<Rightarrow> byte list cres" where
  "ptr_inc [] = Fault"
| "ptr_inc (c # s) = Ret s"

definition bytes_at :: "'a list \<Rightarrow> nat \<Rightarrow> nat \<Rightarrow> 'a list cres" where
  "bytes_at b i n = (if i + n \<le> length b then Ret (take n (drop i b)) else Fault)"

lemma bytes_at_Ret [simp]: "i + n \<le> length b \<Longrightarrow> bytes_at b i n = Ret (take n (drop i b))"
  by (simp add: bytes_at_def)

lemma ptr_inc_eq: "s \<noteq> [] \<Longrightarrow> ptr_inc s = Ret (tl s)"
  by (cases s) auto

fun c_value :: "'a option cres \<Rightarrow> 'a option" where
  "c_value Fault = None"
| "c_value (Ret r) = r"

definition map_cres :: "('a \<Rightarrow> 'b) \<Rightarrow> 'a cres \<Rightarrow> 'b cres" where
  "map_cres f m = cbind m (\<lambda>x. Ret (f x))"

lemma map_cres_simps [simp]: "map_cres f Fault = Fault" "map_cres f (Ret x) = Ret (f x)"
  by (simp_all add: map_cres_def)

lemma map_cres_comp: "map_cres f (map_cres g m) = map_cres (\<lambda>x. f (g x)) m"
  by (cases m) auto

lemma map_cres_ident [simp]: "map_cres (\<lambda>x. x) m = m"
  by (cases m) auto

lemma map_cres_cbind: "map_cres f (cbind m g) = cbind m (\<lambda>x. map_cres f (g x))"
  by (cases m) auto

lemma cbind_eq_Ret_iff: "cbind m f = Ret y \<longleftrightarrow> (\<exists>x. m = Ret x \<and> f x = Ret y)"
  by (cases m) auto

lemma cbind_RetE:
  assumes "cbind m f = Ret y"
  obtains x where "m = Ret x" "f x = Ret y"
  using assms by (auto simp: cbind_eq_Ret_iff)

lemma tab_at_Ret [simp]: "i < length t \<Longrightarrow> tab_at t i = Ret (t ! i)"
  by (simp add: tab_at_def)

lemma tab_at_Fault [simp]: "length t \<le> i \<Longrightarrow> tab_at t i = Fault"
  by (simp add: tab_at_def)

lemma unat_byte_less_255: "b \<noteq> 255 \<Longrightarrow> unat b < 255" for b :: byte
proof -
  assume "b \<noteq> 255"
  have "unat b < 256"
    by (rule order_less_le_trans [OF unsigned_less]) simp
  moreover have "unat b \<noteq> 255"
    using \<open>b \<noteq> 255\<close> by (simp add: word_unat_eq_iff)
  ultimately show ?thesis by simp
qed

subsection \<open>The widths of C\<close>

text \<open>
  Where a value of the code may leave its type, the model converts as the code does. The conversion
  \<open>(int) n\<close> of a \<open>size_t\<close> reads the low 32 bits as a signed number; an addition of signed 64-bit numbers
  that overflows is undefined behaviour.
\<close>

definition INT_MAX :: int where "INT_MAX = 2 ^ 31 - 1"
definition INT64_MAX :: int where "INT64_MAX = 2 ^ 63 - 1"
definition INT64_MIN :: int where "INT64_MIN = - (2 ^ 63)"

definition int_of_size :: "nat \<Rightarrow> int" where
  "int_of_size n = sint (word_of_nat n :: 32 word)"

definition add64 :: "int \<Rightarrow> int \<Rightarrow> int cres" where
  "add64 x y = (if INT64_MIN \<le> x + y \<and> x + y \<le> INT64_MAX then Ret (x + y) else Fault)"

lemma int_of_size_eq: "int n \<le> INT_MAX \<Longrightarrow> int_of_size n = int n"
  by (simp add: int_of_size_def INT_MAX_def sint_uint unsigned_of_nat take_bit_nat_eq_self signed_take_bit_int_eq_self)

lemma add64_Ret: "INT64_MIN \<le> x + y \<Longrightarrow> x + y \<le> INT64_MAX \<Longrightarrow> add64 x y = Ret (x + y)"
  by (simp add: add64_def)

lemma add64_eq_Ret_iff: "add64 x y = Ret z \<longleftrightarrow> z = x + y \<and> INT64_MIN \<le> z \<and> z \<le> INT64_MAX"
  by (auto simp: add64_def)

subsection \<open>Bit masks\<close>

text \<open>
  The code masks with literals; the bit lemmas of the library speak of \<open>mask n\<close>.
\<close>

named_theorems lit_mask \<open>literal bit masks as \<open>mask n\<close>\<close>

lemma int_lit_mask [lit_mask]:
  "(63::int) = mask 6" "(15::int) = mask 4" "(3::int) = mask 2"
  by (simp_all add: mask_eq_exp_minus_1)

lemma Suc_Suc_diff_2: "2 \<le> n \<Longrightarrow> Suc (Suc (n - 2)) = n"
  by simp

lemma int_or_disjoint_less:
  fixes a b :: int
  assumes "0 \<le> a" "a < 2 ^ n" "0 \<le> b" "b < 2 ^ n"
  shows "0 \<le> (a OR b)" "(a OR b) < 2 ^ n"
  using assms OR_upper [of a n b] by auto

lemma int_and_lit_bounds:
  fixes a :: int
  assumes "0 \<le> m"
  shows "0 \<le> (a AND m)" "(a AND m) \<le> m"
  using assms by (auto simp: AND_upper2)

subsection \<open>Lists in groups of four\<close>

lemma quad_induct [case_names Short Quad]:
  assumes "\<And>s. length s < 4 \<Longrightarrow> P s"
    and "\<And>a b c d s. P s \<Longrightarrow> P (a # b # c # d # s)"
  shows "P s"
proof (induction s rule: length_induct)
  case (1 s)
  show ?case
  proof (cases "length s < 4")
    case False
    then obtain a b c d t where "s = a # b # c # d # t"
      by (auto simp: not_less numeral_eq_Suc Suc_le_length_iff)
    with 1 show ?thesis using assms(2) by simp
  qed (rule assms(1))
qed

lemma Suc_quad_div [simp]: "(4 + n) div 4 = Suc (n div (4::nat))"
  by simp

lemma short_cases:
  assumes "length s < 4"
  obtains "s = []" | a where "s = [a]" | a b where "s = [a, b]" | a b c where "s = [a, b, c]"
  using assms by (cases s rule: remdups_adj.cases; case_tac "tl (tl s)"; auto)

subsection \<open>Arrays indexed by C integers\<close>

text \<open>
  An array object is the list of its cells; \<open>rd\<close> and \<open>wr\<close> are the checked accesses \<open>a[i]\<close> and
  \<open>a[i] = v\<close>. The null pointer is the object without cells.
\<close>

definition rd :: "'a list \<Rightarrow> int \<Rightarrow> 'a cres" where
  "rd xs i = (if 0 \<le> i \<and> i < int (length xs) then Ret (xs ! nat i) else Fault)"

definition wr :: "'a list \<Rightarrow> int \<Rightarrow> 'a \<Rightarrow> 'a list cres" where
  "wr xs i v = (if 0 \<le> i \<and> i < int (length xs) then Ret (xs[nat i := v]) else Fault)"

lemma rd_Ret [simp]: "0 \<le> i \<Longrightarrow> i < int (length xs) \<Longrightarrow> rd xs i = Ret (xs ! nat i)"
  by (simp add: rd_def)

lemma wr_Ret [simp]: "0 \<le> i \<Longrightarrow> i < int (length xs) \<Longrightarrow> wr xs i v = Ret (xs[nat i := v])"
  by (simp add: wr_def)

text \<open>The loop \<open>while (src < lim) xs[dst++] = xs[src++]\<close>.\<close>

function copy_down :: "'a list \<Rightarrow> int \<Rightarrow> int \<Rightarrow> int \<Rightarrow> 'a list cres" where
  "copy_down xs dst src lim =
    (if src < lim then
       cbind (rd xs src) (\<lambda>v. cbind (wr xs dst v) (\<lambda>xs. copy_down xs (dst + 1) (src + 1) lim))
     else Ret xs)"
  by pat_completeness auto
termination
  by (relation "measure (\<lambda>(xs, dst, src, lim). nat (lim - src))") auto

text \<open>The loop \<open>for (i = hi; i > lo; i--) xs[i] = xs[i - 1]\<close>.\<close>

function copy_up :: "'a list \<Rightarrow> int \<Rightarrow> int \<Rightarrow> 'a list cres" where
  "copy_up xs i lo =
    (if lo < i then
       cbind (rd xs (i - 1)) (\<lambda>v. cbind (wr xs i v) (\<lambda>xs. copy_up xs (i - 1) lo))
     else Ret xs)"
  by pat_completeness auto
termination
  by (relation "measure (\<lambda>(xs, i, lo). nat (i - lo))") auto

declare copy_down.simps [simp del] copy_up.simps [simp del]

lemma copy_down_eq:
  assumes "d \<le> s" "s \<le> lim" "lim \<le> length xs"
  shows "copy_down xs (int d) (int s) (int lim) =
    Ret (take d xs @ take (lim - s) (drop s xs) @ drop (d + (lim - s)) xs)"
  using assms
proof (induction "lim - s" arbitrary: d s xs)
  case 0
  then show ?case by (simp add: copy_down.simps)
next
  case (Suc n)
  let ?ys = "xs[d := xs ! s]"
  from Suc.hyps(2) Suc.prems have *: "s < lim" "lim - s = Suc (lim - Suc s)" by auto
  have "copy_down xs (int d) (int s) (int lim) = copy_down ?ys (int (Suc d)) (int (Suc s)) (int lim)"
    using * Suc.prems by (subst copy_down.simps) (simp add: ac_simps)
  also have "\<dots> = Ret (take (Suc d) ?ys @ take (lim - Suc s) (drop (Suc s) ?ys)
      @ drop (Suc d + (lim - Suc s)) ?ys)"
    using Suc * by (intro Suc.hyps(1)) auto
  also have "take (Suc d) ?ys = take d xs @ [xs ! s]"
    using Suc.prems * by (simp add: take_Suc_conv_app_nth)
  also have "drop (Suc s) ?ys = drop (Suc s) xs"
    using Suc.prems by simp
  also have "drop (Suc d + (lim - Suc s)) ?ys = drop (d + (lim - s)) xs"
    using * by simp
  finally show ?case
    using * Suc.prems by (simp add: Cons_nth_drop_Suc [symmetric])
qed

lemma copy_up_eq:
  assumes "lo \<le> hi" "hi < length xs"
  shows "copy_up xs (int hi) (int lo) =
    Ret (take (Suc lo) xs @ take (hi - lo) (drop lo xs) @ drop (Suc hi) xs)"
  using assms
proof (induction "hi - lo" arbitrary: hi xs)
  case 0
  then show ?case by (simp add: copy_up.simps)
next
  case (Suc n)
  then obtain h where h: "hi = Suc h" "lo \<le> h" "n = h - lo"
    by (cases hi) auto
  let ?ys = "xs[Suc h := xs ! h]"
  have "copy_up xs (int hi) (int lo) = copy_up ?ys (int h) (int lo)"
    using h Suc.prems by (subst copy_up.simps) (simp add: nat_add_distrib)
  also have "\<dots> = Ret (take (Suc lo) ?ys @ take (h - lo) (drop lo ?ys) @ drop (Suc h) ?ys)"
    using Suc h by (intro Suc.hyps(1)) auto
  also have "take (Suc lo) ?ys = take (Suc lo) xs"
    using h by simp
  also have "take (h - lo) (drop lo ?ys) = take (h - lo) (drop lo xs)"
    using h by (simp add: take_drop)
  also have "drop (Suc h) ?ys = xs ! h # drop (Suc hi) xs"
    using h Suc.prems by (simp add: Cons_nth_drop_Suc [symmetric])
  finally show ?case
    using h Suc.prems by (simp add: Suc_diff_le take_Suc_conv_app_nth)
qed

subsection \<open>Callbacks that free, and iterators\<close>

text \<open>
  A container of pointers stores \<open>Some p\<close> or \<open>None\<close>, the null pointer. Where an operation takes
  a \<open>free_fn\<close>, the model takes a flag telling whether the callback is given and returns the list of
  the pointers the callback received, in order.
\<close>

definition c_free :: "bool \<Rightarrow> 'a option \<Rightarrow> 'a list" where
  "c_free free_fn p = (case p of Some x \<Rightarrow> if free_fn then [x] else [] | None \<Rightarrow> [])"

definition live :: "'a option list \<Rightarrow> 'a list" where
  "live ps = concat (map (c_free True) ps)"

lemma c_free_simps [simp]:
  "c_free f None = []" "c_free False p = []" "c_free True (Some x) = [x]"
  by (auto simp: c_free_def split: option.splits)

lemma live_simps [simp]:
  "live [] = []" "live (p # ps) = c_free True p @ live ps" "live (ps @ qs) = live ps @ live qs"
  by (simp_all add: live_def)

lemma live_full: "None \<notin> set ps \<Longrightarrow> map Some (live ps) = ps"
proof (induction ps)
  case (Cons p ps)
  then show ?case by (cases p) auto
qed simp

lemma live_map_Some [simp]: "live (map Some xs) = xs"
  by (induction xs) auto

text \<open>The loop \<open>for (; i < lim; i++) { if (free_fn && xs[i]) free_fn(xs[i]); xs[i] = NULL; }\<close>.\<close>

function null_range ::
    "bool \<Rightarrow> 'a option list \<Rightarrow> int \<Rightarrow> int \<Rightarrow> 'a list \<Rightarrow> ('a option list \<times> 'a list) cres" where
  "null_range free_fn xs i lim freed =
    (if i < lim then
       cbind (rd xs i) (\<lambda>p. cbind (wr xs i None) (\<lambda>xs.
         null_range free_fn xs (i + 1) lim (freed @ c_free free_fn p)))
     else Ret (xs, freed))"
  by pat_completeness auto
termination
  by (relation "measure (\<lambda>(free_fn, xs, i, lim, freed). nat (lim - i))") auto

declare null_range.simps [simp del]

lemma null_range_eq:
  assumes "i \<le> lim" "lim \<le> length xs"
  shows "null_range free_fn xs (int i) (int lim) freed =
    Ret (take i xs @ replicate (lim - i) None @ drop lim xs,
         freed @ (if free_fn then live (take (lim - i) (drop i xs)) else []))"
  using assms
proof (induction "lim - i" arbitrary: i xs freed)
  case 0
  then show ?case by (simp add: null_range.simps)
next
  case (Suc n)
  let ?ys = "xs[i := None]"
  from Suc.hyps(2) Suc.prems have *: "i < lim" "lim - i = Suc (lim - Suc i)" by auto
  have "null_range free_fn xs (int i) (int lim) freed =
      null_range free_fn ?ys (int (Suc i)) (int lim) (freed @ c_free free_fn (xs ! i))"
    using * Suc.prems by (subst null_range.simps) (simp add: ac_simps)
  also have "\<dots> = Ret (take (Suc i) ?ys @ replicate (lim - Suc i) None @ drop lim ?ys,
      (freed @ c_free free_fn (xs ! i)) @
      (if free_fn then live (take (lim - Suc i) (drop (Suc i) ?ys)) else []))"
    using Suc * by (intro Suc.hyps(1)) auto
  finally show ?case
    using * Suc.prems by (simp add: take_Suc_conv_app_nth Cons_nth_drop_Suc [symmetric])
qed

text \<open>\<open>ACL_ITER\<close>, the iterator shared by the containers of the library.\<close>

record ('p, 'd) acl_iter =
  it_ptr :: "'p option"
  it_data :: "'d option"
  it_dlen :: int
  it_key :: "byte list option"
  it_klen :: int
  it_i :: int
  it_size :: int

text \<open>
  The loops \<open>ACL_FOREACH\<close> and \<open>ACL_FOREACH_REVERSE\<close>: the data seen while \<open>ptr\<close> is not null. The
  first argument bounds the number of turns; \<open>None\<close> is a loop that has not ended within it.
\<close>

fun acl_foreach :: "nat \<Rightarrow> (('p, 'd) acl_iter \<Rightarrow> 's \<Rightarrow> ('p, 'd) acl_iter cres) \<Rightarrow> 's \<Rightarrow>
    ('p, 'd) acl_iter \<Rightarrow> 'd option list option cres" where
  "acl_foreach 0 next s it = Ret None"
| "acl_foreach (Suc fuel) next s it =
    (case it_ptr it of
       None \<Rightarrow> Ret (Some [])
     | Some _ \<Rightarrow> cbind (next it s) (\<lambda>it'.
         map_cres (map_option ((#) (it_data it))) (acl_foreach fuel next s it')))"

end
