(* ===== verification/Acl_Interfaces.thy ===== *)
theory Acl_Interfaces
  imports Acl_Prelude
begin

text \<open>
  The contracts between components, as locales. Each is interpreted on the model of the code
  in the theory of the component that provides it.
\<close>

subsection \<open>Encoders and decoders\<close>

text \<open>
  An encoder and a decoder of byte strings: decoding what was encoded gives it back, for the
  inputs the encoder accepts, and what the encoder emits is again such an input.
\<close>

locale byte_codec =
  fixes enc :: "byte list \<Rightarrow> byte list"
    and dec :: "byte list \<Rightarrow> byte list option"
    and valid :: "byte list \<Rightarrow> bool"
  assumes dec_enc: "valid x \<Longrightarrow> dec (enc x) = Some x"
    and valid_enc: "valid x \<Longrightarrow> valid (enc x)"
begin

lemma enc_eq_iff: "valid x \<Longrightarrow> valid y \<Longrightarrow> enc x = enc y \<longleftrightarrow> x = y"
  by (metis dec_enc option.inject)

lemma valid_enc_iter: "valid x \<Longrightarrow> valid ((enc ^^ n) x)"
  by (induction n) (auto intro: valid_enc)

lemma dec_iter_enc_iter:
  "valid x \<Longrightarrow> ((\<lambda>r. Option.bind r dec) ^^ n) (Some ((enc ^^ n) x)) = Some x"
proof (induction n)
  case 0
  then show ?case by simp
next
  case (Suc n)
  have "dec (enc ((enc ^^ n) x)) = Some ((enc ^^ n) x)"
    using Suc.prems by (intro dec_enc valid_enc_iter)
  then have "((\<lambda>r. Option.bind r dec) ^^ Suc n) (Some (enc ((enc ^^ n) x))) =
      ((\<lambda>r. Option.bind r dec) ^^ n) (Some ((enc ^^ n) x))"
    by (simp only: funpow_Suc_right o_apply Option.bind.simps)
  with Suc show ?case by simp
qed

end

subsection \<open>Sequences\<close>

text \<open>
  The method table \<open>push_back\<close>, \<open>push_front\<close>, \<open>pop_back\<close>, \<open>pop_front\<close> that the sequence containers
  of the library carry in their structs. \<open>abs\<close> is the sequence a state stands for, \<open>inv\<close> the
  container's invariant, \<open>pushable\<close> the data the container accepts, \<open>null\<close> what popping an empty
  container returns.
\<close>

locale acl_queue =
  fixes push_back :: "'s \<Rightarrow> 'a \<Rightarrow> 's cres"
    and pop_front :: "'s \<Rightarrow> ('a \<times> 's) cres"
    and pop_back :: "'s \<Rightarrow> ('a \<times> 's) cres"
    and abs :: "'s \<Rightarrow> 'a list"
    and inv :: "'s \<Rightarrow> bool"
    and pushable :: "'a \<Rightarrow> bool"
    and null :: "'a"
  assumes push_back: "inv s \<Longrightarrow> pushable x \<Longrightarrow>
      \<exists>t. push_back s x = Ret t \<and> inv t \<and> abs t = abs s @ [x]"
    and pop_front_Nil: "inv s \<Longrightarrow> abs s = [] \<Longrightarrow> pop_front s = Ret (null, s)"
    and pop_front_Cons: "inv s \<Longrightarrow> abs s = x # xs \<Longrightarrow>
      \<exists>t. pop_front s = Ret (x, t) \<and> inv t \<and> abs t = xs"
    and pop_back_Nil: "inv s \<Longrightarrow> abs s = [] \<Longrightarrow> pop_back s = Ret (null, s)"
    and pop_back_snoc: "inv s \<Longrightarrow> abs s = xs @ [x] \<Longrightarrow>
      \<exists>t. pop_back s = Ret (x, t) \<and> inv t \<and> abs t = xs"

fun c_push_all :: "('s \<Rightarrow> 'a \<Rightarrow> 's cres) \<Rightarrow> 's \<Rightarrow> 'a list \<Rightarrow> 's cres" where
  "c_push_all push s [] = Ret s"
| "c_push_all push s (x # xs) = cbind (push s x) (\<lambda>s. c_push_all push s xs)"

fun c_pop_n :: "('s \<Rightarrow> ('a \<times> 's) cres) \<Rightarrow> 's \<Rightarrow> nat \<Rightarrow> ('a list \<times> 's) cres" where
  "c_pop_n pop s 0 = Ret ([], s)"
| "c_pop_n pop s (Suc n) =
     cbind (pop s) (\<lambda>(x, s). map_cres (\<lambda>(xs, s). (x # xs, s)) (c_pop_n pop s n))"

context acl_queue
begin

lemma push_all:
  "inv s \<Longrightarrow> (\<And>x. x \<in> set xs \<Longrightarrow> pushable x) \<Longrightarrow>
   \<exists>t. c_push_all push_back s xs = Ret t \<and> inv t \<and> abs t = abs s @ xs"
proof (induction xs arbitrary: s)
  case (Cons x xs)
  then obtain t where t: "push_back s x = Ret t" "inv t" "abs t = abs s @ [x]"
    using push_back by (meson list.set_intros(1))
  with Cons show ?case by (fastforce intro: Cons.IH [OF t(2)])
qed simp

lemma pop_front_n:
  "inv s \<Longrightarrow> abs s = xs @ ys \<Longrightarrow>
   \<exists>t. c_pop_n pop_front s (length xs) = Ret (xs, t) \<and> inv t \<and> abs t = ys"
proof (induction xs arbitrary: s)
  case (Cons x xs)
  then obtain t where t: "pop_front s = Ret (x, t)" "inv t" "abs t = xs @ ys"
    using pop_front_Cons by (metis append_Cons)
  with Cons.IH [OF t(2,3)] show ?case by auto
qed simp

lemma pop_back_n:
  "inv s \<Longrightarrow> abs s = ys @ rev xs \<Longrightarrow>
   \<exists>t. c_pop_n pop_back s (length xs) = Ret (xs, t) \<and> inv t \<and> abs t = ys"
proof (induction xs arbitrary: s)
  case (Cons x xs)
  then obtain t where t: "pop_back s = Ret (x, t)" "inv t" "abs t = ys @ rev xs"
    using pop_back_snoc [of s "ys @ rev xs" x] by auto
  with Cons.IH [OF t(2,3)] show ?case by auto
qed simp

text \<open>First in, first out and last in, first out, after any history that kept the invariant.\<close>

lemma fifo_order:
  assumes "inv s" "abs s = []" "\<And>x. x \<in> set xs \<Longrightarrow> pushable x"
  shows "\<exists>t u. c_push_all push_back s xs = Ret t \<and> c_pop_n pop_front t (length xs) = Ret (xs, u)
      \<and> pop_front u = Ret (null, u)"
  using push_all [OF assms(1,3)] pop_front_n [where ys = "[]"] pop_front_Nil assms(2)
  by (metis append_Nil append_Nil2)

lemma lifo_order:
  assumes "inv s" "abs s = []" "\<And>x. x \<in> set xs \<Longrightarrow> pushable x"
  shows "\<exists>t u. c_push_all push_back s xs = Ret t \<and> c_pop_n pop_back t (length xs) = Ret (rev xs, u)
      \<and> pop_back u = Ret (null, u)"
proof -
  obtain t where t: "c_push_all push_back s xs = Ret t" "inv t" "abs t = xs"
    using push_all [OF assms(1,3)] assms(2) by auto
  then obtain u where "c_pop_n pop_back t (length (rev xs)) = Ret (rev xs, u)" "inv u" "abs u = []"
    using pop_back_n [of t "[]" "rev xs"] by auto
  with t pop_back_Nil show ?thesis by auto
qed

end

locale acl_deque = acl_queue +
  fixes push_front :: "'s \<Rightarrow> 'a \<Rightarrow> 's cres"
  assumes push_front: "inv s \<Longrightarrow> pushable x \<Longrightarrow>
      \<exists>t. push_front s x = Ret t \<and> inv t \<and> abs t = x # abs s"
begin

lemma push_front_all:
  "inv s \<Longrightarrow> (\<And>x. x \<in> set xs \<Longrightarrow> pushable x) \<Longrightarrow>
   \<exists>t. c_push_all push_front s xs = Ret t \<and> inv t \<and> abs t = rev xs @ abs s"
proof (induction xs arbitrary: s)
  case (Cons x xs)
  then obtain t where t: "push_front s x = Ret t" "inv t" "abs t = x # abs s"
    using push_front by (meson list.set_intros(1))
  with Cons show ?case by (fastforce intro: Cons.IH [OF t(2)])
qed simp

lemma push_front_pop_back:
  assumes "inv s" "abs s = []" "\<And>x. x \<in> set xs \<Longrightarrow> pushable x"
  shows "\<exists>t u. c_push_all push_front s xs = Ret t \<and> c_pop_n pop_back t (length xs) = Ret (xs, u)
      \<and> pop_back u = Ret (null, u)"
proof -
  obtain t where t: "c_push_all push_front s xs = Ret t" "inv t" "abs t = rev xs"
    using push_front_all [OF assms(1,3)] assms(2) by auto
  then obtain u where "c_pop_n pop_back t (length xs) = Ret (xs, u)" "inv u" "abs u = []"
    using pop_back_n [of t "[]" xs] by auto
  with t pop_back_Nil show ?thesis by auto
qed

end

subsection \<open>Iterators\<close>

text \<open>
  A container that can be walked: \<open>at s k it\<close> tells that the iterator stands at position \<open>k\<close> of
  the data \<open>elems s\<close>, the position after the last one included.
\<close>

locale acl_iterable =
  fixes head :: "'s \<Rightarrow> ('p, 'd) acl_iter cres"
    and step :: "('p, 'd) acl_iter \<Rightarrow> 's \<Rightarrow> ('p, 'd) acl_iter cres"
    and elems :: "'s \<Rightarrow> 'd list"
    and inv :: "'s \<Rightarrow> bool"
    and at :: "'s \<Rightarrow> nat \<Rightarrow> ('p, 'd) acl_iter \<Rightarrow> bool"
  assumes head: "inv s \<Longrightarrow> \<exists>it. head s = Ret it \<and> at s 0 it"
    and step: "inv s \<Longrightarrow> at s k it \<Longrightarrow> k < length (elems s) \<Longrightarrow>
      \<exists>it'. step it s = Ret it' \<and> at s (Suc k) it'"
    and at_elem: "inv s \<Longrightarrow> at s k it \<Longrightarrow> k < length (elems s) \<Longrightarrow>
      it_ptr it \<noteq> None \<and> it_data it = Some (elems s ! k)"
    and at_end: "inv s \<Longrightarrow> at s (length (elems s)) it \<Longrightarrow> it_ptr it = None"
begin

lemma foreach_from:
  "inv s \<Longrightarrow> at s k it \<Longrightarrow> k + n = length (elems s) \<Longrightarrow> n < fuel \<Longrightarrow>
   acl_foreach fuel step s it = Ret (Some (map Some (drop k (elems s))))"
proof (induction n arbitrary: k it fuel)
  case 0
  then show ?case by (cases fuel) (auto dest: at_end)
next
  case (Suc n)
  then obtain f where f: "fuel = Suc f" "n < f" by (cases fuel) auto
  from Suc.prems have k: "k < length (elems s)" by simp
  with Suc.prems obtain it' where it': "step it s = Ret it'" "at s (Suc k) it'"
    using step by blast
  have "acl_foreach f step s it' = Ret (Some (map Some (drop (Suc k) (elems s))))"
    using Suc.prems f it' by (intro Suc.IH) auto
  then show ?case
    using at_elem [OF Suc.prems(1,2) k] f it' k
    by (auto simp: Cons_nth_drop_Suc [symmetric])
qed

lemma foreach_all:
  assumes "inv s" "length (elems s) < fuel"
  shows "\<exists>it. head s = Ret it \<and> acl_foreach fuel step s it = Ret (Some (map Some (elems s)))"
  using head [OF assms(1)] foreach_from [OF assms(1), of 0] assms(2) by fastforce

end

subsection \<open>Sets of integers built from ranges\<close>

text \<open>
  A container of integer ranges: adding a range is set union, in either order of its bounds, and a
  lookup decides membership. \<open>univ\<close> are the points that the container can hold.
\<close>

definition range_of :: "int \<times> int \<Rightarrow> int set" where
  "range_of r = {min (fst r) (snd r)..max (fst r) (snd r)}"

locale range_set =
  fixes add :: "'s \<Rightarrow> int \<times> int \<Rightarrow> 's cres"
    and mem :: "'s \<Rightarrow> int \<Rightarrow> bool cres"
    and abs :: "'s \<Rightarrow> int set"
    and inv :: "'s \<Rightarrow> bool"
    and univ :: "int set"
  assumes add: "inv s \<Longrightarrow> range_of r \<subseteq> univ \<Longrightarrow> \<exists>t. add s r = Ret t \<and> inv t \<and> abs t = abs s \<union> range_of r"
    and mem: "inv s \<Longrightarrow> mem s n = Ret (n \<in> abs s)"
begin

lemma add_all:
  "inv s \<Longrightarrow> \<forall>r \<in> set rs. range_of r \<subseteq> univ \<Longrightarrow>
    \<exists>t. c_push_all add s rs = Ret t \<and> inv t \<and> abs t = abs s \<union> \<Union> (range_of ` set rs)"
proof (induction rs arbitrary: s)
  case (Cons r rs)
  obtain t where "add s r = Ret t" "inv t" "abs t = abs s \<union> range_of r"
    using add [OF Cons.prems(1), of r] Cons.prems(2) by auto
  with Cons.IH [of t] Cons.prems(2) show ?case by fastforce
qed simp

text \<open>What a lookup answers after any history of additions.\<close>

lemma mem_after:
  assumes "inv s" "\<forall>r \<in> set rs. range_of r \<subseteq> univ"
  shows "\<exists>t. c_push_all add s rs = Ret t
    \<and> (\<forall>n. mem t n = Ret (n \<in> abs s \<or> (\<exists>r \<in> set rs. n \<in> range_of r)))"
  using add_all [OF assms] mem by fastforce

end

subsection \<open>Maps\<close>

text \<open>
  A table from keys to pointers as its client sees it: a lookup answers the pointer last stored under
  the key, the null pointer \<open>None\<close> where there is none. \<open>norm\<close> is the form of a key the table compares;
  a lookup may rearrange the table.
\<close>

locale acl_map =
  fixes put :: "'s \<Rightarrow> 'k \<times> 'v option \<Rightarrow> 's cres"
    and del :: "'s \<Rightarrow> 'k \<Rightarrow> 's cres"
    and get :: "'s \<Rightarrow> 'k \<Rightarrow> ('s \<times> 'v option) cres"
    and norm :: "'s \<Rightarrow> 'k \<Rightarrow> 'k"
    and abs :: "'s \<Rightarrow> 'k \<Rightarrow> 'v option"
    and inv :: "'s \<Rightarrow> bool"
  assumes put: "inv s \<Longrightarrow> \<exists>t. put s (k, v) = Ret t \<and> inv t \<and> norm t = norm s \<and> abs t = (abs s)(norm s k := v)"
    and del: "inv s \<Longrightarrow> \<exists>t. del s k = Ret t \<and> inv t \<and> norm t = norm s \<and> abs t = (abs s)(norm s k := None)"
    and get: "inv s \<Longrightarrow> \<exists>t. get s k = Ret (t, abs s (norm s k)) \<and> inv t \<and> norm t = norm s \<and> abs t = abs s"

datatype ('k, 'v) map_op = Put 'k "'v option" | Del 'k

fun map_step :: "('k \<Rightarrow> 'k) \<Rightarrow> ('k, 'v) map_op \<Rightarrow> ('k \<Rightarrow> 'v option) \<Rightarrow> 'k \<Rightarrow> 'v option" where
  "map_step f (Put k v) m = m(f k := v)"
| "map_step f (Del k) m = m(f k := None)"

fun map_exec :: "('s \<Rightarrow> 'k \<times> 'v option \<Rightarrow> 's cres) \<Rightarrow> ('s \<Rightarrow> 'k \<Rightarrow> 's cres) \<Rightarrow> 's \<Rightarrow> ('k, 'v) map_op \<Rightarrow> 's cres" where
  "map_exec put del s (Put k v) = put s (k, v)"
| "map_exec put del s (Del k) = del s k"

context acl_map
begin

lemma exec_step:
  assumes "inv s"
  shows "\<exists>t. map_exec put del s x = Ret t \<and> inv t \<and> norm t = norm s \<and> abs t = map_step (norm s) x (abs s)"
proof (cases x)
  case (Put k v)
  then show ?thesis using put [OF assms, of k v] by simp
next
  case (Del k)
  then show ?thesis using del [OF assms, of k] by simp
qed

lemma exec_all:
  "inv s \<Longrightarrow> \<exists>t. c_push_all (map_exec put del) s xs = Ret t \<and> inv t \<and> norm t = norm s
     \<and> abs t = fold (map_step (norm s)) xs (abs s)"
proof (induction xs arbitrary: s)
  case (Cons x xs)
  obtain t where t: "map_exec put del s x = Ret t" "inv t" "norm t = norm s" "abs t = map_step (norm s) x (abs s)"
    using exec_step [OF Cons.prems] by blast
  with Cons.IH [OF t(2)] show ?case by auto
qed simp

text \<open>What a lookup answers after any history of insertions and deletions.\<close>

lemma get_after:
  assumes "inv s"
  shows "\<exists>t u. c_push_all (map_exec put del) s xs = Ret t
    \<and> get t k = Ret (u, fold (map_step (norm s)) xs (abs s) (norm s k))"
  using exec_all [OF assms, of xs] get by metis

end

end
