(* ===== verification/Base64.thy ===== *)
theory Base64
  imports Acl_Interfaces
begin

text \<open>
  The two base64 codecs of \<open>lib_acl/src/code\<close>: \<open>acl_base64.c\<close> on NUL terminated strings and
  \<open>acl_vstring_base64.c\<close> on growable strings with explicit lengths.
\<close>

subsection \<open>Tables\<close>

definition to_b64_tab :: "byte list" where
  "to_b64_tab = bytes_of ''ABCDEFGHIJKLMNOPQRSTUVWXYZabcdefghijklmnopqrstuvwxyz0123456789+/''"

text \<open>The table has 255 entries: the code point 255 lies outside it.\<close>

definition un_b64_tab :: "int list" where
  "un_b64_tab =
    [255, 255, 255, 255, 255, 255, 255, 255, 255, 255, 255, 255, 255, 255, 255, 255,
     255, 255, 255, 255, 255, 255, 255, 255, 255, 255, 255, 255, 255, 255, 255, 255,
     255, 255, 255, 255, 255, 255, 255, 255, 255, 255, 255, 62,  255, 255, 255, 63,
     52,  53,  54,  55,  56,  57,  58,  59,  60,  61,  255, 255, 255, 255, 255, 255,
     255, 0,   1,   2,   3,   4,   5,   6,   7,   8,   9,   10,  11,  12,  13,  14,
     15,  16,  17,  18,  19,  20,  21,  22,  23,  24,  25,  255, 255, 255, 255, 255,
     255, 26,  27,  28,  29,  30,  31,  32,  33,  34,  35,  36,  37,  38,  39,  40,
     41,  42,  43,  44,  45,  46,  47,  48,  49,  50,  51,  255, 255, 255, 255, 255]
    @ replicate 127 255"

subsection \<open>\<open>acl_base64.c\<close>\<close>

text \<open>
  One turn of the encoder's loop consumes up to three bytes; \<open>x\<close> and \<open>y\<close> are C \<open>int\<close>s. The
  argument list holds exactly the \<open>len\<close> bytes at \<open>in\<close>.
\<close>

definition b64_sym :: "int \<Rightarrow> byte" where
  "b64_sym i = to_b64_tab ! nat i"

fun acl_base64_encode :: "byte list \<Rightarrow> byte list" where
  "acl_base64_encode [] = []"
| "acl_base64_encode [b0] =
     (let x = uint b0 in
      [b64_sym (drop_bit 2 x AND 63), b64_sym (push_bit 4 x AND 63), ch CHR ''='', ch CHR ''=''])"
| "acl_base64_encode [b0, b1] =
     (let x = uint b0; y = uint b1 in
      [b64_sym (drop_bit 2 x AND 63),
       b64_sym ((push_bit 4 x OR (drop_bit 4 y AND 15)) AND 63),
       b64_sym (push_bit 2 y AND 63), ch CHR ''=''])"
| "acl_base64_encode (b0 # b1 # b2 # clear) =
     (let x = uint b0; y = uint b1; z = uint b2 in
      [b64_sym (drop_bit 2 x AND 63),
       b64_sym ((push_bit 4 x OR (drop_bit 4 y AND 15)) AND 63),
       b64_sym ((push_bit 2 y OR (drop_bit 6 z AND 3)) AND 63),
       b64_sym (z AND 63)]
      @ acl_base64_encode clear)"

text \<open>
  The decoder's loop over the bytes left before the terminator; \<open>Ret None\<close> is the return value
  \<open>-1\<close>, \<open>Ret (Some out)\<close> a result of length \<open>length out\<close>. The second byte of a quantum is
  looked up without the test \<open>> 127\<close> that guards the others.
\<close>

definition b64_byte0 :: "int \<Rightarrow> int \<Rightarrow> byte" where
  "b64_byte0 x y = word_of_int (push_bit 2 x OR drop_bit 4 y)"

definition b64_byte1 :: "int \<Rightarrow> int \<Rightarrow> byte" where
  "b64_byte1 y x = word_of_int (push_bit 4 y OR drop_bit 2 x)"

definition b64_byte2 :: "int \<Rightarrow> int \<Rightarrow> byte" where
  "b64_byte2 x y = word_of_int (push_bit 6 x OR y)"

fun acl_base64_decode_loop :: "byte list \<Rightarrow> byte list \<Rightarrow> byte list option cres" where
  "acl_base64_decode_loop (c0 # c1 # c2 # c3 # code) result =
    (if c0 = 0 then Ret (Some result)
     else if uint c0 > 127 then Ret None
     else cbind (tab_at un_b64_tab (unat c0)) (\<lambda>x.
       if x = 255 then Ret None
       else if c1 = 0 then Ret None
       else cbind (tab_at un_b64_tab (unat c1)) (\<lambda>y.
         if y = 255 then Ret None
         else
           (let result = result @ [b64_byte0 x y] in
            if c2 = ch CHR ''='' then
              (if c3 \<noteq> ch CHR ''='' \<or> peek code \<noteq> 0 then Ret None
               else acl_base64_decode_loop code result)
            else if uint c2 > 127 then Ret None
            else cbind (tab_at un_b64_tab (unat c2)) (\<lambda>x.
              if x = 255 then Ret None
              else
                (let result = result @ [b64_byte1 y x] in
                 if c3 = ch CHR ''='' then
                   (if peek code \<noteq> 0 then Ret None
                    else acl_base64_decode_loop code result)
                 else if uint c3 > 127 then Ret None
                 else cbind (tab_at un_b64_tab (unat c3)) (\<lambda>y.
                   if y = 255 then Ret None
                   else acl_base64_decode_loop code
                          (result @ [b64_byte2 x y]))))))))"
| "acl_base64_decode_loop code result = Ret (Some result)"

definition acl_base64_decode :: "byte list \<Rightarrow> byte list option cres" where
  "acl_base64_decode code = acl_base64_decode_loop code []"

text \<open>The bytes allocated for the two results, terminator included.\<close>

definition acl_base64_encode_alloc :: "nat \<Rightarrow> nat" where
  "acl_base64_encode_alloc len = 4 * ((len + 2) div 3) + 1"

definition acl_base64_decode_alloc :: "nat \<Rightarrow> nat" where
  "acl_base64_decode_alloc in_len = 3 * (in_len div 4) + 1"

subsection \<open>\<open>acl_vstring_base64.c\<close>\<close>

text \<open>
  The same tables under other names. The result is the content of the \<open>ACL_VSTRING\<close>, which the
  macro \<open>ACL_VSTRING_ADDCH\<close> extends on demand; \<open>Ret None\<close> is the NULL result.
\<close>

fun acl_vstring_base64_encode :: "byte list \<Rightarrow> byte list" where
  "acl_vstring_base64_encode [] = []"
| "acl_vstring_base64_encode [b0] =
     (let cp0 = uint b0 in
      [b64_sym (drop_bit 2 cp0), b64_sym (push_bit 4 (cp0 AND 3)), ch CHR ''='', ch CHR ''=''])"
| "acl_vstring_base64_encode [b0, b1] =
     (let cp0 = uint b0; cp1 = uint b1 in
      [b64_sym (drop_bit 2 cp0), b64_sym (push_bit 4 (cp0 AND 3) OR drop_bit 4 cp1),
       b64_sym (push_bit 2 (cp1 AND 15)), ch CHR ''=''])"
| "acl_vstring_base64_encode (b0 # b1 # b2 # cp) =
     (let cp0 = uint b0; cp1 = uint b1; cp2 = uint b2 in
      [b64_sym (drop_bit 2 cp0), b64_sym (push_bit 4 (cp0 AND 3) OR drop_bit 4 cp1),
       b64_sym (push_bit 2 (cp1 AND 15) OR drop_bit 6 cp2), b64_sym (cp2 AND 63)]
      @ acl_vstring_base64_encode cp)"

fun acl_vstring_base64_decode_loop :: "byte list \<Rightarrow> byte list \<Rightarrow> byte list option cres" where
  "acl_vstring_base64_decode_loop (c0 # c1 # c2 # c3 # cp) result =
    cbind (tab_at un_b64_tab (unat c0)) (\<lambda>ch0.
      if ch0 = 255 then Ret None
      else cbind (tab_at un_b64_tab (unat c1)) (\<lambda>ch1.
        if ch1 = 255 then Ret None
        else
          (let result = result @ [b64_byte0 ch0 ch1] in
           if c2 = ch CHR ''='' then Ret (Some result)
           else cbind (tab_at un_b64_tab (unat c2)) (\<lambda>ch2.
             if ch2 = 255 then Ret None
             else
               (let result = result @ [b64_byte1 ch1 ch2] in
                if c3 = ch CHR ''='' then Ret (Some result)
                else cbind (tab_at un_b64_tab (unat c3)) (\<lambda>ch3.
                  if ch3 = 255 then Ret None
                  else acl_vstring_base64_decode_loop cp (result @ [b64_byte2 ch2 ch3])))))))"
| "acl_vstring_base64_decode_loop cp result = Ret (Some result)"

definition acl_vstring_base64_decode :: "byte list \<Rightarrow> byte list option cres" where
  "acl_vstring_base64_decode s =
    (if length s mod 4 \<noteq> 0 then Ret None else acl_vstring_base64_decode_loop s [])"

subsection \<open>Facts about the tables\<close>

lemma length_to_b64_tab [simp]: "length to_b64_tab = 64"
  by (simp add: to_b64_tab_def)

lemma length_un_b64_tab [simp]: "length un_b64_tab = 255"
  by (simp add: un_b64_tab_def)

lemma un_b64_tab_sym_all:
  "\<forall>b \<in> set (zip to_b64_tab [0..63]).
     uint (fst b) \<le> 127 \<and> un_b64_tab ! unat (fst b) = snd b \<and> fst b \<noteq> 0 \<and> fst b \<noteq> 61"
  by code_simp

lemma b64_sym_facts:
  assumes "0 \<le> i" "i < 64"
  shows "uint (b64_sym i) \<le> 127" "un_b64_tab ! unat (b64_sym i) = i"
    "b64_sym i \<noteq> 0" "b64_sym i \<noteq> 61" "unat (b64_sym i) < 255"
proof -
  have "(b64_sym i, i) \<in> set (zip to_b64_tab [0..63])"
    using assms by (auto simp: set_zip b64_sym_def intro!: exI [of _ "nat i"])
  then have *: "uint (b64_sym i) \<le> 127 \<and> un_b64_tab ! unat (b64_sym i) = i
      \<and> b64_sym i \<noteq> 0 \<and> b64_sym i \<noteq> 61"
    using un_b64_tab_sym_all by fastforce
  then show "uint (b64_sym i) \<le> 127" "un_b64_tab ! unat (b64_sym i) = i"
    "b64_sym i \<noteq> 0" "b64_sym i \<noteq> 61"
    by blast+
  from * have "int (unat (b64_sym i)) \<le> 127"
    by (simp only: uint_nat)
  then show "unat (b64_sym i) < 255" by linarith
qed

lemma sextet_bounds [simp]:
  fixes a :: int
  shows "0 \<le> (a AND 63)" "(a AND 63) < 64"
  using AND_upper2 [of 63 a] by auto

lemma tab_at_sym [simp]: "tab_at un_b64_tab (unat (b64_sym (a AND 63))) = Ret (a AND 63)"
  by (simp add: b64_sym_facts)

lemma b64_sym_class [simp]:
  "b64_sym (a AND 63) \<noteq> 0" "b64_sym (a AND 63) \<noteq> 61"
  "\<not> 127 < uint (b64_sym (a AND 63))" "(a AND 63) \<noteq> (255::int)"
  using b64_sym_facts [of "a AND 63"] sextet_bounds [of a] by (fastforce simp del: sextet_bounds)+

lemma b64_regroup:
  fixes a b c :: byte
  shows "b64_byte0 (drop_bit 2 (uint a) AND 63)
      ((push_bit 4 (uint a) OR (drop_bit 4 (uint b) AND 15)) AND 63) = a"
    and "b64_byte1 ((push_bit 4 (uint a) OR (drop_bit 4 (uint b) AND 15)) AND 63)
      ((push_bit 2 (uint b) OR (drop_bit 6 (uint c) AND 3)) AND 63) = b"
    and "b64_byte2 ((push_bit 2 (uint b) OR (drop_bit 6 (uint c) AND 3)) AND 63)
      (uint c AND 63) = c"
    and "b64_byte0 (drop_bit 2 (uint a) AND 63) (push_bit 4 (uint a) AND 63) = a"
    and "b64_byte1 ((push_bit 4 (uint a) OR (drop_bit 4 (uint b) AND 15)) AND 63)
      (push_bit 2 (uint b) AND 63) = b"
  unfolding lit_mask b64_byte0_def b64_byte1_def b64_byte2_def
  by (rule bit_word_eqI; auto simp: bit_simps Suc_Suc_diff_2; fail)+

lemma decode_loop_encode:
  "acl_base64_decode_loop (acl_base64_encode s) r = Ret (Some (r @ s))"
proof (induction s arbitrary: r rule: acl_base64_encode.induct)
  case (4 b0 b1 b2 clear)
  then show ?case by (simp add: Let_def b64_regroup)
qed (simp_all add: Let_def b64_regroup)

lemma vstring_indices:
  fixes a b c :: byte
  shows "drop_bit 2 (uint a) = drop_bit 2 (uint a) AND 63"
    and "push_bit 4 (uint a AND 3) = push_bit 4 (uint a) AND 63"
    and "push_bit 4 (uint a AND 3) OR drop_bit 4 (uint b) =
      (push_bit 4 (uint a) OR (drop_bit 4 (uint b) AND 15)) AND 63"
    and "push_bit 2 (uint b AND 15) = push_bit 2 (uint b) AND 63"
    and "push_bit 2 (uint b AND 15) OR drop_bit 6 (uint c) =
      (push_bit 2 (uint b) OR (drop_bit 6 (uint c) AND 3)) AND 63"
  unfolding lit_mask
  by (simp_all add: bit_eq_iff bit_simps) (auto dest: bit_imp_le_length)

lemma vstring_encode_eq: "acl_vstring_base64_encode s = acl_base64_encode s"
  by (induction s rule: acl_base64_encode.induct)
    (simp_all add: Let_def vstring_indices [symmetric])

lemma length_encode: "length (acl_base64_encode s) = 4 * ((length s + 2) div 3)"
proof (induction s rule: acl_base64_encode.induct)
  case (4 b0 b1 b2 clear)
  have "(length (b0 # b1 # b2 # clear) + 2) div 3 = Suc ((length clear + 2) div 3)"
    by simp
  with 4 show ?case by (simp add: Let_def del: length_Cons) 
qed (simp_all add: Let_def)

lemma c_string_encode: "c_string (acl_base64_encode s)"
  by (induction s rule: acl_base64_encode.induct) (simp_all add: Let_def)

lemma decode_loop_short:
  assumes "length s < 4"
  shows "acl_base64_decode_loop s r = Ret (Some r)"
    and "acl_vstring_base64_decode_loop s r = Ret (Some r)"
  using assms by (auto elim!: short_cases)

lemma decode_loop_bound:
  "acl_base64_decode_loop s r = Ret (Some out) \<Longrightarrow>
   length out \<le> length r + 3 * (length s div 4)"
proof (induction s arbitrary: r rule: quad_induct)
  case (Quad c0 c1 c2 c3 code)
  from Quad.prems show ?case
    by (auto simp: cbind_eq_Ret_iff Let_def add.commute [of _ 4] split: if_splits dest!: Quad.IH)
qed (simp add: decode_loop_short)

lemma tab_at_not_Fault: "b \<noteq> 255 \<Longrightarrow> \<exists>x. tab_at un_b64_tab (unat b) = Ret x"
  for b :: byte
  by (auto simp: tab_at_def unat_byte_less_255)

lemma decode_loop_safe:
  "255 \<notin> set s \<Longrightarrow> \<exists>out. acl_base64_decode_loop s r = Ret out"
proof (induction s arbitrary: r rule: quad_induct)
  case (Quad c0 c1 c2 c3 code)
  obtain x0 x1 x2 x3 where "tab_at un_b64_tab (unat c0) = Ret x0"
    "tab_at un_b64_tab (unat c1) = Ret x1" "tab_at un_b64_tab (unat c2) = Ret x2"
    "tab_at un_b64_tab (unat c3) = Ret x3"
    using tab_at_not_Fault Quad.prems by (metis list.set_intros set_subset_Cons subsetD)
  with Quad show ?case by (simp add: Let_def)
qed (simp add: decode_loop_short)

lemma vstring_decode_loop_safe:
  "255 \<notin> set s \<Longrightarrow> \<exists>out. acl_vstring_base64_decode_loop s r = Ret out"
proof (induction s arbitrary: r rule: quad_induct)
  case (Quad c0 c1 c2 c3 code)
  obtain x0 x1 x2 x3 where "tab_at un_b64_tab (unat c0) = Ret x0"
    "tab_at un_b64_tab (unat c1) = Ret x1" "tab_at un_b64_tab (unat c2) = Ret x2"
    "tab_at un_b64_tab (unat c3) = Ret x3"
    using tab_at_not_Fault Quad.prems by (metis list.set_intros set_subset_Cons subsetD)
  with Quad show ?case by (simp add: Let_def)
qed (simp add: decode_loop_short)

lemma decode_loop_vstring:
  "acl_base64_decode_loop s r = Ret (Some out) \<Longrightarrow> c_string s \<Longrightarrow> length s mod 4 = 0 \<Longrightarrow>
   acl_vstring_base64_decode_loop s r = Ret (Some out)"
proof (induction s arbitrary: r rule: quad_induct)
  case (Quad c0 c1 c2 c3 code)
  then show ?case
    by (auto elim!: cbind_RetE simp: Let_def peek_eq_0_iff split: if_splits)
qed (simp add: decode_loop_short)

subsection \<open>Properties\<close>

interpretation b64: byte_codec acl_base64_encode "\<lambda>s. c_value (acl_base64_decode s)" "\<lambda>_. True"
  by unfold_locales (simp_all add: acl_base64_decode_def decode_loop_encode)

lemma vstring_decode_encode:
  "acl_vstring_base64_decode (acl_vstring_base64_encode s) = Ret (Some s)"
  using decode_loop_vstring [OF decode_loop_encode [of s "[]"] c_string_encode]
  by (simp add: acl_vstring_base64_decode_def vstring_encode_eq length_encode)

interpretation vb64: byte_codec acl_vstring_base64_encode
  "\<lambda>s. c_value (acl_vstring_base64_decode s)" "\<lambda>_. True"
  by unfold_locales (simp_all add: vstring_decode_encode)

text \<open>
  C36: Decoding what either encoder produced gives back the input bytes, with no access outside
  the tables, whatever the bytes are; the two encoders produce the same text.
\<close>

theorem base64_roundtrip:
  "acl_base64_decode (acl_base64_encode s) = Ret (Some s)
   \<and> acl_vstring_base64_decode (acl_vstring_base64_encode s) = Ret (Some s)
   \<and> acl_vstring_base64_encode s = acl_base64_encode s"
  using vstring_decode_encode [of s]
  by (simp add: acl_base64_decode_def decode_loop_encode vstring_encode_eq)

text \<open>
  Encoding \<open>n\<close> times and decoding \<open>n\<close> times is the identity, the law the self-test of
  \<open>acl_vstring_base64.c\<close> exercises for one to five levels.
\<close>

theorem vstring_base64_nested:
  "((\<lambda>r. Option.bind r (\<lambda>s. c_value (acl_vstring_base64_decode s))) ^^ n)
     (Some ((acl_vstring_base64_encode ^^ n) s)) = Some s"
  by (rule vb64.dec_iter_enc_iter) simp

text \<open>
  The buffers the two functions allocate are large enough: encoding writes exactly the
  allocated size less the terminator, and a successful decoding leaves room for the terminator.
\<close>

theorem base64_buffers:
  "acl_base64_encode_alloc (length s) = length (acl_base64_encode s) + 1
   \<and> (acl_base64_decode c = Ret (Some out) \<longrightarrow> length out < acl_base64_decode_alloc (length c))"
  using decode_loop_bound [of c "[]" out]
  by (auto simp: acl_base64_encode_alloc_def acl_base64_decode_alloc_def length_encode
      acl_base64_decode_def)

theorem base64_buffers_witness:
  "length (bytes_of ''ab'') < acl_base64_decode_alloc (length (bytes_of ''YWI=''))"
proof -
  have "acl_base64_decode (bytes_of ''YWI='') = Ret (Some (bytes_of ''ab''))" by code_simp
  with base64_buffers [of "[]" "bytes_of ''YWI=''" "bytes_of ''ab''"] show ?thesis by simp
qed

text \<open>
  C37: The string decoder refines the buffer decoder: on every C string whose length is a
  multiple of four, whatever \<open>acl_base64_decode\<close> accepts, \<open>acl_vstring_base64_decode\<close> accepts
  with the same result.
\<close>

theorem base64_vstring_accepts:
  assumes "c_string s" "length s mod 4 = 0" "acl_base64_decode s = Ret (Some out)"
  shows "acl_vstring_base64_decode s = Ret (Some out)"
  using assms by (simp add: acl_base64_decode_def acl_vstring_base64_decode_def decode_loop_vstring)

theorem base64_vstring_accepts_witness:
  "acl_vstring_base64_decode (bytes_of ''YWI='') = Ret (Some (bytes_of ''ab''))"
proof -
  have "acl_base64_decode (bytes_of ''YWI='') = Ret (Some (bytes_of ''ab''))" by code_simp
  then show ?thesis by (intro base64_vstring_accepts) simp_all
qed

text \<open>
  Neither decoder reads outside its 255-entry table as long as the byte 255 does not occur.
\<close>

theorem base64_decode_safe:
  assumes "255 \<notin> set s"
  shows "(\<exists>r. acl_base64_decode s = Ret r) \<and> (\<exists>r. acl_vstring_base64_decode s = Ret r)"
  using assms decode_loop_safe vstring_decode_loop_safe
  by (auto simp: acl_base64_decode_def acl_vstring_base64_decode_def)

theorem base64_decode_safe_witness:
  "\<exists>r. acl_base64_decode (bytes_of ''YW*='') = Ret r"
  using base64_decode_safe [of "bytes_of ''YW*=''"] by simp

text \<open>With the byte 255 as the second of a quantum, both decoders index past their table.\<close>

lemma base64_decode_reads_past_table:
  "acl_base64_decode [65, 255, 65, 65] = Fault \<and> acl_vstring_base64_decode [65, 255, 65, 65] = Fault"
  by code_simp

end
