(* ===== verification/Url_Code.thy ===== *)
theory Url_Code
  imports Acl_Interfaces
begin

text \<open>
  Percent encoding, \<open>lib_acl/src/code/acl_urlcode.c\<close>, and hexadecimal encoding,
  \<open>lib_acl/src/stdlib/string/acl_hex_code.c\<close>. The URL functions write into buffers they size
  themselves; every write is checked against the size, \<open>Fault\<close> being a write past the end.
\<close>

subsection \<open>\<open>acl_urlcode.c\<close>\<close>

definition enc_tab :: "byte list" where
  "enc_tab = bytes_of ''0123456789ABCDEF''"

definition dec_tab :: "byte list" where
  "dec_tab =
    replicate 48 0 @
    [0,  1,  2,  3,  4,  5,  6,  7,  8,  9,  0,  0,  0,  0,  0,  0,
     0, 10, 11, 12, 13, 14, 15,  0,  0,  0,  0,  0,  0,  0,  0,  0,
     0,  0,  0,  0,  0,  0,  0,  0,  0,  0,  0,  0,  0,  0,  0,  0,
     0, 10, 11, 12, 13, 14, 15,  0,  0,  0,  0,  0,  0,  0,  0,  0]
    @ replicate 144 0"

text \<open>
  \<open>strchr("_-.", c) == NULL\<close>: the search includes the terminator, so it also finds \<open>c = 0\<close>.
\<close>

definition url_special :: "byte \<Rightarrow> bool" where
  "url_special c \<longleftrightarrow> \<not> is_alnum c \<and> c \<notin> set (bytes_of ''_-.'' @ [0])"

text \<open>
  The encoder's loop: \<open>tmp\<close> is what has been written (the index \<open>j\<close> is its length),
  \<open>tmp_len\<close> the code's running size and \<open>alloc\<close> the size of the current buffer. The final
  step writes the terminator.
\<close>

fun url_encode_loop :: "byte list \<Rightarrow> byte list \<Rightarrow> nat \<Rightarrow> nat \<Rightarrow> byte list cres" where
  "url_encode_loop [] tmp tmp_len alloc = (if length tmp < alloc then Ret tmp else Fault)"
| "url_encode_loop (c # str) tmp tmp_len alloc =
    (if \<not> length tmp < alloc then Fault
     else if url_special c then
       (let tmp_len = tmp_len + 3; alloc = tmp_len in
        if \<not> length tmp + 2 < alloc then Fault
        else url_encode_loop str
          (tmp @ [ch CHR ''%'', enc_tab ! unat (drop_bit 4 c), enc_tab ! unat (c AND 15)])
          tmp_len alloc)
     else url_encode_loop str (tmp @ [c]) tmp_len alloc)"

definition acl_url_encode :: "byte list \<Rightarrow> byte list cres" where
  "acl_url_encode str = url_encode_loop str [] (length str) (length str + 1)"

text \<open>
  The decoder's loop. Where fewer than two bytes follow a percent sign it stores the sign,
  then the byte after it if there is one; the terminator is stored at the same index as that
  byte and replaces it.
\<close>

fun url_decode_loop :: "nat \<Rightarrow> byte list \<Rightarrow> byte list \<Rightarrow> byte list cres" where
  "url_decode_loop alloc [] tmp = (if length tmp < alloc then Ret tmp else Fault)"
| "url_decode_loop alloc (c # str) tmp =
    (if \<not> length tmp < alloc then Fault
     else if c \<noteq> ch CHR ''%'' then url_decode_loop alloc str (tmp @ [c])
     else
       (case str of
          [] \<Rightarrow> if length (tmp @ [c]) < alloc then Ret (tmp @ [c]) else Fault
        | [c1] \<Rightarrow> if length (tmp @ [c]) < alloc then Ret (tmp @ [c]) else Fault
        | c1 # c2 # str' \<Rightarrow>
            if is_alnum c1 \<and> is_alnum c2 then
              url_decode_loop alloc str'
                (tmp @ [push_bit 4 (dec_tab ! unat c1) + dec_tab ! unat c2])
            else url_decode_loop alloc str (tmp @ [c])))"

definition acl_url_decode :: "byte list \<Rightarrow> byte list cres" where
  "acl_url_decode str = url_decode_loop (length str + 1) str []"

subsection \<open>\<open>acl_hex_code.c\<close>\<close>

definition acl_hex_chars :: "byte list" where
  "acl_hex_chars = bytes_of ''0123456789ABCDEF''"

fun acl_hex_encode :: "byte list \<Rightarrow> byte list" where
  "acl_hex_encode [] = []"
| "acl_hex_encode (c # cp) =
     [acl_hex_chars ! unat (drop_bit 4 c AND 15), acl_hex_chars ! unat (c AND 15)]
     @ acl_hex_encode cp"

definition hex_digit :: "byte \<Rightarrow> byte option" where
  "hex_digit hex =
    (if ch CHR ''0'' \<le> hex \<and> hex \<le> ch CHR ''9'' then Some (hex - ch CHR ''0'')
     else if ch CHR ''A'' \<le> hex \<and> hex \<le> ch CHR ''F'' then Some (hex - ch CHR ''A'' + 10)
     else if ch CHR ''a'' \<le> hex \<and> hex \<le> ch CHR ''f'' then Some (hex - ch CHR ''a'' + 10)
     else None)"

definition hex_bin :: "byte \<Rightarrow> byte \<Rightarrow> byte" where
  "hex_bin b0 b1 = (push_bit 4 b0 OR b1)"

fun acl_hex_decode :: "byte list \<Rightarrow> byte list option" where
  "acl_hex_decode [] = Some []"
| "acl_hex_decode [_] = None"
| "acl_hex_decode (h0 # h1 # cp) =
     (case hex_digit h0 of
        None \<Rightarrow> None
      | Some b0 \<Rightarrow>
          (case hex_digit h1 of
             None \<Rightarrow> None
           | Some b1 \<Rightarrow> map_option (\<lambda>r. hex_bin b0 b1 # r) (acl_hex_decode cp)))"

subsection \<open>Nibbles\<close>

definition is_nibble :: "byte \<Rightarrow> bool" where
  "is_nibble n \<longleftrightarrow> n \<in> set (map of_nat [0..<16])"


text \<open>A byte is its two nibbles; a nibble is one of sixteen values, checked one by one.\<close>

lemma nibble_set: "unat w < 16 \<Longrightarrow> is_nibble w" for w :: byte
  by (auto simp: is_nibble_def intro!: image_eqI [of _ _ "unat w"])

lemma byte_nibbles:
  fixes c :: byte
  shows "is_nibble (drop_bit 4 c)" (is ?hi)
    and "is_nibble (c AND 15)" (is ?lo)
    and "drop_bit 4 c AND 15 = drop_bit 4 c" (is ?mask)
proof -
  have "unat c < 256"
    by (rule order_less_le_trans [OF unsigned_less]) simp
  then have *: "unat (drop_bit 4 c) < 16"
    unfolding unsigned_drop_bit_eq
    by (simp add: drop_bit_eq_div take_bit_nat_eq_self less_mult_imp_div_less)
  then show ?hi by (rule nibble_set)
  have m: "(15::byte) = mask 4" by (simp add: mask_eq_exp_minus_1)
  have "unat (c AND 15) < 16"
    unfolding m take_bit_eq_mask [symmetric] unsigned_take_bit_eq
    by (simp add: take_bit_eq_mod)
  then show ?lo by (rule nibble_set)
  show ?mask
    unfolding m by (rule bit_word_eqI) (auto simp: bit_simps dest: bit_imp_le_length)
qed

lemma byte_join:
  fixes c :: byte
  shows "push_bit 4 (drop_bit 4 c) OR (c AND 15) = c"
    and "push_bit 4 (drop_bit 4 c) + (c AND 15) = c"
proof -
  have m: "(15::byte) = mask 4" by (simp add: mask_eq_exp_minus_1)
  show *: "push_bit 4 (drop_bit 4 c) OR (c AND 15) = c"
    unfolding m by (rule bit_word_eqI) (auto simp: bit_simps)
  have "push_bit 4 (drop_bit 4 c) AND (c AND 15) = 0"
    unfolding m by (rule bit_word_eqI) (auto simp: bit_simps)
  then show "push_bit 4 (drop_bit 4 c) + (c AND 15) = c"
    using * by (simp add: disjunctive_add_eq_or)
qed

lemma enc_tab_facts:
  assumes "is_nibble n"
  shows "is_alnum (enc_tab ! unat n)" "dec_tab ! unat (enc_tab ! unat n) = n"
    "hex_digit (acl_hex_chars ! unat n) = Some n" 
proof -
  have "\<forall>n \<in> set (map of_nat [0..<16]). is_alnum (enc_tab ! unat (n::byte))
      \<and> dec_tab ! unat (enc_tab ! unat n) = n \<and> hex_digit (acl_hex_chars ! unat n) = Some n"
    by code_simp
  with assms [unfolded is_nibble_def] show "is_alnum (enc_tab ! unat n)" "dec_tab ! unat (enc_tab ! unat n) = n"
    "hex_digit (acl_hex_chars ! unat n) = Some n"
    by blast+
qed

lemmas nibble_facts = enc_tab_facts [OF byte_nibbles(1)] enc_tab_facts [OF byte_nibbles(2)]

subsection \<open>Encoding, then decoding\<close>

text \<open>What the encoder writes for a byte, as a list; the buffer bookkeeping drops out.\<close>

definition url_quote :: "byte \<Rightarrow> byte list" where
  "url_quote c =
    (if url_special c then [ch CHR ''%'', enc_tab ! unat (drop_bit 4 c), enc_tab ! unat (c AND 15)]
     else [c])"

lemma url_encode_loop_eq:
  assumes "length tmp + length str < alloc" "length tmp + length str \<le> tmp_len" 
  shows "url_encode_loop str tmp tmp_len alloc = Ret (tmp @ concat (map url_quote str))"
  using assms
proof (induction str arbitrary: tmp tmp_len alloc)
  case (Cons c str)
  then show ?case by (simp add: url_quote_def Let_def)
qed simp

lemma acl_url_encode_eq: "acl_url_encode s = Ret (concat (map url_quote s))"
  by (simp add: acl_url_encode_def url_encode_loop_eq)

lemma url_special_percent: "url_special 37"
  by code_simp

lemma url_quote_decode:
  assumes "length tmp + length (url_quote c @ str) < alloc"
  shows "url_decode_loop alloc (url_quote c @ str) tmp = url_decode_loop alloc str (tmp @ [c])"
  using assms url_special_percent
  by (auto simp: url_quote_def nibble_facts byte_join)

lemma url_decode_quotes:
  "length tmp + length (concat (map url_quote s)) < alloc \<Longrightarrow>
   url_decode_loop alloc (concat (map url_quote s)) tmp = Ret (tmp @ s)"
proof (induction s arbitrary: tmp)
  case (Cons c s)
  have "1 \<le> length (url_quote c)" by (simp add: url_quote_def)
  moreover have "length tmp + (length (url_quote c) + length (concat (map url_quote s))) < alloc"
    using Cons.prems by simp
  ultimately have "length (tmp @ [c]) + length (concat (map url_quote s)) < alloc"
    by (simp del: One_nat_def)
  from Cons.IH [OF this] Cons.prems show ?case
    by (simp add: url_quote_decode)
qed simp

lemma url_decode_step:
  "length tmp < alloc \<Longrightarrow>
   url_decode_loop alloc (c # c1 # c2 # s) tmp =
     (if c = 37 \<and> is_alnum c1 \<and> is_alnum c2
      then url_decode_loop alloc s (tmp @ [push_bit 4 (dec_tab ! unat c1) + dec_tab ! unat c2])
      else url_decode_loop alloc (c1 # c2 # s) (tmp @ [c]))"
  by (subst url_decode_loop.simps(2)) (simp del: url_decode_loop.simps)

lemma url_decode_loop_Ret:
  "length tmp + length str < alloc \<Longrightarrow>
   \<exists>out. url_decode_loop alloc str tmp = Ret out \<and> length out \<le> length tmp + length str"
proof (induction str arbitrary: tmp rule: length_induct)
  case (1 str)
  have IH: "\<exists>out. url_decode_loop alloc s t = Ret out \<and> length out \<le> length tmp + length str"
    if "length s < length str" "length t + length s \<le> length tmp + length str" for s t
    using 1 that by (meson le_less_trans le_trans)
  consider "str = []" | c where "str = [c]" | c c1 where "str = [c, c1]"
    | c c1 c2 s where "str = c # c1 # c2 # s"
    by (metis neq_Nil_conv)
  then show ?case
  proof cases
    case (4 c c1 c2 s)
    with IH [of "c1 # c2 # s" "tmp @ [c]"] IH [of s "tmp @ [b]" for b] "1.prems"
    show ?thesis by (simp add: url_decode_step del: url_decode_loop.simps)
  qed (use "1.prems" in auto)
qed

lemma hex_decode_encode: "acl_hex_decode (acl_hex_encode s) = Some s"
  by (induction s) (simp_all add: nibble_facts byte_nibbles(3) byte_join hex_bin_def)

definition hex_codes :: "byte list" where
  "hex_codes = map of_nat ([48..<58] @ [65..<71] @ [97..<103])"

lemma hex_digit_in_codes:
  assumes "hex_digit h = Some n"
  shows "h \<in> set hex_codes"
proof -
  have "unat h \<in> {48..<58} \<union> {65..<71} \<union> {97..<103}"
    using assms by (auto simp: hex_digit_def word_le_nat_alt split: if_splits)
  then have "of_nat (unat h) \<in> set hex_codes"
    unfolding hex_codes_def by (simp only: set_map set_append set_upt image_eqI Un_assoc)
  then show ?thesis by simp
qed

lemma hex_digit_to_upper:
  assumes "hex_digit h = Some n"
  shows "is_nibble n \<and> acl_hex_chars ! unat n = to_upper h"
proof -
  have "\<forall>h \<in> set hex_codes. \<exists>n \<in> set (map of_nat [0..<16]).
      hex_digit h = Some n \<and> acl_hex_chars ! unat n = to_upper h"
    by code_simp
  with hex_digit_in_codes [OF assms] assms show ?thesis
    by (fastforce simp: is_nibble_def)
qed

lemma hex_bin_split:
  assumes "is_nibble a" "is_nibble b"
  shows "drop_bit 4 (hex_bin a b) AND 15 = a" "hex_bin a b AND 15 = b"
proof -
  have "\<forall>a \<in> set (map of_nat [0..<16]). \<forall>b \<in> set (map of_nat [0..<16]).
      drop_bit 4 (push_bit 4 a OR b) AND 15 = (a :: byte) \<and> (push_bit 4 a OR b) AND 15 = b"
    by code_simp
  with assms show "drop_bit 4 (hex_bin a b) AND 15 = a" "hex_bin a b AND 15 = b"
    unfolding is_nibble_def hex_bin_def by blast+
qed

lemma hex_encode_decode: "acl_hex_decode s = Some r \<Longrightarrow> acl_hex_encode r = map to_upper s"
  by (induction s arbitrary: r rule: acl_hex_decode.induct)
    (auto split: option.splits dest!: hex_digit_to_upper simp: hex_bin_split)

lemma url_quote_safe:
  "c \<noteq> 0 \<Longrightarrow> b \<in> set (url_quote c) \<Longrightarrow> is_alnum b \<or> b \<in> set (bytes_of ''_-.%'')"
  by (auto simp: url_quote_def url_special_def nibble_facts split: if_splits)

lemma url_quote_nonzero: "c \<noteq> 0 \<Longrightarrow> 0 \<notin> set (url_quote c)"
proof -
  have "\<not> is_alnum 0" by code_simp
  then have "enc_tab ! unat (drop_bit 4 c) \<noteq> 0" "enc_tab ! unat (c AND 15) \<noteq> 0"
    using nibble_facts(1,4) [of c] by metis+
  moreover assume "c \<noteq> 0"
  ultimately show ?thesis by (auto simp: url_quote_def)
qed

lemma c_string_url_quotes: "c_string s \<Longrightarrow> c_string (concat (map url_quote s))"
  by (induction s) (auto simp: c_string_def url_quote_nonzero)

subsection \<open>Properties\<close>

interpretation url: byte_codec "\<lambda>s. the (c_value (map_cres Some (acl_url_encode s)))"
  "\<lambda>s. c_value (map_cres Some (acl_url_decode s))" c_string
  by unfold_locales
    (simp_all add: acl_url_encode_eq acl_url_decode_def url_decode_quotes c_string_url_quotes)

interpretation hex: byte_codec acl_hex_encode acl_hex_decode "\<lambda>_. True"
  by unfold_locales (simp_all add: hex_decode_encode)

text \<open>
  C38: URL encoding never writes past the buffer it grows, its output on a C string is a C string
  of letters, digits, and the characters underscore, hyphen, dot and percent, and URL decoding
  gives the string back.
\<close>

theorem url_roundtrip:
  assumes "c_string s"
  shows "\<exists>e. acl_url_encode s = Ret e \<and> acl_url_decode e = Ret s
     \<and> (\<forall>b \<in> set e. b \<noteq> 0 \<and> (is_alnum b \<or> b \<in> set (bytes_of ''_-.%'')))"
proof -
  have "\<forall>b \<in> set (concat (map url_quote s)). b \<noteq> 0"
    using c_string_url_quotes [OF assms] by (auto simp: c_string_def)
  moreover have "\<forall>b \<in> set (concat (map url_quote s)). is_alnum b \<or> b \<in> set (bytes_of ''_-.%'')"
  proof
    fix b assume "b \<in> set (concat (map url_quote s))"
    then obtain c where "c \<in> set s" "b \<in> set (url_quote c)" by auto
    moreover from this assms have "c \<noteq> 0" by (auto simp: c_string_def)
    ultimately show "is_alnum b \<or> b \<in> set (bytes_of ''_-.%'')" by (intro url_quote_safe)
  qed
  ultimately show ?thesis
    by (auto simp: acl_url_encode_eq acl_url_decode_def url_decode_quotes)
qed

theorem url_roundtrip_witness:
  "\<exists>e. acl_url_encode (bytes_of ''a b/c'') = Ret e \<and> acl_url_decode e = Ret (bytes_of ''a b/c'')"
  using url_roundtrip [of "bytes_of ''a b/c''"] by auto

text \<open>
  URL decoding of any input stays inside the buffer of \<open>strlen + 1\<close> bytes, and its result is
  never longer than the input.
\<close>

theorem url_decode_in_bounds:
  "\<exists>out. acl_url_decode s = Ret out \<and> length out \<le> length s"
  using url_decode_loop_Ret [of "[]" s "length s + 1"] by (simp add: acl_url_decode_def)

text \<open>
  The hexadecimal decoder inverts the encoder on every byte string, at any nesting depth, and
  conversely an accepted text is, up to the case of its letters, the encoding of the result.
\<close>

theorem hex_codec:
  "acl_hex_decode (acl_hex_encode s) = Some s
   \<and> ((\<lambda>r. Option.bind r acl_hex_decode) ^^ n) (Some ((acl_hex_encode ^^ n) s)) = Some s
   \<and> (acl_hex_decode t = Some r \<longrightarrow> acl_hex_encode r = map to_upper t)"
  using hex.dec_iter_enc_iter [where x = s and n = n] by (auto simp: hex.dec_enc hex_encode_decode)

theorem hex_codec_witness: "acl_hex_encode [171, 205] = map to_upper (bytes_of ''abCD'')"
proof -
  have "acl_hex_decode (bytes_of ''abCD'') = Some [171, 205]" by code_simp
  then show ?thesis using hex_codec [of "[]" 0 "bytes_of ''abCD''" "[171, 205]"] by simp
qed

text \<open>
  Two inputs on which the URL decoder loses data: the last byte of a truncated escape is
  overwritten by the terminator, and any two alphanumeric bytes after a percent sign are taken as
  hexadecimal digits.
\<close>

lemma url_decode_drops_last_byte:
  "acl_url_decode (bytes_of ''a%4'') = Ret (bytes_of ''a%'')"
  by code_simp

lemma url_decode_accepts_non_hex: "acl_url_decode (bytes_of ''%zz'') = Ret [0]"
  by code_simp

end
