(* ===== verification/Acl_Array.thy ===== *)
theory Acl_Array
  imports Acl_Interfaces
begin

text \<open>
  The dynamic pointer array, \<open>lib_acl/src/stdlib/common/acl_array.c\<close>. The cells behind \<open>count\<close>
  are part of the model: the code leaves stale pointers there. Memory comes from the heap or from
  a pool; both give the same contents, so the pool is not part of the state. C \<open>int\<close>s are
  unbounded here; \<open>grow_bound\<close> bounds what the code adds to \<open>capacity\<close>.
\<close>

record 'a acl_array =
  a_capacity :: int
  a_count :: int
  a_items :: "'a option list"

subsection \<open>Growing\<close>

definition acl_array_grow :: "'a acl_array \<Rightarrow> int \<Rightarrow> 'a acl_array" where
  "acl_array_grow a min_capacity =
    (if a_capacity a \<ge> min_capacity then a
     else
       (let min_delta = 16;
            delta = min_capacity + min_delta - 1;
            delta = delta div min_delta;
            delta = delta * min_delta
        in if delta \<le> 0 then a
           else
             (let capacity = a_capacity a + delta in
              a\<lparr>a_capacity := capacity,
                a_items := take (nat (a_count a)) (a_items a)
                  @ replicate (nat (capacity - a_count a)) None\<rparr>)))"

text \<open>\<open>None\<close> is the abort of \<open>acl_msg_fatal\<close>.\<close>

definition acl_array_pre_append :: "'a acl_array \<Rightarrow> int \<Rightarrow> 'a acl_array option" where
  "acl_array_pre_append a app_count =
    (if app_count \<le> 0 then None
     else if a_count a + app_count > a_capacity a
     then Some (acl_array_grow a (a_count a + app_count))
     else Some a)"

definition acl_array_create :: "int \<Rightarrow> 'a acl_array option" where
  "acl_array_create init_size =
    (let init_size = (if init_size \<le> 0 then 100 else init_size) in
     acl_array_pre_append \<lparr>a_capacity = 0, a_count = 0, a_items = []\<rparr> init_size)"

subsection \<open>Adding\<close>

text \<open>The second component of a result is the C return value.\<close>

definition acl_array_append :: "'a acl_array \<Rightarrow> 'a option \<Rightarrow> ('a acl_array \<times> int) cres" where
  "acl_array_append a obj =
    (let a = (if a_count a \<ge> a_capacity a then acl_array_grow a (a_count a + 16) else a) in
     map_cres (\<lambda>items. (a\<lparr>a_items := items, a_count := a_count a + 1\<rparr>, a_count a))
       (wr (a_items a) (a_count a) obj))"

definition acl_array_pred_insert ::
    "'a acl_array \<Rightarrow> int \<Rightarrow> 'a option \<Rightarrow> ('a acl_array \<times> int) cres" where
  "acl_array_pred_insert a position obj =
    (if position < 0 \<or> position \<ge> a_count a then Ret (a, -1)
     else
       (let a = (if a_count a \<ge> a_capacity a then acl_array_grow a (a_count a + 1) else a) in
        cbind (copy_up (a_items a) (a_count a) position) (\<lambda>items.
          map_cres (\<lambda>items. (a\<lparr>a_items := items, a_count := a_count a + 1\<rparr>, position))
            (wr items position obj))))"

definition acl_array_succ_insert ::
    "'a acl_array \<Rightarrow> int \<Rightarrow> 'a option \<Rightarrow> ('a acl_array \<times> int) cres" where
  "acl_array_succ_insert a position obj =
    (if position < 0 \<or> position \<ge> a_count a then Ret (a, -1)
     else
       (let a = (if a_count a \<ge> a_capacity a then acl_array_grow a (a_count a + 1) else a);
            position_succ = position + 1
        in cbind (copy_up (a_items a) (a_count a) position_succ) (\<lambda>items.
             map_cres (\<lambda>items. (a\<lparr>a_items := items, a_count := a_count a + 1\<rparr>, position_succ))
               (wr items position_succ obj))))"

definition acl_array_prepend :: "'a acl_array \<Rightarrow> 'a option \<Rightarrow> ('a acl_array \<times> int) cres" where
  "acl_array_prepend a obj = acl_array_pred_insert a 0 obj"

definition array_push_back :: "'a acl_array \<Rightarrow> 'a option \<Rightarrow> 'a acl_array cres" where
  "array_push_back a obj = map_cres fst (acl_array_append a obj)"

definition array_push_front :: "'a acl_array \<Rightarrow> 'a option \<Rightarrow> 'a acl_array cres" where
  "array_push_front a obj = map_cres fst (acl_array_prepend a obj)"

subsection \<open>Removing\<close>

definition array_pop_back :: "'a acl_array \<Rightarrow> ('a option \<times> 'a acl_array) cres" where
  "array_pop_back a =
    (if a_count a \<le> 0 then Ret (None, a)
     else
       (let a = a\<lparr>a_count := a_count a - 1\<rparr> in
        map_cres (\<lambda>obj. (obj, a)) (rd (a_items a) (a_count a))))"

definition array_pop_front :: "'a acl_array \<Rightarrow> ('a option \<times> 'a acl_array) cres" where
  "array_pop_front a =
    (if a_count a \<le> 0 then Ret (None, a)
     else cbind (rd (a_items a) 0) (\<lambda>obj.
       let a = a\<lparr>a_count := a_count a - 1\<rparr> in
       map_cres (\<lambda>items. (obj, a\<lparr>a_items := items\<rparr>))
         (copy_down (a_items a) 0 1 (a_count a + 1))))"

definition acl_array_clean :: "'a acl_array \<Rightarrow> bool \<Rightarrow> ('a acl_array \<times> 'a list) cres" where
  "acl_array_clean a free_fn =
    map_cres (\<lambda>(items, freed). (a\<lparr>a_items := items, a_count := 0\<rparr>, freed))
      (null_range free_fn (a_items a) 0 (a_count a) [])"

text \<open>The array itself is released: what is left is the list of the freed objects.\<close>

definition acl_array_free :: "'a acl_array \<Rightarrow> bool \<Rightarrow> 'a list cres" where
  "acl_array_free a free_fn = map_cres snd (acl_array_clean a free_fn)"

definition acl_array_delete_idx ::
    "'a acl_array \<Rightarrow> int \<Rightarrow> bool \<Rightarrow> ('a acl_array \<times> 'a list \<times> int) cres" where
  "acl_array_delete_idx a position free_fn =
    (if position < 0 \<or> position \<ge> a_count a then Ret (a, [], -1)
     else cbind (rd (a_items a) position) (\<lambda>p.
       cbind (wr (a_items a) position None) (\<lambda>items.
         map_cres (\<lambda>items. (a\<lparr>a_items := items, a_count := a_count a - 1\<rparr>, c_free free_fn p, 0))
           (copy_down items position (position + 1) (a_count a)))))"

definition acl_array_delete ::
    "'a acl_array \<Rightarrow> int \<Rightarrow> bool \<Rightarrow> ('a acl_array \<times> 'a list \<times> int) cres" where
  "acl_array_delete a idx free_fn =
    (if idx < 0 \<or> idx \<ge> a_count a then Ret (a, [], -1)
     else cbind (rd (a_items a) idx) (\<lambda>p.
       let a = a\<lparr>a_count := a_count a - 1\<rparr> in
       if a_count a > 0 then
         cbind (rd (a_items a) (a_count a)) (\<lambda>q.
           map_cres (\<lambda>items. (a\<lparr>a_items := items\<rparr>, c_free free_fn p, 0))
             (wr (a_items a) idx q))
       else Ret (a, c_free free_fn p, 0)))"

text \<open>The search loop of \<open>acl_array_delete_obj\<close>: the index of the first cell holding \<open>obj\<close>, or \<open>lim\<close>.\<close>

function find_obj :: "'a option list \<Rightarrow> 'a option \<Rightarrow> int \<Rightarrow> int \<Rightarrow> int cres" where
  "find_obj xs obj idx lim =
    (if idx < lim then
       cbind (rd xs idx) (\<lambda>p. if p = obj then Ret idx else find_obj xs obj (idx + 1) lim)
     else Ret lim)"
  by pat_completeness auto
termination
  by (relation "measure (\<lambda>(xs, obj, idx, lim). nat (lim - idx))") auto

declare find_obj.simps [simp del]

text \<open>The object is freed before the test that it was found.\<close>

definition acl_array_delete_obj ::
    "'a acl_array \<Rightarrow> 'a option \<Rightarrow> bool \<Rightarrow> ('a acl_array \<times> 'a list \<times> int) cres" where
  "acl_array_delete_obj a obj free_fn =
    cbind (find_obj (a_items a) obj 0 (a_count a)) (\<lambda>idx.
      let position = (if idx < a_count a then idx else -1); freed = c_free free_fn obj in
      if position = -1 then Ret (a, freed, -1)
      else cbind (wr (a_items a) idx None) (\<lambda>items.
        map_cres (\<lambda>(a, fs, ret). (a, freed @ fs, if ret < 0 then -1 else ret))
          (acl_array_delete_idx (a\<lparr>a_items := items\<rparr>) position False)))"

definition acl_array_delete_range ::
    "'a acl_array \<Rightarrow> int \<Rightarrow> int \<Rightarrow> bool \<Rightarrow> ('a acl_array \<times> 'a list \<times> int) cres" where
  "acl_array_delete_range a ibegin iend free_fn =
    (if ibegin < 0 \<or> iend < 0 \<or> a_count a \<le> 0 then Ret (a, [], -1)
     else if ibegin > iend then Ret (a, [], -1)
     else
       (let imax = a_count a - 1; iend = (if iend > imax then imax else iend) in
        cbind (if free_fn then null_range True (a_items a) ibegin (iend + 1) []
               else Ret (a_items a, [])) (\<lambda>(items, freed).
          map_cres (\<lambda>items. (a\<lparr>a_items := items, a_count := a_count a - (iend - ibegin + 1)\<rparr>,
                             freed, 0))
            (copy_down items ibegin (iend + 1) (imax + 1)))))"

definition acl_array_mv_idx ::
    "'a acl_array \<Rightarrow> int \<Rightarrow> int \<Rightarrow> bool \<Rightarrow> ('a acl_array \<times> 'a list \<times> int) cres" where
  "acl_array_mv_idx a ito ifrom free_fn =
    (if ito < 0 \<or> ifrom < 0 \<or> a_count a < 0 then Ret (a, [], -1)
     else if a_count a = 0 \<or> ito \<ge> ifrom \<or> ifrom \<ge> a_count a then Ret (a, [], 0)
     else
       (let i_max = a_count a - 1 in
        cbind (if free_fn then null_range True (a_items a) ito ifrom []
               else Ret (a_items a, [])) (\<lambda>(items, freed).
          map_cres (\<lambda>items.
              let count = a_count a - (ifrom - ito) in
              (a\<lparr>a_items := items, a_count := count\<rparr>, freed, if count < 0 then -1 else 0))
            (copy_down items ito ifrom (i_max + 1)))))"

subsection \<open>Reading and walking\<close>

definition acl_array_index :: "'a acl_array \<Rightarrow> int \<Rightarrow> 'a option cres" where
  "acl_array_index a idx =
    (if idx < 0 \<or> idx > a_count a - 1 then Ret None else rd (a_items a) idx)"

definition acl_array_size :: "'a acl_array \<Rightarrow> int" where
  "acl_array_size a = a_count a"

definition array_iter_head :: "'a acl_array \<Rightarrow> ('a, 'a) acl_iter cres" where
  "array_iter_head a =
    map_cres (\<lambda>p. \<lparr>it_ptr = p, it_data = p, it_dlen = -1, it_key = None, it_klen = 0,
                   it_i = 0, it_size = a_count a\<rparr>)
      (if a_items a = [] \<or> a_count a \<le> 0 then Ret None else rd (a_items a) 0)"

definition array_iter_next :: "('a, 'a) acl_iter \<Rightarrow> 'a acl_array \<Rightarrow> ('a, 'a) acl_iter cres" where
  "array_iter_next it a =
    (let it = it\<lparr>it_i := it_i it + 1\<rparr> in
     map_cres (\<lambda>p. it\<lparr>it_ptr := p, it_data := p\<rparr>)
       (if it_i it \<ge> a_count a then Ret None else rd (a_items a) (it_i it)))"

definition array_iter_tail :: "'a acl_array \<Rightarrow> ('a, 'a) acl_iter cres" where
  "array_iter_tail a =
    (let i = a_count a - 1 in
     map_cres (\<lambda>p. \<lparr>it_ptr = p, it_data = p, it_dlen = -1, it_key = None, it_klen = 0,
                    it_i = i, it_size = a_count a\<rparr>)
       (if a_items a = [] \<or> i < 0 then Ret None else rd (a_items a) i))"

definition array_iter_prev :: "('a, 'a) acl_iter \<Rightarrow> 'a acl_array \<Rightarrow> ('a, 'a) acl_iter cres" where
  "array_iter_prev it a =
    (let it = it\<lparr>it_i := it_i it - 1\<rparr> in
     map_cres (\<lambda>p. it\<lparr>it_ptr := p, it_data := p\<rparr>)
       (if it_i it < 0 then Ret None else rd (a_items a) (it_i it)))"

subsection \<open>The invariant, and what each operation does to the sequence\<close>

definition arr_list :: "'a acl_array \<Rightarrow> 'a option list" where
  "arr_list a = take (nat (a_count a)) (a_items a)"

definition array_inv :: "'a acl_array \<Rightarrow> bool" where
  "array_inv a \<longleftrightarrow> 0 \<le> a_count a \<and> a_count a \<le> a_capacity a
     \<and> a_capacity a = int (length (a_items a))"

text \<open>Every state of the invariant is a sequence followed by stale cells.\<close>

definition mk_arr :: "'a option list \<Rightarrow> 'a option list \<Rightarrow> 'a acl_array" where
  "mk_arr xs tail = \<lparr>a_capacity = int (length xs + length tail), a_count = int (length xs),
                    a_items = xs @ tail\<rparr>"

lemma mk_arr_sel [simp]:
  "a_capacity (mk_arr xs tail) = int (length xs + length tail)"
  "a_count (mk_arr xs tail) = int (length xs)"
  "a_items (mk_arr xs tail) = xs @ tail"
  by (simp_all add: mk_arr_def)

lemma mk_arr_inv [simp]: "array_inv (mk_arr xs tail)" and arr_list_mk [simp]: "arr_list (mk_arr xs tail) = xs"
  by (simp_all add: array_inv_def arr_list_def)

lemma array_inv_cases:
  assumes "array_inv a"
  obtains tail where "a = mk_arr (arr_list a) tail"
proof
  show "a = mk_arr (arr_list a) (drop (nat (a_count a)) (a_items a))"
    using assms by (cases a) (auto simp: array_inv_def mk_arr_def arr_list_def)
qed

lemma mk_arr_update:
  assumes "length items = length xs + length tail" "n = int m" "m \<le> length items"
  shows "(mk_arr xs tail)\<lparr>a_items := items, a_count := n\<rparr> = mk_arr (take m items) (drop m items)"
  using assms by (simp add: mk_arr_def)

lemma round_up_16: "0 < (m::int) \<Longrightarrow> m \<le> (m + 15) div 16 * 16 \<and> (m + 15) div 16 * 16 \<le> m + 15"
  by presburger

lemma grow_mk:
  assumes "int (length xs + length tail) < m"
  shows "\<exists>n > 0. acl_array_grow (mk_arr xs tail) m = mk_arr xs (replicate n None)"
proof -
  let ?d = "(m + 15) div 16 * 16"
  have d: "m \<le> ?d" using assms round_up_16 [of m] by linarith
  have "acl_array_grow (mk_arr xs tail) m =
      mk_arr xs (replicate (nat (int (length xs + length tail) + ?d - int (length xs))) None)"
    using assms d by (auto simp: acl_array_grow_def mk_arr_def Let_def add.commute [of 15])
  moreover have "0 < nat (int (length xs + length tail) + ?d - int (length xs))"
    using assms d by simp
  ultimately show ?thesis by blast
qed

text \<open>Growing at most doubles the need: the bound under which no \<open>int\<close> overflows.\<close>

lemma grow_bound: "a_capacity (acl_array_grow a m) \<le> max (a_capacity a) (a_capacity a + m + 15)"
  using round_up_16 [of m] by (simp add: acl_array_grow_def Let_def) linarith

lemma make_room:
  assumes "0 < k"
  obtains t ts where
    "(if int (length xs) \<ge> int (length xs + length tail)
      then acl_array_grow (mk_arr xs tail) (int (length xs) + k) else mk_arr xs tail)
     = mk_arr xs (t # ts)"
proof (cases tail)
  case Nil
  then obtain n where "acl_array_grow (mk_arr xs tail) (int (length xs) + k)
      = mk_arr xs (replicate (Suc n) None)"
    using grow_mk [of xs tail "int (length xs) + k"] assms by (auto simp: gr0_conv_Suc)
  with Nil that [of None "replicate n None"] show ?thesis by simp
qed (use that in auto)

lemma append_mk:
  "\<exists>ts. acl_array_append (mk_arr xs tail) obj = Ret (mk_arr (xs @ [obj]) ts, int (length xs))"
proof -
  obtain t ts where g: "(if int (length xs) \<ge> int (length xs + length tail)
      then acl_array_grow (mk_arr xs tail) (int (length xs) + 16) else mk_arr xs tail)
     = mk_arr xs (t # ts)"
    by (rule make_room [of 16]) auto
  have "acl_array_append (mk_arr xs tail) obj = Ret (mk_arr (xs @ [obj]) ts, int (length xs))"
    unfolding acl_array_append_def mk_arr_sel g by (simp add: mk_arr_def)
  then show ?thesis ..
qed

lemma insert_mk:
  assumes "p \<le> length xs"
  shows "cbind (copy_up (xs @ t # ts) (int (length xs)) (int p)) (\<lambda>items. wr items (int p) obj)
    = Ret (take p xs @ obj # drop p xs @ ts)"
  using assms by (simp add: copy_up_eq) (simp add: list_update_append upd_conv_take_nth_drop)

lemma pred_insert_mk:
  assumes "p < length xs"
  shows "\<exists>ts. acl_array_pred_insert (mk_arr xs tail) (int p) obj =
    Ret (mk_arr (take p xs @ obj # drop p xs) ts, int p)"
proof -
  obtain t ts where g: "(if int (length xs) \<ge> int (length xs + length tail)
      then acl_array_grow (mk_arr xs tail) (int (length xs) + 1) else mk_arr xs tail)
     = mk_arr xs (t # ts)"
    by (rule make_room [of 1]) auto
  obtain items where "copy_up (xs @ t # ts) (int (length xs)) (int p) = Ret items"
    "wr items (int p) obj = Ret (take p xs @ obj # drop p xs @ ts)"
    using insert_mk [of p xs t ts obj] assms by (auto simp: cbind_eq_Ret_iff)
  then have "acl_array_pred_insert (mk_arr xs tail) (int p) obj =
      Ret (mk_arr (take p xs @ obj # drop p xs) ts, int p)"
    using assms unfolding acl_array_pred_insert_def mk_arr_sel g by (simp add: mk_arr_def)
  then show ?thesis ..
qed

lemma succ_insert_mk:
  assumes "p < length xs"
  shows "\<exists>ts. acl_array_succ_insert (mk_arr xs tail) (int p) obj =
    Ret (mk_arr (take (Suc p) xs @ obj # drop (Suc p) xs) ts, int (Suc p))"
proof -
  obtain t ts where g: "(if int (length xs) \<ge> int (length xs + length tail)
      then acl_array_grow (mk_arr xs tail) (int (length xs) + 1) else mk_arr xs tail)
     = mk_arr xs (t # ts)"
    by (rule make_room [of 1]) auto
  obtain items where "copy_up (xs @ t # ts) (int (length xs)) (int (Suc p)) = Ret items"
    "wr items (int (Suc p)) obj = Ret (take (Suc p) xs @ obj # drop (Suc p) xs @ ts)"
    using insert_mk [of "Suc p" xs t ts obj] assms by (auto simp: cbind_eq_Ret_iff)
  then have "acl_array_succ_insert (mk_arr xs tail) (int p) obj =
      Ret (mk_arr (take (Suc p) xs @ obj # drop (Suc p) xs) ts, int (Suc p))"
    using assms unfolding acl_array_succ_insert_def mk_arr_sel g
    by (simp add: mk_arr_def ac_simps)
  then show ?thesis ..
qed

lemma pop_back_mk:
  "array_pop_back (mk_arr (xs @ [x]) tail) = Ret (x, mk_arr xs (x # tail))"
  "array_pop_back (mk_arr [] tail) = Ret (None, mk_arr [] tail)"
  by (simp_all add: array_pop_back_def mk_arr_def nth_append)

text \<open>Moving the cells from \<open>s\<close> on down to \<open>d\<close> drops the part between.\<close>

lemma copy_down_mk:
  assumes "d \<le> s" "s \<le> length xs"
  shows "\<exists>ts. copy_down (xs @ tail) (int d) (int s) (int (length xs)) =
      Ret ((take d xs @ drop s xs) @ ts)
      \<and> length ts + (length xs - (s - d)) = length xs + length tail"
  using copy_down_eq [of d s "length xs" "xs @ tail"] assms by auto

lemma pop_front_mk:
  "\<exists>ts. array_pop_front (mk_arr (x # xs) tail) = Ret (x, mk_arr xs ts)"
  "array_pop_front (mk_arr [] tail) = Ret (None, mk_arr [] tail)"
  using copy_down_mk [of 0 1 "x # xs" tail]
  by (auto simp: array_pop_front_def mk_arr_def ac_simps)

lemma delete_idx_mk:
  assumes "p < length xs"
  shows "\<exists>ts. acl_array_delete_idx (mk_arr xs tail) (int p) f =
    Ret (mk_arr (take p xs @ drop (Suc p) xs) ts, c_free f (xs ! p), 0)"
  using assms copy_down_mk [of p "Suc p" "xs[p := None]" tail]
  by (auto simp: acl_array_delete_idx_def mk_arr_def nth_append list_update_append ac_simps)

lemma null_range_mk:
  assumes "i \<le> l" "l \<le> length xs"
  shows "null_range True (xs @ tail) (int i) (int l) [] =
    Ret ((take i xs @ replicate (l - i) None @ drop l xs) @ tail, live (take (l - i) (drop i xs)))"
  using null_range_eq [of i l "xs @ tail" True "[]"] assms by simp

lemma close_gap_mk:
  assumes "d \<le> s" "s \<le> length xs" "n = int (length xs - (s - d))"
  shows "\<exists>ts. map_cres (\<lambda>items. ((mk_arr xs tail)\<lparr>a_items := items, a_count := n\<rparr>, r))
      (cbind (if f then null_range True (xs @ tail) (int d) (int s) [] else Ret (xs @ tail, []))
        (\<lambda>(items, freed). copy_down items (int d) (int s) (int (length xs))))
    = Ret (mk_arr (take d xs @ drop s xs) ts, r)"
proof -
  define ys where "ys = (if f then take d xs @ replicate (s - d) None @ drop s xs else xs)"
  have len: "length ys = length xs" and part: "take d ys @ drop s ys = take d xs @ drop s xs"
    using assms by (auto simp: ys_def)
  obtain ts where "copy_down (ys @ tail) (int d) (int s) (int (length xs)) =
      Ret ((take d ys @ drop s ys) @ ts)" "length ts + (length xs - (s - d)) = length xs + length tail"
    using copy_down_mk [of d s ys tail] assms len by auto
  then show ?thesis
    using null_range_mk [of d s xs tail] assms part
    by (auto simp: ys_def mk_arr_def ac_simps split: if_splits)
qed

lemma delete_range_mk:
  assumes "b \<le> e" "b < length xs"
  shows "\<exists>ts. acl_array_delete_range (mk_arr xs tail) (int b) (int e) f =
    Ret (mk_arr (take b xs @ drop (Suc e) xs) ts,
         if f then live (take (Suc e - b) (drop b xs)) else [], 0)"
proof -
  define s where "s = min (Suc e) (length xs)"
  have s: "b \<le> s" "s \<le> length xs" "drop s xs = drop (Suc e) xs"
      "take (s - b) (drop b xs) = take (Suc e - b) (drop b xs)" "b < s"
    using assms by (auto simp: s_def min_def)
  have e: "(if int e > int (length xs) - 1 then int (length xs) - 1 else int e) = int s - 1"
    using assms by (auto simp: s_def)
  have n: "int (length xs) - (int s - 1 - int b + 1) = int (length xs - (s - b))"
    using s by auto
  obtain ts where ts: "map_cres (\<lambda>items. ((mk_arr xs tail)\<lparr>a_items := items,
        a_count := int (length xs - (s - b))\<rparr>, ()))
      (cbind (if f then null_range True (xs @ tail) (int b) (int s) [] else Ret (xs @ tail, []))
        (\<lambda>(items, freed). copy_down items (int b) (int s) (int (length xs))))
    = Ret (mk_arr (take b xs @ drop s xs) ts, ())"
    using close_gap_mk [OF s(1,2) refl, where tail = tail and r = "()" and f = f] by blast
  show ?thesis
    using ts assms s unfolding acl_array_delete_range_def Let_def mk_arr_sel e n
    by (cases f) (auto simp: null_range_mk map_cres_def cbind_eq_Ret_iff)
qed

lemma mv_idx_mk:
  assumes "d < s" "s < length xs"
  shows "\<exists>ts. acl_array_mv_idx (mk_arr xs tail) (int d) (int s) f =
    Ret (mk_arr (take d xs @ drop s xs) ts,
         if f then live (take (s - d) (drop d xs)) else [], 0)"
proof -
  have n: "int (length xs) - (int s - int d) = int (length xs - (s - d))"
    using assms by auto
  obtain ts where ts: "map_cres (\<lambda>items. ((mk_arr xs tail)\<lparr>a_items := items,
        a_count := int (length xs - (s - d))\<rparr>, ()))
      (cbind (if f then null_range True (xs @ tail) (int d) (int s) [] else Ret (xs @ tail, []))
        (\<lambda>(items, freed). copy_down items (int d) (int s) (int (length xs))))
    = Ret (mk_arr (take d xs @ drop s xs) ts, ())"
    using close_gap_mk [OF _ _ refl, of d s xs, where tail = tail and r = "()" and f = f] assms by auto
  show ?thesis
    using ts assms unfolding acl_array_mv_idx_def Let_def mk_arr_sel n
    by (cases f) (auto simp: null_range_mk map_cres_def cbind_eq_Ret_iff)
qed

lemma index_mk:
  "acl_array_index (mk_arr xs tail) (int i) = Ret (if i < length xs then xs ! i else None)"
  by (simp add: acl_array_index_def nth_append)

lemma find_obj_eq:
  assumes "i \<le> length xs"
  shows "find_obj (xs @ tail) obj (int i) (int (length xs)) =
    Ret (int (i + length (takeWhile (\<lambda>p. p \<noteq> obj) (drop i xs))))"
  using assms
proof (induction "length xs - i" arbitrary: i)
  case 0
  then show ?case by (simp add: find_obj.simps)
next
  case (Suc n)
  then have "find_obj (xs @ tail) obj (int (Suc i)) (int (length xs)) =
      Ret (int (Suc i + length (takeWhile (\<lambda>p. p \<noteq> obj) (drop (Suc i) xs))))"
    by (intro Suc.hyps(1)) auto
  moreover have "drop i xs = xs ! i # drop (Suc i) xs"
    using Suc by (simp add: Cons_nth_drop_Suc)
  ultimately show ?case
    using Suc by (subst find_obj.simps) (auto simp: nth_append ac_simps)
qed

lemma remove1_split:
  "x \<in> set xs \<Longrightarrow> let p = length (takeWhile (\<lambda>y. y \<noteq> x) xs) in
   p < length xs \<and> xs ! p = x \<and> remove1 x xs = take p xs @ drop (Suc p) xs"
  by (induction xs) (auto simp: Let_def)

lemma delete_obj_mk:
  "\<exists>ts. acl_array_delete_obj (mk_arr xs tail) obj f =
    (if obj \<in> set xs then Ret (mk_arr (remove1 obj xs) ts, c_free f obj, 0)
     else Ret (mk_arr xs tail, c_free f obj, -1))"
proof (cases "obj \<in> set xs")
  case True
  define p where "p = length (takeWhile (\<lambda>y. y \<noteq> obj) xs)"
  have p: "p < length xs" "remove1 obj xs = take p xs @ drop (Suc p) xs"
    using remove1_split [OF True] by (auto simp: p_def Let_def)
  have "(mk_arr xs tail)\<lparr>a_items := (xs @ tail)[p := None]\<rparr> = mk_arr (xs[p := None]) tail"
    using p by (simp add: mk_arr_def list_update_append)
  moreover obtain ts where "acl_array_delete_idx (mk_arr (xs[p := None]) tail) (int p) False =
      Ret (mk_arr (take p xs @ drop (Suc p) xs) ts, [], 0)"
    using delete_idx_mk [of p "xs[p := None]" tail False] p by auto
  ultimately show ?thesis
    using True p find_obj_eq [of 0 xs tail obj]
    by (auto simp: acl_array_delete_obj_def p_def [symmetric] Let_def)
next
  case False
  then have "takeWhile (\<lambda>p. p \<noteq> obj) xs = xs" by (auto simp: takeWhile_eq_all_conv)
  with False find_obj_eq [of 0 xs tail obj] show ?thesis
    by (simp add: acl_array_delete_obj_def Let_def)
qed

lemma delete_swap_mk:
  assumes "p < length xs"
  shows "\<exists>ts. acl_array_delete (mk_arr xs tail) (int p) f =
    Ret (mk_arr (butlast (xs[p := last xs])) ts, c_free f (xs ! p), 0)"
proof -
  obtain ys y where xs: "xs = ys @ [y]" using assms by (cases xs rule: rev_cases) auto
  show ?thesis
  proof (cases "ys = []")
    case True
    with assms xs show ?thesis by (auto simp: acl_array_delete_def mk_arr_def)
  next
    case False
    with assms xs show ?thesis
      by (auto simp: acl_array_delete_def mk_arr_def nth_append list_update_append
          butlast_append split: nat.splits)
  qed
qed

lemma clean_mk:
  "\<exists>ts. acl_array_clean (mk_arr xs tail) f = Ret (mk_arr [] ts, if f then live xs else [])"
  using null_range_eq [of 0 "length xs" "xs @ tail" f "[]"]
  by (auto simp: acl_array_clean_def mk_arr_def)

lemma create_mk:
  "\<exists>n > 0. acl_array_create k = Some (mk_arr [] (replicate n None) :: 'a acl_array)"
proof -
  define m where "m = (if k \<le> 0 then 100 else k)"
  have "0 < m" by (simp add: m_def)
  have nil: "\<lparr>a_capacity = 0, a_count = 0, a_items = []\<rparr> = mk_arr [] []"
    by (simp add: mk_arr_def)
  have "acl_array_create k = Some (acl_array_grow (mk_arr [] [] :: 'a acl_array) m)"
    using \<open>0 < m\<close> unfolding acl_array_create_def m_def [symmetric] Let_def nil
    by (simp add: acl_array_pre_append_def)
  then show ?thesis
    using grow_mk [of "[]" "[]" m] \<open>0 < m\<close> by auto
qed

subsection \<open>The array as a queue and as an iterable container\<close>

interpretation arr: acl_queue array_push_back array_pop_front array_pop_back arr_list array_inv
  "\<lambda>_. True" None
proof
  fix s :: "'a acl_array" and x assume s: "array_inv s"
  obtain t where t: "s = mk_arr (arr_list s) t" using s by (rule array_inv_cases)
  show "\<exists>t. array_push_back s x = Ret t \<and> array_inv t \<and> arr_list t = arr_list s @ [x]"
    by (subst (1) t) (use append_mk [of "arr_list s" t x] in \<open>auto simp: array_push_back_def\<close>)
  show "array_pop_front s = Ret (None, s)" if "arr_list s = []"
    by (subst (1 2) t) (simp add: that pop_front_mk)
  show "array_pop_back s = Ret (None, s)" if "arr_list s = []"
    by (subst (1 2) t) (simp add: that pop_back_mk)
  fix xs
  show "\<exists>t. array_pop_front s = Ret (x, t) \<and> array_inv t \<and> arr_list t = xs" if "arr_list s = x # xs"
    by (subst t) (use pop_front_mk(1) [of x xs t] that in auto)
  show "\<exists>t. array_pop_back s = Ret (x, t) \<and> array_inv t \<and> arr_list t = xs" if "arr_list s = xs @ [x]"
    by (subst t) (use pop_back_mk(1) [of xs x t] that in auto)
qed

definition array_at :: "'a acl_array \<Rightarrow> nat \<Rightarrow> ('a, 'a) acl_iter \<Rightarrow> bool" where
  "array_at a k it \<longleftrightarrow> it_i it = int k \<and> it_data it = it_ptr it
     \<and> it_ptr it = (if k < length (arr_list a) then arr_list a ! k else None)"

definition array_at_rev :: "'a acl_array \<Rightarrow> nat \<Rightarrow> ('a, 'a) acl_iter \<Rightarrow> bool" where
  "array_at_rev a k it \<longleftrightarrow> it_i it = int (length (arr_list a)) - 1 - int k \<and> it_data it = it_ptr it
     \<and> it_ptr it = (if k < length (arr_list a) then rev (arr_list a) ! k else None)"

text \<open>The iterators end at the first null pointer, so they are specified on arrays without one.\<close>

definition array_full :: "'a acl_array \<Rightarrow> bool" where
  "array_full a \<longleftrightarrow> array_inv a \<and> None \<notin> set (arr_list a)"

lemma array_full_cases:
  assumes "array_full a"
  obtains ys tail where "a = mk_arr (map Some ys) tail"
  using assms by (metis array_full_def array_inv_cases live_full)

interpretation arr_fwd: acl_iterable array_iter_head array_iter_next "\<lambda>a. live (arr_list a)"
  array_full array_at
proof
  fix a :: "'a acl_array" and k it assume "array_full a"
  then obtain ys tail where a: "a = mk_arr (map Some ys) tail" by (rule array_full_cases)
  show "\<exists>it. array_iter_head a = Ret it \<and> array_at a 0 it"
    by (cases ys) (simp_all add: a array_iter_head_def array_at_def)
  show "it_ptr it = None" if "array_at a (length (live (arr_list a))) it"
    using that by (simp add: a array_at_def)
  assume k: "array_at a k it" "k < length (live (arr_list a))"
  then show "it_ptr it \<noteq> None \<and> it_data it = Some (live (arr_list a) ! k)"
    by (simp add: a array_at_def)
  show "\<exists>it'. array_iter_next it a = Ret it' \<and> array_at a (Suc k) it'"
    using k by (auto simp: a array_iter_next_def array_at_def nth_append nat_add_distrib)
qed

interpretation arr_rev: acl_iterable array_iter_tail array_iter_prev "\<lambda>a. rev (live (arr_list a))"
  array_full array_at_rev
proof
  fix a :: "'a acl_array" and k it assume "array_full a"
  then obtain ys tail where a: "a = mk_arr (map Some ys) tail" by (rule array_full_cases)
  show "\<exists>it. array_iter_tail a = Ret it \<and> array_at_rev a 0 it"
    by (cases ys rule: rev_cases)
      (simp_all add: a array_iter_tail_def array_at_rev_def nth_append Let_def)
  show "it_ptr it = None" if "array_at_rev a (length (rev (live (arr_list a)))) it"
    using that by (simp add: a array_at_rev_def)
  assume k: "array_at_rev a k it" "k < length (rev (live (arr_list a)))"
  then show "it_ptr it \<noteq> None \<and> it_data it = Some (rev (live (arr_list a)) ! k)"
    by (simp add: a array_at_rev_def rev_map)
  show "\<exists>it'. array_iter_prev it a = Ret it' \<and> array_at_rev a (Suc k) it'"
  proof (cases "Suc k < length ys")
    case True
    then obtain m where m: "length ys = Suc (Suc (m + k))"
      by (metis Suc_le_eq add.commute add_Suc le_Suc_ex)
    with k show ?thesis
      by (simp add: a array_iter_prev_def array_at_rev_def nth_append rev_nth)
  next
    case False
    with k have "length ys = Suc k" by (simp add: a)
    with k show ?thesis by (simp add: a array_iter_prev_def array_at_rev_def)
  qed
qed

subsection \<open>Properties\<close>

text \<open>
  Insertion. Appending adds at the end and returns the index used; inserting before or after
  a position inside the array adds exactly there and returns that index; a position outside
  leaves the array alone and returns \<open>-1\<close>. The invariant is kept and no cell outside the buffer
  is touched, growth included.
\<close>

theorem array_insert_spec:
  assumes "array_inv a"
  defines "xs \<equiv> arr_list a"
  shows "(\<exists>b. acl_array_append a obj = Ret (b, int (length xs)) \<and> array_inv b \<and> arr_list b = xs @ [obj])
    \<and> (if 0 \<le> i \<and> i < int (length xs) then
         (\<exists>b. acl_array_pred_insert a i obj = Ret (b, i) \<and> array_inv b
            \<and> arr_list b = take (nat i) xs @ obj # drop (nat i) xs)
         \<and> (\<exists>b. acl_array_succ_insert a i obj = Ret (b, i + 1) \<and> array_inv b
            \<and> arr_list b = take (nat i + 1) xs @ obj # drop (nat i + 1) xs)
       else acl_array_pred_insert a i obj = Ret (a, -1) \<and> acl_array_succ_insert a i obj = Ret (a, -1))"
proof -
  obtain t where a: "a = mk_arr xs t" using array_inv_cases [OF assms(1)] xs_def by metis
  have 1: "\<exists>b. acl_array_append a obj = Ret (b, int (length xs)) \<and> array_inv b \<and> arr_list b = xs @ [obj]"
    unfolding a using append_mk [of xs t obj] by auto
  have 2: "acl_array_pred_insert a i obj = Ret (a, -1) \<and> acl_array_succ_insert a i obj = Ret (a, -1)"
    if "\<not> (0 \<le> i \<and> i < int (length xs))"
    unfolding a using that by (auto simp: acl_array_pred_insert_def acl_array_succ_insert_def)
  have "(\<exists>b. acl_array_pred_insert a (int p) obj = Ret (b, int p) \<and> array_inv b
            \<and> arr_list b = take p xs @ obj # drop p xs)
     \<and> (\<exists>b. acl_array_succ_insert a (int p) obj = Ret (b, int (Suc p)) \<and> array_inv b
            \<and> arr_list b = take (Suc p) xs @ obj # drop (Suc p) xs)" if "p < length xs" for p
    unfolding a using pred_insert_mk [OF that, of t obj] succ_insert_mk [OF that, of t obj]
    by (metis arr_list_mk mk_arr_inv)
  from this [of "nat i"] 1 2 show ?thesis
    by (cases "0 \<le> i \<and> i < int (length xs)") (simp_all add: ac_simps nat_less_iff)
qed

definition demo_arr :: "nat acl_array" where
  "demo_arr = mk_arr [Some 1, Some 2, Some 3] [None]"

theorem array_insert_spec_witness:
  "\<exists>b. acl_array_succ_insert demo_arr 1 (Some 9) = Ret (b, 2) \<and> arr_list b = [Some 1, Some 2, Some 9, Some 3]"
  using array_insert_spec [of demo_arr "Some 9" 1] by (auto simp: demo_arr_def)

text \<open>
  Removal. Deleting an index, a range of indices or a moved-over block removes exactly those
  elements, keeps the order of the rest, and hands each removed non-null pointer to the callback
  once; deleting an object removes its first occurrence.
\<close>

theorem array_remove_spec:
  assumes "array_inv a"
  defines "xs \<equiv> arr_list a"
  shows "(i < length xs \<longrightarrow> (\<exists>b. acl_array_delete_idx a (int i) f = Ret (b, c_free f (xs ! i), 0)
       \<and> array_inv b \<and> arr_list b = take i xs @ drop (i + 1) xs))
    \<and> (i < length xs \<longrightarrow> i \<le> j \<longrightarrow> (\<exists>b. acl_array_delete_range a (int i) (int j) f =
         Ret (b, if f then live (take (j + 1 - i) (drop i xs)) else [], 0)
       \<and> array_inv b \<and> arr_list b = take i xs @ drop (j + 1) xs))
    \<and> (i < j \<longrightarrow> j < length xs \<longrightarrow> (\<exists>b. acl_array_mv_idx a (int i) (int j) f =
         Ret (b, if f then live (take (j - i) (drop i xs)) else [], 0)
       \<and> array_inv b \<and> arr_list b = take i xs @ drop j xs))
    \<and> (\<exists>b r. acl_array_delete_obj a obj f = Ret (b, c_free f obj, r) \<and> array_inv b
       \<and> arr_list b = remove1 obj xs \<and> r = (if obj \<in> set xs then 0 else -1))"
proof -
  obtain t where a: "a = mk_arr xs t" using array_inv_cases [OF assms(1)] xs_def by metis
  have "i < length xs \<longrightarrow> (\<exists>b. acl_array_delete_idx a (int i) f = Ret (b, c_free f (xs ! i), 0)
       \<and> array_inv b \<and> arr_list b = take i xs @ drop (i + 1) xs)"
    unfolding a using delete_idx_mk [of i xs t f] by auto
  moreover have "i < length xs \<longrightarrow> i \<le> j \<longrightarrow> (\<exists>b. acl_array_delete_range a (int i) (int j) f =
         Ret (b, if f then live (take (j + 1 - i) (drop i xs)) else [], 0)
       \<and> array_inv b \<and> arr_list b = take i xs @ drop (j + 1) xs)"
    unfolding a using delete_range_mk [of i j xs t f] by auto
  moreover have "i < j \<longrightarrow> j < length xs \<longrightarrow> (\<exists>b. acl_array_mv_idx a (int i) (int j) f =
         Ret (b, if f then live (take (j - i) (drop i xs)) else [], 0)
       \<and> array_inv b \<and> arr_list b = take i xs @ drop j xs)"
    unfolding a using mv_idx_mk [of i j xs t f] by auto
  moreover have "\<exists>b r. acl_array_delete_obj a obj f = Ret (b, c_free f obj, r) \<and> array_inv b
       \<and> arr_list b = remove1 obj xs \<and> r = (if obj \<in> set xs then 0 else -1)"
    unfolding a using delete_obj_mk [of xs t obj f] by (auto simp: remove1_idem split: if_splits)
  ultimately show ?thesis by blast
qed

theorem array_remove_spec_witness:
  "\<exists>b. acl_array_delete_range demo_arr 1 7 True = Ret (b, [2, 3], 0) \<and> arr_list b = [Some 1]"
  using array_remove_spec [of demo_arr, where i = 1 and j = 7 and f = True] by (auto simp: demo_arr_def)

text \<open>
  The array as a queue and as a stack: after any number of appends to an empty array, popping
  as often at the front returns the objects in the order they were added, popping at the back in
  the reverse order, and one more pop returns the null pointer.
\<close>

theorem array_queue_order:
  assumes "array_inv a" "arr_list a = []"
  shows "(\<exists>t u. c_push_all array_push_back a xs = Ret t
        \<and> c_pop_n array_pop_front t (length xs) = Ret (xs, u) \<and> array_pop_front u = Ret (None, u))
    \<and> (\<exists>t u. c_push_all array_push_back a xs = Ret t
        \<and> c_pop_n array_pop_back t (length xs) = Ret (rev xs, u) \<and> array_pop_back u = Ret (None, u))"
  using arr.fifo_order [OF assms] arr.lifo_order [OF assms] by simp

theorem array_queue_order_witness:
  "\<exists>t u. c_push_all array_push_back (mk_arr [] [None]) [Some 1, Some (2::nat)] = Ret t
     \<and> c_pop_n array_pop_front t 2 = Ret ([Some 1, Some 2], u)"
  using array_queue_order [of "mk_arr [] [None]" "[Some 1, Some (2::nat)]"]
  by (auto simp: numeral_2_eq_2)

text \<open>
  \<open>ACL_FOREACH\<close> over an array without null pointers ends after one turn per element and visits
  the elements in order; \<open>ACL_FOREACH_REVERSE\<close> visits them in reverse order.
\<close>

theorem array_foreach:
  assumes "array_full a" "a_count a < int fuel"
  shows "(\<exists>it. array_iter_head a = Ret it
      \<and> acl_foreach fuel array_iter_next a it = Ret (Some (arr_list a)))
    \<and> (\<exists>it. array_iter_tail a = Ret it
      \<and> acl_foreach fuel array_iter_prev a it = Ret (Some (rev (arr_list a))))"
proof -
  obtain ys tail where a: "a = mk_arr (map Some ys) tail" using assms(1) by (rule array_full_cases)
  with arr_fwd.foreach_all [OF assms(1), of fuel] arr_rev.foreach_all [OF assms(1), of fuel] assms(2)
  show ?thesis by (simp add: rev_map)
qed

theorem array_foreach_witness:
  "\<exists>it. array_iter_tail demo_arr = Ret it
     \<and> acl_foreach 4 array_iter_prev demo_arr it = Ret (Some [Some 3, Some 2, Some 1])"
  using array_foreach [of demo_arr 4] by (auto simp: demo_arr_def array_full_def)

text \<open>
  Two corner cases where the code does not do what its caller asked: prepending to an empty array
  drops the object, and deleting a range that starts behind the last element enlarges the array.
\<close>

lemma array_push_front_empty: "array_push_front (mk_arr [] tail) obj = Ret (mk_arr [] tail)"
  by (simp add: array_push_front_def acl_array_prepend_def acl_array_pred_insert_def)

lemma array_delete_range_behind:
  "\<exists>b. acl_array_delete_range demo_arr 4 5 False = Ret (b, [], 0) \<and> a_count b = 4"
  by (simp add: acl_array_delete_range_def demo_arr_def Let_def copy_down.simps)

end
