(* ===== verification/Dlink.thy ===== *)
theory Dlink
  imports Acl_Array
begin

text \<open>
  The interval list, \<open>lib_acl/src/stdlib/common/acl_dlink.c\<close>: closed integer intervals kept in
  order in an \<open>ACL_ARRAY\<close>. Every item is referenced by one cell only, so an item is stored by
  value in its cell and a write through an item pointer is a write to that cell; a returned
  pointer is the value of the item it points to. The bounds are of type \<open>acl_int64\<close>: where the code adds 1
  to one or subtracts 1 from it, a result outside the type is \<open>Fault\<close>. The points that a list can hold
  without that are those below the largest \<open>acl_int64\<close>.
\<close>

subsection \<open>Items, ordered by their bounds\<close>

datatype ditem = DItem (d_begin: int) (d_end: int)

instantiation ditem :: linorder
begin

definition less_eq_ditem :: "ditem \<Rightarrow> ditem \<Rightarrow> bool" where
  "less_eq_ditem x y \<longleftrightarrow> d_begin x < d_begin y \<or> d_begin x = d_begin y \<and> d_end x \<le> d_end y"

definition less_ditem :: "ditem \<Rightarrow> ditem \<Rightarrow> bool" where
  "less_ditem x y \<longleftrightarrow> d_begin x < d_begin y \<or> d_begin x = d_begin y \<and> d_end x < d_end y"

instance
  by standard (auto simp: less_eq_ditem_def less_ditem_def intro: ditem.expand)

end

record acl_dlink =
  dl_parray :: "ditem acl_array"

text \<open>Reading through the pointer at an index; the null pointer faults.\<close>

definition ditem_at :: "ditem acl_array \<Rightarrow> int \<Rightarrow> ditem cres" where
  "ditem_at a idx =
    cbind (acl_array_index a idx) (\<lambda>p. case p of None \<Rightarrow> Fault | Some d \<Rightarrow> Ret d)"

definition ditem_set :: "ditem acl_array \<Rightarrow> int \<Rightarrow> ditem \<Rightarrow> ditem acl_array cres" where
  "ditem_set a idx d = map_cres (\<lambda>items. a\<lparr>a_items := items\<rparr>) (wr (a_items a) idx (Some d))"

subsection \<open>Searching\<close>

text \<open>The loop of \<open>scope_pos\<close>; \<open>-1\<close> is its error result.\<close>

function scope_pos_loop :: "ditem acl_array \<Rightarrow> int \<Rightarrow> int \<Rightarrow> int \<Rightarrow> int cres" where
  "scope_pos_loop a n lidx hidx =
    (if lidx \<le> hidx then
       (let midx = (lidx + hidx) div 2; ridx = midx + 1 in
        if ridx > hidx then
          Ret (if hidx = 0 then 0
               else if hidx = acl_array_size a - 1 then acl_array_size a - 1 else -1)
        else cbind (ditem_at a midx) (\<lambda>pitem_left. cbind (ditem_at a ridx) (\<lambda>pitem_right.
          if n \<ge> d_begin pitem_left \<and> n < d_begin pitem_right then Ret midx
          else if n \<ge> d_begin pitem_right then scope_pos_loop a n ridx hidx
          else if n < d_begin pitem_left then scope_pos_loop a n lidx midx
          else Ret (-1))))
     else Ret 0)"
  by pat_completeness auto
termination
  by (relation "measure (\<lambda>(a, n, lidx, hidx). nat (hidx - lidx + 1))") auto

declare scope_pos_loop.simps [simp del]

definition scope_pos :: "ditem acl_array \<Rightarrow> int \<Rightarrow> int cres" where
  "scope_pos a n = scope_pos_loop a n 0 (acl_array_size a - 1)"

definition begin_pos :: "ditem acl_array \<Rightarrow> int \<Rightarrow> int cres" where
  "begin_pos a n = scope_pos a n"

definition end_pos :: "ditem acl_array \<Rightarrow> int \<Rightarrow> int cres" where
  "end_pos a n = scope_pos a n"

text \<open>The binary search of \<open>acl_dlink_lookup2\<close>; the result is the item and its index.\<close>

function lookup2_loop :: "ditem acl_array \<Rightarrow> int \<Rightarrow> int \<Rightarrow> int \<Rightarrow> (ditem \<times> int) option cres" where
  "lookup2_loop a n lidx hidx =
    (if lidx \<le> hidx then
       (let midx = (lidx + hidx) div 2 in
        cbind (ditem_at a midx) (\<lambda>pitem.
          if n \<ge> d_begin pitem \<and> n \<le> d_end pitem then Ret (Some (pitem, midx))
          else if n < d_begin pitem then lookup2_loop a n lidx (midx - 1)
          else if n > d_end pitem then lookup2_loop a n (midx + 1) hidx
          else Ret None))
     else Ret None)"
  by pat_completeness auto
termination
  by (relation "measure (\<lambda>(a, n, lidx, hidx). nat (hidx - lidx + 1))") auto

declare lookup2_loop.simps [simp del]

definition acl_dlink_lookup2 :: "acl_dlink \<Rightarrow> int \<Rightarrow> (ditem \<times> int) option cres" where
  "acl_dlink_lookup2 plink n =
    lookup2_loop (dl_parray plink) n 0 (acl_array_size (dl_parray plink) - 1)"

definition acl_dlink_lookup :: "acl_dlink \<Rightarrow> int \<Rightarrow> ditem option cres" where
  "acl_dlink_lookup plink n = map_cres (map_option fst) (acl_dlink_lookup2 plink n)"

definition acl_dlink_lookup_range ::
    "acl_dlink \<Rightarrow> int \<Rightarrow> int \<Rightarrow> (ditem \<times> int) option cres" where
  "acl_dlink_lookup_range plink begin end' =
    (if end' < begin then Ret None
     else map_cres (\<lambda>r. case r of None \<Rightarrow> None
         | Some (ditem, idx) \<Rightarrow> if d_end ditem \<ge> end' then Some (ditem, idx) else None)
       (acl_dlink_lookup2 plink begin))"

function lookup_larger_loop :: "ditem acl_array \<Rightarrow> int \<Rightarrow> int \<Rightarrow> int \<Rightarrow> (ditem \<times> int) option cres" where
  "lookup_larger_loop a off i sz =
    (if i < sz then
       cbind (ditem_at a i) (\<lambda>pitem.
         if d_end pitem \<ge> off then Ret (Some (pitem, i)) else lookup_larger_loop a off (i + 1) sz)
     else Ret None)"
  by pat_completeness auto
termination
  by (relation "measure (\<lambda>(a, off, i, sz). nat (sz - i))") auto

function lookup_lower_loop :: "ditem acl_array \<Rightarrow> int \<Rightarrow> int \<Rightarrow> (ditem \<times> int) option cres" where
  "lookup_lower_loop a off i =
    (if i \<ge> 0 then
       cbind (ditem_at a i) (\<lambda>pitem.
         if d_begin pitem \<le> off then Ret (Some (pitem, i)) else lookup_lower_loop a off (i - 1))
     else Ret None)"
  by pat_completeness auto
termination
  by (relation "measure (\<lambda>(a, off, i). nat (i + 1))") auto

declare lookup_larger_loop.simps [simp del] lookup_lower_loop.simps [simp del]

definition acl_dlink_lookup_larger :: "acl_dlink \<Rightarrow> int \<Rightarrow> (ditem \<times> int) option cres" where
  "acl_dlink_lookup_larger plink off =
    lookup_larger_loop (dl_parray plink) off 0 (acl_array_size (dl_parray plink))"

definition acl_dlink_lookup_lower :: "acl_dlink \<Rightarrow> int \<Rightarrow> (ditem \<times> int) option cres" where
  "acl_dlink_lookup_lower plink off =
    lookup_lower_loop (dl_parray plink) off (acl_array_size (dl_parray plink) - 1)"

text \<open>
  The search for an item by its address. Two items of a list without common points differ in
  value as soon as they differ in address.
\<close>

function lookup_item_loop :: "ditem acl_array \<Rightarrow> ditem \<Rightarrow> int \<Rightarrow> int \<Rightarrow> (ditem \<times> int) option cres" where
  "lookup_item_loop a pitem i lim =
    (if i < lim then
       cbind (acl_array_index a i) (\<lambda>p.
         if p = Some pitem then Ret (Some (pitem, i)) else lookup_item_loop a pitem (i + 1) lim)
     else Ret None)"
  by pat_completeness auto
termination
  by (relation "measure (\<lambda>(a, pitem, i, lim). nat (lim - i))") auto

declare lookup_item_loop.simps [simp del]

definition acl_dlink_lookup2_by_item :: "acl_dlink \<Rightarrow> ditem \<Rightarrow> (ditem \<times> int) option cres" where
  "acl_dlink_lookup2_by_item plink pitem =
    lookup_item_loop (dl_parray plink) pitem 0 (acl_array_size (dl_parray plink) - 1)"

subsection \<open>Adding an interval\<close>

text \<open>The helpers return the array and the new item, or \<open>None\<close> where the array refused it.\<close>

definition dlink_succ_insert ::
    "ditem acl_array \<Rightarrow> int \<Rightarrow> int \<Rightarrow> int \<Rightarrow> (ditem acl_array \<times> ditem option) cres" where
  "dlink_succ_insert a idx_position begin end' =
    map_cres (\<lambda>(a, ret). if ret < 0 then (a, None) else (a, Some (DItem begin end')))
      (acl_array_succ_insert a idx_position (Some (DItem begin end')))"

definition dlink_append ::
    "ditem acl_array \<Rightarrow> int \<Rightarrow> int \<Rightarrow> (ditem acl_array \<times> ditem option) cres" where
  "dlink_append a begin end' =
    map_cres (\<lambda>(a, ret). if ret < 0 then (a, None) else (a, Some (DItem begin end')))
      (acl_array_append a (Some (DItem begin end')))"

definition dlink_prepend ::
    "ditem acl_array \<Rightarrow> int \<Rightarrow> int \<Rightarrow> (ditem acl_array \<times> ditem option) cres" where
  "dlink_prepend a begin end' =
    map_cres (\<lambda>(a, ret). if ret < 0 then (a, None) else (a, Some (DItem begin end')))
      (acl_array_prepend a (Some (DItem begin end')))"

definition dlink_node_merge ::
    "ditem acl_array \<Rightarrow> int \<Rightarrow> int \<Rightarrow> (ditem acl_array \<times> ditem list \<times> int) cres" where
  "dlink_node_merge a idx_obj_begin idx_src_begin =
    (if idx_obj_begin \<ge> idx_src_begin then Ret (a, [], 0)
     else map_cres (\<lambda>(a, freed, ret). (a, freed, if ret < 0 then -1 else 0))
            (acl_array_mv_idx a idx_obj_begin idx_src_begin True))"

text \<open>Both bounds fall to the same item: insert before it, after it, or widen it.\<close>

definition dlink_add_same ::
    "ditem acl_array \<Rightarrow> int \<Rightarrow> ditem \<Rightarrow> int \<Rightarrow> int \<Rightarrow> (ditem acl_array \<times> ditem option) cres" where
  "dlink_add_same a idx_begin pitem_left begin end' =
    cbind (add64 end' 1) (\<lambda>end_1.
     if end_1 < d_begin pitem_left then dlink_prepend a begin end'
     else cbind (add64 (d_end pitem_left) 1) (\<lambda>left_1.
     if begin > left_1 then dlink_succ_insert a idx_begin begin end'
     else
       (let d = DItem (if begin < d_begin pitem_left then begin else d_begin pitem_left)
                      (if end' > d_end pitem_left then end' else d_end pitem_left)
        in map_cres (\<lambda>a. (a, Some d)) (ditem_set a idx_begin d))))"

text \<open>The bounds fall to different items: the right one absorbs the range and what lies between.\<close>

definition dlink_add_span ::
    "ditem acl_array \<Rightarrow> int \<Rightarrow> int \<Rightarrow> ditem \<Rightarrow> ditem \<Rightarrow> int \<Rightarrow> int \<Rightarrow>
     (ditem acl_array \<times> ditem option) cres" where
  "dlink_add_span a idx_begin idx_end pitem_left pitem_right begin end' =
    (let pitem_left = DItem (if begin < d_begin pitem_left then begin else d_begin pitem_left)
                            (d_end pitem_left)
     in cbind (ditem_set a idx_begin pitem_left) (\<lambda>a. cbind (add64 (d_end pitem_left) 1) (\<lambda>left_1.
       let right_end = (if end' > d_end pitem_right then end' else d_end pitem_right);
           merge_left = (begin \<le> left_1);
           pitem_right = DItem (if merge_left then d_begin pitem_left else begin) right_end
       in cbind (ditem_set a idx_end pitem_right) (\<lambda>a.
         map_cres (\<lambda>(a, freed, ret). (a, if ret < 0 then None else Some pitem_right))
           (dlink_node_merge a (if merge_left then idx_begin else idx_begin + 1) idx_end)))))"

definition dlink_add ::
    "ditem acl_array \<Rightarrow> int \<Rightarrow> int \<Rightarrow> (ditem acl_array \<times> ditem option) cres" where
  "dlink_add a begin end' =
    (if begin > end' then Ret (a, None)
     else cbind (begin_pos a begin) (\<lambda>idx_begin.
       if idx_begin < 0 \<or> idx_begin \<ge> acl_array_size a then Ret (a, None)
       else cbind (end_pos a end') (\<lambda>idx_end.
         if idx_end < 0 \<or> idx_end \<ge> acl_array_size a then Ret (a, None)
         else if idx_begin > idx_end then Ret (a, None)
         else if acl_array_size a = 0 then dlink_append a begin end'
         else cbind (ditem_at a idx_begin) (\<lambda>pitem_left.
           cbind (ditem_at a idx_end) (\<lambda>pitem_right.
             if idx_begin = idx_end then dlink_add_same a idx_begin pitem_left begin end'
             else dlink_add_span a idx_begin idx_end pitem_left pitem_right begin end')))))"

definition acl_dlink_insert :: "acl_dlink \<Rightarrow> int \<Rightarrow> int \<Rightarrow> (acl_dlink \<times> ditem option) cres" where
  "acl_dlink_insert plink begin end' =
    (let (begin, end') = (if begin > end' then (end', begin) else (begin, end')) in
     map_cres (\<lambda>(a, d). (plink\<lparr>dl_parray := a\<rparr>, d))
       (if acl_array_size (dl_parray plink) = 0
        then dlink_append (dl_parray plink) begin end'
        else dlink_add (dl_parray plink) begin end'))"

definition acl_dlink_modify :: "acl_dlink \<Rightarrow> int \<Rightarrow> int \<Rightarrow> (acl_dlink \<times> ditem option) cres" where
  "acl_dlink_modify plink begin end' =
    (let (begin, end') = (if begin > end' then (end', begin) else (begin, end')) in
     map_cres (\<lambda>(a, d). (plink\<lparr>dl_parray := a\<rparr>, d)) (dlink_add (dl_parray plink) begin end'))"

definition acl_dlink_create :: "int \<Rightarrow> acl_dlink option" where
  "acl_dlink_create nsize =
    map_option (\<lambda>a. \<lparr>dl_parray = a\<rparr>) (acl_array_create (if nsize > 0 then nsize else 1))"

subsection \<open>Deleting\<close>

definition acl_dlink_delete :: "acl_dlink \<Rightarrow> int \<Rightarrow> (acl_dlink \<times> ditem list \<times> int) cres" where
  "acl_dlink_delete plink n =
    cbind (acl_dlink_lookup2 plink n) (\<lambda>r. case r of
      None \<Rightarrow> Ret (plink, [], -1)
    | Some (ditem, idx) \<Rightarrow>
        map_cres (\<lambda>(a, freed, ret). (plink\<lparr>dl_parray := a\<rparr>, freed, 0))
          (acl_array_delete_idx (dl_parray plink) idx True))"

definition acl_dlink_delete_by_item :: "acl_dlink \<Rightarrow> ditem \<Rightarrow> (acl_dlink \<times> ditem list \<times> int) cres" where
  "acl_dlink_delete_by_item plink pitem =
    map_cres (\<lambda>(a, freed, ret). (plink\<lparr>dl_parray := a\<rparr>, freed, if ret < 0 then -1 else 0))
      (acl_array_delete_obj (dl_parray plink) (Some pitem) True)"

text \<open>The item at an index, cut behind \<open>end\<close> or in front of \<open>begin\<close>.\<close>

definition ditem_cut_low :: "ditem acl_array \<Rightarrow> int \<Rightarrow> ditem \<Rightarrow> int \<Rightarrow> ditem acl_array cres" where
  "ditem_cut_low a i pitem end' = cbind (add64 end' 1) (\<lambda>b. ditem_set a i (DItem b (d_end pitem)))"

definition ditem_cut_high :: "ditem acl_array \<Rightarrow> int \<Rightarrow> ditem \<Rightarrow> int \<Rightarrow> ditem acl_array cres" where
  "ditem_cut_high a i pitem begin = cbind (add64 begin (-1)) (\<lambda>e. ditem_set a i (DItem (d_begin pitem) e))"

text \<open>
  \<open>acl_dlink_delete_range\<close>, first loop: finds the first item that ends at or behind \<open>begin\<close>. It
  either finishes the deletion (\<open>Inl\<close> of the array, the freed items and the return value) or
  yields the lowest index to remove (\<open>Inr\<close>), \<open>0\<close> when no item qualifies.
\<close>

type_synonym delete_result = "ditem acl_array \<times> ditem list \<times> int"

function delete_range_low ::
    "ditem acl_array \<Rightarrow> int \<Rightarrow> int \<Rightarrow> int \<Rightarrow> int \<Rightarrow> (delete_result + ditem acl_array \<times> int) cres" where
  "delete_range_low a begin end' i sz =
    (if i < sz then
       cbind (ditem_at a i) (\<lambda>pitem.
         if begin > d_end pitem then delete_range_low a begin end' (i + 1) sz
         else if begin \<le> d_begin pitem then
           (if end' < d_end pitem then
              map_cres (\<lambda>a. Inl (a, [], 0)) (ditem_cut_low a i pitem end')
            else if end' = d_end pitem then
              map_cres (\<lambda>(a, freed, _). Inl (a, freed, 0)) (acl_array_delete_idx a i True)
            else Ret (Inr (a, i)))
         else if end' = d_end pitem then
           map_cres (\<lambda>a. Inl (a, [], 0)) (ditem_cut_high a i pitem begin)
         else if end' < d_end pitem then
           cbind (add64 end' 1) (\<lambda>tmp_begin. let tmp_end = d_end pitem in
            cbind (ditem_cut_high a i pitem begin) (\<lambda>a.
              map_cres (\<lambda>(a, _). Inl (a, [], 0)) (dlink_add a tmp_begin tmp_end)))
         else
           cbind (ditem_cut_high a i pitem begin) (\<lambda>a.
             let low = i + 1 in
             if low \<ge> sz then Ret (Inl (a, [], 0))
             else cbind (ditem_at a low) (\<lambda>pitem_low.
               if d_begin pitem_low > end' then Ret (Inl (a, [], 0))
               else if end' < d_end pitem_low then
                 map_cres (\<lambda>a. Inl (a, [], 0))
                   (ditem_cut_low a low pitem_low end')
               else if end' = d_end pitem_low then
                 map_cres (\<lambda>(a, freed, _). Inl (a, freed, 0)) (acl_array_delete_idx a low True)
               else Ret (Inr (a, low)))))
     else Ret (Inr (a, 0)))"
  by pat_completeness auto
termination
  by (relation "measure (\<lambda>(a, begin, end', i, sz). nat (sz - i))") auto

text \<open>Second loop: the highest index to remove, trimming the item the range ends in.\<close>

function delete_range_high ::
    "ditem acl_array \<Rightarrow> int \<Rightarrow> int \<Rightarrow> int \<Rightarrow> (ditem acl_array \<times> int) cres" where
  "delete_range_high a end' i sz =
    (if i < sz then
       cbind (ditem_at a i) (\<lambda>pitem.
         if end' > d_end pitem then delete_range_high a end' (i + 1) sz
         else if end' < d_begin pitem then Ret (a, i - 1)
         else if end' = d_begin pitem then
           (if d_begin pitem = d_end pitem then Ret (a, i)
            else map_cres (\<lambda>a. (a, i - 1)) (ditem_cut_low a i pitem end'))
         else if end' = d_end pitem then Ret (a, i)
         else map_cres (\<lambda>a. (a, i - 1)) (ditem_cut_low a i pitem end'))
     else Ret (a, sz - 1))"
  by pat_completeness auto
termination
  by (relation "measure (\<lambda>(a, end', i, sz). nat (sz - i))") auto

declare delete_range_low.simps [simp del] delete_range_high.simps [simp del]

definition acl_dlink_delete_range ::
    "acl_dlink \<Rightarrow> int \<Rightarrow> int \<Rightarrow> (acl_dlink \<times> ditem list \<times> int) cres" where
  "acl_dlink_delete_range plink begin end' =
    (let parray = dl_parray plink; size = acl_array_size parray in
     map_cres (\<lambda>(a, freed, ret). (plink\<lparr>dl_parray := a\<rparr>, freed, ret))
       (cbind (delete_range_low parray begin end' 0 size) (\<lambda>r. case r of
          Inl result \<Rightarrow> Ret result
        | Inr (a, low) \<Rightarrow>
            cbind (delete_range_high a end' (low + 1) size) (\<lambda>(a, high).
              if low > high then Ret (a, [], 0)
              else acl_array_delete_range a low high True))))"

definition acl_dlink_index :: "acl_dlink \<Rightarrow> int \<Rightarrow> ditem option cres" where
  "acl_dlink_index plink idx = acl_array_index (dl_parray plink) idx"

definition acl_dlink_size :: "acl_dlink \<Rightarrow> int" where
  "acl_dlink_size plink = acl_array_size (dl_parray plink)"

subsection \<open>The set of points, and the invariant\<close>

definition pts :: "ditem list \<Rightarrow> int set" where
  "pts ds = {n. \<exists>d \<in> set ds. d_begin d \<le> n \<and> n \<le> d_end d}"

text \<open>Non-empty intervals in ascending order without a common point.\<close>

definition disjoint_asc :: "ditem list \<Rightarrow> bool" where
  "disjoint_asc ds \<longleftrightarrow> (\<forall>d \<in> set ds. d_begin d \<le> d_end d)
     \<and> sorted_wrt (\<lambda>x y. d_end x < d_begin y) ds"

definition dl_items :: "acl_dlink \<Rightarrow> ditem list" where
  "dl_items p = live (arr_list (dl_parray p))"

text \<open>The points whose successor is of the type \<open>acl_int64\<close> as well.\<close>

definition int64_pts :: "int set" where
  "int64_pts = {INT64_MIN..<INT64_MAX}"

definition dl_inv :: "acl_dlink \<Rightarrow> bool" where
  "dl_inv p \<longleftrightarrow> array_full (dl_parray p) \<and> disjoint_asc (dl_items p) \<and> pts (dl_items p) \<subseteq> int64_pts"

lemma pts_simps [simp]:
  "pts [] = {}" "pts (d # ds) = {d_begin d..d_end d} \<union> pts ds" "pts (xs @ ys) = pts xs \<union> pts ys"
  by (auto simp: pts_def)

lemma add64_pred: "INT64_MIN < b \<Longrightarrow> b \<le> INT64_MAX \<Longrightarrow> add64 b (-1) = Ret (b - 1)"
  by (simp add: add64_def)

lemma add64_succ: "INT64_MIN \<le> e \<Longrightarrow> e < INT64_MAX \<Longrightarrow> add64 e 1 = Ret (e + 1)"
  by (simp add: add64_def)

lemma range_fits: "b \<le> e \<Longrightarrow> {b..e} \<subseteq> int64_pts \<longleftrightarrow> INT64_MIN \<le> b \<and> e < INT64_MAX"
  by (auto simp: int64_pts_def)

lemma item_fits:
  assumes "disjoint_asc ds" "pts ds \<subseteq> int64_pts" "d \<in> set ds"
  shows "INT64_MIN \<le> d_begin d" "d_end d < INT64_MAX" "d_begin d \<le> d_end d"
proof -
  show le: "d_begin d \<le> d_end d" using assms(1,3) by (auto simp: disjoint_asc_def)
  then have "d_begin d \<in> pts ds" "d_end d \<in> pts ds" using assms(3) by (auto simp: pts_def)
  then show "INT64_MIN \<le> d_begin d" "d_end d < INT64_MAX" using assms(2) by (auto simp: int64_pts_def)
qed

lemma disjoint_asc_sorted: "disjoint_asc ds \<Longrightarrow> sorted ds \<and> distinct ds"
  by (induction ds) (force simp: disjoint_asc_def less_eq_ditem_def)+

lemma disjoint_asc_simps [simp]:
  "disjoint_asc []"
  "disjoint_asc (d # ds) \<longleftrightarrow> d_begin d \<le> d_end d \<and> (\<forall>x \<in> set ds. d_end d < d_begin x) \<and> disjoint_asc ds"
  "disjoint_asc (xs @ ys) \<longleftrightarrow> disjoint_asc xs \<and> disjoint_asc ys
     \<and> (\<forall>x \<in> set xs. \<forall>y \<in> set ys. d_end x < d_begin y)"
  by (auto simp: disjoint_asc_def sorted_wrt_append)

lemma disjoint_asc_nth:
  assumes "disjoint_asc ds" "i < j" "j < length ds"
  shows "d_begin (ds ! i) \<le> d_end (ds ! i)" "d_end (ds ! i) < d_begin (ds ! j)"
  using assms by (auto simp: disjoint_asc_def sorted_wrt_iff_nth_less)

lemma disjoint_asc_begin_mono:
  assumes "disjoint_asc ds" "i \<le> j" "j < length ds"
  shows "d_begin (ds ! i) \<le> d_begin (ds ! j)"
  using disjoint_asc_nth [OF assms(1), of i j] assms by (cases "i = j") auto

definition mk_dl :: "ditem list \<Rightarrow> ditem option list \<Rightarrow> ditem acl_array" where
  "mk_dl ds tail = mk_arr (map Some ds) tail"

lemma dl_inv_cases:
  assumes "dl_inv p"
  obtains ds tail where "p = \<lparr>dl_parray = mk_dl ds tail\<rparr>" "disjoint_asc ds" "pts ds \<subseteq> int64_pts"
proof -
  obtain ds tail where "dl_parray p = mk_dl ds tail"
    using assms array_full_cases by (metis dl_inv_def mk_dl_def)
  with assms that show ?thesis by (cases p) (auto simp: dl_inv_def dl_items_def mk_dl_def)
qed

lemma dl_inv_mk [simp]: "dl_inv \<lparr>dl_parray = mk_dl ds tail\<rparr> \<longleftrightarrow> disjoint_asc ds \<and> pts ds \<subseteq> int64_pts"
  and dl_items_mk [simp]: "dl_items \<lparr>dl_parray = mk_dl ds tail\<rparr> = ds"
  by (auto simp: dl_inv_def dl_items_def array_full_def mk_dl_def)

lemma ditem_at_mk [simp]: "i < length ds \<Longrightarrow> ditem_at (mk_dl ds tail) (int i) = Ret (ds ! i)"
  using index_mk [of "map Some ds" tail i] by (simp add: ditem_at_def mk_dl_def)

lemma ditem_set_mk [simp]:
  "i < length ds \<Longrightarrow> ditem_set (mk_dl ds tail) (int i) d = Ret (mk_dl (ds[i := d]) tail)"
  by (simp add: ditem_set_def mk_dl_def mk_arr_def list_update_append map_update)

lemma size_mk [simp]: "acl_array_size (mk_dl ds tail) = int (length ds)"
  by (simp add: acl_array_size_def mk_dl_def)

subsection \<open>The searches\<close>

text \<open>What \<open>scope_pos\<close> computes: the last item that begins at or below \<open>n\<close>, or the first item.\<close>

definition is_scope :: "ditem list \<Rightarrow> int \<Rightarrow> nat \<Rightarrow> bool" where
  "is_scope ds n p \<longleftrightarrow> p < length ds \<and> (0 < p \<longrightarrow> d_begin (ds ! p) \<le> n)
     \<and> (\<forall>k. p < k \<longrightarrow> k < length ds \<longrightarrow> n < d_begin (ds ! k))"

lemma mid_index: "(int l + int h) div 2 = int ((l + h) div 2)"
  by simp

lemma scope_pos_loop_spec:
  assumes "disjoint_asc ds" "l \<le> h" "h < length ds"
    and "0 < l \<Longrightarrow> d_begin (ds ! l) \<le> n"
    and "h \<noteq> length ds - 1 \<Longrightarrow> n < d_begin (ds ! h)"
  shows "\<exists>p. scope_pos_loop (mk_dl ds tail) n (int l) (int h) = Ret (int p) \<and> is_scope ds n p"
  using assms(2-)
proof (induction "h - l" arbitrary: l h rule: less_induct)
  case less
  have above: "n < d_begin (ds ! k)" if "n < d_begin (ds ! j)" "j \<le> k" "k < length ds" for j k
    using disjoint_asc_begin_mono [OF assms(1) that(2,3)] that(1) by linarith
  define m where "m = (l + h) div 2"
  have m: "(int l + int h) div 2 = int m" "l \<le> m" "m \<le> h"
    using less.prems by (auto simp: m_def mid_index)
  show ?case
  proof (cases "m = h")
    case True
    then have "l = h" using less.prems m by (auto simp: m_def)
    with True m have eq: "scope_pos_loop (mk_dl ds tail) n (int l) (int h) =
        Ret (if h = 0 then 0 else if int h = int (length ds) - 1 then int (length ds) - 1 else -1)"
      by (subst scope_pos_loop.simps) (simp add: Let_def)
    have "h = 0 \<or> h = length ds - 1"
      using less.prems \<open>l = h\<close> by (metis less_le_not_le not_gr_zero not_le)
    then have "is_scope ds n h"
      using less.prems \<open>l = h\<close> above [of h] by (auto simp: is_scope_def)
    moreover have "scope_pos_loop (mk_dl ds tail) n (int l) (int h) = Ret (int h)"
      using \<open>h = 0 \<or> h = length ds - 1\<close> less.prems by (auto simp: eq of_nat_diff)
    ultimately show ?thesis by blast
  next
    case False
    then have mh: "Suc m \<le> h" "m < length ds" "Suc m < length ds" using m less.prems by auto
    note at = ditem_at_mk [OF mh(2), of tail] ditem_at_mk [OF mh(3), of tail, simplified]
    consider "d_begin (ds ! Suc m) \<le> n" | "n < d_begin (ds ! m)" "n < d_begin (ds ! Suc m)"
      | "d_begin (ds ! m) \<le> n" "n < d_begin (ds ! Suc m)"
      by linarith
    then show ?thesis
    proof cases
      case 1
      have "\<exists>p. scope_pos_loop (mk_dl ds tail) n (int (Suc m)) (int h) = Ret (int p) \<and> is_scope ds n p"
        using 1 m mh less.prems by (intro less.hyps) auto
      with 1 m mh at less.prems show ?thesis
        by (subst scope_pos_loop.simps) (auto simp: Let_def ac_simps)
    next
      case 2
      have "\<exists>p. scope_pos_loop (mk_dl ds tail) n (int l) (int m) = Ret (int p) \<and> is_scope ds n p"
        using 2 m mh less.prems by (intro less.hyps) auto
      with 2 m mh at less.prems show ?thesis
        by (subst scope_pos_loop.simps) (auto simp: Let_def ac_simps)
    next
      case 3
      have "is_scope ds n m" using 3 mh above by (auto simp: is_scope_def)
      with 3 m mh at less.prems show ?thesis
        by (subst scope_pos_loop.simps) (auto simp: Let_def ac_simps)
    qed
  qed
qed

lemma scope_pos_spec:
  assumes "disjoint_asc ds" "ds \<noteq> []"
  obtains p where "scope_pos (mk_dl ds tail) n = Ret (int p)" "is_scope ds n p"
  using scope_pos_loop_spec [OF assms(1), of 0 "length ds - 1" n tail] assms(2) that
  by (auto simp: scope_pos_def of_nat_diff Suc_leI)

definition is_hit :: "ditem list \<Rightarrow> int \<Rightarrow> (ditem \<times> int) option \<Rightarrow> bool" where
  "is_hit ds n r = (case r of
     None \<Rightarrow> n \<notin> pts ds
   | Some (d, i) \<Rightarrow> 0 \<le> i \<and> nat i < length ds \<and> d = ds ! nat i \<and> d_begin d \<le> n \<and> n \<le> d_end d)"

lemma lookup2_loop_spec:
  assumes "disjoint_asc ds" "l \<le> h" "h \<le> length ds"
    and "\<And>k. k < l \<Longrightarrow> d_end (ds ! k) < n"
    and "\<And>k. h \<le> k \<Longrightarrow> k < length ds \<Longrightarrow> n < d_begin (ds ! k)"
  shows "\<exists>r. lookup2_loop (mk_dl ds tail) n (int l) (int h - 1) = Ret r \<and> is_hit ds n r"
  using assms(2-)
proof (induction "h - l" arbitrary: l h rule: less_induct)
  case less
  show ?case
  proof (cases "l = h")
    case True
    have "n \<notin> pts ds"
    proof
      assume "n \<in> pts ds"
      then obtain k where "k < length ds" "d_begin (ds ! k) \<le> n" "n \<le> d_end (ds ! k)"
        by (auto simp: pts_def in_set_conv_nth)
      with less.prems(3,4) [of k] True show False by (cases "k < l") auto
    qed
    with True show ?thesis by (simp add: lookup2_loop.simps is_hit_def)
  next
    case False
    define m where "m = (l + (h - 1)) div 2"
    have m: "(int l + (int h - 1)) div 2 = int m" "l \<le> m" "m < h"
      using less.prems False by (auto simp: m_def of_nat_diff zdiv_int)
    then have ml: "m < length ds" using less.prems by simp
    note at = ditem_at_mk [OF ml, of tail]
    have start: "int l \<le> int h - 1" using False less.prems by simp
    consider "n < d_begin (ds ! m)" | "d_end (ds ! m) < n" "\<not> n < d_begin (ds ! m)"
      | "d_begin (ds ! m) \<le> n" "n \<le> d_end (ds ! m)"
      by linarith
    then show ?thesis
    proof cases
      case 1
      have "\<exists>r. lookup2_loop (mk_dl ds tail) n (int l) (int m - 1) = Ret r \<and> is_hit ds n r"
      proof (rule less.hyps)
        show "n < d_begin (ds ! k)" if "m \<le> k" "k < length ds" for k
          using disjoint_asc_begin_mono [OF assms(1) that] 1 by linarith
      qed (use m less.prems in auto)
      with 1 start m at show ?thesis by (subst lookup2_loop.simps) (simp add: Let_def)
    next
      case 2
      have "\<exists>r. lookup2_loop (mk_dl ds tail) n (int (Suc m)) (int h - 1) = Ret r \<and> is_hit ds n r"
      proof (rule less.hyps)
        show "d_end (ds ! k) < n" if "k < Suc m" for k
          using disjoint_asc_nth [OF assms(1), of k m] that 2 ml by (cases "k = m") auto
      qed (use m less.prems in auto)
      with 2 start m at show ?thesis by (subst lookup2_loop.simps) (simp add: Let_def ac_simps)
    next
      case 3
      with start m at ml show ?thesis
        by (subst lookup2_loop.simps) (simp add: Let_def is_hit_def)
    qed
  qed
qed

lemma lookup2_spec:
  assumes "dl_inv p"
  shows "\<exists>r. acl_dlink_lookup2 p n = Ret r \<and> is_hit (dl_items p) n r"
proof -
  obtain ds tail where "p = \<lparr>dl_parray = mk_dl ds tail\<rparr>" "disjoint_asc ds"
    using assms by (rule dl_inv_cases)
  then show ?thesis
    using lookup2_loop_spec [of ds 0 "length ds" n tail] by (simp add: acl_dlink_lookup2_def)
qed

subsection \<open>Adding an interval is set union\<close>

text \<open>The list an addition leaves, its new item included.\<close>

definition add_ok :: "ditem list \<Rightarrow> int \<Rightarrow> int \<Rightarrow> ditem list \<Rightarrow> ditem \<Rightarrow> bool" where
  "add_ok ds b e ds' r \<longleftrightarrow> disjoint_asc ds' \<and> pts ds' = pts ds \<union> {b..e} \<and> r \<in> set ds'
     \<and> d_begin r \<le> b \<and> e \<le> d_end r"

lemma scope_split:
  assumes "is_scope ds n i"
  shows "ds = take i ds @ ds ! i # drop (Suc i) ds" "take i ds \<noteq> [] \<longrightarrow> d_begin (ds ! i) \<le> n"
    "\<forall>y \<in> set (drop (Suc i) ds). n < d_begin y"
  using assms by (auto simp: is_scope_def id_take_nth_drop in_set_conv_nth)

lemma add_ok_prepend:
  "disjoint_asc (x # B) \<Longrightarrow> b \<le> e \<Longrightarrow> e < d_begin x \<Longrightarrow>
   add_ok (x # B) b e (DItem b e # x # B) (DItem b e)"
  by (force simp: add_ok_def)

lemma add_ok_after:
  "disjoint_asc (A @ x # B) \<Longrightarrow> b \<le> e \<Longrightarrow> d_end x < b \<Longrightarrow> \<forall>y \<in> set B. e < d_begin y \<Longrightarrow>
   add_ok (A @ x # B) b e (A @ x # DItem b e # B) (DItem b e)"
  by (force simp: add_ok_def)

lemma add_ok_widen:
  assumes "disjoint_asc (A @ x # B)" "b \<le> e" "b \<le> d_end x + 1" "d_begin x \<le> e + 1"
    "A \<noteq> [] \<longrightarrow> d_begin x \<le> b" "\<forall>y \<in> set B. e < d_begin y"
  shows "add_ok (A @ x # B) b e (A @ DItem (min b (d_begin x)) (max e (d_end x)) # B)
    (DItem (min b (d_begin x)) (max e (d_end x)))"
proof -
  have "{min b (d_begin x)..max e (d_end x)} = {d_begin x..d_end x} \<union> {b..e}"
    using assms by (auto simp: min_def max_def)
  moreover have "\<forall>a \<in> set A. d_end a < min b (d_begin x)"
    using assms by (cases "A = []") auto
  ultimately show ?thesis using assms by (auto simp: add_ok_def)
qed

lemma pts_within:
  assumes "\<forall>z \<in> set M. l \<le> d_begin z \<and> d_end z \<le> u"
  shows "pts M \<subseteq> {l..u}"
  using assms by (fastforce simp: pts_def)

lemma add_ok_merge:
  assumes "disjoint_asc (A @ x # M @ y # B)" "b \<le> e" "b \<le> d_end x + 1" "d_begin y \<le> e"
    "A \<noteq> [] \<longrightarrow> d_begin x \<le> b" "\<forall>y \<in> set B. e < d_begin y"
  shows "add_ok (A @ x # M @ y # B) b e (A @ DItem (min b (d_begin x)) (max e (d_end y)) # B)
    (DItem (min b (d_begin x)) (max e (d_end y)))"
proof -
  have "pts M \<subseteq> {d_begin x..d_end y}"
  proof (rule pts_within, rule ballI)
    fix z assume "z \<in> set M"
    with assms(1) have "d_begin x \<le> d_end x" "d_end x < d_begin z" "d_end z < d_begin y"
      "d_begin y \<le> d_end y" by auto
    then show "d_begin x \<le> d_begin z \<and> d_end z \<le> d_end y" by linarith
  qed
  then have "{min b (d_begin x)..max e (d_end y)} =
      {d_begin x..d_end x} \<union> pts M \<union> {d_begin y..d_end y} \<union> {b..e}"
    using assms by (auto simp: min_def max_def)
  moreover have "\<forall>a \<in> set A. d_end a < min b (d_begin x)"
    using assms by (cases "A = []") auto
  ultimately show ?thesis using assms by (auto simp: add_ok_def)
qed

lemma add_ok_absorb:
  assumes "disjoint_asc (A @ x # M @ y # B)" "b \<le> e" "d_end x < b" "d_begin y \<le> e"
    "\<forall>z \<in> set (M @ y # B). b < d_begin z" "\<forall>y \<in> set B. e < d_begin y"
  shows "add_ok (A @ x # M @ y # B) b e (A @ x # DItem b (max e (d_end y)) # B)
    (DItem b (max e (d_end y)))"
proof -
  have "pts M \<subseteq> {b..d_end y}"
  proof (rule pts_within, rule ballI)
    fix z assume "z \<in> set M"
    with assms(1,5) have "b < d_begin z" "d_end z < d_begin y" "d_begin y \<le> d_end y" by auto
    then show "b \<le> d_begin z \<and> d_end z \<le> d_end y" by linarith
  qed
  then have "{b..max e (d_end y)} = pts M \<union> {d_begin y..d_end y} \<union> {b..e}"
    using assms by (auto simp: max_def)
  moreover have "\<forall>a \<in> set A. d_end a < b"
  proof
    fix a assume "a \<in> set A"
    with assms(1) have "d_end a < d_begin x" "d_begin x \<le> d_end x" by auto
    with assms(3) show "d_end a < b" by linarith
  qed
  ultimately show ?thesis using assms by (auto simp: add_ok_def)
qed

lemma dlink_insert_mk:
  "i < length ds \<Longrightarrow> \<exists>ts. dlink_succ_insert (mk_dl ds tail) (int i) b e =
     Ret (mk_dl (take (Suc i) ds @ DItem b e # drop (Suc i) ds) ts, Some (DItem b e))"
  "ds \<noteq> [] \<Longrightarrow> \<exists>ts. dlink_prepend (mk_dl ds tail) b e =
     Ret (mk_dl (DItem b e # ds) ts, Some (DItem b e))"
  "\<exists>ts. dlink_append (mk_dl ds tail) b e = Ret (mk_dl (ds @ [DItem b e]) ts, Some (DItem b e))"
  using succ_insert_mk [of i "map Some ds" tail "Some (DItem b e)"]
    pred_insert_mk [of 0 "map Some ds" tail "Some (DItem b e)"]
    append_mk [of "map Some ds" tail "Some (DItem b e)"]
  by (auto simp: dlink_succ_insert_def dlink_prepend_def dlink_append_def acl_array_prepend_def
      mk_dl_def take_map drop_map)

lemma dlink_add_same_spec:
  assumes "disjoint_asc ds" "b \<le> e" "is_scope ds b i" "is_scope ds e i" "pts ds \<subseteq> int64_pts" "{b..e} \<subseteq> int64_pts"
  shows "\<exists>ds' tail' r. dlink_add_same (mk_dl ds tail) (int i) (ds ! i) b e = Ret (mk_dl ds' tail', Some r)
    \<and> add_ok ds b e ds' r"
proof -
  define A x B where "A = take i ds" and "x = ds ! i" and "B = drop (Suc i) ds"
  have i: "i < length ds" using assms(3) by (simp add: is_scope_def)
  note sb = scope_split [OF assms(3), folded A_def x_def B_def]
  note se = scope_split [OF assms(4), folded A_def x_def B_def]
  have asc: "disjoint_asc (A @ x # B)" using assms(1) sb(1) by simp
  have fit: "add64 e 1 = Ret (e + 1)" "add64 (d_end x) 1 = Ret (d_end x + 1)"
    using item_fits [OF assms(1,5), of x] i assms(2,6) by (simp_all add: x_def range_fits add64_succ)
  consider (before) "e + 1 < d_begin x" | (after) "\<not> e + 1 < d_begin x" "b > d_end x + 1"
    | (widen) "\<not> e + 1 < d_begin x" "\<not> b > d_end x + 1" by blast
  then show ?thesis
  proof cases
    case before
    then have "A = []" using sb(2) assms(2) by auto
    moreover from this have "i = 0" using i by (auto simp: A_def)
    ultimately have "add_ok ds b e (DItem b e # ds) (DItem b e)"
      using before assms(2) asc sb(1) add_ok_prepend [of x B b e] by auto
    moreover have "ds \<noteq> []" using i by auto
    then obtain ts where "dlink_prepend (mk_dl ds tail) b e = Ret (mk_dl (DItem b e # ds) ts, Some (DItem b e))"
      using dlink_insert_mk(2) by blast
    ultimately show ?thesis
      using before by (auto simp only: dlink_add_same_def x_def [symmetric] fit cbind.simps if_True)
  next
    case after
    have "take (Suc i) ds @ DItem b e # drop (Suc i) ds = A @ x # DItem b e # B"
      using i by (simp add: A_def x_def B_def take_Suc_conv_app_nth)
    moreover have "add_ok ds b e (A @ x # DItem b e # B) (DItem b e)"
      using add_ok_after [OF asc assms(2)] after se(3) sb(1) by simp
    ultimately show ?thesis
      using after dlink_insert_mk(1) [OF i, of tail b e] unfolding x_def [symmetric]
      by (force simp: dlink_add_same_def fit)
  next
    case widen
    let ?d = "DItem (min b (d_begin x)) (max e (d_end x))"
    have d: "DItem (if b < d_begin x then b else d_begin x) (if e > d_end x then e else d_end x) = ?d"
      by (simp add: min_def max_def)
    have "ds[i := ?d] = A @ ?d # B"
      using i by (simp add: A_def B_def upd_conv_take_nth_drop)
    moreover have "add_ok ds b e (A @ ?d # B) ?d"
      using add_ok_widen [OF asc assms(2)] widen sb se by auto
    ultimately show ?thesis
      using widen i unfolding dlink_add_same_def x_def [symmetric] d Let_def fit by auto
  qed
qed

lemma node_merge_mk:
  assumes "d \<le> s" "s < length ds"
  shows "\<exists>ts fr. dlink_node_merge (mk_dl ds tail) (int d) (int s) =
    Ret (mk_dl (take d ds @ drop s ds) ts, fr, 0)"
proof (cases "d < s")
  case True
  then show ?thesis
    using mv_idx_mk [of d s "map Some ds" tail True] assms
    by (auto simp: dlink_node_merge_def mk_dl_def take_map drop_map)
qed (use assms in \<open>auto simp: dlink_node_merge_def\<close>)

lemma dlink_add_span_spec:
  assumes "disjoint_asc ds" "b \<le> e" "is_scope ds b i" "is_scope ds e j" "i < j" "pts ds \<subseteq> int64_pts"
  shows "\<exists>ds' tail' r. dlink_add_span (mk_dl ds tail) (int i) (int j) (ds ! i) (ds ! j) b e =
      Ret (mk_dl ds' tail', Some r) \<and> add_ok ds b e ds' r"
proof -
  define A x M y B where "A = take i ds" and "x = ds ! i" and "M = take (j - Suc i) (drop (Suc i) ds)"
    and "y = ds ! j" and "B = drop (Suc j) ds"
  have j: "j < length ds" "i < length ds" using assms(4,5) by (auto simp: is_scope_def)
  have R: "drop (Suc i) ds = M @ y # B"
  proof -
    have "drop (Suc i) ds = M @ drop (j - Suc i) (drop (Suc i) ds)" by (simp only: M_def append_take_drop_id)
    also have "drop (j - Suc i) (drop (Suc i) ds) = drop j ds" using assms(5) by simp
    also have "\<dots> = y # B" using j by (simp add: y_def B_def Cons_nth_drop_Suc)
    finally show ?thesis .
  qed
  have fit: "add64 (d_end x) 1 = Ret (d_end x + 1)"
    using item_fits [OF assms(1,6), of x] j by (simp add: x_def add64_succ)
  note sb = scope_split [OF assms(3), folded A_def x_def, unfolded R]
  note se = scope_split [OF assms(4), folded B_def y_def]
  have asc: "disjoint_asc (A @ x # M @ y # B)" using assms(1) sb(1) by simp
  have ye: "d_begin y \<le> e" using se(2) assms(5) j by (auto simp: y_def)
  have lenA: "length A = i" "length (A @ x # M) = j" using j assms(5) by (auto simp: A_def M_def)
  define x' where "x' = DItem (min b (d_begin x)) (d_end x)"
  have x': "DItem (if b < d_begin x then b else d_begin x) (d_end x) = x'"
    by (simp add: x'_def min_def)
  have x'_sel: "d_begin x' = min b (d_begin x)" "d_end x' = d_end x"
    by (simp_all add: x'_def)
  have mx: "(if e > d_end y then e else d_end y) = max e (d_end y)"
    by (simp add: max_def)
  have upd: "ds[i := x', j := y'] = A @ x' # M @ y' # B" for y'
  proof -
    have "ds[i := x', j := y'] = (A @ x # M @ y # B)[length A := x', length A + Suc (length M) := y']"
      using sb(1) lenA by simp
    then show ?thesis by (simp add: list_update_append)
  qed
  have merge: "\<exists>ts fr. dlink_node_merge (mk_dl (A @ x' # M @ y' # B) t) (int d) (int j) =
      Ret (mk_dl (take d (A @ x' # M) @ y' # B) ts, fr, 0)" if "d \<le> j" for d t y'
  proof -
    have "take d (A @ x' # M @ y' # B) = take d (A @ x' # M)"
      using that lenA take_append [of d "A @ x' # M" "y' # B"] by auto
    moreover have "drop j (A @ x' # M @ y' # B) = y' # B"
      using lenA drop_append [of j "A @ x' # M" "y' # B"] by auto
    moreover have "j < length (A @ x' # M @ y' # B)" using lenA by simp
    ultimately show ?thesis
      using node_merge_mk [OF that, of "A @ x' # M @ y' # B" t] by metis
  qed
  show ?thesis
  proof (cases "b \<le> d_end x + 1")
    case True
    let ?y = "DItem (min b (d_begin x)) (max e (d_end y))"
    have "dlink_add_span (mk_dl ds tail) (int i) (int j) x y b e =
        map_cres (\<lambda>(a, freed, ret). (a, if ret < 0 then None else Some ?y))
          (dlink_node_merge (mk_dl (A @ x' # M @ ?y # B) tail) (int i) (int j))"
      using True j unfolding dlink_add_span_def x' mx Let_def x'_sel
      by (simp add: upd fit)
    moreover obtain ts fr where "dlink_node_merge (mk_dl (A @ x' # M @ ?y # B) tail) (int i) (int j) =
        Ret (mk_dl (A @ ?y # B) ts, fr, 0)"
      using merge [of i ?y tail] assms(5) lenA by auto
    moreover have "add_ok ds b e (A @ ?y # B) ?y"
      using add_ok_merge [OF asc assms(2) True ye] sb se by auto
    ultimately show ?thesis by (auto simp: x_def y_def)
  next
    case False
    then have "x' = x" using asc by (cases x) (auto simp: x'_def min_def)
    let ?y = "DItem b (max e (d_end y))"
    have "dlink_add_span (mk_dl ds tail) (int i) (int j) x y b e =
        map_cres (\<lambda>(a, freed, ret). (a, if ret < 0 then None else Some ?y))
          (dlink_node_merge (mk_dl (A @ x # M @ ?y # B) tail) (int (Suc i)) (int j))"
      using False j upd [of ?y] unfolding dlink_add_span_def x' mx Let_def
      by (simp add: \<open>x' = x\<close> fit ac_simps)
    moreover obtain ts fr where "dlink_node_merge (mk_dl (A @ x # M @ ?y # B) tail) (int (Suc i)) (int j) =
        Ret (mk_dl (A @ x # ?y # B) ts, fr, 0)"
      using merge [of "Suc i" ?y tail] assms(5) lenA by (auto simp: \<open>x' = x\<close> take_Cons')
    moreover have "add_ok ds b e (A @ x # ?y # B) ?y"
      using add_ok_absorb [OF asc assms(2) _ ye] False sb se by auto
    ultimately show ?thesis by (auto simp: x_def y_def)
  qed
qed

lemma dlink_add_spec:
  assumes "disjoint_asc ds" "ds \<noteq> []" "b \<le> e" "pts ds \<subseteq> int64_pts" "{b..e} \<subseteq> int64_pts"
  shows "\<exists>ds' tail' r. dlink_add (mk_dl ds tail) b e = Ret (mk_dl ds' tail', Some r)
    \<and> add_ok ds b e ds' r"
proof -
  obtain i where i: "begin_pos (mk_dl ds tail) b = Ret (int i)" "is_scope ds b i"
    using scope_pos_spec [OF assms(1,2)] by (metis begin_pos_def)
  obtain j where j: "end_pos (mk_dl ds tail) e = Ret (int j)" "is_scope ds e j"
    using scope_pos_spec [OF assms(1,2)] by (metis end_pos_def)
  have len: "i < length ds" "j < length ds" using i j by (auto simp: is_scope_def)
  have "i \<le> j"
  proof (rule ccontr)
    assume "\<not> i \<le> j"
    with i(2) j(2) len have "e < d_begin (ds ! i)" "d_begin (ds ! i) \<le> b" by (auto simp: is_scope_def)
    with assms(3) show False by simp
  qed
  with i j len assms have "dlink_add (mk_dl ds tail) b e =
      (if i = j then dlink_add_same (mk_dl ds tail) (int i) (ds ! i) b e
       else dlink_add_span (mk_dl ds tail) (int i) (int j) (ds ! i) (ds ! j) b e)"
    by (simp add: dlink_add_def)
  then show ?thesis
    using dlink_add_same_spec [OF assms(1,3) i(2) _ assms(4,5)] dlink_add_span_spec [OF assms(1,3) i(2) j(2) _ assms(4)]
      j(2) \<open>i \<le> j\<close> by (cases "i = j") auto
qed

subsection \<open>Deleting a range is set difference, where the range meets the list\<close>

definition del_ok :: "ditem list \<Rightarrow> int \<Rightarrow> int \<Rightarrow> ditem list \<Rightarrow> bool" where
  "del_ok ds b e ds' \<longleftrightarrow> disjoint_asc ds' \<and> pts ds' = pts ds - {b..e}"

lemma pts_before: "\<forall>a \<in> set A. d_end a < b \<Longrightarrow> pts A \<inter> {b..e} = {}"
  and pts_behind: "\<forall>a \<in> set A. e < d_begin a \<Longrightarrow> pts A \<inter> {b..e} = {}"
  by (force simp: pts_def)+

text \<open>Removing the middle part, with what is left of its first and its last item.\<close>

lemma del_ok_middle:
  assumes "disjoint_asc (A @ M @ Z)" "\<forall>a \<in> set A. d_end a < b" "\<forall>z \<in> set Z. e < d_begin z"
    "disjoint_asc (A @ M' @ Z)" "pts M' = pts M - {b..e}"
  shows "del_ok (A @ M @ Z) b e (A @ M' @ Z)"
  using assms pts_before [OF assms(2), of e] pts_behind [OF assms(3), of b]
  by (auto simp: del_ok_def)

lemma mk_dl_at:
  assumes "i = int (length A)"
  shows "ditem_at (mk_dl (A @ x # R) tail) i = Ret x"
    and "ditem_set (mk_dl (A @ x # R) tail) i d = Ret (mk_dl (A @ d # R) tail)"
  using ditem_at_mk [of "length A" "A @ x # R"] ditem_set_mk [of "length A" "A @ x # R"] assms
  by (simp_all add: nth_append list_update_append del: ditem_at_mk ditem_set_mk)

lemma cut_at:
  assumes "i = int (length A)"
  shows "INT64_MIN \<le> e \<Longrightarrow> e < INT64_MAX \<Longrightarrow> ditem_cut_low (mk_dl (A @ x # R) tail) i d e = Ret (mk_dl (A @ DItem (e + 1) (d_end d) # R) tail)"
    and "INT64_MIN < b \<Longrightarrow> b \<le> INT64_MAX \<Longrightarrow> ditem_cut_high (mk_dl (A @ x # R) tail) i d b = Ret (mk_dl (A @ DItem (d_begin d) (b - 1) # R) tail)"
  using assms by (simp_all add: ditem_cut_low_def ditem_cut_high_def add64_succ add64_pred mk_dl_at)

lemma delete_idx_dl:
  assumes "i = int (length A)"
  shows "\<exists>ts. acl_array_delete_idx (mk_dl (A @ x # R) tail) i True = Ret (mk_dl (A @ R) ts, [x], 0)"
  using delete_idx_mk [of "length A" "map Some (A @ x # R)" tail True] assms
  by (auto simp: mk_dl_def take_map drop_map nth_append)

lemma delete_range_dl:
  assumes "l = int (length A)" "h = int (length A + length M) - 1" "M \<noteq> []"
  shows "\<exists>ts. acl_array_delete_range (mk_dl (A @ M @ R) tail) l h True = Ret (mk_dl (A @ R) ts, M, 0)"
proof -
  obtain k where k: "length A + length M = Suc k" "length A \<le> k" using assms(3) by (cases M) auto
  then show ?thesis
    using delete_range_mk [of "length A" k "map Some (A @ M @ R)" tail True] assms
    by (auto simp: mk_dl_def take_map drop_map Suc_diff_le [symmetric])
qed

lemma skip_high:
  "\<forall>m \<in> set M. d_end m < e \<Longrightarrow>
   delete_range_high (mk_dl (A @ M @ Z) tail) e (int (length A)) (int (length (A @ M @ Z))) =
   delete_range_high (mk_dl (A @ M @ Z) tail) e (int (length (A @ M))) (int (length (A @ M @ Z)))"
proof (induction M arbitrary: A)
  case (Cons m M)
  from Cons.prems have "delete_range_high (mk_dl (A @ (m # M) @ Z) tail) e (int (length A))
      (int (length (A @ (m # M) @ Z))) =
    delete_range_high (mk_dl (A @ (m # M) @ Z) tail) e (int (length (A @ [m])))
      (int (length (A @ (m # M) @ Z)))"
    by (subst delete_range_high.simps) (simp add: mk_dl_at ac_simps)
  with Cons.IH [of "A @ [m]"] Cons.prems show ?case by simp
qed simp

lemma skip_low:
  "\<forall>m \<in> set M. d_end m < b \<Longrightarrow>
   delete_range_low (mk_dl (A @ M @ Z) tail) b e (int (length A)) (int (length (A @ M @ Z))) =
   delete_range_low (mk_dl (A @ M @ Z) tail) b e (int (length (A @ M))) (int (length (A @ M @ Z)))"
proof (induction M arbitrary: A)
  case (Cons m M)
  from Cons.prems have "delete_range_low (mk_dl (A @ (m # M) @ Z) tail) b e (int (length A))
      (int (length (A @ (m # M) @ Z))) =
    delete_range_low (mk_dl (A @ (m # M) @ Z) tail) b e (int (length (A @ [m])))
      (int (length (A @ (m # M) @ Z)))"
    by (subst delete_range_low.simps) (simp add: mk_dl_at ac_simps)
  with Cons.IH [of "A @ [m]"] Cons.prems show ?case by simp
qed simp

lemma delete_range_high_at:
  assumes "e \<le> d_end z" "d_begin z \<le> d_end z" "i = int (length P)" "sz = int (length (P @ z # Z))"
    "INT64_MIN \<le> d_begin z" "d_end z < INT64_MAX"
  shows "delete_range_high (mk_dl (P @ z # Z) tail) e i sz =
    (if e < d_begin z then Ret (mk_dl (P @ z # Z) tail, i - 1)
     else if e = d_end z then Ret (mk_dl (P @ z # Z) tail, i)
     else Ret (mk_dl (P @ DItem (e + 1) (d_end z) # Z) tail, i - 1))"
  using assms by (subst delete_range_high.simps) (auto simp: mk_dl_at cut_at)

text \<open>
  The second phase: \<open>y\<close>, at index \<open>low\<close>, lies inside the range and so do the items \<open>M\<close> after it;
  the first item of \<open>Z\<close>, if any, reaches to or behind the end of the range.
\<close>

lemma delete_phase_two:
  assumes "disjoint_asc (A @ y # R)" "\<forall>a \<in> set A. d_end a < b" "b \<le> d_begin y" "d_end y < e" "pts (A @ y # R) \<subseteq> int64_pts"
  shows "\<exists>ds' tail' fr. cbind (delete_range_high (mk_dl (A @ y # R) tail) e (int (length A) + 1)
        (int (length (A @ y # R)))) (\<lambda>(a, high). if int (length A) > high then Ret (a, [], 0)
          else acl_array_delete_range a (int (length A)) high True) =
      Ret (mk_dl ds' tail', fr, 0) \<and> del_ok (A @ y # R) b e ds'"
proof -
  define M Z where "M = takeWhile (\<lambda>m. d_end m < e) R" and "Z = dropWhile (\<lambda>m. d_end m < e) R"
  have R: "R = M @ Z" by (simp add: M_def Z_def)
  have M: "\<forall>m \<in> set M. d_end m < e" by (auto simp: M_def dest: set_takeWhileD)
  have asc: "disjoint_asc (A @ (y # M) @ Z)" using assms(1) R by simp
  have in_range: "pts (y # M) - {b..e} = {}"
  proof -
    have "pts (y # M) \<subseteq> {b..e}"
    proof (rule pts_within, rule ballI)
      fix z assume "z \<in> set (y # M)"
      then consider "z = y" | "z \<in> set M" by auto
      then show "b \<le> d_begin z \<and> d_end z \<le> e"
      proof cases
        case 2
        with asc have "d_begin y \<le> d_end y" "d_end y < d_begin z" by auto
        with 2 M assms(3) show ?thesis by fastforce
      qed (use assms(3,4) in auto)
    qed
    then show ?thesis by blast
  qed
  have skip: "delete_range_high (mk_dl (A @ y # R) tail) e (int (length A) + 1) (int (length (A @ y # R)))
      = delete_range_high (mk_dl (A @ y # M @ Z) tail) e (int (length (A @ y # M))) (int (length (A @ y # M @ Z)))"
    using skip_high [OF M, of "A @ [y]" Z tail] by (simp add: R ac_simps)
  have finish: "\<exists>tail'. cbind (Ret (mk_dl (A @ N @ W) tail, int (length A + length N) - 1))
        (\<lambda>(a, high). if int (length A) > high then Ret (a, [], 0)
          else acl_array_delete_range a (int (length A)) high True) = Ret (mk_dl (A @ W) tail', N, 0)"
    if "N \<noteq> []" for N W
    using delete_range_dl [OF refl refl that, of A W tail] that by (cases N) auto
  show ?thesis
  proof (cases Z)
    case Nil
    have "delete_range_high (mk_dl (A @ y # R) tail) e (int (length A) + 1) (int (length (A @ y # R)))
        = Ret (mk_dl (A @ (y # M) @ []) tail, int (length A + length (y # M)) - 1)"
      unfolding skip by (subst delete_range_high.simps) (simp add: Nil R)
    moreover have "del_ok (A @ (y # M) @ []) b e (A @ [] @ [])"
      using asc assms(2) in_range by (intro del_ok_middle) auto
    ultimately show ?thesis using finish [of "y # M" "[]"] Nil R by auto
  next
    case (Cons z Z')
    have z: "e \<le> d_end z"
      using Cons by (metis Z_def dropWhile_eq_Cons_conv not_less)
    have zz: "d_begin z \<le> d_end z" using asc Cons by simp
    have behind: "\<forall>w \<in> set Z'. d_end z < d_begin w" using asc Cons by simp
    note fz = item_fits [OF assms(1,5), of z, unfolded R Cons, simplified]
    note high = skip [unfolded Cons, folded append_Cons, folded append_assoc,
        unfolded delete_range_high_at [OF z zz refl refl fz(1,2)]]
    consider (keep) "e < d_begin z" | (drop) "\<not> e < d_begin z" "e = d_end z"
      | (trim) "\<not> e < d_begin z" "e < d_end z" using z by linarith
    then show ?thesis
    proof cases
      case keep
      have "del_ok (A @ (y # M) @ Z) b e (A @ [] @ Z)"
        using asc assms(2) in_range keep behind zz Cons by (intro del_ok_middle) auto
      with keep high finish [of "y # M" Z] show ?thesis
        unfolding R Cons by auto
    next
      case drop
      have "del_ok (A @ ((y # M) @ [z]) @ Z') b e (A @ [] @ Z')"
        using asc assms(2-3) in_range drop behind Cons
        by (intro del_ok_middle) auto
      with drop high finish [of "(y # M) @ [z]" Z'] show ?thesis
        unfolding R Cons by auto
    next
      case trim
      have "del_ok (A @ ((y # M) @ [z]) @ Z') b e (A @ [DItem (e + 1) (d_end z)] @ Z')"
        using asc assms(2-3) in_range trim behind Cons
        by (intro del_ok_middle) auto
      with trim high finish [of "y # M" "DItem (e + 1) (d_end z) # Z'"] show ?thesis
        unfolding R Cons by auto
    qed
  qed
qed

lemma delete_range_spec:
  assumes asc: "disjoint_asc ds" and fit: "pts ds \<subseteq> int64_pts" and be: "b \<le> e" and meets: "pts ds \<inter> {b..e} \<noteq> {}"
  shows "\<exists>ds' tail' fr. acl_dlink_delete_range \<lparr>dl_parray = mk_dl ds tail\<rparr> b e =
      Ret (\<lparr>dl_parray = mk_dl ds' tail'\<rparr>, fr, 0) \<and> del_ok ds b e ds'"
proof -
  define A where "A = takeWhile (\<lambda>m. d_end m < b) ds"
  have A: "\<forall>m \<in> set A. d_end m < b" by (auto simp: A_def dest: set_takeWhileD)
  have "dropWhile (\<lambda>m. d_end m < b) ds \<noteq> []"
    using meets by (force simp: dropWhile_eq_Nil_conv pts_def)
  then obtain x R where xR: "dropWhile (\<lambda>m. d_end m < b) ds = x # R"
    by (cases "dropWhile (\<lambda>m. d_end m < b) ds") auto
  then have ds: "ds = A @ x # R" and bx: "b \<le> d_end x"
    by (simp add: A_def flip: xR) (metis dropWhile_eq_Cons_conv not_less xR)
  note asc' = asc [unfolded ds]
  then have asc_x: "d_begin x \<le> d_end x" "\<forall>r \<in> set R. d_end x < d_begin r"
    "\<forall>a \<in> set A. d_end a < d_begin x" "disjoint_asc A" "disjoint_asc R" by auto
  have ex: "d_begin x \<le> e"
  proof (rule ccontr)
    assume "\<not> d_begin x \<le> e"
    with asc_x have "pts (x # R) \<inter> {b..e} = {}" by (intro pts_behind) auto
    with pts_before [OF A, of e] meets show False by (auto simp: ds)
  qed
  note fx = item_fits [OF asc fit, unfolded ds]
  have fx': "INT64_MIN \<le> d_begin x" "d_end x < INT64_MAX" using fx [of x] by simp_all
  let ?L = "\<lambda>i. delete_range_low (mk_dl (A @ x # R) tail) b e i (int (length (A @ x # R)))"
  have skip: "?L 0 = ?L (int (length A))"
    using skip_low [OF A, of "[]" "x # R" tail e] by simp
  have goal: ?thesis if "?L (int (length A)) = Ret (Inl (mk_dl ds' t, fr, 0))" "del_ok ds b e ds'" for ds' t fr
    using that skip by (auto simp: acl_dlink_delete_range_def Let_def ds)
  have goal2: ?thesis
    if "?L 0 = Ret (Inr (a, low))" "del_ok ds b e ds'"
      "cbind (delete_range_high a e (low + 1) (int (length (A @ x # R)))) (\<lambda>(a, high).
         if low > high then Ret (a, [], 0) else acl_array_delete_range a low high True)
       = Ret (mk_dl ds' t, fr, 0)" for a low ds' t fr
  proof -
    have "acl_dlink_delete_range \<lparr>dl_parray = mk_dl ds tail\<rparr> b e = Ret (\<lparr>dl_parray = mk_dl ds' t\<rparr>, fr, 0)"
      unfolding acl_dlink_delete_range_def Let_def ds acl_dlink.simps size_mk that(1)
      by (simp del: length_append add: that(3))
    with that(2) show ?thesis by blast
  qed
  have step: "?L (int (length A)) =
     (if b \<le> d_begin x then
        (if e < d_end x then Ret (Inl (mk_dl (A @ DItem (e + 1) (d_end x) # R) tail, [], 0))
         else if e = d_end x then
           map_cres (\<lambda>(a, freed, _). Inl (a, freed, 0))
             (acl_array_delete_idx (mk_dl (A @ x # R) tail) (int (length A)) True)
         else Ret (Inr (mk_dl (A @ x # R) tail, int (length A))))
      else if e = d_end x then Ret (Inl (mk_dl (A @ DItem (d_begin x) (b - 1) # R) tail, [], 0))
      else map_cres (\<lambda>(a, _). Inl (a, [], 0))
             (dlink_add (mk_dl (A @ DItem (d_begin x) (b - 1) # R) tail) (e + 1) (d_end x)))"
    if "b \<le> d_begin x \<or> e \<le> d_end x"
    using bx that ex fx' by (subst (1) delete_range_low.simps) (auto simp: mk_dl_at cut_at add64_succ Let_def)
  show ?thesis
  proof (cases "b \<le> d_begin x")
    case True
    consider "e < d_end x" | "e = d_end x" | "d_end x < e" by linarith
    then show ?thesis
    proof cases
      case 1
      have "del_ok (A @ [x] @ R) b e (A @ [DItem (e + 1) (d_end x)] @ R)"
        using asc_x asc' A True 1 ex by (intro del_ok_middle) auto
      with 1 True step show ?thesis by (intro goal) (auto simp: ds)
    next
      case 2
      have "del_ok (A @ [x] @ R) b e (A @ [] @ R)"
        using asc_x asc' A True 2 ex by (intro del_ok_middle) auto
      moreover obtain ts where "acl_array_delete_idx (mk_dl (A @ x # R) tail) (int (length A)) True =
          Ret (mk_dl (A @ R) ts, [x], 0)" using delete_idx_dl by blast
      ultimately show ?thesis using 2 True step by (intro goal) (auto simp: ds)
    next
      case 3
      with True step skip have L0: "?L 0 = Ret (Inr (mk_dl (A @ x # R) tail, int (length A)))" by simp
      obtain ds' tail' fr where *: "cbind (delete_range_high (mk_dl (A @ x # R) tail) e
          (int (length A) + 1) (int (length (A @ x # R)))) (\<lambda>(a, high).
            if int (length A) > high then Ret (a, [], 0)
            else acl_array_delete_range a (int (length A)) high True) = Ret (mk_dl ds' tail', fr, 0)"
        "del_ok (A @ x # R) b e ds'"
        using delete_phase_two [OF asc' A True 3 fit [unfolded ds], of tail] by blast
      show ?thesis by (rule goal2 [OF L0 _ *(1)]) (simp add: ds *(2))
    qed
  next
    case False
    then have xb: "d_begin x < b" by simp
    define x1 where "x1 = DItem (d_begin x) (b - 1)"
    consider "e = d_end x" | "e < d_end x" | "d_end x < e" by linarith
    then show ?thesis
    proof cases
      case 1
      have "del_ok (A @ [x] @ R) b e (A @ [x1] @ R)"
        using asc_x asc' A xb bx 1 by (intro del_ok_middle) (auto simp: x1_def)
      with 1 False step show ?thesis by (intro goal) (auto simp: ds x1_def)
    next
      case 2
      have "disjoint_asc (A @ x1 # R)" using asc' xb bx by (auto simp: x1_def)
      moreover have "pts (A @ x1 # R) \<subseteq> int64_pts" using fit bx by (auto simp: ds x1_def)
      moreover have "{e + 1..d_end x} \<subseteq> int64_pts" using fx' ex by (auto simp: int64_pts_def)
      ultimately have "\<exists>ds' tail' r. dlink_add (mk_dl (A @ x1 # R) tail) (e + 1) (d_end x) = Ret (mk_dl ds' tail', Some r)
          \<and> add_ok (A @ x1 # R) (e + 1) (d_end x) ds' r" using 2 by (intro dlink_add_spec) auto
      then
      obtain ds' t r where add: "dlink_add (mk_dl (A @ x1 # R) tail) (e + 1) (d_end x) =
          Ret (mk_dl ds' t, Some r)" "add_ok (A @ x1 # R) (e + 1) (d_end x) ds' r" by auto
      have "pts R \<inter> {b..e} = {}" using asc_x 2 by (intro pts_behind) auto
      then have "pts ds' = pts ds - {b..e}"
        using add(2) pts_before [OF A, of e] xb bx 2 be by (auto simp: add_ok_def ds x1_def)
      with add have "del_ok ds b e ds'" by (simp add: del_ok_def add_ok_def)
      with add(1) 2 False step show ?thesis by (intro goal) (auto simp: x1_def)
    next
      case 3
      show ?thesis
      proof (cases R)
        case Nil
        have "?L (int (length A)) = Ret (Inl (mk_dl (A @ [x1]) tail, [], 0))"
          using 3 xb bx fx' by (subst delete_range_low.simps) (simp add: mk_dl_at cut_at Let_def x1_def Nil)
        moreover have "del_ok (A @ [x] @ []) b e (A @ [x1] @ [])"
          using asc_x A xb bx 3 by (intro del_ok_middle) (auto simp: x1_def)
        ultimately show ?thesis by (intro goal) (auto simp: ds Nil)
      next
        case (Cons y R')
        let ?a = "mk_dl ((A @ [x1]) @ y # R') tail"
        have at: "ditem_at ?a (int (length A) + 1) = Ret y"
          "ditem_set ?a (int (length A) + 1) d = Ret (mk_dl ((A @ [x1]) @ d # R') tail)" for d
          by (rule mk_dl_at, simp)+
        have fy: "INT64_MIN \<le> d_begin y" "d_end y < INT64_MAX" using fx [of y] Cons by simp_all
        have cut: "ditem_cut_high (mk_dl (A @ x # y # R') tail) (int (length A)) x b = Ret ?a"
          using cut_at(2) [of "int (length A)" A b x "y # R'" tail x] xb bx fx' by (simp add: x1_def)
        have cut_y: "ditem_cut_low ?a (int (length A) + 1) y e = Ret (mk_dl ((A @ [x1]) @ DItem (e + 1) (d_end y) # R') tail)"
          if "\<not> e < d_begin y" "e < d_end y"
          using cut_at(1) [of "int (length A) + 1" "A @ [x1]" e y R' tail y] that fy by simp
        have low: "?L (int (length A)) =
          (if d_begin y > e then Ret (Inl (?a, [], 0))
           else if e < d_end y then Ret (Inl (mk_dl ((A @ [x1]) @ DItem (e + 1) (d_end y) # R') tail, [], 0))
           else if e = d_end y then
             map_cres (\<lambda>(a, freed, _). Inl (a, freed, 0)) (acl_array_delete_idx ?a (int (length A) + 1) True)
           else Ret (Inr (?a, int (length A) + 1)))"
          using 3 xb bx by (subst delete_range_low.simps) (simp add: mk_dl_at Let_def Cons cut at cut_y del: append_assoc append_Cons)
        have asc_y: "d_begin y \<le> d_end y" "\<forall>r \<in> set R'. d_end y < d_begin r" "d_end x < d_begin y"
          "disjoint_asc R'" using asc' Cons by auto
        have asc1: "disjoint_asc ((A @ [x1]) @ y # R')" using asc' xb bx Cons by (auto simp: x1_def)
        have fit1: "pts ((A @ [x1]) @ y # R') \<subseteq> int64_pts" using fit bx by (auto simp: ds Cons x1_def)
        consider "e < d_begin y" | "\<not> e < d_begin y" "e < d_end y" | "\<not> e < d_begin y" "e = d_end y"
          | "d_end y < e" using asc_y(1) by linarith
        then show ?thesis
        proof cases
          case 1
          then have "del_ok (A @ [x] @ R) b e (A @ [x1] @ R)"
            using asc_x asc_y asc1 A xb bx 3 by (intro del_ok_middle) (auto simp: x1_def Cons)
          with 1 low show ?thesis by (intro goal) (auto simp: ds Cons)
        next
          case 2
          then have "del_ok (A @ [x, y] @ R') b e (A @ [x1, DItem (e + 1) (d_end y)] @ R')"
            using asc_x asc_y asc1 asc' A xb bx 3 be
            by (intro del_ok_middle) (auto simp: x1_def Cons)
          with 2 low show ?thesis by (intro goal) (auto simp: ds Cons)
        next
          case 3
          then have "del_ok (A @ [x, y] @ R') b e (A @ [x1] @ R')"
            using asc_x asc_y asc1 asc' A xb bx \<open>d_end x < e\<close>
            by (intro del_ok_middle) (auto simp: x1_def Cons)
          moreover obtain ts where "acl_array_delete_idx ?a (int (length A) + 1) True =
              Ret (mk_dl ((A @ [x1]) @ R') ts, [y], 0)"
            using delete_idx_dl [of "int (length A) + 1" "A @ [x1]" y R' tail] by auto
          ultimately show ?thesis using 3 asc_y low by (intro goal) (auto simp: ds Cons)
        next
          case 4
          with low asc_y skip have L0: "?L 0 = Ret (Inr (?a, int (length (A @ [x1]))))" by simp
          have by1: "b \<le> d_begin y" using asc_y bx by simp
          have A1: "\<forall>a \<in> set (A @ [x1]). d_end a < b" using A by (auto simp: x1_def)
          obtain ds' t fr where *: "cbind (delete_range_high ?a e (int (length (A @ [x1])) + 1)
              (int (length ((A @ [x1]) @ y # R')))) (\<lambda>(a, high).
                if int (length (A @ [x1])) > high then Ret (a, [], 0)
                else acl_array_delete_range a (int (length (A @ [x1]))) high True) =
              Ret (mk_dl ds' t, fr, 0)" "del_ok ((A @ [x1]) @ y # R') b e ds'"
            using delete_phase_two [OF asc1 A1 by1 4 fit1, of tail] by blast
          have "pts ((A @ [x1]) @ y # R') - {b..e} = pts ds - {b..e}"
            using xb bx \<open>d_end x < e\<close> by (auto simp: ds Cons x1_def)
          with *(2) have "del_ok ds b e ds'" by (simp add: del_ok_def)
          moreover have "length ((A @ [x1]) @ y # R') = length (A @ x # R)" by (simp add: Cons)
          ultimately show ?thesis using goal2 [OF L0, of ds' t fr] *(1) by simp
        qed
      qed
    qed
  qed
qed

subsection \<open>The linear searches\<close>

definition is_larger :: "ditem list \<Rightarrow> int \<Rightarrow> nat \<Rightarrow> (ditem \<times> int) option \<Rightarrow> bool" where
  "is_larger ds off i r = (case r of
      None \<Rightarrow> \<forall>k. i \<le> k \<longrightarrow> k < length ds \<longrightarrow> d_end (ds ! k) < off
    | Some (d, j) \<Rightarrow> \<exists>k. j = int k \<and> i \<le> k \<and> k < length ds \<and> d = ds ! k \<and> off \<le> d_end d
        \<and> (\<forall>m. i \<le> m \<longrightarrow> m < k \<longrightarrow> d_end (ds ! m) < off))"

lemma is_larger_Suc:
  assumes "is_larger ds off (Suc i) r" "d_end (ds ! i) < off"
  shows "is_larger ds off i r"
proof (cases r)
  case None
  with assms show ?thesis by (simp add: is_larger_def) (metis Suc_leI le_neq_implies_less)
next
  case (Some dj)
  then obtain d k where r: "r = Some (d, int k)" "Suc i \<le> k" "k < length ds" "d = ds ! k" "off \<le> d_end d"
    and less: "\<And>m. Suc i \<le> m \<Longrightarrow> m < k \<Longrightarrow> d_end (ds ! m) < off"
    using assms(1) by (auto simp: is_larger_def)
  have "d_end (ds ! m) < off" if "i \<le> m" "m < k" for m
    using that less [of m] assms(2) by (cases "m = i") auto
  with r show ?thesis by (auto simp: is_larger_def)
qed

lemma larger_spec:
  assumes "i \<le> length ds"
  shows "\<exists>r. lookup_larger_loop (mk_dl ds tail) off (int i) (int (length ds)) = Ret r \<and> is_larger ds off i r"
  using assms
proof (induction "length ds - i" arbitrary: i)
  case 0
  then show ?case by (simp add: lookup_larger_loop.simps is_larger_def)
next
  case (Suc n)
  then have i: "i < length ds" by simp
  show ?case
  proof (cases "off \<le> d_end (ds ! i)")
    case True
    with i show ?thesis by (subst lookup_larger_loop.simps) (auto simp: is_larger_def)
  next
    case False
    with i have "lookup_larger_loop (mk_dl ds tail) off (int i) (int (length ds)) =
        lookup_larger_loop (mk_dl ds tail) off (int (Suc i)) (int (length ds))"
      by (subst lookup_larger_loop.simps) (simp add: ac_simps)
    moreover have "\<exists>r. lookup_larger_loop (mk_dl ds tail) off (int (Suc i)) (int (length ds)) = Ret r
        \<and> is_larger ds off (Suc i) r"
      by (rule Suc.hyps(1)) (use Suc i in auto)
    ultimately show ?thesis using False is_larger_Suc by force
  qed
qed

lemma insert_spec:
  assumes "dl_inv p" "{min b e..max b e} \<subseteq> int64_pts"
  shows "\<exists>q r. acl_dlink_insert p b e = Ret (q, Some r) \<and> dl_inv q
     \<and> pts (dl_items q) = pts (dl_items p) \<union> {min b e..max b e}
     \<and> r \<in> set (dl_items q) \<and> {min b e..max b e} \<subseteq> {d_begin r..d_end r}"
proof -
  obtain ds tail where p: "p = \<lparr>dl_parray = mk_dl ds tail\<rparr>" "disjoint_asc ds" "pts ds \<subseteq> int64_pts"
    using assms(1) by (rule dl_inv_cases)
  have swap: "(if b > e then (e, b) else (b, e)) = (min b e, max b e)"
    by (simp add: min_def max_def)
  show ?thesis
  proof (cases "ds = []")
    case True
    then obtain ts where "dlink_append (mk_dl ds tail) (min b e) (max b e) =
        Ret (mk_dl [DItem (min b e) (max b e)] ts, Some (DItem (min b e) (max b e)))"
      using dlink_insert_mk(3) [of ds tail] by auto
    with True p assms(2) show ?thesis by (auto simp: acl_dlink_insert_def swap)
  next
    case False
    obtain ds' t r where "dlink_add (mk_dl ds tail) (min b e) (max b e) = Ret (mk_dl ds' t, Some r)"
      "add_ok ds (min b e) (max b e) ds' r"
      using dlink_add_spec [OF p(2) False, of "min b e" "max b e" tail] p(3) assms(2) by force
    with False p assms(2) show ?thesis by (auto simp: acl_dlink_insert_def swap add_ok_def)
  qed
qed

lemma hit_split:
  assumes "is_hit ds n (Some (d, i))"
  obtains A B where "ds = A @ d # B" "i = int (length A)" "d_begin d \<le> n" "n \<le> d_end d"
proof
  show "ds = take (nat i) ds @ d # drop (Suc (nat i)) ds" "i = int (length (take (nat i) ds))"
    "d_begin d \<le> n" "n \<le> d_end d"
    using assms by (auto simp: is_hit_def id_take_nth_drop)
qed

lemma delete_spec:
  assumes "dl_inv p"
  shows "n \<notin> pts (dl_items p) \<Longrightarrow> acl_dlink_delete p n = Ret (p, [], -1)"
    and "n \<in> pts (dl_items p) \<Longrightarrow> \<exists>q d. acl_dlink_delete p n = Ret (q, [d], 0) \<and> dl_inv q
      \<and> d \<in> set (dl_items p) \<and> d_begin d \<le> n \<and> n \<le> d_end d
      \<and> pts (dl_items q) = pts (dl_items p) - {d_begin d..d_end d}"
proof -
  obtain ds tail where p: "p = \<lparr>dl_parray = mk_dl ds tail\<rparr>" "disjoint_asc ds" "pts ds \<subseteq> int64_pts"
    using assms by (rule dl_inv_cases)
  obtain r where r: "acl_dlink_lookup2 p n = Ret r" "is_hit ds n r"
    using lookup2_spec [OF assms, of n] p by auto
  show "acl_dlink_delete p n = Ret (p, [], -1)" if "n \<notin> pts (dl_items p)"
  proof (cases r)
    case None
    with r show ?thesis by (simp add: acl_dlink_delete_def)
  next
    case (Some di)
    with r(2) that p show ?thesis by (cases di) (auto elim!: hit_split)
  qed
  show "\<exists>q d. acl_dlink_delete p n = Ret (q, [d], 0) \<and> dl_inv q
      \<and> d \<in> set (dl_items p) \<and> d_begin d \<le> n \<and> n \<le> d_end d
      \<and> pts (dl_items q) = pts (dl_items p) - {d_begin d..d_end d}" if "n \<in> pts (dl_items p)"
  proof (cases r)
    case None
    with r that p show ?thesis by (simp add: is_hit_def)
  next
    case (Some di)
    obtain d i where di: "di = (d, i)" by (cases di)
    with r(2) Some obtain A B where ds: "ds = A @ d # B" "i = int (length A)"
      and n: "d_begin d \<le> n" "n \<le> d_end d" using hit_split by blast
    obtain ts where "acl_array_delete_idx (mk_dl ds tail) i True = Ret (mk_dl (A @ B) ts, [d], 0)"
      using delete_idx_dl [OF ds(2), of d B tail] ds(1) by auto
    then have "acl_dlink_delete p n = Ret (\<lparr>dl_parray = mk_dl (A @ B) ts\<rparr>, [d], 0)"
      using p(1) r(1) Some di by (simp add: acl_dlink_delete_def)
    moreover have "del_ok (A @ [d] @ B) (d_begin d) (d_end d) (A @ [] @ B)"
      using p(2) ds(1) by (intro del_ok_middle) auto
    moreover have "pts (A @ B) \<subseteq> int64_pts" using p(3) ds(1) by auto
    ultimately show ?thesis
      using p n ds by (intro exI [of _ "\<lparr>dl_parray = mk_dl (A @ B) ts\<rparr>"] exI [of _ d])
        (auto simp: del_ok_def)
  qed
qed

subsection \<open>The interval list as a set of integers\<close>

definition dlink_put :: "acl_dlink \<Rightarrow> int \<times> int \<Rightarrow> acl_dlink cres" where
  "dlink_put p r = map_cres fst (acl_dlink_insert p (fst r) (snd r))"

definition dlink_has :: "acl_dlink \<Rightarrow> int \<Rightarrow> bool cres" where
  "dlink_has p n = map_cres (\<lambda>d. d \<noteq> None) (acl_dlink_lookup p n)"

interpretation dl: range_set dlink_put dlink_has "\<lambda>p. pts (dl_items p)" dl_inv int64_pts
proof
  fix p n assume p: "dl_inv p"
  show "\<exists>q. dlink_put p r = Ret q \<and> dl_inv q \<and> pts (dl_items q) = pts (dl_items p) \<union> range_of r" if "range_of r \<subseteq> int64_pts" for r
    using insert_spec [OF p, of "fst r" "snd r"] that by (auto simp: dlink_put_def range_of_def)
  obtain r where "acl_dlink_lookup2 p n = Ret r" "is_hit (dl_items p) n r"
    using lookup2_spec [OF p] by blast
  then show "dlink_has p n = Ret (n \<in> pts (dl_items p))"
    by (cases r) (auto simp: dlink_has_def acl_dlink_lookup_def is_hit_def pts_def)
qed

lemma create_dl: "\<exists>p. acl_dlink_create k = Some p \<and> dl_inv p \<and> dl_items p = []"
proof -
  obtain n where "acl_array_create (if k > 0 then k else 1) = Some (mk_arr [] (replicate n None) :: ditem acl_array)"
    using create_mk by blast
  then show ?thesis
    by (auto simp: acl_dlink_create_def dl_inv_def dl_items_def array_full_def)
qed

subsection \<open>Properties\<close>

definition demo_dlink :: acl_dlink where
  "demo_dlink = \<lparr>dl_parray = mk_arr [Some (DItem 1 5), Some (DItem 10 20), Some (DItem 30 30)] [None]\<rparr>"

lemma demo_dlink [simp]:
  "dl_inv demo_dlink" "dl_items demo_dlink = [DItem 1 5, DItem 10 20, DItem 30 30]"
  by (auto simp: demo_dlink_def dl_inv_def dl_items_def array_full_def int64_pts_def INT64_MIN_def INT64_MAX_def)

text \<open>
  \<open>acl_dlink_insert\<close> is set union. On an ordered list of disjoint ranges of points below the largest
  \<open>acl_int64\<close>, and with such a range, it never leaves its array and never overflows, keeps the list ordered and disjoint, makes the points of the list exactly the old ones
  and those of the given range, in whichever order its bounds come, and returns an item of the new
  list that covers the whole range: what overlaps or touches has been merged.
\<close>

theorem dlink_insert_union:
  assumes "dl_inv p" "{min b e..max b e} \<subseteq> int64_pts"
  shows "\<exists>q r. acl_dlink_insert p b e = Ret (q, Some r) \<and> dl_inv q
     \<and> pts (dl_items q) = pts (dl_items p) \<union> {min b e..max b e}
     \<and> r \<in> set (dl_items q) \<and> {min b e..max b e} \<subseteq> {d_begin r..d_end r}"
  using assms by (rule insert_spec)

theorem dlink_insert_union_witness:
  "\<exists>q r. acl_dlink_insert demo_dlink 12 6 = Ret (q, Some r) \<and> dl_inv q
     \<and> pts (dl_items q) = {1..5} \<union> {10..20} \<union> {30} \<union> {6..12}"
proof -
  have "{min 12 6..max 12 6} \<subseteq> int64_pts" by (auto simp: int64_pts_def INT64_MIN_def INT64_MAX_def)
  then show ?thesis using dlink_insert_union [of demo_dlink 12 6] by (fastforce simp: Un_ac)
qed

text \<open>
  \<open>acl_dlink_delete_range\<close> is set difference whenever some point of the list lies in the range:
  items inside the range go away, items that stick out are cut, an item around the range is split,
  and the list stays ordered and disjoint.
\<close>

theorem dlink_delete_range_diff:
  assumes "dl_inv p" "b \<le> e" "pts (dl_items p) \<inter> {b..e} \<noteq> {}"
  shows "\<exists>q fr. acl_dlink_delete_range p b e = Ret (q, fr, 0) \<and> dl_inv q
     \<and> pts (dl_items q) = pts (dl_items p) - {b..e}"
proof -
  obtain ds tail where p: "p = \<lparr>dl_parray = mk_dl ds tail\<rparr>" "disjoint_asc ds" "pts ds \<subseteq> int64_pts"
    using assms(1) by (rule dl_inv_cases)
  then obtain ds' tail' fr where "acl_dlink_delete_range p b e = Ret (\<lparr>dl_parray = mk_dl ds' tail'\<rparr>, fr, 0)" "del_ok ds b e ds'"
    using assms delete_range_spec [of ds b e tail] by auto
  then show ?thesis using p by (auto simp: del_ok_def)
qed

theorem dlink_delete_range_diff_witness:
  "\<exists>q fr. acl_dlink_delete_range demo_dlink 4 11 = Ret (q, fr, 0) \<and> dl_inv q
     \<and> pts (dl_items q) = ({1..5} \<union> {10..20} \<union> {30}) - {4..11}"
  using dlink_delete_range_diff [of demo_dlink 4 11] by (fastforce simp: Un_ac)

text \<open>
  C39: Lookups decide membership. After any sequence of insertions, into a new list, of ranges whose ends are
  below the largest \<open>acl_int64\<close>, the binary search of \<open>acl_dlink_lookup\<close> finds an item exactly for the
  integers of some inserted range, and no insertion has failed or overflowed.
\<close>

theorem dlink_history:
  assumes "\<forall>r \<in> set rs. range_of r \<subseteq> int64_pts"
  shows "\<exists>p. acl_dlink_create k = Some p \<and> (\<exists>q. c_push_all dlink_put p rs = Ret q
     \<and> dlink_has q n = Ret (\<exists>r \<in> set rs. n \<in> range_of r))"
  using create_dl [of k] dl.mem_after [OF _ assms] by force

theorem dlink_history_witness:
  "\<exists>p. acl_dlink_create 4 = Some p \<and> (\<exists>q. c_push_all dlink_put p [(1, 5), (20, 10), (- (2 ^ 63), 0), (6, 2 ^ 63 - 2)] = Ret q
     \<and> dlink_has q 7 = Ret True)"
proof -
  have "\<forall>r \<in> set [(1, 5), (20, 10), (- (2 ^ 63), 0), (6, 2 ^ 63 - 2)]. range_of r \<subseteq> int64_pts"
    by (auto simp: range_of_def int64_pts_def INT64_MIN_def INT64_MAX_def)
  from dlink_history [OF this, of 4 7] show ?thesis by (auto simp: range_of_def)
qed

text \<open>
  Deleting by a point. \<open>acl_dlink_delete\<close> frees the one item that holds the point and removes its
  whole range; where no item holds it, it returns \<open>-1\<close> and changes nothing.
\<close>

theorem dlink_delete_point:
  assumes "dl_inv p"
  shows "if n \<in> pts (dl_items p)
    then \<exists>q d. acl_dlink_delete p n = Ret (q, [d], 0) \<and> dl_inv q \<and> d \<in> set (dl_items p)
      \<and> d_begin d \<le> n \<and> n \<le> d_end d \<and> pts (dl_items q) = pts (dl_items p) - {d_begin d..d_end d}
    else acl_dlink_delete p n = Ret (p, [], -1)"
  using delete_spec [OF assms] by simp

theorem dlink_delete_point_witness:
  "(\<exists>q. acl_dlink_delete demo_dlink 17 = Ret (q, [DItem 10 20], 0))
   \<and> acl_dlink_delete demo_dlink 7 = Ret (demo_dlink, [], -1)"
  using dlink_delete_point [of demo_dlink 17] dlink_delete_point [of demo_dlink 7] by auto

text \<open>
  Where no point of the list lies in the range, the deletion is not the identity: a range behind the
  only item removes it, one between two items widens the right one. Neither an interval handed to
  an empty list by \<open>acl_dlink_modify\<close> nor the last item looked up by its address is found.
\<close>

lemma dlink_delete_range_behind:
  "map_cres (\<lambda>(q, fr, r). (dl_items q, fr, r))
     (acl_dlink_delete_range \<lparr>dl_parray = mk_arr [Some (DItem 1 2)] [None]\<rparr> 10 20)
   = Ret ([], [DItem 1 2], 0)"
  by code_simp

lemma dlink_delete_range_widens:
  "map_cres (\<lambda>(q, fr, r). (dl_items q, fr, r))
     (acl_dlink_delete_range \<lparr>dl_parray = mk_arr [Some (DItem 10 20)] [None]\<rparr> 1 5)
   = Ret ([DItem 6 20], [], 0)"
  by code_simp

text \<open>A range that ends at the largest \<open>acl_int64\<close> overflows when something is in the list.\<close>

lemma dlink_insert_overflow: "acl_dlink_insert \<lparr>dl_parray = mk_dl [DItem 1 2] [None]\<rparr> 5 INT64_MAX = Fault"
  using ditem_at_mk [of 0 "[DItem 1 2]" "[None]"]
  by (simp add: acl_dlink_insert_def dlink_add_def begin_pos_def end_pos_def scope_pos_def scope_pos_loop.simps
      dlink_add_same_def add64_def INT64_MAX_def INT64_MIN_def)

lemma dlink_modify_empty:
  "acl_dlink_modify \<lparr>dl_parray = mk_dl [] [None]\<rparr> b e = Ret (\<lparr>dl_parray = mk_dl [] [None]\<rparr>, None)"
  by (simp add: acl_dlink_modify_def dlink_add_def begin_pos_def scope_pos_def scope_pos_loop.simps)

lemma dlink_lookup_item_last:
  "acl_dlink_lookup2_by_item \<lparr>dl_parray = mk_dl [DItem 1 2] [None]\<rparr> (DItem 1 2) = Ret None"
  by (simp add: acl_dlink_lookup2_by_item_def lookup_item_loop.simps)

end
