(* ===== verification/Acl_Stack.thy ===== *)
theory Acl_Stack
  imports Acl_Array
begin

text \<open>
  The pointer stack, \<open>lib_acl/src/stdlib/common/acl_stack.c\<close>. It lays its cells out as the array of
  \<open>acl_array.c\<close> does, so the cell-moving lemmas are shared; null objects are ignored, prepending
  to an empty stack works, and cleaning releases the cells but keeps \<open>capacity\<close>.
\<close>

record 'a acl_stack =
  s_capacity :: int
  s_count :: int
  s_items :: "'a option list"

subsection \<open>Operations\<close>

definition stack_grow :: "'a acl_stack \<Rightarrow> int \<Rightarrow> 'a acl_stack" where
  "stack_grow s min_capacity =
    (if s_capacity s \<ge> min_capacity then s
     else
       (let min_delta = 16;
            delta = min_capacity;
            delta = delta + (min_delta - 1);
            delta = delta div min_delta;
            delta = delta * min_delta
        in if delta \<le> 0 then s
           else
             (let capacity = s_capacity s + delta in
              s\<lparr>s_capacity := capacity,
                s_items := take (nat (s_count s)) (s_items s)
                  @ replicate (nat (capacity - s_count s)) None\<rparr>)))"

definition acl_stack_space :: "'a acl_stack \<Rightarrow> int \<Rightarrow> 'a acl_stack" where
  "acl_stack_space s n =
    (if s_count s + n > s_capacity s then stack_grow s (s_count s + n) else s)"

definition acl_stack_create :: "int \<Rightarrow> 'a acl_stack" where
  "acl_stack_create init_size =
    acl_stack_space \<lparr>s_capacity = 0, s_count = 0, s_items = []\<rparr> (if init_size > 0 then init_size else 1)"

definition acl_stack_append :: "'a acl_stack \<Rightarrow> 'a option \<Rightarrow> 'a acl_stack cres" where
  "acl_stack_append s obj =
    (if obj = None then Ret s
     else
       (let s = (if s_count s \<ge> s_capacity s then stack_grow s (s_count s + 16) else s) in
        map_cres (\<lambda>items. s\<lparr>s_items := items, s_count := s_count s + 1\<rparr>)
          (wr (s_items s) (s_count s) obj)))"

definition acl_stack_prepend :: "'a acl_stack \<Rightarrow> 'a option \<Rightarrow> 'a acl_stack cres" where
  "acl_stack_prepend s obj =
    (if obj = None then Ret s
     else
       (let s = (if s_count s \<ge> s_capacity s then stack_grow s (s_count s + 1) else s) in
        cbind (copy_up (s_items s) (s_count s) 0) (\<lambda>items.
          map_cres (\<lambda>items. s\<lparr>s_items := items, s_count := s_count s + 1\<rparr>) (wr items 0 obj))))"

definition acl_stack_pop :: "'a acl_stack \<Rightarrow> ('a option \<times> 'a acl_stack) cres" where
  "acl_stack_pop s =
    (if s_count s < 1 then Ret (None, s)
     else
       (let s = s\<lparr>s_count := s_count s - 1\<rparr> in
        map_cres (\<lambda>obj. (obj, s)) (rd (s_items s) (s_count s))))"

definition stack_pop_front :: "'a acl_stack \<Rightarrow> ('a option \<times> 'a acl_stack) cres" where
  "stack_pop_front s =
    (if s_count s < 1 then Ret (None, s)
     else cbind (rd (s_items s) 0) (\<lambda>obj.
       let s = s\<lparr>s_count := s_count s - 1\<rparr> in
       map_cres (\<lambda>items. (obj, s\<lparr>s_items := items\<rparr>))
         (copy_down (s_items s) 0 1 (s_count s + 1))))"

definition acl_stack_top :: "'a acl_stack \<Rightarrow> 'a option cres" where
  "acl_stack_top s = (if s_count s < 1 then Ret None else rd (s_items s) (s_count s - 1))"

definition acl_stack_index :: "'a acl_stack \<Rightarrow> int \<Rightarrow> 'a option cres" where
  "acl_stack_index s idx =
    (if idx < 0 \<or> idx > s_count s - 1 then Ret None else rd (s_items s) idx)"

definition acl_stack_size :: "'a acl_stack \<Rightarrow> int" where
  "acl_stack_size s = s_count s"

definition acl_stack_delete ::
    "'a acl_stack \<Rightarrow> int \<Rightarrow> bool \<Rightarrow> ('a acl_stack \<times> 'a list) cres" where
  "acl_stack_delete s position free_fn =
    (if position < 0 \<or> position \<ge> s_count s then Ret (s, [])
     else cbind (rd (s_items s) position) (\<lambda>p.
       cbind (wr (s_items s) position None) (\<lambda>items.
         map_cres (\<lambda>items. (s\<lparr>s_items := items, s_count := s_count s - 1\<rparr>, c_free free_fn p))
           (copy_down items position (position + 1) (s_count s)))))"

definition acl_stack_delete_obj ::
    "'a acl_stack \<Rightarrow> 'a option \<Rightarrow> bool \<Rightarrow> ('a acl_stack \<times> 'a list) cres" where
  "acl_stack_delete_obj s obj free_fn =
    (if obj = None then Ret (s, [])
     else cbind (find_obj (s_items s) obj 0 (s_count s)) (\<lambda>i.
       let position = (if i < s_count s then i else -1) in
       if position = -1 then Ret (s, [])
       else cbind (wr (s_items s) i None) (\<lambda>items.
         map_cres (\<lambda>(s, fs). (s, c_free free_fn obj @ fs))
           (acl_stack_delete (s\<lparr>s_items := items\<rparr>) position False))))"

text \<open>The cells are released: no write into them is possible until the stack grows again.\<close>

definition acl_stack_clean :: "'a acl_stack \<Rightarrow> bool \<Rightarrow> ('a acl_stack \<times> 'a list) cres" where
  "acl_stack_clean s free_fn =
    map_cres (\<lambda>(items, freed). (s\<lparr>s_items := [], s_count := 0\<rparr>, freed))
      (null_range free_fn (s_items s) 0 (s_count s) [])"

definition acl_stack_destroy :: "'a acl_stack \<Rightarrow> bool \<Rightarrow> 'a list cres" where
  "acl_stack_destroy s free_fn = map_cres snd (acl_stack_clean s free_fn)"

subsection \<open>Iterators\<close>

definition stack_iter_head :: "'a acl_stack \<Rightarrow> ('a, 'a) acl_iter cres" where
  "stack_iter_head s =
    map_cres (\<lambda>p. \<lparr>it_ptr = p, it_data = p, it_dlen = -1, it_key = None, it_klen = -1,
                   it_i = 0, it_size = s_count s\<rparr>)
      (if s_items s = [] \<or> s_count s \<le> 0 then Ret None else rd (s_items s) 0)"

definition stack_iter_next :: "('a, 'a) acl_iter \<Rightarrow> 'a acl_stack \<Rightarrow> ('a, 'a) acl_iter cres" where
  "stack_iter_next it s =
    (let it = it\<lparr>it_i := it_i it + 1\<rparr> in
     map_cres (\<lambda>p. it\<lparr>it_ptr := p, it_data := p\<rparr>)
       (if it_i it \<ge> s_count s then Ret None else rd (s_items s) (it_i it)))"

definition stack_iter_tail :: "'a acl_stack \<Rightarrow> ('a, 'a) acl_iter cres" where
  "stack_iter_tail s =
    (let i = s_count s - 1 in
     map_cres (\<lambda>p. \<lparr>it_ptr = p, it_data = p, it_dlen = -1, it_key = None, it_klen = -1,
                    it_i = i, it_size = s_count s\<rparr>)
       (if s_items s = [] \<or> i < 0 then Ret None else rd (s_items s) i))"

definition stack_iter_prev :: "('a, 'a) acl_iter \<Rightarrow> 'a acl_stack \<Rightarrow> ('a, 'a) acl_iter cres" where
  "stack_iter_prev it s =
    (let it = it\<lparr>it_i := it_i it - 1\<rparr> in
     map_cres (\<lambda>p. it\<lparr>it_ptr := p, it_data := p\<rparr>)
       (if it_i it < 0 then Ret None else rd (s_items s) (it_i it)))"

subsection \<open>The stack refines the array\<close>

definition to_arr :: "'a acl_stack \<Rightarrow> 'a acl_array" where
  "to_arr s = \<lparr>a_capacity = s_capacity s, a_count = s_count s, a_items = s_items s\<rparr>"

definition of_arr :: "'a acl_array \<Rightarrow> 'a acl_stack" where
  "of_arr a = \<lparr>s_capacity = a_capacity a, s_count = a_count a, s_items = a_items a\<rparr>"

lemma to_arr_of_arr [simp]: "to_arr (of_arr a) = a" "of_arr (to_arr s) = s"
  by (simp_all add: to_arr_def of_arr_def)

lemma of_arr_sel [simp]:
  "s_capacity (of_arr a) = a_capacity a" "s_count (of_arr a) = a_count a" "s_items (of_arr a) = a_items a"
  by (simp_all add: of_arr_def)

lemma of_arr_update:
  "(of_arr a)\<lparr>s_items := xs, s_count := n\<rparr> = of_arr (a\<lparr>a_items := xs, a_count := n\<rparr>)"
  "(of_arr a)\<lparr>s_items := xs\<rparr> = of_arr (a\<lparr>a_items := xs\<rparr>)"
  "(of_arr a)\<lparr>s_count := n\<rparr> = of_arr (a\<lparr>a_count := n\<rparr>)"
  "(of_arr a)\<lparr>s_capacity := n, s_items := xs\<rparr> = of_arr (a\<lparr>a_capacity := n, a_items := xs\<rparr>)"
  by (simp_all add: of_arr_def)

lemma grow_of_arr: "stack_grow (of_arr a) m = of_arr (acl_array_grow a m)"
  by (simp add: stack_grow_def acl_array_grow_def Let_def of_arr_update add_diff_eq)

lemma append_of_arr: "acl_stack_append (of_arr a) (Some x) = map_cres (\<lambda>(a, _). of_arr a) (acl_array_append a (Some x))"
  by (simp add: acl_stack_append_def acl_array_append_def Let_def grow_of_arr of_arr_update map_cres_comp)

lemma prepend_of_arr:
  assumes "0 < a_count a"
  shows "acl_stack_prepend (of_arr a) (Some x) = map_cres (\<lambda>(a, _). of_arr a) (acl_array_prepend a (Some x))"
  using assms
  by (simp add: acl_stack_prepend_def acl_array_prepend_def acl_array_pred_insert_def Let_def grow_of_arr
      of_arr_update map_cres_comp map_cres_cbind)

lemma pop_of_arr: "acl_stack_pop (of_arr a) = map_cres (\<lambda>(x, a). (x, of_arr a)) (array_pop_back a)"
  by (simp add: acl_stack_pop_def array_pop_back_def Let_def of_arr_update map_cres_comp)

lemma pop_front_of_arr: "stack_pop_front (of_arr a) = map_cres (\<lambda>(x, a). (x, of_arr a)) (array_pop_front a)"
  by (simp add: stack_pop_front_def array_pop_front_def Let_def of_arr_update map_cres_comp map_cres_cbind)

lemma delete_of_arr:
  "acl_stack_delete (of_arr a) i f = map_cres (\<lambda>(a, fr, _). (of_arr a, fr)) (acl_array_delete_idx a i f)"
  by (simp add: acl_stack_delete_def acl_array_delete_idx_def of_arr_update map_cres_comp map_cres_cbind)

lemma delete_obj_of_arr:
  assumes "array_inv a"
  shows "acl_stack_delete_obj (of_arr a) (Some x) f =
    (if Some x \<in> set (arr_list a)
     then map_cres (\<lambda>(a, fr, _). (of_arr a, fr)) (acl_array_delete_obj a (Some x) f) else Ret (of_arr a, []))"
proof -
  obtain xs t where a: "a = mk_arr xs t" using assms by (metis array_inv_cases)
  define p where "p = length (takeWhile (\<lambda>y. y \<noteq> Some x) xs)"
  have p: "find_obj (a_items a) (Some x) 0 (a_count a) = Ret (int p)"
    using find_obj_eq [of 0 xs t "Some x"] by (simp add: a p_def)
  have "p < length xs \<longleftrightarrow> Some x \<in> set xs"
  proof (cases "Some x \<in> set xs")
    case False
    then have "takeWhile (\<lambda>y. y \<noteq> Some x) xs = xs" unfolding takeWhile_eq_all_conv by auto
    then have "p = length xs" unfolding p_def by (rule arg_cong)
    with False show ?thesis by simp
  qed (use remove1_split [of "Some x" xs] in \<open>simp add: p_def Let_def\<close>)
  then show ?thesis
    using p by (simp add: acl_stack_delete_obj_def acl_array_delete_obj_def a of_arr_update delete_of_arr
        map_cres_comp map_cres_cbind case_prod_unfold Let_def)
qed

lemma iter_of_arr:
  "stack_iter_next it (of_arr a) = array_iter_next it a" "stack_iter_prev it (of_arr a) = array_iter_prev it a"
  "stack_iter_head (of_arr a) = map_cres (\<lambda>it. it\<lparr>it_klen := -1\<rparr>) (array_iter_head a)"
  "stack_iter_tail (of_arr a) = map_cres (\<lambda>it. it\<lparr>it_klen := -1\<rparr>) (array_iter_tail a)"
  by (simp_all add: stack_iter_next_def array_iter_next_def stack_iter_prev_def array_iter_prev_def
      stack_iter_head_def array_iter_head_def stack_iter_tail_def array_iter_tail_def Let_def map_cres_comp)

subsection \<open>The stack as a double-ended queue and as an iterable container\<close>

definition stk_list :: "'a acl_stack \<Rightarrow> 'a option list" where
  "stk_list s = arr_list (to_arr s)"

definition stack_inv :: "'a acl_stack \<Rightarrow> bool" where
  "stack_inv s \<longleftrightarrow> array_full (to_arr s)"

definition mk_stk :: "'a list \<Rightarrow> 'a option list \<Rightarrow> 'a acl_stack" where
  "mk_stk xs tail = of_arr (mk_arr (map Some xs) tail)"

lemma mk_stk [simp]: "stack_inv (mk_stk xs tail)" "stk_list (mk_stk xs tail) = map Some xs"
  by (auto simp: mk_stk_def stack_inv_def stk_list_def array_full_def)

lemma stack_inv_cases:
  assumes "stack_inv s"
  obtains xs tail where "s = mk_stk xs tail"
proof -
  obtain xs tail where "to_arr s = mk_arr (map Some xs) tail"
    using assms array_full_cases by (auto simp: stack_inv_def)
  then have "s = mk_stk xs tail" by (metis mk_stk_def to_arr_of_arr(2))
  with that show ?thesis .
qed

lemma stack_append_mk: "\<exists>ts. acl_stack_append (mk_stk xs tail) (Some x) = Ret (mk_stk (xs @ [x]) ts)"
  using append_mk [of "map Some xs" tail "Some x"] by (auto simp: mk_stk_def append_of_arr)

lemma stack_prepend_mk: "\<exists>ts. acl_stack_prepend (mk_stk xs tail) (Some x) = Ret (mk_stk (x # xs) ts)"
proof (cases xs)
  case Nil
  obtain n where "0 < n" "acl_array_grow (mk_arr [] []) 1 = mk_arr [] (replicate n None :: 'a option list)"
    using grow_mk [of "[]" "[]" 1] by auto
  then have "\<exists>ts. acl_stack_prepend (mk_stk [] tail) (Some x) = Ret (of_arr (mk_arr [Some x] ts))"
    by (cases tail; cases n)
      (auto simp: acl_stack_prepend_def mk_stk_def grow_of_arr copy_up.simps of_arr_update mk_arr_update)
  with Nil show ?thesis by (auto simp: mk_stk_def)
next
  case (Cons y ys)
  with pred_insert_mk [of 0 "map Some xs" tail "Some x"] show ?thesis
    by (auto simp: mk_stk_def prepend_of_arr acl_array_prepend_def)
qed

lemma stack_pop_mk:
  "acl_stack_pop (mk_stk (xs @ [x]) tail) = Ret (Some x, mk_stk xs (Some x # tail))"
  "acl_stack_pop (mk_stk [] tail) = Ret (None, mk_stk [] tail)"
  "\<exists>ts. stack_pop_front (mk_stk (x # xs) tail) = Ret (Some x, mk_stk xs ts)"
  "stack_pop_front (mk_stk [] tail) = Ret (None, mk_stk [] tail)"
  using pop_front_mk(1) [of "Some x" "map Some xs" tail]
  by (auto simp: mk_stk_def pop_of_arr pop_front_of_arr pop_back_mk pop_front_mk(2))

interpretation stk: acl_deque acl_stack_append stack_pop_front acl_stack_pop stk_list stack_inv
  "\<lambda>x. x \<noteq> None" None acl_stack_prepend
proof
  fix s :: "'a acl_stack" and x assume "stack_inv s"
  then obtain xs tail where s: "s = mk_stk xs tail" by (rule stack_inv_cases)
  show "\<exists>t. acl_stack_append s x = Ret t \<and> stack_inv t \<and> stk_list t = stk_list s @ [x]" if nn: "x \<noteq> None"
  proof -
    obtain y where y: "x = Some y" using nn by blast
    with stack_append_mk [of xs tail y] show ?thesis by (auto simp: s)
  qed
  show "\<exists>t. acl_stack_prepend s x = Ret t \<and> stack_inv t \<and> stk_list t = x # stk_list s" if nn: "x \<noteq> None"
  proof -
    obtain y where y: "x = Some y" using nn by blast
    with stack_prepend_mk [of xs tail y] show ?thesis by (auto simp: s)
  qed
  show "stack_pop_front s = Ret (None, s)" if "stk_list s = []"
    using that by (simp add: s stack_pop_mk)
  show "acl_stack_pop s = Ret (None, s)" if "stk_list s = []"
    using that by (simp add: s stack_pop_mk)
  fix ys
  show "\<exists>t. stack_pop_front s = Ret (x, t) \<and> stack_inv t \<and> stk_list t = ys" if "stk_list s = x # ys"
  proof -
    obtain y zs where "xs = y # zs" "x = Some y" "ys = map Some zs" using \<open>stk_list s = x # ys\<close> by (auto simp: s)
    with stack_pop_mk(3) [of y zs tail] show ?thesis by (auto simp: s)
  qed
  show "\<exists>t. acl_stack_pop s = Ret (x, t) \<and> stack_inv t \<and> stk_list t = ys" if "stk_list s = ys @ [x]"
    using that by (cases xs rule: rev_cases) (auto simp: s stack_pop_mk)
qed

interpretation stk_fwd: acl_iterable stack_iter_head stack_iter_next "\<lambda>s. live (stk_list s)"
  stack_inv "\<lambda>s. array_at (to_arr s)"
proof
  fix s :: "'a acl_stack" and k it assume s: "stack_inv s"
  then have full: "array_full (to_arr s)" by (simp add: stack_inv_def)
  have eq: "stack_iter_next it s = array_iter_next it (to_arr s)"
    "stack_iter_head s = map_cres (\<lambda>it. it\<lparr>it_klen := -1\<rparr>) (array_iter_head (to_arr s))" for it
    using iter_of_arr(1) [of it "to_arr s"] iter_of_arr(3) [of "to_arr s"] by auto
  show "\<exists>it. stack_iter_head s = Ret it \<and> array_at (to_arr s) 0 it"
    using arr_fwd.head [OF full] by (auto simp: eq array_at_def)
  show "it_ptr it = None" if "array_at (to_arr s) (length (live (stk_list s))) it"
    using arr_fwd.at_end [OF full] that by (simp add: stk_list_def)
  assume "array_at (to_arr s) k it" "k < length (live (stk_list s))"
  then show "it_ptr it \<noteq> None \<and> it_data it = Some (live (stk_list s) ! k)"
    and "\<exists>it'. stack_iter_next it s = Ret it' \<and> array_at (to_arr s) (Suc k) it'"
    using arr_fwd.at_elem [OF full] arr_fwd.step [OF full] by (auto simp: stk_list_def eq)
qed

lemma stack_create_mk: "\<exists>n > 0. acl_stack_create k = (mk_stk [] (replicate n None) :: 'a acl_stack)"
proof -
  define m where "m = (if k > 0 then k else 1)"
  have "0 < m" by (simp add: m_def)
  have "acl_stack_create k = stack_grow (of_arr (mk_arr [] [] :: 'a acl_array)) m"
    by (simp add: acl_stack_create_def acl_stack_space_def m_def mk_arr_def of_arr_def)
  then have "acl_stack_create k = of_arr (acl_array_grow (mk_arr [] [] :: 'a acl_array) m)"
    by (simp add: grow_of_arr)
  then show ?thesis
    using grow_mk [of "[] :: 'a option list" "[]" m] \<open>0 < m\<close> by (auto simp: mk_stk_def)
qed

subsection \<open>Properties\<close>

definition demo_stk :: "nat acl_stack" where
  "demo_stk = mk_stk [4, 7, 9] []"

text \<open>
  The stack refines the array: on a stack without null cells, appending, prepending to a
  non-empty stack, popping at either end and deleting by position give the state and the result the
  array operations give, through the map that forgets nothing but the type, and the iterators step
  alike.
\<close>

theorem stack_refines_array:
  assumes "stack_inv s"
  shows "map_cres to_arr (acl_stack_append s (Some x)) = map_cres fst (acl_array_append (to_arr s) (Some x))
    \<and> (stk_list s \<noteq> [] \<longrightarrow>
        map_cres to_arr (acl_stack_prepend s (Some x)) = map_cres fst (acl_array_prepend (to_arr s) (Some x)))
    \<and> map_cres (\<lambda>(p, t). (p, to_arr t)) (acl_stack_pop s) = array_pop_back (to_arr s)
    \<and> map_cres (\<lambda>(p, t). (p, to_arr t)) (stack_pop_front s) = array_pop_front (to_arr s)
    \<and> map_cres (\<lambda>(t, fr). (to_arr t, fr)) (acl_stack_delete s i f)
        = map_cres (\<lambda>(a, fr, _). (a, fr)) (acl_array_delete_idx (to_arr s) i f)
    \<and> stack_iter_next it s = array_iter_next it (to_arr s)
    \<and> stack_iter_prev it s = array_iter_prev it (to_arr s)"
proof -
  obtain a where s: "s = of_arr a" and a: "array_inv a"
    using assms by (metis array_full_def stack_inv_def to_arr_of_arr(2))
  have ne: "0 < a_count a" if "stk_list s \<noteq> []"
    using that a by (auto simp: s stk_list_def arr_list_def array_inv_def)
  show ?thesis
    by (auto simp: s append_of_arr prepend_of_arr ne[unfolded s] pop_of_arr pop_front_of_arr delete_of_arr
        iter_of_arr map_cres_comp case_prod_unfold)
qed

theorem stack_refines_array_witness:
  "map_cres to_arr (acl_stack_append demo_stk (Some 5)) = map_cres fst (acl_array_append (to_arr demo_stk) (Some 5))
   \<and> map_cres to_arr (acl_stack_prepend demo_stk (Some 5)) = map_cres fst (acl_array_prepend (to_arr demo_stk) (Some 5))"
  using stack_refines_array [of demo_stk 5] by (simp add: demo_stk_def)

text \<open>
  Last in, first out and first in, first out from a new stack: after pushing any objects, none of
  them null, popping as often at the back returns them in reverse order, popping at the front in
  order, prepending mirrors appending, and a further pop returns the null pointer. No push or pop
  leaves the cells, growth included.
\<close>

theorem stack_order:
  "(\<exists>t u. c_push_all acl_stack_append (acl_stack_create k) (map Some xs) = Ret t
      \<and> c_pop_n acl_stack_pop t (length xs) = Ret (rev (map Some xs), u) \<and> acl_stack_pop u = Ret (None, u))
   \<and> (\<exists>t u. c_push_all acl_stack_append (acl_stack_create k) (map Some xs) = Ret t
      \<and> c_pop_n stack_pop_front t (length xs) = Ret (map Some xs, u) \<and> stack_pop_front u = Ret (None, u))
   \<and> (\<exists>t u. c_push_all acl_stack_prepend (acl_stack_create k) (map Some xs) = Ret t
      \<and> c_pop_n acl_stack_pop t (length xs) = Ret (map Some xs, u) \<and> acl_stack_pop u = Ret (None, u))"
proof -
  have 1: "stack_inv (acl_stack_create k :: 'a acl_stack)" "stk_list (acl_stack_create k :: 'a acl_stack) = []"
    using stack_create_mk [of k, where ?'a = 'a] by auto
  have 2: "p \<noteq> None" if "p \<in> set (map Some xs)" for p :: "'a option" using that by auto
  show ?thesis
    using stk.lifo_order [OF 1 2, of "map Some xs"] stk.fifo_order [OF 1 2, of "map Some xs"]
      stk.push_front_pop_back [OF 1 2, of "map Some xs"] by simp
qed

text \<open>
  Deletion from a stack removes exactly the addressed cell, by position or by object, hands the
  object to the callback once, and does nothing for a position outside or an object that is not there.
\<close>

theorem stack_delete_spec:
  assumes "stack_inv s"
  shows "(if i < length (stk_list s) then
       \<exists>t. acl_stack_delete s (int i) f = Ret (t, c_free f (stk_list s ! i)) \<and> stack_inv t
         \<and> stk_list t = take i (stk_list s) @ drop (i + 1) (stk_list s)
     else acl_stack_delete s (int i) f = Ret (s, []))
   \<and> (if Some x \<in> set (stk_list s) then
       \<exists>t. acl_stack_delete_obj s (Some x) f = Ret (t, c_free f (Some x)) \<and> stack_inv t
         \<and> stk_list t = remove1 (Some x) (stk_list s)
     else acl_stack_delete_obj s (Some x) f = Ret (s, []))"
proof -
  obtain xs tail where s: "s = of_arr (mk_arr (map Some xs) tail)"
    using stack_inv_cases [OF assms] by (metis mk_stk_def)
  have full: "stack_inv (of_arr (mk_arr ys ts))" if "None \<notin> set ys" for ys :: "'a option list" and ts
    using that by (simp add: stack_inv_def array_full_def)
  have sub: "None \<notin> set (take i (map Some xs) @ drop (Suc i) (map Some xs))" "None \<notin> set (remove1 (Some x) (map Some xs))"
    using set_remove1_subset [of "Some x" "map Some xs"] by (auto dest!: in_set_takeD in_set_dropD)
  show ?thesis
    using delete_idx_mk [of i "map Some xs" tail f] delete_obj_mk [of "map Some xs" tail "Some x" f]
      full [OF sub(1)] full [OF sub(2)]
    by (auto simp: s delete_of_arr delete_obj_of_arr stk_list_def acl_array_delete_idx_def)
qed

theorem stack_delete_spec_witness:
  "\<exists>t. acl_stack_delete_obj demo_stk (Some 7) True = Ret (t, [7]) \<and> stk_list t = [Some 4, Some 9]"
  using stack_delete_spec [of demo_stk 1 True 7] by (auto simp: demo_stk_def)

text \<open>
  \<open>ACL_FOREACH\<close> over a stack ends after one turn per object and visits them from the bottom to
  the top.
\<close>

theorem stack_foreach:
  assumes "stack_inv s" "s_count s < int fuel"
  shows "\<exists>it. stack_iter_head s = Ret it \<and> acl_foreach fuel stack_iter_next s it = Ret (Some (stk_list s))"
proof -
  obtain xs tail where s: "s = mk_stk xs tail" using assms(1) by (rule stack_inv_cases)
  with stk_fwd.foreach_all [OF assms(1), of fuel] assms(2) show ?thesis by (simp add: mk_stk_def stk_list_def)
qed

theorem stack_foreach_witness:
  "\<exists>it. stack_iter_head demo_stk = Ret it
     \<and> acl_foreach 4 stack_iter_next demo_stk it = Ret (Some [Some 4, Some 7, Some 9])"
  using stack_foreach [of demo_stk 4] by (simp add: demo_stk_def) (simp add: mk_stk_def)

text \<open>A cleaned stack cannot be used again: the next append writes through the null pointer.\<close>

lemma stack_append_after_clean:
  "cbind (acl_stack_clean demo_stk False) (\<lambda>(s, _). acl_stack_append s (Some 1)) = Fault"
  by (simp add: demo_stk_def mk_stk_def acl_stack_clean_def acl_stack_append_def wr_def null_range_eq [of 0 3, simplified])

end
