(* ===== verification/Acl_Links.thy ===== *)
theory Acl_Links
  imports Acl_Prelude
begin

text \<open>
  Doubly linked chains in a heap, shared by the linked containers. A heap is seen through the two
  link fields: \<open>pv a\<close> and \<open>nx a\<close> are the previous and the next link of the object at address \<open>a\<close>,
  \<open>None\<close> where no object is allocated; a link is an address or the null pointer.
\<close>

type_synonym links = "nat \<Rightarrow> nat option option"

definition first_of :: "nat list \<Rightarrow> nat option \<Rightarrow> nat option" where
  "first_of xs q = (case xs of [] \<Rightarrow> q | a # _ \<Rightarrow> Some a)"

definition last_of :: "nat option \<Rightarrow> nat list \<Rightarrow> nat option" where
  "last_of p xs = (if xs = [] then p else Some (last xs))"

lemma first_of_simps [simp]:
  "first_of [] q = q" "first_of (a # xs) q = Some a"
  "first_of (xs @ ys) q = first_of xs (first_of ys q)"
  by (simp_all add: first_of_def split: list.splits)

lemma last_of_simps [simp]:
  "last_of p [] = p" "last_of p (xs @ [a]) = Some a" "last_of p (a # xs) = last_of (Some a) xs"
  "last_of p (xs @ ys) = last_of (last_of p xs) ys"
  by (simp_all add: last_of_def)

text \<open>
  The addresses \<open>xs\<close> are linked in this order; the first one points back to \<open>p\<close>, the last one
  forward to \<open>q\<close>.
\<close>

fun dlseg :: "links \<Rightarrow> links \<Rightarrow> nat option \<Rightarrow> nat list \<Rightarrow> nat option \<Rightarrow> bool" where
  "dlseg pv nx p [] q \<longleftrightarrow> True"
| "dlseg pv nx p (a # xs) q \<longleftrightarrow>
     pv a = Some p \<and> nx a = Some (first_of xs q) \<and> dlseg pv nx (Some a) xs q"

lemma dlseg_append [simp]:
  "dlseg pv nx p (xs @ ys) q \<longleftrightarrow> dlseg pv nx p xs (first_of ys q) \<and> dlseg pv nx (last_of p xs) ys q"
  by (induction xs arbitrary: p) auto

lemma dlseg_cong:
  assumes "dlseg pv nx p xs q" "\<And>a. a \<in> set xs \<Longrightarrow> pv' a = pv a" "\<And>a. a \<in> set xs \<Longrightarrow> nx' a = nx a"
  shows "dlseg pv' nx' p xs q"
  using assms by (induction xs arbitrary: p) auto

lemma dlseg_outside [simp]:
  "a \<notin> set xs \<Longrightarrow> dlseg (pv(a := u)) nx p xs q \<longleftrightarrow> dlseg pv nx p xs q"
  "a \<notin> set xs \<Longrightarrow> dlseg pv (nx(a := v)) p xs q \<longleftrightarrow> dlseg pv nx p xs q"
  by (induction xs arbitrary: p) auto

text \<open>Relinking the last object forward, and the first one back.\<close>

lemma dlseg_relink_last:
  "xs \<noteq> [] \<Longrightarrow> distinct xs \<Longrightarrow> dlseg pv nx p xs q \<Longrightarrow> dlseg pv (nx(last xs := Some r)) p xs r"
proof (induction xs arbitrary: p)
  case (Cons a xs)
  then show ?case by (cases xs) auto
qed simp

lemma dlseg_relink_first:
  "xs \<noteq> [] \<Longrightarrow> distinct xs \<Longrightarrow> dlseg pv nx p xs q \<Longrightarrow> dlseg (pv(hd xs := Some r)) nx r xs q"
  by (cases xs) auto

lemma dlseg_mem: "dlseg pv nx p xs q \<Longrightarrow> a \<in> set xs \<Longrightarrow> pv a \<noteq> None \<and> nx a \<noteq> None"
  by (induction xs arbitrary: p) auto

text \<open>Following the next links, at most \<open>fuel\<close> of them.\<close>

fun chain :: "nat \<Rightarrow> links \<Rightarrow> nat option \<Rightarrow> nat list" where
  "chain 0 nx p = []"
| "chain (Suc fuel) nx p =
    (case p of None \<Rightarrow> [] | Some a \<Rightarrow> a # (case nx a of None \<Rightarrow> [] | Some q \<Rightarrow> chain fuel nx q))"

lemma chain_dlseg: "dlseg pv nx p xs None \<Longrightarrow> length xs \<le> n \<Longrightarrow> chain n nx (first_of xs None) = xs"
proof (induction xs arbitrary: n p)
  case Nil
  then show ?case by (cases n) auto
next
  case (Cons a xs)
  then show ?case by (cases n) auto
qed

text \<open>The next links alone.\<close>

fun nseg :: "links \<Rightarrow> nat list \<Rightarrow> nat option \<Rightarrow> bool" where
  "nseg nx [] q \<longleftrightarrow> True"
| "nseg nx (a # xs) q \<longleftrightarrow> nx a = Some (first_of xs q) \<and> nseg nx xs q"

lemma dlseg_nseg: "dlseg pv nx p xs q \<Longrightarrow> nseg nx xs q"
  by (induction xs arbitrary: p) auto

lemma nseg_cong: "nseg nx xs q \<Longrightarrow> (\<And>a. a \<in> set xs \<Longrightarrow> nx' a = nx a) \<Longrightarrow> nseg nx' xs q"
  by (induction xs) auto

text \<open>Addresses below a bound cannot be chained without end.\<close>

lemma distinct_bounded: "distinct xs \<Longrightarrow> (\<And>a. a \<in> set xs \<Longrightarrow> a < n) \<Longrightarrow> length xs \<le> n"
  using card_mono [of "{0..<n}" "set xs"] by (auto simp: distinct_card subset_iff)

end
