(* ===== verification/Acl_Fifo.thy ===== *)
theory Acl_Fifo
  imports Acl_Links Acl_Interfaces
begin

text \<open>
  The doubly linked queue, \<open>lib_acl/src/stdlib/common/acl_fifo.c\<close>. Nodes live in a heap of
  addresses; reading or writing through a pointer to no node faults, so a result \<open>Ret\<close> also says
  that no freed node was used. \<open>ff_brk\<close> is the next address the allocator returns: an address is
  not reused, which the code cannot observe. Nodes from a slice pool and from the heap are alike, so
  the pool is not part of the state. A data pointer is \<open>Some\<close> object or \<open>None\<close>, the null pointer.
\<close>

record 'a fifo_info =
  fi_data :: "'a option"
  fi_prev :: "nat option"
  fi_next :: "nat option"

record 'a acl_fifo =
  ff_heap :: "nat \<Rightarrow> 'a fifo_info option"
  ff_brk :: nat
  ff_head :: "nat option"
  ff_tail :: "nat option"
  ff_cnt :: int

subsection \<open>The heap\<close>

definition fi_get :: "'a acl_fifo \<Rightarrow> nat \<Rightarrow> 'a fifo_info cres" where
  "fi_get ff a = (case ff_heap ff a of None \<Rightarrow> Fault | Some n \<Rightarrow> Ret n)"

definition fi_put :: "'a acl_fifo \<Rightarrow> nat \<Rightarrow> 'a fifo_info \<Rightarrow> 'a acl_fifo" where
  "fi_put ff a n = ff\<lparr>ff_heap := (ff_heap ff)(a \<mapsto> n)\<rparr>"

definition set_next :: "'a acl_fifo \<Rightarrow> nat \<Rightarrow> nat option \<Rightarrow> 'a acl_fifo cres" where
  "set_next ff a p = map_cres (\<lambda>n. fi_put ff a (n\<lparr>fi_next := p\<rparr>)) (fi_get ff a)"

definition set_prev :: "'a acl_fifo \<Rightarrow> nat \<Rightarrow> nat option \<Rightarrow> 'a acl_fifo cres" where
  "set_prev ff a p = map_cres (\<lambda>n. fi_put ff a (n\<lparr>fi_prev := p\<rparr>)) (fi_get ff a)"

text \<open>Allocation and the assignment of \<open>data\<close>; a fresh node's links are not yet meaningful.\<close>

definition fi_alloc :: "'a acl_fifo \<Rightarrow> 'a option \<Rightarrow> 'a acl_fifo \<times> nat" where
  "fi_alloc ff data =
    (let a = ff_brk ff in
     ((fi_put ff a \<lparr>fi_data = data, fi_prev = None, fi_next = None\<rparr>)\<lparr>ff_brk := a + 1\<rparr>, a))"

definition fi_free :: "'a acl_fifo \<Rightarrow> nat \<Rightarrow> 'a acl_fifo cres" where
  "fi_free ff a = map_cres (\<lambda>_. ff\<lparr>ff_heap := (ff_heap ff)(a := None)\<rparr>) (fi_get ff a)"

subsection \<open>Operations\<close>

definition acl_fifo_init :: "('a acl_fifo) \<Rightarrow> 'a acl_fifo" where
  "acl_fifo_init ff = ff\<lparr>ff_head := None, ff_tail := None, ff_cnt := 0\<rparr>"

definition acl_fifo_push_info_back :: "'a acl_fifo \<Rightarrow> nat \<Rightarrow> 'a acl_fifo cres" where
  "acl_fifo_push_info_back ff info =
    map_cres (\<lambda>ff. ff\<lparr>ff_cnt := ff_cnt ff + 1\<rparr>)
      (case ff_tail ff of
         None \<Rightarrow> cbind (set_next ff info None) (\<lambda>ff. cbind (set_prev ff info None) (\<lambda>ff.
           Ret (ff\<lparr>ff_head := Some info, ff_tail := Some info\<rparr>)))
       | Some tail \<Rightarrow> cbind (set_next ff tail (Some info)) (\<lambda>ff.
           cbind (set_prev ff info (Some tail)) (\<lambda>ff. cbind (set_next ff info None) (\<lambda>ff.
             Ret (ff\<lparr>ff_tail := Some info\<rparr>)))))"

text \<open>The linking part of \<open>acl_fifo_push_back\<close> is the text of \<open>acl_fifo_push_info_back\<close>.\<close>

definition acl_fifo_push_back :: "'a acl_fifo \<Rightarrow> 'a option \<Rightarrow> ('a acl_fifo \<times> nat) cres" where
  "acl_fifo_push_back ff data =
    (let (ff, info) = fi_alloc ff data in
     map_cres (\<lambda>ff. (ff, info)) (acl_fifo_push_info_back ff info))"

definition acl_fifo_push_front :: "'a acl_fifo \<Rightarrow> 'a option \<Rightarrow> ('a acl_fifo \<times> nat) cres" where
  "acl_fifo_push_front ff data =
    (let (ff, info) = fi_alloc ff data in
     map_cres (\<lambda>ff. (ff\<lparr>ff_cnt := ff_cnt ff + 1\<rparr>, info))
       (case ff_head ff of
          None \<Rightarrow> cbind (set_next ff info None) (\<lambda>ff. cbind (set_prev ff info None) (\<lambda>ff.
            Ret (ff\<lparr>ff_head := Some info, ff_tail := Some info\<rparr>)))
        | Some head \<Rightarrow> cbind (set_next ff info (Some head)) (\<lambda>ff.
            cbind (set_prev ff head (Some info)) (\<lambda>ff. cbind (set_prev ff info None) (\<lambda>ff.
              Ret (ff\<lparr>ff_head := Some info\<rparr>))))))"

definition acl_fifo_pop_info :: "'a acl_fifo \<Rightarrow> (nat option \<times> 'a acl_fifo) cres" where
  "acl_fifo_pop_info ff =
    (case ff_head ff of
       None \<Rightarrow> Ret (None, ff)
     | Some info \<Rightarrow> cbind (fi_get ff info) (\<lambda>n.
         map_cres (\<lambda>ff. (Some info, ff\<lparr>ff_cnt := ff_cnt ff - 1\<rparr>))
           (case fi_next n of
              Some nxt \<Rightarrow> map_cres (\<lambda>ff. ff\<lparr>ff_head := Some nxt\<rparr>) (set_prev ff nxt None)
            | None \<Rightarrow> Ret (ff\<lparr>ff_head := None, ff_tail := None\<rparr>))))"

definition acl_fifo_pop_front :: "'a acl_fifo \<Rightarrow> ('a option \<times> 'a acl_fifo) cres" where
  "acl_fifo_pop_front ff =
    (case ff_head ff of
       None \<Rightarrow> Ret (None, ff)
     | Some info \<Rightarrow> cbind (fi_get ff info) (\<lambda>n.
         cbind (case fi_next n of
              Some nxt \<Rightarrow> map_cres (\<lambda>ff. ff\<lparr>ff_head := Some nxt\<rparr>) (set_prev ff nxt None)
            | None \<Rightarrow> Ret (ff\<lparr>ff_head := None, ff_tail := None\<rparr>)) (\<lambda>ff.
           cbind (fi_get ff info) (\<lambda>n.
             map_cres (\<lambda>ff. (fi_data n, ff\<lparr>ff_cnt := ff_cnt ff - 1\<rparr>)) (fi_free ff info)))))"

definition acl_fifo_pop_back :: "'a acl_fifo \<Rightarrow> ('a option \<times> 'a acl_fifo) cres" where
  "acl_fifo_pop_back ff =
    (case ff_tail ff of
       None \<Rightarrow> Ret (None, ff)
     | Some info \<Rightarrow> cbind (fi_get ff info) (\<lambda>n.
         cbind (case fi_prev n of
              Some prv \<Rightarrow> map_cres (\<lambda>ff. ff\<lparr>ff_tail := Some prv\<rparr>) (set_next ff prv None)
            | None \<Rightarrow> Ret (ff\<lparr>ff_head := None, ff_tail := None\<rparr>)) (\<lambda>ff.
           cbind (fi_get ff info) (\<lambda>n.
             map_cres (\<lambda>ff. (fi_data n, ff\<lparr>ff_cnt := ff_cnt ff - 1\<rparr>)) (fi_free ff info)))))"

definition acl_fifo_delete_info :: "'a acl_fifo \<Rightarrow> nat \<Rightarrow> 'a acl_fifo cres" where
  "acl_fifo_delete_info ff info =
    cbind (fi_get ff info) (\<lambda>n.
      cbind (case fi_prev n of Some prv \<Rightarrow> set_next ff prv (fi_next n)
             | None \<Rightarrow> Ret (ff\<lparr>ff_head := fi_next n\<rparr>)) (\<lambda>ff.
        cbind (fi_get ff info) (\<lambda>n.
          cbind (case fi_next n of Some nxt \<Rightarrow> set_prev ff nxt (fi_prev n)
                 | None \<Rightarrow> Ret (ff\<lparr>ff_tail := fi_prev n\<rparr>)) (\<lambda>ff.
            map_cres (\<lambda>ff. ff\<lparr>ff_cnt := ff_cnt ff - 1\<rparr>) (fi_free ff info)))))"

text \<open>
  The search loop of \<open>acl_fifo_delete\<close>. The first argument bounds the number of turns; the body that
  unlinks the node found is the text of \<open>acl_fifo_delete_info\<close>.
\<close>

fun fifo_delete_loop :: "nat \<Rightarrow> 'a acl_fifo \<Rightarrow> nat option \<Rightarrow> 'a option \<Rightarrow> ('a acl_fifo \<times> int) option cres" where
  "fifo_delete_loop 0 ff it data = Ret None"
| "fifo_delete_loop (Suc fuel) ff it data =
    (case it of
       None \<Rightarrow> Ret (Some (ff, 0))
     | Some a \<Rightarrow> cbind (fi_get ff a) (\<lambda>n.
         if fi_data n = data then map_cres (\<lambda>ff. Some (ff, 1)) (acl_fifo_delete_info ff a)
         else fifo_delete_loop fuel ff (fi_next n) data))"

definition acl_fifo_delete :: "nat \<Rightarrow> 'a acl_fifo \<Rightarrow> 'a option \<Rightarrow> ('a acl_fifo \<times> int) option cres" where
  "acl_fifo_delete fuel ff data = fifo_delete_loop fuel ff (ff_head ff) data"

text \<open>
  The loop of \<open>acl_fifo_free\<close>: it pops until the null pointer comes back, be it from an empty
  queue or from a node without data. The result is the queue left and the data handed to the
  callback.
\<close>

fun acl_fifo_free :: "nat \<Rightarrow> 'a acl_fifo \<Rightarrow> bool \<Rightarrow> ('a acl_fifo \<times> 'a list) option cres" where
  "acl_fifo_free 0 ff free_fn = Ret None"
| "acl_fifo_free (Suc fuel) ff free_fn =
    cbind (acl_fifo_pop_front ff) (\<lambda>(data, ff). case data of
      None \<Rightarrow> Ret (Some (ff, []))
    | Some x \<Rightarrow> map_cres (map_option (\<lambda>(ff, xs). (ff, (if free_fn then [x] else []) @ xs)))
        (acl_fifo_free fuel ff free_fn))"

fun acl_fifo_free2 :: "nat \<Rightarrow> 'a acl_fifo \<Rightarrow> bool \<Rightarrow> ('a acl_fifo \<times> nat list) option cres" where
  "acl_fifo_free2 0 ff free_fn = Ret None"
| "acl_fifo_free2 (Suc fuel) ff free_fn =
    cbind (acl_fifo_pop_info ff) (\<lambda>(info, ff). case info of
      None \<Rightarrow> Ret (Some (ff, []))
    | Some a \<Rightarrow> map_cres (map_option (\<lambda>(ff, as). (ff, (if free_fn then [a] else []) @ as)))
        (acl_fifo_free2 fuel ff free_fn))"

definition acl_fifo_head :: "'a acl_fifo \<Rightarrow> 'a option cres" where
  "acl_fifo_head ff = (case ff_head ff of None \<Rightarrow> Ret None | Some a \<Rightarrow> map_cres fi_data (fi_get ff a))"

definition acl_fifo_tail :: "'a acl_fifo \<Rightarrow> 'a option cres" where
  "acl_fifo_tail ff = (case ff_tail ff of None \<Rightarrow> Ret None | Some a \<Rightarrow> map_cres fi_data (fi_get ff a))"

definition acl_fifo_head_info :: "'a acl_fifo \<Rightarrow> nat option" where
  "acl_fifo_head_info ff = ff_head ff"

definition acl_fifo_tail_info :: "'a acl_fifo \<Rightarrow> nat option" where
  "acl_fifo_tail_info ff = ff_tail ff"

definition acl_fifo_size :: "'a acl_fifo \<Rightarrow> int" where
  "acl_fifo_size ff = ff_cnt ff"

subsection \<open>Iterators\<close>

text \<open>The data of the node an iterator moves to, and the iterator there.\<close>

definition fifo_data_at :: "'a acl_fifo \<Rightarrow> nat option \<Rightarrow> 'a option cres" where
  "fifo_data_at ff p = (case p of None \<Rightarrow> Ret None | Some a \<Rightarrow> map_cres fi_data (fi_get ff a))"

definition fifo_iter_head :: "'a acl_fifo \<Rightarrow> (nat, 'a) acl_iter cres" where
  "fifo_iter_head ff =
    map_cres (\<lambda>d. \<lparr>it_ptr = ff_head ff, it_data = d, it_dlen = -1, it_key = None, it_klen = -1,
                   it_i = 0, it_size = ff_cnt ff\<rparr>) (fifo_data_at ff (ff_head ff))"

definition fifo_iter_next :: "(nat, 'a) acl_iter \<Rightarrow> 'a acl_fifo \<Rightarrow> (nat, 'a) acl_iter cres" where
  "fifo_iter_next it ff =
    cbind (case it_ptr it of None \<Rightarrow> Ret None | Some a \<Rightarrow> map_cres fi_next (fi_get ff a)) (\<lambda>p.
      case p of None \<Rightarrow> Ret (it\<lparr>it_ptr := None, it_data := None\<rparr>)
      | Some a \<Rightarrow> map_cres (\<lambda>d. it\<lparr>it_ptr := p, it_data := d, it_i := it_i it + 1\<rparr>) (fifo_data_at ff p))"

definition fifo_iter_tail :: "'a acl_fifo \<Rightarrow> (nat, 'a) acl_iter cres" where
  "fifo_iter_tail ff =
    map_cres (\<lambda>d. \<lparr>it_ptr = ff_tail ff, it_data = d, it_dlen = -1, it_key = None, it_klen = -1,
                   it_i = ff_cnt ff - 1, it_size = ff_cnt ff\<rparr>) (fifo_data_at ff (ff_tail ff))"

definition fifo_iter_prev :: "(nat, 'a) acl_iter \<Rightarrow> 'a acl_fifo \<Rightarrow> (nat, 'a) acl_iter cres" where
  "fifo_iter_prev it ff =
    cbind (case it_ptr it of None \<Rightarrow> Ret None | Some a \<Rightarrow> map_cres fi_prev (fi_get ff a)) (\<lambda>p.
      case p of None \<Rightarrow> Ret (it\<lparr>it_ptr := None, it_data := None\<rparr>)
      | Some a \<Rightarrow> map_cres (\<lambda>d. it\<lparr>it_ptr := p, it_data := d, it_i := it_i it - 1\<rparr>) (fifo_data_at ff p))"

subsection \<open>The queue as a list of nodes\<close>

definition fpv :: "(nat \<Rightarrow> 'a fifo_info option) \<Rightarrow> links" where
  "fpv h a = map_option fi_prev (h a)"

definition fnx :: "(nat \<Rightarrow> 'a fifo_info option) \<Rightarrow> links" where
  "fnx h a = map_option fi_next (h a)"

lemma links_upd [simp]:
  "fpv (h(a \<mapsto> n)) = (fpv h)(a \<mapsto> fi_prev n)" "fnx (h(a \<mapsto> n)) = (fnx h)(a \<mapsto> fi_next n)"
  "fpv (h(a := None)) = (fpv h)(a := None)" "fnx (h(a := None)) = (fnx h)(a := None)"
  by (auto simp: fpv_def fnx_def)

lemma links_eq_Some:
  "fpv h a = Some p \<Longrightarrow> \<exists>n. h a = Some n \<and> fi_prev n = p" "fnx h a = Some p \<Longrightarrow> \<exists>n. h a = Some n \<and> fi_next n = p"
  by (auto simp: fpv_def fnx_def)

lemma fi_put_sel [simp]:
  "ff_heap (fi_put ff a n) = (ff_heap ff)(a \<mapsto> n)" "ff_brk (fi_put ff a n) = ff_brk ff"
  "ff_head (fi_put ff a n) = ff_head ff" "ff_tail (fi_put ff a n) = ff_tail ff"
  "ff_cnt (fi_put ff a n) = ff_cnt ff"
  by (simp_all add: fi_put_def)

lemma heap_Ret [simp]:
  assumes "ff_heap ff a = Some n"
  shows "fi_get ff a = Ret n" "set_next ff a p = Ret (fi_put ff a (n\<lparr>fi_next := p\<rparr>))"
    "set_prev ff a p = Ret (fi_put ff a (n\<lparr>fi_prev := p\<rparr>))"
    "fi_free ff a = Ret (ff\<lparr>ff_heap := (ff_heap ff)(a := None)\<rparr>)"
  using assms by (simp_all add: fi_get_def set_next_def set_prev_def fi_free_def)

text \<open>\<open>fifo_rep ff ps\<close>: the queue is the chain of the nodes at the addresses \<open>ps\<close>.\<close>

definition fifo_rep :: "'a acl_fifo \<Rightarrow> nat list \<Rightarrow> bool" where
  "fifo_rep ff ps \<longleftrightarrow> dlseg (fpv (ff_heap ff)) (fnx (ff_heap ff)) None ps None \<and> distinct ps
     \<and> ff_head ff = first_of ps None \<and> ff_tail ff = last_of None ps \<and> ff_cnt ff = int (length ps)
     \<and> (\<forall>a \<ge> ff_brk ff. ff_heap ff a = None)"

text \<open>The data of the nodes, in order.\<close>

definition fdat :: "'a acl_fifo \<Rightarrow> nat \<Rightarrow> 'a option" where
  "fdat ff a = (case ff_heap ff a of None \<Rightarrow> None | Some n \<Rightarrow> fi_data n)"

definition fifo_ptrs :: "'a acl_fifo \<Rightarrow> nat list" where
  "fifo_ptrs ff = chain (nat (ff_cnt ff)) (fnx (ff_heap ff)) (ff_head ff)"

definition fifo_inv :: "'a acl_fifo \<Rightarrow> bool" where
  "fifo_inv ff \<longleftrightarrow> fifo_rep ff (fifo_ptrs ff)"

definition fifo_list :: "'a acl_fifo \<Rightarrow> 'a option list" where
  "fifo_list ff = map (fdat ff) (fifo_ptrs ff)"

lemma fifo_rep_ptrs: "fifo_rep ff ps \<Longrightarrow> fifo_ptrs ff = ps"
  by (auto simp: fifo_rep_def fifo_ptrs_def intro: chain_dlseg)

lemma fifo_rep_inv: "fifo_rep ff ps \<Longrightarrow> fifo_inv ff \<and> fifo_list ff = map (fdat ff) ps"
  using fifo_rep_ptrs by (fastforce simp: fifo_inv_def fifo_list_def)

lemma fifo_rep_node:
  assumes "fifo_rep ff (A @ a # B)"
  obtains n where "ff_heap ff a = Some n" "fi_prev n = last_of None A" "fi_next n = first_of B None"
  using assms by (auto simp: fifo_rep_def fpv_def fnx_def)

lemma fifo_rep_mem: "fifo_rep ff ps \<Longrightarrow> a \<in> set ps \<Longrightarrow> a < ff_brk ff"
  by (metis dlseg_mem fifo_rep_def fpv_def linorder_not_le option.simps(8))

lemma push_info_back_rep:
  assumes "fifo_rep ff ps" "a \<notin> set ps" "ff_heap ff a = Some n"
  shows "\<exists>ff'. acl_fifo_push_info_back ff a = Ret ff' \<and> fifo_rep ff' (ps @ [a])
    \<and> ff_brk ff' = ff_brk ff \<and> fdat ff' = fdat ff \<and> (\<forall>b. b \<notin> set (ps @ [a]) \<longrightarrow> ff_heap ff' b = ff_heap ff b)"
proof (cases ps rule: rev_cases)
  case Nil
  with assms show ?thesis
    by (auto simp: acl_fifo_push_info_back_def fifo_rep_def fdat_def fun_eq_iff)
next
  case (snoc qs t)
  with assms obtain m where m: "ff_heap ff t = Some m" "fi_prev m = last_of None qs" "fi_next m = None"
    using fifo_rep_node [of ff qs t "[]"] by auto
  with assms snoc show ?thesis
    by (auto simp: acl_fifo_push_info_back_def fifo_rep_def fdat_def fun_eq_iff)
qed

lemma alloc_rep:
  assumes "fifo_rep ff ps"
  obtains ff' a where "fi_alloc ff d = (ff', a)" "a = ff_brk ff" "fifo_rep ff' ps"
    "a \<notin> set ps" "ff_heap ff' = (ff_heap ff)(a \<mapsto> \<lparr>fi_data = d, fi_prev = None, fi_next = None\<rparr>)"
proof
  let ?a = "ff_brk ff"
  let ?ff = "(fi_put ff ?a \<lparr>fi_data = d, fi_prev = None, fi_next = None\<rparr>)\<lparr>ff_brk := ?a + 1\<rparr>"
  show "fi_alloc ff d = (?ff, ?a)" by (simp add: fi_alloc_def Let_def)
  show a: "?a \<notin> set ps" using fifo_rep_mem [OF assms] by blast
  show "fifo_rep ?ff ps" using assms a by (auto simp: fifo_rep_def)
qed simp_all

lemma push_back_rep:
  assumes "fifo_rep ff ps"
  shows "\<exists>ff'. acl_fifo_push_back ff d = Ret (ff', ff_brk ff) \<and> fifo_rep ff' (ps @ [ff_brk ff])
    \<and> fdat ff' = (fdat ff)(ff_brk ff := d)"
proof -
  obtain f a where f: "fi_alloc ff d = (f, a)" "a = ff_brk ff" "fifo_rep f ps"
    "a \<notin> set ps" "ff_heap f = (ff_heap ff)(a \<mapsto> \<lparr>fi_data = d, fi_prev = None, fi_next = None\<rparr>)"
    using assms by (rule alloc_rep)
  obtain ff' where "acl_fifo_push_info_back f a = Ret ff'" "fifo_rep ff' (ps @ [a])" "fdat ff' = fdat f"
    using push_info_back_rep [OF f(3,4)] f(5) by fastforce
  with f show ?thesis by (auto simp: acl_fifo_push_back_def fdat_def fun_eq_iff)
qed

lemma push_front_rep:
  assumes "fifo_rep ff ps"
  shows "\<exists>ff'. acl_fifo_push_front ff d = Ret (ff', ff_brk ff) \<and> fifo_rep ff' (ff_brk ff # ps)
    \<and> fdat ff' = (fdat ff)(ff_brk ff := d)"
proof -
  obtain f a where f: "fi_alloc ff d = (f, a)" "a = ff_brk ff" "fifo_rep f ps"
    "a \<notin> set ps" "ff_heap f = (ff_heap ff)(a \<mapsto> \<lparr>fi_data = d, fi_prev = None, fi_next = None\<rparr>)"
    using assms by (rule alloc_rep)
  have a: "ff_heap f a = Some \<lparr>fi_data = d, fi_prev = None, fi_next = None\<rparr>"
    and dat: "fdat f = (fdat ff)(a := d)"
    using f(5) by (auto simp: fdat_def fun_eq_iff)
  have "\<exists>ff'. acl_fifo_push_front ff d = Ret (ff', a) \<and> fifo_rep ff' (a # ps) \<and> fdat ff' = fdat f"
  proof (cases ps)
    case Nil
    with f(1,3,4) a show ?thesis
      by (auto simp: acl_fifo_push_front_def fifo_rep_def fdat_def fun_eq_iff)
  next
    case (Cons b qs)
    with f(3) obtain m where m: "ff_heap f b = Some m" "fi_prev m = None" "fi_next m = first_of qs None"
      using fifo_rep_node [of f "[]" b qs] by auto
    with f(1,3,4) a Cons show ?thesis
      by (auto simp: acl_fifo_push_front_def fifo_rep_def fdat_def fun_eq_iff)
  qed
  with dat f(2) show ?thesis by simp
qed

text \<open>Popping at the front, with and without releasing the node.\<close>

lemma pop_info_rep:
  assumes "fifo_rep ff (a # ps)"
  shows "\<exists>ff'. acl_fifo_pop_info ff = Ret (Some a, ff') \<and> fifo_rep ff' ps \<and> fdat ff' = fdat ff"
proof -
  obtain n where n: "ff_heap ff a = Some n" "fi_prev n = None" "fi_next n = first_of ps None"
    using fifo_rep_node [of ff "[]" a ps] assms by auto
  show ?thesis
  proof (cases ps)
    case Nil
    with n assms show ?thesis by (auto simp: acl_fifo_pop_info_def fifo_rep_def fdat_def fun_eq_iff)
  next
    case (Cons b qs)
    with assms obtain m where m: "ff_heap ff b = Some m" "fi_prev m = Some a" "fi_next m = first_of qs None"
      using fifo_rep_node [of ff "[a]" b qs] by auto
    with n assms Cons show ?thesis
      by (auto simp: acl_fifo_pop_info_def fifo_rep_def fdat_def fun_eq_iff)
  qed
qed

lemma pop_front_rep:
  assumes "fifo_rep ff (a # ps)"
  shows "\<exists>ff'. acl_fifo_pop_front ff = Ret (fdat ff a, ff') \<and> fifo_rep ff' ps
    \<and> fdat ff' = (fdat ff)(a := None) \<and> ff_heap ff' a = None"
proof -
  obtain n where n: "ff_heap ff a = Some n" "fi_prev n = None" "fi_next n = first_of ps None"
    using fifo_rep_node [of ff "[]" a ps] assms by auto
  show ?thesis
  proof (cases ps)
    case Nil
    with n assms show ?thesis by (auto simp: acl_fifo_pop_front_def fifo_rep_def fdat_def fun_eq_iff)
  next
    case (Cons b qs)
    with assms obtain m where m: "ff_heap ff b = Some m" "fi_prev m = Some a" "fi_next m = first_of qs None"
      using fifo_rep_node [of ff "[a]" b qs] by auto
    with n assms Cons show ?thesis
      by (auto simp: acl_fifo_pop_front_def fifo_rep_def fdat_def fun_eq_iff)
  qed
qed

lemma pop_back_rep:
  assumes "fifo_rep ff (ps @ [a])"
  shows "\<exists>ff'. acl_fifo_pop_back ff = Ret (fdat ff a, ff') \<and> fifo_rep ff' ps
    \<and> fdat ff' = (fdat ff)(a := None) \<and> ff_heap ff' a = None"
proof -
  obtain n where n: "ff_heap ff a = Some n" "fi_prev n = last_of None ps" "fi_next n = None"
    using fifo_rep_node [of ff ps a "[]"] assms by auto
  show ?thesis
  proof (cases ps rule: rev_cases)
    case Nil
    with n assms show ?thesis by (auto simp: acl_fifo_pop_back_def fifo_rep_def fdat_def fun_eq_iff)
  next
    case (snoc qs b)
    with assms obtain m where m: "ff_heap ff b = Some m" "fi_prev m = last_of None qs" "fi_next m = Some a"
      using fifo_rep_node [of ff qs b "[a]"] by auto
    with n assms snoc show ?thesis
      by (auto simp: acl_fifo_pop_back_def fifo_rep_def fdat_def fun_eq_iff)
  qed
qed

lemma pop_rep_Nil:
  assumes "fifo_rep ff []"
  shows "acl_fifo_pop_front ff = Ret (None, ff)" "acl_fifo_pop_back ff = Ret (None, ff)"
    "acl_fifo_pop_info ff = Ret (None, ff)"
  using assms by (simp_all add: fifo_rep_def acl_fifo_pop_front_def acl_fifo_pop_back_def acl_fifo_pop_info_def)

text \<open>Unlinking a node anywhere.\<close>

lemma delete_info_rep:
  assumes "fifo_rep ff (A @ a # B)"
  shows "\<exists>ff'. acl_fifo_delete_info ff a = Ret ff' \<and> fifo_rep ff' (A @ B)
    \<and> fdat ff' = (fdat ff)(a := None) \<and> ff_heap ff' a = None"
proof -
  obtain n where n: "ff_heap ff a = Some n" "fi_prev n = last_of None A" "fi_next n = first_of B None"
    using fifo_rep_node [OF assms] by auto
  have B: "\<exists>m. ff_heap ff b = Some m \<and> fi_prev m = Some a \<and> fi_next m = first_of B' None" if "B = b # B'" for b B'
    using fifo_rep_node [of ff "A @ [a]" b B'] assms that by auto
  have A: "\<exists>m. ff_heap ff b = Some m \<and> fi_prev m = last_of None A' \<and> fi_next m = Some a" if "A = A' @ [b]" for b A'
    using fifo_rep_node [of ff A' b "a # B"] assms that by auto
  show ?thesis
    using n assms A B
    by (cases A rule: rev_cases; cases B)
      (auto simp: acl_fifo_delete_info_def fifo_rep_def fdat_def fun_eq_iff)
qed

lemma delete_loop_rep:
  assumes "fifo_rep ff (A @ B)" "d \<notin> fdat ff ` set A" "length B < fuel"
  shows "\<exists>ff'. fifo_delete_loop fuel ff (first_of B None) d =
      Ret (Some (ff', if d \<in> fdat ff ` set B then 1 else 0)) \<and> fifo_inv ff'
    \<and> fifo_list ff' = map (fdat ff) A @ remove1 d (map (fdat ff) B)"
  using assms
proof (induction B arbitrary: A fuel)
  case Nil
  then obtain f where "fuel = Suc f" by (cases fuel) auto
  with Nil fifo_rep_inv [OF Nil(1)] show ?case by simp
next
  case (Cons a B)
  then obtain f where f: "fuel = Suc f" "length B < f" by (cases fuel) auto
  obtain n where n: "ff_heap ff a = Some n" "fi_next n = first_of B None"
    using fifo_rep_node [OF Cons.prems(1)] by blast
  then have dat: "fi_data n = fdat ff a" by (simp add: fdat_def)
  show ?case
  proof (cases "fdat ff a = d")
    case True
    obtain ff' where ff': "acl_fifo_delete_info ff a = Ret ff'" "fifo_rep ff' (A @ B)" "fdat ff' = (fdat ff)(a := None)"
      using delete_info_rep [OF Cons.prems(1)] by blast
    moreover have "a \<notin> set A" "a \<notin> set B" using Cons.prems(1) by (auto simp: fifo_rep_def)
    ultimately show ?thesis
      using True f n dat fifo_rep_inv [OF ff'(2)] by (auto intro!: exI [of _ ff'])
  next
    case False
    have "\<exists>ff'. fifo_delete_loop f ff (first_of B None) d =
      Ret (Some (ff', if d \<in> fdat ff ` set B then 1 else 0)) \<and> fifo_inv ff'
      \<and> fifo_list ff' = map (fdat ff) (A @ [a]) @ remove1 d (map (fdat ff) B)"
      using Cons.prems f False by (intro Cons.IH) auto
    with False f n dat show ?thesis by auto
  qed
qed

lemma free_rep:
  assumes "fifo_rep ff ps" "None \<notin> fdat ff ` set ps" "length ps < fuel"
  shows "\<exists>ff'. acl_fifo_free fuel ff f = Ret (Some (ff', if f then live (map (fdat ff) ps) else []))
    \<and> fifo_rep ff' []"
  using assms
proof (induction ps arbitrary: ff fuel)
  case Nil
  then show ?case by (cases fuel) (auto simp: pop_rep_Nil)
next
  case (Cons a ps)
  then obtain n where n: "fuel = Suc n" "length ps < n" by (cases fuel) auto
  obtain ff' where ff': "acl_fifo_pop_front ff = Ret (fdat ff a, ff')" "fifo_rep ff' ps"
    "fdat ff' = (fdat ff)(a := None)" using pop_front_rep [OF Cons.prems(1)] by blast
  have a: "a \<notin> set ps" using Cons.prems(1) by (simp add: fifo_rep_def)
  then have eq: "map (fdat ff') ps = map (fdat ff) ps" and "None \<notin> fdat ff' ` set ps"
    using Cons.prems(2) ff'(3) by (auto simp: image_iff)
  then obtain g where
    "acl_fifo_free n ff' f = Ret (Some (g, if f then live (map (fdat ff) ps) else []))" "fifo_rep g []"
    using Cons.IH [OF ff'(2), of n, unfolded eq] n by blast
  with ff'(1) n Cons.prems(2) show ?case by (cases "fdat ff a") auto
qed

subsection \<open>The queue as a double-ended queue and as an iterable container\<close>

definition fifo_push_back :: "'a acl_fifo \<Rightarrow> 'a option \<Rightarrow> 'a acl_fifo cres" where
  "fifo_push_back ff data = map_cres fst (acl_fifo_push_back ff data)"

definition fifo_push_front :: "'a acl_fifo \<Rightarrow> 'a option \<Rightarrow> 'a acl_fifo cres" where
  "fifo_push_front ff data = map_cres fst (acl_fifo_push_front ff data)"

definition fifo_pop_front :: "'a acl_fifo \<Rightarrow> ('a option \<times> 'a acl_fifo) cres" where
  "fifo_pop_front ff = acl_fifo_pop_front ff"

definition fifo_pop_back :: "'a acl_fifo \<Rightarrow> ('a option \<times> 'a acl_fifo) cres" where
  "fifo_pop_back ff = acl_fifo_pop_back ff"

lemma fifo_inv_rep: "fifo_inv ff \<Longrightarrow> fifo_rep ff (fifo_ptrs ff)"
  by (simp add: fifo_inv_def)

lemma fresh_ptr: "fifo_inv ff \<Longrightarrow> ff_brk ff \<notin> set (fifo_ptrs ff)"
  using fifo_rep_mem [OF fifo_inv_rep] by blast

interpretation ff: acl_deque fifo_push_back fifo_pop_front fifo_pop_back fifo_list fifo_inv "\<lambda>_. True" None
  fifo_push_front
proof
  fix s :: "'a acl_fifo" and x assume s: "fifo_inv s"
  note rep = fifo_inv_rep [OF s]
  show "\<exists>t. fifo_push_back s x = Ret t \<and> fifo_inv t \<and> fifo_list t = fifo_list s @ [x]"
    using push_back_rep [OF rep, of x] fresh_ptr [OF s] fifo_rep_inv
    by (fastforce simp: fifo_push_back_def fifo_list_def [of s])
  show "\<exists>t. fifo_push_front s x = Ret t \<and> fifo_inv t \<and> fifo_list t = x # fifo_list s"
    using push_front_rep [OF rep, of x] fresh_ptr [OF s] fifo_rep_inv
    by (fastforce simp: fifo_push_front_def fifo_list_def [of s])
  show "fifo_pop_front s = Ret (None, s)" "fifo_pop_back s = Ret (None, s)" if "fifo_list s = []"
    using that rep pop_rep_Nil [of s] by (auto simp: fifo_list_def fifo_pop_front_def fifo_pop_back_def)
  fix ys
  show "\<exists>t. fifo_pop_front s = Ret (x, t) \<and> fifo_inv t \<and> fifo_list t = ys" if xs: "fifo_list s = x # ys"
  proof -
    obtain a ps where ps: "fifo_ptrs s = a # ps" "x = fdat s a" "ys = map (fdat s) ps"
      using xs by (auto simp: fifo_list_def)
    moreover have "a \<notin> set ps" using rep ps by (simp add: fifo_rep_def)
    moreover obtain t where "acl_fifo_pop_front s = Ret (x, t)" "fifo_rep t ps" "fdat t = (fdat s)(a := None)"
      using pop_front_rep [of s a ps] rep ps by auto
    ultimately show ?thesis using fifo_rep_inv [of t ps] by (auto simp: fifo_pop_front_def)
  qed
  show "\<exists>t. fifo_pop_back s = Ret (x, t) \<and> fifo_inv t \<and> fifo_list t = ys" if xs: "fifo_list s = ys @ [x]"
  proof -
    obtain a ps where ps: "fifo_ptrs s = ps @ [a]" "x = fdat s a" "ys = map (fdat s) ps"
      using xs by (cases "fifo_ptrs s" rule: rev_cases) (auto simp: fifo_list_def)
    moreover have "a \<notin> set ps" using rep ps by (simp add: fifo_rep_def)
    moreover obtain t where "acl_fifo_pop_back s = Ret (x, t)" "fifo_rep t ps" "fdat t = (fdat s)(a := None)"
      using pop_back_rep [of s ps a] rep ps by auto
    ultimately show ?thesis using fifo_rep_inv [of t ps] by (auto simp: fifo_pop_back_def)
  qed
qed

definition fifo_full :: "'a acl_fifo \<Rightarrow> bool" where
  "fifo_full ff \<longleftrightarrow> fifo_inv ff \<and> None \<notin> set (fifo_list ff)"

definition fifo_stands :: "nat list \<Rightarrow> 'a acl_fifo \<Rightarrow> nat \<Rightarrow> (nat, 'a) acl_iter \<Rightarrow> bool" where
  "fifo_stands ps ff k it \<longleftrightarrow> it_ptr it = (if k < length ps then Some (ps ! k) else None)
     \<and> it_data it = (if k < length ps then fdat ff (ps ! k) else None)"

lemma fifo_node_at:
  assumes "fifo_inv ff" "k < length (fifo_ptrs ff)"
  shows "\<exists>n. ff_heap ff (fifo_ptrs ff ! k) = Some n \<and> fi_data n = fdat ff (fifo_ptrs ff ! k)
    \<and> fi_next n = (if Suc k < length (fifo_ptrs ff) then Some (fifo_ptrs ff ! Suc k) else None)
    \<and> fi_prev n = (if k = 0 then None else Some (fifo_ptrs ff ! (k - 1)))"
proof -
  let ?ps = "fifo_ptrs ff"
  have "fifo_rep ff (take k ?ps @ ?ps ! k # drop (Suc k) ?ps)"
    using fifo_inv_rep [OF assms(1)] assms(2) by (simp flip: id_take_nth_drop)
  then obtain n where n: "ff_heap ff (?ps ! k) = Some n" "fi_prev n = last_of None (take k ?ps)"
      "fi_next n = first_of (drop (Suc k) ?ps) None"
    by (rule fifo_rep_node)
  have "first_of (drop (Suc k) ?ps) None = (if Suc k < length ?ps then Some (?ps ! Suc k) else None)"
    by (auto simp: first_of_def Cons_nth_drop_Suc [symmetric] split: list.splits)
  moreover have "last_of None (take k ?ps) = (if k = 0 then None else Some (?ps ! (k - 1)))"
    using assms(2) by (cases k) (auto simp: take_Suc_conv_app_nth)
  ultimately show ?thesis using n by (simp add: fdat_def)
qed

lemma fifo_data_at_ptr:
  "fifo_inv ff \<Longrightarrow> k < length (fifo_ptrs ff) \<Longrightarrow>
   fifo_data_at ff (Some (fifo_ptrs ff ! k)) = Ret (fdat ff (fifo_ptrs ff ! k))"
  using fifo_node_at [of ff k] by (auto simp: fifo_data_at_def)

lemma fifo_full_data:
  assumes "fifo_full ff" "k < length (fifo_ptrs ff)"
  shows "fdat ff (fifo_ptrs ff ! k) = Some (live (fifo_list ff) ! k)"
proof -
  have "map Some (live (fifo_list ff)) = fifo_list ff"
    using assms(1) by (auto simp: fifo_full_def intro: live_full)
  then have "map Some (live (fifo_list ff)) ! k = fifo_list ff ! k" "length (live (fifo_list ff)) = length (fifo_ptrs ff)"
    by (auto simp: fifo_list_def dest: arg_cong [of _ _ length])
  with assms(2) show ?thesis by (simp add: fifo_list_def)
qed

interpretation ff_fwd: acl_iterable fifo_iter_head fifo_iter_next "\<lambda>ff. live (fifo_list ff)" fifo_full
  "\<lambda>ff. fifo_stands (fifo_ptrs ff) ff"
proof
  fix s :: "'a acl_fifo" and k it assume s: "fifo_full s"
  then have inv: "fifo_inv s" by (simp add: fifo_full_def)
  have len: "length (live (fifo_list s)) = length (fifo_ptrs s)"
    using live_full [of "fifo_list s"] s
    by (metis fifo_full_def fifo_list_def length_map)
  show "\<exists>it. fifo_iter_head s = Ret it \<and> fifo_stands (fifo_ptrs s) s 0 it"
    using fifo_inv_rep [OF inv] fifo_node_at [OF inv, of 0]
    by (cases "fifo_ptrs s") (auto simp: fifo_iter_head_def fifo_data_at_def fifo_stands_def fifo_rep_def)
  show "it_ptr it = None" if "fifo_stands (fifo_ptrs s) s (length (live (fifo_list s))) it"
    using that by (simp add: fifo_stands_def len)
  assume k: "fifo_stands (fifo_ptrs s) s k it" "k < length (live (fifo_list s))"
  then show "it_ptr it \<noteq> None \<and> it_data it = Some (live (fifo_list s) ! k)"
    using fifo_full_data [OF s] by (simp add: fifo_stands_def len)
  show "\<exists>it'. fifo_iter_next it s = Ret it' \<and> fifo_stands (fifo_ptrs s) s (Suc k) it'"
    using k fifo_node_at [OF inv, of k] fifo_node_at [OF inv, of "Suc k"]
    by (auto simp: fifo_iter_next_def fifo_data_at_def fifo_stands_def len)
qed

interpretation ff_rev: acl_iterable fifo_iter_tail fifo_iter_prev "\<lambda>ff. rev (live (fifo_list ff))" fifo_full
  "\<lambda>ff. fifo_stands (rev (fifo_ptrs ff)) ff"
proof
  fix s :: "'a acl_fifo" and k it assume s: "fifo_full s"
  then have inv: "fifo_inv s" by (simp add: fifo_full_def)
  have len: "length (live (fifo_list s)) = length (fifo_ptrs s)"
    using live_full [of "fifo_list s"] s
    by (metis fifo_full_def fifo_list_def length_map)
  show "\<exists>it. fifo_iter_tail s = Ret it \<and> fifo_stands (rev (fifo_ptrs s)) s 0 it"
    using fifo_inv_rep [OF inv] fifo_node_at [OF inv, of "length (fifo_ptrs s) - 1"]
    by (cases "fifo_ptrs s" rule: rev_cases)
      (auto simp: fifo_iter_tail_def fifo_data_at_def fifo_stands_def fifo_rep_def)
  show "it_ptr it = None" if "fifo_stands (rev (fifo_ptrs s)) s (length (rev (live (fifo_list s)))) it"
    using that by (simp add: fifo_stands_def len)
  assume k: "fifo_stands (rev (fifo_ptrs s)) s k it" "k < length (rev (live (fifo_list s)))"
  define m where "m = length (fifo_ptrs s) - Suc k"
  have m: "rev (fifo_ptrs s) ! k = fifo_ptrs s ! m" "rev (live (fifo_list s)) ! k = live (fifo_list s) ! m"
      "m < length (fifo_ptrs s)"
    using k len by (simp_all add: m_def rev_nth)
  show "it_ptr it \<noteq> None \<and> it_data it = Some (rev (live (fifo_list s)) ! k)"
    using k m fifo_full_data [OF s] by (simp add: fifo_stands_def len)
  have prv: "rev (fifo_ptrs s) ! Suc k = fifo_ptrs s ! (m - 1)" if "Suc k < length (fifo_ptrs s)"
    using that by (simp add: m_def rev_nth)
  have zero: "m = 0 \<longleftrightarrow> \<not> Suc k < length (fifo_ptrs s)" using k len by (auto simp: m_def)
  show "\<exists>it'. fifo_iter_prev it s = Ret it' \<and> fifo_stands (rev (fifo_ptrs s)) s (Suc k) it'"
  proof (cases "m = 0")
    case True
    with k m zero fifo_node_at [OF inv, of m] show ?thesis
      by (auto simp: fifo_iter_prev_def fifo_stands_def len)
  next
    case False
    with k m prv zero fifo_node_at [OF inv, of m] fifo_data_at_ptr [OF inv, of "m - 1"] show ?thesis
      by (auto simp: fifo_iter_prev_def fifo_stands_def len)
  qed
qed

subsection \<open>Properties\<close>

definition fifo_empty :: "'a acl_fifo" where
  "fifo_empty = acl_fifo_init \<lparr>ff_heap = (\<lambda>_. None), ff_brk = 0, ff_head = None, ff_tail = None, ff_cnt = 0\<rparr>"

lemma fifo_empty [simp]: "fifo_rep fifo_empty []" "fifo_inv fifo_empty" "fifo_list fifo_empty = []"
proof -
  show rep: "fifo_rep fifo_empty []" by (simp add: fifo_empty_def acl_fifo_init_def fifo_rep_def)
  show "fifo_inv fifo_empty" "fifo_list fifo_empty = []" using fifo_rep_inv [OF rep] by auto
qed

definition demo_fifo :: "nat acl_fifo" where
  "demo_fifo = \<lparr>ff_heap = [5 \<mapsto> \<lparr>fi_data = Some 4, fi_prev = None, fi_next = Some 2\<rparr>,
      2 \<mapsto> \<lparr>fi_data = Some 7, fi_prev = Some 5, fi_next = None\<rparr>],
    ff_brk = 8, ff_head = Some 5, ff_tail = Some 2, ff_cnt = 2\<rparr>"

lemma demo_fifo [simp]:
  "fifo_inv demo_fifo" "fifo_list demo_fifo = [Some 4, Some 7]" "fifo_full demo_fifo" "ff_cnt demo_fifo = 2"
proof -
  have "fifo_rep demo_fifo [5, 2]"
    by (simp add: demo_fifo_def fifo_rep_def fpv_def fnx_def)
  from fifo_rep_inv [OF this] show "fifo_inv demo_fifo" "fifo_list demo_fifo = [Some 4, Some 7]"
    by (simp_all add: fdat_def) (simp_all add: demo_fifo_def)
  then show "fifo_full demo_fifo" by (simp add: fifo_full_def)
qed (simp add: demo_fifo_def)

text \<open>
  C40: The linked queue implements a double-ended queue on its heap: each push and pop follows only
  links to allocated nodes, keeps the chain consistent in both directions (head, tail, \<open>prev\<close>,
  \<open>next\<close>, \<open>cnt\<close>), and adds or removes exactly the datum at the chosen end.
\<close>

theorem fifo_deque_spec:
  assumes "fifo_inv ff"
  shows "(\<exists>t a. acl_fifo_push_back ff d = Ret (t, a) \<and> fifo_inv t \<and> fifo_list t = fifo_list ff @ [d])
    \<and> (\<exists>t a. acl_fifo_push_front ff d = Ret (t, a) \<and> fifo_inv t \<and> fifo_list t = d # fifo_list ff)
    \<and> (case fifo_list ff of
         [] \<Rightarrow> acl_fifo_pop_front ff = Ret (None, ff) \<and> acl_fifo_pop_back ff = Ret (None, ff)
       | x # xs \<Rightarrow>
           (\<exists>t. acl_fifo_pop_front ff = Ret (x, t) \<and> fifo_inv t \<and> fifo_list t = xs)
         \<and> (\<exists>t. acl_fifo_pop_back ff = Ret (last (x # xs), t) \<and> fifo_inv t \<and> fifo_list t = butlast (x # xs)))"
proof -
  have "\<exists>t. acl_fifo_pop_front ff = Ret (x, t) \<and> fifo_inv t \<and> fifo_list t = xs"
    "\<exists>t. acl_fifo_pop_back ff = Ret (last (x # xs), t) \<and> fifo_inv t \<and> fifo_list t = butlast (x # xs)"
    if "fifo_list ff = x # xs" for x xs
    using ff.pop_front_Cons [OF assms that] ff.pop_back_snoc [OF assms, of "butlast (x # xs)" "last (x # xs)"] that
    by (simp_all add: fifo_pop_front_def fifo_pop_back_def)
  then show ?thesis
    using ff.push_back [OF assms, of d] ff.push_front [OF assms, of d]
      ff.pop_front_Nil [OF assms] ff.pop_back_Nil [OF assms]
    by (auto simp: fifo_push_back_def fifo_push_front_def fifo_pop_front_def fifo_pop_back_def
        map_cres_def cbind_eq_Ret_iff split: list.split)
qed

theorem fifo_deque_spec_witness:
  "\<exists>t. acl_fifo_pop_back demo_fifo = Ret (Some 7, t) \<and> fifo_list t = [Some 4]"
  using fifo_deque_spec [of demo_fifo None] by auto

text \<open>
  First in, first out over any history: objects pushed at the back of a new queue come out at the
  front in the order they went in, and at the back in reverse order.
\<close>

theorem fifo_keeps_order:
  "(\<exists>t u. c_push_all fifo_push_back fifo_empty xs = Ret t
      \<and> c_pop_n fifo_pop_front t (length xs) = Ret (xs, u) \<and> fifo_pop_front u = Ret (None, u))
   \<and> (\<exists>t u. c_push_all fifo_push_back fifo_empty xs = Ret t
      \<and> c_pop_n fifo_pop_back t (length xs) = Ret (rev xs, u) \<and> fifo_pop_back u = Ret (None, u))
   \<and> (\<exists>t u. c_push_all fifo_push_front fifo_empty xs = Ret t
      \<and> c_pop_n fifo_pop_back t (length xs) = Ret (xs, u) \<and> fifo_pop_back u = Ret (None, u))"
  using ff.fifo_order [of fifo_empty xs] ff.lifo_order [of fifo_empty xs]
    ff.push_front_pop_back [of fifo_empty xs] by simp

text \<open>
  \<open>acl_fifo_delete\<close> ends within one turn more than the queue has nodes, unlinks the first node
  with the given datum and only that, and tells whether there was one.
\<close>

theorem fifo_delete_spec:
  assumes "fifo_inv ff" "ff_cnt ff < int fuel"
  shows "\<exists>t. acl_fifo_delete fuel ff d = Ret (Some (t, if d \<in> set (fifo_list ff) then 1 else 0))
    \<and> fifo_inv t \<and> fifo_list t = remove1 d (fifo_list ff)"
proof -
  have rep: "fifo_rep ff ([] @ fifo_ptrs ff)" using assms(1) by (simp add: fifo_inv_def)
  then have "ff_head ff = first_of (fifo_ptrs ff) None" "length (fifo_ptrs ff) < fuel"
    using assms(2) by (auto simp: fifo_rep_def)
  with delete_loop_rep [OF rep, of d fuel] show ?thesis
    by (simp add: acl_fifo_delete_def fifo_list_def)
qed

theorem fifo_delete_spec_witness:
  "\<exists>t. acl_fifo_delete 3 demo_fifo (Some 4) = Ret (Some (t, 1)) \<and> fifo_list t = [Some 7]"
  using fifo_delete_spec [of demo_fifo 3 "Some 4"] by auto

text \<open>
  \<open>acl_fifo_free\<close> on a queue without null data ends, hands every object to the callback once and in
  order, and leaves no node in the queue.
\<close>

theorem fifo_free_spec:
  assumes "fifo_full ff" "ff_cnt ff < int fuel"
  shows "\<exists>t. acl_fifo_free fuel ff f = Ret (Some (t, if f then live (fifo_list ff) else [])) \<and> fifo_rep t []"
proof -
  have rep: "fifo_rep ff (fifo_ptrs ff)" using assms(1) by (simp add: fifo_full_def fifo_inv_def)
  moreover have "length (fifo_ptrs ff) < fuel" using assms(2) rep by (simp add: fifo_rep_def)
  ultimately show ?thesis
    using free_rep [of ff "fifo_ptrs ff" fuel f] assms(1)
    unfolding fifo_full_def fifo_list_def set_map by blast
qed

theorem fifo_free_spec_witness:
  "\<exists>t. acl_fifo_free 3 demo_fifo True = Ret (Some (t, [4, 7])) \<and> fifo_rep t []"
  using fifo_free_spec [of demo_fifo 3 True] by simp

text \<open>
  \<open>ACL_FOREACH\<close> and \<open>ACL_FOREACH_REVERSE\<close> over a queue without null data end after one turn per
  node and visit the data in order and in reverse order.
\<close>

theorem fifo_foreach:
  assumes "fifo_full ff" "ff_cnt ff < int fuel"
  shows "(\<exists>it. fifo_iter_head ff = Ret it \<and> acl_foreach fuel fifo_iter_next ff it = Ret (Some (fifo_list ff)))
    \<and> (\<exists>it. fifo_iter_tail ff = Ret it \<and> acl_foreach fuel fifo_iter_prev ff it = Ret (Some (rev (fifo_list ff))))"
proof -
  have full: "map Some (live (fifo_list ff)) = fifo_list ff"
    using assms(1) by (auto simp: fifo_full_def intro: live_full)
  have "ff_cnt ff = int (length (fifo_list ff))"
    using assms(1) by (auto simp: fifo_full_def fifo_inv_def fifo_rep_def fifo_list_def)
  then have "length (live (fifo_list ff)) < fuel" using assms(2) arg_cong [OF full, of length] by simp
  with ff_fwd.foreach_all [OF assms(1), of fuel] ff_rev.foreach_all [OF assms(1), of fuel] full
  show ?thesis by (simp flip: rev_map)
qed

theorem fifo_foreach_witness:
  "\<exists>it. fifo_iter_tail demo_fifo = Ret it
     \<and> acl_foreach 3 fifo_iter_prev demo_fifo it = Ret (Some [Some 7, Some 4])"
  using fifo_foreach [of demo_fifo 3] by simp

text \<open>
  A null datum ends the loop of \<open>acl_fifo_free\<close>: what was pushed behind it is neither handed to the
  callback nor released.
\<close>

lemma fifo_free_stops_at_null:
  "map_cres (map_option (\<lambda>(t, xs). (fifo_ptrs t, xs)))
     (cbind (c_push_all fifo_push_back fifo_empty [Some (1::nat), None, Some 3]) (\<lambda>ff. acl_fifo_free 5 ff True))
   = Ret (Some ([2], [1]))"
  by code_simp

end
