(* ===== verification/Acl_Ring.thy ===== *)
theory Acl_Ring
  imports Acl_Links Acl_Interfaces
begin

text \<open>
  The intrusive ring, \<open>lib_acl/src/stdlib/common/acl_ring.c\<close>: entries linked in a circle through a
  head entry, which every entry names as its parent and which counts them. The state is the heap of
  ring entries; a pointer is an address or the null pointer, and following one to no entry faults.
\<close>

record acl_ring =
  rg_pred :: "nat option"
  rg_succ :: "nat option"
  rg_parent :: "nat option"
  rg_len :: int

type_synonym ring_heap = "nat \<Rightarrow> acl_ring option"

definition rg_get :: "ring_heap \<Rightarrow> nat option \<Rightarrow> acl_ring cres" where
  "rg_get h p = (case p of None \<Rightarrow> Fault | Some a \<Rightarrow> (case h a of None \<Rightarrow> Fault | Some n \<Rightarrow> Ret n))"

definition rg_upd :: "ring_heap \<Rightarrow> nat option \<Rightarrow> (acl_ring \<Rightarrow> acl_ring) \<Rightarrow> ring_heap cres" where
  "rg_upd h p f = (case p of None \<Rightarrow> Fault
     | Some a \<Rightarrow> (case h a of None \<Rightarrow> Fault | Some n \<Rightarrow> Ret (h(a \<mapsto> f n))))"

subsection \<open>Operations\<close>

definition acl_ring_init :: "ring_heap \<Rightarrow> nat option \<Rightarrow> ring_heap cres" where
  "acl_ring_init h ring =
    (if ring = None then Ret h
     else rg_upd h ring (\<lambda>_. \<lparr>rg_pred = ring, rg_succ = ring, rg_parent = ring, rg_len = 0\<rparr>))"

definition acl_ring_size :: "ring_heap \<Rightarrow> nat option \<Rightarrow> int cres" where
  "acl_ring_size h ring = (if ring = None then Ret (-1) else map_cres rg_len (rg_get h ring))"

definition acl_ring_append :: "ring_heap \<Rightarrow> nat option \<Rightarrow> nat option \<Rightarrow> ring_heap cres" where
  "acl_ring_append h ring entry =
    (if ring = None \<or> entry = None then Ret h
     else
       cbind (rg_get h ring) (\<lambda>r. cbind (rg_upd h entry (\<lambda>e. e\<lparr>rg_succ := rg_succ r\<rparr>)) (\<lambda>h.
       cbind (rg_upd h entry (\<lambda>e. e\<lparr>rg_pred := ring\<rparr>)) (\<lambda>h.
       cbind (rg_get h ring) (\<lambda>r. cbind (rg_upd h entry (\<lambda>e. e\<lparr>rg_parent := rg_parent r\<rparr>)) (\<lambda>h.
       cbind (rg_get h ring) (\<lambda>r. cbind (rg_upd h (rg_succ r) (\<lambda>s. s\<lparr>rg_pred := entry\<rparr>)) (\<lambda>h.
       cbind (rg_upd h ring (\<lambda>r. r\<lparr>rg_succ := entry\<rparr>)) (\<lambda>h.
       cbind (rg_get h ring) (\<lambda>r. rg_upd h (rg_parent r) (\<lambda>p. p\<lparr>rg_len := rg_len p + 1\<rparr>)))))))))))"

definition acl_ring_prepend :: "ring_heap \<Rightarrow> nat option \<Rightarrow> nat option \<Rightarrow> ring_heap cres" where
  "acl_ring_prepend h ring entry =
    (if ring = None \<or> entry = None then Ret h
     else
       cbind (rg_get h ring) (\<lambda>r. cbind (rg_upd h entry (\<lambda>e. e\<lparr>rg_pred := rg_pred r\<rparr>)) (\<lambda>h.
       cbind (rg_upd h entry (\<lambda>e. e\<lparr>rg_succ := ring\<rparr>)) (\<lambda>h.
       cbind (rg_get h ring) (\<lambda>r. cbind (rg_upd h entry (\<lambda>e. e\<lparr>rg_parent := rg_parent r\<rparr>)) (\<lambda>h.
       cbind (rg_get h ring) (\<lambda>r. cbind (rg_upd h (rg_pred r) (\<lambda>s. s\<lparr>rg_succ := entry\<rparr>)) (\<lambda>h.
       cbind (rg_upd h ring (\<lambda>r. r\<lparr>rg_pred := entry\<rparr>)) (\<lambda>h.
       cbind (rg_get h ring) (\<lambda>r. rg_upd h (rg_parent r) (\<lambda>p. p\<lparr>rg_len := rg_len p + 1\<rparr>)))))))))))"

definition acl_ring_detach :: "ring_heap \<Rightarrow> nat option \<Rightarrow> ring_heap cres" where
  "acl_ring_detach h entry =
    (if entry = None then Ret h
     else cbind (rg_get h entry) (\<lambda>e.
       if rg_parent e = entry then Ret h
       else (let succ = rg_succ e; pred = rg_pred e in
         if succ = None \<or> pred = None then Ret h
         else cbind (rg_upd h pred (\<lambda>p. p\<lparr>rg_succ := succ\<rparr>)) (\<lambda>h.
           cbind (rg_upd h succ (\<lambda>s. s\<lparr>rg_pred := pred\<rparr>)) (\<lambda>h.
           cbind (rg_get h entry) (\<lambda>e.
           cbind (rg_upd h (rg_parent e) (\<lambda>p. p\<lparr>rg_len := rg_len p - 1\<rparr>)) (\<lambda>h.
           rg_upd h entry (\<lambda>e. e\<lparr>rg_succ := entry, rg_pred := entry, rg_parent := entry, rg_len := 0\<rparr>))))))))"

definition acl_ring_pop_head :: "ring_heap \<Rightarrow> nat option \<Rightarrow> (nat option \<times> ring_heap) cres" where
  "acl_ring_pop_head h ring =
    (if ring = None then Ret (None, h)
     else cbind (rg_get h ring) (\<lambda>r. let succ = rg_succ r in
       if succ = ring then Ret (None, h) else map_cres (\<lambda>h. (succ, h)) (acl_ring_detach h succ)))"

definition acl_ring_pop_tail :: "ring_heap \<Rightarrow> nat option \<Rightarrow> (nat option \<times> ring_heap) cres" where
  "acl_ring_pop_tail h ring =
    (if ring = None then Ret (None, h)
     else cbind (rg_get h ring) (\<lambda>r. let pred = rg_pred r in
       if pred = ring then Ret (None, h) else map_cres (\<lambda>h. (pred, h)) (acl_ring_detach h pred)))"

subsection \<open>The ring as a list of entries\<close>

definition rpv :: "ring_heap \<Rightarrow> links" where
  "rpv h a = map_option rg_pred (h a)"

definition rnx :: "ring_heap \<Rightarrow> links" where
  "rnx h a = map_option rg_succ (h a)"

lemma rlinks_upd [simp]:
  "rpv (h(a \<mapsto> n)) = (rpv h)(a \<mapsto> rg_pred n)" "rnx (h(a \<mapsto> n)) = (rnx h)(a \<mapsto> rg_succ n)"
  by (auto simp: rpv_def rnx_def)

lemma rg_Ret [simp]:
  assumes "h a = Some n"
  shows "rg_get h (Some a) = Ret n" "rg_upd h (Some a) f = Ret (h(a \<mapsto> f n))"
  using assms by (simp_all add: rg_get_def rg_upd_def)

text \<open>
  \<open>ring_rep h r xs\<close>: \<open>r\<close> is the head of a ring of the entries \<open>xs\<close>. The head and the entries form one
  segment that closes on itself.
\<close>

definition ring_rep :: "ring_heap \<Rightarrow> nat \<Rightarrow> nat list \<Rightarrow> bool" where
  "ring_rep h r xs \<longleftrightarrow> dlseg (rpv h) (rnx h) (last_of (Some r) xs) (r # xs) (Some r)
     \<and> distinct (r # xs)
     \<and> (\<forall>a \<in> set (r # xs). map_option rg_parent (h a) = Some (Some r))
     \<and> map_option rg_len (h r) = Some (int (length xs))"

lemma ring_init_rep:
  "h r \<noteq> None \<Longrightarrow> \<exists>h'. acl_ring_init h (Some r) = Ret h' \<and> ring_rep h' r [] \<and> (\<forall>a. a \<noteq> r \<longrightarrow> h' a = h a)"
  by (auto simp: acl_ring_init_def ring_rep_def rpv_def rnx_def)

lemma ring_size_rep: "ring_rep h r xs \<Longrightarrow> acl_ring_size h (Some r) = Ret (int (length xs))"
  by (auto simp: acl_ring_size_def ring_rep_def)

text \<open>The entry before a position and the one at it, the head where there is none.\<close>

lemma ring_rep_node:
  assumes "ring_rep h r (A @ B)"
  obtains n where "h (last (r # A)) = Some n" "rg_succ n = first_of B (Some r)" "rg_parent n = Some r"
  using assms by (cases A rule: rev_cases) (auto simp: ring_rep_def rpv_def rnx_def)

lemma ring_append_rep:
  assumes "ring_rep h r (A @ B)" "e \<notin> set (r # A @ B)" "h e \<noteq> None"
  shows "\<exists>h'. acl_ring_append h (Some (last (r # A))) (Some e) = Ret h' \<and> ring_rep h' r (A @ e # B)
     \<and> (\<forall>a. a \<notin> set (r # A @ e # B) \<longrightarrow> h' a = h a)"
proof -
  obtain n where "h e = Some n" using assms(3) by auto
  with assms show ?thesis
    by (cases A rule: rev_cases; cases B)
      (auto simp: acl_ring_append_def ring_rep_def rpv_def rnx_def)
qed

lemma ring_prepend_rep:
  assumes "ring_rep h r (A @ B)" "e \<notin> set (r # A @ B)" "h e \<noteq> None"
  shows "\<exists>h'. acl_ring_prepend h (first_of B (Some r)) (Some e) = Ret h' \<and> ring_rep h' r (A @ e # B)
     \<and> (\<forall>a. a \<notin> set (r # A @ e # B) \<longrightarrow> h' a = h a)"
proof -
  obtain n where "h e = Some n" using assms(3) by auto
  with assms show ?thesis
    by (cases A rule: rev_cases; cases B)
      (auto simp: acl_ring_prepend_def ring_rep_def rpv_def rnx_def)
qed

lemma ring_detach_rep:
  assumes "ring_rep h r (A @ e # B)"
  shows "\<exists>h'. acl_ring_detach h (Some e) = Ret h' \<and> ring_rep h' r (A @ B) \<and> ring_rep h' e []
     \<and> (\<forall>a. a \<notin> set (r # A @ e # B) \<longrightarrow> h' a = h a)"
  using assms
  by (cases A rule: rev_cases; cases B)
    (auto simp: acl_ring_detach_def ring_rep_def rpv_def rnx_def Let_def)

lemma ring_detach_head: "ring_rep h r xs \<Longrightarrow> acl_ring_detach h (Some r) = Ret h"
  by (auto simp: acl_ring_detach_def ring_rep_def)

lemma ring_rep_ends:
  assumes "ring_rep h r xs"
  shows "\<exists>n. h r = Some n \<and> rg_succ n = first_of xs (Some r) \<and> rg_pred n = last_of (Some r) xs"
  using assms by (auto simp: ring_rep_def rpv_def rnx_def)

lemma ring_pop_rep:
  assumes "ring_rep h r xs"
  shows "xs = [] \<Longrightarrow> acl_ring_pop_head h (Some r) = Ret (None, h) \<and> acl_ring_pop_tail h (Some r) = Ret (None, h)"
    and "xs = e # ys \<Longrightarrow> \<exists>h'. acl_ring_pop_head h (Some r) = Ret (Some e, h') \<and> ring_rep h' r ys \<and> ring_rep h' e []"
    and "xs = ys @ [e] \<Longrightarrow> \<exists>h'. acl_ring_pop_tail h (Some r) = Ret (Some e, h') \<and> ring_rep h' r ys \<and> ring_rep h' e []"
proof -
  have r: "r \<notin> set xs" using assms by (simp add: ring_rep_def)
  show "acl_ring_pop_head h (Some r) = Ret (None, h) \<and> acl_ring_pop_tail h (Some r) = Ret (None, h)" if "xs = []"
    using ring_rep_ends [OF assms] that by (auto simp: acl_ring_pop_head_def acl_ring_pop_tail_def)
  show "\<exists>h'. acl_ring_pop_head h (Some r) = Ret (Some e, h') \<and> ring_rep h' r ys \<and> ring_rep h' e []" if "xs = e # ys"
    using ring_rep_ends [OF assms] ring_detach_rep [of h r "[]" e ys] assms that r
    by (auto simp: acl_ring_pop_head_def)
  show "\<exists>h'. acl_ring_pop_tail h (Some r) = Ret (Some e, h') \<and> ring_rep h' r ys \<and> ring_rep h' e []" if "xs = ys @ [e]"
    using ring_rep_ends [OF assms] ring_detach_rep [of h r ys e "[]"] assms that r
    by (auto simp: acl_ring_pop_tail_def)
qed

text \<open>A ring uses nothing outside its head and entries.\<close>

lemma ring_rep_cong:
  assumes "ring_rep h r xs" "\<And>a. a \<in> set (r # xs) \<Longrightarrow> h' a = h a"
  shows "ring_rep h' r xs"
proof -
  have "dlseg (rpv h') (rnx h') (last_of (Some r) xs) (r # xs) (Some r)"
    by (rule dlseg_cong [of "rpv h" "rnx h"]) (use assms in \<open>auto simp: ring_rep_def rpv_def rnx_def\<close>)
  with assms show ?thesis by (simp add: ring_rep_def)
qed

subsection \<open>Properties\<close>

definition demo_ring :: ring_heap where
  "demo_ring = [1 \<mapsto> \<lparr>rg_pred = Some 3, rg_succ = Some 2, rg_parent = Some 1, rg_len = 2\<rparr>,
     2 \<mapsto> \<lparr>rg_pred = Some 1, rg_succ = Some 3, rg_parent = Some 1, rg_len = 0\<rparr>,
     3 \<mapsto> \<lparr>rg_pred = Some 2, rg_succ = Some 1, rg_parent = Some 1, rg_len = 0\<rparr>,
     4 \<mapsto> \<lparr>rg_pred = None, rg_succ = None, rg_parent = None, rg_len = 0\<rparr>]"

lemma demo_ring: "ring_rep demo_ring 1 [2, 3]"
  by (simp add: demo_ring_def ring_rep_def rpv_def rnx_def)

text \<open>
  Insertion into a ring. \<open>acl_ring_append\<close> puts an entry right behind the head or any other entry
  and \<open>acl_ring_prepend\<close> right before it: the circle is linked in both directions, every entry names
  the head as its parent, the head counts the entries, and no object outside the ring is written.
\<close>

theorem ring_insert_spec:
  assumes "ring_rep h r (A @ B)" "e \<notin> set (r # A @ B)" "h e \<noteq> None"
  shows "(\<exists>h'. acl_ring_append h (Some (last (r # A))) (Some e) = Ret h' \<and> ring_rep h' r (A @ e # B)
        \<and> (\<forall>a. a \<notin> set (r # A @ e # B) \<longrightarrow> h' a = h a))
    \<and> (\<exists>h'. acl_ring_prepend h (first_of B (Some r)) (Some e) = Ret h' \<and> ring_rep h' r (A @ e # B)
        \<and> (\<forall>a. a \<notin> set (r # A @ e # B) \<longrightarrow> h' a = h a))"
  using ring_append_rep [OF assms] ring_prepend_rep [OF assms] by blast

theorem ring_insert_spec_witness:
  "\<exists>h'. acl_ring_append demo_ring (Some 2) (Some 4) = Ret h' \<and> ring_rep h' 1 [2, 4, 3]"
  using ring_insert_spec [of demo_ring 1 "[2]" "[3]" 4] demo_ring by (auto simp: demo_ring_def)

text \<open>
  \<open>acl_ring_detach\<close> takes an entry out of the ring it is in, wherever it stands: the others stay
  linked in order and counted, the entry becomes a ring of its own, so detaching it again, like
  detaching a head, changes nothing; rings that share no entry with this one are not affected.
\<close>

theorem ring_detach_spec:
  assumes "ring_rep h r (A @ e # B)" "ring_rep h r' ys" "set (r' # ys) \<inter> set (r # A @ e # B) = {}"
  shows "\<exists>h'. acl_ring_detach h (Some e) = Ret h' \<and> ring_rep h' r (A @ B) \<and> ring_rep h' e []
    \<and> ring_rep h' r' ys \<and> acl_ring_detach h' (Some e) = Ret h' \<and> acl_ring_detach h' (Some r) = Ret h'"
proof -
  obtain h' where h': "acl_ring_detach h (Some e) = Ret h'" "ring_rep h' r (A @ B)" "ring_rep h' e []"
    "\<forall>a. a \<notin> set (r # A @ e # B) \<longrightarrow> h' a = h a"
    using ring_detach_rep [OF assms(1)] by blast
  moreover have "ring_rep h' r' ys"
    using assms(2) by (rule ring_rep_cong) (use h'(4) assms(3) in blast)
  ultimately show ?thesis using ring_detach_head by blast
qed

theorem ring_detach_spec_witness:
  "\<exists>h'. acl_ring_detach (demo_ring(9 \<mapsto> \<lparr>rg_pred = Some 9, rg_succ = Some 9, rg_parent = Some 9, rg_len = 0\<rparr>)) (Some 2) = Ret h'
     \<and> ring_rep h' 1 [3] \<and> ring_rep h' 2 [] \<and> ring_rep h' 9 []"
  using ring_detach_spec [of "demo_ring(9 \<mapsto> \<lparr>rg_pred = Some 9, rg_succ = Some 9, rg_parent = Some 9, rg_len = 0\<rparr>)"
      1 "[]" 2 "[3]" 9 "[]"]
  by (auto simp: demo_ring_def ring_rep_def rpv_def rnx_def)

text \<open>
  Popping. \<open>acl_ring_pop_head\<close> and \<open>acl_ring_pop_tail\<close> return the first and the last entry of a ring,
  detached from it, and the null pointer for an empty ring.
\<close>

theorem ring_pop_spec:
  assumes "ring_rep h r xs"
  shows "if xs = [] then acl_ring_pop_head h (Some r) = Ret (None, h) \<and> acl_ring_pop_tail h (Some r) = Ret (None, h)
    else (\<exists>h'. acl_ring_pop_head h (Some r) = Ret (Some (hd xs), h') \<and> ring_rep h' r (tl xs) \<and> ring_rep h' (hd xs) [])
       \<and> (\<exists>h'. acl_ring_pop_tail h (Some r) = Ret (Some (last xs), h') \<and> ring_rep h' r (butlast xs)
            \<and> ring_rep h' (last xs) [])"
  using ring_pop_rep(1) [OF assms] ring_pop_rep(2) [OF assms, of "hd xs" "tl xs"]
    ring_pop_rep(3) [OF assms, of "butlast xs" "last xs"] by simp

theorem ring_pop_spec_witness:
  "\<exists>h'. acl_ring_pop_tail demo_ring (Some 1) = Ret (Some 3, h') \<and> ring_rep h' 1 [2]"
  using ring_pop_spec [OF demo_ring] by auto

end
