(* ===== verification/Acl_Htable.thy ===== *)
theory Acl_Htable
  imports Acl_Links Acl_Interfaces
begin

text \<open>
  The chained hash table, \<open>lib_acl/src/stdlib/common/acl_htable.c\<close>: an array of bucket heads and
  doubly linked entries in a heap. Keys are the bytes of a C string, values are pointers, \<open>None\<close> the
  null pointer. An entry's key is \<open>None\<close> where it points to a buffer the code has released. The hash
  function is a field of the table as in the code; \<open>unsigned\<close> is 32 bits and \<open>unsigned long\<close> 64 bits
  wide. The mutex is part of the state: \<open>None\<close> without one, else whether it is held; taking it twice
  (the thread blocks for ever) or releasing it unlocked is \<open>Fault\<close>, as is a bad memory access.
  Allocation does not fail: the allocator of the library aborts the process instead.
\<close>

record 'v ht_info =
  hi_key :: "byte list option"
  hi_value :: "'v option"
  hi_hash :: "32 word"
  hi_next :: "nat option"
  hi_prev :: "nat option"

record 'v acl_htable =
  ht_size :: int
  ht_init_size :: int
  ht_used :: int
  ht_data :: "nat option list"
  ht_flag :: "32 word"
  ht_status :: int
  ht_hash_fn :: "byte list \<Rightarrow> 32 word"
  ht_rwlock :: "bool option"
  ht_heap :: "nat \<Rightarrow> 'v ht_info option"
  ht_brk :: nat

definition flag_key_reuse :: "'v acl_htable \<Rightarrow> bool" where
  "flag_key_reuse t = bit (ht_flag t) 0"

definition flag_use_lock :: "32 word \<Rightarrow> bool" where
  "flag_use_lock flag = bit flag 1"

definition flag_mslook :: "'v acl_htable \<Rightarrow> bool" where
  "flag_mslook t = bit (ht_flag t) 2"

definition flag_key_lower :: "'v acl_htable \<Rightarrow> bool" where
  "flag_key_lower t = bit (ht_flag t) 3"

subsection \<open>The heap and the lock\<close>

definition hi_get :: "'v acl_htable \<Rightarrow> nat \<Rightarrow> 'v ht_info cres" where
  "hi_get t a = (case ht_heap t a of None \<Rightarrow> Fault | Some e \<Rightarrow> Ret e)"

definition hi_put :: "'v acl_htable \<Rightarrow> nat \<Rightarrow> 'v ht_info \<Rightarrow> 'v acl_htable" where
  "hi_put t a e = t\<lparr>ht_heap := (ht_heap t)(a \<mapsto> e)\<rparr>"

definition hi_upd :: "'v acl_htable \<Rightarrow> nat \<Rightarrow> ('v ht_info \<Rightarrow> 'v ht_info) \<Rightarrow> 'v acl_htable cres" where
  "hi_upd t a f = map_cres (\<lambda>e. hi_put t a (f e)) (hi_get t a)"

definition hi_free :: "'v acl_htable \<Rightarrow> nat \<Rightarrow> 'v acl_htable cres" where
  "hi_free t a = map_cres (\<lambda>_. t\<lparr>ht_heap := (ht_heap t)(a := None)\<rparr>) (hi_get t a)"

definition lock_table :: "'v acl_htable \<Rightarrow> 'v acl_htable cres" where
  "lock_table t = (case ht_rwlock t of None \<Rightarrow> Ret t
     | Some held \<Rightarrow> if held then Fault else Ret (t\<lparr>ht_rwlock := Some True\<rparr>))"

definition unlock_table :: "'v acl_htable \<Rightarrow> 'v acl_htable cres" where
  "unlock_table t = (case ht_rwlock t of None \<Rightarrow> Ret t
     | Some held \<Rightarrow> if held then Ret (t\<lparr>ht_rwlock := Some False\<rparr>) else Fault)"

definition acl_htable_lock_read :: "'v acl_htable \<Rightarrow> 'v acl_htable cres" where
  "acl_htable_lock_read t = lock_table t"

definition acl_htable_lock_write :: "'v acl_htable \<Rightarrow> 'v acl_htable cres" where
  "acl_htable_lock_write t = lock_table t"

definition acl_htable_unlock :: "'v acl_htable \<Rightarrow> 'v acl_htable cres" where
  "acl_htable_unlock t = unlock_table t"

subsection \<open>Hashing and sizing\<close>

fun def_hash_loop :: "64 word \<Rightarrow> byte list \<Rightarrow> 64 word" where
  "def_hash_loop h [] = h"
| "def_hash_loop h (c # s) =
    (let h = push_bit 4 h + ucast c; g = h AND 0xf0000000 in
     def_hash_loop (if g \<noteq> 0 then h XOR drop_bit 24 g XOR g else h) s)"

definition def_hash_fn :: "byte list \<Rightarrow> 32 word" where
  "def_hash_fn s = ucast (def_hash_loop 0 s)"

text \<open>\<open>hash % table->size\<close>.\<close>

definition ht_slot :: "'v acl_htable \<Rightarrow> 32 word \<Rightarrow> int" where
  "ht_slot t h = uint h mod ht_size t"

definition htable_link :: "'v acl_htable \<Rightarrow> nat \<Rightarrow> int \<Rightarrow> 'v acl_htable cres" where
  "htable_link t a n =
    cbind (hi_upd t a (\<lambda>e. e\<lparr>hi_prev := None\<rparr>)) (\<lambda>t.
    cbind (rd (ht_data t) n) (\<lambda>h.
    cbind (hi_upd t a (\<lambda>e. e\<lparr>hi_next := h\<rparr>)) (\<lambda>t.
    cbind (case h of None \<Rightarrow> Ret t | Some b \<Rightarrow> hi_upd t b (\<lambda>e. e\<lparr>hi_prev := Some a\<rparr>)) (\<lambda>t.
    map_cres (\<lambda>d. t\<lparr>ht_data := d, ht_used := ht_used t + 1\<rparr>) (wr (ht_data t) n (Some a))))))"

definition htable_size :: "'v acl_htable \<Rightarrow> int \<Rightarrow> 'v acl_htable" where
  "htable_size t sz =
    (let sz = sz OR 1 in
     t\<lparr>ht_data := replicate (nat sz) None, ht_size := sz, ht_used := 0\<rparr>)"

text \<open>
  The loops over a chain follow at most as many links as there are addresses handed out so far;
  a longer chain runs in a circle, and the loop does not end.
\<close>

definition ht_fuel :: "'v acl_htable \<Rightarrow> nat" where
  "ht_fuel t = Suc (ht_brk t)"

fun grow_chain :: "nat \<Rightarrow> 'v acl_htable \<Rightarrow> nat option \<Rightarrow> 'v acl_htable cres" where
  "grow_chain 0 t p = Fault"
| "grow_chain (Suc fuel) t p =
    (case p of None \<Rightarrow> Ret t
     | Some a \<Rightarrow> cbind (hi_get t a) (\<lambda>e. case hi_key e of None \<Rightarrow> Fault
       | Some k \<Rightarrow> cbind (htable_link t a (ht_slot t (ht_hash_fn t k))) (\<lambda>t.
           grow_chain fuel t (hi_next e))))"

fun grow_all :: "'v acl_htable \<Rightarrow> nat option list \<Rightarrow> 'v acl_htable cres" where
  "grow_all t [] = Ret t"
| "grow_all t (h # hs) = cbind (grow_chain (ht_fuel t) t h) (\<lambda>t. grow_all t hs)"

definition htable_grow :: "'v acl_htable \<Rightarrow> 'v acl_htable cres" where
  "htable_grow t = grow_all (htable_size t (2 * ht_size t)) (ht_data t)"

definition init_table_rwlock :: "'v acl_htable \<Rightarrow> bool \<Rightarrow> 'v acl_htable" where
  "init_table_rwlock t enable =
    (if enable \<and> ht_rwlock t = None then t\<lparr>ht_rwlock := Some False\<rparr>
     else if \<not> enable \<and> ht_rwlock t \<noteq> None then t\<lparr>ht_rwlock := None\<rparr>
     else t)"

definition acl_htable_create :: "int \<Rightarrow> 32 word \<Rightarrow> 'v acl_htable" where
  "acl_htable_create sz flag =
    (let t = \<lparr>ht_size = 0, ht_init_size = sz, ht_used = 0, ht_data = [], ht_flag = flag,
              ht_status = 0, ht_hash_fn = def_hash_fn, ht_rwlock = None,
              ht_heap = (\<lambda>_. None), ht_brk = 0\<rparr>;
         t = htable_size t (if sz < 13 then 13 else sz)
     in if flag_use_lock flag then init_table_rwlock t True else t)"

text \<open>The variable arguments of \<open>acl_htable_ctl\<close>; a hash function may be the null pointer.\<close>

datatype ht_ctl = CtlRwlock bool | CtlHashFn "(byte list \<Rightarrow> 32 word) option"

fun acl_htable_ctl :: "'v acl_htable \<Rightarrow> ht_ctl list \<Rightarrow> 'v acl_htable" where
  "acl_htable_ctl t [] = t"
| "acl_htable_ctl t (CtlHashFn f # cs) =
    acl_htable_ctl (t\<lparr>ht_hash_fn := (case f of None \<Rightarrow> def_hash_fn | Some f \<Rightarrow> f)\<rparr>) cs"
| "acl_htable_ctl t (CtlRwlock b # cs) = acl_htable_ctl (init_table_rwlock t b) cs"

definition acl_htable_errno :: "'v acl_htable option \<Rightarrow> int" where
  "acl_htable_errno t = (case t of None \<Rightarrow> 1 | Some t \<Rightarrow> ht_status t)"

definition acl_htable_set_errno :: "'v acl_htable \<Rightarrow> int \<Rightarrow> 'v acl_htable" where
  "acl_htable_set_errno t error = t\<lparr>ht_status := error\<rparr>"

subsection \<open>Looking up and entering\<close>

text \<open>The key an operation works with: a lower-case copy under \<open>ACL_HTABLE_FLAG_KEY_LOWER\<close>.\<close>

definition ht_key :: "'v acl_htable \<Rightarrow> byte list \<Rightarrow> byte list" where
  "ht_key t key_in = (if flag_key_lower t then map to_lower key_in else key_in)"

text \<open>The loop \<open>for (ht = p; ht; ht = ht->next) if (STREQ(key, ht->key.c_key)) ...\<close>.\<close>

fun chain_find :: "nat \<Rightarrow> 'v acl_htable \<Rightarrow> byte list \<Rightarrow> nat option \<Rightarrow> nat option cres" where
  "chain_find 0 t key p = Fault"
| "chain_find (Suc fuel) t key p =
    (case p of None \<Rightarrow> Ret None
     | Some a \<Rightarrow> cbind (hi_get t a) (\<lambda>e. case hi_key e of None \<Rightarrow> Fault
       | Some k \<Rightarrow> if key = k then Ret (Some a) else chain_find fuel t key (hi_next e)))"

definition bucket_find :: "'v acl_htable \<Rightarrow> byte list \<Rightarrow> int \<Rightarrow> nat option cres" where
  "bucket_find t key n = cbind (rd (ht_data t) n) (chain_find (ht_fuel t) t key)"

text \<open>
  Allocating an entry and filling it in: the key is a copy, or under \<open>ACL_HTABLE_FLAG_KEY_REUSE\<close> the
  pointer \<open>key\<close>, which is the lower-case copy that is released on return where there is one.
\<close>

definition new_entry :: "'v acl_htable \<Rightarrow> byte list \<Rightarrow> 32 word \<Rightarrow> 'v option \<Rightarrow> 'v acl_htable \<times> nat" where
  "new_entry t key hash v =
    (let a = ht_brk t;
         k = (if flag_key_reuse t \<and> flag_key_lower t then None else Some key)
     in ((hi_put t a \<lparr>hi_key = k, hi_value = v, hi_hash = hash, hi_next = None, hi_prev = None\<rparr>)
           \<lparr>ht_brk := a + 1\<rparr>, a))"

definition acl_htable_enter :: "'v acl_htable \<Rightarrow> byte list \<Rightarrow> 'v option \<Rightarrow> ('v acl_htable \<times> nat) cres" where
  "acl_htable_enter t key_in v =
    (let key = ht_key t key_in; t = t\<lparr>ht_status := 0\<rparr>; hash = ht_hash_fn t key in
     cbind (if ht_used t \<ge> ht_size t then htable_grow t else Ret t) (\<lambda>t.
       let n = ht_slot t hash in
       cbind (bucket_find t key n) (\<lambda>p. case p of
         Some a \<Rightarrow> Ret (t\<lparr>ht_status := 2\<rparr>, a)
       | None \<Rightarrow> (let (t, a) = new_entry t key hash v in map_cres (\<lambda>t. (t, a)) (htable_link t a n)))))"

text \<open>
  With an \<open>old_holder\<close> the value of an existing entry is replaced and handed back; the last component
  of the result is what was written to \<open>*old_holder\<close>.
\<close>

definition acl_htable_enter_r2 ::
    "'v acl_htable \<Rightarrow> byte list \<Rightarrow> 'v option \<Rightarrow> bool \<Rightarrow> ('v acl_htable \<times> nat \<times> 'v option) cres" where
  "acl_htable_enter_r2 t key_in v old_holder =
    (let key = ht_key t key_in; hash = ht_hash_fn t key in
     cbind (lock_table (t\<lparr>ht_status := 0\<rparr>)) (\<lambda>t.
     cbind (if ht_used t \<ge> ht_size t then htable_grow t else Ret t) (\<lambda>t.
       let n = ht_slot t hash in
       cbind (bucket_find t key n) (\<lambda>p. case p of
         Some a \<Rightarrow> cbind (hi_get t a) (\<lambda>e.
           cbind (let t = t\<lparr>ht_status := 2\<rparr> in
                  if old_holder then hi_upd t a (\<lambda>e. e\<lparr>hi_value := v\<rparr>) else Ret t) (\<lambda>t.
             map_cres (\<lambda>t. (t, a, if old_holder then hi_value e else None)) (unlock_table t)))
       | None \<Rightarrow> (let (t, a) = new_entry t key hash v in
           cbind (htable_link t a n) (\<lambda>t. map_cres (\<lambda>t. (t, a, None)) (unlock_table t)))))))"

definition acl_htable_enter_r :: "'v acl_htable \<Rightarrow> byte list \<Rightarrow> 'v option \<Rightarrow> ('v acl_htable \<times> nat) cres" where
  "acl_htable_enter_r t key_in v =
    map_cres (\<lambda>(t, a, _). (t, a)) (acl_htable_enter_r2 t key_in v False)"

text \<open>
  Under \<open>ACL_HTABLE_FLAG_MSLOOK\<close> an entry found behind the first is unlinked and put in front of its
  chain.
\<close>

definition move_front :: "'v acl_htable \<Rightarrow> nat \<Rightarrow> int \<Rightarrow> 'v acl_htable cres" where
  "move_front t a n =
    cbind (hi_get t a) (\<lambda>e. case hi_prev e of None \<Rightarrow> Fault
     | Some prv \<Rightarrow>
       cbind (case hi_next e of
           Some nxt \<Rightarrow> cbind (hi_upd t prv (\<lambda>x. x\<lparr>hi_next := hi_next e\<rparr>)) (\<lambda>t.
             hi_upd t nxt (\<lambda>x. x\<lparr>hi_prev := hi_prev e\<rparr>))
         | None \<Rightarrow> hi_upd t prv (\<lambda>x. x\<lparr>hi_next := None\<rparr>)) (\<lambda>t.
       cbind (rd (ht_data t) n) (\<lambda>h. case h of None \<Rightarrow> Fault
       | Some b \<Rightarrow>
         cbind (hi_upd t b (\<lambda>x. x\<lparr>hi_prev := Some a\<rparr>)) (\<lambda>t.
         cbind (hi_upd t a (\<lambda>x. x\<lparr>hi_prev := None\<rparr>)) (\<lambda>t.
         cbind (hi_upd t a (\<lambda>x. x\<lparr>hi_next := h\<rparr>)) (\<lambda>t.
         map_cres (\<lambda>d. t\<lparr>ht_data := d\<rparr>) (wr (ht_data t) n (Some a))))))))"

definition acl_htable_locate :: "'v acl_htable \<Rightarrow> byte list \<Rightarrow> ('v acl_htable \<times> nat option) cres" where
  "acl_htable_locate t key_in =
    (let key = ht_key t key_in; n = ht_slot t (ht_hash_fn t key) in
     cbind (bucket_find t key n) (\<lambda>p. case p of
       None \<Rightarrow> Ret (t, None)
     | Some a \<Rightarrow> cbind (rd (ht_data t) n) (\<lambda>h.
         if \<not> flag_mslook t \<or> h = Some a then Ret (t, p)
         else map_cres (\<lambda>t. (t, p)) (move_front t a n))))"

definition acl_htable_find :: "'v acl_htable \<Rightarrow> byte list \<Rightarrow> ('v acl_htable \<times> 'v option) cres" where
  "acl_htable_find t key =
    cbind (acl_htable_locate t key) (\<lambda>(t, p). case p of None \<Rightarrow> Ret (t, None)
      | Some a \<Rightarrow> map_cres (\<lambda>e. (t, hi_value e)) (hi_get t a))"

definition acl_htable_find_r :: "'v acl_htable \<Rightarrow> byte list \<Rightarrow> ('v acl_htable \<times> 'v option) cres" where
  "acl_htable_find_r t key_in =
    (let key = ht_key t key_in; n = ht_slot t (ht_hash_fn t key) in
     cbind (lock_table t) (\<lambda>t. cbind (bucket_find t key n) (\<lambda>p. case p of
       None \<Rightarrow> map_cres (\<lambda>t. (t, None)) (unlock_table t)
     | Some a \<Rightarrow> cbind (hi_get t a) (\<lambda>e. cbind (rd (ht_data t) n) (\<lambda>h.
         cbind (if \<not> flag_mslook t \<or> h = Some a then Ret t else move_front t a n) (\<lambda>t.
           map_cres (\<lambda>t. (t, hi_value e)) (unlock_table t)))))))"

definition acl_htable_locate_r :: "'v acl_htable \<Rightarrow> byte list \<Rightarrow> ('v acl_htable \<times> nat option) cres" where
  "acl_htable_locate_r t key_in =
    (let key = ht_key t key_in; n = ht_slot t (ht_hash_fn t key) in
     cbind (lock_table t) (\<lambda>t. cbind (bucket_find t key n) (\<lambda>p.
       map_cres (\<lambda>t. (t, p)) (unlock_table t))))"

subsection \<open>Deleting\<close>

definition acl_htable_delete_entry :: "'v acl_htable \<Rightarrow> nat \<Rightarrow> bool \<Rightarrow> ('v acl_htable \<times> 'v list) cres" where
  "acl_htable_delete_entry t a free_fn =
    cbind (hi_get t a) (\<lambda>e.
    let n = ht_slot t (hi_hash e) in
    cbind (case hi_next e of None \<Rightarrow> Ret t | Some nxt \<Rightarrow> hi_upd t nxt (\<lambda>x. x\<lparr>hi_prev := hi_prev e\<rparr>)) (\<lambda>t.
    cbind (hi_get t a) (\<lambda>e.
    cbind (case hi_prev e of Some prv \<Rightarrow> hi_upd t prv (\<lambda>x. x\<lparr>hi_next := hi_next e\<rparr>)
           | None \<Rightarrow> map_cres (\<lambda>d. t\<lparr>ht_data := d\<rparr>) (wr (ht_data t) n (hi_next e))) (\<lambda>t.
    map_cres (\<lambda>t. (t\<lparr>ht_used := ht_used t - 1\<rparr>, c_free free_fn (hi_value e))) (hi_free t a)))))"

definition acl_htable_delete :: "'v acl_htable \<Rightarrow> byte list \<Rightarrow> bool \<Rightarrow> ('v acl_htable \<times> 'v list \<times> int) cres" where
  "acl_htable_delete t key_in free_fn =
    (let key = ht_key t key_in; n = ht_slot t (ht_hash_fn t key) in
     cbind (lock_table t) (\<lambda>t. cbind (bucket_find t key n) (\<lambda>p. case p of
       None \<Rightarrow> map_cres (\<lambda>t. (t, [], -1)) (unlock_table t)
     | Some a \<Rightarrow> cbind (acl_htable_delete_entry t a free_fn) (\<lambda>(t, freed).
         map_cres (\<lambda>t. (t, freed, 0)) (unlock_table t)))))"

text \<open>The nested loops of \<open>acl_htable_free\<close> and \<open>acl_htable_reset\<close>.\<close>

fun free_chain :: "nat \<Rightarrow> 'v acl_htable \<Rightarrow> bool \<Rightarrow> nat option \<Rightarrow> ('v acl_htable \<times> 'v list) cres" where
  "free_chain 0 t free_fn p = Fault"
| "free_chain (Suc fuel) t free_fn p =
    (case p of None \<Rightarrow> Ret (t, [])
     | Some a \<Rightarrow> cbind (hi_get t a) (\<lambda>e. cbind (hi_free t a) (\<lambda>t.
         map_cres (\<lambda>(t, fs). (t, c_free free_fn (hi_value e) @ fs)) (free_chain fuel t free_fn (hi_next e)))))"

fun free_all :: "'v acl_htable \<Rightarrow> bool \<Rightarrow> nat option list \<Rightarrow> ('v acl_htable \<times> 'v list) cres" where
  "free_all t free_fn [] = Ret (t, [])"
| "free_all t free_fn (h # hs) =
    cbind (free_chain (ht_fuel t) t free_fn h) (\<lambda>(t, fs).
      map_cres (\<lambda>(t, gs). (t, fs @ gs)) (free_all t free_fn hs))"

definition acl_htable_free :: "'v acl_htable \<Rightarrow> bool \<Rightarrow> 'v list cres" where
  "acl_htable_free t free_fn = map_cres snd (free_all t free_fn (ht_data t))"

definition acl_htable_reset :: "'v acl_htable \<Rightarrow> bool \<Rightarrow> ('v acl_htable \<times> 'v list) cres" where
  "acl_htable_reset t free_fn =
    cbind (lock_table t) (\<lambda>t. cbind (free_all t free_fn (ht_data t)) (\<lambda>(t, fs).
      let t = htable_size t (if ht_init_size t < 13 then 13 else ht_init_size t) in
      map_cres (\<lambda>t. (t, fs)) (unlock_table t)))"

subsection \<open>Walking\<close>

text \<open>
  The loops \<open>for (; i < size; i++) if (data[i] != NULL) { ptr = data[i]; break; }\<close> and their mirror
  images: the index they stop at and the pointer found there.
\<close>

function scan_up :: "nat option list \<Rightarrow> int \<Rightarrow> int \<Rightarrow> (int \<times> nat option) cres" where
  "scan_up d sz i =
    (if i < sz then cbind (rd d i) (\<lambda>h. if h \<noteq> None then Ret (i, h) else scan_up d sz (i + 1))
     else Ret (i, None))"
  by pat_completeness auto
termination
  by (relation "measure (\<lambda>(d, sz, i). nat (sz - i))") auto

function scan_down :: "nat option list \<Rightarrow> int \<Rightarrow> (int \<times> nat option) cres" where
  "scan_down d i =
    (if i \<ge> 0 then cbind (rd d i) (\<lambda>h. if h \<noteq> None then Ret (i, h) else scan_down d (i - 1))
     else Ret (i, None))"
  by pat_completeness auto
termination
  by (relation "measure (\<lambda>(d, i). nat (i + 1))") auto

declare scan_up.simps [simp del] scan_down.simps [simp del]

text \<open>The last part of each iterator: data and key of the entry it stands at.\<close>

definition iter_at :: "'v acl_htable \<Rightarrow> (nat, 'v) acl_iter \<Rightarrow> nat option \<Rightarrow> (nat, 'v) acl_iter cres" where
  "iter_at t it p = (case p of
     None \<Rightarrow> Ret (it\<lparr>it_ptr := None, it_data := None, it_key := None\<rparr>)
   | Some a \<Rightarrow> map_cres (\<lambda>e. it\<lparr>it_ptr := p, it_data := hi_value e, it_key := hi_key e\<rparr>) (hi_get t a))"

definition htable_iter_head :: "'v acl_htable \<Rightarrow> (nat, 'v) acl_iter cres" where
  "htable_iter_head t =
    cbind (scan_up (ht_data t) (ht_size t) 0) (\<lambda>(i, p).
      iter_at t \<lparr>it_ptr = None, it_data = None, it_dlen = -1, it_key = None, it_klen = -1,
                 it_i = i, it_size = ht_size t\<rparr> p)"

definition htable_iter_tail :: "'v acl_htable \<Rightarrow> (nat, 'v) acl_iter cres" where
  "htable_iter_tail t =
    cbind (scan_down (ht_data t) (ht_size t - 1)) (\<lambda>(i, p).
      iter_at t \<lparr>it_ptr = None, it_data = None, it_dlen = -1, it_key = None, it_klen = -1,
                 it_i = i, it_size = ht_size t\<rparr> p)"

text \<open>The entry behind the current one in its chain.\<close>

definition iter_chain :: "'v acl_htable \<Rightarrow> nat option \<Rightarrow> nat option cres" where
  "iter_chain t p = (case p of None \<Rightarrow> Ret None | Some a \<Rightarrow> map_cres hi_next (hi_get t a))"

definition htable_iter_next :: "(nat, 'v) acl_iter \<Rightarrow> 'v acl_htable \<Rightarrow> (nat, 'v) acl_iter cres" where
  "htable_iter_next it t =
    cbind (iter_chain t (it_ptr it)) (\<lambda>p.
      if p \<noteq> None then iter_at t it p
      else cbind (scan_up (ht_data t) (it_size it) (it_i it + 1)) (\<lambda>(i, p). iter_at t (it\<lparr>it_i := i\<rparr>) p))"

definition htable_iter_prev :: "(nat, 'v) acl_iter \<Rightarrow> 'v acl_htable \<Rightarrow> (nat, 'v) acl_iter cres" where
  "htable_iter_prev it t =
    cbind (iter_chain t (it_ptr it)) (\<lambda>p.
      if p \<noteq> None then iter_at t it p
      else cbind (scan_down (ht_data t) (it_i it - 1)) (\<lambda>(i, p). iter_at t (it\<lparr>it_i := i\<rparr>) p))"

text \<open>The iterator of the older interface holds the array it was started on.\<close>

record acl_htable_iter =
  hti_ptr :: "nat option"
  hti_i :: int
  hti_size :: int
  hti_h :: "nat option list"

definition acl_htable_iter_head :: "'v acl_htable \<Rightarrow> acl_htable_iter cres" where
  "acl_htable_iter_head t =
    map_cres (\<lambda>(i, p). \<lparr>hti_ptr = p, hti_i = i, hti_size = ht_size t, hti_h = ht_data t\<rparr>)
      (scan_up (ht_data t) (ht_size t) 0)"

definition acl_htable_iter_next :: "'v acl_htable \<Rightarrow> acl_htable_iter \<Rightarrow> acl_htable_iter cres" where
  "acl_htable_iter_next t it =
    cbind (iter_chain t (hti_ptr it)) (\<lambda>p.
      if p \<noteq> None then Ret (it\<lparr>hti_ptr := p\<rparr>)
      else map_cres (\<lambda>(i, p). it\<lparr>hti_ptr := p, hti_i := i\<rparr>) (scan_up (hti_h it) (hti_size it) (hti_i it + 1)))"

definition acl_htable_iter_tail :: "'v acl_htable \<Rightarrow> acl_htable_iter cres" where
  "acl_htable_iter_tail t =
    map_cres (\<lambda>(i, p). \<lparr>hti_ptr = p, hti_i = i, hti_size = ht_size t, hti_h = ht_data t\<rparr>)
      (scan_down (ht_data t) (ht_size t - 1))"

definition acl_htable_iter_prev :: "'v acl_htable \<Rightarrow> acl_htable_iter \<Rightarrow> acl_htable_iter cres" where
  "acl_htable_iter_prev t it =
    cbind (iter_chain t (hti_ptr it)) (\<lambda>p.
      if p \<noteq> None then Ret (it\<lparr>hti_ptr := p\<rparr>)
      else map_cres (\<lambda>(i, p). it\<lparr>hti_ptr := p, hti_i := i\<rparr>) (scan_down (hti_h it) (hti_i it - 1)))"

text \<open>\<open>acl_htable_walk\<close>: the action updates the argument it is given and leaves the table alone.\<close>

fun walk_chain :: "nat \<Rightarrow> 'v acl_htable \<Rightarrow> ('v ht_info \<Rightarrow> 's \<Rightarrow> 's) \<Rightarrow> 's \<Rightarrow> nat option \<Rightarrow> 's cres" where
  "walk_chain 0 t action arg p = Fault"
| "walk_chain (Suc fuel) t action arg p =
    (case p of None \<Rightarrow> Ret arg
     | Some a \<Rightarrow> cbind (hi_get t a) (\<lambda>e. walk_chain fuel t action (action e arg) (hi_next e)))"

fun walk_all :: "'v acl_htable \<Rightarrow> ('v ht_info \<Rightarrow> 's \<Rightarrow> 's) \<Rightarrow> 's \<Rightarrow> nat option list \<Rightarrow> 's cres" where
  "walk_all t action arg [] = Ret arg"
| "walk_all t action arg (h # hs) =
    cbind (walk_chain (ht_fuel t) t action arg h) (\<lambda>arg. walk_all t action arg hs)"

definition acl_htable_walk :: "'v acl_htable \<Rightarrow> ('v ht_info \<Rightarrow> 's \<Rightarrow> 's) \<Rightarrow> 's \<Rightarrow> ('v acl_htable \<times> 's) cres" where
  "acl_htable_walk t action arg =
    cbind (lock_table t) (\<lambda>t. cbind (walk_all t action arg (ht_data t)) (\<lambda>arg.
      map_cres (\<lambda>t. (t, arg)) (unlock_table t)))"

text \<open>\<open>acl_htable_list\<close> fills a buffer of \<open>used + 1\<close> cells; every write is checked against it.\<close>

fun list_chain :: "nat \<Rightarrow> 'v acl_htable \<Rightarrow> nat option list \<times> int \<Rightarrow> nat option \<Rightarrow> (nat option list \<times> int) cres" where
  "list_chain 0 t lc p = Fault"
| "list_chain (Suc fuel) t lc p =
    (case p of None \<Rightarrow> Ret lc
     | Some a \<Rightarrow> cbind (wr (fst lc) (snd lc) (Some a)) (\<lambda>l. cbind (hi_get t a) (\<lambda>e.
         list_chain fuel t (l, snd lc + 1) (hi_next e))))"

fun list_all_chains :: "'v acl_htable \<Rightarrow> nat option list \<times> int \<Rightarrow> nat option list \<Rightarrow> (nat option list \<times> int) cres" where
  "list_all_chains t lc [] = Ret lc"
| "list_all_chains t lc (h # hs) = cbind (list_chain (ht_fuel t) t lc h) (\<lambda>lc. list_all_chains t lc hs)"

definition acl_htable_list :: "'v acl_htable option \<Rightarrow> nat option list cres" where
  "acl_htable_list t = (case t of
     None \<Rightarrow> wr (replicate 1 None) 0 None
   | Some t \<Rightarrow> cbind (list_all_chains t (replicate (nat (ht_used t + 1)) None, 0) (ht_data t)) (\<lambda>lc.
       wr (fst lc) (snd lc) None))"

definition acl_htable_size :: "'v acl_htable option \<Rightarrow> int" where
  "acl_htable_size t = (case t of None \<Rightarrow> 0 | Some t \<Rightarrow> ht_size t)"

definition acl_htable_used :: "'v acl_htable option \<Rightarrow> int" where
  "acl_htable_used t = (case t of None \<Rightarrow> 0 | Some t \<Rightarrow> ht_used t)"

end
