(* ===== verification/Htable_Rep.thy ===== *)
theory Htable_Rep
  imports Acl_Htable
begin

text \<open>
  The hash table of \<open>Acl_Htable\<close> as a finite map: the chains as lists of entries, what each pointer
  manipulation does to them, and the invariant that ties chains, hash values and keys together.
\<close>

subsection \<open>Chains\<close>

definition kpv :: "(nat \<Rightarrow> 'v ht_info option) \<Rightarrow> links" where
  "kpv h a = map_option hi_prev (h a)"

definition knx :: "(nat \<Rightarrow> 'v ht_info option) \<Rightarrow> links" where
  "knx h a = map_option hi_next (h a)"

text \<open>What an entry holds apart from its links.\<close>

definition hcont :: "(nat \<Rightarrow> 'v ht_info option) \<Rightarrow> nat \<Rightarrow> (byte list option \<times> 'v option \<times> 32 word) option" where
  "hcont h a = map_option (\<lambda>e. (hi_key e, hi_value e, hi_hash e)) (h a)"

lemma klinks_upd [simp]:
  "kpv (h(a \<mapsto> e)) = (kpv h)(a \<mapsto> hi_prev e)" "knx (h(a \<mapsto> e)) = (knx h)(a \<mapsto> hi_next e)"
  "kpv (h(a := None)) = (kpv h)(a := None)" "knx (h(a := None)) = (knx h)(a := None)"
  "hcont (h(a \<mapsto> e)) = (hcont h)(a \<mapsto> (hi_key e, hi_value e, hi_hash e))"
  "hcont (h(a := None)) = (hcont h)(a := None)"
  by (auto simp: kpv_def knx_def hcont_def)

lemma hi_put_sel [simp]:
  "ht_heap (hi_put t a e) = (ht_heap t)(a \<mapsto> e)" "ht_data (hi_put t a e) = ht_data t"
  "ht_used (hi_put t a e) = ht_used t" "ht_size (hi_put t a e) = ht_size t" "ht_brk (hi_put t a e) = ht_brk t"
  by (simp_all add: hi_put_def)

lemma hi_Ret [simp]:
  assumes "ht_heap t a = Some e"
  shows "hi_get t a = Ret e" "hi_upd t a f = Ret (t\<lparr>ht_heap := (ht_heap t)(a \<mapsto> f e)\<rparr>)"
    "hi_free t a = Ret (t\<lparr>ht_heap := (ht_heap t)(a := None)\<rparr>)"
  using assms by (simp_all add: hi_get_def hi_upd_def hi_free_def hi_put_def)

definition bucket_ok :: "(nat \<Rightarrow> 'v ht_info option) \<Rightarrow> nat option \<Rightarrow> nat list \<Rightarrow> bool" where
  "bucket_ok h d xs \<longleftrightarrow> d = first_of xs None \<and> dlseg (kpv h) (knx h) None xs None"

text \<open>The array \<open>data\<close> holds the heads of the chains \<open>xss\<close>, no entry twice.\<close>

definition ht_links :: "(nat \<Rightarrow> 'v ht_info option) \<Rightarrow> nat option list \<Rightarrow> nat list list \<Rightarrow> bool" where
  "ht_links h data xss \<longleftrightarrow> list_all2 (bucket_ok h) data xss \<and> distinct (concat xss)"

lemma buckets_cong:
  assumes "list_all2 (bucket_ok h) data xss"
    "\<And>a. a \<in> set (concat xss) \<Longrightarrow> kpv h' a = kpv h a \<and> knx h' a = knx h a"
  shows "list_all2 (bucket_ok h') data xss"
  using assms
proof (induction rule: list_all2_induct)
  case (Cons d ds xs xss)
  have "dlseg (kpv h') (knx h') None xs None"
    by (rule dlseg_cong [of "kpv h" "knx h"]) (use Cons in \<open>auto simp: bucket_ok_def\<close>)
  with Cons show ?case by (auto simp: bucket_ok_def)
qed simp

lemma ht_links_split:
  assumes "ht_links h data (A @ xs # B)"
  obtains D E where "data = D @ first_of xs None # E" "length D = length A"
    "list_all2 (bucket_ok h) D A" "list_all2 (bucket_ok h) E B"
    "dlseg (kpv h) (knx h) None xs None" "distinct xs"
    "set xs \<inter> set (concat A) = {}" "set xs \<inter> set (concat B) = {}" "set (concat A) \<inter> set (concat B) = {}"
    "distinct (concat A)" "distinct (concat B)"
proof -
  obtain D d E where "data = D @ d # E" "list_all2 (bucket_ok h) D A" "bucket_ok h d xs" "list_all2 (bucket_ok h) E B"
    using assms by (auto simp: ht_links_def list_all2_append2 list_all2_Cons2)
  moreover have "distinct (concat A @ xs @ concat B)" using assms by (simp add: ht_links_def)
  ultimately show ?thesis
    by (intro that [of D E]) (simp_all add: bucket_ok_def list_all2_lengthD Int_commute Int_Un_distrib)
qed

text \<open>Putting a chain back, made of entries of a set \<open>S\<close> to which the change was confined.\<close>

lemma ht_links_join:
  assumes "list_all2 (bucket_ok h) D A" "list_all2 (bucket_ok h) E B" "dlseg (kpv h') (knx h') None xs None"
    "\<And>a. a \<notin> S \<Longrightarrow> h' a = h a" "distinct xs" "set xs \<subseteq> S"
    "S \<inter> set (concat A) = {}" "S \<inter> set (concat B) = {}" "set (concat A) \<inter> set (concat B) = {}"
    "distinct (concat A)" "distinct (concat B)"
  shows "ht_links h' (D @ first_of xs None # E) (A @ xs # B)"
proof -
  have "h' a = h a" if "a \<in> set (concat A) \<or> a \<in> set (concat B)" for a
    using assms(4,7,8) that by blast
  then have "list_all2 (bucket_ok h') D A" "list_all2 (bucket_ok h') E B"
    using buckets_cong [OF assms(1), of h'] buckets_cong [OF assms(2), of h'] unfolding kpv_def knx_def by metis+
  moreover have "distinct (concat A @ xs @ concat B)"
    unfolding distinct_append set_append using assms(5-11) by blast
  ultimately show ?thesis
    using assms(3) by (simp add: ht_links_def bucket_ok_def list_all2_append list_all2_lengthD)
qed

lemma chain_node:
  assumes "dlseg (kpv h) (knx h) p (X @ a # Y) q"
  obtains e where "h a = Some e" "hi_prev e = last_of p X" "hi_next e = first_of Y q"
  using assms by (auto simp: kpv_def knx_def)

subsection \<open>Linking, unlinking and moving an entry\<close>

lemma link_links:
  assumes links: "ht_links (ht_heap t) (ht_data t) (A @ xs # B)"
    and a: "a \<notin> set (concat (A @ xs # B))" "ht_heap t a = Some e"
  shows "\<exists>h' d'. htable_link t a (int (length A)) =
      Ret (t\<lparr>ht_heap := h', ht_data := d', ht_used := ht_used t + 1\<rparr>)
    \<and> ht_links h' d' (A @ (a # xs) # B) \<and> hcont h' = hcont (ht_heap t)
    \<and> (\<forall>b. b \<notin> set (concat (A @ (a # xs) # B)) \<longrightarrow> h' b = ht_heap t b)"
proof -
  from links obtain D E where s: "ht_data t = D @ first_of xs None # E" "length D = length A"
    "list_all2 (bucket_ok (ht_heap t)) D A" "list_all2 (bucket_ok (ht_heap t)) E B"
    "dlseg (kpv (ht_heap t)) (knx (ht_heap t)) None xs None" "distinct xs"
    "set xs \<inter> set (concat A) = {}" "set xs \<inter> set (concat B) = {}" "set (concat A) \<inter> set (concat B) = {}"
    "distinct (concat A)" "distinct (concat B)"
    by (rule ht_links_split)
  define h' where "h' = (let h = (ht_heap t)(a \<mapsto> e\<lparr>hi_prev := None, hi_next := first_of xs None\<rparr>) in
    case xs of [] \<Rightarrow> h | b # _ \<Rightarrow> h(b \<mapsto> (the (ht_heap t b))\<lparr>hi_prev := Some a\<rparr>))"
  have b: "\<exists>f. ht_heap t b = Some f \<and> hi_prev f = None \<and> hi_next f = first_of ys None" if "xs = b # ys" for b ys
    using chain_node [of "ht_heap t" None "[]" b ys None] s(5) that by auto
  have "htable_link t a (int (length A)) =
      Ret (t\<lparr>ht_heap := h', ht_data := D @ Some a # E, ht_used := ht_used t + 1\<rparr>)"
    using s(1,2) a b
    by (cases xs) (auto simp: htable_link_def h'_def nth_append list_update_append Let_def)
  moreover have "dlseg (kpv h') (knx h') None (a # xs) None"
    using s(5,6) a b by (cases xs) (auto simp: h'_def Let_def)
  then have "ht_links h' (D @ first_of (a # xs) None # E) (A @ (a # xs) # B)"
    using s(6-11) a(1) by (intro ht_links_join [OF s(3,4), where S = "set (a # xs)"])
      (auto simp: h'_def Let_def split: list.splits)
  moreover have "hcont h' = hcont (ht_heap t)"
    using a b by (cases xs) (auto simp: h'_def Let_def hcont_def fun_eq_iff)
  moreover have "\<forall>b. b \<notin> set (concat (A @ (a # xs) # B)) \<longrightarrow> h' b = ht_heap t b"
    by (auto simp: h'_def Let_def split: list.splits)
  ultimately show ?thesis by fastforce
qed

lemma move_front_links:
  assumes links: "ht_links (ht_heap t) (ht_data t) (A @ (X @ a # Y) # B)" and X: "X \<noteq> []"
  shows "\<exists>h' d'. move_front t a (int (length A)) = Ret (t\<lparr>ht_heap := h', ht_data := d'\<rparr>)
    \<and> ht_links h' d' (A @ (a # X @ Y) # B) \<and> hcont h' = hcont (ht_heap t)
    \<and> (\<forall>b. b \<notin> set (concat (A @ (X @ a # Y) # B)) \<longrightarrow> h' b = ht_heap t b)"
proof -
  let ?h = "ht_heap t"
  from links obtain D E where s: "ht_data t = D @ first_of (X @ a # Y) None # E" "length D = length A"
    "list_all2 (bucket_ok ?h) D A" "list_all2 (bucket_ok ?h) E B"
    "dlseg (kpv ?h) (knx ?h) None (X @ a # Y) None" "distinct (X @ a # Y)"
    "set (X @ a # Y) \<inter> set (concat A) = {}" "set (X @ a # Y) \<inter> set (concat B) = {}"
    "set (concat A) \<inter> set (concat B) = {}" "distinct (concat A)" "distinct (concat B)"
    by (rule ht_links_split)
  obtain b X' where b: "X = b # X'" using X by (cases X) auto
  obtain p X'' where p: "X = X'' @ [p]" using X by (cases X rule: rev_cases) auto
  obtain e where e: "?h a = Some e" "hi_prev e = Some p" "hi_next e = first_of Y None"
    using chain_node [OF s(5)] p by auto
  obtain eb where eb: "?h b = Some eb" "hi_prev eb = None"
    using chain_node [of ?h None "[]" b "X' @ a # Y" None] s(5) b by auto
  obtain ep where ep: "?h p = Some ep" "hi_next ep = Some a" "hi_prev ep = last_of None X''"
    using chain_node [of ?h None X'' p "a # Y" None] s(5) p by auto
  have c: "\<exists>f. ?h c = Some f \<and> hi_prev f = Some a \<and> hi_next f = first_of Y' None" if "Y = c # Y'" for c Y'
    using chain_node [of ?h None "X @ [a]" c Y' None] s(5) that by auto
  have mem: "b \<in> set X" "p \<in> set X" by (simp add: b, simp add: p)
  have ne: "a \<noteq> b" "a \<noteq> p" and cne: "\<And>c Y'. Y = c # Y' \<Longrightarrow> c \<noteq> a \<and> c \<noteq> b \<and> c \<noteq> p"
  proof -
    have "a \<notin> set X" "a \<notin> set Y" "set X \<inter> set Y = {}" using s(6) by auto
    note dis = this
    show "a \<noteq> b" "a \<noteq> p" using mem dis by blast+
    show "c \<noteq> a \<and> c \<noteq> b \<and> c \<noteq> p" if "Y = c # Y'" for c Y'
      using that mem dis by auto
  qed
  have hd: "ht_data t = D @ Some b # E" using s(1) b by simp
  define h1 where "h1 = ?h(p \<mapsto> ep\<lparr>hi_next := first_of Y None\<rparr>)"
  define h2 where "h2 = (case Y of [] \<Rightarrow> h1 | c # _ \<Rightarrow> h1(c \<mapsto> (the (?h c))\<lparr>hi_prev := Some p\<rparr>))"
  define h' where "h' = h2(b \<mapsto> (the (h2 b))\<lparr>hi_prev := Some a\<rparr>, a \<mapsto> e\<lparr>hi_prev := None, hi_next := Some b\<rparr>)"
  have h2b: "h2 b = (if b = p then Some (ep\<lparr>hi_next := first_of Y None\<rparr>) else Some eb)"
    using cne eb by (auto simp: h2_def h1_def split: list.splits)
  have h2a: "h2 a = Some e"
    using cne ne e by (auto simp: h2_def h1_def split: list.splits)
  have "move_front t a (int (length A)) = Ret (t\<lparr>ht_heap := h', ht_data := D @ Some a # E\<rparr>)"
    using hd s(2) e ep c h2b h2a ne cne
    by (cases Y) (auto simp: move_front_def h'_def h2_def h1_def nth_append list_update_append)
  moreover have dl: "dlseg (kpv h') (knx h') None (a # X @ Y) None"
  proof -
    have "dlseg (kpv h2) (knx h2) None X (first_of Y None)"
      using s(5,6) ep p by (cases Y) (auto simp: h2_def h1_def)
    moreover have "dlseg (kpv h2) (knx h2) (Some p) Y None"
      using s(5,6) ep p c by (cases Y) (auto simp: h2_def h1_def)
    ultimately have "dlseg (kpv h2) (knx h2) None (X @ Y) None" by (simp add: p)
    then have "dlseg ((kpv h2)(b := Some (Some a))) (knx h2) (Some a) (X @ Y) None"
      using dlseg_relink_first [of "X @ Y" "kpv h2" "knx h2" None None "Some a"] s(6) by (simp add: b)
    then have "dlseg (kpv h') (knx h') (Some a) (X @ Y) None"
      by (rule dlseg_cong) (use s(6) h2b in \<open>auto simp: h'_def knx_def kpv_def\<close>)
    then show ?thesis by (simp add: b) (simp add: h'_def)
  qed
  moreover have frame: "h' x = ?h x" if "x \<notin> set (X @ a # Y)" for x
    using that mem by (auto simp: h'_def h2_def h1_def split: list.splits)
  moreover have "ht_links h' (D @ first_of (a # X @ Y) None # E) (A @ (a # X @ Y) # B)"
    by (rule ht_links_join [OF s(3,4) dl frame _ _ s(7-11)]) (use s(6) in auto)
  moreover have "hcont h' = hcont ?h"
    using e ep eb c h2b ne cne
    by (cases Y) (auto simp: h'_def h2_def h1_def hcont_def fun_eq_iff)
  ultimately show ?thesis using frame by fastforce
qed

lemma delete_entry_links:
  assumes links: "ht_links (ht_heap t) (ht_data t) (A @ (X @ a # Y) # B)"
    and e: "ht_heap t a = Some e" "ht_slot t (hi_hash e) = int (length A)"
  shows "\<exists>h' d'. acl_htable_delete_entry t a f =
      Ret (t\<lparr>ht_heap := h', ht_data := d', ht_used := ht_used t - 1\<rparr>, c_free f (hi_value e))
    \<and> ht_links h' d' (A @ (X @ Y) # B) \<and> hcont h' = (hcont (ht_heap t))(a := None)
    \<and> (\<forall>b. b \<notin> set (concat (A @ (X @ a # Y) # B)) \<longrightarrow> h' b = ht_heap t b)"
proof -
  let ?h = "ht_heap t"
  from links obtain D E where s: "ht_data t = D @ first_of (X @ a # Y) None # E" "length D = length A"
    "list_all2 (bucket_ok ?h) D A" "list_all2 (bucket_ok ?h) E B"
    "dlseg (kpv ?h) (knx ?h) None (X @ a # Y) None" "distinct (X @ a # Y)"
    "set (X @ a # Y) \<inter> set (concat A) = {}" "set (X @ a # Y) \<inter> set (concat B) = {}"
    "set (concat A) \<inter> set (concat B) = {}" "distinct (concat A)" "distinct (concat B)"
    by (rule ht_links_split)
  have ea: "hi_prev e = last_of None X" "hi_next e = first_of Y None"
    using chain_node [OF s(5)] e by auto
  have p: "\<exists>f. ?h p = Some f \<and> hi_prev f = last_of None X' \<and> hi_next f = Some a" if "X = X' @ [p]" for p X'
    using chain_node [of ?h None X' p "a # Y" None] s(5) that by auto
  have c: "\<exists>f. ?h c = Some f \<and> hi_prev f = Some a \<and> hi_next f = first_of Y' None" if "Y = c # Y'" for c Y'
    using chain_node [of ?h None "X @ [a]" c Y' None] s(5) that by auto
  define h1 where "h1 = (case Y of [] \<Rightarrow> ?h | c # _ \<Rightarrow> ?h(c \<mapsto> (the (?h c))\<lparr>hi_prev := last_of None X\<rparr>))"
  define h2 where "h2 = (if X = [] then h1 else h1(last X \<mapsto> (the (?h (last X)))\<lparr>hi_next := first_of Y None\<rparr>))"
  define h' where "h' = h2(a := None)"
  have "acl_htable_delete_entry t a f =
      Ret (t\<lparr>ht_heap := h', ht_data := D @ first_of (X @ Y) None # E, ht_used := ht_used t - 1\<rparr>, c_free f (hi_value e))"
    using s(1,2,6) e ea p c
    by (cases Y; cases X rule: rev_cases)
      (auto simp: acl_htable_delete_entry_def h'_def h2_def h1_def nth_append list_update_append Let_def)
  moreover have dl: "dlseg (kpv h') (knx h') None (X @ Y) None"
    using s(5,6) p c by (cases Y; cases X rule: rev_cases) (auto simp: h'_def h2_def h1_def)
  moreover have frame: "h' x = ?h x" if "x \<notin> set (X @ a # Y)" for x
    using that by (cases Y; cases X rule: rev_cases) (auto simp: h'_def h2_def h1_def)
  moreover have "ht_links h' (D @ first_of (X @ Y) None # E) (A @ (X @ Y) # B)"
    by (rule ht_links_join [OF s(3,4) dl frame _ _ s(7-11)]) (use s(6) in auto)
  moreover have "hcont h' = (hcont ?h)(a := None)"
    using s(6) p c by (cases Y; cases X rule: rev_cases) (auto simp: h'_def h2_def h1_def hcont_def fun_eq_iff)
  ultimately show ?thesis using frame by fastforce
qed

subsection \<open>Keys, places and the map a table stands for\<close>

definition hkey :: "(nat \<Rightarrow> 'v ht_info option) \<Rightarrow> nat \<Rightarrow> byte list option" where
  "hkey h a = Option.bind (hcont h a) fst"

definition hval :: "(nat \<Rightarrow> 'v ht_info option) \<Rightarrow> nat \<Rightarrow> 'v option" where
  "hval h a = Option.bind (hcont h a) (\<lambda>c. fst (snd c))"

lemma hkey_entry [simp]: "h a = Some e \<Longrightarrow> hkey h a = hi_key e \<and> hval h a = hi_value e"
  by (simp add: hkey_def hval_def hcont_def)

lemma hcont_same: "hcont h' = hcont h \<Longrightarrow> hkey h' = hkey h \<and> hval h' = hval h"
  by (simp add: hkey_def hval_def fun_eq_iff)

text \<open>Every entry of the chain number \<open>i\<close> and on belongs there.\<close>

fun placed :: "(nat \<Rightarrow> int) \<Rightarrow> int \<Rightarrow> nat list list \<Rightarrow> bool" where
  "placed f i [] \<longleftrightarrow> True"
| "placed f i (xs # xss) \<longleftrightarrow> (\<forall>a \<in> set xs. f a = i) \<and> placed f (i + 1) xss"

lemma placed_append [simp]:
  "placed f i (xss @ yss) \<longleftrightarrow> placed f i xss \<and> placed f (i + int (length xss)) yss"
  by (induction xss arbitrary: i) (auto simp: ac_simps)

lemma placed_range: "placed f i xss \<Longrightarrow> a \<in> set (concat xss) \<Longrightarrow> i \<le> f a \<and> f a < i + int (length xss)"
  by (induction xss arbitrary: i) fastforce+

lemma placed_cong: "(\<And>a. a \<in> set (concat xss) \<Longrightarrow> f a = g a) \<Longrightarrow> placed f i xss \<longleftrightarrow> placed g i xss"
  by (induction xss arbitrary: i) auto

lemma placed_only:
  assumes "placed f 0 (A @ xs # B)" "a \<in> set (concat (A @ xs # B))" "f a = int (length A)"
  shows "a \<in> set xs"
proof (rule ccontr)
  assume "a \<notin> set xs"
  with assms(2) have "a \<in> set (concat A) \<or> a \<in> set (concat B)" by auto
  with assms(1,3) placed_range [of f 0 A a] placed_range [of f "int (length A) + 1" B a] show False by auto
qed

lemma placed_empty [simp]: "placed f i (replicate n [])"
  by (induction n arbitrary: i) auto

text \<open>The place of an entry, by the hash value of its key.\<close>

definition place :: "'v acl_htable \<Rightarrow> (nat \<Rightarrow> 'v ht_info option) \<Rightarrow> nat \<Rightarrow> int" where
  "place t h a = ht_slot t (ht_hash_fn t (the (hkey h a)))"

definition ht_rep :: "'v acl_htable \<Rightarrow> nat list list \<Rightarrow> bool" where
  "ht_rep t xss \<longleftrightarrow> ht_links (ht_heap t) (ht_data t) xss
     \<and> ht_size t = int (length xss) \<and> xss \<noteq> [] \<and> ht_used t = int (length (concat xss))
     \<and> ht_used t \<le> ht_size t \<and> (\<forall>a \<ge> ht_brk t. hcont (ht_heap t) a = None)
     \<and> (\<forall>a \<in> set (concat xss). \<exists>k v. hcont (ht_heap t) a = Some (Some k, v, ht_hash_fn t k))
     \<and> placed (place t (ht_heap t)) 0 xss \<and> inj_on (hkey (ht_heap t)) (set (concat xss))"

definition ht_buckets :: "'v acl_htable \<Rightarrow> nat list list" where
  "ht_buckets t = map (chain (ht_brk t) (knx (ht_heap t))) (ht_data t)"

definition ht_inv :: "'v acl_htable \<Rightarrow> bool" where
  "ht_inv t \<longleftrightarrow> ht_rep t (ht_buckets t)"

definition ht_alist :: "(nat \<Rightarrow> 'v ht_info option) \<Rightarrow> nat list \<Rightarrow> (byte list \<times> 'v option) list" where
  "ht_alist h xs = map (\<lambda>a. (the (hkey h a), hval h a)) xs"

text \<open>The map from the keys in the table to their values.\<close>

definition ht_map :: "'v acl_htable \<Rightarrow> byte list \<Rightarrow> 'v option option" where
  "ht_map t = map_of (ht_alist (ht_heap t) (concat (ht_buckets t)))"

lemma ht_rep_entry:
  assumes "ht_rep t xss" "a \<in> set (concat xss)"
  obtains e k where "ht_heap t a = Some e" "hi_key e = Some k" "hi_hash e = ht_hash_fn t k"
    "hkey (ht_heap t) a = Some k" "hval (ht_heap t) a = hi_value e"
proof -
  obtain k v where "hcont (ht_heap t) a = Some (Some k, v, ht_hash_fn t k)"
    using assms by (fastforce simp: ht_rep_def simp del: set_concat)
  with that show ?thesis by (auto simp: hcont_def hkey_def hval_def)
qed

lemma ht_rep_bound:
  assumes "ht_rep t xss" "a \<in> set (concat xss)"
  shows "a < ht_brk t"
  using assms unfolding ht_rep_def by (metis linorder_not_le option.distinct(1))

lemma ht_rep_length: "ht_rep t xss \<Longrightarrow> xs \<in> set xss \<Longrightarrow> length xs \<le> ht_brk t"
proof (rule distinct_bounded)
  assume rep: "ht_rep t xss" "xs \<in> set xss"
  then show "distinct xs"
    using distinct_concat_iff [of xss] by (auto simp: ht_rep_def ht_links_def)
  show "a < ht_brk t" if "a \<in> set xs" for a
    using ht_rep_bound [OF rep(1)] rep(2) that by auto
qed

lemma ht_rep_buckets:
  assumes "ht_rep t xss"
  shows "ht_buckets t = xss"
proof (rule nth_equalityI)
  have l: "list_all2 (bucket_ok (ht_heap t)) (ht_data t) xss" using assms by (simp add: ht_rep_def ht_links_def)
  then show len: "length (ht_buckets t) = length xss" by (simp add: ht_buckets_def list_all2_lengthD)
  fix i assume "i < length (ht_buckets t)"
  then have "bucket_ok (ht_heap t) (ht_data t ! i) (xss ! i)" "length (xss ! i) \<le> ht_brk t"
    using l len ht_rep_length [OF assms] by (auto simp: list_all2_conv_all_nth)
  then show "ht_buckets t ! i = xss ! i"
    using chain_dlseg \<open>i < length (ht_buckets t)\<close> by (auto simp: ht_buckets_def bucket_ok_def)
qed

lemma ht_rep_inv: "ht_rep t xss \<Longrightarrow> ht_inv t \<and> ht_map t = map_of (ht_alist (ht_heap t) (concat xss))"
  using ht_rep_buckets by (fastforce simp: ht_inv_def ht_map_def)

lemma alist_keys:
  assumes "inj_on (hkey h) (set xs)" "distinct xs" "\<And>a. a \<in> set xs \<Longrightarrow> hkey h a \<noteq> None"
  shows "distinct (map fst (ht_alist h xs))"
proof -
  have "inj_on (\<lambda>a. the (hkey h a)) (set xs)"
  proof (rule inj_onI)
    fix a b assume ab: "a \<in> set xs" "b \<in> set xs" "the (hkey h a) = the (hkey h b)"
    with assms(3) have "hkey h a = hkey h b" by (meson option.expand)
    with assms(1) ab show "a = b" by (meson inj_onD)
  qed
  with assms(2) show ?thesis by (simp add: ht_alist_def distinct_map comp_def)
qed

lemma ht_rep_keys:
  assumes "ht_rep t xss"
  shows "distinct (map fst (ht_alist (ht_heap t) (concat xss)))"
proof (rule alist_keys)
  show "hkey (ht_heap t) a \<noteq> None" if "a \<in> set (concat xss)" for a
    using ht_rep_entry [OF assms that] by (metis option.distinct(1))
qed (use assms in \<open>simp_all add: ht_rep_def ht_links_def\<close>)

text \<open>The map of a table in terms of its entries.\<close>

lemma ht_map_iff:
  assumes "ht_rep t xss"
  shows "ht_map t k = Some v \<longleftrightarrow> (\<exists>a \<in> set (concat xss). hkey (ht_heap t) a = Some k \<and> hval (ht_heap t) a = v)"
proof -
  have "ht_map t k = Some v \<longleftrightarrow> (k, v) \<in> set (ht_alist (ht_heap t) (concat xss))"
    using ht_rep_inv [OF assms] ht_rep_keys [OF assms] by simp
  moreover have "hkey (ht_heap t) a \<noteq> None" if "a \<in> set (concat xss)" for a
    using ht_rep_entry [OF assms that] by (metis option.distinct(1))
  ultimately show ?thesis by (auto simp: ht_alist_def image_iff) force+
qed

lemma ht_map_None:
  assumes "ht_rep t xss"
  shows "ht_map t k = None \<longleftrightarrow> (\<forall>a \<in> set (concat xss). hkey (ht_heap t) a \<noteq> Some k)"
  using ht_map_iff [OF assms] by (metis option.exhaust option.distinct(1))

lemma ht_map_eqI:
  assumes "ht_rep t xss" "ht_rep t' xss'"
    "\<And>k v. (\<exists>a \<in> set (concat xss'). hkey (ht_heap t') a = Some k \<and> hval (ht_heap t') a = v)
       \<longleftrightarrow> (\<exists>a \<in> set (concat xss). hkey (ht_heap t) a = Some k \<and> hval (ht_heap t) a = v)"
  shows "ht_map t' = ht_map t"
proof (rule ext)
  fix k
  have "ht_map t' k = Some v \<longleftrightarrow> ht_map t k = Some v" for v
    unfolding ht_map_iff [OF assms(1)] ht_map_iff [OF assms(2)] by (rule assms(3))
  then show "ht_map t' k = ht_map t k" by (metis option.exhaust)
qed

lemma ht_rep_same:
  assumes "ht_rep t xss" "ht_links h' d' xss'" "length xss' = length xss"
    "set (concat xss') = set (concat xss)" "hcont h' = hcont (ht_heap t)" "placed (place t (ht_heap t)) 0 xss'"
  shows "ht_rep (t\<lparr>ht_heap := h', ht_data := d'\<rparr>) xss'"
    "ht_map (t\<lparr>ht_heap := h', ht_data := d'\<rparr>) = ht_map t"
proof -
  let ?t = "t\<lparr>ht_heap := h', ht_data := d'\<rparr>"
  note same = hcont_same [OF assms(5)]
  have "length (concat xss') = length (concat xss)"
    using assms(1,2,4) distinct_card [of "concat xss"] distinct_card [of "concat xss'"]
    by (simp add: ht_rep_def ht_links_def)
  moreover have "place ?t h' = place t (ht_heap t)"
    using same by (simp add: place_def ht_slot_def fun_eq_iff)
  ultimately show rep: "ht_rep ?t xss'"
    using assms same by (auto simp: ht_rep_def)
  show "ht_map ?t = ht_map t"
    by (rule ht_map_eqI [OF assms(1) rep]) (use same assms(4) in \<open>simp del: set_concat\<close>)
qed

subsection \<open>Searching\<close>

lemma chain_find_spec:
  assumes "nseg (knx (ht_heap t)) xs None" "length xs < fuel"
    "\<And>a. a \<in> set xs \<Longrightarrow> \<exists>e k. ht_heap t a = Some e \<and> hi_key e = Some k"
  shows "chain_find fuel t k (first_of xs None) = Ret (List.find (\<lambda>a. hkey (ht_heap t) a = Some k) xs)"
  using assms
proof (induction xs arbitrary: fuel)
  case Nil
  then show ?case by (cases fuel) auto
next
  case (Cons a xs)
  then obtain n where n: "fuel = Suc n" by (cases fuel) auto
  obtain e k' where e: "ht_heap t a = Some e" "hi_key e = Some k'" using Cons.prems(3) [of a] by auto
  moreover have "hi_next e = first_of xs None" using Cons.prems(1) e by (simp add: knx_def)
  ultimately show ?case using Cons n by auto
qed

lemma bucket_find_spec:
  assumes "ht_rep t (A @ xs # B)"
  shows "bucket_find t k (int (length A)) = Ret (List.find (\<lambda>a. hkey (ht_heap t) a = Some k) xs)"
proof -
  obtain D E where "ht_data t = D @ first_of xs None # E" "length D = length A"
    "dlseg (kpv (ht_heap t)) (knx (ht_heap t)) None xs None"
  proof -
    have "ht_links (ht_heap t) (ht_data t) (A @ xs # B)" using assms by (simp add: ht_rep_def)
    then show ?thesis using that by (rule ht_links_split)
  qed
  moreover have "\<exists>e k. ht_heap t a = Some e \<and> hi_key e = Some k" if "a \<in> set xs" for a
  proof -
    have "a \<in> set (concat (A @ xs # B))" using that by simp
    then show ?thesis by (rule ht_rep_entry [OF assms]) blast
  qed
  moreover have "length xs < ht_fuel t"
    using ht_rep_length [OF assms, of xs] by (simp add: ht_fuel_def)
  ultimately show ?thesis
    by (simp add: bucket_find_def nth_append chain_find_spec dlseg_nseg)
qed

lemma slot_split:
  assumes "ht_rep t xss"
  obtains A xs B where "xss = A @ xs # B" "ht_slot t h = int (length A)"
proof -
  have "0 \<le> ht_slot t h" "ht_slot t h < int (length xss)"
    using assms by (auto simp: ht_slot_def ht_rep_def)
  then have "nat (ht_slot t h) < length xss" by linarith
  with that [of "take (nat (ht_slot t h)) xss" "xss ! nat (ht_slot t h)" "drop (Suc (nat (ht_slot t h))) xss"]
  show ?thesis using \<open>0 \<le> ht_slot t h\<close> by (simp flip: id_take_nth_drop)
qed

text \<open>What a search for a key finds, and where.\<close>

lemma search_cases:
  assumes "ht_rep t xss"
  obtains (Miss) A xs B where "xss = A @ xs # B" "ht_slot t (ht_hash_fn t k) = int (length A)"
      "bucket_find t k (int (length A)) = Ret None" "ht_map t k = None"
  | (Hit) A X a Y B e where "xss = A @ (X @ a # Y) # B" "ht_slot t (ht_hash_fn t k) = int (length A)"
      "bucket_find t k (int (length A)) = Ret (Some a)" "ht_heap t a = Some e" "hi_key e = Some k"
      "hi_hash e = ht_hash_fn t k" "ht_map t k = Some (hi_value e)"
proof -
  obtain A xs B where xss: "xss = A @ xs # B" "ht_slot t (ht_hash_fn t k) = int (length A)"
    using assms by (rule slot_split)
  note find = bucket_find_spec [OF assms [unfolded xss(1)], of k]
  show ?thesis
  proof (cases "List.find (\<lambda>a. hkey (ht_heap t) a = Some k) xs")
    case None
    have "a \<in> set xs" if "a \<in> set (concat xss)" "hkey (ht_heap t) a = Some k" for a
    proof (rule placed_only)
      show "placed (place t (ht_heap t)) 0 (A @ xs # B)" using assms xss by (simp add: ht_rep_def)
      show "place t (ht_heap t) a = int (length A)" using that xss by (simp add: place_def)
    qed (use that xss in simp)
    with None have "ht_map t k = None"
      unfolding ht_map_None [OF assms] by (auto simp: find_None_iff)
    with Miss xss find None show ?thesis by simp
  next
    case (Some a)
    then have a: "a \<in> set xs" "hkey (ht_heap t) a = Some k" by (auto simp: find_Some_iff)
    then obtain X Y where XY: "xs = X @ a # Y" by (meson split_list)
    have "a \<in> set (concat xss)" using a xss by simp
    then obtain e where e: "ht_heap t a = Some e" "hi_key e = Some k" "hi_hash e = ht_hash_fn t k"
      "hval (ht_heap t) a = hi_value e"
      using a(2) ht_rep_entry [OF assms] by (metis option.inject)
    moreover have "ht_map t k = Some (hi_value e)"
      unfolding ht_map_iff [OF assms] using \<open>a \<in> set (concat xss)\<close> a(2) e(4) by blast
    ultimately show ?thesis using Hit xss XY find Some by simp
  qed
qed

subsection \<open>The operations, on the chains\<close>

lemma ht_unchanged [simp]:
  "t\<lparr>ht_heap := ht_heap t, ht_data := ht_data t\<rparr> = t" "t\<lparr>ht_rwlock := ht_rwlock t\<rparr> = t"
  by (cases t, simp)+

lemma ht_rep_cfg [simp]:
  "ht_rep (t\<lparr>ht_rwlock := l\<rparr>) xss \<longleftrightarrow> ht_rep t xss" "ht_rep (t\<lparr>ht_status := st\<rparr>) xss \<longleftrightarrow> ht_rep t xss"
  "ht_map (t\<lparr>ht_rwlock := l\<rparr>) = ht_map t" "ht_map (t\<lparr>ht_status := st\<rparr>) = ht_map t"
  "ht_inv (t\<lparr>ht_rwlock := l\<rparr>) \<longleftrightarrow> ht_inv t" "ht_inv (t\<lparr>ht_status := st\<rparr>) \<longleftrightarrow> ht_inv t"
  by (simp_all add: ht_rep_def place_def ht_slot_def ht_map_def ht_buckets_def ht_inv_def fun_eq_iff cong: placed_cong)

lemma ht_slot_upd [simp]:
  "ht_slot (t\<lparr>ht_heap := h\<rparr>) x = ht_slot t x" "ht_slot (t\<lparr>ht_data := d\<rparr>) x = ht_slot t x"
  "ht_slot (t\<lparr>ht_used := u\<rparr>) x = ht_slot t x" "ht_slot (t\<lparr>ht_rwlock := l\<rparr>) x = ht_slot t x"
  "ht_slot (t\<lparr>ht_status := st\<rparr>) x = ht_slot t x" "ht_slot (t\<lparr>ht_brk := b\<rparr>) x = ht_slot t x"
  by (simp_all add: ht_slot_def)

lemma bucket_find_cfg [simp]:
  "bucket_find (t\<lparr>ht_rwlock := l\<rparr>) k n = bucket_find t k n" "bucket_find (t\<lparr>ht_status := st\<rparr>) k n = bucket_find t k n"
proof -
  have "chain_find f (t\<lparr>ht_rwlock := l\<rparr>) k p = chain_find f t k p"
    "chain_find f (t\<lparr>ht_status := st\<rparr>) k p = chain_find f t k p" for f p
    by (induction f arbitrary: p) (auto simp: hi_get_def split: option.splits)
  then have "chain_find f (t\<lparr>ht_rwlock := l\<rparr>) k = chain_find f t k"
    "chain_find f (t\<lparr>ht_status := st\<rparr>) k = chain_find f t k" for f
    by blast+
  then show "bucket_find (t\<lparr>ht_rwlock := l\<rparr>) k n = bucket_find t k n"
    "bucket_find (t\<lparr>ht_status := st\<rparr>) k n = bucket_find t k n"
    by (simp_all add: bucket_find_def ht_fuel_def)
qed

text \<open>Moving the entry a search found to the front of its chain, where the code does.\<close>

lemma front_rep:
  assumes rep: "ht_rep t (A @ (X @ a # Y) # B)"
  shows "\<exists>h' d' xss'. cbind (rd (ht_data t) (int (length A))) (\<lambda>h.
        if \<not> m \<or> h = Some a then Ret t else move_front t a (int (length A))) = Ret (t\<lparr>ht_heap := h', ht_data := d'\<rparr>)
     \<and> ht_rep (t\<lparr>ht_heap := h', ht_data := d'\<rparr>) xss' \<and> ht_map (t\<lparr>ht_heap := h', ht_data := d'\<rparr>) = ht_map t
     \<and> hcont h' = hcont (ht_heap t) \<and> a \<in> set (concat xss')"
proof -
  have links: "ht_links (ht_heap t) (ht_data t) (A @ (X @ a # Y) # B)" using rep by (simp add: ht_rep_def)
  then obtain D E where d: "ht_data t = D @ first_of (X @ a # Y) None # E" "length D = length A"
    by (rule ht_links_split)
  have hd: "rd (ht_data t) (int (length A)) = Ret (first_of (X @ a # Y) None)"
    using d by (simp add: nth_append)
  show ?thesis
  proof (cases "\<not> m \<or> first_of (X @ a # Y) None = Some a")
    case True
    with hd have "cbind (rd (ht_data t) (int (length A))) (\<lambda>h.
        if \<not> m \<or> h = Some a then Ret t else move_front t a (int (length A))) = Ret (t\<lparr>ht_heap := ht_heap t, ht_data := ht_data t\<rparr>)"
      by simp
    with rep show ?thesis
      by (intro exI [of _ "ht_heap t"] exI [of _ "ht_data t"] exI [of _ "A @ (X @ a # Y) # B"]) simp
  next
    case False
    then have "X \<noteq> []" by auto
    then obtain h' d' where mv: "move_front t a (int (length A)) = Ret (t\<lparr>ht_heap := h', ht_data := d'\<rparr>)"
      "ht_links h' d' (A @ (a # X @ Y) # B)" "hcont h' = hcont (ht_heap t)"
      using move_front_links [OF links] by blast
    have "placed (place t (ht_heap t)) 0 (A @ (a # X @ Y) # B)"
      using rep by (auto simp: ht_rep_def)
    then have "ht_rep (t\<lparr>ht_heap := h', ht_data := d'\<rparr>) (A @ (a # X @ Y) # B)"
      "ht_map (t\<lparr>ht_heap := h', ht_data := d'\<rparr>) = ht_map t"
      by (intro ht_rep_same [OF rep mv(2) _ _ mv(3)]; auto)+
    with False hd mv show ?thesis
      by (intro exI [of _ h'] exI [of _ d'] exI [of _ "A @ (a # X @ Y) # B"]) simp
  qed
qed

text \<open>The state of the lock while an operation holds it.\<close>

definition held :: "'v acl_htable \<Rightarrow> bool option" where
  "held t = map_option (\<lambda>_. True) (ht_rwlock t)"

lemma lock_ok:
  assumes "ht_rwlock t \<noteq> Some True"
  shows "lock_table t = Ret (t\<lparr>ht_rwlock := held t\<rparr>)"
    and "ht_rwlock u = held t \<Longrightarrow> unlock_table u = Ret (u\<lparr>ht_rwlock := ht_rwlock t\<rparr>)"
  using assms
  by (cases t; cases u; auto simp: lock_table_def unlock_table_def held_def split: option.splits)+

text \<open>
  Looking a key up leaves a table with the same map and configuration. \<open>ht_same_cfg\<close> collects what
  an operation does not touch.
\<close>

definition ht_same_cfg :: "'v acl_htable \<Rightarrow> 'v acl_htable \<Rightarrow> bool" where
  "ht_same_cfg t u \<longleftrightarrow> ht_flag u = ht_flag t \<and> ht_hash_fn u = ht_hash_fn t \<and> ht_rwlock u = ht_rwlock t
     \<and> ht_init_size u = ht_init_size t"

lemma locate_rep:
  assumes "ht_rep t xss"
  shows "\<exists>u p. acl_htable_locate t key = Ret (u, p) \<and> ht_inv u \<and> ht_map u = ht_map t \<and> ht_same_cfg t u
    \<and> ht_used u = ht_used t
    \<and> (case p of None \<Rightarrow> ht_map t (ht_key t key) = None
        | Some a \<Rightarrow> \<exists>e. ht_heap u a = Some e \<and> hi_key e = Some (ht_key t key)
            \<and> ht_map t (ht_key t key) = Some (hi_value e))"
  using assms
proof (cases rule: search_cases [where k = "ht_key t key"])
  case (Miss A xs B)
  then show ?thesis
    using ht_rep_inv [OF assms] by (auto simp: acl_htable_locate_def ht_same_cfg_def)
next
  case (Hit A X a Y B e)
  obtain h' d' xss' where f: "cbind (rd (ht_data t) (int (length A))) (\<lambda>h.
        if \<not> flag_mslook t \<or> h = Some a then Ret t else move_front t a (int (length A))) = Ret (t\<lparr>ht_heap := h', ht_data := d'\<rparr>)"
    "ht_rep (t\<lparr>ht_heap := h', ht_data := d'\<rparr>) xss'" "ht_map (t\<lparr>ht_heap := h', ht_data := d'\<rparr>) = ht_map t"
    "hcont h' = hcont (ht_heap t)"
    using front_rep [OF assms [unfolded Hit(1)]] by blast
  obtain e' where "h' a = Some e'" "hi_key e' = hi_key e" "hi_value e' = hi_value e"
    using fun_cong [OF f(4), of a] Hit(4) by (auto simp: hcont_def)
  moreover have "acl_htable_locate t key = map_cres (\<lambda>t. (t, Some a)) (cbind (rd (ht_data t) (int (length A))) (\<lambda>h.
        if \<not> flag_mslook t \<or> h = Some a then Ret t else move_front t a (int (length A))))"
    by (simp add: acl_htable_locate_def Hit(2,3) Let_def map_cres_cbind if_distrib [of "map_cres (\<lambda>t. (t, Some a))"]
        cong: if_cong)
  then have "acl_htable_locate t key = Ret (t\<lparr>ht_heap := h', ht_data := d'\<rparr>, Some a)"
    by (simp only: f(1) map_cres_simps)
  ultimately show ?thesis
    using f(2,3) Hit ht_rep_inv [OF f(2)] by (auto simp: ht_same_cfg_def)
qed

end
