(* ===== verification/Htable_Ops.thy ===== *)
theory Htable_Ops
  imports Htable_Rep
begin

text \<open>
  The operations of the hash table on the map it stands for: lookups, deletion, growth, insertion,
  reset and the walks, with the lock each of them takes released on every path.
\<close>

subsection \<open>Lookups\<close>

lemma find_rep:
  assumes "ht_rep t xss"
  shows "\<exists>u. acl_htable_find t key = Ret (u, Option.bind (ht_map t (ht_key t key)) id)
    \<and> ht_inv u \<and> ht_map u = ht_map t \<and> ht_same_cfg t u \<and> ht_used u = ht_used t"
proof -
  obtain u p where u: "acl_htable_locate t key = Ret (u, p)" "ht_inv u" "ht_map u = ht_map t" "ht_same_cfg t u"
    "ht_used u = ht_used t"
    "case p of None \<Rightarrow> ht_map t (ht_key t key) = None
        | Some a \<Rightarrow> \<exists>e. ht_heap u a = Some e \<and> hi_key e = Some (ht_key t key)
            \<and> ht_map t (ht_key t key) = Some (hi_value e)"
    using locate_rep [OF assms] by blast
  then show ?thesis by (cases p) (auto simp: acl_htable_find_def)
qed

lemma find_r_rep:
  assumes "ht_rep t xss" "ht_rwlock t \<noteq> Some True"
  shows "\<exists>u. acl_htable_find_r t key = Ret (u, Option.bind (ht_map t (ht_key t key)) id)
    \<and> ht_inv u \<and> ht_map u = ht_map t \<and> ht_same_cfg t u \<and> ht_used u = ht_used t"
proof -
  define l where "l = held t"
  note l = lock_ok [OF assms(2), folded l_def]
  let ?t = "t\<lparr>ht_rwlock := l\<rparr>"
  from assms(1) show ?thesis
  proof (cases rule: search_cases [where k = "ht_key t key"])
    case (Miss A xs B)
    then have "acl_htable_find_r t key = Ret (t, None)"
      by (simp add: acl_htable_find_r_def Let_def l)
    with Miss ht_rep_inv [OF assms(1)] show ?thesis by (auto simp: ht_same_cfg_def)
  next
    case (Hit A X a Y B e)
    have rep: "ht_rep ?t (A @ (X @ a # Y) # B)" using assms(1) Hit(1) by simp
    obtain h' d' xss' where f: "cbind (rd (ht_data ?t) (int (length A))) (\<lambda>h.
          if \<not> flag_mslook ?t \<or> h = Some a then Ret ?t else move_front ?t a (int (length A))) = Ret (?t\<lparr>ht_heap := h', ht_data := d'\<rparr>)"
      "ht_rep (?t\<lparr>ht_heap := h', ht_data := d'\<rparr>) xss'" "ht_map (?t\<lparr>ht_heap := h', ht_data := d'\<rparr>) = ht_map ?t"
      using front_rep [OF rep] by blast
    let ?u = "t\<lparr>ht_heap := h', ht_data := d'\<rparr>"
    have u: "?t\<lparr>ht_heap := h', ht_data := d', ht_rwlock := ht_rwlock t\<rparr> = ?u" by simp
    have "acl_htable_find_r t key = cbind (cbind (rd (ht_data ?t) (int (length A))) (\<lambda>h.
        if \<not> flag_mslook ?t \<or> h = Some a then Ret ?t else move_front ?t a (int (length A))))
          (\<lambda>t. map_cres (\<lambda>t. (t, hi_value e)) (unlock_table t))"
      using Hit(4) by (cases "rd (ht_data t) (int (length A))") (simp_all add: acl_htable_find_r_def Let_def l Hit(2,3))
    then have "acl_htable_find_r t key = Ret (?u, hi_value e)"
      unfolding f(1) by (simp add: l(2) u)
    moreover have "ht_rep ?u xss'" "ht_map ?u = ht_map t"
      using f(2,3) ht_rep_cfg(1) [where t = "?t\<lparr>ht_heap := h', ht_data := d'\<rparr>" and l = "ht_rwlock t" and xss = xss']
        ht_rep_cfg(3) [where t = "?t\<lparr>ht_heap := h', ht_data := d'\<rparr>" and l = "ht_rwlock t"] by (simp_all add: u)
    ultimately show ?thesis
      using Hit(7) ht_rep_inv by (fastforce simp: ht_same_cfg_def)
  qed
qed

lemma locate_r_rep:
  assumes "ht_rep t xss" "ht_rwlock t \<noteq> Some True"
  shows "\<exists>p. acl_htable_locate_r t key = Ret (t, p)
    \<and> (case p of None \<Rightarrow> ht_map t (ht_key t key) = None
        | Some a \<Rightarrow> \<exists>e. ht_heap t a = Some e \<and> hi_key e = Some (ht_key t key)
            \<and> ht_map t (ht_key t key) = Some (hi_value e))"
proof -
  define l where "l = held t"
  note l = lock_ok [OF assms(2), folded l_def]
  from assms(1) show ?thesis
    by (cases rule: search_cases [where k = "ht_key t key"]) (auto simp: acl_htable_locate_r_def Let_def l)
qed

subsection \<open>Deletion\<close>

lemma entries_remove:
  assumes "inj_on key (insert a S)" "a \<notin> S" "key a = Some k" "\<And>b. b \<noteq> a \<Longrightarrow> key' b = key b \<and> val' b = val b"
  shows "(\<exists>b \<in> S. key' b = Some k' \<and> val' b = v) \<longleftrightarrow> k' \<noteq> k \<and> (\<exists>b \<in> insert a S. key b = Some k' \<and> val b = v)"
proof -
  have "key' b = key b" "val' b = val b" "key b \<noteq> Some k" if "b \<in> S" for b
  proof -
    have "b \<noteq> a" using that assms(2) by blast
    then show "key' b = key b" "val' b = val b" using assms(4) by auto
    show "key b \<noteq> Some k" using that assms(1,3) \<open>b \<noteq> a\<close> by (auto simp: inj_on_def)
  qed
  with assms(3) show ?thesis by auto
qed

lemma delete_entry_rep:
  assumes t: "ht_rep t (A @ (X @ a # Y) # B)" and e: "ht_heap t a = Some e" "hi_key e = Some k"
  shows "\<exists>u. acl_htable_delete_entry t a f = Ret (u, c_free f (hi_value e))
    \<and> ht_inv u \<and> ht_map u = (ht_map t)(k := None) \<and> ht_same_cfg t u"
proof -
  let ?S = "set (concat (A @ (X @ Y) # B))"
  have links: "ht_links (ht_heap t) (ht_data t) (A @ (X @ a # Y) # B)" using t by (simp add: ht_rep_def)
  then have a: "a \<notin> ?S" by (auto simp: ht_links_def)
  have all: "set (concat (A @ (X @ a # Y) # B)) = insert a ?S" by auto
  have ka: "hkey (ht_heap t) a = Some k" using e by simp
  have inj: "inj_on (hkey (ht_heap t)) (insert a ?S)" using t unfolding ht_rep_def all by (elim conjE)
  have hash: "hi_hash e = ht_hash_fn t k" "ht_slot t (ht_hash_fn t k) = int (length A)"
    using t e ka by (auto simp: ht_rep_def place_def hcont_def)
  obtain h' d' where d: "acl_htable_delete_entry t a f =
      Ret (t\<lparr>ht_heap := h', ht_data := d', ht_used := ht_used t - 1\<rparr>, c_free f (hi_value e))"
    "ht_links h' d' (A @ (X @ Y) # B)" "hcont h' = (hcont (ht_heap t))(a := None)"
    using delete_entry_links [OF links e(1), of f] hash by auto
  let ?u = "t\<lparr>ht_heap := h', ht_data := d', ht_used := ht_used t - 1\<rparr>"
  have keys: "hkey h' b = hkey (ht_heap t) b" "hval h' b = hval (ht_heap t) b" if "b \<noteq> a" for b
    using that d(3) by (simp_all add: hkey_def hval_def)
  have rep: "ht_rep ?u (A @ (X @ Y) # B)"
  proof -
    have "placed (place ?u h') 0 (A @ (X @ Y) # B) \<longleftrightarrow> placed (place t (ht_heap t)) 0 (A @ (X @ Y) # B)"
    proof (rule placed_cong)
      fix b assume "b \<in> ?S"
      then have "b \<noteq> a" using a by blast
      then show "place ?u h' b = place t (ht_heap t) b" by (simp add: place_def keys(1))
    qed
    moreover have "placed (place t (ht_heap t)) 0 (A @ (X @ Y) # B)" using t by (simp add: ht_rep_def)
    moreover have "inj_on (hkey h') ?S"
      using inj a by (intro inj_onI) (metis inj_onD insertCI keys(1))
    moreover have "\<forall>b \<in> ?S. \<exists>k v. hcont h' b = Some (Some k, v, ht_hash_fn t k)"
      using t a d(3) unfolding ht_rep_def all by auto
    ultimately show ?thesis
      using t d(2,3) unfolding ht_rep_def by (simp del: set_concat)
  qed
  have "ht_map ?u = (ht_map t)(k := None)"
  proof (rule ext)
    fix k'
    have "ht_map ?u k' = Some v \<longleftrightarrow> k' \<noteq> k \<and> ht_map t k' = Some v" for v
      unfolding ht_map_iff [OF rep] ht_map_iff [OF t] all
      by (rule entries_remove [OF inj a ka]) (use keys in simp)
    then have "ht_map ?u k' = Some v \<longleftrightarrow> ((ht_map t)(k := None)) k' = Some v" for v by simp
    then show "ht_map ?u k' = ((ht_map t)(k := None)) k'" by (metis option.exhaust)
  qed
  with d(1) ht_rep_inv [OF rep] show ?thesis by (auto simp: ht_same_cfg_def)
qed

lemma delete_rep:
  assumes "ht_rep t xss" "ht_rwlock t \<noteq> Some True"
  shows "\<exists>u. acl_htable_delete t key f = Ret (u,
      case ht_map t (ht_key t key) of None \<Rightarrow> ([], -1) | Some v \<Rightarrow> (c_free f v, 0))
    \<and> ht_inv u \<and> ht_map u = (ht_map t)(ht_key t key := None) \<and> ht_same_cfg t u"
proof -
  define l where "l = held t"
  note l = lock_ok [OF assms(2), folded l_def]
  from assms(1) show ?thesis
  proof (cases rule: search_cases [where k = "ht_key t key"])
    case (Miss A xs B)
    then have "acl_htable_delete t key f = Ret (t, [], -1)"
      by (simp add: acl_htable_delete_def Let_def l)
    with Miss ht_rep_inv [OF assms(1)] show ?thesis by (auto simp: ht_same_cfg_def fun_upd_idem)
  next
    case (Hit A X a Y B e)
    have rep: "ht_rep (t\<lparr>ht_rwlock := l\<rparr>) (A @ (X @ a # Y) # B)" using assms(1) Hit(1) by simp
    obtain u where u: "acl_htable_delete_entry (t\<lparr>ht_rwlock := l\<rparr>) a f = Ret (u, c_free f (hi_value e))"
      "ht_inv u" "ht_map u = (ht_map t)(ht_key t key := None)" "ht_same_cfg (t\<lparr>ht_rwlock := l\<rparr>) u"
      using delete_entry_rep [OF rep, of e "ht_key t key" f] Hit by auto
    then have "acl_htable_delete t key f = Ret (u\<lparr>ht_rwlock := ht_rwlock t\<rparr>, c_free f (hi_value e), 0)"
      by (simp add: acl_htable_delete_def Let_def l Hit(2,3) ht_same_cfg_def)
    with u Hit(7) show ?thesis by (auto simp: ht_same_cfg_def)
  qed
qed

subsection \<open>Growth\<close>

text \<open>
  While the entries of the old array are moved to the new one, \<open>rest\<close> are those still to come: only
  their next links are used, and moving the others does not change them.
\<close>

lemma link_placed:
  assumes "ht_links (ht_heap t) (ht_data t) xss" "ht_size t = int (length xss)" "xss \<noteq> []"
    "placed (place t (ht_heap t)) 0 xss" "a \<notin> set (concat xss)" "ht_heap t a = Some e" "hi_key e = Some k"
  shows "\<exists>h' d' yss. htable_link t a (ht_slot t (ht_hash_fn t k)) =
      Ret (t\<lparr>ht_heap := h', ht_data := d', ht_used := ht_used t + 1\<rparr>)
    \<and> ht_links h' d' yss \<and> length yss = length xss \<and> set (concat yss) = insert a (set (concat xss))
    \<and> placed (place t h') 0 yss \<and> hcont h' = hcont (ht_heap t)
    \<and> (\<forall>b. b \<notin> insert a (set (concat xss)) \<longrightarrow> h' b = ht_heap t b)"
proof -
  define n where "n = nat (ht_slot t (ht_hash_fn t k))"
  have n: "n < length xss" "ht_slot t (ht_hash_fn t k) = int n"
    using assms(2,3) by (auto simp: n_def ht_slot_def nat_less_iff)
  obtain A xs B where xss: "xss = A @ xs # B" "length A = n"
    using n(1) id_take_nth_drop [of n xss] by (metis length_take min.absorb4)
  obtain h' d' where l: "htable_link t a (int n) = Ret (t\<lparr>ht_heap := h', ht_data := d', ht_used := ht_used t + 1\<rparr>)"
    "ht_links h' d' (A @ (a # xs) # B)" "hcont h' = hcont (ht_heap t)"
    "\<forall>b. b \<notin> set (concat (A @ (a # xs) # B)) \<longrightarrow> h' b = ht_heap t b"
    using link_links [of t A xs B a e] assms(1,5,6) xss by auto
  have "place t h' = place t (ht_heap t)" using hcont_same [OF l(3)] by (simp add: place_def fun_eq_iff)
  moreover have "place t (ht_heap t) a = int n" using assms(6,7) n(2) by (simp add: place_def)
  ultimately show ?thesis
    using l n xss assms(4) by (intro exI [of _ h'] exI [of _ d'] exI [of _ "A @ (a # xs) # B"]) auto
qed

definition ready :: "'v acl_htable \<Rightarrow> nat list list \<Rightarrow> bool" where
  "ready t xss \<longleftrightarrow> ht_links (ht_heap t) (ht_data t) xss \<and> ht_size t = int (length xss) \<and> xss \<noteq> []
     \<and> placed (place t (ht_heap t)) 0 xss"

text \<open>The entries \<open>xs\<close> have been linked into the table, nothing else has changed.\<close>

definition moved :: "'v acl_htable \<Rightarrow> nat list list \<Rightarrow> nat list \<Rightarrow> 'v acl_htable \<Rightarrow> nat list list \<Rightarrow> bool" where
  "moved t xss xs u yss \<longleftrightarrow> ht_same_cfg t u \<and> ht_size u = ht_size t \<and> ht_brk u = ht_brk t
     \<and> ht_status u = ht_status t \<and> ht_used u = ht_used t + int (length xs)
     \<and> ready u yss \<and> set (concat yss) = set xs \<union> set (concat xss)
     \<and> hcont (ht_heap u) = hcont (ht_heap t)
     \<and> (\<forall>b. b \<notin> set xs \<union> set (concat xss) \<longrightarrow> ht_heap u b = ht_heap t b)"

lemma moved_trans: "moved t xss xs u yss \<Longrightarrow> moved u yss ys v zss \<Longrightarrow> moved t xss (xs @ ys) v zss"
  by (auto simp: moved_def ht_same_cfg_def simp del: set_concat)

lemma moved_refl: "ready t xss \<Longrightarrow> moved t xss [] t xss"
  by (simp add: moved_def ht_same_cfg_def)

lemma moved_link:
  assumes "ready t xss" "a \<notin> set (concat xss)" "ht_heap t a = Some e" "hi_key e = Some k"
  shows "\<exists>u yss. htable_link t a (ht_slot t (ht_hash_fn t k)) = Ret u \<and> moved t xss [a] u yss"
proof -
  have r: "ht_links (ht_heap t) (ht_data t) xss" "ht_size t = int (length xss)" "xss \<noteq> []"
    "placed (place t (ht_heap t)) 0 xss" using assms(1) by (auto simp: ready_def)
  obtain h' d' yss where l: "htable_link t a (ht_slot t (ht_hash_fn t k)) =
      Ret (t\<lparr>ht_heap := h', ht_data := d', ht_used := ht_used t + 1\<rparr>)"
    "ht_links h' d' yss" "length yss = length xss" "set (concat yss) = insert a (set (concat xss))"
    "placed (place t h') 0 yss" "hcont h' = hcont (ht_heap t)"
    "\<forall>b. b \<notin> insert a (set (concat xss)) \<longrightarrow> h' b = ht_heap t b"
    using link_placed [OF r assms(2-4)] by blast
  let ?u = "t\<lparr>ht_heap := h', ht_data := d', ht_used := ht_used t + 1\<rparr>"
  have "place ?u h' = place t h'" by (simp add: place_def fun_eq_iff)
  moreover have "yss \<noteq> []" using l(3) r(3) by auto
  ultimately have "moved t xss [a] ?u yss"
    unfolding moved_def ready_def using l r(2)
    by (simp add: ht_same_cfg_def del: set_concat)
  with l(1) show ?thesis by blast
qed

lemma moved_same:
  assumes "moved t xss xs u yss"
  shows "hkey (ht_heap u) = hkey (ht_heap t)" "b \<notin> set xs \<union> set (concat xss) \<Longrightarrow> ht_heap u b = ht_heap t b"
    "ht_brk u = ht_brk t" "ready u yss" "set (concat yss) = set xs \<union> set (concat xss)"
  using assms hcont_same [of "ht_heap u" "ht_heap t"] by (auto simp: moved_def simp del: set_concat)

lemma hkey_SomeE:
  assumes "hkey h a = Some k"
  obtains e where "h a = Some e" "hi_key e = Some k"
  using assms by (auto simp: hkey_def hcont_def bind_eq_Some_conv)

lemma grow_chain_ok:
  assumes "ready t xss" "nseg (knx (ht_heap t)) xs None" "distinct xs" "set xs \<inter> set (concat xss) = {}"
    "\<And>a. a \<in> set xs \<Longrightarrow> hkey (ht_heap t) a \<noteq> None" "length xs < fuel"
  shows "\<exists>u yss. grow_chain fuel t (first_of xs None) = Ret u \<and> moved t xss xs u yss"
  using assms
proof (induction xs arbitrary: t xss fuel)
  case Nil
  then show ?case using moved_refl [of t xss] by (cases fuel) auto
next
  case (Cons a xs)
  then obtain n where n: "fuel = Suc n" "length xs < n" by (cases fuel) auto
  obtain k where "hkey (ht_heap t) a = Some k" using Cons.prems(5) [of a] by auto
  then obtain e where e: "ht_heap t a = Some e" "hi_key e = Some k" by (rule hkey_SomeE)
  have nxt: "hi_next e = first_of xs None" using Cons.prems(2) e by (simp add: knx_def)
  have a: "a \<notin> set (concat xss)" using Cons.prems(4) by (simp del: set_concat)
  obtain u yss where u: "htable_link t a (ht_slot t (ht_hash_fn t k)) = Ret u" "moved t xss [a] u yss"
    using moved_link [OF Cons.prems(1) a e] by blast
  note same = moved_same [OF u(2)]
  have "b \<notin> set [a] \<union> set (concat xss)" if "b \<in> set xs" for b
    using that Cons.prems(3,4) by (auto simp del: set_concat)
  with same(2) have keep: "ht_heap u b = ht_heap t b" if "b \<in> set xs" for b using that by blast
  have "nseg (knx (ht_heap u)) xs None"
    by (rule nseg_cong [of "knx (ht_heap t)"]) (use Cons.prems(2) in simp, simp add: knx_def keep)
  moreover have "set xs \<inter> set (concat yss) = {}"
    unfolding same(5) using Cons.prems(3,4) by (auto simp del: set_concat)
  ultimately obtain v zss where v: "grow_chain n u (first_of xs None) = Ret v" "moved u yss xs v zss"
    using Cons.IH [of u yss n] same(1,4) Cons.prems(3,5) n(2) by auto
  have "moved t xss (a # xs) v zss" using moved_trans [OF u(2) v(2)] by simp
  with n(1) e nxt u(1) v(1) show ?case by auto
qed

lemma grow_all_ok:
  assumes "ready t xss" "\<And>xs. xs \<in> set old \<Longrightarrow> nseg (knx (ht_heap t)) xs None \<and> length xs \<le> ht_brk t"
    "distinct (concat old)" "set (concat old) \<inter> set (concat xss) = {}"
    "\<And>a. a \<in> set (concat old) \<Longrightarrow> hkey (ht_heap t) a \<noteq> None"
  shows "\<exists>u yss. grow_all t (map (\<lambda>xs. first_of xs None) old) = Ret u \<and> moved t xss (concat old) u yss"
  using assms
proof (induction old arbitrary: t xss)
  case Nil
  then show ?case using moved_refl [of t xss] by auto
next
  case (Cons xs old)
  obtain u yss where u: "grow_chain (ht_fuel t) t (first_of xs None) = Ret u" "moved t xss xs u yss"
    using grow_chain_ok [OF Cons.prems(1), of xs "ht_fuel t"] Cons.prems(2) [of xs] Cons.prems(3-5)
    by (auto simp: ht_fuel_def)
  note same = moved_same [OF u(2)]
  have keep: "ht_heap u b = ht_heap t b" if "b \<in> set (concat old)" for b
    using that Cons.prems(3,4) by (intro same(2)) (auto simp del: set_concat)
  have "nseg (knx (ht_heap u)) ys None \<and> length ys \<le> ht_brk u" if "ys \<in> set old" for ys
  proof
    show "nseg (knx (ht_heap u)) ys None"
    proof (rule nseg_cong [of "knx (ht_heap t)"])
      fix b assume "b \<in> set ys"
      with that have "b \<in> set (concat old)" by auto
      then show "knx (ht_heap u) b = knx (ht_heap t) b" by (simp only: knx_def keep)
    qed (use Cons.prems(2) [of ys] that in simp)
    show "length ys \<le> ht_brk u" using Cons.prems(2) [of ys] that same(3) by simp
  qed
  moreover have "set (concat old) \<inter> set (concat yss) = {}"
    unfolding same(5) using Cons.prems(3,4) by (auto simp del: set_concat)
  ultimately obtain v zss where v: "grow_all u (map (\<lambda>xs. first_of xs None) old) = Ret v" "moved u yss (concat old) v zss"
    using Cons.IH [of u yss] same(1,4) Cons.prems(3,5) by auto
  with u(1) moved_trans [OF u(2) v(2)] show ?case by auto
qed

text \<open>An empty array of \<open>n\<close> chains.\<close>

lemma links_empty [simp]: "ht_links h (replicate n None) (replicate n [])"
proof -
  have "list_all2 (bucket_ok h) (replicate n None) (replicate n [])"
    by (induction n) (simp_all add: bucket_ok_def)
  moreover have "concat (replicate n []) = []" by (induction n) simp_all
  ultimately show ?thesis by (simp add: ht_links_def)
qed

lemma concat_empty [simp]: "concat (replicate n []) = []"
  by (induction n) simp_all

lemma odd_size: "(2 * n :: int) OR 1 = 2 * n + 1"
  by (simp add: or_one_eq)

lemma size_ready:
  assumes "0 < n"
  shows "ready (htable_size t n) (replicate (nat (n OR 1)) []) \<and> ht_used (htable_size t n) = 0"
proof -
  have "0 < n OR 1" using assms by (simp add: or_one_eq)
  with assms show ?thesis by (auto simp: ready_def htable_size_def Let_def)
qed

lemma grow_rep:
  assumes "ht_rep t xss"
  shows "\<exists>u yss. htable_grow t = Ret u \<and> ht_rep u yss \<and> ht_map u = ht_map t \<and> ht_same_cfg t u
    \<and> ht_status u = ht_status t \<and> ht_used u = ht_used t \<and> ht_size u = 2 * ht_size t + 1"
proof -
  let ?t = "htable_size t (2 * ht_size t)"
  let ?n = "nat (2 * ht_size t OR 1)"
  have sz: "0 < ht_size t" using assms by (auto simp: ht_rep_def)
  then have ready: "ready ?t (replicate ?n [])" and used: "ht_used ?t = 0" using size_ready [of "2 * ht_size t" t] by auto
  have heads: "ht_data t = map (\<lambda>xs. first_of xs None) xss"
    using assms by (auto simp: ht_rep_def ht_links_def bucket_ok_def list_all2_conv_all_nth intro: nth_equalityI)
  have h: "ht_heap ?t = ht_heap t" "ht_brk ?t = ht_brk t" "ht_same_cfg t ?t" "ht_status ?t = ht_status t"
    "ht_size ?t = 2 * ht_size t + 1"
    by (auto simp: htable_size_def ht_same_cfg_def Let_def odd_size)
  have "nseg (knx (ht_heap ?t)) xs None \<and> length xs \<le> ht_brk ?t" if "xs \<in> set xss" for xs
  proof -
    have "list_all2 (bucket_ok (ht_heap t)) (ht_data t) xss" using assms by (simp add: ht_rep_def ht_links_def)
    then have "dlseg (kpv (ht_heap t)) (knx (ht_heap t)) None xs None"
      using that by (auto simp: bucket_ok_def list_all2_conv_all_nth in_set_conv_nth)
    then show ?thesis unfolding h using ht_rep_length [OF assms that] dlseg_nseg by blast
  qed
  moreover have "hkey (ht_heap ?t) a \<noteq> None" if "a \<in> set (concat xss)" for a
    unfolding h by (rule ht_rep_entry [OF assms that]) simp
  moreover have dist: "distinct (concat xss)" using assms by (simp add: ht_rep_def ht_links_def)
  ultimately obtain u yss where u: "grow_all ?t (map (\<lambda>xs. first_of xs None) xss) = Ret u"
    "moved ?t (replicate ?n []) (concat xss) u yss"
    using grow_all_ok [OF ready, of xss] by auto
  then have m: "ht_same_cfg ?t u" "ht_size u = ht_size ?t" "ht_brk u = ht_brk ?t" "ht_status u = ht_status ?t"
    "ht_used u = int (length (concat xss))" "ready u yss" "set (concat yss) = set (concat xss)"
    "hcont (ht_heap u) = hcont (ht_heap t)"
    by (simp_all add: moved_def used h del: set_concat)
  have len: "length (concat yss) = length (concat xss)"
    using m(6,7) dist distinct_card [of "concat xss"] distinct_card [of "concat yss"]
    by (simp add: ready_def ht_links_def del: set_concat)
  have cfg: "ht_same_cfg t u" using m(1) h(3) by (simp add: ht_same_cfg_def)
  have "ht_used u \<le> ht_size u"
    using m(2,5) h(5) assms by (auto simp: ht_rep_def)
  then have rep: "ht_rep u yss"
    using assms m(3,5-8) len h(2) hcont_same [OF m(8)] cfg
    by (simp add: ht_rep_def ready_def ht_same_cfg_def del: set_concat)
  have "ht_map u = ht_map t"
    by (rule ht_map_eqI [OF assms rep]) (use m(7) hcont_same [OF m(8)] in \<open>simp del: set_concat\<close>)
  moreover have "ht_used t = int (length (concat xss))" using assms by (simp add: ht_rep_def)
  ultimately show ?thesis
    using u(1) rep cfg m(2,4,5) h(4,5) unfolding htable_grow_def heads by auto
qed

subsection \<open>Insertion\<close>

lemma new_entry_rep:
  assumes t: "ht_rep t xss" and k: "ht_map t k = None" "\<not> (flag_key_reuse t \<and> flag_key_lower t)"
    and room: "ht_used t < ht_size t"
  shows "\<exists>u a. (let (t', a) = new_entry t k (ht_hash_fn t k) v in
      map_cres (\<lambda>t. (t, a)) (htable_link t' a (ht_slot t (ht_hash_fn t k)))) = Ret (u, a)
    \<and> ht_inv u \<and> ht_map u = (ht_map t)(k \<mapsto> v) \<and> ht_same_cfg t u \<and> ht_status u = ht_status t
    \<and> ht_used u = ht_used t + 1 \<and> ht_size u = ht_size t \<and> hkey (ht_heap u) a = Some k \<and> hval (ht_heap u) a = v"
proof -
  let ?a = "ht_brk t"
  let ?e = "\<lparr>hi_key = Some k, hi_value = v, hi_hash = ht_hash_fn t k, hi_next = None, hi_prev = None\<rparr>"
  let ?t = "(hi_put t ?a ?e)\<lparr>ht_brk := ?a + 1\<rparr>"
  have new: "new_entry t k (ht_hash_fn t k) v = (?t, ?a)" using k(2) by (cases "flag_key_reuse t") (simp_all add: new_entry_def Let_def)
  have a: "?a \<notin> set (concat xss)" using ht_rep_bound [OF t] by blast
  have old: "hkey (ht_heap ?t) b = hkey (ht_heap t) b" "hval (ht_heap ?t) b = hval (ht_heap t) b"
    "kpv (ht_heap ?t) b = kpv (ht_heap t) b" "knx (ht_heap ?t) b = knx (ht_heap t) b" if "b \<in> set (concat xss)" for b
    using that a by (auto simp: hkey_def hval_def simp del: set_concat)
  have "ready ?t xss"
  proof -
    have "ht_links (ht_heap ?t) (ht_data t) xss"
      using t buckets_cong [of "ht_heap t" "ht_data t" xss "ht_heap ?t"] old(3,4) by (simp add: ht_rep_def ht_links_def)
    moreover have "placed (place ?t (ht_heap ?t)) 0 xss \<longleftrightarrow> placed (place t (ht_heap t)) 0 xss"
      by (rule placed_cong) (simp only: place_def old(1), simp add: hi_put_def ht_slot_def)
    ultimately show ?thesis using t by (simp add: ready_def ht_rep_def)
  qed
  then obtain u yss where u: "htable_link ?t ?a (ht_slot ?t (ht_hash_fn ?t k)) = Ret u" "moved ?t xss [?a] u yss"
    using moved_link [of ?t xss ?a ?e k] a by auto
  have m: "ht_same_cfg t u" "ht_size u = ht_size t" "ht_brk u = ?a + 1" "ht_status u = ht_status t"
    "ht_used u = ht_used t + 1" "ready u yss" "set (concat yss) = insert ?a (set (concat xss))"
    "hcont (ht_heap u) = hcont (ht_heap ?t)"
    using u(2) by (simp_all add: moved_def ht_same_cfg_def hi_put_def del: set_concat)
  note same = hcont_same [OF m(8)]
  have ka: "hkey (ht_heap u) ?a = Some k" "hval (ht_heap u) ?a = v" using same by (simp_all add: hkey_def hval_def)
  have fresh: "hkey (ht_heap t) b \<noteq> Some k" if "b \<in> set (concat xss)" for b
    using k(1) that unfolding ht_map_None [OF t] by blast
  have "inj_on (hkey (ht_heap u)) (insert ?a (set (concat xss)))"
  proof (rule inj_on_insert [THEN iffD2], intro conjI)
    show "inj_on (hkey (ht_heap u)) (set (concat xss))"
      using t old(1) same by (simp add: ht_rep_def inj_on_def del: set_concat)
    show "hkey (ht_heap u) ?a \<notin> hkey (ht_heap u) ` (set (concat xss) - {?a})"
    proof
      assume "hkey (ht_heap u) ?a \<in> hkey (ht_heap u) ` (set (concat xss) - {?a})"
      then obtain b where b: "b \<in> set (concat xss)" "hkey (ht_heap u) ?a = hkey (ht_heap u) b" by blast
      have "hkey (ht_heap u) b = hkey (ht_heap t) b" unfolding same [THEN conjunct1] using b(1) by (rule old(1))
      with ka(1) b fresh [OF b(1)] show False by metis
    qed
  qed
  moreover have "length (concat yss) = length (concat xss) + 1"
    using m(6,7) a t distinct_card [of "concat xss"] distinct_card [of "concat yss"]
    by (simp add: ready_def ht_rep_def ht_links_def del: set_concat)
  ultimately have rep: "ht_rep u yss"
    using t m a room by (auto simp: ht_rep_def ready_def ht_same_cfg_def simp del: set_concat)
  have "ht_map u k' = Some w \<longleftrightarrow> ((ht_map t)(k \<mapsto> v)) k' = Some w" for k' w
    using fresh ka old(1,2) same k(1) ht_map_iff [OF t, of k' w]
    unfolding ht_map_iff [OF rep] m(7) by (cases "k' = k") (auto simp del: set_concat)
  then have "ht_map u = (ht_map t)(k \<mapsto> v)" by (intro ext) (metis option.exhaust)
  with u(1) m ka ht_rep_inv [OF rep] show ?thesis by (simp add: new hi_put_def ht_slot_def)
qed

text \<open>The table is enlarged first when it is full.\<close>

lemma make_room_rep:
  assumes "ht_rep t xss"
  shows "\<exists>u yss. (if ht_used t \<ge> ht_size t then htable_grow t else Ret t) = Ret u \<and> ht_rep u yss
    \<and> ht_map u = ht_map t \<and> ht_same_cfg t u \<and> ht_status u = ht_status t \<and> ht_used u = ht_used t
    \<and> ht_used u < ht_size u"
proof (cases "ht_used t \<ge> ht_size t")
  case True
  moreover have "ht_used t < 2 * ht_size t + 1" using assms by (auto simp: ht_rep_def)
  ultimately show ?thesis using grow_rep [OF assms] by fastforce
next
  case False
  with assms show ?thesis by (auto simp: ht_same_cfg_def)
qed

lemma key_same_cfg: "ht_same_cfg t u \<Longrightarrow> ht_key u k = ht_key t k"
  "ht_same_cfg t u \<Longrightarrow> flag_key_reuse u = flag_key_reuse t"
  "ht_same_cfg t u \<Longrightarrow> flag_key_lower u = flag_key_lower t"
  by (simp_all add: ht_key_def flag_key_lower_def flag_key_reuse_def ht_same_cfg_def)

lemma enter_rep:
  assumes t: "ht_rep t xss" and flags: "\<not> (flag_key_reuse t \<and> flag_key_lower t)"
    and k_def: "k = ht_key t key"
  shows "\<exists>u a. acl_htable_enter t key v = Ret (u, a) \<and> ht_inv u \<and> ht_same_cfg t u
    \<and> hkey (ht_heap u) a = Some k
    \<and> (case ht_map t k of
         None \<Rightarrow> ht_map u = (ht_map t)(k \<mapsto> v) \<and> ht_status u = 0 \<and> ht_used u = ht_used t + 1 \<and> hval (ht_heap u) a = v
       | Some w \<Rightarrow> ht_map u = ht_map t \<and> ht_status u = 2 \<and> ht_used u = ht_used t \<and> hval (ht_heap u) a = w)"
proof -
  let ?t = "t\<lparr>ht_status := 0\<rparr>"
  have "ht_rep ?t xss" using t by simp
  from make_room_rep [OF this] obtain u yss where
    u: "(if ht_used t \<ge> ht_size t then htable_grow ?t else Ret ?t) = Ret u" "ht_rep u yss" "ht_map u = ht_map t"
    "ht_same_cfg ?t u" "ht_status u = 0" "ht_used u = ht_used t" "ht_used u < ht_size u"
    by auto
  have cfg: "ht_same_cfg t u" "ht_hash_fn u = ht_hash_fn t" using u(4) by (simp_all add: ht_same_cfg_def)
  have flags': "\<not> (flag_key_reuse u \<and> flag_key_lower u)" using flags key_same_cfg [OF cfg(1)] by simp
  have key: "ht_key ?t key = k" by (simp add: k_def ht_key_def flag_key_lower_def)
  from u(2) show ?thesis
  proof (cases rule: search_cases [where k = k])
    case (Miss A xs B)
    obtain w a where w: "(let (t, a) = new_entry u k (ht_hash_fn u k) v in
        map_cres (\<lambda>t. (t, a)) (htable_link t a (ht_slot u (ht_hash_fn u k)))) = Ret (w, a)"
      "ht_inv w" "ht_map w = (ht_map u)(k \<mapsto> v)" "ht_same_cfg u w" "ht_status w = ht_status u"
      "ht_used w = ht_used u + 1" "hkey (ht_heap w) a = Some k" "hval (ht_heap w) a = v"
      using new_entry_rep [OF u(2) Miss(4) flags' u(7), of v] by blast
    have "acl_htable_enter t key v = Ret (w, a)"
      using u(1) Miss w(1) by (simp add: acl_htable_enter_def Let_def cfg k_def)
    with w u Miss cfg show ?thesis by (simp add: ht_same_cfg_def)
  next
    case (Hit A X a Y B e)
    then have "acl_htable_enter t key v = Ret (u\<lparr>ht_status := 2\<rparr>, a)"
      using u(1) by (simp add: acl_htable_enter_def Let_def cfg k_def)
    with Hit u cfg ht_rep_inv [OF u(2)] show ?thesis by (auto simp: ht_same_cfg_def)
  qed
qed

lemma entries_update:
  assumes "inj_on key S" "a \<in> S" "key a = Some k"
  shows "(\<exists>b \<in> S. key b = Some k' \<and> (val(a := v)) b = w) \<longleftrightarrow>
    (if k' = k then v = w else (\<exists>b \<in> S. key b = Some k' \<and> val b = w))"
proof -
  have only: "b = a" if "b \<in> S" "key b = Some k" for b
    using inj_on_eq_iff [OF assms(1) that(1) assms(2)] that(2) assms(3) by simp
  show ?thesis
  proof (cases "k' = k")
    case True
    have "(\<exists>b \<in> S. key b = Some k \<and> (val(a := v)) b = w) \<longleftrightarrow> (val(a := v)) a = w"
      using only assms(2,3) by blast
    with True show ?thesis by simp
  next
    case False
    then have "(val(a := v)) b = val b" if "key b = Some k'" for b using that assms(3) by auto
    with False show ?thesis by (simp cong: conj_cong)
  qed
qed

lemma set_value_rep:
  assumes t: "ht_rep t xss" and a: "a \<in> set (concat xss)" "ht_heap t a = Some e" "hi_key e = Some k"
    and u_def: "u = t\<lparr>ht_heap := (ht_heap t)(a \<mapsto> e\<lparr>hi_value := v\<rparr>)\<rparr>"
  shows "ht_rep u xss" "ht_map u = (ht_map t)(k \<mapsto> v)"
proof -
  have key: "hkey (ht_heap u) = hkey (ht_heap t)" and links: "kpv (ht_heap u) = kpv (ht_heap t)" "knx (ht_heap u) = knx (ht_heap t)"
    using a(2) by (auto simp: u_def hkey_def hcont_def kpv_def knx_def fun_eq_iff)
  have val: "hval (ht_heap u) = (hval (ht_heap t))(a := v)"
    by (auto simp: u_def hval_def fun_eq_iff)
  have cont: "hcont (ht_heap u) = (hcont (ht_heap t))(a \<mapsto> (Some k, v, hi_hash e))"
    using a(2,3) by (simp add: u_def)
  have "ht_hash_fn t k = hi_hash e" by (rule ht_rep_entry [OF t a(1)]) (use a in simp)
  moreover have "list_all2 (bucket_ok (ht_heap u)) (ht_data t) xss"
    by (rule buckets_cong [of "ht_heap t"]) (use t links in \<open>simp_all add: ht_rep_def ht_links_def\<close>)
  moreover have "place u (ht_heap u) = place t (ht_heap t)"
    using key by (simp add: place_def fun_eq_iff u_def)
  moreover have "a < ht_brk t" using ht_rep_bound [OF t a(1)] .
  ultimately show rep: "ht_rep u xss"
    using t key cont by (auto simp: ht_rep_def ht_links_def u_def simp del: set_concat)
  have ka: "hkey (ht_heap t) a = Some k" using a by simp
  have "inj_on (hkey (ht_heap t)) (set (concat xss))" using t unfolding ht_rep_def by (elim conjE)
  note upd = entries_update [OF this a(1) ka]
  have "ht_map u k' = Some w \<longleftrightarrow> ((ht_map t)(k \<mapsto> v)) k' = Some w" for k' w
    unfolding ht_map_iff [OF rep] key val upd using ht_map_iff [OF t, of k' w] by simp
  then show "ht_map u = (ht_map t)(k \<mapsto> v)" by (intro ext) (metis option.exhaust)
qed

end
