(* ===== verification/Htable_Walk.thy ===== *)
theory Htable_Walk
  imports Htable_Ops
begin

text \<open>
  The locked insertion of the hash table, the operations that visit every entry - reset, free, the
  iterators, the walk and the list - and the properties of the component.
\<close>

subsection \<open>Insertion under the lock\<close>

lemma enter_r2_rep:
  assumes t: "ht_rep t xss" and flags: "\<not> (flag_key_reuse t \<and> flag_key_lower t)"
    and lock: "ht_rwlock t \<noteq> Some True" and k_def: "k = ht_key t key"
  shows "\<exists>u a. acl_htable_enter_r2 t key v oh = Ret (u, a, if oh then Option.bind (ht_map t k) id else None)
    \<and> ht_inv u \<and> ht_same_cfg t u
    \<and> ht_map u = (if ht_map t k = None \<or> oh then (ht_map t)(k \<mapsto> v) else ht_map t)
    \<and> ht_status u = (if ht_map t k = None then 0 else 2)"
proof -
  define l where "l = held (t\<lparr>ht_status := 0\<rparr>)"
  have lock': "ht_rwlock (t\<lparr>ht_status := 0\<rparr>) \<noteq> Some True" using lock by simp
  note l = lock_ok [OF lock', folded l_def]
  let ?t = "t\<lparr>ht_status := 0, ht_rwlock := l\<rparr>"
  have "ht_rep ?t xss" using t by simp
  from make_room_rep [OF this] obtain u yss where
    u: "(if ht_used t \<ge> ht_size t then htable_grow ?t else Ret ?t) = Ret u" "ht_rep u yss" "ht_map u = ht_map t"
    "ht_same_cfg ?t u" "ht_status u = 0" "ht_used u < ht_size u"
    by auto
  have cfg: "ht_hash_fn u = ht_hash_fn t" "ht_rwlock u = l" using u(4) by (simp_all add: ht_same_cfg_def)
  have flags': "\<not> (flag_key_reuse u \<and> flag_key_lower u)"
    using flags u(4) by (simp add: flag_key_lower_def flag_key_reuse_def ht_same_cfg_def)
  from u(2) show ?thesis
  proof (cases rule: search_cases [where k = k])
    case (Miss A xs B)
    obtain w a where w: "(let (t', a) = new_entry u k (ht_hash_fn u k) v in
        map_cres (\<lambda>t. (t, a)) (htable_link t' a (ht_slot u (ht_hash_fn u k)))) = Ret (w, a)"
      "ht_inv w" "ht_map w = (ht_map u)(k \<mapsto> v)" "ht_same_cfg u w" "ht_status w = ht_status u"
      using new_entry_rep [OF u(2) Miss(4) flags' u(6), of v] by blast
    then have "acl_htable_enter_r2 t key v oh = Ret (w\<lparr>ht_rwlock := ht_rwlock t\<rparr>, a, None)"
      using u(1) Miss by (auto simp: acl_htable_enter_r2_def Let_def l cfg k_def ht_same_cfg_def
          map_cres_def cbind_eq_Ret_iff split: prod.splits)
    with w u Miss show ?thesis by (simp add: ht_same_cfg_def)
  next
    case (Hit A X a Y B e)
    have "a \<in> set (concat yss)" using Hit(1) by simp
    note sv = set_value_rep [OF u(2) this Hit(4,5) refl, of v]
    show ?thesis
    proof (cases oh)
      case True
      let ?w = "u\<lparr>ht_heap := (ht_heap u)(a \<mapsto> e\<lparr>hi_value := v\<rparr>), ht_status := 2, ht_rwlock := ht_rwlock t\<rparr>"
      have "acl_htable_enter_r2 t key v oh = Ret (?w, a, hi_value e)"
        using u(1) Hit True by (simp add: acl_htable_enter_r2_def Let_def l cfg k_def)
      with True Hit(7) sv ht_rep_inv [OF sv(1)] u(3,4) show ?thesis by (auto simp: ht_same_cfg_def)
    next
      case False
      then have "acl_htable_enter_r2 t key v oh = Ret (u\<lparr>ht_status := 2, ht_rwlock := ht_rwlock t\<rparr>, a, None)"
        using u(1) Hit by (simp add: acl_htable_enter_r2_def Let_def l cfg k_def)
      with False Hit(7) ht_rep_inv [OF u(2)] u(3,4) show ?thesis by (auto simp: ht_same_cfg_def)
    qed
  qed
qed

subsection \<open>Releasing every entry\<close>

lemma heads_of_chains:
  assumes "ht_rep t xss"
  shows "ht_data t = map (\<lambda>xs. first_of xs None) xss"
    and "xs \<in> set xss \<Longrightarrow> nseg (knx (ht_heap t)) xs None \<and> length xs \<le> ht_brk t"
proof -
  have l: "list_all2 (bucket_ok (ht_heap t)) (ht_data t) xss" using assms by (simp add: ht_rep_def ht_links_def)
  then show "ht_data t = map (\<lambda>xs. first_of xs None) xss"
    by (auto simp: bucket_ok_def list_all2_conv_all_nth intro: nth_equalityI)
  assume xs: "xs \<in> set xss"
  then have "dlseg (kpv (ht_heap t)) (knx (ht_heap t)) None xs None"
    using l by (auto simp: bucket_ok_def list_all2_conv_all_nth in_set_conv_nth)
  then show "nseg (knx (ht_heap t)) xs None \<and> length xs \<le> ht_brk t"
    using ht_rep_length [OF assms xs] dlseg_nseg by blast
qed

definition without :: "(nat \<Rightarrow> 'v ht_info option) \<Rightarrow> nat list \<Rightarrow> nat \<Rightarrow> 'v ht_info option" where
  "without h xs a = (if a \<in> set xs then None else h a)"

lemma without_simps [simp]:
  "without h [] = h" "(without h xs)(a := None) = without h (a # xs)"
  "without (without h xs) ys = without h (xs @ ys)"
  by (auto simp: without_def fun_eq_iff)

lemma free_chain_ok:
  assumes "nseg (knx (ht_heap t)) xs None" "distinct xs" "length xs < fuel"
  shows "free_chain fuel t f (first_of xs None) =
    Ret (t\<lparr>ht_heap := without (ht_heap t) xs\<rparr>, concat (map (\<lambda>a. c_free f (hval (ht_heap t) a)) xs))"
  using assms
proof (induction xs arbitrary: t fuel)
  case Nil
  then show ?case by (cases fuel; cases t) auto
next
  case (Cons a xs)
  then obtain n where n: "fuel = Suc n" "length xs < n" by (cases fuel) auto
  obtain e where e: "ht_heap t a = Some e" "hi_next e = first_of xs None"
    using Cons.prems(1) by (auto simp: knx_def)
  let ?t = "t\<lparr>ht_heap := (ht_heap t)(a := None)\<rparr>"
  have ns: "nseg (knx (ht_heap ?t)) xs None"
  proof (rule nseg_cong [of "knx (ht_heap t)"])
    show "knx (ht_heap ?t) b = knx (ht_heap t) b" if "b \<in> set xs" for b
      using that Cons.prems(2) by (auto simp: knx_def)
  qed (use Cons.prems(1) in simp)
  then have "free_chain n ?t f (first_of xs None) =
    Ret (?t\<lparr>ht_heap := without (ht_heap ?t) xs\<rparr>, concat (map (\<lambda>a. c_free f (hval (ht_heap ?t) a)) xs))"
    by (rule Cons.IH) (use Cons.prems n in auto)
  moreover have "without (ht_heap ?t) xs = without (ht_heap t) (a # xs)" by (auto simp: without_def fun_eq_iff)
  moreover have "map (\<lambda>a. c_free f (hval (ht_heap ?t) a)) xs = map (\<lambda>a. c_free f (hval (ht_heap t) a)) xs"
    using Cons.prems(2) by (auto simp: hval_def)
  ultimately show ?case using n e by (simp only: free_chain.simps first_of_simps option.case hi_Ret cbind.simps) simp
qed

lemma free_all_ok:
  assumes "\<And>xs. xs \<in> set xss \<Longrightarrow> nseg (knx (ht_heap t)) xs None \<and> length xs \<le> ht_brk t" "distinct (concat xss)"
  shows "free_all t f (map (\<lambda>xs. first_of xs None) xss) =
    Ret (t\<lparr>ht_heap := without (ht_heap t) (concat xss)\<rparr>,
      concat (map (\<lambda>a. c_free f (hval (ht_heap t) a)) (concat xss)))"
  using assms
proof (induction xss arbitrary: t)
  case Nil
  then show ?case by (cases t) simp
next
  case (Cons xs xss)
  let ?t = "t\<lparr>ht_heap := without (ht_heap t) xs\<rparr>"
  have 1: "free_chain (ht_fuel t) t f (first_of xs None) =
    Ret (?t, concat (map (\<lambda>a. c_free f (hval (ht_heap t) a)) xs))"
    using Cons.prems(1) [of xs] Cons.prems(2) by (intro free_chain_ok) (auto simp: ht_fuel_def)
  have same: "ht_heap ?t a = ht_heap t a" if "a \<in> set (concat xss)" for a
    using that Cons.prems(2) by (auto simp: without_def)
  have "nseg (knx (ht_heap ?t)) ys None \<and> length ys \<le> ht_brk ?t" if "ys \<in> set xss" for ys
  proof
    show "nseg (knx (ht_heap ?t)) ys None"
    proof (rule nseg_cong [of "knx (ht_heap t)"])
      fix b assume "b \<in> set ys"
      with that have "b \<in> set (concat xss)" by auto
      then show "knx (ht_heap ?t) b = knx (ht_heap t) b" by (simp only: knx_def same)
    qed (use Cons.prems(1) [of ys] that in simp)
  qed (use Cons.prems(1) [of ys] that in simp)
  then have 2: "free_all ?t f (map (\<lambda>xs. first_of xs None) xss) =
    Ret (?t\<lparr>ht_heap := without (ht_heap ?t) (concat xss)\<rparr>,
      concat (map (\<lambda>a. c_free f (hval (ht_heap ?t) a)) (concat xss)))"
    using Cons.prems(2) by (intro Cons.IH) auto
  have eq: "map (\<lambda>a. c_free f (hval (ht_heap ?t) a)) (concat xss) = map (\<lambda>a. c_free f (hval (ht_heap t) a)) (concat xss)"
    by (rule map_cong [OF refl]) (simp only: hval_def hcont_def same)
  show ?case using 1 2 [unfolded eq] by simp
qed

lemma reset_rep:
  assumes t: "ht_rep t xss" and lock: "ht_rwlock t \<noteq> Some True"
  shows "\<exists>u. acl_htable_reset t f = Ret (u, concat (map (\<lambda>a. c_free f (hval (ht_heap t) a)) (concat xss)))
    \<and> ht_inv u \<and> ht_map u = Map.empty \<and> ht_same_cfg t u \<and> ht_used u = 0
    \<and> (\<forall>a \<in> set (concat xss). ht_heap u a = None)"
proof -
  define l where "l = held t"
  note l = lock_ok [OF lock, folded l_def]
  let ?t = "t\<lparr>ht_rwlock := l\<rparr>" and ?n = "if ht_init_size t < 13 then 13 else ht_init_size t"
  have "distinct (concat xss)" using t by (simp add: ht_rep_def ht_links_def)
  then have fr: "free_all ?t f (ht_data ?t) = Ret (?t\<lparr>ht_heap := without (ht_heap t) (concat xss)\<rparr>,
      concat (map (\<lambda>a. c_free f (hval (ht_heap t) a)) (concat xss)))"
    using free_all_ok [of xss ?t f] heads_of_chains [OF t] by simp
  let ?u = "(htable_size (?t\<lparr>ht_heap := without (ht_heap t) (concat xss)\<rparr>) ?n)\<lparr>ht_rwlock := ht_rwlock t\<rparr>"
  have "acl_htable_reset t f = Ret (?u, concat (map (\<lambda>a. c_free f (hval (ht_heap t) a)) (concat xss)))"
    using fr by (simp add: acl_htable_reset_def l htable_size_def Let_def)
  moreover have u: "ht_rep ?u (replicate (nat (?n OR 1)) [])" and map: "ht_map ?u = Map.empty"
  proof -
    have "0 < ?n OR 1" by (simp add: or_one_eq)
    moreover have "hcont (without (ht_heap t) (concat xss)) a = None" if "a \<ge> ht_brk t" for a
      using t that by (auto simp: ht_rep_def hcont_def without_def)
    ultimately show "ht_rep ?u (replicate (nat (?n OR 1)) [])"
      by (auto simp: ht_rep_def htable_size_def Let_def)
    then show "ht_map ?u = Map.empty" using ht_map_None [of ?u "replicate (nat (?n OR 1)) []"] by auto
  qed
  ultimately show ?thesis
    using ht_rep_inv [OF u] by (auto simp: ht_same_cfg_def htable_size_def without_def Let_def)
qed

lemma free_rep_all:
  assumes t: "ht_rep t xss"
  shows "acl_htable_free t f = Ret (concat (map (\<lambda>a. c_free f (hval (ht_heap t) a)) (concat xss)))"
proof -
  have "distinct (concat xss)" using t by (simp add: ht_rep_def ht_links_def)
  then show ?thesis
    using free_all_ok [of xss t f] heads_of_chains [OF t] by (simp add: acl_htable_free_def)
qed

subsection \<open>Walking\<close>

lemma walk_chain_ok:
  assumes "nseg (knx (ht_heap t)) xs None" "length xs < fuel"
  shows "walk_chain fuel t action arg (first_of xs None) = Ret (fold (\<lambda>a. action (the (ht_heap t a))) xs arg)"
  using assms
proof (induction xs arbitrary: fuel arg)
  case Nil
  then show ?case by (cases fuel) auto
next
  case (Cons a xs)
  then show ?case by (cases fuel) (auto simp: knx_def)
qed

lemma walk_all_ok:
  assumes "\<And>xs. xs \<in> set xss \<Longrightarrow> nseg (knx (ht_heap t)) xs None \<and> length xs \<le> ht_brk t"
  shows "walk_all t action arg (map (\<lambda>xs. first_of xs None) xss) =
    Ret (fold (\<lambda>a. action (the (ht_heap t a))) (concat xss) arg)"
  using assms
proof (induction xss arbitrary: arg)
  case (Cons xs xss)
  have "walk_chain (ht_fuel t) t action arg (first_of xs None) = Ret (fold (\<lambda>a. action (the (ht_heap t a))) xs arg)"
    using Cons.prems [of xs] by (intro walk_chain_ok) (auto simp: ht_fuel_def)
  with Cons show ?case by simp
qed simp

lemma list_chain_ok:
  assumes "nseg (knx (ht_heap t)) xs None" "length xs < fuel" "length xs \<le> length rest"
  shows "list_chain fuel t (pre @ rest, int (length pre)) (first_of xs None) =
    Ret ((pre @ map Some xs) @ drop (length xs) rest, int (length (pre @ map Some xs)))"
  using assms
proof (induction xs arbitrary: fuel pre rest)
  case Nil
  then show ?case by (cases fuel) auto
next
  case (Cons a xs)
  then obtain n r rs e where n: "fuel = Suc n" "rest = r # rs" "ht_heap t a = Some e" "hi_next e = first_of xs None"
    by (cases fuel; cases rest) (auto simp: knx_def)
  have "list_chain n t ((pre @ [Some a]) @ rs, int (length (pre @ [Some a]))) (first_of xs None) =
      Ret (((pre @ [Some a]) @ map Some xs) @ drop (length xs) rs, int (length ((pre @ [Some a]) @ map Some xs)))"
    using Cons.prems n by (intro Cons.IH) auto
  with n show ?case by (simp add: list_update_append ac_simps)
qed

lemma list_all_ok:
  assumes "\<And>xs. xs \<in> set xss \<Longrightarrow> nseg (knx (ht_heap t)) xs None \<and> length xs \<le> ht_brk t"
    "length (concat xss) \<le> length rest"
  shows "list_all_chains t (pre @ rest, int (length pre)) (map (\<lambda>xs. first_of xs None) xss) =
    Ret ((pre @ map Some (concat xss)) @ drop (length (concat xss)) rest, int (length (pre @ map Some (concat xss))))"
  using assms
proof (induction xss arbitrary: pre rest)
  case (Cons xs xss)
  have 1: "list_chain (ht_fuel t) t (pre @ rest, int (length pre)) (first_of xs None) =
    Ret ((pre @ map Some xs) @ drop (length xs) rest, int (length (pre @ map Some xs)))"
    using Cons.prems(1) [of xs] Cons.prems(2) by (intro list_chain_ok) (auto simp: ht_fuel_def)
  have 2: "list_all_chains t ((pre @ map Some xs) @ drop (length xs) rest, int (length (pre @ map Some xs)))
      (map (\<lambda>xs. first_of xs None) xss) =
    Ret (((pre @ map Some xs) @ map Some (concat xss)) @ drop (length (concat xss)) (drop (length xs) rest),
      int (length ((pre @ map Some xs) @ map Some (concat xss))))"
    using Cons.prems by (intro Cons.IH) auto
  show ?case using 2 by (simp only: list.map list_all_chains.simps 1 cbind.simps) (simp add: ac_simps)
qed simp

lemma list_rep:
  assumes "ht_rep t xss"
  shows "acl_htable_list (Some t) = Ret (map Some (concat xss) @ [None])"
proof -
  have "ht_used t = int (length (concat xss))" using assms by (simp add: ht_rep_def)
  then show ?thesis
    using list_all_ok [of xss t "replicate (Suc (length (concat xss))) None" "[]"] heads_of_chains [OF assms]
    by (simp add: acl_htable_list_def nat_add_distrib list_update_append del: replicate_Suc) simp
qed

text \<open>The scans find the next chain that is not empty, in either direction.\<close>

lemma scan_up_cases:
  assumes "d = map (\<lambda>xs. first_of xs None) (A @ B)"
  obtains (End) "concat B = []" "scan_up d (int (length (A @ B))) (int (length A)) = Ret (int (length (A @ B)), None)"
  | (Found) E a ys C where "B = E @ (a # ys) # C" "concat E = []"
      "scan_up d (int (length (A @ B))) (int (length A)) = Ret (int (length (A @ E)), Some a)"
  using assms
proof (induction B arbitrary: A thesis)
  case Nil
  then show ?case by (simp add: scan_up.simps)
next
  case (Cons xs B)
  note found = Cons.prems(2)
  have hd: "rd d (int (length A)) = Ret (first_of xs None)" using Cons.prems(3) by (simp add: nth_append)
  show ?case
  proof (cases xs)
    case Nil
    have step: "scan_up d (int (length (A @ xs # B))) (int (length A)) =
        scan_up d (int (length ((A @ [xs]) @ B))) (int (length (A @ [xs])))"
      using hd Nil by (subst scan_up.simps) (simp add: ac_simps)
    have d: "d = map (\<lambda>xs. first_of xs None) ((A @ [xs]) @ B)" using Cons.prems(3) by simp
    show ?thesis
    proof (rule Cons.IH [OF _ _ d])
      show thesis if "concat B = []" "scan_up d (int (length ((A @ [xs]) @ B))) (int (length (A @ [xs]))) =
          Ret (int (length ((A @ [xs]) @ B)), None)"
        using that step Nil by (intro Cons.prems(1)) simp_all
      show thesis if "B = E @ (a # ys) # C" "concat E = []"
        "scan_up d (int (length ((A @ [xs]) @ B))) (int (length (A @ [xs]))) = Ret (int (length ((A @ [xs]) @ E)), Some a)"
        for E a ys C
        using that step Nil by (intro Cons.prems(2) [of "xs # E" a ys C]) simp_all
    qed
  next
    case (Cons a ys)
    then show ?thesis using hd by (intro found [of "[]" a ys B]) (simp_all add: scan_up.simps)
  qed
qed

lemma scan_down_cases:
  assumes "d = map (\<lambda>xs. first_of xs None) (rev (A @ B))"
  obtains (End) "concat B = []" "scan_down d (int (length B) - 1) = Ret (-1, None)"
  | (Found) E a ys C where "B = E @ (a # ys) # C" "concat E = []"
      "scan_down d (int (length B) - 1) = Ret (int (length C), Some a)"
  using assms
proof (induction B arbitrary: A thesis)
  case Nil
  then show ?case by (simp add: scan_down.simps)
next
  case (Cons xs B)
  note found = Cons.prems(2)
  have hd: "rd d (int (length B)) = Ret (first_of xs None)" using Cons.prems(3) by (simp add: nth_append)
  show ?case
  proof (cases xs)
    case Nil
    have step: "scan_down d (int (length (xs # B)) - 1) = scan_down d (int (length B) - 1)"
      using hd Nil by (subst scan_down.simps) simp
    have d: "d = map (\<lambda>xs. first_of xs None) (rev ((A @ [xs]) @ B))" using Cons.prems(3) by simp
    show ?thesis
    proof (rule Cons.IH [OF _ _ d])
      show thesis if "concat B = []" "scan_down d (int (length B) - 1) = Ret (-1, None)"
        using that step Nil by (intro Cons.prems(1)) simp_all
      show thesis if "B = E @ (a # ys) # C" "concat E = []" "scan_down d (int (length B) - 1) = Ret (int (length C), Some a)"
        for E a ys C
        using that step Nil by (intro Cons.prems(2) [of "xs # E" a ys C]) simp_all
    qed
  next
    case (Cons a ys)
    then show ?thesis using hd by (intro found [of "[]" a ys B]) (simp_all add: scan_down.simps)
  qed
qed

subsection \<open>Iterators\<close>

text \<open>
  A table without null values. The iterators go through the chains \<open>R\<close>, the buckets in ascending or
  descending order, each chain from its front; \<open>idx\<close> gives the bucket index of a chain from the
  chains before and behind it.
\<close>

definition ht_full :: "'v acl_htable \<Rightarrow> bool" where
  "ht_full t \<longleftrightarrow> ht_inv t \<and> (\<forall>a \<in> set (concat (ht_buckets t)). hval (ht_heap t) a \<noteq> None)"

definition ht_stands ::
    "nat list list \<Rightarrow> (nat list list \<Rightarrow> nat list list \<Rightarrow> int) \<Rightarrow> 'v acl_htable \<Rightarrow> nat \<Rightarrow> (nat, 'v) acl_iter \<Rightarrow> bool" where
  "ht_stands R idx t k it \<longleftrightarrow> it_size it = ht_size t \<and>
     (if k < length (concat R) then
        \<exists>A X a Y B. R = A @ (X @ a # Y) # B \<and> k = length (concat A @ X) \<and> it_i it = idx A B
          \<and> it_ptr it = Some a \<and> it_data it = hval (ht_heap t) a \<and> it_key it = hkey (ht_heap t) a
      else it_ptr it = None)"

definition idx_up :: "nat list list \<Rightarrow> nat list list \<Rightarrow> int" where
  "idx_up A B = int (length A)"

definition idx_down :: "nat list list \<Rightarrow> nat list list \<Rightarrow> int" where
  "idx_down A B = int (length B)"

lemma ht_standsI:
  assumes "R = A @ (X @ a # Y) # B" "k = length (concat A @ X)" "it_i it = idx A B" "it_size it = ht_size t"
    "it_ptr it = Some a" "it_data it = hval (ht_heap t) a" "it_key it = hkey (ht_heap t) a"
  shows "ht_stands R idx t k it"
proof -
  have "k < length (concat R)" using assms(1,2) by simp
  then show ?thesis unfolding ht_stands_def using assms by auto
qed

lemma iter_at_node:
  "ht_heap t a = Some e \<Longrightarrow>
   iter_at t it (Some a) = Ret (it\<lparr>it_ptr := Some a, it_data := hval (ht_heap t) a, it_key := hkey (ht_heap t) a\<rparr>)"
  by (simp add: iter_at_def)

lemma live_values:
  assumes "ht_full t" "set (concat R) = set (concat (ht_buckets t))"
  defines "vs \<equiv> map (hval (ht_heap t)) (concat R)"
  shows "map Some (live vs) = vs" "length (live vs) = length (concat R)"
proof -
  have "None \<notin> set vs" using assms by (fastforce simp: ht_full_def vs_def simp del: set_concat)
  then show "map Some (live vs) = vs" by (rule live_full)
  from arg_cong [OF this, of length] show "length (live vs) = length (concat R)" by (simp add: vs_def)
qed

text \<open>The node an iterator stands at, and the next one in its chain.\<close>

lemma stands_node:
  assumes "ht_full t" "set R = set (ht_buckets t)" "R = A @ (X @ a # Y) # B"
  obtains e where "ht_heap t a = Some e" "hi_next e = first_of Y None"
proof -
  have rep: "ht_rep t (ht_buckets t)" using assms(1) by (simp add: ht_full_def ht_inv_def)
  have "X @ a # Y \<in> set (ht_buckets t)" using assms(2,3) by auto
  then have "nseg (knx (ht_heap t)) (X @ a # Y) None" using heads_of_chains(2) [OF rep] by blast
  then have "knx (ht_heap t) a = Some (first_of Y None)" by (induction X) auto
  with that show ?thesis by (auto simp: knx_def)
qed

text \<open>One step of an iterator whose scan, after the chain, finds the next chain that is not empty.\<close>

lemma stands_step:
  assumes t: "ht_full t" "set R = set (ht_buckets t)" and k: "ht_stands R idx t k it" "k < length (concat R)"
    and next_def: "\<And>it. next it = cbind (iter_chain t (it_ptr it)) (\<lambda>p.
        if p \<noteq> None then iter_at t it p else cbind (scan it) (\<lambda>(i, p). iter_at t (it\<lparr>it_i := i\<rparr>) p))"
    and scan: "\<And>A xs B. R = A @ xs # B \<Longrightarrow> it_i it = idx A B \<Longrightarrow>
        (concat B = [] \<and> (\<exists>i. scan it = Ret (i, None)))
        \<or> (\<exists>E a ys C. B = E @ (a # ys) # C \<and> concat E = [] \<and> scan it = Ret (idx (A @ xs # E) C, Some a))"
  shows "\<exists>it'. next it = Ret it' \<and> ht_stands R idx t (Suc k) it'"
proof -
  obtain A X a Y B where s: "R = A @ (X @ a # Y) # B" "k = length (concat A @ X)" "it_i it = idx A B"
    "it_ptr it = Some a" "it_size it = ht_size t"
    using k by (auto simp: ht_stands_def)
  obtain e where e: "ht_heap t a = Some e" "hi_next e = first_of Y None"
    using stands_node [OF t s(1)] by blast
  have chain: "iter_chain t (it_ptr it) = Ret (first_of Y None)" using e s(4) by (simp add: iter_chain_def)
  show ?thesis
  proof (cases Y)
    case (Cons b Y')
    have split: "R = A @ ((X @ [a]) @ b # Y') # B" using s(1) Cons by simp
    obtain f where "ht_heap t b = Some f" using stands_node [OF t split] by blast
    then have "next it = Ret (it\<lparr>it_ptr := Some b, it_data := hval (ht_heap t) b, it_key := hkey (ht_heap t) b\<rparr>)"
      using chain Cons by (simp add: next_def iter_at_node)
    then show ?thesis
      using s(2,3,5) by (auto intro!: ht_standsI [OF split])
  next
    case Nil
    have len: "length (concat R) = Suc k + length (concat B)" using s(1,2) Nil by simp
    from scan [OF s(1,3)] show ?thesis
    proof (elim disjE conjE exE)
      fix i assume "concat B = []" "scan it = Ret (i, None)"
      with chain Nil have "next it = Ret (it\<lparr>it_i := i, it_ptr := None, it_data := None, it_key := None\<rparr>)"
        by (simp add: next_def iter_at_def)
      with len \<open>concat B = []\<close> s(5) show ?thesis by (simp add: ht_stands_def)
    next
      fix E b ys C assume *: "B = E @ (b # ys) # C" "concat E = []" "scan it = Ret (idx (A @ (X @ a # Y) # E) C, Some b)"
      have split: "R = (A @ (X @ a # Y) # E) @ ([] @ b # ys) # C" using s(1) *(1) by simp
      obtain f where "ht_heap t b = Some f" using stands_node [OF t split] by blast
      then have "next it = Ret (it\<lparr>it_i := idx (A @ (X @ a # Y) # E) C, it_ptr := Some b,
          it_data := hval (ht_heap t) b, it_key := hkey (ht_heap t) b\<rparr>)"
        using chain Nil *(3) by (simp add: next_def iter_at_node)
      then show ?thesis
        using s(2,5) Nil *(2) by (auto intro!: ht_standsI [OF split])
    qed
  qed
qed

lemma stands_head:
  assumes t: "ht_full t" "set R = set (ht_buckets t)"
    and scan: "(concat R = [] \<and> (\<exists>i. scan = Ret (i, None)))
        \<or> (\<exists>E a ys C. R = E @ (a # ys) # C \<and> concat E = [] \<and> scan = Ret (idx E C, Some a))"
  shows "\<exists>it. cbind scan (\<lambda>(i, p). iter_at t \<lparr>it_ptr = None, it_data = None, it_dlen = -1, it_key = None,
      it_klen = -1, it_i = i, it_size = ht_size t\<rparr> p) = Ret it \<and> ht_stands R idx t 0 it"
  using scan
proof (elim disjE conjE exE)
  fix i assume "concat R = []" "scan = Ret (i, None)"
  then show ?thesis by (simp add: iter_at_def ht_stands_def)
next
  fix E a ys C assume *: "R = E @ (a # ys) # C" "concat E = []" "scan = Ret (idx E C, Some a)"
  then have split: "R = E @ ([] @ a # ys) # C" by simp
  obtain e where "ht_heap t a = Some e" using stands_node [OF t split] by blast
  with *(2,3) show ?thesis by (auto simp: iter_at_node intro!: ht_standsI [OF split])
qed

lemma scan_up_found:
  assumes "d = map (\<lambda>xs. first_of xs None) (A @ B)"
  shows "(concat B = [] \<and> (\<exists>i. scan_up d (int (length (A @ B))) (int (length A)) = Ret (i, None)))
    \<or> (\<exists>E a ys C. B = E @ (a # ys) # C \<and> concat E = []
         \<and> scan_up d (int (length (A @ B))) (int (length A)) = Ret (idx_up (A @ E) C, Some a))"
  by (rule scan_up_cases [OF assms]) (fastforce simp: idx_up_def)+

lemma scan_down_found:
  assumes "d = map (\<lambda>xs. first_of xs None) (rev (A @ B))"
  shows "(concat B = [] \<and> (\<exists>i. scan_down d (int (length B) - 1) = Ret (i, None)))
    \<or> (\<exists>E a ys C. B = E @ (a # ys) # C \<and> concat E = []
         \<and> scan_down d (int (length B) - 1) = Ret (idx_down (A @ E) C, Some a))"
  by (rule scan_down_cases [OF assms]) (fastforce simp: idx_down_def)+

definition ht_values :: "'v acl_htable \<Rightarrow> nat list list \<Rightarrow> 'v option list" where
  "ht_values t R = map (hval (ht_heap t)) (concat R)"

lemma ht_full_rep:
  assumes "ht_full t"
  shows "ht_rep t (ht_buckets t)" "ht_data t = map (\<lambda>xs. first_of xs None) (ht_buckets t)"
    "ht_size t = int (length (ht_buckets t))"
  using assms heads_of_chains(1) [of t "ht_buckets t"] by (auto simp: ht_full_def ht_inv_def ht_rep_def)

lemma stands_elem:
  assumes "ht_full t" "set (concat R) = set (concat (ht_buckets t))" "ht_stands R idx t k it"
    "k < length (live (ht_values t R))"
  shows "it_ptr it \<noteq> None \<and> it_data it = Some (live (ht_values t R) ! k)"
proof -
  have k: "k < length (concat R)" using assms(4) live_values(2) [OF assms(1,2)] by (simp add: ht_values_def)
  then obtain A X a Y B where s: "R = A @ (X @ a # Y) # B" "k = length (concat A @ X)" "it_ptr it = Some a"
    "it_data it = hval (ht_heap t) a"
    using assms(3) by (auto simp: ht_stands_def)
  have "ht_values t R ! k = hval (ht_heap t) (concat R ! k)" using k by (simp add: ht_values_def)
  also have "concat R ! k = a" using s(1,2) by (simp add: nth_append)
  finally have "map Some (live (ht_values t R)) ! k = it_data it"
    using live_values(1) [OF assms(1,2)] s(4) by (simp add: ht_values_def)
  with assms(4) s(3) show ?thesis by simp
qed

interpretation htf: acl_iterable htable_iter_head htable_iter_next "\<lambda>t. live (ht_values t (ht_buckets t))" ht_full
  "\<lambda>t. ht_stands (ht_buckets t) idx_up t"
proof
  fix t :: "'v acl_htable" and k it assume t: "ht_full t"
  note rep = ht_full_rep [OF t]
  have len: "length (live (ht_values t (ht_buckets t))) = length (concat (ht_buckets t))"
    using live_values(2) [OF t refl] by (simp add: ht_values_def)
  show "\<exists>it. htable_iter_head t = Ret it \<and> ht_stands (ht_buckets t) idx_up t 0 it"
    unfolding htable_iter_head_def rep(3)
    using stands_head [OF t refl, of "scan_up (ht_data t) (int (length (ht_buckets t))) 0" idx_up]
      scan_up_found [of "ht_data t" "[]" "ht_buckets t"] rep(2,3) by simp
  show "it_ptr it = None" if "ht_stands (ht_buckets t) idx_up t (length (live (ht_values t (ht_buckets t)))) it"
    using that by (simp add: ht_stands_def len)
  assume k: "ht_stands (ht_buckets t) idx_up t k it" "k < length (live (ht_values t (ht_buckets t)))"
  show "it_ptr it \<noteq> None \<and> it_data it = Some (live (ht_values t (ht_buckets t)) ! k)"
    using stands_elem [OF t refl k] .
  have sz: "it_size it = int (length (ht_buckets t))" using k(1) rep(3) by (simp add: ht_stands_def)
  show "\<exists>it'. htable_iter_next it t = Ret it' \<and> ht_stands (ht_buckets t) idx_up t (Suc k) it'"
  proof (rule stands_step [OF t refl k(1), where scan = "\<lambda>it. scan_up (ht_data t) (it_size it) (it_i it + 1)"])
    show "k < length (concat (ht_buckets t))" using k(2) len by simp
    fix A xs B assume *: "ht_buckets t = A @ xs # B" "it_i it = idx_up A B"
    then show "(concat B = [] \<and> (\<exists>i. scan_up (ht_data t) (it_size it) (it_i it + 1) = Ret (i, None)))
        \<or> (\<exists>E a ys C. B = E @ (a # ys) # C \<and> concat E = []
          \<and> scan_up (ht_data t) (it_size it) (it_i it + 1) = Ret (idx_up (A @ xs # E) C, Some a))"
      using scan_up_found [of "ht_data t" "A @ [xs]" B] rep(2) sz by (simp add: idx_up_def ac_simps)
  qed (simp add: htable_iter_next_def)
qed

interpretation htr: acl_iterable htable_iter_tail htable_iter_prev "\<lambda>t. live (ht_values t (rev (ht_buckets t)))" ht_full
  "\<lambda>t. ht_stands (rev (ht_buckets t)) idx_down t"
proof
  fix t :: "'v acl_htable" and k it assume t: "ht_full t"
  note rep = ht_full_rep [OF t]
  let ?R = "rev (ht_buckets t)"
  have R: "set ?R = set (ht_buckets t)" "set (concat ?R) = set (concat (ht_buckets t))" by auto
  have len: "length (live (ht_values t ?R)) = length (concat ?R)"
    using live_values(2) [OF t R(2)] by (simp add: ht_values_def)
  show "\<exists>it. htable_iter_tail t = Ret it \<and> ht_stands ?R idx_down t 0 it"
    unfolding htable_iter_tail_def rep(3)
    using stands_head [OF t R(1), of "scan_down (ht_data t) (int (length (ht_buckets t)) - 1)" idx_down]
      scan_down_found [of "ht_data t" "[]" ?R] rep(2,3) by simp
  show "it_ptr it = None" if "ht_stands ?R idx_down t (length (live (ht_values t ?R))) it"
    using that by (simp add: ht_stands_def len)
  assume k: "ht_stands ?R idx_down t k it" "k < length (live (ht_values t ?R))"
  show "it_ptr it \<noteq> None \<and> it_data it = Some (live (ht_values t ?R) ! k)"
    using stands_elem [OF t R(2) k] .
  show "\<exists>it'. htable_iter_prev it t = Ret it' \<and> ht_stands ?R idx_down t (Suc k) it'"
  proof (rule stands_step [OF t R(1) k(1), where scan = "\<lambda>it. scan_down (ht_data t) (it_i it - 1)"])
    show "k < length (concat ?R)" using k(2) len by simp
    fix A xs B assume *: "?R = A @ xs # B" "it_i it = idx_down A B"
    then have "ht_buckets t = rev ((A @ [xs]) @ B)" by (metis append.assoc append_Cons append_Nil rev_rev_ident)
    with * show "(concat B = [] \<and> (\<exists>i. scan_down (ht_data t) (it_i it - 1) = Ret (i, None)))
        \<or> (\<exists>E a ys C. B = E @ (a # ys) # C \<and> concat E = []
          \<and> scan_down (ht_data t) (it_i it - 1) = Ret (idx_down (A @ xs # E) C, Some a))"
      using scan_down_found [of "ht_data t" "A @ [xs]" B] rep(2) by (simp add: idx_down_def)
  qed (simp add: htable_iter_prev_def)
qed

subsection \<open>The table as a map\<close>

definition ht_put :: "'v acl_htable \<Rightarrow> byte list \<times> 'v option \<Rightarrow> 'v acl_htable cres" where
  "ht_put t kv = map_cres fst (acl_htable_enter_r2 t (fst kv) (snd kv) True)"

definition ht_del :: "'v acl_htable \<Rightarrow> byte list \<Rightarrow> 'v acl_htable cres" where
  "ht_del t key = map_cres fst (acl_htable_delete t key False)"

text \<open>What a client sees: an entry with a null value is no different from no entry.\<close>

definition ht_view :: "'v acl_htable \<Rightarrow> byte list \<Rightarrow> 'v option" where
  "ht_view t k = Option.bind (ht_map t k) id"

text \<open>
  A table a client may use: consistent, its lock not held, and not both sharing the keys of its
  callers and converting them to lower case.
\<close>

definition ht_usable :: "'v acl_htable \<Rightarrow> bool" where
  "ht_usable t \<longleftrightarrow> ht_inv t \<and> ht_rwlock t \<noteq> Some True \<and> \<not> (flag_key_reuse t \<and> flag_key_lower t)"

lemma ht_usableD:
  assumes "ht_usable t"
  shows "ht_rep t (ht_buckets t)" "ht_rwlock t \<noteq> Some True" "\<not> (flag_key_reuse t \<and> flag_key_lower t)"
  using assms by (auto simp: ht_usable_def ht_inv_def)

lemma ht_usable_cfg: "ht_usable t \<Longrightarrow> ht_same_cfg t u \<Longrightarrow> ht_inv u \<Longrightarrow> ht_usable u \<and> ht_key u = ht_key t"
  by (auto simp: ht_usable_def ht_same_cfg_def flag_key_reuse_def flag_key_lower_def ht_key_def fun_eq_iff)

interpretation ht: acl_map ht_put ht_del acl_htable_find_r ht_key ht_view ht_usable
proof
  fix t :: "'v acl_htable" and k :: "byte list" and v :: "'v option"
  assume t: "ht_usable t"
  note u = ht_usableD [OF t]
  show "\<exists>u. ht_put t (k, v) = Ret u \<and> ht_usable u \<and> ht_key u = ht_key t \<and> ht_view u = (ht_view t)(ht_key t k := v)"
    using enter_r2_rep [OF u(1,3,2) refl, of k v True] ht_usable_cfg [OF t]
    by (fastforce simp: ht_put_def ht_view_def)
  show "\<exists>u. ht_del t k = Ret u \<and> ht_usable u \<and> ht_key u = ht_key t \<and> ht_view u = (ht_view t)(ht_key t k := None)"
    using delete_rep [OF u(1,2), of k False] ht_usable_cfg [OF t]
    by (fastforce simp: ht_del_def ht_view_def split: option.splits)
  show "\<exists>u. acl_htable_find_r t k = Ret (u, ht_view t (ht_key t k)) \<and> ht_usable u \<and> ht_key u = ht_key t \<and> ht_view u = ht_view t"
    using find_r_rep [OF u(1,2), of k] ht_usable_cfg [OF t] by (fastforce simp: ht_view_def)
qed

lemma create_rep:
  assumes "t = (acl_htable_create n flag :: 'v acl_htable)"
  shows "ht_inv t" "ht_map t = Map.empty" "ht_rwlock t \<noteq> Some True" "ht_flag t = flag" "ht_used t = 0"
proof -
  let ?n = "if n < 13 then 13 else n"
  have "0 < ?n OR 1" by (simp add: or_one_eq)
  then have rep: "ht_rep t (replicate (nat (?n OR 1)) [])"
    by (auto simp: assms ht_rep_def acl_htable_create_def htable_size_def init_table_rwlock_def Let_def hcont_def)
  then show "ht_map t = Map.empty" using ht_map_None [OF rep] by auto
  show "ht_inv t" using ht_rep_inv [OF rep] by blast
  show "ht_rwlock t \<noteq> Some True" "ht_flag t = flag" "ht_used t = 0"
    by (auto simp: assms acl_htable_create_def htable_size_def init_table_rwlock_def Let_def)
qed

lemma create_usable:
  assumes "t = (acl_htable_create n flag :: 'v acl_htable)" "\<not> (bit flag 0 \<and> bit flag 3)"
  shows "ht_usable t" "ht_view t = (\<lambda>_. None)"
  using create_rep [OF assms(1)] assms(2)
  by (auto simp: ht_usable_def ht_view_def flag_key_reuse_def flag_key_lower_def)

subsection \<open>Properties\<close>

text \<open>A table with one entry, made by the code, with the lock and the move-to-front option.\<close>

definition demo_table :: "nat acl_htable" where
  "demo_table = (case acl_htable_enter (acl_htable_create 5 14) (bytes_of ''Key'') (Some 7) of Ret (t, _) \<Rightarrow> t)"

lemma demo_table: "ht_usable demo_table" "ht_map demo_table = [bytes_of ''key'' \<mapsto> Some 7]" "flag_key_lower demo_table"
proof -
  let ?t = "acl_htable_create 5 14 :: nat acl_htable"
  have t: "ht_usable ?t" "ht_map ?t = Map.empty" "flag_key_lower ?t"
    using create_usable(1) [of ?t 5 14] create_rep(2,4) [of ?t 5 14]
    by (simp_all add: flag_key_lower_def bit_iff_odd)
  have k: "ht_key ?t (bytes_of ''Key'') = bytes_of ''key''"
    using t(3) by (simp add: ht_key_def to_lower_def is_upper_def)
  obtain u a where u: "acl_htable_enter ?t (bytes_of ''Key'') (Some 7) = Ret (u, a)" "ht_inv u" "ht_same_cfg ?t u"
    "ht_map u = [bytes_of ''key'' \<mapsto> Some 7]"
    using enter_rep [OF ht_usableD(1,3) [OF t(1)] refl, of "bytes_of ''Key''" "Some 7"] t(2) k by auto
  then have "demo_table = u" by (simp add: demo_table_def)
  with u ht_usable_cfg [OF t(1) u(3,2)] t(3) show "ht_usable demo_table" "ht_map demo_table = [bytes_of ''key'' \<mapsto> Some 7]"
    "flag_key_lower demo_table"
    by (simp_all add: flag_key_lower_def ht_same_cfg_def)
qed

text \<open>
  Lookups. On a consistent table \<open>acl_htable_find\<close>, \<open>acl_htable_find_r\<close> and \<open>acl_htable_locate_r\<close>
  answer the value stored under the key, folded to lower case where the table asks for it, and the
  null pointer where there is none. Moving the entry found to the front of its chain keeps the table
  consistent and its map unchanged, and the lock is free again on every path.
\<close>

theorem htable_lookup:
  assumes "ht_inv t" "ht_rwlock t \<noteq> Some True"
  shows "(\<exists>u. acl_htable_find t key = Ret (u, Option.bind (ht_map t (ht_key t key)) id)
        \<and> ht_inv u \<and> ht_map u = ht_map t)
    \<and> (\<exists>u. acl_htable_find_r t key = Ret (u, Option.bind (ht_map t (ht_key t key)) id)
        \<and> ht_inv u \<and> ht_map u = ht_map t \<and> ht_rwlock u = ht_rwlock t)
    \<and> (\<exists>p. acl_htable_locate_r t key = Ret (t, p)
        \<and> ht_map t (ht_key t key) = (case p of None \<Rightarrow> None | Some a \<Rightarrow> map_option hi_value (ht_heap t a)))"
proof -
  have rep: "ht_rep t (ht_buckets t)" using assms(1) by (simp add: ht_inv_def)
  show ?thesis
    using find_rep [OF rep, of key] find_r_rep [OF rep assms(2), of key] locate_r_rep [OF rep assms(2), of key]
    by (fastforce simp: ht_same_cfg_def split: option.splits)
qed

theorem htable_lookup_witness:
  "\<exists>u. acl_htable_find_r demo_table (bytes_of ''KEY'') = Ret (u, Some 7) \<and> ht_inv u"
proof -
  have "ht_key demo_table (bytes_of ''KEY'') = bytes_of ''key''"
    using demo_table(3) by (simp add: ht_key_def to_lower_def is_upper_def)
  then show ?thesis
    using htable_lookup [of demo_table "bytes_of ''KEY''"] demo_table(1,2) by (auto simp: ht_usable_def)
qed

text \<open>
  \<open>acl_htable_enter\<close> adds a new key and leaves an existing one alone: it returns the entry of the
  key, sets the status to OK or to "duplicate key" accordingly, enlarges a full table first, and
  keeps every other key, the load factor and the order of the links.
\<close>

theorem htable_enter_spec:
  assumes "ht_inv t" "\<not> (flag_key_reuse t \<and> flag_key_lower t)"
  shows "\<exists>u a. acl_htable_enter t key v = Ret (u, a) \<and> ht_inv u \<and> hkey (ht_heap u) a = Some (ht_key t key)
    \<and> (case ht_map t (ht_key t key) of
         None \<Rightarrow> ht_map u = (ht_map t)(ht_key t key \<mapsto> v) \<and> ht_status u = 0 \<and> ht_used u = ht_used t + 1
           \<and> hval (ht_heap u) a = v
       | Some w \<Rightarrow> ht_map u = ht_map t \<and> ht_status u = 2 \<and> ht_used u = ht_used t \<and> hval (ht_heap u) a = w)"
  using enter_rep [OF _ assms(2) refl, of "ht_buckets t" key v] assms(1) by (auto simp: ht_inv_def)

theorem htable_enter_spec_witness:
  "\<exists>u a. acl_htable_enter demo_table (bytes_of ''kEy'') (Some 9) = Ret (u, a) \<and> ht_status u = 2
     \<and> ht_map u = [bytes_of ''key'' \<mapsto> Some 7]"
proof -
  have "ht_key demo_table (bytes_of ''kEy'') = bytes_of ''key''"
    using demo_table(3) by (simp add: ht_key_def to_lower_def is_upper_def)
  then show ?thesis
    using htable_enter_spec [of demo_table "bytes_of ''kEy''" "Some 9"] demo_table(1,2)
    by (auto simp: ht_usable_def)
qed

text \<open>
  \<open>acl_htable_enter_r2\<close> stores under the lock: a new key is added, an existing one gets the new
  value when the caller takes the old one back and keeps its value otherwise; the old value is
  handed to the caller and the lock is released.
\<close>

theorem htable_enter_r2_spec:
  assumes "ht_inv t" "\<not> (flag_key_reuse t \<and> flag_key_lower t)" "ht_rwlock t \<noteq> Some True"
  defines "m \<equiv> ht_map t"
  shows "\<exists>u a. acl_htable_enter_r2 t key v old_holder =
      Ret (u, a, if old_holder then Option.bind (m (ht_key t key)) id else None)
    \<and> ht_inv u \<and> ht_rwlock u = ht_rwlock t
    \<and> ht_map u = (if m (ht_key t key) = None \<or> old_holder then m(ht_key t key \<mapsto> v) else m)"
  using enter_r2_rep [OF _ assms(2,3) refl, of "ht_buckets t" key v old_holder] assms(1)
  by (auto simp: ht_inv_def ht_same_cfg_def m_def simp del: fun_upd_apply)

theorem htable_enter_r2_spec_witness:
  "\<exists>u a. acl_htable_enter_r2 demo_table (bytes_of ''key'') (Some 9) True = Ret (u, a, Some 7)
     \<and> ht_map u = [bytes_of ''key'' \<mapsto> Some 9]"
proof -
  have "ht_key demo_table (bytes_of ''key'') = bytes_of ''key''"
    using demo_table(3) by (simp add: ht_key_def to_lower_def is_upper_def)
  then show ?thesis
    using htable_enter_r2_spec [of demo_table "bytes_of ''key''" "Some 9" True] demo_table(1,2)
    by (auto simp: ht_usable_def)
qed

text \<open>
  C2: \<open>acl_htable_delete\<close> removes exactly the entry of the key, hands its value to the callback once,
  returns 0 or, where there is no such key, -1, and releases the lock.
\<close>

theorem htable_delete_spec:
  assumes "ht_inv t" "ht_rwlock t \<noteq> Some True"
  shows "\<exists>u. acl_htable_delete t key f = Ret (u,
      case ht_map t (ht_key t key) of None \<Rightarrow> ([], -1) | Some v \<Rightarrow> (c_free f v, 0))
    \<and> ht_inv u \<and> ht_map u = (ht_map t)(ht_key t key := None) \<and> ht_rwlock u = ht_rwlock t"
  using delete_rep [OF _ assms(2), of "ht_buckets t" key f] assms(1) by (auto simp: ht_inv_def ht_same_cfg_def)

theorem htable_delete_spec_witness:
  "\<exists>u. acl_htable_delete demo_table (bytes_of ''key'') True = Ret (u, [7], 0) \<and> ht_map u = Map.empty"
proof -
  have "ht_key demo_table (bytes_of ''key'') = bytes_of ''key''"
    using demo_table(3) by (simp add: ht_key_def to_lower_def is_upper_def)
  then show ?thesis
    using htable_delete_spec [of demo_table "bytes_of ''key''" True] demo_table(1,2) by (auto simp: ht_usable_def)
qed

text \<open>
  Growth. \<open>htable_grow\<close> moves every entry to an array of twice the size plus one, by its key's hash
  value, without losing, duplicating or changing one: the map is the same and the table consistent.
\<close>

theorem htable_grow_spec:
  assumes "ht_inv t"
  shows "\<exists>u. htable_grow t = Ret u \<and> ht_inv u \<and> ht_map u = ht_map t \<and> ht_used u = ht_used t
    \<and> ht_size u = 2 * ht_size t + 1"
  using grow_rep [of t "ht_buckets t"] assms ht_rep_inv by (fastforce simp: ht_inv_def)

theorem htable_grow_spec_witness:
  "\<exists>u. htable_grow demo_table = Ret u \<and> ht_map u = [bytes_of ''key'' \<mapsto> Some 7]"
  using htable_grow_spec [of demo_table] demo_table(1,2) by (auto simp: ht_usable_def)

text \<open>
  \<open>acl_htable_reset\<close> releases every entry once, hands each value that is not null to the callback
  once, and leaves an empty, consistent table with the lock free; \<open>acl_htable_free\<close> hands out the same
  values.
\<close>

theorem htable_reset_spec:
  assumes "ht_inv t" "ht_rwlock t \<noteq> Some True"
  shows "\<exists>u. acl_htable_reset t True = Ret (u, live (ht_values t (ht_buckets t)))
    \<and> ht_inv u \<and> ht_map u = Map.empty \<and> ht_used u = 0 \<and> ht_rwlock u = ht_rwlock t
    \<and> (\<forall>a. a \<in> set (concat (ht_buckets t)) \<longrightarrow> ht_heap u a = None)
    \<and> acl_htable_free t True = Ret (live (ht_values t (ht_buckets t)))"
proof -
  have rep: "ht_rep t (ht_buckets t)" using assms(1) by (simp add: ht_inv_def)
  show ?thesis
    using reset_rep [OF rep assms(2), of True] free_rep_all [OF rep, of True]
    by (auto simp: ht_values_def live_def ht_same_cfg_def comp_def)
qed

theorem htable_reset_spec_witness:
  "\<exists>u fr. acl_htable_reset demo_table True = Ret (u, fr) \<and> ht_map u = Map.empty"
  using htable_reset_spec [of demo_table] demo_table(1) by (auto simp: ht_usable_def)

text \<open>
  C3: \<open>ACL_FOREACH\<close> and \<open>ACL_FOREACH_REVERSE\<close> over a table without null values end after one turn per
  entry and visit every value, the buckets in ascending and in descending order; \<open>acl_htable_list\<close>
  lists every entry and a final null pointer without leaving its buffer of \<open>used + 1\<close> cells.
\<close>

theorem htable_foreach:
  assumes "ht_full t" "ht_used t < int fuel"
  shows "(\<exists>it. htable_iter_head t = Ret it
        \<and> acl_foreach fuel htable_iter_next t it = Ret (Some (ht_values t (ht_buckets t))))
    \<and> (\<exists>it. htable_iter_tail t = Ret it
        \<and> acl_foreach fuel htable_iter_prev t it = Ret (Some (ht_values t (rev (ht_buckets t)))))
    \<and> acl_htable_list (Some t) = Ret (map Some (concat (ht_buckets t)) @ [None])"
proof -
  let ?R = "ht_buckets t"
  have rep: "ht_rep t ?R" using ht_full_rep(1) [OF assms(1)] .
  have v: "map Some (live (ht_values t R)) = ht_values t R" "length (live (ht_values t R)) = length (concat R)"
    if "set (concat R) = set (concat ?R)" for R
    using live_values [OF assms(1) that] by (simp_all add: ht_values_def)
  have "length (concat (rev ?R)) = length (concat ?R)" by (simp only: length_concat rev_map [symmetric] sum_list_rev)
  moreover have "length (concat ?R) < fuel" using assms(2) rep by (simp add: ht_rep_def)
  ultimately have "length (live (ht_values t ?R)) < fuel" "length (live (ht_values t (rev ?R))) < fuel"
    using v(2) [of ?R] v(2) [of "rev ?R"] by simp_all
  then show ?thesis
    using htf.foreach_all [OF assms(1), of fuel] htr.foreach_all [OF assms(1), of fuel] v(1) [of ?R] v(1) [of "rev ?R"]
      list_rep [OF rep] by simp
qed

theorem htable_foreach_witness:
  "\<exists>it. htable_iter_head demo_table = Ret it \<and> acl_foreach 5 htable_iter_next demo_table it = Ret (Some [Some 7])"
proof -
  have rep: "ht_rep demo_table (ht_buckets demo_table)" using demo_table(1) by (simp add: ht_usable_def ht_inv_def)
  have "hval (ht_heap demo_table) a \<noteq> None" if "a \<in> set (concat (ht_buckets demo_table))" for a
  proof (rule ht_rep_entry [OF rep that])
    fix e k assume "hkey (ht_heap demo_table) a = Some k"
    then have "ht_map demo_table k = Some (hval (ht_heap demo_table) a)"
      unfolding ht_map_iff [OF rep] using that by blast
    then show ?thesis by (cases "hval (ht_heap demo_table) a") (auto simp: demo_table(2) split: if_splits)
  qed
  then have "ht_full demo_table" using demo_table(1) by (simp add: ht_full_def ht_usable_def)
  moreover have "ht_used demo_table = 1" "ht_values demo_table (ht_buckets demo_table) = [Some 7]" by code_simp+
  ultimately show ?thesis using htable_foreach [of demo_table 5] by simp
qed

text \<open>
  C1: The table as a map over any history. After any sequence of locked insertions and deletions on a
  new table, created without \<open>ACL_HTABLE_FLAG_KEY_REUSE\<close> and \<open>ACL_HTABLE_FLAG_KEY_LOWER\<close> together (lemma
  htable_reuse_lower_dangles), a lookup answers what the last operation on the key left there.
\<close>

theorem htable_history:
  assumes "\<not> (bit flag 0 \<and> bit flag 3)" "t = acl_htable_create n flag"
  shows "\<exists>u w. c_push_all (map_exec ht_put ht_del) t ops = Ret u
    \<and> acl_htable_find_r u key = Ret (w, fold (map_step (ht_key t)) ops (\<lambda>_. None) (ht_key t key))"
  using ht.get_after [OF create_usable(1) [OF assms(2,1)], of ops key] create_usable(2) [OF assms(2,1)] by simp

theorem htable_history_witness:
  "\<exists>u w. c_push_all (map_exec ht_put ht_del) (acl_htable_create 5 0)
       [Put (bytes_of ''a'') (Some (1::nat)), Put (bytes_of ''b'') (Some 2), Del (bytes_of ''b''), Put (bytes_of ''a'') (Some 3)] = Ret u
     \<and> acl_htable_find_r u (bytes_of ''a'') = Ret (w, Some 3)"
proof -
  have k: "ht_key (acl_htable_create 5 0 :: nat acl_htable) = (\<lambda>k. k)"
    using create_rep(4) [of "acl_htable_create 5 0 :: nat acl_htable" 5 0]
    by (simp add: fun_eq_iff ht_key_def flag_key_lower_def)
  show ?thesis
    using htable_history [of 0 "acl_htable_create 5 0 :: nat acl_htable" 5
        "[Put (bytes_of ''a'') (Some (1::nat)), Put (bytes_of ''b'') (Some 2), Del (bytes_of ''b''), Put (bytes_of ''a'') (Some 3)]"
        "bytes_of ''a''"]
    by (simp add: k)
qed

text \<open>
  With \<open>ACL_HTABLE_FLAG_KEY_REUSE\<close> and \<open>ACL_HTABLE_FLAG_KEY_LOWER\<close> together an entry keeps the address
  of the lower-case copy that is released on return: the next lookup in its chain reads freed memory.
\<close>

lemma htable_reuse_lower_dangles:
  "map_cres snd (cbind (acl_htable_enter (acl_htable_create 5 9) (bytes_of ''k'') (Some (1::nat)))
     (\<lambda>(t, _). acl_htable_find t (bytes_of ''k''))) = Fault"
  by code_simp

end
