(* ===== verification/Acl_Cache.thy ===== *)
theory Acl_Cache
  imports Htable_Walk Acl_Ring
begin

text \<open>
  The cache with expiring entries, \<open>lib_acl/src/stdlib/common/acl_cache.c\<close>: a client of the hash table, which
  finds an entry by its key, and of the ring, which keeps the entries in the order of their insertion or last
  update, the oldest behind the head. An entry has one address in both: the value that the table keeps and
  the ring entry inside of it; the head of the ring has the address 0. The clock is an argument.
  The results collect the values that \<open>free_fn\<close> got. The slice allocator is the heap of
  entries; the guards against a null cache are left out.
\<close>

record 'v cache_info =
  ci_key :: "byte list"
  ci_value :: "'v option"
  ci_nrefer :: int
  ci_when :: int

record 'v acl_cache =
  ct_table :: "nat acl_htable"
  ct_ring :: ring_heap
  ct_max :: int
  ct_size :: int
  ct_timeout :: int
  ct_free_fn :: bool
  ct_lock :: bool
  ct_infos :: "nat \<Rightarrow> 'v cache_info option"
  ct_brk :: nat

definition ci_get :: "'v acl_cache \<Rightarrow> nat \<Rightarrow> 'v cache_info cres" where
  "ci_get c a = (case ct_infos c a of None \<Rightarrow> Fault | Some i \<Rightarrow> Ret i)"

definition ci_put :: "'v acl_cache \<Rightarrow> nat \<Rightarrow> 'v cache_info \<Rightarrow> 'v acl_cache" where
  "ci_put c a i = c\<lparr>ct_infos := (ct_infos c)(a \<mapsto> i)\<rparr>"

text \<open>A ring entry in memory that is all zero.\<close>

definition ring0 :: acl_ring where
  "ring0 = \<lparr>rg_pred = None, rg_succ = None, rg_parent = None, rg_len = 0\<rparr>"

text \<open>\<open>acl_ring_succ\<close> of an entry.\<close>

definition ct_succ :: "'v acl_cache \<Rightarrow> nat \<Rightarrow> nat option cres" where
  "ct_succ c a = map_cres rg_succ (rg_get (ct_ring c) (Some a))"

text \<open>A loop over the ring makes at most as many turns as there have been entries.\<close>

definition ct_fuel :: "'v acl_cache \<Rightarrow> nat" where
  "ct_fuel c = Suc (ct_brk c)"

subsection \<open>Operations\<close>

definition acl_cache_create :: "int \<Rightarrow> int \<Rightarrow> bool \<Rightarrow> 'v acl_cache option cres" where
  "acl_cache_create max_size timeout free_fn =
    (if max_size \<le> 0 \<or> timeout \<le> 0 then Ret None
     else map_cres (\<lambda>h. Some
       \<lparr>ct_table = acl_htable_create 100 0, ct_ring = h, ct_max = (if max_size < 1 then 1 else max_size), ct_size = 0,
        ct_timeout = (if timeout < 0 then 0 else timeout), ct_free_fn = free_fn, ct_lock = False,
        ct_infos = (\<lambda>_. None), ct_brk = 1\<rparr>)
       (acl_ring_init [0 \<mapsto> ring0] (Some 0)))"

definition acl_cache_delete :: "'v acl_cache \<Rightarrow> nat \<Rightarrow> ('v acl_cache \<times> 'v option list \<times> int) cres" where
  "acl_cache_delete c a =
    (if ct_max c \<le> 0 then Ret (c, [], 0)
     else cbind (ci_get c a) (\<lambda>info.
       if ci_nrefer info > 0 then Ret (c, [], -1)
       else cbind (acl_htable_delete (ct_table c) (ci_key info) False) (\<lambda>(t, _, r).
         let c = c\<lparr>ct_table := t\<rparr> in
         if r < 0 then Ret (c, [], -1)
         else cbind (acl_ring_detach (ct_ring c) (Some a)) (\<lambda>h.
           Ret (c\<lparr>ct_ring := h(a := None), ct_infos := (ct_infos c)(a := None), ct_size := ct_size c - 1\<rparr>,
             if ct_free_fn c then [ci_value info] else [], 0)))))"

definition acl_cache_find :: "'v acl_cache \<Rightarrow> byte list \<Rightarrow> ('v acl_cache \<times> 'v option) cres" where
  "acl_cache_find c key =
    (if ct_max c \<le> 0 then Ret (c, None)
     else cbind (acl_htable_find (ct_table c) key) (\<lambda>(t, p). let c = c\<lparr>ct_table := t\<rparr> in
       case p of None \<Rightarrow> Ret (c, None) | Some a \<Rightarrow> map_cres (\<lambda>i. (c, ci_value i)) (ci_get c a)))"

definition acl_cache_locate :: "'v acl_cache \<Rightarrow> byte list \<Rightarrow> ('v acl_cache \<times> nat option) cres" where
  "acl_cache_locate c key =
    (if ct_max c \<le> 0 then Ret (c, None)
     else map_cres (\<lambda>(t, p). (c\<lparr>ct_table := t\<rparr>, p)) (acl_htable_find (ct_table c) key))"

definition acl_cache_delete2 :: "'v acl_cache \<Rightarrow> byte list \<Rightarrow> ('v acl_cache \<times> 'v option list \<times> int) cres" where
  "acl_cache_delete2 c key =
    (if ct_max c \<le> 0 then Ret (c, [], 0)
     else cbind (acl_htable_find (ct_table c) key) (\<lambda>(t, p). let c = c\<lparr>ct_table := t\<rparr> in
       case p of None \<Rightarrow> Ret (c, [], -1)
       | Some a \<Rightarrow> cbind (ci_get c a) (\<lambda>i. if ci_nrefer i > 0 then Ret (c, [], -1) else acl_cache_delete c a)))"

fun cache_timeout_loop :: "nat \<Rightarrow> int \<Rightarrow> 'v acl_cache \<Rightarrow> nat option \<Rightarrow> ('v acl_cache \<times> 'v option list \<times> int) cres" where
  "cache_timeout_loop 0 now c p = Fault"
| "cache_timeout_loop (Suc fuel) now c p =
    (if p = Some 0 then Ret (c, [], 0)
     else case p of None \<Rightarrow> Fault
     | Some a \<Rightarrow> cbind (ci_get c a) (\<lambda>info.
         if ci_when info > now then Ret (c, [], 0)
         else cbind (ct_succ c a) (\<lambda>p.
           if ci_nrefer info > 0 then cache_timeout_loop fuel now c p
           else if ci_when info = 0 then cache_timeout_loop fuel now c p
           else cbind (acl_cache_delete c a) (\<lambda>(c, fs, r).
             map_cres (\<lambda>(c, gs, n). (c, fs @ gs, if r = 0 then n + 1 else n)) (cache_timeout_loop fuel now c p)))))"

definition acl_cache_timeout :: "int \<Rightarrow> 'v acl_cache \<Rightarrow> ('v acl_cache \<times> 'v option list \<times> int) cres" where
  "acl_cache_timeout now c =
    (if ct_max c \<le> 0 then Ret (c, [], 0)
     else cbind (ct_succ c 0) (cache_timeout_loop (ct_fuel c) now c))"

text \<open>The loop of \<open>acl_cache_enter\<close> that deletes the oldest entry that may go.\<close>

fun cache_evict_loop :: "nat \<Rightarrow> 'v acl_cache \<Rightarrow> nat option \<Rightarrow> ('v acl_cache \<times> 'v option list) cres" where
  "cache_evict_loop 0 c p = Fault"
| "cache_evict_loop (Suc fuel) c p =
    (if p = Some 0 then Ret (c, [])
     else case p of None \<Rightarrow> Fault
     | Some a \<Rightarrow> cbind (ci_get c a) (\<lambda>info.
         if ci_nrefer info > 0 \<or> ci_when info = 0 then cbind (ct_succ c a) (cache_evict_loop fuel c)
         else map_cres (\<lambda>(c, fs, _). (c, fs)) (acl_cache_delete c a)))"

text \<open>\<open>time (NULL)\<close> is \<open>now\<close> while entries expire, and \<open>now'\<close> when the new entry gets its time.\<close>

definition acl_cache_enter ::
    "int \<Rightarrow> int \<Rightarrow> 'v acl_cache \<Rightarrow> byte list \<Rightarrow> 'v option \<Rightarrow> ('v acl_cache \<times> 'v option list \<times> nat option) cres" where
  "acl_cache_enter now now' c key value =
    (if ct_max c \<le> 0 then Ret (c, [], None)
     else cbind (acl_htable_find (ct_table c) key) (\<lambda>(t, p). let c = c\<lparr>ct_table := t\<rparr> in case p of
       Some a \<Rightarrow> cbind (ci_get c a) (\<lambda>info.
         if ci_nrefer info > 0 then Ret (c, [], None)
         else Ret (ci_put c a (info\<lparr>ci_value := value\<rparr>), if ct_free_fn c then [ci_value info] else [], Some a))
     | None \<Rightarrow>
         cbind (if ct_size c \<ge> ct_max c then acl_cache_timeout now c else Ret (c, [], 0)) (\<lambda>(c, fs, _).
         cbind (if ct_size c \<ge> ct_max c then cbind (ct_succ c 0) (cache_evict_loop (ct_fuel c) c) else Ret (c, [])) (\<lambda>(c, gs).
         if ct_size c \<ge> ct_max c then Ret (c, fs @ gs, None)
         else
           let a = ct_brk c in
           cbind (acl_htable_enter (ct_table c) key (Some a)) (\<lambda>(t, _).
           let when = (if ct_timeout c > 0 then now' + ct_timeout c else 0);
               info = \<lparr>ci_key = key, ci_value = value, ci_nrefer = 0, ci_when = when\<rparr> in
           cbind (acl_ring_prepend ((ct_ring c)(a \<mapsto> ring0)) (Some 0) (Some a)) (\<lambda>h.
           Ret ((ci_put c a info)\<lparr>ct_table := t, ct_ring := h, ct_size := ct_size c + 1, ct_brk := a + 1\<rparr>,
             fs @ gs, Some a)))))))"

definition acl_cache_update2 :: "int \<Rightarrow> 'v acl_cache \<Rightarrow> nat \<Rightarrow> int \<Rightarrow> 'v acl_cache cres" where
  "acl_cache_update2 now c a timeout =
    (if ct_max c \<le> 0 then Ret c
     else cbind (acl_ring_detach (ct_ring c) (Some a)) (\<lambda>h.
       cbind (ci_get c a) (\<lambda>i.
       map_cres (\<lambda>h. (ci_put c a (i\<lparr>ci_when := (if timeout > 0 then now + timeout else 0)\<rparr>))\<lparr>ct_ring := h\<rparr>)
         (acl_ring_prepend h (Some 0) (Some a)))))"

definition acl_cache_update :: "int \<Rightarrow> 'v acl_cache \<Rightarrow> byte list \<Rightarrow> int \<Rightarrow> 'v acl_cache cres" where
  "acl_cache_update now c key timeout =
    (if ct_max c \<le> 0 then Ret c
     else cbind (acl_htable_find (ct_table c) key) (\<lambda>(t, p). let c = c\<lparr>ct_table := t\<rparr> in
       case p of None \<Rightarrow> Ret c | Some a \<Rightarrow> acl_cache_update2 now c a timeout))"

definition acl_cache_refer :: "'v acl_cache \<Rightarrow> nat \<Rightarrow> 'v acl_cache cres" where
  "acl_cache_refer c a = map_cres (\<lambda>i. ci_put c a (i\<lparr>ci_nrefer := ci_nrefer i + 1\<rparr>)) (ci_get c a)"

definition acl_cache_unrefer :: "'v acl_cache \<Rightarrow> nat \<Rightarrow> 'v acl_cache cres" where
  "acl_cache_unrefer c a = map_cres (\<lambda>i. ci_put c a (i\<lparr>ci_nrefer := ci_nrefer i - 1\<rparr>)) (ci_get c a)"

definition acl_cache_refer2 :: "'v acl_cache \<Rightarrow> byte list \<Rightarrow> 'v acl_cache cres" where
  "acl_cache_refer2 c key =
    (if ct_max c \<le> 0 then Ret c
     else cbind (acl_htable_find (ct_table c) key) (\<lambda>(t, p). let c = c\<lparr>ct_table := t\<rparr> in
       case p of None \<Rightarrow> Ret c | Some a \<Rightarrow> map_cres (\<lambda>i. ci_put c a (i\<lparr>ci_nrefer := ci_nrefer i + 1\<rparr>)) (ci_get c a)))"

definition acl_cache_unrefer2 :: "'v acl_cache \<Rightarrow> byte list \<Rightarrow> 'v acl_cache cres" where
  "acl_cache_unrefer2 c key =
    (if ct_max c \<le> 0 then Ret c
     else cbind (acl_htable_find (ct_table c) key) (\<lambda>(t, p). let c = c\<lparr>ct_table := t\<rparr> in
       case p of None \<Rightarrow> Ret c | Some a \<Rightarrow> map_cres (\<lambda>i. ci_put c a (i\<lparr>ci_nrefer := ci_nrefer i - 1\<rparr>)) (ci_get c a)))"

text \<open>Locking a mutex that is held blocks for ever.\<close>

definition acl_cache_lock :: "'v acl_cache \<Rightarrow> 'v acl_cache cres" where
  "acl_cache_lock c = (if ct_max c \<le> 0 then Ret c else if ct_lock c then Fault else Ret (c\<lparr>ct_lock := True\<rparr>))"

definition acl_cache_unlock :: "'v acl_cache \<Rightarrow> 'v acl_cache cres" where
  "acl_cache_unlock c = (if ct_max c \<le> 0 then Ret c else if \<not> ct_lock c then Fault else Ret (c\<lparr>ct_lock := False\<rparr>))"

text \<open>The entries that the callback of \<open>acl_cache_walk\<close> gets.\<close>

fun cache_walk_loop :: "nat \<Rightarrow> 'v acl_cache \<Rightarrow> nat option \<Rightarrow> 'v cache_info list cres" where
  "cache_walk_loop 0 c p = Fault"
| "cache_walk_loop (Suc fuel) c p =
    (if p = Some 0 then Ret []
     else case p of None \<Rightarrow> Fault
     | Some a \<Rightarrow> cbind (ci_get c a) (\<lambda>info. map_cres ((#) info) (cbind (ct_succ c a) (cache_walk_loop fuel c))))"

definition acl_cache_walk :: "'v acl_cache \<Rightarrow> 'v cache_info list cres" where
  "acl_cache_walk c = (if ct_max c \<le> 0 then Ret [] else cbind (ct_succ c 0) (cache_walk_loop (ct_fuel c) c))"

fun cache_clean_loop :: "nat \<Rightarrow> bool \<Rightarrow> 'v acl_cache \<Rightarrow> nat option \<Rightarrow> ('v acl_cache \<times> 'v option list \<times> int) cres" where
  "cache_clean_loop 0 force c p = Fault"
| "cache_clean_loop (Suc fuel) force c p =
    (if p = Some 0 then Ret (c, [], 0)
     else case p of None \<Rightarrow> Fault
     | Some a \<Rightarrow> cbind (ci_get c a) (\<lambda>info.
         cbind (ct_succ c a) (\<lambda>p.
         if ci_nrefer info > 0 \<and> \<not> force then cache_clean_loop fuel force c p
         else
           let c = (if ci_nrefer info > 0 then ci_put c a (info\<lparr>ci_nrefer := 0\<rparr>) else c) in
           cbind (acl_cache_delete c a) (\<lambda>(c, fs, r).
             map_cres (\<lambda>(c, gs, n). (c, fs @ gs, if r = 0 then n + 1 else n)) (cache_clean_loop fuel force c p)))))"

definition acl_cache_clean :: "'v acl_cache \<Rightarrow> bool \<Rightarrow> ('v acl_cache \<times> 'v option list \<times> int) cres" where
  "acl_cache_clean c force =
    (if ct_max c \<le> 0 then Ret (c, [], 0)
     else cbind (ct_succ c 0) (cache_clean_loop (ct_fuel c) force c))"

fun cache_free_loop :: "nat \<Rightarrow> 'v acl_cache \<Rightarrow> 'v option list cres" where
  "cache_free_loop 0 c = Fault"
| "cache_free_loop (Suc fuel) c =
    cbind (ct_succ c 0) (\<lambda>p.
      if p = Some 0 then map_cres (\<lambda>_. []) (acl_htable_free (ct_table c) False)
      else case p of None \<Rightarrow> Fault
      | Some a \<Rightarrow> cbind (ci_get c a) (\<lambda>info.
          let c = (if ci_nrefer info > 0 then ci_put c a (info\<lparr>ci_nrefer := 0\<rparr>) else c) in
          cbind (acl_cache_delete c a) (\<lambda>(c, fs, _). map_cres (\<lambda>gs. fs @ gs) (cache_free_loop fuel c))))"

definition acl_cache_free :: "'v acl_cache \<Rightarrow> 'v option list cres" where
  "acl_cache_free c = (if ct_max c \<le> 0 then Ret [] else cache_free_loop (ct_fuel c) c)"

definition acl_cache_size :: "'v acl_cache \<Rightarrow> int" where
  "acl_cache_size c = (if ct_max c \<le> 0 then 0 else ct_size c)"

text \<open>The iterators, which stand on ring entries; \<open>klen\<close> is not set.\<close>

definition cache_iter_to :: "'v acl_cache \<Rightarrow> nat option \<Rightarrow> (nat, 'v) acl_iter \<Rightarrow> int \<Rightarrow> (nat, 'v) acl_iter cres" where
  "cache_iter_to c p it i =
    (if p = Some 0 then Ret (it\<lparr>it_ptr := None, it_data := None, it_key := None\<rparr>)
     else case p of None \<Rightarrow> Fault
     | Some a \<Rightarrow> map_cres (\<lambda>info. it\<lparr>it_ptr := p, it_data := ci_value info, it_key := Some (ci_key info), it_i := i\<rparr>) (ci_get c a))"

definition cache_iter_head :: "'v acl_cache \<Rightarrow> (nat, 'v) acl_iter cres" where
  "cache_iter_head c = cbind (ct_succ c 0) (\<lambda>p. cache_iter_to c p
     \<lparr>it_ptr = None, it_data = None, it_dlen = -1, it_key = None, it_klen = 0, it_i = 0, it_size = ct_size c\<rparr> 0)"

definition cache_iter_next :: "(nat, 'v) acl_iter \<Rightarrow> 'v acl_cache \<Rightarrow> (nat, 'v) acl_iter cres" where
  "cache_iter_next it c = (case it_ptr it of None \<Rightarrow> Fault
     | Some a \<Rightarrow> cbind (ct_succ c a) (\<lambda>p. cache_iter_to c p it (it_i it + 1)))"

definition ct_pred :: "'v acl_cache \<Rightarrow> nat \<Rightarrow> nat option cres" where
  "ct_pred c a = map_cres rg_pred (rg_get (ct_ring c) (Some a))"

definition cache_iter_tail :: "'v acl_cache \<Rightarrow> (nat, 'v) acl_iter cres" where
  "cache_iter_tail c = cbind (ct_pred c 0) (\<lambda>p. cache_iter_to c p
     \<lparr>it_ptr = None, it_data = None, it_dlen = -1, it_key = None, it_klen = 0, it_i = ct_size c - 1, it_size = ct_size c\<rparr> (ct_size c - 1))"

definition cache_iter_prev :: "(nat, 'v) acl_iter \<Rightarrow> 'v acl_cache \<Rightarrow> (nat, 'v) acl_iter cres" where
  "cache_iter_prev it c = (case it_ptr it of None \<Rightarrow> Fault
     | Some a \<Rightarrow> cbind (ct_pred c a) (\<lambda>p. cache_iter_to c p it (it_i it - 1)))"

end
