(* ===== verification/Cache_Rep.thy ===== *)
theory Cache_Rep
  imports Acl_Cache
begin

text \<open>
  The cache as the list of the addresses of its entries: what table, ring and heap have to do with it, and
  the loops over the ring.
\<close>

subsection \<open>The cache as a list of entries\<close>

text \<open>The table that a list of addresses stands for.\<close>

definition info_alist :: "(nat \<Rightarrow> 'v cache_info option) \<Rightarrow> nat list \<Rightarrow> (byte list \<times> nat option) list" where
  "info_alist h xs = map (\<lambda>a. (ci_key (the (h a)), Some a)) xs"

definition table_ok :: "nat acl_htable \<Rightarrow> bool" where
  "table_ok t \<longleftrightarrow> ht_inv t \<and> ht_flag t = 0 \<and> ht_rwlock t = None"

definition cache_rep :: "'v acl_cache \<Rightarrow> nat list \<Rightarrow> bool" where
  "cache_rep c xs \<longleftrightarrow> ring_rep (ct_ring c) 0 xs \<and> table_ok (ct_table c) \<and> ht_map (ct_table c) = map_of (info_alist (ct_infos c) xs)
     \<and> distinct (map fst (info_alist (ct_infos c) xs)) \<and> dom (ct_infos c) = set xs \<and> (\<forall>a \<in> set xs. a < ct_brk c)
     \<and> ct_size c = int (length xs) \<and> 0 < ct_max c \<and> 0 < ct_brk c"

definition infos_of :: "'v acl_cache \<Rightarrow> nat list \<Rightarrow> 'v cache_info list" where
  "infos_of c xs = map (\<lambda>a. the (ct_infos c a)) xs"

text \<open>What an operation does not touch.\<close>

definition ct_same_cfg :: "'v acl_cache \<Rightarrow> 'v acl_cache \<Rightarrow> bool" where
  "ct_same_cfg c d \<longleftrightarrow> ct_max d = ct_max c \<and> ct_timeout d = ct_timeout c \<and> ct_free_fn d = ct_free_fn c \<and> ct_lock d = ct_lock c"

lemma ct_same_cfg_trans: "ct_same_cfg c d \<Longrightarrow> ct_same_cfg d e \<Longrightarrow> ct_same_cfg c e"
  by (simp add: ct_same_cfg_def)

lemma ct_same_cfg_refl [simp]: "ct_same_cfg c c"
  by (simp add: ct_same_cfg_def)

lemma table_okD:
  assumes "table_ok t"
  shows "ht_rep t (ht_buckets t)" "ht_rwlock t \<noteq> Some True" "ht_key t k = k" "\<not> (flag_key_reuse t \<and> flag_key_lower t)"
  using assms by (auto simp: table_ok_def ht_inv_def ht_key_def flag_key_lower_def flag_key_reuse_def)

lemma table_ok_same: "table_ok t \<Longrightarrow> ht_same_cfg t u \<Longrightarrow> ht_inv u \<Longrightarrow> table_ok u"
  by (simp add: table_ok_def ht_same_cfg_def)

lemma cache_repD:
  assumes "cache_rep c xs"
  shows "ring_rep (ct_ring c) 0 xs" "table_ok (ct_table c)" "ht_map (ct_table c) = map_of (info_alist (ct_infos c) xs)"
    "distinct (map fst (info_alist (ct_infos c) xs))" "dom (ct_infos c) = set xs" "ct_size c = int (length xs)" "0 < ct_max c"
    "\<And>a. a \<in> set xs \<Longrightarrow> a < ct_brk c" "0 < ct_brk c"
  using assms by (auto simp: cache_rep_def)

lemma cache_rep_distinct: "cache_rep c xs \<Longrightarrow> distinct xs \<and> 0 \<notin> set xs"
  by (simp add: cache_rep_def ring_rep_def)

lemma cache_rep_length: "cache_rep c xs \<Longrightarrow> length xs < ct_fuel c"
  using distinct_bounded [of xs "ct_brk c"] cache_rep_distinct [of c xs] cache_repD(8) [of c xs]
  by (auto simp: ct_fuel_def less_Suc_eq_le)

lemma cache_rep_info:
  assumes "cache_rep c xs" "a \<in> set xs"
  obtains i where "ct_infos c a = Some i" "ci_get c a = Ret i"
proof -
  obtain i where "ct_infos c a = Some i" using cache_repD(5) [OF assms(1)] assms(2) by blast
  then show ?thesis by (intro that) (auto simp: ci_get_def)
qed

text \<open>The entry behind another one, the head where there is none.\<close>

lemma cache_rep_succ:
  assumes "cache_rep c (A @ B)"
  shows "ct_succ c (last (0 # A)) = Ret (first_of B (Some 0))"
  using ring_rep_node [OF cache_repD(1) [OF assms]] by (fastforce simp: ct_succ_def)

text \<open>Looking a key up.\<close>

lemma map_of_find: "map_of (info_alist h xs) k = map_option Some (find (\<lambda>a. ci_key (the (h a)) = k) xs)"
  by (induction xs) (auto simp: info_alist_def)

lemma cache_rep_find:
  assumes "cache_rep c xs"
  shows "\<exists>t. acl_htable_find (ct_table c) key = Ret (t, find (\<lambda>a. ci_key (the (ct_infos c a)) = key) xs)
    \<and> cache_rep (c\<lparr>ct_table := t\<rparr>) xs"
proof -
  note t = cache_repD(2,3) [OF assms]
  obtain u where u: "acl_htable_find (ct_table c) key = Ret (u, Option.bind (ht_map (ct_table c) key) id)"
    "ht_inv u" "ht_map u = ht_map (ct_table c)" "ht_same_cfg (ct_table c) u"
    using find_rep [OF table_okD(1) [OF t(1)], of key] table_okD(3) [OF t(1)] by auto
  have "Option.bind (ht_map (ct_table c) key) id = find (\<lambda>a. ci_key (the (ct_infos c a)) = key) xs"
    by (cases "find (\<lambda>a. ci_key (the (ct_infos c a)) = key) xs") (simp_all add: t(2) map_of_find)
  with u assms table_ok_same [OF t(1)] show ?thesis by (auto simp: cache_rep_def)
qed

text \<open>Changing an entry, but not its key.\<close>

lemma cache_rep_put:
  assumes "cache_rep c xs" "a \<in> set xs" "ci_key i = ci_key (the (ct_infos c a))"
  shows "cache_rep (ci_put c a i) xs"
    "infos_of (ci_put c a i) xs = map (\<lambda>b. if b = a then i else the (ct_infos c b)) xs"
proof -
  have "info_alist ((ct_infos c)(a \<mapsto> i)) xs = info_alist (ct_infos c) xs"
    using assms(3) by (simp add: info_alist_def)
  then show "cache_rep (ci_put c a i) xs" using assms(1,2) by (auto simp: cache_rep_def ci_put_def)
  show "infos_of (ci_put c a i) xs = map (\<lambda>b. if b = a then i else the (ct_infos c b)) xs"
    by (simp add: infos_of_def ci_put_def)
qed

text \<open>Deleting an entry.\<close>

lemma map_of_delete: "distinct (map fst (A @ (k, v) # B)) \<Longrightarrow> (map_of (A @ (k, v) # B))(k := None) = map_of (A @ B)"
proof (rule ext)
  fix x
  assume d: "distinct (map fst (A @ (k, v) # B))"
  show "((map_of (A @ (k, v) # B))(k := None)) x = map_of (A @ B) x"
  proof (cases "x = k")
    case True
    have "map_of (A @ B) k = None" using d by (simp only: map_of_eq_None_iff) auto
    with True show ?thesis by (simp only: fun_upd_same)
  next
    case False
    then show ?thesis by (simp add: map_add_def split: option.split)
  qed
qed

lemma cache_rep_delete:
  assumes rep: "cache_rep c (A @ a # B)" and info: "ct_infos c a = Some i" "\<not> 0 < ci_nrefer i"
  shows "\<exists>d. acl_cache_delete c a = Ret (d, if ct_free_fn c then [ci_value i] else [], 0) \<and> cache_rep d (A @ B)
    \<and> ct_infos d = (ct_infos c)(a := None) \<and> ct_same_cfg c d \<and> ct_brk d = ct_brk c"
proof -
  note r = cache_repD [OF rep]
  have dist: "distinct (A @ a # B)" "0 \<notin> set (A @ a # B)" using cache_rep_distinct [OF rep] by simp_all
  have al: "info_alist (ct_infos c) (A @ a # B) = info_alist (ct_infos c) A @ (ci_key i, Some a) # info_alist (ct_infos c) B"
    using info by (simp add: info_alist_def)
  have "ht_map (ct_table c) (ci_key i) \<noteq> None" by (simp add: r(3) al map_of_eq_None_iff)
  then obtain t w where t: "acl_htable_delete (ct_table c) (ci_key i) False = Ret (t, w, 0)" "ht_inv t"
    "ht_map t = (ht_map (ct_table c))(ci_key i := None)" "ht_same_cfg (ct_table c) t"
    using delete_rep [OF table_okD(1,2) [OF r(2)], of "ci_key i" False] table_okD(3) [OF r(2)] by auto
  obtain h where h: "acl_ring_detach (ct_ring c) (Some a) = Ret h" "ring_rep h 0 (A @ B)"
    using ring_detach_rep [OF r(1)] by blast
  let ?d = "c\<lparr>ct_table := t, ct_ring := h(a := None), ct_infos := (ct_infos c)(a := None), ct_size := ct_size c - 1\<rparr>"
  have "ring_rep (h(a := None)) 0 (A @ B)" using dist by (intro ring_rep_cong [OF h(2)]) auto
  moreover have same: "info_alist ((ct_infos c)(a := None)) (A @ B) = info_alist (ct_infos c) (A @ B)"
    using dist by (auto simp: info_alist_def)
  moreover have "ht_map t = map_of (info_alist (ct_infos c) (A @ B))"
    using map_of_delete [OF r(4) [unfolded al]] unfolding t(3) r(3) al by (simp add: info_alist_def)
  moreover have "distinct (map fst (info_alist (ct_infos c) (A @ B)))" using r(4) by (auto simp: info_alist_def)
  moreover have "dom ((ct_infos c)(a := None)) = set (A @ B)" using r(5) dist by auto
  ultimately have "cache_rep ?d (A @ B)"
    using rep r(5,6) table_ok_same [OF r(2) t(4,2)] by (auto simp: cache_rep_def)
  moreover have "acl_cache_delete c a = Ret (?d, if ct_free_fn c then [ci_value i] else [], 0)"
    using info t(1) h(1) r(7) by (simp add: acl_cache_delete_def ci_get_def)
  ultimately show ?thesis by (auto simp: ct_same_cfg_def)
qed

subsection \<open>Contents of the entries\<close>

text \<open>An entry that may not be deleted to make room: it is referred to, or it never expires.\<close>

definition pinned :: "'v cache_info \<Rightarrow> bool" where
  "pinned i \<longleftrightarrow> 0 < ci_nrefer i \<or> ci_when i = 0"

text \<open>A cache whose entries, from the oldest on, are at the addresses \<open>xs\<close> and have the contents \<open>f\<close>.\<close>

definition cache_at :: "'v acl_cache \<Rightarrow> (nat \<Rightarrow> 'v cache_info) \<Rightarrow> nat list \<Rightarrow> bool" where
  "cache_at c f xs \<longleftrightarrow> cache_rep c xs \<and> (\<forall>a \<in> set xs. ct_infos c a = Some (f a))"

definition freed_of :: "'v acl_cache \<Rightarrow> 'v cache_info list \<Rightarrow> 'v option list" where
  "freed_of c is = (if ct_free_fn c then map ci_value is else [])"

lemma freed_of_simps [simp]:
  "freed_of c [] = []" "ct_same_cfg c d \<Longrightarrow> freed_of d is = freed_of c is"
  "freed_of c (is @ js) = freed_of c is @ freed_of c js"
  by (simp_all add: freed_of_def ct_same_cfg_def)

lemma cache_atD: "cache_at c f xs \<Longrightarrow> cache_rep c xs" "cache_at c f xs \<Longrightarrow> a \<in> set xs \<Longrightarrow> ci_get c a = Ret (f a)"
  by (simp_all add: cache_at_def ci_get_def)

lemma cache_at_delete:
  assumes "cache_at c f (A @ a # B)" "\<not> 0 < ci_nrefer (f a)"
  shows "\<exists>d. acl_cache_delete c a = Ret (d, freed_of c [f a], 0) \<and> cache_at d f (A @ B) \<and> ct_same_cfg c d \<and> ct_brk d = ct_brk c"
proof -
  have rep: "cache_rep c (A @ a # B)" and i: "ct_infos c a = Some (f a)" using assms(1) by (auto simp: cache_at_def)
  have "a \<notin> set (A @ B)" using cache_rep_distinct [OF rep] by auto
  then show ?thesis
    using cache_rep_delete [OF rep i assms(2)] assms(1) by (auto simp: cache_at_def freed_of_def)
qed

lemma cache_at_succ:
  assumes "cache_at c f (A @ a # B)"
  shows "ct_succ c a = Ret (first_of B (Some 0))" "first_of (a # B) (Some 0) \<noteq> Some 0"
  using cache_rep_succ [of c "A @ [a]" B] cache_rep_distinct [of c "A @ a # B"] assms by (auto simp: cache_at_def)

lemma cache_at_first: "cache_at c f xs \<Longrightarrow> ct_succ c 0 = Ret (first_of xs (Some 0))"
  using cache_rep_succ [of c "[]" xs] by (simp add: cache_at_def)

subsection \<open>The loops over the ring\<close>

lemma timeout_loop_rep:
  assumes "cache_at c f (A @ B)" "length B < fuel"
  shows "\<exists>d. cache_timeout_loop fuel now c (first_of B (Some 0)) =
      Ret (d, freed_of c (map f (filter (\<lambda>a. \<not> pinned (f a)) (takeWhile (\<lambda>a. ci_when (f a) \<le> now) B))),
        int (length (filter (\<lambda>a. \<not> pinned (f a)) (takeWhile (\<lambda>a. ci_when (f a) \<le> now) B))))
    \<and> cache_at d f (A @ filter (\<lambda>a. pinned (f a)) (takeWhile (\<lambda>a. ci_when (f a) \<le> now) B)
        @ dropWhile (\<lambda>a. ci_when (f a) \<le> now) B) \<and> ct_same_cfg c d \<and> ct_brk d = ct_brk c"
  using assms
proof (induction B arbitrary: A c fuel)
  case Nil
  then show ?case by (cases fuel) simp_all
next
  case (Cons a B)
  obtain n where n: "fuel = Suc n" "length B < n" using Cons.prems(2) by (cases fuel) auto
  note at = cache_atD(2) [OF Cons.prems(1), of a, simplified] cache_at_succ [OF Cons.prems(1)]
  show ?case
  proof (cases "ci_when (f a) > now")
    case True
    then show ?thesis using Cons.prems(1) at n by simp
  next
    case due: False
    show ?thesis
    proof (cases "pinned (f a)")
      case True
      have "cache_at c f ((A @ [a]) @ B)" using Cons.prems(1) by simp
      from Cons.IH [OF this n(2)] show ?thesis using at n due True by (auto simp: pinned_def)
    next
      case False
      then obtain d where d: "acl_cache_delete c a = Ret (d, freed_of c [f a], 0)" "cache_at d f (A @ B)" "ct_same_cfg c d"
        "ct_brk d = ct_brk c" using cache_at_delete [OF Cons.prems(1)] by (auto simp: pinned_def)
      let ?del = "filter (\<lambda>a. \<not> pinned (f a)) (takeWhile (\<lambda>a. ci_when (f a) \<le> now) B)"
      obtain e where e: "cache_timeout_loop n now d (first_of B (Some 0)) = Ret (e, freed_of d (map f ?del), int (length ?del))"
        "cache_at e f (A @ filter (\<lambda>a. pinned (f a)) (takeWhile (\<lambda>a. ci_when (f a) \<le> now) B) @ dropWhile (\<lambda>a. ci_when (f a) \<le> now) B)"
        "ct_same_cfg d e" "ct_brk e = ct_brk d" using Cons.IH [OF d(2) n(2)] by blast
      have sp: "freed_of c (f a # map f ?del) = freed_of c [f a] @ freed_of d (map f ?del)" using d(3) by (simp add: freed_of_def ct_same_cfg_def)
      have "\<not> 0 < ci_nrefer (f a)" "ci_when (f a) \<noteq> 0" using False by (simp_all add: pinned_def)
      then have "cache_timeout_loop fuel now c (first_of (a # B) (Some 0)) = Ret (e, freed_of c [f a] @ freed_of d (map f ?del), int (length ?del) + 1)"
        using at n(1) due d(1) e(1) by simp
      moreover have "filter (\<lambda>a. \<not> pinned (f a)) (takeWhile (\<lambda>a. ci_when (f a) \<le> now) (a # B)) = a # ?del"
        "filter (\<lambda>a. pinned (f a)) (takeWhile (\<lambda>a. ci_when (f a) \<le> now) (a # B)) = filter (\<lambda>a. pinned (f a)) (takeWhile (\<lambda>a. ci_when (f a) \<le> now) B)"
        "dropWhile (\<lambda>a. ci_when (f a) \<le> now) (a # B) = dropWhile (\<lambda>a. ci_when (f a) \<le> now) B"
        using due False by simp_all
      ultimately show ?thesis using e d ct_same_cfg_trans [OF d(3) e(3)]
        by (simp add: sp del: takeWhile.simps dropWhile.simps filter.simps)
    qed
  qed
qed

lemma evict_loop_rep:
  assumes "cache_at c f (A @ B)" "length B < fuel"
  shows "\<exists>d. cache_evict_loop fuel c (first_of B (Some 0)) =
      Ret (d, freed_of c (map f (take 1 (dropWhile (\<lambda>a. pinned (f a)) B))))
    \<and> cache_at d f (A @ takeWhile (\<lambda>a. pinned (f a)) B @ drop 1 (dropWhile (\<lambda>a. pinned (f a)) B))
    \<and> ct_same_cfg c d \<and> ct_brk d = ct_brk c"
  using assms
proof (induction B arbitrary: A fuel)
  case Nil
  then show ?case by (cases fuel) simp_all
next
  case (Cons a B)
  obtain n where n: "fuel = Suc n" "length B < n" using Cons.prems(2) by (cases fuel) auto
  note at = cache_atD(2) [OF Cons.prems(1), of a, simplified] cache_at_succ [OF Cons.prems(1)]
  show ?case
  proof (cases "pinned (f a)")
    case True
    have "cache_at c f ((A @ [a]) @ B)" using Cons.prems(1) by simp
    from Cons.IH [OF this n(2)] show ?thesis using at n True by (auto simp: pinned_def)
  next
    case False
    then show ?thesis using cache_at_delete [OF Cons.prems(1)] at n by (auto simp: pinned_def)
  qed
qed

text \<open>An entry that is deleted by force has lost its references before.\<close>

definition unreferred :: "'v cache_info \<Rightarrow> 'v cache_info" where
  "unreferred i = (if 0 < ci_nrefer i then i\<lparr>ci_nrefer := 0\<rparr> else i)"

lemma cache_at_unrefer:
  assumes "cache_at c f xs" "a \<in> set xs"
  shows "cache_at (if 0 < ci_nrefer (f a) then ci_put c a (f a\<lparr>ci_nrefer := 0\<rparr>) else c) (f(a := unreferred (f a))) xs"
  using assms cache_rep_put(1) [of c xs a "f a\<lparr>ci_nrefer := 0\<rparr>"]
  by (auto simp: cache_at_def unreferred_def ci_put_def)

lemma cache_at_cong: "cache_at c f xs \<Longrightarrow> (\<And>a. a \<in> set xs \<Longrightarrow> g a = f a) \<Longrightarrow> cache_at c g xs"
  by (simp add: cache_at_def)

lemma cache_at_delete_forced:
  assumes c: "cache_at c f (A @ a # B)"
  shows "\<exists>d. acl_cache_delete (if 0 < ci_nrefer (f a) then ci_put c a (f a\<lparr>ci_nrefer := 0\<rparr>) else c) a = Ret (d, freed_of c [f a], 0)
    \<and> cache_at d f (A @ B) \<and> ct_same_cfg c d \<and> ct_brk d = ct_brk c"
proof -
  let ?c = "if 0 < ci_nrefer (f a) then ci_put c a (f a\<lparr>ci_nrefer := 0\<rparr>) else c"
  have at: "cache_at ?c (f(a := unreferred (f a))) (A @ a # B)" by (rule cache_at_unrefer [OF c]) simp
  have "\<not> 0 < ci_nrefer ((f(a := unreferred (f a))) a)" by (simp add: unreferred_def)
  from cache_at_delete [OF at this] obtain d where d: "acl_cache_delete ?c a = Ret (d, freed_of ?c [unreferred (f a)], 0)"
    "cache_at d (f(a := unreferred (f a))) (A @ B)" "ct_same_cfg ?c d" "ct_brk d = ct_brk ?c"
    unfolding fun_upd_same by blast
  have "a \<notin> set (A @ B)" using cache_rep_distinct [OF cache_atD(1) [OF c]] by auto
  then have "cache_at d f (A @ B)" by (intro cache_at_cong [OF d(2)]) auto
  moreover have "ct_same_cfg c ?c" and brk: "ct_brk ?c = ct_brk c" by (simp_all add: ct_same_cfg_def ci_put_def)
  moreover have free: "freed_of ?c [unreferred (f a)] = freed_of c [f a]" by (simp add: freed_of_def unreferred_def ci_put_def)
  ultimately show ?thesis
    using d(1) [unfolded free] d(4) [unfolded brk] ct_same_cfg_trans [OF _ d(3)] by (intro exI conjI)
qed

lemma clean_loop_rep:
  assumes "cache_at c f (A @ B)" "length B < fuel"
  shows "\<exists>d. cache_clean_loop fuel force c (first_of B (Some 0)) =
      Ret (d, freed_of c (map f (filter (\<lambda>a. \<not> (0 < ci_nrefer (f a) \<and> \<not> force)) B)), int (length (filter (\<lambda>a. \<not> (0 < ci_nrefer (f a) \<and> \<not> force)) B)))
    \<and> cache_at d f (A @ filter (\<lambda>a. 0 < ci_nrefer (f a) \<and> \<not> force) B) \<and> ct_same_cfg c d \<and> ct_brk d = ct_brk c"
  using assms
proof (induction B arbitrary: A c fuel)
  case Nil
  then show ?case by (cases fuel) simp_all
next
  case (Cons a B)
  obtain n where n: "fuel = Suc n" "length B < n" using Cons.prems(2) by (cases fuel) auto
  note at = cache_atD(2) [OF Cons.prems(1), of a, simplified] cache_at_succ [OF Cons.prems(1)]
  show ?case
  proof (cases "0 < ci_nrefer (f a) \<and> \<not> force")
    case True
    have "cache_at c f ((A @ [a]) @ B)" using Cons.prems(1) by simp
    from Cons.IH [OF this n(2)] show ?thesis using at n True by auto
  next
    case False
    let ?c = "if 0 < ci_nrefer (f a) then ci_put c a (f a\<lparr>ci_nrefer := 0\<rparr>) else c"
    obtain d where d: "acl_cache_delete ?c a = Ret (d, freed_of c [f a], 0)" "cache_at d f (A @ B)" "ct_same_cfg c d"
      "ct_brk d = ct_brk c" using cache_at_delete_forced [OF Cons.prems(1)] by blast
    let ?P = "\<lambda>a. \<not> (0 < ci_nrefer (f a) \<and> \<not> force)"
    obtain e where e: "cache_clean_loop n force d (first_of B (Some 0)) = Ret (e, freed_of d (map f (filter ?P B)), int (length (filter ?P B)))"
      "cache_at e f (A @ filter (\<lambda>a. 0 < ci_nrefer (f a) \<and> \<not> force) B)" "ct_same_cfg d e" "ct_brk e = ct_brk d"
      using Cons.IH [OF d(2) n(2)] by blast
    have sp: "freed_of c (f a # map f (filter ?P B)) = freed_of c [f a] @ freed_of d (map f (filter ?P B))" using d(3) by (simp add: freed_of_def ct_same_cfg_def)
    have step: "cache_clean_loop fuel force c (first_of (a # B) (Some 0)) =
        cbind (acl_cache_delete ?c a) (\<lambda>(c, fs, r).
          map_cres (\<lambda>(c, gs, n). (c, fs @ gs, if r = 0 then n + 1 else n)) (cache_clean_loop n force c (first_of B (Some 0))))"
      using at n(1) False by (cases force) (simp_all add: Let_def)
    have "cache_clean_loop fuel force c (first_of (a # B) (Some 0)) = Ret (e, freed_of c [f a] @ freed_of d (map f (filter ?P B)), int (length (filter ?P B)) + 1)"
      unfolding step d(1) by (simp add: e(1))
    moreover have "filter ?P (a # B) = a # filter ?P B"
      "filter (\<lambda>a. 0 < ci_nrefer (f a) \<and> \<not> force) (a # B) = filter (\<lambda>a. 0 < ci_nrefer (f a) \<and> \<not> force) B"
      using False by auto
    ultimately show ?thesis using e(2-4) d(4) ct_same_cfg_trans [OF d(3) e(3)] sp by (simp del: filter.simps)
  qed
qed

lemma free_loop_rep:
  assumes "cache_at c f xs" "length xs < fuel"
  shows "cache_free_loop fuel c = Ret (freed_of c (map f xs))"
  using assms
proof (induction xs arbitrary: c fuel)
  case Nil
  then obtain n where n: "fuel = Suc n" by (cases fuel) auto
  have t: "ht_rep (ct_table c) (ht_buckets (ct_table c))" using Nil by (simp add: cache_at_def cache_rep_def table_okD)
  show ?case using cache_at_first [OF Nil(1)] free_rep_all [OF t, of False] n by simp
next
  case (Cons a xs)
  obtain n where n: "fuel = Suc n" "length xs < n" using Cons.prems(2) by (cases fuel) auto
  let ?c = "if 0 < ci_nrefer (f a) then ci_put c a (f a\<lparr>ci_nrefer := 0\<rparr>) else c"
  obtain d where d: "acl_cache_delete ?c a = Ret (d, freed_of c [f a], 0)" "cache_at d f xs" "ct_same_cfg c d"
    using cache_at_delete_forced [of c f "[]" a xs] Cons.prems(1) by auto
  note at = cache_atD(2) [OF Cons.prems(1), of a, simplified] cache_at_succ [of c f "[]" a xs, simplified, OF Cons.prems(1)]
  have "cache_free_loop fuel c = cbind (acl_cache_delete ?c a) (\<lambda>(c, fs, _). map_cres (\<lambda>gs. fs @ gs) (cache_free_loop n c))"
    using at cache_at_first [OF Cons.prems(1)] n(1) by (simp add: Let_def)
  then show ?case unfolding d(1) using Cons.IH [OF d(2) n(2)] d(3) by (simp add: freed_of_def ct_same_cfg_def)
qed

lemma walk_loop_rep:
  assumes "cache_at c f (A @ B)" "length B < fuel"
  shows "cache_walk_loop fuel c (first_of B (Some 0)) = Ret (map f B)"
  using assms
proof (induction B arbitrary: A fuel)
  case Nil
  then show ?case by (cases fuel) simp_all
next
  case (Cons a B)
  obtain n where n: "fuel = Suc n" "length B < n" using Cons.prems(2) by (cases fuel) auto
  note at = cache_atD(2) [OF Cons.prems(1), of a, simplified] cache_at_succ [OF Cons.prems(1)]
  have "cache_at c f ((A @ [a]) @ B)" using Cons.prems(1) by simp
  from Cons.IH [OF this n(2)] show ?case using at n by simp
qed

end
