(* ===== verification/Cache_Spec.thy ===== *)
theory Cache_Spec
  imports Cache_Rep "HOL-Library.Multiset"
begin

text \<open>
  What the operations of the cache do to the list of its entries, and that the code does it.
\<close>

subsection \<open>The cache as its clients see it\<close>

text \<open>The operations on the list of the entries, the oldest first; the second component is what is deleted.\<close>

type_synonym 'v entries = "'v cache_info list"

definition e_find :: "'v entries \<Rightarrow> byte list \<Rightarrow> 'v cache_info option" where
  "e_find es key = find (\<lambda>i. ci_key i = key) es"

definition e_replace :: "'v entries \<Rightarrow> byte list \<Rightarrow> ('v cache_info \<Rightarrow> 'v cache_info) \<Rightarrow> 'v entries" where
  "e_replace es key g = map (\<lambda>i. if ci_key i = key then g i else i) es"

definition e_remove :: "'v entries \<Rightarrow> byte list \<Rightarrow> 'v entries" where
  "e_remove es key = filter (\<lambda>i. ci_key i \<noteq> key) es"

definition e_timeout :: "int \<Rightarrow> 'v entries \<Rightarrow> 'v entries \<times> 'v entries" where
  "e_timeout now es = (let due = takeWhile (\<lambda>i. ci_when i \<le> now) es in
     (filter pinned due @ dropWhile (\<lambda>i. ci_when i \<le> now) es, filter (\<lambda>i. \<not> pinned i) due))"

definition e_evict :: "'v entries \<Rightarrow> 'v entries \<times> 'v entries" where
  "e_evict es = (takeWhile pinned es @ drop 1 (dropWhile pinned es), take 1 (dropWhile pinned es))"

definition e_room :: "int \<Rightarrow> int \<Rightarrow> 'v entries \<Rightarrow> 'v entries \<times> 'v entries" where
  "e_room mx now es =
    (let (es, del) = (if int (length es) \<ge> mx then e_timeout now es else (es, []));
         (es, del') = (if int (length es) \<ge> mx then e_evict es else (es, []))
     in (es, del @ del'))"

definition e_enter :: "int \<Rightarrow> int \<Rightarrow> int \<Rightarrow> int \<Rightarrow> 'v entries \<Rightarrow> byte list \<Rightarrow> 'v option \<Rightarrow> 'v entries \<times> 'v entries \<times> bool" where
  "e_enter mx timeout now now' es key v = (case e_find es key of
     Some i \<Rightarrow> if 0 < ci_nrefer i then (es, [], False) else (e_replace es key (\<lambda>i. i\<lparr>ci_value := v\<rparr>), [i], True)
   | None \<Rightarrow> (let (es, del) = e_room mx now es in
       if int (length es) \<ge> mx then (es, del, False)
       else (es @ [\<lparr>ci_key = key, ci_value = v, ci_nrefer = 0, ci_when = now' + timeout\<rparr>], del, True)))"

definition e_update :: "int \<Rightarrow> 'v entries \<Rightarrow> byte list \<Rightarrow> int \<Rightarrow> 'v entries" where
  "e_update now es key timeout = (case e_find es key of None \<Rightarrow> es
     | Some i \<Rightarrow> e_remove es key @ [i\<lparr>ci_when := (if timeout > 0 then now + timeout else 0)\<rparr>])"

definition e_delete :: "'v entries \<Rightarrow> byte list \<Rightarrow> 'v entries \<times> 'v entries \<times> int" where
  "e_delete es key = (case e_find es key of None \<Rightarrow> (es, [], -1)
     | Some i \<Rightarrow> if 0 < ci_nrefer i then (es, [], -1) else (e_remove es key, [i], 0))"

definition e_clean :: "bool \<Rightarrow> 'v entries \<Rightarrow> 'v entries \<times> 'v entries" where
  "e_clean force es = (filter (\<lambda>i. 0 < ci_nrefer i \<and> \<not> force) es, filter (\<lambda>i. \<not> (0 < ci_nrefer i \<and> \<not> force)) es)"

definition cache_is :: "'v acl_cache \<Rightarrow> 'v entries \<Rightarrow> bool" where
  "cache_is c es \<longleftrightarrow> (\<exists>f xs. cache_at c f xs \<and> es = map f xs)"

subsection \<open>Every operation does what the list says\<close>

lemma cache_isI: "cache_at c f xs \<Longrightarrow> es = map f xs \<Longrightarrow> cache_is c es"
  by (auto simp: cache_is_def)

lemma cache_is_len: "cache_is c es \<Longrightarrow> ct_size c = int (length es) \<and> 0 < ct_max c"
  by (auto simp: cache_is_def cache_at_def cache_rep_def)

lemma cache_at_key: "cache_at c f xs \<Longrightarrow> a \<in> set xs \<Longrightarrow> ci_key (the (ct_infos c a)) = ci_key (f a)"
  by (simp add: cache_at_def)

lemma cache_at_keys:
  assumes "cache_at c f xs"
  shows "distinct (map (\<lambda>a. ci_key (f a)) xs)"
proof -
  have "map fst (info_alist (ct_infos c) xs) = map (\<lambda>a. ci_key (f a)) xs"
    using cache_at_key [OF assms] by (simp add: info_alist_def comp_def cong: map_cong)
  then show ?thesis using cache_repD(4) [OF cache_atD(1) [OF assms]] by simp
qed

lemma find_SomeD: "find P xs = Some a \<Longrightarrow> a \<in> set xs \<and> P a"
  by (induction xs) (auto split: if_splits)

lemma cache_at_find:
  assumes "cache_at c f xs"
  obtains t p where "acl_htable_find (ct_table c) key = Ret (t, p)" "cache_at (c\<lparr>ct_table := t\<rparr>) f xs"
    "e_find (map f xs) key = map_option f p"
    "p = None \<Longrightarrow> \<forall>a \<in> set xs. ci_key (f a) \<noteq> key"
    "\<And>a. p = Some a \<Longrightarrow> \<exists>A B. xs = A @ a # B \<and> ci_key (f a) = key"
proof -
  let ?p = "find (\<lambda>a. ci_key (the (ct_infos c a)) = key) xs"
  have p: "?p = find (\<lambda>a. ci_key (f a) = key) xs" using cache_at_key [OF assms] by (simp cong: find_cong)
  obtain t where t: "acl_htable_find (ct_table c) key = Ret (t, ?p)" "cache_rep (c\<lparr>ct_table := t\<rparr>) xs"
    using cache_rep_find [OF cache_atD(1) [OF assms]] by blast
  show ?thesis
  proof (rule that [OF t(1)])
    show "cache_at (c\<lparr>ct_table := t\<rparr>) f xs" using t(2) assms by (simp add: cache_at_def)
    show "e_find (map f xs) key = map_option f ?p" unfolding p e_find_def by (induction xs) auto
    show "\<forall>a \<in> set xs. ci_key (f a) \<noteq> key" if "?p = None" using that unfolding p by (simp add: find_None_iff)
    show "\<exists>A B. xs = A @ a # B \<and> ci_key (f a) = key" if "?p = Some a" for a
      using find_SomeD [of _ xs a] split_list [of a xs] that unfolding p by blast
  qed
qed

lemma cache_at_table: "ct_same_cfg c (c\<lparr>ct_table := t\<rparr>)" "ci_get (c\<lparr>ct_table := t\<rparr>) a = ci_get c a"
  by (simp_all add: ct_same_cfg_def ci_get_def)

text \<open>The entry with a key is the only one.\<close>

lemma remove_only:
  assumes "distinct (map (\<lambda>a. ci_key (f a)) (A @ a # B))" "key = ci_key (f a)"
  shows "e_remove (map f (A @ a # B)) key = map f (A @ B)"
    "e_replace (map f (A @ a # B)) key g = map f A @ g (f a) # map f B"
proof -
  have "ci_key (f a) \<notin> (\<lambda>a. ci_key (f a)) ` (set A \<union> set B)" using assms(1) by (simp add: image_Un)
  then have n: "ci_key (f b) \<noteq> key" if "b \<in> set A \<union> set B" for b using assms(2) that by (metis image_eqI)
  then have "filter (\<lambda>i. ci_key i \<noteq> key) (map f A) = map f A" "filter (\<lambda>i. ci_key i \<noteq> key) (map f B) = map f B"
    by (simp_all add: filter_id_conv)
  then show "e_remove (map f (A @ a # B)) key = map f (A @ B)" using assms(2) by (simp add: e_remove_def)
  show "e_replace (map f (A @ a # B)) key g = map f A @ g (f a) # map f B"
    using n assms(2) by (auto simp: e_replace_def)
qed

lemma step_delete:
  assumes "cache_is c es" "e_delete es key = (es', del, r)"
  shows "\<exists>d. acl_cache_delete2 c key = Ret (d, freed_of c del, r) \<and> cache_is d es' \<and> ct_same_cfg c d"
proof -
  obtain f xs where at: "cache_at c f xs" "es = map f xs" using assms(1) by (auto simp: cache_is_def)
  obtain t p where t: "acl_htable_find (ct_table c) key = Ret (t, p)" "cache_at (c\<lparr>ct_table := t\<rparr>) f xs"
    "e_find (map f xs) key = map_option f p"
    "\<And>a. p = Some a \<Longrightarrow> \<exists>A B. xs = A @ a # B \<and> ci_key (f a) = key"
    by (rule cache_at_find [OF at(1), of key], rule that)
  let ?c = "c\<lparr>ct_table := t\<rparr>"
  have mx: "\<not> ct_max c \<le> 0" using cache_is_len [OF assms(1)] by simp
  show ?thesis
  proof (cases p)
    case None
    then show ?thesis using t assms(2) mx at by (auto simp: acl_cache_delete2_def e_delete_def cache_is_def cache_at_table)
  next
    case (Some a)
    then obtain A B where x: "xs = A @ a # B" "key = ci_key (f a)" using t(4) by blast
    have g: "ci_get ?c a = Ret (f a)" using cache_atD(2) [OF t(2)] x(1) by simp
    show ?thesis
    proof (cases "0 < ci_nrefer (f a)")
      case True
      then show ?thesis using t(1-3) g Some assms(2) mx at by (auto simp: acl_cache_delete2_def e_delete_def cache_is_def cache_at_table)
    next
      case False
      then obtain d where d: "acl_cache_delete ?c a = Ret (d, freed_of ?c [f a], 0)" "cache_at d f (A @ B)" "ct_same_cfg ?c d"
        using cache_at_delete t(2) unfolding x(1) by blast
      have "es' = map f (A @ B)" "del = [f a]" "r = 0"
        using assms(2) False Some t(3) at(2) remove_only(1) [of f A a B, OF _ x(2)] cache_at_keys [OF at(1)] unfolding x(1) by (auto simp: e_delete_def)
      then show ?thesis
        using t(1) g d(1) Some False mx ct_same_cfg_trans [OF cache_at_table(1) d(3)] cache_isI [OF d(2)]
        by (auto simp: acl_cache_delete2_def freed_of_def)
    qed
  qed
qed

lemma cache_at_fuel: "cache_at c f xs \<Longrightarrow> length xs < ct_fuel c"
  by (rule cache_rep_length [OF cache_atD(1)])

lemma cache_max: "cache_at c f xs \<Longrightarrow> \<not> ct_max c \<le> 0 \<and> ct_size c = int (length xs)"
  by (auto simp: cache_at_def cache_rep_def)

lemma step_timeout:
  assumes "cache_is c es" "e_timeout now es = (es', del)"
  shows "\<exists>d. acl_cache_timeout now c = Ret (d, freed_of c del, int (length del)) \<and> cache_is d es' \<and> ct_same_cfg c d \<and> ct_brk d = ct_brk c"
proof -
  obtain f xs where at: "cache_at c f xs" "es = map f xs" using assms(1) by (auto simp: cache_is_def)
  let ?due = "takeWhile (\<lambda>a. ci_when (f a) \<le> now) xs" and ?rest = "dropWhile (\<lambda>a. ci_when (f a) \<le> now) xs"
  have e: "es' = map f (filter (\<lambda>a. pinned (f a)) ?due @ ?rest)" "del = map f (filter (\<lambda>a. \<not> pinned (f a)) ?due)"
    using assms(2) at(2) by (auto simp: e_timeout_def Let_def takeWhile_map dropWhile_map filter_map comp_def)
  obtain d where d: "cache_timeout_loop (ct_fuel c) now c (first_of xs (Some 0)) = Ret (d, freed_of c del, int (length del))"
    "cache_at d f (filter (\<lambda>a. pinned (f a)) ?due @ ?rest)" "ct_same_cfg c d" "ct_brk d = ct_brk c"
    using timeout_loop_rep [of c f "[]" xs "ct_fuel c" now] at(1) cache_at_fuel [OF at(1)] unfolding e(2) length_map by auto
  have "acl_cache_timeout now c = Ret (d, freed_of c del, int (length del))"
    using cache_max [OF at(1)] cache_at_first [OF at(1)] d(1) by (simp add: acl_cache_timeout_def)
  then show ?thesis using cache_isI [OF d(2) e(1)] d(3,4) by blast
qed

lemma step_evict:
  assumes "cache_is c es" "e_evict es = (es', del)"
  shows "\<exists>d. cbind (ct_succ c 0) (cache_evict_loop (ct_fuel c) c) = Ret (d, freed_of c del) \<and> cache_is d es' \<and> ct_same_cfg c d
    \<and> ct_brk d = ct_brk c"
proof -
  obtain f xs where at: "cache_at c f xs" "es = map f xs" using assms(1) by (auto simp: cache_is_def)
  have e: "es' = map f (takeWhile (\<lambda>a. pinned (f a)) xs @ drop 1 (dropWhile (\<lambda>a. pinned (f a)) xs))"
    "del = map f (take 1 (dropWhile (\<lambda>a. pinned (f a)) xs))"
    using assms(2) at(2) by (auto simp: e_evict_def takeWhile_map dropWhile_map comp_def drop_map take_map)
  obtain d where d: "cache_evict_loop (ct_fuel c) c (first_of xs (Some 0)) = Ret (d, freed_of c del)"
    "cache_at d f (takeWhile (\<lambda>a. pinned (f a)) xs @ drop 1 (dropWhile (\<lambda>a. pinned (f a)) xs))" "ct_same_cfg c d" "ct_brk d = ct_brk c"
    using evict_loop_rep [of c f "[]" xs "ct_fuel c"] at(1) cache_at_fuel [OF at(1)] unfolding e(2) by auto
  then show ?thesis using cache_isI [OF d(2) e(1)] cache_at_first [OF at(1)] by auto
qed

lemma step_clean:
  assumes "cache_is c es" "e_clean force es = (es', del)"
  shows "\<exists>d. acl_cache_clean c force = Ret (d, freed_of c del, int (length del)) \<and> cache_is d es' \<and> ct_same_cfg c d"
proof -
  obtain f xs where at: "cache_at c f xs" "es = map f xs" using assms(1) by (auto simp: cache_is_def)
  let ?keep = "\<lambda>a. 0 < ci_nrefer (f a) \<and> \<not> force"
  have e: "es' = map f (filter ?keep xs)" "del = map f (filter (\<lambda>a. \<not> ?keep a) xs)"
    using assms(2) at(2) by (auto simp: e_clean_def filter_map comp_def)
  obtain d where d: "cache_clean_loop (ct_fuel c) force c (first_of xs (Some 0)) = Ret (d, freed_of c del, int (length del))"
    "cache_at d f (filter ?keep xs)" "ct_same_cfg c d"
    using clean_loop_rep [of c f "[]" xs "ct_fuel c" force] at(1) cache_at_fuel [OF at(1)] unfolding e(2) length_map append_Nil by blast
  have "acl_cache_clean c force = Ret (d, freed_of c del, int (length del))"
    using cache_max [OF at(1)] cache_at_first [OF at(1)] d(1) by (simp add: acl_cache_clean_def)
  then show ?thesis using cache_isI [OF d(2) e(1)] d(3) by blast
qed

lemma step_find:
  assumes "cache_is c es"
  shows "\<exists>d. acl_cache_find c key = Ret (d, Option.bind (e_find es key) ci_value) \<and> cache_is d es \<and> ct_same_cfg c d"
proof -
  obtain f xs where at: "cache_at c f xs" "es = map f xs" using assms(1) by (auto simp: cache_is_def)
  obtain t p where t: "acl_htable_find (ct_table c) key = Ret (t, p)" "cache_at (c\<lparr>ct_table := t\<rparr>) f xs"
    "e_find (map f xs) key = map_option f p"
    "\<And>a. p = Some a \<Longrightarrow> \<exists>A B. xs = A @ a # B \<and> ci_key (f a) = key"
    by (rule cache_at_find [OF at(1), of key], rule that)
  have "ci_get (c\<lparr>ct_table := t\<rparr>) a = Ret (f a)" if "p = Some a" for a
    using t(4) [OF that] cache_atD(2) [OF t(2), of a] by auto
  then show ?thesis
    using t(1,3) at(2) cache_max [OF at(1)] cache_isI [OF t(2)] cache_at_table(1) [of c t]
    by (cases p) (auto simp: acl_cache_find_def)
qed

text \<open>Changing the entry with a key.\<close>

lemma cache_at_change:
  assumes "cache_at c f (A @ a # B)" "ci_key i = ci_key (f a)"
  shows "cache_at (ci_put c a i) (f(a := i)) (A @ a # B)" "ct_same_cfg c (ci_put c a i)"
    "map (f(a := i)) (A @ a # B) = map f A @ i # map f B"
proof -
  have rep: "cache_rep c (A @ a # B)" and keys: "ci_key (the (ct_infos c a)) = ci_key (f a)" using assms(1) by (auto simp: cache_at_def)
  have "a \<notin> set A \<union> set B" using cache_rep_distinct [OF rep] by auto
  then show "map (f(a := i)) (A @ a # B) = map f A @ i # map f B" by auto
  have "cache_rep (ci_put c a i) (A @ a # B)" by (rule cache_rep_put(1) [OF rep]) (use assms(2) keys in simp_all)
  then show "cache_at (ci_put c a i) (f(a := i)) (A @ a # B)" using assms(1) by (auto simp: cache_at_def ci_put_def)
  show "ct_same_cfg c (ci_put c a i)" by (simp add: ct_same_cfg_def ci_put_def)
qed

lemma step_refer:
  assumes "cache_is c es"
  shows "\<exists>d. acl_cache_refer2 c key = Ret d \<and> cache_is d (e_replace es key (\<lambda>i. i\<lparr>ci_nrefer := ci_nrefer i + 1\<rparr>)) \<and> ct_same_cfg c d"
    "\<exists>d. acl_cache_unrefer2 c key = Ret d \<and> cache_is d (e_replace es key (\<lambda>i. i\<lparr>ci_nrefer := ci_nrefer i - 1\<rparr>)) \<and> ct_same_cfg c d"
proof -
  obtain f xs where at: "cache_at c f xs" "es = map f xs" using assms(1) by (auto simp: cache_is_def)
  obtain t p where t: "acl_htable_find (ct_table c) key = Ret (t, p)" "cache_at (c\<lparr>ct_table := t\<rparr>) f xs"
    "p = None \<Longrightarrow> \<forall>a \<in> set xs. ci_key (f a) \<noteq> key"
    "\<And>a. p = Some a \<Longrightarrow> \<exists>A B. xs = A @ a # B \<and> ci_key (f a) = key"
    by (rule cache_at_find [OF at(1), of key], rule that)
  let ?c = "c\<lparr>ct_table := t\<rparr>"
  have none: "e_replace es key g = es" if "p = None" for g
    using t(3) [OF that] at(2) by (simp add: e_replace_def cong: map_cong)
  have some: "ci_get ?c a = Ret (f a) \<and> cache_is (ci_put ?c a (g (f a))) (e_replace es key g) \<and> ct_same_cfg c (ci_put ?c a (g (f a)))"
    if a: "p = Some a" and g: "\<And>i. ci_key (g i) = ci_key i" for a g
  proof -
    obtain A B where x: "xs = A @ a # B" "key = ci_key (f a)" using t(4) [OF a] by blast
    note ch = cache_at_change [OF t(2) [unfolded x(1)] g [of "f a"]]
    have "e_replace es key g = map f A @ g (f a) # map f B"
      unfolding at(2) x(1) by (rule remove_only(2) [of f A a B key]) (use cache_at_keys [OF at(1)] x in simp_all)
    then have "cache_is (ci_put ?c a (g (f a))) (e_replace es key g)" using cache_isI [OF ch(1) refl] unfolding ch(3) by simp
    then show ?thesis using cache_atD(2) [OF t(2), of a] x(1) ct_same_cfg_trans [OF cache_at_table(1) ch(2)] by simp
  qed
  show "\<exists>d. acl_cache_refer2 c key = Ret d \<and> cache_is d (e_replace es key (\<lambda>i. i\<lparr>ci_nrefer := ci_nrefer i + 1\<rparr>)) \<and> ct_same_cfg c d"
    using none some [of _ "\<lambda>i. i\<lparr>ci_nrefer := ci_nrefer i + 1\<rparr>"] t(1) cache_max [OF at(1)] cache_isI [OF t(2) at(2)] cache_at_table(1) [of c t]
    by (cases p) (auto simp: acl_cache_refer2_def)
  show "\<exists>d. acl_cache_unrefer2 c key = Ret d \<and> cache_is d (e_replace es key (\<lambda>i. i\<lparr>ci_nrefer := ci_nrefer i - 1\<rparr>)) \<and> ct_same_cfg c d"
    using none some [of _ "\<lambda>i. i\<lparr>ci_nrefer := ci_nrefer i - 1\<rparr>"] t(1) cache_max [OF at(1)] cache_isI [OF t(2) at(2)] cache_at_table(1) [of c t]
    by (cases p) (auto simp: acl_cache_unrefer2_def)
qed

text \<open>Moving an entry to the end of the ring.\<close>

lemma map_of_move: "distinct (map fst (A @ x # B)) \<Longrightarrow> map_of (A @ B @ [x]) = map_of (A @ x # B)"
  by (subst map_of_inject_set) auto

lemma cache_rep_requeue:
  assumes rep: "cache_rep c (A @ a # B)" and i: "ci_key i = ci_key (the (ct_infos c a))"
  shows "\<exists>h h'. acl_ring_detach (ct_ring c) (Some a) = Ret h \<and> acl_ring_prepend h (Some 0) (Some a) = Ret h'
    \<and> cache_rep ((ci_put c a i)\<lparr>ct_ring := h'\<rparr>) (A @ B @ [a])"
proof -
  note r = cache_repD [OF cache_rep_put(1) [OF rep _ i]]
  have dist: "distinct (A @ a # B)" "0 \<notin> set (A @ a # B)" using cache_rep_distinct [OF rep] by simp_all
  obtain h where h: "acl_ring_detach (ct_ring c) (Some a) = Ret h" "ring_rep h 0 (A @ B)" "ring_rep h a []"
    using ring_detach_rep [OF cache_repD(1) [OF rep]] by blast
  have "h a \<noteq> None" using ring_rep_ends [OF h(3)] by auto
  then obtain h' where h': "acl_ring_prepend h (Some 0) (Some a) = Ret h'" "ring_rep h' 0 (A @ B @ [a])"
    using ring_prepend_rep [of h 0 "A @ B" "[]" a] h(2) dist by auto
  let ?al = "info_alist (ct_infos (ci_put c a i))"
  have al: "?al (A @ a # B) = ?al A @ (ci_key i, Some a) # ?al B" "?al (A @ B @ [a]) = ?al A @ ?al B @ [(ci_key i, Some a)]"
    by (simp_all add: info_alist_def ci_put_def)
  have "map_of (?al (A @ B @ [a])) = map_of (?al (A @ a # B))"
    unfolding al by (rule map_of_move) (use r(4) al in simp)
  moreover have "distinct (map fst (?al (A @ B @ [a])))" using r(4) unfolding al by auto
  ultimately have "cache_rep ((ci_put c a i)\<lparr>ct_ring := h'\<rparr>) (A @ B @ [a])"
    using r(2,3,5-9) h'(2) unfolding cache_rep_def by auto
  with h(1) h'(1) show ?thesis by blast
qed

lemma step_update:
  assumes "cache_is c es"
  shows "\<exists>d. acl_cache_update now c key timeout = Ret d \<and> cache_is d (e_update now es key timeout) \<and> ct_same_cfg c d"
proof -
  obtain f xs where at: "cache_at c f xs" "es = map f xs" using assms(1) by (auto simp: cache_is_def)
  obtain t p where t: "acl_htable_find (ct_table c) key = Ret (t, p)" "cache_at (c\<lparr>ct_table := t\<rparr>) f xs"
    "e_find (map f xs) key = map_option f p"
    "\<And>a. p = Some a \<Longrightarrow> \<exists>A B. xs = A @ a # B \<and> ci_key (f a) = key"
    by (rule cache_at_find [OF at(1), of key], rule that)
  let ?c = "c\<lparr>ct_table := t\<rparr>"
  show ?thesis
  proof (cases p)
    case None
    then show ?thesis
      using t(1,3) at(2) cache_max [OF at(1)] cache_isI [OF t(2)] cache_at_table(1) [of c t]
      by (simp add: acl_cache_update_def e_update_def)
  next
    case (Some a)
    then obtain A B where x: "xs = A @ a # B" "key = ci_key (f a)" using t(4) by blast
    let ?i = "f a\<lparr>ci_when := (if timeout > 0 then now + timeout else 0)\<rparr>"
    have rep: "cache_rep ?c (A @ a # B)" and infos: "\<forall>b \<in> set (A @ a # B). ct_infos ?c b = Some (f b)"
      using t(2) by (simp_all add: cache_at_def x(1))
    have k: "ci_key ?i = ci_key (the (ct_infos ?c a))" using infos by simp
    obtain h h' where h: "acl_ring_detach (ct_ring ?c) (Some a) = Ret h" "acl_ring_prepend h (Some 0) (Some a) = Ret h'"
      "cache_rep ((ci_put ?c a ?i)\<lparr>ct_ring := h'\<rparr>) (A @ B @ [a])" using cache_rep_requeue [OF rep k] by blast
    let ?d = "(ci_put ?c a ?i)\<lparr>ct_ring := h'\<rparr>"
    have "cache_at ?d (f(a := ?i)) (A @ B @ [a])" using h(3) infos by (auto simp: cache_at_def ci_put_def)
    moreover have "e_update now es key timeout = map (f(a := ?i)) (A @ B @ [a])"
      using remove_only(1) [of f A a B key] cache_at_keys [OF at(1)] x t(3) Some at(2) cache_rep_distinct [OF rep]
      by (simp add: e_update_def)
    ultimately have "cache_is ?d (e_update now es key timeout)" by (rule cache_isI)
    moreover have "acl_cache_update now c key timeout = Ret ?d"
      using t(1) Some cache_max [OF at(1)] h(1,2) cache_atD(2) [OF t(2), of a] x(1)
      by (simp add: acl_cache_update_def acl_cache_update2_def)
    moreover have "ct_same_cfg c ?d" by (simp add: ct_same_cfg_def ci_put_def)
    ultimately show ?thesis by blast
  qed
qed

text \<open>A new entry.\<close>

lemma map_of_last: "map_of xs k = None \<Longrightarrow> map_of (xs @ [(k, v)]) = (map_of xs)(k \<mapsto> v)"
  by (auto simp: fun_eq_iff map_add_def split: option.split)

lemma cache_at_insert:
  assumes at: "cache_at c f xs" and new: "\<forall>a \<in> set xs. ci_key (f a) \<noteq> ci_key i"
  shows "\<exists>t h. acl_htable_enter (ct_table c) (ci_key i) (Some (ct_brk c)) = Ret (t, h)
    \<and> (\<exists>r. acl_ring_prepend ((ct_ring c)(ct_brk c \<mapsto> ring0)) (Some 0) (Some (ct_brk c)) = Ret r
      \<and> cache_at ((ci_put c (ct_brk c) i)\<lparr>ct_table := t, ct_ring := r, ct_size := ct_size c + 1, ct_brk := ct_brk c + 1\<rparr>)
          (f(ct_brk c := i)) (xs @ [ct_brk c]))"
proof -
  let ?a = "ct_brk c"
  have rep: "cache_rep c xs" using at by (simp add: cache_at_def)
  note r = cache_repD [OF rep]
  have a: "?a \<notin> set xs" "0 \<notin> set xs" "distinct xs" using r(8) cache_rep_distinct [OF rep] by auto
  have al: "info_alist ((ct_infos c)(?a \<mapsto> i)) (xs @ [?a]) = info_alist (ct_infos c) xs @ [(ci_key i, Some ?a)]"
    using a(1) by (auto simp: info_alist_def)
  have keys: "map fst (info_alist (ct_infos c) xs) = map (\<lambda>a. ci_key (f a)) xs"
    using cache_at_key [OF at] by (simp add: info_alist_def comp_def cong: map_cong)
  have none: "ht_map (ct_table c) (ci_key i) = None"
    using new unfolding r(3) map_of_eq_None_iff set_map [symmetric] keys by auto
  obtain t h where t: "acl_htable_enter (ct_table c) (ci_key i) (Some ?a) = Ret (t, h)" "ht_inv t" "ht_same_cfg (ct_table c) t"
    "ht_map t = (ht_map (ct_table c))(ci_key i \<mapsto> Some ?a)"
    using enter_rep [OF table_okD(1,4) [OF r(2)] refl, of "ci_key i" "Some ?a"] none table_okD(3) [OF r(2)] by auto
  have "ring_rep ((ct_ring c)(?a \<mapsto> ring0)) 0 xs" using a r(9) by (intro ring_rep_cong [OF r(1)]) auto
  then obtain g where g: "acl_ring_prepend ((ct_ring c)(?a \<mapsto> ring0)) (Some 0) (Some ?a) = Ret g" "ring_rep g 0 (xs @ [?a])"
    using ring_prepend_rep [of "(ct_ring c)(?a \<mapsto> ring0)" 0 xs "[]" ?a] a r(9) by auto
  let ?d = "(ci_put c ?a i)\<lparr>ct_table := t, ct_ring := g, ct_size := ct_size c + 1, ct_brk := ?a + 1\<rparr>"
  have "ht_map t = map_of (info_alist ((ct_infos c)(?a \<mapsto> i)) (xs @ [?a]))"
    using map_of_last [of "info_alist (ct_infos c) xs" "ci_key i" "Some ?a"] none unfolding t(4) al r(3) by simp
  moreover have "distinct (map fst (info_alist ((ct_infos c)(?a \<mapsto> i)) (xs @ [?a])))"
    using r(4) new unfolding al map_append keys by auto
  moreover have "dom ((ct_infos c)(?a \<mapsto> i)) = set (xs @ [?a])" using r(5) by auto
  moreover have "\<forall>b \<in> set (xs @ [?a]). b < ?a + 1" using r(8) by (auto simp: less_Suc_eq)
  ultimately have "cache_rep ?d (xs @ [?a])"
    using g(2) table_ok_same [OF r(2) t(3,2)] r(6,7) by (simp add: cache_rep_def ci_put_def)
  then have "cache_at ?d (f(?a := i)) (xs @ [?a])" using at a(1) by (auto simp: cache_at_def ci_put_def)
  with t(1) g(1) show ?thesis by blast
qed

end
