(* ===== verification/Cache_Hist.thy ===== *)
theory Cache_Hist
  imports Cache_Spec
begin

text \<open>
  Histories of a cache, from its creation to its release, and the properties of the cache.
\<close>

subsection \<open>Storing\<close>

text \<open>Making room takes entries out and changes none.\<close>

lemma mset_parts:
  "mset (takeWhile P xs) + mset (dropWhile P xs) = mset xs" "mset (filter P xs) + mset (filter (\<lambda>x. \<not> P x) xs) = mset xs"
  "mset (take n xs) + mset (drop n xs) = mset xs"
  by (metis mset_append takeWhile_dropWhile_id, induction xs, simp_all, metis append_take_drop_id mset_append)

lemma e_timeout_mset: "e_timeout now es = (es', del) \<Longrightarrow> mset es' + mset del = mset es"
proof -
  assume e: "e_timeout now es = (es', del)"
  let ?due = "takeWhile (\<lambda>i. ci_when i \<le> now) es" and ?rest = "dropWhile (\<lambda>i. ci_when i \<le> now) es"
  have "mset (filter pinned ?due) + mset (filter (\<lambda>x. \<not> pinned x) ?due) + mset ?rest = mset es"
    by (simp add: mset_parts del: mset_filter)
  moreover have "es' = filter pinned ?due @ ?rest" "del = filter (\<lambda>i. \<not> pinned i) ?due"
    using e by (simp_all add: e_timeout_def Let_def)
  ultimately show ?thesis by (simp add: ac_simps del: mset_filter)
qed

lemma e_evict_mset: "e_evict es = (es', del) \<Longrightarrow> mset es' + mset del = mset es"
proof -
  assume e: "e_evict es = (es', del)"
  let ?keep = "takeWhile pinned es" and ?rest = "dropWhile pinned es"
  have "mset ?keep + (mset (take 1 ?rest) + mset (drop 1 ?rest)) = mset es" by (simp only: mset_parts)
  moreover have "es' = ?keep @ drop 1 ?rest" "del = take 1 ?rest" using e by (simp_all add: e_evict_def)
  ultimately show ?thesis by (simp add: ac_simps)
qed

lemma e_room_mset: "e_room mx now es = (es', del) \<Longrightarrow> mset es' + mset del = mset es"
proof -
  assume e: "e_room mx now es = (es', del)"
  obtain es1 del1 where r: "(if int (length es) \<ge> mx then e_timeout now es else (es, [])) = (es1, del1)" by fastforce
  obtain es2 del2 where s: "(if int (length es1) \<ge> mx then e_evict es1 else (es1, [])) = (es2, del2)" by fastforce
  have 1: "mset es1 + mset del1 = mset es" using r e_timeout_mset [of now es es1 del1] by (cases "int (length es) \<ge> mx") auto
  have 2: "mset es2 + mset del2 = mset es1" using s e_evict_mset [of es1 es2 del2] by (cases "int (length es1) \<ge> mx") auto
  have "es' = es2" "del = del1 @ del2" using e r s by (auto simp: e_room_def Let_def)
  then show ?thesis by (simp only: 1 [symmetric] 2 [symmetric] mset_append ac_simps)
qed

lemma e_room_stale: "e_room mx now es = (es', del) \<Longrightarrow> set es' \<subseteq> set es"
  using e_room_mset by (metis mset_subset_eq_add_left set_mset_mono set_mset_mset)

lemma step_room:
  assumes "cache_is c es" "e_room (ct_max c) now es = (es', del)"
  shows "\<exists>d del1 del2 n e. (if ct_size c \<ge> ct_max c then acl_cache_timeout now c else Ret (c, [], 0)) = Ret (e, freed_of c del1, n)
    \<and> (if ct_size e \<ge> ct_max e then cbind (ct_succ e 0) (cache_evict_loop (ct_fuel e) e) else Ret (e, [])) = Ret (d, freed_of c del2)
    \<and> del = del1 @ del2 \<and> cache_is d es' \<and> ct_same_cfg c d"
proof -
  let ?r = "if int (length es) \<ge> ct_max c then e_timeout now es else (es, [])"
  obtain es1 del1 where r: "?r = (es1, del1)" by (cases ?r) auto
  have "\<exists>e n. (if ct_size c \<ge> ct_max c then acl_cache_timeout now c else Ret (c, [], 0)) = Ret (e, freed_of c del1, n)
    \<and> cache_is e es1 \<and> ct_same_cfg c e"
  proof (cases "int (length es) \<ge> ct_max c")
    case True
    then show ?thesis using r step_timeout [OF assms(1), of now es1 del1] cache_is_len [OF assms(1)] by auto
  next
    case False
    then show ?thesis using r assms(1) cache_is_len [OF assms(1)] by auto
  qed
  then obtain e n where e: "(if ct_size c \<ge> ct_max c then acl_cache_timeout now c else Ret (c, [], 0)) = Ret (e, freed_of c del1, n)"
    "cache_is e es1" "ct_same_cfg c e" by blast
  let ?s = "if int (length es1) \<ge> ct_max c then e_evict es1 else (es1, [])"
  obtain es2 del2 where s: "?s = (es2, del2)" by (cases ?s) auto
  have mx: "ct_max e = ct_max c" using e(3) by (simp add: ct_same_cfg_def)
  have "\<exists>d. (if ct_size e \<ge> ct_max e then cbind (ct_succ e 0) (cache_evict_loop (ct_fuel e) e) else Ret (e, [])) = Ret (d, freed_of c del2)
    \<and> cache_is d es2 \<and> ct_same_cfg e d"
  proof (cases "int (length es1) \<ge> ct_max c")
    case True
    then show ?thesis using s step_evict [OF e(2), of es2 del2] cache_is_len [OF e(2)] mx freed_of_simps(2) [OF e(3)] by auto
  next
    case False
    then show ?thesis using s e(2) cache_is_len [OF e(2)] mx by auto
  qed
  moreover have "es' = es2" "del = del1 @ del2" using assms(2) r s by (auto simp: e_room_def Let_def)
  ultimately show ?thesis using e ct_same_cfg_trans [OF e(3)] by blast
qed

lemma e_find_None: "e_find es key = None \<longleftrightarrow> (\<forall>i \<in> set es. ci_key i \<noteq> key)"
  by (auto simp: e_find_def find_None_iff)

lemma step_enter:
  assumes cis: "cache_is c es" and e: "e_enter (ct_max c) (ct_timeout c) now now' es key v = (es', del, r)" and time: "0 < ct_timeout c"
  shows "\<exists>d p. acl_cache_enter now now' c key v = Ret (d, freed_of c del, p) \<and> (p \<noteq> None \<longleftrightarrow> r) \<and> cache_is d es' \<and> ct_same_cfg c d"
proof -
  obtain f xs where at: "cache_at c f xs" "es = map f xs" using cis by (auto simp: cache_is_def)
  obtain t p where t: "acl_htable_find (ct_table c) key = Ret (t, p)" "cache_at (c\<lparr>ct_table := t\<rparr>) f xs"
    "e_find (map f xs) key = map_option f p"
    "\<And>a. p = Some a \<Longrightarrow> \<exists>A B. xs = A @ a # B \<and> ci_key (f a) = key"
    by (rule cache_at_find [OF at(1), of key], rule that)
  let ?c = "c\<lparr>ct_table := t\<rparr>"
  have mx: "\<not> ct_max c \<le> 0" using cache_is_len [OF cis] by simp
  show ?thesis
  proof (cases p)
    case (Some a)
    then obtain A B where x: "xs = A @ a # B" "key = ci_key (f a)" using t(4) by blast
    have g: "ci_get ?c a = Ret (f a)" using cache_atD(2) [OF t(2)] x(1) by simp
    show ?thesis
    proof (cases "0 < ci_nrefer (f a)")
      case True
      then show ?thesis
        using e t(1,3) g Some mx at(2) cache_isI [OF t(2)] cache_at_table(1) [of c t] by (auto simp: acl_cache_enter_def e_enter_def)
    next
      case False
      let ?i = "f a\<lparr>ci_value := v\<rparr>"
      have k: "ci_key ?i = ci_key (f a)" by simp
      note ch = cache_at_change [OF t(2) [unfolded x(1)] k]
      have es': "es' = e_replace es key (\<lambda>i. i\<lparr>ci_value := v\<rparr>)" "del = [f a]" "r"
        using e t(3) Some False at(2) by (auto simp: e_enter_def)
      have "e_replace es key (\<lambda>i. i\<lparr>ci_value := v\<rparr>) = map f A @ ?i # map f B"
        unfolding at(2) x(1) by (rule remove_only(2) [of f A a B key]) (use cache_at_keys [OF at(1)] x in simp_all)
      then have "cache_is (ci_put ?c a ?i) es'" using cache_isI [OF ch(1) refl] unfolding ch(3) es'(1) by simp
      then show ?thesis
        using t(1) g Some False mx es'(2,3) ct_same_cfg_trans [OF cache_at_table(1) ch(2)] by (auto simp: acl_cache_enter_def freed_of_def)
    qed
  next
    case None
    let ?r = "e_room (ct_max ?c) now es"
    obtain es1 dl where r: "e_room (ct_max ?c) now es = (es1, dl)" by (cases ?r) auto
    obtain d del1 del2 n h where d: "(if ct_size ?c \<ge> ct_max ?c then acl_cache_timeout now ?c else Ret (?c, [], 0)) = Ret (h, freed_of ?c del1, n)"
      "(if ct_size h \<ge> ct_max h then cbind (ct_succ h 0) (cache_evict_loop (ct_fuel h) h) else Ret (h, [])) = Ret (d, freed_of ?c del2)"
      "dl = del1 @ del2" "cache_is d es1" "ct_same_cfg ?c d"
      using step_room [OF cache_isI [OF t(2) at(2)] r] by blast
    have fr: "freed_of ?c l = freed_of c l" for l by (simp add: freed_of_def)
    have sz: "ct_size d = int (length es1)" "ct_max d = ct_max c" "ct_timeout d = ct_timeout c" "ct_same_cfg c d"
      using cache_is_len [OF d(4)] d(5) ct_same_cfg_trans [OF cache_at_table(1) d(5)] by (simp_all add: ct_same_cfg_def)
    have nf: "e_find es key = None" using t(3) None at(2) by simp
    have es': "if int (length es1) \<ge> ct_max c then es' = es1 \<and> \<not> r
      else es' = es1 @ [\<lparr>ci_key = key, ci_value = v, ci_nrefer = 0, ci_when = now' + ct_timeout c\<rparr>] \<and> r" "del = dl"
      using e nf r by (auto simp: e_enter_def Let_def split: if_splits)
    show ?thesis
    proof (cases "int (length es1) \<ge> ct_max c")
      case True
      have "acl_cache_enter now now' c key v = Ret (d, freed_of ?c del1 @ freed_of ?c del2, None)"
        using t(1) None mx d(1,2) True sz by (simp add: acl_cache_enter_def Let_def)
      then show ?thesis using True es' d(3,4) sz(4) fr by auto
    next
      case False
      let ?i = "\<lparr>ci_key = key, ci_value = v, ci_nrefer = 0, ci_when = now' + ct_timeout c\<rparr>"
      obtain g ys where at': "cache_at d g ys" "es1 = map g ys" using d(4) by (auto simp: cache_is_def)
      have "\<forall>a \<in> set ys. ci_key (g a) \<noteq> ci_key ?i"
        using e_room_stale [OF r] nf unfolding at'(2) e_find_None by auto
      from cache_at_insert [OF at'(1) this] obtain u b s where u:
        "acl_htable_enter (ct_table d) key (Some (ct_brk d)) = Ret (u, b)"
        "acl_ring_prepend ((ct_ring d)(ct_brk d \<mapsto> ring0)) (Some 0) (Some (ct_brk d)) = Ret s"
        "cache_at ((ci_put d (ct_brk d) ?i)\<lparr>ct_table := u, ct_ring := s, ct_size := ct_size d + 1, ct_brk := ct_brk d + 1\<rparr>)
          (g(ct_brk d := ?i)) (ys @ [ct_brk d])" by auto
      let ?d = "(ci_put d (ct_brk d) ?i)\<lparr>ct_table := u, ct_ring := s, ct_size := ct_size d + 1, ct_brk := ct_brk d + 1\<rparr>"
      have "ct_brk d \<notin> set ys" using cache_repD(8) [OF cache_atD(1) [OF at'(1)]] by blast
      then have "map (g(ct_brk d := ?i)) (ys @ [ct_brk d]) = es'" using es'(1) False at'(2) by auto
      then have "cache_is ?d es'" using cache_isI [OF u(3)] by simp
      moreover have "acl_cache_enter now now' c key v = Ret (?d, freed_of ?c del1 @ freed_of ?c del2, Some (ct_brk d))"
        using t(1) None mx d(1,2) False sz u(1,2) time by (simp add: acl_cache_enter_def Let_def)
      moreover have "ct_same_cfg c ?d" using sz(4) by (simp add: ct_same_cfg_def ci_put_def)
      ultimately show ?thesis using False es' d(3) fr by auto
    qed
  qed
qed

subsection \<open>Histories\<close>

datatype 'v cache_op =
  CEnter int int "byte list" "'v option" | CFind "byte list" | CDelete "byte list" | CTimeout int
| CUpdate int "byte list" int | CRefer "byte list" | CUnrefer "byte list" | CClean bool

datatype 'v cache_answer = Done | Code int | Value "'v option" | Stored bool

fun cache_exec :: "'v acl_cache \<Rightarrow> 'v cache_op \<Rightarrow> ('v acl_cache \<times> 'v option list \<times> 'v cache_answer) cres" where
  "cache_exec c (CEnter now now' key v) = map_cres (\<lambda>(c, fs, p). (c, fs, Stored (p \<noteq> None))) (acl_cache_enter now now' c key v)"
| "cache_exec c (CFind key) = map_cres (\<lambda>(c, v). (c, [], Value v)) (acl_cache_find c key)"
| "cache_exec c (CDelete key) = map_cres (\<lambda>(c, fs, r). (c, fs, Code r)) (acl_cache_delete2 c key)"
| "cache_exec c (CTimeout now) = map_cres (\<lambda>(c, fs, n). (c, fs, Code n)) (acl_cache_timeout now c)"
| "cache_exec c (CUpdate now key timeout) = map_cres (\<lambda>c. (c, [], Done)) (acl_cache_update now c key timeout)"
| "cache_exec c (CRefer key) = map_cres (\<lambda>c. (c, [], Done)) (acl_cache_refer2 c key)"
| "cache_exec c (CUnrefer key) = map_cres (\<lambda>c. (c, [], Done)) (acl_cache_unrefer2 c key)"
| "cache_exec c (CClean force) = map_cres (\<lambda>(c, fs, n). (c, fs, Code n)) (acl_cache_clean c force)"

fun entries_exec :: "int \<Rightarrow> int \<Rightarrow> 'v entries \<Rightarrow> 'v cache_op \<Rightarrow> 'v entries \<times> 'v entries \<times> 'v cache_answer" where
  "entries_exec mx timeout es (CEnter now now' key v) = (case e_enter mx timeout now now' es key v of (es, del, r) \<Rightarrow> (es, del, Stored r))"
| "entries_exec mx timeout es (CFind key) = (es, [], Value (Option.bind (e_find es key) ci_value))"
| "entries_exec mx timeout es (CDelete key) = (case e_delete es key of (es, del, r) \<Rightarrow> (es, del, Code r))"
| "entries_exec mx timeout es (CTimeout now) = (case e_timeout now es of (es, del) \<Rightarrow> (es, del, Code (int (length del))))"
| "entries_exec mx timeout es (CUpdate now key t) = (e_update now es key t, [], Done)"
| "entries_exec mx timeout es (CRefer key) = (e_replace es key (\<lambda>i. i\<lparr>ci_nrefer := ci_nrefer i + 1\<rparr>), [], Done)"
| "entries_exec mx timeout es (CUnrefer key) = (e_replace es key (\<lambda>i. i\<lparr>ci_nrefer := ci_nrefer i - 1\<rparr>), [], Done)"
| "entries_exec mx timeout es (CClean force) = (case e_clean force es of (es, del) \<Rightarrow> (es, del, Code (int (length del))))"

lemma exec_refines:
  assumes "cache_is c es" "0 < ct_timeout c" "entries_exec (ct_max c) (ct_timeout c) es op = (es', del, ans)"
  shows "\<exists>d. cache_exec c op = Ret (d, freed_of c del, ans) \<and> cache_is d es' \<and> ct_same_cfg c d"
proof (cases op)
  case (CEnter now now' key v)
  obtain es1 del1 r where "e_enter (ct_max c) (ct_timeout c) now now' es key v = (es1, del1, r)" by (metis prod_cases3)
  then show ?thesis using step_enter [OF assms(1) _ assms(2)] assms(3) CEnter by fastforce
next
  case (CDelete key)
  obtain es1 del1 r where "e_delete es key = (es1, del1, r)" by (metis prod_cases3)
  then show ?thesis using step_delete [OF assms(1)] assms(3) CDelete by fastforce
next
  case (CTimeout now)
  obtain es1 del1 where "e_timeout now es = (es1, del1)" by fastforce
  then show ?thesis using step_timeout [OF assms(1)] assms(3) CTimeout by fastforce
next
  case (CClean force)
  obtain es1 del1 where "e_clean force es = (es1, del1)" by fastforce
  then show ?thesis using step_clean [OF assms(1)] assms(3) CClean by fastforce
next
  case (CFind key)
  then show ?thesis using step_find [OF assms(1), of key] assms(3) by auto
next
  case (CUpdate now key timeout)
  then show ?thesis using step_update [OF assms(1), of now key timeout] assms(3) by auto
next
  case (CRefer key)
  then show ?thesis using step_refer(1) [OF assms(1), of key] assms(3) by auto
next
  case (CUnrefer key)
  then show ?thesis using step_refer(2) [OF assms(1), of key] assms(3) by auto
qed

fun cache_run :: "'v acl_cache \<Rightarrow> 'v cache_op list \<Rightarrow> ('v acl_cache \<times> 'v option list \<times> 'v cache_answer list) cres" where
  "cache_run c [] = Ret (c, [], [])"
| "cache_run c (op # ops) = cbind (cache_exec c op) (\<lambda>(c, fs, r).
     map_cres (\<lambda>(c, gs, rs). (c, fs @ gs, r # rs)) (cache_run c ops))"

fun entries_run :: "int \<Rightarrow> int \<Rightarrow> 'v entries \<Rightarrow> 'v cache_op list \<Rightarrow> 'v entries \<times> 'v entries \<times> 'v cache_answer list" where
  "entries_run mx timeout es [] = (es, [], [])"
| "entries_run mx timeout es (op # ops) = (case entries_exec mx timeout es op of (es, del, r) \<Rightarrow>
     (case entries_run mx timeout es ops of (es, del', rs) \<Rightarrow> (es, del @ del', r # rs)))"

lemma run_refines:
  assumes "cache_is c es" "0 < ct_timeout c" "entries_run (ct_max c) (ct_timeout c) es ops = (es', del, rs)"
  shows "\<exists>d. cache_run c ops = Ret (d, freed_of c del, rs) \<and> cache_is d es' \<and> ct_same_cfg c d"
  using assms
proof (induction ops arbitrary: c es del rs)
  case (Cons op ops)
  obtain es1 del1 r where x: "entries_exec (ct_max c) (ct_timeout c) es op = (es1, del1, r)" by (metis prod_cases3)
  obtain del2 rs2 where y: "entries_run (ct_max c) (ct_timeout c) es1 ops = (es', del2, rs2)" "del = del1 @ del2" "rs = r # rs2"
    using Cons.prems(3) x by (auto split: prod.splits)
  obtain d where d: "cache_exec c op = Ret (d, freed_of c del1, r)" "cache_is d es1" "ct_same_cfg c d"
    using exec_refines [OF Cons.prems(1,2) x] by blast
  have cfg: "ct_max d = ct_max c" "ct_timeout d = ct_timeout c" using d(3) by (simp_all add: ct_same_cfg_def)
  obtain e where e: "cache_run d ops = Ret (e, freed_of d del2, rs2)" "cache_is e es'" "ct_same_cfg d e"
    using Cons.IH [OF d(2)] Cons.prems(2) y(1) cfg by auto
  have "cache_run c (op # ops) = Ret (e, freed_of c del, rs)"
    using d(1) e(1) y(2,3) freed_of_simps(2) [OF d(3)] by simp
  then show ?case using e(2) ct_same_cfg_trans [OF d(3) e(3)] by blast
qed simp

subsection \<open>Creation, walking and release\<close>

lemma cache_create:
  assumes "0 < mx" "0 < timeout"
  shows "\<exists>c. acl_cache_create mx timeout ff = Ret (Some c) \<and> cache_is (c :: 'v acl_cache) [] \<and> ct_max c = mx \<and> ct_timeout c = timeout
    \<and> ct_free_fn c = ff"
proof -
  obtain h where h: "acl_ring_init [0 \<mapsto> ring0] (Some 0) = Ret h" "ring_rep h 0 []"
    using ring_init_rep [of "[0 \<mapsto> ring0]" 0] by auto
  let ?t = "acl_htable_create 100 0 :: nat acl_htable"
  let ?c = "\<lparr>ct_table = ?t, ct_ring = h, ct_max = mx, ct_size = 0, ct_timeout = timeout, ct_free_fn = ff, ct_lock = False,
    ct_infos = (\<lambda>_. None), ct_brk = 1\<rparr> :: 'v acl_cache"
  have "ht_rwlock ?t = None" by (simp add: acl_htable_create_def flag_use_lock_def Let_def htable_size_def)
  then have "table_ok ?t" using create_rep [of ?t 100 0] by (simp add: table_ok_def)
  then have "cache_rep ?c []" using h(2) assms create_rep(2) [of ?t 100 0] by (simp add: cache_rep_def info_alist_def)
  then have "cache_is ?c []" by (intro cache_isI [of _ "\<lambda>_. undefined" "[]"]) (simp_all add: cache_at_def)
  moreover have "acl_cache_create mx timeout ff = Ret (Some ?c)" using assms h(1) by (simp add: acl_cache_create_def)
  ultimately show ?thesis by auto
qed

lemma cache_walk_free:
  assumes "cache_is c es"
  shows "acl_cache_walk c = Ret es" "acl_cache_free c = Ret (freed_of c es)" "acl_cache_size c = int (length es)"
proof -
  obtain f xs where at: "cache_at c f xs" "es = map f xs" using assms by (auto simp: cache_is_def)
  show "acl_cache_walk c = Ret es"
    using walk_loop_rep [of c f "[]" xs "ct_fuel c"] at cache_at_fuel [OF at(1)] cache_max [OF at(1)] cache_at_first [OF at(1)]
    by (simp add: acl_cache_walk_def)
  show "acl_cache_free c = Ret (freed_of c es)"
    using free_loop_rep [OF at(1) cache_at_fuel [OF at(1)]] at(2) cache_max [OF at(1)] by (simp add: acl_cache_free_def)
  show "acl_cache_size c = int (length es)" using cache_max [OF at(1)] at(2) by (simp add: acl_cache_size_def)
qed

subsection \<open>The cache as an iterable container\<close>

text \<open>The values of a cache, none of which is null.\<close>

definition cache_full :: "'v acl_cache \<Rightarrow> bool" where
  "cache_full c \<longleftrightarrow> (\<exists>es. cache_is c es \<and> (\<forall>i \<in> set es. ci_value i \<noteq> None))"

definition cache_values :: "'v acl_cache \<Rightarrow> 'v list" where
  "cache_values c = (case acl_cache_walk c of Ret es \<Rightarrow> map (\<lambda>i. the (ci_value i)) es | Fault \<Rightarrow> [])"

text \<open>An iterator at position \<open>k\<close> of the addresses \<open>ord xs\<close>.\<close>

definition cache_stands :: "(nat list \<Rightarrow> nat list) \<Rightarrow> 'v acl_cache \<Rightarrow> nat \<Rightarrow> (nat, 'v) acl_iter \<Rightarrow> bool" where
  "cache_stands ord c k it \<longleftrightarrow> (\<exists>f xs. cache_at c f xs \<and> it_ptr it = (if k < length xs then Some (ord xs ! k) else None)
     \<and> (k < length xs \<longrightarrow> it_data it = ci_value (f (ord xs ! k))))"

lemma cache_fullD:
  assumes "cache_full c" "cache_at c f xs"
  shows "cache_values c = map (\<lambda>a. the (ci_value (f a))) xs" "\<And>a. a \<in> set xs \<Longrightarrow> ci_value (f a) \<noteq> None"
proof -
  have walk: "acl_cache_walk c = Ret (map f xs)" by (rule cache_walk_free(1) [OF cache_isI [OF assms(2) refl]])
  then show "cache_values c = map (\<lambda>a. the (ci_value (f a))) xs" by (simp add: cache_values_def comp_def)
  obtain es where "cache_is c es" "\<forall>i \<in> set es. ci_value i \<noteq> None" using assms(1) by (auto simp: cache_full_def)
  moreover from this have "es = map f xs" using cache_walk_free(1) [of c es] walk by simp
  ultimately show "ci_value (f a) \<noteq> None" if "a \<in> set xs" for a using that by simp
qed

lemma cache_full_at: "cache_full c \<Longrightarrow> \<exists>f xs. cache_at c f xs"
  by (auto simp: cache_full_def cache_is_def)

text \<open>Moving the iterator to a neighbour, or to the head of the ring.\<close>

lemma iter_to:
  assumes "cache_at c f xs" "p = first_of ys (Some 0)" "set ys \<subseteq> set xs"
  shows "\<exists>it'. cache_iter_to c p it i = Ret it' \<and> it_ptr it' = (case ys of [] \<Rightarrow> None | a # _ \<Rightarrow> Some a)
    \<and> (\<forall>a zs. ys = a # zs \<longrightarrow> it_data it' = ci_value (f a))"
proof (cases ys)
  case Nil
  then show ?thesis using assms(2) by (simp add: cache_iter_to_def)
next
  case (Cons a zs)
  then have "a \<in> set xs" using assms(3) by simp
  moreover from this have "a \<noteq> 0" using cache_rep_distinct [OF cache_atD(1) [OF assms(1)]] by metis
  ultimately show ?thesis using Cons assms(2) cache_atD(2) [OF assms(1)] by (simp add: cache_iter_to_def)
qed

interpretation cache_fwd: acl_iterable cache_iter_head cache_iter_next cache_values cache_full "cache_stands (\<lambda>xs. xs)"
proof
  fix c :: "'v acl_cache" and it k
  assume full: "cache_full c"
  obtain f xs where at: "cache_at c f xs" using cache_full_at [OF full] by blast
  let ?it0 = "\<lparr>it_ptr = None, it_data = None, it_dlen = -1, it_key = None, it_klen = 0, it_i = 0, it_size = ct_size c\<rparr>"
  obtain it0 where it0: "cache_iter_to c (first_of xs (Some 0)) ?it0 0 = Ret it0" "it_ptr it0 = (case xs of [] \<Rightarrow> None | a # _ \<Rightarrow> Some a)"
    "\<forall>a zs. xs = a # zs \<longrightarrow> it_data it0 = ci_value (f a)" using iter_to [OF at refl order_refl] by blast
  then have "cache_iter_head c = Ret it0" using cache_at_first [OF at] by (simp add: cache_iter_head_def)
  moreover have "cache_stands (\<lambda>xs. xs) c 0 it0"
    unfolding cache_stands_def using at it0(2,3) by (intro exI [of _ f] exI [of _ xs]) (cases xs; simp)
  ultimately show "\<exists>it. cache_iter_head c = Ret it \<and> cache_stands (\<lambda>xs. xs) c 0 it" by blast
  assume "cache_stands (\<lambda>xs. xs) c k it"
  then obtain f xs where st: "cache_at c f xs" "it_ptr it = (if k < length xs then Some (xs ! k) else None)"
    "k < length xs \<longrightarrow> it_data it = ci_value (f (xs ! k))" by (auto simp: cache_stands_def)
  note v = cache_fullD [OF full st(1)]
  show "it_ptr it \<noteq> None \<and> it_data it = Some (cache_values c ! k)" if "k < length (cache_values c)"
    using st v(1) v(2) [of "xs ! k"] that by simp
  show "\<exists>it'. cache_iter_next it c = Ret it' \<and> cache_stands (\<lambda>xs. xs) c (Suc k) it'" if k: "k < length (cache_values c)"
  proof -
    have k: "k < length xs" using k v(1) by simp
    then have x: "xs = take k xs @ xs ! k # drop (Suc k) xs" by (rule id_take_nth_drop)
    have "ct_succ c (xs ! k) = Ret (first_of (drop (Suc k) xs) (Some 0))"
      by (rule cache_at_succ(1) [of c f "take k xs"]) (use st(1) x in simp)
    moreover obtain it' where it': "cache_iter_to c (first_of (drop (Suc k) xs) (Some 0)) it (it_i it + 1) = Ret it'"
      "it_ptr it' = (case drop (Suc k) xs of [] \<Rightarrow> None | a # _ \<Rightarrow> Some a)" "\<forall>a zs. drop (Suc k) xs = a # zs \<longrightarrow> it_data it' = ci_value (f a)"
      using iter_to [OF st(1) refl set_drop_subset] by blast
    ultimately have "cache_iter_next it c = Ret it'" using st(2) k by (simp add: cache_iter_next_def)
    moreover have "cache_stands (\<lambda>xs. xs) c (Suc k) it'"
    proof (cases "Suc k < length xs")
      case True
      then have "drop (Suc k) xs = xs ! Suc k # drop (Suc (Suc k)) xs" by (simp add: Cons_nth_drop_Suc)
      then show ?thesis unfolding cache_stands_def using st(1) it'(2,3) True by (intro exI [of _ f] exI [of _ xs]) simp
    next
      case False
      then show ?thesis unfolding cache_stands_def using st(1) it'(2) by (intro exI [of _ f] exI [of _ xs]) simp
    qed
    ultimately show ?thesis by blast
  qed
next
  fix c :: "'v acl_cache" and it
  assume full: "cache_full c" and "cache_stands (\<lambda>xs. xs) c (length (cache_values c)) it"
  then obtain f xs where st: "cache_at c f xs" "it_ptr it = (if length (cache_values c) < length xs then Some (xs ! length (cache_values c)) else None)"
    by (auto simp: cache_stands_def)
  show "it_ptr it = None" unfolding st(2) using cache_fullD(1) [OF full st(1)] by simp
qed

subsection \<open>What an entry can rely on\<close>

lemma pinned_stays: "e_room mx now es = (es', del) \<Longrightarrow> i \<in> set es \<Longrightarrow> pinned i \<Longrightarrow> i \<in> set es'"
proof -
  assume e: "e_room mx now es = (es', del)" and i: "i \<in> set es" "pinned i"
  have "\<not> pinned j" if "j \<in> set del" for j
  proof -
    have "\<not> pinned j" if "j \<in> set (take 1 (dropWhile pinned xs))" for xs
      using that hd_dropWhile [of pinned xs] by (cases "dropWhile pinned xs") auto
    then show ?thesis using e that by (auto simp: e_room_def e_timeout_def e_evict_def Let_def split: if_splits)
  qed
  then have "i \<notin> set del" using i by blast
  moreover have "set es' \<union> set del = set es" using e_room_mset [OF e] by (metis set_mset_mset set_mset_union)
  ultimately show ?thesis using i by blast
qed

lemma e_room_len:
  assumes "int (length es) \<le> mx" "0 < mx" "e_room mx now es = (es', del)"
  shows "int (length es') \<le> mx" "int (length es') = mx \<Longrightarrow> \<forall>i \<in> set es'. pinned i"
proof -
  have "length es' + length del = length es" using e_room_mset [OF assms(3)] by (metis size_mset size_union)
  then show "int (length es') \<le> mx" using assms(1) by simp
  show "\<forall>i \<in> set es'. pinned i" if full: "int (length es') = mx"
  proof -
    have "length del = 0" using full assms(1) \<open>length es' + length del = length es\<close> by linarith
    then have none: "length es = length es'" "del = []" using \<open>length es' + length del = length es\<close> by simp_all
    obtain es1 del1 where r: "(if int (length es) \<ge> mx then e_timeout now es else (es, [])) = (es1, del1)" by fastforce
    have d: "e_evict es1 = (es', [])" "del1 = []" using assms(3) r none full e_evict_mset [of es1]
      by (auto simp: e_room_def Let_def split: if_splits prod.splits)
    then have "take 1 (dropWhile pinned es1) = []" "es' = takeWhile pinned es1 @ drop 1 (dropWhile pinned es1)" by (simp_all add: e_evict_def)
    moreover from this have "dropWhile pinned es1 = []" by (cases "dropWhile pinned es1") simp_all
    ultimately have "es' = takeWhile pinned es1" by simp
    then show ?thesis by (auto dest: set_takeWhileD)
  qed
qed

lemma e_find_replace: "(\<And>i. ci_key (g i) = ci_key i) \<Longrightarrow> e_find (e_replace es key g) key = map_option g (e_find es key)"
  unfolding e_find_def e_replace_def by (induction es) simp_all

lemma e_enter_spec:
  assumes keys: "distinct (map ci_key es)" and len: "int (length es) \<le> mx" "0 < mx"
    and e: "e_enter mx timeout now now' es key v = (es', del, r)"
  shows "int (length es') \<le> mx" "\<And>i. i \<in> set es \<Longrightarrow> 0 < ci_nrefer i \<Longrightarrow> i \<in> set es'"
    "r \<Longrightarrow> Option.bind (e_find es' key) ci_value = v"
    "\<not> r \<Longrightarrow> (\<exists>i \<in> set es. ci_key i = key \<and> 0 < ci_nrefer i \<and> es' = es) \<or> int (length es') = mx \<and> (\<forall>i \<in> set es'. pinned i)"
proof -
  consider (held) i where "e_find es key = Some i" "0 < ci_nrefer i" "es' = es" "\<not> r"
    | (old) i where "e_find es key = Some i" "\<not> 0 < ci_nrefer i" "es' = e_replace es key (\<lambda>i. i\<lparr>ci_value := v\<rparr>)" "r"
    | (full) "e_find es key = None" "e_room mx now es = (es', del)" "int (length es') \<ge> mx" "\<not> r"
    | (new) es1 where "e_find es key = None" "e_room mx now es = (es1, del)" "int (length es1) < mx" "r"
        "es' = es1 @ [\<lparr>ci_key = key, ci_value = v, ci_nrefer = 0, ci_when = now' + timeout\<rparr>]"
    using e by (auto simp: e_enter_def Let_def split: option.splits if_splits prod.splits)
  note cases = this
  have found: "i \<in> set es \<and> ci_key i = key" if "e_find es key = Some i" for i
    using find_SomeD that unfolding e_find_def by fast
  show "int (length es') \<le> mx" using cases
  proof cases
    case full
    then show ?thesis using e_room_len [OF len] by blast
  next
    case new
    then show ?thesis by simp
  qed (use len in \<open>simp_all add: e_replace_def\<close>)
  show "i \<in> set es'" if i: "i \<in> set es" "0 < ci_nrefer i" for i
    using cases
  proof cases
    case (old j)
    have "ci_key i \<noteq> key"
    proof
      assume "ci_key i = key"
      then have "i = j" using found [OF old(1)] i(1) keys by (metis distinct_map inj_onD)
      then show False using i(2) old(2) by simp
    qed
    then show ?thesis using i(1) unfolding old(3) e_replace_def set_map by (intro rev_image_eqI [of i]) simp_all
  next
    case full
    then show ?thesis using pinned_stays [OF full(2) i(1)] i(2) by (simp add: pinned_def)
  next
    case new
    then show ?thesis using pinned_stays [OF new(2) i(1)] i(2) by (simp add: pinned_def)
  qed (use i in simp)
  show "Option.bind (e_find es' key) ci_value = v" if r
    using cases
  proof cases
    case (old i)
    then show ?thesis by (simp add: e_find_replace)
  next
    case new
    then have "\<forall>i \<in> set es1. ci_key i \<noteq> key" using e_room_stale [OF new(2)] by (auto simp: e_find_None)
    then have "e_find es' key = Some \<lparr>ci_key = key, ci_value = v, ci_nrefer = 0, ci_when = now' + timeout\<rparr>"
      unfolding new(5) by (induction es1) (simp_all add: e_find_def)
    then show ?thesis by simp
  qed (use that in simp_all)
  show "(\<exists>i \<in> set es. ci_key i = key \<and> 0 < ci_nrefer i \<and> es' = es) \<or> int (length es') = mx \<and> (\<forall>i \<in> set es'. pinned i)" if "\<not> r"
    using cases
  proof cases
    case (held i)
    then show ?thesis using found by blast
  next
    case full
    then show ?thesis using e_room_len [OF len full(2)] by auto
  qed (use that in simp_all)
qed

lemma cache_is_keys: "cache_is c es \<Longrightarrow> distinct (map ci_key es)"
  using cache_at_keys by (auto simp: cache_is_def comp_def)

subsection \<open>Nothing leaks\<close>

text \<open>The values that a history has stored.\<close>

fun stored :: "'v cache_op list \<Rightarrow> 'v cache_answer list \<Rightarrow> 'v option list" where
  "stored (CEnter now now' key v # ops) (Stored r # rs) = (if r then [v] else []) @ stored ops rs"
| "stored (op # ops) (r # rs) = stored ops rs"
| "stored ops rs = []"

abbreviation values_of :: "'v entries \<Rightarrow> 'v option multiset" where
  "values_of es \<equiv> mset (map ci_value es)"

lemma values_sum: "mset es' + mset del = mset es \<Longrightarrow> values_of es' + values_of del = values_of es"
  by (metis image_mset_union mset_map)

lemma split_unique:
  assumes "distinct (map ci_key es)" "e_find es key = Some i"
  shows "\<exists>A B. es = A @ i # B \<and> e_remove es key = A @ B \<and> (\<forall>g. e_replace es key g = A @ g i # B)"
proof -
  have i: "i \<in> set es" "ci_key i = key" using find_SomeD assms(2) unfolding e_find_def by fast+
  then obtain A B where x: "es = A @ i # B" by (meson split_list)
  have "\<forall>j \<in> set A \<union> set B. ci_key j \<noteq> key" using assms(1) i(2) unfolding x by (auto simp: rev_image_eqI)
  then have "filter (\<lambda>j. ci_key j \<noteq> key) A = A" "filter (\<lambda>j. ci_key j \<noteq> key) B = B"
    "map (\<lambda>j. if ci_key j = key then g j else j) A = A" "map (\<lambda>j. if ci_key j = key then g j else j) B = B" for g
    by (simp_all add: filter_id_conv map_idI)
  then show ?thesis using i(2) by (intro exI [of _ A] exI [of _ B]) (simp add: x e_remove_def e_replace_def)
qed

lemma e_replace_none: "e_find es key = None \<Longrightarrow> e_replace es key g = es"
  by (simp add: e_find_None e_replace_def map_idI)

lemma replace_values: "(\<And>i. ci_value (g i) = ci_value i) \<Longrightarrow> map ci_value (e_replace es key g) = map ci_value es"
  unfolding e_replace_def by (induction es) simp_all

lemma exec_values:
  assumes "distinct (map ci_key es)" "entries_exec mx timeout es op = (es', del, r)"
  shows "values_of es' + values_of del = values_of es + mset (stored [op] [r])"
proof (cases op)
  case (CEnter now now' key v)
  obtain b where e: "e_enter mx timeout now now' es key v = (es', del, b)" "r = Stored b" using assms(2) CEnter by (auto split: prod.splits)
  show ?thesis
  proof (cases "e_find es key")
    case None
    obtain es1 d where rm: "e_room mx now es = (es1, d)" by fastforce
    have "values_of es1 + values_of d = values_of es" by (rule values_sum [OF e_room_mset [OF rm]])
    then show ?thesis using e None rm CEnter by (auto simp: e_enter_def Let_def ac_simps split: if_splits)
  next
    case (Some i)
    obtain A B where "es = A @ i # B" "\<forall>g. e_replace es key g = A @ g i # B" using split_unique [OF assms(1) Some] by blast
    then show ?thesis using e Some CEnter by (auto simp: e_enter_def split: if_splits)
  qed
next
  case (CDelete key)
  show ?thesis
  proof (cases "e_find es key")
    case None
    then show ?thesis using assms(2) CDelete by (auto simp: e_delete_def)
  next
    case (Some i)
    obtain A B where x: "es = A @ i # B" "e_remove es key = A @ B" using split_unique [OF assms(1) Some] by blast
    have "values_of (e_remove es key) + {#ci_value i#} = values_of es" unfolding x(2) by (simp add: x(1))
    then show ?thesis using assms(2) CDelete Some by (auto simp: e_delete_def split: if_splits)
  qed
next
  case (CTimeout now)
  then show ?thesis using assms(2) values_sum [OF e_timeout_mset [of now es es' del]] by (auto split: prod.splits)
next
  case (CUpdate now key t)
  show ?thesis
  proof (cases "e_find es key")
    case None
    then show ?thesis using assms(2) CUpdate by (auto simp: e_update_def)
  next
    case (Some i)
    obtain A B where "es = A @ i # B" "e_remove es key = A @ B" using split_unique [OF assms(1) Some] by blast
    then show ?thesis using assms(2) CUpdate Some by (auto simp: e_update_def)
  qed
next
  case (CClean force)
  have "mset (filter (\<lambda>i. 0 < ci_nrefer i \<and> \<not> force) es) + mset (filter (\<lambda>i. \<not> (0 < ci_nrefer i \<and> \<not> force)) es) = mset es"
    by (rule mset_parts(2))
  from values_sum [OF this] show ?thesis using assms(2) CClean by (auto simp: e_clean_def)
next
  case (CRefer key)
  then show ?thesis using assms(2) by (auto simp: replace_values simp del: mset_map)
next
  case (CUnrefer key)
  then show ?thesis using assms(2) by (auto simp: replace_values simp del: mset_map)
qed (use assms(2) in auto)

lemma stored_Cons: "stored (op # ops) (r # rs) = stored [op] [r] @ stored ops rs"
  by (cases op; cases r) simp_all

lemma run_values:
  assumes "cache_is c es" "0 < ct_timeout c" "entries_run (ct_max c) (ct_timeout c) es ops = (es', del, rs)"
  shows "values_of es' + values_of del = values_of es + mset (stored ops rs)"
  using assms
proof (induction ops arbitrary: c es del rs)
  case (Cons op ops)
  obtain es1 del1 r where x: "entries_exec (ct_max c) (ct_timeout c) es op = (es1, del1, r)" by (metis prod_cases3)
  obtain del2 rs2 where y: "entries_run (ct_max c) (ct_timeout c) es1 ops = (es', del2, rs2)" "del = del1 @ del2" "rs = r # rs2"
    using Cons.prems(3) x by (auto split: prod.splits)
  obtain d where d: "cache_is d es1" "ct_same_cfg c d" using exec_refines [OF Cons.prems(1,2) x] by blast
  have "values_of es' + values_of del2 = values_of es1 + mset (stored ops rs2)"
    using Cons.IH [OF d(1)] Cons.prems(2) y(1) d(2) by (simp add: ct_same_cfg_def)
  moreover have "values_of es1 + values_of del1 = values_of es + mset (stored [op] [r])"
    by (rule exec_values [OF cache_is_keys [OF Cons.prems(1)] x])
  ultimately show ?case unfolding y(2,3) stored_Cons [of op ops] by (simp add: ac_simps)
qed simp

subsection \<open>Properties\<close>

text \<open>
  C23: The cache is the list of its entries in the order of their insertion or last update. Whatever is
  done to a new cache, every operation returns; its answer and what it gives to \<open>free_fn\<close> are those of
  the operation on the list; and at the end the walk visits the list, the size is its length, and
  releasing the cache frees it.
\<close>

theorem cache_refines:
  assumes "0 < mx" "0 < timeout"
  shows "\<exists>c d. acl_cache_create mx timeout ff = Ret (Some (c :: 'v acl_cache))
    \<and> (case entries_run mx timeout [] ops of (es, del, rs) \<Rightarrow>
        cache_run c ops = Ret (d, if ff then map ci_value del else [], rs) \<and> acl_cache_walk d = Ret es
        \<and> acl_cache_size d = int (length es) \<and> acl_cache_free d = Ret (if ff then map ci_value es else []))"
proof -
  obtain c :: "'v acl_cache" where c: "acl_cache_create mx timeout ff = Ret (Some c)" "cache_is c []" "ct_max c = mx" "ct_timeout c = timeout"
    "ct_free_fn c = ff" using cache_create [OF assms] by blast
  obtain es del rs where e: "entries_run mx timeout [] ops = (es, del, rs)" by (metis prod_cases3)
  obtain d where d: "cache_run c ops = Ret (d, freed_of c del, rs)" "cache_is d es" "ct_same_cfg c d"
    using run_refines [OF c(2), of ops es del rs] c(3,4) assms(2) e by auto
  show ?thesis
    using c(1) d(1) cache_walk_free [OF d(2)] d(3) c(5) e by (auto simp: freed_of_def ct_same_cfg_def)
qed

lemma cache_refines_witness:
  "\<exists>c d. acl_cache_create 2 10 True = Ret (Some (c :: nat acl_cache))
    \<and> (case entries_run 2 10 [] [CEnter 0 0 [97] (Some 1), CEnter 0 0 [98] (Some 2), CRefer [97], CEnter 5 5 [99] (Some 3)] of (es, del, rs) \<Rightarrow>
        cache_run c [CEnter 0 0 [97] (Some 1), CEnter 0 0 [98] (Some 2), CRefer [97], CEnter 5 5 [99] (Some 3)]
          = Ret (d, if True then map ci_value del else [], rs) \<and> acl_cache_walk d = Ret es
        \<and> acl_cache_size d = int (length es) \<and> acl_cache_free d = Ret (if True then map ci_value es else []))"
  by (rule cache_refines) simp_all

text \<open>
  C24: No value is lost or freed twice. Over any history of a new cache with a \<open>free_fn\<close>, and the release of
  the cache at its end, \<open>free_fn\<close> gets exactly the values that were stored, each as often as it was stored.
\<close>

theorem cache_conserves:
  assumes "0 < mx" "0 < timeout"
  shows "\<exists>c d fs rs gs. acl_cache_create mx timeout True = Ret (Some (c :: 'v acl_cache)) \<and> cache_run c ops = Ret (d, fs, rs)
    \<and> acl_cache_free d = Ret gs \<and> mset (fs @ gs) = mset (stored ops rs)"
proof -
  obtain c :: "'v acl_cache" where c: "acl_cache_create mx timeout True = Ret (Some c)" "cache_is c []" "ct_max c = mx" "ct_timeout c = timeout"
    "ct_free_fn c" using cache_create [OF assms, of True] by blast
  obtain es del rs where e: "entries_run mx timeout [] ops = (es, del, rs)" by (metis prod_cases3)
  obtain d where d: "cache_run c ops = Ret (d, freed_of c del, rs)" "cache_is d es" "ct_same_cfg c d"
    using run_refines [OF c(2), of ops es del rs] c(3,4) assms(2) e by auto
  have "values_of es + values_of del = mset (stored ops rs)" using run_values [OF c(2)] c(3,4) assms(2) e by simp
  then show ?thesis
    using c d cache_walk_free(2) [OF d(2)] by (auto simp: freed_of_def ct_same_cfg_def ac_simps)
qed

lemma cache_conserves_witness:
  "\<exists>c d fs rs gs. acl_cache_create 1 10 True = Ret (Some (c :: nat acl_cache))
    \<and> cache_run c [CEnter 0 0 [97] (Some 1), CEnter 0 0 [98] (Some 2)] = Ret (d, fs, rs)
    \<and> acl_cache_free d = Ret gs \<and> mset (fs @ gs) = mset (stored [CEnter 0 0 [97] (Some 1), CEnter 0 0 [98] (Some 2)] rs)"
  by (rule cache_conserves) simp_all

text \<open>
  Storing. \<open>acl_cache_enter\<close> never exceeds the capacity and never deletes an entry that is referred to.
  When it succeeds the value is found under its key; it fails only if the key has an entry that is
  referred to, or if the cache is full of entries that are referred to or never expire.
\<close>

theorem cache_enter_spec:
  assumes "cache_is c es" "int (length es) \<le> ct_max c" "0 < ct_timeout c"
  shows "\<exists>d fs p es'. acl_cache_enter now now' c key v = Ret (d, fs, p) \<and> cache_is d es' \<and> int (length es') \<le> ct_max c
    \<and> {i \<in> set es. 0 < ci_nrefer i} \<subseteq> set es'
    \<and> (if p \<noteq> None then \<exists>d'. acl_cache_find d key = Ret (d', v)
       else (\<exists>i \<in> set es. ci_key i = key \<and> 0 < ci_nrefer i \<and> es' = es) \<or> int (length es') = ct_max c \<and> (\<forall>i \<in> set es'. pinned i))"
proof -
  obtain es' del r where e: "e_enter (ct_max c) (ct_timeout c) now now' es key v = (es', del, r)" by (metis prod_cases3)
  obtain d p where d: "acl_cache_enter now now' c key v = Ret (d, freed_of c del, p)" "p \<noteq> None \<longleftrightarrow> r" "cache_is d es'"
    using step_enter [OF assms(1) e assms(3)] by blast
  have mx: "0 < ct_max c" using cache_is_len [OF assms(1)] by simp
  note s = e_enter_spec [OF cache_is_keys [OF assms(1)] assms(2) mx e]
  obtain d' where "acl_cache_find d key = Ret (d', Option.bind (e_find es' key) ci_value)" using step_find [OF d(3), of key] by blast
  then have "if p \<noteq> None then \<exists>d'. acl_cache_find d key = Ret (d', v)
       else (\<exists>i \<in> set es. ci_key i = key \<and> 0 < ci_nrefer i \<and> es' = es) \<or> int (length es') = ct_max c \<and> (\<forall>i \<in> set es'. pinned i)"
    using s(3,4) d(2) by (cases r) auto
  moreover have "{i \<in> set es. 0 < ci_nrefer i} \<subseteq> set es'" using s(2) by blast
  ultimately show ?thesis using d(1,3) s(1) by blast
qed

text \<open>A cache of one place, with an entry in it.\<close>

definition demo_cache :: "nat acl_cache" where
  "demo_cache = (case acl_cache_create 1 10 True of Ret (Some c) \<Rightarrow>
     (case acl_cache_enter 0 0 c [97] (Some 1) of Ret (c, _, _) \<Rightarrow> c))"

lemma demo_cache:
  "cache_is demo_cache [\<lparr>ci_key = [97], ci_value = Some 1, ci_nrefer = 0, ci_when = 10\<rparr>]" "ct_max demo_cache = 1" "0 < ct_timeout demo_cache"
proof -
  obtain c :: "nat acl_cache" where c: "acl_cache_create 1 10 True = Ret (Some c)" "cache_is c []" "ct_max c = 1" "ct_timeout c = 10"
    using cache_create [of 1 10 True] by auto
  obtain d p where d: "acl_cache_enter 0 0 c [97] (Some 1) = Ret (d, freed_of c [], p)"
    "cache_is d [\<lparr>ci_key = [97], ci_value = Some 1, ci_nrefer = 0, ci_when = 10\<rparr>]" "ct_same_cfg c d"
    using step_enter [OF c(2), of 0 0 "[97]" "Some 1" _ "[]" True] c(3,4) by (auto simp: e_enter_def e_find_def e_room_def)
  have "demo_cache = d" using c(1) d(1) by (simp add: demo_cache_def)
  then show "cache_is demo_cache [\<lparr>ci_key = [97], ci_value = Some 1, ci_nrefer = 0, ci_when = 10\<rparr>]" "ct_max demo_cache = 1"
    "0 < ct_timeout demo_cache" using d c by (simp_all add: ct_same_cfg_def)
qed

lemma cache_enter_spec_witness:
  "\<exists>d fs p es'. acl_cache_enter 5 5 demo_cache [98] (Some 2) = Ret (d, fs, p) \<and> cache_is d es' \<and> int (length es') \<le> ct_max demo_cache
    \<and> {i \<in> set [\<lparr>ci_key = [97], ci_value = Some 1, ci_nrefer = 0, ci_when = 10\<rparr>]. 0 < ci_nrefer i} \<subseteq> set es'
    \<and> (if p \<noteq> None then \<exists>d'. acl_cache_find d [98] = Ret (d', Some 2)
       else (\<exists>i \<in> set [\<lparr>ci_key = [97], ci_value = Some 1, ci_nrefer = 0, ci_when = 10\<rparr>]. ci_key i = [98] \<and> 0 < ci_nrefer i
           \<and> es' = [\<lparr>ci_key = [97], ci_value = Some 1, ci_nrefer = 0, ci_when = 10\<rparr>])
         \<or> int (length es') = ct_max demo_cache \<and> (\<forall>i \<in> set es'. pinned i))"
  using cache_enter_spec [OF demo_cache(1), of 5 5 "[98]" "Some 2", unfolded demo_cache(2)] demo_cache(3) unfolding demo_cache(2) by fastforce

text \<open>
  The entries are in the order of insertion and update, not of expiry: one whose time was set far ahead
  by \<open>acl_cache_update\<close> keeps the expired entries behind it in the cache.
\<close>

lemma cache_expired_kept:
  "(case entries_run 9 10 [] [CEnter 0 0 [97] (Some (1 :: nat)), CUpdate 0 [97] 1000, CEnter 0 0 [98] (Some 2), CTimeout 500] of
     (es, del, rs) \<Rightarrow> (map ci_when es, del, last rs) = ([1000, 10], [], Code 0))"
  by code_simp

end
