(* ===== verification/Acl_Yqueue.thy ===== *)
theory Acl_Yqueue
  imports Acl_Prelude
begin

text \<open>
  The queue of cells in chunks of ten, \<open>lib_acl/src/stdlib/common/acl_yqueue.c\<close>. A cell is named by its chunk
  and its position; chunks live in a heap, and the null pointer is \<open>None\<close>. The atomic pointer to the spare
  chunk is its value.
\<close>

record 'v ychunk =
  ck_value :: "'v option list"
  ck_prev :: "nat option"
  ck_next :: "nat option"

record 'v acl_yqueue =
  yq_begin_chunk :: nat
  yq_begin_pos :: nat
  yq_back_chunk :: "nat option"
  yq_back_pos :: nat
  yq_end_chunk :: nat
  yq_end_pos :: nat
  yq_pushs :: nat
  yq_pops :: nat
  yq_spare :: "nat option"
  yq_heap :: "nat \<Rightarrow> 'v ychunk option"
  yq_brk :: nat

type_synonym ycell = "nat \<times> nat"

definition chunk_size :: nat where
  "chunk_size = 10"

definition chunk0 :: "'v ychunk" where
  "chunk0 = \<lparr>ck_value = replicate chunk_size None, ck_prev = None, ck_next = None\<rparr>"

definition ck_get :: "'v acl_yqueue \<Rightarrow> nat \<Rightarrow> 'v ychunk cres" where
  "ck_get q a = (case yq_heap q a of None \<Rightarrow> Fault | Some c \<Rightarrow> Ret c)"

definition ck_put :: "'v acl_yqueue \<Rightarrow> nat \<Rightarrow> 'v ychunk \<Rightarrow> 'v acl_yqueue" where
  "ck_put q a c = q\<lparr>yq_heap := (yq_heap q)(a \<mapsto> c)\<rparr>"

text \<open>Reading and writing a cell through a pointer to it.\<close>

definition cell_get :: "'v acl_yqueue \<Rightarrow> ycell \<Rightarrow> 'v option cres" where
  "cell_get q p = cbind (ck_get q (fst p)) (\<lambda>c. if snd p < length (ck_value c) then Ret (ck_value c ! snd p) else Fault)"

definition cell_put :: "'v acl_yqueue \<Rightarrow> ycell \<Rightarrow> 'v option \<Rightarrow> 'v acl_yqueue cres" where
  "cell_put q p v = cbind (ck_get q (fst p)) (\<lambda>c.
     if snd p < length (ck_value c) then Ret (ck_put q (fst p) (c\<lparr>ck_value := (ck_value c)[snd p := v]\<rparr>)) else Fault)"

subsection \<open>Operations\<close>

definition acl_yqueue_new :: "'v acl_yqueue" where
  "acl_yqueue_new = \<lparr>yq_begin_chunk = 0, yq_begin_pos = 0, yq_back_chunk = None, yq_back_pos = 0, yq_end_chunk = 0,
     yq_end_pos = 0, yq_pushs = 0, yq_pops = 0, yq_spare = None, yq_heap = [0 \<mapsto> chunk0], yq_brk = 1\<rparr>"

definition acl_yqueue_front :: "'v acl_yqueue \<Rightarrow> ycell" where
  "acl_yqueue_front q = (yq_begin_chunk q, yq_begin_pos q)"

text \<open>The address of a cell behind a null pointer is no cell.\<close>

definition acl_yqueue_back :: "'v acl_yqueue \<Rightarrow> ycell cres" where
  "acl_yqueue_back q = (case yq_back_chunk q of None \<Rightarrow> Fault | Some a \<Rightarrow> Ret (a, yq_back_pos q))"

definition acl_yqueue_push :: "'v acl_yqueue \<Rightarrow> 'v acl_yqueue cres" where
  "acl_yqueue_push q =
    (let q = q\<lparr>yq_pushs := yq_pushs q + 1, yq_back_chunk := Some (yq_end_chunk q), yq_back_pos := yq_end_pos q,
               yq_end_pos := yq_end_pos q + 1\<rparr>
     in if yq_end_pos q \<noteq> chunk_size then Ret q
     else
       let sc = yq_spare q; q = q\<lparr>yq_spare := None\<rparr>; en = yq_end_chunk q in
       map_cres (\<lambda>(q, n). q\<lparr>yq_end_chunk := n, yq_end_pos := 0\<rparr>)
         (case sc of
            Some s \<Rightarrow> cbind (ck_get q en) (\<lambda>e. let q = ck_put q en (e\<lparr>ck_next := Some s\<rparr>) in
              cbind (ck_get q s) (\<lambda>c. Ret (ck_put q s (c\<lparr>ck_prev := Some en\<rparr>), s)))
          | None \<Rightarrow> let n = yq_brk q; q = (ck_put q n chunk0)\<lparr>yq_brk := n + 1\<rparr> in
              cbind (ck_get q en) (\<lambda>e. let q = ck_put q en (e\<lparr>ck_next := Some n\<rparr>) in
              cbind (ck_get q n) (\<lambda>c. Ret (ck_put q n (c\<lparr>ck_prev := Some en\<rparr>), n)))))"

definition acl_yqueue_pop :: "'v acl_yqueue \<Rightarrow> 'v acl_yqueue cres" where
  "acl_yqueue_pop q =
    (let q = q\<lparr>yq_begin_pos := yq_begin_pos q + 1, yq_pops := yq_pops q + 1\<rparr> in
     if yq_begin_pos q \<noteq> chunk_size then Ret q
     else
       let old = yq_begin_chunk q in
       cbind (ck_get q old) (\<lambda>c. case ck_next c of None \<Rightarrow> Fault
       | Some n \<Rightarrow>
         let q = q\<lparr>yq_begin_chunk := n\<rparr> in
         cbind (ck_get q n) (\<lambda>d.
         let q = (ck_put q n (d\<lparr>ck_prev := None\<rparr>))\<lparr>yq_begin_pos := 0\<rparr>;
             q = ck_put q old chunk0; cs = yq_spare q; q = q\<lparr>yq_spare := Some old\<rparr> in
         case cs of None \<Rightarrow> Ret q
         | Some s \<Rightarrow> map_cres (\<lambda>_. q\<lparr>yq_heap := (yq_heap q)(s := None)\<rparr>) (ck_get q s))))"

text \<open>\<open>chunk_data_free\<close>: the values at positions \<open>i\<close> to \<open>j\<close> that are not null, in order.\<close>

definition chunk_data_free :: "'v acl_yqueue \<Rightarrow> nat \<Rightarrow> nat \<Rightarrow> nat \<Rightarrow> 'v list cres" where
  "chunk_data_free q a i j = cbind (ck_get q a) (\<lambda>c.
     if j < length (ck_value c) then Ret (map the (filter (\<lambda>v. v \<noteq> None) (map (\<lambda>k. ck_value c ! k) [i..<Suc j]))) else Fault)"

fun data_free_loop :: "nat \<Rightarrow> 'v acl_yqueue \<Rightarrow> nat option \<Rightarrow> nat \<Rightarrow> nat \<Rightarrow> 'v list cres" where
  "data_free_loop 0 q p en pos = Fault"
| "data_free_loop (Suc fuel) q p en pos =
    (if p = Some en then chunk_data_free q en 0 (yq_back_pos q)
     else case p of None \<Rightarrow> Fault
     | Some a \<Rightarrow> cbind (chunk_data_free q a pos (chunk_size - 1)) (\<lambda>fs.
         cbind (ck_get q a) (\<lambda>c. map_cres (\<lambda>gs. fs @ gs) (data_free_loop fuel q (ck_next c) en 0))))"

fun chunk_free_loop :: "nat \<Rightarrow> 'v acl_yqueue \<Rightarrow> 'v acl_yqueue cres" where
  "chunk_free_loop 0 q = Fault"
| "chunk_free_loop (Suc fuel) q =
    cbind (ck_get q (yq_begin_chunk q)) (\<lambda>c.
      if yq_begin_chunk q = yq_end_chunk q then Ret (q\<lparr>yq_heap := (yq_heap q)(yq_begin_chunk q := None)\<rparr>)
      else case ck_next c of None \<Rightarrow> Fault
      | Some n \<Rightarrow> chunk_free_loop fuel (q\<lparr>yq_heap := (yq_heap q)(yq_begin_chunk q := None), yq_begin_chunk := n\<rparr>))"

text \<open>The values given to \<open>free_fn\<close>, and the memory that is left.\<close>

definition acl_yqueue_free :: "'v acl_yqueue \<Rightarrow> bool \<Rightarrow> ('v list \<times> (nat \<Rightarrow> 'v ychunk option)) cres" where
  "acl_yqueue_free q free_fn =
    cbind (if free_fn then
             (if Some (yq_begin_chunk q) = yq_back_chunk q
              then chunk_data_free q (yq_begin_chunk q) (yq_begin_pos q) (yq_back_pos q)
              else case yq_back_chunk q of None \<Rightarrow> Fault
              | Some en \<Rightarrow> data_free_loop (Suc (yq_brk q)) q (Some (yq_begin_chunk q)) en (yq_begin_pos q))
           else Ret []) (\<lambda>fs.
    cbind (chunk_free_loop (Suc (yq_brk q)) q) (\<lambda>q.
    case yq_spare q of None \<Rightarrow> Ret (fs, yq_heap q)
    | Some s \<Rightarrow> map_cres (\<lambda>_. (fs, (yq_heap q)(s := None))) (ck_get q s)))"

end
