(* ===== verification/Yqueue_Rep.thy ===== *)
theory Yqueue_Rep
  imports Acl_Yqueue Acl_Links
begin

text \<open>The queue as the list of its cells, each with its address and its contents, the front first.\<close>

type_synonym 'v yheap = "nat \<Rightarrow> 'v ychunk option"

definition cells_of :: "'v yheap \<Rightarrow> nat \<Rightarrow> (ycell \<times> 'v option) list" where
  "cells_of h a = map (\<lambda>i. ((a, i), ck_value (the (h a)) ! i)) [0..<chunk_size]"

definition cells_in :: "'v yheap \<Rightarrow> nat list \<Rightarrow> (ycell \<times> 'v option) list" where
  "cells_in h cs = concat (map (cells_of h) cs)"

fun ck_linked :: "'v yheap \<Rightarrow> nat list \<Rightarrow> bool" where
  "ck_linked h [] \<longleftrightarrow> True"
| "ck_linked h (a # cs) \<longleftrightarrow> (\<exists>c. h a = Some c \<and> length (ck_value c) = chunk_size \<and> (cs \<noteq> [] \<longrightarrow> ck_next c = Some (hd cs))) \<and> ck_linked h cs"

definition yq_layout :: "'v acl_yqueue \<Rightarrow> nat list \<Rightarrow> bool" where
  "yq_layout q cs \<longleftrightarrow> cs \<noteq> [] \<and> yq_begin_chunk q = hd cs \<and> yq_end_chunk q = last cs \<and> distinct cs
     \<and> ck_linked (yq_heap q) cs \<and> dom (yq_heap q) = set cs \<union> set_option (yq_spare q) \<and> (\<forall>a \<in> dom (yq_heap q). a < yq_brk q)
     \<and> (\<forall>s. yq_spare q = Some s \<longrightarrow> s \<notin> set cs \<and> yq_heap q s = Some chunk0)"

definition yq_at :: "'v acl_yqueue \<Rightarrow> nat list \<Rightarrow> (ycell \<times> 'v option) list \<Rightarrow> (ycell \<times> 'v option) list \<Rightarrow> (ycell \<times> 'v option) list \<Rightarrow> bool" where
  "yq_at q cs pre cells post \<longleftrightarrow> yq_layout q cs \<and> cells_in (yq_heap q) cs = pre @ cells @ post \<and> length pre = yq_begin_pos q
     \<and> yq_begin_pos q < chunk_size \<and> yq_end_pos q < chunk_size \<and> length post + yq_end_pos q = chunk_size \<and> (\<forall>x \<in> set post. snd x = None)
     \<and> (cells \<noteq> [] \<longrightarrow> (case yq_back_chunk q of None \<Rightarrow> False | Some b \<Rightarrow> fst (last cells) = (b, yq_back_pos q)))"

definition yq_rep :: "'v acl_yqueue \<Rightarrow> (ycell \<times> 'v option) list \<Rightarrow> bool" where
  "yq_rep q cells \<longleftrightarrow> (\<exists>cs pre post. yq_at q cs pre cells post)"

lemma cells_of_simps [simp]: "length (cells_of h a) = chunk_size" "cells_of h a \<noteq> []"
  by (simp_all add: cells_of_def chunk_size_def)

lemma cells_of_nth: "i < chunk_size \<Longrightarrow> cells_of h a ! i = ((a, i), ck_value (the (h a)) ! i)"
  by (simp add: cells_of_def)

lemma cells_of_chunk0: "h a = Some (chunk0\<lparr>ck_prev := p\<rparr>) \<Longrightarrow> x \<in> set (cells_of h a) \<Longrightarrow> snd x = None"
  by (auto simp: cells_of_def chunk0_def)

lemma cells_in_simps [simp]:
  "cells_in h [] = []" "cells_in h (a # cs) = cells_of h a @ cells_in h cs" "cells_in h (as @ cs) = cells_in h as @ cells_in h cs"
  by (simp_all add: cells_in_def)

lemma length_cells_in [simp]: "length (cells_in h cs) = chunk_size * length cs"
  by (induction cs) simp_all

lemma cells_in_cong: "(\<And>a. a \<in> set cs \<Longrightarrow> ck_value (the (h' a)) = ck_value (the (h a))) \<Longrightarrow> cells_in h' cs = cells_in h cs"
  by (induction cs) (simp_all add: cells_of_def)

lemma in_cells:
  "x \<in> set (cells_in h cs) \<longleftrightarrow> (\<exists>a i. a \<in> set cs \<and> i < chunk_size \<and> x = ((a, i), ck_value (the (h a)) ! i))"
  by (induction cs) (auto simp: cells_of_def)

lemma distinct_cells: "distinct cs \<Longrightarrow> distinct (map fst (cells_in h cs))"
proof (induction cs)
  case (Cons a cs)
  have "distinct (map fst (cells_of h a))" by (simp add: cells_of_def comp_def distinct_map inj_on_def)
  moreover have "fst ` set (cells_of h a) \<inter> fst ` set (cells_in h cs) = {}"
    using Cons.prems by (auto simp: in_cells cells_of_def)
  ultimately show ?case using Cons by simp
qed simp

lemma ck_linked_mem: "ck_linked h cs \<Longrightarrow> a \<in> set cs \<Longrightarrow> \<exists>c. h a = Some c \<and> length (ck_value c) = chunk_size"
  by (induction cs) auto

lemma ck_linked_cong:
  "ck_linked h cs \<Longrightarrow> (\<And>a c. a \<in> set cs \<Longrightarrow> h a = Some c \<Longrightarrow> \<exists>d. h' a = Some d \<and> length (ck_value d) = length (ck_value c) \<and> ck_next d = ck_next c)
   \<Longrightarrow> ck_linked h' cs"
proof (induction cs)
  case (Cons a cs)
  then obtain c where "h a = Some c" "length (ck_value c) = chunk_size" "cs \<noteq> [] \<longrightarrow> ck_next c = Some (hd cs)" by auto
  then show ?case using Cons.IH Cons.prems(1) Cons.prems(2) [of a c] Cons.prems(2) by auto
qed simp

lemma ck_linked_snoc:
  "ck_linked h (cs @ [a]) \<Longrightarrow> distinct (cs @ [a]) \<Longrightarrow> h a = Some c \<Longrightarrow> b \<notin> set (cs @ [a]) \<Longrightarrow> length (ck_value d) = chunk_size
   \<Longrightarrow> ck_linked (h(a \<mapsto> c\<lparr>ck_next := Some b\<rparr>, b \<mapsto> d)) (cs @ [a, b])"
proof (induction cs)
  case (Cons x cs)
  then show ?case by (cases cs) auto
qed auto

subsection \<open>Creation, front and back\<close>

lemma yqueue_new_rep: "yq_rep (acl_yqueue_new :: 'v acl_yqueue) []"
proof -
  let ?q = "acl_yqueue_new :: 'v acl_yqueue"
  have "snd x = None" if "x \<in> set (cells_of (yq_heap ?q) 0)" for x
    using that by (auto simp: acl_yqueue_new_def cells_of_def chunk0_def)
  then have "yq_at ?q [0] [] [] (cells_of (yq_heap ?q) 0)"
    by (auto simp: yq_at_def yq_layout_def acl_yqueue_new_def chunk_size_def chunk0_def)
  then show ?thesis unfolding yq_rep_def by blast
qed

lemma yq_atD:
  assumes "yq_at q cs pre cells post"
  shows "yq_layout q cs" "cells_in (yq_heap q) cs = pre @ cells @ post" "length pre = yq_begin_pos q" "yq_begin_pos q < chunk_size"
    "yq_end_pos q < chunk_size" "length post + yq_end_pos q = chunk_size" "\<And>x. x \<in> set post \<Longrightarrow> snd x = None"
    "cells \<noteq> [] \<Longrightarrow> acl_yqueue_back q = Ret (fst (last cells))"
  using assms by (auto simp: yq_at_def acl_yqueue_back_def split: option.splits)

lemma yq_layoutD:
  assumes "yq_layout q cs"
  shows "cs \<noteq> []" "yq_begin_chunk q = hd cs" "yq_end_chunk q = last cs" "distinct cs" "ck_linked (yq_heap q) cs"
    "dom (yq_heap q) = set cs \<union> set_option (yq_spare q)" "\<And>a c. yq_heap q a = Some c \<Longrightarrow> a < yq_brk q"
    "\<And>s. yq_spare q = Some s \<Longrightarrow> s \<notin> set cs \<and> yq_heap q s = Some chunk0"
  using assms by (auto simp: yq_layout_def)

lemma yq_distinct: "yq_rep q cells \<Longrightarrow> distinct (map fst cells)"
proof -
  assume "yq_rep q cells"
  then obtain cs pre post where at: "yq_at q cs pre cells post" by (auto simp: yq_rep_def)
  have "distinct (map fst (pre @ cells @ post))"
    using distinct_cells [OF yq_layoutD(4) [OF yq_atD(1) [OF at]]] yq_atD(2) [OF at] by metis
  then show ?thesis by simp
qed

text \<open>The first cell behind the end, and the first one in use.\<close>

lemma yq_end_cell:
  assumes "yq_at q cs pre cells (x # post)"
  shows "fst x = (yq_end_chunk q, yq_end_pos q)"
proof -
  note at = yq_atD [OF assms] and l = yq_layoutD [OF yq_atD(1) [OF assms]]
  obtain as where cs: "cs = as @ [last cs]" using l(1) by (metis append_butlast_last_id)
  have "cells_in (yq_heap q) as @ cells_of (yq_heap q) (last cs) = pre @ cells @ x # post"
    using at(2) by (subst (asm) cs) simp
  then have "drop (yq_end_pos q) (cells_of (yq_heap q) (last cs)) = x # post"
  proof -
    assume e: "cells_in (yq_heap q) as @ cells_of (yq_heap q) (last cs) = pre @ cells @ x # post"
    have "length (cells_in (yq_heap q) as) + chunk_size = length (pre @ cells) + length (x # post)"
      using arg_cong [OF e, of length] by simp
    then have "length (pre @ cells) = length (cells_in (yq_heap q) as) + yq_end_pos q" using at(6) by simp
    then show ?thesis using arg_cong [OF e, of "drop (length (pre @ cells))"] by simp
  qed
  then have "x = cells_of (yq_heap q) (last cs) ! yq_end_pos q" using at(5) by (simp add: Cons_nth_drop_Suc [symmetric])
  then show ?thesis using at(5) l(3) by (simp add: cells_of_nth)
qed

lemma yq_front_cell:
  assumes "yq_rep q (x # cells)"
  shows "acl_yqueue_front q = fst x"
proof -
  obtain cs pre post where a: "yq_at q cs pre (x # cells) post" using assms by (auto simp: yq_rep_def)
  note at = yq_atD [OF a] and l = yq_layoutD [OF yq_atD(1) [OF a]]
  obtain b bs where cs: "cs = b # bs" using l(1) by (cases cs) auto
  have "x = (cells_of (yq_heap q) b @ cells_in (yq_heap q) bs) ! yq_begin_pos q"
    using at(2,3) unfolding cs by (metis append_Cons cells_in_simps(2) nth_append_length)
  then show ?thesis using at(4) l(2) cs by (simp add: nth_append cells_of_nth acl_yqueue_front_def)
qed

lemma yq_back_cell: "yq_rep q cells \<Longrightarrow> cells \<noteq> [] \<Longrightarrow> acl_yqueue_back q = Ret (fst (last cells))"
  using yq_atD(8) by (auto simp: yq_rep_def)

lemma yq_cell_get:
  assumes "yq_rep q cells" "(p, v) \<in> set cells"
  shows "cell_get q p = Ret v"
proof -
  obtain cs pre post where a: "yq_at q cs pre cells post" using assms(1) by (auto simp: yq_rep_def)
  have "(p, v) \<in> set (cells_in (yq_heap q) cs)" using yq_atD(2) [OF a] assms(2) by simp
  then obtain b i where b: "b \<in> set cs" "i < chunk_size" "p = (b, i)" "v = ck_value (the (yq_heap q b)) ! i" by (auto simp: in_cells)
  moreover obtain c where "yq_heap q b = Some c" "length (ck_value c) = chunk_size"
    using ck_linked_mem [OF yq_layoutD(5) [OF yq_atD(1) [OF a]] b(1)] by blast
  ultimately show ?thesis by (simp add: cell_get_def ck_get_def)
qed

subsection \<open>Writing, pushing and popping\<close>

lemma yq_cell_put:
  assumes "yq_rep q (A @ (p, v) # B)"
  shows "\<exists>q'. cell_put q p w = Ret q' \<and> yq_rep q' (A @ (p, w) # B)"
proof -
  obtain cs pre post where a: "yq_at q cs pre (A @ (p, v) # B) post" using assms by (auto simp: yq_rep_def)
  note at = yq_atD [OF a] and l = yq_layoutD [OF yq_atD(1) [OF a]]
  have "(p, v) \<in> set (cells_in (yq_heap q) cs)" using at(2) by simp
  then obtain b i where b: "b \<in> set cs" "i < chunk_size" "p = (b, i)" by (auto simp: in_cells)
  obtain c where c: "yq_heap q b = Some c" "length (ck_value c) = chunk_size" using ck_linked_mem [OF l(5) b(1)] by blast
  let ?d = "c\<lparr>ck_value := (ck_value c)[i := w]\<rparr>"
  let ?q = "ck_put q b ?d" and ?g = "\<lambda>x. if fst x = p then (p, w) else x"
  have put: "cell_put q p w = Ret ?q" using b c by (simp add: cell_put_def ck_get_def)
  have "cells_in (yq_heap ?q) cs' = map ?g (cells_in (yq_heap q) cs')" for cs'
    by (induction cs') (auto simp: cells_of_def ck_put_def b(3) c nth_list_update b(2))
  moreover have "distinct (map fst (pre @ (A @ (p, v) # B) @ post))" using distinct_cells [OF l(4)] at(2) by metis
  then have "p \<notin> fst ` (set pre \<union> set A \<union> set B \<union> set post)" by auto
  then have "\<forall>x \<in> set pre \<union> set A \<union> set B \<union> set post. fst x \<noteq> p" by (metis image_eqI)
  then have "map ?g pre = pre" "map ?g A = A" "map ?g B = B" "map ?g post = post" by (simp_all add: map_idI)
  ultimately have "cells_in (yq_heap ?q) cs = pre @ (A @ (p, w) # B) @ post" using at(2) by simp
  moreover have "yq_layout ?q cs"
  proof -
    have "ck_linked (yq_heap ?q) cs" by (rule ck_linked_cong [OF l(5)]) (auto simp: ck_put_def c(1))
    moreover have "dom (yq_heap ?q) = dom (yq_heap q)" using c(1) by (auto simp: ck_put_def)
    moreover have "yq_spare q = Some s \<Longrightarrow> s \<noteq> b" for s using l(8) b(1) by blast
    ultimately show ?thesis using at(1) by (auto simp: yq_layout_def ck_put_def)
  qed
  moreover have "fst (last (A @ (p, w) # B)) = fst (last (A @ (p, v) # B))" by (cases B) simp_all
  ultimately have "yq_at ?q cs pre (A @ (p, w) # B) post" using a by (cases B) (auto simp: yq_at_def ck_put_def split: option.splits)
  with put show ?thesis unfolding yq_rep_def by blast
qed

lemma yq_push:
  assumes "yq_rep q cells"
  shows "\<exists>q' p. acl_yqueue_push q = Ret q' \<and> yq_rep q' (cells @ [(p, None)])"
proof -
  obtain cs pre post where a: "yq_at q cs pre cells post" using assms by (auto simp: yq_rep_def)
  note at = yq_atD [OF a] and l = yq_layoutD [OF yq_atD(1) [OF a]]
  have "post \<noteq> []" using at(5,6) by auto
  then obtain x post' where post: "post = x # post'" by (cases post) auto
  have x: "x = ((yq_end_chunk q, yq_end_pos q), None)" using yq_end_cell [of q cs pre cells x post'] a at(7) [of x] by (cases x) (auto simp: post)
  let ?p = "(yq_end_chunk q, yq_end_pos q)"
  let ?q = "q\<lparr>yq_pushs := yq_pushs q + 1, yq_back_chunk := Some (yq_end_chunk q), yq_back_pos := yq_end_pos q, yq_end_pos := yq_end_pos q + 1\<rparr>"
  show ?thesis
  proof (cases "yq_end_pos q + 1 = chunk_size")
    case False
    then have "acl_yqueue_push q = Ret ?q" by (simp add: acl_yqueue_push_def)
    moreover have "yq_at ?q cs pre (cells @ [(?p, None)]) post'"
      using a False unfolding post by (auto simp: yq_at_def yq_layout_def x)
    ultimately show ?thesis unfolding yq_rep_def by blast
  next
    case True
    then have "length post' = 0" using at(6) unfolding post True [symmetric] by simp
    then have p': "post' = []" by simp
    obtain as where cs: "cs = as @ [last cs]" using l(1) by (metis append_butlast_last_id)
    obtain e where e: "yq_heap q (last cs) = Some e" "length (ck_value e) = chunk_size"
      using ck_linked_mem [OF l(5), of "last cs"] l(1) by auto
    define n where "n = (case yq_spare q of Some s \<Rightarrow> s | None \<Rightarrow> yq_brk q)"
    have n: "n \<notin> set cs" using l(6,7,8) ck_linked_mem [OF l(5)] by (auto simp: n_def split: option.splits)
    have ne: "last cs \<noteq> n" using n l(1) by (metis last_in_set)
    define h where "h = (yq_heap q)(last cs \<mapsto> e\<lparr>ck_next := Some n\<rparr>, n \<mapsto> chunk0\<lparr>ck_prev := Some (last cs)\<rparr>)"
    define brk where "brk = (case yq_spare q of Some s \<Rightarrow> yq_brk q | None \<Rightarrow> yq_brk q + 1)"
    let ?r = "?q\<lparr>yq_spare := None, yq_heap := h, yq_brk := brk, yq_end_chunk := n, yq_end_pos := 0\<rparr>"
    have push: "acl_yqueue_push q = Ret ?r"
    proof (cases "yq_spare q")
      case None
      then show ?thesis using True e(1) ne l(3)
        by (simp add: acl_yqueue_push_def Let_def n_def brk_def h_def ck_get_def ck_put_def fun_upd_twist)
    next
      case (Some s)
      then show ?thesis using True e(1) ne l(3) l(8) [OF Some]
        by (simp add: acl_yqueue_push_def Let_def n_def brk_def h_def ck_get_def ck_put_def)
    qed
    have link: "ck_linked h (cs @ [n])"
    proof -
      have "ck_linked h (as @ [last cs, n])"
        unfolding h_def by (rule ck_linked_snoc) (use l(4,5) cs e(1) n in \<open>auto simp: chunk0_def\<close>)
      then show ?thesis by (subst cs) simp
    qed
    have "dom h = insert n (dom (yq_heap q))" using e(1) by (auto simp: h_def)
    then have dom: "dom h = set (cs @ [n])" using l(6) n l(8) by (auto simp: n_def split: option.splits)
    have "n < brk" "yq_brk q \<le> brk" using l(7) l(8) by (auto simp: n_def brk_def split: option.splits)
    moreover have "a < yq_brk q" if "a \<in> dom (yq_heap q)" for a using l(7) that by blast
    ultimately have brk: "\<forall>a \<in> dom h. a < brk" unfolding \<open>dom h = insert n (dom (yq_heap q))\<close> by (auto intro: less_le_trans)
    have "yq_layout ?r (cs @ [n])"
      unfolding yq_layout_def using l(1,2,4) n link dom brk by (simp add: hd_append)
    moreover have "cells_in h cs = cells_in (yq_heap q) cs"
      by (rule cells_in_cong) (use e(1) n in \<open>auto simp: h_def\<close>)
    then have "cells_in h (cs @ [n]) = pre @ (cells @ [(?p, None)]) @ cells_of h n" using at(2) post p' x by simp
    moreover have "\<forall>y \<in> set (cells_of h n). snd y = None" by (auto simp: cells_of_def h_def chunk0_def)
    ultimately have "yq_at ?r (cs @ [n]) pre (cells @ [(?p, None)]) (cells_of h n)"
      using at(3,4) by (simp add: yq_at_def chunk_size_def)
    with push show ?thesis unfolding yq_rep_def by blast
  qed
qed

lemma yq_pop:
  assumes "yq_rep q (x # cells)"
  shows "\<exists>q'. acl_yqueue_pop q = Ret q' \<and> yq_rep q' cells"
proof -
  obtain cs pre post where a: "yq_at q cs pre (x # cells) post" using assms by (auto simp: yq_rep_def)
  note at = yq_atD [OF a] and l = yq_layoutD [OF yq_atD(1) [OF a]]
  let ?q = "q\<lparr>yq_begin_pos := yq_begin_pos q + 1, yq_pops := yq_pops q + 1\<rparr>"
  show ?thesis
  proof (cases "yq_begin_pos q + 1 = chunk_size")
    case False
    then have "acl_yqueue_pop q = Ret ?q" by (simp add: acl_yqueue_pop_def)
    moreover have "yq_at ?q cs (pre @ [x]) cells post"
      using a False by (auto simp: yq_at_def yq_layout_def split: if_splits option.splits)
    ultimately show ?thesis unfolding yq_rep_def by blast
  next
    case True
    obtain b bs where cs: "cs = b # bs" using l(1) by (cases cs) auto
    have len: "length (cells_in (yq_heap q) cs) = length (pre @ (x # cells) @ post)" using at(2) by simp
    have "bs \<noteq> []"
    proof
      assume "bs = []"
      then have "chunk_size = length (pre @ (x # cells) @ post)" using len cs by simp
      then show False using True at(3,5,6) by simp
    qed
    then obtain n ns where bs: "bs = n # ns" by (cases bs) auto
    obtain c d where c: "yq_heap q b = Some c" "ck_next c = Some n" "yq_heap q n = Some d" "length (ck_value d) = chunk_size"
      using l(5) unfolding cs bs by auto
    have bn: "b \<noteq> n" "b \<notin> set bs" "distinct bs" using l(4) unfolding cs bs by auto
    have "cells_of (yq_heap q) b @ cells_in (yq_heap q) bs = (pre @ [x]) @ cells @ post" using at(2) cs by simp
    moreover have "length (cells_of (yq_heap q) b) = length (pre @ [x])" using True at(3) by simp
    ultimately have cells: "cells_in (yq_heap q) bs = cells @ post" using append_eq_append_conv by blast
    define h where "h = (yq_heap q)(n \<mapsto> d\<lparr>ck_prev := None\<rparr>, b \<mapsto> chunk0)"
    define g where "g = (case yq_spare q of None \<Rightarrow> h | Some s \<Rightarrow> h(s := None))"
    let ?r = "?q\<lparr>yq_begin_chunk := n, yq_heap := g, yq_begin_pos := 0, yq_spare := Some b\<rparr>"
    have spare: "s \<noteq> b \<and> s \<noteq> n \<and> s \<notin> set bs \<and> h s \<noteq> None" if "yq_spare q = Some s" for s
      using l(8) [OF that] unfolding cs bs by (auto simp: h_def)
    have pop: "acl_yqueue_pop q = Ret ?r"
      using True c(1-3) l(2) cs bn spare
      by (cases "yq_spare q") (auto simp: acl_yqueue_pop_def Let_def ck_get_def ck_put_def g_def h_def)
    have same: "g a' = h a'" if "a' \<in> set bs \<or> a' = b" for a' using spare that by (auto simp: g_def split: option.splits)
    have "ck_linked (yq_heap q) bs" using l(5) cs by simp
    then have link: "ck_linked g bs"
      by (rule ck_linked_cong) (use c bn same in \<open>auto simp: h_def\<close>)
    have "dom h = set cs \<union> set_option (yq_spare q)" using l(6) c(1,3) by (auto simp: h_def)
    moreover have "dom g = dom h - set_option (yq_spare q)" by (auto simp: g_def split: option.splits if_splits)
    moreover have "set cs \<inter> set_option (yq_spare q) = {}" using l(8) by auto
    ultimately have dom: "dom g = set bs \<union> {b}" unfolding cs by auto
    then have brk: "\<forall>a \<in> dom g. a < yq_brk q" using l(6,7) cs by (metis Un_iff domD insert_iff list.simps(15) singletonD)
    have "yq_layout ?r bs"
      unfolding yq_layout_def using bs bn link dom brk same [of b] l(3) cs by (auto simp: h_def)
    moreover have "cells_in g bs = cells_in (yq_heap q) bs"
      by (rule cells_in_cong) (use same bn c(3) in \<open>auto simp: h_def\<close>)
    ultimately have "yq_at ?r bs [] cells post"
      using a cells by (auto simp: yq_at_def chunk_size_def split: if_splits option.splits)
    with pop show ?thesis unfolding yq_rep_def by blast
  qed
qed

subsection \<open>Releasing the queue\<close>

definition vals :: "(ycell \<times> 'v option) list \<Rightarrow> 'v list" where
  "vals xs = map the (filter (\<lambda>v. v \<noteq> None) (map snd xs))"

lemma vals_append [simp]: "vals (xs @ ys) = vals xs @ vals ys" "vals [] = []"
  by (simp_all add: vals_def)

lemma chunk_data_free_vals:
  assumes "ck_linked (yq_heap q) cs" "a \<in> set cs" "j < chunk_size"
  shows "chunk_data_free q a i j = Ret (vals (drop i (take (Suc j) (cells_of (yq_heap q) a))))"
proof -
  obtain c where c: "yq_heap q a = Some c" "length (ck_value c) = chunk_size" using ck_linked_mem [OF assms(1,2)] by blast
  have "take (Suc j) (cells_of (yq_heap q) a) = map (\<lambda>k. ((a, k), ck_value c ! k)) [0..<Suc j]"
    using assms(3) c(1) by (simp add: cells_of_def take_map)
  then have "map snd (drop i (take (Suc j) (cells_of (yq_heap q) a))) = map (\<lambda>k. ck_value c ! k) [i..<Suc j]"
    by (simp only: drop_map drop_upt map_map comp_def snd_conv add_0)
  then show ?thesis using c assms(3) by (simp add: chunk_data_free_def ck_get_def vals_def)
qed

lemma data_free_loop_vals:
  assumes "ck_linked (yq_heap q) (as @ en # bs)" "en \<notin> set as" "length as < fuel" "yq_back_pos q < chunk_size" "as = [] \<Longrightarrow> pos = 0"
    "pos \<le> chunk_size"
  shows "data_free_loop fuel q (Some (hd (as @ [en]))) en pos =
    Ret (vals (drop pos (cells_in (yq_heap q) as @ take (Suc (yq_back_pos q)) (cells_of (yq_heap q) en))))"
  using assms
proof (induction as arbitrary: fuel pos)
  case Nil
  then obtain n where "fuel = Suc n" by (cases fuel) auto
  then show ?case using chunk_data_free_vals [OF Nil(1), of en "yq_back_pos q" 0] Nil by simp
next
  case (Cons a as)
  then obtain n where n: "fuel = Suc n" "length as < n" by (cases fuel) auto
  obtain c where c: "yq_heap q a = Some c" "ck_next c = Some (hd (as @ [en]))" using Cons.prems(1) by (cases as) auto
  have "chunk_data_free q a pos (chunk_size - 1) = Ret (vals (drop pos (cells_of (yq_heap q) a)))"
    using chunk_data_free_vals [OF Cons.prems(1), of a "chunk_size - 1" pos] by (simp add: chunk_size_def)
  moreover have "data_free_loop n q (Some (hd (as @ [en]))) en 0 =
      Ret (vals (drop 0 (cells_in (yq_heap q) as @ take (Suc (yq_back_pos q)) (cells_of (yq_heap q) en))))"
    using Cons.prems n(2) by (intro Cons.IH) (auto simp: chunk_size_def)
  ultimately show ?case using n(1) c Cons.prems(2,6) by (simp add: ck_get_def)
qed

lemma chunk_free_loop_all:
  assumes "ck_linked (yq_heap q) cs" "cs \<noteq> []" "distinct cs" "yq_begin_chunk q = hd cs" "yq_end_chunk q = last cs" "length cs \<le> fuel"
  shows "\<exists>q'. chunk_free_loop fuel q = Ret q' \<and> yq_heap q' = (yq_heap q) |` (- set cs) \<and> yq_spare q' = yq_spare q"
  using assms
proof (induction cs arbitrary: q fuel)
  case (Cons a cs)
  then obtain n where n: "fuel = Suc n" "length cs \<le> n" by (cases fuel) auto
  obtain c where c: "yq_heap q a = Some c" "cs \<noteq> [] \<Longrightarrow> ck_next c = Some (hd cs)" using Cons.prems(1) by auto
  let ?h = "(yq_heap q)(a := None)"
  show ?case
  proof (cases "cs = []")
    case True
    then show ?thesis using Cons.prems n c by (auto simp: ck_get_def restrict_map_def fun_eq_iff)
  next
    case False
    let ?q = "q\<lparr>yq_heap := ?h, yq_begin_chunk := hd cs\<rparr>"
    have "ck_linked ?h cs" by (rule ck_linked_cong [of "yq_heap q"]) (use Cons.prems(1,3) in auto)
    then obtain q' where q': "chunk_free_loop n ?q = Ret q'" "yq_heap q' = ?h |` (- set cs)" "yq_spare q' = yq_spare q"
      using Cons.IH [of ?q n] Cons.prems(3,5) False n(2) by (simp del: fun_upd_apply) blast
    have "a \<noteq> last cs" using Cons.prems(3) False by auto
    then have "chunk_free_loop fuel q = chunk_free_loop n ?q" using n(1) c False Cons.prems(4,5) by (simp add: ck_get_def)
    moreover have "?h |` (- set cs) = (yq_heap q) |` (- set (a # cs))" by (auto simp: restrict_map_def fun_eq_iff)
    ultimately show ?thesis using q' by auto
  qed
qed simp

lemma yq_used:
  assumes at: "yq_at q cs pre cells post" "cells \<noteq> []"
  obtains as en bs where "cs = as @ en # bs" "yq_back_chunk q = Some en" "yq_back_pos q < chunk_size"
    "pre @ cells = cells_in (yq_heap q) as @ take (Suc (yq_back_pos q)) (cells_of (yq_heap q) en)"
proof -
  note a = yq_atD [OF at(1)] and l = yq_layoutD [OF yq_atD(1) [OF at(1)]]
  obtain en where en: "yq_back_chunk q = Some en" "fst (last cells) = (en, yq_back_pos q)"
    using at by (auto simp: yq_at_def split: option.splits)
  have "last cells \<in> set (cells_in (yq_heap q) cs)" using a(2) at(2) by simp
  then have m: "en \<in> set cs" "yq_back_pos q < chunk_size" using en(2) by (auto simp: in_cells)
  then obtain as bs where cs: "cs = as @ en # bs" by (meson split_list)
  let ?all = "cells_in (yq_heap q) cs" and ?j = "length (cells_in (yq_heap q) as) + yq_back_pos q"
  let ?k = "length pre + length cells - 1"
  have "?all ! ?j = cells_of (yq_heap q) en ! yq_back_pos q" using m(2) by (simp add: cs nth_append)
  then have "fst (?all ! ?j) = fst (last cells)" using m(2) en(2) by (simp add: cells_of_nth)
  moreover have "?all ! ?k = last cells"
  proof -
    obtain ys y where "cells = ys @ [y]" using at(2) by (cases cells rule: rev_cases) auto
    then show ?thesis unfolding a(2) by (simp add: nth_append)
  qed
  moreover have "?j < length ?all" "?k < length ?all" using m(2) at(2) arg_cong [OF a(2), of length] by (auto simp: cs)
  moreover have "distinct (map fst ?all)" by (rule distinct_cells [OF l(4)])
  ultimately have "?j = ?k" by (metis length_map nth_eq_iff_index_eq nth_map)
  then have "length (pre @ cells) = Suc ?j" using at(2) by (cases cells) auto
  moreover have "pre @ cells = take (length (pre @ cells)) ?all" unfolding a(2) by simp
  ultimately have "pre @ cells = take (Suc ?j) ?all" by simp
  also have "\<dots> = cells_in (yq_heap q) as @ take (Suc (yq_back_pos q)) (cells_of (yq_heap q) en)"
    using m(2) by (simp add: cs)
  finally show ?thesis using cs en(1) m(2) that by blast
qed

lemma yqueue_free_vals:
  assumes "yq_rep q cells" "cells \<noteq> []"
  shows "acl_yqueue_free q True = Ret (vals cells, Map.empty)"
proof -
  obtain cs pre post where at: "yq_at q cs pre cells post" using assms(1) by (auto simp: yq_rep_def)
  note a = yq_atD [OF at] and l = yq_layoutD [OF yq_atD(1) [OF at]]
  obtain as en bs where u: "cs = as @ en # bs" "yq_back_chunk q = Some en" "yq_back_pos q < chunk_size"
    "pre @ cells = cells_in (yq_heap q) as @ take (Suc (yq_back_pos q)) (cells_of (yq_heap q) en)"
    by (rule yq_used [OF at assms(2)], rule that)
  have cells: "cells = drop (yq_begin_pos q) (cells_in (yq_heap q) as @ take (Suc (yq_back_pos q)) (cells_of (yq_heap q) en))"
    unfolding u(4) [symmetric] using a(3) by simp
  have len: "length cs \<le> yq_brk q" by (rule distinct_bounded [OF l(4)]) (use l(6,7) in blast)
  have "(if Some (yq_begin_chunk q) = yq_back_chunk q then chunk_data_free q (yq_begin_chunk q) (yq_begin_pos q) (yq_back_pos q)
      else case yq_back_chunk q of None \<Rightarrow> Fault
      | Some en \<Rightarrow> data_free_loop (Suc (yq_brk q)) q (Some (yq_begin_chunk q)) en (yq_begin_pos q)) = Ret (vals cells)"
  proof (cases "as = []")
    case True
    have "chunk_data_free q en (yq_begin_pos q) (yq_back_pos q) = Ret (vals cells)"
      using chunk_data_free_vals [OF l(5), of en "yq_back_pos q" "yq_begin_pos q"] u(1,3) cells True by simp
    then show ?thesis using True u(1,2) l(2) by simp
  next
    case False
    then have "hd cs \<noteq> en" using l(4) u(1) by (cases as) auto
    moreover have "data_free_loop (Suc (yq_brk q)) q (Some (hd (as @ [en]))) en (yq_begin_pos q) = Ret (vals cells)"
      unfolding cells by (rule data_free_loop_vals) (use l(4,5) u(1,3) len a(4) False in auto)
    moreover have "hd (as @ [en]) = hd cs" using u(1) by (cases as) simp_all
    ultimately show ?thesis using u(2) l(2) by simp
  qed
  moreover obtain q' where q': "chunk_free_loop (Suc (yq_brk q)) q = Ret q'" "yq_heap q' = (yq_heap q) |` (- set cs)" "yq_spare q' = yq_spare q"
    using chunk_free_loop_all [OF l(5,1,4,2,3), of "Suc (yq_brk q)"] len by (simp del: chunk_free_loop.simps) blast
  moreover have "case yq_spare q of None \<Rightarrow> (yq_heap q) |` (- set cs) = Map.empty
    | Some s \<Rightarrow> ((yq_heap q) |` (- set cs)) s \<noteq> None \<and> ((yq_heap q) |` (- set cs))(s := None) = Map.empty"
    using l(6,8) by (auto simp: restrict_map_def fun_eq_iff split: option.split)
  ultimately show ?thesis by (auto simp: acl_yqueue_free_def ck_get_def split: option.splits)
qed

end
