(* ===== verification/Acl_Ypipe.thy ===== *)
theory Acl_Ypipe
  imports Yqueue_Rep
begin

text \<open>
  The pipe between two threads without a lock, \<open>lib_acl/src/stdlib/common/acl_ypipe.c\<close>: one thread writes and
  flushes, one reads. The functions are cut into steps, each with at most one access to what the other thread
  may be changing: the atomic pointer \<open>c\<close>, the cell behind \<open>r\<close>, the spare chunk. The steps of the two threads
  interleave in any order; memory is sequentially consistent.
\<close>

record 'v acl_ypipe =
  yp_queue :: "'v acl_yqueue"
  yp_w :: ycell
  yp_r :: "ycell option"
  yp_f :: ycell
  yp_c :: "ycell option"
  yp_reads :: nat
  yp_writes :: nat

text \<open>\<open>acl_atomic_cas\<close>: the new value, and the old one, which it returns.\<close>

definition acl_atomic_cas :: "'a \<Rightarrow> 'a \<Rightarrow> 'a \<Rightarrow> 'a \<times> 'a" where
  "acl_atomic_cas cur cmp new = (if cur = cmp then new else cur, cur)"

definition acl_ypipe_new :: "'v acl_ypipe cres" where
  "acl_ypipe_new = cbind (acl_yqueue_push acl_yqueue_new) (\<lambda>q. map_cres (\<lambda>item.
     \<lparr>yp_queue = q, yp_w = item, yp_r = Some item, yp_f = item, yp_c = Some item, yp_reads = 0, yp_writes = 0\<rparr>)
     (acl_yqueue_back q))"

subsection \<open>The writer\<close>

definition ypipe_store :: "'v acl_ypipe \<Rightarrow> 'v option \<Rightarrow> 'v acl_ypipe cres" where
  "ypipe_store p data = cbind (acl_yqueue_back (yp_queue p)) (\<lambda>b.
     map_cres (\<lambda>q. p\<lparr>yp_queue := q\<rparr>) (cell_put (yp_queue p) b data))"

definition ypipe_push :: "'v acl_ypipe \<Rightarrow> 'v acl_ypipe cres" where
  "ypipe_push p = cbind (acl_yqueue_push (yp_queue p)) (\<lambda>q.
     map_cres (\<lambda>b. p\<lparr>yp_queue := q, yp_f := b, yp_writes := yp_writes p + 1\<rparr>) (acl_yqueue_back q))"

definition acl_ypipe_write :: "'v acl_ypipe \<Rightarrow> 'v option \<Rightarrow> 'v acl_ypipe cres" where
  "acl_ypipe_write p data = cbind (ypipe_store p data) ypipe_push"

text \<open>The result of the first step of a flush: \<open>None\<close> if the reader sleeps and the second step is due.\<close>

definition ypipe_flush_cas :: "'v acl_ypipe \<Rightarrow> 'v acl_ypipe \<times> int option" where
  "ypipe_flush_cas p =
    (if yp_w p = yp_f p then (p, Some 0)
     else (let (c, old) = acl_atomic_cas (yp_c p) (Some (yp_w p)) (Some (yp_f p)); p = p\<lparr>yp_c := c\<rparr> in
       if old \<noteq> Some (yp_w p) then (p, None) else (p\<lparr>yp_w := yp_f p\<rparr>, Some 0)))"

definition ypipe_flush_set :: "'v acl_ypipe \<Rightarrow> 'v acl_ypipe \<times> int" where
  "ypipe_flush_set p = (p\<lparr>yp_c := Some (yp_f p), yp_w := yp_f p\<rparr>, 1)"

definition acl_ypipe_flush :: "'v acl_ypipe \<Rightarrow> 'v acl_ypipe \<times> int" where
  "acl_ypipe_flush p = (case ypipe_flush_cas p of (p, Some r) \<Rightarrow> (p, r) | (p, None) \<Rightarrow> ypipe_flush_set p)"

subsection \<open>The reader\<close>

text \<open>The first step of a check: whether there is a value, without a look at \<open>c\<close>.\<close>

definition ypipe_check_cell :: "'v acl_ypipe \<Rightarrow> bool cres" where
  "ypipe_check_cell p = (case yp_r p of None \<Rightarrow> Ret False
     | Some r \<Rightarrow> if acl_yqueue_front (yp_queue p) = r then Ret False else map_cres (\<lambda>v. v \<noteq> None) (cell_get (yp_queue p) r))"

definition ypipe_check_cas :: "'v acl_ypipe \<Rightarrow> 'v acl_ypipe \<times> int" where
  "ypipe_check_cas p = (let front = acl_yqueue_front (yp_queue p);
       (c, old) = acl_atomic_cas (yp_c p) (Some front) None; p = p\<lparr>yp_c := c, yp_r := old\<rparr> in
     if Some front = yp_r p \<or> yp_r p = None then (p, 0) else (p, 1))"

definition acl_ypipe_check_read :: "'v acl_ypipe \<Rightarrow> ('v acl_ypipe \<times> int) cres" where
  "acl_ypipe_check_read p = cbind (ypipe_check_cell p) (\<lambda>b. if b then Ret (p, 1) else Ret (ypipe_check_cas p))"

definition ypipe_take :: "'v acl_ypipe \<Rightarrow> ('v acl_ypipe \<times> 'v option) cres" where
  "ypipe_take p = cbind (cell_get (yp_queue p) (acl_yqueue_front (yp_queue p))) (\<lambda>v.
     map_cres (\<lambda>q. (p\<lparr>yp_queue := q, yp_reads := yp_reads p + 1\<rparr>, v)) (acl_yqueue_pop (yp_queue p)))"

definition acl_ypipe_read :: "'v acl_ypipe \<Rightarrow> ('v acl_ypipe \<times> 'v option) cres" where
  "acl_ypipe_read p = cbind (acl_ypipe_check_read p) (\<lambda>(p, r). if r = 0 then Ret (p, None) else ypipe_take p)"

definition acl_ypipe_free :: "'v acl_ypipe \<Rightarrow> bool \<Rightarrow> ('v list \<times> (nat \<Rightarrow> 'v ychunk option)) cres" where
  "acl_ypipe_free p free_fn = acl_yqueue_free (yp_queue p) free_fn"

subsection \<open>Two threads\<close>

datatype writer_pc = WIdle | WPush | WSet
datatype reader_pc = RIdle | RCas | RReady

text \<open>
  The history: what was written, how much of it a flush has published, what was taken; whether the last
  check found nothing, and whether a flush has said since then that the reader must be woken.
\<close>

record 'v ypipe_sys =
  ys_pipe :: "'v acl_ypipe"
  ys_wpc :: writer_pc
  ys_rpc :: reader_pc
  ys_written :: "'v option list"
  ys_published :: nat
  ys_taken :: "'v option list"
  ys_asleep :: bool
  ys_woken :: bool

datatype 'v ypipe_move = MStore "'v option" | MPush | MFlush | MSet | MCheck | MCas | MTake

fun ypipe_enabled :: "'v ypipe_sys \<Rightarrow> 'v ypipe_move \<Rightarrow> bool" where
  "ypipe_enabled s (MStore v) = (ys_wpc s = WIdle)"
| "ypipe_enabled s MPush = (ys_wpc s = WPush)"
| "ypipe_enabled s MFlush = (ys_wpc s = WIdle)"
| "ypipe_enabled s MSet = (ys_wpc s = WSet)"
| "ypipe_enabled s MCheck = (ys_rpc s \<noteq> RCas)"
| "ypipe_enabled s MCas = (ys_rpc s = RCas)"
| "ypipe_enabled s MTake = (ys_rpc s = RReady)"

fun ypipe_do :: "'v ypipe_sys \<Rightarrow> 'v ypipe_move \<Rightarrow> 'v ypipe_sys cres" where
  "ypipe_do s (MStore v) = map_cres (\<lambda>p. s\<lparr>ys_pipe := p, ys_wpc := WPush, ys_written := ys_written s @ [v]\<rparr>) (ypipe_store (ys_pipe s) v)"
| "ypipe_do s MPush = map_cres (\<lambda>p. s\<lparr>ys_pipe := p, ys_wpc := WIdle\<rparr>) (ypipe_push (ys_pipe s))"
| "ypipe_do s MFlush = Ret (case ypipe_flush_cas (ys_pipe s) of
     (p, None) \<Rightarrow> s\<lparr>ys_pipe := p, ys_wpc := WSet\<rparr>
   | (p, Some _) \<Rightarrow> s\<lparr>ys_pipe := p, ys_published := length (ys_written s)\<rparr>)"
| "ypipe_do s MSet = Ret (case ypipe_flush_set (ys_pipe s) of
     (p, r) \<Rightarrow> s\<lparr>ys_pipe := p, ys_wpc := WIdle, ys_published := length (ys_written s), ys_woken := (r = 1)\<rparr>)"
| "ypipe_do s MCheck = map_cres (\<lambda>b. if b then s\<lparr>ys_rpc := RReady, ys_asleep := False\<rparr> else s\<lparr>ys_rpc := RCas\<rparr>)
     (ypipe_check_cell (ys_pipe s))"
| "ypipe_do s MCas = Ret (case ypipe_check_cas (ys_pipe s) of
     (p, r) \<Rightarrow> if r = 0 then s\<lparr>ys_pipe := p, ys_rpc := RIdle, ys_asleep := True, ys_woken := False\<rparr>
               else s\<lparr>ys_pipe := p, ys_rpc := RReady, ys_asleep := False\<rparr>)"
| "ypipe_do s MTake = map_cres (\<lambda>(p, v). s\<lparr>ys_pipe := p, ys_rpc := RIdle, ys_taken := ys_taken s @ [v]\<rparr>) (ypipe_take (ys_pipe s))"

definition ypipe_start :: "'v acl_ypipe \<Rightarrow> 'v ypipe_sys" where
  "ypipe_start p = \<lparr>ys_pipe = p, ys_wpc = WIdle, ys_rpc = RIdle, ys_written = [], ys_published = 0, ys_taken = [],
     ys_asleep = False, ys_woken = False\<rparr>"

inductive ypipe_reach :: "'v ypipe_sys \<Rightarrow> bool" where
  ypipe_init: "acl_ypipe_new = Ret p \<Longrightarrow> ypipe_reach (ypipe_start p)"
| ypipe_step: "ypipe_reach s \<Longrightarrow> ypipe_enabled s m \<Longrightarrow> ypipe_do s m = Ret s' \<Longrightarrow> ypipe_reach s'"

subsection \<open>The invariant\<close>

text \<open>
  The cells in use are those of the values not taken yet and one for the next, which is the one that was
  just filled while a push is due. The pointers stand on cells: \<open>w\<close> behind the published values, \<open>f\<close> on
  the last cell, \<open>c\<close> on the same as \<open>w\<close>, or null when the reader has found nothing, \<open>r\<close> not behind \<open>w\<close>.
\<close>

definition ypipe_on :: "ycell list \<Rightarrow> nat \<Rightarrow> nat \<Rightarrow> nat \<Rightarrow> ycell option \<Rightarrow> bool" where
  "ypipe_on as n lo hi x \<longleftrightarrow> (\<exists>i. lo \<le> i \<and> i \<le> hi \<and> x = Some (as ! (i - n)))"

lemma ypipe_on_mono: "ypipe_on as n lo hi x \<Longrightarrow> lo' \<le> lo \<Longrightarrow> hi \<le> hi' \<Longrightarrow> ypipe_on as n lo' hi' x"
  by (auto simp: ypipe_on_def intro: exI [of _ "_ :: nat"] le_trans)

lemma ypipe_on_self: "lo \<le> hi \<Longrightarrow> ypipe_on as n lo hi (Some (as ! (hi - n)))"
  unfolding ypipe_on_def by blast

lemma ypipe_on_snoc: "ypipe_on as n lo hi x \<Longrightarrow> n \<le> lo \<Longrightarrow> hi < n + length as \<Longrightarrow> ypipe_on (as @ [a]) n lo hi x"
  unfolding ypipe_on_def by (elim exE) (rule exI, auto simp: nth_append)

lemma ypipe_on_tl: "ypipe_on (a # as) n (Suc n) hi x \<Longrightarrow> ypipe_on as (Suc n) (Suc n) hi x"
  unfolding ypipe_on_def by (elim exE) (rule exI, auto simp: Suc_diff_Suc [symmetric])

definition ypipe_ptrs :: "'v ypipe_sys \<Rightarrow> ycell list \<Rightarrow> bool" where
  "ypipe_ptrs s as \<longleftrightarrow> (let p = ys_pipe s; n = length (ys_taken s) in
     n \<le> ys_published s \<and> ys_published s < n + length as \<and> yp_f p = last as \<and> yp_w p = as ! (ys_published s - n)
     \<and> yp_c p = (if ys_asleep s \<and> \<not> ys_woken s then None else Some (yp_w p))
     \<and> (ys_asleep s \<and> \<not> ys_woken s \<longrightarrow> ys_published s = n)
     \<and> (yp_r p = None \<or> ypipe_on as n n (ys_published s) (yp_r p))
     \<and> (ys_rpc s = RReady \<longrightarrow> ypipe_on as n (Suc n) (ys_published s) (yp_r p))
     \<and> (ys_wpc s = WSet \<longrightarrow> ys_asleep s \<and> \<not> ys_woken s))"

lemma ypipe_ptrsI:
  assumes "length (ys_taken s) \<le> ys_published s"
    "ys_published s < length (ys_taken s) + length as" "yp_f (ys_pipe s) = last as"
    "yp_w (ys_pipe s) = as ! (ys_published s - length (ys_taken s))"
    "yp_c (ys_pipe s) = (if ys_asleep s \<and> \<not> ys_woken s then None else Some (yp_w (ys_pipe s)))"
    "ys_asleep s \<and> \<not> ys_woken s \<Longrightarrow> ys_published s = length (ys_taken s)"
    "yp_r (ys_pipe s) = None \<or> ypipe_on as (length (ys_taken s)) (length (ys_taken s)) (ys_published s) (yp_r (ys_pipe s))"
    "ys_rpc s = RReady \<Longrightarrow> ypipe_on as (length (ys_taken s)) (Suc (length (ys_taken s))) (ys_published s) (yp_r (ys_pipe s))"
    "ys_wpc s = WSet \<Longrightarrow> ys_asleep s \<and> \<not> ys_woken s"
  shows "ypipe_ptrs s as"
  unfolding ypipe_ptrs_def Let_def by (intro conjI impI assms) (auto intro: assms)

definition ypipe_inv :: "'v ypipe_sys \<Rightarrow> (ycell \<times> 'v option) list \<Rightarrow> bool" where
  "ypipe_inv s cells \<longleftrightarrow> yq_rep (yp_queue (ys_pipe s)) cells
     \<and> map snd cells = drop (length (ys_taken s)) (ys_written s) @ (if ys_wpc s = WPush then [] else [None])
     \<and> ys_taken s = take (length (ys_taken s)) (ys_written s) \<and> ypipe_ptrs s (map fst cells)"

lemma ypipe_ptrsD:
  assumes "ypipe_ptrs s as"
  shows "length (ys_taken s) \<le> ys_published s"
    "ys_published s < length (ys_taken s) + length as" "yp_f (ys_pipe s) = last as"
    "yp_w (ys_pipe s) = as ! (ys_published s - length (ys_taken s))"
    "yp_c (ys_pipe s) = (if ys_asleep s \<and> \<not> ys_woken s then None else Some (yp_w (ys_pipe s)))"
    "ys_asleep s \<Longrightarrow> \<not> ys_woken s \<Longrightarrow> ys_published s = length (ys_taken s)"
    "yp_r (ys_pipe s) = None \<or> ypipe_on as (length (ys_taken s)) (length (ys_taken s)) (ys_published s) (yp_r (ys_pipe s))"
    "ys_rpc s = RReady \<Longrightarrow> ypipe_on as (length (ys_taken s)) (Suc (length (ys_taken s))) (ys_published s) (yp_r (ys_pipe s))"
    "ys_wpc s = WSet \<Longrightarrow> ys_asleep s \<and> \<not> ys_woken s"
  using assms unfolding ypipe_ptrs_def Let_def by blast+

lemma ypipe_invD:
  assumes "ypipe_inv s cells"
  shows "yq_rep (yp_queue (ys_pipe s)) cells" "map snd cells = drop (length (ys_taken s)) (ys_written s) @ (if ys_wpc s = WPush then [] else [None])"
    "ys_taken s = take (length (ys_taken s)) (ys_written s)" "ypipe_ptrs s (map fst cells)"
  using assms unfolding ypipe_inv_def by blast+

lemma ypipe_bounds:
  assumes "ypipe_inv s cells"
  shows "length cells = length (ys_written s) - length (ys_taken s) + (if ys_wpc s = WPush then 0 else 1)" "cells \<noteq> []"
    "length (ys_taken s) \<le> length (ys_written s)" "ys_published s \<le> length (ys_written s)"
proof -
  show 1: "length (ys_taken s) \<le> length (ys_written s)" using arg_cong [OF ypipe_invD(3) [OF assms], of length] by simp
  show 2: "length cells = length (ys_written s) - length (ys_taken s) + (if ys_wpc s = WPush then 0 else 1)"
    using arg_cong [OF ypipe_invD(2) [OF assms], of length] by simp
  show "ys_published s \<le> length (ys_written s)" "cells \<noteq> []"
    using ypipe_ptrsD(1,2) [OF ypipe_invD(4) [OF assms]] 1 2 by (auto split: if_splits)
qed

lemma ypipe_front: "ypipe_inv s cells \<Longrightarrow> acl_yqueue_front (yp_queue (ys_pipe s)) = map fst cells ! 0"
  using ypipe_invD(1) [of s cells] ypipe_bounds(2) [of s cells] yq_front_cell [of "yp_queue (ys_pipe s)" "hd cells" "tl cells"]
  by (cases cells) simp_all

text \<open>Cells at different places are different.\<close>

lemma ypipe_addr:
  assumes "ypipe_inv s cells" "i < length cells" "j < length cells"
  shows "map fst cells ! i = map fst cells ! j \<longleftrightarrow> i = j"
  using nth_eq_iff_index_eq [OF yq_distinct [OF ypipe_invD(1) [OF assms(1)]], of i j] assms(2,3) by simp

lemma start_inv:
  fixes p :: "'v acl_ypipe"
  assumes "acl_ypipe_new = Ret p"
  shows "\<exists>cells. ypipe_inv (ypipe_start p) cells"
proof -
  obtain q :: "'v acl_yqueue" and a where q: "acl_yqueue_push acl_yqueue_new = Ret q" "yq_rep q [(a, None)]"
    using yq_push [OF yqueue_new_rep] by auto
  then have "acl_yqueue_back q = Ret a" using yq_back_cell [of q "[(a, None)]"] by simp
  then have "p = \<lparr>yp_queue = q, yp_w = a, yp_r = Some a, yp_f = a, yp_c = Some a, yp_reads = 0, yp_writes = 0\<rparr>"
    using assms q(1) by (simp add: acl_ypipe_new_def)
  then have "ypipe_inv (ypipe_start p) [(a, None)]" using q(2) by (simp add: ypipe_on_def ypipe_inv_def ypipe_ptrs_def ypipe_start_def)
  then show ?thesis by blast
qed

subsection \<open>The steps keep the invariant\<close>

lemma store_inv:
  assumes inv: "ypipe_inv s cells" and pc: "ys_wpc s = WIdle"
  shows "\<exists>s' cells'. ypipe_do s (MStore v) = Ret s' \<and> ypipe_inv s' cells'"
proof -
  note i = ypipe_invD [OF inv]
  note p = ypipe_ptrsD [OF i(4)]
  obtain a u cs where cells: "cells = cs @ [(a, u)]" using ypipe_bounds(2) [OF inv] by (cases cells rule: rev_cases) auto
  obtain q where q: "cell_put (yp_queue (ys_pipe s)) a v = Ret q" "yq_rep q (cs @ [(a, v)])"
    using yq_cell_put [of "yp_queue (ys_pipe s)" cs a u "[]" v] i(1) cells by auto
  have "acl_yqueue_back (yp_queue (ys_pipe s)) = Ret a" using yq_back_cell [OF i(1)] cells by simp
  then have do: "ypipe_do s (MStore v) = Ret (s\<lparr>ys_pipe := ys_pipe s\<lparr>yp_queue := q\<rparr>, ys_wpc := WPush, ys_written := ys_written s @ [v]\<rparr>)"
    (is "_ = Ret ?s") using q(1) by (simp add: ypipe_store_def)
  have "map snd cs = drop (length (ys_taken s)) (ys_written s)" using i(2) pc cells by simp
  moreover have "ypipe_ptrs ?s (map fst cells)" by (rule ypipe_ptrsI) (use p in simp_all)
  then have "ypipe_ptrs ?s (map fst (cs @ [(a, v)]))" by (simp add: cells)
  ultimately have "ypipe_inv ?s (cs @ [(a, v)])"
    unfolding ypipe_inv_def using q(2) i(3) ypipe_bounds(3) [OF inv] by simp
  with do show ?thesis by blast
qed

lemma push_inv:
  assumes inv: "ypipe_inv s cells" and pc: "ys_wpc s = WPush"
  shows "\<exists>s' cells'. ypipe_do s MPush = Ret s' \<and> ypipe_inv s' cells'"
proof -
  note i = ypipe_invD [OF inv]
  note p = ypipe_ptrsD [OF i(4)]
  obtain q a where q: "acl_yqueue_push (yp_queue (ys_pipe s)) = Ret q" "yq_rep q (cells @ [(a, None)])"
    using yq_push [OF i(1)] by blast
  then have "acl_yqueue_back q = Ret a" using yq_back_cell [OF q(2)] by simp
  then have do: "ypipe_do s MPush = Ret (s\<lparr>ys_pipe := ys_pipe s\<lparr>yp_queue := q, yp_f := a, yp_writes := yp_writes (ys_pipe s) + 1\<rparr>, ys_wpc := WIdle\<rparr>)"
    (is "_ = Ret ?s") using q(1) by (simp add: ypipe_push_def)
  have ad: "(map fst cells @ [a]) ! (ys_published s - length (ys_taken s)) = map fst cells ! (ys_published s - length (ys_taken s))"
    using p(1,2) by (simp add: nth_append) linarith
  have on: "ypipe_on (map fst cells @ [a]) (length (ys_taken s)) lo (ys_published s) x"
    if "ypipe_on (map fst cells) (length (ys_taken s)) lo (ys_published s) x" "length (ys_taken s) \<le> lo" for lo x
    using ypipe_on_snoc [OF that] p(2) by simp
  have "ypipe_ptrs ?s (map fst cells @ [a])"
    by (rule ypipe_ptrsI) (use p on ad in \<open>auto simp del: nth_append nth_map\<close>)
  then have "ypipe_inv ?s (cells @ [(a, None)])"
    unfolding ypipe_inv_def using q(2) i(2,3) pc by simp
  with do show ?thesis by blast
qed

lemma flush_inv:
  assumes inv: "ypipe_inv s cells" and pc: "ys_wpc s = WIdle"
  shows "\<exists>s'. ypipe_do s MFlush = Ret s' \<and> ypipe_inv s' cells"
proof -
  note i = ypipe_invD [OF inv]
  note b = ypipe_bounds [OF inv]
  note p = ypipe_ptrsD [OF i(4)]
  let ?as = "map fst cells" and ?n = "length (ys_taken s)" and ?w = "length (ys_written s)"
  have f: "yp_f (ys_pipe s) = ?as ! (?w - ?n)" using p(3) b(1,2) pc by (simp add: last_conv_nth)
  have same: "yp_w (ys_pipe s) = yp_f (ys_pipe s) \<longleftrightarrow> ys_published s = ?w"
    using ypipe_addr [OF inv, of "ys_published s - ?n" "?w - ?n"] f p(1,2,4) b pc by auto
  consider "yp_w (ys_pipe s) = yp_f (ys_pipe s)" | "yp_w (ys_pipe s) \<noteq> yp_f (ys_pipe s)" "ys_asleep s \<and> \<not> ys_woken s"
    | "yp_w (ys_pipe s) \<noteq> yp_f (ys_pipe s)" "\<not> (ys_asleep s \<and> \<not> ys_woken s)" by blast
  then show ?thesis
  proof cases
    case 1
    then have "ypipe_do s MFlush = Ret s" using same by (simp add: ypipe_flush_cas_def)
    then show ?thesis using inv by blast
  next
    case 2
    then have "ypipe_do s MFlush = Ret (s\<lparr>ys_wpc := WSet\<rparr>)" using p(5) by (simp add: ypipe_flush_cas_def acl_atomic_cas_def)
    moreover have "ypipe_ptrs (s\<lparr>ys_wpc := WSet\<rparr>) ?as" by (rule ypipe_ptrsI) (use p 2(2) in simp_all)
    then have "ypipe_inv (s\<lparr>ys_wpc := WSet\<rparr>) cells" unfolding ypipe_inv_def using i(1-3) pc by simp
    ultimately show ?thesis by blast
  next
    case 3
    let ?s = "s\<lparr>ys_pipe := ys_pipe s\<lparr>yp_c := Some (yp_f (ys_pipe s)), yp_w := yp_f (ys_pipe s)\<rparr>, ys_published := ?w\<rparr>"
    have "ypipe_do s MFlush = Ret ?s" using 3 p(5) by (auto simp: ypipe_flush_cas_def acl_atomic_cas_def)
    moreover have "ypipe_ptrs ?s ?as"
      by (rule ypipe_ptrsI) (use p(3,7,8,9) b pc f 3(2) ypipe_on_mono [OF _ le_refl b(4)] in \<open>auto simp del: nth_map\<close>)
    then have "ypipe_inv ?s cells" unfolding ypipe_inv_def using i(1-3) pc by simp
    ultimately show ?thesis by blast
  qed
qed

lemma set_inv:
  assumes inv: "ypipe_inv s cells" and pc: "ys_wpc s = WSet"
  shows "\<exists>s'. ypipe_do s MSet = Ret s' \<and> ypipe_inv s' cells"
proof -
  note i = ypipe_invD [OF inv]
  note b = ypipe_bounds [OF inv]
  note p = ypipe_ptrsD [OF i(4)]
  let ?as = "map fst cells" and ?n = "length (ys_taken s)" and ?w = "length (ys_written s)"
  have f: "yp_f (ys_pipe s) = ?as ! (?w - ?n)" using p(3) b(1,2) pc by (simp add: last_conv_nth)
  let ?s = "s\<lparr>ys_pipe := ys_pipe s\<lparr>yp_c := Some (yp_f (ys_pipe s)), yp_w := yp_f (ys_pipe s)\<rparr>, ys_wpc := WIdle,
    ys_published := ?w, ys_woken := True\<rparr>"
  have "ypipe_do s MSet = Ret ?s" by (simp add: ypipe_flush_set_def)
  moreover have "ypipe_ptrs ?s ?as"
    by (rule ypipe_ptrsI) (use p(3,7,8) b pc f ypipe_on_mono [OF _ le_refl b(4)] in \<open>auto simp del: nth_map\<close>)
  then have "ypipe_inv ?s cells" unfolding ypipe_inv_def using i(1-3) pc by simp
  ultimately show ?thesis by blast
qed

lemma check_inv:
  assumes inv: "ypipe_inv s cells"
  shows "ypipe_check_cell (ys_pipe s) = Ret True \<and> ypipe_on (map fst cells) (length (ys_taken s)) (Suc (length (ys_taken s))) (ys_published s) (yp_r (ys_pipe s))
    \<or> ypipe_check_cell (ys_pipe s) = Ret False"
proof -
  note i = ypipe_invD [OF inv]
  note p = ypipe_ptrsD [OF i(4)]
  let ?as = "map fst cells" and ?n = "length (ys_taken s)"
  show ?thesis
  proof (cases "\<exists>x. yp_r (ys_pipe s) = Some x \<and> x \<noteq> ?as ! 0")
    case False
    then show ?thesis using ypipe_front [OF inv] by (auto simp: ypipe_check_cell_def split: option.split)
  next
    case True
    then obtain x where x: "yp_r (ys_pipe s) = Some x" "x \<noteq> ?as ! 0" by blast
    obtain k where k: "?n \<le> k" "k \<le> ys_published s" "x = ?as ! (k - ?n)" using p(7) x(1) by (auto simp: ypipe_on_def)
    then have kn: "Suc ?n \<le> k" using x(2) by (cases "k = ?n") auto
    then have "ypipe_on ?as ?n (Suc ?n) (ys_published s) (yp_r (ys_pipe s))" using k x(1) unfolding ypipe_on_def by blast
    moreover have "k - ?n < length cells" using k p(2) by simp
    then have "(x, snd (cells ! (k - ?n))) \<in> set cells" using k(3) by (simp add: nth_mem)
    then have "ypipe_check_cell (ys_pipe s) = Ret (snd (cells ! (k - ?n)) \<noteq> None)"
      using yq_cell_get [OF i(1)] x ypipe_front [OF inv] by (simp add: ypipe_check_cell_def)
    ultimately show ?thesis by (cases "snd (cells ! (k - ?n))") auto
  qed
qed

lemma check_inv':
  assumes inv: "ypipe_inv s cells"
  shows "\<exists>s'. ypipe_do s MCheck = Ret s' \<and> ypipe_inv s' cells"
  using check_inv [OF inv]
proof (elim disjE conjE)
  note i = ypipe_invD [OF inv]
  note p = ypipe_ptrsD [OF i(4)]
  {
    assume "ypipe_check_cell (ys_pipe s) = Ret False"
    moreover have "ypipe_ptrs (s\<lparr>ys_rpc := RCas\<rparr>) (map fst cells)" by (rule ypipe_ptrsI) (use p in simp_all)
    then have "ypipe_inv (s\<lparr>ys_rpc := RCas\<rparr>) cells" unfolding ypipe_inv_def using i(1-3) by simp
    ultimately show ?thesis by simp
  next
    assume r: "ypipe_check_cell (ys_pipe s) = Ret True"
      "ypipe_on (map fst cells) (length (ys_taken s)) (Suc (length (ys_taken s))) (ys_published s) (yp_r (ys_pipe s))"
    then have "length (ys_taken s) < ys_published s" by (auto simp: ypipe_on_def)
    then have c: "\<not> (ys_asleep s \<and> \<not> ys_woken s)" using p(6) by auto
    have "ypipe_ptrs (s\<lparr>ys_rpc := RReady, ys_asleep := False\<rparr>) (map fst cells)"
      by (rule ypipe_ptrsI) (use p c r(2) in simp_all)
    then have "ypipe_inv (s\<lparr>ys_rpc := RReady, ys_asleep := False\<rparr>) cells" unfolding ypipe_inv_def using i(1-3) by simp
    with r show ?thesis by simp
  }
qed

lemma check_cas:
  assumes inv: "ypipe_inv s cells"
  shows "ypipe_check_cas (ys_pipe s) = (if length (ys_taken s) < ys_published s then ((ys_pipe s)\<lparr>yp_r := Some (yp_w (ys_pipe s))\<rparr>, 1)
    else ((ys_pipe s)\<lparr>yp_c := None, yp_r := yp_c (ys_pipe s)\<rparr>, 0))"
proof -
  note i = ypipe_invD [OF inv]
  note p = ypipe_ptrsD [OF i(4)]
  let ?n = "length (ys_taken s)"
  have "yp_w (ys_pipe s) = map fst cells ! 0 \<longleftrightarrow> ys_published s = ?n"
    using ypipe_addr [OF inv, of "ys_published s - ?n" 0] p(1,2,4) ypipe_bounds(2) [OF inv] by simp
  then have w: "yp_w (ys_pipe s) = acl_yqueue_front (yp_queue (ys_pipe s)) \<longleftrightarrow> ys_published s = ?n"
    using ypipe_front [OF inv] by simp
  show ?thesis
  proof (cases "?n < ys_published s")
    case True
    then have "yp_c (ys_pipe s) = Some (yp_w (ys_pipe s))" using p(5,6) by auto
    then show ?thesis using w True by (simp add: ypipe_check_cas_def acl_atomic_cas_def)
  next
    case False
    then have "yp_c (ys_pipe s) = None \<or> yp_c (ys_pipe s) = Some (acl_yqueue_front (yp_queue (ys_pipe s)))" using p(1,5) w by auto
    then show ?thesis using False by (elim disjE) (simp_all add: ypipe_check_cas_def acl_atomic_cas_def)
  qed
qed

lemma cas_inv:
  assumes inv: "ypipe_inv s cells"
  shows "\<exists>s'. ypipe_do s MCas = Ret s' \<and> ypipe_inv s' cells"
proof -
  note i = ypipe_invD [OF inv]
  note p = ypipe_ptrsD [OF i(4)]
  let ?as = "map fst cells" and ?n = "length (ys_taken s)" and ?p = "ys_pipe s"
  show ?thesis
  proof (cases "?n < ys_published s")
    case False
    then have e: "ys_published s = ?n" using p(1) by simp
    let ?s = "s\<lparr>ys_pipe := ?p\<lparr>yp_c := None, yp_r := yp_c ?p\<rparr>, ys_rpc := RIdle, ys_asleep := True, ys_woken := False\<rparr>"
    have "ypipe_do s MCas = Ret ?s" using check_cas [OF inv] e by simp
    moreover have "ypipe_ptrs ?s ?as"
      by (rule ypipe_ptrsI) (use p(2-5,9) e ypipe_on_self [of ?n ?n ?as ?n] in \<open>auto simp del: nth_map\<close>)
    then have "ypipe_inv ?s cells" unfolding ypipe_inv_def using i(1-3) by simp
    ultimately show ?thesis by blast
  next
    case True
    then have c: "\<not> (ys_asleep s \<and> \<not> ys_woken s)" using p(6) by auto
    let ?s = "s\<lparr>ys_pipe := ?p\<lparr>yp_r := Some (yp_w ?p)\<rparr>, ys_rpc := RReady, ys_asleep := False\<rparr>"
    have "ypipe_do s MCas = Ret ?s" using check_cas [OF inv] True by simp
    moreover have "ypipe_ptrs ?s ?as"
      by (rule ypipe_ptrsI) (use p(1-5,9) c True ypipe_on_self [of _ "ys_published s" ?as ?n] in \<open>auto simp del: nth_map\<close>)
    then have "ypipe_inv ?s cells" unfolding ypipe_inv_def using i(1-3) by simp
    ultimately show ?thesis by blast
  qed
qed

text \<open>Taking the front value needs no check, only that there is one.\<close>

lemma take_front:
  assumes inv: "ypipe_inv s cells" and lt: "length (ys_taken s) < ys_published s"
  shows "\<exists>q a cs. cells = (a, ys_written s ! length (ys_taken s)) # cs \<and> cs \<noteq> [] \<and> yq_rep q cs
    \<and> ypipe_take (ys_pipe s) = Ret ((ys_pipe s)\<lparr>yp_queue := q, yp_reads := yp_reads (ys_pipe s) + 1\<rparr>, ys_written s ! length (ys_taken s))"
proof -
  note i = ypipe_invD [OF inv]
  note b = ypipe_bounds [OF inv]
  note p = ypipe_ptrsD [OF i(4)]
  let ?n = "length (ys_taken s)"
  obtain a v cs where cells: "cells = (a, v) # cs" using b(2) by (cases cells) auto
  have "?n < length (ys_written s)" using lt b(4) by simp
  then have v: "v = ys_written s ! ?n" using i(2) by (auto simp: cells Cons_nth_drop_Suc [symmetric])
  obtain q where q: "acl_yqueue_pop (yp_queue (ys_pipe s)) = Ret q" "yq_rep q cs" using yq_pop i(1) cells by blast
  have "cell_get (yp_queue (ys_pipe s)) a = Ret v" by (rule yq_cell_get [OF i(1)]) (simp add: cells)
  then have "ypipe_take (ys_pipe s) = Ret ((ys_pipe s)\<lparr>yp_queue := q, yp_reads := yp_reads (ys_pipe s) + 1\<rparr>, v)"
    using q(1) ypipe_front [OF inv] by (simp add: ypipe_take_def cells)
  moreover have "cs \<noteq> []" using lt p(2) cells by auto
  ultimately show ?thesis using q(2) v cells by blast
qed

lemma take_inv:
  assumes inv: "ypipe_inv s cells" and pc: "ys_rpc s = RReady"
  shows "\<exists>s' cells'. ypipe_do s MTake = Ret s' \<and> ypipe_inv s' cells'"
proof -
  note i = ypipe_invD [OF inv]
  note p = ypipe_ptrsD [OF i(4)]
  let ?n = "length (ys_taken s)" and ?p = "ys_pipe s" and ?v = "ys_written s ! length (ys_taken s)"
  have r: "ypipe_on (map fst cells) ?n (Suc ?n) (ys_published s) (yp_r ?p)" using p(8) [OF pc] .
  then have n: "?n < ys_published s" by (auto simp: ypipe_on_def)
  then have c: "\<not> (ys_asleep s \<and> \<not> ys_woken s)" using p(6) by auto
  have lt: "?n < length (ys_written s)" using n ypipe_bounds(4) [OF inv] by simp
  obtain q a cs where t: "cells = (a, ?v) # cs" "cs \<noteq> []" "yq_rep q cs"
    "ypipe_take ?p = Ret (?p\<lparr>yp_queue := q, yp_reads := yp_reads ?p + 1\<rparr>, ?v)" using take_front [OF inv n] by blast
  let ?s = "s\<lparr>ys_pipe := ?p\<lparr>yp_queue := q, yp_reads := yp_reads ?p + 1\<rparr>, ys_rpc := RIdle, ys_taken := ys_taken s @ [?v]\<rparr>"
  have do: "ypipe_do s MTake = Ret ?s" using t(4) by simp
  have d: "map snd cs = drop (Suc ?n) (ys_written s) @ (if ys_wpc s = WPush then [] else [None])"
    using i(2) lt by (simp add: t(1) Cons_nth_drop_Suc [symmetric])
  have w: "map fst cells ! (ys_published s - ?n) = map fst cs ! (ys_published s - Suc ?n)"
    using n by (simp add: t(1) Suc_diff_Suc [symmetric])
  have "ypipe_ptrs ?s (map fst cs)"
    by (rule ypipe_ptrsI) (use p(2-5,9) c t(1,2) n w ypipe_on_tl [of a "map fst cs"] r in \<open>auto simp del: nth_map\<close>)
  then have "ypipe_inv ?s cs" unfolding ypipe_inv_def using t(3) d i(3) lt by (simp add: take_Suc_conv_app_nth)
  with do show ?thesis by blast
qed

lemma ypipe_do_inv:
  assumes "ypipe_inv s cells" "ypipe_enabled s m"
  shows "\<exists>s' cells'. ypipe_do s m = Ret s' \<and> ypipe_inv s' cells'"
  using assms store_inv push_inv flush_inv set_inv check_inv' cas_inv take_inv by (cases m) (simp_all del: ypipe_do.simps, blast+)

lemma ypipe_reach_inv: "ypipe_reach s \<Longrightarrow> \<exists>cells. ypipe_inv s cells"
proof (induction rule: ypipe_reach.induct)
  case (ypipe_step s m s')
  then show ?case using ypipe_do_inv by (metis cres.inject)
qed (rule start_inv)

text \<open>A whole read while the writer stands still.\<close>

lemma ypipe_read_inv:
  assumes inv: "ypipe_inv s cells"
  shows "\<exists>p. acl_ypipe_read (ys_pipe s) = Ret (p, if length (ys_taken s) < ys_published s then ys_written s ! length (ys_taken s) else None)"
proof (cases "length (ys_taken s) < ys_published s")
  case n: True
  obtain p where p: "acl_ypipe_check_read (ys_pipe s) = Ret (p, 1)" "p = ys_pipe s \<or> p = (ys_pipe s)\<lparr>yp_r := Some (yp_w (ys_pipe s))\<rparr>"
    using check_inv [OF inv] check_cas [OF inv] n by (elim disjE conjE) (simp_all add: acl_ypipe_check_read_def)
  have "ypipe_take p = map_cres (\<lambda>(p', v). (p'\<lparr>yp_r := yp_r p\<rparr>, v)) (ypipe_take (ys_pipe s))"
    using p(2) by (elim disjE; cases "cell_get (yp_queue (ys_pipe s)) (acl_yqueue_front (yp_queue (ys_pipe s)))"; cases "acl_yqueue_pop (yp_queue (ys_pipe s))")
      (auto simp: ypipe_take_def)
  then show ?thesis using take_front [OF inv n] p(1) n by (auto simp: acl_ypipe_read_def)
next
  case False
  then have "ypipe_check_cell (ys_pipe s) = Ret False" using check_inv [OF inv] by (auto simp: ypipe_on_def)
  then show ?thesis using check_cas [OF inv] False by (simp add: acl_ypipe_read_def acl_ypipe_check_read_def)
qed

lemma ypipe_flush_inv:
  assumes inv: "ypipe_inv s cells" and pc: "ys_wpc s = WIdle"
  shows "snd (acl_ypipe_flush (ys_pipe s)) = (if ys_asleep s \<and> \<not> ys_woken s \<and> ys_published s < length (ys_written s) then 1 else 0)"
proof -
  note p = ypipe_ptrsD [OF ypipe_invD(4) [OF inv]]
  note b = ypipe_bounds [OF inv]
  let ?n = "length (ys_taken s)"
  have "yp_f (ys_pipe s) = map fst cells ! (length (ys_written s) - ?n)" using p(3) b(1,2) pc by (simp add: last_conv_nth)
  then have "yp_w (ys_pipe s) = yp_f (ys_pipe s) \<longleftrightarrow> ys_published s = length (ys_written s)"
    using ypipe_addr [OF inv, of "ys_published s - ?n" "length (ys_written s) - ?n"] p(1,2,4) b pc by auto
  then show ?thesis
    using p(5) b(4) by (simp add: acl_ypipe_flush_def ypipe_flush_cas_def ypipe_flush_set_def acl_atomic_cas_def)
qed

fun ypipe_run :: "'v ypipe_sys \<Rightarrow> 'v ypipe_move list \<Rightarrow> 'v ypipe_sys cres" where
  "ypipe_run s [] = Ret s"
| "ypipe_run s (m # ms) = (if ypipe_enabled s m then cbind (ypipe_do s m) (\<lambda>s. ypipe_run s ms) else Fault)"

lemma ypipe_run_reach: "ypipe_reach s \<Longrightarrow> ypipe_run s ms = Ret t \<Longrightarrow> ypipe_reach t"
proof (induction ms arbitrary: s)
  case (Cons m ms)
  then obtain s' where "ypipe_enabled s m" "ypipe_do s m = Ret s'" "ypipe_run s' ms = Ret t"
    by (auto simp: cbind_eq_Ret_iff simp del: ypipe_do.simps split: if_splits)
  then show ?case using Cons.IH Cons.prems(1) ypipe_step by metis
qed simp

text \<open>Where a run from a new pipe ends.\<close>

definition ypipe_after :: "'v ypipe_move list \<Rightarrow> 'v ypipe_sys cres" where
  "ypipe_after ms = cbind acl_ypipe_new (\<lambda>p. ypipe_run (ypipe_start p) ms)"

lemma ypipe_after_reach: "ypipe_after ms = Ret s \<Longrightarrow> ypipe_reach s"
  unfolding ypipe_after_def cbind_eq_Ret_iff using ypipe_init ypipe_run_reach by blast

subsection \<open>Properties\<close>

text \<open>
  C25: Under every interleaving of one writing and one reading thread, the reader has taken a prefix of what
  the writer wrote, in the order of writing, never past what was flushed; and no step of either touches
  memory that is not a cell of the pipe.
\<close>

theorem ypipe_fifo:
  assumes "ypipe_reach s"
  shows "ys_taken s = take (length (ys_taken s)) (ys_written s) \<and> length (ys_taken s) \<le> ys_published s
    \<and> ys_published s \<le> length (ys_written s) \<and> (\<forall>m. ypipe_enabled s m \<longrightarrow> ypipe_do s m \<noteq> Fault)"
proof -
  obtain cells where inv: "ypipe_inv s cells" using ypipe_reach_inv [OF assms] by blast
  then have "ypipe_do s m \<noteq> Fault" if "ypipe_enabled s m" for m using ypipe_do_inv [OF inv that] by auto
  then show ?thesis using ypipe_invD(3) [OF inv] ypipe_bounds(4) [OF inv] ypipe_ptrsD(1) [OF ypipe_invD(4) [OF inv]] by blast
qed

theorem ypipe_fifo_witness:
  "\<exists>s. ypipe_after [MStore (Some 5), MPush, MCheck, MFlush, MCas, MStore (Some 6), MTake, MPush] = Ret s
    \<and> ys_taken s = [Some (5::nat)] \<and> ys_published s = 1 \<and> ys_written s = [Some 5, Some 6]
    \<and> (\<forall>m. ypipe_enabled s m \<longrightarrow> ypipe_do s m \<noteq> Fault)"
proof -
  have "case ypipe_after [MStore (Some 5), MPush, MCheck, MFlush, MCas, MStore (Some 6), MTake, MPush] of Fault \<Rightarrow> False
    | Ret s \<Rightarrow> ys_taken s = [Some (5::nat)] \<and> ys_published s = 1 \<and> ys_written s = [Some 5, Some 6]" by code_simp
  then obtain s where "ypipe_after [MStore (Some 5), MPush, MCheck, MFlush, MCas, MStore (Some 6), MTake, MPush] = Ret s"
    "ys_taken s = [Some (5::nat)]" "ys_published s = 1" "ys_written s = [Some 5, Some 6]" by (auto split: cres.splits)
  then show ?thesis using ypipe_fifo [OF ypipe_after_reach] by blast
qed

text \<open>
  C26: No wakeup is lost. If the last check told the reader that there is nothing and flushed data is there,
  then a flush has returned 1 since that check; and a flush between other writer steps returns 1 exactly
  when the reader sleeps unwoken and there is something to flush.
\<close>

theorem ypipe_wakeup:
  assumes "ypipe_reach s"
  shows "(ys_asleep s \<and> length (ys_taken s) < ys_published s \<longrightarrow> ys_woken s)
    \<and> (ys_wpc s = WIdle \<longrightarrow> snd (acl_ypipe_flush (ys_pipe s)) =
         (if ys_asleep s \<and> \<not> ys_woken s \<and> ys_published s < length (ys_written s) then 1 else 0))"
proof -
  obtain cells where inv: "ypipe_inv s cells" using ypipe_reach_inv [OF assms] by blast
  have "ys_woken s" if "ys_asleep s" "length (ys_taken s) < ys_published s"
    using ypipe_ptrsD(6) [OF ypipe_invD(4) [OF inv] that(1)] that(2) by (cases "ys_woken s") simp_all
  then show ?thesis using ypipe_flush_inv [OF inv] by blast
qed

theorem ypipe_wakeup_witness:
  "\<exists>s. ypipe_after [MCheck, MCas, MStore (Some (5::nat)), MPush] = Ret s \<and> ys_asleep s \<and> snd (acl_ypipe_flush (ys_pipe s)) = 1"
proof -
  have "case ypipe_after [MCheck, MCas, MStore (Some (5::nat)), MPush] of Fault \<Rightarrow> False
    | Ret s \<Rightarrow> ys_asleep s \<and> \<not> ys_woken s \<and> ys_published s = 0 \<and> length (ys_written s) = 1 \<and> ys_wpc s = WIdle" by code_simp
  then obtain s where s: "ypipe_after [MCheck, MCas, MStore (Some (5::nat)), MPush] = Ret s" "ys_asleep s" "\<not> ys_woken s"
    "ys_published s = 0" "length (ys_written s) = 1" "ys_wpc s = WIdle" by (auto split: cres.splits)
  then show ?thesis using ypipe_wakeup [OF ypipe_after_reach [OF s(1)]] by auto
qed

text \<open>
  While the writer stands still, a read returns the oldest flushed value that was not read, and null when
  there is none, whatever values are still unflushed; releasing the pipe hands every value that was
  written and not read to the destructor, in order and null pointers left out, and frees every chunk.
\<close>

theorem ypipe_read_free:
  assumes "ypipe_reach s"
  shows "(\<exists>p. acl_ypipe_read (ys_pipe s) = Ret (p, if length (ys_taken s) < ys_published s then ys_written s ! length (ys_taken s) else None))
    \<and> acl_ypipe_free (ys_pipe s) True = Ret (map the (filter (\<lambda>v. v \<noteq> None) (drop (length (ys_taken s)) (ys_written s))), Map.empty)"
proof -
  obtain cells where inv: "ypipe_inv s cells" using ypipe_reach_inv [OF assms] by blast
  have "vals cells = map the (filter (\<lambda>v. v \<noteq> None) (drop (length (ys_taken s)) (ys_written s)))"
    unfolding vals_def ypipe_invD(2) [OF inv] by simp
  then show ?thesis
    using ypipe_read_inv [OF inv] yqueue_free_vals [OF ypipe_invD(1) [OF inv] ypipe_bounds(2) [OF inv]] by (simp add: acl_ypipe_free_def)
qed

theorem ypipe_read_free_witness:
  "\<exists>s. ypipe_after [MStore (Some (5::nat)), MPush, MFlush, MStore (Some 6), MPush] = Ret s
    \<and> (\<exists>p. acl_ypipe_read (ys_pipe s) = Ret (p, Some 5)) \<and> acl_ypipe_free (ys_pipe s) True = Ret ([5, 6], Map.empty)"
proof -
  have "case ypipe_after [MStore (Some (5::nat)), MPush, MFlush, MStore (Some 6), MPush] of Fault \<Rightarrow> False
    | Ret s \<Rightarrow> ys_taken s = [] \<and> ys_published s = 1 \<and> ys_written s = [Some 5, Some 6]" by code_simp
  then obtain s where s: "ypipe_after [MStore (Some (5::nat)), MPush, MFlush, MStore (Some 6), MPush] = Ret s" "ys_taken s = []"
    "ys_published s = 1" "ys_written s = [Some 5, Some 6]" by (auto split: cres.splits)
  then show ?thesis using ypipe_read_free [OF ypipe_after_reach [OF s(1)]] by simp
qed

end
