(* ===== verification/Fiber_Sched.thy ===== *)
theory Fiber_Sched
  imports Acl_Prelude
begin

text \<open>
  The fibers of one thread and their scheduler, from \<open>lib_fiber/c/src/fiber.c\<close> and \<open>fiber.h\<close>. Fibers
  run one at a time and give up the thread only in \<open>acl_fiber_switch\<close>, so every operation of a
  synchronisation object is one step up to its switch and one step behind it; \<open>th_pc\<close> names the
  call a fiber is suspended in. A fiber is linked by its node \<open>me\<close> in at most one ring, and a ring
  is the list of its entries as \<open>Acl_Ring\<close> proves it of the same code (\<open>ring_insert_spec\<close>,
  \<open>ring_detach_spec\<close>): \<open>f_ring\<close> is the node's parent, prepending puts a node last, detaching a head
  does nothing, and linking a node that is linked already, which would tear its ring, faults.
\<close>

datatype fiber_status = SNone | SReady | SRunning | SSuspend | SExiting

datatype ring_id = RReady | RDead | RWaiting nat

text \<open>The calls a fiber is suspended in.\<close>

datatype fiber_pc = PcLock | PcRlock | PcWlock | PcSem | PcChan

record fiber =
  f_ring :: "ring_id option"
  f_status :: fiber_status
  f_wstatus :: "16 word"
  f_flag :: "32 word"
  f_errnum :: int
  f_signum :: int

record thread =
  th_fibers :: "nat \<Rightarrow> fiber"
  th_rings :: "ring_id \<Rightarrow> nat list"
  th_running :: "nat option"
  th_waiter :: int
  th_errno :: int
  th_pc :: "nat \<Rightarrow> fiber_pc option"

subsection \<open>Rings and fields of fibers\<close>

definition fb_upd :: "thread \<Rightarrow> nat \<Rightarrow> (fiber \<Rightarrow> fiber) \<Rightarrow> thread" where
  "fb_upd th f g = th\<lparr>th_fibers := (th_fibers th)(f := g (th_fibers th f))\<rparr>"

definition set_pc :: "thread \<Rightarrow> nat \<Rightarrow> fiber_pc option \<Rightarrow> thread" where
  "set_pc th f p = th\<lparr>th_pc := (th_pc th)(f := p)\<rparr>"

definition fb_ring_prepend :: "thread \<Rightarrow> ring_id \<Rightarrow> nat \<Rightarrow> thread cres" where
  "fb_ring_prepend th r f =
    (if f_ring (th_fibers th f) \<noteq> None then Fault
     else Ret ((fb_upd th f (\<lambda>b. b\<lparr>f_ring := Some r\<rparr>))
       \<lparr>th_rings := (th_rings th)(r := th_rings th r @ [f])\<rparr>))"

definition fb_ring_detach :: "thread \<Rightarrow> nat \<Rightarrow> thread" where
  "fb_ring_detach th f = (case f_ring (th_fibers th f) of
     None \<Rightarrow> th
   | Some r \<Rightarrow> (fb_upd th f (\<lambda>b. b\<lparr>f_ring := None\<rparr>))
       \<lparr>th_rings := (th_rings th)(r := remove1 f (th_rings th r))\<rparr>)"

text \<open>\<open>FIRST_FIBER\<close> of a ring.\<close>

definition first_fiber :: "thread \<Rightarrow> ring_id \<Rightarrow> nat option" where
  "first_fiber th r = (case th_rings th r of [] \<Rightarrow> None | f # _ \<Rightarrow> Some f)"

definition acl_fiber_canceled :: "thread \<Rightarrow> nat \<Rightarrow> bool" where
  "acl_fiber_canceled th f \<longleftrightarrow> f_flag (th_fibers th f) AND 28 \<noteq> 0"

definition acl_fiber_killed :: "thread \<Rightarrow> nat \<Rightarrow> bool" where
  "acl_fiber_killed th f \<longleftrightarrow> f_flag (th_fibers th f) AND 4 \<noteq> 0"

definition acl_fiber_set_error :: "thread \<Rightarrow> int \<Rightarrow> thread" where
  "acl_fiber_set_error th e = th\<lparr>th_errno := e\<rparr>"

subsection \<open>Switching\<close>

definition acl_fiber_ready :: "thread \<Rightarrow> nat \<Rightarrow> thread cres" where
  "acl_fiber_ready th f =
    (if f_status (th_fibers th f) = SExiting then Ret th
     else fb_ring_prepend (fb_upd (fb_ring_detach th f) f (\<lambda>b. b\<lparr>f_status := SReady\<rparr>)) RReady f)"

text \<open>
  \<open>fiber_swap\<close>; \<open>None\<close> is the thread's original context, whose status nobody reads. A fiber that
  exits goes to the ring of dead fibers; the table of slots and the limit on cached dead fibers only
  concern memory.
\<close>

definition fiber_swap :: "thread \<Rightarrow> nat option \<Rightarrow> nat option \<Rightarrow> thread cres" where
  "fiber_swap th from to =
    cbind (case from of None \<Rightarrow> Ret th
        | Some f \<Rightarrow> if f_status (th_fibers th f) = SExiting then fb_ring_prepend th RDead f
                    else Ret (fb_upd th f (\<lambda>b. b\<lparr>f_status := SSuspend\<rparr>))) (\<lambda>th.
      Ret (case to of None \<Rightarrow> th
        | Some g \<Rightarrow> if f_status (th_fibers th g) = SExiting then th
                    else fb_upd th g (\<lambda>b. b\<lparr>f_status := SRunning\<rparr>)))"

text \<open>With no ready fiber the thread returns to \<open>acl_fiber_schedule\<close>, which clears \<open>running\<close>.\<close>

definition acl_fiber_switch :: "thread \<Rightarrow> thread cres" where
  "acl_fiber_switch th = (case th_running th of None \<Rightarrow> Fault
   | Some current \<Rightarrow> (case first_fiber th RReady of
       None \<Rightarrow> map_cres (\<lambda>th. th\<lparr>th_running := None\<rparr>) (fiber_swap th (Some current) None)
     | Some f \<Rightarrow> fiber_swap ((fb_ring_detach th f)\<lparr>th_running := Some f\<rparr>) (Some current) (Some f)))"

definition acl_fiber_yield :: "thread \<Rightarrow> thread cres" where
  "acl_fiber_yield th =
    (if th_rings th RReady = [] then Ret th
     else (case th_running th of None \<Rightarrow> Fault
       | Some f \<Rightarrow> cbind (acl_fiber_ready (fb_upd th f (\<lambda>b. b\<lparr>f_status := SNone\<rparr>)) f) acl_fiber_switch))"

text \<open>One turn of the loop of \<open>acl_fiber_schedule\<close>; \<open>None\<close> is its end.\<close>

definition schedule_turn :: "thread \<Rightarrow> thread option cres" where
  "schedule_turn th = (case first_fiber th RReady of
     None \<Rightarrow> Ret None
   | Some f \<Rightarrow> map_cres Some (fiber_swap
       ((fb_upd (fb_ring_detach th f) f (\<lambda>b. b\<lparr>f_status := SReady\<rparr>))\<lparr>th_running := Some f\<rparr>) None (Some f)))"

text \<open>\<open>SIGTERM\<close>, \<open>SIGKILL\<close> and \<open>SIGQUIT\<close> set \<open>FIBER_F_KILLED\<close> too. Only a suspended fiber is woken.\<close>

definition fiber_signal :: "thread \<Rightarrow> nat \<Rightarrow> int \<Rightarrow> bool \<Rightarrow> thread cres" where
  "fiber_signal th f signum sync =
    (if th_running th = None then Ret th
     else
       (let flags = (if signum \<in> {9, 15, 3} then 4 OR 16 else 16);
            th = fb_upd th f (\<lambda>b. b\<lparr>f_flag := f_flag b OR flags, f_signum := signum\<rparr>)
        in if f_status (th_fibers th f) = SSuspend
           then cbind (acl_fiber_ready th f) (\<lambda>th. if sync then acl_fiber_yield th else Ret th)
           else Ret th))"

definition acl_fiber_kill :: "thread \<Rightarrow> nat \<Rightarrow> thread cres" where
  "acl_fiber_kill th f = fiber_signal (fb_upd th f (\<lambda>b. b\<lparr>f_errnum := 125\<rparr>)) f 15 False"

definition acl_fiber_kill_wait :: "thread \<Rightarrow> nat \<Rightarrow> thread cres" where
  "acl_fiber_kill_wait th f = fiber_signal (fb_upd th f (\<lambda>b. b\<lparr>f_errnum := 125\<rparr>)) f 15 True"

definition acl_fiber_clear :: "thread \<Rightarrow> nat \<Rightarrow> thread" where
  "acl_fiber_clear th f = fb_upd th f (\<lambda>b. b\<lparr>f_errnum := 0, f_flag := f_flag b AND NOT 28\<rparr>)"

definition fiber_exit :: "thread \<Rightarrow> thread cres" where
  "fiber_exit th = (case th_running th of None \<Rightarrow> Fault
     | Some f \<Rightarrow> acl_fiber_switch (fb_upd th f (\<lambda>b. b\<lparr>f_status := SExiting\<rparr>)))"

text \<open>
  A new fiber. The memory of a dead fiber is used again, otherwise the allocator returns the address
  \<open>fresh\<close>. The automatic start of the scheduler by \<open>acl_fiber_create2\<close> is left out.
\<close>

definition fiber_alloc :: "thread \<Rightarrow> nat \<Rightarrow> thread \<times> nat" where
  "fiber_alloc th fresh =
    (let f = (case first_fiber th RDead of None \<Rightarrow> fresh | Some g \<Rightarrow> g);
         th = (if first_fiber th RDead = None then th else fb_ring_detach th f)
     in (set_pc (fb_upd th f (\<lambda>_. \<lparr>f_ring = None, f_status = SNone, f_wstatus = 0, f_flag = 0,
                f_errnum = 0, f_signum = 0\<rparr>)) f None, f))"

definition acl_fiber_create2 :: "thread \<Rightarrow> nat \<Rightarrow> (thread \<times> nat) cres" where
  "acl_fiber_create2 th fresh =
    (let (th, f) = fiber_alloc th fresh in map_cres (\<lambda>th. (th, f)) (acl_fiber_ready th f))"

text \<open>
  What every blocking operation does around its switch: \<open>fiber_block\<close> links the running fiber in a
  ring of waiting fibers, marks what it waits for and switches; \<open>fiber_unblock\<close> is the code behind
  the switch, which runs when the fiber runs again.
\<close>

definition fiber_block :: "thread \<Rightarrow> nat \<Rightarrow> ring_id \<Rightarrow> 16 word \<Rightarrow> fiber_pc \<Rightarrow> thread cres" where
  "fiber_block th cur r wait pc =
    cbind (fb_ring_prepend th r cur) (\<lambda>th.
      let th = fb_upd th cur (\<lambda>b. b\<lparr>f_wstatus := f_wstatus b OR wait\<rparr>) in
      acl_fiber_switch (set_pc (th\<lparr>th_waiter := th_waiter th + 1\<rparr>) cur (Some pc)))"

definition fiber_unblock :: "thread \<Rightarrow> nat \<Rightarrow> 16 word \<Rightarrow> thread" where
  "fiber_unblock th cur wait =
    (let th = set_pc (th\<lparr>th_waiter := th_waiter th - 1\<rparr>) cur None;
         th = fb_upd th cur (\<lambda>b. b\<lparr>f_wstatus := f_wstatus b AND NOT wait\<rparr>)
     in fb_ring_detach th cur)"

text \<open>A call that is suspended without a ring, as those on a channel are.\<close>

definition fiber_suspend :: "thread \<Rightarrow> nat \<Rightarrow> fiber_pc \<Rightarrow> thread cres" where
  "fiber_suspend th cur pc = acl_fiber_switch (set_pc (th\<lparr>th_waiter := th_waiter th + 1\<rparr>) cur (Some pc))"

definition fiber_resume :: "thread \<Rightarrow> nat \<Rightarrow> thread" where
  "fiber_resume th cur = set_pc (th\<lparr>th_waiter := th_waiter th - 1\<rparr>) cur None"

subsection \<open>Consistency of rings\<close>

definition rings_ok :: "thread \<Rightarrow> bool" where
  "rings_ok th \<longleftrightarrow> (\<forall>r. distinct (th_rings th r))
     \<and> (\<forall>f r. f \<in> set (th_rings th r) \<longleftrightarrow> f_ring (th_fibers th f) = Some r)"

lemma rings_okD:
  assumes "rings_ok th"
  shows "distinct (th_rings th r)" "f \<in> set (th_rings th r) \<longleftrightarrow> f_ring (th_fibers th f) = Some r"
  using assms by (auto simp: rings_ok_def)

lemma fb_upd_simps [simp]:
  "th_fibers (fb_upd th f g) = (th_fibers th)(f := g (th_fibers th f))"
  "th_rings (fb_upd th f g) = th_rings th" "th_running (fb_upd th f g) = th_running th"
  "th_waiter (fb_upd th f g) = th_waiter th" "th_errno (fb_upd th f g) = th_errno th"
  "th_pc (fb_upd th f g) = th_pc th"
  by (simp_all add: fb_upd_def)

lemma set_pc_simps [simp]:
  "th_fibers (set_pc th f p) = th_fibers th" "th_rings (set_pc th f p) = th_rings th"
  "th_running (set_pc th f p) = th_running th" "th_waiter (set_pc th f p) = th_waiter th"
  "th_errno (set_pc th f p) = th_errno th" "th_pc (set_pc th f p) = (th_pc th)(f := p)"
  by (simp_all add: set_pc_def)

lemma first_fiber_simps:
  "first_fiber th r = None \<longleftrightarrow> th_rings th r = []"
  "first_fiber th r = Some f \<longleftrightarrow> (\<exists>fs. th_rings th r = f # fs)"
  by (auto simp: first_fiber_def split: list.splits)

lemma detach_simps [simp]:
  "th_running (fb_ring_detach th f) = th_running th" "th_waiter (fb_ring_detach th f) = th_waiter th"
  "th_errno (fb_ring_detach th f) = th_errno th" "th_pc (fb_ring_detach th f) = th_pc th"
  "th_fibers (fb_ring_detach th f) = (th_fibers th)(f := (th_fibers th f)\<lparr>f_ring := None\<rparr>)"
  by (auto simp: fb_ring_detach_def split: option.splits)

lemma detach_rings:
  assumes "rings_ok th"
  shows "th_rings (fb_ring_detach th f) r = remove1 f (th_rings th r)" "rings_ok (fb_ring_detach th f)"
proof -
  show *: "th_rings (fb_ring_detach th f) r = remove1 f (th_rings th r)" for r
  proof (cases "f_ring (th_fibers th f)")
    case None
    then have "f \<notin> set (th_rings th r)" using rings_okD(2) [OF assms] by simp
    with None show ?thesis by (simp add: fb_ring_detach_def remove1_idem)
  next
    case (Some r')
    moreover have "f \<notin> set (th_rings th r)" if "r \<noteq> r'"
      using that Some rings_okD(2) [OF assms] by simp
    ultimately show ?thesis by (auto simp: fb_ring_detach_def remove1_idem)
  qed
  show "rings_ok (fb_ring_detach th f)"
    unfolding rings_ok_def * using rings_okD [OF assms] by auto
qed

lemma rings_ok_upd:
  assumes "rings_ok th" "\<And>b. f_ring (g b) = f_ring b"
  shows "rings_ok (fb_upd th f g)" "rings_ok (set_pc th f p)" "rings_ok (th\<lparr>th_running := x\<rparr>)"
    "rings_ok (th\<lparr>th_waiter := w\<rparr>)" "rings_ok (th\<lparr>th_errno := e\<rparr>)"
  using assms by (auto simp: rings_ok_def)

lemma prepend_Ret:
  assumes "rings_ok th" "f_ring (th_fibers th f) = None"
  obtains th' where "fb_ring_prepend th r f = Ret th'" "rings_ok th'"
    "th_rings th' = (th_rings th)(r := th_rings th r @ [f])"
    "th_fibers th' = (th_fibers th)(f := (th_fibers th f)\<lparr>f_ring := Some r\<rparr>)"
    "th_running th' = th_running th" "th_waiter th' = th_waiter th" "th_errno th' = th_errno th" "th_pc th' = th_pc th"
proof -
  have "f \<notin> set (th_rings th q)" for q using assms rings_okD(2) by fastforce
  then have "rings_ok ((fb_upd th f (\<lambda>b. b\<lparr>f_ring := Some r\<rparr>))\<lparr>th_rings := (th_rings th)(r := th_rings th r @ [f])\<rparr>)"
    using assms by (auto simp: rings_ok_def)
  then show ?thesis
    by (rule that [rotated]) (use assms(2) in \<open>simp_all add: fb_ring_prepend_def\<close>)
qed

text \<open>A fiber that is not exiting becomes the last ready one, whatever ring it was in.\<close>

lemma ready_Ret:
  assumes "rings_ok th" "f_status (th_fibers th f) \<noteq> SExiting"
  obtains th' where "acl_fiber_ready th f = Ret th'" "rings_ok th'"
    "th_rings th' = (\<lambda>r. remove1 f (th_rings th r) @ (if r = RReady then [f] else []))"
    "th_fibers th' = (th_fibers th)(f := (th_fibers th f)\<lparr>f_ring := Some RReady, f_status := SReady\<rparr>)"
    "th_running th' = th_running th" "th_waiter th' = th_waiter th" "th_errno th' = th_errno th" "th_pc th' = th_pc th"
proof -
  let ?u = "fb_upd (fb_ring_detach th f) f (\<lambda>b. b\<lparr>f_status := SReady\<rparr>)"
  have u: "rings_ok ?u" by (intro rings_ok_upd detach_rings assms) simp
  show ?thesis
  proof (rule prepend_Ret [OF u, of f RReady])
    show "f_ring (th_fibers ?u f) = None" by simp
  next
    fix th' assume *: "fb_ring_prepend ?u RReady f = Ret th'" "rings_ok th'"
      "th_rings th' = (th_rings ?u)(RReady := th_rings ?u RReady @ [f])"
      "th_fibers th' = (th_fibers ?u)(f := (th_fibers ?u f)\<lparr>f_ring := Some RReady\<rparr>)"
      "th_running th' = th_running ?u" "th_waiter th' = th_waiter ?u" "th_errno th' = th_errno ?u" "th_pc th' = th_pc ?u"
    show ?thesis
      by (rule that [of th']) (use * assms in \<open>auto simp: acl_fiber_ready_def detach_rings\<close>)
  qed
qed

subsection \<open>Consistency of the scheduler\<close>

text \<open>
  The running fiber is linked in no ring and is the only one marked running; ready fibers are marked
  ready, or suspended when they yielded; waiting fibers are marked suspended, dead ones exiting; a
  fiber that exits is in no call.
\<close>

definition ring_status :: "ring_id \<Rightarrow> fiber_status set" where
  "ring_status r = (case r of RReady \<Rightarrow> {SReady, SSuspend} | RDead \<Rightarrow> {SExiting} | RWaiting _ \<Rightarrow> {SSuspend})"

lemma ring_status_simps [simp]:
  "ring_status RReady = {SReady, SSuspend}" "ring_status RDead = {SExiting}" "ring_status (RWaiting n) = {SSuspend}"
  by (simp_all add: ring_status_def)

definition sched_ok :: "thread \<Rightarrow> bool" where
  "sched_ok th \<longleftrightarrow> rings_ok th
     \<and> (\<forall>f. th_running th = Some f \<longrightarrow> f_ring (th_fibers th f) = None)
     \<and> (\<forall>f. f_status (th_fibers th f) = SRunning \<longleftrightarrow> th_running th = Some f)
     \<and> (\<forall>f r. f_ring (th_fibers th f) = Some r \<longrightarrow> f_status (th_fibers th f) \<in> ring_status r)
     \<and> (\<forall>f. f_status (th_fibers th f) = SExiting \<longrightarrow> th_pc th f = None)"

text \<open>Fibers that will run again without anybody's help.\<close>

definition runnable :: "thread \<Rightarrow> nat \<Rightarrow> bool" where
  "runnable th f \<longleftrightarrow> th_running th = Some f \<or> f \<in> set (th_rings th RReady)"

text \<open>What no scheduler operation touches: the flags, the waiting rings, the counter, the suspended calls.\<close>

definition same_flags :: "thread \<Rightarrow> thread \<Rightarrow> bool" where
  "same_flags th u \<longleftrightarrow> (\<forall>f. f_flag (th_fibers u f) = f_flag (th_fibers th f))"

lemma same_flags_canceled: "same_flags th u \<Longrightarrow> acl_fiber_canceled u f = acl_fiber_canceled th f"
  by (simp add: same_flags_def acl_fiber_canceled_def)

text \<open>
  The switch away from a fiber \<open>cur\<close> that has just been linked in a ring \<open>q\<close>, or in none, and has the
  status \<open>st\<close>: the first ready fiber runs.
\<close>

lemma switch_Ret:
  assumes rings: "rings_ok th" and run: "th_running th = Some cur"
    and q: "f_ring (th_fibers th cur) \<in> {None, Some RReady} \<union> Some ` range RWaiting"
    and st: "f_status (th_fibers th cur) \<noteq> SExiting"
    and one: "\<And>f. f \<noteq> cur \<Longrightarrow> f_status (th_fibers th f) \<noteq> SRunning"
    and ok: "\<And>f r. f \<noteq> cur \<Longrightarrow> f_ring (th_fibers th f) = Some r \<Longrightarrow> f_status (th_fibers th f) \<in> ring_status r"
    and ex: "\<And>f. f \<noteq> cur \<Longrightarrow> f_status (th_fibers th f) = SExiting \<Longrightarrow> th_pc th f = None"
  obtains u where "acl_fiber_switch th = Ret u" "sched_ok u" "th_pc u = th_pc th" "th_waiter u = th_waiter th"
    "th_errno u = th_errno th" "same_flags th u" "\<And>n. th_rings u (RWaiting n) = th_rings th (RWaiting n)"
    "th_rings u RReady = tl (th_rings th RReady)"
    "th_running u = (case th_rings th RReady of [] \<Rightarrow> None | f # _ \<Rightarrow> Some f)"
proof (cases "th_rings th RReady")
  case Nil
  let ?u = "(fb_upd th cur (\<lambda>b. b\<lparr>f_status := SSuspend\<rparr>))\<lparr>th_running := None\<rparr>"
  have "acl_fiber_switch th = Ret ?u"
    using Nil run st by (simp add: acl_fiber_switch_def first_fiber_def fiber_swap_def)
  moreover have "rings_ok ?u" by (intro rings_ok_upd rings) simp_all
  moreover have "f_status (th_fibers ?u f) \<in> ring_status r" if "f_ring (th_fibers ?u f) = Some r" for f r
    using that q ok [of f r] by (auto simp: ring_status_def split: if_splits)
  ultimately show ?thesis
    using Nil one ex by (intro that [of ?u]) (auto simp: sched_ok_def same_flags_def)
next
  case (Cons g gs)
  have d: "distinct (g # gs)" using rings_okD(1) [OF rings, of RReady] Cons by simp
  have g: "f_ring (th_fibers th g) = Some RReady" using rings_okD(2) [OF rings, of g RReady] Cons by simp
  then have gst: "f_status (th_fibers th g) \<noteq> SExiting"
    using ok [of g RReady] st by (cases "g = cur") (auto simp: ring_status_def)
  let ?v = "fb_upd ((fb_ring_detach th g)\<lparr>th_running := Some g\<rparr>) cur (\<lambda>b. b\<lparr>f_status := SSuspend\<rparr>)"
  let ?u = "fb_upd ?v g (\<lambda>b. b\<lparr>f_status := SRunning\<rparr>)"
  have u: "acl_fiber_switch th = Ret ?u"
    using Cons run st gst by (auto simp: acl_fiber_switch_def first_fiber_def fiber_swap_def)
  have ro: "rings_ok ?u" by (intro rings_ok_upd detach_rings rings) simp_all
  have rg: "th_rings ?u r = remove1 g (th_rings th r)" for r by (simp add: detach_rings(1) [OF rings])
  have nw: "g \<notin> set (th_rings th (RWaiting n))" for n using rings_okD(2) [OF rings, of g] g by simp
  have "f_status (th_fibers ?u f) \<in> ring_status r" if "f_ring (th_fibers ?u f) = Some r" for f r
    using that q ok [of f r] by (auto simp: ring_status_def split: if_splits)
  moreover have "f_status (th_fibers ?u f) = SRunning \<longleftrightarrow> f = g" for f using one [of f] by auto
  ultimately have "sched_ok ?u" using ro ex by (auto simp: sched_ok_def)
  then show ?thesis
    using Cons nw by (intro that [OF u]) (auto simp: detach_rings(1) [OF rings] same_flags_def remove1_idem)
qed

lemma sched_okD:
  assumes "sched_ok th"
  shows "rings_ok th" "th_running th = Some f \<Longrightarrow> f_ring (th_fibers th f) = None"
    "f_status (th_fibers th f) = SRunning \<longleftrightarrow> th_running th = Some f"
    "f_ring (th_fibers th f) = Some r \<Longrightarrow> f_status (th_fibers th f) \<in> ring_status r"
    "f_status (th_fibers th f) = SExiting \<Longrightarrow> th_pc th f = None"
  using assms by (auto simp: sched_ok_def)

lemma sched_ok_member:
  assumes "sched_ok th"
  shows "f \<in> set (th_rings th r) \<longleftrightarrow> f_ring (th_fibers th f) = Some r" "distinct (th_rings th r)"
    "f \<in> set (th_rings th (RWaiting n)) \<Longrightarrow> f_status (th_fibers th f) = SSuspend"
    "f \<in> set (th_rings th (RWaiting n)) \<Longrightarrow> \<not> runnable th f"
    "th_running th = Some f \<Longrightarrow> f \<notin> set (th_rings th r)"
  using sched_okD [OF assms] rings_okD [of th] sched_okD(4) [OF assms, of f "RWaiting n"]
  by (auto simp: runnable_def)

text \<open>Only the flags of signals, the errno and counters change: the scheduler stays consistent.\<close>

lemma sched_ok_upd:
  assumes "sched_ok th" "\<And>b. f_ring (g b) = f_ring b" "\<And>b. f_status (g b) = f_status b"
  shows "sched_ok (fb_upd th f g)" "th_running th = Some f \<or> p = None \<Longrightarrow> sched_ok (set_pc th f p)" "sched_ok (th\<lparr>th_waiter := w\<rparr>)"
    "sched_ok (th\<lparr>th_errno := e\<rparr>)"
proof -
  have "f_status (th_fibers th f) \<noteq> SExiting" if "th_running th = Some f"
    using that sched_okD(3) [OF assms(1), of f] by simp
  then show "sched_ok (fb_upd th f g)" "th_running th = Some f \<or> p = None \<Longrightarrow> sched_ok (set_pc th f p)"
    "sched_ok (th\<lparr>th_waiter := w\<rparr>)" "sched_ok (th\<lparr>th_errno := e\<rparr>)"
    using assms rings_ok_upd [of th] sched_okD(5) [OF assms(1)] by (auto simp: sched_ok_def)
qed

lemma yield_Ret:
  assumes ok: "sched_ok th" and run: "th_running th = Some cur"
  obtains u where "acl_fiber_yield th = Ret u" "sched_ok u" "th_pc u = th_pc th" "th_waiter u = th_waiter th"
    "th_errno u = th_errno th" "same_flags th u" "\<And>n. th_rings u (RWaiting n) = th_rings th (RWaiting n)"
    "\<And>f. runnable u f = runnable th f"
    "th_running u = Some (hd (th_rings th RReady @ [cur]))"
proof (cases "th_rings th RReady")
  case Nil
  then show ?thesis using assms by (intro that [of th]) (auto simp: acl_fiber_yield_def same_flags_def)
next
  case (Cons g gs)
  let ?v = "fb_upd th cur (\<lambda>b. b\<lparr>f_status := SNone\<rparr>)"
  have v: "rings_ok ?v" by (intro rings_ok_upd sched_okD(1) [OF ok]) simp
  obtain w where w: "acl_fiber_ready ?v cur = Ret w" "rings_ok w"
    "th_rings w = (\<lambda>r. remove1 cur (th_rings ?v r) @ (if r = RReady then [cur] else []))"
    "th_fibers w = (th_fibers ?v)(cur := (th_fibers ?v cur)\<lparr>f_ring := Some RReady, f_status := SReady\<rparr>)"
    "th_running w = th_running ?v" "th_waiter w = th_waiter ?v" "th_errno w = th_errno ?v" "th_pc w = th_pc ?v"
    using ready_Ret [OF v, of cur] by auto
  have rings: "th_rings w r = th_rings th r @ (if r = RReady then [cur] else [])" for r
    using sched_ok_member(5) [OF ok run] by (simp add: w remove1_idem)
  obtain u where u: "acl_fiber_switch w = Ret u" "sched_ok u" "th_pc u = th_pc w" "th_waiter u = th_waiter w"
    "th_errno u = th_errno w" "same_flags w u" "\<And>n. th_rings u (RWaiting n) = th_rings w (RWaiting n)"
    "th_rings u RReady = tl (th_rings w RReady)"
    "th_running u = (case th_rings w RReady of [] \<Rightarrow> None | f # _ \<Rightarrow> Some f)"
  proof (rule switch_Ret [OF w(2), of cur])
    show "f_status (th_fibers w f) \<noteq> SRunning" if "f \<noteq> cur" for f
      using that run sched_okD(3) [OF ok, of f] by (simp add: w)
    show "f_status (th_fibers w f) \<in> ring_status r" if "f \<noteq> cur" "f_ring (th_fibers w f) = Some r" for f r
      using that sched_okD(4) [OF ok, of f r] by (simp add: w)
    show "th_pc w f = None" if "f \<noteq> cur" "f_status (th_fibers w f) = SExiting" for f
      using that sched_okD(5) [OF ok, of f] by (simp add: w)
  qed (use w run in auto)
  have "acl_fiber_yield th = Ret u" using Cons run w(1) u(1) by (simp add: acl_fiber_yield_def)
  moreover have wr: "th_rings w RReady = g # gs @ [cur]" using rings [of RReady] Cons by simp
  moreover have "same_flags th u" using u(6) w(4) by (simp add: same_flags_def)
  moreover have "runnable u f = runnable th f" for f
    using u(8,9) wr Cons run by (auto simp: runnable_def)
  ultimately show ?thesis
    using u(2-5,7,9) w(6-8) rings Cons by (intro that [of u]) simp_all
qed

lemma block_Ret:
  assumes ok: "sched_ok th" and run: "th_running th = Some cur"
  obtains u where "fiber_block th cur (RWaiting n) w p = Ret u" "sched_ok u" "th_pc u = (th_pc th)(cur := Some p)"
    "th_waiter u = th_waiter th + 1" "same_flags th u"
    "\<And>m. th_rings u (RWaiting m) = th_rings th (RWaiting m) @ (if m = n then [cur] else [])"
    "\<And>f. runnable u f \<longleftrightarrow> f \<noteq> cur \<and> runnable th f"
    "th_running u = (case th_rings th RReady of [] \<Rightarrow> None | f # _ \<Rightarrow> Some f)"
proof -
  obtain v where v: "fb_ring_prepend th (RWaiting n) cur = Ret v" "rings_ok v"
    "th_rings v = (th_rings th)(RWaiting n := th_rings th (RWaiting n) @ [cur])"
    "th_fibers v = (th_fibers th)(cur := (th_fibers th cur)\<lparr>f_ring := Some (RWaiting n)\<rparr>)"
    "th_running v = th_running th" "th_waiter v = th_waiter th" "th_pc v = th_pc th"
    by (rule prepend_Ret [OF sched_okD(1,2) [OF ok], OF run])
  let ?x = "set_pc ((fb_upd v cur (\<lambda>b. b\<lparr>f_wstatus := f_wstatus b OR w\<rparr>))\<lparr>th_waiter := th_waiter v + 1\<rparr>) cur (Some p)"
  have x: "rings_ok ?x" by (intro rings_ok_upd v(2)) simp_all
  obtain u where u: "acl_fiber_switch ?x = Ret u" "sched_ok u" "th_pc u = th_pc ?x" "th_waiter u = th_waiter ?x"
    "same_flags ?x u" "\<And>n. th_rings u (RWaiting n) = th_rings ?x (RWaiting n)"
    "th_rings u RReady = tl (th_rings ?x RReady)"
    "th_running u = (case th_rings ?x RReady of [] \<Rightarrow> None | f # _ \<Rightarrow> Some f)"
  proof (rule switch_Ret [OF x, of cur])
    show "f_status (th_fibers ?x f) \<noteq> SRunning" if "f \<noteq> cur" for f
      using that run sched_okD(3) [OF ok, of f] by (simp add: v)
    show "f_status (th_fibers ?x f) \<in> ring_status r" if "f \<noteq> cur" "f_ring (th_fibers ?x f) = Some r" for f r
      using that sched_okD(4) [OF ok, of f r] by (simp add: v)
    show "th_pc ?x f = None" if "f \<noteq> cur" "f_status (th_fibers ?x f) = SExiting" for f
      using that sched_okD(5) [OF ok, of f] by (simp add: v)
    show "f_status (th_fibers ?x cur) \<noteq> SExiting" using run sched_okD(3) [OF ok, of cur] by (simp add: v)
  qed (use v run in auto)
  have "fiber_block th cur (RWaiting n) w p = Ret u" using v(1,6) u(1) by (simp add: fiber_block_def Let_def)
  moreover have "cur \<notin> set (th_rings th RReady)" "distinct (th_rings th RReady)"
    using sched_ok_member(2,5) [OF ok] run by simp_all
  ultimately show ?thesis
    using u v run by (intro that [of u]) (auto simp: same_flags_def runnable_def split: list.splits)
qed

lemma suspend_Ret:
  assumes ok: "sched_ok th" and run: "th_running th = Some cur"
  obtains u where "fiber_suspend th cur p = Ret u" "sched_ok u" "th_pc u = (th_pc th)(cur := Some p)"
    "th_waiter u = th_waiter th + 1" "same_flags th u" "\<And>m. th_rings u (RWaiting m) = th_rings th (RWaiting m)"
    "\<And>f. runnable u f \<longleftrightarrow> f \<noteq> cur \<and> runnable th f"
    "th_running u = (case th_rings th RReady of [] \<Rightarrow> None | f # _ \<Rightarrow> Some f)"
proof -
  let ?x = "set_pc (th\<lparr>th_waiter := th_waiter th + 1\<rparr>) cur (Some p)"
  have st: "f_status (th_fibers th cur) = SRunning" using run sched_okD(3) [OF ok] by simp
  have x: "rings_ok ?x" by (intro rings_ok_upd sched_okD(1) [OF ok]) simp_all
  obtain u where u: "acl_fiber_switch ?x = Ret u" "sched_ok u" "th_pc u = th_pc ?x" "th_waiter u = th_waiter ?x"
    "th_errno u = th_errno ?x" "same_flags ?x u" "\<And>n. th_rings u (RWaiting n) = th_rings ?x (RWaiting n)"
    "th_rings u RReady = tl (th_rings ?x RReady)"
    "th_running u = (case th_rings ?x RReady of [] \<Rightarrow> None | f # _ \<Rightarrow> Some f)"
  proof (rule switch_Ret [OF x, of cur])
    show "f_status (th_fibers ?x f) \<noteq> SRunning" if "f \<noteq> cur" for f
      using that run sched_okD(3) [OF ok, of f] by simp
    show "f_ring (th_fibers ?x cur) \<in> {None, Some RReady} \<union> Some ` range RWaiting"
      using sched_okD(2) [OF ok run] by simp
    show "f_status (th_fibers ?x f) \<in> ring_status r" if "f_ring (th_fibers ?x f) = Some r" for f r
      using that sched_okD(4) [OF ok, of f r] by simp
    show "th_pc ?x f = None" if "f \<noteq> cur" "f_status (th_fibers ?x f) = SExiting" for f
      using that sched_okD(5) [OF ok, of f] by simp
  qed (use run st in auto)
  moreover have "cur \<notin> set (th_rings th RReady)" "distinct (th_rings th RReady)"
    using sched_ok_member(2,5) [OF ok] run by simp_all
  ultimately show ?thesis
    using run by (intro that [of u]) (auto simp: fiber_suspend_def same_flags_def runnable_def split: list.splits)
qed

lemma resume_ok:
  assumes "sched_ok th" "u = fiber_resume th cur"
  shows "sched_ok u" "th_pc u = (th_pc th)(cur := None)" "th_waiter u = th_waiter th - 1" "same_flags th u"
    "th_rings u = th_rings th" "th_running u = th_running th" "runnable u f = runnable th f"
  using assms(1) sched_ok_upd(2) [of "th\<lparr>th_waiter := th_waiter th - 1\<rparr>" "\<lambda>b. b" cur None]
    sched_ok_upd(3) [of th "\<lambda>b. b" "th_waiter th - 1"]
  by (simp_all add: assms(2) fiber_resume_def same_flags_def runnable_def)

text \<open>Waking a fiber, linked in a waiting ring or in none.\<close>

lemma wake_any_Ret:
  assumes ok: "sched_ok th" and st: "f_status (th_fibers th f) \<noteq> SExiting" and nr: "th_running th \<noteq> Some f"
  obtains u where "acl_fiber_ready th f = Ret u" "sched_ok u" "th_pc u = th_pc th" "th_waiter u = th_waiter th"
    "th_errno u = th_errno th" "same_flags th u"
    "\<And>n. th_rings u (RWaiting n) = remove1 f (th_rings th (RWaiting n))"
    "th_rings u RReady = remove1 f (th_rings th RReady) @ [f]"
    "\<And>g. runnable u g \<longleftrightarrow> g = f \<or> runnable th g" "th_running u = th_running th"
proof -
  obtain u where u: "acl_fiber_ready th f = Ret u" "rings_ok u"
    "th_rings u = (\<lambda>r. remove1 f (th_rings th r) @ (if r = RReady then [f] else []))"
    "th_fibers u = (th_fibers th)(f := (th_fibers th f)\<lparr>f_ring := Some RReady, f_status := SReady\<rparr>)"
    "th_running u = th_running th" "th_waiter u = th_waiter th" "th_errno u = th_errno th" "th_pc u = th_pc th"
    using ready_Ret [OF sched_okD(1) [OF ok], of f] st by auto
  have "sched_ok u"
    using u(2) nr sched_okD(2-5) [OF ok] by (auto simp: sched_ok_def u ring_status_def)
  then show ?thesis
    using u nr sched_ok_member(2) [OF ok, of RReady]
    by (intro that [of u]) (auto simp: same_flags_def runnable_def)
qed

lemma wake_Ret:
  assumes ok: "sched_ok th" and st: "f_status (th_fibers th f) = SSuspend"
  obtains u where "acl_fiber_ready th f = Ret u" "sched_ok u" "th_pc u = th_pc th" "th_waiter u = th_waiter th"
    "th_errno u = th_errno th" "same_flags th u"
    "\<And>n. th_rings u (RWaiting n) = remove1 f (th_rings th (RWaiting n))"
    "th_rings u RReady = remove1 f (th_rings th RReady) @ [f]"
    "\<And>g. runnable u g \<longleftrightarrow> g = f \<or> runnable th g" "th_running u = th_running th"
proof -
  have "f_status (th_fibers th f) \<noteq> SExiting" "th_running th \<noteq> Some f"
    using st sched_okD(3) [OF ok, of f] by simp_all
  then show ?thesis by - (rule wake_any_Ret [OF ok], assumption, assumption, rule that)
qed

lemma unblock_ok:
  assumes ok: "sched_ok th" and run: "th_running th = Some cur"
    and u_def: "u = fiber_unblock th cur w"
  shows "sched_ok u" "th_pc u = (th_pc th)(cur := None)" "th_waiter u = th_waiter th - 1" "same_flags th u"
    "th_rings u = th_rings th" "th_running u = th_running th" "runnable u f = runnable th f"
proof -
  let ?v = "fb_upd (set_pc (th\<lparr>th_waiter := th_waiter th - 1\<rparr>) cur None) cur (\<lambda>b. b\<lparr>f_wstatus := f_wstatus b AND NOT w\<rparr>)"
  have "f_ring (th_fibers ?v cur) = None" using sched_okD(2) [OF ok run] by simp
  then have u: "u = ?v" by (simp add: u_def fiber_unblock_def fb_ring_detach_def Let_def)
  show "sched_ok u" unfolding u by (intro sched_ok_upd ok) simp_all
  show "th_pc u = (th_pc th)(cur := None)" "th_waiter u = th_waiter th - 1" "same_flags th u"
    "th_rings u = th_rings th" "th_running u = th_running th" "runnable u f = runnable th f"
    by (simp_all add: u same_flags_def runnable_def)
qed

subsection \<open>What the other fibers and the event loop do meanwhile\<close>

text \<open>
  Any running fiber that is not inside a blocking call may yield, signal another fiber, clear its
  own flags, create a fiber in unused memory or that of a dead fiber, wait for something else (a
  switch without a ring) or exit; the event loop wakes fibers that wait for something else, and the
  scheduler starts the next ready fiber.
\<close>

inductive env_step :: "thread \<Rightarrow> thread \<Rightarrow> bool" where
  env_yield: "th_running th = Some f \<Longrightarrow> th_pc th f = None \<Longrightarrow> acl_fiber_yield th = Ret u \<Longrightarrow> env_step th u"
| env_signal: "th_running th = Some f \<Longrightarrow> th_pc th f = None \<Longrightarrow> fiber_signal th g signum sync = Ret u \<Longrightarrow> env_step th u"
| env_kill: "th_running th = Some f \<Longrightarrow> th_pc th f = None \<Longrightarrow> acl_fiber_kill th g = Ret u \<Longrightarrow> env_step th u"
| env_clear: "th_running th = Some f \<Longrightarrow> th_pc th f = None \<Longrightarrow> acl_fiber_clear th f = u \<Longrightarrow> env_step th u"
| env_create: "th_running th = Some f \<Longrightarrow> th_pc th f = None \<Longrightarrow>
    f_status (th_fibers th fresh) = SNone \<Longrightarrow> f_ring (th_fibers th fresh) = None \<Longrightarrow>
    th_pc th fresh = None \<Longrightarrow> acl_fiber_create2 th fresh = Ret (u, g) \<Longrightarrow> env_step th u"
| env_sleep: "th_running th = Some f \<Longrightarrow> th_pc th f = None \<Longrightarrow> acl_fiber_switch th = Ret u \<Longrightarrow> env_step th u"
| env_exit: "th_running th = Some f \<Longrightarrow> th_pc th f = None \<Longrightarrow> fiber_exit th = Ret u \<Longrightarrow> env_step th u"
| env_wake: "f_status (th_fibers th g) = SSuspend \<Longrightarrow> f_ring (th_fibers th g) = None \<Longrightarrow> th_pc th g = None \<Longrightarrow>
    acl_fiber_ready th g = Ret u \<Longrightarrow> env_step th u"
| env_turn: "th_running th = None \<Longrightarrow> schedule_turn th = Ret (Some u) \<Longrightarrow> env_step th u"

text \<open>
  All that a synchronisation object needs to know of such a step: fibers suspended in a call stay
  so, keep running if they could run and stay canceled, and a fiber starts to run or leaves a waiting
  ring only because it was canceled.
\<close>

definition env_ok :: "thread \<Rightarrow> thread \<Rightarrow> bool" where
  "env_ok th u \<longleftrightarrow> sched_ok u \<and> th_pc u = th_pc th \<and> th_waiter u = th_waiter th
     \<and> (\<forall>f. th_pc th f \<noteq> None \<longrightarrow> runnable th f \<longrightarrow> runnable u f)
     \<and> (\<forall>f. th_pc th f \<noteq> None \<longrightarrow> runnable u f \<longrightarrow> runnable th f \<or> acl_fiber_canceled u f)
     \<and> (\<forall>f. th_pc th f \<noteq> None \<longrightarrow> acl_fiber_canceled th f \<longrightarrow> acl_fiber_canceled u f)
     \<and> ((\<forall>n. th_rings u (RWaiting n) = th_rings th (RWaiting n))
        \<or> (\<exists>g. acl_fiber_canceled u g \<and> runnable u g
             \<and> (\<forall>n. th_rings u (RWaiting n) = remove1 g (th_rings th (RWaiting n)))))"

lemma env_okI:
  assumes "sched_ok u" "th_pc u = th_pc th" "th_waiter u = th_waiter th" "same_flags th u"
    "\<And>f. th_pc th f \<noteq> None \<Longrightarrow> runnable u f = runnable th f"
    "\<And>n. th_rings u (RWaiting n) = th_rings th (RWaiting n)"
  shows "env_ok th u"
  using assms by (auto simp: env_ok_def same_flags_canceled)

lemma env_ok_wake:
  assumes "sched_ok w" "th_pc w = th_pc th" "th_waiter w = th_waiter th"
    "\<And>h. acl_fiber_canceled th h \<Longrightarrow> acl_fiber_canceled w h" "acl_fiber_canceled w g"
    "\<And>h. runnable w h \<longleftrightarrow> h = g \<or> runnable th h"
    "\<And>n. th_rings w (RWaiting n) = remove1 g (th_rings th (RWaiting n))"
  shows "env_ok th w"
  unfolding env_ok_def assms(6) using assms(1-5,7) by (intro conjI) blast+

lemma env_ok_refl: "sched_ok th \<Longrightarrow> env_ok th th"
  by (rule env_okI) (simp_all add: same_flags_def)

lemma or_canceled: "(x :: 32 word) AND 28 \<noteq> 0 \<Longrightarrow> (x OR y) AND 28 \<noteq> 0"
  by (auto simp: bit_eq_iff bit_simps) 

lemma killed_canceled: "acl_fiber_killed th f \<Longrightarrow> acl_fiber_canceled th f"
proof -
  assume "acl_fiber_killed th f"
  moreover have "(x AND 28) AND 4 = x AND (4 :: 32 word)" for x by (simp add: and.assoc)
  ultimately show ?thesis by (metis acl_fiber_canceled_def acl_fiber_killed_def and.left_neutral and_zero_eq bit.conj_zero_left)
qed

lemma sig_canceled: "((x :: 32 word) OR 16) AND 28 \<noteq> 0" "(x OR 20) AND 28 \<noteq> 0"
proof -
  have "bit (16 :: 32 word) 4" "bit (20 :: 32 word) 4" "bit (28 :: 32 word) 4"
    by (simp_all add: bit_iff_odd)
  then have "bit ((x OR 16) AND 28) 4" "bit ((x OR 20) AND 28) 4"
    by (simp_all only: bit_and_iff bit_or_iff simp_thms)
  then show "(x OR 16) AND 28 \<noteq> 0" "(x OR 20) AND 28 \<noteq> 0" by auto
qed

lemma signal_ok:
  assumes ok: "sched_ok th" and run: "th_running th = Some f"
  shows "\<exists>u. fiber_signal th g signum sync = Ret u \<and> env_ok th u \<and> acl_fiber_canceled u g"
proof -
  define flags :: "32 word" where "flags = (if signum \<in> {9, 15, 3} then 4 OR 16 else 16)"
  let ?v = "fb_upd th g (\<lambda>b. b\<lparr>f_flag := f_flag b OR flags, f_signum := signum\<rparr>)"
  have v: "sched_ok ?v" by (intro sched_ok_upd ok) simp_all
  have cg: "acl_fiber_canceled ?v g"
    unfolding acl_fiber_canceled_def flags_def by (cases "signum \<in> {9, 15, 3}") (simp_all add: sig_canceled)
  have cv: "acl_fiber_canceled th h \<Longrightarrow> acl_fiber_canceled ?v h" for h
    by (auto simp: acl_fiber_canceled_def or_canceled)
  have eq: "fiber_signal th g signum sync = (if f_status (th_fibers ?v g) = SSuspend
      then cbind (acl_fiber_ready ?v g) (\<lambda>th. if sync then acl_fiber_yield th else Ret th) else Ret ?v)"
    using run unfolding fiber_signal_def Let_def flags_def by (simp only: option.distinct if_False)
  show ?thesis
  proof (cases "f_status (th_fibers ?v g) = SSuspend")
    case False
    have "env_ok th ?v" using v cv by (auto simp: env_ok_def runnable_def)
    with False eq cg show ?thesis by simp
  next
    case True
    obtain w where w: "acl_fiber_ready ?v g = Ret w" "sched_ok w" "th_pc w = th_pc ?v" "th_waiter w = th_waiter ?v"
      "th_errno w = th_errno ?v" "same_flags ?v w"
      "\<And>n. th_rings w (RWaiting n) = remove1 g (th_rings ?v (RWaiting n))"
      "th_rings w RReady = remove1 g (th_rings ?v RReady) @ [g]"
      "\<And>h. runnable w h \<longleftrightarrow> h = g \<or> runnable ?v h" "th_running w = th_running ?v"
      by (rule wake_Ret [OF v True], rule that)
    have c: "acl_fiber_canceled w h = acl_fiber_canceled ?v h" for h by (rule same_flags_canceled [OF w(6)])
    have rv: "runnable ?v h = runnable th h" for h by (simp add: runnable_def)
    have pc: "th_pc w = th_pc th" "th_waiter w = th_waiter th" using w(3,4) by simp_all
    have "env_ok th w"
    proof (rule env_ok_wake [OF w(2) pc])
      show "acl_fiber_canceled w h" if "acl_fiber_canceled th h" for h unfolding c by (rule cv [OF that])
      show "acl_fiber_canceled w g" unfolding c by (rule cg)
      show "runnable w h \<longleftrightarrow> h = g \<or> runnable th h" for h unfolding w(9) rv ..
      show "th_rings w (RWaiting n) = remove1 g (th_rings th (RWaiting n))" for n using w(7) by simp
    qed
    have "th_running w = Some f" using run w(10) by simp
    then obtain x where x: "acl_fiber_yield w = Ret x" "sched_ok x" "th_pc x = th_pc w" "th_waiter x = th_waiter w"
      "th_errno x = th_errno w" "same_flags w x" "\<And>n. th_rings x (RWaiting n) = th_rings w (RWaiting n)"
      "\<And>h. runnable x h = runnable w h" "th_running x = Some (hd (th_rings w RReady @ [f]))"
      by - (rule yield_Ret [OF w(2)], assumption, rule that)
    have "env_ok th x"
      using \<open>env_ok th w\<close> x(2-4,7,8) same_flags_canceled [OF x(6)] by (simp add: env_ok_def)
    moreover have "fiber_signal th g signum sync = Ret (if sync then x else w)"
      unfolding eq using True w(1) x(1) by (simp only: if_True cbind.simps split: if_split) simp
    ultimately show ?thesis
      using \<open>env_ok th w\<close> c cg same_flags_canceled [OF x(6)] by (cases sync) simp_all
  qed
qed

lemma kill_ok:
  assumes ok: "sched_ok th" and run: "th_running th = Some f"
  shows "\<exists>u. acl_fiber_kill th g = Ret u \<and> env_ok th u \<and> acl_fiber_canceled u g"
proof -
  let ?v = "fb_upd th g (\<lambda>b. b\<lparr>f_errnum := 125\<rparr>)"
  have v: "sched_ok ?v" by (intro sched_ok_upd ok) simp_all
  have "runnable ?v h = runnable th h" "acl_fiber_canceled ?v h = acl_fiber_canceled th h" for h
    by (auto simp: runnable_def acl_fiber_canceled_def)
  then have "env_ok th u" if "env_ok ?v u" for u using that by (simp add: env_ok_def)
  with signal_ok [OF v, of f g 15 False] run show ?thesis by (auto simp: acl_fiber_kill_def)
qed

lemma sleep_ok:
  assumes ok: "sched_ok th" and run: "th_running th = Some f" and pc: "th_pc th f = None"
  shows "\<exists>u. acl_fiber_switch th = Ret u \<and> env_ok th u"
proof -
  have st: "f_status (th_fibers th f) = SRunning" using run sched_okD(3) [OF ok] by simp
  obtain u where u: "acl_fiber_switch th = Ret u" "sched_ok u" "th_pc u = th_pc th" "th_waiter u = th_waiter th"
    "same_flags th u" "\<And>n. th_rings u (RWaiting n) = th_rings th (RWaiting n)"
    "th_rings u RReady = tl (th_rings th RReady)"
    "th_running u = (case th_rings th RReady of [] \<Rightarrow> None | f # _ \<Rightarrow> Some f)"
  proof (rule switch_Ret [OF sched_okD(1) [OF ok] run])
    show "f_ring (th_fibers th f) \<in> {None, Some RReady} \<union> Some ` range RWaiting"
      using sched_okD(2) [OF ok run] by simp
    show "f_status (th_fibers th h) \<noteq> SRunning" if "h \<noteq> f" for h using that run sched_okD(3) [OF ok, of h] by simp
  qed (use st sched_okD(4,5) [OF ok] in auto)
  have "runnable u h = runnable th h" if "th_pc th h \<noteq> None" for h
    using that pc run u(7,8) by (cases "th_rings th RReady") (auto simp: runnable_def)
  then show ?thesis using u by (auto intro!: env_okI)
qed

lemma exit_ok:
  assumes ok: "sched_ok th" and run: "th_running th = Some f" and pc: "th_pc th f = None"
  shows "\<exists>u. fiber_exit th = Ret u \<and> env_ok th u"
proof -
  let ?v = "fb_upd th f (\<lambda>b. b\<lparr>f_status := SExiting\<rparr>)"
  have v: "rings_ok ?v" by (intro rings_ok_upd sched_okD(1) [OF ok]) simp
  have fr: "f_ring (th_fibers th f) = None" using sched_okD(2) [OF ok run] .
  have one: "f_status (th_fibers th h) \<noteq> SRunning" if "h \<noteq> f" for h using that run sched_okD(3) [OF ok, of h] by simp
  show ?thesis
  proof (cases "th_rings th RReady")
    case Nil
    obtain w where w: "fb_ring_prepend ?v RDead f = Ret w" "rings_ok w"
      "th_rings w = (th_rings ?v)(RDead := th_rings ?v RDead @ [f])"
      "th_fibers w = (th_fibers ?v)(f := (th_fibers ?v f)\<lparr>f_ring := Some RDead\<rparr>)"
      "th_running w = th_running ?v" "th_waiter w = th_waiter ?v" "th_pc w = th_pc ?v"
      by (rule prepend_Ret [OF v, of f RDead]) (use fr in auto)
    let ?u = "w\<lparr>th_running := None\<rparr>"
    have "rings_ok ?u" by (rule rings_ok_upd(3) [OF w(2), of "\<lambda>b. b"]) simp
    moreover have "f_status (th_fibers ?u h) \<in> ring_status r" if "f_ring (th_fibers ?u h) = Some r" for h r
      using that sched_okD(4) [OF ok, of h r] by (auto simp: w split: if_splits)
    ultimately have "sched_ok ?u" using one pc sched_okD(5) [OF ok] by (auto simp: sched_ok_def w)
    moreover have "fiber_exit th = Ret ?u"
      using run Nil w(1) by (simp add: fiber_exit_def acl_fiber_switch_def first_fiber_def fiber_swap_def)
    moreover have "runnable ?u h = runnable th h" if "th_pc th h \<noteq> None" for h
      using that pc run Nil by (auto simp: runnable_def w)
    then have "env_ok th ?u"
      by (rule env_okI [rotated 4]) (use calculation w in \<open>auto simp: same_flags_def\<close>)
    ultimately show ?thesis by blast
  next
    case (Cons g gs)
    have g: "f_ring (th_fibers th g) = Some RReady" "g \<noteq> f"
      using sched_ok_member(1) [OF ok, of g RReady] Cons fr by auto
    then have gst: "f_status (th_fibers th g) \<noteq> SExiting" using sched_okD(4) [OF ok, of g RReady] by auto
    let ?x = "(fb_ring_detach ?v g)\<lparr>th_running := Some g\<rparr>"
    have x: "rings_ok ?x" by (intro rings_ok_upd(3) [of _ "\<lambda>b. b"] detach_rings v) simp
    obtain w where w: "fb_ring_prepend ?x RDead f = Ret w" "rings_ok w"
      "th_rings w = (th_rings ?x)(RDead := th_rings ?x RDead @ [f])"
      "th_fibers w = (th_fibers ?x)(f := (th_fibers ?x f)\<lparr>f_ring := Some RDead\<rparr>)"
      "th_running w = th_running ?x" "th_waiter w = th_waiter ?x" "th_pc w = th_pc ?x"
      by (rule prepend_Ret [OF x, of f RDead]) (use fr g in auto)
    let ?u = "fb_upd w g (\<lambda>b. b\<lparr>f_status := SRunning\<rparr>)"
    have "rings_ok ?u" by (intro rings_ok_upd w(2)) simp
    moreover have "f_status (th_fibers ?u h) \<in> ring_status r" if "f_ring (th_fibers ?u h) = Some r" for h r
      using that sched_okD(4) [OF ok, of h r] g(2) by (auto simp: w split: if_splits)
    moreover have "f_status (th_fibers ?u h) = SRunning \<longleftrightarrow> h = g" for h using one [of h] g(2) by (auto simp: w)
    ultimately have "sched_ok ?u" using g pc sched_okD(5) [OF ok] by (auto simp: sched_ok_def w)
    moreover have "fiber_exit th = Ret ?u"
      using run Cons w(1,4) gst g(2) by (simp add: fiber_exit_def acl_fiber_switch_def first_fiber_def fiber_swap_def)
    moreover have "env_ok th ?u"
    proof (rule env_okI)
      have "g \<notin> set (th_rings th (RWaiting n))" for n using sched_ok_member(1) [OF ok, of g] g by simp
      then show "th_rings ?u (RWaiting n) = th_rings th (RWaiting n)" for n
        by (simp add: w(3) detach_rings(1) [OF v] remove1_idem)
      show "runnable ?u h = runnable th h" if "th_pc th h \<noteq> None" for h
        using that pc run Cons by (auto simp: runnable_def w(3,5) detach_rings(1) [OF v])
    qed (use calculation w in \<open>auto simp: same_flags_def\<close>)
    ultimately show ?thesis by blast
  qed
qed

lemma turn_ok:
  assumes ok: "sched_ok th" and run: "th_running th = None" and u: "schedule_turn th = Ret (Some u)"
  shows "env_ok th u"
proof -
  obtain g gs where Cons: "th_rings th RReady = g # gs"
    using u by (auto simp: schedule_turn_def first_fiber_def split: list.splits)
  have g: "f_ring (th_fibers th g) = Some RReady" using sched_ok_member(1) [OF ok, of g RReady] Cons by simp
  let ?u = "fb_upd ((fb_upd (fb_ring_detach th g) g (\<lambda>b. b\<lparr>f_status := SReady\<rparr>))\<lparr>th_running := Some g\<rparr>) g (\<lambda>b. b\<lparr>f_status := SRunning\<rparr>)"
  have u: "u = ?u" using u Cons by (simp add: schedule_turn_def first_fiber_def fiber_swap_def)
  have "rings_ok ?u" by (intro rings_ok_upd detach_rings sched_okD(1) [OF ok]) simp_all
  moreover have "f_status (th_fibers ?u h) \<in> ring_status r" if "f_ring (th_fibers ?u h) = Some r" for h r
    using that sched_okD(4) [OF ok, of h r] by (auto split: if_splits)
  ultimately have "sched_ok ?u" using run sched_okD(3,5) [OF ok] by (auto simp: sched_ok_def)
  moreover have "g \<notin> set (th_rings th (RWaiting n))" for n using sched_ok_member(1) [OF ok, of g] g by simp
  ultimately show ?thesis unfolding u
    by (intro env_okI) (use run Cons in \<open>auto simp: same_flags_def runnable_def remove1_idem detach_rings(1) [OF sched_okD(1) [OF ok]]\<close>)
qed

lemma create_ok:
  assumes ok: "sched_ok th" and fresh: "f_status (th_fibers th fresh) = SNone" "f_ring (th_fibers th fresh) = None"
    and fpc: "th_pc th fresh = None" and u: "acl_fiber_create2 th fresh = Ret (u, g)"
  shows "env_ok th u"
proof -
  define f where "f = snd (fiber_alloc th fresh)"
  let ?v = "fst (fiber_alloc th fresh)"
  have pc: "th_pc th (snd (fiber_alloc th fresh)) = None"
    using fpc sched_ok_member(1) [OF ok, of f RDead] sched_okD(4) [OF ok, of f RDead] sched_okD(5) [OF ok, of f]
    by (cases "th_rings th RDead"; auto simp: f_def fiber_alloc_def first_fiber_def Let_def)+
  have st: "f_status (th_fibers th f) \<noteq> SRunning" "f_ring (th_fibers th f) \<in> {None, Some RDead}"
    using fresh sched_ok_member(1) [OF ok, of f RDead] sched_okD(4) [OF ok, of f RDead]
    by (cases "th_rings th RDead"; auto simp: f_def fiber_alloc_def first_fiber_def Let_def)+
  then have nr: "th_running th \<noteq> Some f" using sched_okD(3) [OF ok] by blast
  have v: "th_running ?v = th_running th" "th_pc ?v = th_pc th" "th_waiter ?v = th_waiter th"
    "th_fibers ?v = (th_fibers th)(f := \<lparr>f_ring = None, f_status = SNone, f_wstatus = 0, f_flag = 0, f_errnum = 0, f_signum = 0\<rparr>)"
    using pc by (cases "first_fiber th RDead"; simp add: f_def fiber_alloc_def Let_def fun_upd_idem)+
  have vr: "th_rings ?v r = remove1 f (th_rings th r)" for r
    using detach_rings(1) [OF sched_okD(1) [OF ok]] st(2) fresh(2) sched_ok_member(1) [OF ok, of fresh r]
    by (cases "th_rings th RDead") (auto simp: f_def fiber_alloc_def first_fiber_def Let_def remove1_idem)
  have "rings_ok ?v"
    using rings_okD [OF sched_okD(1) [OF ok]] unfolding rings_ok_def vr by (auto simp: v)
  then obtain w where w: "acl_fiber_ready ?v f = Ret w" "rings_ok w"
    "th_rings w = (\<lambda>r. remove1 f (th_rings ?v r) @ (if r = RReady then [f] else []))"
    "th_fibers w = (th_fibers ?v)(f := (th_fibers ?v f)\<lparr>f_ring := Some RReady, f_status := SReady\<rparr>)"
    "th_running w = th_running ?v" "th_waiter w = th_waiter ?v" "th_errno w = th_errno ?v" "th_pc w = th_pc ?v"
    using ready_Ret [of ?v f] v(4) by auto
  have [simp]: "u = w" using u w(1) by (simp add: acl_fiber_create2_def f_def case_prod_unfold)
  have "sched_ok w" using w(2) nr sched_okD(2-5) [OF ok] by (auto simp: sched_ok_def w v)
  moreover have "th_rings w (RWaiting n) = th_rings th (RWaiting n)" for n
    using st(2) sched_ok_member(1) [OF ok, of f "RWaiting n"] by (auto simp: w vr remove1_idem)
  moreover have "runnable w h = runnable th h" if "th_pc th h \<noteq> None" for h
    using that pc st(2) sched_ok_member(1) [OF ok, of f RReady] by (auto simp: runnable_def w vr v remove1_idem f_def)
  moreover have "acl_fiber_canceled w h = acl_fiber_canceled th h" if "th_pc th h \<noteq> None" for h
    using that pc by (auto simp: acl_fiber_canceled_def w v f_def)
  ultimately show ?thesis by (simp add: env_ok_def w v)
qed

lemma env_step_ok:
  assumes "env_step th u" "sched_ok th"
  shows "env_ok th u"
  using assms
proof cases
  case (env_yield f)
  then show ?thesis using yield_Ret [OF assms(2) env_yield(1)] by (auto intro!: env_okI)
next
  case (env_signal f g signum sync)
  then show ?thesis using signal_ok [OF assms(2) env_signal(1), of g signum sync] by auto
next
  case (env_kill f g)
  then show ?thesis using kill_ok [OF assms(2) env_kill(1), of g] by auto
next
  case (env_clear f)
  have "sched_ok u" unfolding env_clear(3) [symmetric] acl_fiber_clear_def by (intro sched_ok_upd assms(2)) simp_all
  moreover have "acl_fiber_canceled u h" if "th_pc th h \<noteq> None" "acl_fiber_canceled th h" for h
    using that env_clear(2) by (auto simp: env_clear(3) [symmetric] acl_fiber_clear_def acl_fiber_canceled_def)
  moreover have "runnable u h = runnable th h" "th_pc u = th_pc th" "th_waiter u = th_waiter th" "th_rings u = th_rings th" for h
    by (auto simp: runnable_def env_clear(3) [symmetric] acl_fiber_clear_def)
  ultimately show ?thesis by (simp add: env_ok_def)
next
  case (env_create f fresh g)
  then show ?thesis using create_ok assms(2) by blast
next
  case (env_sleep f)
  then show ?thesis using sleep_ok [OF assms(2) env_sleep(1,2)] by auto
next
  case (env_exit f)
  then show ?thesis using exit_ok [OF assms(2) env_exit(1,2)] by auto
next
  case (env_wake g)
  obtain w where w: "acl_fiber_ready th g = Ret w" "sched_ok w" "th_pc w = th_pc th" "th_waiter w = th_waiter th"
    "th_errno w = th_errno th" "same_flags th w"
    "\<And>n. th_rings w (RWaiting n) = remove1 g (th_rings th (RWaiting n))"
    "th_rings w RReady = remove1 g (th_rings th RReady) @ [g]"
    "\<And>h. runnable w h \<longleftrightarrow> h = g \<or> runnable th h" "th_running w = th_running th"
    by (rule wake_Ret [OF assms(2) env_wake(1)], rule that)
  moreover have "g \<notin> set (th_rings th (RWaiting n))" for n
    using env_wake(2) sched_ok_member(1) [OF assms(2), of g] by simp
  ultimately show ?thesis using env_wake(3,4) by (auto intro!: env_okI simp: remove1_idem)
next
  case env_turn
  then show ?thesis using turn_ok assms(2) by blast
qed

subsection \<open>Handing over to a waiting fiber\<close>

lemma ready_detached:
  assumes "f_status (th_fibers th g) = SSuspend"
  shows "acl_fiber_ready (fb_ring_detach th g) g = acl_fiber_ready th g"
proof -
  have "fb_ring_detach (fb_ring_detach th g) g = fb_ring_detach th g"
    by (auto simp: fb_ring_detach_def split: option.splits)
  then show ?thesis using assms by (simp add: acl_fiber_ready_def)
qed

text \<open>The first waiting fiber is made ready; then the running one may yield.\<close>

lemma handover_async_Ret:
  assumes ok: "sched_ok th" and W: "th_rings th (RWaiting n) = g # gs"
  obtains u where "acl_fiber_ready (fb_ring_detach th g) g = Ret u"
    "sched_ok u" "th_pc u = th_pc th" "th_waiter u = th_waiter th" "same_flags th u"
    "\<And>m. th_rings u (RWaiting m) = (if m = n then gs else th_rings th (RWaiting m))"
    "\<And>h. runnable u h \<longleftrightarrow> h = g \<or> runnable th h" "th_running u = th_running th"
proof -
  have gW: "g \<in> set (th_rings th (RWaiting n))" using W by simp
  obtain w where w: "acl_fiber_ready th g = Ret w" "sched_ok w" "th_pc w = th_pc th" "th_waiter w = th_waiter th"
    "th_errno w = th_errno th" "same_flags th w"
    "\<And>n. th_rings w (RWaiting n) = remove1 g (th_rings th (RWaiting n))"
    "th_rings w RReady = remove1 g (th_rings th RReady) @ [g]"
    "\<And>h. runnable w h \<longleftrightarrow> h = g \<or> runnable th h" "th_running w = th_running th"
    by (rule wake_Ret [OF ok sched_ok_member(3) [OF ok gW]], rule that)
  have m: "g \<notin> set (th_rings th (RWaiting m))" if "m \<noteq> n" for m
    using gW that sched_ok_member(1) [OF ok, of g] by simp
  show ?thesis
  proof (rule that [of w])
    show "acl_fiber_ready (fb_ring_detach th g) g = Ret w"
      using w(1) ready_detached [OF sched_ok_member(3) [OF ok gW]] by simp
    show "th_rings w (RWaiting m) = (if m = n then gs else th_rings th (RWaiting m))" for m
      using W m [of m] by (simp add: w(7) remove1_idem)
  qed (use w in simp_all)
qed

lemma handover_Ret:
  assumes ok: "sched_ok th" and run: "th_running th = Some f" and W: "th_rings th (RWaiting n) = g # gs"
  obtains u where "cbind (acl_fiber_ready (fb_ring_detach th g) g) acl_fiber_yield = Ret u"
    "sched_ok u" "th_pc u = th_pc th" "th_waiter u = th_waiter th" "same_flags th u"
    "\<And>m. th_rings u (RWaiting m) = (if m = n then gs else th_rings th (RWaiting m))"
    "\<And>h. runnable u h \<longleftrightarrow> h = g \<or> runnable th h"
proof -
  obtain w where w: "acl_fiber_ready (fb_ring_detach th g) g = Ret w"
    "sched_ok w" "th_pc w = th_pc th" "th_waiter w = th_waiter th" "same_flags th w"
    "\<And>m. th_rings w (RWaiting m) = (if m = n then gs else th_rings th (RWaiting m))"
    "\<And>h. runnable w h \<longleftrightarrow> h = g \<or> runnable th h" "th_running w = th_running th"
    by (rule handover_async_Ret [OF ok W], rule that)
  have "th_running w = Some f" using run w(8) by simp
  then obtain x where x: "acl_fiber_yield w = Ret x" "sched_ok x" "th_pc x = th_pc w" "th_waiter x = th_waiter w"
    "th_errno x = th_errno w" "same_flags w x" "\<And>n. th_rings x (RWaiting n) = th_rings w (RWaiting n)"
    "\<And>h. runnable x h = runnable w h" "th_running x = Some (hd (th_rings w RReady @ [f]))"
    by - (rule yield_Ret [OF w(2)], assumption, rule that)
  show ?thesis
    by (rule that [of x]) (use w x in \<open>simp_all add: same_flags_def\<close>)
qed

subsection \<open>Objects as transition systems\<close>

text \<open>
  A synchronisation object with its fibers: the states reached from an initial one, and an
  invariant that every step keeps. Each object provides its steps and the invariant.
\<close>

locale sync_object =
  fixes init :: "'s \<Rightarrow> bool" and step :: "'s \<Rightarrow> 's \<Rightarrow> bool" and inv :: "'s \<Rightarrow> bool"
  assumes init_inv: "init s \<Longrightarrow> inv s"
    and step_inv: "step s t \<Longrightarrow> inv s \<Longrightarrow> inv t"
begin

lemma reach_inv:
  assumes "init s0" "step\<^sup>*\<^sup>* s0 s"
  shows "inv s"
  using assms(2,1) by (induction rule: rtranclp_induct) (auto intro: init_inv step_inv)

end

text \<open>The calls suspended, as the event loop's counter has them.\<close>

definition calls_ok :: "thread \<Rightarrow> bool" where
  "calls_ok th \<longleftrightarrow> finite {f. th_pc th f \<noteq> None} \<and> th_waiter th = int (card {f. th_pc th f \<noteq> None})"

lemma calls_ok_block:
  assumes "calls_ok th" "th_pc th f = None" "th_pc u = (th_pc th)(f := Some p)" "th_waiter u = th_waiter th + 1"
  shows "calls_ok u"
proof -
  have "{g. th_pc u g \<noteq> None} = insert f {g. th_pc th g \<noteq> None}" using assms(3) by auto
  then show ?thesis using assms by (simp add: calls_ok_def)
qed

lemma calls_ok_unblock:
  assumes "calls_ok th" "th_pc th f \<noteq> None" "th_pc u = (th_pc th)(f := None)" "th_waiter u = th_waiter th - 1"
  shows "calls_ok u"
proof -
  have "{g. th_pc u g \<noteq> None} = {g. th_pc th g \<noteq> None} - {f}" using assms(3) by auto
  moreover have "Suc (card ({g. th_pc th g \<noteq> None} - {f})) = card {g. th_pc th g \<noteq> None}"
    using assms(1,2) by (intro card_Suc_Diff1) (auto simp: calls_ok_def)
  ultimately show ?thesis using assms(1,4) by (simp add: calls_ok_def)
qed

lemma calls_ok_same: "calls_ok th \<Longrightarrow> th_pc u = th_pc th \<Longrightarrow> th_waiter u = th_waiter th \<Longrightarrow> calls_ok u"
  by (simp add: calls_ok_def)

text \<open>What a step of the surroundings means for the fibers in one kind of call.\<close>

lemma env_ok_waiting:
  assumes "env_ok th u"
  shows "set (th_rings u (RWaiting n)) \<subseteq> set (th_rings th (RWaiting n))"
    "th_pc th f \<noteq> None \<Longrightarrow> f \<in> set (th_rings th (RWaiting n)) \<Longrightarrow>
      f \<in> set (th_rings u (RWaiting n)) \<or> runnable u f \<and> acl_fiber_canceled u f"
  using assms set_remove1_subset by (fastforce simp: env_ok_def dest: in_set_remove1 [THEN iffD2, rotated])+

text \<open>A thread whose fiber 1 runs and whose fiber 2 is ready.\<close>

definition demo_thread :: thread where
  "demo_thread = \<lparr>
    th_fibers = (\<lambda>f. \<lparr>f_ring = (if f = 2 then Some RReady else None),
        f_status = (if f = 1 then SRunning else if f = 2 then SReady else SNone),
        f_wstatus = 0, f_flag = 0, f_errnum = 0, f_signum = 0\<rparr>),
    th_rings = (\<lambda>r. if r = RReady then [2] else []),
    th_running = Some 1, th_waiter = 0, th_errno = 0, th_pc = (\<lambda>_. None)\<rparr>"

lemma demo_thread:
  "sched_ok demo_thread" "th_running demo_thread = Some 1" "th_rings demo_thread RReady = [2]"
  "th_pc demo_thread f = None" "th_waiter demo_thread = 0" "th_rings demo_thread (RWaiting n) = []"
  by (auto simp: demo_thread_def sched_ok_def rings_ok_def)

end
