(* ===== verification/Fiber_Lock.thy ===== *)
theory Fiber_Lock
  imports Fiber_Sched
begin

text \<open>
  The fiber lock of \<open>lib_fiber/c/src/sync/fiber_lock.c\<close>: an owner and a ring of waiting fibers, to the
  first of which an unlock hands the lock over. A failed \<open>assert\<close> and \<open>msg_fatal\<close> end the process and
  are \<open>Fault\<close> here. The ring \<open>me\<close> of a lock is only used under \<open>DEBUG_LOCK\<close>.
\<close>

record fiber_lock =
  lk_owner :: "nat option"
  lk_waiting :: nat

subsection \<open>Operations\<close>

definition acl_fiber_lock_create :: "nat \<Rightarrow> fiber_lock" where
  "acl_fiber_lock_create ring = \<lparr>lk_owner = None, lk_waiting = ring\<rparr>"

text \<open>
  \<open>__lock\<close> up to its switch: the result is the returned value, or \<open>None\<close> when the fiber is suspended.
\<close>

definition lock_begin :: "fiber_lock \<Rightarrow> thread \<Rightarrow> bool \<Rightarrow> (fiber_lock \<times> thread \<times> int option) cres" where
  "lock_begin lk th block =
    (if lk_owner lk = None then Ret (lk\<lparr>lk_owner := th_running th\<rparr>, th, Some 0)
     else if lk_owner lk = th_running th then Fault
     else if \<not> block then Ret (lk, th, Some (-1))
     else (case th_running th of None \<Rightarrow> Fault
       | Some cur \<Rightarrow> map_cres (\<lambda>th. (lk, th, None)) (fiber_block th cur (RWaiting (lk_waiting lk)) 128 PcLock)))"

text \<open>\<open>__lock\<close> behind the switch.\<close>

definition lock_resume :: "fiber_lock \<Rightarrow> thread \<Rightarrow> nat \<Rightarrow> thread \<times> int" where
  "lock_resume lk th cur =
    (let th = fiber_unblock th cur 128 in
     if lk_owner lk = Some cur then (th, 0)
     else if acl_fiber_canceled th cur then (acl_fiber_set_error th (f_errnum (th_fibers th cur)), -1)
     else (th, -1))"

text \<open>\<open>return __lock(lk, 0) ? 0 : -1\<close>.\<close>

definition acl_fiber_lock_trylock :: "fiber_lock \<Rightarrow> thread \<Rightarrow> (fiber_lock \<times> thread \<times> int) cres" where
  "acl_fiber_lock_trylock lk th = cbind (lock_begin lk th False) (\<lambda>(lk, th, r). case r of
     None \<Rightarrow> Fault | Some r \<Rightarrow> Ret (lk, th, if r \<noteq> 0 then 0 else -1))"

definition acl_fiber_lock_unlock :: "fiber_lock \<Rightarrow> thread \<Rightarrow> (fiber_lock \<times> thread) cres" where
  "acl_fiber_lock_unlock lk th =
    (if lk_owner lk = None then Fault
     else if lk_owner lk \<noteq> th_running th then Fault
     else
       (let ready = first_fiber th (RWaiting (lk_waiting lk)); lk = lk\<lparr>lk_owner := ready\<rparr> in
        case ready of None \<Rightarrow> Ret (lk, th)
        | Some g \<Rightarrow> map_cres (\<lambda>th. (lk, th)) (cbind (acl_fiber_ready (fb_ring_detach th g) g) acl_fiber_yield)))"

subsection \<open>A lock and its fibers\<close>

text \<open>
  \<open>ls_in\<close> are the fibers that were told by a 0 from \<open>acl_fiber_lock_lock\<close> that they have the lock and have not
  unlocked it yet. A fiber locks only what it does not have and unlocks only what it has. Nobody calls
  \<open>acl_fiber_lock_trylock\<close>: its result is the opposite of the documented one (lemma \<open>trylock_inverted\<close>), so a
  caller that relies on it cannot know what it has.
\<close>

record lock_sys =
  ls_lock :: fiber_lock
  ls_th :: thread
  ls_in :: "nat set"

inductive lock_step :: "lock_sys \<Rightarrow> lock_sys \<Rightarrow> bool" where
  lk_env: "env_step (ls_th s) u \<Longrightarrow> lock_step s (s\<lparr>ls_th := u\<rparr>)"
| lk_lock: "th_running (ls_th s) = Some f \<Longrightarrow> th_pc (ls_th s) f = None \<Longrightarrow> f \<notin> ls_in s \<Longrightarrow>
    lock_begin (ls_lock s) (ls_th s) True = Ret (lk, u, r) \<Longrightarrow>
    lock_step s \<lparr>ls_lock = lk, ls_th = u, ls_in = (if r = Some 0 then insert f (ls_in s) else ls_in s)\<rparr>"
| lk_resume: "th_running (ls_th s) = Some f \<Longrightarrow> th_pc (ls_th s) f = Some PcLock \<Longrightarrow>
    lock_resume (ls_lock s) (ls_th s) f = (u, r) \<Longrightarrow>
    lock_step s (s\<lparr>ls_th := u, ls_in := (if r = 0 then insert f (ls_in s) else ls_in s)\<rparr>)"
| lk_unlock: "th_running (ls_th s) = Some f \<Longrightarrow> th_pc (ls_th s) f = None \<Longrightarrow> f \<in> ls_in s \<Longrightarrow>
    acl_fiber_lock_unlock (ls_lock s) (ls_th s) = Ret (lk, u) \<Longrightarrow>
    lock_step s \<lparr>ls_lock = lk, ls_th = u, ls_in = ls_in s - {f}\<rparr>"

text \<open>Any number of fibers, ready or running, none of them in a call.\<close>

definition lock_init :: "lock_sys \<Rightarrow> bool" where
  "lock_init s \<longleftrightarrow> sched_ok (ls_th s) \<and> (\<forall>f. th_pc (ls_th s) f = None) \<and> th_waiter (ls_th s) = 0
     \<and> (\<exists>n. ls_lock s = acl_fiber_lock_create n \<and> th_rings (ls_th s) (RWaiting n) = []) \<and> ls_in s = {}"

abbreviation lock_queue :: "lock_sys \<Rightarrow> nat list" where
  "lock_queue s \<equiv> th_rings (ls_th s) (RWaiting (lk_waiting (ls_lock s)))"

definition lock_inv :: "lock_sys \<Rightarrow> bool" where
  "lock_inv s \<longleftrightarrow> sched_ok (ls_th s) \<and> calls_ok (ls_th s)
     \<and> (\<forall>f. th_pc (ls_th s) f \<in> {None, Some PcLock})
     \<and> (\<forall>f \<in> set (lock_queue s). th_pc (ls_th s) f = Some PcLock \<and> lk_owner (ls_lock s) \<noteq> Some f)
     \<and> (\<forall>f. th_pc (ls_th s) f = Some PcLock \<longrightarrow> f \<in> set (lock_queue s)
          \<or> runnable (ls_th s) f \<and> (lk_owner (ls_lock s) = Some f \<or> acl_fiber_canceled (ls_th s) f))
     \<and> (lk_owner (ls_lock s) = None \<longrightarrow> lock_queue s = [])
     \<and> (\<forall>f. f \<in> ls_in s \<longleftrightarrow> lk_owner (ls_lock s) = Some f \<and> th_pc (ls_th s) f = None)"

lemma lock_invD:
  assumes "lock_inv s"
  shows "sched_ok (ls_th s)" "calls_ok (ls_th s)" "th_pc (ls_th s) f = None \<or> th_pc (ls_th s) f = Some PcLock"
    "f \<in> set (lock_queue s) \<Longrightarrow> th_pc (ls_th s) f = Some PcLock \<and> lk_owner (ls_lock s) \<noteq> Some f"
    "th_pc (ls_th s) f = Some PcLock \<Longrightarrow> f \<in> set (lock_queue s)
       \<or> runnable (ls_th s) f \<and> (lk_owner (ls_lock s) = Some f \<or> acl_fiber_canceled (ls_th s) f)"
    "lk_owner (ls_lock s) = None \<Longrightarrow> lock_queue s = []"
    "f \<in> ls_in s \<longleftrightarrow> lk_owner (ls_lock s) = Some f \<and> th_pc (ls_th s) f = None"
  using assms by (auto simp: lock_inv_def)

lemma lock_inv_init: "lock_init s \<Longrightarrow> lock_inv s"
  by (auto simp: lock_init_def lock_inv_def acl_fiber_lock_create_def calls_ok_def)

lemma lock_inv_env:
  assumes "lock_inv s" "env_step (ls_th s) u"
  shows "lock_inv (s\<lparr>ls_th := u\<rparr>)"
proof -
  note inv = lock_invD [OF assms(1)]
  have e: "env_ok (ls_th s) u" by (rule env_step_ok [OF assms(2) inv(1)])
  then have u: "sched_ok u" "th_pc u = th_pc (ls_th s)" "th_waiter u = th_waiter (ls_th s)"
    "\<And>f. th_pc (ls_th s) f \<noteq> None \<Longrightarrow> runnable (ls_th s) f \<Longrightarrow> runnable u f"
    "\<And>f. th_pc (ls_th s) f \<noteq> None \<Longrightarrow> acl_fiber_canceled (ls_th s) f \<Longrightarrow> acl_fiber_canceled u f"
    by (auto simp: env_ok_def)
  note w = env_ok_waiting [OF e, where n = "lk_waiting (ls_lock s)"]
  have "f \<in> set (th_rings u (RWaiting (lk_waiting (ls_lock s))))
      \<or> runnable u f \<and> (lk_owner (ls_lock s) = Some f \<or> acl_fiber_canceled u f)"
    if "th_pc (ls_th s) f = Some PcLock" for f
    using that inv(5) [of f] w(2) [of f] u(4,5) [of f] by auto
  moreover have "lk_owner (ls_lock s) = None \<Longrightarrow> th_rings u (RWaiting (lk_waiting (ls_lock s))) = []"
    using inv(6) w(1) by auto
  ultimately show ?thesis
    using u(1-3) w(1) inv(3,4,7) calls_ok_same [OF inv(2) u(2,3)] by (auto simp: lock_inv_def)
qed

lemma lock_inv_take:
  assumes inv: "lock_inv s" and run: "th_running (ls_th s) = Some f" and pc: "th_pc (ls_th s) f = None"
    and free: "lk_owner (ls_lock s) = None"
  shows "lock_inv \<lparr>ls_lock = (ls_lock s)\<lparr>lk_owner := Some f\<rparr>, ls_th = ls_th s, ls_in = insert f (ls_in s)\<rparr>"
  using inv pc free by (auto simp: lock_inv_def)

lemma lock_inv_lock:
  assumes inv: "lock_inv s" and run: "th_running (ls_th s) = Some f" and pc: "th_pc (ls_th s) f = None"
    and fin: "f \<notin> ls_in s" and b: "lock_begin (ls_lock s) (ls_th s) True = Ret (lk, u, r)"
  shows "lock_inv \<lparr>ls_lock = lk, ls_th = u, ls_in = (if r = Some 0 then insert f (ls_in s) else ls_in s)\<rparr>"
proof (cases "lk_owner (ls_lock s)")
  case None
  then show ?thesis using lock_inv_take [OF inv run pc None] b run by (auto simp: lock_begin_def)
next
  case (Some h)
  note i = lock_invD [OF inv]
  have hf: "h \<noteq> f" using i(7) [of f] fin pc Some by simp
  obtain v where v: "fiber_block (ls_th s) f (RWaiting (lk_waiting (ls_lock s))) 128 PcLock = Ret v" "sched_ok v"
    "th_pc v = (th_pc (ls_th s))(f := Some PcLock)"
    "th_waiter v = th_waiter (ls_th s) + 1" "same_flags (ls_th s) v"
    "\<And>m. th_rings v (RWaiting m) = th_rings (ls_th s) (RWaiting m) @ (if m = lk_waiting (ls_lock s) then [f] else [])"
    "\<And>g. runnable v g \<longleftrightarrow> g \<noteq> f \<and> runnable (ls_th s) g"
    "th_running v = (case th_rings (ls_th s) RReady of [] \<Rightarrow> None | f # _ \<Rightarrow> Some f)"
    by (rule block_Ret [OF i(1) run], rule that)
  have "lk = ls_lock s" "u = v" "r = None" using b Some hf run v(1) by (auto simp: lock_begin_def)
  moreover have "acl_fiber_canceled v g = acl_fiber_canceled (ls_th s) g" for g by (rule same_flags_canceled [OF v(5)])
  ultimately show ?thesis
    using i(3-7) v(2,3,6,7) Some hf pc calls_ok_block [OF i(2) pc v(3,4)] by (auto simp: lock_inv_def)
qed

lemma lock_inv_resume:
  assumes inv: "lock_inv s" and run: "th_running (ls_th s) = Some f" and pc: "th_pc (ls_th s) f = Some PcLock"
    and r: "lock_resume (ls_lock s) (ls_th s) f = (u, r)"
  shows "lock_inv (s\<lparr>ls_th := u, ls_in := (if r = 0 then insert f (ls_in s) else ls_in s)\<rparr>)"
proof -
  note i = lock_invD [OF inv]
  let ?v = "fiber_unblock (ls_th s) f 128"
  note v = unblock_ok [OF i(1) run refl, of 128]
  have e: "sched_ok u" "th_pc u = th_pc ?v" "th_waiter u = th_waiter ?v" "th_rings u = th_rings ?v"
    "runnable u g = runnable ?v g" "acl_fiber_canceled u g = acl_fiber_canceled ?v g" for g
    using r sched_ok_upd(4) [OF v(1), of "\<lambda>b. b"]
    by (auto simp: lock_resume_def Let_def acl_fiber_set_error_def runnable_def acl_fiber_canceled_def v(1) split: if_splits)
  have r0: "r = 0 \<longleftrightarrow> lk_owner (ls_lock s) = Some f"
    using r by (auto simp: lock_resume_def Let_def split: if_splits)
  have c: "acl_fiber_canceled u g = acl_fiber_canceled (ls_th s) g" for g
    using same_flags_canceled [OF v(4)] e(6) by simp
  have "calls_ok u" using calls_ok_unblock [OF i(2), of f u] pc e(2,3) v(2,3) by simp
  moreover have "f \<notin> set (lock_queue s)" using sched_ok_member(5) [OF i(1) run] by simp
  moreover have "g \<in> set (lock_queue s) \<or> runnable u g \<and> (lk_owner (ls_lock s) = Some g \<or> acl_fiber_canceled u g)"
    if "g \<noteq> f" "th_pc (ls_th s) g = Some PcLock" for g
    using i(5) [OF that(2)] e(5) [of g] v(7) [of g] c by simp
  moreover have "g \<in> (if r = 0 then insert f (ls_in s) else ls_in s)
      \<longleftrightarrow> lk_owner (ls_lock s) = Some g \<and> th_pc u g = None" for g
    using i(7) [of g] r0 e(2) v(2) pc by auto
  ultimately show ?thesis
    using i(3,4,6) e(1-4) v(2,5) by (auto simp: lock_inv_def)
qed

lemma lock_inv_unlock:
  assumes inv: "lock_inv s" and run: "th_running (ls_th s) = Some f" and fin: "f \<in> ls_in s"
    and r: "acl_fiber_lock_unlock (ls_lock s) (ls_th s) = Ret (lk, u)"
  shows "lock_inv \<lparr>ls_lock = lk, ls_th = u, ls_in = ls_in s - {f}\<rparr>"
proof -
  note i = lock_invD [OF inv]
  have own: "lk_owner (ls_lock s) = Some f" "th_pc (ls_th s) f = None" using i(7) [of f] fin by auto
  show ?thesis
  proof (cases "lock_queue s")
    case Nil
    then have "lk = (ls_lock s)\<lparr>lk_owner := None\<rparr>" "u = ls_th s"
      using r own run by (auto simp: acl_fiber_lock_unlock_def first_fiber_def)
    moreover have "runnable (ls_th s) h \<and> acl_fiber_canceled (ls_th s) h" if "th_pc (ls_th s) h = Some PcLock" for h
      using i(5) [OF that] that own Nil by auto
    ultimately show ?thesis using i(1-3,7) own Nil by (auto simp: lock_inv_def)
  next
    case (Cons g gs)
    obtain v where v: "cbind (acl_fiber_ready (fb_ring_detach (ls_th s) g) g) acl_fiber_yield = Ret v"
      "sched_ok v" "th_pc v = th_pc (ls_th s)" "th_waiter v = th_waiter (ls_th s)" "same_flags (ls_th s) v"
      "\<And>m. th_rings v (RWaiting m) = (if m = lk_waiting (ls_lock s) then gs else th_rings (ls_th s) (RWaiting m))"
      "\<And>h. runnable v h \<longleftrightarrow> h = g \<or> runnable (ls_th s) h"
      by (rule handover_Ret [OF i(1) run Cons], rule that)
    have "lk = (ls_lock s)\<lparr>lk_owner := Some g\<rparr>" "u = v"
      using r own run Cons v(1) by (auto simp: acl_fiber_lock_unlock_def first_fiber_def)
    moreover have "acl_fiber_canceled v h = acl_fiber_canceled (ls_th s) h" for h by (rule same_flags_canceled [OF v(5)])
    moreover have "g \<notin> set gs" using sched_ok_member(2) [OF i(1), of "RWaiting (lk_waiting (ls_lock s))"] Cons by simp
    moreover have "th_pc (ls_th s) g = Some PcLock" using i(4) [of g] Cons by simp
    moreover have "h \<in> set gs \<or> runnable v h \<and> (g = h \<or> acl_fiber_canceled (ls_th s) h)"
      if "th_pc (ls_th s) h = Some PcLock" for h
      using i(5) [OF that] that own Cons v(7) [of h] by auto
    ultimately show ?thesis
      using i(3,4,7) own v(2,3,6) Cons calls_ok_same [OF i(2) v(3,4)] by (auto simp: lock_inv_def)
  qed
qed

lemma lock_inv_step: "lock_step s t \<Longrightarrow> lock_inv s \<Longrightarrow> lock_inv t"
  by (induction rule: lock_step.induct) (simp_all add: lock_inv_env lock_inv_lock lock_inv_resume lock_inv_unlock)

interpretation lck: sync_object lock_init lock_step lock_inv
  by unfold_locales (auto intro: lock_inv_init lock_inv_step)

subsection \<open>Properties\<close>

text \<open>
  C27: Mutual exclusion and no lost wake-up. However its fibers lock, unlock, yield, sleep, exit and
  kill each other, without \<open>acl_fiber_lock_trylock\<close>, at most one fiber has the lock at a time, and it is the owner; while nobody owns
  it nobody waits; and a fiber suspended in \<open>acl_fiber_lock_lock\<close> is either queued behind an owner
  or scheduled to run, as the owner or because it was killed.
\<close>

theorem lock_safe:
  assumes "lock_init s0" "lock_step\<^sup>*\<^sup>* s0 s"
  shows "(\<forall>f \<in> ls_in s. lk_owner (ls_lock s) = Some f) \<and> card (ls_in s) \<le> 1
    \<and> (lk_owner (ls_lock s) = None \<longrightarrow> lock_queue s = [])
    \<and> (\<forall>f. th_pc (ls_th s) f = Some PcLock \<longrightarrow>
         f \<in> set (lock_queue s) \<and> (\<exists>h. lk_owner (ls_lock s) = Some h \<and> h \<noteq> f)
         \<or> runnable (ls_th s) f \<and> (lk_owner (ls_lock s) = Some f \<or> acl_fiber_canceled (ls_th s) f))
    \<and> th_waiter (ls_th s) = int (card {f. th_pc (ls_th s) f \<noteq> None})
    \<and> (\<forall>f. th_running (ls_th s) = Some f \<longrightarrow> th_pc (ls_th s) f = None \<longrightarrow> f \<notin> ls_in s \<longrightarrow>
         lock_begin (ls_lock s) (ls_th s) True \<noteq> Fault)"
proof -
  note i = lock_invD [OF lck.reach_inv [OF assms]]
  have "\<exists>h. lk_owner (ls_lock s) = Some h \<and> h \<noteq> f" if "f \<in> set (lock_queue s)" for f
    using i(4) [OF that] i(6) that by (cases "lk_owner (ls_lock s)") auto
  moreover have "ls_in s \<subseteq> set_option (lk_owner (ls_lock s))" using i(7) by auto
  then have "card (ls_in s) \<le> 1"
    using card_mono [of "set_option (lk_owner (ls_lock s))" "ls_in s"] by (cases "lk_owner (ls_lock s)") auto
  moreover have "lock_begin (ls_lock s) (ls_th s) True \<noteq> Fault"
    if f: "th_running (ls_th s) = Some f" "th_pc (ls_th s) f = None" "f \<notin> ls_in s" for f
  proof -
    obtain v where "fiber_block (ls_th s) f (RWaiting (lk_waiting (ls_lock s))) 128 PcLock = Ret v"
      using block_Ret [OF i(1) f(1)] .
    moreover have "lk_owner (ls_lock s) \<noteq> Some f" using f i(7) by blast
    ultimately show ?thesis using f(1) by (simp add: lock_begin_def)
  qed
  ultimately show ?thesis using i(2,5-7) by (fastforce simp: calls_ok_def)
qed

lemma lock_demo:
  "\<exists>s0 s. lock_init s0 \<and> lock_step\<^sup>*\<^sup>* s0 s \<and> ls_in s = {1} \<and> lock_queue s = [2] \<and> th_running (ls_th s) = Some 1"
proof -
  let ?lk = "\<lparr>lk_owner = Some 1, lk_waiting = 0\<rparr>"
  define s0 where "s0 = \<lparr>ls_lock = acl_fiber_lock_create 0, ls_th = demo_thread, ls_in = {}\<rparr>"
  note d = demo_thread
  have init: "lock_init s0" using d by (simp add: lock_init_def s0_def acl_fiber_lock_create_def)
  have 1: "lock_step s0 \<lparr>ls_lock = ?lk, ls_th = demo_thread, ls_in = {1}\<rparr>"
    using lk_lock [of s0 1 ?lk demo_thread "Some 0"] d by (simp add: s0_def lock_begin_def acl_fiber_lock_create_def)
  obtain u where u: "acl_fiber_yield demo_thread = Ret u" "sched_ok u" "th_pc u = th_pc demo_thread"
    "th_waiter u = th_waiter demo_thread" "th_errno u = th_errno demo_thread" "same_flags demo_thread u"
    "\<And>n. th_rings u (RWaiting n) = th_rings demo_thread (RWaiting n)" "\<And>f. runnable u f = runnable demo_thread f"
    "th_running u = Some (hd (th_rings demo_thread RReady @ [1]))"
    by (rule yield_Ret [OF d(1,2)], rule that)
  have 2: "lock_step \<lparr>ls_lock = ?lk, ls_th = demo_thread, ls_in = {1}\<rparr> \<lparr>ls_lock = ?lk, ls_th = u, ls_in = {1}\<rparr>"
    using lk_env [of "\<lparr>ls_lock = ?lk, ls_th = demo_thread, ls_in = {1}\<rparr>" u] env_yield [OF d(2,4) u(1)] by simp
  have run: "th_running u = Some 2" using u(9) d(3) by simp
  obtain v where v: "fiber_block u 2 (RWaiting 0) 128 PcLock = Ret v" "sched_ok v" "th_pc v = (th_pc u)(2 := Some PcLock)"
    "th_waiter v = th_waiter u + 1" "same_flags u v"
    "\<And>m. th_rings v (RWaiting m) = th_rings u (RWaiting m) @ (if m = 0 then [2] else [])"
    "\<And>f. runnable v f \<longleftrightarrow> f \<noteq> 2 \<and> runnable u f"
    "th_running v = (case th_rings u RReady of [] \<Rightarrow> None | f # _ \<Rightarrow> Some f)"
    by (rule block_Ret [OF u(2) run], rule that)
  have "lock_step \<lparr>ls_lock = ?lk, ls_th = u, ls_in = {1}\<rparr> \<lparr>ls_lock = ?lk, ls_th = v, ls_in = {1}\<rparr>"
    using lk_lock [of "\<lparr>ls_lock = ?lk, ls_th = u, ls_in = {1}\<rparr>" 2 ?lk v None] run d(4) v(1) u(3)
    by (simp add: lock_begin_def)
  then have "lock_step\<^sup>*\<^sup>* s0 \<lparr>ls_lock = ?lk, ls_th = v, ls_in = {1}\<rparr>" using 1 2 by (meson converse_rtranclp_into_rtranclp rtranclp.rtrancl_refl)
  moreover have "f \<in> set (th_rings u RReady) \<longleftrightarrow> f = 1" for f
    using u(8) [of f] run sched_ok_member(5) [OF u(2) run, of RReady] d(2,3) by (cases "f = 2") (auto simp: runnable_def)
  then have "th_running v = Some 1" using v(8) by (cases "th_rings u RReady") auto
  ultimately show ?thesis using init v(6) u(7) d(6) by (intro exI conjI) auto
qed

theorem lock_safe_witness:
  "\<exists>s. lock_queue s = [2] \<and> ls_in s = {1} \<and> card (ls_in s) \<le> 1 \<and> lk_owner (ls_lock s) = Some 1"
proof -
  obtain s0 s where s: "lock_init s0" "lock_step\<^sup>*\<^sup>* s0 s" "ls_in s = {1}" "lock_queue s = [2]" using lock_demo by blast
  show ?thesis using lock_safe [OF s(1,2)] s(3,4) by (intro exI [of _ s]) simp
qed

text \<open>
  Fair handing over. When the owner unlocks, the lock goes to the fiber that has waited longest,
  which is scheduled to run and then gets 0 from its call; the others move up by one. With nobody
  waiting the lock becomes free. The unlock never ends the process.
\<close>

theorem lock_handover:
  assumes "lock_init s0" "lock_step\<^sup>*\<^sup>* s0 s" "f \<in> ls_in s" "th_running (ls_th s) = Some f"
  shows "\<exists>lk u. acl_fiber_lock_unlock (ls_lock s) (ls_th s) = Ret (lk, u)
    \<and> (case lock_queue s of
         [] \<Rightarrow> lk_owner lk = None \<and> u = ls_th s
       | g # gs \<Rightarrow> lk_owner lk = Some g \<and> th_rings u (RWaiting (lk_waiting lk)) = gs
           \<and> runnable u g \<and> snd (lock_resume lk v g) = 0)"
proof -
  note i = lock_invD [OF lck.reach_inv [OF assms(1,2)]]
  have own: "lk_owner (ls_lock s) = Some f" using i(7) [of f] assms(3) by auto
  show ?thesis
  proof (cases "lock_queue s")
    case Nil
    then show ?thesis using own assms(4) by (simp add: acl_fiber_lock_unlock_def first_fiber_def)
  next
    case (Cons g gs)
    obtain v where v: "cbind (acl_fiber_ready (fb_ring_detach (ls_th s) g) g) acl_fiber_yield = Ret v"
      "sched_ok v" "th_pc v = th_pc (ls_th s)" "th_waiter v = th_waiter (ls_th s)" "same_flags (ls_th s) v"
      "\<And>m. th_rings v (RWaiting m) = (if m = lk_waiting (ls_lock s) then gs else th_rings (ls_th s) (RWaiting m))"
      "\<And>h. runnable v h \<longleftrightarrow> h = g \<or> runnable (ls_th s) h"
      by (rule handover_Ret [OF i(1) assms(4) Cons], rule that)
    then show ?thesis
      using own assms(4) Cons by (simp add: acl_fiber_lock_unlock_def first_fiber_def lock_resume_def Let_def)
  qed
qed

theorem lock_handover_witness:
  "\<exists>s lk u. lock_queue s = [2] \<and> acl_fiber_lock_unlock (ls_lock s) (ls_th s) = Ret (lk, u) \<and> lk_owner lk = Some 2"
proof -
  obtain s0 s where s: "lock_init s0" "lock_step\<^sup>*\<^sup>* s0 s" "ls_in s = {1}" "lock_queue s = [2]"
    "th_running (ls_th s) = Some 1" using lock_demo by blast
  obtain lk u where "acl_fiber_lock_unlock (ls_lock s) (ls_th s) = Ret (lk, u)" "lk_owner lk = Some 2"
    using lock_handover [OF s(1,2) _ s(5), of "ls_th s"] s(3) unfolding s(4) by auto
  then show ?thesis using s(4) by blast
qed

text \<open>
  A trial on a free lock takes it and returns \<open>-1\<close>; on a lock that another fiber has it fails and
  returns 0. The header says the opposite.
\<close>

lemma trylock_inverted:
  assumes "th_running th = Some f"
  shows "acl_fiber_lock_trylock \<lparr>lk_owner = None, lk_waiting = n\<rparr> th = Ret (\<lparr>lk_owner = Some f, lk_waiting = n\<rparr>, th, -1)"
    "g \<noteq> f \<Longrightarrow> acl_fiber_lock_trylock \<lparr>lk_owner = Some g, lk_waiting = n\<rparr> th = Ret (\<lparr>lk_owner = Some g, lk_waiting = n\<rparr>, th, 0)"
  using assms by (simp_all add: acl_fiber_lock_trylock_def lock_begin_def)

end
