(* ===== verification/Fiber_Sem.thy ===== *)
theory Fiber_Sem
  imports Fiber_Sched
begin

text \<open>
  The fiber semaphore of \<open>lib_fiber/c/src/sync/fiber_sem.c\<close>: a counter and a ring of waiting fibers. A
  post takes the token back at once for the fiber it wakes. \<open>self\<close> is the result of
  \<open>thread_self\<close>; \<open>msg_fatal\<close> ends the process and is \<open>Fault\<close>, and so is a post that takes the counter,
  an \<open>int\<close>, beyond its range, which the code does not test for.
\<close>

record fiber_sem =
  sem_num :: int
  sem_async :: bool
  sem_waiting :: nat
  sem_tid :: int

subsection \<open>Operations\<close>

definition acl_fiber_sem_create2 :: "nat \<Rightarrow> int \<Rightarrow> bool \<Rightarrow> fiber_sem" where
  "acl_fiber_sem_create2 ring num async = \<lparr>sem_num = num, sem_async = async, sem_waiting = ring, sem_tid = 0\<rparr>"

definition acl_fiber_sem_set_tid :: "fiber_sem \<Rightarrow> thread \<Rightarrow> int \<Rightarrow> fiber_sem cres" where
  "acl_fiber_sem_set_tid sem th tid =
    (if sem_tid sem \<noteq> tid \<and> th_rings th (RWaiting (sem_waiting sem)) \<noteq> [] then Fault
     else Ret (sem\<lparr>sem_tid := tid\<rparr>))"

definition acl_fiber_sem_waiters_num :: "fiber_sem \<Rightarrow> thread \<Rightarrow> int" where
  "acl_fiber_sem_waiters_num sem th = int (length (th_rings th (RWaiting (sem_waiting sem))))"

definition sem_own :: "fiber_sem \<Rightarrow> int \<Rightarrow> fiber_sem" where
  "sem_own sem self = (if sem_tid sem = 0 then sem\<lparr>sem_tid := self\<rparr> else sem)"

text \<open>\<open>acl_fiber_sem_wait\<close> up to its switch; \<open>None\<close> when the fiber is suspended.\<close>

definition sem_wait_begin :: "fiber_sem \<Rightarrow> thread \<Rightarrow> int \<Rightarrow> (fiber_sem \<times> thread \<times> int option) cres" where
  "sem_wait_begin sem th self =
    (let sem = sem_own sem self in
     if sem_num sem > 0 then Ret (sem\<lparr>sem_num := sem_num sem - 1\<rparr>, th, Some (sem_num sem - 1))
     else (case th_running th of
       None \<Rightarrow> Ret (sem, th, Some (-1))
     | Some cur \<Rightarrow>
         if acl_fiber_canceled th cur
         then Ret (sem, acl_fiber_set_error th (f_errnum (th_fibers th cur)), Some (-1))
         else map_cres (\<lambda>th. (sem, th, None)) (fiber_block th cur (RWaiting (sem_waiting sem)) 256 PcSem)))"

text \<open>\<open>acl_fiber_sem_wait\<close> behind the switch: the poster has taken the token for this fiber.\<close>

definition sem_wait_resume :: "fiber_sem \<Rightarrow> thread \<Rightarrow> nat \<Rightarrow> thread \<times> int" where
  "sem_wait_resume sem th cur =
    (let th = fiber_unblock th cur 256 in
     if acl_fiber_canceled th cur then (acl_fiber_set_error th (f_errnum (th_fibers th cur)), -1)
     else (th, sem_num sem))"

definition acl_fiber_sem_trywait :: "fiber_sem \<Rightarrow> int \<Rightarrow> fiber_sem \<times> int" where
  "acl_fiber_sem_trywait sem self =
    (let sem = sem_own sem self in
     if sem_num sem > 0 then (sem\<lparr>sem_num := sem_num sem - 1\<rparr>, sem_num sem - 1) else (sem, -1))"

definition acl_fiber_sem_post :: "fiber_sem \<Rightarrow> thread \<Rightarrow> int \<Rightarrow> (fiber_sem \<times> thread \<times> int) cres" where
  "acl_fiber_sem_post sem th self =
    (let sem = sem_own sem self in if sem_num sem \<ge> INT_MAX then Fault else
     let sem = sem\<lparr>sem_num := sem_num sem + 1\<rparr> in
     case first_fiber th (RWaiting (sem_waiting sem)) of
       None \<Rightarrow> Ret (sem, th, sem_num sem)
     | Some ready \<Rightarrow>
         cbind (acl_fiber_ready (fb_ring_detach th ready) ready) (\<lambda>th.
           let num = sem_num sem; sem = sem\<lparr>sem_num := num - 1\<rparr> in
           map_cres (\<lambda>th. (sem, th, num)) (if sem_async sem then Ret th else acl_fiber_yield th)))"

subsection \<open>A semaphore and its fibers\<close>

text \<open>
  Besides the state, the bookkeeping of tokens: \<open>ss_granted\<close> are the fibers woken by a post that have
  not run yet, \<open>ss_taken\<close> counts the waits that returned a token, \<open>ss_lost\<close> the tokens granted to
  a fiber that was canceled before it ran, \<open>ss_total\<close> the initial number and the posts.
\<close>

record sem_sys =
  ss_sem :: fiber_sem
  ss_th :: thread
  ss_granted :: "nat set"
  ss_taken :: int
  ss_lost :: int
  ss_total :: int

abbreviation sem_queue :: "sem_sys \<Rightarrow> nat list" where
  "sem_queue s \<equiv> th_rings (ss_th s) (RWaiting (sem_waiting (ss_sem s)))"

definition took :: "sem_sys \<Rightarrow> int option \<Rightarrow> sem_sys" where
  "took s r = (case r of Some n \<Rightarrow> if n \<ge> 0 then s\<lparr>ss_taken := ss_taken s + 1\<rparr> else s | None \<Rightarrow> s)"

inductive sem_step :: "sem_sys \<Rightarrow> sem_sys \<Rightarrow> bool" where
  sm_env: "env_step (ss_th s) u \<Longrightarrow> sem_step s (s\<lparr>ss_th := u\<rparr>)"
| sm_wait: "th_running (ss_th s) = Some f \<Longrightarrow> th_pc (ss_th s) f = None \<Longrightarrow>
    sem_wait_begin (ss_sem s) (ss_th s) self = Ret (sem, u, r) \<Longrightarrow>
    sem_step s (took (s\<lparr>ss_sem := sem, ss_th := u\<rparr>) r)"
| sm_resume: "th_running (ss_th s) = Some f \<Longrightarrow> th_pc (ss_th s) f = Some PcSem \<Longrightarrow>
    sem_wait_resume (ss_sem s) (ss_th s) f = (u, r) \<Longrightarrow>
    sem_step s ((took (s\<lparr>ss_th := u\<rparr>) (Some r))\<lparr>ss_granted := ss_granted s - {f},
      ss_lost := (if r < 0 \<and> f \<in> ss_granted s then ss_lost s + 1 else ss_lost s)\<rparr>)"
| sm_try: "acl_fiber_sem_trywait (ss_sem s) self = (sem, r) \<Longrightarrow> sem_step s (took (s\<lparr>ss_sem := sem\<rparr>) (Some r))"
| sm_post: "th_running (ss_th s) = Some f \<Longrightarrow> th_pc (ss_th s) f = None \<Longrightarrow>
    acl_fiber_sem_post (ss_sem s) (ss_th s) self = Ret (sem, u, r) \<Longrightarrow>
    sem_step s (s\<lparr>ss_sem := sem, ss_th := u, ss_total := ss_total s + 1,
      ss_granted := ss_granted s \<union> set (take 1 (sem_queue s))\<rparr>)"

definition sem_init :: "sem_sys \<Rightarrow> bool" where
  "sem_init s \<longleftrightarrow> sched_ok (ss_th s) \<and> (\<forall>f. th_pc (ss_th s) f = None) \<and> th_waiter (ss_th s) = 0
     \<and> (\<exists>n num async. num \<ge> 0 \<and> num \<le> INT_MAX \<and> ss_sem s = acl_fiber_sem_create2 n num async
          \<and> th_rings (ss_th s) (RWaiting n) = [] \<and> ss_total s = num)
     \<and> ss_granted s = {} \<and> ss_taken s = 0 \<and> ss_lost s = 0"

definition sem_inv :: "sem_sys \<Rightarrow> bool" where
  "sem_inv s \<longleftrightarrow> sched_ok (ss_th s) \<and> calls_ok (ss_th s)
     \<and> (\<forall>f. th_pc (ss_th s) f \<in> {None, Some PcSem})
     \<and> (\<forall>f \<in> set (sem_queue s). th_pc (ss_th s) f = Some PcSem \<and> f \<notin> ss_granted s)
     \<and> (\<forall>f \<in> ss_granted s. th_pc (ss_th s) f = Some PcSem)
     \<and> (\<forall>f. th_pc (ss_th s) f = Some PcSem \<longrightarrow> f \<in> set (sem_queue s)
          \<or> runnable (ss_th s) f \<and> (f \<in> ss_granted s \<or> acl_fiber_canceled (ss_th s) f))
     \<and> sem_num (ss_sem s) \<ge> 0 \<and> (sem_num (ss_sem s) > 0 \<longrightarrow> sem_queue s = []) \<and> finite (ss_granted s)
     \<and> sem_num (ss_sem s) \<le> INT_MAX
     \<and> sem_num (ss_sem s) + ss_taken s + ss_lost s + int (card (ss_granted s)) = ss_total s
     \<and> ss_taken s \<ge> 0 \<and> ss_lost s \<ge> 0"

lemma sem_invD:
  assumes "sem_inv s"
  shows "sched_ok (ss_th s)" "calls_ok (ss_th s)" "th_pc (ss_th s) f = None \<or> th_pc (ss_th s) f = Some PcSem"
    "f \<in> set (sem_queue s) \<Longrightarrow> th_pc (ss_th s) f = Some PcSem \<and> f \<notin> ss_granted s"
    "f \<in> ss_granted s \<Longrightarrow> th_pc (ss_th s) f = Some PcSem"
    "th_pc (ss_th s) f = Some PcSem \<Longrightarrow> f \<in> set (sem_queue s)
       \<or> runnable (ss_th s) f \<and> (f \<in> ss_granted s \<or> acl_fiber_canceled (ss_th s) f)"
    "sem_num (ss_sem s) \<ge> 0" "sem_num (ss_sem s) > 0 \<Longrightarrow> sem_queue s = []" "finite (ss_granted s)"
    "sem_num (ss_sem s) + ss_taken s + ss_lost s + int (card (ss_granted s)) = ss_total s"
    "ss_taken s \<ge> 0" "ss_lost s \<ge> 0" "sem_num (ss_sem s) \<le> INT_MAX"
  using assms by (auto simp: sem_inv_def)

lemma sem_own_simps [simp]:
  "sem_num (sem_own sem self) = sem_num sem" "sem_waiting (sem_own sem self) = sem_waiting sem"
  "sem_async (sem_own sem self) = sem_async sem"
  by (simp_all add: sem_own_def)

lemma took_simps [simp]:
  "ss_sem (took s r) = ss_sem s" "ss_th (took s r) = ss_th s" "ss_granted (took s r) = ss_granted s"
  "ss_lost (took s r) = ss_lost s" "ss_total (took s r) = ss_total s"
  "ss_taken (took s None) = ss_taken s" "ss_taken (took s (Some n)) = (if n \<ge> 0 then ss_taken s + 1 else ss_taken s)"
  by (auto simp: took_def split: option.splits)

lemma sem_inv_init: "sem_init s \<Longrightarrow> sem_inv s"
  by (auto simp: sem_init_def sem_inv_def acl_fiber_sem_create2_def calls_ok_def)

lemma sem_inv_env:
  assumes "sem_inv s" "env_step (ss_th s) u"
  shows "sem_inv (s\<lparr>ss_th := u\<rparr>)"
proof -
  note inv = sem_invD [OF assms(1)]
  have e: "env_ok (ss_th s) u" by (rule env_step_ok [OF assms(2) inv(1)])
  then have u: "sched_ok u" "th_pc u = th_pc (ss_th s)" "th_waiter u = th_waiter (ss_th s)"
    "\<And>f. th_pc (ss_th s) f \<noteq> None \<Longrightarrow> runnable (ss_th s) f \<Longrightarrow> runnable u f"
    "\<And>f. th_pc (ss_th s) f \<noteq> None \<Longrightarrow> acl_fiber_canceled (ss_th s) f \<Longrightarrow> acl_fiber_canceled u f"
    by (auto simp: env_ok_def)
  note w = env_ok_waiting [OF e, where n = "sem_waiting (ss_sem s)"]
  have "f \<in> set (th_rings u (RWaiting (sem_waiting (ss_sem s))))
      \<or> runnable u f \<and> (f \<in> ss_granted s \<or> acl_fiber_canceled u f)"
    if "th_pc (ss_th s) f = Some PcSem" for f
    using that inv(6) [of f] w(2) [of f] u(4,5) [of f] by auto
  moreover have "sem_num (ss_sem s) > 0 \<Longrightarrow> th_rings u (RWaiting (sem_waiting (ss_sem s))) = []"
    using inv(8) w(1) by auto
  ultimately show ?thesis
    using u(1-3) w(1) inv(3-5,7,9-13) calls_ok_same [OF inv(2) u(2,3)] by (auto simp: sem_inv_def)
qed

text \<open>A token taken at once, and a wait or a trial refused, changes the counters only.\<close>

lemma sem_inv_counts:
  assumes "sem_inv s" "sched_ok u" "th_pc u = th_pc (ss_th s)" "th_waiter u = th_waiter (ss_th s)"
    "th_rings u = th_rings (ss_th s)" "th_running u = th_running (ss_th s)" "same_flags (ss_th s) u"
    "sem_waiting sem = sem_waiting (ss_sem s)" "sem_num sem = sem_num (ss_sem s) - d" "0 \<le> d" "d \<le> sem_num (ss_sem s)"
    "t = s\<lparr>ss_sem := sem, ss_th := u, ss_taken := ss_taken s + d\<rparr>"
  shows "sem_inv t"
proof -
  have "runnable u f = runnable (ss_th s) f" for f using assms(5,6) by (simp add: runnable_def)
  then show ?thesis
    using assms calls_ok_same [OF _ assms(3,4)] same_flags_canceled [OF assms(7)] by (simp add: sem_inv_def)
qed

lemma sem_inv_block:
  assumes inv: "sem_inv s" and run: "th_running (ss_th s) = Some f" and pc: "th_pc (ss_th s) f = None"
    and none: "\<not> sem_num (ss_sem s) > 0" and sem: "sem_waiting sem = sem_waiting (ss_sem s)" "sem_num sem = sem_num (ss_sem s)"
    and b: "fiber_block (ss_th s) f (RWaiting (sem_waiting (ss_sem s))) 256 PcSem = Ret u"
  shows "sem_inv (s\<lparr>ss_sem := sem, ss_th := u\<rparr>)"
proof -
  note i = sem_invD [OF inv]
  obtain v where v: "fiber_block (ss_th s) f (RWaiting (sem_waiting (ss_sem s))) 256 PcSem = Ret v" "sched_ok v"
    "th_pc v = (th_pc (ss_th s))(f := Some PcSem)"
    "th_waiter v = th_waiter (ss_th s) + 1" "same_flags (ss_th s) v"
    "\<And>m. th_rings v (RWaiting m) = th_rings (ss_th s) (RWaiting m) @ (if m = sem_waiting (ss_sem s) then [f] else [])"
    "\<And>g. runnable v g \<longleftrightarrow> g \<noteq> f \<and> runnable (ss_th s) g"
    "th_running v = (case th_rings (ss_th s) RReady of [] \<Rightarrow> None | f # _ \<Rightarrow> Some f)"
    by (rule block_Ret [OF i(1) run], rule that)
  have "u = v" using b v(1) by simp
  moreover have "acl_fiber_canceled v g = acl_fiber_canceled (ss_th s) g" for g by (rule same_flags_canceled [OF v(5)])
  moreover have "f \<notin> ss_granted s" using i(5) [of f] pc by auto
  ultimately show ?thesis
    using i(3-7,9-13) v(2,3,6,7) none sem pc calls_ok_block [OF i(2) pc v(3,4)] by (auto simp: sem_inv_def)
qed

lemma sem_inv_wait:
  assumes inv: "sem_inv s" and run: "th_running (ss_th s) = Some f" and pc: "th_pc (ss_th s) f = None"
    and b: "sem_wait_begin (ss_sem s) (ss_th s) self = Ret (sem, u, r)"
  shows "sem_inv (took (s\<lparr>ss_sem := sem, ss_th := u\<rparr>) r)"
proof -
  note i = sem_invD [OF inv]
  consider (take) "sem_num (ss_sem s) > 0"
    | (refuse) "\<not> sem_num (ss_sem s) > 0" "acl_fiber_canceled (ss_th s) f"
    | (block) "\<not> sem_num (ss_sem s) > 0" "\<not> acl_fiber_canceled (ss_th s) f" by blast
  then show ?thesis
  proof cases
    case take
    then show ?thesis
      using b by (intro sem_inv_counts [OF inv i(1), of sem 1])
        (auto simp: sem_wait_begin_def Let_def took_def same_flags_def)
  next
    case refuse
    then have "sched_ok u" using b run sched_ok_upd(4) [OF i(1), of "\<lambda>b. b"]
      by (auto simp: sem_wait_begin_def Let_def acl_fiber_set_error_def)
    then show ?thesis
      using refuse b run i(7) by (intro sem_inv_counts [OF inv, of u sem 0])
        (auto simp: sem_wait_begin_def Let_def took_def same_flags_def acl_fiber_set_error_def)
  next
    case block
    obtain v where v: "fiber_block (ss_th s) f (RWaiting (sem_waiting (ss_sem s))) 256 PcSem = Ret v"
      using block_Ret [OF i(1) run] .
    then have "sem = sem_own (ss_sem s) self" "u = v" "r = None"
      using b block run by (auto simp: sem_wait_begin_def Let_def)
    then show ?thesis using sem_inv_block [OF inv run pc block(1) _ _ v, of sem] by (simp add: took_def)
  qed
qed

lemma sem_inv_try:
  assumes inv: "sem_inv s" and b: "acl_fiber_sem_trywait (ss_sem s) self = (sem, r)"
  shows "sem_inv (took (s\<lparr>ss_sem := sem\<rparr>) (Some r))"
proof (cases "sem_num (ss_sem s) > 0")
  case True
  then show ?thesis
    using b by (intro sem_inv_counts [OF inv sem_invD(1) [OF inv], of sem 1])
      (auto simp: acl_fiber_sem_trywait_def Let_def took_def same_flags_def)
next
  case False
  then show ?thesis
    using b sem_invD(7) [OF inv] by (intro sem_inv_counts [OF inv sem_invD(1) [OF inv], of sem 0])
      (auto simp: acl_fiber_sem_trywait_def Let_def took_def same_flags_def)
qed

lemma sem_inv_resume:
  assumes inv: "sem_inv s" and run: "th_running (ss_th s) = Some f" and pc: "th_pc (ss_th s) f = Some PcSem"
    and r: "sem_wait_resume (ss_sem s) (ss_th s) f = (u, r)"
  shows "sem_inv ((took (s\<lparr>ss_th := u\<rparr>) (Some r))\<lparr>ss_granted := ss_granted s - {f},
      ss_lost := (if r < 0 \<and> f \<in> ss_granted s then ss_lost s + 1 else ss_lost s)\<rparr>)"
proof -
  note i = sem_invD [OF inv]
  let ?v = "fiber_unblock (ss_th s) f 256"
  note v = unblock_ok [OF i(1) run refl, of 256]
  have e: "sched_ok u" "th_pc u = th_pc ?v" "th_waiter u = th_waiter ?v" "th_rings u = th_rings ?v"
    "runnable u g = runnable ?v g" "acl_fiber_canceled u g = acl_fiber_canceled ?v g" for g
    using r sched_ok_upd(4) [OF v(1), of "\<lambda>b. b"]
    by (auto simp: sem_wait_resume_def Let_def acl_fiber_set_error_def runnable_def acl_fiber_canceled_def v(1) split: if_splits)
  have c: "acl_fiber_canceled u g = acl_fiber_canceled (ss_th s) g" for g
    using same_flags_canceled [OF v(4)] e(6) by simp
  have r0: "r < 0 \<longleftrightarrow> acl_fiber_canceled (ss_th s) f"
    using r i(7) same_flags_canceled [OF v(4)] by (auto simp: sem_wait_resume_def Let_def split: if_splits)
  have fq: "f \<notin> set (sem_queue s)" using sched_ok_member(5) [OF i(1) run] by simp
  have fg: "f \<in> ss_granted s \<or> acl_fiber_canceled (ss_th s) f" using i(6) [OF pc] fq by blast
  have card: "int (card (ss_granted s - {f})) = int (card (ss_granted s)) - (if f \<in> ss_granted s then 1 else 0)"
  proof (cases "f \<in> ss_granted s")
    case True
    then show ?thesis using card_Suc_Diff1 [OF i(9) True] by simp
  qed simp
  have "calls_ok u" using calls_ok_unblock [OF i(2), of f u] pc e(2,3) v(2,3) by simp
  moreover have "g \<in> set (sem_queue s) \<or> runnable u g \<and> (g \<in> ss_granted s \<or> acl_fiber_canceled u g)"
    if "g \<noteq> f" "th_pc (ss_th s) g = Some PcSem" for g
    using i(6) [OF that(2)] e(5) [of g] v(7) [of g] c by simp
  moreover have "g \<in> ss_granted s - {f} \<Longrightarrow> th_pc u g = Some PcSem" for g
    using i(5) [of g] e(2) v(2) by auto
  ultimately show ?thesis
    using i(3,4,7-13) e(1-4) v(2,5) r0 fg fq card by (auto simp: sem_inv_def)
qed

lemma sem_inv_post:
  assumes inv: "sem_inv s" and run: "th_running (ss_th s) = Some f"
    and r: "acl_fiber_sem_post (ss_sem s) (ss_th s) self = Ret (sem, u, r)"
  shows "sem_inv (s\<lparr>ss_sem := sem, ss_th := u, ss_total := ss_total s + 1,
      ss_granted := ss_granted s \<union> set (take 1 (sem_queue s))\<rparr>)"
proof -
  note i = sem_invD [OF inv]
  show ?thesis
  proof (cases "sem_queue s")
    case Nil
    then have "sem = (sem_own (ss_sem s) self)\<lparr>sem_num := sem_num (ss_sem s) + 1\<rparr>" "u = ss_th s" "sem_num (ss_sem s) < INT_MAX"
      using r by (auto simp: acl_fiber_sem_post_def first_fiber_def Let_def split: if_splits)
    then show ?thesis using inv Nil by (auto simp: sem_inv_def)
  next
    case (Cons g gs)
    obtain w where w: "acl_fiber_ready (fb_ring_detach (ss_th s) g) g = Ret w"
      "sched_ok w" "th_pc w = th_pc (ss_th s)" "th_waiter w = th_waiter (ss_th s)" "same_flags (ss_th s) w"
      "\<And>m. th_rings w (RWaiting m) = (if m = sem_waiting (ss_sem s) then gs else th_rings (ss_th s) (RWaiting m))"
      "\<And>h. runnable w h \<longleftrightarrow> h = g \<or> runnable (ss_th s) h" "th_running w = th_running (ss_th s)"
      by (rule handover_async_Ret [OF i(1) Cons], rule that)
    obtain v where v: "cbind (acl_fiber_ready (fb_ring_detach (ss_th s) g) g) acl_fiber_yield = Ret v"
      "sched_ok v" "th_pc v = th_pc (ss_th s)" "th_waiter v = th_waiter (ss_th s)" "same_flags (ss_th s) v"
      "\<And>m. th_rings v (RWaiting m) = (if m = sem_waiting (ss_sem s) then gs else th_rings (ss_th s) (RWaiting m))"
      "\<And>h. runnable v h \<longleftrightarrow> h = g \<or> runnable (ss_th s) h"
      by (rule handover_Ret [OF i(1) run Cons], rule that)
    have sem: "sem_num sem = sem_num (ss_sem s)" "sem_waiting sem = sem_waiting (ss_sem s)" "u = w \<or> u = v"
      using r Cons w(1) v(1) by (auto simp: acl_fiber_sem_post_def first_fiber_def Let_def map_cres_def split: if_splits)
    from sem(3) have u: "sched_ok u" "th_pc u = th_pc (ss_th s)" "th_waiter u = th_waiter (ss_th s)" "same_flags (ss_th s) u"
      "th_rings u (RWaiting (sem_waiting (ss_sem s))) = gs" "runnable u h \<longleftrightarrow> h = g \<or> runnable (ss_th s) h" for h
      using w v by auto
    have g: "g \<notin> ss_granted s" "th_pc (ss_th s) g = Some PcSem" using i(4) [of g] Cons by auto
    have "g \<notin> set gs" using sched_ok_member(2) [OF i(1), of "RWaiting (sem_waiting (ss_sem s))"] Cons by simp
    moreover have "acl_fiber_canceled u h = acl_fiber_canceled (ss_th s) h" for h by (rule same_flags_canceled [OF u(4)])
    moreover have "h \<in> set gs \<or> (h = g \<or> runnable (ss_th s) h) \<and> (h = g \<or> h \<in> ss_granted s \<or> acl_fiber_canceled (ss_th s) h)"
      if "th_pc (ss_th s) h = Some PcSem" for h
      using i(6) [OF that] Cons by auto
    moreover have "sem_num (ss_sem s) = 0" using i(7,8) Cons by force
    moreover have "card (insert g (ss_granted s)) = Suc (card (ss_granted s))" using i(9) g(1) by simp
    ultimately show ?thesis
      using i(3-5,9-13) sem(1,2) u(1,2,5,6) g Cons calls_ok_same [OF i(2) u(2,3)] by (auto simp: sem_inv_def)
  qed
qed

text \<open>Nothing but the range of the counter stops a post.\<close>

lemma sem_post_Ret:
  assumes inv: "sem_inv s" and run: "th_running (ss_th s) = Some f" and max: "sem_num (ss_sem s) < INT_MAX"
  shows "acl_fiber_sem_post (ss_sem s) (ss_th s) self \<noteq> Fault"
proof (cases "sem_queue s")
  case Nil
  then show ?thesis using max by (simp add: acl_fiber_sem_post_def first_fiber_def Let_def)
next
  case (Cons g gs)
  obtain w where w: "acl_fiber_ready (fb_ring_detach (ss_th s) g) g = Ret w"
    by (rule handover_async_Ret [OF sem_invD(1) [OF inv] Cons], rule that)
  obtain v where v: "cbind (acl_fiber_ready (fb_ring_detach (ss_th s) g) g) acl_fiber_yield = Ret v"
    by (rule handover_Ret [OF sem_invD(1) [OF inv] run Cons], rule that)
  show ?thesis using Cons w v max by (simp add: acl_fiber_sem_post_def first_fiber_def Let_def)
qed

lemma sem_inv_step: "sem_step s t \<Longrightarrow> sem_inv s \<Longrightarrow> sem_inv t"
  by (induction rule: sem_step.induct)
    (simp_all only: sem_inv_env sem_inv_wait sem_inv_try sem_inv_resume sem_inv_post)

interpretation smp: sync_object sem_init sem_step sem_inv
  by unfold_locales (auto intro: sem_inv_init sem_inv_step)

subsection \<open>Properties\<close>

text \<open>
  C35: On a semaphore created with a number from 0 to the largest \<open>int\<close> the counter stays in that range, and
  is positive only while nobody waits; every token is accounted for: those in the counter, those handed out,
  those granted to a fiber that has still to run and those lost make up the initial number and the posts. A
  suspended fiber is queued with no token left, or scheduled to run with a token granted or killed. A post
  goes through unless the counter is at the end of its range.
\<close>

theorem sem_safe:
  assumes "sem_init s0" "sem_step\<^sup>*\<^sup>* s0 s"
  shows "0 \<le> sem_num (ss_sem s) \<and> sem_num (ss_sem s) \<le> INT_MAX \<and> (sem_num (ss_sem s) > 0 \<longrightarrow> sem_queue s = [])
    \<and> ss_taken s + ss_lost s + int (card (ss_granted s)) + sem_num (ss_sem s) = ss_total s
    \<and> ss_taken s \<le> ss_total s
    \<and> (\<forall>f. th_pc (ss_th s) f = Some PcSem \<longrightarrow>
         f \<in> set (sem_queue s) \<and> sem_num (ss_sem s) = 0
         \<or> runnable (ss_th s) f \<and> (f \<in> ss_granted s \<or> acl_fiber_canceled (ss_th s) f))
    \<and> (\<forall>f self. th_running (ss_th s) = Some f \<and> sem_num (ss_sem s) < INT_MAX \<longrightarrow> acl_fiber_sem_post (ss_sem s) (ss_th s) self \<noteq> Fault)"
proof -
  note inv = smp.reach_inv [OF assms]
  note i = sem_invD [OF inv]
  have queued: "sem_num (ss_sem s) = 0" if "f \<in> set (sem_queue s)" for f
    using i(7,8) that by (cases "sem_num (ss_sem s) > 0") auto
  have "ss_taken s \<le> ss_total s" using i(7,10,12) by linarith
  moreover have "ss_taken s + ss_lost s + int (card (ss_granted s)) + sem_num (ss_sem s) = ss_total s" using i(10) by linarith
  moreover have "f \<in> set (sem_queue s) \<and> sem_num (ss_sem s) = 0 \<or> runnable (ss_th s) f \<and> (f \<in> ss_granted s \<or> acl_fiber_canceled (ss_th s) f)"
    if "th_pc (ss_th s) f = Some PcSem" for f using i(6) [OF that] queued [of f] by blast
  ultimately show ?thesis using i(7,8,13) sem_post_Ret [OF inv] by blast
qed

text \<open>
  A post with a fiber waiting grants its token to the one that has waited longest and leaves the
  counter as it was; the granted fiber then returns with the token unless it was canceled, in which
  case it returns \<open>-1\<close> and the token is lost.
\<close>

theorem sem_post_grants:
  assumes "sem_init s0" "sem_step\<^sup>*\<^sup>* s0 s" "th_running (ss_th s) = Some f" "sem_queue s = g # gs"
  shows "\<exists>sem u. acl_fiber_sem_post (ss_sem s) (ss_th s) self = Ret (sem, u, sem_num (ss_sem s) + 1)
    \<and> sem_num sem = sem_num (ss_sem s) \<and> th_rings u (RWaiting (sem_waiting sem)) = gs \<and> runnable u g
    \<and> (\<forall>v. snd (sem_wait_resume sem v g) = (if acl_fiber_canceled v g then -1 else sem_num sem))"
proof -
  note i = sem_invD [OF smp.reach_inv [OF assms(1,2)]]
  obtain w where w: "acl_fiber_ready (fb_ring_detach (ss_th s) g) g = Ret w"
    "sched_ok w" "th_pc w = th_pc (ss_th s)" "th_waiter w = th_waiter (ss_th s)" "same_flags (ss_th s) w"
    "\<And>m. th_rings w (RWaiting m) = (if m = sem_waiting (ss_sem s) then gs else th_rings (ss_th s) (RWaiting m))"
    "\<And>h. runnable w h \<longleftrightarrow> h = g \<or> runnable (ss_th s) h" "th_running w = th_running (ss_th s)"
    by (rule handover_async_Ret [OF i(1) assms(4)], rule that)
  obtain v where v: "cbind (acl_fiber_ready (fb_ring_detach (ss_th s) g) g) acl_fiber_yield = Ret v"
    "sched_ok v" "th_pc v = th_pc (ss_th s)" "th_waiter v = th_waiter (ss_th s)" "same_flags (ss_th s) v"
    "\<And>m. th_rings v (RWaiting m) = (if m = sem_waiting (ss_sem s) then gs else th_rings (ss_th s) (RWaiting m))"
    "\<And>h. runnable v h \<longleftrightarrow> h = g \<or> runnable (ss_th s) h"
    by (rule handover_Ret [OF i(1) assms(3,4)], rule that)
  have "snd (sem_wait_resume sem x g) = (if acl_fiber_canceled x g then -1 else sem_num sem)" for sem x
  proof -
    have "f_flag (th_fibers (fiber_unblock x g 256) g) = f_flag (th_fibers x g)"
      by (simp add: fiber_unblock_def Let_def)
    then show ?thesis by (simp add: sem_wait_resume_def acl_fiber_canceled_def Let_def)
  qed
  moreover have "sem_num (ss_sem s) < INT_MAX" using i(7,8) assms(4) by (force simp: INT_MAX_def)
  ultimately show ?thesis
    using assms(4) w v by (cases "sem_async (ss_sem s)") (simp_all add: acl_fiber_sem_post_def first_fiber_def Let_def)
qed

lemma sem_post_overflow: "sem_num sem = INT_MAX \<Longrightarrow> acl_fiber_sem_post sem th self = Fault"
  by (simp add: acl_fiber_sem_post_def)

text \<open>
  Fiber 1 runs; fiber 2 waits for a semaphore without tokens.
\<close>

lemma sem_demo:
  "\<exists>s0 s. sem_init s0 \<and> sem_step\<^sup>*\<^sup>* s0 s \<and> sem_queue s = [2] \<and> sem_num (ss_sem s) = 0 \<and> th_running (ss_th s) = Some 1"
proof -
  let ?sem = "\<lparr>sem_num = 0, sem_async = False, sem_waiting = 0, sem_tid = 0\<rparr>"
  define st where "st sem u = \<lparr>ss_sem = sem, ss_th = u, ss_granted = {}, ss_taken = 0, ss_lost = 0, ss_total = 0\<rparr>" for sem u
  note d = demo_thread
  have init: "sem_init (st ?sem demo_thread)"
    unfolding sem_init_def
    by (intro conjI exI [of _ 0] exI [of _ "0 :: int"] exI [of _ False]) (simp_all add: INT_MAX_def d st_def acl_fiber_sem_create2_def)
  obtain u where u: "acl_fiber_yield demo_thread = Ret u" "sched_ok u" "th_pc u = th_pc demo_thread"
    "th_waiter u = th_waiter demo_thread" "th_errno u = th_errno demo_thread" "same_flags demo_thread u"
    "\<And>n. th_rings u (RWaiting n) = th_rings demo_thread (RWaiting n)" "\<And>f. runnable u f = runnable demo_thread f"
    "th_running u = Some (hd (th_rings demo_thread RReady @ [1]))"
    by (rule yield_Ret [OF d(1,2)], rule that)
  have 1: "sem_step (st ?sem demo_thread) (st ?sem u)"
    using sm_env [of "st ?sem demo_thread" u] env_yield [OF d(2,4) u(1)] by (simp add: st_def)
  have run: "th_running u = Some 2" using u(9) d(3) by simp
  have nc: "\<not> acl_fiber_canceled u 2"
    using same_flags_canceled [OF u(6)] by (simp add: acl_fiber_canceled_def demo_thread_def)
  obtain v where v: "fiber_block u 2 (RWaiting 0) 256 PcSem = Ret v" "sched_ok v" "th_pc v = (th_pc u)(2 := Some PcSem)"
    "th_waiter v = th_waiter u + 1" "same_flags u v"
    "\<And>m. th_rings v (RWaiting m) = th_rings u (RWaiting m) @ (if m = 0 then [2] else [])"
    "\<And>f. runnable v f \<longleftrightarrow> f \<noteq> 2 \<and> runnable u f"
    "th_running v = (case th_rings u RReady of [] \<Rightarrow> None | f # _ \<Rightarrow> Some f)"
    by (rule block_Ret [OF u(2) run], rule that)
  have "sem_step (st ?sem u) (st ?sem v)"
    using sm_wait [of "st ?sem u" 2 0 ?sem v None] run d(4) v(1) u(3) nc
    by (simp add: st_def sem_wait_begin_def sem_own_def took_def)
  then have "sem_step\<^sup>*\<^sup>* (st ?sem demo_thread) (st ?sem v)"
    using 1 by (meson converse_rtranclp_into_rtranclp rtranclp.rtrancl_refl)
  moreover have "f \<in> set (th_rings u RReady) \<longleftrightarrow> f = 1" for f
    using u(8) [of f] run sched_ok_member(5) [OF u(2) run, of RReady] d(2,3) by (cases "f = 2") (auto simp: runnable_def)
  then have "th_running v = Some 1" using v(8) by (cases "th_rings u RReady") auto
  ultimately show ?thesis using init v(6) u(7) d(6) by (intro exI conjI) (auto simp: st_def)
qed

theorem sem_safe_witness: "\<exists>s. sem_queue s = [2] \<and> sem_num (ss_sem s) \<ge> 0 \<and> ss_taken s \<le> ss_total s"
proof -
  obtain s0 s where s: "sem_init s0" "sem_step\<^sup>*\<^sup>* s0 s" "sem_queue s = [2]" using sem_demo by blast
  show ?thesis using sem_safe [OF s(1,2)] s(3) by blast
qed

theorem sem_post_grants_witness:
  "\<exists>s sem u. sem_queue s = [2] \<and> acl_fiber_sem_post (ss_sem s) (ss_th s) 7 = Ret (sem, u, 1) \<and> runnable u 2"
proof -
  obtain s0 s where s: "sem_init s0" "sem_step\<^sup>*\<^sup>* s0 s" "sem_queue s = [2]" "sem_num (ss_sem s) = 0"
    "th_running (ss_th s) = Some 1" using sem_demo by blast
  show ?thesis using sem_post_grants [OF s(1,2,5,3), of 7] s(3,4) by fastforce
qed

end
