(* ===== verification/Fiber_Rwlock.thy ===== *)
theory Fiber_Rwlock
  imports Fiber_Sched
begin

text \<open>
  The read-write lock of \<open>lib_fiber/c/src/sync/fiber_lock.c\<close>: the number of readers, the writer and
  a ring of waiting fibers for each. Where the code detaches the head of a ring before it wakes the
  ring's first fiber nothing happens (\<open>ring_detach_spec\<close>); \<open>acl_fiber_ready\<close> unlinks the fiber.
\<close>

record fiber_rwlock =
  rw_readers :: int
  rw_writer :: "nat option"
  rw_rwaiting :: nat
  rw_wwaiting :: nat

subsection \<open>Operations\<close>

definition acl_fiber_rwlock_create :: "nat \<Rightarrow> nat \<Rightarrow> fiber_rwlock" where
  "acl_fiber_rwlock_create r w = \<lparr>rw_readers = 0, rw_writer = None, rw_rwaiting = r, rw_wwaiting = w\<rparr>"

definition rlock_begin :: "fiber_rwlock \<Rightarrow> thread \<Rightarrow> bool \<Rightarrow> (fiber_rwlock \<times> thread \<times> int option) cres" where
  "rlock_begin lk th block =
    (if rw_writer lk = None \<and> first_fiber th (RWaiting (rw_wwaiting lk)) = None
     then Ret (lk\<lparr>rw_readers := rw_readers lk + 1\<rparr>, th, Some 0)
     else if \<not> block then Ret (lk, th, Some (-1))
     else (case th_running th of None \<Rightarrow> Fault
       | Some cur \<Rightarrow> map_cres (\<lambda>th. (lk, th, None)) (fiber_block th cur (RWaiting (rw_rwaiting lk)) 128 PcRlock)))"

definition wlock_begin :: "fiber_rwlock \<Rightarrow> thread \<Rightarrow> bool \<Rightarrow> (fiber_rwlock \<times> thread \<times> int option) cres" where
  "wlock_begin lk th block =
    (if rw_writer lk = None \<and> rw_readers lk = 0
     then Ret (lk\<lparr>rw_writer := th_running th\<rparr>, th, Some 0)
     else if \<not> block then Ret (lk, th, Some (-1))
     else (case th_running th of None \<Rightarrow> Fault
       | Some cur \<Rightarrow> map_cres (\<lambda>th. (lk, th, None)) (fiber_block th cur (RWaiting (rw_wwaiting lk)) 128 PcWlock)))"

text \<open>\<open>__rlock\<close> and \<open>__wlock\<close> have the same text behind their switch.\<close>

definition rwlock_resume :: "thread \<Rightarrow> nat \<Rightarrow> thread \<times> int" where
  "rwlock_resume th cur =
    (let th = fiber_unblock th cur 128 in
     if acl_fiber_canceled th cur then (acl_fiber_set_error th (f_errnum (th_fibers th cur)), -1)
     else (th, 0))"

definition acl_fiber_rwlock_runlock :: "fiber_rwlock \<Rightarrow> thread \<Rightarrow> (fiber_rwlock \<times> thread) cres" where
  "acl_fiber_rwlock_runlock lk th =
    (let lk = lk\<lparr>rw_readers := rw_readers lk - 1\<rparr> in
     if rw_readers lk \<noteq> 0 then Ret (lk, th)
     else (case first_fiber th (RWaiting (rw_wwaiting lk)) of
         None \<Rightarrow> Ret (lk, th)
       | Some f \<Rightarrow> map_cres (\<lambda>th. (lk\<lparr>rw_writer := Some f\<rparr>, th)) (cbind (acl_fiber_ready th f) acl_fiber_yield)))"

text \<open>
  The loop that wakes all waiting readers. It ends because waking unlinks a fiber; the fuel is one
  more than the fibers that wait, and running out of it is \<open>Fault\<close>.
\<close>

fun wake_readers :: "nat \<Rightarrow> fiber_rwlock \<Rightarrow> thread \<Rightarrow> nat \<Rightarrow> (fiber_rwlock \<times> thread \<times> nat) cres" where
  "wake_readers 0 lk th n = Fault"
| "wake_readers (Suc fuel) lk th n =
    (case first_fiber th (RWaiting (rw_rwaiting lk)) of
       None \<Rightarrow> Ret (lk, th, n)
     | Some f \<Rightarrow> cbind (acl_fiber_ready th f) (\<lambda>th.
         wake_readers fuel (lk\<lparr>rw_readers := rw_readers lk + 1\<rparr>) th (n + 1)))"

definition acl_fiber_rwlock_wunlock :: "fiber_rwlock \<Rightarrow> thread \<Rightarrow> (fiber_rwlock \<times> thread) cres" where
  "acl_fiber_rwlock_wunlock lk th =
    (if rw_writer lk = None then Fault
     else
       (let lk = lk\<lparr>rw_writer := None\<rparr> in
        if rw_readers lk \<noteq> 0 then Fault
        else
          cbind (wake_readers (Suc (length (th_rings th (RWaiting (rw_rwaiting lk))))) lk th 0) (\<lambda>(lk, th, n).
          cbind (if rw_readers lk = 0
                 then (case first_fiber th (RWaiting (rw_wwaiting lk)) of
                         None \<Rightarrow> Ret (lk, th, n)
                       | Some f \<Rightarrow> map_cres (\<lambda>th. (lk\<lparr>rw_writer := Some f\<rparr>, th, n + 1)) (acl_fiber_ready th f))
                 else Ret (lk, th, n)) (\<lambda>(lk, th, n).
          map_cres (\<lambda>th. (lk, th)) (if n > 0 then acl_fiber_yield th else Ret th)))))"

subsection \<open>A read-write lock and its fibers\<close>

text \<open>
  \<open>rs_rin\<close> and \<open>rs_win\<close> are the fibers that were told they read or write, \<open>rs_granted\<close> the readers woken
  by an unlock that have not run yet; \<open>rs_lost\<close> counts those of them that were canceled before they
  ran. A fiber locks only when it has no lock and unlocks only what it has.
\<close>

record rw_sys =
  rs_lock :: fiber_rwlock
  rs_th :: thread
  rs_rin :: "nat set"
  rs_win :: "nat set"
  rs_granted :: "nat set"
  rs_lost :: int

abbreviation rqueue :: "rw_sys \<Rightarrow> nat list" where
  "rqueue s \<equiv> th_rings (rs_th s) (RWaiting (rw_rwaiting (rs_lock s)))"

abbreviation wqueue :: "rw_sys \<Rightarrow> nat list" where
  "wqueue s \<equiv> th_rings (rs_th s) (RWaiting (rw_wwaiting (rs_lock s)))"

inductive rw_step :: "rw_sys \<Rightarrow> rw_sys \<Rightarrow> bool" where
  rw_env: "env_step (rs_th s) u \<Longrightarrow> rw_step s (s\<lparr>rs_th := u\<rparr>)"
| rw_rlock: "th_running (rs_th s) = Some f \<Longrightarrow> th_pc (rs_th s) f = None \<Longrightarrow> f \<notin> rs_rin s \<union> rs_win s \<Longrightarrow>
    rlock_begin (rs_lock s) (rs_th s) block = Ret (lk, u, r) \<Longrightarrow>
    rw_step s (s\<lparr>rs_lock := lk, rs_th := u, rs_rin := (if r = Some 0 then insert f (rs_rin s) else rs_rin s)\<rparr>)"
| rw_wlock: "th_running (rs_th s) = Some f \<Longrightarrow> th_pc (rs_th s) f = None \<Longrightarrow> f \<notin> rs_rin s \<union> rs_win s \<Longrightarrow>
    wlock_begin (rs_lock s) (rs_th s) block = Ret (lk, u, r) \<Longrightarrow>
    rw_step s (s\<lparr>rs_lock := lk, rs_th := u, rs_win := (if r = Some 0 then insert f (rs_win s) else rs_win s)\<rparr>)"
| rw_rresume: "th_running (rs_th s) = Some f \<Longrightarrow> th_pc (rs_th s) f = Some PcRlock \<Longrightarrow>
    rwlock_resume (rs_th s) f = (u, r) \<Longrightarrow>
    rw_step s (s\<lparr>rs_th := u, rs_rin := (if r = 0 then insert f (rs_rin s) else rs_rin s),
      rs_granted := rs_granted s - {f},
      rs_lost := (if r \<noteq> 0 \<and> f \<in> rs_granted s then rs_lost s + 1 else rs_lost s)\<rparr>)"
| rw_wresume: "th_running (rs_th s) = Some f \<Longrightarrow> th_pc (rs_th s) f = Some PcWlock \<Longrightarrow>
    rwlock_resume (rs_th s) f = (u, r) \<Longrightarrow>
    rw_step s (s\<lparr>rs_th := u, rs_win := (if r = 0 then insert f (rs_win s) else rs_win s)\<rparr>)"
| rw_runlock: "th_running (rs_th s) = Some f \<Longrightarrow> th_pc (rs_th s) f = None \<Longrightarrow> f \<in> rs_rin s \<Longrightarrow>
    acl_fiber_rwlock_runlock (rs_lock s) (rs_th s) = Ret (lk, u) \<Longrightarrow>
    rw_step s (s\<lparr>rs_lock := lk, rs_th := u, rs_rin := rs_rin s - {f}\<rparr>)"
| rw_wunlock: "th_running (rs_th s) = Some f \<Longrightarrow> th_pc (rs_th s) f = None \<Longrightarrow> f \<in> rs_win s \<Longrightarrow>
    acl_fiber_rwlock_wunlock (rs_lock s) (rs_th s) = Ret (lk, u) \<Longrightarrow>
    rw_step s (s\<lparr>rs_lock := lk, rs_th := u, rs_win := rs_win s - {f},
      rs_granted := rs_granted s \<union> set (rqueue s)\<rparr>)"

definition rw_init :: "rw_sys \<Rightarrow> bool" where
  "rw_init s \<longleftrightarrow> sched_ok (rs_th s) \<and> (\<forall>f. th_pc (rs_th s) f = None) \<and> th_waiter (rs_th s) = 0
     \<and> (\<exists>r w. r \<noteq> w \<and> rs_lock s = acl_fiber_rwlock_create r w \<and> th_rings (rs_th s) (RWaiting r) = []
          \<and> th_rings (rs_th s) (RWaiting w) = [])
     \<and> rs_rin s = {} \<and> rs_win s = {} \<and> rs_granted s = {} \<and> rs_lost s = 0"

text \<open>The fibers, where they are and why they will run.\<close>

definition rw_fibers :: "rw_sys \<Rightarrow> bool" where
  "rw_fibers s \<longleftrightarrow> (\<forall>f \<in> set (rqueue s). th_pc (rs_th s) f = Some PcRlock \<and> f \<notin> rs_granted s)
     \<and> (\<forall>f \<in> set (wqueue s). th_pc (rs_th s) f = Some PcWlock)
     \<and> (\<forall>f \<in> rs_granted s. th_pc (rs_th s) f = Some PcRlock)
     \<and> (\<forall>f. th_pc (rs_th s) f = Some PcRlock \<longrightarrow> f \<in> set (rqueue s)
          \<or> runnable (rs_th s) f \<and> (f \<in> rs_granted s \<or> acl_fiber_canceled (rs_th s) f))
     \<and> (\<forall>f. th_pc (rs_th s) f = Some PcWlock \<longrightarrow> f \<in> set (wqueue s)
          \<or> runnable (rs_th s) f \<and> (rw_writer (rs_lock s) = Some f \<or> acl_fiber_canceled (rs_th s) f))
     \<and> (\<forall>f \<in> rs_rin s. th_pc (rs_th s) f = None)
     \<and> (\<forall>f \<in> rs_win s. th_pc (rs_th s) f = None \<and> rw_writer (rs_lock s) = Some f)"

definition rw_counts :: "rw_sys \<Rightarrow> bool" where
  "rw_counts s \<longleftrightarrow> finite (rs_rin s) \<and> finite (rs_granted s) \<and> rs_lost s \<ge> 0
     \<and> rw_readers (rs_lock s) = int (card (rs_rin s)) + int (card (rs_granted s)) + rs_lost s
     \<and> (rw_writer (rs_lock s) \<noteq> None \<longrightarrow> rw_readers (rs_lock s) = 0)
     \<and> (wqueue s \<noteq> [] \<longrightarrow> rw_writer (rs_lock s) \<noteq> None \<or> rw_readers (rs_lock s) > 0)
     \<and> rw_rwaiting (rs_lock s) \<noteq> rw_wwaiting (rs_lock s)"

definition rw_inv :: "rw_sys \<Rightarrow> bool" where
  "rw_inv s \<longleftrightarrow> sched_ok (rs_th s) \<and> calls_ok (rs_th s) \<and> rw_fibers s \<and> rw_counts s"

lemma rw_invD:
  assumes "rw_inv s"
  shows "sched_ok (rs_th s)" "calls_ok (rs_th s)" "rw_fibers s" "rw_counts s"
  using assms by (auto simp: rw_inv_def)

lemma rw_fibersD:
  assumes "rw_fibers s"
  shows "f \<in> set (rqueue s) \<Longrightarrow> th_pc (rs_th s) f = Some PcRlock \<and> f \<notin> rs_granted s"
    "f \<in> set (wqueue s) \<Longrightarrow> th_pc (rs_th s) f = Some PcWlock"
    "f \<in> rs_granted s \<Longrightarrow> th_pc (rs_th s) f = Some PcRlock"
    "th_pc (rs_th s) f = Some PcRlock \<Longrightarrow> f \<in> set (rqueue s)
       \<or> runnable (rs_th s) f \<and> (f \<in> rs_granted s \<or> acl_fiber_canceled (rs_th s) f)"
    "th_pc (rs_th s) f = Some PcWlock \<Longrightarrow> f \<in> set (wqueue s)
       \<or> runnable (rs_th s) f \<and> (rw_writer (rs_lock s) = Some f \<or> acl_fiber_canceled (rs_th s) f)"
    "f \<in> rs_rin s \<Longrightarrow> th_pc (rs_th s) f = None"
    "f \<in> rs_win s \<Longrightarrow> th_pc (rs_th s) f = None \<and> rw_writer (rs_lock s) = Some f"
  using assms by (auto simp: rw_fibers_def)

lemma rw_inv_init: "rw_init s \<Longrightarrow> rw_inv s"
  by (auto simp: rw_init_def rw_inv_def rw_fibers_def rw_counts_def acl_fiber_rwlock_create_def calls_ok_def)

lemma rw_inv_env:
  assumes "rw_inv s" "env_step (rs_th s) u"
  shows "rw_inv (s\<lparr>rs_th := u\<rparr>)"
proof -
  note inv = rw_invD [OF assms(1)] and fb = rw_fibersD [OF rw_invD(3) [OF assms(1)]]
  have e: "env_ok (rs_th s) u" by (rule env_step_ok [OF assms(2) inv(1)])
  then have u: "sched_ok u" "th_pc u = th_pc (rs_th s)" "th_waiter u = th_waiter (rs_th s)"
    "\<And>f. th_pc (rs_th s) f \<noteq> None \<Longrightarrow> runnable (rs_th s) f \<Longrightarrow> runnable u f"
    "\<And>f. th_pc (rs_th s) f \<noteq> None \<Longrightarrow> acl_fiber_canceled (rs_th s) f \<Longrightarrow> acl_fiber_canceled u f"
    by (auto simp: env_ok_def)
  note r = env_ok_waiting [OF e, where n = "rw_rwaiting (rs_lock s)"]
  note w = env_ok_waiting [OF e, where n = "rw_wwaiting (rs_lock s)"]
  have "f \<in> set (th_rings u (RWaiting (rw_rwaiting (rs_lock s)))) \<or> runnable u f \<and> (f \<in> rs_granted s \<or> acl_fiber_canceled u f)"
    if "th_pc (rs_th s) f = Some PcRlock" for f
    using that fb(4) [of f] r(2) [of f] u(4,5) [of f] by auto
  moreover have "f \<in> set (th_rings u (RWaiting (rw_wwaiting (rs_lock s))))
      \<or> runnable u f \<and> (rw_writer (rs_lock s) = Some f \<or> acl_fiber_canceled u f)"
    if "th_pc (rs_th s) f = Some PcWlock" for f
    using that fb(5) [of f] w(2) [of f] u(4,5) [of f] by auto
  ultimately have "rw_fibers (s\<lparr>rs_th := u\<rparr>)"
    using r(1) w(1) fb(1-3,6,7) u(2) by (auto simp: rw_fibers_def)
  moreover have "rw_counts (s\<lparr>rs_th := u\<rparr>)"
    using inv(4) w(1) by (auto simp: rw_counts_def)
  ultimately show ?thesis using u(1) calls_ok_same [OF inv(2) u(2,3)] by (simp add: rw_inv_def)
qed

text \<open>A fiber queues up to read or to write.\<close>

lemma rw_inv_block:
  assumes inv: "rw_inv s" and run: "th_running (rs_th s) = Some f" and pc: "th_pc (rs_th s) f = None"
    and fin: "f \<notin> rs_rin s \<union> rs_win s"
    and n: "n = rw_rwaiting (rs_lock s) \<and> p = PcRlock
      \<or> n = rw_wwaiting (rs_lock s) \<and> p = PcWlock \<and> (rw_writer (rs_lock s) \<noteq> None \<or> rw_readers (rs_lock s) > 0)"
  obtains u where "fiber_block (rs_th s) f (RWaiting n) 128 p = Ret u" "rw_inv (s\<lparr>rs_th := u\<rparr>)" "same_flags (rs_th s) u"
    "th_pc u = (th_pc (rs_th s))(f := Some p)" "\<And>m. th_rings u (RWaiting m) = th_rings (rs_th s) (RWaiting m) @ (if m = n then [f] else [])"
    "\<And>g. runnable u g \<longleftrightarrow> g \<noteq> f \<and> runnable (rs_th s) g"
proof -
  note i = rw_invD [OF inv] and fb = rw_fibersD [OF rw_invD(3) [OF inv]]
  have ne: "rw_rwaiting (rs_lock s) \<noteq> rw_wwaiting (rs_lock s)" using i(4) by (simp add: rw_counts_def)
  obtain v where v: "fiber_block (rs_th s) f (RWaiting n) 128 p = Ret v" "sched_ok v"
    "th_pc v = (th_pc (rs_th s))(f := Some p)"
    "th_waiter v = th_waiter (rs_th s) + 1" "same_flags (rs_th s) v"
    "\<And>m. th_rings v (RWaiting m) = th_rings (rs_th s) (RWaiting m) @ (if m = n then [f] else [])"
    "\<And>g. runnable v g \<longleftrightarrow> g \<noteq> f \<and> runnable (rs_th s) g"
    "th_running v = (case th_rings (rs_th s) RReady of [] \<Rightarrow> None | f # _ \<Rightarrow> Some f)"
    by (rule block_Ret [OF i(1) run], rule that)
  have c: "acl_fiber_canceled v g = acl_fiber_canceled (rs_th s) g" for g by (rule same_flags_canceled [OF v(5)])
  have fg: "f \<notin> rs_granted s" "f \<notin> set (rqueue s)" "f \<notin> set (wqueue s)" using fb(1-3) [of f] pc by auto
  have "rw_fibers (s\<lparr>rs_th := v\<rparr>)"
    unfolding rw_fibers_def
    using n ne fin fg pc fb(1-3,6,7) fb(4) fb(5) by (auto simp: v(3,6,7) c)
  moreover have "rw_counts (s\<lparr>rs_th := v\<rparr>)" using i(4) n by (auto simp: rw_counts_def v(6))
  ultimately have "rw_inv (s\<lparr>rs_th := v\<rparr>)" using v(2) calls_ok_block [OF i(2) pc v(3,4)] by (simp add: rw_inv_def)
  then show ?thesis using that v(1,3,5,6,7) by blast
qed

lemma rw_inv_rlock:
  assumes inv: "rw_inv s" and run: "th_running (rs_th s) = Some f" and pc: "th_pc (rs_th s) f = None"
    and fin: "f \<notin> rs_rin s \<union> rs_win s" and b: "rlock_begin (rs_lock s) (rs_th s) block = Ret (lk, u, r)"
  shows "rw_inv (s\<lparr>rs_lock := lk, rs_th := u, rs_rin := (if r = Some 0 then insert f (rs_rin s) else rs_rin s)\<rparr>)"
proof (cases "rw_writer (rs_lock s) = None \<and> first_fiber (rs_th s) (RWaiting (rw_wwaiting (rs_lock s))) = None")
  case True
  then have "lk = (rs_lock s)\<lparr>rw_readers := rw_readers (rs_lock s) + 1\<rparr>" "u = rs_th s" "r = Some 0" "wqueue s = []"
    using b by (auto simp: rlock_begin_def first_fiber_simps)
  then show ?thesis using inv True fin pc by (auto simp: rw_inv_def rw_fibers_def rw_counts_def)
next
  case False
  show ?thesis
  proof (cases block)
    case True
    obtain v where v: "fiber_block (rs_th s) f (RWaiting (rw_rwaiting (rs_lock s))) 128 PcRlock = Ret v" "rw_inv (s\<lparr>rs_th := v\<rparr>)"
      using rw_inv_block [OF inv run pc fin, of "rw_rwaiting (rs_lock s)" PcRlock] by blast
    then have "lk = rs_lock s" "u = v" "r = None" using b False True run by (auto simp: rlock_begin_def)
    with v(2) show ?thesis by simp
  qed (use b False inv in \<open>auto simp: rlock_begin_def rw_inv_def\<close>)
qed

lemma rw_inv_wlock:
  assumes inv: "rw_inv s" and run: "th_running (rs_th s) = Some f" and pc: "th_pc (rs_th s) f = None"
    and fin: "f \<notin> rs_rin s \<union> rs_win s" and b: "wlock_begin (rs_lock s) (rs_th s) block = Ret (lk, u, r)"
  shows "rw_inv (s\<lparr>rs_lock := lk, rs_th := u, rs_win := (if r = Some 0 then insert f (rs_win s) else rs_win s)\<rparr>)"
proof (cases "rw_writer (rs_lock s) = None \<and> rw_readers (rs_lock s) = 0")
  case True
  then have "lk = (rs_lock s)\<lparr>rw_writer := Some f\<rparr>" "u = rs_th s" "r = Some 0"
    using b run by (auto simp: wlock_begin_def)
  then show ?thesis using inv True fin pc by (auto simp: rw_inv_def rw_fibers_def rw_counts_def)
next
  case False
  have pos: "rw_writer (rs_lock s) \<noteq> None \<or> rw_readers (rs_lock s) > 0"
    using False inv by (auto simp: rw_inv_def rw_counts_def)
  show ?thesis
  proof (cases block)
    case True
    obtain v where v: "fiber_block (rs_th s) f (RWaiting (rw_wwaiting (rs_lock s))) 128 PcWlock = Ret v" "rw_inv (s\<lparr>rs_th := v\<rparr>)"
      using rw_inv_block [OF inv run pc fin, of "rw_wwaiting (rs_lock s)" PcWlock] pos by blast
    then have "lk = rs_lock s" "u = v" "r = None" using b False True run by (auto simp: wlock_begin_def)
    with v(2) show ?thesis by simp
  qed (use b False inv in \<open>auto simp: wlock_begin_def rw_inv_def\<close>)
qed

text \<open>The part both kinds of waiters share when they run again.\<close>

lemma rwlock_resume_ok:
  assumes ok: "sched_ok th" and run: "th_running th = Some f" and r: "rwlock_resume th f = (u, r)"
  shows "sched_ok u" "th_pc u = (th_pc th)(f := None)" "th_waiter u = th_waiter th - 1" "th_rings u = th_rings th"
    "runnable u g = runnable th g" "acl_fiber_canceled u g = acl_fiber_canceled th g"
    "r = (if acl_fiber_canceled th f then -1 else 0)"
proof -
  let ?v = "fiber_unblock th f 128"
  note v = unblock_ok [OF ok run refl, of 128]
  have c: "acl_fiber_canceled ?v g = acl_fiber_canceled th g" for g by (rule same_flags_canceled [OF v(4)])
  from r c show "r = (if acl_fiber_canceled th f then -1 else 0)"
    by (auto simp: rwlock_resume_def Let_def split: if_splits)
  have "u = ?v \<or> (\<exists>e. u = ?v\<lparr>th_errno := e\<rparr>)"
    using r by (auto simp: rwlock_resume_def Let_def acl_fiber_set_error_def split: if_splits)
  then show "sched_ok u" "th_pc u = (th_pc th)(f := None)" "th_waiter u = th_waiter th - 1" "th_rings u = th_rings th"
    "runnable u g = runnable th g" "acl_fiber_canceled u g = acl_fiber_canceled th g"
    using v c sched_ok_upd(4) [OF v(1), of "\<lambda>b. b"] by (auto simp: runnable_def acl_fiber_canceled_def)
qed

lemma card_minus_one: "finite A \<Longrightarrow> int (card (A - {x})) = int (card A) - (if x \<in> A then 1 else 0)"
  using card_Suc_Diff1 [of A x] by (cases "x \<in> A") auto

lemma rw_inv_rresume:
  assumes inv: "rw_inv s" and run: "th_running (rs_th s) = Some f" and pc: "th_pc (rs_th s) f = Some PcRlock"
    and r: "rwlock_resume (rs_th s) f = (u, r)"
  shows "rw_inv (s\<lparr>rs_th := u, rs_rin := (if r = 0 then insert f (rs_rin s) else rs_rin s),
      rs_granted := rs_granted s - {f},
      rs_lost := (if r \<noteq> 0 \<and> f \<in> rs_granted s then rs_lost s + 1 else rs_lost s)\<rparr>)" (is "rw_inv ?t")
proof -
  note i = rw_invD [OF inv] and fb = rw_fibersD [OF rw_invD(3) [OF inv]]
  note u = rwlock_resume_ok [OF i(1) run r]
  have fq: "f \<notin> set (rqueue s)" "f \<notin> set (wqueue s)" using sched_ok_member(5) [OF i(1) run] by simp_all
  have fg: "f \<in> rs_granted s \<or> acl_fiber_canceled (rs_th s) f" using fb(4) [OF pc] fq by blast
  have fr: "f \<notin> rs_rin s" "f \<notin> rs_win s" using fb(6,7) [of f] pc by auto
  have "rw_fibers ?t"
    unfolding rw_fibers_def using fb(1-7) fq fg fr by (auto simp: u)
  moreover have "rw_counts ?t"
    using i(4) fr fg card_minus_one [of "rs_granted s" f] by (auto simp: rw_counts_def u)
  ultimately show ?thesis
    using u(1) calls_ok_unblock [OF i(2), of f u] pc u(2,3) by (simp add: rw_inv_def)
qed

lemma rw_inv_wresume:
  assumes inv: "rw_inv s" and run: "th_running (rs_th s) = Some f" and pc: "th_pc (rs_th s) f = Some PcWlock"
    and r: "rwlock_resume (rs_th s) f = (u, r)"
  shows "rw_inv (s\<lparr>rs_th := u, rs_win := (if r = 0 then insert f (rs_win s) else rs_win s)\<rparr>)" (is "rw_inv ?t")
proof -
  note i = rw_invD [OF inv] and fb = rw_fibersD [OF rw_invD(3) [OF inv]]
  note u = rwlock_resume_ok [OF i(1) run r]
  have fq: "f \<notin> set (rqueue s)" "f \<notin> set (wqueue s)" using sched_ok_member(5) [OF i(1) run] by simp_all
  have fw: "rw_writer (rs_lock s) = Some f \<or> acl_fiber_canceled (rs_th s) f" using fb(5) [OF pc] fq by blast
  have fr: "f \<notin> rs_rin s" "f \<notin> rs_granted s" using fb(3,6) [of f] pc by auto
  have "rw_fibers ?t"
    unfolding rw_fibers_def using fb(1-7) fq fw fr by (auto simp: u)
  moreover have "rw_counts ?t" using i(4) by (auto simp: rw_counts_def u)
  ultimately show ?thesis
    using u(1) calls_ok_unblock [OF i(2), of f u] pc u(2,3) by (simp add: rw_inv_def)
qed

lemma rw_inv_runlock:
  assumes inv: "rw_inv s" and run: "th_running (rs_th s) = Some f" and fin: "f \<in> rs_rin s"
  obtains lk u where "acl_fiber_rwlock_runlock (rs_lock s) (rs_th s) = Ret (lk, u)"
    "rw_inv (s\<lparr>rs_lock := lk, rs_th := u, rs_rin := rs_rin s - {f}\<rparr>)"
    "same_flags (rs_th s) u" "th_pc u = th_pc (rs_th s)" "rw_rwaiting lk = rw_rwaiting (rs_lock s)"
    "rw_wwaiting lk = rw_wwaiting (rs_lock s)"
    "th_rings u (RWaiting (rw_rwaiting lk)) = rqueue s"
    "rqueue s \<noteq> [] \<Longrightarrow> wqueue s \<noteq> [] \<Longrightarrow> rw_writer lk \<noteq> None \<or> th_rings u (RWaiting (rw_wwaiting lk)) \<noteq> []"
    "rw_writer lk = None \<Longrightarrow> rw_writer (rs_lock s) = None"
    "\<And>h. rw_writer lk = Some h \<Longrightarrow> th_pc u h = Some PcWlock \<and> runnable u h"
proof -
  note i = rw_invD [OF inv] and fb = rw_fibersD [OF rw_invD(3) [OF inv]]
  let ?n = "rw_readers (rs_lock s) - 1"
  have cnt: "rw_readers (rs_lock s) \<ge> 1" "rw_writer (rs_lock s) = None" "?n = int (card (rs_rin s - {f})) + int (card (rs_granted s)) + rs_lost s"
  proof -
    have "card (rs_rin s) \<noteq> 0" using i(4) fin by (auto simp: rw_counts_def)
    then show "rw_readers (rs_lock s) \<ge> 1" using i(4) by (auto simp: rw_counts_def)
    then show "rw_writer (rs_lock s) = None" using i(4) by (auto simp: rw_counts_def)
    show "?n = int (card (rs_rin s - {f})) + int (card (rs_granted s)) + rs_lost s"
      using i(4) card_minus_one [of "rs_rin s" f] fin by (auto simp: rw_counts_def)
  qed
  have ne: "rw_rwaiting (rs_lock s) \<noteq> rw_wwaiting (rs_lock s)" using i(4) by (simp add: rw_counts_def)
  show ?thesis
  proof (cases "?n = 0 \<and> wqueue s \<noteq> []")
    case False
    let ?lk = "(rs_lock s)\<lparr>rw_readers := ?n\<rparr>"
    have "acl_fiber_rwlock_runlock (rs_lock s) (rs_th s) = Ret (?lk, rs_th s)"
      using False by (auto simp: acl_fiber_rwlock_runlock_def Let_def first_fiber_def split: list.splits)
    moreover have "rw_inv (s\<lparr>rs_lock := ?lk, rs_th := rs_th s, rs_rin := rs_rin s - {f}\<rparr>)"
      using inv cnt False by (auto simp: rw_inv_def rw_fibers_def rw_counts_def)
    ultimately show ?thesis using cnt(2) by (intro that [of ?lk "rs_th s"]) (auto simp: same_flags_def)
  next
    case True
    then obtain g gs where W: "wqueue s = g # gs" by (cases "wqueue s") auto
    let ?lk = "(rs_lock s)\<lparr>rw_readers := 0, rw_writer := Some g\<rparr>"
    obtain v where v: "cbind (acl_fiber_ready (fb_ring_detach (rs_th s) g) g) acl_fiber_yield = Ret v"
      "sched_ok v" "th_pc v = th_pc (rs_th s)" "th_waiter v = th_waiter (rs_th s)" "same_flags (rs_th s) v"
      "\<And>m. th_rings v (RWaiting m) = (if m = rw_wwaiting (rs_lock s) then gs else th_rings (rs_th s) (RWaiting m))"
      "\<And>h. runnable v h \<longleftrightarrow> h = g \<or> runnable (rs_th s) h"
      by (rule handover_Ret [OF i(1) run W], rule that)
    have gst: "f_status (th_fibers (rs_th s) g) = SSuspend" using sched_ok_member(3) [OF i(1), of g "rw_wwaiting (rs_lock s)"] W by simp
    have r: "acl_fiber_rwlock_runlock (rs_lock s) (rs_th s) = Ret (?lk, v)"
      using True W v(1) ready_detached [OF gst] by (simp add: acl_fiber_rwlock_runlock_def Let_def first_fiber_def)
    have c: "acl_fiber_canceled v h = acl_fiber_canceled (rs_th s) h" for h by (rule same_flags_canceled [OF v(5)])
    have gpc: "th_pc (rs_th s) g = Some PcWlock" using fb(2) [of g] W by simp
    have rr: "th_pc (rs_th s) h = Some PcRlock \<Longrightarrow> h \<notin> set (rqueue s) \<Longrightarrow> runnable (rs_th s) h"
      "th_pc (rs_th s) h = Some PcRlock \<Longrightarrow> h \<notin> set (rqueue s) \<Longrightarrow> \<not> acl_fiber_canceled (rs_th s) h \<Longrightarrow> h \<in> rs_granted s" for h
      using fb(4) [of h] by blast+
    have ww: "th_pc (rs_th s) h = Some PcWlock \<Longrightarrow> h \<notin> set gs \<Longrightarrow> h = g \<or> runnable (rs_th s) h \<and> acl_fiber_canceled (rs_th s) h" for h
      using fb(5) [of h] W cnt(2) by auto
    have "rs_win s = {}" using fb(7) cnt(2) by auto
    then have "rw_fibers (s\<lparr>rs_lock := ?lk, rs_th := v, rs_rin := rs_rin s - {f}\<rparr>)"
      unfolding rw_fibers_def using fb(1-3,6) W ne gpc by (auto simp: v(3,6,7) c rr dest: ww)
    moreover have "rw_counts (s\<lparr>rs_lock := ?lk, rs_th := v, rs_rin := rs_rin s - {f}\<rparr>)"
      using i(4) cnt True by (auto simp: rw_counts_def)
    ultimately have "rw_inv (s\<lparr>rs_lock := ?lk, rs_th := v, rs_rin := rs_rin s - {f}\<rparr>)"
      using v(2) calls_ok_same [OF i(2) v(3,4)] by (simp add: rw_inv_def)
    with r show ?thesis using v(3,5,6,7) ne gpc by (intro that [of ?lk v]) auto
  qed
qed

text \<open>The loop wakes every waiting reader, in order.\<close>

lemma wake_readers_Ret:
  assumes "sched_ok th" "th_rings th (RWaiting (rw_rwaiting lk)) = gs" "length gs < fuel"
  obtains u where "wake_readers fuel lk th n = Ret (lk\<lparr>rw_readers := rw_readers lk + int (length gs)\<rparr>, u, n + length gs)"
    "sched_ok u" "th_pc u = th_pc th" "th_waiter u = th_waiter th" "same_flags th u" "th_running u = th_running th"
    "\<And>m. th_rings u (RWaiting m) = (if m = rw_rwaiting lk then [] else th_rings th (RWaiting m))"
    "\<And>h. runnable u h \<longleftrightarrow> h \<in> set gs \<or> runnable th h"
proof -
  have "\<exists>u. wake_readers fuel lk th n = Ret (lk\<lparr>rw_readers := rw_readers lk + int (length gs)\<rparr>, u, n + length gs)
    \<and> sched_ok u \<and> th_pc u = th_pc th \<and> th_waiter u = th_waiter th \<and> same_flags th u \<and> th_running u = th_running th
    \<and> (\<forall>m. th_rings u (RWaiting m) = (if m = rw_rwaiting lk then [] else th_rings th (RWaiting m)))
    \<and> (\<forall>h. runnable u h \<longleftrightarrow> h \<in> set gs \<or> runnable th h)"
    using assms
  proof (induction gs arbitrary: fuel lk th n)
    case Nil
    then show ?case by (cases fuel) (auto simp: first_fiber_def same_flags_def)
  next
    case (Cons g gs)
    obtain k where k: "fuel = Suc k" using Cons.prems(3) by (cases fuel) auto
    obtain w where w: "acl_fiber_ready (fb_ring_detach th g) g = Ret w"
      "sched_ok w" "th_pc w = th_pc th" "th_waiter w = th_waiter th" "same_flags th w"
      "\<And>m. th_rings w (RWaiting m) = (if m = rw_rwaiting lk then gs else th_rings th (RWaiting m))"
      "\<And>h. runnable w h \<longleftrightarrow> h = g \<or> runnable th h" "th_running w = th_running th"
      by (rule handover_async_Ret [OF Cons.prems(1,2)], rule that)
    have gst: "f_status (th_fibers th g) = SSuspend" using sched_ok_member(3) [OF Cons.prems(1), of g "rw_rwaiting lk"] Cons.prems(2) by simp
    let ?lk = "lk\<lparr>rw_readers := rw_readers lk + 1\<rparr>"
    obtain u where u: "wake_readers k ?lk w (n + 1) = Ret (?lk\<lparr>rw_readers := rw_readers ?lk + int (length gs)\<rparr>, u, n + 1 + length gs)"
      "sched_ok u" "th_pc u = th_pc w" "th_waiter u = th_waiter w" "same_flags w u" "th_running u = th_running w"
      "\<forall>m. th_rings u (RWaiting m) = (if m = rw_rwaiting ?lk then [] else th_rings w (RWaiting m))"
      "\<forall>h. runnable u h \<longleftrightarrow> h \<in> set gs \<or> runnable w h"
      using Cons.IH [of w ?lk k "n + 1"] w(2,6) Cons.prems(3) k by auto
    have "wake_readers fuel lk th n = wake_readers k ?lk w (n + 1)"
      using Cons.prems(2) w(1) ready_detached [OF gst] by (simp add: k first_fiber_def)
    then show ?case
      using u w by (intro exI [of _ u]) (auto simp: same_flags_def algebra_simps)
  qed
  then show ?thesis using that by blast
qed

lemma rw_inv_wunlock:
  assumes inv: "rw_inv s" and run: "th_running (rs_th s) = Some f" and fin: "f \<in> rs_win s"
  obtains lk u where "acl_fiber_rwlock_wunlock (rs_lock s) (rs_th s) = Ret (lk, u)"
    "rw_inv (s\<lparr>rs_lock := lk, rs_th := u, rs_win := rs_win s - {f}, rs_granted := rs_granted s \<union> set (rqueue s)\<rparr>)"
    "same_flags (rs_th s) u" "th_pc u = th_pc (rs_th s)" "th_rings u (RWaiting (rw_rwaiting lk)) = []"
    "rw_readers lk = int (length (rqueue s))"
    "rw_writer lk = (if rqueue s = [] then first_fiber (rs_th s) (RWaiting (rw_wwaiting (rs_lock s))) else None)"
    "\<And>h. h \<in> set (rqueue s) \<or> rw_writer lk = Some h \<Longrightarrow> runnable u h"
proof -
  note i = rw_invD [OF inv] and fb = rw_fibersD [OF rw_invD(3) [OF inv]]
  have own: "rw_writer (rs_lock s) = Some f" "th_pc (rs_th s) f = None" using fb(7) [OF fin] by auto
  have zero: "rw_readers (rs_lock s) = 0" "rs_rin s = {}" "rs_granted s = {}" "rs_lost s = 0"
  proof -
    have "rw_readers (rs_lock s) = 0" "finite (rs_rin s)" "finite (rs_granted s)" "rs_lost s \<ge> 0"
      "rw_readers (rs_lock s) = int (card (rs_rin s)) + int (card (rs_granted s)) + rs_lost s"
      using i(4) own(1) by (auto simp: rw_counts_def)
    then have "rw_readers (rs_lock s) = 0 \<and> card (rs_rin s) = 0 \<and> card (rs_granted s) = 0 \<and> rs_lost s = 0" by linarith
    with \<open>finite (rs_rin s)\<close> \<open>finite (rs_granted s)\<close>
    show "rw_readers (rs_lock s) = 0" "rs_rin s = {}" "rs_granted s = {}" "rs_lost s = 0" by simp_all
  qed
  have win: "rs_win s - {f} = {}" using fb(7) own(1) by auto
  have ne: "rw_rwaiting (rs_lock s) \<noteq> rw_wwaiting (rs_lock s)" using i(4) by (simp add: rw_counts_def)
  have dist: "distinct (rqueue s)" "distinct (wqueue s)" using sched_ok_member(2) [OF i(1)] by simp_all
  let ?lk = "(rs_lock s)\<lparr>rw_writer := None\<rparr>"
  show ?thesis
  proof (cases "rqueue s")
    case (Cons g gs)
    obtain w where w: "wake_readers (Suc (length (rqueue s))) ?lk (rs_th s) 0
        = Ret (?lk\<lparr>rw_readers := rw_readers ?lk + int (length (rqueue s))\<rparr>, w, 0 + length (rqueue s))"
      "sched_ok w" "th_pc w = th_pc (rs_th s)" "th_waiter w = th_waiter (rs_th s)" "same_flags (rs_th s) w"
      "th_running w = th_running (rs_th s)"
      "\<And>m. th_rings w (RWaiting m) = (if m = rw_rwaiting ?lk then [] else th_rings (rs_th s) (RWaiting m))"
      "\<And>h. runnable w h \<longleftrightarrow> h \<in> set (rqueue s) \<or> runnable (rs_th s) h"
      using wake_readers_Ret [OF i(1), of ?lk "rqueue s" "Suc (length (rqueue s))" 0] by auto
    have "th_running w = Some f" using run w(6) by simp
    then obtain x where x: "acl_fiber_yield w = Ret x" "sched_ok x" "th_pc x = th_pc w" "th_waiter x = th_waiter w"
      "th_errno x = th_errno w" "same_flags w x" "\<And>n. th_rings x (RWaiting n) = th_rings w (RWaiting n)"
      "\<And>h. runnable x h = runnable w h" "th_running x = Some (hd (th_rings w RReady @ [f]))"
      by - (rule yield_Ret [OF w(2)], assumption, rule that)
    let ?m = "?lk\<lparr>rw_readers := int (length (rqueue s))\<rparr>"
    let ?t = "s\<lparr>rs_lock := ?m, rs_th := x, rs_win := rs_win s - {f}, rs_granted := rs_granted s \<union> set (rqueue s)\<rparr>"
    have r: "acl_fiber_rwlock_wunlock (rs_lock s) (rs_th s) = Ret (?m, x)"
      using own(1) zero(1) w(1) x(1) Cons by (simp add: acl_fiber_rwlock_wunlock_def Let_def)
    have c: "acl_fiber_canceled x h = acl_fiber_canceled (rs_th s) h" for h
      using same_flags_canceled [OF w(5)] same_flags_canceled [OF x(6)] by simp
    have ww: "th_pc (rs_th s) h = Some PcWlock \<Longrightarrow> h \<notin> set (wqueue s) \<Longrightarrow>
        runnable (rs_th s) h \<and> acl_fiber_canceled (rs_th s) h" for h
      using fb(5) [of h] own by auto
    have "rw_fibers ?t"
      unfolding rw_fibers_def using fb(1-4) win zero ne ww by (auto simp: x(3,7,8) w(3,7,8) c)
    moreover have "rw_counts ?t"
      using zero ne Cons dist(1) by (auto simp: rw_counts_def distinct_card)
    ultimately have "rw_inv ?t" using x(2) calls_ok_same [OF i(2), of x] x(3,4) w(3,4) by (simp add: rw_inv_def)
    then show ?thesis
      using r Cons by (intro that [of ?m x]) (auto simp: x(3,7,8) w(3,7,8) same_flags_def w(5) [unfolded same_flags_def] x(6) [unfolded same_flags_def])
  next
    case Nil
    have wr: "wake_readers (Suc (length (rqueue s))) ?lk (rs_th s) 0 = Ret (?lk, rs_th s, 0)"
      using Nil by (simp add: first_fiber_def)
    show ?thesis
    proof (cases "wqueue s")
      case W: Nil
      let ?t = "s\<lparr>rs_lock := ?lk, rs_th := rs_th s, rs_win := rs_win s - {f}, rs_granted := rs_granted s \<union> set (rqueue s)\<rparr>"
      have r: "acl_fiber_rwlock_wunlock (rs_lock s) (rs_th s) = Ret (?lk, rs_th s)"
        using own(1) zero(1) wr W by (simp add: acl_fiber_rwlock_wunlock_def Let_def first_fiber_def)
      have "th_pc (rs_th s) h = Some PcWlock \<Longrightarrow> runnable (rs_th s) h \<and> acl_fiber_canceled (rs_th s) h" for h
        using fb(5) [of h] W own by auto
      then have "rw_fibers ?t"
        unfolding rw_fibers_def using fb(1-4) win zero Nil W by auto
      moreover have "rw_counts ?t" using zero ne W Nil by (auto simp: rw_counts_def)
      ultimately have "rw_inv ?t" using i(1,2) by (simp add: rw_inv_def)
      then show ?thesis using r Nil W zero by (intro that [of ?lk "rs_th s"]) (auto simp: same_flags_def first_fiber_def)
    next
      case W: (Cons g gs)
      let ?m = "?lk\<lparr>rw_writer := Some g\<rparr>"
      obtain v where v: "cbind (acl_fiber_ready (fb_ring_detach (rs_th s) g) g) acl_fiber_yield = Ret v"
        "sched_ok v" "th_pc v = th_pc (rs_th s)" "th_waiter v = th_waiter (rs_th s)" "same_flags (rs_th s) v"
        "\<And>m. th_rings v (RWaiting m) = (if m = rw_wwaiting (rs_lock s) then gs else th_rings (rs_th s) (RWaiting m))"
        "\<And>h. runnable v h \<longleftrightarrow> h = g \<or> runnable (rs_th s) h"
        by (rule handover_Ret [OF i(1) run W], rule that)
      have gst: "f_status (th_fibers (rs_th s) g) = SSuspend" using sched_ok_member(3) [OF i(1), of g "rw_wwaiting (rs_lock s)"] W by simp
      let ?t = "s\<lparr>rs_lock := ?m, rs_th := v, rs_win := rs_win s - {f}, rs_granted := rs_granted s \<union> set (rqueue s)\<rparr>"
      obtain w where w: "acl_fiber_ready (rs_th s) g = Ret w" "acl_fiber_yield w = Ret v"
        using v(1) ready_detached [OF gst] by (cases "acl_fiber_ready (rs_th s) g") auto
      have r: "acl_fiber_rwlock_wunlock (rs_lock s) (rs_th s) = Ret (?m, v)"
        using own(1) zero(1) wr W w by (simp add: acl_fiber_rwlock_wunlock_def Let_def first_fiber_def)
      have c: "acl_fiber_canceled v h = acl_fiber_canceled (rs_th s) h" for h by (rule same_flags_canceled [OF v(5)])
      have gpc: "th_pc (rs_th s) g = Some PcWlock" using fb(2) [of g] W by simp
      have gW: "g \<notin> set gs" using dist(2) W by simp
      have old: "th_pc (rs_th s) h = Some PcWlock \<Longrightarrow> h \<notin> set gs \<Longrightarrow> h = g \<or> runnable (rs_th s) h \<and> acl_fiber_canceled (rs_th s) h" for h
        using fb(5) [of h] W own by auto
      have "rw_fibers ?t"
        unfolding rw_fibers_def using fb(1-4) win zero W Nil ne gpc by (auto simp: v(3,6,7) c dest: old)
      moreover have "rw_counts ?t" using zero ne W Nil by (auto simp: rw_counts_def)
      ultimately have "rw_inv ?t" using v(2) calls_ok_same [OF i(2) v(3,4)] by (simp add: rw_inv_def)
      then show ?thesis using r Nil W zero v(3,5,6,7) ne
        by (intro that [of ?m v]) (auto simp: first_fiber_def)
    qed
  qed
qed

lemma rw_inv_step: "rw_step s t \<Longrightarrow> rw_inv s \<Longrightarrow> rw_inv t"
proof (induction rule: rw_step.induct)
  case (rw_runlock s f lk u)
  then show ?case using rw_inv_runlock [OF rw_runlock(5,1,3)] by (metis Pair_inject cres.inject)
next
  case (rw_wunlock s f lk u)
  then show ?case using rw_inv_wunlock [OF rw_wunlock(5,1,3)] by (metis Pair_inject cres.inject)
next
  case (rw_rlock s f block lk u r)
  then show ?case by (rule rw_inv_rlock [rotated])
next
  case (rw_wlock s f block lk u r)
  then show ?case by (rule rw_inv_wlock [rotated])
qed (simp_all only: rw_inv_env rw_inv_rresume rw_inv_wresume)


subsection \<open>Without cancelation\<close>

definition rw_quiet_step :: "rw_sys \<Rightarrow> rw_sys \<Rightarrow> bool" where
  "rw_quiet_step s t \<longleftrightarrow> rw_step s t \<and> (\<forall>f. \<not> acl_fiber_canceled (rs_th t) f)"

definition rw_quiet_init :: "rw_sys \<Rightarrow> bool" where
  "rw_quiet_init s \<longleftrightarrow> rw_init s \<and> (\<forall>f. \<not> acl_fiber_canceled (rs_th s) f)"

definition rw_quiet_inv :: "rw_sys \<Rightarrow> bool" where
  "rw_quiet_inv s \<longleftrightarrow> rw_inv s \<and> (\<forall>f. \<not> acl_fiber_canceled (rs_th s) f) \<and> rs_lost s = 0
     \<and> (rqueue s \<noteq> [] \<longrightarrow> rw_writer (rs_lock s) \<noteq> None \<or> wqueue s \<noteq> [])
     \<and> (\<forall>f. rw_writer (rs_lock s) = Some f \<longrightarrow> f \<in> rs_win s \<or> th_pc (rs_th s) f = Some PcWlock \<and> runnable (rs_th s) f)"

lemma rw_quiet_inv_init: "rw_quiet_init s \<Longrightarrow> rw_quiet_inv s"
  using rw_inv_init by (auto simp: rw_quiet_inv_def rw_quiet_init_def rw_init_def acl_fiber_rwlock_create_def)

lemma rw_quiet_inv_step:
  assumes "rw_quiet_step s t" "rw_quiet_inv s"
  shows "rw_quiet_inv t"
proof -
  have inv: "rw_inv s" and nc: "\<not> acl_fiber_canceled (rs_th s) f" "\<not> acl_fiber_canceled (rs_th t) f"
    and lost: "rs_lost s = 0" and rq: "rqueue s \<noteq> [] \<Longrightarrow> rw_writer (rs_lock s) \<noteq> None \<or> wqueue s \<noteq> []"
    and wr: "rw_writer (rs_lock s) = Some g \<Longrightarrow> g \<in> rs_win s \<or> th_pc (rs_th s) g = Some PcWlock \<and> runnable (rs_th s) g"
    and step: "rw_step s t" for f g
    using assms by (auto simp: rw_quiet_step_def rw_quiet_inv_def)
  note i = rw_invD [OF inv] and fb = rw_fibersD [OF rw_invD(3) [OF inv]]
  have invt: "rw_inv t" by (rule rw_inv_step [OF step inv])
  have "rs_lost t = 0 \<and> (rqueue t \<noteq> [] \<longrightarrow> rw_writer (rs_lock t) \<noteq> None \<or> wqueue t \<noteq> [])
     \<and> (\<forall>f. rw_writer (rs_lock t) = Some f \<longrightarrow> f \<in> rs_win t \<or> th_pc (rs_th t) f = Some PcWlock \<and> runnable (rs_th t) f)"
    using step
  proof cases
    case (rw_env u)
    have e: "env_ok (rs_th s) u" by (rule env_step_ok [OF rw_env(2) i(1)])
    then have "th_rings u (RWaiting n) = th_rings (rs_th s) (RWaiting n)" "th_pc u = th_pc (rs_th s)" for n
      using nc(2) rw_env(1) by (auto simp: env_ok_def)
    moreover have "runnable u g" if "th_pc (rs_th s) g = Some PcWlock" "runnable (rs_th s) g" for g
      using that e by (auto simp: env_ok_def)
    ultimately show ?thesis using rw_env(1) lost rq wr by auto
  next
    case (rw_rlock f block lk u r)
    show ?thesis
    proof (cases "rw_writer (rs_lock s) = None \<and> first_fiber (rs_th s) (RWaiting (rw_wwaiting (rs_lock s))) = None")
      case True
      then have "lk = (rs_lock s)\<lparr>rw_readers := rw_readers (rs_lock s) + 1\<rparr>" "u = rs_th s"
        using rw_rlock(5) by (auto simp: rlock_begin_def)
      then show ?thesis using rw_rlock(1) lost rq wr by auto
    next
      case False
      show ?thesis
      proof (cases block)
        case True
        obtain v where v: "fiber_block (rs_th s) f (RWaiting (rw_rwaiting (rs_lock s))) 128 PcRlock = Ret v"
          "th_pc v = (th_pc (rs_th s))(f := Some PcRlock)"
          "\<And>m. th_rings v (RWaiting m) = th_rings (rs_th s) (RWaiting m) @ (if m = rw_rwaiting (rs_lock s) then [f] else [])"
          "\<And>g. runnable v g \<longleftrightarrow> g \<noteq> f \<and> runnable (rs_th s) g"
          by (rule rw_inv_block [OF inv rw_rlock(2-4), of "rw_rwaiting (rs_lock s)" PcRlock]) blast+
        then have "lk = rs_lock s" "u = v" "r = None" using rw_rlock(2,5) False True by (auto simp: rlock_begin_def)
        moreover have "th_pc (rs_th s) g = Some PcWlock \<Longrightarrow> g \<noteq> f" for g using rw_rlock(3) by auto
        ultimately show ?thesis using False v(2-4) rw_rlock(1) lost wr by (auto simp: first_fiber_simps)
      qed (use rw_rlock False lost rq wr in \<open>auto simp: rlock_begin_def\<close>)
    qed
  next
    case (rw_wlock f block lk u r)
    show ?thesis
    proof (cases "rw_writer (rs_lock s) = None \<and> rw_readers (rs_lock s) = 0")
      case True
      then have "lk = (rs_lock s)\<lparr>rw_writer := Some f\<rparr>" "u = rs_th s" "r = Some 0"
        using rw_wlock(2,5) by (auto simp: wlock_begin_def)
      then show ?thesis using rw_wlock(1) lost by auto
    next
      case False
      then have pos: "rw_writer (rs_lock s) \<noteq> None \<or> rw_readers (rs_lock s) > 0" using i(4) by (auto simp: rw_counts_def)
      show ?thesis
      proof (cases block)
        case True
        obtain v where v: "fiber_block (rs_th s) f (RWaiting (rw_wwaiting (rs_lock s))) 128 PcWlock = Ret v"
          "th_pc v = (th_pc (rs_th s))(f := Some PcWlock)"
          "\<And>m. th_rings v (RWaiting m) = th_rings (rs_th s) (RWaiting m) @ (if m = rw_wwaiting (rs_lock s) then [f] else [])"
          "\<And>g. runnable v g \<longleftrightarrow> g \<noteq> f \<and> runnable (rs_th s) g"
          by (rule rw_inv_block [OF inv rw_wlock(2-4), of "rw_wwaiting (rs_lock s)" PcWlock]) (use pos in blast)+
        then have "lk = rs_lock s" "u = v" "r = None" using rw_wlock(2,5) False True by (auto simp: wlock_begin_def)
        moreover have "rw_writer (rs_lock s) \<noteq> Some f" using wr [of f] rw_wlock(3,4) by auto
        ultimately show ?thesis using v(2-4) rw_wlock(1) lost wr by auto
      qed (use rw_wlock False lost rq wr in \<open>auto simp: wlock_begin_def\<close>)
    qed
  next
    case (rw_rresume f u r)
    note u = rwlock_resume_ok [OF i(1) rw_rresume(2,4)]
    have "th_pc (rs_th s) g = Some PcWlock \<Longrightarrow> g \<noteq> f" for g using rw_rresume(3) by auto
    then show ?thesis using u(2,4,5,7) nc(1) rw_rresume(1) lost rq wr by auto
  next
    case (rw_wresume f u r)
    note u = rwlock_resume_ok [OF i(1) rw_wresume(2,4)]
    show ?thesis using u(2,4,5,7) nc(1) rw_wresume(1) lost rq wr by auto
  next
    case (rw_runlock f lk u)
    have w0: "rw_writer (rs_lock s) = None"
    proof -
      have "finite (rs_rin s)" "rw_readers (rs_lock s) \<ge> int (card (rs_rin s))" using i(4) by (auto simp: rw_counts_def)
      moreover have "card (rs_rin s) > 0" using rw_runlock(4) \<open>finite (rs_rin s)\<close> by (auto simp: card_gt_0_iff)
      ultimately have "rw_readers (rs_lock s) > 0" by linarith
      then show ?thesis using i(4) by (auto simp: rw_counts_def)
    qed
    obtain lk' v where v: "acl_fiber_rwlock_runlock (rs_lock s) (rs_th s) = Ret (lk', v)"
      "th_pc v = th_pc (rs_th s)" "rw_rwaiting lk' = rw_rwaiting (rs_lock s)"
      "th_rings v (RWaiting (rw_rwaiting lk')) = rqueue s"
      "rqueue s \<noteq> [] \<Longrightarrow> wqueue s \<noteq> [] \<Longrightarrow> rw_writer lk' \<noteq> None \<or> th_rings v (RWaiting (rw_wwaiting lk')) \<noteq> []"
      "\<And>h. rw_writer lk' = Some h \<Longrightarrow> th_pc v h = Some PcWlock \<and> runnable v h"
      using rw_inv_runlock [OF inv rw_runlock(2,4)] by metis
    then have "lk = lk'" "u = v" using rw_runlock(5) by simp_all
    then show ?thesis using v rw_runlock(1) lost rq w0 by auto
  next
    case (rw_wunlock f lk u)
    obtain lk' v where v: "acl_fiber_rwlock_wunlock (rs_lock s) (rs_th s) = Ret (lk', v)"
      "th_pc v = th_pc (rs_th s)" "th_rings v (RWaiting (rw_rwaiting lk')) = []"
      "rw_writer lk' = (if rqueue s = [] then first_fiber (rs_th s) (RWaiting (rw_wwaiting (rs_lock s))) else None)"
      "\<And>h. h \<in> set (rqueue s) \<or> rw_writer lk' = Some h \<Longrightarrow> runnable v h"
      using rw_inv_wunlock [OF inv rw_wunlock(2,4)] by metis
    then have "lk = lk'" "u = v" using rw_wunlock(5) by simp_all
    moreover have "th_pc (rs_th s) g = Some PcWlock" if "first_fiber (rs_th s) (RWaiting (rw_wwaiting (rs_lock s))) = Some g" for g
      using that fb(2) [of g] by (auto simp: first_fiber_simps)
    ultimately show ?thesis using v rw_wunlock(1) lost by (auto split: if_splits)
  qed
  with invt nc(2) show ?thesis by (simp add: rw_quiet_inv_def)
qed

interpretation rwq: sync_object rw_quiet_init rw_quiet_step rw_quiet_inv
  by unfold_locales (auto intro: rw_quiet_inv_init rw_quiet_inv_step)

subsection \<open>What cancelation does to the lock\<close>

text \<open>Fiber 1 runs, 2 and 3 are ready.\<close>

definition three_fibers :: thread where
  "three_fibers = \<lparr>
    th_fibers = (\<lambda>f. \<lparr>f_ring = (if f = 2 \<or> f = 3 then Some RReady else None),
        f_status = (if f = 1 then SRunning else if f = 2 \<or> f = 3 then SReady else SNone),
        f_wstatus = 0, f_flag = 0, f_errnum = 0, f_signum = 0\<rparr>),
    th_rings = (\<lambda>r. if r = RReady then [2, 3] else []),
    th_running = Some 1, th_waiter = 0, th_errno = 0, th_pc = (\<lambda>_. None)\<rparr>"

text \<open>
  Fiber 1 reads, 2 waits to write, so 3 waits to read. After 1 kills 2 and unlocks, the lock is free
  and 3 still waits, with nobody left to wake it.
\<close>

lemma rwlock_reader_stranded:
  "map_cres (\<lambda>(lk, th). (rw_readers lk, rw_writer lk, th_rings th (RWaiting 0), th_rings th (RWaiting 1), th_running th))
     (cbind (rlock_begin (acl_fiber_rwlock_create 0 1) three_fibers True) (\<lambda>(lk, th, _).
      cbind (acl_fiber_yield th) (\<lambda>th.
      cbind (wlock_begin lk th True) (\<lambda>(lk, th, _).
      cbind (rlock_begin lk th True) (\<lambda>(lk, th, _).
      cbind (acl_fiber_kill th 2) (\<lambda>th.
      acl_fiber_rwlock_runlock lk th))))))
   = Ret (0, None, [3], [], Some 1)"
  by code_simp

text \<open>
  Fiber 1 writes, 2 waits to write and 3 kills it after 1 has handed the lock over: 2 gets \<open>-1\<close> and
  the lock stays written by a fiber that does not have it.
\<close>

lemma rwlock_writer_leaked:
  "map_cres (\<lambda>(lk, th, r). (rw_writer lk, r, th_running th))
     (cbind (wlock_begin (acl_fiber_rwlock_create 0 1) three_fibers True) (\<lambda>(lk, th, _).
      cbind (acl_fiber_yield th) (\<lambda>th.
      cbind (wlock_begin lk th True) (\<lambda>(lk, th, _).
      cbind (acl_fiber_yield th) (\<lambda>th.
      cbind (acl_fiber_rwlock_wunlock lk th) (\<lambda>(lk, th).
      cbind (acl_fiber_kill th 2) (\<lambda>th.
      cbind (acl_fiber_switch th) (\<lambda>th.
      Ret (let (th, r) = rwlock_resume th 2 in (lk, th, r))))))))))
   = Ret (Some 2, -1, Some 2)"
  by code_simp

subsection \<open>Properties\<close>

text \<open>Fiber 1 reads while 2 waits to write.\<close>

lemma rwlock_demo:
  "\<exists>s0 s. rw_quiet_init s0 \<and> rw_quiet_step\<^sup>*\<^sup>* s0 s \<and> rs_rin s = {1} \<and> rs_win s = {} \<and> wqueue s = [2]"
proof -
  let ?lk = "acl_fiber_rwlock_create 0 1"
  let ?rk = "?lk\<lparr>rw_readers := 1\<rparr>"
  define st where "st lk u A = \<lparr>rs_lock = lk, rs_th = u, rs_rin = A, rs_win = {}, rs_granted = {}, rs_lost = 0\<rparr>" for lk u A
  note d = demo_thread
  have nc: "\<not> acl_fiber_canceled demo_thread f" for f by (simp add: acl_fiber_canceled_def demo_thread_def)
  have init: "rw_init (st ?lk demo_thread {})"
    unfolding rw_init_def by (intro conjI exI [of _ 0] exI [of _ 1]) (simp_all add: d st_def)
  have 1: "rw_quiet_step (st ?lk demo_thread {}) (st ?rk demo_thread {1})"
    using rw_rlock [of "st ?lk demo_thread {}" 1 True ?rk demo_thread "Some 0"] d nc
    by (simp add: st_def rlock_begin_def acl_fiber_rwlock_create_def first_fiber_def rw_quiet_step_def)
  obtain u where u: "acl_fiber_yield demo_thread = Ret u" "sched_ok u" "th_pc u = th_pc demo_thread"
    "th_waiter u = th_waiter demo_thread" "th_errno u = th_errno demo_thread" "same_flags demo_thread u"
    "\<And>n. th_rings u (RWaiting n) = th_rings demo_thread (RWaiting n)" "\<And>f. runnable u f = runnable demo_thread f"
    "th_running u = Some (hd (th_rings demo_thread RReady @ [1]))"
    by (rule yield_Ret [OF d(1,2)], rule that)
  have 2: "rw_quiet_step (st ?rk demo_thread {1}) (st ?rk u {1})"
    using rw_env [of "st ?rk demo_thread {1}" u] env_yield [OF d(2,4) u(1)] nc same_flags_canceled [OF u(6)]
    by (simp add: st_def rw_quiet_step_def)
  have run: "th_running u = Some 2" using u(9) d(3) by simp
  obtain v where v: "fiber_block u 2 (RWaiting 1) 128 PcWlock = Ret v" "sched_ok v" "th_pc v = (th_pc u)(2 := Some PcWlock)"
    "th_waiter v = th_waiter u + 1" "same_flags u v"
    "\<And>m. th_rings v (RWaiting m) = th_rings u (RWaiting m) @ (if m = 1 then [2] else [])"
    "\<And>f. runnable v f \<longleftrightarrow> f \<noteq> 2 \<and> runnable u f"
    "th_running v = (case th_rings u RReady of [] \<Rightarrow> None | f # _ \<Rightarrow> Some f)"
    by (rule block_Ret [OF u(2) run], rule that)
  have "rw_quiet_step (st ?rk u {1}) (st ?rk v {1})"
    using rw_wlock [of "st ?rk u {1}" 2 True ?rk v None] run d(4) v(1) u(3) nc
      same_flags_canceled [OF u(6)] same_flags_canceled [OF v(5)]
    by (simp add: st_def wlock_begin_def acl_fiber_rwlock_create_def rw_quiet_step_def)
  then have "rw_quiet_step\<^sup>*\<^sup>* (st ?lk demo_thread {}) (st ?rk v {1})"
    using 1 2 by (meson converse_rtranclp_into_rtranclp rtranclp.rtrancl_refl)
  moreover have "rw_quiet_init (st ?lk demo_thread {})" using init nc by (simp add: rw_quiet_init_def st_def)
  moreover have "wqueue (st ?rk v {1}) = [2]" using v(6) u(7) d(6) by (simp add: st_def acl_fiber_rwlock_create_def)
  ultimately show ?thesis by (intro exI conjI) (auto simp: st_def)
qed



text \<open>
  C33: No fiber is forgotten as long as none is canceled: whenever a fiber waits, to read or to write,
  some fiber has the lock, or has been granted it and is scheduled to run.
\<close>

theorem rwlock_no_stranding:
  assumes "rw_quiet_init s0" "rw_quiet_step\<^sup>*\<^sup>* s0 s" "rqueue s \<noteq> [] \<or> wqueue s \<noteq> []"
  shows "rs_rin s \<union> rs_win s \<noteq> {} \<or> (\<exists>g. runnable (rs_th s) g \<and> (g \<in> rs_granted s \<or> rw_writer (rs_lock s) = Some g))"
proof -
  have q: "rw_quiet_inv s" by (rule rwq.reach_inv [OF assms(1,2)])
  then have inv: "rw_inv s" and nc: "\<not> acl_fiber_canceled (rs_th s) f" and lost: "rs_lost s = 0"
    and rq: "rqueue s \<noteq> [] \<Longrightarrow> rw_writer (rs_lock s) \<noteq> None \<or> wqueue s \<noteq> []"
    and wr: "rw_writer (rs_lock s) = Some g \<Longrightarrow> g \<in> rs_win s \<or> th_pc (rs_th s) g = Some PcWlock \<and> runnable (rs_th s) g" for f g
    by (auto simp: rw_quiet_inv_def)
  note i = rw_invD [OF inv] and fb = rw_fibersD [OF rw_invD(3) [OF inv]]
  have "rw_writer (rs_lock s) \<noteq> None \<or> rw_readers (rs_lock s) > 0"
    using assms(3) rq i(4) by (auto simp: rw_counts_def)
  then show ?thesis
  proof
    assume "rw_writer (rs_lock s) \<noteq> None"
    then show ?thesis using wr by blast
  next
    assume "rw_readers (rs_lock s) > 0"
    then have "rs_rin s \<noteq> {} \<or> rs_granted s \<noteq> {}" using i(4) lost by (auto simp: rw_counts_def)
    then show ?thesis
    proof
      assume "rs_granted s \<noteq> {}"
      then obtain g where "g \<in> rs_granted s" by blast
      then show ?thesis using fb(1) [of g] fb(3) [of g] fb(4) [of g] by blast
    qed blast
  qed
qed

theorem rwlock_no_stranding_witness: "\<exists>s. wqueue s = [2] \<and> rs_rin s \<union> rs_win s \<noteq> {}"
proof -
  obtain s0 s where s: "rw_quiet_init s0" "rw_quiet_step\<^sup>*\<^sup>* s0 s" "rs_rin s = {1}" "wqueue s = [2]" using rwlock_demo by blast
  show ?thesis using rwlock_no_stranding [OF s(1,2)] s(3,4) by blast
qed

end
