(* ===== verification/Fiber_Channel.thy ===== *)
theory Fiber_Channel
  imports Fiber_Sched
begin

text \<open>
  The channels of \<open>lib_fiber/c/src/sync/channel.c\<close>: a ring buffer of elements and the operations that
  wait for it. An operation is a \<open>FIBER_ALT\<close> in an array on the stack of the fiber that calls
  \<open>channel_alt\<close>; \<open>cs_frame\<close> is that array, empty when the fiber is in no such call, and the address
  of its entry \<open>i\<close> is the pair of the fiber and \<open>i\<close>. \<open>cs_xalt\<close> is \<open>a[0].xalt - a\<close>. A pointer \<open>v\<close> to an
  element is \<open>None\<close> for \<open>NULL\<close>, otherwise the \<open>elemsize\<close> bytes at it, so receiving changes it. The
  results of \<open>rand\<close> are arguments. \<open>Fault\<close> is an access through a dead entry, outside the buffer, a
  failed \<open>assert\<close> or \<open>msg_fatal\<close>, and a counter that would wrap.
\<close>

datatype chan_op = CHANEND | CHANSND | CHANRCV | CHANNOP | CHANNOBLK

type_synonym alt_id = "nat \<times> nat"

record chan_alt =
  al_c :: nat
  al_v :: "byte list option"
  al_op :: chan_op
  al_fiber :: nat

record channel =
  ch_bufsize :: nat
  ch_elemsize :: nat
  ch_buf :: "byte list list"
  ch_nbuf :: nat
  ch_off :: nat
  ch_asend :: "alt_id list"
  ch_arecv :: "alt_id list"

record chans =
  cs_th :: thread
  cs_ch :: "nat \<Rightarrow> channel"
  cs_frame :: "nat \<Rightarrow> chan_alt list"
  cs_xalt :: "nat \<Rightarrow> nat"

subsection \<open>Operations\<close>

definition acl_channel_create :: "nat \<Rightarrow> nat \<Rightarrow> channel" where
  "acl_channel_create elemsize bufsize =
    \<lparr>ch_bufsize = bufsize, ch_elemsize = elemsize, ch_buf = replicate bufsize (replicate elemsize 0),
     ch_nbuf = 0, ch_off = 0, ch_asend = [], ch_arecv = []\<rparr>"

definition set_ch :: "chans \<Rightarrow> nat \<Rightarrow> channel \<Rightarrow> chans" where
  "set_ch st c x = st\<lparr>cs_ch := (cs_ch st)(c := x)\<rparr>"

definition alt_get :: "chans \<Rightarrow> alt_id \<Rightarrow> chan_alt cres" where
  "alt_get st x = tab_at (cs_frame st (fst x)) (snd x)"

definition alt_set_v :: "chans \<Rightarrow> alt_id \<Rightarrow> byte list option \<Rightarrow> chans" where
  "alt_set_v st x v = st\<lparr>cs_frame := (cs_frame st)
     (fst x := (cs_frame st (fst x))[snd x := (cs_frame st (fst x) ! snd x)\<lparr>al_v := v\<rparr>])\<rparr>"

text \<open>\<open>array_add\<close> appends; \<open>array_del\<close> moves the last entry into the hole.\<close>

definition array_del :: "alt_id list \<Rightarrow> nat \<Rightarrow> alt_id list" where
  "array_del a i = (butlast a)[i := last a]"

fun otherop :: "chan_op \<Rightarrow> chan_op" where
  "otherop CHANSND = CHANRCV"
| "otherop CHANRCV = CHANSND"
| "otherop CHANEND = CHANNOP"
| "otherop CHANNOP = CHANEND"
| "otherop CHANNOBLK = CHANNOBLK"

fun channel_array :: "channel \<Rightarrow> chan_op \<Rightarrow> alt_id list option" where
  "channel_array c CHANSND = Some (ch_asend c)"
| "channel_array c CHANRCV = Some (ch_arecv c)"
| "channel_array c _ = None"

fun set_array :: "channel \<Rightarrow> chan_op \<Rightarrow> alt_id list \<Rightarrow> channel" where
  "set_array c CHANSND a = c\<lparr>ch_asend := a\<rparr>"
| "set_array c CHANRCV a = c\<lparr>ch_arecv := a\<rparr>"
| "set_array c _ a = c"

definition alt_can_exec :: "chans \<Rightarrow> chan_alt \<Rightarrow> bool" where
  "alt_can_exec st a =
    (let c = cs_ch st (al_c a) in
     if al_op a = CHANNOP then False
     else if ch_bufsize c = 0
       then (case channel_array c (otherop (al_op a)) of None \<Rightarrow> False | Some ar \<Rightarrow> ar \<noteq> [])
     else (case al_op a of
         CHANSND \<Rightarrow> ch_nbuf c < ch_bufsize c
       | CHANRCV \<Rightarrow> ch_nbuf c > 0
       | _ \<Rightarrow> False))"

definition alt_queue :: "chans \<Rightarrow> alt_id \<Rightarrow> chans cres" where
  "alt_queue st x = cbind (alt_get st x) (\<lambda>a. let c = cs_ch st (al_c a) in
    case channel_array c (al_op a) of None \<Rightarrow> Fault
    | Some ar \<Rightarrow> Ret (set_ch st (al_c a) (set_array c (al_op a) (ar @ [x]))))"

fun find_alt :: "alt_id list \<Rightarrow> alt_id \<Rightarrow> nat option" where
  "find_alt [] x = None"
| "find_alt (y # ys) x = (if y = x then Some 0 else map_option Suc (find_alt ys x))"

definition alt_dequeue :: "chans \<Rightarrow> alt_id \<Rightarrow> chans cres" where
  "alt_dequeue st x = cbind (alt_get st x) (\<lambda>a. let c = cs_ch st (al_c a) in
    case channel_array c (al_op a) of None \<Rightarrow> Fault
    | Some ar \<Rightarrow> (case find_alt ar x of None \<Rightarrow> Fault
      | Some i \<Rightarrow> Ret (set_ch st (al_c a) (set_array c (al_op a) (array_del ar i)))))"

text \<open>The loops over the entries of an array: \<open>alt_all_dequeue\<close>, and the queueing in \<open>channel_alt\<close>.\<close>

fun alt_each :: "(chans \<Rightarrow> alt_id \<Rightarrow> chans cres) \<Rightarrow> chans \<Rightarrow> nat \<Rightarrow> nat list \<Rightarrow> chans cres" where
  "alt_each f st g [] = Ret st"
| "alt_each f st g (i # is) = cbind (alt_get st (g, i)) (\<lambda>a.
     cbind (if al_op a \<noteq> CHANNOP then f st (g, i) else Ret st) (\<lambda>st. alt_each f st g is))"

definition alt_all_dequeue :: "chans \<Rightarrow> nat \<Rightarrow> chans cres" where
  "alt_all_dequeue st g = alt_each alt_dequeue st g [0..<length (cs_frame st g)]"

text \<open>\<open>amove\<close>: the new contents of \<open>dst\<close>.\<close>

definition zero_fill :: "nat \<Rightarrow> byte list option \<Rightarrow> byte list" where
  "zero_fill n src = (case src of None \<Rightarrow> replicate n 0 | Some x \<Rightarrow> x)"

definition amove :: "byte list option \<Rightarrow> byte list option \<Rightarrow> nat \<Rightarrow> byte list option" where
  "amove dst src n = (case dst of None \<Rightarrow> None | Some _ \<Rightarrow> Some (zero_fill n src))"

text \<open>The two halves of \<open>alt_copy\<close> that move an element out of and into the buffer.\<close>

definition buf_take :: "channel \<Rightarrow> (channel \<times> byte list) cres" where
  "buf_take c =
    (if ch_nbuf c = 0 \<or> ch_off c \<ge> length (ch_buf c) then Fault
     else Ret (c\<lparr>ch_nbuf := ch_nbuf c - 1,
                 ch_off := (if ch_off c + 1 = ch_bufsize c then 0 else ch_off c + 1)\<rparr>, ch_buf c ! ch_off c))"

definition buf_put :: "channel \<Rightarrow> byte list option \<Rightarrow> channel cres" where
  "buf_put c v =
    (if ch_bufsize c = 0 then Fault
     else let i = (ch_off c + ch_nbuf c) mod ch_bufsize c in
       if i \<ge> length (ch_buf c) then Fault
       else Ret (c\<lparr>ch_buf := (ch_buf c)[i := zero_fill (ch_elemsize c) v], ch_nbuf := ch_nbuf c + 1\<rparr>))"

definition alt_role :: "chans \<Rightarrow> alt_id option \<Rightarrow> chan_op \<Rightarrow> chan_alt option cres" where
  "alt_role st x opr = (case x of None \<Rightarrow> Ret None
    | Some x \<Rightarrow> cbind (alt_get st x) (\<lambda>a. if al_op a = opr then Ret (Some a) else Fault))"

definition alt_copy :: "chans \<Rightarrow> alt_id \<Rightarrow> alt_id option \<Rightarrow> chans cres" where
  "alt_copy st x y = cbind (alt_get st x) (\<lambda>a.
    let ci = al_c a; c = cs_ch st ci;
        (s, r) = (if al_op a = CHANRCV then (y, Some x) else (Some x, y)) in
    cbind (alt_role st s CHANSND) (\<lambda>sa.
    cbind (alt_role st r CHANRCV) (\<lambda>ra.
      if sa \<noteq> None \<and> ra \<noteq> None \<and> ch_nbuf c = 0
      then Ret (alt_set_v st (the r) (amove (al_v (the ra)) (al_v (the sa)) (ch_elemsize c)))
      else
        cbind (case ra of None \<Rightarrow> Ret st
          | Some ra \<Rightarrow> map_cres (\<lambda>(d, e). alt_set_v (set_ch st ci d) (the r) (amove (al_v ra) (Some e) (ch_elemsize c)))
                        (buf_take c)) (\<lambda>st.
        case sa of None \<Rightarrow> Ret st
        | Some sa \<Rightarrow> map_cres (set_ch st ci) (buf_put (cs_ch st ci) (al_v sa))))))"

text \<open>What \<open>alt_exec\<close> does to the operation it has served.\<close>

definition alt_serve :: "chans \<Rightarrow> alt_id \<Rightarrow> chans cres" where
  "alt_serve st y = cbind (alt_get st y) (\<lambda>a.
    cbind (alt_all_dequeue st (fst y)) (\<lambda>st.
      let st = st\<lparr>cs_xalt := (cs_xalt st)(fst y := snd y)\<rparr> in
      map_cres (\<lambda>th. st\<lparr>cs_th := th\<rparr>) (acl_fiber_ready (cs_th st) (al_fiber a))))"

definition alt_exec :: "chans \<Rightarrow> alt_id \<Rightarrow> nat \<Rightarrow> chans cres" where
  "alt_exec st x rnd = cbind (alt_get st x) (\<lambda>a.
    case channel_array (cs_ch st (al_c a)) (otherop (al_op a)) of
      None \<Rightarrow> alt_copy st x None
    | Some ar \<Rightarrow> if ar = [] then alt_copy st x None
        else let y = ar ! (rnd mod length ar) in cbind (alt_copy st x (Some y)) (\<lambda>st. alt_serve st y))"

text \<open>
  \<open>channel_alt\<close> on the entries in front of the terminator, up to its switch: the index of the
  operation it has executed, \<open>-1\<close> when it may not wait, \<open>None\<close> when the fiber is suspended.
\<close>

definition channel_alt :: "chans \<Rightarrow> nat \<Rightarrow> chan_alt list \<Rightarrow> bool \<Rightarrow> nat \<Rightarrow> nat \<Rightarrow> (chans \<times> int option) cres" where
  "channel_alt st t a canblock rnd rnd' =
    (let st = st\<lparr>cs_frame := (cs_frame st)(t := map (\<lambda>x. x\<lparr>al_fiber := t\<rparr>) a), cs_xalt := (cs_xalt st)(t := 0)\<rparr>;
         can = filter (\<lambda>i. alt_can_exec st (cs_frame st t ! i)) [0..<length a] in
     if can \<noteq> [] then
       let i = can ! (rnd mod length can) in map_cres (\<lambda>st. (st, Some (int i))) (alt_exec st (t, i) rnd')
     else if \<not> canblock then Ret (st, Some (-1))
     else cbind (alt_each alt_queue st t [0..<length a]) (\<lambda>st.
       map_cres (\<lambda>th. (st\<lparr>cs_th := th\<rparr>, None)) (fiber_suspend (cs_th st) t PcChan)))"

text \<open>The end of \<open>channel_op\<close>, which gives up the array: the result and what \<open>v\<close> points to.\<close>

definition channel_return :: "chans \<Rightarrow> nat \<Rightarrow> int \<Rightarrow> chans \<times> int \<times> byte list option" where
  "channel_return st t r =
    (st\<lparr>cs_frame := (cs_frame st)(t := [])\<rparr>, if r < 0 then -1 else 1, al_v (hd (cs_frame st t)))"

definition channel_op ::
    "chans \<Rightarrow> nat \<Rightarrow> nat \<Rightarrow> chan_op \<Rightarrow> byte list option \<Rightarrow> bool \<Rightarrow> nat \<Rightarrow> nat
     \<Rightarrow> (chans \<times> (int \<times> byte list option) option) cres" where
  "channel_op st t c opr v canblock rnd rnd' =
    map_cres (\<lambda>(st, r). case r of None \<Rightarrow> (st, None)
        | Some r \<Rightarrow> let (st, x) = channel_return st t r in (st, Some x))
      (channel_alt st t [\<lparr>al_c = c, al_v = v, al_op = opr, al_fiber = t\<rparr>] canblock rnd rnd')"

text \<open>\<open>channel_alt\<close> and \<open>channel_op\<close> behind the switch.\<close>

definition channel_resume :: "chans \<Rightarrow> nat \<Rightarrow> chans \<times> int \<times> byte list option" where
  "channel_resume st t =
    (let st = st\<lparr>cs_th := fiber_resume (cs_th st) t\<rparr> in
     channel_return st t (if acl_fiber_killed (cs_th st) t then -1 else int (cs_xalt st t)))"

definition acl_channel_send where "acl_channel_send st t c v = channel_op st t c CHANSND v True"
definition acl_channel_send_nb where "acl_channel_send_nb st t c v = channel_op st t c CHANSND v False"
definition acl_channel_recv where "acl_channel_recv st t c v = channel_op st t c CHANRCV v True"
definition acl_channel_recv_nb where "acl_channel_recv_nb st t c v = channel_op st t c CHANRCV v False"

subsection \<open>The buffer is a bounded queue\<close>

definition content :: "channel \<Rightarrow> byte list list" where
  "content c = map (\<lambda>i. ch_buf c ! ((ch_off c + i) mod ch_bufsize c)) [0..<ch_nbuf c]"

definition ch_ok :: "channel \<Rightarrow> bool" where
  "ch_ok c \<longleftrightarrow> length (ch_buf c) = ch_bufsize c \<and> ch_nbuf c \<le> ch_bufsize c
     \<and> (ch_off c < ch_bufsize c \<or> ch_bufsize c = 0)"

lemma length_content [simp]: "length (content c) = ch_nbuf c"
  by (simp add: content_def)

lemma content_Nil [simp]: "ch_nbuf c = 0 \<Longrightarrow> content c = []"
  by (simp add: content_def)

lemma content_arrays [simp]: "content (c\<lparr>ch_asend := a\<rparr>) = content c" "content (c\<lparr>ch_arecv := a\<rparr>) = content c"
  "ch_ok (c\<lparr>ch_asend := a\<rparr>) = ch_ok c" "ch_ok (c\<lparr>ch_arecv := a\<rparr>) = ch_ok c"
  by (simp_all add: content_def ch_ok_def)

definition same_arrays :: "channel \<Rightarrow> channel \<Rightarrow> bool" where
  "same_arrays c d \<longleftrightarrow> ch_bufsize d = ch_bufsize c \<and> ch_elemsize d = ch_elemsize c
     \<and> ch_asend d = ch_asend c \<and> ch_arecv d = ch_arecv c"

lemma buf_take_Ret:
  assumes "ch_ok c" "content c = x # xs"
  obtains d where "buf_take c = Ret (d, x)" "ch_ok d" "content d = xs" "same_arrays c d"
proof -
  let ?n = "ch_nbuf c" and ?m = "ch_bufsize c"
  let ?d = "c\<lparr>ch_nbuf := ?n - 1, ch_off := (if ch_off c + 1 = ?m then 0 else ch_off c + 1)\<rparr>"
  have n: "?n = Suc (length xs)" using assms(2) length_content [of c] by simp
  with assms(1) have off: "ch_off c < ?m" and len: "length (ch_buf c) = ?m" by (auto simp: ch_ok_def)
  have x: "x = ch_buf c ! ch_off c" using assms(2) n off by (simp add: content_def upt_conv_Cons del: upt_Suc)
  have "content ?d ! i = xs ! i" if "i < length xs" for i
  proof -
    have "xs ! i = content c ! Suc i" by (simp add: assms(2))
    also have "\<dots> = ch_buf c ! ((ch_off c + Suc i) mod ?m)" using that n by (simp add: content_def del: upt_Suc)
    also have "(ch_off c + Suc i) mod ?m = (ch_off ?d + i) mod ?m"
    proof (cases "Suc (ch_off c) = ?m")
      case True
      then have "ch_off c + Suc i = ?m + i" by simp
      then have "(ch_off c + Suc i) mod ?m = (?m + i) mod ?m" by (simp only:)
      then show ?thesis using True by simp
    qed simp
    finally show ?thesis using that n by (simp add: content_def)
  qed
  then have "content ?d = xs" using n by (intro nth_equalityI) auto
  then show ?thesis
    using assms(1) n off len x by (intro that [of ?d]) (auto simp: buf_take_def ch_ok_def same_arrays_def)
qed

lemma buf_put_Ret:
  assumes "ch_ok c" "ch_nbuf c < ch_bufsize c"
  obtains d where "buf_put c v = Ret d" "ch_ok d" "content d = content c @ [zero_fill (ch_elemsize c) v]" "same_arrays c d"
proof -
  let ?n = "ch_nbuf c" and ?m = "ch_bufsize c"
  let ?k = "(ch_off c + ?n) mod ?m" and ?z = "zero_fill (ch_elemsize c) v"
  let ?d = "c\<lparr>ch_buf := (ch_buf c)[?k := ?z], ch_nbuf := ?n + 1\<rparr>"
  have len: "length (ch_buf c) = ?m" and m: "0 < ?m" and off: "ch_off c < ?m" using assms by (auto simp: ch_ok_def)
  have "?k \<noteq> (ch_off c + i) mod ?m" if "i < ?n" for i
    using that assms(2) off by (auto simp: mod_if split: if_splits)
  then have "content ?d ! i = (content c @ [?z]) ! i" if "i < Suc ?n" for i
    using that len m by (cases "i = ?n") (simp_all add: content_def nth_append del: upt_Suc)
  then have "content ?d = content c @ [?z]" by (intro nth_equalityI) simp_all
  moreover have "buf_put c v = Ret ?d" using m len by (simp add: buf_put_def Let_def not_le)
  ultimately show ?thesis using assms len off by (intro that [of ?d]) (simp_all add: ch_ok_def same_arrays_def)
qed

subsection \<open>Entries\<close>

lemma array_del_mset: "i < length a \<Longrightarrow> mset (array_del a i) = mset a - {#a ! i#}"
proof (cases a rule: rev_cases)
  case (snoc b z)
  moreover assume "i < length a"
  ultimately show ?thesis
    by (cases "i < length b") (auto simp: array_del_def mset_update nth_append less_Suc_eq list_update_beyond)
qed simp

lemma array_del:
  assumes "distinct a" "i < length a"
  shows "set (array_del a i) = set a - {a ! i}" "distinct (array_del a i)"
proof -
  have m: "mset (array_del a i) = mset (remove1 (a ! i) a)" using array_del_mset [OF assms(2)] by simp
  then show "set (array_del a i) = set a - {a ! i}" using assms(1) mset_eq_setD [OF m] by simp
  show "distinct (array_del a i)" using assms(1) mset_eq_imp_distinct_iff [OF m] by simp
qed

lemma find_alt: "find_alt a x = (if x \<in> set a then find_alt a x else None)"
  by (induction a) auto

lemma find_alt_nth: "distinct a \<Longrightarrow> i < length a \<Longrightarrow> find_alt a (a ! i) = Some i"
proof (induction a arbitrary: i)
  case (Cons y ys)
  then show ?case by (cases i) (auto simp: nth_eq_iff_index_eq)
qed simp

subsection \<open>Consistency of channels and fibers\<close>

text \<open>An entry that is queued: its fiber is suspended in the operation.\<close>

definition waits :: "chans \<Rightarrow> nat \<Rightarrow> chan_op \<Rightarrow> alt_id \<Rightarrow> bool" where
  "waits st c opr x \<longleftrightarrow> snd x = 0 \<and> th_pc (cs_th st) (fst x) = Some PcChan \<and> \<not> runnable (cs_th st) (fst x)
     \<and> (\<exists>v. cs_frame st (fst x) = [\<lparr>al_c = c, al_v = v, al_op = opr, al_fiber = fst x\<rparr>])"

text \<open>Senders wait only for a full channel, receivers only for an empty one, and never both.\<close>

definition chan_ok :: "chans \<Rightarrow> nat \<Rightarrow> bool" where
  "chan_ok st c \<longleftrightarrow> ch_ok (cs_ch st c) \<and> distinct (ch_asend (cs_ch st c)) \<and> distinct (ch_arecv (cs_ch st c))
     \<and> (ch_asend (cs_ch st c) \<noteq> [] \<longrightarrow> ch_nbuf (cs_ch st c) = ch_bufsize (cs_ch st c) \<and> ch_arecv (cs_ch st c) = [])
     \<and> (ch_arecv (cs_ch st c) \<noteq> [] \<longrightarrow> ch_nbuf (cs_ch st c) = 0)
     \<and> (\<forall>x \<in> set (ch_asend (cs_ch st c)). waits st c CHANSND x)
     \<and> (\<forall>x \<in> set (ch_arecv (cs_ch st c)). waits st c CHANRCV x)"

definition queued :: "chans \<Rightarrow> nat \<Rightarrow> nat \<Rightarrow> bool" where
  "queued st c f \<longleftrightarrow> (f, 0) \<in> set (ch_asend (cs_ch st c)) \<union> set (ch_arecv (cs_ch st c))"

definition chan_inv :: "chans \<Rightarrow> bool" where
  "chan_inv st \<longleftrightarrow> sched_ok (cs_th st) \<and> calls_ok (cs_th st) \<and> (\<forall>f. th_pc (cs_th st) f \<in> {None, Some PcChan})
     \<and> (\<forall>f. th_pc (cs_th st) f \<noteq> None \<longrightarrow> \<not> acl_fiber_canceled (cs_th st) f) \<and> (\<forall>c. chan_ok st c)
     \<and> (\<forall>f. th_pc (cs_th st) f = Some PcChan \<longrightarrow> runnable (cs_th st) f \<or> (\<exists>c. queued st c f))"

lemma chan_invD:
  assumes "chan_inv st"
  shows "sched_ok (cs_th st)" "calls_ok (cs_th st)" "th_pc (cs_th st) f \<in> {None, Some PcChan}"
    "th_pc (cs_th st) f \<noteq> None \<Longrightarrow> \<not> acl_fiber_canceled (cs_th st) f" "chan_ok st c"
    "th_pc (cs_th st) f = Some PcChan \<Longrightarrow> runnable (cs_th st) f \<or> (\<exists>c. queued st c f)"
  using assms by (auto simp: chan_inv_def)

lemma chan_okD:
  assumes "chan_ok st c"
  shows "ch_ok (cs_ch st c)" "distinct (ch_asend (cs_ch st c))" "distinct (ch_arecv (cs_ch st c))"
    "ch_asend (cs_ch st c) \<noteq> [] \<Longrightarrow> ch_nbuf (cs_ch st c) = ch_bufsize (cs_ch st c) \<and> ch_arecv (cs_ch st c) = []"
    "ch_arecv (cs_ch st c) \<noteq> [] \<Longrightarrow> ch_nbuf (cs_ch st c) = 0"
    "x \<in> set (ch_asend (cs_ch st c)) \<Longrightarrow> waits st c CHANSND x"
    "x \<in> set (ch_arecv (cs_ch st c)) \<Longrightarrow> waits st c CHANRCV x"
  using assms by (auto simp: chan_ok_def)

lemma waits_frame:
  assumes "waits st c opr x" "cs_frame st' (fst x) = cs_frame st (fst x)"
    "th_pc (cs_th st') (fst x) = th_pc (cs_th st) (fst x)" "runnable (cs_th st') (fst x) \<Longrightarrow> runnable (cs_th st) (fst x)"
  shows "waits st' c opr x"
  using assms by (auto simp: waits_def)

lemma queuedI:
  assumes "chan_ok st c" "x \<in> set (ch_asend (cs_ch st c)) \<or> x \<in> set (ch_arecv (cs_ch st c))"
  shows "queued st c (fst x)"
proof -
  have "snd x = 0" using assms chan_okD(6,7) [OF assms(1), of x] by (auto simp: waits_def)
  then have "x = (fst x, 0)" by (simp add: prod_eq_iff)
  with assms(2) show ?thesis by (auto simp: queued_def)
qed

lemma chan_ok_frame:
  assumes "chan_ok st c" "cs_ch st' c = cs_ch st c"
    "\<And>f. queued st c f \<Longrightarrow> cs_frame st' f = cs_frame st f \<and> th_pc (cs_th st') f = th_pc (cs_th st) f
      \<and> (runnable (cs_th st') f \<longrightarrow> runnable (cs_th st) f)"
  shows "chan_ok st' c"
proof -
  have w: "waits st' c opr x" if "waits st c opr x" "queued st c (fst x)" for opr x
    using assms(3) [OF that(2)] by (intro waits_frame [OF that(1)]) simp_all
  show ?thesis
    unfolding chan_ok_def assms(2)
    using assms(1) w [OF chan_okD(6) [OF assms(1)]] w [OF chan_okD(7) [OF assms(1)]] queuedI [OF assms(1)]
    by (simp add: chan_ok_def)
qed

text \<open>What a queued fiber is.\<close>

lemma queuedD:
  assumes "chan_ok st c" "queued st c f"
  shows "th_pc (cs_th st) f = Some PcChan" "\<not> runnable (cs_th st) f"
    "\<exists>v opr. cs_frame st f = [\<lparr>al_c = c, al_v = v, al_op = opr, al_fiber = f\<rparr>]"
  using assms chan_okD(6,7) [OF assms(1), of "(f, 0)"] by (auto simp: queued_def waits_def)

subsection \<open>Serving a waiting fiber\<close>

lemma serve_Ret:
  assumes ok: "sched_ok (cs_th st)" and w: "waits st c opr (g, 0)"
    and ar: "channel_array (cs_ch st c) opr = Some ar" "distinct ar" "i < length ar" "ar ! i = (g, 0)"
  obtains u where "alt_serve st (g, 0) =
      Ret (st\<lparr>cs_th := u, cs_ch := (cs_ch st)(c := set_array (cs_ch st c) opr (array_del ar i)), cs_xalt := (cs_xalt st)(g := 0)\<rparr>)"
    "sched_ok u" "th_pc u = th_pc (cs_th st)" "th_waiter u = th_waiter (cs_th st)" "same_flags (cs_th st) u"
    "\<And>h. runnable u h \<longleftrightarrow> h = g \<or> runnable (cs_th st) h"
proof -
  have pc: "th_pc (cs_th st) g = Some PcChan" "\<not> runnable (cs_th st) g" using w by (simp_all add: waits_def)
  then have "f_status (th_fibers (cs_th st) g) \<noteq> SExiting" "th_running (cs_th st) \<noteq> Some g"
    using sched_okD(5) [OF ok, of g] by (auto simp: runnable_def)
  then obtain u where u: "acl_fiber_ready (cs_th st) g = Ret u" "sched_ok u" "th_pc u = th_pc (cs_th st)"
    "th_waiter u = th_waiter (cs_th st)" "th_errno u = th_errno (cs_th st)" "same_flags (cs_th st) u"
    "\<And>n. th_rings u (RWaiting n) = remove1 g (th_rings (cs_th st) (RWaiting n))"
    "th_rings u RReady = remove1 g (th_rings (cs_th st) RReady) @ [g]"
    "\<And>h. runnable u h \<longleftrightarrow> h = g \<or> runnable (cs_th st) h" "th_running u = th_running (cs_th st)"
    by - (rule wake_any_Ret [OF ok], assumption, assumption, rule that)
  obtain v where f: "cs_frame st g = [\<lparr>al_c = c, al_v = v, al_op = opr, al_fiber = g\<rparr>]"
    using w by (auto simp: waits_def)
  have "find_alt ar (g, 0) = Some i" using find_alt_nth [OF ar(2,3)] ar(4) by simp
  then have "alt_serve st (g, 0) =
      Ret (st\<lparr>cs_th := u, cs_ch := (cs_ch st)(c := set_array (cs_ch st c) opr (array_del ar i)), cs_xalt := (cs_xalt st)(g := 0)\<rparr>)"
    using u(1) f ar(1) by (auto simp: alt_serve_def alt_all_dequeue_def alt_dequeue_def alt_get_def tab_at_def set_ch_def Let_def)
  then show ?thesis using u(2-4,6,9) by (rule that)
qed

subsection \<open>What one operation does\<close>

text \<open>The state in which an operation starts, and a channel on which it can be executed at once.\<close>

definition op_alt :: "nat \<Rightarrow> nat \<Rightarrow> chan_op \<Rightarrow> byte list option \<Rightarrow> chan_alt" where
  "op_alt t c opr v = \<lparr>al_c = c, al_v = v, al_op = opr, al_fiber = t\<rparr>"

definition op_start :: "chans \<Rightarrow> nat \<Rightarrow> nat \<Rightarrow> chan_op \<Rightarrow> byte list option \<Rightarrow> chans" where
  "op_start st t c opr v = st\<lparr>cs_frame := (cs_frame st)(t := [op_alt t c opr v]), cs_xalt := (cs_xalt st)(t := 0)\<rparr>"

lemma op_alt_simps [simp]:
  "al_c (op_alt t c opr v) = c" "al_v (op_alt t c opr v) = v" "al_op (op_alt t c opr v) = opr"
  "al_fiber (op_alt t c opr v) = t" "(op_alt t c opr v)\<lparr>al_v := w\<rparr> = op_alt t c opr w"
  by (simp_all add: op_alt_def)

lemma op_start_simps [simp]:
  "cs_th (op_start st t c opr v) = cs_th st" "cs_ch (op_start st t c opr v) = cs_ch st"
  "cs_frame (op_start st t c opr v) = (cs_frame st)(t := [op_alt t c opr v])"
  "cs_xalt (op_start st t c opr v) = (cs_xalt st)(t := 0)"
  by (simp_all add: op_start_def)

fun can_exec :: "channel \<Rightarrow> chan_op \<Rightarrow> bool" where
  "can_exec c CHANSND \<longleftrightarrow> (if ch_bufsize c = 0 then ch_arecv c \<noteq> [] else ch_nbuf c < ch_bufsize c)"
| "can_exec c CHANRCV \<longleftrightarrow> (if ch_bufsize c = 0 then ch_asend c \<noteq> [] else ch_nbuf c > 0)"
| "can_exec c _ \<longleftrightarrow> False"

lemma channel_op_eq:
  assumes "opr = CHANSND \<or> opr = CHANRCV"
  shows "channel_op st t c opr v canblock rnd rnd' =
    (if can_exec (cs_ch st c) opr
     then map_cres (\<lambda>st. (st\<lparr>cs_frame := (cs_frame st)(t := [])\<rparr>, Some (1, al_v (hd (cs_frame st t)))))
            (alt_exec (op_start st t c opr v) (t, 0) rnd')
     else if \<not> canblock then Ret ((op_start st t c opr v)\<lparr>cs_frame := (cs_frame st)(t := [])\<rparr>, Some (-1, v))
     else cbind (alt_queue (op_start st t c opr v) (t, 0)) (\<lambda>st.
       map_cres (\<lambda>th. (st\<lparr>cs_th := th\<rparr>, None)) (fiber_suspend (cs_th st) t PcChan)))"
proof -
  let ?s = "op_start st t c opr v"
  have start: "st\<lparr>cs_frame := (cs_frame st)(t := map (\<lambda>x. x\<lparr>al_fiber := t\<rparr>) [op_alt t c opr v]),
      cs_xalt := (cs_xalt st)(t := 0)\<rparr> = ?s"
    by (simp add: op_start_def op_alt_def)
  have can: "alt_can_exec ?s (op_alt t c opr v) = can_exec (cs_ch st c) opr"
    using assms by (auto simp: alt_can_exec_def Let_def)
  have each: "alt_each alt_queue ?s t [0] = alt_queue ?s (t, 0)"
    using assms by (cases "alt_queue ?s (t, 0)") (auto simp: alt_get_def tab_at_def)
  have "channel_alt st t [op_alt t c opr v] canblock rnd rnd' =
     (if can_exec (cs_ch st c) opr then map_cres (\<lambda>st. (st, Some 0)) (alt_exec ?s (t, 0) rnd')
      else if \<not> canblock then Ret (?s, Some (-1))
      else cbind (alt_queue ?s (t, 0)) (\<lambda>st.
        map_cres (\<lambda>th. (st\<lparr>cs_th := th\<rparr>, None)) (fiber_suspend (cs_th st) t PcChan)))"
    unfolding channel_alt_def start Let_def by (simp add: can each del: alt_each.simps)
  then show ?thesis
    unfolding channel_op_def op_alt_def [symmetric]
    by (simp add: channel_return_def map_cres_comp map_cres_cbind)
qed

lemma send_served:
  assumes inv: "chan_inv st" and t: "th_pc (cs_th st) t = None" and ar: "ch_arecv (cs_ch st c) \<noteq> []"
  obtains i g w u where
    "channel_op st t c CHANSND v canblock rnd rnd' =
       Ret (st\<lparr>cs_th := u, cs_ch := (cs_ch st)(c := (cs_ch st c)\<lparr>ch_arecv := array_del (ch_arecv (cs_ch st c)) i\<rparr>),
           cs_frame := (cs_frame st)(g := [op_alt g c CHANRCV (amove w v (ch_elemsize (cs_ch st c)))], t := []),
           cs_xalt := (cs_xalt st)(t := 0, g := 0)\<rparr>, Some (1, v))"
    "i = rnd' mod length (ch_arecv (cs_ch st c))" "ch_arecv (cs_ch st c) ! i = (g, 0)" "g \<noteq> t"
    "cs_frame st g = [op_alt g c CHANRCV w]" "th_pc (cs_th st) g = Some PcChan"
    "sched_ok u" "th_pc u = th_pc (cs_th st)" "th_waiter u = th_waiter (cs_th st)" "same_flags (cs_th st) u"
    "\<And>h. runnable u h \<longleftrightarrow> h = g \<or> runnable (cs_th st) h"
proof -
  let ?c = "cs_ch st c" and ?s = "op_start st t c CHANSND v"
  let ?ar = "ch_arecv ?c"
  let ?i = "rnd' mod length ?ar"
  note ok = chan_okD [OF chan_invD(5) [OF inv, of c]]
  have i: "?i < length ?ar" using ar by simp
  obtain g k where gk: "?ar ! ?i = (g, k)" by force
  then have w: "waits st c CHANRCV (g, k)" using ok(7) nth_mem [OF i] by simp
  then have k: "k = 0" and pcg: "th_pc (cs_th st) g = Some PcChan" by (simp_all add: waits_def)
  then have gt: "g \<noteq> t" using t by auto
  obtain w' where fg: "cs_frame st g = [op_alt g c CHANRCV w']" using w by (auto simp: waits_def op_alt_def)
  let ?v = "amove w' v (ch_elemsize ?c)"
  have e: "ch_nbuf ?c = 0" using ok(5) ar by simp
  have copy: "alt_copy ?s (t, 0) (Some (g, 0)) = Ret (alt_set_v ?s (g, 0) ?v)"
    using gt fg e by (simp add: alt_copy_def alt_get_def tab_at_def alt_role_def Let_def)
  let ?s2 = "alt_set_v ?s (g, 0) ?v"
  have s2: "cs_th ?s2 = cs_th st" "cs_ch ?s2 = cs_ch st" "cs_frame ?s2 g = [op_alt g c CHANRCV ?v]"
    using gt fg by (simp_all add: alt_set_v_def)
  have "waits ?s2 c CHANRCV (g, 0)" using w s2 by (simp add: waits_def op_alt_def)
  then obtain u where u: "alt_serve ?s2 (g, 0) =
      Ret (?s2\<lparr>cs_th := u, cs_ch := (cs_ch ?s2)(c := set_array (cs_ch ?s2 c) CHANRCV (array_del ?ar ?i)),
             cs_xalt := (cs_xalt ?s2)(g := 0)\<rparr>)"
    "sched_ok u" "th_pc u = th_pc (cs_th ?s2)" "th_waiter u = th_waiter (cs_th ?s2)" "same_flags (cs_th ?s2) u"
    "\<And>h. runnable u h \<longleftrightarrow> h = g \<or> runnable (cs_th ?s2) h"
    by - (rule serve_Ret [of ?s2 c CHANRCV g ?ar ?i];
        use chan_invD(1) [OF inv] ok(3) i gk k s2 in \<open>simp add: del: set_array.simps\<close>)
  have "alt_exec ?s (t, 0) rnd' = Ret (?s2\<lparr>cs_th := u, cs_ch := (cs_ch ?s2)(c := ?c\<lparr>ch_arecv := array_del ?ar ?i\<rparr>),
             cs_xalt := (cs_xalt ?s2)(g := 0)\<rparr>)"
    using ar gk k copy u(1) s2(2) by (simp add: alt_exec_def alt_get_def tab_at_def Let_def)
  moreover have "can_exec ?c CHANSND" using ar e by simp
  ultimately show ?thesis
    using gt fg pcg gk k u(2-6) s2
    by (intro that [of g w' ?i u]) (simp_all add: channel_op_eq alt_set_v_def fun_upd_twist)
qed

lemma recv_copy:
  assumes "ch_ok (cs_ch st c)" "ch_nbuf (cs_ch st c) = ch_bufsize (cs_ch st c)" "cs_frame st g = [op_alt g c CHANSND w]" "g \<noteq> t"
  obtains d x where "alt_copy (op_start st t c CHANRCV v) (t, 0) (Some (g, 0)) =
      Ret (op_start (set_ch st c d) t c CHANRCV (amove v (Some x) (ch_elemsize (cs_ch st c))))"
    "ch_ok d" "same_arrays (cs_ch st c) d"
    "content (cs_ch st c) @ [zero_fill (ch_elemsize (cs_ch st c)) w] = x # content d"
proof (cases "ch_nbuf (cs_ch st c) = 0")
  case True
  let ?z = "zero_fill (ch_elemsize (cs_ch st c)) w"
  have "amove v w n = amove v (Some (zero_fill n w)) n" for n by (simp add: amove_def zero_fill_def split: option.split)
  then have "alt_copy (op_start st t c CHANRCV v) (t, 0) (Some (g, 0)) =
      Ret (op_start (set_ch st c (cs_ch st c)) t c CHANRCV (amove v (Some ?z) (ch_elemsize (cs_ch st c))))"
    using assms(3,4) True
    by (simp add: alt_copy_def alt_get_def tab_at_def alt_role_def Let_def alt_set_v_def op_start_def set_ch_def)
  then show ?thesis using assms(1) True by (intro that [of "cs_ch st c" ?z]) (simp_all add: same_arrays_def)
next
  case False
  then obtain x xs where x: "content (cs_ch st c) = x # xs"
    using length_content [of "cs_ch st c"] by (cases "content (cs_ch st c)") auto
  obtain d where d: "buf_take (cs_ch st c) = Ret (d, x)" "ch_ok d" "content d = xs" "same_arrays (cs_ch st c) d"
    by (rule buf_take_Ret [OF assms(1) x])
  have nbuf: "ch_nbuf d < ch_bufsize d"
    using assms(2) d(3,4) length_content [of d] length_content [of "cs_ch st c"] x by (simp add: same_arrays_def)
  obtain e where e: "buf_put d w = Ret e" "ch_ok e" "content e = content d @ [zero_fill (ch_elemsize d) w]" "same_arrays d e"
    by (rule buf_put_Ret [OF d(2) nbuf])
  have "alt_copy (op_start st t c CHANRCV v) (t, 0) (Some (g, 0)) =
      Ret (op_start (set_ch st c e) t c CHANRCV (amove v (Some x) (ch_elemsize (cs_ch st c))))"
    using assms(3,4) False d(1) e(1)
    by (simp add: alt_copy_def alt_get_def tab_at_def alt_role_def Let_def alt_set_v_def op_start_def set_ch_def)
  then show ?thesis using d(3,4) e(2-4) x by (intro that [of e x]) (simp_all add: same_arrays_def)
qed

lemma recv_served:
  assumes inv: "chan_inv st" and t: "th_pc (cs_th st) t = None" and ar: "ch_asend (cs_ch st c) \<noteq> []"
  obtains i g w u d x where
    "channel_op st t c CHANRCV v canblock rnd rnd' =
       Ret (st\<lparr>cs_th := u, cs_ch := (cs_ch st)(c := d\<lparr>ch_asend := array_del (ch_asend (cs_ch st c)) i\<rparr>),
           cs_frame := (cs_frame st)(t := []), cs_xalt := (cs_xalt st)(t := 0, g := 0)\<rparr>,
         Some (1, amove v (Some x) (ch_elemsize (cs_ch st c))))"
    "i = rnd' mod length (ch_asend (cs_ch st c))" "ch_asend (cs_ch st c) ! i = (g, 0)" "g \<noteq> t"
    "cs_frame st g = [op_alt g c CHANSND w]" "th_pc (cs_th st) g = Some PcChan"
    "ch_ok d" "same_arrays (cs_ch st c) d"
    "content (cs_ch st c) @ [zero_fill (ch_elemsize (cs_ch st c)) w] = x # content d"
    "sched_ok u" "th_pc u = th_pc (cs_th st)" "th_waiter u = th_waiter (cs_th st)" "same_flags (cs_th st) u"
    "\<And>h. runnable u h \<longleftrightarrow> h = g \<or> runnable (cs_th st) h"
proof -
  let ?c = "cs_ch st c" and ?s = "op_start st t c CHANRCV v"
  let ?ar = "ch_asend ?c"
  let ?i = "rnd' mod length ?ar"
  note ok = chan_okD [OF chan_invD(5) [OF inv, of c]]
  have i: "?i < length ?ar" using ar by simp
  obtain g k where gk: "?ar ! ?i = (g, k)" by force
  then have w: "waits st c CHANSND (g, k)" using ok(6) nth_mem [OF i] by simp
  then have k: "k = 0" and pcg: "th_pc (cs_th st) g = Some PcChan" by (simp_all add: waits_def)
  then have gt: "g \<noteq> t" using t by auto
  obtain w' where fg: "cs_frame st g = [op_alt g c CHANSND w']" using w by (auto simp: waits_def op_alt_def)
  have full: "ch_nbuf ?c = ch_bufsize ?c" using ok(4) ar by simp
  obtain d x where d: "alt_copy ?s (t, 0) (Some (g, 0)) =
      Ret (op_start (set_ch st c d) t c CHANRCV (amove v (Some x) (ch_elemsize ?c)))"
    "ch_ok d" "same_arrays ?c d" "content ?c @ [zero_fill (ch_elemsize ?c) w'] = x # content d"
    by (rule recv_copy [OF ok(1) full fg gt])
  let ?s2 = "op_start (set_ch st c d) t c CHANRCV (amove v (Some x) (ch_elemsize ?c))"
  have s2: "cs_th ?s2 = cs_th st" "cs_ch ?s2 = (cs_ch st)(c := d)" "cs_frame ?s2 g = [op_alt g c CHANSND w']"
    using gt fg by (simp_all add: set_ch_def)
  have ds: "ch_asend d = ?ar" using d(3) by (simp add: same_arrays_def)
  have "waits ?s2 c CHANSND (g, 0)" using w s2 fg by (simp add: waits_def op_alt_def)
  then obtain u where u: "alt_serve ?s2 (g, 0) =
      Ret (?s2\<lparr>cs_th := u, cs_ch := (cs_ch ?s2)(c := set_array (cs_ch ?s2 c) CHANSND (array_del ?ar ?i)),
             cs_xalt := (cs_xalt ?s2)(g := 0)\<rparr>)"
    "sched_ok u" "th_pc u = th_pc (cs_th ?s2)" "th_waiter u = th_waiter (cs_th ?s2)" "same_flags (cs_th ?s2) u"
    "\<And>h. runnable u h \<longleftrightarrow> h = g \<or> runnable (cs_th ?s2) h"
    by - (rule serve_Ret [of ?s2 c CHANSND g ?ar ?i];
        use chan_invD(1) [OF inv] ok(2) i gk k s2 ds in \<open>simp add: del: set_array.simps\<close>)
  have "alt_exec ?s (t, 0) rnd' = Ret (?s2\<lparr>cs_th := u, cs_ch := (cs_ch st)(c := d\<lparr>ch_asend := array_del ?ar ?i\<rparr>),
             cs_xalt := (cs_xalt ?s2)(g := 0)\<rparr>)"
    using ar gk k d(1) u(1) s2(2) by (simp add: alt_exec_def alt_get_def tab_at_def Let_def)
  moreover have "can_exec ?c CHANRCV" using ar full by simp
  ultimately have "channel_op st t c CHANRCV v canblock rnd rnd' =
       Ret (st\<lparr>cs_th := u, cs_ch := (cs_ch st)(c := d\<lparr>ch_asend := array_del ?ar ?i\<rparr>),
           cs_frame := (cs_frame st)(t := []), cs_xalt := (cs_xalt st)(t := 0, g := 0)\<rparr>,
         Some (1, amove v (Some x) (ch_elemsize ?c)))"
    by (simp add: channel_op_eq set_ch_def op_start_def)
  then show ?thesis
    by (rule that) (use gk k gt fg pcg d(2-4) u(2-6) s2 in simp_all)
qed

lemma send_put:
  assumes ok: "ch_ok (cs_ch st c)" and ar: "ch_arecv (cs_ch st c) = []" and n: "ch_nbuf (cs_ch st c) < ch_bufsize (cs_ch st c)"
  obtains d where "channel_op st t c CHANSND v canblock rnd rnd' =
       Ret (st\<lparr>cs_ch := (cs_ch st)(c := d), cs_frame := (cs_frame st)(t := []), cs_xalt := (cs_xalt st)(t := 0)\<rparr>, Some (1, v))"
    "ch_ok d" "same_arrays (cs_ch st c) d" "content d = content (cs_ch st c) @ [zero_fill (ch_elemsize (cs_ch st c)) v]"
proof -
  obtain d where d: "buf_put (cs_ch st c) v = Ret d" "ch_ok d"
    "content d = content (cs_ch st c) @ [zero_fill (ch_elemsize (cs_ch st c)) v]" "same_arrays (cs_ch st c) d"
    by (rule buf_put_Ret [OF ok n])
  have "alt_exec (op_start st t c CHANSND v) (t, 0) rnd' = Ret (op_start (set_ch st c d) t c CHANSND v)"
    using ar d(1) by (simp add: alt_exec_def alt_copy_def alt_get_def tab_at_def alt_role_def Let_def set_ch_def op_start_def)
  then show ?thesis
    using n d by (intro that [of d]) (simp_all add: channel_op_eq set_ch_def op_start_def)
qed

lemma recv_take:
  assumes ok: "ch_ok (cs_ch st c)" and ar: "ch_asend (cs_ch st c) = []" and n: "0 < ch_nbuf (cs_ch st c)"
  obtains d x where "channel_op st t c CHANRCV v canblock rnd rnd' =
       Ret (st\<lparr>cs_ch := (cs_ch st)(c := d), cs_frame := (cs_frame st)(t := []), cs_xalt := (cs_xalt st)(t := 0)\<rparr>,
         Some (1, amove v (Some x) (ch_elemsize (cs_ch st c))))"
    "ch_ok d" "same_arrays (cs_ch st c) d" "content (cs_ch st c) = x # content d"
proof -
  obtain x xs where x: "content (cs_ch st c) = x # xs" using n length_content [of "cs_ch st c"] by (cases "content (cs_ch st c)") auto
  obtain d where d: "buf_take (cs_ch st c) = Ret (d, x)" "ch_ok d" "content d = xs" "same_arrays (cs_ch st c) d"
    by (rule buf_take_Ret [OF ok x])
  have "alt_exec (op_start st t c CHANRCV v) (t, 0) rnd' =
      Ret (op_start (set_ch st c d) t c CHANRCV (amove v (Some x) (ch_elemsize (cs_ch st c))))"
    using ar d(1)
    by (simp add: alt_exec_def alt_copy_def alt_get_def tab_at_def alt_role_def Let_def set_ch_def op_start_def alt_set_v_def)
  moreover have "ch_bufsize (cs_ch st c) \<noteq> 0" using n ok by (auto simp: ch_ok_def)
  ultimately show ?thesis
    using n d x by (intro that [of d x]) (simp_all add: channel_op_eq set_ch_def op_start_def)
qed

lemma op_blocks:
  assumes ok: "sched_ok (cs_th st)" and run: "th_running (cs_th st) = Some t" and opr: "opr = CHANSND \<or> opr = CHANRCV"
    and can: "\<not> can_exec (cs_ch st c) opr"
  obtains u where "channel_op st t c opr v canblock rnd rnd' =
      (if canblock then Ret (st\<lparr>cs_th := u,
           cs_ch := (cs_ch st)(c := set_array (cs_ch st c) opr (the (channel_array (cs_ch st c) opr) @ [(t, 0)])),
           cs_frame := (cs_frame st)(t := [op_alt t c opr v]), cs_xalt := (cs_xalt st)(t := 0)\<rparr>, None)
       else Ret (st\<lparr>cs_frame := (cs_frame st)(t := []), cs_xalt := (cs_xalt st)(t := 0)\<rparr>, Some (-1, v)))"
    "sched_ok u" "th_pc u = (th_pc (cs_th st))(t := Some PcChan)" "th_waiter u = th_waiter (cs_th st) + 1"
    "same_flags (cs_th st) u" "\<And>h. runnable u h \<longleftrightarrow> h \<noteq> t \<and> runnable (cs_th st) h"
    "th_running u = (case th_rings (cs_th st) RReady of [] \<Rightarrow> None | f # _ \<Rightarrow> Some f)"
proof -
  obtain u where u: "fiber_suspend (cs_th st) t PcChan = Ret u" "sched_ok u"
    "th_pc u = (th_pc (cs_th st))(t := Some PcChan)" "th_waiter u = th_waiter (cs_th st) + 1" "same_flags (cs_th st) u"
    "\<And>m. th_rings u (RWaiting m) = th_rings (cs_th st) (RWaiting m)"
    "\<And>f. runnable u f \<longleftrightarrow> f \<noteq> t \<and> runnable (cs_th st) f"
    "th_running u = (case th_rings (cs_th st) RReady of [] \<Rightarrow> None | f # _ \<Rightarrow> Some f)"
    by (rule suspend_Ret [OF ok run], rule that)
  show ?thesis
    using opr can u
    by (intro that [of u]) (auto simp: channel_op_eq alt_queue_def alt_get_def tab_at_def Let_def set_ch_def op_start_def)
qed

subsection \<open>Every operation keeps the consistency\<close>

text \<open>An operation executed at once, which wakes the fibers \<open>G\<close> that waited on its channel.\<close>

lemma executed_inv:
  assumes inv: "chan_inv st" and t: "th_pc (cs_th st) t = None"
    and st': "cs_ch st' = (cs_ch st)(c := d)" "\<And>f. f \<noteq> t \<Longrightarrow> f \<notin> G \<Longrightarrow> cs_frame st' f = cs_frame st f"
    and G: "\<And>f. f \<in> G \<Longrightarrow> queued st c f"
    and u: "sched_ok (cs_th st')" "th_pc (cs_th st') = th_pc (cs_th st)" "th_waiter (cs_th st') = th_waiter (cs_th st)"
      "same_flags (cs_th st) (cs_th st')" "\<And>h. runnable (cs_th st') h \<longleftrightarrow> h \<in> G \<or> runnable (cs_th st) h"
    and d: "ch_ok d" "distinct (ch_asend d)" "distinct (ch_arecv d)"
      "set (ch_asend d) = set (ch_asend (cs_ch st c)) - G \<times> {0}" "set (ch_arecv d) = set (ch_arecv (cs_ch st c)) - G \<times> {0}"
      "ch_asend d \<noteq> [] \<Longrightarrow> ch_nbuf d = ch_bufsize d" "ch_arecv d \<noteq> [] \<Longrightarrow> ch_nbuf d = 0"
  shows "chan_inv st'"
proof -
  note i = chan_invD [OF inv] and ok = chan_okD [OF chan_invD(5) [OF inv, of c]]
  have w: "waits st' c opr x" if "waits st c opr x" "x \<notin> G \<times> {0}" for opr x
  proof -
    have "snd x = 0" "th_pc (cs_th st) (fst x) = Some PcChan" using that(1) by (simp_all add: waits_def)
    then have "fst x \<noteq> t" "fst x \<notin> G" using t that(2) by (auto simp: mem_Times_iff)
    then have "cs_frame st' (fst x) = cs_frame st (fst x)" "runnable (cs_th st') (fst x) = runnable (cs_th st) (fst x)"
      using st'(2) u(5) by blast+
    with u(2) show ?thesis by (intro waits_frame [OF that(1)]) (simp_all only:)
  qed
  have one: "ch_arecv d = []" if "ch_asend d \<noteq> []"
  proof -
    have "ch_asend (cs_ch st c) \<noteq> []" using that d(4) by force
    then have "ch_arecv (cs_ch st c) = []" using ok(4) by blast
    then show ?thesis using d(5) by simp
  qed
  have "waits st' c CHANSND x" if "x \<in> set (ch_asend d)" for x using that w [OF ok(6)] d(4) by auto
  moreover have "waits st' c CHANRCV x" if "x \<in> set (ch_arecv d)" for x using that w [OF ok(7)] d(5) by auto
  ultimately have "chan_ok st' c" using d one by (simp add: chan_ok_def st'(1))
  moreover have "chan_ok st' c'" if "c' \<noteq> c" for c'
  proof (rule chan_ok_frame [OF i(5) [of c']])
    fix f assume f: "queued st c' f"
    note q = queuedD [OF i(5) f]
    have "f \<notin> G" using G [of f] queuedD(3) [OF i(5), of c f] q(3) that by auto
    moreover have "f \<noteq> t" using q(1) t by auto
    ultimately show "cs_frame st' f = cs_frame st f \<and> th_pc (cs_th st') f = th_pc (cs_th st) f
      \<and> (runnable (cs_th st') f \<longrightarrow> runnable (cs_th st) f)" using st'(2) u(2,5) by simp
  qed (use that st'(1) in simp)
  ultimately have "chan_ok st' c'" for c' by (cases "c' = c") auto
  moreover have "runnable (cs_th st') f \<or> (\<exists>c. queued st' c f)" if "th_pc (cs_th st) f = Some PcChan" for f
  proof (rule disjE [OF i(6) [OF that]])
    assume "\<exists>c. queued st c f"
    then obtain c' where c': "queued st c' f" by blast
    then have "queued st' c' f \<or> f \<in> G" using d(4,5) by (cases "c' = c") (auto simp: queued_def st'(1))
    then show ?thesis using u(5) by blast
  qed (use u(5) in simp)
  ultimately show ?thesis
    using i(2-4) u same_flags_canceled [OF u(4)] calls_ok_same [OF i(2) u(2,3)] by (auto simp: chan_inv_def)
qed

lemma blocked_inv:
  assumes inv: "chan_inv st" and t: "th_pc (cs_th st) t = None" and opr: "opr = CHANSND \<or> opr = CHANRCV"
    and can: "\<not> can_exec (cs_ch st c) opr"
    and st': "cs_ch st' = (cs_ch st)(c := set_array (cs_ch st c) opr (the (channel_array (cs_ch st c) opr) @ [(t, 0)]))"
      "cs_frame st' = (cs_frame st)(t := [op_alt t c opr v])"
    and u: "sched_ok (cs_th st')" "th_pc (cs_th st') = (th_pc (cs_th st))(t := Some PcChan)"
      "th_waiter (cs_th st') = th_waiter (cs_th st) + 1" "same_flags (cs_th st) (cs_th st')"
      "\<And>h. runnable (cs_th st') h \<longleftrightarrow> h \<noteq> t \<and> runnable (cs_th st) h"
    and quiet: "\<not> acl_fiber_canceled (cs_th st') t"
  shows "chan_inv st'"
proof -
  note i = chan_invD [OF inv] and ok = chan_okD [OF chan_invD(5) [OF inv, of c]]
  have tq: "\<not> queued st c' t" for c' using queuedD(1) [OF i(5), of c' t] t by auto
  have w: "waits st' c opr' x" if "waits st c opr' x" "queued st c (fst x)" for opr' x
    using that tq u(2,5) by (intro waits_frame [OF that(1)]) (auto simp: st'(2))
  have wt: "waits st' c opr (t, 0)" using u(2,5) by (simp add: waits_def st'(2) op_alt_def)
  have n: "ch_nbuf (cs_ch st c) \<le> ch_bufsize (cs_ch st c)" using ok(1) by (simp add: ch_ok_def)
  have nt: "(t, 0) \<notin> set (ch_asend (cs_ch st c))" "(t, 0) \<notin> set (ch_arecv (cs_ch st c))" using tq [of c] by (auto simp: queued_def)
  have q: "queued st c (fst x)" if "x \<in> set (ch_asend (cs_ch st c)) \<or> x \<in> set (ch_arecv (cs_ch st c))" for x
    using queuedI [OF i(5) that] .
  have "chan_ok st' c"
  proof (cases opr)
    case CHANSND
    have "ch_arecv (cs_ch st c) = []" "ch_nbuf (cs_ch st c) = ch_bufsize (cs_ch st c)"
      using can n ok(5) CHANSND by (auto split: if_splits)
    then show ?thesis using ok(1,2,6) wt nt w q CHANSND by (auto simp: chan_ok_def st'(1))
  next
    case CHANRCV
    have "ch_asend (cs_ch st c) = []" "ch_nbuf (cs_ch st c) = 0"
      using can n ok(4) CHANRCV by (auto split: if_splits)
    then show ?thesis using ok(1,3,7) wt nt w q CHANRCV by (auto simp: chan_ok_def st'(1))
  qed (use opr in auto)
  moreover have "chan_ok st' c'" if "c' \<noteq> c" for c'
  proof (rule chan_ok_frame [OF i(5) [of c']])
    fix f assume "queued st c' f"
    then have "f \<noteq> t" using tq by auto
    then show "cs_frame st' f = cs_frame st f \<and> th_pc (cs_th st') f = th_pc (cs_th st) f
      \<and> (runnable (cs_th st') f \<longrightarrow> runnable (cs_th st) f)" using u(2,5) by (simp add: st'(2))
  qed (use that st'(1) in simp)
  ultimately have "chan_ok st' c'" for c' by (cases "c' = c") auto
  moreover have "queued st' c' f" if "queued st c' f" for c' f
    using that opr by (cases "c' = c") (auto simp: queued_def st'(1))
  moreover have "queued st' c t" using opr by (auto simp: queued_def st'(1))
  ultimately show ?thesis
    using i(3,4,6) u(1,2,5) t quiet same_flags_canceled [OF u(4)] calls_ok_block [OF i(2) t u(2,3)]
    unfolding chan_inv_def by (metis fun_upd_apply insert_iff)
qed

lemma env_inv:
  assumes inv: "chan_inv st" and e: "env_step (cs_th st) u"
    and quiet: "\<And>f. th_pc u f \<noteq> None \<Longrightarrow> \<not> acl_fiber_canceled u f"
  shows "chan_inv (st\<lparr>cs_th := u\<rparr>)" "th_pc u = th_pc (cs_th st)"
    "\<And>f. th_pc (cs_th st) f \<noteq> None \<Longrightarrow> runnable u f = runnable (cs_th st) f"
proof -
  note i = chan_invD [OF inv]
  have eo: "env_ok (cs_th st) u" by (rule env_step_ok [OF e i(1)])
  then show pc: "th_pc u = th_pc (cs_th st)" by (simp add: env_ok_def)
  show r: "runnable u f = runnable (cs_th st) f" if "th_pc (cs_th st) f \<noteq> None" for f
    using eo quiet [of f] that by (auto simp: env_ok_def)
  have "chan_ok (st\<lparr>cs_th := u\<rparr>) c" for c
    by (rule chan_ok_frame [OF i(5)]) (use pc r queuedD(1) [OF i(5), of c] in auto)
  moreover have "calls_ok u" using calls_ok_same [OF i(2)] eo by (simp add: env_ok_def)
  moreover have "queued (st\<lparr>cs_th := u\<rparr>) c f = queued st c f" for c f by (simp add: queued_def)
  ultimately show "chan_inv (st\<lparr>cs_th := u\<rparr>)"
    using i(3,6) r quiet eo by (auto simp: chan_inv_def env_ok_def)
qed

lemma resume_inv:
  assumes inv: "chan_inv st" and run: "th_running (cs_th st) = Some t" and pc: "th_pc (cs_th st) t = Some PcChan"
    and r: "channel_resume st t = (st', x)"
  shows "chan_inv st'" "x = (1, al_v (hd (cs_frame st t)))" "cs_ch st' = cs_ch st" "cs_frame st' = (cs_frame st)(t := [])"
    "th_pc (cs_th st') = (th_pc (cs_th st))(t := None)" "\<And>f. runnable (cs_th st') f = runnable (cs_th st) f"
proof -
  note i = chan_invD [OF inv]
  let ?u = "fiber_resume (cs_th st) t"
  note u = resume_ok [OF i(1), of ?u t, OF refl]
  have "\<not> acl_fiber_canceled ?u t" using i(4) [of t] pc same_flags_canceled [OF u(4)] by simp
  then have "\<not> acl_fiber_killed ?u t" using killed_canceled by blast
  then have s: "st' = st\<lparr>cs_th := ?u, cs_frame := (cs_frame st)(t := [])\<rparr>" and x: "x = (1, al_v (hd (cs_frame st t)))"
    using r by (auto simp: channel_resume_def channel_return_def Let_def)
  show "x = (1, al_v (hd (cs_frame st t)))" by (rule x)
  show "cs_ch st' = cs_ch st" "cs_frame st' = (cs_frame st)(t := [])" by (simp_all add: s)
  show p: "th_pc (cs_th st') = (th_pc (cs_th st))(t := None)" "runnable (cs_th st') f = runnable (cs_th st) f" for f
    using u(2,7) by (simp_all add: s)
  have rt: "runnable (cs_th st) t" using run by (simp add: runnable_def)
  have nq: "f \<noteq> t" if "queued st c f" for f c using queuedD(2) [OF i(5) that] rt by auto
  have "chan_ok st' c" for c
    by (rule chan_ok_frame [OF i(5)]) (use nq u(2,7) in \<open>auto simp: s\<close>)
  moreover have "queued st' c f = queued st c f" for c f by (simp add: queued_def s)
  ultimately show "chan_inv st'"
    using i(3,4,6) u calls_ok_unblock [OF i(2) _ u(2,3)] pc same_flags_canceled [OF u(4)]
    by (simp add: chan_inv_def s)
qed

subsection \<open>Channels and their fibers\<close>

text \<open>
  Besides the state, for each channel what was sent and received in the order of the transfers
  (\<open>None\<close> for a receiver that passed \<open>NULL\<close>), and for each fiber woken by a partner what \<open>v\<close> pointed
  to then. A transfer happens when an operation is executed at once; \<open>partner\<close> is the operation it
  serves.
\<close>

record chan_sys =
  cy_st :: chans
  cy_sent :: "nat \<Rightarrow> byte list list"
  cy_recv :: "nat \<Rightarrow> byte list option list"
  cy_given :: "nat \<Rightarrow> byte list option"

definition partner :: "alt_id list \<Rightarrow> nat \<Rightarrow> nat list" where
  "partner a rnd = (if a = [] then [] else [fst (a ! (rnd mod length a))])"

definition entry_v :: "chans \<Rightarrow> nat \<Rightarrow> byte list option" where
  "entry_v st g = al_v (hd (cs_frame st g))"

definition log_op ::
    "chan_sys \<Rightarrow> chans \<Rightarrow> nat \<Rightarrow> chan_op \<Rightarrow> byte list option \<Rightarrow> nat \<Rightarrow> (int \<times> byte list option) option \<Rightarrow> chan_sys" where
  "log_op s st' c opr v rnd r =
    (if r = None \<or> fst (the r) \<noteq> 1 then s\<lparr>cy_st := st'\<rparr>
     else
       (let ch = cs_ch (cy_st s) c; z = zero_fill (ch_elemsize ch);
            gs = partner (if opr = CHANSND then ch_arecv ch else ch_asend ch) rnd;
            sent = (if opr = CHANSND then [z v] else map (\<lambda>g. z (entry_v (cy_st s) g)) gs);
            recv = (if opr = CHANSND then map (entry_v st') gs else [snd (the r)])
        in s\<lparr>cy_st := st', cy_sent := (cy_sent s)(c := cy_sent s c @ sent), cy_recv := (cy_recv s)(c := cy_recv s c @ recv),
             cy_given := (\<lambda>f. if f \<in> set gs then entry_v st' f else cy_given s f)\<rparr>))"

inductive chan_step :: "chan_sys \<Rightarrow> chan_sys \<Rightarrow> bool" where
  ch_env: "env_step (cs_th (cy_st s)) u \<Longrightarrow> chan_step s (s\<lparr>cy_st := (cy_st s)\<lparr>cs_th := u\<rparr>\<rparr>)"
| ch_op: "th_running (cs_th (cy_st s)) = Some t \<Longrightarrow> th_pc (cs_th (cy_st s)) t = None \<Longrightarrow>
    opr = CHANSND \<or> opr = CHANRCV \<Longrightarrow>
    channel_op (cy_st s) t c opr v canblock rnd rnd' = Ret (st', r) \<Longrightarrow>
    chan_step s (log_op s st' c opr v rnd' r)"
| ch_resume: "th_running (cs_th (cy_st s)) = Some t \<Longrightarrow> th_pc (cs_th (cy_st s)) t = Some PcChan \<Longrightarrow>
    channel_resume (cy_st s) t = (st', r) \<Longrightarrow> chan_step s (s\<lparr>cy_st := st'\<rparr>)"

text \<open>Histories in which no fiber is signaled or killed while it waits for a channel.\<close>

definition chan_quiet_step :: "chan_sys \<Rightarrow> chan_sys \<Rightarrow> bool" where
  "chan_quiet_step s t \<longleftrightarrow> chan_step s t
     \<and> (\<forall>f. th_pc (cs_th (cy_st t)) f \<noteq> None \<longrightarrow> \<not> acl_fiber_canceled (cs_th (cy_st t)) f)"

definition chan_init :: "chan_sys \<Rightarrow> bool" where
  "chan_init s \<longleftrightarrow> sched_ok (cs_th (cy_st s)) \<and> (\<forall>f. th_pc (cs_th (cy_st s)) f = None) \<and> th_waiter (cs_th (cy_st s)) = 0
     \<and> (\<forall>c. \<exists>n b. cs_ch (cy_st s) c = acl_channel_create n b) \<and> (\<forall>c. cy_sent s c = [] \<and> cy_recv s c = [])"

text \<open>Element \<open>x\<close> was received, unless the receiver passed \<open>NULL\<close>.\<close>

definition got :: "byte list option \<Rightarrow> byte list \<Rightarrow> bool" where
  "got r x \<longleftrightarrow> r = None \<or> r = Some x"

definition hist_ok :: "chan_sys \<Rightarrow> nat \<Rightarrow> bool" where
  "hist_ok s c \<longleftrightarrow> (\<exists>taken. cy_sent s c = taken @ content (cs_ch (cy_st s) c) \<and> list_all2 got (cy_recv s c) taken)"

definition given_ok :: "chan_sys \<Rightarrow> nat \<Rightarrow> bool" where
  "given_ok s f \<longleftrightarrow> (th_pc (cs_th (cy_st s)) f = Some PcChan \<longrightarrow> runnable (cs_th (cy_st s)) f \<longrightarrow>
     entry_v (cy_st s) f = cy_given s f)"

definition chan_sys_inv :: "chan_sys \<Rightarrow> bool" where
  "chan_sys_inv s \<longleftrightarrow> chan_inv (cy_st s) \<and> (\<forall>c. hist_ok s c) \<and> (\<forall>f. given_ok s f)"

lemma chan_sys_inv_init: "chan_init s \<Longrightarrow> chan_sys_inv s"
proof -
  assume a: "chan_init s"
  have "chan_ok (cy_st s) c" "content (cs_ch (cy_st s) c) = []" for c
  proof -
    obtain n b where "cs_ch (cy_st s) c = acl_channel_create n b" using a unfolding chan_init_def by blast
    then show "chan_ok (cy_st s) c" "content (cs_ch (cy_st s) c) = []"
      by (auto simp: chan_ok_def acl_channel_create_def ch_ok_def)
  qed
  with a show ?thesis
    by (auto simp: chan_sys_inv_def chan_inv_def calls_ok_def chan_init_def hist_ok_def given_ok_def)
qed

lemma hist_step:
  assumes "hist_ok s c" "cy_sent t c = cy_sent s c @ S" "cy_recv t c = cy_recv s c @ R"
    "content (cs_ch (cy_st s) c) @ S = X @ content (cs_ch (cy_st t) c)" "list_all2 got R X"
  shows "hist_ok t c"
proof -
  obtain taken where taken: "cy_sent s c = taken @ content (cs_ch (cy_st s) c)" "list_all2 got (cy_recv s c) taken"
    using assms(1) by (auto simp: hist_ok_def)
  have "cy_sent t c = (taken @ X) @ content (cs_ch (cy_st t) c)" using assms(2,4) taken(1) by simp
  moreover have "list_all2 got (cy_recv t c) (taken @ X)" using assms(3,5) taken(2) by (simp add: list_all2_appendI)
  ultimately show ?thesis by (auto simp: hist_ok_def)
qed

lemma got_amove: "got (amove v (Some x) n) x" "got (amove w v n) (zero_fill n v)"
  by (auto simp: got_def amove_def zero_fill_def split: option.splits)

lemma log_simps [simp]:
  "cy_st (log_op s st' c opr v rnd r) = st'" "cy_sent (log_op s st' c opr v rnd (Some (-1, w))) = cy_sent s"
  "cy_recv (log_op s st' c opr v rnd (Some (-1, w))) = cy_recv s" "cy_given (log_op s st' c opr v rnd (Some (-1, w))) = cy_given s"
  "cy_sent (log_op s st' c opr v rnd None) = cy_sent s" "cy_recv (log_op s st' c opr v rnd None) = cy_recv s"
  "cy_given (log_op s st' c opr v rnd None) = cy_given s"
  by (simp_all add: log_op_def Let_def)

lemma hist_same:
  assumes "hist_ok s c" "cy_sent t c = cy_sent s c" "cy_recv t c = cy_recv s c" "content (cs_ch (cy_st t) c) = content (cs_ch (cy_st s) c)"
  shows "hist_ok t c"
  using assms by (simp add: hist_ok_def)

lemma log_hist:
  assumes h: "\<And>c'. hist_ok s c'" and st': "cs_ch st' = (cs_ch (cy_st s))(c := d)"
    and X: "content (cs_ch (cy_st s) c) @ S = X @ content d" "list_all2 got R X"
    and log: "log_op s st' c opr v rnd r = s\<lparr>cy_st := st', cy_sent := (cy_sent s)(c := cy_sent s c @ S),
        cy_recv := (cy_recv s)(c := cy_recv s c @ R), cy_given := G\<rparr>"
  shows "hist_ok (log_op s st' c opr v rnd r) c'"
proof (cases "c' = c")
  case True
  show ?thesis
    unfolding True log by (rule hist_step [OF h, of _ c S R X]) (simp_all add: st' X)
next
  case False
  then show ?thesis unfolding log by (intro hist_same [OF h]) (simp_all add: st')
qed

lemma op_inv_blocked:
  assumes inv: "chan_sys_inv s" and run: "th_running (cs_th (cy_st s)) = Some t" and pc: "th_pc (cs_th (cy_st s)) t = None"
    and opr: "opr = CHANSND \<or> opr = CHANRCV"
    and r: "channel_op (cy_st s) t c opr v canblock rnd rnd' = Ret (st', r)"
    and can: "\<not> can_exec (cs_ch (cy_st s) c) opr"
    and quiet: "\<And>f. th_pc (cs_th st') f \<noteq> None \<Longrightarrow> \<not> acl_fiber_canceled (cs_th st') f"
  shows "chan_sys_inv (log_op s st' c opr v rnd' r)"
proof -
  let ?st = "cy_st s" and ?c = "cs_ch (cy_st s) c"
  let ?d = "set_array ?c opr (the (channel_array ?c opr) @ [(t, 0)])"
  have i: "chan_inv ?st" and h: "hist_ok s c'" and g: "given_ok s f" for c' f using inv by (auto simp: chan_sys_inv_def)
  obtain u where e: "channel_op ?st t c opr v canblock rnd rnd' =
      (if canblock then Ret (?st\<lparr>cs_th := u, cs_ch := (cs_ch ?st)(c := ?d),
           cs_frame := (cs_frame ?st)(t := [op_alt t c opr v]), cs_xalt := (cs_xalt ?st)(t := 0)\<rparr>, None)
       else Ret (?st\<lparr>cs_frame := (cs_frame ?st)(t := []), cs_xalt := (cs_xalt ?st)(t := 0)\<rparr>, Some (-1, v)))"
    "sched_ok u" "th_pc u = (th_pc (cs_th ?st))(t := Some PcChan)" "th_waiter u = th_waiter (cs_th ?st) + 1"
    "same_flags (cs_th ?st) u" "\<And>h. runnable u h \<longleftrightarrow> h \<noteq> t \<and> runnable (cs_th ?st) h"
    by (rule op_blocks [OF chan_invD(1) [OF i] run opr can, where v = v and canblock = canblock and rnd = rnd and rnd' = rnd'],
        rule that)
  show ?thesis
  proof (cases canblock)
    case True
    then have st': "st' = ?st\<lparr>cs_th := u, cs_ch := (cs_ch ?st)(c := ?d),
           cs_frame := (cs_frame ?st)(t := [op_alt t c opr v]), cs_xalt := (cs_xalt ?st)(t := 0)\<rparr>" and rr: "r = None"
      using r e(1) by simp_all
    have "chan_inv st'"
      by (rule blocked_inv [OF i pc opr can, of st' v]) (use e(2-6) quiet [of t] in \<open>simp_all add: st'\<close>)
    moreover have "content ?d = content ?c" using opr by auto
    then have "hist_ok (log_op s st' c opr v rnd' r) c'" for c'
      by (intro hist_same [OF h]) (simp_all add: rr st')
    moreover have "given_ok (log_op s st' c opr v rnd' r) f" for f
      using g [of f] e(3,6) by (auto simp: given_ok_def rr st' entry_v_def)
    ultimately show ?thesis by (simp add: chan_sys_inv_def)
  next
    case False
    then have st': "st' = ?st\<lparr>cs_frame := (cs_frame ?st)(t := []), cs_xalt := (cs_xalt ?st)(t := 0)\<rparr>" and rr: "r = Some (-1, v)"
      using r e(1) by simp_all
    have "chan_inv st'"
      by (rule executed_inv [OF i pc, where c = c and d = ?c and G = "{}"])
        (use chan_okD [OF chan_invD(5) [OF i, of c]] chan_invD(1) [OF i] in \<open>simp_all add: st' same_flags_def\<close>)
    moreover have "hist_ok (log_op s st' c opr v rnd' r) c'" for c'
      by (intro hist_same [OF h]) (simp_all add: rr st')
    moreover have "given_ok (log_op s st' c opr v rnd' r) f" for f
      using g [of f] pc by (auto simp: given_ok_def rr st' entry_v_def)
    ultimately show ?thesis by (simp add: chan_sys_inv_def)
  qed
qed

lemma op_inv_send:
  assumes inv: "chan_sys_inv s" and run: "th_running (cs_th (cy_st s)) = Some t" and pc: "th_pc (cs_th (cy_st s)) t = None"
    and r: "channel_op (cy_st s) t c CHANSND v canblock rnd rnd' = Ret (st', r)"
    and quiet: "\<And>f. th_pc (cs_th st') f \<noteq> None \<Longrightarrow> \<not> acl_fiber_canceled (cs_th st') f"
  shows "chan_sys_inv (log_op s st' c CHANSND v rnd' r)"
proof -
  let ?st = "cy_st s" and ?c = "cs_ch (cy_st s) c"
  have i: "chan_inv ?st" and h: "hist_ok s c'" and g: "given_ok s f" for c' f using inv by (auto simp: chan_sys_inv_def)
  note ok = chan_okD [OF chan_invD(5) [OF i, of c]]
  consider (served) "ch_arecv ?c \<noteq> []" | (put) "ch_arecv ?c = []" "ch_nbuf ?c < ch_bufsize ?c"
    | (full) "\<not> can_exec ?c CHANSND"
    by (cases "ch_arecv ?c = []"; cases "ch_nbuf ?c < ch_bufsize ?c") auto
  then show ?thesis
  proof cases
    case served
    obtain i g w u where e: "channel_op ?st t c CHANSND v canblock rnd rnd' =
       Ret (?st\<lparr>cs_th := u, cs_ch := (cs_ch ?st)(c := ?c\<lparr>ch_arecv := array_del (ch_arecv ?c) i\<rparr>),
           cs_frame := (cs_frame ?st)(g := [op_alt g c CHANRCV (amove w v (ch_elemsize ?c))], t := []),
           cs_xalt := (cs_xalt ?st)(t := 0, g := 0)\<rparr>, Some (1, v))"
      "i = rnd' mod length (ch_arecv ?c)" "ch_arecv ?c ! i = (g, 0)" "g \<noteq> t"
      "cs_frame ?st g = [op_alt g c CHANRCV w]" "th_pc (cs_th ?st) g = Some PcChan"
      "sched_ok u" "th_pc u = th_pc (cs_th ?st)" "th_waiter u = th_waiter (cs_th ?st)" "same_flags (cs_th ?st) u"
      "\<And>h. runnable u h \<longleftrightarrow> h = g \<or> runnable (cs_th ?st) h"
      by (rule send_served [OF i pc served, where v = v and canblock = canblock and rnd = rnd and rnd' = rnd'], rule that)
    have il: "i < length (ch_arecv ?c)" using served e(2) by simp
    have n: "ch_nbuf ?c = 0" "ch_asend ?c = []" using ok(4,5) served by auto
    have gq: "queued ?st c g" using nth_mem [OF il] e(3) by (simp add: queued_def)
    have st': "st' = ?st\<lparr>cs_th := u, cs_ch := (cs_ch ?st)(c := ?c\<lparr>ch_arecv := array_del (ch_arecv ?c) i\<rparr>),
           cs_frame := (cs_frame ?st)(g := [op_alt g c CHANRCV (amove w v (ch_elemsize ?c))], t := []),
           cs_xalt := (cs_xalt ?st)(t := 0, g := 0)\<rparr>" and rr: "r = Some (1, v)" using r e(1) by simp_all
    have I: "chan_inv st'"
      by (rule executed_inv [OF i pc, where c = c and d = "?c\<lparr>ch_arecv := array_del (ch_arecv ?c) i\<rparr>" and G = "{g}"])
        (use e gq n ok(1) array_del [OF ok(3) il] in \<open>simp_all add: st'\<close>)
    have p: "partner (ch_arecv ?c) rnd' = [g]" using served e(2,3) by (simp add: partner_def)
    have gv: "entry_v st' g = amove w v (ch_elemsize ?c)" using e(4) by (simp add: entry_v_def st')
    have log: "log_op s st' c CHANSND v rnd' r = s\<lparr>cy_st := st',
        cy_sent := (cy_sent s)(c := cy_sent s c @ [zero_fill (ch_elemsize ?c) v]),
        cy_recv := (cy_recv s)(c := cy_recv s c @ [amove w v (ch_elemsize ?c)]),
        cy_given := (\<lambda>f. if f \<in> {g} then entry_v st' f else cy_given s f)\<rparr>"
      using p gv by (simp add: log_op_def rr Let_def)
    have "hist_ok (log_op s st' c CHANSND v rnd' r) c'" for c'
      by (rule log_hist [OF h _ _ _ log, where d = "?c\<lparr>ch_arecv := array_del (ch_arecv ?c) i\<rparr>" and X = "[zero_fill (ch_elemsize ?c) v]"])
        (use n got_amove(2) in \<open>simp_all add: st'\<close>)
    moreover have "given_ok (log_op s st' c CHANSND v rnd' r) f" for f
    proof -
      have "entry_v st' f = entry_v ?st f" if "f \<noteq> g" "f \<noteq> t" using that by (simp add: entry_v_def st')
      then show ?thesis using g [of f] e(8,11) pc unfolding log by (cases "f = t") (auto simp: given_ok_def st')
    qed
    ultimately show ?thesis using I by (simp add: chan_sys_inv_def)
  next
    case put
    obtain d where e: "channel_op ?st t c CHANSND v canblock rnd rnd' =
       Ret (?st\<lparr>cs_ch := (cs_ch ?st)(c := d), cs_frame := (cs_frame ?st)(t := []), cs_xalt := (cs_xalt ?st)(t := 0)\<rparr>, Some (1, v))"
      "ch_ok d" "same_arrays ?c d" "content d = content ?c @ [zero_fill (ch_elemsize ?c) v]"
      by (rule send_put [OF ok(1) put, where v = v and canblock = canblock and rnd = rnd and rnd' = rnd'])
    have st': "st' = ?st\<lparr>cs_ch := (cs_ch ?st)(c := d), cs_frame := (cs_frame ?st)(t := []), cs_xalt := (cs_xalt ?st)(t := 0)\<rparr>"
      and rr: "r = Some (1, v)" using r e(1) by simp_all
    have as: "ch_asend ?c = []" using ok(4) put(2) by auto
    have I: "chan_inv st'"
      by (rule executed_inv [OF i pc, where c = c and d = d and G = "{}"])
        (use e(2,3) as put ok(1) chan_invD(1) [OF i] in \<open>simp_all add: st' same_arrays_def same_flags_def\<close>)
    have log: "log_op s st' c CHANSND v rnd' r = s\<lparr>cy_st := st',
        cy_sent := (cy_sent s)(c := cy_sent s c @ [zero_fill (ch_elemsize ?c) v]),
        cy_recv := (cy_recv s)(c := cy_recv s c @ []),
        cy_given := (\<lambda>f. if f \<in> {} then entry_v st' f else cy_given s f)\<rparr>"
      using put(1) by (simp add: log_op_def rr Let_def partner_def)
    have "hist_ok (log_op s st' c CHANSND v rnd' r) c'" for c'
      by (rule log_hist [OF h _ _ _ log, where d = d and X = "[]"]) (use e(4) in \<open>simp_all add: st'\<close>)
    moreover have "given_ok (log_op s st' c CHANSND v rnd' r) f" for f
      using g [of f] pc unfolding log by (auto simp: given_ok_def st' entry_v_def)
    ultimately show ?thesis using I by (simp add: chan_sys_inv_def)
  next
    case full
    then show ?thesis by (rule op_inv_blocked [OF inv run pc _ r _ quiet, rotated 1]) simp_all
  qed
qed

lemma op_inv_recv:
  assumes inv: "chan_sys_inv s" and run: "th_running (cs_th (cy_st s)) = Some t" and pc: "th_pc (cs_th (cy_st s)) t = None"
    and r: "channel_op (cy_st s) t c CHANRCV v canblock rnd rnd' = Ret (st', r)"
    and quiet: "\<And>f. th_pc (cs_th st') f \<noteq> None \<Longrightarrow> \<not> acl_fiber_canceled (cs_th st') f"
  shows "chan_sys_inv (log_op s st' c CHANRCV v rnd' r)"
proof -
  let ?st = "cy_st s" and ?c = "cs_ch (cy_st s) c"
  have i: "chan_inv ?st" and h: "hist_ok s c'" and g: "given_ok s f" for c' f using inv by (auto simp: chan_sys_inv_def)
  note ok = chan_okD [OF chan_invD(5) [OF i, of c]]
  consider (served) "ch_asend ?c \<noteq> []" | (take) "ch_asend ?c = []" "0 < ch_nbuf ?c"
    | (empty) "\<not> can_exec ?c CHANRCV"
    by (cases "ch_asend ?c = []"; cases "ch_nbuf ?c = 0") auto
  then show ?thesis
  proof cases
    case served
    obtain i g w u d x where e: "channel_op ?st t c CHANRCV v canblock rnd rnd' =
       Ret (?st\<lparr>cs_th := u, cs_ch := (cs_ch ?st)(c := d\<lparr>ch_asend := array_del (ch_asend ?c) i\<rparr>),
           cs_frame := (cs_frame ?st)(t := []), cs_xalt := (cs_xalt ?st)(t := 0, g := 0)\<rparr>,
         Some (1, amove v (Some x) (ch_elemsize ?c)))"
      "i = rnd' mod length (ch_asend ?c)" "ch_asend ?c ! i = (g, 0)" "g \<noteq> t"
      "cs_frame ?st g = [op_alt g c CHANSND w]" "th_pc (cs_th ?st) g = Some PcChan"
      "ch_ok d" "same_arrays ?c d" "content ?c @ [zero_fill (ch_elemsize ?c) w] = x # content d"
      "sched_ok u" "th_pc u = th_pc (cs_th ?st)" "th_waiter u = th_waiter (cs_th ?st)" "same_flags (cs_th ?st) u"
      "\<And>h. runnable u h \<longleftrightarrow> h = g \<or> runnable (cs_th ?st) h"
      by (rule recv_served [OF i pc served, where v = v and canblock = canblock and rnd = rnd and rnd' = rnd'], rule that)
    have il: "i < length (ch_asend ?c)" using served e(2) by simp
    have n: "ch_nbuf ?c = ch_bufsize ?c" "ch_arecv ?c = []" using ok(4) served by auto
    have gq: "queued ?st c g" using nth_mem [OF il] e(3) by (simp add: queued_def)
    let ?d = "d\<lparr>ch_asend := array_del (ch_asend ?c) i\<rparr>"
    have st': "st' = ?st\<lparr>cs_th := u, cs_ch := (cs_ch ?st)(c := ?d),
           cs_frame := (cs_frame ?st)(t := []), cs_xalt := (cs_xalt ?st)(t := 0, g := 0)\<rparr>"
      and rr: "r = Some (1, amove v (Some x) (ch_elemsize ?c))" using r e(1) by simp_all
    have "length (content ?c @ [zero_fill (ch_elemsize ?c) w]) = length (x # content d)" by (simp only: e(9))
    then have nd: "ch_nbuf d = ch_bufsize d" "ch_arecv d = []" using n e(8) by (simp_all add: same_arrays_def)
    have I: "chan_inv st'"
      by (rule executed_inv [OF i pc, where c = c and d = ?d and G = "{g}"])
        (use e gq n nd array_del [OF ok(2) il] in \<open>simp_all add: st'\<close>)
    have p: "partner (ch_asend ?c) rnd' = [g]" using served e(2,3) by (simp add: partner_def)
    have gv: "entry_v ?st g = w" using e(5) by (simp add: entry_v_def)
    have log: "log_op s st' c CHANRCV v rnd' r = s\<lparr>cy_st := st',
        cy_sent := (cy_sent s)(c := cy_sent s c @ [zero_fill (ch_elemsize ?c) w]),
        cy_recv := (cy_recv s)(c := cy_recv s c @ [amove v (Some x) (ch_elemsize ?c)]),
        cy_given := (\<lambda>f. if f \<in> {g} then entry_v st' f else cy_given s f)\<rparr>"
      using p gv by (simp add: log_op_def rr Let_def)
    have "hist_ok (log_op s st' c CHANRCV v rnd' r) c'" for c'
      by (rule log_hist [OF h _ _ _ log, where d = ?d and X = "[x]"]) (use e(9) got_amove(1) in \<open>simp_all add: st'\<close>)
    moreover have "given_ok (log_op s st' c CHANRCV v rnd' r) f" for f
    proof -
      have "entry_v st' f = entry_v ?st f" if "f \<noteq> t" using that by (simp add: entry_v_def st')
      then show ?thesis using g [of f] e(11,14) pc unfolding log by (cases "f = t") (auto simp: given_ok_def st')
    qed
    ultimately show ?thesis using I by (simp add: chan_sys_inv_def)
  next
    case take
    obtain d x where e: "channel_op ?st t c CHANRCV v canblock rnd rnd' =
       Ret (?st\<lparr>cs_ch := (cs_ch ?st)(c := d), cs_frame := (cs_frame ?st)(t := []), cs_xalt := (cs_xalt ?st)(t := 0)\<rparr>,
         Some (1, amove v (Some x) (ch_elemsize ?c)))"
      "ch_ok d" "same_arrays ?c d" "content ?c = x # content d"
      by (rule recv_take [OF ok(1) take, where v = v and canblock = canblock and rnd = rnd and rnd' = rnd'])
    have st': "st' = ?st\<lparr>cs_ch := (cs_ch ?st)(c := d), cs_frame := (cs_frame ?st)(t := []), cs_xalt := (cs_xalt ?st)(t := 0)\<rparr>"
      and rr: "r = Some (1, amove v (Some x) (ch_elemsize ?c))" using r e(1) by simp_all
    have ar: "ch_arecv ?c = []" using ok(5) take(2) by auto
    have I: "chan_inv st'"
      by (rule executed_inv [OF i pc, where c = c and d = d and G = "{}"])
        (use e(2,3) ar take ok(1) chan_invD(1) [OF i] in \<open>simp_all add: st' same_arrays_def same_flags_def\<close>)
    have log: "log_op s st' c CHANRCV v rnd' r = s\<lparr>cy_st := st',
        cy_sent := (cy_sent s)(c := cy_sent s c @ []),
        cy_recv := (cy_recv s)(c := cy_recv s c @ [amove v (Some x) (ch_elemsize ?c)]),
        cy_given := (\<lambda>f. if f \<in> {} then entry_v st' f else cy_given s f)\<rparr>"
      using take(1) by (simp add: log_op_def rr Let_def partner_def)
    have "hist_ok (log_op s st' c CHANRCV v rnd' r) c'" for c'
      by (rule log_hist [OF h _ _ _ log, where d = d and X = "[x]"]) (use e(4) got_amove(1) in \<open>simp_all add: st'\<close>)
    moreover have "given_ok (log_op s st' c CHANRCV v rnd' r) f" for f
      using g [of f] pc unfolding log by (auto simp: given_ok_def st' entry_v_def)
    ultimately show ?thesis using I by (simp add: chan_sys_inv_def)
  next
    case empty
    then show ?thesis by (rule op_inv_blocked [OF inv run pc _ r _ quiet, rotated 1]) simp_all
  qed
qed

lemma chan_sys_inv_step:
  assumes "chan_quiet_step s t" "chan_sys_inv s"
  shows "chan_sys_inv t"
proof -
  have i: "chan_inv (cy_st s)" and h: "hist_ok s c" and g: "given_ok s f" for c f using assms(2) by (auto simp: chan_sys_inv_def)
  have q: "th_pc (cs_th (cy_st t)) f \<noteq> None \<Longrightarrow> \<not> acl_fiber_canceled (cs_th (cy_st t)) f" for f
    using assms(1) by (auto simp: chan_quiet_step_def)
  have "chan_step s t" using assms(1) by (simp add: chan_quiet_step_def)
  then show ?thesis
  proof cases
    case (ch_env u)
    have q': "th_pc u f \<noteq> None \<Longrightarrow> \<not> acl_fiber_canceled u f" for f using q [of f] ch_env(1) by simp
    note e = env_inv [OF i ch_env(2) q']
    have "hist_ok t c" for c by (rule hist_same [OF h]) (simp_all add: ch_env(1))
    moreover have "given_ok t f" for f using g [of f] e(2) e(3) [of f] by (auto simp: given_ok_def ch_env(1) entry_v_def)
    ultimately show ?thesis using e(1) by (simp add: chan_sys_inv_def ch_env(1))
  next
    case (ch_op f opr c v canblock rnd rnd' st' r)
    have q': "th_pc (cs_th st') f \<noteq> None \<Longrightarrow> \<not> acl_fiber_canceled (cs_th st') f" for f using q [of f] ch_op(1) by simp
    show ?thesis
      using ch_op op_inv_send [OF assms(2) ch_op(2,3) _ q'] op_inv_recv [OF assms(2) ch_op(2,3) _ q'] by auto
  next
    case (ch_resume f st' r)
    note e = resume_inv [OF i ch_resume(2-4)]
    have "hist_ok t c" for c by (rule hist_same [OF h]) (simp_all add: ch_resume(1) e(3))
    moreover have "given_ok t h" for h using g [of h] e(4-6) by (auto simp: given_ok_def ch_resume(1) entry_v_def)
    ultimately show ?thesis using e(1) by (simp add: chan_sys_inv_def ch_resume(1))
  qed
qed

interpretation chn: sync_object chan_init chan_quiet_step chan_sys_inv
  by unfold_locales (auto intro: chan_sys_inv_init chan_sys_inv_step)

subsection \<open>What signals do to a waiting operation\<close>

definition chan_demo :: chans where
  "chan_demo = \<lparr>cs_th = demo_thread, cs_ch = (\<lambda>_. acl_channel_create 1 2), cs_frame = (\<lambda>_. []), cs_xalt = (\<lambda>_. 0)\<rparr>"

text \<open>
  Fiber 1 waits for an element and 2 kills it: 1 returns \<open>-1\<close> but its entry stays queued, and the
  next send reads the stack frame that is gone.
\<close>

lemma channel_kill_dangles:
  "cbind (acl_channel_recv chan_demo 1 0 (Some [0]) 0 0) (\<lambda>(st, _).
   cbind (acl_fiber_kill (cs_th st) 1) (\<lambda>th.
   cbind (acl_fiber_yield th) (\<lambda>th.
   let (st, r, v) = channel_resume (st\<lparr>cs_th := th\<rparr>) 1 in
   cbind (acl_fiber_yield (cs_th st)) (\<lambda>th.
   Ret (r, ch_arecv (cs_ch st 0), th_running th, case acl_channel_send (st\<lparr>cs_th := th\<rparr>) 2 0 (Some [7]) 0 0 of Fault \<Rightarrow> True | Ret _ \<Rightarrow> False)))))
   = Ret (-1, [(1, 0)], Some 2, True)"
  by code_simp

text \<open>
  A signal that does not kill wakes the receiver too, which returns 1 although nothing was sent.
\<close>

lemma channel_signal_succeeds:
  "cbind (acl_channel_recv chan_demo 1 0 (Some [0]) 0 0) (\<lambda>(st, _).
   cbind (fiber_signal (cs_th st) 1 10 False) (\<lambda>th.
   cbind (acl_fiber_yield th) (\<lambda>th.
   let (st, r, v) = channel_resume (st\<lparr>cs_th := th\<rparr>) 1 in
   Ret (r, v, ch_arecv (cs_ch st 0)))))
   = Ret (1, Some [0], [(1, 0)])"
  by code_simp

subsection \<open>Properties\<close>

lemma chan_reach:
  assumes "chan_init s0" "chan_quiet_step\<^sup>*\<^sup>* s0 s"
  shows "chan_inv (cy_st s)" "hist_ok s c" "given_ok s f"
  using chn.reach_inv [OF assms] by (simp_all add: chan_sys_inv_def)

text \<open>
  C28: First in, first out, nothing lost and nothing twice. Whatever the fibers do with a channel, as long
  as no fiber is signaled or killed during a channel operation (quiet steps; lemmas channel_signal_succeeds
  and channel_kill_dangles show what happens otherwise), the elements received from it are the elements sent to it, in that order and
  up to those that are still in the buffer, of which there are never more than its size.
\<close>

theorem channel_fifo:
  assumes "chan_init s0" "chan_quiet_step\<^sup>*\<^sup>* s0 s"
  shows "\<exists>taken. cy_sent s c = taken @ content (cs_ch (cy_st s) c) \<and> list_all2 got (cy_recv s c) taken
    \<and> length (content (cs_ch (cy_st s) c)) \<le> ch_bufsize (cs_ch (cy_st s) c)"
  using chan_reach(2) [OF assms, of c] chan_okD(1) [OF chan_invD(5) [OF chan_reach(1) [OF assms], of c]]
  by (auto simp: hist_ok_def ch_ok_def)

text \<open>
  C29: No lost wake-up, as long as no fiber is signaled or killed during a channel operation (quiet
  steps). A fiber waits to send only on a full channel nobody waits to receive from, and to
  receive only on an empty one; a fiber suspended in an operation is either queued and not scheduled,
  or scheduled and about to return 1 with what its partner left in its variable.
\<close>

theorem channel_waiting:
  assumes "chan_init s0" "chan_quiet_step\<^sup>*\<^sup>* s0 s"
  shows "(ch_asend (cs_ch (cy_st s) c) \<noteq> [] \<longrightarrow>
      ch_nbuf (cs_ch (cy_st s) c) = ch_bufsize (cs_ch (cy_st s) c) \<and> ch_arecv (cs_ch (cy_st s) c) = [])
    \<and> (ch_arecv (cs_ch (cy_st s) c) \<noteq> [] \<longrightarrow> ch_nbuf (cs_ch (cy_st s) c) = 0)
    \<and> (th_pc (cs_th (cy_st s)) f = Some PcChan \<longrightarrow>
         (\<exists>c. queued (cy_st s) c f) \<and> \<not> runnable (cs_th (cy_st s)) f
         \<or> runnable (cs_th (cy_st s)) f \<and> snd (channel_resume (cy_st s) f) = (1, cy_given s f))"
proof -
  note i = chan_invD [OF chan_reach(1) [OF assms]] and ok = chan_okD [OF chan_invD(5) [OF chan_reach(1) [OF assms], of c]]
  have "snd (channel_resume (cy_st s) f) = (1, cy_given s f)"
    if p: "th_pc (cs_th (cy_st s)) f = Some PcChan" "runnable (cs_th (cy_st s)) f"
  proof -
    let ?u = "fiber_resume (cs_th (cy_st s)) f"
    have "\<not> acl_fiber_canceled ?u f"
      using i(4) [of f] p same_flags_canceled [OF resume_ok(4) [OF i(1) refl]] by simp
    then have "\<not> acl_fiber_killed ?u f" using killed_canceled by blast
    then show ?thesis
      using chan_reach(3) [OF assms, of f] p
      by (simp add: channel_resume_def channel_return_def given_ok_def entry_v_def Let_def)
  qed
  moreover have "\<not> runnable (cs_th (cy_st s)) f" if "queued (cy_st s) c f" for c using queuedD(2) [OF i(5) that] .
  ultimately show ?thesis using i(6) [of f] ok(4,5) by blast
qed

lemma blocked_spec:
  assumes i: "chan_inv st" and run: "th_running (cs_th st) = Some t" and opr: "opr = CHANSND \<or> opr = CHANRCV"
    and can: "\<not> can_exec (cs_ch st c) opr"
  shows "\<exists>st' r. channel_op st t c opr v canblock rnd rnd' = Ret (st', r) \<and> content (cs_ch st' c) = content (cs_ch st c)
     \<and> (if canblock then r = None \<and> queued st' c t \<and> \<not> runnable (cs_th st') t
         else r = Some (-1, v) \<and> cs_th st' = cs_th st)"
proof -
  obtain u where "channel_op st t c opr v canblock rnd rnd' =
      (if canblock then Ret (st\<lparr>cs_th := u,
           cs_ch := (cs_ch st)(c := set_array (cs_ch st c) opr (the (channel_array (cs_ch st c) opr) @ [(t, 0)])),
           cs_frame := (cs_frame st)(t := [op_alt t c opr v]), cs_xalt := (cs_xalt st)(t := 0)\<rparr>, None)
       else Ret (st\<lparr>cs_frame := (cs_frame st)(t := []), cs_xalt := (cs_xalt st)(t := 0)\<rparr>, Some (-1, v)))"
    "\<And>h. runnable u h \<longleftrightarrow> h \<noteq> t \<and> runnable (cs_th st) h"
    by (rule op_blocks [OF chan_invD(1) [OF i] run opr can, where v = v and canblock = canblock and rnd = rnd and rnd' = rnd'],
        rule that)
  note e = this
  show ?thesis
  proof (cases canblock)
    case True
    let ?s = "st\<lparr>cs_th := u,
           cs_ch := (cs_ch st)(c := set_array (cs_ch st c) opr (the (channel_array (cs_ch st c) opr) @ [(t, 0)])),
           cs_frame := (cs_frame st)(t := [op_alt t c opr v]), cs_xalt := (cs_xalt st)(t := 0)\<rparr>"
    have "queued ?s c t" "content (cs_ch ?s c) = content (cs_ch st c)" using opr by (auto simp: queued_def)
    then show ?thesis using True e by (intro exI [of _ ?s] exI [of _ None]) simp
  next
    case False
    then show ?thesis using e(1) by simp
  qed
qed

text \<open>
  What a send does, without ever failing. With a receiver waiting it hands the element to one of
  them and schedules it; with room in the buffer it appends the element; otherwise it returns \<open>-1\<close>, or
  suspends the fiber, with the buffer as it was.
\<close>

theorem channel_send_spec:
  assumes "chan_init s0" "chan_quiet_step\<^sup>*\<^sup>* s0 s"
    and "th_running (cs_th (cy_st s)) = Some t" "th_pc (cs_th (cy_st s)) t = None" "q = cs_ch (cy_st s) c"
  shows "\<exists>st' r. channel_op (cy_st s) t c CHANSND v canblock rnd rnd' = Ret (st', r)
    \<and> (if ch_arecv q \<noteq> [] then
         r = Some (1, v) \<and> content (cs_ch st' c) = []
         \<and> (\<exists>g. (g, 0) \<in> set (ch_arecv q) \<and> (g, 0) \<notin> set (ch_arecv (cs_ch st' c)) \<and> runnable (cs_th st') g
              \<and> entry_v st' g = amove (entry_v (cy_st s) g) v (ch_elemsize q))
       else if ch_nbuf q < ch_bufsize q then
         r = Some (1, v) \<and> content (cs_ch st' c) = content q @ [zero_fill (ch_elemsize q) v] \<and> cs_th st' = cs_th (cy_st s)
       else content (cs_ch st' c) = content q
         \<and> (if canblock then r = None \<and> queued st' c t \<and> \<not> runnable (cs_th st') t
            else r = Some (-1, v) \<and> cs_th st' = cs_th (cy_st s)))"
proof -
  let ?st = "cy_st s"
  note i = chan_reach(1) [OF assms(1,2)]
  note ok = chan_okD [OF chan_invD(5) [OF i, of c]]
  note pc = assms(4)
  consider (served) "ch_arecv (cs_ch ?st c) \<noteq> []" | (put) "ch_arecv (cs_ch ?st c) = []" "ch_nbuf (cs_ch ?st c) < ch_bufsize (cs_ch ?st c)"
    | (full) "ch_arecv (cs_ch ?st c) = []" "\<not> ch_nbuf (cs_ch ?st c) < ch_bufsize (cs_ch ?st c)" by blast
  then show ?thesis
  proof cases
    case served
    have n: "ch_nbuf (cs_ch ?st c) = 0" using ok(5) served by auto
    show ?thesis
    proof (rule send_served [OF i pc served, where v = v and canblock = canblock and rnd = rnd and rnd' = rnd'])
      fix g w k u
      assume e: "channel_op ?st t c CHANSND v canblock rnd rnd' =
          Ret (?st\<lparr>cs_th := u, cs_ch := (cs_ch ?st)(c := (cs_ch ?st c)\<lparr>ch_arecv := array_del (ch_arecv (cs_ch ?st c)) k\<rparr>),
            cs_frame := (cs_frame ?st)(g := [op_alt g c CHANRCV (amove w v (ch_elemsize (cs_ch ?st c)))], t := []),
            cs_xalt := (cs_xalt ?st)(t := 0, g := 0)\<rparr>, Some (1, v))"
        and k: "k = rnd' mod length (ch_arecv (cs_ch ?st c))" "ch_arecv (cs_ch ?st c) ! k = (g, 0)" "g \<noteq> t"
        and w: "cs_frame ?st g = [op_alt g c CHANRCV w]" and u: "\<And>h. runnable u h = (h = g \<or> runnable (cs_th ?st) h)"
      have kl: "k < length (ch_arecv (cs_ch ?st c))" using served k(1) by simp
      have "(g, 0) \<in> set (ch_arecv (cs_ch ?st c))" using nth_mem [OF kl] k(2) by simp
      moreover have "(g, 0) \<notin> set (array_del (ch_arecv (cs_ch ?st c)) k)" using array_del(1) [OF ok(3) kl] k(2) by simp
      ultimately show ?thesis
        using served e k(3) w u n unfolding assms(5) by (auto simp: entry_v_def)
    qed
  next
    case put
    obtain d where "channel_op ?st t c CHANSND v canblock rnd rnd' =
       Ret (?st\<lparr>cs_ch := (cs_ch ?st)(c := d), cs_frame := (cs_frame ?st)(t := []), cs_xalt := (cs_xalt ?st)(t := 0)\<rparr>, Some (1, v))"
      "content d = content (cs_ch ?st c) @ [zero_fill (ch_elemsize (cs_ch ?st c)) v]"
      by (rule send_put [OF ok(1) put, where v = v and canblock = canblock and rnd = rnd and rnd' = rnd'])
    then show ?thesis using put unfolding assms(5) by simp
  next
    case full
    then have "\<not> can_exec (cs_ch ?st c) CHANSND" by simp
    then show ?thesis using full blocked_spec [OF i assms(3), of CHANSND c v canblock rnd rnd'] by (simp add: assms(5))
  qed
qed

text \<open>
  What a receive does, without ever failing. It gets the first element of the buffer; a waiting
  sender then puts its own element at the buffer's end, so on a channel without buffer the element
  is the sender's. With nothing to receive it returns \<open>-1\<close>, or suspends the fiber.
\<close>

theorem channel_recv_spec:
  assumes "chan_init s0" "chan_quiet_step\<^sup>*\<^sup>* s0 s"
    and "th_running (cs_th (cy_st s)) = Some t" "th_pc (cs_th (cy_st s)) t = None" "q = cs_ch (cy_st s) c"
  shows "\<exists>st' r. channel_op (cy_st s) t c CHANRCV v canblock rnd rnd' = Ret (st', r)
    \<and> (if ch_asend q \<noteq> [] then
         \<exists>g x. r = Some (1, amove v (Some x) (ch_elemsize q))
           \<and> content q @ [zero_fill (ch_elemsize q) (entry_v (cy_st s) g)] = x # content (cs_ch st' c)
           \<and> (g, 0) \<in> set (ch_asend q) \<and> (g, 0) \<notin> set (ch_asend (cs_ch st' c)) \<and> runnable (cs_th st') g
       else if ch_nbuf q > 0 then
         \<exists>x. r = Some (1, amove v (Some x) (ch_elemsize q)) \<and> content q = x # content (cs_ch st' c)
           \<and> cs_th st' = cs_th (cy_st s)
       else content (cs_ch st' c) = content q
         \<and> (if canblock then r = None \<and> queued st' c t \<and> \<not> runnable (cs_th st') t
            else r = Some (-1, v) \<and> cs_th st' = cs_th (cy_st s)))"
proof -
  let ?st = "cy_st s"
  note i = chan_reach(1) [OF assms(1,2)]
  note ok = chan_okD [OF chan_invD(5) [OF i, of c]]
  note pc = assms(4)
  consider (served) "ch_asend (cs_ch ?st c) \<noteq> []" | (take) "ch_asend (cs_ch ?st c) = []" "0 < ch_nbuf (cs_ch ?st c)"
    | (empty) "ch_asend (cs_ch ?st c) = []" "ch_nbuf (cs_ch ?st c) = 0" by blast
  then show ?thesis
  proof cases
    case served
    show ?thesis
    proof (rule recv_served [OF i pc served, where v = v and canblock = canblock and rnd = rnd and rnd' = rnd'])
      fix g w k u d x
      assume e: "channel_op ?st t c CHANRCV v canblock rnd rnd' =
          Ret (?st\<lparr>cs_th := u, cs_ch := (cs_ch ?st)(c := d\<lparr>ch_asend := array_del (ch_asend (cs_ch ?st c)) k\<rparr>),
            cs_frame := (cs_frame ?st)(t := []), cs_xalt := (cs_xalt ?st)(t := 0, g := 0)\<rparr>,
            Some (1, amove v (Some x) (ch_elemsize (cs_ch ?st c))))"
        and k: "k = rnd' mod length (ch_asend (cs_ch ?st c))" "ch_asend (cs_ch ?st c) ! k = (g, 0)"
        and w: "cs_frame ?st g = [op_alt g c CHANSND w]" and u: "\<And>h. runnable u h = (h = g \<or> runnable (cs_th ?st) h)"
        and x: "content (cs_ch ?st c) @ [zero_fill (ch_elemsize (cs_ch ?st c)) w] = x # content d"
      have kl: "k < length (ch_asend (cs_ch ?st c))" using served k(1) by simp
      have "(g, 0) \<in> set (ch_asend (cs_ch ?st c))" using nth_mem [OF kl] k(2) by simp
      moreover have "(g, 0) \<notin> set (array_del (ch_asend (cs_ch ?st c)) k)" using array_del(1) [OF ok(2) kl] k(2) by simp
      moreover have "entry_v ?st g = w" using w by (simp add: entry_v_def)
      ultimately show ?thesis using served e u x unfolding assms(5) by auto
    qed
  next
    case take
    obtain d x where "channel_op ?st t c CHANRCV v canblock rnd rnd' =
       Ret (?st\<lparr>cs_ch := (cs_ch ?st)(c := d), cs_frame := (cs_frame ?st)(t := []), cs_xalt := (cs_xalt ?st)(t := 0)\<rparr>,
         Some (1, amove v (Some x) (ch_elemsize (cs_ch ?st c))))"
      "content (cs_ch ?st c) = x # content d"
      by (rule recv_take [OF ok(1) take, where v = v and canblock = canblock and rnd = rnd and rnd' = rnd'])
    then show ?thesis using take unfolding assms(5) by simp
  next
    case empty
    then have "\<not> can_exec (cs_ch ?st c) CHANRCV" by simp
    then show ?thesis using empty blocked_spec [OF i assms(3), of CHANRCV c v canblock rnd rnd'] by (simp add: assms(5))
  qed
qed

subsection \<open>Witnesses\<close>

definition chan_demo_sys :: chan_sys where
  "chan_demo_sys = \<lparr>cy_st = chan_demo, cy_sent = (\<lambda>_. []), cy_recv = (\<lambda>_. []), cy_given = (\<lambda>_. None)\<rparr>"

lemma chan_demo_init: "chan_init chan_demo_sys"
  using demo_thread by (auto simp: chan_init_def chan_demo_sys_def chan_demo_def)

text \<open>Fiber 1 waits to receive; fiber 2 runs.\<close>

lemma chan_demo_reach:
  "\<exists>s. chan_quiet_step\<^sup>*\<^sup>* chan_demo_sys s \<and> th_running (cs_th (cy_st s)) = Some 2 \<and> th_pc (cs_th (cy_st s)) 2 = None
     \<and> th_pc (cs_th (cy_st s)) 1 = Some PcChan \<and> (\<forall>f. \<not> acl_fiber_canceled (cs_th (cy_st s)) f)
     \<and> cs_ch (cy_st s) 0 = (acl_channel_create 1 2)\<lparr>ch_arecv := [(1, 0)]\<rparr> \<and> entry_v (cy_st s) 1 = Some [0]
     \<and> cy_sent s = (\<lambda>_. []) \<and> cy_recv s = (\<lambda>_. []) \<and> \<not> runnable (cs_th (cy_st s)) 1"
proof -
  note d = demo_thread
  have st: "cs_th chan_demo = demo_thread" "cs_ch chan_demo 0 = acl_channel_create 1 2" by (simp_all add: chan_demo_def)
  obtain u where u: "channel_op chan_demo 1 0 CHANRCV (Some [0]) True 0 0 =
      (if True then Ret (chan_demo\<lparr>cs_th := u,
           cs_ch := (cs_ch chan_demo)(0 := set_array (cs_ch chan_demo 0) CHANRCV (the (channel_array (cs_ch chan_demo 0) CHANRCV) @ [(1, 0)])),
           cs_frame := (cs_frame chan_demo)(1 := [op_alt 1 0 CHANRCV (Some [0])]), cs_xalt := (cs_xalt chan_demo)(1 := 0)\<rparr>, None)
       else Ret (chan_demo\<lparr>cs_frame := (cs_frame chan_demo)(1 := []), cs_xalt := (cs_xalt chan_demo)(1 := 0)\<rparr>, Some (-1, Some [0])))"
    "sched_ok u" "th_pc u = (th_pc (cs_th chan_demo))(1 := Some PcChan)"
    "same_flags (cs_th chan_demo) u" "\<And>h. runnable u h \<longleftrightarrow> h \<noteq> 1 \<and> runnable (cs_th chan_demo) h"
    "th_running u = (case th_rings (cs_th chan_demo) RReady of [] \<Rightarrow> None | f # _ \<Rightarrow> Some f)"
    by (rule op_blocks [of chan_demo 1 CHANRCV 0 "Some [0]" True 0 0])
      (use d st in \<open>auto simp: acl_channel_create_def\<close>)
  let ?s = "chan_demo\<lparr>cs_th := u, cs_ch := (cs_ch chan_demo)(0 := (acl_channel_create 1 2)\<lparr>ch_arecv := [(1, 0)]\<rparr>),
           cs_frame := (cs_frame chan_demo)(1 := [op_alt 1 0 CHANRCV (Some [0])]), cs_xalt := (cs_xalt chan_demo)(1 := 0)\<rparr>"
  have e: "channel_op chan_demo 1 0 CHANRCV (Some [0]) True 0 0 = Ret (?s, None)"
    using u(1) st(2) by (simp add: acl_channel_create_def)
  have nc: "\<not> acl_fiber_canceled u f" for f
    using same_flags_canceled [OF u(4)] st(1) by (simp add: acl_fiber_canceled_def demo_thread_def)
  have "chan_step chan_demo_sys (log_op chan_demo_sys ?s 0 CHANRCV (Some [0]) 0 None)"
    by (rule ch_op [of _ 1 _ _ _ True 0 0]) (use d st e in \<open>simp_all add: chan_demo_sys_def\<close>)
  then have "chan_quiet_step\<^sup>*\<^sup>* chan_demo_sys (log_op chan_demo_sys ?s 0 CHANRCV (Some [0]) 0 None)"
    using nc by (intro r_into_rtranclp) (simp add: chan_quiet_step_def)
  moreover have "th_running u = Some 2" using u(6) d(3) st(1) by simp
  ultimately show ?thesis
    using u(3,5) d(4) st nc
    by (intro exI [of _ "log_op chan_demo_sys ?s 0 CHANRCV (Some [0]) 0 None"]) (simp add: log_op_def chan_demo_sys_def entry_v_def)
qed

theorem channel_send_spec_witness:
  "\<exists>st st' r. channel_op st 2 0 CHANSND (Some [7]) True 0 0 = Ret (st', Some (1, Some [7]))
     \<and> entry_v st 1 = Some [0] \<and> entry_v st' 1 = Some [7]"
proof -
  obtain s where s: "chan_quiet_step\<^sup>*\<^sup>* chan_demo_sys s" "th_running (cs_th (cy_st s)) = Some 2" "th_pc (cs_th (cy_st s)) 2 = None"
     "cs_ch (cy_st s) 0 = (acl_channel_create 1 2)\<lparr>ch_arecv := [(1, 0)]\<rparr>" "entry_v (cy_st s) 1 = Some [0]"
    using chan_demo_reach by blast
  show ?thesis
    using channel_send_spec [OF chan_demo_init s(1-3) refl, of 0 "Some [7]" True 0 0] s(4,5)
    by (auto simp: amove_def zero_fill_def)
qed

theorem channel_waiting_witness:
  "\<exists>(st :: chans). ch_arecv (cs_ch st 0) = [(1, 0)] \<and> ch_nbuf (cs_ch st 0) = 0 \<and> (\<exists>c. queued st c 1)"
proof -
  obtain s where s: "chan_quiet_step\<^sup>*\<^sup>* chan_demo_sys s" "th_pc (cs_th (cy_st s)) 1 = Some PcChan"
     "cs_ch (cy_st s) 0 = (acl_channel_create 1 2)\<lparr>ch_arecv := [(1, 0)]\<rparr>" "\<not> runnable (cs_th (cy_st s)) 1"
    using chan_demo_reach by blast
  show ?thesis
    using channel_waiting [OF chan_demo_init s(1), of 0 1] s(2-4) by (intro exI [of _ "cy_st s"]) simp
qed

theorem channel_recv_spec_witness:
  "\<exists>st'. channel_op chan_demo 1 0 CHANRCV (Some [5]) False 0 0 = Ret (st', Some (-1, Some [5])) \<and> cs_th st' = demo_thread"
proof -
  have q: "acl_channel_create 1 2 = cs_ch (cy_st chan_demo_sys) 0" by (simp add: chan_demo_sys_def chan_demo_def)
  show ?thesis
    using channel_recv_spec [OF chan_demo_init rtranclp.rtrancl_refl _ _ q, of 1 "Some [5]" False 0 0] demo_thread
    by (auto simp: chan_demo_sys_def chan_demo_def acl_channel_create_def)
qed

text \<open>Fiber 2 sends, so that both histories are \<open>[7]\<close>.\<close>

theorem channel_fifo_witness:
  "\<exists>(s :: chan_sys) taken. cy_sent s 0 = [[7]] \<and> cy_recv s 0 = [Some [7]] \<and> [[7]] = taken @ content (cs_ch (cy_st s) 0)
     \<and> list_all2 got [Some [7]] taken"
proof -
  obtain s where s: "chan_quiet_step\<^sup>*\<^sup>* chan_demo_sys s" "th_running (cs_th (cy_st s)) = Some 2" "th_pc (cs_th (cy_st s)) 2 = None"
     "th_pc (cs_th (cy_st s)) 1 = Some PcChan" "\<And>f. \<not> acl_fiber_canceled (cs_th (cy_st s)) f"
     "cs_ch (cy_st s) 0 = (acl_channel_create 1 2)\<lparr>ch_arecv := [(1, 0)]\<rparr>" "entry_v (cy_st s) 1 = Some [0]"
     "cy_sent s = (\<lambda>_. [])" "cy_recv s = (\<lambda>_. [])"
    using chan_demo_reach by blast
  have ne: "ch_arecv (cs_ch (cy_st s) 0) \<noteq> []" by (simp add: s(6))
  obtain i g w u where e: "channel_op (cy_st s) 2 0 CHANSND (Some [7]) True 0 0 =
       Ret ((cy_st s)\<lparr>cs_th := u, cs_ch := (cs_ch (cy_st s))(0 := (cs_ch (cy_st s) 0)\<lparr>ch_arecv := array_del (ch_arecv (cs_ch (cy_st s) 0)) i\<rparr>),
           cs_frame := (cs_frame (cy_st s))(g := [op_alt g 0 CHANRCV (amove w (Some [7]) (ch_elemsize (cs_ch (cy_st s) 0)))], 2 := []),
           cs_xalt := (cs_xalt (cy_st s))(2 := 0, g := 0)\<rparr>, Some (1, Some [7]))"
    "i = 0 mod length (ch_arecv (cs_ch (cy_st s) 0))" "ch_arecv (cs_ch (cy_st s) 0) ! i = (g, 0)" "g \<noteq> 2"
    "cs_frame (cy_st s) g = [op_alt g 0 CHANRCV w]" "same_flags (cs_th (cy_st s)) u"
    by (rule send_served [OF chan_reach(1) [OF chan_demo_init s(1)] s(3) ne, where v = "Some [7]" and canblock = True and rnd = 0 and rnd' = 0],
        rule that)
  have g: "i = 0" "g = 1" "w = Some [0]" using e(2,3,5) s(6,7) by (simp_all add: entry_v_def)
  define st' where "st' = (cy_st s)\<lparr>cs_th := u, cs_ch := (cs_ch (cy_st s))(0 := (cs_ch (cy_st s) 0)\<lparr>ch_arecv := array_del (ch_arecv (cs_ch (cy_st s) 0)) i\<rparr>),
           cs_frame := (cs_frame (cy_st s))(g := [op_alt g 0 CHANRCV (amove w (Some [7]) (ch_elemsize (cs_ch (cy_st s) 0)))], 2 := []),
           cs_xalt := (cs_xalt (cy_st s))(2 := 0, g := 0)\<rparr>"
  let ?t = "log_op s st' 0 CHANSND (Some [7]) 0 (Some (1, Some [7]))"
  have "\<not> acl_fiber_canceled (cs_th st') f" for f using s(5) same_flags_canceled [OF e(6)] by (simp add: st'_def)
  moreover have "chan_step s ?t" using ch_op [OF s(2,3), of CHANSND 0 "Some [7]" True 0 0 st'] e(1) by (simp add: st'_def)
  ultimately have "chan_quiet_step s ?t" by (simp add: chan_quiet_step_def)
  with s(1) have t: "chan_quiet_step\<^sup>*\<^sup>* chan_demo_sys ?t" by (rule rtranclp.rtrancl_into_rtrancl)
  have "entry_v st' 1 = Some [7]" using e(4) g by (simp add: entry_v_def st'_def amove_def zero_fill_def)
  then have h: "cy_sent ?t 0 = [[7]]" "cy_recv ?t 0 = [Some [7]]"
    using s(6,8,9) by (simp_all add: log_op_def partner_def zero_fill_def)
  obtain taken where "cy_sent ?t 0 = taken @ content (cs_ch (cy_st ?t) 0)" "list_all2 got (cy_recv ?t 0) taken"
    using channel_fifo [OF chan_demo_init t, of 0] by blast
  then show ?thesis unfolding h using h by blast
qed

end
