(* ===== verification/Acl_Mystring.thy ===== *)
theory Acl_Mystring
  imports Acl_Prelude
begin

text \<open>
  String routines of \<open>stdlib/string/acl_mystring.c\<close> on C strings, as lists of the bytes in front of
  the terminator.
\<close>

subsection \<open>Splitting\<close>

text \<open>
  \<open>acl_strtok\<close>, also called \<open>acl_mystrtok\<close>: the next token, if there is one, and the text behind it.
\<close>

definition acl_strtok :: "byte list \<Rightarrow> byte list \<Rightarrow> byte list option \<times> byte list" where
  "acl_strtok src sep =
    (let start = dropWhile (\<lambda>b. b \<in> set sep) src in
     if start = [] then (None, [])
     else
       let tok = takeWhile (\<lambda>b. b \<notin> set sep) start; rest = dropWhile (\<lambda>b. b \<notin> set sep) start in
       (Some tok, if rest = [] then [] else tl rest))"

lemma length_dropWhile_less: "xs \<noteq> [] \<Longrightarrow> P (hd xs) \<Longrightarrow> length (dropWhile P xs) < length xs"
  by (cases xs) (simp_all add: length_dropWhile_le le_imp_less_Suc)

lemma strtok_shorter: "acl_strtok src sep = (Some tok, rest) \<Longrightarrow> length rest < length src"
proof -
  assume a: "acl_strtok src sep = (Some tok, rest)"
  let ?s = "dropWhile (\<lambda>b. b \<in> set sep) src"
  let ?r = "dropWhile (\<lambda>b. b \<notin> set sep) ?s"
  have e: "acl_strtok src sep = (if ?s = [] then (None, []) else (Some (takeWhile (\<lambda>b. b \<notin> set sep) ?s), if ?r = [] then [] else tl ?r))"
    by (simp only: acl_strtok_def Let_def)
  have s: "?s \<noteq> []" using a e by (metis option.distinct(1) prod.inject)
  have rest: "rest = (if ?r = [] then [] else tl ?r)" using a unfolding e if_not_P [OF s] by (rule prod.inject [THEN iffD1, THEN conjunct2, symmetric])
  have "hd ?s \<notin> set sep" using hd_dropWhile [OF s] .
  then have "length ?r < length ?s" using s by (intro length_dropWhile_less)
  moreover have "length (if xs = [] then [] else tl xs) \<le> length xs" for xs :: "byte list" by simp
  then have "length rest \<le> length ?r" unfolding rest .
  moreover have "length ?s \<le> length src" by (rule length_dropWhile_le)
  ultimately show ?thesis by linarith
qed

text \<open>The bytes that \<open>ACL_SAFE_STRNCPY\<close> copies into an array of the given size.\<close>

definition acl_safe_strncpy :: "byte list \<Rightarrow> nat \<Rightarrow> byte list" where
  "acl_safe_strncpy src sz = take (sz - 1) src"

text \<open>\<open>acl_alldig\<close> of \<open>acl_alldig.c\<close>: a text of digits only.\<close>

definition acl_alldig :: "byte list \<Rightarrow> bool" where
  "acl_alldig s \<longleftrightarrow> s \<noteq> [] \<and> list_all is_digit s"

text \<open>The tokens of a text: what successive calls return until the first \<open>NULL\<close>.\<close>

function strtok_all :: "byte list \<Rightarrow> byte list \<Rightarrow> byte list list" where
  "strtok_all src sep = (case acl_strtok src sep of
     (None, _) \<Rightarrow> []
   | (Some tok, rest) \<Rightarrow> tok # strtok_all rest sep)"
  by auto

termination
  by (relation "measure (\<lambda>(src, _). length src)") (auto dest: strtok_shorter [OF sym])

declare strtok_all.simps [simp del]

text \<open>Splitting undoes joining, when the tokens are not empty and free of delimiters.\<close>

fun join :: "byte \<Rightarrow> byte list list \<Rightarrow> byte list" where
  "join d [] = []"
| "join d [t] = t"
| "join d (t # ts) = t @ [d] @ join d ts"

definition tokens_ok :: "byte list \<Rightarrow> byte list list \<Rightarrow> bool" where
  "tokens_ok sep ts \<longleftrightarrow> (\<forall>t \<in> set ts. t \<noteq> [] \<and> set t \<inter> set sep = {})"

lemma strtok_token:
  assumes "t \<noteq> []" "set t \<inter> set sep = {}" "d \<in> set sep"
  shows "acl_strtok (t @ d # r) sep = (Some t, r)" "acl_strtok t sep = (Some t, [])"
proof -
  obtain a u where t: "t = a # u" using assms(1) by (cases t) auto
  have n: "x \<notin> set sep" if "x \<in> set t" for x using that assms(2) by auto
  then have s: "dropWhile (\<lambda>b. b \<in> set sep) (t @ d # r) = t @ d # r" "dropWhile (\<lambda>b. b \<in> set sep) t = t"
    using t by auto
  have "takeWhile (\<lambda>b. b \<notin> set sep) (t @ d # r) = t" "dropWhile (\<lambda>b. b \<notin> set sep) (t @ d # r) = d # r"
    using n assms(3) by (simp_all add: takeWhile_append2 dropWhile_append2)
  moreover have "takeWhile (\<lambda>b. b \<notin> set sep) t = t" "dropWhile (\<lambda>b. b \<notin> set sep) t = []"
    using n by (simp_all add: takeWhile_eq_all_conv dropWhile_eq_Nil_conv)
  ultimately show "acl_strtok (t @ d # r) sep = (Some t, r)" "acl_strtok t sep = (Some t, [])"
    using s assms(1) by (simp_all add: acl_strtok_def)
qed

lemma strtok_all_join:
  "tokens_ok sep ts \<Longrightarrow> d \<in> set sep \<Longrightarrow> strtok_all (join d ts) sep = ts"
proof (induction ts rule: join.induct)
  case (1 d)
  show ?case by (subst strtok_all.simps) (simp add: acl_strtok_def)
next
  case (2 d t)
  then have "acl_strtok t sep = (Some t, [])" by (intro strtok_token(2)) (auto simp: tokens_ok_def)
  moreover have "strtok_all [] sep = []" by (subst strtok_all.simps) (simp add: acl_strtok_def)
  ultimately show ?case by (subst strtok_all.simps) simp
next
  case (3 d t u us)
  then have "acl_strtok (t @ d # join d (u # us)) sep = (Some t, join d (u # us))"
    by (intro strtok_token(1)) (auto simp: tokens_ok_def)
  then have "strtok_all (t @ d # join d (u # us)) sep = t # strtok_all (join d (u # us)) sep"
    by (subst strtok_all.simps) (simp only: prod.case option.case)
  then show ?case using 3 by (simp add: tokens_ok_def)
qed

end
