(* ===== verification/Rfc1035.thy ===== *)
theory Rfc1035
  imports Acl_Mystring
begin

text \<open>
  DNS messages, \<open>net/dns/acl_rfc1035.c\<close>. A message being packed is the list of bytes written so far
  and the size of its buffer: a write behind the buffer is \<open>Fault\<close>, and so is \<open>acl_msg_fatal\<close>. A
  received message is the list of its bytes, read through \<open>tab_at\<close>. The fields of the header have the
  widths of the C bit-fields; the bytes that \<open>htons\<close> and \<open>ntohs\<close> turn are written out in network order.
\<close>

subsection \<open>Records\<close>

record rfc1035_rr =
  rr_name :: "byte list"
  rr_type :: "16 word"
  rr_class :: "16 word"
  rr_ttl :: "32 word"
  rr_rdlength :: "16 word"
  rr_rdata :: "byte list"

record rfc1035_query =
  q_name :: "byte list"
  q_type :: "16 word"
  q_class :: "16 word"

record rfc1035_message =
  m_id :: "16 word"
  m_qr :: "1 word"
  m_opcode :: "4 word"
  m_aa :: "1 word"
  m_tc :: "1 word"
  m_rd :: "1 word"
  m_ra :: "1 word"
  m_rcode :: "4 word"
  m_qdcount :: "16 word"
  m_ancount :: "16 word"
  m_nscount :: "16 word"
  m_arcount :: "16 word"
  m_query :: "rfc1035_query list"
  m_answer :: "rfc1035_rr list"
  m_authority :: "rfc1035_rr list"
  m_additional :: "rfc1035_rr list"

definition msg0 :: rfc1035_message where
  "msg0 = \<lparr>m_id = 0, m_qr = 0, m_opcode = 0, m_aa = 0, m_tc = 0, m_rd = 0, m_ra = 0, m_rcode = 0,
     m_qdcount = 0, m_ancount = 0, m_nscount = 0, m_arcount = 0,
     m_query = [], m_answer = [], m_authority = [], m_additional = []\<rparr>"

subsection \<open>Bytes in network order\<close>

definition put16 :: "16 word \<Rightarrow> byte list" where
  "put16 w = [ucast (drop_bit 8 w), ucast w]"

definition put32 :: "32 word \<Rightarrow> byte list" where
  "put32 w = [ucast (drop_bit 24 w), ucast (drop_bit 16 w), ucast (drop_bit 8 w), ucast w]"

definition get16 :: "byte list \<Rightarrow> nat \<Rightarrow> 16 word cres" where
  "get16 buf off = cbind (tab_at buf off) (\<lambda>a. cbind (tab_at buf (off + 1)) (\<lambda>b.
     Ret (push_bit 8 (ucast a) OR ucast b)))"

definition get32 :: "byte list \<Rightarrow> nat \<Rightarrow> 32 word cres" where
  "get32 buf off = cbind (get16 buf off) (\<lambda>a. cbind (get16 buf (off + 2)) (\<lambda>b.
     Ret (push_bit 16 (ucast a) OR ucast b)))"

text \<open>\<open>memcpy (buf + off, \<dots>)\<close> while packing.\<close>

definition put :: "nat \<Rightarrow> byte list \<Rightarrow> byte list \<Rightarrow> byte list cres" where
  "put sz out bs = (if length out + length bs > sz then Fault else Ret (out @ bs))"

subsection \<open>Packing\<close>

definition rfc1035_header_pack :: "nat \<Rightarrow> rfc1035_message \<Rightarrow> byte list cres" where
  "rfc1035_header_pack sz h =
    (if sz < 12 then Fault
     else
       (let t = push_bit 15 (ucast (m_qr h)) OR push_bit 11 (ucast (m_opcode h)) OR push_bit 10 (ucast (m_aa h))
                OR push_bit 9 (ucast (m_tc h)) OR push_bit 8 (ucast (m_rd h)) OR push_bit 7 (ucast (m_ra h))
                OR (ucast (m_rcode h) :: 16 word)
        in Ret (put16 (m_id h) @ put16 t @ put16 (m_qdcount h) @ put16 (m_ancount h)
                @ put16 (m_nscount h) @ put16 (m_arcount h))))"

text \<open>A label, or \<open>NULL\<close> for the root.\<close>

definition rfc1035_label_pack :: "nat \<Rightarrow> byte list option \<Rightarrow> byte list cres" where
  "rfc1035_label_pack sz label =
    (let text = (case label of None \<Rightarrow> [] | Some l \<Rightarrow> l); len = min (length text) 63 in
     if 46 \<in> set text then Fault
     else if sz < len + 1 then Fault
     else Ret (of_nat len # take len text))"

function name_pack_loop :: "nat \<Rightarrow> byte list \<Rightarrow> byte list \<Rightarrow> byte list cres" where
  "name_pack_loop sz out name = (case acl_strtok name [46] of
     (None, _) \<Rightarrow> Ret out
   | (Some t, rest) \<Rightarrow> cbind (rfc1035_label_pack (sz - length out) (Some t)) (\<lambda>b.
       name_pack_loop sz (out @ b) rest))"
  by auto

termination
  by (relation "measure (\<lambda>(_, _, name). length name)") (auto dest: strtok_shorter [OF sym])

declare name_pack_loop.simps [simp del]

definition rfc1035_name_pack :: "nat \<Rightarrow> byte list \<Rightarrow> byte list cres" where
  "rfc1035_name_pack sz name = cbind (name_pack_loop sz [] name) (\<lambda>out.
     map_cres (\<lambda>b. out @ b) (rfc1035_label_pack (sz - length out) None))"

definition rfc1035_question_pack :: "nat \<Rightarrow> byte list \<Rightarrow> 16 word \<Rightarrow> 16 word \<Rightarrow> byte list cres" where
  "rfc1035_question_pack sz name type tclass =
    cbind (rfc1035_name_pack sz name) (\<lambda>out. cbind (put sz out (put16 type)) (\<lambda>out. put sz out (put16 tclass)))"

text \<open>The types whose data is packed as a name, and those whose data is unpacked as one.\<close>

definition pack_name_types :: "16 word list" where
  "pack_name_types = [12, 2, 5, 16]"

definition unpack_name_types :: "16 word list" where
  "unpack_name_types = [5, 6, 2, 16, 12, 11]"

text \<open>
  Only the name is checked against the size before it is written; the name in the data is checked
  against the size of the whole buffer. The result is empty where the code returns 0.
\<close>

definition rfc1035_rr_pack :: "nat \<Rightarrow> rfc1035_rr \<Rightarrow> byte list cres" where
  "rfc1035_rr_pack sz r =
    cbind (rfc1035_name_pack sz (rr_name r)) (\<lambda>out.
    cbind (put sz out (put16 (rr_type r))) (\<lambda>out.
    cbind (put sz out (put16 (rr_class r))) (\<lambda>out.
    cbind (put sz out (put32 (rr_ttl r))) (\<lambda>out.
    if rr_type r \<in> set pack_name_types then
      (if length (rr_rdata r) > 256 then Ret []
       else cbind (rfc1035_name_pack sz (rr_rdata r)) (\<lambda>b.
         cbind (put sz out (put16 (of_nat (length b)))) (\<lambda>out. put sz out b)))
    else
      cbind (put sz out (put16 (rr_rdlength r))) (\<lambda>out.
        if length (rr_rdata r) < unat (rr_rdlength r) then Fault
        else put sz out (take (unat (rr_rdlength r)) (rr_rdata r)))))))"

definition rfc1035_build_query ::
    "byte list \<Rightarrow> nat \<Rightarrow> 16 word \<Rightarrow> 16 word \<Rightarrow> 16 word \<Rightarrow> (byte list \<times> rfc1035_query option) cres" where
  "rfc1035_build_query hostname sz qid qtype qclass =
    (if sz < 512 then Ret ([], None)
     else
       cbind (rfc1035_header_pack sz (msg0\<lparr>m_id := qid, m_rd := 1, m_qdcount := 1\<rparr>)) (\<lambda>h.
       cbind (rfc1035_question_pack (sz - length h) hostname qtype qclass) (\<lambda>q.
       Ret (h @ q, Some \<lparr>q_name = acl_safe_strncpy hostname 256, q_type = qtype, q_class = qclass\<rparr>))))"

definition acl_rfc1035_build_query4a where "acl_rfc1035_build_query4a h sz qid = rfc1035_build_query h sz qid 1 1"
definition acl_rfc1035_build_query4aaaa where "acl_rfc1035_build_query4aaaa h sz qid = rfc1035_build_query h sz qid 28 1"
definition acl_rfc1035_build_query4mx where "acl_rfc1035_build_query4mx h sz qid = rfc1035_build_query h sz qid 15 1"

definition acl_rfc1035_set_query_id :: "byte list \<Rightarrow> 16 word \<Rightarrow> byte list" where
  "acl_rfc1035_set_query_id buf qid = (let n = min (length buf) 2 in take n (put16 qid) @ drop n buf)"

subsection \<open>Unpacking\<close>

text \<open>
  \<open>rfc1035_name_unpack\<close>: \<open>out\<close> is what this call has written to \<open>name\<close>, \<open>ns\<close> the size of \<open>name\<close>. The result
  is the returned code, the new offset, the sum of the lengths in \<open>*rdlength\<close>, and the bytes in \<open>name\<close>
  in front of the terminator that the code writes. A compression pointer is followed by a recursive call, at most 65 deep.
\<close>

function rfc1035_name_unpack ::
    "byte list \<Rightarrow> nat \<Rightarrow> 16 word \<Rightarrow> byte list \<Rightarrow> nat \<Rightarrow> nat \<Rightarrow> (int \<times> nat \<times> 16 word \<times> byte list) cres" where
  "rfc1035_name_unpack buf off rdl out ns rdepth =
    (if ns = 0 then Ret (-15, off, rdl, out)
     else if off \<ge> length buf then Ret (-15, off, rdl, out)
     else cbind (tab_at buf off) (\<lambda>c. let len = unat c in
        if len > 191 then
          if rdepth > 64 then Ret (1, off, rdl, out)
          else cbind (get16 buf off) (\<lambda>s.
            if off + 2 \<ge> length buf then Ret (1, off + 2, rdl, out)
            else
              let ptr = unat (s AND 0x3FFF) in
              if ptr \<ge> length buf then Ret (1, off + 2, rdl, out)
              else map_cres (\<lambda>(r, _, rdl, name). (r, off + 2, rdl, out @ name))
                     (rfc1035_name_unpack buf ptr rdl [] (ns - length out) (rdepth + 1)))
        else if len > 63 then Ret (1, off, rdl, out)
        else if len = 0 then Ret (0, off + 1, rdl, butlast out)
        else if len > ns - length out - 1 then Ret (1, off + 1, rdl, out)
        else if off + 1 + len \<ge> length buf then Ret (1, off + 1, rdl, out)
        else cbind (bytes_at buf (off + 1) len) (\<lambda>label.
          cbind (put ns out label) (\<lambda>out. cbind (put ns out [46]) (\<lambda>out.
          let rdl = rdl + of_nat len + 1 in
          if length out < ns then rfc1035_name_unpack buf (off + 1 + len) rdl out ns rdepth
          else Ret (0, off + 1 + len, rdl, butlast out))))))"
  by pat_completeness auto

termination
  by (relation "measures [\<lambda>(_, _, _, _, _, rdepth). 65 - rdepth, \<lambda>(buf, off, _). length buf - off]") auto

declare rfc1035_name_unpack.simps [simp del]

text \<open>The guards make every read and write of the function one inside the message and the name.\<close>

lemma name_unpack_eq: "rfc1035_name_unpack buf off rdl out ns rdepth =
    (if ns = 0 then Ret (-15, off, rdl, out)
     else if off \<ge> length buf then Ret (-15, off, rdl, out)
     else
       (let c = buf ! off; len = unat c in
        if len > 191 then
          if rdepth > 64 then Ret (1, off, rdl, out)
          else cbind (get16 buf off) (\<lambda>s.
            if off + 2 \<ge> length buf then Ret (1, off + 2, rdl, out)
            else
              let ptr = unat (s AND 0x3FFF) in
              if ptr \<ge> length buf then Ret (1, off + 2, rdl, out)
              else map_cres (\<lambda>(r, _, rdl, name). (r, off + 2, rdl, out @ name))
                     (rfc1035_name_unpack buf ptr rdl [] (ns - length out) (rdepth + 1)))
        else if len > 63 then Ret (1, off, rdl, out)
        else if len = 0 then Ret (0, off + 1, rdl, butlast out)
        else if len > ns - length out - 1 then Ret (1, off + 1, rdl, out)
        else if off + 1 + len \<ge> length buf then Ret (1, off + 1, rdl, out)
        else
          let out = out @ take len (drop (off + 1) buf) @ [46]; rdl = rdl + of_nat len + 1 in
          if length out < ns then rfc1035_name_unpack buf (off + 1 + len) rdl out ns rdepth
          else Ret (0, off + 1 + len, rdl, butlast out)))"
proof (cases "ns = 0 \<or> off \<ge> length buf")
  case True
  then show ?thesis by (subst rfc1035_name_unpack.simps) auto
next
  case False
  let ?len = "unat (buf ! off)"
  have copy: "cbind (put ns out (take ?len (drop (Suc off) buf))) (\<lambda>out. cbind (put ns out [46]) f) = f (out @ take ?len (drop (Suc off) buf) @ [46])"
    if "\<not> ?len > ns - length out - 1" "\<not> off + 1 + ?len \<ge> length buf" "?len \<noteq> 0" for f :: "byte list \<Rightarrow> (int \<times> nat \<times> 16 word \<times> byte list) cres"
  proof -
    have "length out + ?len \<le> ns" "length out + ?len + 1 \<le> ns" "off + 1 + ?len \<le> length buf" using that by linarith+
    then show ?thesis by (simp add: put_def)
  qed
  show ?thesis
    using False by (subst rfc1035_name_unpack.simps) (simp add: Let_def copy cong: if_cong)
qed

definition rfc1035_header_unpack :: "byte list \<Rightarrow> (int \<times> rfc1035_message) cres" where
  "rfc1035_header_unpack buf =
    (if length buf < 12 then Ret (1, msg0)
     else
       cbind (get16 buf 0) (\<lambda>i. cbind (get16 buf 2) (\<lambda>t. cbind (get16 buf 4) (\<lambda>qd.
       cbind (get16 buf 6) (\<lambda>an. cbind (get16 buf 8) (\<lambda>nsc. cbind (get16 buf 10) (\<lambda>ar.
       Ret (0, msg0\<lparr>m_id := i, m_qr := ucast (drop_bit 15 t AND 1), m_opcode := ucast (drop_bit 11 t AND 15),
         m_aa := ucast (drop_bit 10 t AND 1), m_tc := ucast (drop_bit 9 t AND 1), m_rd := ucast (drop_bit 8 t AND 1),
         m_ra := ucast (drop_bit 7 t AND 1), m_rcode := ucast (t AND 15),
         m_qdcount := qd, m_ancount := an, m_nscount := nsc, m_arcount := ar\<rparr>))))))))"

definition rfc1035_query_unpack :: "byte list \<Rightarrow> nat \<Rightarrow> (int \<times> nat \<times> rfc1035_query) cres" where
  "rfc1035_query_unpack buf off =
    cbind (rfc1035_name_unpack buf off 0 [] 256 0) (\<lambda>(r, off, _, name).
      if r \<noteq> 0 then Ret (1, off, \<lparr>q_name = [], q_type = 0, q_class = 0\<rparr>)
      else if off + 4 > length buf then Ret (1, off, \<lparr>q_name = [], q_type = 0, q_class = 0\<rparr>)
      else cbind (get16 buf off) (\<lambda>t. cbind (get16 buf (off + 2)) (\<lambda>c.
        Ret (0, off + 4, \<lparr>q_name = name, q_type = t, q_class = c\<rparr>))))"

text \<open>\<open>None\<close> where the code returns an error, after which the record is not used.\<close>

definition rfc1035_rr_unpack :: "byte list \<Rightarrow> nat \<Rightarrow> (nat \<times> rfc1035_rr option) cres" where
  "rfc1035_rr_unpack buf off =
    cbind (rfc1035_name_unpack buf off 0 [] 256 0) (\<lambda>(r, off, _, name).
      if r \<noteq> 0 then Ret (off, None)
      else if off + 10 > length buf then Ret (off, None)
      else
        cbind (get16 buf off) (\<lambda>type. cbind (get16 buf (off + 2)) (\<lambda>tclass.
        cbind (get32 buf (off + 4)) (\<lambda>ttl. cbind (get16 buf (off + 8)) (\<lambda>rdlength.
        let off = off + 10; n = unat rdlength;
            rr = \<lparr>rr_name = name, rr_type = type, rr_class = tclass, rr_ttl = ttl, rr_rdlength = rdlength, rr_rdata = []\<rparr> in
        if off + n > length buf then Ret (off, None)
        else if type \<in> set unpack_name_types then
          cbind (rfc1035_name_unpack buf off 0 [] 256 0) (\<lambda>(r, rdata_off, rdl, rdata).
            if r \<noteq> 0 then Ret (off, None)
            else if rdata_off > off + n then Ret (off, None)
            else Ret (off + n, Some (rr\<lparr>rr_rdlength := rdl, rr_rdata := rdata\<rparr>)))
        else cbind (bytes_at buf off n) (\<lambda>data. Ret (off + n, Some (rr\<lparr>rr_rdata := data\<rparr>))))))))"

fun unpack2rr_loop :: "nat \<Rightarrow> byte list \<Rightarrow> nat \<Rightarrow> (nat \<times> rfc1035_rr list) cres" where
  "unpack2rr_loop 0 buf off = Ret (off, [])"
| "unpack2rr_loop (Suc n) buf off =
    (if off \<ge> length buf then Ret (off, [])
     else cbind (rfc1035_rr_unpack buf off) (\<lambda>(off, rr). case rr of
         None \<Rightarrow> Ret (off, [])
       | Some rr \<Rightarrow> map_cres (\<lambda>(off, rrs). (off, rr # rrs)) (unpack2rr_loop n buf off)))"

text \<open>The records up to the first that is corrupt; none is \<open>NULL\<close>.\<close>

definition rfc1035_unpack2rr :: "byte list \<Rightarrow> nat \<Rightarrow> 16 word \<Rightarrow> (nat \<times> rfc1035_rr list) cres" where
  "rfc1035_unpack2rr buf off cnt = unpack2rr_loop (unat cnt) buf off"

fun unpack_queries :: "nat \<Rightarrow> byte list \<Rightarrow> nat \<Rightarrow> (nat \<times> rfc1035_query list) option cres" where
  "unpack_queries 0 buf off = Ret (Some (off, []))"
| "unpack_queries (Suc n) buf off = cbind (rfc1035_query_unpack buf off) (\<lambda>(r, off, q).
     if r \<noteq> 0 then Ret None
     else map_cres (map_option (\<lambda>(off, qs). (off, q # qs))) (unpack_queries n buf off))"

text \<open>The message, and \<open>errno\<close>.\<close>

definition acl_rfc1035_response_unpack :: "byte list \<Rightarrow> (rfc1035_message option \<times> int) cres" where
  "acl_rfc1035_response_unpack buf =
    cbind (rfc1035_header_unpack buf) (\<lambda>(r, msg).
      if r \<noteq> 0 then Ret (None, 15)
      else
        let err = int (unat (m_rcode msg)) in
        cbind (unpack_queries (unat (m_qdcount msg)) buf 12) (\<lambda>qs. case qs of
          None \<Rightarrow> Ret (None, err)
        | Some (off, qs) \<Rightarrow>
            cbind (rfc1035_unpack2rr buf off (m_ancount msg)) (\<lambda>(off, an).
            cbind (if m_nscount msg = 0 then Ret (off, []) else rfc1035_unpack2rr buf off (m_nscount msg)) (\<lambda>(off, au).
            if m_nscount msg \<noteq> 0 \<and> au = [] then Ret (None, err)
            else
              cbind (if m_arcount msg = 0 then Ret (off, []) else rfc1035_unpack2rr buf off (m_arcount msg)) (\<lambda>(off, ad).
              if m_arcount msg \<noteq> 0 \<and> ad = [] then Ret (None, err)
              else Ret (Some (msg\<lparr>m_query := qs, m_answer := an, m_authority := au, m_additional := ad,
                m_ancount := of_nat (length an), m_nscount := of_nat (length au), m_arcount := of_nat (length ad)\<rparr>), err))))))"

text \<open>
  When the query is corrupt the code destroys the message and goes on: it reads the freed counter
  and returns the freed message, which is \<open>Fault\<close>.
\<close>

definition acl_rfc1035_request_unpack :: "byte list \<Rightarrow> (rfc1035_message option \<times> int) cres" where
  "acl_rfc1035_request_unpack buf =
    cbind (rfc1035_header_unpack buf) (\<lambda>(r, msg).
      if r \<noteq> 0 then Ret (None, 15)
      else if m_rcode msg \<noteq> 0 then Ret (None, int (unat (m_rcode msg)))
      else if m_qdcount msg \<noteq> 1 then Ret (None, 15)
      else cbind (rfc1035_query_unpack buf 12) (\<lambda>(r, off, q).
        if r \<noteq> 0 then Fault else Ret (Some (msg\<lparr>m_query := [q]\<rparr>), 0)))"

subsection \<open>Replies\<close>

text \<open>\<open>%u\<close>, and the name of an address in the reverse tree; \<open>addr\<close> is in host order.\<close>

fun dec_u :: "nat \<Rightarrow> byte list" where
  "dec_u n = (if n < 10 then [of_nat (48 + n)] else dec_u (n div 10) @ [of_nat (48 + n mod 10)])"

definition acl_rfc1035_build_query4ptr :: "32 word \<Rightarrow> nat \<Rightarrow> 16 word \<Rightarrow> (byte list \<times> rfc1035_query) cres" where
  "acl_rfc1035_build_query4ptr addr sz qid =
    (let u = (\<lambda>k. dec_u (unat (drop_bit k addr AND 255)));
         rev = take 31 (u 0 @ [46] @ u 8 @ [46] @ u 16 @ [46] @ u 24 @ bytes_of ''.in-addr.arpa.'') in
     cbind (rfc1035_header_pack sz (msg0\<lparr>m_id := qid, m_rd := 1, m_qdcount := 1\<rparr>)) (\<lambda>h.
     cbind (rfc1035_question_pack (sz - length h) rev 12 1) (\<lambda>q.
     Ret (h @ q, \<lparr>q_name = acl_safe_strncpy rev 256, q_type = 12, q_class = 1\<rparr>))))"

text \<open>
  \<open>save_addr2rr\<close>: the bytes of an address, \<open>None\<close> where the code returns 0. The C library's
  \<open>inet_addr\<close>, \<open>inet_pton\<close> and \<open>if_nametoindex\<close> are arguments.
\<close>

record inet =
  inet_addr :: "byte list \<Rightarrow> byte list"
  inet_pton6 :: "byte list \<Rightarrow> byte list option"
  if_nametoindex :: "byte list \<Rightarrow> nat"

definition save_addr2rr :: "inet \<Rightarrow> 16 word \<Rightarrow> byte list \<Rightarrow> byte list option" where
  "save_addr2rr net type src =
    (if type = 1 then Some (take 4 (inet_addr net src))
     else if type = 28 then
       (let buf = acl_safe_strncpy src 256;
            scope = (if 37 \<in> set buf then rev (takeWhile (\<lambda>b. b \<noteq> 37) (rev buf)) else []);
            addr = (if 37 \<in> set buf then rev (tl (dropWhile (\<lambda>b. b \<noteq> 37) (rev buf))) else buf) in
        if scope \<noteq> [] \<and> if_nametoindex net scope = 0 then None else inet_pton6 net addr)
     else None)"

record rfc1035_reply =
  rp_hostname :: "byte list"
  rp_cname :: "byte list option"
  rp_ips :: "byte list list"
  rp_domain_root :: "byte list"
  rp_dns_name :: "byte list option"
  rp_dns_ip :: "byte list option"
  rp_ip_type :: "16 word"
  rp_ttl :: "32 word"
  rp_qid :: "16 word"

text \<open>A string that is neither \<open>NULL\<close> nor empty.\<close>

definition given :: "byte list option \<Rightarrow> bool" where
  "given s \<longleftrightarrow> s \<noteq> None \<and> s \<noteq> Some []"

definition reply_header :: "rfc1035_reply \<Rightarrow> rfc1035_message" where
  "reply_header rp = msg0\<lparr>m_id := rp_qid rp, m_qr := 1, m_rd := 1, m_qdcount := 1,
     m_ancount := of_nat (if given (rp_cname rp) then length (rp_ips rp) + 1 else length (rp_ips rp)),
     m_nscount := (if given (rp_dns_name rp) then 1 else 0),
     m_arcount := (if given (rp_dns_name rp) \<and> given (rp_dns_ip rp) then 1 else 0)\<rparr>"

definition name_rr :: "rfc1035_reply \<Rightarrow> byte list \<Rightarrow> 16 word \<Rightarrow> byte list \<Rightarrow> rfc1035_rr" where
  "name_rr rp name type rdata = \<lparr>rr_name = acl_safe_strncpy name 256, rr_type = type, rr_class = 1,
     rr_ttl = rp_ttl rp, rr_rdlength = of_nat (length rdata), rr_rdata = rdata\<rparr>"

fun reply_ips :: "inet \<Rightarrow> rfc1035_reply \<Rightarrow> nat \<Rightarrow> byte list \<Rightarrow> byte list list \<Rightarrow> byte list option cres" where
  "reply_ips net rp sz out [] = Ret (Some out)"
| "reply_ips net rp sz out (ip # ips) = (case save_addr2rr net (rp_ip_type rp) ip of
     None \<Rightarrow> Ret None
   | Some a \<Rightarrow> cbind (rfc1035_rr_pack (sz - length out) (name_rr rp (rp_hostname rp) (rp_ip_type rp) a)) (\<lambda>b.
       reply_ips net rp sz (out @ b) ips))"

definition acl_rfc1035_build_reply :: "inet \<Rightarrow> rfc1035_reply \<Rightarrow> nat \<Rightarrow> byte list cres" where
  "acl_rfc1035_build_reply net rp sz =
    (if rp_ips rp = [] then Ret []
     else
       (let h = reply_header rp in
        cbind (rfc1035_header_pack sz h) (\<lambda>out.
        cbind (map_cres (\<lambda>b. out @ b) (rfc1035_question_pack (sz - length out) (rp_hostname rp) (rp_ip_type rp) 1)) (\<lambda>out.
        cbind (if given (rp_cname rp)
               then map_cres (\<lambda>b. out @ b) (rfc1035_rr_pack (sz - length out) (name_rr rp (rp_hostname rp) 5 (the (rp_cname rp))))
               else Ret out) (\<lambda>out.
        cbind (reply_ips net rp sz out (rp_ips rp)) (\<lambda>r. case r of None \<Rightarrow> Ret [] | Some out \<Rightarrow>
        cbind (if m_nscount h \<noteq> 0
               then map_cres (\<lambda>b. out @ b) (rfc1035_rr_pack (sz - length out) (name_rr rp (rp_domain_root rp) 2 (the (rp_dns_name rp))))
               else Ret out) (\<lambda>out.
        if m_arcount h = 0 then Ret out
        else (case save_addr2rr net (rp_ip_type rp) (the (rp_dns_ip rp)) of
            None \<Rightarrow> Ret []
          | Some a \<Rightarrow> map_cres (\<lambda>b. out @ b)
              (rfc1035_rr_pack (sz - length out) (name_rr rp (the (rp_dns_name rp)) (rp_ip_type rp) a))))))))))"

text \<open>\<open>strncasecmp\<close> of two names without the dots at their ends, unless they are of the same length.\<close>

definition trim_dots :: "byte list \<Rightarrow> byte list" where
  "trim_dots s = rev (dropWhile (\<lambda>b. b = 46) (rev s))"

definition acl_rfc1035_query_compare :: "rfc1035_query \<Rightarrow> rfc1035_query \<Rightarrow> bool" where
  "acl_rfc1035_query_compare a b \<longleftrightarrow>
    (if q_type a \<noteq> q_type b then False
     else if q_class a \<noteq> q_class b then False
     else
       (let la = length (q_name a); lb = length (q_name b);
            ta = (if la \<noteq> lb then length (trim_dots (q_name a)) else la);
            tb = (if la \<noteq> lb then length (trim_dots (q_name b)) else lb) in
        if ta \<noteq> tb then False else map to_lower (take ta (q_name a)) = map to_lower (take ta (q_name b))))"

subsection \<open>Reading what was written\<close>

lemma get16_put16: "get16 (pre @ put16 w @ post) (length pre) = Ret w"
proof -
  have "push_bit 8 (ucast (ucast (drop_bit 8 w) :: byte)) OR ucast (ucast w :: byte) = w"
    by (rule bit_word_eqI) (auto simp: bit_simps)
  then show ?thesis by (simp add: get16_def put16_def tab_at_def nth_append)
qed

lemma length_put [simp]: "length (put16 w) = 2" "length (put32 v) = 4"
  by (simp_all add: put16_def put32_def)

lemma put32_put16: "put32 v = put16 (ucast (drop_bit 16 v)) @ put16 (ucast v)"
proof -
  have "ucast (drop_bit 8 (ucast (drop_bit 16 v) :: 16 word)) = (ucast (drop_bit 24 v) :: byte)"
    "ucast (ucast (drop_bit 16 v) :: 16 word) = (ucast (drop_bit 16 v) :: byte)"
    "ucast (drop_bit 8 (ucast v :: 16 word)) = (ucast (drop_bit 8 v) :: byte)"
    "ucast (ucast v :: 16 word) = (ucast v :: byte)"
    by (rule bit_word_eqI, auto simp: bit_simps)+
  then show ?thesis by (simp add: put32_def put16_def)
qed

lemma get32_put32: "get32 (pre @ put32 v @ post) (length pre) = Ret v"
proof -
  have v: "push_bit 16 (ucast (ucast (drop_bit 16 v) :: 16 word)) OR ucast (ucast v :: 16 word) = v"
    by (rule bit_word_eqI) (auto simp: bit_simps)
  have "get16 (pre @ put32 v @ post) (length pre) = Ret (ucast (drop_bit 16 v))"
    using get16_put16 [of pre "ucast (drop_bit 16 v)" "put16 (ucast v) @ post"] by (simp add: put32_put16)
  moreover have "get16 (pre @ put32 v @ post) (length pre + 2) = Ret (ucast v)"
    using get16_put16 [of "pre @ put16 (ucast (drop_bit 16 v))" "ucast v" post] by (simp add: put32_put16)
  ultimately show ?thesis by (simp add: get32_def v)
qed

text \<open>The same, at an offset that is known only to be equal to the length.\<close>

lemma get_at:
  assumes "n = length pre"
  shows "get16 (pre @ put16 w @ post) n = Ret w" "get32 (pre @ put32 v @ post) n = Ret v"
  using get16_put16 get32_put32 assms by simp_all

lemma get16_Ret: "off + 1 < length buf \<Longrightarrow> \<exists>w. get16 buf off = Ret w"
  by (simp add: get16_def tab_at_def)

lemma get32_Ret: "off + 3 < length buf \<Longrightarrow> \<exists>w. get32 buf off = Ret w"
  using get16_Ret [of off buf] get16_Ret [of "off + 2" buf] by (auto simp: get32_def)

subsection \<open>The parser stays inside the message\<close>

text \<open>The message does not end with the first byte of a compression pointer.\<close>

definition no_cut_pointer :: "byte list \<Rightarrow> bool" where
  "no_cut_pointer buf \<longleftrightarrow> buf = [] \<or> unat (last buf) \<le> 191"

lemma name_unpack_Ret:
  assumes "no_cut_pointer buf" "ns = 0 \<or> length out < ns"
  shows "\<exists>r off' rdl' name. rfc1035_name_unpack buf off rdl out ns rdepth = Ret (r, off', rdl', name)
    \<and> (r = 0 \<longrightarrow> off' \<le> length buf \<and> off < off' \<and> length name < ns)"
  using assms
proof (induction buf off rdl out ns rdepth rule: rfc1035_name_unpack.induct)
  case (1 buf off rdl out ns rdepth)
  let ?c = "buf ! off"
  let ?len = "unat ?c"
  let ?out = "out @ take ?len (drop (Suc off) buf) @ [46]"
  note simps = name_unpack_eq [of buf off rdl out ns rdepth]
  consider (bad) "ns = 0 \<or> off \<ge> length buf" | (ptr) "0 < ns" "off < length buf" "?len > 191"
    | (label) "0 < ns" "off < length buf" "?len \<le> 191" by force
  then show ?case
  proof cases
    case bad
    then show ?thesis by (auto simp: simps)
  next
    case ptr
    show ?thesis
    proof (cases "rdepth > 64")
      case True
      then show ?thesis using ptr by (simp add: simps Let_def)
    next
      case False
      have "off + 1 \<noteq> length buf"
      proof
        assume "off + 1 = length buf"
        then have "last buf = ?c" using ptr(2) by (metis diff_add_inverse2 last_conv_nth length_0_conv not_less_zero)
        then show False using "1.prems"(1) ptr(2,3) by (auto simp: no_cut_pointer_def)
      qed
      then obtain s where s: "get16 buf off = Ret s" using get16_Ret [of off buf] ptr(2) by auto
      let ?ptr = "unat (s AND 0x3FFF)"
      show ?thesis
      proof (cases "off + 2 \<ge> length buf \<or> ?ptr \<ge> length buf")
        case True
        then show ?thesis using ptr False s by (auto simp: simps Let_def)
      next
        case ok: False
        have "ns - length out = 0 \<or> length ([] :: byte list) < ns - length out" by auto
        then obtain r off' rdl' name where e: "rfc1035_name_unpack buf ?ptr rdl [] (ns - length out) (rdepth + 1) = Ret (r, off', rdl', name)"
          "r = 0 \<longrightarrow> length name < ns - length out"
          using "1.IH"(1) [of ?c ?len s ?ptr] ptr False ok s "1.prems"(1) by auto
        have "rfc1035_name_unpack buf off rdl out ns rdepth = Ret (r, off + 2, rdl', out @ name)"
          using ptr False s ok e(1) by (simp add: simps Let_def)
        then show ?thesis using e(2) ok by auto
      qed
    qed
  next
    case label
    have room: "length out < ns" using label(1) "1.prems"(2) by simp
    show ?thesis
    proof (cases "?len > 63 \<or> ?len = 0 \<or> ?len > ns - length out - 1 \<or> off + 1 + ?len \<ge> length buf")
      case True
      then show ?thesis using label room by (auto simp: simps Let_def)
    next
      case ok: False
      have "?len \<le> length buf - Suc off" using ok by linarith
      then have lo: "length ?out = length out + ?len + 1" by simp
      have "off + 1 + ?len \<le> length buf" "length out + ?len + 1 \<le> ns" using ok room by linarith+
      then have puts: "bytes_at buf (off + 1) ?len = Ret (take ?len (drop (off + 1) buf))"
        "put ns out (take ?len (drop (off + 1) buf)) = Ret (out @ take ?len (drop (off + 1) buf))"
        "put ns (out @ take ?len (drop (off + 1) buf)) [46] = Ret ?out" by (simp_all add: put_def)
      show ?thesis
      proof (cases "length ?out < ns")
        case True
        then obtain r off' rdl' name where "rfc1035_name_unpack buf (off + 1 + ?len) (rdl + of_nat ?len + 1) ?out ns rdepth = Ret (r, off', rdl', name)"
          "r = 0 \<longrightarrow> off' \<le> length buf \<and> off + 1 + ?len < off' \<and> length name < ns"
          using "1.IH"(2) [of ?c ?len "take ?len (drop (off + 1) buf)" "out @ take ?len (drop (off + 1) buf)" ?out "rdl + of_nat ?len + 1"]
          label ok puts "1.prems"(1) by auto
        then show ?thesis using label ok True by (auto simp: simps Let_def)
      next
        case False
        then have "rfc1035_name_unpack buf off rdl out ns rdepth = Ret (0, off + 1 + ?len, rdl + of_nat ?len + 1, butlast ?out)"
          using label ok by (simp add: simps Let_def)
        then show ?thesis using lo ok room by auto
      qed
    qed
  qed
qed

text \<open>What holds of every record and query that the parser returns.\<close>

definition rr_ok :: "rfc1035_rr \<Rightarrow> bool" where
  "rr_ok r \<longleftrightarrow> length (rr_name r) < 256
     \<and> (if rr_type r \<in> set unpack_name_types then length (rr_rdata r) < 256 else length (rr_rdata r) = unat (rr_rdlength r))"

lemma query_unpack_Ret:
  assumes "no_cut_pointer buf"
  obtains r off' q where "rfc1035_query_unpack buf off = Ret (r, off', q)"
    "r = 0 \<Longrightarrow> off' \<le> length buf \<and> off < off' \<and> length (q_name q) < 256"
proof -
  obtain r o1 rdl name where e: "rfc1035_name_unpack buf off 0 [] 256 0 = Ret (r, o1, rdl, name)"
    "r = 0 \<longrightarrow> o1 \<le> length buf \<and> off < o1 \<and> length name < 256"
    using name_unpack_Ret [OF assms, of 256 "[]" off 0 0] by auto
  show ?thesis
  proof (cases "r \<noteq> 0 \<or> o1 + 4 > length buf")
    case True
    then show ?thesis using e by (intro that) (auto simp: rfc1035_query_unpack_def)
  next
    case False
    then obtain t c where "get16 buf o1 = Ret t" "get16 buf (o1 + 2) = Ret c"
      using get16_Ret [of o1 buf] get16_Ret [of "o1 + 2" buf] by auto
    then show ?thesis using e False by (intro that) (auto simp: rfc1035_query_unpack_def)
  qed
qed

lemma rr_unpack_Ret:
  assumes "no_cut_pointer buf"
  obtains off' r where "rfc1035_rr_unpack buf off = Ret (off', r)"
    "\<And>x. r = Some x \<Longrightarrow> off' \<le> length buf \<and> off < off' \<and> rr_ok x"
proof -
  obtain r o1 rdl name where e: "rfc1035_name_unpack buf off 0 [] 256 0 = Ret (r, o1, rdl, name)"
    "r = 0 \<longrightarrow> o1 \<le> length buf \<and> off < o1 \<and> length name < 256"
    using name_unpack_Ret [OF assms, of 256 "[]" off 0 0] by auto
  show ?thesis
  proof (cases "r \<noteq> 0 \<or> o1 + 10 > length buf")
    case True
    then show ?thesis using e by (intro that) (auto simp: rfc1035_rr_unpack_def)
  next
    case False
    then obtain t c ttl n where g: "get16 buf o1 = Ret t" "get16 buf (o1 + 2) = Ret c" "get32 buf (o1 + 4) = Ret ttl"
      "get16 buf (o1 + 8) = Ret n"
      using get16_Ret [of o1 buf] get16_Ret [of "o1 + 2" buf] get32_Ret [of "o1 + 4" buf] get16_Ret [of "o1 + 8" buf] by auto
    let ?o = "o1 + 10"
    obtain r' o2 rdl' rdata where e': "rfc1035_name_unpack buf ?o 0 [] 256 0 = Ret (r', o2, rdl', rdata)"
      "r' = 0 \<longrightarrow> length rdata < 256"
      using name_unpack_Ret [OF assms, of 256 "[]" ?o 0 0] by auto
    let ?rr = "\<lparr>rr_name = name, rr_type = t, rr_class = c, rr_ttl = ttl, rr_rdlength = n, rr_rdata = []\<rparr>"
    have u: "rfc1035_rr_unpack buf off =
       (if ?o + unat n > length buf then Ret (?o, None)
        else if t \<in> set unpack_name_types then
          (if r' \<noteq> 0 \<or> o2 > ?o + unat n then Ret (?o, None)
           else Ret (?o + unat n, Some (?rr\<lparr>rr_rdlength := rdl', rr_rdata := rdata\<rparr>)))
        else Ret (?o + unat n, Some (?rr\<lparr>rr_rdata := take (unat n) (drop ?o buf)\<rparr>)))"
      using e(1) e'(1) g False by (simp add: rfc1035_rr_unpack_def Let_def)
    have k: "unat n \<le> length buf - ?o" if "\<not> ?o + unat n > length buf" using that by linarith
    show ?thesis
    proof (cases "?o + unat n > length buf \<or> t \<in> set unpack_name_types \<and> (r' \<noteq> 0 \<or> o2 > ?o + unat n)")
      case True
      then show ?thesis by (intro that [of ?o None]) (auto simp: u)
    next
      case ok: False
      show ?thesis
      proof (cases "t \<in> set unpack_name_types")
        case True
        then have "rfc1035_rr_unpack buf off = Ret (?o + unat n, Some (?rr\<lparr>rr_rdlength := rdl', rr_rdata := rdata\<rparr>))"
          using ok by (simp add: u)
        then show ?thesis by (rule that) (use e e' False ok True in \<open>auto simp: rr_ok_def\<close>)
      next
        case name: False
        then have "rfc1035_rr_unpack buf off = Ret (?o + unat n, Some (?rr\<lparr>rr_rdata := take (unat n) (drop ?o buf)\<rparr>))"
          using ok by (simp add: u)
        then show ?thesis by (rule that) (use e False ok name k in \<open>auto simp: rr_ok_def\<close>)
      qed
    qed
  qed
qed

lemma unpack2rr_Ret:
  assumes "no_cut_pointer buf"
  shows "\<exists>off' rrs. unpack2rr_loop n buf off = Ret (off', rrs) \<and> length rrs \<le> n \<and> (\<forall>r \<in> set rrs. rr_ok r)"
proof (induction n arbitrary: off)
  case (Suc n)
  obtain o1 r where r: "rfc1035_rr_unpack buf off = Ret (o1, r)"
    "\<And>x. r = Some x \<Longrightarrow> o1 \<le> length buf \<and> off < o1 \<and> rr_ok x"
    by (rule rr_unpack_Ret [OF assms, of off], rule that)
  then show ?case using Suc [of o1] by (cases r) auto
qed simp

lemma unpack_queries_Ret:
  assumes "no_cut_pointer buf"
  shows "\<exists>x. unpack_queries n buf off = Ret x
    \<and> (\<forall>off' qs. x = Some (off', qs) \<longrightarrow> length qs = n \<and> (\<forall>q \<in> set qs. length (q_name q) < 256))"
proof (induction n arbitrary: off)
  case (Suc n)
  obtain r o1 q where q: "rfc1035_query_unpack buf off = Ret (r, o1, q)"
    "r = 0 \<Longrightarrow> o1 \<le> length buf \<and> off < o1 \<and> length (q_name q) < 256"
    by (rule query_unpack_Ret [OF assms, of off], rule that)
  obtain x where "unpack_queries n buf o1 = Ret x"
    "\<And>off' qs. x = Some (off', qs) \<Longrightarrow> length qs = n \<and> (\<forall>q \<in> set qs. length (q_name q) < 256)"
    using Suc [of o1] by blast
  then show ?case using q by (cases x) auto
qed simp

lemma header_unpack_Ret: "\<exists>r h. rfc1035_header_unpack buf = Ret (r, h) \<and> (r = 0 \<longrightarrow> 12 \<le> length buf)"
  by (cases "length buf < 12") (auto simp: rfc1035_header_unpack_def get16_def tab_at_def)

subsection \<open>Names\<close>

text \<open>A name as its labels, and how a message has it.\<close>

definition labels_ok :: "byte list list \<Rightarrow> bool" where
  "labels_ok ls \<longleftrightarrow> (\<forall>l \<in> set ls. l \<noteq> [] \<and> length l \<le> 63 \<and> 46 \<notin> set l)"

definition enc_labels :: "byte list list \<Rightarrow> byte list" where
  "enc_labels ls = concat (map (\<lambda>l. of_nat (length l) # l) ls)"

definition dotted :: "byte list list \<Rightarrow> byte list" where
  "dotted ls = concat (map (\<lambda>l. l @ [46]) ls)"

definition name_of :: "byte list list \<Rightarrow> byte list" where
  "name_of ls = join 46 ls"

lemma enc_labels_simps [simp]:
  "enc_labels [] = []" "enc_labels (l # ls) = of_nat (length l) # l @ enc_labels ls"
  "length (enc_labels ls) = length (dotted ls)" "dotted [] = []" "dotted (l # ls) = l @ 46 # dotted ls"
  by (simp_all add: enc_labels_def dotted_def length_concat comp_def)

lemma butlast_dotted: "butlast (dotted ls) = name_of ls"
proof (induction ls rule: join.induct [of "\<lambda>_ ls. butlast (dotted ls) = name_of ls"])
  case (3 d t u us)
  then show ?case by (simp add: butlast_append name_of_def)
qed (simp_all add: name_of_def)

lemma length_name_of: "length (name_of ls) = length (dotted ls) - 1"
  by (simp add: butlast_dotted [symmetric])

lemma label_pack_Ret:
  assumes "l \<noteq> []" "length l \<le> 63" "46 \<notin> set l" "length l < sz"
  shows "rfc1035_label_pack sz (Some l) = Ret (of_nat (length l) # l)"
  using assms by (simp add: rfc1035_label_pack_def min_absorb1 Let_def)

lemma name_pack_loop_labels:
  assumes "labels_ok ls" "length out + length (dotted ls) \<le> sz"
  shows "name_pack_loop sz out (name_of ls) = Ret (out @ enc_labels ls)"
  using assms
proof (induction ls arbitrary: out)
  case Nil
  then show ?case by (subst name_pack_loop.simps) (simp add: name_of_def acl_strtok_def)
next
  case (Cons l ls)
  have l: "l \<noteq> []" "length l \<le> 63" "46 \<notin> set l" using Cons.prems(1) by (auto simp: labels_ok_def)
  have tok: "acl_strtok (name_of (l # ls)) [46] = (Some l, name_of ls)"
  proof (cases ls)
    case Nil
    then show ?thesis using strtok_token(2) [of l "[46]" 46] l by (simp add: name_of_def)
  next
    case (Cons m ms)
    then show ?thesis using strtok_token(1) [of l "[46]" 46 "name_of ls"] l by (simp add: name_of_def)
  qed
  have pack: "rfc1035_label_pack (sz - length out) (Some l) = Ret (of_nat (length l) # l)"
    using l Cons.prems(2) by (intro label_pack_Ret) auto
  show ?case
    using Cons.IH [of "out @ of_nat (length l) # l"] Cons.prems
    by (subst name_pack_loop.simps) (simp add: tok pack labels_ok_def)
qed

lemma name_pack_labels:
  assumes "labels_ok ls" "length (dotted ls) < sz"
  shows "rfc1035_name_pack sz (name_of ls) = Ret (enc_labels ls @ [0])"
  using name_pack_loop_labels [of ls "[]" sz] assms by (simp add: rfc1035_name_pack_def rfc1035_label_pack_def)

text \<open>A name that the parser finds behind \<open>pre\<close>.\<close>

lemma name_unpack_labels:
  assumes "labels_ok ls" "length out + length (dotted ls) < ns"
  shows "rfc1035_name_unpack (pre @ enc_labels ls @ [0] @ post) (length pre) rdl out ns rdepth =
    Ret (0, length pre + length (dotted ls) + 1, rdl + of_nat (length (dotted ls)), butlast (out @ dotted ls))"
  using assms
proof (induction ls arbitrary: pre out rdl)
  case Nil
  then show ?case by (subst name_unpack_eq) (simp add: Let_def)
next
  case (Cons l ls)
  let ?buf = "pre @ enc_labels (l # ls) @ [0] @ post"
  let ?pre = "pre @ of_nat (length l) # l"
  have l: "l \<noteq> []" "length l \<le> 63" "46 \<notin> set l" using Cons.prems(1) by (auto simp: labels_ok_def)
  then have len: "unat (of_nat (length l) :: byte) = length l" by (simp add: unat_of_nat)
  have buf: "?buf = ?pre @ enc_labels ls @ [0] @ post" by simp
  have at: "?buf ! length pre = of_nat (length l)" "take (length l) (drop (length pre + 1) ?buf) = l"
    "length pre < length ?buf" "length pre + 1 + length l < length ?buf" by simp_all
  have room: "length out + length l + 1 < ns" "\<not> ns - length out - 1 < length l" using Cons.prems(2) by simp_all
  have "rfc1035_name_unpack ?buf (length pre) rdl out ns rdepth =
      rfc1035_name_unpack ?buf (length ?pre) (rdl + of_nat (length l) + 1) (out @ l @ [46]) ns rdepth"
    using l len room at
    by (subst name_unpack_eq) (simp add: Let_def del: enc_labels_simps)
  also have "\<dots> = Ret (0, length ?pre + length (dotted ls) + 1, rdl + of_nat (length l) + 1 + of_nat (length (dotted ls)),
      butlast ((out @ l @ [46]) @ dotted ls))"
    using Cons.IH [of "out @ l @ [46]" ?pre "rdl + of_nat (length l) + 1"] Cons.prems
    unfolding buf by (simp add: labels_ok_def del: enc_labels_simps(2))
  finally show ?case by (simp add: algebra_simps)
qed

text \<open>A name of at most 254 bytes behind \<open>pre\<close> comes back.\<close>

lemma name_roundtrip:
  assumes "labels_ok ls" "length (dotted ls) < 256"
  shows "rfc1035_name_unpack (pre @ enc_labels ls @ [0] @ post) (length pre) 0 [] 256 0 =
    Ret (0, length pre + length (dotted ls) + 1, of_nat (length (dotted ls)), name_of ls)"
  using name_unpack_labels [OF assms(1), of "[]" 256 pre post 0 0] assms(2) by (simp add: butlast_dotted)

subsection \<open>Headers\<close>

lemma tab_at_append: "length p \<le> n \<Longrightarrow> tab_at (p @ r) n = tab_at r (n - length p)"
  by (auto simp: tab_at_def nth_append)

lemma get16_append: "length p \<le> n \<Longrightarrow> get16 (p @ r) n = get16 r (n - length p)"
  using tab_at_append [of p n r] tab_at_append [of p "n + 1" r] by (simp add: get16_def Suc_diff_le)

lemma get32_append: "length p \<le> n \<Longrightarrow> get32 (p @ r) n = get32 r (n - length p)"
  using get16_append [of p n r] get16_append [of p "n + 2" r] by (simp add: get32_def Suc_diff_le)

lemma get_here [simp]: "get16 (put16 w @ r) 0 = Ret w" "get32 (put32 v @ r) 0 = Ret v"
  using get_at [of 0 "[]"] by simp_all

lemma field_bits:
  fixes t :: "16 word"
  shows "bit (ucast (drop_bit k t AND mask 1) :: 1 word) 0 = bit t k"
    "n < 4 \<Longrightarrow> bit (ucast (drop_bit k t AND mask 4) :: 4 word) n = bit t (k + n)"
  by (simp_all add: bit_simps)

lemma flag_bits:
  fixes qr aa tc rd' ra :: "1 word" and opcode rcode :: "4 word"
  defines "t \<equiv> push_bit 15 (ucast qr) OR push_bit 11 (ucast opcode) OR push_bit 10 (ucast aa) OR push_bit 9 (ucast tc)
    OR push_bit 8 (ucast rd') OR push_bit 7 (ucast ra) OR (ucast rcode :: 16 word)"
  shows "ucast (drop_bit 15 t AND 1) = qr" "ucast (drop_bit 11 t AND 15) = opcode" "ucast (drop_bit 10 t AND 1) = aa"
    "ucast (drop_bit 9 t AND 1) = tc" "ucast (drop_bit 8 t AND 1) = rd'" "ucast (drop_bit 7 t AND 1) = ra"
    "ucast (t AND 15) = rcode"
proof -
  have m: "(15 :: 16 word) = mask 4" "(1 :: 16 word) = mask 1" by (simp_all add: mask_eq_exp_minus_1)
  have one: "x = y" if "bit x 0 = bit y 0" for x y :: "1 word" using that by (intro bit_word_eqI) simp
  have four: "x = y" if "bit x 0 = bit y 0" "bit x 1 = bit y 1" "bit x 2 = bit y 2" "bit x 3 = bit y 3" for x y :: "4 word"
  proof (rule bit_word_eqI)
    fix n assume "n < LENGTH(4)"
    then consider "n = 0" | "n = 1" | "n = 2" | "n = 3" by force
    then show "bit x n = bit y n" using that by cases simp_all
  qed
  have t1: "bit (ucast (drop_bit k t AND 1) :: 1 word) 0 = bit t k" for k using field_bits(1) unfolding m .
  have t4: "bit (ucast (drop_bit k t AND 15) :: 4 word) n = bit t (k + n)" if "n < 4" for k n
    using field_bits(2) [OF that] unfolding m .
  have t0: "ucast (t AND 15) = (ucast (drop_bit 0 t AND 15) :: 4 word)" by simp
  note b = bit_simps impossible_bit
  show "ucast (drop_bit 15 t AND 1) = qr" by (rule one) (simp add: t1, simp add: t_def b)
  show "ucast (drop_bit 10 t AND 1) = aa" by (rule one) (simp add: t1, simp add: t_def b)
  show "ucast (drop_bit 9 t AND 1) = tc" by (rule one) (simp add: t1, simp add: t_def b)
  show "ucast (drop_bit 8 t AND 1) = rd'" by (rule one) (simp add: t1, simp add: t_def b)
  show "ucast (drop_bit 7 t AND 1) = ra" by (rule one) (simp add: t1, simp add: t_def b)
  show "ucast (drop_bit 11 t AND 15) = opcode" by (rule four) (simp_all add: t4, simp_all add: t_def b)
  show "ucast (t AND 15) = rcode" unfolding t0 by (rule four) (simp_all add: t4, simp_all add: t_def b)
qed

text \<open>The twelve bytes of a header, and what the parser makes of them.\<close>

definition wire_header :: "rfc1035_message \<Rightarrow> byte list" where
  "wire_header h = (case rfc1035_header_pack 12 h of Ret b \<Rightarrow> b | Fault \<Rightarrow> [])"

definition header_of :: "rfc1035_message \<Rightarrow> rfc1035_message" where
  "header_of h = h\<lparr>m_query := [], m_answer := [], m_authority := [], m_additional := []\<rparr>"

lemma header_pack: "12 \<le> sz \<Longrightarrow> rfc1035_header_pack sz h = Ret (wire_header h)" "length (wire_header h) = 12"
  by (simp_all add: rfc1035_header_pack_def wire_header_def Let_def)

lemma header_roundtrip: "rfc1035_header_unpack (wire_header h @ rest) = Ret (0, header_of h)"
proof -
  define t :: "16 word" where "t = push_bit 15 (ucast (m_qr h)) OR push_bit 11 (ucast (m_opcode h)) OR push_bit 10 (ucast (m_aa h))
    OR push_bit 9 (ucast (m_tc h)) OR push_bit 8 (ucast (m_rd h)) OR push_bit 7 (ucast (m_ra h)) OR ucast (m_rcode h)"
  have w: "wire_header h = put16 (m_id h) @ put16 t @ put16 (m_qdcount h) @ put16 (m_ancount h) @ put16 (m_nscount h) @ put16 (m_arcount h)"
    by (simp add: wire_header_def rfc1035_header_pack_def t_def)
  note f = flag_bits [of "m_qr h" "m_opcode h" "m_aa h" "m_tc h" "m_rd h" "m_ra h" "m_rcode h", folded t_def]
  have "get16 (wire_header h @ rest) 0 = Ret (m_id h)" "get16 (wire_header h @ rest) 2 = Ret t"
    "get16 (wire_header h @ rest) 4 = Ret (m_qdcount h)" "get16 (wire_header h @ rest) 6 = Ret (m_ancount h)"
    "get16 (wire_header h @ rest) 8 = Ret (m_nscount h)" "get16 (wire_header h @ rest) 10 = Ret (m_arcount h)"
    by (simp_all add: w get16_append)
  then show ?thesis
    by (simp add: rfc1035_header_unpack_def header_pack f) (simp add: header_of_def msg0_def)
qed

subsection \<open>Questions and records\<close>

definition wire_name :: "byte list list \<Rightarrow> byte list" where
  "wire_name ls = enc_labels ls @ [0]"

definition name_ok :: "byte list list \<Rightarrow> bool" where
  "name_ok ls \<longleftrightarrow> labels_ok ls \<and> length (dotted ls) < 256"

definition wire_question :: "byte list list \<Rightarrow> 16 word \<Rightarrow> 16 word \<Rightarrow> byte list" where
  "wire_question ls t c = wire_name ls @ put16 t @ put16 c"

definition wire_rr :: "byte list list \<Rightarrow> 16 word \<Rightarrow> 16 word \<Rightarrow> 32 word \<Rightarrow> byte list \<Rightarrow> byte list" where
  "wire_rr ls t c ttl d = wire_name ls @ put16 t @ put16 c @ put32 ttl @ put16 (of_nat (length d)) @ d"

lemma length_wire_name [simp]: "length (wire_name ls) = length (dotted ls) + 1"
  by (simp add: wire_name_def)

lemma put_Ret: "length out + length bs \<le> sz \<Longrightarrow> put sz out bs = Ret (out @ bs)"
  by (simp add: put_def)

lemma question_pack:
  assumes "labels_ok ls" "length (wire_question ls t c) \<le> sz"
  shows "rfc1035_question_pack sz (name_of ls) t c = Ret (wire_question ls t c)"
  using assms name_pack_labels [of ls sz] by (simp add: rfc1035_question_pack_def wire_question_def put_Ret wire_name_def)

lemma name_unpack_wire:
  assumes "name_ok ls"
  shows "rfc1035_name_unpack (pre @ wire_name ls @ post) (length pre) 0 [] 256 0 =
    Ret (0, length (pre @ wire_name ls), of_nat (length (dotted ls)), name_of ls)"
  using name_roundtrip [of ls pre post] assms by (simp add: name_ok_def wire_name_def)

lemma question_unpack:
  assumes "name_ok ls"
  shows "rfc1035_query_unpack (pre @ wire_question ls t c @ post) (length pre) =
    Ret (0, length (pre @ wire_question ls t c), \<lparr>q_name = name_of ls, q_type = t, q_class = c\<rparr>)"
proof -
  let ?p = "pre @ wire_name ls" and ?r = "put16 t @ put16 c @ post"
  have n: "rfc1035_name_unpack (?p @ ?r) (length pre) 0 [] 256 0 = Ret (0, length ?p, of_nat (length (dotted ls)), name_of ls)"
    using name_unpack_wire [OF assms, of pre ?r] by simp
  have "get16 (?p @ ?r) (length ?p) = Ret t" "get16 (?p @ ?r) (length ?p + 2) = Ret c"
    unfolding get16_append [of ?p "length ?p", OF order_refl] get16_append [of ?p "length ?p + 2", OF le_add1]
    by (simp_all add: get16_append)
  with n have "rfc1035_query_unpack (?p @ ?r) (length pre) = Ret (0, length ?p + 4, \<lparr>q_name = name_of ls, q_type = t, q_class = c\<rparr>)"
    unfolding rfc1035_query_unpack_def n by (simp del: append_assoc)
  then show ?thesis by (simp add: wire_question_def)
qed

text \<open>A record whose data is not a name for packer and parser.\<close>

lemma rr_pack_data:
  assumes "labels_ok ls" "t \<notin> set pack_name_types" "length d < 65536" "length (wire_rr ls t c ttl d) \<le> sz"
  shows "rfc1035_rr_pack sz \<lparr>rr_name = name_of ls, rr_type = t, rr_class = c, rr_ttl = ttl, rr_rdlength = of_nat (length d), rr_rdata = d\<rparr>
    = Ret (wire_rr ls t c ttl d)"
proof -
  have "unat (of_nat (length d) :: 16 word) = length d" using assms(3) by (simp add: unat_of_nat)
  then show ?thesis
    using assms name_pack_labels [of ls sz] by (simp add: rfc1035_rr_pack_def wire_rr_def put_Ret wire_name_def)
qed

lemma rr_pack_name:
  assumes "labels_ok ls" "name_ok ds" "t \<in> set pack_name_types" "length (wire_rr ls t c ttl (wire_name ds)) \<le> sz"
  shows "rfc1035_rr_pack sz \<lparr>rr_name = name_of ls, rr_type = t, rr_class = c, rr_ttl = ttl, rr_rdlength = n, rr_rdata = name_of ds\<rparr>
    = Ret (wire_rr ls t c ttl (wire_name ds))"
proof -
  have "length (name_of ds) < 256" using assms(2) by (simp add: name_ok_def length_name_of less_imp_diff_less)
  then have "\<not> 256 < length (name_of ds)" by simp
  then show ?thesis
    using assms name_pack_labels [of ls sz] name_pack_labels [of ds sz]
    by (simp add: rfc1035_rr_pack_def wire_rr_def put_Ret wire_name_def name_ok_def)
qed

lemma rr_unpack_head:
  assumes "name_ok ls" "length d < 65536" "buf = pre @ wire_rr ls t c ttl d @ post"
    and "o1 = length pre + length (dotted ls) + 11"
  shows "rfc1035_rr_unpack buf (length pre) =
    (let rr = \<lparr>rr_name = name_of ls, rr_type = t, rr_class = c, rr_ttl = ttl, rr_rdlength = of_nat (length d), rr_rdata = []\<rparr> in
     if t \<in> set unpack_name_types then
       cbind (rfc1035_name_unpack buf o1 0 [] 256 0) (\<lambda>(r, rdata_off, rdl, rdata).
         if r \<noteq> 0 then Ret (o1, None)
         else if rdata_off > o1 + length d then Ret (o1, None)
         else Ret (o1 + length d, Some (rr\<lparr>rr_rdlength := rdl, rr_rdata := rdata\<rparr>)))
     else Ret (o1 + length d, Some (rr\<lparr>rr_rdata := d\<rparr>)))"
proof -
  let ?p = "pre @ wire_name ls"
  let ?r = "put16 t @ put16 c @ put32 ttl @ put16 (of_nat (length d)) @ d @ post"
  have buf: "buf = ?p @ ?r" using assms(3) by (simp add: wire_rr_def)
  have n: "rfc1035_name_unpack buf (length pre) 0 [] 256 0 = Ret (0, length ?p, of_nat (length (dotted ls)), name_of ls)"
    using name_unpack_wire [OF assms(1), of pre ?r] buf by simp
  have g: "get16 buf (length ?p) = Ret t" "get16 buf (length ?p + 2) = Ret c" "get32 buf (length ?p + 4) = Ret ttl"
    "get16 buf (length ?p + 8) = Ret (of_nat (length d))"
    unfolding buf by (simp_all add: get16_append [of ?p] get32_append [of ?p] get16_append get32_append del: append_assoc)
  have o1: "o1 = length ?p + 10" using assms(4) by simp
  have d: "take (length d) (drop o1 buf) = d" "o1 + length d \<le> length buf" unfolding o1 buf by simp_all
  have nd: "\<not> length buf < o1 + length d" using d(2) by simp
  have len: "unat (of_nat (length d) :: 16 word) = length d" using assms(2) by (simp add: unat_of_nat)
  have ge: "\<not> length buf < length ?p + 10" unfolding buf by simp
  show ?thesis
    unfolding rfc1035_rr_unpack_def n cbind.simps prod.case using g ge
    by (simp add: o1 [symmetric] Let_def del: length_append length_wire_name split del: if_split)
      (simp only: len nd d if_False bytes_at_Ret cbind.simps)
qed

lemma rr_unpack_data:
  assumes "name_ok ls" "length d < 65536" "t \<notin> set unpack_name_types"
  shows "rfc1035_rr_unpack (pre @ wire_rr ls t c ttl d @ post) (length pre) = Ret (length (pre @ wire_rr ls t c ttl d),
    Some \<lparr>rr_name = name_of ls, rr_type = t, rr_class = c, rr_ttl = ttl, rr_rdlength = of_nat (length d), rr_rdata = d\<rparr>)"
  using rr_unpack_head [OF assms(1,2) refl refl, of pre t c ttl post] assms(3)
  by (simp add: Let_def) (simp add: wire_rr_def)

lemma rr_unpack_name:
  assumes "name_ok ls" "name_ok ds" "t \<in> set unpack_name_types"
  shows "rfc1035_rr_unpack (pre @ wire_rr ls t c ttl (wire_name ds) @ post) (length pre) =
    Ret (length (pre @ wire_rr ls t c ttl (wire_name ds)), Some \<lparr>rr_name = name_of ls, rr_type = t, rr_class = c, rr_ttl = ttl,
      rr_rdlength = of_nat (length (dotted ds)), rr_rdata = name_of ds\<rparr>)"
proof -
  let ?d = "wire_name ds" and ?o = "length pre + length (dotted ls) + 11"
  let ?p = "pre @ wire_name ls @ put16 t @ put16 c @ put32 ttl @ put16 (of_nat (length ?d))"
  have buf: "pre @ wire_rr ls t c ttl ?d @ post = ?p @ wire_name ds @ post" by (simp add: wire_rr_def)
  have o: "?o = length ?p" by simp
  have n: "rfc1035_name_unpack (pre @ wire_rr ls t c ttl ?d @ post) ?o 0 [] 256 0 =
      Ret (0, length (?p @ wire_name ds), of_nat (length (dotted ds)), name_of ds)"
    unfolding buf o by (rule name_unpack_wire [OF assms(2)])
  have "length ?d < 65536" using assms(2) by (simp add: name_ok_def)
  from rr_unpack_head [OF assms(1) this refl refl, of pre t c ttl post] show ?thesis
    unfolding n using assms(3) by (simp add: Let_def) (simp add: wire_rr_def)
qed

subsection \<open>What every received message gives\<close>

lemma unat_of_nat_count: "n \<le> unat (c :: 16 word) \<Longrightarrow> unat (of_nat n :: 16 word) = n"
  using unsigned_less [where ?'a = nat, of c] by (simp add: unat_of_nat)

definition message_ok :: "rfc1035_message \<Rightarrow> bool" where
  "message_ok m \<longleftrightarrow> length (m_query m) = unat (m_qdcount m) \<and> length (m_answer m) = unat (m_ancount m)
     \<and> length (m_authority m) = unat (m_nscount m) \<and> length (m_additional m) = unat (m_arcount m)
     \<and> (\<forall>q \<in> set (m_query m). length (q_name q) < 256)
     \<and> (\<forall>r \<in> set (m_answer m @ m_authority m @ m_additional m). rr_ok r)"

lemma rrs_Ret:
  assumes "no_cut_pointer buf"
  obtains off' rrs where "rfc1035_unpack2rr buf off c = Ret (off', rrs)" "unat (of_nat (length rrs) :: 16 word) = length rrs"
    "\<And>r. r \<in> set rrs \<Longrightarrow> rr_ok r"
proof -
  obtain off' rrs where "unpack2rr_loop (unat c) buf off = Ret (off', rrs)" "length rrs \<le> unat c" "\<forall>r \<in> set rrs. rr_ok r"
    using unpack2rr_Ret [OF assms, of "unat c" off] by blast
  then show ?thesis using unat_of_nat_count [of "length rrs" c] by (intro that) (auto simp: rfc1035_unpack2rr_def)
qed

text \<open>
  C31: A message that does not end with the first byte of a compression pointer is parsed inside its
  bytes, whatever they are: every byte is read and copied with a test, so that leaving the message, or the
  buffer of a name, is \<open>Fault\<close>; \<open>acl_rfc1035_response_unpack\<close> returns, and a message that it returns has as
  many queries and records as its counters say, names that fit their 256 bytes, and record data of the
  length that the record says.
\<close>

theorem dns_response_safe:
  assumes "no_cut_pointer buf"
  shows "\<exists>m e. acl_rfc1035_response_unpack buf = Ret (m, e) \<and> (case m of None \<Rightarrow> True | Some x \<Rightarrow> message_ok x)"
proof -
  obtain r h where h: "rfc1035_header_unpack buf = Ret (r, h)" using header_unpack_Ret [of buf] by blast
  show ?thesis
  proof (cases "r = 0")
    case False
    then show ?thesis by (simp add: acl_rfc1035_response_unpack_def h)
  next
    case True
    obtain x where x: "unpack_queries (unat (m_qdcount h)) buf 12 = Ret x"
      "\<And>off' qs. x = Some (off', qs) \<Longrightarrow> length qs = unat (m_qdcount h) \<and> (\<forall>q \<in> set qs. length (q_name q) < 256)"
      using unpack_queries_Ret [OF assms, of "unat (m_qdcount h)" 12] by blast
    show ?thesis
    proof (cases x)
      case None
      then show ?thesis using True x by (simp add: acl_rfc1035_response_unpack_def h Let_def)
    next
      case (Some y)
      then obtain o0 qs where y: "x = Some (o0, qs)" by (cases y) simp
      obtain o1 an where an: "rfc1035_unpack2rr buf o0 (m_ancount h) = Ret (o1, an)" "unat (of_nat (length an) :: 16 word) = length an"
        "\<And>r. r \<in> set an \<Longrightarrow> rr_ok r" by (rule rrs_Ret [OF assms, of o0 "m_ancount h"], rule that)
      obtain o2 au where au: "rfc1035_unpack2rr buf o1 (m_nscount h) = Ret (o2, au)" "unat (of_nat (length au) :: 16 word) = length au"
        "\<And>r. r \<in> set au \<Longrightarrow> rr_ok r" by (rule rrs_Ret [OF assms, of o1 "m_nscount h"], rule that)
      let ?o = "if m_nscount h = 0 then o1 else o2"
      obtain o3 ad where ad: "rfc1035_unpack2rr buf ?o (m_arcount h) = Ret (o3, ad)" "unat (of_nat (length ad) :: 16 word) = length ad"
        "\<And>r. r \<in> set ad \<Longrightarrow> rr_ok r" by (rule rrs_Ret [OF assms, of ?o "m_arcount h"], rule that)
      note defs = acl_rfc1035_response_unpack_def h Let_def
      show ?thesis
        using True x(1) x(2) [OF y] y an au ad by (auto simp: defs message_ok_def)
    qed
  qed
qed

lemma dns_response_safe_witness:
  "\<exists>m e. acl_rfc1035_response_unpack (replicate 12 0) = Ret (m, e) \<and> (case m of None \<Rightarrow> True | Some x \<Rightarrow> message_ok x)"
  by (rule dns_response_safe) (simp add: no_cut_pointer_def)

end
