(* ===== verification/Rfc1035_Msg.thy ===== *)
theory Rfc1035_Msg
  imports Rfc1035
begin

text \<open>
  Whole DNS messages: a query and a reply that are built come back from the parser, queries are compared
  as names are in DNS, and where the code of \<open>net/dns/acl_rfc1035.c\<close> does not do what it means to.
\<close>

subsection \<open>Queries\<close>

lemma strncpy_name: "name_ok ls \<Longrightarrow> acl_safe_strncpy (name_of ls) 256 = name_of ls"
  by (auto simp add: acl_safe_strncpy_def name_ok_def length_name_of)

text \<open>
  C32: A query for a host name of at most 254 bytes, built into a buffer of at least 512 bytes by the code
  of the client, is what the code of the server reads: \<open>acl_rfc1035_request_unpack\<close> gives the same
  identifier, name, type and class, the query that the client keeps, and the bit that asks for recursion.
\<close>

theorem dns_query_roundtrip:
  assumes "name_ok ls" "512 \<le> sz"
  shows "\<exists>p q m. rfc1035_build_query (name_of ls) sz qid t c = Ret (p, Some q) \<and> length p \<le> 512
    \<and> q = \<lparr>q_name = name_of ls, q_type = t, q_class = c\<rparr>
    \<and> acl_rfc1035_request_unpack p = Ret (Some m, 0) \<and> m_id m = qid \<and> m_qr m = 0 \<and> m_rd m = 1 \<and> m_query m = [q]"
proof -
  let ?h = "msg0\<lparr>m_id := qid, m_rd := 1, m_qdcount := 1\<rparr>"
  let ?q = "\<lparr>q_name = name_of ls, q_type = t, q_class = c\<rparr>"
  let ?p = "wire_header ?h @ wire_question ls t c"
  have n: "length (dotted ls) < 256" "labels_ok ls" using assms(1) by (auto simp: name_ok_def)
  have h: "length (wire_header ?h) = 12" "12 \<le> sz" using header_pack(2) assms(2) by simp_all
  have b: "rfc1035_build_query (name_of ls) sz qid t c = Ret (?p, Some ?q)"
    using assms question_pack [of ls t c "sz - 12"] n
    by (simp add: rfc1035_build_query_def header_pack(1) [OF h(2)] h(1) strncpy_name wire_question_def)
  have "rfc1035_query_unpack ?p 12 = Ret (0, length ?p, ?q)"
    using question_unpack [OF assms(1), of "wire_header ?h" t c "[]"] h(1) by simp
  then have "acl_rfc1035_request_unpack ?p = Ret (Some (header_of ?h\<lparr>m_query := [?q]\<rparr>), 0)"
    using header_roundtrip [of ?h "wire_question ls t c"]
    by (simp add: acl_rfc1035_request_unpack_def header_of_def msg0_def)
  moreover have "length ?p \<le> 512" using n h(1) by (simp add: wire_question_def)
  ultimately show ?thesis using b by (auto simp: header_of_def msg0_def)
qed

lemma dns_query_roundtrip_witness:
  "\<exists>p q m. rfc1035_build_query (name_of [[119], [97, 98]]) 512 7 1 1 = Ret (p, Some q) \<and> length p \<le> 512
    \<and> q = \<lparr>q_name = name_of [[119], [97, 98]], q_type = 1, q_class = 1\<rparr>
    \<and> acl_rfc1035_request_unpack p = Ret (Some m, 0) \<and> m_id m = 7 \<and> m_qr m = 0 \<and> m_rd m = 1 \<and> m_query m = [q]"
  by (rule dns_query_roundtrip) (simp_all add: name_ok_def labels_ok_def)

subsection \<open>Replies\<close>

text \<open>What a reply says, with names as labels and addresses as bytes.\<close>

record reply_spec =
  rs_host :: "byte list list"
  rs_cname :: "byte list list option"
  rs_addrs :: "byte list list"
  rs_root :: "byte list list"
  rs_ns :: "byte list list option"
  rs_ns_addr :: "byte list option"

datatype rr_data = RName "byte list list" | RBytes "byte list"

type_synonym rr_spec = "byte list list \<times> 16 word \<times> rr_data"

fun rr_spec_ok :: "rr_spec \<Rightarrow> bool" where
  "rr_spec_ok (ls, t, RName ds) \<longleftrightarrow> name_ok ls \<and> name_ok ds \<and> t \<in> set pack_name_types \<and> t \<in> set unpack_name_types"
| "rr_spec_ok (ls, t, RBytes d) \<longleftrightarrow> name_ok ls \<and> length d < 65536 \<and> t \<notin> set pack_name_types \<and> t \<notin> set unpack_name_types"

fun rr_spec_wire :: "32 word \<Rightarrow> rr_spec \<Rightarrow> byte list" where
  "rr_spec_wire ttl (ls, t, RName ds) = wire_rr ls t 1 ttl (wire_name ds)"
| "rr_spec_wire ttl (ls, t, RBytes d) = wire_rr ls t 1 ttl d"

fun rr_spec_rr :: "32 word \<Rightarrow> rr_spec \<Rightarrow> rfc1035_rr" where
  "rr_spec_rr ttl (ls, t, RName ds) = \<lparr>rr_name = name_of ls, rr_type = t, rr_class = 1, rr_ttl = ttl,
     rr_rdlength = of_nat (length (dotted ds)), rr_rdata = name_of ds\<rparr>"
| "rr_spec_rr ttl (ls, t, RBytes d) = \<lparr>rr_name = name_of ls, rr_type = t, rr_class = 1, rr_ttl = ttl,
     rr_rdlength = of_nat (length d), rr_rdata = d\<rparr>"

fun rr_spec_text :: "rr_spec \<Rightarrow> byte list \<times> 16 word \<times> byte list" where
  "rr_spec_text (ls, t, RName ds) = (name_of ls, t, name_of ds)"
| "rr_spec_text (ls, t, RBytes d) = (name_of ls, t, d)"

lemma rr_spec_pack:
  assumes "rr_spec_ok r" "rr_spec_text r = (name, t, d)" "length (rr_spec_wire (rp_ttl rp) r) \<le> sz"
  shows "rfc1035_rr_pack sz (name_rr rp name t d) = Ret (rr_spec_wire (rp_ttl rp) r)"
  using assms
proof (cases r rule: rr_spec_ok.cases)
  case (1 ls t' ds)
  then show ?thesis using assms rr_pack_name [of ls ds t' 1 "rp_ttl rp" sz]
    by (auto simp: name_rr_def strncpy_name name_ok_def)
next
  case (2 ls t' d')
  then show ?thesis using assms rr_pack_data [of ls t' d' 1 "rp_ttl rp" sz]
    by (auto simp: name_rr_def strncpy_name name_ok_def)
qed

lemma rr_spec_unpack:
  assumes "rr_spec_ok r"
  shows "rfc1035_rr_unpack (pre @ rr_spec_wire ttl r @ post) (length pre) =
    Ret (length (pre @ rr_spec_wire ttl r), Some (rr_spec_rr ttl r))"
  using assms rr_unpack_name rr_unpack_data by (cases r rule: rr_spec_ok.cases) simp_all

lemma rr_specs_unpack:
  assumes "\<forall>r \<in> set rs. rr_spec_ok r"
  shows "unpack2rr_loop (length rs) (pre @ concat (map (rr_spec_wire ttl) rs) @ post) (length pre) =
    Ret (length (pre @ concat (map (rr_spec_wire ttl) rs)), map (rr_spec_rr ttl) rs)"
  using assms
proof (induction rs arbitrary: pre)
  case (Cons r rs)
  let ?w = "rr_spec_wire ttl r" and ?ws = "concat (map (rr_spec_wire ttl) rs)"
  have "?w \<noteq> []" by (cases r rule: rr_spec_ok.cases) (simp_all add: wire_rr_def wire_name_def)
  moreover have "rfc1035_rr_unpack (pre @ ?w @ ?ws @ post) (length pre) = Ret (length (pre @ ?w), Some (rr_spec_rr ttl r))"
    using Cons.prems by (intro rr_spec_unpack) simp
  moreover have "unpack2rr_loop (length rs) ((pre @ ?w) @ ?ws @ post) (length (pre @ ?w)) =
      Ret (length ((pre @ ?w) @ ?ws), map (rr_spec_rr ttl) rs)"
    using Cons by (intro Cons.IH) simp
  ultimately show ?case by simp
qed simp

definition reply_answers :: "16 word \<Rightarrow> reply_spec \<Rightarrow> rr_spec list" where
  "reply_answers typ s = (case rs_cname s of None \<Rightarrow> [] | Some cn \<Rightarrow> [(rs_host s, 5, RName cn)])
     @ map (\<lambda>a. (rs_host s, typ, RBytes a)) (rs_addrs s)"

definition reply_authority :: "reply_spec \<Rightarrow> rr_spec list" where
  "reply_authority s = (case rs_ns s of None \<Rightarrow> [] | Some ns \<Rightarrow> [(rs_root s, 2, RName ns)])"

definition reply_additional :: "16 word \<Rightarrow> reply_spec \<Rightarrow> rr_spec list" where
  "reply_additional typ s = (case (rs_ns s, rs_ns_addr s) of (Some ns, Some a) \<Rightarrow> [(ns, typ, RBytes a)] | _ \<Rightarrow> [])"

definition reply_spec_ok :: "16 word \<Rightarrow> reply_spec \<Rightarrow> bool" where
  "reply_spec_ok typ s \<longleftrightarrow> name_ok (rs_host s) \<and> rs_addrs s \<noteq> [] \<and> length (rs_addrs s) < 65535
     \<and> rs_cname s \<noteq> Some [] \<and> rs_ns s \<noteq> Some []
     \<and> (\<forall>r \<in> set (reply_answers typ s @ reply_authority s @ reply_additional typ s). rr_spec_ok r)"

text \<open>The arguments of \<open>acl_rfc1035_build_reply\<close> that say it.\<close>

definition reply_of :: "inet \<Rightarrow> reply_spec \<Rightarrow> rfc1035_reply \<Rightarrow> bool" where
  "reply_of net s rp \<longleftrightarrow> rp_hostname rp = name_of (rs_host s) \<and> rp_cname rp = map_option name_of (rs_cname s)
     \<and> map (save_addr2rr net (rp_ip_type rp)) (rp_ips rp) = map Some (rs_addrs s)
     \<and> rp_domain_root rp = name_of (rs_root s) \<and> rp_dns_name rp = map_option name_of (rs_ns s)
     \<and> (case rp_dns_ip rp of None \<Rightarrow> rs_ns_addr s = None
        | Some ip \<Rightarrow> ip \<noteq> [] \<and> rs_ns_addr s \<noteq> None \<and> save_addr2rr net (rp_ip_type rp) ip = rs_ns_addr s)"

definition reply_wire :: "rfc1035_reply \<Rightarrow> reply_spec \<Rightarrow> byte list" where
  "reply_wire rp s = wire_header (reply_header rp) @ wire_question (rs_host s) (rp_ip_type rp) 1
     @ concat (map (rr_spec_wire (rp_ttl rp)) (reply_answers (rp_ip_type rp) s))
     @ concat (map (rr_spec_wire (rp_ttl rp)) (reply_authority s))
     @ concat (map (rr_spec_wire (rp_ttl rp)) (reply_additional (rp_ip_type rp) s))"

lemma name_of_Nil: "labels_ok ls \<Longrightarrow> name_of ls = [] \<longleftrightarrow> ls = []"
  by (cases ls; cases "tl ls") (auto simp: name_of_def labels_ok_def)

lemma reply_ips_pack:
  assumes "map (save_addr2rr net (rp_ip_type rp)) ips = map Some as" "rp_hostname rp = name_of ls"
    and "\<forall>a \<in> set as. rr_spec_ok (ls, rp_ip_type rp, RBytes a)"
    and "length (out @ concat (map (\<lambda>a. rr_spec_wire (rp_ttl rp) (ls, rp_ip_type rp, RBytes a)) as)) \<le> sz"
  shows "reply_ips net rp sz out ips =
    Ret (Some (out @ concat (map (\<lambda>a. rr_spec_wire (rp_ttl rp) (ls, rp_ip_type rp, RBytes a)) as)))"
  using assms
proof (induction ips arbitrary: as out)
  case (Cons ip ips)
  then obtain b bs where as: "as = b # bs" "save_addr2rr net (rp_ip_type rp) ip = Some b"
    "map (save_addr2rr net (rp_ip_type rp)) ips = map Some bs" by (cases as) auto
  have "rfc1035_rr_pack (sz - length out) (name_rr rp (rp_hostname rp) (rp_ip_type rp) b) =
      Ret (rr_spec_wire (rp_ttl rp) (ls, rp_ip_type rp, RBytes b))"
    using Cons.prems(2-4) as(1) by (intro rr_spec_pack) simp_all
  with as Cons.prems show ?case by (simp add: Cons.IH [OF as(3)])
qed simp

lemma reply_counts:
  assumes "reply_of net s rp" "reply_spec_ok (rp_ip_type rp) s"
  shows "given (rp_cname rp) \<longleftrightarrow> rs_cname s \<noteq> None" "given (rp_dns_name rp) \<longleftrightarrow> rs_ns s \<noteq> None"
    "given (rp_dns_ip rp) \<longleftrightarrow> rs_ns_addr s \<noteq> None" "rp_ips rp \<noteq> []"
    "unat (m_ancount (reply_header rp)) = length (reply_answers (rp_ip_type rp) s)"
    "unat (m_nscount (reply_header rp)) = length (reply_authority s)"
    "unat (m_arcount (reply_header rp)) = length (reply_additional (rp_ip_type rp) s)"
proof -
  have l: "length (rp_ips rp) = length (rs_addrs s)"
    using assms(1) map_eq_imp_length_eq by (simp add: reply_of_def) blast
  have cn: "labels_ok cn \<and> cn \<noteq> []" if "rs_cname s = Some cn" for cn
    using assms(2) that by (auto simp: reply_spec_ok_def reply_answers_def name_ok_def)
  have ns: "labels_ok ns \<and> ns \<noteq> []" if "rs_ns s = Some ns" for ns
    using assms(2) that by (auto simp: reply_spec_ok_def reply_authority_def name_ok_def)
  show c: "given (rp_cname rp) \<longleftrightarrow> rs_cname s \<noteq> None"
    using assms(1) cn by (cases "rs_cname s") (auto simp: given_def reply_of_def name_of_Nil)
  show n: "given (rp_dns_name rp) \<longleftrightarrow> rs_ns s \<noteq> None"
    using assms(1) ns by (cases "rs_ns s") (auto simp: given_def reply_of_def name_of_Nil)
  show i: "given (rp_dns_ip rp) \<longleftrightarrow> rs_ns_addr s \<noteq> None"
    using assms(1) by (auto simp: given_def reply_of_def split: option.splits)
  have a: "rs_addrs s \<noteq> []" "length (rs_addrs s) < 65535" using assms(2) by (auto simp: reply_spec_ok_def)
  show "rp_ips rp \<noteq> []" using l a(1) by auto
  show "unat (m_ancount (reply_header rp)) = length (reply_answers (rp_ip_type rp) s)"
    using a(2) by (cases "rs_cname s") (simp_all add: reply_header_def c l reply_answers_def unat_of_nat del: of_nat_add of_nat_Suc)
  show "unat (m_nscount (reply_header rp)) = length (reply_authority s)"
    by (cases "rs_ns s") (simp_all add: reply_header_def n reply_authority_def)
  show "unat (m_arcount (reply_header rp)) = length (reply_additional (rp_ip_type rp) s)"
    by (cases "rs_ns s"; cases "rs_ns_addr s") (simp_all add: reply_header_def n i reply_additional_def)
qed

lemma build_reply_wire:
  assumes of: "reply_of net s rp" and ok: "reply_spec_ok (rp_ip_type rp) s" and room: "length (reply_wire rp s) \<le> sz"
  shows "acl_rfc1035_build_reply net rp sz = Ret (reply_wire rp s)"
proof -
  let ?t = "rp_ip_type rp" and ?w = "rr_spec_wire (rp_ttl rp)" and ?h = "reply_header rp"
  let ?q = "wire_question (rs_host s) ?t 1"
  let ?cs = "case rs_cname s of None \<Rightarrow> [] | Some cn \<Rightarrow> ?w (rs_host s, 5, RName cn)"
  let ?as = "concat (map (\<lambda>a. ?w (rs_host s, ?t, RBytes a)) (rs_addrs s))"
  let ?ns = "concat (map ?w (reply_authority s))" and ?ad = "concat (map ?w (reply_additional ?t s))"
  have wire: "reply_wire rp s = wire_header ?h @ ?q @ ?cs @ ?as @ ?ns @ ?ad"
    by (simp add: reply_wire_def reply_answers_def comp_def split: option.split)
  have names: "rp_hostname rp = name_of (rs_host s)" "rp_domain_root rp = name_of (rs_root s)"
    "rp_cname rp = map_option name_of (rs_cname s)" "rp_dns_name rp = map_option name_of (rs_ns s)"
    "map (save_addr2rr net ?t) (rp_ips rp) = map Some (rs_addrs s)" using of by (simp_all add: reply_of_def)
  note c = reply_counts [OF of ok]
  have len: "length (wire_header ?h) = 12" by (rule header_pack(2))
  have sz: "12 + length ?q + length ?cs + length ?as + length ?ns + length ?ad \<le> sz" using room by (simp add: wire len)
  have h: "rfc1035_header_pack sz ?h = Ret (wire_header ?h)" using sz by (intro header_pack(1)) simp
  have q: "rfc1035_question_pack (sz - 12) (rp_hostname rp) ?t 1 = Ret ?q"
    unfolding names using ok sz by (intro question_pack) (simp_all add: reply_spec_ok_def name_ok_def)
  have cs: "rfc1035_rr_pack (sz - (12 + length ?q)) (name_rr rp (rp_hostname rp) 5 (the (rp_cname rp))) = Ret ?cs"
    if some: "rs_cname s \<noteq> None"
  proof -
    obtain cn where cn: "rs_cname s = Some cn" using some by blast
    then have "rr_spec_ok (rs_host s, 5, RName cn)" using ok by (simp add: reply_spec_ok_def reply_answers_def)
    then show ?thesis using sz cn by (simp only: names cn option.map option.sel option.case) (rule rr_spec_pack, simp_all)
  qed
  have as: "reply_ips net rp sz (wire_header ?h @ ?q @ ?cs) (rp_ips rp) = Ret (Some (wire_header ?h @ ?q @ ?cs @ ?as))"
  proof -
    have good: "\<forall>a \<in> set (rs_addrs s). rr_spec_ok (rs_host s, ?t, RBytes a)"
      using ok by (simp add: reply_spec_ok_def reply_answers_def image_iff ball_Un del: rr_spec_ok.simps)
    have "length ((wire_header ?h @ ?q @ ?cs) @ ?as) \<le> sz" using sz len by simp
    from reply_ips_pack [OF names(5,1) good this] show ?thesis by (simp only: append_assoc)
  qed
  have ns: "rfc1035_rr_pack (sz - (12 + length ?q + length ?cs + length ?as)) (name_rr rp (rp_domain_root rp) 2 (the (rp_dns_name rp))) = Ret ?ns"
    if some: "rs_ns s \<noteq> None"
  proof -
    obtain ns where ns: "rs_ns s = Some ns" using some by blast
    then have "rr_spec_ok (rs_root s, 2, RName ns)" using ok by (simp add: reply_spec_ok_def reply_authority_def)
    then show ?thesis using sz ns by (simp add: names reply_authority_def del: rr_spec_wire.simps rr_spec_ok.simps) (rule rr_spec_pack, simp_all)
  qed
  have ad: "\<exists>a. save_addr2rr net ?t (the (rp_dns_ip rp)) = Some a
      \<and> rfc1035_rr_pack (sz - (12 + length ?q + length ?cs + length ?as + length ?ns)) (name_rr rp (the (rp_dns_name rp)) ?t a) = Ret ?ad"
    if both: "rs_ns s \<noteq> None" "rs_ns_addr s \<noteq> None"
  proof -
    obtain ns a where a: "rs_ns s = Some ns" "rs_ns_addr s = Some a" using both by blast
    then have "rr_spec_ok (ns, ?t, RBytes a)" using ok by (simp add: reply_spec_ok_def reply_additional_def)
    moreover have "save_addr2rr net ?t (the (rp_dns_ip rp)) = Some a" using of a by (auto simp: reply_of_def split: option.splits)
    ultimately show ?thesis using sz a by (simp add: names reply_additional_def del: rr_spec_wire.simps rr_spec_ok.simps) (rule rr_spec_pack, simp_all)
  qed
  have out: "length (wire_header ?h @ ?q) = 12 + length ?q" "length (wire_header ?h @ ?q @ ?cs) = 12 + length ?q + length ?cs"
    "length (wire_header ?h @ ?q @ ?cs @ ?as) = 12 + length ?q + length ?cs + length ?as"
    "length (wire_header ?h @ ?q @ ?cs @ ?as @ ?ns) = 12 + length ?q + length ?cs + length ?as + length ?ns"
    by (simp_all add: len)
  have nscount: "m_nscount ?h \<noteq> 0 \<longleftrightarrow> rs_ns s \<noteq> None" "m_arcount ?h = 0 \<longleftrightarrow> \<not> (rs_ns s \<noteq> None \<and> rs_ns_addr s \<noteq> None)"
    using c by (simp_all add: reply_header_def)
  have empty: "?cs = []" if "rs_cname s = None" using that by simp
  have no_ns: "?ns = []" if "rs_ns s = None" using that by (simp add: reply_authority_def)
  have no_ad: "?ad = []" if "\<not> (rs_ns s \<noteq> None \<and> rs_ns_addr s \<noteq> None)"
    using that by (auto simp: reply_additional_def split: option.split)
  let ?o1 = "wire_header ?h @ ?q" and ?o2 = "wire_header ?h @ ?q @ ?cs"
  let ?o3 = "wire_header ?h @ ?q @ ?cs @ ?as" and ?o4 = "wire_header ?h @ ?q @ ?cs @ ?as @ ?ns"
  have s1: "map_cres (\<lambda>b. wire_header ?h @ b) (rfc1035_question_pack (sz - length (wire_header ?h)) (rp_hostname rp) ?t 1) = Ret ?o1"
    by (simp add: q len)
  have s2: "(if given (rp_cname rp) then map_cres (\<lambda>b. ?o1 @ b) (rfc1035_rr_pack (sz - length ?o1) (name_rr rp (rp_hostname rp) 5 (the (rp_cname rp))))
      else Ret ?o1) = Ret ?o2" unfolding c(1) out using cs empty by (cases "rs_cname s = None") simp_all
  have s4: "(if m_nscount ?h \<noteq> 0 then map_cres (\<lambda>b. ?o3 @ b) (rfc1035_rr_pack (sz - length ?o3) (name_rr rp (rp_domain_root rp) 2 (the (rp_dns_name rp))))
      else Ret ?o3) = Ret ?o4" unfolding nscount out using ns no_ns by (cases "rs_ns s = None") simp_all
  have s5: "(if m_arcount ?h = 0 then Ret ?o4
      else case save_addr2rr net ?t (the (rp_dns_ip rp)) of None \<Rightarrow> Ret []
        | Some a \<Rightarrow> map_cres (\<lambda>b. ?o4 @ b) (rfc1035_rr_pack (sz - length ?o4) (name_rr rp (the (rp_dns_name rp)) ?t a))) = Ret (?o4 @ ?ad)"
    unfolding nscount out using ad no_ad by (cases "rs_ns s \<noteq> None \<and> rs_ns_addr s \<noteq> None") auto
  show ?thesis
    unfolding acl_rfc1035_build_reply_def Let_def if_not_P [OF c(4)] h cbind.simps s1 s2 as option.case s4 s5 wire
    by (simp only: append_assoc)
qed

lemma reply_wire_unpack:
  assumes of: "reply_of net s rp" and ok: "reply_spec_ok (rp_ip_type rp) s"
  shows "acl_rfc1035_response_unpack (reply_wire rp s) = Ret (Some ((header_of (reply_header rp))\<lparr>
      m_query := [\<lparr>q_name = name_of (rs_host s), q_type = rp_ip_type rp, q_class = 1\<rparr>],
      m_answer := map (rr_spec_rr (rp_ttl rp)) (reply_answers (rp_ip_type rp) s),
      m_authority := map (rr_spec_rr (rp_ttl rp)) (reply_authority s),
      m_additional := map (rr_spec_rr (rp_ttl rp)) (reply_additional (rp_ip_type rp) s)\<rparr>), 0)"
proof -
  let ?t = "rp_ip_type rp" and ?h = "reply_header rp" and ?ws = "\<lambda>rs. concat (map (rr_spec_wire (rp_ttl rp)) rs)"
  let ?an = "reply_answers ?t s" and ?au = "reply_authority s" and ?ad = "reply_additional ?t s"
  let ?rs = "map (rr_spec_rr (rp_ttl rp))"
  let ?p0 = "wire_header ?h" and ?q = "wire_question (rs_host s) ?t 1"
  let ?p1 = "?p0 @ ?q"
  let ?p2 = "?p1 @ ?ws ?an"
  let ?p3 = "?p2 @ ?ws ?au"
  let ?qr = "\<lparr>q_name = name_of (rs_host s), q_type = ?t, q_class = 1\<rparr>"
  note c = reply_counts(5-7) [OF of ok]
  have w: "reply_wire rp s = ?p0 @ ?q @ ?ws ?an @ ?ws ?au @ ?ws ?ad" by (simp add: reply_wire_def)
  have good: "\<forall>r \<in> set ?an. rr_spec_ok r" "\<forall>r \<in> set ?au. rr_spec_ok r" "\<forall>r \<in> set ?ad. rr_spec_ok r" "name_ok (rs_host s)"
    using ok by (auto simp: reply_spec_ok_def)
  have h: "rfc1035_header_unpack (reply_wire rp s) = Ret (0, header_of ?h)" unfolding w by (rule header_roundtrip)
  have "rfc1035_query_unpack (reply_wire rp s) (length ?p0) = Ret (0, length ?p1, ?qr)"
    unfolding w by (rule question_unpack [OF good(4)])
  then have q: "unpack_queries 1 (reply_wire rp s) 12 = Ret (Some (length ?p1, [?qr]))"
    by (simp add: header_pack(2))
  have an: "unpack2rr_loop (length ?an) (reply_wire rp s) (length ?p1) = Ret (length ?p2, ?rs ?an)"
    using rr_specs_unpack [OF good(1), of ?p1 "rp_ttl rp" "?ws ?au @ ?ws ?ad"] by (simp only: w append_assoc)
  have au: "unpack2rr_loop (length ?au) (reply_wire rp s) (length ?p2) = Ret (length ?p3, ?rs ?au)"
    using rr_specs_unpack [OF good(2), of ?p2 "rp_ttl rp" "?ws ?ad"] by (simp only: w append_assoc)
  have ad: "unpack2rr_loop (length ?ad) (reply_wire rp s) (length ?p3) = Ret (length (?p3 @ ?ws ?ad), ?rs ?ad)"
    using rr_specs_unpack [OF good(3), of ?p3 "rp_ttl rp" "[]"] by (simp only: w append_assoc append_Nil2)
  have hd: "m_rcode (header_of ?h) = 0" "m_qdcount (header_of ?h) = 1" "unat (m_ancount (header_of ?h)) = length ?an"
    "unat (m_nscount (header_of ?h)) = length ?au" "unat (m_arcount (header_of ?h)) = length ?ad"
    using c by (simp_all add: header_of_def, simp_all add: reply_header_def msg0_def)
  have z: "m_nscount (header_of ?h) = 0 \<longleftrightarrow> ?au = []" "m_arcount (header_of ?h) = 0 \<longleftrightarrow> ?ad = []"
    using hd(4,5) by (auto simp: unat_eq_zero)
  have cnt: "of_nat (length ?an) = m_ancount (header_of ?h)" "of_nat (length ?au) = m_nscount (header_of ?h)"
    "of_nat (length ?ad) = m_arcount (header_of ?h)" unfolding hd(3-5) [symmetric] by simp_all
  have s3: "(if m_nscount (header_of ?h) = 0 then Ret (length ?p2, []) else rfc1035_unpack2rr (reply_wire rp s) (length ?p2) (m_nscount (header_of ?h)))
      = Ret (length ?p3, ?rs ?au)" using au by (simp add: rfc1035_unpack2rr_def hd z)
  have s4: "(if m_arcount (header_of ?h) = 0 then Ret (length ?p3, []) else rfc1035_unpack2rr (reply_wire rp s) (length ?p3) (m_arcount (header_of ?h)))
      = Ret (length (?p3 @ ?ws ?ad), ?rs ?ad)" using ad by (simp add: rfc1035_unpack2rr_def hd z)
  have s2: "rfc1035_unpack2rr (reply_wire rp s) (length ?p1) (m_ancount (header_of ?h)) = Ret (length ?p2, ?rs ?an)"
    using an by (simp add: rfc1035_unpack2rr_def hd)
  have cond: "\<not> (m_nscount (header_of ?h) \<noteq> 0 \<and> ?rs ?au = [])" "\<not> (m_arcount (header_of ?h) \<noteq> 0 \<and> ?rs ?ad = [])"
    by (simp_all add: z)
  have q': "unpack_queries (unat (m_qdcount (header_of ?h))) (reply_wire rp s) 12 = Ret (Some (length ?p1, [?qr]))"
    using q by (simp add: hd)
  show ?thesis
    unfolding acl_rfc1035_response_unpack_def h cbind.simps prod.case Let_def q' option.case s2 s3 s4 if_not_P [OF cond(1)] if_not_P [OF cond(2)]
      length_map cnt
    by (simp add: hd(1))
qed

text \<open>
  C30: A reply is built and read back: \<open>acl_rfc1035_build_reply\<close> writes exactly the reference encoding
  of what it is asked to say, if the buffer has room for it, and \<open>acl_rfc1035_response_unpack\<close> gives the
  question, the alias and the addresses in their order, the name server and its address, and the counters.
\<close>

theorem dns_reply_roundtrip:
  assumes "reply_of net s rp" "reply_spec_ok (rp_ip_type rp) s" "length (reply_wire rp s) \<le> sz"
  shows "acl_rfc1035_build_reply net rp sz = Ret (reply_wire rp s)
    \<and> acl_rfc1035_response_unpack (reply_wire rp s) = Ret (Some ((header_of (reply_header rp))\<lparr>
      m_query := [\<lparr>q_name = name_of (rs_host s), q_type = rp_ip_type rp, q_class = 1\<rparr>],
      m_answer := map (rr_spec_rr (rp_ttl rp)) (reply_answers (rp_ip_type rp) s),
      m_authority := map (rr_spec_rr (rp_ttl rp)) (reply_authority s),
      m_additional := map (rr_spec_rr (rp_ttl rp)) (reply_additional (rp_ip_type rp) s)\<rparr>), 0)"
  using build_reply_wire [OF assms] reply_wire_unpack [OF assms(1,2)] ..

definition ex_net :: inet where
  "ex_net = \<lparr>inet_addr = (\<lambda>s. [10, 0, 0, of_nat (length s)]), inet_pton6 = (\<lambda>s. None), if_nametoindex = (\<lambda>s. 0)\<rparr>"

definition ex_spec :: reply_spec where
  "ex_spec = \<lparr>rs_host = [[119], [97, 98]], rs_cname = Some [[99]], rs_addrs = [[10, 0, 0, 2], [10, 0, 0, 3]], rs_root = [[97, 98]],
     rs_ns = Some [[110], [97, 98]], rs_ns_addr = Some [10, 0, 0, 1]\<rparr>"

definition ex_reply :: rfc1035_reply where
  "ex_reply = \<lparr>rp_hostname = [119, 46, 97, 98], rp_cname = Some [99], rp_ips = [[49, 49], [49, 49, 49]], rp_domain_root = [97, 98],
     rp_dns_name = Some [110, 46, 97, 98], rp_dns_ip = Some [49], rp_ip_type = 1, rp_ttl = 60, rp_qid = 7\<rparr>"

lemma dns_reply_roundtrip_witness:
  "acl_rfc1035_build_reply ex_net ex_reply 512 = Ret (reply_wire ex_reply ex_spec)
    \<and> acl_rfc1035_response_unpack (reply_wire ex_reply ex_spec) = Ret (Some ((header_of (reply_header ex_reply))\<lparr>
      m_query := [\<lparr>q_name = name_of (rs_host ex_spec), q_type = rp_ip_type ex_reply, q_class = 1\<rparr>],
      m_answer := map (rr_spec_rr (rp_ttl ex_reply)) (reply_answers (rp_ip_type ex_reply) ex_spec),
      m_authority := map (rr_spec_rr (rp_ttl ex_reply)) (reply_authority ex_spec),
      m_additional := map (rr_spec_rr (rp_ttl ex_reply)) (reply_additional (rp_ip_type ex_reply) ex_spec)\<rparr>), 0)"
proof (rule dns_reply_roundtrip)
  show "reply_of ex_net ex_spec ex_reply"
    by (simp add: reply_of_def ex_spec_def ex_reply_def ex_net_def name_of_def save_addr2rr_def)
  show "reply_spec_ok (rp_ip_type ex_reply) ex_spec"
    by (simp add: reply_spec_ok_def ex_spec_def ex_reply_def reply_answers_def reply_authority_def reply_additional_def
      name_ok_def labels_ok_def pack_name_types_def unpack_name_types_def)
  show "length (reply_wire ex_reply ex_spec) \<le> 512"
    by (simp add: reply_wire_def wire_question_def wire_rr_def ex_spec_def ex_reply_def reply_answers_def reply_authority_def
      reply_additional_def header_pack(2))
qed

subsection \<open>Comparing\<close>

lemma to_lower_dot: "to_lower b = 46 \<longleftrightarrow> b = 46"
  by (auto simp: to_lower_def is_upper_def split: if_splits)

lemma lower_trim: "map to_lower (trim_dots s) = trim_dots (map to_lower s)"
proof -
  have "map to_lower (dropWhile (\<lambda>b. b = 46) xs) = dropWhile (\<lambda>b. b = 46) (map to_lower xs)" for xs
    by (induction xs) (simp_all add: to_lower_dot)
  then show ?thesis by (simp add: trim_dots_def rev_map [symmetric])
qed

text \<open>The dots that \<open>trim_dots\<close> takes away.\<close>

lemma trim_dots_split: "s = trim_dots s @ replicate (length s - length (trim_dots s)) 46"
proof -
  have "xs = replicate (length xs - length (dropWhile (\<lambda>b. b = 46) xs)) 46 @ dropWhile (\<lambda>b. b = 46) xs" for xs :: "byte list"
  proof (induction xs)
    case (Cons x xs)
    then show ?case by (auto simp: Suc_diff_le length_dropWhile_le)
  qed simp
  from arg_cong [OF this [of "rev s"], of rev] show ?thesis by (simp add: trim_dots_def)
qed

text \<open>
  \<open>acl_rfc1035_query_compare\<close> is the comparison of names in DNS: two queries are the same exactly if
  type and class are, and the names are up to case and the dots at their ends.
\<close>

theorem query_compare_spec:
  "acl_rfc1035_query_compare a b \<longleftrightarrow> q_type a = q_type b \<and> q_class a = q_class b
    \<and> map to_lower (trim_dots (q_name a)) = map to_lower (trim_dots (q_name b))"
proof -
  let ?a = "q_name a" and ?b = "q_name b"
  have t: "take (length (trim_dots s)) s = trim_dots s" for s
    using trim_dots_split [of s] by (metis append_eq_conv_conj)
  have ta: "take (length (trim_dots ?b)) ?a = trim_dots ?a" if "length (trim_dots ?a) = length (trim_dots ?b)"
    using t [of ?a] that by simp
  have same: "map to_lower ?a = map to_lower ?b \<longleftrightarrow> map to_lower (trim_dots ?a) = map to_lower (trim_dots ?b)"
    if len: "length ?a = length ?b"
  proof
    assume "map to_lower ?a = map to_lower ?b"
    then show "map to_lower (trim_dots ?a) = map to_lower (trim_dots ?b)" by (simp add: lower_trim)
  next
    assume e: "map to_lower (trim_dots ?a) = map to_lower (trim_dots ?b)"
    then have "length (trim_dots ?a) = length (trim_dots ?b)" using map_eq_imp_length_eq by blast
    then show "map to_lower ?a = map to_lower ?b"
      using e len by (subst (1 2) trim_dots_split) (simp only: map_append)
  qed
  show ?thesis
  proof (cases "length ?a = length ?b")
    case True
    then show ?thesis using same by (simp add: acl_rfc1035_query_compare_def Let_def)
  next
    case False
    then show ?thesis using map_eq_imp_length_eq [of to_lower "trim_dots ?a" to_lower "trim_dots ?b"]
      by (auto simp: acl_rfc1035_query_compare_def Let_def t ta)
  qed
qed

subsection \<open>What the code gets wrong\<close>

text \<open>A compression pointer is legal as the last two bytes of a message; the parser rejects it.\<close>

lemma pointer_at_end_rejected:
  "rfc1035_name_unpack [1, 97, 0, 192, 0, 0] 3 0 [] 256 0 = Ret (0, 5, 2, [97])"
  "rfc1035_name_unpack [1, 97, 0, 192, 0] 3 0 [] 256 0 = Ret (1, 5, 0, [])"
  by code_simp+

text \<open>A message that ends with the first byte of a pointer is read behind its end.\<close>

lemma cut_pointer_read: "rfc1035_name_unpack [192] 0 0 [] 256 0 = Fault"
  by code_simp

text \<open>A request whose question is corrupt makes the parser use and return the message that it has freed.\<close>

lemma corrupt_request_freed:
  "acl_rfc1035_request_unpack [0, 0, 0, 0, 0, 1, 0, 0, 0, 0, 0, 0] = Fault"
  by code_simp

text \<open>The fields behind a name are written before their size is checked.\<close>

lemma question_pack_overflow:
  "rfc1035_question_pack 5 [97, 97] 1 1 = Fault" "rfc1035_name_pack 5 [97, 97] = Ret [2, 97, 97, 0]"
  by code_simp+

text \<open>A name of 255 bytes and the last dot fills the buffer, and the loop ends in front of the root label.\<close>

lemma full_name_unfinished:
  "rfc1035_name_unpack (concat (replicate 4 (63 # replicate 63 97)) @ [0, 9]) 0 0 [] 256 0
    = Ret (0, 256, 256, butlast (concat (replicate 4 (replicate 63 97 @ [46]))))"
  by code_simp

end
