(* ===== verification/Acl_Json.thy ===== *)
theory Acl_Json
  imports Acl_Mystring
begin

text \<open>
  The streaming JSON parser, \<open>lib_acl/src/json/acl_json_parse.c\<close>, with the nodes of \<open>acl_json.c\<close>. Nodes come
  from a pool and are never freed one by one, so a pointer to a node is its index in the list of all
  nodes allocated; the ring of the children of a node is the list of their pointers. Text is a C string,
  the list of the bytes before the terminator: the end of a chunk is the empty list.
\<close>

abbreviation "c_quot \<equiv> (34 :: byte)"
abbreviation "c_apos \<equiv> (39 :: byte)"
abbreviation "c_comma \<equiv> (44 :: byte)"
abbreviation "c_colon \<equiv> (58 :: byte)"
abbreviation "c_semi \<equiv> (59 :: byte)"
abbreviation "c_lbrack \<equiv> (91 :: byte)"
abbreviation "c_bslash \<equiv> (92 :: byte)"
abbreviation "c_rbrack \<equiv> (93 :: byte)"
abbreviation "c_lbrace \<equiv> (123 :: byte)"
abbreviation "c_rbrace \<equiv> (125 :: byte)"

definition is_quote :: "byte \<Rightarrow> bool" where
  "is_quote c \<longleftrightarrow> c = c_quot \<or> c = c_apos"

definition is_space :: "byte \<Rightarrow> bool" where
  "is_space c \<longleftrightarrow> c = 32 \<or> c = 9 \<or> c = 13 \<or> c = 10"

definition skip_space :: "byte list \<Rightarrow> byte list" where
  "skip_space data = dropWhile is_space data"

text \<open>The bits of the type of a node.\<close>

abbreviation "JT_A_STRING \<equiv> (1 :: 16 word)"
abbreviation "JT_A_NUMBER \<equiv> (2 :: 16 word)"
abbreviation "JT_A_BOOL \<equiv> (4 :: 16 word)"
abbreviation "JT_A_NULL \<equiv> (8 :: 16 word)"
abbreviation "JT_A_DOUBLE \<equiv> (16 :: 16 word)"
abbreviation "JT_STRING \<equiv> (32 :: 16 word)"
abbreviation "JT_NUMBER \<equiv> (64 :: 16 word)"
abbreviation "JT_BOOL \<equiv> (128 :: 16 word)"
abbreviation "JT_NULL \<equiv> (256 :: 16 word)"
abbreviation "JT_DOUBLE \<equiv> (512 :: 16 word)"
abbreviation "JT_ARRAY \<equiv> (1024 :: 16 word)"
abbreviation "JT_OBJ \<equiv> (2048 :: 16 word)"
abbreviation "JT_LEAF \<equiv> (4096 :: 16 word)"
abbreviation "JT_MEMBER \<equiv> (8192 :: 16 word)"
abbreviation "JT_PAIR \<equiv> (16384 :: 16 word)"
abbreviation "JT_ELEMENT \<equiv> (32768 :: 16 word)"

record jnode =
  jn_ltag :: "byte list"
  jn_text :: "byte list"
  jn_tag_node :: "nat option"
  jn_parent :: "nat option"
  jn_children :: "nat list"
  jn_type :: "16 word"
  jn_depth :: "16 word"
  jn_quote :: byte
  jn_left_ch :: byte
  jn_right_ch :: byte
  jn_backslash :: bool
  jn_part_word :: bool

datatype json_status = JS_ROOT | JS_OBJ | JS_MEMBER | JS_ARRAY | JS_ELEMENT | JS_PAIR | JS_NEXT | JS_TAG | JS_VALUE
  | JS_COLON | JS_STRING | JS_STREND

record acl_json =
  js_depth :: int
  js_node_cnt :: int
  js_root :: nat
  js_finish :: bool
  js_flag :: "32 word"
  js_status :: json_status
  js_curr :: nat
  js_nodes :: "jnode list"

definition part_word_flag :: "acl_json \<Rightarrow> bool" where
  "part_word_flag j = bit (js_flag j) 0"

definition add_space_flag :: "acl_json \<Rightarrow> bool" where
  "add_space_flag j = bit (js_flag j) 1"

subsection \<open>Nodes\<close>

definition jn_get :: "acl_json \<Rightarrow> nat \<Rightarrow> jnode cres" where
  "jn_get j i = tab_at (js_nodes j) i"

definition jn_upd :: "acl_json \<Rightarrow> nat \<Rightarrow> (jnode \<Rightarrow> jnode) \<Rightarrow> acl_json cres" where
  "jn_upd j i f = map_cres (\<lambda>n. j\<lparr>js_nodes := (js_nodes j)[i := f n]\<rparr>) (jn_get j i)"

definition jnode0 :: jnode where
  "jnode0 = \<lparr>jn_ltag = [], jn_text = [], jn_tag_node = None, jn_parent = None, jn_children = [], jn_type = 0, jn_depth = 0,
     jn_quote = 0, jn_left_ch = 0, jn_right_ch = 0, jn_backslash = False, jn_part_word = False\<rparr>"

definition acl_json_node_alloc :: "acl_json \<Rightarrow> acl_json \<times> nat" where
  "acl_json_node_alloc j = (j\<lparr>js_nodes := js_nodes j @ [jnode0], js_node_cnt := js_node_cnt j + 1\<rparr>, length (js_nodes j))"

definition acl_json_node_add_child :: "acl_json \<Rightarrow> nat \<Rightarrow> nat \<Rightarrow> acl_json cres" where
  "acl_json_node_add_child j parent child =
    cbind (jn_upd j parent (\<lambda>n. n\<lparr>jn_children := jn_children n @ [child]\<rparr>)) (\<lambda>j.
    jn_upd j child (\<lambda>n. n\<lparr>jn_parent := Some parent\<rparr>))"

definition acl_json_node_parent :: "acl_json \<Rightarrow> nat \<Rightarrow> nat option cres" where
  "acl_json_node_parent j i = map_cres jn_parent (jn_get j i)"

text \<open>The node a parent pointer leads to; following the null pointer is an error.\<close>

definition parent_get :: "acl_json \<Rightarrow> nat \<Rightarrow> (nat \<times> jnode) cres" where
  "parent_get j i = cbind (acl_json_node_parent j i) (\<lambda>p. case p of None \<Rightarrow> Fault | Some p \<Rightarrow> map_cres (\<lambda>n. (p, n)) (jn_get j p))"

definition acl_json_alloc :: acl_json where
  "acl_json_alloc = (let (j, root) = acl_json_node_alloc \<lparr>js_depth = 0, js_node_cnt = 0, js_root = 0, js_finish = False, js_flag = 0,
       js_status = JS_ROOT, js_curr = 0, js_nodes = []\<rparr>
     in j\<lparr>js_root := root, js_curr := root, js_status := JS_ROOT\<rparr>)"

text \<open>
  What \<open>json_obj\<close>, \<open>json_member\<close>, \<open>json_array\<close> and \<open>json_element\<close> share: a new node below the current one,
  which becomes the current node. The depth is counted in an \<open>unsigned short\<close>.
\<close>

definition json_new_child :: "acl_json \<Rightarrow> (jnode \<Rightarrow> jnode) \<Rightarrow> (acl_json \<times> nat) cres" where
  "json_new_child j init = (let (j, i) = acl_json_node_alloc j in
     cbind (jn_get j (js_curr j)) (\<lambda>c. let d = jn_depth c + 1 in
     cbind (jn_upd j i (\<lambda>n. (init n)\<lparr>jn_depth := d\<rparr>)) (\<lambda>j.
     let j = (if js_depth j < uint d then j\<lparr>js_depth := uint d\<rparr> else j) in
     map_cres (\<lambda>j. (j, i)) (acl_json_node_add_child j (js_curr j) i))))"

text \<open>A container that is the value of a tag is also the \<open>tag_node\<close> of the node with the tag.\<close>

definition json_tag_child :: "acl_json \<Rightarrow> nat \<Rightarrow> acl_json cres" where
  "json_tag_child j i = jn_upd j (js_curr j) (\<lambda>n. if jn_ltag n \<noteq> [] then n\<lparr>jn_tag_node := Some i\<rparr> else n)"

subsection \<open>The handlers of the state machine\<close>

definition json_root :: "acl_json \<Rightarrow> byte list \<Rightarrow> (acl_json \<times> byte list) cres" where
  "json_root j data = (case dropWhile (\<lambda>c. c \<noteq> c_lbrace \<and> c \<noteq> c_lbrack) data of
     [] \<Rightarrow> Ret (j, [])
   | c # data \<Rightarrow> map_cres (\<lambda>j. (j\<lparr>js_curr := js_root j\<rparr>, data))
       (if c = c_lbrace
        then jn_upd (j\<lparr>js_status := JS_MEMBER\<rparr>) (js_root j) (\<lambda>n. n\<lparr>jn_left_ch := c_lbrace, jn_right_ch := c_rbrace, jn_type := JT_OBJ\<rparr>)
        else jn_upd (j\<lparr>js_status := JS_ELEMENT\<rparr>) (js_root j) (\<lambda>n. n\<lparr>jn_left_ch := c_lbrack, jn_right_ch := c_rbrack, jn_type := JT_ARRAY\<rparr>)))"

definition json_obj :: "acl_json \<Rightarrow> byte list \<Rightarrow> (acl_json \<times> byte list) cres" where
  "json_obj j data = (let data = skip_space data in if data = [] then Ret (j, data) else
     cbind (json_new_child j (\<lambda>n. n\<lparr>jn_type := JT_OBJ, jn_left_ch := c_lbrace, jn_right_ch := c_rbrace\<rparr>)) (\<lambda>(j, obj).
     map_cres (\<lambda>j. (j\<lparr>js_curr := obj, js_status := JS_MEMBER\<rparr>, data)) (json_tag_child j obj)))"

definition json_member :: "acl_json \<Rightarrow> byte list \<Rightarrow> (acl_json \<times> byte list) cres" where
  "json_member j data = map_cres (\<lambda>(j, member). (j\<lparr>js_curr := member, js_status := JS_PAIR\<rparr>, data))
     (json_new_child j (\<lambda>n. n\<lparr>jn_type := JT_MEMBER\<rparr>))"

definition json_pair :: "acl_json \<Rightarrow> byte list \<Rightarrow> (acl_json \<times> byte list) cres" where
  "json_pair j data = (case skip_space data of [] \<Rightarrow> Ret (j, [])
     | c # rest \<Rightarrow> cbind (parent_get j (js_curr j)) (\<lambda>(p, parent).
       if c = jn_right_ch parent then
         Ret (if p = js_root j then j\<lparr>js_finish := True\<rparr> else j\<lparr>js_curr := p, js_status := JS_NEXT\<rparr>, rest)
       else if c = c_lbrace then Ret (j\<lparr>js_status := JS_OBJ\<rparr>, rest)
       else if c = c_lbrack then Ret (j\<lparr>js_status := JS_ARRAY\<rparr>, rest)
       else cbind (jn_get j (js_curr j)) (\<lambda>node.
         let q = is_quote c \<and> jn_quote node = 0 in
         map_cres (\<lambda>j. (j\<lparr>js_status := JS_TAG\<rparr>, if q then rest else c # rest))
           (jn_upd j (js_curr j) (\<lambda>n. (if q then n\<lparr>jn_quote := c\<rparr> else n)\<lparr>jn_type := JT_PAIR\<rparr>)))))"

text \<open>
  The loops that collect a tag or a text: the fields of the node they work on, and how they end. The two
  loops differ in what they add to and in the bytes that end one without quotes.
\<close>

record jscan =
  sc_quote :: byte
  sc_backslash :: bool
  sc_part_word :: bool
  sc_buf :: "byte list"

datatype scan_end = EndQuote | EndPlain | EndData

definition json_unescape :: "byte \<Rightarrow> byte" where
  "json_unescape c = (if c = ch CHR ''b'' then 8 else if c = ch CHR ''f'' then 12 else if c = ch CHR ''n'' then 10
     else if c = ch CHR ''r'' then 13 else if c = ch CHR ''t'' then 9 else c)"

definition scan_add :: "jscan \<Rightarrow> byte \<Rightarrow> jscan" where
  "scan_add s c = s\<lparr>sc_buf := sc_buf s @ [c]\<rparr>"

text \<open>The bytes of a double-byte character under \<open>ACL_JSON_FLAG_PART_WORD\<close>; \<open>char\<close> is signed.\<close>

definition scan_word :: "bool \<Rightarrow> jscan \<Rightarrow> byte \<Rightarrow> jscan" where
  "scan_word part s c = (let t = scan_add s c in
     if part then
       if sc_part_word s then t\<lparr>sc_part_word := False\<rparr>
       else if sint c < 0 \<or> sint c > 128 then t\<lparr>sc_part_word := True\<rparr> else t
     else t)"

text \<open>One turn of the loop: the fields afterwards, or how the loop ends at this byte.\<close>

definition scan_step :: "(byte \<Rightarrow> bool) \<Rightarrow> bool \<Rightarrow> jscan \<Rightarrow> byte \<Rightarrow> jscan + scan_end" where
  "scan_step stop part s c =
    (if sc_quote s \<noteq> 0 then
       if sc_backslash s then Inl ((scan_add s (json_unescape c))\<lparr>sc_backslash := False\<rparr>)
       else if c = c_bslash then
         Inl (if sc_part_word s then (scan_add s c)\<lparr>sc_part_word := False\<rparr> else s\<lparr>sc_backslash := True\<rparr>)
       else if c = sc_quote s then Inr EndQuote
       else Inl (scan_word part s c)
     else if sc_backslash s then Inl ((scan_add s c)\<lparr>sc_backslash := False\<rparr>)
     else if c = c_bslash then
       Inl (if sc_part_word s then (scan_add s c)\<lparr>sc_part_word := False\<rparr> else s\<lparr>sc_backslash := True\<rparr>)
     else if stop c then Inr EndPlain
     else Inl (scan_word part s c))"

text \<open>A closing quote is consumed, a byte that ends a word without quotes is not.\<close>

fun json_scan :: "(byte \<Rightarrow> bool) \<Rightarrow> bool \<Rightarrow> jscan \<Rightarrow> byte list \<Rightarrow> jscan \<times> scan_end \<times> byte list" where
  "json_scan stop part s [] = (s, EndData, [])"
| "json_scan stop part s (c # data) = (case scan_step stop part s c of
     Inl s \<Rightarrow> json_scan stop part s data
   | Inr e \<Rightarrow> (s, e, if e = EndQuote then data else c # data))"

definition tag_stop :: "byte \<Rightarrow> bool" where
  "tag_stop c \<longleftrightarrow> is_space c \<or> c = c_colon"

definition text_stop :: "byte \<Rightarrow> bool" where
  "text_stop c \<longleftrightarrow> is_space c \<or> c = c_comma \<or> c = c_semi \<or> c = c_rbrace \<or> c = c_rbrack"

definition json_tag :: "acl_json \<Rightarrow> byte list \<Rightarrow> (acl_json \<times> byte list) cres" where
  "json_tag j data = cbind (jn_get j (js_curr j)) (\<lambda>node.
     let (s, e, rest) = json_scan tag_stop (part_word_flag j)
           \<lparr>sc_quote = jn_quote node, sc_backslash = jn_backslash node, sc_part_word = jn_part_word node, sc_buf = jn_ltag node\<rparr> data;
         put = (\<lambda>q pw. jn_upd j (js_curr j) (\<lambda>n. n\<lparr>jn_ltag := sc_buf s, jn_backslash := sc_backslash s, jn_quote := q, jn_part_word := pw\<rparr>)) in
     case e of
       EndData \<Rightarrow> map_cres (\<lambda>j. (j, rest)) (put (sc_quote s) (sc_part_word s))
     | EndPlain \<Rightarrow> map_cres (\<lambda>j. (j\<lparr>js_status := JS_COLON\<rparr>, rest)) (put (sc_quote s) False)
     | EndQuote \<Rightarrow> cbind (parent_get j (js_curr j)) (\<lambda>(_, parent).
         map_cres (\<lambda>j. (j\<lparr>js_status := if jn_left_ch parent = c_lbrack then JS_NEXT else JS_COLON\<rparr>, rest)) (put 0 False)))"

definition json_colon :: "acl_json \<Rightarrow> byte list \<Rightarrow> (acl_json \<times> byte list) cres" where
  "json_colon j data = (case skip_space data of [] \<Rightarrow> Ret (j, [])
     | c # rest \<Rightarrow> if c \<noteq> c_colon then Ret (j, rest) else Ret (j\<lparr>js_status := JS_VALUE\<rparr>, rest))"

definition json_array :: "acl_json \<Rightarrow> byte list \<Rightarrow> (acl_json \<times> byte list) cres" where
  "json_array j data = (case skip_space data of [] \<Rightarrow> Ret (j, [])
     | c # rest \<Rightarrow>
       cbind (json_new_child j (\<lambda>n. n\<lparr>jn_left_ch := c_lbrack, jn_right_ch := c_rbrack, jn_type := JT_ARRAY\<rparr>)) (\<lambda>(j, array).
       map_cres (\<lambda>j. let j = j\<lparr>js_curr := array, js_status := JS_ELEMENT\<rparr> in
         if c = c_rbrack then (j\<lparr>js_status := JS_NEXT\<rparr>, rest) else (j, c # rest)) (json_tag_child j array)))"

definition json_element :: "acl_json \<Rightarrow> byte list \<Rightarrow> (acl_json \<times> byte list) cres" where
  "json_element j data = (case skip_space data of [] \<Rightarrow> Ret (j, [])
     | c # rest \<Rightarrow>
       if c = c_lbrace then Ret (j\<lparr>js_status := JS_OBJ\<rparr>, rest)
       else if c = c_lbrack then Ret (j\<lparr>js_status := JS_ARRAY\<rparr>, rest)
       else map_cres (\<lambda>(j, element). (j\<lparr>js_curr := element, js_status := JS_VALUE\<rparr>, c # rest))
         (json_new_child j (\<lambda>n. n\<lparr>jn_type := JT_ELEMENT\<rparr>)))"

definition json_value :: "acl_json \<Rightarrow> byte list \<Rightarrow> (acl_json \<times> byte list) cres" where
  "json_value j data = (case skip_space data of [] \<Rightarrow> Ret (j, [])
     | c # rest \<Rightarrow>
       let (st, q, data) =
         (if c = c_lbrace then (JS_OBJ, None, rest) else if c = c_lbrack then (JS_ARRAY, None, rest)
          else if c = c_comma \<or> c = c_semi then (JS_NEXT, None, rest)
          else if is_quote c then (JS_STRING, Some c, rest) else (JS_STRING, None, c # rest)) in
       map_cres (\<lambda>j. (j\<lparr>js_status := st\<rparr>, data)) (jn_upd j (js_curr j) (\<lambda>n.
         (case q of None \<Rightarrow> n | Some q \<Rightarrow> n\<lparr>jn_quote := q\<rparr>)\<lparr>jn_type := JT_LEAF\<rparr>)))"

definition json_string :: "acl_json \<Rightarrow> byte list \<Rightarrow> (acl_json \<times> byte list) cres" where
  "json_string j data = cbind (jn_get j (js_curr j)) (\<lambda>node.
     let (s, e, rest) = json_scan text_stop (part_word_flag j)
           \<lparr>sc_quote = jn_quote node, sc_backslash = jn_backslash node, sc_part_word = jn_part_word node, sc_buf = jn_text node\<rparr> data in
     map_cres (\<lambda>j. (if e = EndData then j else j\<lparr>js_status := JS_STREND\<rparr>, rest))
       (jn_upd j (js_curr j) (\<lambda>n. n\<lparr>jn_text := sc_buf s, jn_backslash := sc_backslash s,
          jn_part_word := (if e = EndQuote then False else sc_part_word s)\<rparr>)))"

subsection \<open>The type of a scalar\<close>

definition strcaseeq :: "byte list \<Rightarrow> byte list \<Rightarrow> bool" where
  "strcaseeq s t \<longleftrightarrow> map to_lower s = map to_lower t"

fun double_digits :: "byte list \<Rightarrow> bool" where
  "double_digits [] = True"
| "double_digits (c # s) = (if c = ch CHR ''.'' then s \<noteq> [] \<and> list_all is_digit s else is_digit c \<and> double_digits s)"

fun strip_sign :: "byte list \<Rightarrow> byte list" where
  "strip_sign [] = []"
| "strip_sign (c # s) = (if c = ch CHR ''-'' \<or> c = ch CHR ''+'' then s else c # s)"

definition acl_is_double :: "byte list \<Rightarrow> bool" where
  "acl_is_double s = (if s = [] then False else let s = strip_sign s in
     if s = [] \<or> hd s = ch CHR ''.'' then False else double_digits s)"

definition is_number :: "byte list \<Rightarrow> bool" where
  "is_number s \<longleftrightarrow> acl_alldig s \<or> (case s of [] \<Rightarrow> False
     | c # t \<Rightarrow> (c = ch CHR ''-'' \<or> c = ch CHR ''+'') \<and> t \<noteq> [] \<and> acl_alldig t)"

definition scalar_type :: "bool \<Rightarrow> byte \<Rightarrow> byte list \<Rightarrow> 16 word" where
  "scalar_type arr quote txt =
    (if quote = 0 then
       if strcaseeq txt (bytes_of ''null'') then if arr then JT_A_NULL else JT_NULL
       else if strcaseeq txt (bytes_of ''true'') \<or> strcaseeq txt (bytes_of ''false'') then if arr then JT_A_BOOL else JT_BOOL
       else if is_number txt then if arr then JT_A_NUMBER else JT_NUMBER
       else if acl_is_double txt then if arr then JT_A_DOUBLE else JT_DOUBLE
       else if arr then JT_A_STRING else JT_STRING
     else if arr then JT_A_STRING else JT_STRING) OR JT_LEAF"

definition json_strend :: "acl_json \<Rightarrow> byte list \<Rightarrow> (acl_json \<times> byte list) cres" where
  "json_strend j data = (case skip_space data of [] \<Rightarrow> Ret (j, [])
     | c # rest \<Rightarrow> cbind (jn_get j (js_curr j)) (\<lambda>node.
       cbind (case jn_parent node of None \<Rightarrow> Ret False | Some p \<Rightarrow> map_cres (\<lambda>n. jn_type n = JT_ARRAY) (jn_get j p)) (\<lambda>arr.
       cbind (jn_upd j (js_curr j) (\<lambda>n. n\<lparr>jn_type := scalar_type arr (jn_quote n) (jn_text n)\<rparr>)) (\<lambda>j.
       if c = c_comma \<or> c = c_semi then Ret (j\<lparr>js_status := JS_NEXT\<rparr>, c # rest)
       else cbind (parent_get j (js_curr j)) (\<lambda>(p, parent).
         if c \<noteq> jn_right_ch parent then Ret (j, rest)
         else if p = js_root j then Ret (j\<lparr>js_finish := True\<rparr>, rest)
         else Ret (j\<lparr>js_curr := p, js_status := JS_NEXT\<rparr>, rest))))))"

definition json_brother :: "acl_json \<Rightarrow> byte list \<Rightarrow> (acl_json \<times> byte list) cres" where
  "json_brother j data =
    (if js_curr j = js_root j then Ret (j\<lparr>js_finish := True\<rparr>, data)
     else case skip_space data of [] \<Rightarrow> Ret (j, [])
     | c # rest \<Rightarrow> cbind (parent_get j (js_curr j)) (\<lambda>(p, parent).
       let st = (if jn_left_ch parent = c_lbrace then JS_MEMBER else if jn_left_ch parent = c_lbrack then JS_ELEMENT else JS_NEXT) in
       if c = c_comma \<or> c = c_semi then Ret (j\<lparr>js_status := st, js_curr := p\<rparr>, rest)
       else if c = jn_right_ch parent then
         Ret (if p = js_root j then j\<lparr>js_finish := True\<rparr> else j\<lparr>js_curr := p, js_status := JS_NEXT\<rparr>, rest)
       else Ret (j\<lparr>js_status := st, js_curr := p\<rparr>, c # rest)))"

subsection \<open>The machine\<close>

fun json_callback :: "json_status \<Rightarrow> acl_json \<Rightarrow> byte list \<Rightarrow> (acl_json \<times> byte list) cres" where
  "json_callback JS_ROOT = json_root"
| "json_callback JS_OBJ = json_obj"
| "json_callback JS_MEMBER = json_member"
| "json_callback JS_ARRAY = json_array"
| "json_callback JS_ELEMENT = json_element"
| "json_callback JS_PAIR = json_pair"
| "json_callback JS_NEXT = json_brother"
| "json_callback JS_TAG = json_tag"
| "json_callback JS_VALUE = json_value"
| "json_callback JS_COLON = json_colon"
| "json_callback JS_STRING = json_string"
| "json_callback JS_STREND = json_strend"

text \<open>The loop of \<open>acl_json_update\<close>; its first argument bounds the number of turns.\<close>

fun json_loop :: "nat \<Rightarrow> acl_json \<Rightarrow> byte list \<Rightarrow> (acl_json \<times> byte list) cres" where
  "json_loop fuel j data =
    (if data = [] \<or> js_finish j then Ret (j, data)
     else case fuel of 0 \<Rightarrow> Fault
     | Suc fuel \<Rightarrow> cbind (json_callback (js_status j) j data) (\<lambda>(j, data). json_loop fuel j data))"

declare json_loop.simps [simp del]

definition json_turns :: "acl_json \<Rightarrow> byte list \<Rightarrow> nat" where
  "json_turns j data = 16 * length data + 2 * length (js_nodes j) + 16"

definition acl_json_update :: "acl_json \<Rightarrow> byte list \<Rightarrow> (acl_json \<times> byte list) cres" where
  "acl_json_update j data = json_loop (json_turns j data) j data"

fun acl_json_finish :: "acl_json \<Rightarrow> bool" where
  "acl_json_finish j = js_finish j"

end
