(* ===== verification/Json_Tree.thy ===== *)
theory Json_Tree
  imports Acl_Json
begin

text \<open>
  The tree of nodes that the parser builds, and that every handler keeps it a tree; how far a node is from
  the root; the bound on the turns of the machine.
\<close>

subsection \<open>Trees\<close>

definition brackets_ok :: "jnode \<Rightarrow> bool" where
  "brackets_ok n \<longleftrightarrow> (jn_left_ch n, jn_right_ch n) \<in> {(0, 0), (c_lbrace, c_rbrace), (c_lbrack, c_rbrack)}
     \<and> jn_quote n \<in> {0, c_quot, c_apos}"

definition node_ok :: "jnode list \<Rightarrow> nat \<Rightarrow> jnode \<Rightarrow> bool" where
  "node_ok ns i n \<longleftrightarrow> brackets_ok n
     \<and> (case jn_parent n of None \<Rightarrow> i = 0 | Some p \<Rightarrow> p < i \<and> i \<in> set (jn_children (ns ! p)))
     \<and> distinct (jn_children n) \<and> (\<forall>c \<in> set (jn_children n). c < length ns \<and> jn_parent (ns ! c) = Some i)
     \<and> set_option (jn_tag_node n) \<subseteq> set (jn_children n)"

definition tree_ok :: "jnode list \<Rightarrow> bool" where
  "tree_ok ns \<longleftrightarrow> ns \<noteq> [] \<and> jn_parent (ns ! 0) = None \<and> (\<forall>i < length ns. node_ok ns i (ns ! i))"

lemma tree_ok_parent:
  assumes "tree_ok ns" "i < length ns" "i \<noteq> 0"
  obtains p where "jn_parent (ns ! i) = Some p" "p < i" "i \<in> set (jn_children (ns ! p))"
  using assms by (cases "jn_parent (ns ! i)") (auto simp: tree_ok_def node_ok_def)

lemma tree_ok_child: "tree_ok ns \<Longrightarrow> i < length ns \<Longrightarrow> c \<in> set (jn_children (ns ! i)) \<Longrightarrow> c < length ns \<and> jn_parent (ns ! c) = Some i \<and> i < c"
proof -
  assume a: "tree_ok ns" "i < length ns" "c \<in> set (jn_children (ns ! i))"
  then have c: "c < length ns" "jn_parent (ns ! c) = Some i" by (auto simp: tree_ok_def node_ok_def)
  then have "node_ok ns c (ns ! c)" using a(1) by (simp add: tree_ok_def)
  then show ?thesis using c by (simp add: node_ok_def)
qed

text \<open>Changing a node but not its links keeps the tree.\<close>

lemma tree_ok_upd:
  assumes "tree_ok ns" "i < length ns" "jn_parent n = jn_parent (ns ! i)" "jn_children n = jn_children (ns ! i)" "brackets_ok n"
    "set_option (jn_tag_node n) \<subseteq> set (jn_children n)"
  shows "tree_ok (ns[i := n])"
proof -
  have links: "jn_parent (ns[i := n] ! k) = jn_parent (ns ! k)" "jn_children (ns[i := n] ! k) = jn_children (ns ! k)" for k
    using assms(2-4) by (cases "k = i"; simp add: nth_list_update)+
  have "node_ok (ns[i := n]) k (ns[i := n] ! k)" if "k < length ns" for k
  proof (cases "k = i")
    case True
    have "node_ok ns i (ns ! i)" using assms(1,2) by (simp add: tree_ok_def)
    then show ?thesis using True assms(2-6) by (simp add: node_ok_def links split: option.splits)
  next
    case False
    have "node_ok ns k (ns ! k)" using assms(1) that by (simp add: tree_ok_def)
    then show ?thesis using False by (simp add: node_ok_def links split: option.splits)
  qed
  then show ?thesis using assms(1) links(1) [of 0] by (simp add: tree_ok_def)
qed

text \<open>A new node as the last child of another.\<close>

lemma tree_ok_child_new:
  assumes t: "tree_ok ns" "i < length ns" and n: "jn_parent n = Some i" "jn_children n = []" "brackets_ok n" "jn_tag_node n = None"
  shows "tree_ok (ns[i := (ns ! i)\<lparr>jn_children := jn_children (ns ! i) @ [length ns]\<rparr>] @ [n])" (is "tree_ok ?ns")
proof -
  let ?c = "jn_children (ns ! i)" and ?l = "length ns"
  have nth: "?ns ! k = (if k = ?l then n else if k = i then (ns ! i)\<lparr>jn_children := ?c @ [?l]\<rparr> else ns ! k)" if "k \<le> ?l" for k
    using that t(2) by (auto simp: nth_append nth_list_update)
  have "node_ok ?ns k (?ns ! k)" if k: "k < ?l" for k
  proof -
    have o: "node_ok ns k (ns ! k)" using t(1) k by (simp add: tree_ok_def)
    have "case jn_parent (ns ! k) of None \<Rightarrow> k = 0 | Some p \<Rightarrow> p < k \<and> k \<in> set (jn_children (?ns ! p))"
      using o k nth t(2) by (auto simp: node_ok_def split: option.splits)
    moreover have "jn_parent (?ns ! c) = Some k \<and> c < length ?ns" if "c \<in> set (jn_children (ns ! k))" for c
      using tree_ok_child [OF t(1) k that] nth [of c] by auto
    moreover have "?l \<notin> set ?c" using tree_ok_child [OF t] by blast
    ultimately show ?thesis
      using o k nth [of k] nth [of ?l] n(1) by (auto simp: node_ok_def brackets_ok_def)
  qed
  moreover have "node_ok ?ns ?l (?ns ! ?l)" using n t(2) nth [of ?l] nth [of i] by (simp add: node_ok_def)
  moreover have "jn_parent (?ns ! 0) = None" using t nth [of 0] by (simp add: tree_ok_def)
  ultimately show ?thesis by (auto simp: tree_ok_def less_Suc_eq)
qed

subsection \<open>Depth\<close>

function jdep :: "jnode list \<Rightarrow> nat \<Rightarrow> nat" where
  "jdep ns i = (case jn_parent (ns ! i) of None \<Rightarrow> 0 | Some p \<Rightarrow> if p < i then Suc (jdep ns p) else 0)"
  by auto

termination by (relation "measure snd") auto

declare jdep.simps [simp del]

lemma jdep_le: "jdep ns i \<le> i"
proof (induction i rule: less_induct)
  case (less i)
  show ?case
  proof (cases "\<exists>p. jn_parent (ns ! i) = Some p \<and> p < i")
    case True
    then obtain p where "jn_parent (ns ! i) = Some p" "p < i" by blast
    then show ?thesis using less.IH [of p] by (subst jdep.simps) simp
  next
    case False
    then show ?thesis by (subst jdep.simps) (auto split: option.split)
  qed
qed

lemma jdep_cong:
  assumes "\<And>k. k \<le> i \<Longrightarrow> jn_parent (ns' ! k) = jn_parent (ns ! k)"
  shows "jdep ns' i = jdep ns i"
  using assms
proof (induction i rule: less_induct)
  case (less i)
  have "jdep ns' p = jdep ns p" if "p < i" for p using less.IH [OF that] less.prems that by simp
  moreover have "jn_parent (ns' ! i) = jn_parent (ns ! i)" using less.prems by simp
  ultimately show ?case unfolding jdep.simps [of ns' i] jdep.simps [of ns i] by (simp split: option.split)
qed

lemma jdep_upd [simp]: "jn_parent n = jn_parent (ns ! i) \<Longrightarrow> jdep (ns[i := n]) k = jdep ns k"
  by (rule jdep_cong) (metis list_update_beyond nth_list_update not_le_imp_less)

lemma jdep_append: "k < length ns \<Longrightarrow> jdep (ns @ ms) k = jdep ns k"
  by (rule jdep_cong) (simp add: nth_append)

lemma jdep_parent: "jn_parent (ns ! i) = Some p \<Longrightarrow> p < i \<Longrightarrow> jdep ns i = Suc (jdep ns p)"
  by (subst jdep.simps) simp

subsection \<open>The invariant and the turns that are left\<close>

definition below_root :: "json_status \<Rightarrow> bool" where
  "below_root st \<longleftrightarrow> st \<in> {JS_PAIR, JS_TAG, JS_COLON, JS_VALUE, JS_STRING, JS_STREND}"

definition json_ok :: "acl_json \<Rightarrow> bool" where
  "json_ok j \<longleftrightarrow> tree_ok (js_nodes j) \<and> js_root j = 0 \<and> js_curr j < length (js_nodes j) \<and> js_node_cnt j = int (length (js_nodes j))
     \<and> (below_root (js_status j) \<longrightarrow> js_curr j \<noteq> 0)"

lemma json_alloc_ok: "json_ok acl_json_alloc"
  by (simp add: json_ok_def acl_json_alloc_def acl_json_node_alloc_def tree_ok_def node_ok_def brackets_ok_def jnode0_def below_root_def)

definition comma_next :: "byte list \<Rightarrow> bool" where
  "comma_next data \<longleftrightarrow> (case skip_space data of [] \<Rightarrow> False | c # _ \<Rightarrow> c = c_comma \<or> c = c_semi)"

fun json_rank :: "json_status \<Rightarrow> byte list \<Rightarrow> nat" where
  "json_rank JS_OBJ d = 8"
| "json_rank JS_MEMBER d = 5"
| "json_rank JS_ARRAY d = 9"
| "json_rank JS_ELEMENT d = 6"
| "json_rank JS_PAIR d = 2"
| "json_rank JS_NEXT d = (if comma_next d then 0 else 7)"
| "json_rank JS_TAG d = 1"
| "json_rank JS_VALUE d = 3"
| "json_rank JS_STRING d = 2"
| "json_rank JS_STREND d = 1"
| "json_rank _ d = 0"

definition turns_left :: "acl_json \<Rightarrow> byte list \<Rightarrow> nat" where
  "turns_left j d = 16 * length d + 2 * jdep (js_nodes j) (js_curr j) + json_rank (js_status j) d"

lemma json_rank_le: "json_rank st d \<le> 9"
  by (cases st) auto

lemma turns_left_le: "json_ok j \<Longrightarrow> turns_left j d \<le> json_turns j d"
  using jdep_le [of "js_nodes j" "js_curr j"] json_rank_le [of "js_status j" d] by (simp add: turns_left_def json_turns_def json_ok_def)

text \<open>What a turn of the machine does: it keeps the invariant, and it gets nearer to the end.\<close>

definition turn_ok :: "acl_json \<Rightarrow> byte list \<Rightarrow> (acl_json \<times> byte list) cres \<Rightarrow> bool" where
  "turn_ok j d r \<longleftrightarrow> (case r of Fault \<Rightarrow> False
     | Ret (j', d') \<Rightarrow> json_ok j' \<and> js_flag j' = js_flag j \<and> (js_finish j' \<or> turns_left j' d' < turns_left j d))"

lemma length_skip_space: "length (skip_space d) \<le> length d"
  by (simp add: skip_space_def length_dropWhile_le)

lemma skip_space_Cons: "skip_space d = c # rest \<Longrightarrow> length rest < length d"
  using length_skip_space [of d] by simp

lemma skip_space_idem [simp]: "skip_space (skip_space d) = skip_space d"
  by (simp add: skip_space_def)

lemma skip_space_same: "skip_space d = c # rest \<Longrightarrow> skip_space (c # rest) = c # rest"
  using skip_space_idem [of d] by simp

lemma turn_nil: "json_ok j \<Longrightarrow> d \<noteq> [] \<Longrightarrow> turn_ok j d (Ret (j, []))"
  using json_rank_le [of "js_status j" "[]"] by (cases d) (simp_all add: turn_ok_def turns_left_def)

end
