(* ===== verification/Json_Build.thy ===== *)
theory Json_Build
  imports Json_Tree
begin

text \<open>
  Building text from a tree of nodes, \<open>acl_json_build\<close> of \<open>lib_acl/src/json/acl_json_util.c\<close>, with the
  iterator over all nodes of \<open>acl_json.c\<close>.
\<close>

subsection \<open>Siblings and the iterator\<close>

fun sib_after :: "nat list \<Rightarrow> nat \<Rightarrow> nat option" where
  "sib_after [] x = None"
| "sib_after (y # ys) x = (if y = x then (case ys of [] \<Rightarrow> None | z # _ \<Rightarrow> Some z) else sib_after ys x)"

definition sib_before :: "nat list \<Rightarrow> nat \<Rightarrow> nat option" where
  "sib_before ys x = sib_after (rev ys) x"

text \<open>A node without parent is in no ring.\<close>

definition acl_json_node_next :: "acl_json \<Rightarrow> nat \<Rightarrow> nat option cres" where
  "acl_json_node_next j i = cbind (acl_json_node_parent j i) (\<lambda>p. case p of None \<Rightarrow> Ret None
     | Some p \<Rightarrow> map_cres (\<lambda>n. sib_after (jn_children n) i) (jn_get j p))"

definition acl_json_node_prev :: "acl_json \<Rightarrow> nat \<Rightarrow> nat option cres" where
  "acl_json_node_prev j i = cbind (acl_json_node_parent j i) (\<lambda>p. case p of None \<Rightarrow> Ret None
     | Some p \<Rightarrow> map_cres (\<lambda>n. sib_before (jn_children n) i) (jn_get j p))"

definition first_child :: "jnode \<Rightarrow> nat option" where
  "first_child n = (case jn_children n of [] \<Rightarrow> None | c # _ \<Rightarrow> Some c)"

definition json_iter_head :: "acl_json \<Rightarrow> nat option cres" where
  "json_iter_head j = map_cres first_child (jn_get j (js_root j))"

fun json_iter_climb :: "nat \<Rightarrow> acl_json \<Rightarrow> nat \<Rightarrow> nat option cres" where
  "json_iter_climb 0 j p = Fault"
| "json_iter_climb (Suc fuel) j p =
    (if p = js_root j then Ret None
     else cbind (parent_get j p) (\<lambda>(q, n). case sib_after (jn_children n) p of
         Some m \<Rightarrow> Ret (Some m)
       | None \<Rightarrow> if q = js_root j then Ret None else json_iter_climb fuel j q))"

definition json_iter_next :: "acl_json \<Rightarrow> nat \<Rightarrow> nat option cres" where
  "json_iter_next j i = cbind (jn_get j i) (\<lambda>n. case first_child n of
       Some c \<Rightarrow> Ret (Some c)
     | None \<Rightarrow> cbind (parent_get j i) (\<lambda>(p, pn). case sib_after (jn_children pn) i of
         Some m \<Rightarrow> Ret (Some m)
       | None \<Rightarrow> json_iter_climb (length (js_nodes j)) j p))"

subsection \<open>Text\<close>

definition json_escape :: "byte \<Rightarrow> byte list" where
  "json_escape c = (if c = c_quot \<or> c = c_bslash then [c_bslash, c] else if c = 8 then [c_bslash, ch CHR ''b'']
     else if c = 12 then [c_bslash, ch CHR ''f''] else if c = 10 then [c_bslash, ch CHR ''n'']
     else if c = 13 then [c_bslash, ch CHR ''r''] else if c = 9 then [c_bslash, ch CHR ''t''] else [c])"

definition json_escape_append :: "byte list \<Rightarrow> byte list \<Rightarrow> byte list" where
  "json_escape_append buf src = buf @ [c_quot] @ concat (map json_escape src) @ [c_quot]"

definition add_nonzero :: "byte list \<Rightarrow> byte \<Rightarrow> byte list" where
  "add_nonzero buf c = (if c \<noteq> 0 then buf @ [c] else buf)"

definition add_colon :: "acl_json \<Rightarrow> byte list \<Rightarrow> byte list" where
  "add_colon j buf = (if add_space_flag j then buf @ [c_colon, 32] else buf @ [c_colon])"

text \<open>The part of the loop that writes what comes before the children of a node.\<close>

definition build_node :: "acl_json \<Rightarrow> nat \<Rightarrow> byte list \<Rightarrow> byte list cres" where
  "build_node j i buf = cbind (jn_get j i) (\<lambda>node.
     cbind (acl_json_node_prev j i) (\<lambda>prev.
     let buf = (if prev \<noteq> None then buf @ (if add_space_flag j then [c_comma, 32] else [c_comma]) else buf);
         ty = jn_type node AND NOT JT_LEAF in
     if jn_tag_node node \<noteq> None then
       Ret (add_nonzero (if jn_ltag node \<noteq> [] then add_colon j (json_escape_append buf (jn_ltag node)) else buf) (jn_left_ch node))
     else if jn_ltag node \<noteq> [] then
       let buf = add_colon j (json_escape_append buf (jn_ltag node)) in
       Ret (if ty = JT_NULL then buf @ bytes_of ''null''
            else if ty = JT_BOOL \<or> ty = JT_NUMBER \<or> ty = JT_DOUBLE then buf @ jn_text node
            else json_escape_append buf (jn_text node))
     else cbind (case jn_parent node of None \<Rightarrow> Ret False | Some p \<Rightarrow> map_cres (\<lambda>n. jn_type n = JT_ARRAY) (jn_get j p)) (\<lambda>arr.
       if arr \<and> jn_type node AND (JT_A_NULL OR JT_A_BOOL OR JT_A_NUMBER OR JT_A_DOUBLE OR JT_A_STRING) \<noteq> 0 then
         Ret (if ty = JT_A_NULL then buf @ bytes_of ''null''
              else if ty = JT_A_BOOL \<or> ty = JT_A_NUMBER \<or> ty = JT_A_DOUBLE then buf @ jn_text node
              else if ty = JT_A_STRING then json_escape_append buf (jn_text node)
              else buf)
       else Ret (add_nonzero buf (jn_left_ch node)))))"

text \<open>The end of a leaf: its own bracket, and those of the parents that it is the last of.\<close>

fun build_climb :: "nat \<Rightarrow> acl_json \<Rightarrow> nat \<Rightarrow> byte list \<Rightarrow> byte list cres" where
  "build_climb 0 j i buf = Fault"
| "build_climb (Suc fuel) j i buf = cbind (acl_json_node_next j i) (\<lambda>next.
     if next \<noteq> None then Ret buf
     else cbind (parent_get j i) (\<lambda>(p, pn). if p = js_root j then Ret buf
       else build_climb fuel j p (add_nonzero buf (jn_right_ch pn))))"

definition build_end :: "acl_json \<Rightarrow> nat \<Rightarrow> byte list \<Rightarrow> byte list cres" where
  "build_end j i buf = cbind (jn_get j i) (\<lambda>node.
     if jn_children node \<noteq> [] then Ret buf
     else cbind (acl_json_node_next j i) (\<lambda>next.
       let buf = add_nonzero buf (jn_right_ch node) in
       if next \<noteq> None then Ret buf else build_climb (length (js_nodes j)) j i buf))"

fun build_loop :: "nat \<Rightarrow> acl_json \<Rightarrow> nat option \<Rightarrow> byte list \<Rightarrow> byte list cres" where
  "build_loop fuel j None buf = Ret buf"
| "build_loop 0 j (Some i) buf = Fault"
| "build_loop (Suc fuel) j (Some i) buf = cbind (build_node j i buf) (\<lambda>buf. cbind (build_end j i buf) (\<lambda>buf.
     cbind (json_iter_next j i) (\<lambda>it. build_loop fuel j it buf)))"

text \<open>Brackets for a root that has none.\<close>

definition root_brackets :: "acl_json \<Rightarrow> acl_json cres" where
  "root_brackets j = cbind (jn_get j (js_root j)) (\<lambda>root.
     let put = jn_upd j (js_root j) (\<lambda>n. n\<lparr>jn_left_ch := c_lbrace, jn_right_ch := c_rbrace\<rparr>) in
     case jn_children root of
       [] \<Rightarrow> if jn_left_ch root = 0 then put else Ret j
     | [c] \<Rightarrow> cbind (jn_get j c) (\<lambda>node. if jn_left_ch node = 0 \<and> jn_left_ch root = 0 then put else Ret j)
     | _ \<Rightarrow> if jn_left_ch root = 0 then put else Ret j)"

definition acl_json_build :: "acl_json \<Rightarrow> byte list \<Rightarrow> (acl_json \<times> byte list) cres" where
  "acl_json_build j buf = cbind (root_brackets j) (\<lambda>j. cbind (jn_get j (js_root j)) (\<lambda>root.
     cbind (json_iter_head j) (\<lambda>it.
     map_cres (\<lambda>buf. (j, add_nonzero buf (jn_right_ch root)))
       (build_loop (length (js_nodes j)) j it (add_nonzero buf (jn_left_ch root))))))"

end
