(* ===== verification/Json_Safe.thy ===== *)
theory Json_Safe
  imports Json_Tree
begin

text \<open>Every handler of the machine, on every input: no fault, a tree again, and nearer to the end.\<close>

lemma jn_get_ok [simp]: "i < length (js_nodes j) \<Longrightarrow> jn_get j i = Ret (js_nodes j ! i)"
  by (simp add: jn_get_def)

lemma jn_upd_ok [simp]: "i < length (js_nodes j) \<Longrightarrow> jn_upd j i f = Ret (j\<lparr>js_nodes := (js_nodes j)[i := f (js_nodes j ! i)]\<rparr>)"
  by (simp add: jn_upd_def)

lemma json_okD:
  assumes "json_ok j"
  shows "tree_ok (js_nodes j)" "js_root j = 0" "js_curr j < length (js_nodes j)" "js_node_cnt j = int (length (js_nodes j))"
    "below_root (js_status j) \<Longrightarrow> js_curr j \<noteq> 0" "0 < length (js_nodes j)"
  using assms by (auto simp: json_ok_def tree_ok_def)

lemma parent_get_ok:
  assumes "json_ok j" "js_curr j \<noteq> 0"
  obtains p where "parent_get j (js_curr j) = Ret (p, js_nodes j ! p)" "jn_parent (js_nodes j ! js_curr j) = Some p" "p < js_curr j"
    "jdep (js_nodes j) (js_curr j) = Suc (jdep (js_nodes j) p)"
proof -
  note o = json_okD [OF assms(1)]
  obtain p where p: "jn_parent (js_nodes j ! js_curr j) = Some p" "p < js_curr j"
    by (rule tree_ok_parent [OF o(1,3) assms(2)], rule that)
  then show thesis using o(3) jdep_parent [OF p] by (intro that [of p]) (simp_all add: parent_get_def acl_json_node_parent_def)
qed

text \<open>Changing the current node, and moving to its parent.\<close>

lemma json_ok_upd:
  assumes "json_ok j" "i < length (js_nodes j)" "jn_parent n = jn_parent (js_nodes j ! i)" "jn_children n = jn_children (js_nodes j ! i)"
    "brackets_ok n" "set_option (jn_tag_node n) \<subseteq> set (jn_children n)" "below_root st \<Longrightarrow> js_curr j \<noteq> 0"
  shows "json_ok (j\<lparr>js_nodes := (js_nodes j)[i := n], js_status := st\<rparr>)"
  using assms(1,2,7) tree_ok_upd [OF json_okD(1) [OF assms(1)] assms(2-6)] by (simp add: json_ok_def)

lemma json_ok_status: "json_ok j \<Longrightarrow> (below_root st \<Longrightarrow> js_curr j \<noteq> 0) \<Longrightarrow> json_ok (j\<lparr>js_status := st\<rparr>)"
  by (simp add: json_ok_def)

lemma json_ok_move: "json_ok j \<Longrightarrow> p < length (js_nodes j) \<Longrightarrow> \<not> below_root st \<Longrightarrow> json_ok (j\<lparr>js_curr := p, js_status := st\<rparr>)"
  by (simp add: json_ok_def)

lemma json_ok_finish: "json_ok j \<Longrightarrow> json_ok (j\<lparr>js_finish := True\<rparr>)"
  by (simp add: json_ok_def)

lemma curr_node:
  assumes "json_ok j"
  shows "brackets_ok (js_nodes j ! js_curr j)" "set_option (jn_tag_node (js_nodes j ! js_curr j)) \<subseteq> set (jn_children (js_nodes j ! js_curr j))"
  using json_okD(1,3) [OF assms] by (auto simp: tree_ok_def node_ok_def)

text \<open>A new child of the current node.\<close>

lemma json_new_child_eq:
  assumes "json_ok j" "\<And>n. jn_children (init n) = jn_children n"
  defines "c \<equiv> js_nodes j ! js_curr j"
  defines "d \<equiv> jn_depth c + 1"
  shows "json_new_child j init = Ret (j\<lparr>js_nodes := (js_nodes j)[js_curr j := c\<lparr>jn_children := jn_children c @ [length (js_nodes j)]\<rparr>]
      @ [(init jnode0)\<lparr>jn_depth := d, jn_parent := Some (js_curr j)\<rparr>], js_node_cnt := js_node_cnt j + 1,
      js_depth := max (js_depth j) (uint d)\<rparr>, length (js_nodes j))"
  using json_okD(3) [OF assms(1)]
  by (simp add: json_new_child_def acl_json_node_alloc_def acl_json_node_add_child_def Let_def c_def d_def nth_append list_update_append max_def)

lemma new_child_ok:
  assumes "json_ok j" "\<And>n. jn_children (init n) = jn_children n" "brackets_ok (init jnode0)" "jn_tag_node (init jnode0) = None"
  shows "\<exists>j'. json_new_child j init = Ret (j', length (js_nodes j)) \<and> json_ok (j'\<lparr>js_curr := length (js_nodes j), js_status := st\<rparr>)
    \<and> js_curr j' = js_curr j \<and> json_ok j' \<and> jdep (js_nodes j') (length (js_nodes j)) = Suc (jdep (js_nodes j) (js_curr j))
    \<and> js_finish j' = js_finish j \<and> js_flag j' = js_flag j \<and> last (jn_children (js_nodes j' ! js_curr j)) = length (js_nodes j)
    \<and> jn_children (js_nodes j' ! js_curr j) \<noteq> [] \<and> length (js_nodes j') = Suc (length (js_nodes j))"
proof -
  note o = json_okD [OF assms(1)]
  define c where "c = js_nodes j ! js_curr j"
  define n where "n = (init jnode0)\<lparr>jn_depth := jn_depth c + 1, jn_parent := Some (js_curr j)\<rparr>"
  define ns where "ns = (js_nodes j)[js_curr j := c\<lparr>jn_children := jn_children c @ [length (js_nodes j)]\<rparr>] @ [n]"
  have t: "tree_ok ns"
    unfolding ns_def c_def by (rule tree_ok_child_new) (use o assms in \<open>simp_all add: n_def brackets_ok_def jnode0_def\<close>)
  have len: "length ns = Suc (length (js_nodes j))" by (simp add: ns_def)
  have "jdep ns (js_curr j) = jdep (js_nodes j) (js_curr j)"
    using o(3) by (simp add: ns_def jdep_append c_def)
  moreover have "jn_parent (ns ! length (js_nodes j)) = Some (js_curr j)" by (simp add: ns_def nth_append n_def)
  ultimately have "jdep ns (length (js_nodes j)) = Suc (jdep (js_nodes j) (js_curr j))" using jdep_parent o(3) by metis
  moreover have "jn_children (ns ! js_curr j) = jn_children c @ [length (js_nodes j)]" using o(3) by (simp add: ns_def nth_append)
  moreover note json_new_child_eq [OF assms(1,2), folded c_def, folded n_def, folded ns_def]
  ultimately show ?thesis using t len o by (auto simp: json_ok_def)
qed

lemma json_ok_tag_child:
  assumes "json_ok j" "i = last (jn_children (js_nodes j ! js_curr j))" "jn_children (js_nodes j ! js_curr j) \<noteq> []"
  shows "\<exists>n. json_tag_child j i = Ret (j\<lparr>js_nodes := (js_nodes j)[js_curr j := n]\<rparr>) \<and> json_ok (j\<lparr>js_nodes := (js_nodes j)[js_curr j := n]\<rparr>)
    \<and> jn_parent n = jn_parent (js_nodes j ! js_curr j)"
proof -
  note o = json_okD [OF assms(1)]
  let ?n = "js_nodes j ! js_curr j"
  define n where "n = (if jn_ltag ?n \<noteq> [] then ?n\<lparr>jn_tag_node := Some i\<rparr> else ?n)"
  have "json_ok (j\<lparr>js_nodes := (js_nodes j)[js_curr j := n], js_status := js_status j\<rparr>)"
    by (rule json_ok_upd) (use assms o(3,5) curr_node [OF assms(1)] in \<open>auto simp: n_def brackets_ok_def\<close>)
  then show ?thesis using o(3) by (auto simp: json_tag_child_def n_def intro!: exI [of _ n])
qed

subsection \<open>The handlers\<close>

lemma turn_okI:
  "json_ok j' \<Longrightarrow> js_flag j' = js_flag j \<Longrightarrow> js_finish j' \<or> turns_left j' d' < turns_left j d \<Longrightarrow> turn_ok j d (Ret (j', d'))"
  by (simp add: turn_ok_def)

lemma root_turn:
  assumes "json_ok j" "d \<noteq> []"
  shows "turn_ok j d (json_root j d)"
proof (cases "dropWhile (\<lambda>c. c \<noteq> c_lbrace \<and> c \<noteq> c_lbrack) d")
  case Nil
  then show ?thesis using turn_nil [OF assms] unfolding json_root_def Nil by simp
next
  case (Cons c rest)
  note o = json_okD [OF assms(1)]
  have len: "length rest < length d" using Cons length_dropWhile_le [of "\<lambda>c. c \<noteq> c_lbrace \<and> c \<noteq> c_lbrack" d] by simp
  have t: "turn_ok j d (map_cres (\<lambda>j. (j\<lparr>js_curr := js_root j\<rparr>, rest)) (jn_upd (j\<lparr>js_status := st\<rparr>) 0
      (\<lambda>n. n\<lparr>jn_left_ch := l, jn_right_ch := r, jn_type := t\<rparr>)))"
    if "\<not> below_root st" "(l, r) \<in> {(c_lbrace, c_rbrace), (c_lbrack, c_rbrack)}" for l r t st
  proof -
    let ?n = "(js_nodes j ! 0)\<lparr>jn_left_ch := l, jn_right_ch := r, jn_type := t\<rparr>"
    have n: "node_ok (js_nodes j) 0 (js_nodes j ! 0)" using o by (simp add: tree_ok_def)
    have ok: "json_ok (j\<lparr>js_nodes := (js_nodes j)[0 := ?n], js_status := st\<rparr>)"
      by (rule json_ok_upd) (use assms o n that in \<open>auto simp: brackets_ok_def node_ok_def\<close>)
    have "jdep ((js_nodes j)[0 := ?n]) 0 = 0" using jdep_le [of _ 0] by simp
    then have "turn_ok j d (Ret (j\<lparr>js_status := st, js_nodes := (js_nodes j)[0 := ?n], js_curr := 0\<rparr>, rest))"
      using o(2,6) ok len that(1) json_rank_le [of st rest] by (intro turn_okI) (auto simp: turns_left_def json_ok_def)
    then show ?thesis using o(2,6) by simp
  qed
  show ?thesis using t [of JS_MEMBER c_lbrace c_rbrace JT_OBJ] t [of JS_ELEMENT c_lbrack c_rbrack JT_ARRAY] o(2)
    unfolding json_root_def Cons by (simp add: below_root_def)
qed

lemma obj_turn:
  assumes "json_ok j" "d \<noteq> []" "js_status j = JS_OBJ"
  shows "turn_ok j d (json_obj j d)"
proof (cases "skip_space d = []")
  case True
  then show ?thesis using turn_nil [OF assms(1,2)] by (simp add: json_obj_def)
next
  case False
  let ?i = "length (js_nodes j)"
  obtain j' where j': "json_new_child j (\<lambda>n. n\<lparr>jn_type := JT_OBJ, jn_left_ch := c_lbrace, jn_right_ch := c_rbrace\<rparr>) = Ret (j', ?i)"
    "json_ok j'" "js_curr j' = js_curr j" "jdep (js_nodes j') ?i = Suc (jdep (js_nodes j) (js_curr j))" "js_flag j' = js_flag j"
    "last (jn_children (js_nodes j' ! js_curr j)) = ?i" "jn_children (js_nodes j' ! js_curr j) \<noteq> []" "length (js_nodes j') = Suc ?i"
    using new_child_ok [OF assms(1), of "\<lambda>n. n\<lparr>jn_type := JT_OBJ, jn_left_ch := c_lbrace, jn_right_ch := c_rbrace\<rparr>" JS_MEMBER]
    by (auto simp: brackets_ok_def jnode0_def)
  obtain n where n: "json_tag_child j' ?i = Ret (j'\<lparr>js_nodes := (js_nodes j')[js_curr j' := n]\<rparr>)"
    "json_ok (j'\<lparr>js_nodes := (js_nodes j')[js_curr j' := n]\<rparr>)" "jn_parent n = jn_parent (js_nodes j' ! js_curr j')"
    using json_ok_tag_child [OF j'(2), of ?i] j'(3,6,7) by auto
  then show ?thesis using False j' length_skip_space [of d] assms(3)
    by (auto simp: json_obj_def Let_def turns_left_def json_ok_def below_root_def intro!: turn_okI)
qed

lemma member_turn:
  assumes "json_ok j" "js_status j = JS_MEMBER"
  shows "turn_ok j d (json_member j d)"
  using new_child_ok [OF assms(1), of "\<lambda>n. n\<lparr>jn_type := JT_MEMBER\<rparr>" JS_PAIR] assms(2)
  by (auto simp: json_member_def brackets_ok_def jnode0_def turns_left_def intro!: turn_okI)

lemma array_turn:
  assumes "json_ok j" "d \<noteq> []" "js_status j = JS_ARRAY"
  shows "turn_ok j d (json_array j d)"
proof (cases "skip_space d")
  case Nil
  then show ?thesis using turn_nil [OF assms(1,2)] by (simp add: json_array_def)
next
  case (Cons c rest)
  let ?i = "length (js_nodes j)"
  obtain j' where j': "json_new_child j (\<lambda>n. n\<lparr>jn_left_ch := c_lbrack, jn_right_ch := c_rbrack, jn_type := JT_ARRAY\<rparr>) = Ret (j', ?i)"
    "json_ok j'" "js_curr j' = js_curr j" "jdep (js_nodes j') ?i = Suc (jdep (js_nodes j) (js_curr j))" "js_flag j' = js_flag j"
    "last (jn_children (js_nodes j' ! js_curr j)) = ?i" "jn_children (js_nodes j' ! js_curr j) \<noteq> []" "length (js_nodes j') = Suc ?i"
    using new_child_ok [OF assms(1), of "\<lambda>n. n\<lparr>jn_left_ch := c_lbrack, jn_right_ch := c_rbrack, jn_type := JT_ARRAY\<rparr>" JS_MEMBER]
    by (auto simp: brackets_ok_def jnode0_def)
  obtain n where n: "json_tag_child j' ?i = Ret (j'\<lparr>js_nodes := (js_nodes j')[js_curr j' := n]\<rparr>)"
    "json_ok (j'\<lparr>js_nodes := (js_nodes j')[js_curr j' := n]\<rparr>)" "jn_parent n = jn_parent (js_nodes j' ! js_curr j')"
    using json_ok_tag_child [OF j'(2), of ?i] j'(3,6,7) by auto
  let ?k = "j'\<lparr>js_nodes := (js_nodes j')[js_curr j' := n], js_curr := ?i\<rparr>"
  have len: "length rest < length d" "length (c # rest) \<le> length d" using Cons length_skip_space [of d] by auto
  have k: "json_ok (?k\<lparr>js_status := st\<rparr>)" if "\<not> below_root st" for st
    using n(2) j'(8) that by (simp add: json_ok_def)
  have d: "jdep (js_nodes ?k) ?i = Suc (jdep (js_nodes j) (js_curr j))" using j'(4) n(3) by simp
  have t1: "turn_ok j d (Ret (?k\<lparr>js_status := JS_NEXT\<rparr>, rest))"
    using k [of JS_NEXT] d j'(5) len assms(3) by (intro turn_okI) (auto simp: turns_left_def below_root_def)
  have t2: "turn_ok j d (Ret (?k\<lparr>js_status := JS_ELEMENT\<rparr>, c # rest))"
    using k [of JS_ELEMENT] d j'(5) len assms(3) by (intro turn_okI) (auto simp: turns_left_def below_root_def)
  show ?thesis using Cons j'(1) n(1) t1 t2 by (simp add: json_array_def Let_def)
qed

lemma element_turn:
  assumes "json_ok j" "d \<noteq> []" "js_status j = JS_ELEMENT"
  shows "turn_ok j d (json_element j d)"
proof (cases "skip_space d")
  case Nil
  then show ?thesis using turn_nil [OF assms(1,2)] by (simp add: json_element_def)
next
  case (Cons c rest)
  note len = length_skip_space [of d]
  show ?thesis
  proof (cases "c = c_lbrace \<or> c = c_lbrack")
    case True
    then show ?thesis using Cons len assms(1,3)
      by (auto simp: json_element_def turns_left_def below_root_def intro!: turn_okI json_ok_status)
  next
    case False
    then show ?thesis
      using new_child_ok [OF assms(1), of "\<lambda>n. n\<lparr>jn_type := JT_ELEMENT\<rparr>" JS_VALUE] assms(3) Cons len
      by (auto simp: json_element_def brackets_ok_def jnode0_def turns_left_def intro!: turn_okI)
  qed
qed

lemma pair_turn:
  assumes "json_ok j" "d \<noteq> []" "js_status j = JS_PAIR"
  shows "turn_ok j d (json_pair j d)"
proof (cases "skip_space d")
  case Nil
  then show ?thesis using turn_nil [OF assms(1,2)] by (simp add: json_pair_def)
next
  case (Cons c rest)
  note o = json_okD [OF assms(1)]
  have c0: "js_curr j \<noteq> 0" using o(5) assms(3) by (simp add: below_root_def)
  obtain p where p: "parent_get j (js_curr j) = Ret (p, js_nodes j ! p)" "p < js_curr j"
    "jdep (js_nodes j) (js_curr j) = Suc (jdep (js_nodes j) p)" by (rule parent_get_ok [OF assms(1) c0], rule that)
  note len = length_skip_space [of d]
  let ?n = "js_nodes j ! js_curr j" and ?q = "is_quote c \<and> jn_quote (js_nodes j ! js_curr j) = 0"
  let ?n' = "(if ?q then ?n\<lparr>jn_quote := c\<rparr> else ?n)\<lparr>jn_type := JT_PAIR\<rparr>"
  have tag: "json_ok (j\<lparr>js_nodes := (js_nodes j)[js_curr j := ?n'], js_status := JS_TAG\<rparr>)"
    by (rule json_ok_upd) (use assms(1) o(3) c0 curr_node [OF assms(1)] in \<open>auto simp: brackets_ok_def is_quote_def\<close>)
  have t: "turn_ok j d (Ret (j\<lparr>js_nodes := (js_nodes j)[js_curr j := ?n'], js_status := JS_TAG\<rparr>, if ?q then rest else c # rest))"
    using tag Cons len assms(3) by (intro turn_okI) (auto simp: turns_left_def)
  have up: "turn_ok j d (Ret (if p = js_root j then j\<lparr>js_finish := True\<rparr> else j\<lparr>js_curr := p, js_status := JS_NEXT\<rparr>, rest))"
    using Cons len assms p o(3) json_ok_finish [OF assms(1)] json_ok_move [OF assms(1), of p JS_NEXT]
    by (intro turn_okI) (auto simp: turns_left_def below_root_def)
  have st: "turn_ok j d (Ret (j\<lparr>js_status := st\<rparr>, rest))" if "st = JS_OBJ \<or> st = JS_ARRAY" for st
    using Cons len assms that by (intro turn_okI json_ok_status) (auto simp: turns_left_def below_root_def)
  show ?thesis using Cons p(1) o(3) t up st by (simp add: json_pair_def Let_def del: jdep.simps)
qed

text \<open>The collecting loops change neither the quote nor what is behind the end they find.\<close>

lemma scan_step_quote: "scan_step stop part s c = Inl s' \<Longrightarrow> sc_quote s' = sc_quote s"
  by (auto simp: scan_step_def scan_word_def scan_add_def Let_def split: if_splits)

lemma scan_step_end: "scan_step stop part s c = Inr e \<Longrightarrow> (e = EndQuote \<and> sc_quote s = c) \<or> (e = EndPlain \<and> stop c)"
  by (simp add: scan_step_def split: if_splits)

lemma scan_ends: "json_scan stop part s d = (s', e, d') \<Longrightarrow>
   (e = EndData \<longrightarrow> d' = []) \<and> (e = EndPlain \<longrightarrow> d' \<noteq> [] \<and> stop (hd d')) \<and> (e = EndQuote \<longrightarrow> length d' < length d)
   \<and> sc_quote s' = sc_quote s \<and> length d' \<le> length d"
proof (induction d arbitrary: s)
  case (Cons c d)
  show ?case
  proof (cases "scan_step stop part s c")
    case (Inl t)
    then show ?thesis using Cons.IH [of t] Cons.prems scan_step_quote [OF Inl] by auto
  next
    case (Inr x)
    then show ?thesis using Cons.prems scan_step_end [OF Inr] by auto
  qed
qed simp

lemma tag_turn:
  assumes "json_ok j" "d \<noteq> []" "js_status j = JS_TAG"
  shows "turn_ok j d (json_tag j d)"
proof -
  note o = json_okD [OF assms(1)]
  have c0: "js_curr j \<noteq> 0" using o(5) assms(3) by (simp add: below_root_def)
  obtain p where p: "parent_get j (js_curr j) = Ret (p, js_nodes j ! p)" by (rule parent_get_ok [OF assms(1) c0], rule that)
  let ?n = "js_nodes j ! js_curr j"
  obtain s e d' where s: "json_scan tag_stop (part_word_flag j) \<lparr>sc_quote = jn_quote ?n, sc_backslash = jn_backslash ?n,
      sc_part_word = jn_part_word ?n, sc_buf = jn_ltag ?n\<rparr> d = (s, e, d')" by (metis prod_cases3)
  have e: "e = EndData \<longrightarrow> d' = []" "e = EndQuote \<longrightarrow> length d' < length d" "length d' \<le> length d" "sc_quote s = jn_quote ?n"
    using scan_ends [OF s] by auto
  have ok: "json_ok (j\<lparr>js_nodes := (js_nodes j)[js_curr j := ?n\<lparr>jn_ltag := l, jn_backslash := b, jn_quote := q, jn_part_word := w\<rparr>], js_status := st\<rparr>)"
    if "q = jn_quote ?n \<or> q = 0" for l b q w st
    by (rule json_ok_upd) (use assms(1) o(3) c0 that curr_node [OF assms(1)] in \<open>auto simp: brackets_ok_def\<close>)
  have t: "turn_ok j d (Ret (j\<lparr>js_nodes := (js_nodes j)[js_curr j := ?n\<lparr>jn_ltag := l, jn_backslash := b, jn_quote := q, jn_part_word := w\<rparr>], js_status := st\<rparr>, d'))"
    if "q = jn_quote ?n \<or> q = 0" "length d' < length d \<or> st = JS_COLON" for l b q w st
    using ok [OF that(1)] that(2) e(3) assms(3) json_rank_le [of st d'] by (intro turn_okI) (auto simp: turns_left_def)
  have same: "j\<lparr>js_nodes := ns, js_status := JS_TAG\<rparr> = j\<lparr>js_nodes := ns\<rparr>" for ns using assms(3) by simp
  show ?thesis
  proof (cases e)
    case EndQuote
    then show ?thesis using s p o(3) e t [of 0] by (simp add: json_tag_def Let_def)
  next
    case EndPlain
    then show ?thesis using s o(3) e t [of "jn_quote ?n"] by (simp add: json_tag_def Let_def)
  next
    case EndData
    then have "length d' < length d" using e assms(2) by simp
    then show ?thesis using EndData s o(3) e t [of "jn_quote ?n" JS_TAG] by (simp add: json_tag_def Let_def same)
  qed
qed

lemma colon_turn:
  assumes "json_ok j" "d \<noteq> []" "js_status j = JS_COLON"
  shows "turn_ok j d (json_colon j d)"
proof (cases "skip_space d")
  case Nil
  then show ?thesis using turn_nil [OF assms(1,2)] by (simp add: json_colon_def)
next
  case (Cons c rest)
  then show ?thesis using length_skip_space [of d] assms json_okD(5) [OF assms(1)]
    by (auto simp: json_colon_def turns_left_def below_root_def intro!: turn_okI json_ok_status)
qed

lemma value_turn:
  assumes "json_ok j" "d \<noteq> []" "js_status j = JS_VALUE"
  shows "turn_ok j d (json_value j d)"
proof (cases "skip_space d")
  case Nil
  then show ?thesis using turn_nil [OF assms(1,2)] by (simp add: json_value_def)
next
  case (Cons c rest)
  note o = json_okD [OF assms(1)]
  have c0: "js_curr j \<noteq> 0" using o(5) assms(3) by (simp add: below_root_def)
  note len = length_skip_space [of d]
  let ?n = "js_nodes j ! js_curr j"
  have ok: "json_ok (j\<lparr>js_nodes := (js_nodes j)[js_curr j := (case q of None \<Rightarrow> ?n | Some q \<Rightarrow> ?n\<lparr>jn_quote := q\<rparr>)\<lparr>jn_type := JT_LEAF\<rparr>], js_status := st\<rparr>)"
    if "\<forall>x \<in> set_option q. is_quote x" for q st
    by (rule json_ok_upd) (use assms(1) o(3) c0 that curr_node [OF assms(1)] in \<open>auto simp: brackets_ok_def is_quote_def split: option.splits\<close>)
  have t: "turn_ok j d (Ret (j\<lparr>js_nodes := (js_nodes j)[js_curr j := (case q of None \<Rightarrow> ?n | Some q \<Rightarrow> ?n\<lparr>jn_quote := q\<rparr>)\<lparr>jn_type := JT_LEAF\<rparr>], js_status := st\<rparr>, d'))"
    if "\<forall>x \<in> set_option q. is_quote x" "length d' < length d \<or> st = JS_STRING \<and> length d' \<le> length d" for q st d'
    using ok [OF that(1), of st] that(2) assms(3) json_rank_le [of st d'] by (intro turn_okI) (auto simp: turns_left_def split: option.split)
  have l: "length rest < length d" "length (c # rest) \<le> length d" using Cons len by auto
  show ?thesis using Cons o(3) l t [of None] t [of "Some c"] by (simp add: json_value_def Let_def)
qed

lemma string_turn:
  assumes "json_ok j" "d \<noteq> []" "js_status j = JS_STRING"
  shows "turn_ok j d (json_string j d)"
proof -
  note o = json_okD [OF assms(1)]
  have c0: "js_curr j \<noteq> 0" using o(5) assms(3) by (simp add: below_root_def)
  let ?n = "js_nodes j ! js_curr j"
  obtain s e d' where s: "json_scan text_stop (part_word_flag j) \<lparr>sc_quote = jn_quote ?n, sc_backslash = jn_backslash ?n,
      sc_part_word = jn_part_word ?n, sc_buf = jn_text ?n\<rparr> d = (s, e, d')" by (metis prod_cases3)
  have e: "e = EndData \<longrightarrow> d' = []" "length d' \<le> length d" using scan_ends [OF s] by auto
  have ok: "json_ok (j\<lparr>js_nodes := (js_nodes j)[js_curr j := ?n\<lparr>jn_text := l, jn_backslash := b, jn_part_word := w\<rparr>], js_status := st\<rparr>)" for l b w st
    by (rule json_ok_upd) (use assms(1) o(3) c0 curr_node [OF assms(1)] in \<open>auto simp: brackets_ok_def\<close>)
  have t: "turn_ok j d (Ret (j\<lparr>js_nodes := (js_nodes j)[js_curr j := ?n\<lparr>jn_text := l, jn_backslash := b, jn_part_word := w\<rparr>], js_status := st\<rparr>, d'))"
    if "length d' < length d \<or> st = JS_STREND" for l b w st
    using ok that e assms(3) json_rank_le [of st d'] by (intro turn_okI) (auto simp: turns_left_def)
  have same: "j\<lparr>js_nodes := ns, js_status := JS_STRING\<rparr> = j\<lparr>js_nodes := ns\<rparr>" for ns using assms(3) by simp
  show ?thesis
  proof (cases "e = EndData")
    case True
    then have "length d' < length d" using e assms(2) by simp
    then show ?thesis using True s o(3) t [of JS_STRING] by (simp add: json_string_def Let_def same)
  next
    case False
    then show ?thesis using s o(3) t by (simp add: json_string_def Let_def)
  qed
qed

lemma strend_turn:
  assumes "json_ok j" "d \<noteq> []" "js_status j = JS_STREND"
  shows "turn_ok j d (json_strend j d)"
proof (cases "skip_space d")
  case Nil
  then show ?thesis using turn_nil [OF assms(1,2)] by (simp add: json_strend_def)
next
  case (Cons c rest)
  note o = json_okD [OF assms(1)]
  have c0: "js_curr j \<noteq> 0" using o(5) assms(3) by (simp add: below_root_def)
  obtain p where p: "jn_parent (js_nodes j ! js_curr j) = Some p" "p < js_curr j"
    "jdep (js_nodes j) (js_curr j) = Suc (jdep (js_nodes j) p)" by (rule parent_get_ok [OF assms(1) c0], rule that)
  let ?n = "js_nodes j ! js_curr j"
  define n where "n = ?n\<lparr>jn_type := scalar_type (jn_type (js_nodes j ! p) = JT_ARRAY) (jn_quote ?n) (jn_text ?n)\<rparr>"
  define k where "k = j\<lparr>js_nodes := (js_nodes j)[js_curr j := n]\<rparr>"
  have "json_ok (j\<lparr>js_nodes := (js_nodes j)[js_curr j := n], js_status := js_status j\<rparr>)"
    by (rule json_ok_upd) (use assms(1) o(3) c0 curr_node [OF assms(1)] in \<open>auto simp: brackets_ok_def n_def\<close>)
  then have k: "json_ok k" by (simp add: k_def)
  have kf: "js_curr k = js_curr j" "js_status k = JS_STREND" "jdep (js_nodes k) i = jdep (js_nodes j) i" "js_root k = 0" "js_flag k = js_flag j"
    "length (js_nodes k) = length (js_nodes j)" for i
    using assms(3) o(2) by (simp_all add: k_def n_def)
  have pk: "parent_get k (js_curr k) = Ret (p, js_nodes k ! p)"
    using p o(3) by (simp add: parent_get_def acl_json_node_parent_def k_def n_def)
  have e: "json_strend j d = (if c = c_comma \<or> c = c_semi then Ret (k\<lparr>js_status := JS_NEXT\<rparr>, c # rest)
       else if c \<noteq> jn_right_ch (js_nodes k ! p) then Ret (k, rest)
       else if p = 0 then Ret (k\<lparr>js_finish := True\<rparr>, rest) else Ret (k\<lparr>js_curr := p, js_status := JS_NEXT\<rparr>, rest))"
  proof -
    have "jn_upd j (js_curr j) (\<lambda>n. n\<lparr>jn_type := scalar_type (jn_type (js_nodes j ! p) = JT_ARRAY) (jn_quote n) (jn_text n)\<rparr>) = Ret k"
      using o(3) by (simp add: k_def n_def)
    moreover have "p < length (js_nodes j)" using p(2) o(3) by simp
    ultimately show ?thesis using Cons o(3) p(1) pk kf(1,4) unfolding json_strend_def by (simp del: jn_upd_ok)
  qed
  have len: "length rest < length d" "length (c # rest) \<le> length d" using Cons length_skip_space [of d] by auto
  have comma: "comma_next (c # rest)" if "c = c_comma \<or> c = c_semi"
    using that skip_space_same [OF Cons] by (simp add: comma_next_def)
  have t1: "turn_ok j d (Ret (k\<lparr>js_status := JS_NEXT\<rparr>, c # rest))" if "c = c_comma \<or> c = c_semi"
    using comma [OF that] k kf len assms(3) by (intro turn_okI json_ok_status) (auto simp: turns_left_def below_root_def)
  have t2: "turn_ok j d (Ret (k, rest))" using k kf len assms(3) by (intro turn_okI) (auto simp: turns_left_def)
  have t3: "turn_ok j d (Ret (k\<lparr>js_finish := True\<rparr>, rest))" using k kf by (intro turn_okI json_ok_finish) auto
  have t4: "turn_ok j d (Ret (k\<lparr>js_curr := p, js_status := JS_NEXT\<rparr>, rest))"
    using k kf len assms(3) p o(3) by (intro turn_okI json_ok_move) (auto simp: turns_left_def below_root_def)
  show ?thesis unfolding e using t1 t2 t3 t4 by simp
qed

lemma brother_turn:
  assumes "json_ok j" "d \<noteq> []" "js_status j = JS_NEXT"
  shows "turn_ok j d (json_brother j d)"
proof (cases "js_curr j = 0")
  case True
  then show ?thesis using assms(1) json_okD(2) [OF assms(1)] json_ok_finish [OF assms(1)] by (simp add: json_brother_def turn_ok_def)
next
  case c0: False
  note o = json_okD [OF assms(1)]
  show ?thesis
  proof (cases "skip_space d")
    case Nil
    then show ?thesis using c0 o(2) turn_nil [OF assms(1,2)] by (simp add: json_brother_def)
  next
    case (Cons c rest)
    obtain p where p: "parent_get j (js_curr j) = Ret (p, js_nodes j ! p)" "p < js_curr j"
      "jdep (js_nodes j) (js_curr j) = Suc (jdep (js_nodes j) p)" by (rule parent_get_ok [OF assms(1) c0], rule that)
    define st where "st = (if jn_left_ch (js_nodes j ! p) = c_lbrace then JS_MEMBER else if jn_left_ch (js_nodes j ! p) = c_lbrack then JS_ELEMENT else JS_NEXT)"
    have b: "\<not> below_root st" "json_rank st x \<le> 7" for x by (auto simp: st_def below_root_def)
    have len: "length rest < length d" "length (c # rest) \<le> length d" using Cons length_skip_space [of d] by auto
    have t1: "turn_ok j d (Ret (j\<lparr>js_status := st, js_curr := p\<rparr>, rest))"
      using assms(1,3) b(1) b(2) [of rest] len p o(3) by (intro turn_okI) (auto simp: turns_left_def json_ok_def)
    have t2: "turn_ok j d (Ret (if p = js_root j then j\<lparr>js_finish := True\<rparr> else j\<lparr>js_curr := p, js_status := JS_NEXT\<rparr>, rest))"
      using Cons len assms p o(3) json_ok_finish [OF assms(1)] json_ok_move [OF assms(1), of p JS_NEXT]
      by (intro turn_okI) (auto simp: turns_left_def below_root_def)
    have t3: "turn_ok j d (Ret (j\<lparr>js_status := st, js_curr := p\<rparr>, c # rest))" if "\<not> (c = c_comma \<or> c = c_semi)"
    proof -
      have "\<not> comma_next d" using that Cons by (simp add: comma_next_def)
      then show ?thesis using assms(1,3) b(1) b(2) [of "c # rest"] len p o(3) by (intro turn_okI) (auto simp: turns_left_def json_ok_def)
    qed
    show ?thesis using c0 o(2) Cons p(1) t1 t2 t3 by (simp add: json_brother_def Let_def st_def [symmetric])
  qed
qed

lemma callback_turn:
  assumes "json_ok j" "d \<noteq> []"
  shows "turn_ok j d (json_callback (js_status j) j d)"
  using assms root_turn obj_turn member_turn array_turn element_turn pair_turn brother_turn tag_turn value_turn colon_turn string_turn strend_turn
  by (cases "js_status j") simp_all

end
