(* ===== verification/Json_Text.thy ===== *)
theory Json_Text
  imports Json_Build Json_Safe Acl_Links
begin

text \<open>
  What the loop of \<open>acl_json_build\<close> writes, as a recursive function on the tree, and that the loop ends on
  every tree.
\<close>

subsection \<open>The text of a tree\<close>

definition sep :: "acl_json \<Rightarrow> byte list" where
  "sep j = (if add_space_flag j then [c_comma, 32] else [c_comma])"

fun join :: "byte list \<Rightarrow> byte list list \<Rightarrow> byte list" where
  "join s [] = []"
| "join s [x] = x"
| "join s (x # xs) = x @ s @ join s xs"

abbreviation bracket :: "byte \<Rightarrow> byte list" where
  "bracket c \<equiv> add_nonzero [] c"

abbreviation quoted :: "byte list \<Rightarrow> byte list" where
  "quoted s \<equiv> json_escape_append [] s"

definition node_open :: "acl_json \<Rightarrow> jnode \<Rightarrow> bool \<Rightarrow> byte list" where
  "node_open j n arr = (let ty = jn_type n AND NOT JT_LEAF; tag = quoted (jn_ltag n) @ add_colon j [] in
     if jn_tag_node n \<noteq> None then (if jn_ltag n \<noteq> [] then tag else []) @ bracket (jn_left_ch n)
     else if jn_ltag n \<noteq> [] then tag @ (if ty = JT_NULL then bytes_of ''null''
       else if ty = JT_BOOL \<or> ty = JT_NUMBER \<or> ty = JT_DOUBLE then jn_text n else quoted (jn_text n))
     else if arr \<and> jn_type n AND (JT_A_NULL OR JT_A_BOOL OR JT_A_NUMBER OR JT_A_DOUBLE OR JT_A_STRING) \<noteq> 0 then
       (if ty = JT_A_NULL then bytes_of ''null''
        else if ty = JT_A_BOOL \<or> ty = JT_A_NUMBER \<or> ty = JT_A_DOUBLE then jn_text n
        else if ty = JT_A_STRING then quoted (jn_text n) else [])
     else bracket (jn_left_ch n))"

definition in_array :: "jnode list \<Rightarrow> nat \<Rightarrow> bool" where
  "in_array ns i = (case jn_parent (ns ! i) of None \<Rightarrow> False | Some p \<Rightarrow> jn_type (ns ! p) = JT_ARRAY)"

definition kids :: "jnode list \<Rightarrow> nat \<Rightarrow> nat list" where
  "kids ns i = filter (\<lambda>c. i < c \<and> c < length ns) (jn_children (ns ! i))"

function node_text :: "acl_json \<Rightarrow> nat \<Rightarrow> byte list" where
  "node_text j i = node_open j (js_nodes j ! i) (in_array (js_nodes j) i) @ join (sep j) (map (node_text j) (kids (js_nodes j) i))
     @ bracket (jn_right_ch (js_nodes j ! i))"
  by auto
termination by (relation "measure (\<lambda>(j, i). length (js_nodes j) - i)") (auto simp: kids_def)

function nsize :: "jnode list \<Rightarrow> nat \<Rightarrow> nat" where
  "nsize ns i = Suc (sum_list (map (nsize ns) (kids ns i)))"
  by auto
termination by (relation "measure (\<lambda>(ns, i). length ns - i)") (auto simp: kids_def)

declare node_text.simps [simp del] nsize.simps [simp del]

lemma kids_eq: "tree_ok ns \<Longrightarrow> i < length ns \<Longrightarrow> kids ns i = jn_children (ns ! i)"
  unfolding kids_def by (rule filter_True) (use tree_ok_child in blast)

lemma add_nonzero_append: "add_nonzero buf c = buf @ bracket c"
  by (simp add: add_nonzero_def)

lemma escape_append: "json_escape_append buf s = buf @ quoted s"
  by (simp add: json_escape_append_def)

lemma colon_append: "add_colon j buf = buf @ add_colon j []"
  by (simp add: add_colon_def)

subsection \<open>Where the iterator goes, and what a leaf closes\<close>

function after :: "jnode list \<Rightarrow> nat \<Rightarrow> nat option" where
  "after ns i = (case jn_parent (ns ! i) of None \<Rightarrow> None | Some p \<Rightarrow> (case sib_after (jn_children (ns ! p)) i of
     Some m \<Rightarrow> Some m | None \<Rightarrow> if 0 < p \<and> p < i then after ns p else None))"
  by auto
termination by (relation "measure snd") auto

function closers :: "jnode list \<Rightarrow> nat \<Rightarrow> byte list" where
  "closers ns i = (case jn_parent (ns ! i) of None \<Rightarrow> [] | Some p \<Rightarrow> (case sib_after (jn_children (ns ! p)) i of
     Some m \<Rightarrow> [] | None \<Rightarrow> if 0 < p \<and> p < i then bracket (jn_right_ch (ns ! p)) @ closers ns p else []))"
  by auto
termination by (relation "measure snd") auto

declare after.simps [simp del] closers.simps [simp del]

lemma nonroot_parent:
  assumes tree: "tree_ok (js_nodes j)" and root: "js_root j = 0" and "i < length (js_nodes j)" "i \<noteq> 0"
  obtains p where "parent_get j i = Ret (p, js_nodes j ! p)" "jn_parent (js_nodes j ! i) = Some p" "p < i" "p < length (js_nodes j)"
proof -
  obtain p where p: "jn_parent (js_nodes j ! i) = Some p" "p < i" by (rule tree_ok_parent [OF tree assms(3-)], rule that)
  then show thesis using assms(3-) by (intro that [of p]) (simp_all add: parent_get_def acl_json_node_parent_def)
qed

lemma climb_eq:
  assumes tree: "tree_ok (js_nodes j)" and root: "js_root j = 0" and "p < length (js_nodes j)" "p < fuel"
  shows "json_iter_climb fuel j p = Ret (if p = 0 then None else after (js_nodes j) p)"
  using assms(3-)
proof (induction fuel arbitrary: p)
  case (Suc fuel)
  show ?case
  proof (cases "p = 0")
    case False
    obtain q where q: "parent_get j p = Ret (q, js_nodes j ! q)" "jn_parent (js_nodes j ! p) = Some q" "q < p" "q < length (js_nodes j)"
      by (rule nonroot_parent [OF tree root Suc.prems(1) False], rule that)
    then show ?thesis using Suc False root by (simp add: after.simps [of _ p] split: option.split)
  qed (simp add: root)
qed simp

lemma iter_next_eq:
  assumes tree: "tree_ok (js_nodes j)" and root: "js_root j = 0" and "i < length (js_nodes j)" "i \<noteq> 0"
  shows "json_iter_next j i = Ret (case jn_children (js_nodes j ! i) of [] \<Rightarrow> after (js_nodes j) i | c # _ \<Rightarrow> Some c)"
proof -
  obtain p where p: "parent_get j i = Ret (p, js_nodes j ! p)" "jn_parent (js_nodes j ! i) = Some p" "p < i" "p < length (js_nodes j)"
    by (rule nonroot_parent [OF tree root assms(3-)], rule that)
  then show ?thesis using assms(3-) climb_eq [OF tree root, of p "length (js_nodes j)"]
    by (cases "p = 0") (auto simp: json_iter_next_def first_child_def after.simps [of _ i] split: list.split option.split)
qed

lemma node_next_eq:
  assumes tree: "tree_ok (js_nodes j)" and root: "js_root j = 0" and "i < length (js_nodes j)" "i \<noteq> 0" "jn_parent (js_nodes j ! i) = Some p" "p < i"
  shows "acl_json_node_next j i = Ret (sib_after (jn_children (js_nodes j ! p)) i)"
    "acl_json_node_prev j i = Ret (sib_before (jn_children (js_nodes j ! p)) i)"
  using assms(3-) by (simp_all add: acl_json_node_next_def acl_json_node_prev_def acl_json_node_parent_def)

lemma build_climb_eq:
  assumes tree: "tree_ok (js_nodes j)" and root: "js_root j = 0" and "i < length (js_nodes j)" "i \<noteq> 0" "i \<le> fuel"
  shows "build_climb fuel j i buf = Ret (buf @ closers (js_nodes j) i)"
  using assms(3-)
proof (induction fuel arbitrary: i buf)
  case (Suc fuel)
  obtain p where p: "parent_get j i = Ret (p, js_nodes j ! p)" "jn_parent (js_nodes j ! i) = Some p" "p < i" "p < length (js_nodes j)"
    by (rule nonroot_parent [OF tree root Suc.prems(1,2)], rule that)
  show ?case
  proof (cases "sib_after (jn_children (js_nodes j ! p)) i = None \<and> p \<noteq> 0")
    case True
    then show ?thesis using p Suc root node_next_eq [OF tree root Suc.prems(1,2) p(2,3)]
      by (simp add: closers.simps [of _ i] add_nonzero_append [of buf])
  next
    case False
    then show ?thesis using p root node_next_eq [OF tree root Suc.prems(1,2) p(2,3)]
      by (auto simp: closers.simps [of _ i] split: option.split)
  qed
qed simp

lemma build_end_eq:
  assumes tree: "tree_ok (js_nodes j)" and root: "js_root j = 0" and "i < length (js_nodes j)" "i \<noteq> 0"
  shows "build_end j i buf = Ret (if jn_children (js_nodes j ! i) \<noteq> [] then buf
    else buf @ bracket (jn_right_ch (js_nodes j ! i)) @ closers (js_nodes j) i)"
proof -
  obtain p where p: "jn_parent (js_nodes j ! i) = Some p" "p < i" by (rule nonroot_parent [OF tree root assms(3-)], rule that)
  have "closers (js_nodes j) i = []" if "sib_after (jn_children (js_nodes j ! p)) i \<noteq> None"
    using that p by (auto simp: closers.simps [of _ i])
  then show ?thesis
    using assms(3-) build_climb_eq [OF tree root assms(3-), of "length (js_nodes j)"] node_next_eq [OF tree root assms(3-) p] add_nonzero_append [of buf]
    by (simp add: build_end_def Let_def)
qed

lemma build_node_eq:
  assumes tree: "tree_ok (js_nodes j)" and root: "js_root j = 0" and "i < length (js_nodes j)" "i \<noteq> 0" "jn_parent (js_nodes j ! i) = Some p" "p < i"
  shows "build_node j i buf = Ret (buf @ (if sib_before (jn_children (js_nodes j ! p)) i \<noteq> None then sep j else [])
    @ node_open j (js_nodes j ! i) (in_array (js_nodes j) i))"
proof -
  show ?thesis
    using assms(3-) node_next_eq(2) [OF tree root assms(3-)]
    by (simp add: build_node_def node_open_def in_array_def Let_def sep_def json_escape_append_def add_nonzero_def add_colon_def)
qed

text \<open>The chain of parents; nodes of the same depth in it are the same.\<close>

subsection \<open>Every node is visited once\<close>

function chain :: "jnode list \<Rightarrow> nat \<Rightarrow> nat list" where
  "chain ns i = i # (case jn_parent (ns ! i) of None \<Rightarrow> [] | Some p \<Rightarrow> if p < i then chain ns p else [])"
  by auto
termination by (relation "measure snd") auto

function preorder :: "jnode list \<Rightarrow> nat \<Rightarrow> nat list" where
  "preorder ns i = i # concat (map (preorder ns) (kids ns i))"
  by auto
termination by (relation "measure (\<lambda>(ns, i). length ns - i)") (auto simp: kids_def)

declare chain.simps [simp del] preorder.simps [simp del]

lemma chain_cases: "y \<in> set (chain ns i) \<longleftrightarrow> y = i \<or> (\<exists>p. jn_parent (ns ! i) = Some p \<and> p < i \<and> y \<in> set (chain ns p))"
  unfolding chain.simps [of ns i] by (auto split: option.split)

lemma chain_le: "y \<in> set (chain ns i) \<Longrightarrow> y \<le> i \<and> jdep ns y \<le> jdep ns i \<and> (y \<noteq> i \<longrightarrow> jdep ns y < jdep ns i)"
proof (induction i rule: less_induct)
  case (less i)
  show ?case
  proof (cases "y = i")
    case False
    then obtain p where p: "jn_parent (ns ! i) = Some p" "p < i" "y \<in> set (chain ns p)"
      using less.prems unfolding chain_cases [of y ns i] by blast
    then show ?thesis using less.IH [OF p(2,3)] jdep_parent [OF p(1,2)] by auto
  qed simp
qed

lemma chain_same_depth: "y \<in> set (chain ns i) \<Longrightarrow> z \<in> set (chain ns i) \<Longrightarrow> jdep ns y = jdep ns z \<Longrightarrow> y = z"
proof (induction i rule: less_induct)
  case (less i)
  show ?case
  proof (cases "y = i \<or> z = i")
    case True
    then show ?thesis using chain_le [OF less.prems(1)] chain_le [OF less.prems(2)] less.prems(3) by force
  next
    case False
    then obtain p where p: "jn_parent (ns ! i) = Some p" "p < i" "y \<in> set (chain ns p)" "z \<in> set (chain ns p)"
      using less.prems(1,2) unfolding chain_cases [of y ns i] chain_cases [of z ns i] by auto
    then show ?thesis using less.IH [OF p(2-4) less.prems(3)] by simp
  qed
qed

lemma chain_trans: "y \<in> set (chain ns x) \<Longrightarrow> z \<in> set (chain ns y) \<Longrightarrow> z \<in> set (chain ns x)"
proof (induction x rule: less_induct)
  case (less x)
  show ?case
  proof (cases "y = x")
    case False
    then obtain p where p: "jn_parent (ns ! x) = Some p" "p < x" "y \<in> set (chain ns p)"
      using less.prems(1) unfolding chain_cases [of y ns x] by blast
    then show ?thesis using less.IH [OF p(2,3) less.prems(2)] unfolding chain_cases [of z ns x] by blast
  qed (use less.prems in simp)
qed

lemma preorder_chain: "tree_ok ns \<Longrightarrow> i < length ns \<Longrightarrow> x \<in> set (preorder ns i) \<Longrightarrow> x < length ns \<and> i \<in> set (chain ns x)"
proof (induction ns i arbitrary: x rule: preorder.induct)
  case (1 ns i)
  show ?case
  proof (cases "x = i")
    case True
    then show ?thesis using 1(3) chain_cases [of i ns i] by simp
  next
    case False
    then obtain c where c: "c \<in> set (kids ns i)" "x \<in> set (preorder ns c)"
      using 1(4) by (subst (asm) preorder.simps) auto
    then have k: "c < length ns" "jn_parent (ns ! c) = Some i" "i < c"
      using tree_ok_child [OF 1(2,3)] kids_eq [OF 1(2,3)] by auto
    have "i \<in> set (chain ns c)" using k chain_cases [of i ns c] chain_cases [of i ns i] by blast
    then show ?thesis using 1(1) [OF c(1) 1(2) k(1) c(2)] chain_trans by blast
  qed
qed

lemma distinct_concat_map: "distinct ks \<Longrightarrow> (\<And>c. c \<in> set ks \<Longrightarrow> distinct (f c))
   \<Longrightarrow> (\<And>c d. c \<in> set ks \<Longrightarrow> d \<in> set ks \<Longrightarrow> c \<noteq> d \<Longrightarrow> set (f c) \<inter> set (f d) = {}) \<Longrightarrow> distinct (concat (map f ks))"
proof (induction ks)
  case (Cons k ks)
  have "set (f k) \<inter> set (f d) = {}" if "d \<in> set ks" for d using Cons.prems(1,3) that by auto
  then show ?case using Cons by auto
qed simp

lemma distinct_preorder: "tree_ok ns \<Longrightarrow> i < length ns \<Longrightarrow> distinct (preorder ns i)"
proof (induction ns i rule: preorder.induct)
  case (1 ns i)
  note k = kids_eq [OF 1(2,3)]
  have ch: "c < length ns \<and> jn_parent (ns ! c) = Some i \<and> i < c" if "c \<in> set (kids ns i)" for c
    using tree_ok_child [OF 1(2,3)] that k by simp
  have dep: "jdep ns c = Suc (jdep ns i)" if "c \<in> set (kids ns i)" for c using jdep_parent ch [OF that] by blast
  have "i \<notin> set (preorder ns c)" if "c \<in> set (kids ns i)" for c
    using preorder_chain [OF 1(2), of c i] chain_le [of c ns i] ch [OF that] by auto
  moreover have "set (preorder ns c) \<inter> set (preorder ns d) = {}" if "c \<in> set (kids ns i)" "d \<in> set (kids ns i)" "c \<noteq> d" for c d
  proof (rule ccontr)
    assume "set (preorder ns c) \<inter> set (preorder ns d) \<noteq> {}"
    then obtain x where "x \<in> set (preorder ns c)" "x \<in> set (preorder ns d)" by blast
    then have "c \<in> set (chain ns x)" "d \<in> set (chain ns x)" using preorder_chain [OF 1(2)] ch that by blast+
    then show False using chain_same_depth dep that by metis
  qed
  moreover have "distinct (kids ns i)" using 1(2,3) k by (simp add: tree_ok_def node_ok_def)
  moreover have "distinct (preorder ns c)" if "c \<in> set (kids ns i)" for c using 1(1) [OF that 1(2)] ch [OF that] by simp
  ultimately show ?case
    unfolding preorder.simps [of ns i] using distinct_concat_map [of "kids ns i" "preorder ns"] by auto
qed

lemma length_preorder: "length (preorder ns i) = nsize ns i"
proof (induction ns i rule: preorder.induct)
  case (1 ns i)
  then have "map (\<lambda>c. length (preorder ns c)) (kids ns i) = map (nsize ns) (kids ns i)" by (intro map_cong) auto
  moreover have "length (concat (map (preorder ns) ks)) = sum_list (map (\<lambda>c. length (preorder ns c)) ks)" for ks
    by (simp add: length_concat comp_def)
  ultimately have "length (concat (map (preorder ns) (kids ns i))) = sum_list (map (nsize ns) (kids ns i))" by metis
  then show ?case unfolding preorder.simps [of ns i] nsize.simps [of ns i] by simp
qed

lemma nsize_le: "tree_ok ns \<Longrightarrow> i < length ns \<Longrightarrow> nsize ns i \<le> length ns"
  using distinct_bounded [OF distinct_preorder, of ns i "length ns"] preorder_chain length_preorder by metis

subsection \<open>The loop writes the text of the tree\<close>

lemma sib_after_mid: "c \<notin> set pre \<Longrightarrow> sib_after (pre @ c # post) c = (case post of [] \<Rightarrow> None | d # _ \<Rightarrow> Some d)"
  by (induction pre) auto

lemma sib_before_mid:
  assumes "distinct (pre @ c # post)"
  shows "sib_before (pre @ c # post) c = None \<longleftrightarrow> pre = []"
proof -
  have "sib_before (pre @ c # post) c = sib_after (rev post @ c # rev pre) c" by (simp add: sib_before_def)
  also have "\<dots> = (case rev pre of [] \<Rightarrow> None | d # _ \<Rightarrow> Some d)" using assms by (intro sib_after_mid) auto
  finally show ?thesis by (auto split: list.splits)
qed

lemma join_Cons: "join s (x # xs) = x @ (if xs = [] then [] else s @ join s xs)"
  by (cases xs) simp_all

definition comma_before :: "acl_json \<Rightarrow> nat \<Rightarrow> byte list" where
  "comma_before j i = (case jn_parent (js_nodes j ! i) of None \<Rightarrow> []
     | Some p \<Rightarrow> if sib_before (jn_children (js_nodes j ! p)) i \<noteq> None then sep j else [])"

definition writes_sub :: "acl_json \<Rightarrow> nat \<Rightarrow> bool" where
  "writes_sub j i \<longleftrightarrow> (\<forall>f buf. build_loop (nsize (js_nodes j) i + f) j (Some i) buf
     = build_loop f j (after (js_nodes j) i) (buf @ comma_before j i @ node_text j i @ closers (js_nodes j) i))"

lemma build_children:
  assumes tree: "tree_ok (js_nodes j)" and root: "js_root j = 0" and "i < length (js_nodes j)" "jn_children (js_nodes j ! i) = pre @ ks" "ks \<noteq> []" "\<And>d. d \<in> set ks \<Longrightarrow> writes_sub j d"
  shows "build_loop (sum_list (map (nsize (js_nodes j)) ks) + f) j (Some (hd ks)) buf
    = build_loop f j (if i = 0 then None else after (js_nodes j) i)
        (buf @ (if pre = [] then [] else sep j) @ join (sep j) (map (node_text j) ks)
         @ (if i = 0 then [] else bracket (jn_right_ch (js_nodes j ! i)) @ closers (js_nodes j) i))"
  using assms(4-6)
proof (induction ks arbitrary: pre buf)
  case (Cons d ks)
  have "distinct (jn_children (js_nodes j ! i))" using tree assms(3) by (simp add: tree_ok_def node_ok_def)
  then have dis: "distinct (pre @ d # ks)" using Cons.prems(1) by simp
  have d: "jn_parent (js_nodes j ! d) = Some i" "i < d" using tree_ok_child [OF tree assms(3), of d] Cons.prems(1) by auto
  have w: "build_loop (nsize (js_nodes j) d + g) j (Some d) buf
     = build_loop g j (after (js_nodes j) d) (buf @ comma_before j d @ node_text j d @ closers (js_nodes j) d)" for g buf
    using Cons.prems(3) [of d] by (simp add: writes_sub_def)
  have comma: "comma_before j d = (if pre = [] then [] else sep j)"
    using d(1) Cons.prems(1) sib_before_mid [OF dis] by (auto simp: comma_before_def)
  have sib: "sib_after (jn_children (js_nodes j ! i)) d = (case ks of [] \<Rightarrow> None | e # _ \<Rightarrow> Some e)"
    unfolding Cons.prems(1) using dis by (intro sib_after_mid) auto
  show ?case
  proof (cases ks)
    case Nil
    then show ?thesis using w [of f buf] comma d sib by (simp add: after.simps [of _ d] closers.simps [of _ d])
  next
    case (Cons e es)
    have a: "after (js_nodes j) d = Some e" "closers (js_nodes j) d = []"
      using d sib Cons by (simp_all add: after.simps [of _ d] closers.simps [of _ d])
    have "build_loop (sum_list (map (nsize (js_nodes j)) ks) + f) j (Some (hd ks)) (buf @ comma_before j d @ node_text j d)
      = build_loop f j (if i = 0 then None else after (js_nodes j) i)
        ((buf @ comma_before j d @ node_text j d) @ (if pre @ [d] = [] then [] else sep j) @ join (sep j) (map (node_text j) ks)
         @ (if i = 0 then [] else bracket (jn_right_ch (js_nodes j ! i)) @ closers (js_nodes j) i))"
      using Cons.prems(1,3) Cons by (intro Cons.IH) auto
    then show ?thesis using w [of "sum_list (map (nsize (js_nodes j)) ks) + f" buf] a comma Cons by (simp add: join_Cons add.assoc)
  qed
qed simp

lemma writes_all:
  assumes tree: "tree_ok (js_nodes j)" and root: "js_root j = 0"
  shows "i < length (js_nodes j) \<Longrightarrow> i \<noteq> 0 \<Longrightarrow> writes_sub j i"
proof (induction "length (js_nodes j) - i" arbitrary: i rule: less_induct)
  case less
  let ?ns = "js_nodes j"
  obtain p where p: "jn_parent (?ns ! i) = Some p" "p < i" by (rule tree_ok_parent [OF tree less.prems], rule that)
  have IH: "writes_sub j d" if "d \<in> set (jn_children (?ns ! i))" for d
    using tree_ok_child [OF tree less.prems(1) that] less.prems by (intro less.hyps) auto
  note k = kids_eq [OF tree less.prems(1)]
  show ?case
    unfolding writes_sub_def
  proof (intro allI)
    fix f buf
    let ?b = "buf @ comma_before j i @ node_open j (?ns ! i) (in_array ?ns i)"
    have bn: "build_node j i buf = Ret ?b" using build_node_eq [OF tree root less.prems p] p by (simp add: comma_before_def)
    have sz: "nsize ?ns i + f = Suc (sum_list (map (nsize ?ns) (jn_children (?ns ! i))) + f)" unfolding nsize.simps [of ?ns i] k by simp
    have tx: "node_text j i = node_open j (?ns ! i) (in_array ?ns i) @ join (sep j) (map (node_text j) (jn_children (?ns ! i)))
       @ bracket (jn_right_ch (?ns ! i))" unfolding node_text.simps [of j i] k ..
    note e = build_end_eq [OF tree root less.prems] iter_next_eq [OF tree root less.prems]
    show "build_loop (nsize ?ns i + f) j (Some i) buf
       = build_loop f j (after ?ns i) (buf @ comma_before j i @ node_text j i @ closers ?ns i)"
    proof (cases "jn_children (?ns ! i)")
      case Nil
      then show ?thesis unfolding sz using bn e tx by simp
    next
      case (Cons c cs)
      have "build_loop (sum_list (map (nsize ?ns) (c # cs)) + f) j (Some (hd (c # cs))) ?b
        = build_loop f j (if i = 0 then None else after ?ns i) (?b @ (if ([] :: nat list) = [] then [] else sep j)
          @ join (sep j) (map (node_text j) (c # cs)) @ (if i = 0 then [] else bracket (jn_right_ch (?ns ! i)) @ closers ?ns i))"
        using Cons IH less.prems by (intro build_children [OF tree root]) auto
      then show ?thesis unfolding sz using bn e tx Cons less.prems(2) by simp
    qed
  qed
qed

lemma build_loop_text:
  assumes tree: "tree_ok (js_nodes j)" and root: "js_root j = 0" and "length (js_nodes j) = n"
  shows "build_loop n j (first_child (js_nodes j ! 0)) buf = Ret (buf @ join (sep j) (map (node_text j) (jn_children (js_nodes j ! 0))))"
proof (cases "jn_children (js_nodes j ! 0)")
  case Nil
  then show ?thesis by (cases n) (simp_all add: first_child_def)
next
  case (Cons c cs)
  have l: "0 < length (js_nodes j)" using tree by (simp add: tree_ok_def)
  have s: "sum_list (map (nsize (js_nodes j)) (c # cs)) + 0 < nsize (js_nodes j) 0"
    unfolding nsize.simps [of _ 0] kids_eq [OF tree l] Cons by simp
  then obtain f where f: "n = sum_list (map (nsize (js_nodes j)) (c # cs)) + f"
    using nsize_le [OF tree l] assms(3-) by (metis add_0_right le_trans less_imp_le nat_le_iff_add)
  have "writes_sub j d" if "d \<in> set (c # cs)" for d
    using tree_ok_child [OF tree l, of d] that Cons by (intro writes_all [OF tree root]) auto
  then have "build_loop (sum_list (map (nsize (js_nodes j)) (c # cs)) + f) j (Some (hd (c # cs))) buf
      = build_loop f j None (buf @ (if ([] :: nat list) = [] then [] else sep j) @ join (sep j) (map (node_text j) (c # cs)) @ [])"
    using build_children [OF tree root l, of "[]" "c # cs" f buf] Cons by simp
  then show ?thesis unfolding f using Cons by (cases f) (simp_all add: first_child_def)
qed

text \<open>The tree with the brackets that building gives its root.\<close>

definition with_brackets :: "acl_json \<Rightarrow> acl_json" where
  "with_brackets j = (let n = js_nodes j ! 0 in
     if jn_left_ch n = 0 \<and> (\<forall>c. jn_children n = [c] \<longrightarrow> jn_left_ch (js_nodes j ! c) = 0)
     then j\<lparr>js_nodes := (js_nodes j)[0 := n\<lparr>jn_left_ch := c_lbrace, jn_right_ch := c_rbrace\<rparr>]\<rparr> else j)"

lemma root_brackets_eq:
  assumes "json_ok j"
  shows "root_brackets j = Ret (with_brackets j)"
proof -
  note o = json_okD [OF assms]
  have "c < length (js_nodes j)" if "jn_children (js_nodes j ! 0) = [c]" for c using tree_ok_child [OF o(1,6), of c] that by simp
  then show ?thesis using o(2,6) by (simp add: root_brackets_def with_brackets_def Let_def split: list.split)
qed

lemma with_brackets_ok: "json_ok j \<Longrightarrow> json_ok (with_brackets j)"
proof -
  assume j: "json_ok j"
  note o = json_okD [OF j]
  have n: "node_ok (js_nodes j) 0 (js_nodes j ! 0)" using o by (simp add: tree_ok_def)
  have "json_ok (j\<lparr>js_nodes := (js_nodes j)[0 := (js_nodes j ! 0)\<lparr>jn_left_ch := c_lbrace, jn_right_ch := c_rbrace\<rparr>], js_status := js_status j\<rparr>)"
    by (rule json_ok_upd) (use j o n in \<open>auto simp: brackets_ok_def node_ok_def\<close>)
  then show ?thesis using j by (simp add: with_brackets_def Let_def)
qed

definition json_text :: "acl_json \<Rightarrow> byte list" where
  "json_text j = (let n = js_nodes j ! 0 in bracket (jn_left_ch n) @ join (sep j) (map (node_text j) (jn_children n)) @ bracket (jn_right_ch n))"

lemma json_build_text:
  assumes "json_ok j"
  defines "k \<equiv> with_brackets j"
  shows "acl_json_build j buf = Ret (k, buf @ json_text k)"
proof -
  define n where "n = js_nodes k ! 0"
  have k: "json_ok k" unfolding k_def by (rule with_brackets_ok [OF assms(1)])
  note o = json_okD [OF k]
  show ?thesis
    using root_brackets_eq [OF assms(1), folded k_def] o(2,6) build_loop_text [OF o(1,2) refl, of "add_nonzero buf (jn_left_ch n)"]
      add_nonzero_append [of buf] add_nonzero_append [of "buf @ _"]
    by (simp add: acl_json_build_def json_iter_head_def json_text_def n_def Let_def)
qed

end
