(* ===== verification/Json_Rep.thy ===== *)
theory Json_Rep
  imports Json_Text
begin

text \<open>JSON values, the trees that stand for them, and the text of such a tree.\<close>

datatype jval = JNull | JBool bool | JNum "byte list" | JStr "byte list" | JArr "jval list" | JObj "(byte list \<times> jval) list"

fun scalar :: "jval \<Rightarrow> bool" where
  "scalar (JArr _) = False"
| "scalar (JObj _) = False"
| "scalar _ = True"

fun scal_text :: "jval \<Rightarrow> byte list" where
  "scal_text JNull = bytes_of ''null''"
| "scal_text (JBool b) = (if b then bytes_of ''true'' else bytes_of ''false'')"
| "scal_text (JNum t) = t"
| "scal_text (JStr s) = s"
| "scal_text _ = []"

fun scal_quote :: "jval \<Rightarrow> byte" where
  "scal_quote (JStr s) = c_quot"
| "scal_quote _ = 0"

fun render :: "jval \<Rightarrow> byte list" where
  "render (JStr s) = quoted s"
| "render (JArr vs) = c_lbrack # join [c_comma] (map render vs) @ [c_rbrack]"
| "render (JObj kvs) = c_lbrace # join [c_comma] (map (\<lambda>(k, v). quoted k @ c_colon # render v) kvs) @ [c_rbrace]"
| "render v = scal_text v"

text \<open>
  The values that can be written: a number is what the library takes for one, a key is not empty, and
  there is no NUL in a string.
\<close>

definition num_ok :: "byte list \<Rightarrow> bool" where
  "num_ok t \<longleftrightarrow> is_number t \<or> acl_is_double t"

fun jval_ok :: "jval \<Rightarrow> bool" where
  "jval_ok (JNum t) = num_ok t"
| "jval_ok (JStr s) = c_string s"
| "jval_ok (JArr vs) = list_all jval_ok vs"
| "jval_ok (JObj kvs) = list_all (\<lambda>(k, v). k \<noteq> [] \<and> c_string k \<and> jval_ok v) kvs"
| "jval_ok _ = True"

subsection \<open>Trees that stand for a value\<close>

definition leaf_node :: "jnode \<Rightarrow> bool \<Rightarrow> byte list \<Rightarrow> jval \<Rightarrow> bool" where
  "leaf_node n arr k v \<longleftrightarrow> jn_ltag n = k \<and> jn_text n = scal_text v \<and> jn_type n = scalar_type arr (scal_quote v) (scal_text v)
     \<and> jn_tag_node n = None \<and> jn_children n = [] \<and> jn_left_ch n = 0 \<and> jn_right_ch n = 0"

definition blank_node :: "jnode \<Rightarrow> bool" where
  "blank_node n \<longleftrightarrow> jn_ltag n = [] \<and> jn_type n = JT_MEMBER \<and> jn_tag_node n = None \<and> jn_children n = [] \<and> jn_left_ch n = 0 \<and> jn_right_ch n = 0"

definition cont_node :: "jnode \<Rightarrow> byte \<Rightarrow> byte \<Rightarrow> 16 word \<Rightarrow> bool" where
  "cont_node n l r t \<longleftrightarrow> jn_ltag n = [] \<and> jn_tag_node n = None \<and> jn_left_ch n = l \<and> jn_right_ch n = r \<and> jn_type n = t"

inductive rep_elem :: "jnode list \<Rightarrow> nat \<Rightarrow> jval \<Rightarrow> bool"
  and rep_memb :: "jnode list \<Rightarrow> nat \<Rightarrow> byte list \<times> jval \<Rightarrow> bool"
  and rep_cont :: "jnode list \<Rightarrow> nat \<Rightarrow> jval \<Rightarrow> bool"
  for ns where
  elem_scalar: "scalar v \<Longrightarrow> leaf_node (ns ! i) True [] v \<Longrightarrow> rep_elem ns i v"
| elem_cont: "rep_cont ns i v \<Longrightarrow> rep_elem ns i v"
| memb_scalar: "k \<noteq> [] \<Longrightarrow> scalar v \<Longrightarrow> leaf_node (ns ! i) False k v \<Longrightarrow> rep_memb ns i (k, v)"
| memb_cont: "k \<noteq> [] \<Longrightarrow> jn_ltag (ns ! i) = k \<Longrightarrow> jn_tag_node (ns ! i) = Some c \<Longrightarrow> jn_children (ns ! i) = [c] \<Longrightarrow> jn_left_ch (ns ! i) = 0
    \<Longrightarrow> jn_right_ch (ns ! i) = 0 \<Longrightarrow> rep_cont ns c v \<Longrightarrow> rep_memb ns i (k, v)"
| cont_arr: "cont_node (ns ! i) c_lbrack c_rbrack JT_ARRAY \<Longrightarrow> list_all2 (rep_elem ns) (jn_children (ns ! i)) vs \<Longrightarrow> rep_cont ns i (JArr vs)"
| cont_obj: "cont_node (ns ! i) c_lbrace c_rbrace JT_OBJ \<Longrightarrow> kvs \<noteq> [] \<Longrightarrow> list_all2 (rep_memb ns) (jn_children (ns ! i)) kvs
    \<Longrightarrow> rep_cont ns i (JObj kvs)"
| cont_empty: "cont_node (ns ! i) c_lbrace c_rbrace JT_OBJ \<Longrightarrow> jn_children (ns ! i) = [e] \<Longrightarrow> blank_node (ns ! e) \<Longrightarrow> rep_cont ns i (JObj [])"

text \<open>A tree below a node depends only on the nodes from there on.\<close>

lemma rep_frame:
  assumes tree: "tree_ok ns"
  shows "rep_elem ns i v \<Longrightarrow> i < length ns \<Longrightarrow> (\<And>x. i \<le> x \<Longrightarrow> x < length ns \<Longrightarrow> ns' ! x = ns ! x) \<Longrightarrow> rep_elem ns' i v"
    and "rep_memb ns i kv \<Longrightarrow> i < length ns \<Longrightarrow> (\<And>x. i \<le> x \<Longrightarrow> x < length ns \<Longrightarrow> ns' ! x = ns ! x) \<Longrightarrow> rep_memb ns' i kv"
    and "rep_cont ns i v \<Longrightarrow> i < length ns \<Longrightarrow> (\<And>x. i \<le> x \<Longrightarrow> x < length ns \<Longrightarrow> ns' ! x = ns ! x) \<Longrightarrow> rep_cont ns' i v"
proof (induction rule: rep_elem_rep_memb_rep_cont.inducts)
  case (elem_scalar v i)
  then show ?case by (intro rep_elem_rep_memb_rep_cont.elem_scalar) simp_all
next
  case (elem_cont i v)
  then show ?case by (intro rep_elem_rep_memb_rep_cont.elem_cont) simp_all
next
  case (memb_scalar k v i)
  then show ?case by (intro rep_elem_rep_memb_rep_cont.memb_scalar) simp_all
next
  case (memb_cont k i c v)
  have "c < length ns \<and> i < c" using tree_ok_child [OF tree memb_cont(9), of c] memb_cont(4) by simp
  then show ?case using memb_cont by (intro rep_elem_rep_memb_rep_cont.memb_cont [of _ _ _ c]) simp_all
next
  case (cont_arr i vs)
  have "c < length ns \<and> i < c" if "c \<in> set (jn_children (ns ! i))" for c using tree_ok_child [OF tree cont_arr(3) that] by simp
  then have "rep_elem ns' c v" if "c \<in> set (jn_children (ns ! i))"
    "rep_elem ns c v \<and> (c < length ns \<longrightarrow> (\<forall>x. c \<le> x \<longrightarrow> x < length ns \<longrightarrow> ns' ! x = ns ! x) \<longrightarrow> rep_elem ns' c v)" for c v
    using that cont_arr(4) by (metis le_trans less_imp_le)
  then have "list_all2 (rep_elem ns') (jn_children (ns ! i)) vs"
    using list.rel_mono_strong [OF cont_arr(2)] by blast
  then show ?case using cont_arr by (intro rep_elem_rep_memb_rep_cont.cont_arr) simp_all
next
  case (cont_obj i kvs)
  have "c < length ns \<and> i < c" if "c \<in> set (jn_children (ns ! i))" for c using tree_ok_child [OF tree cont_obj(4) that] by simp
  then have "rep_memb ns' c v" if "c \<in> set (jn_children (ns ! i))"
    "rep_memb ns c v \<and> (c < length ns \<longrightarrow> (\<forall>x. c \<le> x \<longrightarrow> x < length ns \<longrightarrow> ns' ! x = ns ! x) \<longrightarrow> rep_memb ns' c v)" for c v
    using that cont_obj(5) by (metis le_trans less_imp_le)
  then have "list_all2 (rep_memb ns') (jn_children (ns ! i)) kvs"
    using list.rel_mono_strong [OF cont_obj(2)] by blast
  then show ?case using cont_obj by (intro rep_elem_rep_memb_rep_cont.cont_obj) simp_all
next
  case (cont_empty i e)
  have "e < length ns \<and> i < e" using tree_ok_child [OF tree cont_empty(4), of e] cont_empty(2) by simp
  then show ?case using cont_empty by (intro rep_elem_rep_memb_rep_cont.cont_empty [of _ _ e]) simp_all
qed

subsection \<open>The text of such a tree\<close>

text \<open>The types that scalars get.\<close>

lemma digit_less: "is_digit c \<Longrightarrow> 48 \<le> uint c \<and> uint c \<le> 57"
  by (simp add: is_digit_def word_le_def)

definition num_byte :: "byte \<Rightarrow> bool" where
  "num_byte c \<longleftrightarrow> is_digit c \<or> c = 43 \<or> c = 45 \<or> c = 46"

lemma num_byte_lower: "num_byte c \<Longrightarrow> to_lower c \<notin> {110, 116, 102}"
  using digit_less [of c] by (auto simp: num_byte_def to_lower_def is_upper_def word_le_def)

lemma double_digits_bytes: "double_digits t \<Longrightarrow> list_all num_byte t"
  by (induction t) (auto simp: num_byte_def list_all_iff split: if_splits)

lemma num_ok_bytes: "num_ok t \<Longrightarrow> t \<noteq> [] \<and> list_all num_byte t"
proof -
  assume t: "num_ok t"
  have d: "list_all is_digit s \<Longrightarrow> list_all num_byte s" for s by (auto simp: list_all_iff num_byte_def)
  show ?thesis
  proof (cases "is_number t")
    case True
    then show ?thesis using d by (cases t) (auto simp: is_number_def acl_alldig_def num_byte_def)
  next
    case False
    then have "acl_is_double t" using t by (simp add: num_ok_def)
    then show ?thesis using double_digits_bytes
      by (cases t) (auto simp: acl_is_double_def Let_def num_byte_def split: if_splits)
  qed
qed

lemma num_not_word:
  assumes "num_ok t"
  shows "\<not> strcaseeq t (bytes_of ''null'')" "\<not> strcaseeq t (bytes_of ''true'')" "\<not> strcaseeq t (bytes_of ''false'')"
proof -
  obtain c s where t: "t = c # s" "num_byte c" using num_ok_bytes [OF assms] by (cases t) auto
  have l: "to_lower 110 = 110" "to_lower 116 = 116" "to_lower 102 = 102" by (simp_all add: to_lower_def is_upper_def)
  show "\<not> strcaseeq t (bytes_of ''null'')" "\<not> strcaseeq t (bytes_of ''true'')" "\<not> strcaseeq t (bytes_of ''false'')"
    using num_byte_lower [OF t(2)] l by (simp_all add: t strcaseeq_def)
qed

definition scal_type :: "bool \<Rightarrow> jval \<Rightarrow> 16 word" where
  "scal_type arr v = (case v of JNull \<Rightarrow> if arr then JT_A_NULL else JT_NULL
     | JBool _ \<Rightarrow> if arr then JT_A_BOOL else JT_BOOL
     | JNum t \<Rightarrow> if is_number t then if arr then JT_A_NUMBER else JT_NUMBER else if arr then JT_A_DOUBLE else JT_DOUBLE
     | _ \<Rightarrow> if arr then JT_A_STRING else JT_STRING)"

lemma lower_words: "to_lower 110 = 110" "to_lower 117 = 117" "to_lower 108 = 108" "to_lower 116 = 116" "to_lower 114 = 114"
  "to_lower 101 = 101" "to_lower 102 = 102" "to_lower 97 = 97" "to_lower 115 = 115"
  by (simp_all add: to_lower_def is_upper_def)

lemma scalar_type_val: "scalar v \<Longrightarrow> jval_ok v \<Longrightarrow> scalar_type arr (scal_quote v) (scal_text v) = scal_type arr v OR JT_LEAF"
proof (cases v)
  case (JNum t)
  then show "jval_ok v \<Longrightarrow> ?thesis" using num_not_word [of t] by (auto simp: scalar_type_def scal_type_def num_ok_def)
qed (auto simp: scalar_type_def scal_type_def strcaseeq_def lower_words)

lemma scal_type_bits:
  "(scal_type arr v OR JT_LEAF) AND NOT JT_LEAF = scal_type arr v"
  "(scal_type True v OR JT_LEAF) AND (JT_A_NULL OR JT_A_BOOL OR JT_A_NUMBER OR JT_A_DOUBLE OR JT_A_STRING) \<noteq> 0"
  by (cases v; simp add: scal_type_def)+

lemma leaf_text:
  assumes "scalar v" "jval_ok v" "leaf_node n arr k v" "arr = (k = [])" "\<not> add_space_flag j"
  shows "node_open j n arr = (if k = [] then [] else quoted k @ [c_colon]) @ render v"
proof -
  have t: "jn_type n = scal_type arr v OR JT_LEAF" using assms(1-3) scalar_type_val by (simp add: leaf_node_def)
  have n: "jn_ltag n = k" "jn_text n = scal_text v" "jn_tag_node n = None" using assms(3) by (simp_all add: leaf_node_def)
  show ?thesis
  proof (cases "k = []")
    case True
    then have "node_open j n arr = (if scal_type True v = JT_A_NULL then bytes_of ''null''
        else if scal_type True v = JT_A_BOOL \<or> scal_type True v = JT_A_NUMBER \<or> scal_type True v = JT_A_DOUBLE then scal_text v
        else if scal_type True v = JT_A_STRING then quoted (scal_text v) else [])"
      using assms(4) unfolding node_open_def t n Let_def scal_type_bits by (simp only: simp_thms if_True if_False scal_type_bits)
    then show ?thesis using True assms(1) by (cases v) (simp_all add: scal_type_def)
  next
    case False
    then have "node_open j n arr = quoted k @ add_colon j [] @ (if scal_type False v = JT_NULL then bytes_of ''null''
        else if scal_type False v = JT_BOOL \<or> scal_type False v = JT_NUMBER \<or> scal_type False v = JT_DOUBLE then scal_text v
        else quoted (scal_text v))"
      using assms(4) unfolding node_open_def t n Let_def scal_type_bits by (simp only: simp_thms if_True if_False append_assoc not_False_eq_True)
    then show ?thesis using False assms(1,5) by (cases v) (simp_all add: scal_type_def add_colon_def)
  qed
qed

lemma rep_text:
  assumes ok: "json_ok j" and flag: "\<not> add_space_flag j"
  shows "rep_elem (js_nodes j) i v \<Longrightarrow> i < length (js_nodes j) \<Longrightarrow> in_array (js_nodes j) i \<Longrightarrow> jval_ok v \<Longrightarrow> node_text j i = render v"
    and "rep_memb (js_nodes j) i kv \<Longrightarrow> i < length (js_nodes j) \<Longrightarrow> \<not> in_array (js_nodes j) i \<Longrightarrow> jval_ok (snd kv)
      \<Longrightarrow> node_text j i = quoted (fst kv) @ c_colon # render (snd kv)"
    and "rep_cont (js_nodes j) i v \<Longrightarrow> i < length (js_nodes j) \<Longrightarrow> jval_ok v \<Longrightarrow> node_text j i = render v"
proof (induction rule: rep_elem_rep_memb_rep_cont.inducts)
  case (elem_scalar v i)
  have "node_text j i = node_open j (js_nodes j ! i) True"
    using elem_scalar by (subst node_text.simps) (simp add: kids_def leaf_node_def add_nonzero_def)
  then show ?case using leaf_text [OF elem_scalar(1,5,2)] flag by simp
next
  case (elem_cont i v)
  then show ?case by simp
next
  case (memb_scalar k v i)
  have "node_text j i = node_open j (js_nodes j ! i) False"
    using memb_scalar by (subst node_text.simps) (simp add: kids_def leaf_node_def add_nonzero_def)
  then show ?case using leaf_text [OF memb_scalar(2) _ memb_scalar(3)] memb_scalar flag by simp
next
  case (memb_cont k i c v)
  note tree = json_okD(1) [OF ok]
  have c: "c < length (js_nodes j)" "kids (js_nodes j) i = [c]"
    using tree_ok_child [OF tree memb_cont(9), of c] memb_cont(4) kids_eq [OF tree memb_cont(9)] by auto
  then have "node_text j c = render v" using memb_cont by simp
  then show ?case using memb_cont c flag
    by (subst node_text.simps) (simp add: node_open_def add_nonzero_def add_colon_def)
next
  case (cont_arr i vs)
  note tree = json_okD(1) [OF ok]
  have ch: "c < length (js_nodes j) \<and> in_array (js_nodes j) c" if "c \<in> set (jn_children (js_nodes j ! i))" for c
    using tree_ok_child [OF tree cont_arr(3) that] cont_arr(1) by (simp add: in_array_def cont_node_def)
  have "list_all2 (\<lambda>c v. node_text j c = render v) (jn_children (js_nodes j ! i)) vs"
    by (rule list.rel_mono_strong [OF cont_arr(2)]) (use ch cont_arr(4) in \<open>auto simp: list_all_iff\<close>)
  then have "map (node_text j) (jn_children (js_nodes j ! i)) = map render vs"
    by (simp add: list_eq_iff_nth_eq list_all2_conv_all_nth)
  then show ?case using cont_arr(1) kids_eq [OF tree cont_arr(3)] flag
    by (subst node_text.simps) (simp add: node_open_def cont_node_def add_nonzero_def sep_def)
next
  case (cont_obj i kvs)
  note tree = json_okD(1) [OF ok]
  have ch: "c < length (js_nodes j) \<and> \<not> in_array (js_nodes j) c" if "c \<in> set (jn_children (js_nodes j ! i))" for c
    using tree_ok_child [OF tree cont_obj(4) that] cont_obj(1) by (simp add: in_array_def cont_node_def)
  have "list_all2 (\<lambda>c kv. node_text j c = quoted (fst kv) @ c_colon # render (snd kv)) (jn_children (js_nodes j ! i)) kvs"
    by (rule list.rel_mono_strong [OF cont_obj(2)]) (use ch cont_obj(5) in \<open>auto simp: list_all_iff\<close>)
  then have "map (node_text j) (jn_children (js_nodes j ! i)) = map (\<lambda>kv. quoted (fst kv) @ c_colon # render (snd kv)) kvs"
    by (simp add: list_eq_iff_nth_eq list_all2_conv_all_nth)
  then show ?case using cont_obj(1) kids_eq [OF tree cont_obj(4)] flag
    by (subst node_text.simps) (simp add: node_open_def cont_node_def add_nonzero_def sep_def case_prod_unfold)
next
  case (cont_empty i e)
  note tree = json_okD(1) [OF ok]
  have e: "e < length (js_nodes j)" "in_array (js_nodes j) e = False"
    using tree_ok_child [OF tree cont_empty(4), of e] cont_empty(1,2) by (auto simp: in_array_def cont_node_def)
  have "node_text j e = []" using cont_empty(3) e kids_eq [OF tree e(1)]
    by (subst node_text.simps) (simp add: node_open_def blank_node_def add_nonzero_def)
  then show ?case using cont_empty(1,2) kids_eq [OF tree cont_empty(4)]
    by (subst node_text.simps) (simp add: node_open_def cont_node_def add_nonzero_def)
qed

end
