(* ===== verification/Json_Stream.thy ===== *)
theory Json_Stream
  imports Json_Safe "HOL-Library.Sublist"
begin

text \<open>The loop of the machine ends, and it does not matter how the text is cut into chunks.\<close>

subsection \<open>The loop\<close>

lemma json_loop_ok:
  assumes "json_ok j" "turns_left j d \<le> fuel"
  shows "\<exists>j' d'. json_loop fuel j d = Ret (j', d') \<and> json_ok j' \<and> (d' = [] \<or> js_finish j')"
  using assms
proof (induction fuel arbitrary: j d)
  case 0
  then have "d = []" by (cases d) (simp_all add: turns_left_def)
  then show ?case using 0 by (simp add: json_loop.simps)
next
  case (Suc fuel)
  show ?case
  proof (cases "d = [] \<or> js_finish j")
    case True
    then show ?thesis using Suc.prems(1) by (simp add: json_loop.simps)
  next
    case False
    then obtain j1 d1 where 1: "json_callback (js_status j) j d = Ret (j1, d1)" "json_ok j1" "js_finish j1 \<or> turns_left j1 d1 < turns_left j d"
      using callback_turn [OF Suc.prems(1), of d] by (auto simp: turn_ok_def split: cres.splits)
    then have "json_loop (Suc fuel) j d = json_loop fuel j1 d1" using False by (simp add: json_loop.simps)
    moreover have "\<exists>j' d'. json_loop fuel j1 d1 = Ret (j', d') \<and> json_ok j' \<and> (d' = [] \<or> js_finish j')"
    proof (cases "js_finish j1")
      case True
      then show ?thesis using 1(2) by (simp add: json_loop.simps)
    next
      case False
      then show ?thesis using Suc.IH [OF 1(2)] 1(3) Suc.prems(2) by simp
    qed
    ultimately show ?thesis by simp
  qed
qed

lemma json_loop_more: "json_loop f j d = Ret r \<Longrightarrow> f \<le> g \<Longrightarrow> json_loop g j d = Ret r"
proof (induction f arbitrary: j d g)
  case 0
  then show ?case by (auto simp: json_loop.simps split: if_splits)
next
  case (Suc f)
  then obtain h where g: "g = Suc h" "f \<le> h" by (cases g) auto
  show ?case
  proof (cases "d = [] \<or> js_finish j")
    case True
    then show ?thesis using Suc.prems by (auto simp: json_loop.simps)
  next
    case False
    then obtain x where x: "json_callback (js_status j) j d = Ret x" "json_loop f (fst x) (snd x) = Ret r"
      using Suc.prems(1) by (auto simp: json_loop.simps [of "Suc f"] cbind_eq_Ret_iff split_beta)
    then have "json_loop h (fst x) (snd x) = Ret r" using Suc.IH g(2) by blast
    then show ?thesis using False x(1) g(1) by (simp add: json_loop.simps [of "Suc h"] split_beta)
  qed
qed

lemma json_update_ok:
  assumes "json_ok j"
  shows "\<exists>j' d'. acl_json_update j d = Ret (j', d') \<and> json_ok j' \<and> (d' = [] \<or> js_finish j')"
  unfolding acl_json_update_def by (rule json_loop_ok [OF assms turns_left_le [OF assms]])

text \<open>Any number of turns that is enough gives the same.\<close>

lemma json_update_loop:
  assumes "json_ok j" "json_loop f j d = Ret r"
  shows "acl_json_update j d = Ret r"
proof -
  obtain r' where "acl_json_update j d = Ret r'" using json_update_ok [OF assms(1)] by blast
  then show ?thesis unfolding acl_json_update_def using json_loop_more assms(2) by (metis cres.inject nle_le)
qed

subsection \<open>Chunks\<close>

text \<open>
  A handler that is given more text either does the same and leaves the rest, or it was stopped by the
  end of the chunk and takes up where it was.
\<close>

definition app_ok :: "(acl_json \<Rightarrow> byte list \<Rightarrow> (acl_json \<times> byte list) cres) \<Rightarrow> acl_json \<Rightarrow> byte list \<Rightarrow> byte list \<Rightarrow> bool" where
  "app_ok f j a b \<longleftrightarrow> (\<forall>j' a'. f j a = Ret (j', a') \<longrightarrow> suffix a' a \<and> (f j (a @ b) = Ret (j', a' @ b)
     \<or> a' = [] \<and> js_status j' = js_status j \<and> js_finish j' = js_finish j \<and> f j (a @ b) = f j' b))"

lemma skip_space_append: "skip_space (a @ b) = (if skip_space a = [] then skip_space b else skip_space a @ b)"
  by (simp add: skip_space_def dropWhile_append dropWhile_eq_Nil_conv)

lemma suffix_skip_space: "suffix (skip_space a) a"
  by (simp add: skip_space_def suffix_dropWhile)

lemma suffix_skip_tail: "skip_space a = c # rest \<Longrightarrow> suffix rest a \<and> suffix (c # rest) a"
  using suffix_skip_space [of a] suffix_ConsD by fastforce

text \<open>The handlers that skip white space first and look at one byte behind it.\<close>

definition looks_at_one :: "(acl_json \<Rightarrow> byte list \<Rightarrow> (acl_json \<times> byte list) cres) \<Rightarrow> acl_json \<Rightarrow> bool" where
  "looks_at_one f j \<longleftrightarrow> (\<forall>x. f j x = f j (skip_space x))
     \<and> (\<forall>c rest. \<not> is_space c \<longrightarrow> f j (c # rest) = map_cres (\<lambda>(k, x). (k, x @ rest)) (f j [c]))
     \<and> (\<forall>c k x. \<not> is_space c \<longrightarrow> f j [c] = Ret (k, x) \<longrightarrow> suffix x [c])"

lemma app_ok_one:
  assumes "looks_at_one f j" "f j [] = Ret (j, [])"
  shows "app_ok f j a b"
proof (cases "skip_space a")
  case Nil
  have f: "f j x = f j (skip_space x)" for x using assms(1) unfolding looks_at_one_def by blast
  have "f j a = Ret (j, [])" using Nil assms(2) f [of a] by simp
  moreover have "f j (a @ b) = f j b" using Nil f [of "a @ b"] f [of b] by (simp add: skip_space_append)
  ultimately show ?thesis by (simp add: app_ok_def)
next
  case (Cons c rest)
  have c: "\<not> is_space c" using hd_dropWhile [of is_space a] Cons unfolding skip_space_def by simp
  then have f: "f j x = f j (skip_space x)" "f j [c] = Ret (k, y) \<Longrightarrow> suffix y [c]" for x k y
    using assms(1) unfolding looks_at_one_def by blast+
  have s: "f j (c # r) = map_cres (\<lambda>(k, x). (k, x @ r)) (f j [c])" for r
    using assms(1) c unfolding looks_at_one_def by blast
  have a: "f j a = map_cres (\<lambda>(k, x). (k, x @ rest)) (f j [c])" using f(1) [of a] s [of rest] Cons by simp
  have ab: "f j (a @ b) = map_cres (\<lambda>(k, x). (k, x @ rest @ b)) (f j [c])"
    using f(1) [of "a @ b"] s [of "rest @ b"] Cons by (simp add: skip_space_append)
  show ?thesis
  proof (cases "f j [c]")
    case (Ret r)
    then have "suffix (snd r) [c]" using f(2) [of "fst r" "snd r"] by simp
    then have "snd r = [] \<or> snd r = [c]" by (auto simp: suffix_Cons)
    then have "suffix (snd r @ rest) a" using suffix_skip_tail [OF Cons] by auto
    moreover have "f j a = Ret (fst r, snd r @ rest)" "f j (a @ b) = Ret (fst r, (snd r @ rest) @ b)"
      using a ab unfolding Ret by (simp_all add: split_beta)
    ultimately show ?thesis by (simp add: app_ok_def)
  next
    case Fault
    then show ?thesis using a by (simp add: app_ok_def)
  qed
qed

lemma skip_space_simps [simp]: "skip_space [] = []" "\<not> is_space c \<Longrightarrow> skip_space (c # rest) = c # rest"
  by (simp_all add: skip_space_def)

lemma cbind_case: "cbind m f = (case m of Fault \<Rightarrow> Fault | Ret x \<Rightarrow> f x)" "map_cres g m = (case m of Fault \<Rightarrow> Fault | Ret x \<Rightarrow> Ret (g x))"
  by (cases m; simp)+

lemma one_pair: "looks_at_one json_pair j"
  unfolding looks_at_one_def
  by (intro conjI allI impI) (auto simp: json_pair_def cbind_case Let_def split: cres.split cres.split_asm prod.split if_split_asm)

lemma one_colon: "looks_at_one json_colon j"
  unfolding looks_at_one_def
  by (intro conjI allI impI) (auto simp: json_colon_def split: if_split_asm)

lemma one_obj: "looks_at_one json_obj j"
  unfolding looks_at_one_def
  by (intro conjI allI impI) (auto simp: json_obj_def cbind_case Let_def split: cres.split cres.split_asm prod.split if_split_asm)

lemma one_array: "looks_at_one json_array j"
  unfolding looks_at_one_def
  by (intro conjI allI impI) (auto simp: json_array_def cbind_case Let_def split: cres.split cres.split_asm prod.split if_split_asm)

lemma one_element: "looks_at_one json_element j"
  unfolding looks_at_one_def
  by (intro conjI allI impI) (auto simp: json_element_def cbind_case Let_def split: cres.split cres.split_asm prod.split if_split_asm)

lemma one_value: "looks_at_one json_value j"
  unfolding looks_at_one_def
  by (intro conjI allI impI) (auto simp: json_value_def cbind_case Let_def split: cres.split cres.split_asm prod.split if_split_asm)

lemma one_strend: "looks_at_one json_strend j"
  unfolding looks_at_one_def
  by (intro conjI allI impI) (auto simp: json_strend_def cbind_case Let_def split: cres.split cres.split_asm prod.split if_split_asm)

lemma one_brother: "js_curr j \<noteq> js_root j \<Longrightarrow> looks_at_one json_brother j"
  unfolding looks_at_one_def
  by (intro conjI allI impI) (auto simp: json_brother_def cbind_case Let_def split: cres.split cres.split_asm prod.split if_split_asm)

text \<open>The handlers that do something else.\<close>

lemma dropWhile_Cons_append: "dropWhile P a = c # rest \<Longrightarrow> dropWhile P (a @ b) = c # rest @ b"
  by (induction a) (auto split: if_splits)

lemma root_app: "app_ok json_root j a b"
proof (cases "dropWhile (\<lambda>c. c \<noteq> c_lbrace \<and> c \<noteq> c_lbrack) a")
  case Nil
  then have "dropWhile (\<lambda>c. c \<noteq> c_lbrace \<and> c \<noteq> c_lbrack) (a @ b) = dropWhile (\<lambda>c. c \<noteq> c_lbrace \<and> c \<noteq> c_lbrack) b"
    by (auto simp: dropWhile_append dropWhile_eq_Nil_conv)
  then show ?thesis unfolding app_ok_def json_root_def Nil by simp
next
  case (Cons c rest)
  then have ab: "dropWhile (\<lambda>c. c \<noteq> c_lbrace \<and> c \<noteq> c_lbrack) (a @ b) = c # rest @ b"
    by (rule dropWhile_Cons_append)
  have "suffix (c # rest) a" using suffix_dropWhile [of "\<lambda>c. c \<noteq> c_lbrace \<and> c \<noteq> c_lbrack" a] Cons by simp
  then have "suffix rest a" by (rule suffix_ConsD)
  then show ?thesis unfolding app_ok_def json_root_def ab Cons by (auto simp: cbind_case split: cres.split_asm)
qed

lemma member_app: "app_ok json_member j a b"
  by (auto simp: app_ok_def json_member_def cbind_case split: cres.splits)

lemma brother_app: "app_ok json_brother j a b"
proof (cases "js_curr j = js_root j")
  case True
  then show ?thesis by (simp add: app_ok_def json_brother_def)
next
  case False
  then show ?thesis by (intro app_ok_one one_brother) (simp_all add: json_brother_def)
qed

lemma scan_append: "json_scan stop part s (a @ b) = (case json_scan stop part s a of
    (t, EndData, _) \<Rightarrow> json_scan stop part t b | (t, e, a') \<Rightarrow> (t, e, a' @ b))"
  by (induction a arbitrary: s) (auto split: sum.split scan_end.split dest: scan_step_end)

lemma scan_suffix: "json_scan stop part s a = (t, e, a') \<Longrightarrow> suffix a' a"
proof (induction a arbitrary: s)
  case (Cons c a)
  then show ?case by (cases "scan_step stop part s c") (auto split: if_splits intro: suffix_ConsI)
qed simp

lemma jscan_eta: "\<lparr>sc_quote = sc_quote t, sc_backslash = sc_backslash t, sc_part_word = sc_part_word t, sc_buf = sc_buf t\<rparr> = t"
  by simp

lemma tag_app:
  assumes "json_ok j" "js_status j = JS_TAG"
  shows "app_ok json_tag j a b"
proof -
  note o = json_okD [OF assms(1)]
  have c0: "js_curr j \<noteq> 0" using o(5) assms(2) by (simp add: below_root_def)
  obtain p where p: "parent_get j (js_curr j) = Ret (p, js_nodes j ! p)" "jn_parent (js_nodes j ! js_curr j) = Some p" "p < js_curr j"
    by (rule parent_get_ok [OF assms(1) c0], rule that)
  let ?n = "js_nodes j ! js_curr j"
  let ?s = "\<lparr>sc_quote = jn_quote ?n, sc_backslash = jn_backslash ?n, sc_part_word = jn_part_word ?n, sc_buf = jn_ltag ?n\<rparr>"
  obtain t e a' where t: "json_scan tag_stop (part_word_flag j) ?s a = (t, e, a')" by (metis prod_cases3)
  note ab = scan_append [of tag_stop "part_word_flag j" ?s a b, unfolded t]
  note f = scan_suffix [OF t] scan_ends [OF t]
  show ?thesis
  proof (cases "e = EndData")
    case False
    then show ?thesis using t ab o(3) p(1) f(1) by (cases e) (auto simp: app_ok_def json_tag_def Let_def)
  next
    case True
    let ?m = "?n\<lparr>jn_ltag := sc_buf t, jn_backslash := sc_backslash t, jn_quote := sc_quote t, jn_part_word := sc_part_word t\<rparr>"
    let ?k = "j\<lparr>js_nodes := (js_nodes j)[js_curr j := ?m]\<rparr>"
    have ja: "json_tag j a = Ret (?k, [])" using t o(3) True f(2) by (simp add: json_tag_def Let_def)
    have pk: "parent_get ?k (js_curr j) = Ret (p, js_nodes j ! p)" "part_word_flag ?k = part_word_flag j"
      using p o(3) by (simp_all add: parent_get_def acl_json_node_parent_def part_word_flag_def)
    obtain u e' b' where u: "json_scan tag_stop (part_word_flag j) t b = (u, e', b')" by (metis prod_cases3)
    have s_ab: "json_scan tag_stop (part_word_flag j) ?s (a @ b) = (u, e', b')" using ab True u by simp
    have "json_tag j (a @ b) = json_tag ?k b"
      using s_ab u pk p(1) o(3) by (cases e') (simp_all add: json_tag_def Let_def jscan_eta)
    then show ?thesis using ja by (simp add: app_ok_def)
  qed
qed

lemma string_app:
  assumes "json_ok j" "js_status j = JS_STRING"
  shows "app_ok json_string j a b"
proof -
  note o = json_okD [OF assms(1)]
  let ?n = "js_nodes j ! js_curr j"
  let ?s = "\<lparr>sc_quote = jn_quote ?n, sc_backslash = jn_backslash ?n, sc_part_word = jn_part_word ?n, sc_buf = jn_text ?n\<rparr>"
  obtain t e a' where t: "json_scan text_stop (part_word_flag j) ?s a = (t, e, a')" by (metis prod_cases3)
  note ab = scan_append [of text_stop "part_word_flag j" ?s a b, unfolded t]
  note f = scan_suffix [OF t] scan_ends [OF t]
  show ?thesis
  proof (cases "e = EndData")
    case False
    then show ?thesis using t ab o(3) f(1) by (cases e) (auto simp: app_ok_def json_string_def Let_def)
  next
    case True
    let ?m = "?n\<lparr>jn_text := sc_buf t, jn_backslash := sc_backslash t, jn_part_word := sc_part_word t\<rparr>"
    let ?k = "j\<lparr>js_nodes := (js_nodes j)[js_curr j := ?m]\<rparr>"
    have ja: "json_string j a = Ret (?k, [])" using t o(3) True f(2) by (simp add: json_string_def Let_def)
    have pk: "part_word_flag ?k = part_word_flag j" by (simp add: part_word_flag_def)
    obtain u e' b' where u: "json_scan text_stop (part_word_flag j) t b = (u, e', b')" by (metis prod_cases3)
    have s_ab: "json_scan text_stop (part_word_flag j) ?s (a @ b) = (u, e', b')" using ab True u by simp
    have q: "sc_quote t = jn_quote ?n" using f(2) by simp
    then have "\<lparr>sc_quote = jn_quote ?n, sc_backslash = sc_backslash t, sc_part_word = sc_part_word t, sc_buf = sc_buf t\<rparr> = t" by simp
    then have "json_string j (a @ b) = json_string ?k b"
      using s_ab u pk o(3) by (cases e') (simp_all add: json_string_def Let_def)
    then show ?thesis using ja by (simp add: app_ok_def)
  qed
qed

lemma callback_app:
  assumes "json_ok j"
  shows "app_ok (json_callback (js_status j)) j a b"
  using root_app member_app brother_app tag_app [OF assms] string_app [OF assms]
    app_ok_one [OF one_pair] app_ok_one [OF one_colon] app_ok_one [OF one_obj] app_ok_one [OF one_array] app_ok_one [OF one_element]
    app_ok_one [OF one_value] app_ok_one [OF one_strend]
  by (cases "js_status j") (simp_all add: json_pair_def json_colon_def json_obj_def json_array_def json_element_def json_value_def json_strend_def)

text \<open>Two chunks are as good as one.\<close>

lemma json_loop_append:
  "json_ok j \<Longrightarrow> json_loop f j a = Ret (j', a') \<Longrightarrow> json_loop g j' (a' @ b) = Ret r \<Longrightarrow> \<exists>h. json_loop h j (a @ b) = Ret r"
proof (induction f arbitrary: j a)
  case 0
  then have "a' = a" "j' = j" by (auto simp: json_loop.simps split: if_splits)
  then show ?case using "0.prems"(3) by blast
next
  case (Suc f)
  show ?case
  proof (cases "a = [] \<or> js_finish j")
    case True
    then have "a' = a" "j' = j" using Suc.prems(2) by (auto simp: json_loop.simps)
    then show ?thesis using Suc.prems(3) by blast
  next
    case False
    obtain j1 a1 where 1: "json_callback (js_status j) j a = Ret (j1, a1)" "json_ok j1"
      using callback_turn [OF Suc.prems(1), of a] False by (auto simp: turn_ok_def split: cres.splits)
    then have l: "json_loop f j1 a1 = Ret (j', a')" using Suc.prems(2) False by (simp add: json_loop.simps [of "Suc f"])
    obtain h where h: "json_loop h j1 (a1 @ b) = Ret r" using Suc.IH [OF 1(2) l Suc.prems(3)] by blast
    have step: "json_loop (Suc g) j (a @ b) = cbind (json_callback (js_status j) j (a @ b)) (\<lambda>(j, d). json_loop g j d)" for g
      using False by (simp add: json_loop.simps [of "Suc g"])
    consider "json_callback (js_status j) j (a @ b) = Ret (j1, a1 @ b)"
      | "a1 = []" "js_status j1 = js_status j" "js_finish j1 = js_finish j" "json_callback (js_status j) j (a @ b) = json_callback (js_status j) j1 b"
      using callback_app [OF Suc.prems(1), of a b] 1(1) by (auto simp: app_ok_def)
    then show ?thesis
    proof cases
      case 1
      then have "json_loop (Suc h) j (a @ b) = Ret r" using step h by simp
      then show ?thesis by blast
    next
      case 2
      show ?thesis
      proof (cases "b = []")
        case True
        then have "json_loop (Suc h) j (a @ b) = Ret r" using step [of h] h 1(1) by simp
        then show ?thesis by blast
      next
        case b: False
        then obtain h' where h': "h = Suc h'" using h 2(1,3) False by (cases h) (auto simp: json_loop.simps)
        have "json_loop (Suc h') j1 b = cbind (json_callback (js_status j) j1 b) (\<lambda>(j, d). json_loop h' j d)"
          using b 2(2,3) False by (simp add: json_loop.simps [of "Suc h'"])
        then have "json_loop (Suc h') j (a @ b) = Ret r" using step [of h'] h h' 2(1,4) by simp
        then show ?thesis by blast
      qed
    qed
  qed
qed

lemma json_update_append:
  assumes "json_ok j" "acl_json_update j a = Ret (j', a')"
  shows "acl_json_update j (a @ b) = acl_json_update j' (a' @ b)"
proof -
  obtain f where f: "json_loop f j a = Ret (j', a')" using assms(2) unfolding acl_json_update_def by blast
  have "json_ok j'" using json_update_ok [OF assms(1), of a] assms(2) by auto
  then obtain r where r: "acl_json_update j' (a' @ b) = Ret r" using json_update_ok by blast
  then obtain g where "json_loop g j' (a' @ b) = Ret r" unfolding acl_json_update_def by blast
  then obtain h where "json_loop h j (a @ b) = Ret r" using json_loop_append [OF assms(1) f] by blast
  then show ?thesis using json_update_loop [OF assms(1)] r by metis
qed

subsection \<open>Properties\<close>

text \<open>A client that feeds the parser with what it has read, chunk by chunk.\<close>

fun json_feed :: "acl_json \<Rightarrow> byte list list \<Rightarrow> acl_json cres" where
  "json_feed j [] = Ret j"
| "json_feed j (c # cs) = cbind (acl_json_update j c) (\<lambda>(j, _). json_feed j cs)"

lemma update_finished: "js_finish j \<Longrightarrow> acl_json_update j d = Ret (j, d)"
  by (simp add: acl_json_update_def json_loop.simps)

lemma update_nil: "acl_json_update j [] = Ret (j, [])"
  by (simp add: acl_json_update_def json_loop.simps)

lemma json_feed_concat: "json_ok j \<Longrightarrow> json_feed j cs = map_cres fst (acl_json_update j (concat cs))"
proof (induction cs arbitrary: j)
  case Nil
  then show ?case by (simp add: update_nil)
next
  case (Cons c cs)
  obtain j' d' where u: "acl_json_update j c = Ret (j', d')" "json_ok j'" "d' = [] \<or> js_finish j'"
    using json_update_ok [OF Cons.prems] by blast
  have "map_cres fst (acl_json_update j' (d' @ concat cs)) = map_cres fst (acl_json_update j' (concat cs))"
    using u(3) by (elim disjE) (simp_all add: update_finished)
  then show ?case using Cons.IH [OF u(2)] json_update_append [OF Cons.prems u(1), of "concat cs"] u(1) by simp
qed

lemma json_start_ok: "json_ok (acl_json_alloc\<lparr>js_flag := fl\<rparr>)"
  using json_alloc_ok by (simp add: json_ok_def)

lemma json_loop_suffix: "json_ok j \<Longrightarrow> json_loop f j d = Ret (j', d') \<Longrightarrow> suffix d' d"
proof (induction f arbitrary: j d)
  case (Suc f)
  show ?case
  proof (cases "d = [] \<or> js_finish j")
    case False
    obtain j1 d1 where 1: "json_callback (js_status j) j d = Ret (j1, d1)" "json_ok j1"
      using callback_turn [OF Suc.prems(1), of d] False by (auto simp: turn_ok_def split: cres.splits)
    then have "json_loop f j1 d1 = Ret (j', d')" using Suc.prems(2) False by (simp add: json_loop.simps [of "Suc f"])
    then have "suffix d' d1" by (rule Suc.IH [OF 1(2)])
    moreover have "suffix d1 d" using callback_app [OF Suc.prems(1), of d "[]"] 1(1) by (simp add: app_ok_def)
    ultimately show ?thesis by (rule suffix_order.trans)
  qed (use Suc.prems(2) in \<open>auto simp: json_loop.simps\<close>)
qed (auto simp: json_loop.simps split: if_splits)

lemma json_feed_ok: "json_ok j \<Longrightarrow> \<exists>j'. json_feed j cs = Ret j' \<and> json_ok j'"
proof (induction cs arbitrary: j)
  case (Cons c cs)
  then show ?case using json_update_ok [OF Cons.prems, of c] by fastforce
qed simp

text \<open>
  C7: Whatever the bytes, the chunks and the flags, parsing runs into no null pointer and leaves a tree:
  every node but the root is among the children of its parent and nowhere else, brackets match, the
  value of a tag is a child of its node, and the counter counts the nodes.
\<close>

theorem json_safe: "\<exists>j. json_feed (acl_json_alloc\<lparr>js_flag := fl\<rparr>) cs = Ret j \<and> json_ok j"
  by (rule json_feed_ok [OF json_start_ok])

text \<open>
  C8: The state machine never gets stuck: after any chunks, a further one is read to its end, or up to the
  place where the document is complete, and the pointer returned points into it.
\<close>

theorem json_update_ends:
  assumes "json_feed (acl_json_alloc\<lparr>js_flag := fl\<rparr>) cs = Ret j"
  shows "\<exists>j' rest. acl_json_update j d = Ret (j', rest) \<and> suffix rest d \<and> (rest = [] \<or> acl_json_finish j')"
proof -
  have "json_ok j" using json_feed_ok [OF json_start_ok, of fl cs] assms by auto
  then obtain j' rest where u: "acl_json_update j d = Ret (j', rest)" "rest = [] \<or> js_finish j'" using json_update_ok by blast
  then have "suffix rest d" using json_loop_suffix [OF \<open>json_ok j\<close>] unfolding acl_json_update_def by blast
  with u show ?thesis by simp
qed

theorem json_update_ends_witness:
  "\<exists>j j' rest. json_feed (acl_json_alloc\<lparr>js_flag := 1\<rparr>) [bytes_of ''{\"k\": [1'', bytes_of '', tr''] = Ret j
    \<and> acl_json_update j (bytes_of ''ue]} x'') = Ret (j', rest) \<and> rest = bytes_of '' x''"
proof -
  obtain j where j: "json_feed (acl_json_alloc\<lparr>js_flag := 1\<rparr>) [bytes_of ''{\"k\": [1'', bytes_of '', tr''] = Ret j"
    using json_feed_ok [OF json_start_ok] by blast
  obtain j' rest where u: "acl_json_update j (bytes_of ''ue]} x'') = Ret (j', rest)"
    using json_update_ends [OF j, of "bytes_of ''ue]} x''"] by blast
  have "(case json_feed (acl_json_alloc\<lparr>js_flag := 1\<rparr>) [bytes_of ''{\"k\": [1'', bytes_of '', tr''] of Fault \<Rightarrow> False
    | Ret j \<Rightarrow> (case acl_json_update j (bytes_of ''ue]} x'') of Fault \<Rightarrow> False | Ret (_, rest) \<Rightarrow> rest = bytes_of '' x''))" by code_simp
  then show ?thesis using j u by auto
qed

text \<open>
  C6: It does not matter how a text is cut: feeding the parser with its chunks builds the same tree, in
  the same state of the machine, as feeding it with the whole text, whatever the bytes and the flags.
\<close>

theorem json_chunks: "json_feed (acl_json_alloc\<lparr>js_flag := fl\<rparr>) cs = map_cres fst (acl_json_update (acl_json_alloc\<lparr>js_flag := fl\<rparr>) (concat cs))"
  by (rule json_feed_concat [OF json_start_ok])

end
