(* ===== verification/Json_Roundtrip.thy ===== *)
theory Json_Roundtrip
  imports Json_Rep Json_Stream
begin

text \<open>Parsing the text of a value builds a tree that stands for it, and building gives the text back.\<close>

subsection \<open>Turns of the machine\<close>

definition jstep :: "acl_json \<times> byte list \<Rightarrow> acl_json \<times> byte list \<Rightarrow> bool" where
  "jstep x y \<longleftrightarrow> snd x \<noteq> [] \<and> \<not> js_finish (fst x) \<and> json_callback (js_status (fst x)) (fst x) (snd x) = Ret y"

abbreviation jsteps :: "acl_json \<times> byte list \<Rightarrow> acl_json \<times> byte list \<Rightarrow> bool" where
  "jsteps \<equiv> jstep\<^sup>*\<^sup>*"

lemma jsteps_loop: "jsteps x y \<Longrightarrow> snd y = [] \<or> js_finish (fst y) \<Longrightarrow> \<exists>f. json_loop f (fst x) (snd x) = Ret y"
proof (induction rule: converse_rtranclp_induct)
  case base
  then show ?case by (auto simp: json_loop.simps)
next
  case (step x z)
  then obtain f where "json_loop f (fst z) (snd z) = Ret y" by blast
  then have "json_loop (Suc f) (fst x) (snd x) = Ret y" using step(1) by (auto simp: json_loop.simps [of "Suc f"] jstep_def split_beta)
  then show ?case by blast
qed

lemma jsteps_update: "json_ok j \<Longrightarrow> jsteps (j, d) (j', d') \<Longrightarrow> d' = [] \<or> js_finish j' \<Longrightarrow> acl_json_update j d = Ret (j', d')"
  using jsteps_loop [of "(j, d)" "(j', d')"] json_update_loop by auto

lemma jsteps_flag: "jsteps x y \<Longrightarrow> json_ok (fst x) \<Longrightarrow> json_ok (fst y) \<and> js_flag (fst y) = js_flag (fst x)"
proof (induction rule: rtranclp_induct)
  case (step y z)
  then show ?case using callback_turn [of "fst y" "snd y"] by (cases z) (auto simp: jstep_def turn_ok_def)
qed simp

text \<open>The machine in a state, at a node; and after the end of a container.\<close>

definition jat :: "acl_json \<Rightarrow> json_status \<Rightarrow> nat \<Rightarrow> bool" where
  "jat j st i \<longleftrightarrow> json_ok j \<and> \<not> js_finish j \<and> \<not> part_word_flag j \<and> js_status j = st \<and> js_curr j = i"

definition closed :: "acl_json \<Rightarrow> nat \<Rightarrow> bool" where
  "closed j i \<longleftrightarrow> json_ok j \<and> \<not> part_word_flag j \<and> (if i = 0 then js_finish j else \<not> js_finish j \<and> js_status j = JS_NEXT \<and> js_curr j = i)"

lemma jat_step:
  assumes "jat j st i" "d \<noteq> []" "json_callback st j d = Ret (j', d')"
  shows "jstep (j, d) (j', d') \<and> json_ok j' \<and> js_flag j' = js_flag j"
  using assms callback_turn [of j d] by (auto simp: jat_def jstep_def turn_ok_def)

lemma jatD:
  assumes "jat j st i"
  shows "json_ok j" "js_finish j = False" "part_word_flag j = False" "js_status j = st" "js_curr j = i" "js_root j = 0"
    "i < length (js_nodes j)" "tree_ok (js_nodes j)"
  using assms json_okD by (auto simp: jat_def)

lemma part_word_same: "js_flag j' = js_flag j \<Longrightarrow> part_word_flag j' = part_word_flag j"
  by (simp add: part_word_flag_def)

text \<open>A step that is not the last.\<close>

lemma jat_next:
  assumes "jat j st i" "d \<noteq> []" "json_callback st j d = Ret (j', d')" "js_finish j' = False" "js_status j' = st'" "js_curr j' = i'"
  shows "jstep (j, d) (j', d') \<and> jat j' st' i'"
  using jat_step [OF assms(1-3)] assms(4-6) jatD(3) [OF assms(1)] part_word_same [of j' j] by (simp add: jat_def)

subsection \<open>A new node\<close>

definition add_kid :: "jnode list \<Rightarrow> nat \<Rightarrow> jnode \<Rightarrow> jnode list" where
  "add_kid ns p n = ns[p := (ns ! p)\<lparr>jn_children := jn_children (ns ! p) @ [length ns]\<rparr>] @ [n]"

lemma add_kid_simps [simp]:
  "length (add_kid ns p n) = Suc (length ns)" "(add_kid ns p n)[length ns := m] = add_kid ns p m" "add_kid ns p n ! length ns = n"
  "x < length ns \<Longrightarrow> add_kid ns p n ! x = (if x = p then (ns ! p)\<lparr>jn_children := jn_children (ns ! p) @ [length ns]\<rparr> else ns ! x)"
  by (auto simp: add_kid_def nth_append list_update_append)

definition fresh :: "jnode \<Rightarrow> nat \<Rightarrow> 16 word \<Rightarrow> byte \<Rightarrow> byte \<Rightarrow> bool" where
  "fresh n p t l r \<longleftrightarrow> jn_ltag n = [] \<and> jn_text n = [] \<and> jn_tag_node n = None \<and> jn_parent n = Some p \<and> jn_children n = [] \<and> jn_type n = t
     \<and> jn_quote n = 0 \<and> jn_left_ch n = l \<and> jn_right_ch n = r \<and> \<not> jn_backslash n \<and> \<not> jn_part_word n"

lemma new_child_kid:
  assumes "jat j st p" "\<And>n. jn_children (init n) = jn_children n"
  shows "\<exists>c nd. json_new_child j init = Ret (j\<lparr>js_nodes := add_kid (js_nodes j) p ((init jnode0)\<lparr>jn_depth := nd, jn_parent := Some p\<rparr>),
     js_node_cnt := c, js_depth := max (js_depth j) (uint nd)\<rparr>, length (js_nodes j))"
  using json_new_child_eq [OF jatD(1) [OF assms(1)] assms(2)] jatD(5) [OF assms(1)] unfolding add_kid_def by auto

lemma member_step:
  assumes "jat j JS_MEMBER p" "d \<noteq> []"
  shows "\<exists>j' n. jstep (j, d) (j', d) \<and> jat j' JS_PAIR (length (js_nodes j)) \<and> js_nodes j' = add_kid (js_nodes j) p n \<and> fresh n p JT_MEMBER 0 0"
proof -
  obtain c nd where "json_new_child j (\<lambda>n. n\<lparr>jn_type := JT_MEMBER\<rparr>) = Ret (j\<lparr>js_nodes := add_kid (js_nodes j) p (jnode0\<lparr>jn_type := JT_MEMBER, jn_depth := nd, jn_parent := Some p\<rparr>),
     js_node_cnt := c, js_depth := max (js_depth j) (uint nd)\<rparr>, length (js_nodes j))"
    using new_child_kid [OF assms(1), of "\<lambda>n. n\<lparr>jn_type := JT_MEMBER\<rparr>"] by auto
  then obtain j' where j': "json_callback JS_MEMBER j d = Ret (j', d)" "js_finish j' = False" "js_status j' = JS_PAIR" "js_curr j' = length (js_nodes j)"
    "js_nodes j' = add_kid (js_nodes j) p (jnode0\<lparr>jn_type := JT_MEMBER, jn_depth := nd, jn_parent := Some p\<rparr>)"
    using jatD(2) [OF assms(1)] by (simp add: json_member_def)
  moreover have "fresh (jnode0\<lparr>jn_type := JT_MEMBER, jn_depth := nd, jn_parent := Some p\<rparr>) p JT_MEMBER 0 0" by (simp add: fresh_def jnode0_def)
  ultimately show ?thesis using jat_next [OF assms j'(1-4)] by blast
qed

lemma element_step:
  assumes "jat j JS_ELEMENT p" "d = c # rest" "\<not> is_space c" "c \<noteq> c_lbrace" "c \<noteq> c_lbrack"
  shows "\<exists>j' n. jstep (j, d) (j', d) \<and> jat j' JS_VALUE (length (js_nodes j)) \<and> js_nodes j' = add_kid (js_nodes j) p n \<and> fresh n p JT_ELEMENT 0 0"
proof -
  obtain k nd where "json_new_child j (\<lambda>n. n\<lparr>jn_type := JT_ELEMENT\<rparr>) = Ret (j\<lparr>js_nodes := add_kid (js_nodes j) p (jnode0\<lparr>jn_type := JT_ELEMENT, jn_depth := nd, jn_parent := Some p\<rparr>),
     js_node_cnt := k, js_depth := max (js_depth j) (uint nd)\<rparr>, length (js_nodes j))"
    using new_child_kid [OF assms(1), of "\<lambda>n. n\<lparr>jn_type := JT_ELEMENT\<rparr>"] by auto
  then obtain j' where j': "json_callback JS_ELEMENT j d = Ret (j', d)" "js_finish j' = False" "js_status j' = JS_VALUE" "js_curr j' = length (js_nodes j)"
    "js_nodes j' = add_kid (js_nodes j) p (jnode0\<lparr>jn_type := JT_ELEMENT, jn_depth := nd, jn_parent := Some p\<rparr>)"
    using jatD(2) [OF assms(1)] assms(2-5) by (simp add: json_element_def)
  moreover have "fresh (jnode0\<lparr>jn_type := JT_ELEMENT, jn_depth := nd, jn_parent := Some p\<rparr>) p JT_ELEMENT 0 0" by (simp add: fresh_def jnode0_def)
  ultimately show ?thesis using jat_next [OF assms(1) _ j'(1-4)] assms(2) by blast
qed

text \<open>A container: the new node, and the pointer to it in a node with a tag.\<close>

definition tagged :: "jnode list \<Rightarrow> nat \<Rightarrow> jnode list" where
  "tagged ns p = (if jn_ltag (ns ! p) \<noteq> [] then ns[p := (ns ! p)\<lparr>jn_tag_node := Some (length ns - 1)\<rparr>] else ns)"

lemma tag_child_kid:
  assumes "js_curr j = p" "p < length ns" "js_nodes j = add_kid ns p n" "length (js_nodes j) = Suc (length ns)"
  shows "json_tag_child j (length ns) = Ret (j\<lparr>js_nodes := tagged (js_nodes j) p\<rparr>)"
proof -
  let ?m = "js_nodes j ! p"
  have l: "p < length (js_nodes j)" using assms by simp
  have "jn_upd j p (\<lambda>n. if jn_ltag n \<noteq> [] then n\<lparr>jn_tag_node := Some (length ns)\<rparr> else n) = Ret (j\<lparr>js_nodes := tagged (js_nodes j) p\<rparr>)"
    using l assms(4) by (cases "jn_ltag ?m = []") (simp_all add: tagged_def del: add_kid_simps)
  then show ?thesis using assms(1) by (simp add: json_tag_child_def)
qed

lemma obj_step:
  assumes "jat j JS_OBJ p" "d = c # rest" "\<not> is_space c"
  shows "\<exists>j' n. jstep (j, d) (j', d) \<and> jat j' JS_MEMBER (length (js_nodes j)) \<and> js_nodes j' = tagged (add_kid (js_nodes j) p n) p
    \<and> fresh n p JT_OBJ c_lbrace c_rbrace"
proof -
  let ?init = "\<lambda>n. n\<lparr>jn_type := JT_OBJ, jn_left_ch := c_lbrace, jn_right_ch := c_rbrace\<rparr>"
  obtain k nd where nc: "json_new_child j ?init = Ret (j\<lparr>js_nodes := add_kid (js_nodes j) p ((?init jnode0)\<lparr>jn_depth := nd, jn_parent := Some p\<rparr>),
     js_node_cnt := k, js_depth := max (js_depth j) (uint nd)\<rparr>, length (js_nodes j))"
    using new_child_kid [OF assms(1), of ?init] by auto
  define n where "n = (?init jnode0)\<lparr>jn_depth := nd, jn_parent := Some p\<rparr>"
  define j1 where "j1 = j\<lparr>js_nodes := add_kid (js_nodes j) p n, js_node_cnt := k, js_depth := max (js_depth j) (uint nd)\<rparr>"
  have "json_tag_child j1 (length (js_nodes j)) = Ret (j1\<lparr>js_nodes := tagged (js_nodes j1) p\<rparr>)"
    by (rule tag_child_kid) (use jatD [OF assms(1)] in \<open>auto simp: j1_def\<close>)
  then obtain j' where j': "json_callback JS_OBJ j d = Ret (j', d)" "js_finish j' = False" "js_status j' = JS_MEMBER" "js_curr j' = length (js_nodes j)"
    "js_nodes j' = tagged (add_kid (js_nodes j) p n) p"
    using nc assms(2,3) jatD(2) [OF assms(1)] unfolding n_def [symmetric] j1_def [symmetric] by (simp add: json_obj_def j1_def)
  moreover have "fresh n p JT_OBJ c_lbrace c_rbrace" by (simp add: n_def fresh_def jnode0_def)
  ultimately show ?thesis using jat_next [OF assms(1) _ j'(1-4)] assms(2) by blast
qed

lemma array_step:
  assumes "jat j JS_ARRAY p" "d = c # rest" "\<not> is_space c"
  shows "\<exists>j' n. jstep (j, d) (j', if c = c_rbrack then rest else d) \<and> jat j' (if c = c_rbrack then JS_NEXT else JS_ELEMENT) (length (js_nodes j))
    \<and> js_nodes j' = tagged (add_kid (js_nodes j) p n) p \<and> fresh n p JT_ARRAY c_lbrack c_rbrack"
proof -
  let ?init = "\<lambda>n. n\<lparr>jn_left_ch := c_lbrack, jn_right_ch := c_rbrack, jn_type := JT_ARRAY\<rparr>"
  obtain k nd where nc: "json_new_child j ?init = Ret (j\<lparr>js_nodes := add_kid (js_nodes j) p ((?init jnode0)\<lparr>jn_depth := nd, jn_parent := Some p\<rparr>),
     js_node_cnt := k, js_depth := max (js_depth j) (uint nd)\<rparr>, length (js_nodes j))"
    using new_child_kid [OF assms(1), of ?init] by auto
  define n where "n = (?init jnode0)\<lparr>jn_depth := nd, jn_parent := Some p\<rparr>"
  define j1 where "j1 = j\<lparr>js_nodes := add_kid (js_nodes j) p n, js_node_cnt := k, js_depth := max (js_depth j) (uint nd)\<rparr>"
  have "json_tag_child j1 (length (js_nodes j)) = Ret (j1\<lparr>js_nodes := tagged (js_nodes j1) p\<rparr>)"
    by (rule tag_child_kid) (use jatD [OF assms(1)] in \<open>auto simp: j1_def\<close>)
  then obtain j' where j': "json_callback JS_ARRAY j d = Ret (j', if c = c_rbrack then rest else d)" "js_finish j' = False"
    "js_status j' = (if c = c_rbrack then JS_NEXT else JS_ELEMENT)" "js_curr j' = length (js_nodes j)" "js_nodes j' = tagged (add_kid (js_nodes j) p n) p"
    using nc assms(2,3) jatD(2) [OF assms(1)] unfolding n_def [symmetric] j1_def [symmetric]
    by (cases "c = c_rbrack") (simp_all add: json_array_def j1_def Let_def)
  moreover have "fresh n p JT_ARRAY c_lbrack c_rbrack" by (simp add: n_def fresh_def jnode0_def)
  ultimately show ?thesis using jat_next [OF assms(1) _ j'(1-4)] assms(2) by blast
qed

subsection \<open>Collecting text\<close>

abbreviation scan0 :: "byte \<Rightarrow> byte list \<Rightarrow> jscan" where
  "scan0 q b \<equiv> \<lparr>sc_quote = q, sc_backslash = False, sc_part_word = False, sc_buf = b\<rparr>"

lemma scan_escaped: "json_scan stop False (scan0 c_quot b) (json_escape c @ d) = json_scan stop False (scan0 c_quot (b @ [c])) d"
  by (auto simp: json_escape_def scan_step_def scan_add_def scan_word_def json_unescape_def)

lemma scan_quoted: "json_scan stop False (scan0 c_quot b) (concat (map json_escape s) @ c_quot # d) = (scan0 c_quot (b @ s), EndQuote, d)"
  by (induction s arbitrary: b) (simp_all add: scan_escaped, simp add: scan_step_def)

lemma scan_plain: "list_all (\<lambda>c. c \<noteq> c_bslash \<and> \<not> stop c) s \<Longrightarrow> stop x \<Longrightarrow> x \<noteq> c_bslash \<Longrightarrow> json_scan stop False (scan0 0 b) (s @ x # d) = (scan0 0 (b @ s), EndPlain, x # d)"
  by (induction s arbitrary: b) (simp_all add: scan_step_def scan_word_def scan_add_def)

lemma num_byte_text: "num_byte c \<Longrightarrow> c \<noteq> c_bslash \<and> \<not> text_stop c \<and> \<not> is_space c \<and> \<not> is_quote c \<and> c \<noteq> c_lbrace \<and> c \<noteq> c_lbrack"
  using digit_less [of c] by (auto simp: num_byte_def text_stop_def is_space_def is_quote_def)

text \<open>The text of a scalar without quotes, and how a value begins.\<close>

lemma plain_text:
  assumes "scalar v" "jval_ok v" "scal_quote v = 0"
  shows "render v = scal_text v" "list_all (\<lambda>c. c \<noteq> c_bslash \<and> \<not> text_stop c) (scal_text v)"
    "\<exists>c t. scal_text v = c # t \<and> \<not> is_space c \<and> \<not> is_quote c \<and> c \<notin> {c_lbrace, c_lbrack, c_comma, c_semi}"
proof -
  show "render v = scal_text v" using assms by (cases v) auto
  show "list_all (\<lambda>c. c \<noteq> c_bslash \<and> \<not> text_stop c) (scal_text v)"
    using assms num_ok_bytes num_byte_text by (cases v) (auto simp: list_all_iff text_stop_def is_space_def)
  show "\<exists>c t. scal_text v = c # t \<and> \<not> is_space c \<and> \<not> is_quote c \<and> c \<notin> {c_lbrace, c_lbrack, c_comma, c_semi}"
  proof (cases v)
    case (JNum t)
    then obtain c u where "t = c # u" "num_byte c" using assms(2) num_ok_bytes [of t] by (cases t) auto
    then show ?thesis using JNum num_byte_text [of c] by (auto simp: text_stop_def)
  qed (use assms in \<open>auto simp: is_space_def is_quote_def\<close>)
qed

lemma render_head:
  assumes "jval_ok v"
  obtains c t where "render v = c # t" "\<not> is_space c" "scalar v \<Longrightarrow> c \<noteq> c_lbrace \<and> c \<noteq> c_lbrack" "c \<noteq> c_rbrack"
    "c \<noteq> c_comma" "c \<noteq> c_semi"
proof (cases "scalar v \<and> scal_quote v = 0")
  case True
  then obtain c t where c: "scal_text v = c # t" "\<not> is_space c" "c \<notin> {c_lbrace, c_lbrack, c_comma, c_semi}" "\<not> text_stop c"
    using plain_text [of v] assms by auto
  then show ?thesis using that [of c t] True plain_text(1) [of v] assms by (auto simp: text_stop_def)
next
  case False
  then show ?thesis using that by (cases v) (auto simp: json_escape_append_def is_space_def)
qed

subsection \<open>A scalar\<close>

definition plain :: "jnode \<Rightarrow> nat \<Rightarrow> byte list \<Rightarrow> bool" where
  "plain n p k \<longleftrightarrow> jn_ltag n = k \<and> jn_text n = [] \<and> jn_tag_node n = None \<and> jn_parent n = Some p \<and> jn_children n = []
     \<and> jn_quote n = 0 \<and> jn_left_ch n = 0 \<and> jn_right_ch n = 0 \<and> \<not> jn_backslash n \<and> \<not> jn_part_word n"

text \<open>Changing the new node.\<close>

lemma upd_kid:
  assumes "jat j st (length ns)" "js_nodes j = add_kid ns p n"
  shows "jn_upd j (length ns) f = Ret (j\<lparr>js_nodes := add_kid ns p (f n)\<rparr>)" "jn_get j (length ns) = Ret n"
  using assms by simp_all

lemma value_text:
  assumes at: "jat j JS_VALUE (length ns)" and ns: "js_nodes j = add_kid ns p n" and n: "plain n p k" and v: "scalar v" "jval_ok v" and x: "text_stop x" "x \<noteq> c_bslash"
  shows "\<exists>j' n'. jsteps (j, render v @ x # rest) (j', x # rest) \<and> jat j' JS_STREND (length ns) \<and> js_nodes j' = add_kid ns p n'
    \<and> n' = n\<lparr>jn_type := JT_LEAF, jn_text := scal_text v, jn_quote := scal_quote v\<rparr>"
proof -
  let ?q = "scal_quote v" and ?d = "render v @ x # rest"
  define d1 where "d1 = (if ?q = 0 then ?d else concat (map json_escape (scal_text v)) @ c_quot # x # rest)"
  define n1 where "n1 = n\<lparr>jn_quote := ?q, jn_type := JT_LEAF\<rparr>"
  define j1 where "j1 = j\<lparr>js_nodes := add_kid ns p n1, js_status := JS_STRING\<rparr>"
  define n2 where "n2 = n1\<lparr>jn_text := scal_text v, jn_backslash := False, jn_part_word := False\<rparr>"
  define j2 where "j2 = j1\<lparr>js_nodes := add_kid ns p n2, js_status := JS_STREND\<rparr>"
  have q0: "jn_quote n = 0" using n by (simp add: plain_def)
  then have nq: "n\<lparr>jn_quote := 0, jn_type := JT_LEAF\<rparr> = n\<lparr>jn_type := JT_LEAF\<rparr>" by simp
  have 1: "json_callback JS_VALUE j ?d = Ret (j1, d1)"
  proof (cases "?q = 0")
    case True
    obtain c t where "scal_text v = c # t" "\<not> is_space c" "\<not> is_quote c" "c \<notin> {c_lbrace, c_lbrack, c_comma, c_semi}"
      using plain_text(3) [OF v True] by blast
    then show ?thesis using True plain_text(1) [OF v True] jatD(5) [OF at] upd_kid(1) [OF at ns] nq
      by (simp add: json_value_def d1_def j1_def n1_def del: jn_upd_ok)
  next
    case False
    then obtain s where s: "v = JStr s" by (cases v) auto
    then show ?thesis using jatD(5) [OF at] upd_kid(1) [OF at ns]
      by (simp add: json_value_def d1_def j1_def n1_def json_escape_append_def is_space_def is_quote_def del: jn_upd_ok)
  qed
  have st1: "jstep (j, ?d) (j1, d1) \<and> jat j1 JS_STRING (length ns)"
    by (rule jat_next [OF at _ 1]) (use jatD [OF at] in \<open>simp_all add: j1_def\<close>)
  have ns1: "js_nodes j1 = add_kid ns p n1" by (simp add: j1_def)
  have "json_scan text_stop False (scan0 ?q []) d1 = (scan0 ?q (scal_text v), if ?q = 0 then EndPlain else EndQuote, x # rest)"
  proof (cases "?q = 0")
    case True
    then show ?thesis using scan_plain [OF plain_text(2) [OF v True] x, of "[]" rest] plain_text(1) [OF v True] by (simp add: d1_def)
  next
    case False
    then have "?q = c_quot" by (cases v) auto
    then show ?thesis using scan_quoted [of text_stop "[]" "scal_text v" "x # rest"] by (simp add: d1_def)
  qed
  moreover have "jn_quote n1 = ?q" "jn_text n1 = []" "jn_backslash n1 = False" "jn_part_word n1 = False"
    using n by (simp_all add: n1_def plain_def)
  ultimately have 2: "json_callback JS_STRING j1 d1 = Ret (j2, x # rest)"
    using jatD(3,5) [OF conjunct2 [OF st1]] upd_kid [OF conjunct2 [OF st1] ns1]
    by (simp add: json_string_def Let_def j2_def n2_def del: jn_upd_ok jn_get_ok)
  have d1: "d1 \<noteq> []" by (simp add: d1_def)
  have st2: "jstep (j1, d1) (j2, x # rest) \<and> jat j2 JS_STREND (length ns)"
    by (rule jat_next [OF conjunct2 [OF st1] d1 2]) (use jatD [OF conjunct2 [OF st1]] in \<open>simp_all add: j2_def\<close>)
  have "n2 = n\<lparr>jn_type := JT_LEAF, jn_text := scal_text v, jn_quote := ?q\<rparr>" using n by (intro jnode.equality) (simp_all add: n2_def n1_def plain_def)
  moreover have "jsteps (j, ?d) (j2, x # rest)" using st1 st2 by (meson converse_rtranclp_into_rtranclp rtranclp.rtrancl_refl)
  moreover have "js_nodes j2 = add_kid ns p n2" by (simp add: j2_def)
  ultimately show ?thesis using st2 by blast
qed

text \<open>The byte behind a scalar in a container.\<close>

definition cont_ok :: "jnode list \<Rightarrow> nat \<Rightarrow> bool" where
  "cont_ok ns p \<longleftrightarrow> p < length ns \<and> (cont_node (ns ! p) c_lbrace c_rbrace JT_OBJ \<or> cont_node (ns ! p) c_lbrack c_rbrack JT_ARRAY)"

definition next_item :: "jnode \<Rightarrow> json_status" where
  "next_item n = (if jn_left_ch n = c_lbrace then JS_MEMBER else JS_ELEMENT)"

lemma strend_comma:
  assumes at: "jat j JS_STREND (length ns)" and ns: "js_nodes j = add_kid ns p n" and n: "jn_parent n = Some p" and p: "cont_ok ns p"
  shows "\<exists>j'. jsteps (j, c_comma # rest) (j', rest) \<and> jat j' (next_item (ns ! p)) p
    \<and> js_nodes j' = add_kid ns p (n\<lparr>jn_type := scalar_type (jn_type (ns ! p) = JT_ARRAY) (jn_quote n) (jn_text n)\<rparr>)"
proof -
  define m where "m = n\<lparr>jn_type := scalar_type (jn_type (ns ! p) = JT_ARRAY) (jn_quote n) (jn_text n)\<rparr>"
  define j1 where "j1 = j\<lparr>js_nodes := add_kid ns p m, js_status := JS_NEXT\<rparr>"
  define j2 where "j2 = j1\<lparr>js_status := next_item (ns ! p), js_curr := p\<rparr>"
  have pl: "p < length ns" "jn_left_ch (ns ! p) = c_lbrace \<or> jn_left_ch (ns ! p) = c_lbrack"
    using p by (auto simp: cont_ok_def cont_node_def)
  have 1: "json_callback JS_STREND j (c_comma # rest) = Ret (j1, c_comma # rest)"
    using jatD(5) [OF at] ns n pl(1) by (simp add: json_strend_def j1_def m_def is_space_def)
  have st1: "jstep (j, c_comma # rest) (j1, c_comma # rest) \<and> jat j1 JS_NEXT (length ns)"
    by (rule jat_next [OF at _ 1]) (use jatD [OF at] in \<open>simp_all add: j1_def\<close>)
  have "parent_get j1 (length ns) = Ret (p, js_nodes j1 ! p)"
    using n pl(1) by (simp add: parent_get_def acl_json_node_parent_def j1_def m_def)
  then have 2: "json_callback JS_NEXT j1 (c_comma # rest) = Ret (j2, rest)"
    using jatD(5,6) [OF conjunct2 [OF st1]] pl
    by (auto simp: json_brother_def j2_def next_item_def is_space_def j1_def Let_def)
  have st2: "jstep (j1, c_comma # rest) (j2, rest) \<and> jat j2 (next_item (ns ! p)) p"
    by (rule jat_next [OF conjunct2 [OF st1] _ 2]) (use jatD [OF at] in \<open>simp_all add: j2_def j1_def\<close>)
  have "js_nodes j2 = add_kid ns p m" by (simp add: j2_def j1_def)
  moreover have "jsteps (j, c_comma # rest) (j2, rest)" using st1 st2 by (meson converse_rtranclp_into_rtranclp rtranclp.rtrancl_refl)
  ultimately show ?thesis using st2 unfolding m_def by blast
qed

lemma strend_close:
  assumes at: "jat j JS_STREND (length ns)" and ns: "js_nodes j = add_kid ns p n" and n: "jn_parent n = Some p" and p: "cont_ok ns p"
    and x: "x = jn_right_ch (ns ! p)"
  shows "\<exists>j'. jsteps (j, x # rest) (j', rest) \<and> closed j' p
    \<and> js_nodes j' = add_kid ns p (n\<lparr>jn_type := scalar_type (jn_type (ns ! p) = JT_ARRAY) (jn_quote n) (jn_text n)\<rparr>)"
proof -
  define m where "m = n\<lparr>jn_type := scalar_type (jn_type (ns ! p) = JT_ARRAY) (jn_quote n) (jn_text n)\<rparr>"
  define j1 where "j1 = (let j = j\<lparr>js_nodes := add_kid ns p m\<rparr> in if p = 0 then j\<lparr>js_finish := True\<rparr> else j\<lparr>js_curr := p, js_status := JS_NEXT\<rparr>)"
  have pl: "p < length ns" "x = c_rbrace \<or> x = c_rbrack" using p x by (auto simp: cont_ok_def cont_node_def)
  have right: "jn_right_ch (add_kid ns p m ! p) = x" using pl(1) x by simp
  have "\<not> is_space x" "x \<noteq> c_comma" "x \<noteq> c_semi" using pl(2) by (auto simp: is_space_def)
  moreover have "parent_get (j\<lparr>js_nodes := add_kid ns p m\<rparr>) (length ns) = Ret (p, add_kid ns p m ! p)"
    using n pl(1) by (simp add: parent_get_def acl_json_node_parent_def m_def)
  ultimately have 1: "json_callback JS_STREND j (x # rest) = Ret (j1, rest)"
    using jatD(5,6) [OF at] ns n pl(1) right by (simp add: json_strend_def j1_def m_def Let_def)
  have st: "jstep (j, x # rest) (j1, rest)" "json_ok j1" "js_flag j1 = js_flag j" using jat_step [OF at _ 1] by auto
  then have "closed j1 p" using jatD(2,3) [OF at] part_word_same [of j1 j] by (simp add: closed_def j1_def Let_def)
  moreover have "js_nodes j1 = add_kid ns p m" by (simp add: j1_def Let_def)
  ultimately show ?thesis using st(1) unfolding m_def by blast
qed

lemma scalar_run:
  assumes at: "jat j JS_VALUE (length ns)" and ns: "js_nodes j = add_kid ns p n" and n: "plain n p k" and v: "scalar v" "jval_ok v"
    and p: "cont_ok ns p" and x: "x = c_comma \<or> x = jn_right_ch (ns ! p)"
  shows "\<exists>j' n'. jsteps (j, render v @ x # rest) (j', rest) \<and> js_nodes j' = add_kid ns p n' \<and> leaf_node n' (jn_type (ns ! p) = JT_ARRAY) k v
    \<and> (if x = c_comma then jat j' (next_item (ns ! p)) p else closed j' p)"
proof -
  have xs: "text_stop x" "x \<noteq> c_bslash" using x p by (auto simp: cont_ok_def cont_node_def text_stop_def)
  define m where "m = n\<lparr>jn_type := JT_LEAF, jn_text := scal_text v, jn_quote := scal_quote v\<rparr>"
  define m' where "m' = m\<lparr>jn_type := scalar_type (jn_type (ns ! p) = JT_ARRAY) (jn_quote m) (jn_text m)\<rparr>"
  obtain j1 where 1: "jsteps (j, render v @ x # rest) (j1, x # rest)" "jat j1 JS_STREND (length ns)" "js_nodes j1 = add_kid ns p m"
    using value_text [OF at ns n v xs] unfolding m_def by blast
  have pm: "jn_parent m = Some p" using n by (simp add: m_def plain_def)
  have leaf: "leaf_node m' (jn_type (ns ! p) = JT_ARRAY) k v" using n by (simp add: leaf_node_def m'_def m_def plain_def)
  obtain j2 where 2: "jsteps (j1, x # rest) (j2, rest)" "js_nodes j2 = add_kid ns p m'"
    "if x = c_comma then jat j2 (next_item (ns ! p)) p else closed j2 p"
  proof (cases "x = c_comma")
    case True
    then show thesis using strend_comma [OF 1(2,3) pm p, of rest] that unfolding m'_def by auto
  next
    case False
    then have "x = jn_right_ch (ns ! p)" using x by simp
    then show thesis using strend_close [OF 1(2,3) pm p, of x rest] that False unfolding m'_def by auto
  qed
  then show ?thesis using 1(1) leaf rtranclp_trans [of jstep] by blast
qed

subsection \<open>Growing trees\<close>

definition grow :: "jnode list \<Rightarrow> nat \<Rightarrow> nat list \<Rightarrow> jnode list \<Rightarrow> bool" where
  "grow ns p cs ns' \<longleftrightarrow> p < length ns \<and> length ns \<le> length ns'
     \<and> (\<forall>x < length ns. ns' ! x = (if x = p then (ns ! p)\<lparr>jn_children := jn_children (ns ! p) @ cs\<rparr> else ns ! x))"

lemma grow_refl: "p < length ns \<Longrightarrow> grow ns p [] ns"
  by (simp add: grow_def)

lemma grow_trans: "grow ns p cs ns1 \<Longrightarrow> grow ns1 p ds ns2 \<Longrightarrow> grow ns p (cs @ ds) ns2"
  by (auto simp: grow_def)

lemma grow_kid: "p < length ns \<Longrightarrow> grow ns p [length ns] (add_kid ns p n)"
  by (simp add: grow_def)

lemma grow_cont: "grow ns p cs ns' \<Longrightarrow> cont_node (ns' ! p) l r t \<longleftrightarrow> cont_node (ns ! p) l r t"
  by (simp add: grow_def cont_node_def)

lemma grow_above: "grow ns p cs ns' \<Longrightarrow> p < i \<Longrightarrow> i \<le> x \<Longrightarrow> x < length ns \<Longrightarrow> ns' ! x = ns ! x"
  by (simp add: grow_def)

lemma closed_tree: "closed j i \<Longrightarrow> tree_ok (js_nodes j)"
  using json_okD(1) by (auto simp: closed_def)

text \<open>What it means that an item of a container is parsed as it should be: its text, and the byte behind it.\<close>

definition item_run :: "json_status \<Rightarrow> byte \<Rightarrow> byte \<Rightarrow> 16 word \<Rightarrow> (byte list \<Rightarrow> bool) \<Rightarrow> ('a \<Rightarrow> byte list) \<Rightarrow> (jnode list \<Rightarrow> nat \<Rightarrow> 'a \<Rightarrow> bool) \<Rightarrow> 'a \<Rightarrow> bool" where
  "item_run st l r t g tx rp it \<longleftrightarrow> (\<forall>j p x rest. jat j st p \<longrightarrow> cont_node (js_nodes j ! p) l r t \<longrightarrow> x = c_comma \<and> g rest \<or> x = r
     \<longrightarrow> (\<exists>j'. jsteps (j, tx it @ x # rest) (j', rest) \<and> grow (js_nodes j) p [length (js_nodes j)] (js_nodes j')
        \<and> rp (js_nodes j') (length (js_nodes j)) it \<and> (if x = c_comma then jat j' st p else closed j' p)))"

lemma item_runE:
  assumes "item_run st l r t g tx rp it" "jat j st p" "cont_node (js_nodes j ! p) l r t" "x = c_comma \<and> g rest \<or> x = r"
  obtains j' where "jsteps (j, tx it @ x # rest) (j', rest)" "grow (js_nodes j) p [length (js_nodes j)] (js_nodes j')"
    "rp (js_nodes j') (length (js_nodes j)) it" "if x = c_comma then jat j' st p else closed j' p"
  using assms unfolding item_run_def by blast

lemma items_run:
  assumes frame: "\<And>ns i it ns'. tree_ok ns \<Longrightarrow> rp ns i it \<Longrightarrow> i < length ns \<Longrightarrow> (\<And>x. i \<le> x \<Longrightarrow> x < length ns \<Longrightarrow> ns' ! x = ns ! x) \<Longrightarrow> rp ns' i it"
    and guard: "\<And>it d. it \<in> set its \<Longrightarrow> g (tx it @ d)" and r: "r \<noteq> c_comma"
    and "\<And>it. it \<in> set its \<Longrightarrow> item_run st l r t g tx rp it" "its \<noteq> []" "jat j st p" "cont_node (js_nodes j ! p) l r t"
  shows "\<exists>j' cs. jsteps (j, join [c_comma] (map tx its) @ r # rest) (j', rest) \<and> closed j' p \<and> grow (js_nodes j) p cs (js_nodes j')
    \<and> list_all2 (rp (js_nodes j')) cs its"
  using assms(2,4-7)
proof (induction its arbitrary: j)
  case (Cons it its)
  have run: "item_run st l r t g tx rp it" using Cons.prems(2) by simp
  show ?case
  proof (cases "its = []")
    case True
    obtain j' where "jsteps (j, tx it @ r # rest) (j', rest)" "grow (js_nodes j) p [length (js_nodes j)] (js_nodes j')"
      "rp (js_nodes j') (length (js_nodes j)) it" "closed j' p"
      using item_runE [OF run Cons.prems(4,5), of r rest] r by auto
    then show ?thesis using True by (intro exI [of _ j'] exI [of _ "[length (js_nodes j)]"]) simp
  next
    case False
    let ?d = "join [c_comma] (map tx its) @ r # rest"
    have "g ?d" using Cons.prems(1) False by (cases its) (auto simp: join_Cons)
    then obtain j1 where 1: "jsteps (j, tx it @ c_comma # ?d) (j1, ?d)" "grow (js_nodes j) p [length (js_nodes j)] (js_nodes j1)"
      "rp (js_nodes j1) (length (js_nodes j)) it" "jat j1 st p"
      using item_runE [OF run Cons.prems(4,5), of c_comma ?d] by auto
    have c1: "cont_node (js_nodes j1 ! p) l r t" using Cons.prems(5) grow_cont [OF 1(2)] by blast
    obtain j' cs where 2: "jsteps (j1, ?d) (j', rest)" "closed j' p" "grow (js_nodes j1) p cs (js_nodes j')" "list_all2 (rp (js_nodes j')) cs its"
      using Cons.IH [OF _ _ False 1(4) c1] Cons.prems(1,2) by auto
    have l: "p < length (js_nodes j)" using jatD(7) [OF Cons.prems(4)] .
    have "length (js_nodes j) \<in> set (jn_children (js_nodes j1 ! p))" using 1(2) l by (simp add: grow_def)
    then have "length (js_nodes j) < length (js_nodes j1)" using tree_ok_child [OF jatD(8) [OF 1(4)] jatD(7) [OF 1(4)]] by blast
    then have "rp (js_nodes j') (length (js_nodes j)) it"
      using frame [OF jatD(8) [OF 1(4)] 1(3)] grow_above [OF 2(3) l] by blast
    moreover have "jsteps (j, tx it @ c_comma # ?d) (j', rest)" using 1(1) 2(1) by (rule rtranclp_trans)
    ultimately show ?thesis using 2(2,4) grow_trans [OF 1(2) 2(3)] False
      by (intro exI [of _ j'] exI [of _ "length (js_nodes j) # cs"]) (simp add: join_Cons)
  qed
qed simp

abbreviation memb_text :: "byte list \<times> jval \<Rightarrow> byte list" where
  "memb_text kv \<equiv> quoted (fst kv) @ c_colon # render (snd kv)"

definition elem_run :: "jval \<Rightarrow> bool" where
  "elem_run v \<longleftrightarrow> item_run JS_ELEMENT c_lbrack c_rbrack JT_ARRAY (\<lambda>_. True) render rep_elem v"

definition memb_run :: "byte list \<times> jval \<Rightarrow> bool" where
  "memb_run kv \<longleftrightarrow> item_run JS_MEMBER c_lbrace c_rbrace JT_OBJ (\<lambda>d. \<exists>r. d = c_quot # r) memb_text rep_memb kv"

lemma elems_run:
  assumes "\<And>v. v \<in> set vs \<Longrightarrow> elem_run v" "vs \<noteq> []" "jat j JS_ELEMENT p" "cont_node (js_nodes j ! p) c_lbrack c_rbrack JT_ARRAY"
  shows "\<exists>j' cs. jsteps (j, join [c_comma] (map render vs) @ c_rbrack # rest) (j', rest) \<and> closed j' p \<and> grow (js_nodes j) p cs (js_nodes j')
    \<and> list_all2 (rep_elem (js_nodes j')) cs vs"
  by (rule items_run [where st = JS_ELEMENT and l = c_lbrack and t = JT_ARRAY and g = "\<lambda>_. True"])
    (use rep_frame(1) assms in \<open>auto simp: elem_run_def\<close>)

lemma membs_run:
  assumes "\<And>kv. kv \<in> set kvs \<Longrightarrow> memb_run kv" "kvs \<noteq> []" "jat j JS_MEMBER p" "cont_node (js_nodes j ! p) c_lbrace c_rbrace JT_OBJ"
  shows "\<exists>j' cs. jsteps (j, join [c_comma] (map memb_text kvs) @ c_rbrace # rest) (j', rest) \<and> closed j' p \<and> grow (js_nodes j) p cs (js_nodes j')
    \<and> list_all2 (rep_memb (js_nodes j')) cs kvs"
  by (rule items_run [where st = JS_MEMBER and l = c_lbrace and t = JT_OBJ and g = "\<lambda>d. \<exists>r. d = c_quot # r"])
    (use rep_frame(2) assms in \<open>auto simp: memb_run_def json_escape_append_def\<close>)

subsection \<open>The head of a member\<close>

lemma jsteps_two: "jstep x y \<Longrightarrow> jsteps y z \<Longrightarrow> jsteps x z"
  by (rule converse_rtranclp_into_rtranclp)

lemma memb_head:
  assumes at: "jat j JS_MEMBER p" and p: "cont_node (js_nodes j ! p) c_lbrace c_rbrace JT_OBJ"
  shows "\<exists>j' n. jsteps (j, quoted k @ c_colon # d) (j', d) \<and> jat j' JS_VALUE (length (js_nodes j)) \<and> js_nodes j' = add_kid (js_nodes j) p n \<and> plain n p k"
proof -
  let ?ns = "js_nodes j" and ?e = "concat (map json_escape k) @ c_quot # c_colon # d"
  let ?d = "quoted k @ c_colon # d"
  have d: "?d = c_quot # ?e" by (simp add: json_escape_append_def)
  obtain j1 n where 1: "jstep (j, ?d) (j1, ?d)" "jat j1 JS_PAIR (length ?ns)" "js_nodes j1 = add_kid ?ns p n" "fresh n p JT_MEMBER 0 0"
    using member_step [OF at, of ?d] d by auto
  have l: "p < length ?ns" using jatD(7) [OF at] .
  have pg: "parent_get j1 (length ?ns) = Ret (p, add_kid ?ns p n ! p)" "cont_node (add_kid ?ns p n ! p) c_lbrace c_rbrace JT_OBJ"
    using 1(3,4) l p by (simp_all add: parent_get_def acl_json_node_parent_def fresh_def cont_node_def)
  define n2 where "n2 = n\<lparr>jn_quote := c_quot, jn_type := JT_PAIR\<rparr>"
  define j2 where "j2 = j1\<lparr>js_nodes := add_kid ?ns p n2, js_status := JS_TAG\<rparr>"
  have "json_callback JS_PAIR j1 (c_quot # ?e) = Ret (j2, ?e)"
    using jatD(5) [OF 1(2)] upd_kid [OF 1(2,3)] pg 1(4)
    by (simp add: json_pair_def j2_def n2_def is_space_def is_quote_def cont_node_def fresh_def Let_def del: jn_upd_ok jn_get_ok)
  then have s2: "jstep (j1, ?d) (j2, ?e) \<and> jat j2 JS_TAG (length ?ns)"
    unfolding d by (intro jat_next [OF 1(2)]) (use jatD [OF 1(2)] in \<open>simp_all add: j2_def\<close>)
  have ns2: "js_nodes j2 = add_kid ?ns p n2" by (simp add: j2_def)
  have pg2: "parent_get j2 (length ?ns) = Ret (p, add_kid ?ns p n2 ! p)"
    using 1(4) l by (simp add: parent_get_def acl_json_node_parent_def fresh_def n2_def j2_def)
  define n3 where "n3 = n2\<lparr>jn_ltag := k, jn_quote := 0, jn_backslash := False, jn_part_word := False\<rparr>"
  define j3 where "j3 = j2\<lparr>js_nodes := add_kid ?ns p (n2\<lparr>jn_ltag := k, jn_backslash := False, jn_quote := 0, jn_part_word := False\<rparr>), js_status := JS_COLON\<rparr>"
  have "json_callback JS_TAG j2 ?e = Ret (j3, c_colon # d)"
    using jatD(3,5) [OF conjunct2 [OF s2]] upd_kid [OF conjunct2 [OF s2] ns2] pg2 1(4) p l scan_quoted [of tag_stop "[]" k "c_colon # d"]
    by (simp add: json_tag_def Let_def n2_def j3_def fresh_def cont_node_def del: jn_upd_ok jn_get_ok)
  then have s3: "jstep (j2, ?e) (j3, c_colon # d) \<and> jat j3 JS_COLON (length ?ns)"
    by (intro jat_next [OF conjunct2 [OF s2]]) (use jatD [OF conjunct2 [OF s2]] in \<open>simp_all add: j3_def\<close>)
  define j4 where "j4 = j3\<lparr>js_status := JS_VALUE\<rparr>"
  have "json_callback JS_COLON j3 (c_colon # d) = Ret (j4, d)" by (simp add: json_colon_def is_space_def j4_def)
  then have s4: "jstep (j3, c_colon # d) (j4, d) \<and> jat j4 JS_VALUE (length ?ns)"
    by (intro jat_next [OF conjunct2 [OF s3]]) (use jatD [OF conjunct2 [OF s3]] in \<open>simp_all add: j4_def\<close>)
  have "jsteps (j, ?d) (j4, d)" using 1(1) s2 s3 s4 jsteps_two rtranclp.rtrancl_refl by metis
  moreover have "js_nodes j4 = add_kid ?ns p (n2\<lparr>jn_ltag := k, jn_backslash := False, jn_quote := 0, jn_part_word := False\<rparr>)" by (simp add: j4_def j3_def)
  moreover have "plain (n2\<lparr>jn_ltag := k, jn_backslash := False, jn_quote := 0, jn_part_word := False\<rparr>) p k"
    using 1(4) by (simp add: plain_def n2_def fresh_def)
  ultimately show ?thesis using s4 by blast
qed

lemma cont_node_ok: "jat j st p \<Longrightarrow> cont_node (js_nodes j ! p) c_lbrace c_rbrace JT_OBJ \<or> cont_node (js_nodes j ! p) c_lbrack c_rbrack JT_ARRAY \<Longrightarrow> cont_ok (js_nodes j) p"
  using jatD(7) by (simp add: cont_ok_def)

lemma scalar_elem:
  assumes v: "scalar v" "jval_ok v"
  shows "elem_run v"
  unfolding elem_run_def item_run_def
proof (intro allI impI)
  fix j p x rest
  assume at: "jat j JS_ELEMENT p" and p: "cont_node (js_nodes j ! p) c_lbrack c_rbrack JT_ARRAY" and x: "x = c_comma \<and> True \<or> x = c_rbrack"
  obtain c t where c: "render v = c # t" "\<not> is_space c" "c \<noteq> c_lbrace" "c \<noteq> c_lbrack" using render_head [OF v(2)] v(1) by metis
  obtain j1 n where 1: "jstep (j, render v @ x # rest) (j1, render v @ x # rest)" "jat j1 JS_VALUE (length (js_nodes j))"
    "js_nodes j1 = add_kid (js_nodes j) p n" "fresh n p JT_ELEMENT 0 0"
    using element_step [OF at, of "render v @ x # rest" c "t @ x # rest"] c by auto
  have n: "plain n p []" using 1(4) by (simp add: fresh_def plain_def)
  have r: "jn_type (js_nodes j ! p) = JT_ARRAY" "jn_right_ch (js_nodes j ! p) = c_rbrack" "next_item (js_nodes j ! p) = JS_ELEMENT"
    using p by (simp_all add: cont_node_def next_item_def)
  have "cont_ok (js_nodes j) p" "x = c_comma \<or> x = jn_right_ch (js_nodes j ! p)" using cont_node_ok [OF at] p x r by auto
  then obtain j' n' where 2: "jsteps (j1, render v @ x # rest) (j', rest)" "js_nodes j' = add_kid (js_nodes j) p n'" "leaf_node n' True [] v"
    "if x = c_comma then jat j' JS_ELEMENT p else closed j' p"
    using scalar_run [OF 1(2,3) n v, of x rest] r by auto
  have "rep_elem (js_nodes j') (length (js_nodes j)) v" using 2(2,3) v(1) by (intro elem_scalar) simp_all
  then show "\<exists>j'. jsteps (j, render v @ x # rest) (j', rest) \<and> grow (js_nodes j) p [length (js_nodes j)] (js_nodes j')
        \<and> rep_elem (js_nodes j') (length (js_nodes j)) v \<and> (if x = c_comma then jat j' JS_ELEMENT p else closed j' p)"
    using 2(4) jsteps_two [OF 1(1) 2(1)] grow_kid [OF jatD(7) [OF at], of n'] 2(2) by auto
qed

lemma scalar_memb:
  assumes v: "scalar v" "jval_ok v" and k: "k \<noteq> []"
  shows "memb_run (k, v)"
  unfolding memb_run_def item_run_def
proof (intro allI impI)
  fix j p x rest
  assume at: "jat j JS_MEMBER p" and p: "cont_node (js_nodes j ! p) c_lbrace c_rbrace JT_OBJ" and x: "x = c_comma \<and> (\<exists>r. rest = c_quot # r) \<or> x = c_rbrace"
  obtain j1 n where 1: "jsteps (j, quoted k @ c_colon # render v @ x # rest) (j1, render v @ x # rest)" "jat j1 JS_VALUE (length (js_nodes j))"
    "js_nodes j1 = add_kid (js_nodes j) p n" "plain n p k"
    using memb_head [OF at p, of k "render v @ x # rest"] by auto
  have r: "jn_type (js_nodes j ! p) \<noteq> JT_ARRAY" "jn_right_ch (js_nodes j ! p) = c_rbrace" "next_item (js_nodes j ! p) = JS_MEMBER"
    using p by (simp_all add: cont_node_def next_item_def)
  have "cont_ok (js_nodes j) p" "x = c_comma \<or> x = jn_right_ch (js_nodes j ! p)" using cont_node_ok [OF at] p x r by auto
  then obtain j' n' where 2: "jsteps (j1, render v @ x # rest) (j', rest)" "js_nodes j' = add_kid (js_nodes j) p n'" "leaf_node n' False k v"
    "if x = c_comma then jat j' JS_MEMBER p else closed j' p"
    using scalar_run [OF 1(2,3,4) v, of x rest] r by auto
  have "rep_memb (js_nodes j') (length (js_nodes j)) (k, v)" using 2(2,3) v(1) k by (intro memb_scalar) simp_all
  then show "\<exists>j'. jsteps (j, memb_text (k, v) @ x # rest) (j', rest) \<and> grow (js_nodes j) p [length (js_nodes j)] (js_nodes j')
        \<and> rep_memb (js_nodes j') (length (js_nodes j)) (k, v) \<and> (if x = c_comma then jat j' JS_MEMBER p else closed j' p)"
    using 2(4) rtranclp_trans [OF 1(1) 2(1)] grow_kid [OF jatD(7) [OF at], of n'] 2(2) by auto
qed

subsection \<open>A container\<close>

definition grow_tag :: "jnode list \<Rightarrow> nat \<Rightarrow> jnode list \<Rightarrow> bool" where
  "grow_tag ns q ns' \<longleftrightarrow> q < length ns \<and> length ns < length ns' \<and> (\<forall>x < length ns. ns' ! x = (if x = q
     then (ns ! q)\<lparr>jn_children := jn_children (ns ! q) @ [length ns], jn_tag_node := if jn_ltag (ns ! q) \<noteq> [] then Some (length ns) else jn_tag_node (ns ! q)\<rparr>
     else ns ! x))"

fun cont_start :: "jval \<Rightarrow> json_status" where
  "cont_start (JArr _) = JS_ARRAY"
| "cont_start _ = JS_OBJ"

definition cont_run :: "jval \<Rightarrow> bool" where
  "cont_run v \<longleftrightarrow> (\<forall>j q rest. jat j (cont_start v) q \<longrightarrow> (\<exists>j'. jsteps (j, tl (render v) @ rest) (j', rest) \<and> jat j' JS_NEXT (length (js_nodes j))
     \<and> grow_tag (js_nodes j) q (js_nodes j') \<and> rep_cont (js_nodes j') (length (js_nodes j)) v))"

lemma tagged_kid:
  assumes "q < length ns"
  shows "length (tagged (add_kid ns q n) q) = Suc (length ns)" "tagged (add_kid ns q n) q ! length ns = n" "grow_tag ns q (tagged (add_kid ns q n) q)"
  using assms by (auto simp: tagged_def grow_tag_def nth_list_update)

lemma grow_tag_grow: "grow_tag ns q ns1 \<Longrightarrow> grow ns1 (length ns) cs ns2 \<Longrightarrow> grow_tag ns q ns2"
  by (auto simp: grow_def grow_tag_def)

lemma closed_next: "closed j i \<Longrightarrow> i \<noteq> 0 \<Longrightarrow> jat j JS_NEXT i"
  by (simp add: closed_def jat_def)

lemma memb_texts: "map (\<lambda>(k, v). quoted k @ c_colon # render v) kvs = map memb_text kvs"
  by (simp add: split_def)

text \<open>What the new node of a container has become when its items have been parsed.\<close>

lemma cont_grown:
  assumes "ns1 = tagged (add_kid ns q n) q" "q < length ns" "fresh n q t l r" "grow ns1 (length ns) cs ns2"
  shows "jn_children (ns2 ! length ns) = cs" "cont_node (ns2 ! length ns) l r t" "cont_node (ns1 ! length ns) l r t" "grow_tag ns q ns2"
  using assms tagged_kid [OF assms(2), of n] grow_tag_grow [of ns q ns1 cs ns2] by (auto simp: grow_def fresh_def cont_node_def)

lemma pair_close:
  assumes at: "jat j JS_PAIR (length ns)" and ns: "js_nodes j = add_kid ns p n" and n: "jn_parent n = Some p"
    and p: "cont_node (ns ! p) c_lbrace c_rbrace JT_OBJ" "p < length ns"
  shows "\<exists>j'. jstep (j, c_rbrace # rest) (j', rest) \<and> closed j' p \<and> js_nodes j' = add_kid ns p n"
proof -
  define j1 where "j1 = (if p = 0 then j\<lparr>js_finish := True\<rparr> else j\<lparr>js_curr := p, js_status := JS_NEXT\<rparr>)"
  have "parent_get j (length ns) = Ret (p, add_kid ns p n ! p)" "jn_right_ch (add_kid ns p n ! p) = c_rbrace"
    using ns n p by (simp_all add: parent_get_def acl_json_node_parent_def cont_node_def)
  then have 1: "json_callback JS_PAIR j (c_rbrace # rest) = Ret (j1, rest)"
    using jatD(5,6) [OF at] by (simp add: json_pair_def is_space_def j1_def)
  have st: "jstep (j, c_rbrace # rest) (j1, rest)" "json_ok j1" "js_flag j1 = js_flag j" using jat_step [OF at _ 1] by auto
  then have "closed j1 p" using jatD(2,3) [OF at] part_word_same [of j1 j] by (simp add: closed_def j1_def)
  moreover have "js_nodes j1 = add_kid ns p n" using ns by (simp add: j1_def)
  ultimately show ?thesis using st(1) by blast
qed

lemma empty_obj_run:
  assumes at: "jat j JS_MEMBER p" and p: "cont_node (js_nodes j ! p) c_lbrace c_rbrace JT_OBJ"
  shows "\<exists>j'. jsteps (j, c_rbrace # rest) (j', rest) \<and> closed j' p \<and> grow (js_nodes j) p [length (js_nodes j)] (js_nodes j')
    \<and> blank_node (js_nodes j' ! length (js_nodes j))"
proof -
  obtain j1 n where 1: "jstep (j, c_rbrace # rest) (j1, c_rbrace # rest)" "jat j1 JS_PAIR (length (js_nodes j))"
    "js_nodes j1 = add_kid (js_nodes j) p n" "fresh n p JT_MEMBER 0 0"
    using member_step [OF at, of "c_rbrace # rest"] by auto
  have "jn_parent n = Some p" using 1(4) by (simp add: fresh_def)
  then obtain j' where "jstep (j1, c_rbrace # rest) (j', rest)" "closed j' p" "js_nodes j' = add_kid (js_nodes j) p n"
    using pair_close [OF 1(2,3) _ p jatD(7) [OF at]] by blast
  moreover have "blank_node n" using 1(4) by (simp add: fresh_def blank_node_def)
  ultimately show ?thesis using 1(1) grow_kid [OF jatD(7) [OF at], of n] jsteps_two by (intro exI [of _ j']) auto
qed

lemma obj_cont_run:
  assumes "\<And>kv. kv \<in> set kvs \<Longrightarrow> memb_run kv"
  shows "cont_run (JObj kvs)"
  unfolding cont_run_def
proof (intro allI impI)
  fix j q rest
  assume at: "jat j (cont_start (JObj kvs)) q"
  let ?ns = "js_nodes j" and ?d = "tl (render (JObj kvs)) @ rest"
  have d: "?d = join [c_comma] (map memb_text kvs) @ c_rbrace # rest" by (simp add: memb_texts)
  then have h: "\<exists>c t. ?d = c # t \<and> \<not> is_space c" by (cases kvs) (simp_all add: is_space_def join_Cons json_escape_append_def)
  have q: "q < length ?ns" using jatD(7) [OF at] .
  obtain j1 n where 1: "jstep (j, ?d) (j1, ?d)" "jat j1 JS_MEMBER (length ?ns)" "js_nodes j1 = tagged (add_kid ?ns q n) q" "fresh n q JT_OBJ c_lbrace c_rbrace"
    using obj_step [of j q ?d] at h by auto
  have g1: "grow (js_nodes j1) (length ?ns) [] (js_nodes j1)" using tagged_kid(1) [OF q, of n] 1(3) by (intro grow_refl) simp
  note c1 = cont_grown(3) [OF 1(3) q 1(4) g1]
  obtain j2 cs where 2: "jsteps (j1, ?d) (j2, rest)" "closed j2 (length ?ns)" "grow (js_nodes j1) (length ?ns) cs (js_nodes j2)"
    "if kvs = [] then \<exists>e. cs = [e] \<and> blank_node (js_nodes j2 ! e) else list_all2 (rep_memb (js_nodes j2)) cs kvs"
  proof (cases "kvs = []")
    case True
    then show thesis using empty_obj_run [OF 1(2) c1, of rest] that d by auto
  next
    case False
    then show thesis using membs_run [OF assms False 1(2) c1, of rest] that unfolding d by auto
  qed
  note g = cont_grown [OF 1(3) q 1(4) 2(3)]
  have "rep_cont (js_nodes j2) (length ?ns) (JObj kvs)"
  proof (cases "kvs = []")
    case True
    then show ?thesis using 2(4) g(1,2) by (auto intro: cont_empty)
  next
    case False
    then show ?thesis using 2(4) g(1,2) by (intro cont_obj) simp_all
  qed
  moreover have "jat j2 JS_NEXT (length ?ns)" by (intro closed_next [OF 2(2)]) (use q in linarith)
  ultimately show "\<exists>j'. jsteps (j, ?d) (j', rest) \<and> jat j' JS_NEXT (length ?ns) \<and> grow_tag ?ns q (js_nodes j') \<and> rep_cont (js_nodes j') (length ?ns) (JObj kvs)"
    using jsteps_two [OF 1(1) 2(1)] g(4) by blast
qed

lemma arr_cont_run:
  assumes "\<And>v. v \<in> set vs \<Longrightarrow> elem_run v" "\<And>v. v \<in> set vs \<Longrightarrow> jval_ok v"
  shows "cont_run (JArr vs)"
  unfolding cont_run_def
proof (intro allI impI)
  fix j q rest
  assume at: "jat j (cont_start (JArr vs)) q"
  let ?ns = "js_nodes j" and ?d = "tl (render (JArr vs)) @ rest"
  have d: "?d = join [c_comma] (map render vs) @ c_rbrack # rest" by simp
  have q: "q < length ?ns" using jatD(7) [OF at] .
  obtain c t where h: "?d = c # t" "\<not> is_space c" "vs \<noteq> [] \<Longrightarrow> c \<noteq> c_rbrack" "vs = [] \<Longrightarrow> c = c_rbrack \<and> t = rest"
  proof (cases vs)
    case Nil
    then show thesis using that [of c_rbrack rest] by (simp add: is_space_def)
  next
    case (Cons v ws)
    then have "jval_ok v" using assms(2) by simp
    then obtain c u where "render v = c # u" "\<not> is_space c" "c \<noteq> c_rbrack" using render_head by metis
    then show thesis using Cons that by (simp add: join_Cons)
  qed
  obtain j1 n where 1: "jstep (j, ?d) (j1, if c = c_rbrack then t else ?d)" "jat j1 (if c = c_rbrack then JS_NEXT else JS_ELEMENT) (length ?ns)"
    "js_nodes j1 = tagged (add_kid ?ns q n) q" "fresh n q JT_ARRAY c_lbrack c_rbrack"
    using array_step [OF _ h(1,2), of j q] at by auto
  have g1: "grow (js_nodes j1) (length ?ns) [] (js_nodes j1)" using tagged_kid(1) [OF q, of n] 1(3) by (intro grow_refl) simp
  note c1 = cont_grown [OF 1(3) q 1(4) g1]
  show "\<exists>j'. jsteps (j, ?d) (j', rest) \<and> jat j' JS_NEXT (length ?ns) \<and> grow_tag ?ns q (js_nodes j') \<and> rep_cont (js_nodes j') (length ?ns) (JArr vs)"
  proof (cases "vs = []")
    case True
    then have "rep_cont (js_nodes j1) (length ?ns) (JArr vs)" using c1 by (intro cont_arr) simp_all
    moreover have "jsteps (j, ?d) (j1, rest)" "jat j1 JS_NEXT (length ?ns)" using 1(1,2) h(4) [OF True] by auto
    ultimately show ?thesis using c1(4) by blast
  next
    case False
    have at1: "jat j1 JS_ELEMENT (length ?ns)" "jstep (j, ?d) (j1, ?d)" using 1(1,2) h(3) [OF False] by auto
    obtain j2 cs where 2: "jsteps (j1, ?d) (j2, rest)" "closed j2 (length ?ns)" "grow (js_nodes j1) (length ?ns) cs (js_nodes j2)"
      "list_all2 (rep_elem (js_nodes j2)) cs vs"
      using elems_run [OF assms(1) False at1(1) c1(3), of rest] unfolding d by blast
    note g = cont_grown [OF 1(3) q 1(4) 2(3)]
    have "rep_cont (js_nodes j2) (length ?ns) (JArr vs)" using 2(4) g(1,2) by (intro cont_arr) simp_all
    moreover have "jat j2 JS_NEXT (length ?ns)" by (intro closed_next [OF 2(2)]) (use q in linarith)
    ultimately show ?thesis using jsteps_two [OF at1(2) 2(1)] g(4) by blast
  qed
qed

subsection \<open>Behind a container\<close>

definition brother_state :: "jnode \<Rightarrow> json_status" where
  "brother_state n = (if jn_left_ch n = c_lbrace then JS_MEMBER else if jn_left_ch n = c_lbrack then JS_ELEMENT else JS_NEXT)"

lemma brother_step:
  assumes at: "jat j JS_NEXT i" and i: "i \<noteq> 0" "jn_parent (js_nodes j ! i) = Some p"
  shows "\<exists>j'. jstep (j, c_comma # rest) (j', rest) \<and> jat j' (brother_state (js_nodes j ! p)) p \<and> js_nodes j' = js_nodes j"
    and "\<not> is_space x \<Longrightarrow> x \<noteq> c_comma \<Longrightarrow> x \<noteq> c_semi \<Longrightarrow> x \<noteq> jn_right_ch (js_nodes j ! p)
      \<Longrightarrow> \<exists>j'. jstep (j, x # rest) (j', x # rest) \<and> jat j' (brother_state (js_nodes j ! p)) p \<and> js_nodes j' = js_nodes j"
    and "\<not> is_space x \<Longrightarrow> x \<noteq> c_comma \<Longrightarrow> x \<noteq> c_semi \<Longrightarrow> x = jn_right_ch (js_nodes j ! p)
      \<Longrightarrow> \<exists>j'. jstep (j, x # rest) (j', rest) \<and> closed j' p \<and> js_nodes j' = js_nodes j"
proof -
  obtain q where "jn_parent (js_nodes j ! i) = Some q" "q < i" by (rule tree_ok_parent [OF jatD(8,7) [OF at] i(1)], rule that)
  then have l: "p < length (js_nodes j)" using i(2) jatD(7) [OF at] by simp
  have pg: "parent_get j i = Ret (p, js_nodes j ! p)"
    using i l jatD(7) [OF at] by (simp add: parent_get_def acl_json_node_parent_def)
  define go where "go = j\<lparr>js_status := brother_state (js_nodes j ! p), js_curr := p\<rparr>"
  have "json_callback JS_NEXT j (c_comma # rest) = Ret (go, rest)"
    using jatD(5,6) [OF at] i(1) pg by (simp add: json_brother_def brother_state_def go_def is_space_def Let_def)
  then have "jstep (j, c_comma # rest) (go, rest) \<and> jat go (brother_state (js_nodes j ! p)) p"
    by (intro jat_next [OF at]) (use jatD [OF at] in \<open>simp_all add: go_def\<close>)
  then show "\<exists>j'. jstep (j, c_comma # rest) (j', rest) \<and> jat j' (brother_state (js_nodes j ! p)) p \<and> js_nodes j' = js_nodes j"
    by (intro exI [of _ go]) (simp add: go_def)
  assume x: "\<not> is_space x" "x \<noteq> c_comma" "x \<noteq> c_semi"
  {
    assume r: "x \<noteq> jn_right_ch (js_nodes j ! p)"
    have "json_callback JS_NEXT j (x # rest) = Ret (go, x # rest)"
      using jatD(5,6) [OF at] i(1) pg x r by (simp add: json_brother_def brother_state_def go_def Let_def)
    then have "jstep (j, x # rest) (go, x # rest) \<and> jat go (brother_state (js_nodes j ! p)) p"
      by (intro jat_next [OF at]) (use jatD [OF at] in \<open>simp_all add: go_def\<close>)
    then show "\<exists>j'. jstep (j, x # rest) (j', x # rest) \<and> jat j' (brother_state (js_nodes j ! p)) p \<and> js_nodes j' = js_nodes j"
      by (intro exI [of _ go]) (simp add: go_def)
  next
    assume r: "x = jn_right_ch (js_nodes j ! p)"
    define up where "up = (if p = 0 then j\<lparr>js_finish := True\<rparr> else j\<lparr>js_curr := p, js_status := JS_NEXT\<rparr>)"
    have 1: "json_callback JS_NEXT j (x # rest) = Ret (up, rest)"
      using jatD(5,6) [OF at] i(1) pg x r by (simp add: json_brother_def up_def Let_def)
    have st: "jstep (j, x # rest) (up, rest)" "json_ok up" "js_flag up = js_flag j" using jat_step [OF at _ 1] by auto
    then have "closed up p" using jatD(2,3) [OF at] part_word_same [of up j] by (simp add: closed_def up_def)
    then show "\<exists>j'. jstep (j, x # rest) (j', rest) \<and> closed j' p \<and> js_nodes j' = js_nodes j"
      using st(1) by (intro exI [of _ up]) (simp add: up_def)
  }
qed

lemma cont_head: "\<not> scalar v \<Longrightarrow> \<exists>c. render v = c # tl (render v) \<and> (c = c_lbrace \<and> cont_start v = JS_OBJ \<or> c = c_lbrack \<and> cont_start v = JS_ARRAY)"
  by (cases v) auto

lemma grow_tag_len: "grow_tag ns q ns' \<Longrightarrow> q < length ns' \<and> length ns \<in> set (jn_children (ns' ! q))"
  by (simp add: grow_tag_def)

lemma cont_runE:
  assumes "cont_run v" "jat j (cont_start v) q" "js_nodes j = ns"
  obtains j' where "jsteps (j, tl (render v) @ rest) (j', rest)" "jat j' JS_NEXT (length ns)" "grow_tag ns q (js_nodes j')"
    "rep_cont (js_nodes j') (length ns) v"
  using assms unfolding cont_run_def by blast

lemma cont_elem:
  assumes run: "cont_run v" and v: "\<not> scalar v"
  shows "elem_run v"
  unfolding elem_run_def item_run_def
proof (intro allI impI)
  fix j p x rest
  assume at: "jat j JS_ELEMENT p" and p: "cont_node (js_nodes j ! p) c_lbrack c_rbrack JT_ARRAY" and x: "x = c_comma \<and> True \<or> x = c_rbrack"
  let ?ns = "js_nodes j" and ?d = "render v @ x # rest" and ?e = "tl (render v) @ x # rest"
  define j1 where "j1 = j\<lparr>js_status := cont_start v\<rparr>"
  have 1: "json_callback JS_ELEMENT j ?d = Ret (j1, ?e)" using v by (cases v) (simp_all add: json_element_def j1_def is_space_def)
  have st1: "jstep (j, ?d) (j1, ?e) \<and> jat j1 (cont_start v) p"
    by (rule jat_next [OF at _ 1]) (use jatD [OF at] in \<open>simp_all add: j1_def\<close>)
  obtain j2 where 2: "jsteps (j1, ?e) (j2, x # rest)" "jat j2 JS_NEXT (length ?ns)" "grow_tag ?ns p (js_nodes j2)" "rep_cont (js_nodes j2) (length ?ns) v"
    by (rule cont_runE [OF run conjunct2 [OF st1], of ?ns "x # rest"]) (simp add: j1_def)
  have g: "grow ?ns p [length ?ns] (js_nodes j2)" using 2(3) p by (simp add: grow_tag_def grow_def cont_node_def)
  have c2: "cont_node (js_nodes j2 ! p) c_lbrack c_rbrack JT_ARRAY" using grow_cont [OF g] p by blast
  have par: "jn_parent (js_nodes j2 ! length ?ns) = Some p" "length ?ns \<noteq> 0"
    using tree_ok_child [OF jatD(8) [OF 2(2)], of p] grow_tag_len [OF 2(3)] jatD(7) [OF at] by (blast, linarith)
  obtain j3 where 3: "jstep (j2, x # rest) (j3, rest)" "js_nodes j3 = js_nodes j2" "if x = c_comma then jat j3 JS_ELEMENT p else closed j3 p"
  proof (cases "x = c_comma")
    case True
    then show thesis using brother_step(1) [OF 2(2) par(2,1), of rest] c2 that by (auto simp: brother_state_def cont_node_def)
  next
    case False
    then have "x = c_rbrack" using x by simp
    then show thesis using brother_step(3) [OF 2(2) par(2,1), of x rest] c2 that by (auto simp: is_space_def cont_node_def)
  qed
  have "jsteps (j, ?d) (j3, rest)" using st1 2(1) 3(1) by (meson converse_rtranclp_into_rtranclp rtranclp.rtrancl_into_rtrancl)
  then show "\<exists>j'. jsteps (j, ?d) (j', rest) \<and> grow ?ns p [length ?ns] (js_nodes j') \<and> rep_elem (js_nodes j') (length ?ns) v
      \<and> (if x = c_comma then jat j' JS_ELEMENT p else closed j' p)"
    using 3(2,3) g 2(4) elem_cont by (intro exI [of _ j3]) simp
qed

lemma cont_memb:
  assumes run: "cont_run v" and v: "\<not> scalar v" and k: "k \<noteq> []"
  shows "memb_run (k, v)"
  unfolding memb_run_def item_run_def
proof (intro allI impI)
  fix j p x rest
  assume at: "jat j JS_MEMBER p" and p: "cont_node (js_nodes j ! p) c_lbrace c_rbrace JT_OBJ" and x: "x = c_comma \<and> (\<exists>r. rest = c_quot # r) \<or> x = c_rbrace"
  let ?ns = "js_nodes j" and ?d = "render v @ x # rest" and ?e = "tl (render v) @ x # rest"
  let ?m = "length ?ns"
  have l: "p < ?m" using jatD(7) [OF at] .
  obtain j1 n where 1: "jsteps (j, quoted k @ c_colon # ?d) (j1, ?d)" "jat j1 JS_VALUE ?m" "js_nodes j1 = add_kid ?ns p n" "plain n p k"
    using memb_head [OF at p, of k ?d] by auto
  define n2 where "n2 = n\<lparr>jn_type := JT_LEAF\<rparr>"
  define j2 where "j2 = j1\<lparr>js_nodes := add_kid ?ns p n2, js_status := cont_start v\<rparr>"
  have 2: "json_callback JS_VALUE j1 ?d = Ret (j2, ?e)"
    using v jatD(5) [OF 1(2)] upd_kid(1) [OF 1(2,3)] by (cases v) (simp_all add: json_value_def j2_def n2_def is_space_def del: jn_upd_ok)
  have st2: "jstep (j1, ?d) (j2, ?e) \<and> jat j2 (cont_start v) ?m"
    by (rule jat_next [OF 1(2) _ 2]) (use jatD [OF 1(2)] in \<open>simp_all add: j2_def\<close>)
  let ?ms = "add_kid ?ns p n2"
  obtain j3 where 3: "jsteps (j2, ?e) (j3, x # rest)" "jat j3 JS_NEXT (length ?ms)" "grow_tag ?ms ?m (js_nodes j3)" "rep_cont (js_nodes j3) (length ?ms) v"
    by (rule cont_runE [OF run conjunct2 [OF st2], of ?ms "x # rest"]) (simp add: j2_def)
  note 3 = 3 [unfolded add_kid_simps(1)]
  have m3: "js_nodes j3 ! ?m = n2\<lparr>jn_children := [Suc ?m], jn_tag_node := Some (Suc ?m)\<rparr>"
    using 3(3) 1(4) k by (simp add: grow_tag_def n2_def plain_def)
  have below: "js_nodes j3 ! i = (if i = p then (?ns ! p)\<lparr>jn_children := jn_children (?ns ! p) @ [?m]\<rparr> else ?ns ! i)" if "i < ?m" for i
    using 3(3) that by (simp add: grow_tag_def)
  have g: "grow ?ns p [?m] (js_nodes j3)" using below l 3(3) by (simp add: grow_tag_def grow_def)
  have p3: "cont_node (js_nodes j3 ! p) c_lbrace c_rbrace JT_OBJ" using grow_cont [OF g] p by blast
  have rep: "rep_memb (js_nodes j3) ?m (k, v)"
    using m3 1(4) k 3(4) by (intro memb_cont [where c = "Suc ?m"]) (simp_all add: n2_def plain_def)
  have par: "jn_parent (js_nodes j3 ! Suc ?m) = Some ?m" "Suc ?m \<noteq> 0"
    using tree_ok_child [OF jatD(8) [OF 3(2)], of ?m] grow_tag_len [OF 3(3)] by auto
  have mm: "brother_state (js_nodes j3 ! ?m) = JS_NEXT" "jn_right_ch (js_nodes j3 ! ?m) = 0" "jn_parent (js_nodes j3 ! ?m) = Some p" "?m \<noteq> 0"
    using m3 1(4) l by (auto simp: n2_def plain_def brother_state_def)
  have pp: "brother_state (js_nodes j3 ! p) = JS_MEMBER" "jn_right_ch (js_nodes j3 ! p) = c_rbrace"
    using p3 by (simp_all add: cont_node_def brother_state_def)
  obtain j5 where 5: "jsteps (j3, x # rest) (j5, rest)" "js_nodes j5 = js_nodes j3" "if x = c_comma then jat j5 JS_MEMBER p else closed j5 p"
  proof (cases "x = c_comma")
    case True
    then obtain r where r: "rest = c_quot # r" using x by auto
    obtain j4 where 4: "jstep (j3, c_comma # rest) (j4, rest)" "jat j4 JS_NEXT ?m" "js_nodes j4 = js_nodes j3"
      using brother_step(1) [OF 3(2) par(2,1), of rest] mm by auto
    obtain j5 where "jstep (j4, rest) (j5, rest)" "jat j5 JS_MEMBER p" "js_nodes j5 = js_nodes j3"
      using brother_step(2) [OF 4(2) mm(4), of p c_quot r] mm(3) pp 4(3) r by (auto simp: is_space_def)
    then show thesis using 4(1) that True by (meson converse_rtranclp_into_rtranclp rtranclp.rtrancl_refl)
  next
    case False
    then have xr: "x = c_rbrace" using x by simp
    obtain j4 where 4: "jstep (j3, x # rest) (j4, x # rest)" "jat j4 JS_NEXT ?m" "js_nodes j4 = js_nodes j3"
      using brother_step(2) [OF 3(2) par(2,1), of x rest] mm xr by (auto simp: is_space_def)
    obtain j5 where "jstep (j4, x # rest) (j5, rest)" "closed j5 p" "js_nodes j5 = js_nodes j3"
      using brother_step(3) [OF 4(2) mm(4), of p x rest] mm(3) pp 4(3) xr by (auto simp: is_space_def)
    then show thesis using 4(1) that False by (meson converse_rtranclp_into_rtranclp rtranclp.rtrancl_refl)
  qed
  have "jsteps (j, quoted k @ c_colon # ?d) (j5, rest)"
    using 1(1) conjunct1 [OF st2] 3(1) 5(1) by (meson rtranclp.rtrancl_into_rtrancl rtranclp_trans)
  then show "\<exists>j'. jsteps (j, memb_text (k, v) @ x # rest) (j', rest) \<and> grow ?ns p [?m] (js_nodes j') \<and> rep_memb (js_nodes j') ?m (k, v)
      \<and> (if x = c_comma then jat j' JS_MEMBER p else closed j' p)"
    using 5(2,3) g rep by (intro exI [of _ j5]) simp
qed

lemma value_runs: "jval_ok v \<Longrightarrow> elem_run v \<and> (\<forall>k. k \<noteq> [] \<longrightarrow> memb_run (k, v))"
proof (induction v)
  case (JArr vs)
  have "cont_run (JArr vs)" by (rule arr_cont_run) (use JArr in \<open>auto simp: list_all_iff\<close>)
  then show ?case using cont_elem cont_memb by simp
next
  case (JObj kvs)
  have "memb_run kv" if "kv \<in> set kvs" for kv
    using JObj.IH [of kv "snd kv"] JObj.prems that by (cases kv) (auto simp: list_all_iff)
  then have "cont_run (JObj kvs)" by (rule obj_cont_run)
  then show ?case using cont_elem cont_memb by simp
qed (use scalar_elem scalar_memb in auto)

subsection \<open>From the start\<close>

fun top_ok :: "jval \<Rightarrow> bool" where
  "top_ok (JArr vs) = (vs \<noteq> [])"
| "top_ok (JObj kvs) = True"
| "top_ok _ = False"

lemma root_step:
  assumes "top_ok v"
  defines "n \<equiv> case v of JArr _ \<Rightarrow> jnode0\<lparr>jn_left_ch := c_lbrack, jn_right_ch := c_rbrack, jn_type := JT_ARRAY\<rparr>
     | _ \<Rightarrow> jnode0\<lparr>jn_left_ch := c_lbrace, jn_right_ch := c_rbrace, jn_type := JT_OBJ\<rparr>"
    and "st \<equiv> case v of JArr _ \<Rightarrow> JS_ELEMENT | _ \<Rightarrow> JS_MEMBER"
  shows "\<exists>j. jstep (acl_json_alloc, render v @ rest) (j, tl (render v) @ rest) \<and> jat j st 0 \<and> js_nodes j = [n] \<and> js_flag j = 0"
proof -
  let ?a = "acl_json_alloc"
  have nf: "js_nodes ?a = [jnode0]" "js_curr ?a = 0" "js_root ?a = 0" "js_finish ?a = False" "js_flag ?a = 0" "js_status ?a = JS_ROOT"
    by (simp_all add: acl_json_alloc_def acl_json_node_alloc_def)
  have at: "jat ?a JS_ROOT 0" using json_alloc_ok nf by (simp add: jat_def part_word_flag_def)
  define j where "j = ?a\<lparr>js_status := st, js_nodes := [n], js_curr := 0\<rparr>"
  have 1: "json_callback JS_ROOT ?a (render v @ rest) = Ret (j, tl (render v) @ rest)"
    using assms(1) nf by (cases v) (simp_all add: json_root_def n_def st_def j_def)
  have "jstep (?a, render v @ rest) (j, tl (render v) @ rest) \<and> jat j st 0"
    by (rule jat_next [OF at _ 1]) (use assms(1) nf in \<open>cases v; simp add: j_def\<close>)+
  then show ?thesis using nf by (intro exI [of _ j]) (simp add: j_def)
qed

lemma top_run:
  assumes "top_ok v" "jval_ok v"
  shows "\<exists>j. acl_json_update acl_json_alloc (render v @ rest) = Ret (j, rest) \<and> js_finish j \<and> json_ok j \<and> rep_cont (js_nodes j) 0 v \<and> js_flag j = 0"
proof -
  have fin: ?thesis if s: "jstep (acl_json_alloc, render v @ rest) (j1, d)" "jsteps (j1, d) (j, rest)" "closed j 0" "rep_cont (js_nodes j) 0 v" for j j1 d
  proof -
    have "js_finish j" "json_ok j" using s(3) by (simp_all add: closed_def)
    moreover have "js_flag acl_json_alloc = 0" by (simp add: acl_json_alloc_def acl_json_node_alloc_def)
    ultimately show ?thesis using jsteps_update [OF json_alloc_ok jsteps_two [OF s(1,2)]] jsteps_flag [OF jsteps_two [OF s(1,2)]] json_alloc_ok s(4) by simp
  qed
  show ?thesis
  proof (cases v)
    case (JArr vs)
    let ?n = "jnode0\<lparr>jn_left_ch := c_lbrack, jn_right_ch := c_rbrack, jn_type := JT_ARRAY\<rparr>"
    obtain j1 where 1: "jstep (acl_json_alloc, render v @ rest) (j1, tl (render v) @ rest)" "jat j1 JS_ELEMENT 0" "js_nodes j1 = [?n]"
      using root_step [OF assms(1), of rest] JArr by auto
    have c: "cont_node (js_nodes j1 ! 0) c_lbrack c_rbrack JT_ARRAY" using 1(3) by (simp add: cont_node_def jnode0_def)
    have "elem_run w" if "w \<in> set vs" for w using value_runs [of w] assms(2) JArr that by (simp add: list_all_iff)
    then obtain j cs where 2: "jsteps (j1, tl (render v) @ rest) (j, rest)" "closed j 0" "grow (js_nodes j1) 0 cs (js_nodes j)"
      "list_all2 (rep_elem (js_nodes j)) cs vs"
      using elems_run [OF _ _ 1(2) c, of vs rest] assms(1) JArr by auto
    have "rep_cont (js_nodes j) 0 v" unfolding JArr
      by (rule cont_arr) (use grow_cont [OF 2(3)] c 2(3,4) 1(3) in \<open>simp_all add: grow_def jnode0_def\<close>)
    then show ?thesis by (rule fin [OF 1(1) 2(1,2)])
  next
    case (JObj kvs)
    let ?n = "jnode0\<lparr>jn_left_ch := c_lbrace, jn_right_ch := c_rbrace, jn_type := JT_OBJ\<rparr>"
    obtain j1 where 1: "jstep (acl_json_alloc, render v @ rest) (j1, tl (render v) @ rest)" "jat j1 JS_MEMBER 0" "js_nodes j1 = [?n]"
      using root_step [OF assms(1), of rest] JObj by auto
    have c: "cont_node (js_nodes j1 ! 0) c_lbrace c_rbrace JT_OBJ" using 1(3) by (simp add: cont_node_def jnode0_def)
    show ?thesis
    proof (cases "kvs = []")
      case True
      have d: "tl (render v) @ rest = c_rbrace # rest" using JObj True by simp
      obtain j where 2: "jsteps (j1, c_rbrace # rest) (j, rest)" "closed j 0" "grow (js_nodes j1) 0 [1] (js_nodes j)" "blank_node (js_nodes j ! 1)"
        using empty_obj_run [OF 1(2) c, of rest] 1(3) by auto
      have "rep_cont (js_nodes j) 0 v" unfolding JObj True
        by (rule cont_empty [of _ _ 1]) (use grow_cont [OF 2(3)] c 2(3,4) 1(3) in \<open>simp_all add: grow_def jnode0_def\<close>)
      then show ?thesis using fin [OF 1(1)] 2(1,2) unfolding d by blast
    next
      case False
      have "memb_run kv" if "kv \<in> set kvs" for kv using value_runs [of "snd kv"] assms(2) JObj that by (cases kv) (auto simp: list_all_iff)
      then obtain j cs where 2: "jsteps (j1, tl (render v) @ rest) (j, rest)" "closed j 0" "grow (js_nodes j1) 0 cs (js_nodes j)"
        "list_all2 (rep_memb (js_nodes j)) cs kvs"
        using membs_run [OF _ False 1(2) c, of rest] JObj by (auto simp: memb_texts)
      have "rep_cont (js_nodes j) 0 v" unfolding JObj
        by (rule cont_obj) (use False grow_cont [OF 2(3)] c 2(3,4) 1(3) in \<open>simp_all add: grow_def jnode0_def\<close>)
      then show ?thesis by (rule fin [OF 1(1) 2(1,2)])
    qed
  qed (use assms(1) in auto)
qed

lemma rep_cont_node:
  assumes "rep_cont ns i v"
  obtains l r t where "cont_node (ns ! i) l r t" "l \<noteq> 0"
proof -
  have ne: "c_lbrack \<noteq> 0" "c_lbrace \<noteq> 0" by simp_all
  from assms show thesis by cases (use ne that in blast)+
qed

lemma with_brackets_cont: "cont_node (js_nodes j ! 0) l r t \<Longrightarrow> l \<noteq> 0 \<Longrightarrow> with_brackets j = j"
  by (simp add: with_brackets_def cont_node_def)

end
