(* ===== verification/Json_Props.thy ===== *)
theory Json_Props
  imports Json_Roundtrip
begin

text \<open>What the parser and the builder do together.\<close>

text \<open>
  C9: Building ends on every tree the parser can leave, complete or not, whatever the flags: the loop over
  the iterator writes, with every comma and bracket, the text that the recursion over the tree gives, and
  only brackets of a root without any are changed.
\<close>

theorem json_build_writes: "\<exists>j. json_feed (acl_json_alloc\<lparr>js_flag := fl\<rparr>) cs = Ret j
    \<and> acl_json_build j buf = Ret (with_brackets j, buf @ json_text (with_brackets j))"
proof -
  obtain j where "json_feed (acl_json_alloc\<lparr>js_flag := fl\<rparr>) cs = Ret j" "json_ok j" using json_feed_ok [OF json_start_ok] by blast
  then show ?thesis using json_build_text by blast
qed

text \<open>
  C5: A document is an object or an array with at least one element, in which no key is empty, no string or
  key has a NUL byte, and every number has a sign, digits and a fraction at most, no exponent (\<open>top_ok\<close>, \<open>jval_ok\<close>).
  Parsing its text, written without spaces, stops right behind it and reports that it is complete; the tree
  of nodes stands for the document, scalars with their types.
\<close>

theorem json_parse_document:
  assumes "top_ok v" "jval_ok v"
  shows "\<exists>j. acl_json_update acl_json_alloc (render v @ rest) = Ret (j, rest) \<and> acl_json_finish j \<and> rep_cont (js_nodes j) (js_root j) v"
proof -
  obtain j where j: "acl_json_update acl_json_alloc (render v @ rest) = Ret (j, rest)" "js_finish j" "json_ok j" "rep_cont (js_nodes j) 0 v"
    using top_run [OF assms] by blast
  then show ?thesis using json_okD(2) [OF j(3)] by simp
qed

theorem json_parse_document_witness:
  "\<exists>j. acl_json_update acl_json_alloc (render (JObj [(bytes_of ''k'', JArr [JNum (bytes_of ''-12''), JNull])]) @ bytes_of ''x'') = Ret (j, bytes_of ''x'')"
proof -
  let ?v = "JObj [(bytes_of ''k'', JArr [JNum (bytes_of ''-12''), JNull])]"
  have "top_ok ?v" "jval_ok ?v" by code_simp+
  then show ?thesis using json_parse_document [of ?v "bytes_of ''x''"] by blast
qed

text \<open>
  C4: Parsing the text of such a document (an object or an array with at least one element, without empty keys,
  NUL bytes and exponents, written without spaces) and building it again gives the same text: nothing is lost
  in the nesting, the keys, the escapes of a string or the digits of a number.
\<close>

theorem json_roundtrip:
  assumes "top_ok v" "jval_ok v"
  shows "cbind (acl_json_update acl_json_alloc (render v)) (\<lambda>(j, rest). map_cres snd (acl_json_build j [])) = Ret (render v)"
proof -
  obtain j where j: "acl_json_update acl_json_alloc (render v @ []) = Ret (j, [])" "js_finish j" "json_ok j" "rep_cont (js_nodes j) 0 v"
    "js_flag j = 0"
    using top_run [OF assms, of "[]"] by blast
  obtain l r t where c: "cont_node (js_nodes j ! 0) l r t" "l \<noteq> 0" by (rule rep_cont_node [OF j(4)])
  have w: "with_brackets j = j" by (rule with_brackets_cont [OF c])
  note o = json_okD [OF j(3)]
  have "\<not> add_space_flag j" using j(5) by (simp add: add_space_flag_def)
  then have "node_text j 0 = render v" using rep_text(3) [OF j(3) _ j(4) _ assms(2)] o by simp
  moreover have "node_text j 0 = json_text j"
    using c(1) o kids_eq [OF o(1), of 0] by (subst node_text.simps) (simp add: json_text_def Let_def node_open_def cont_node_def in_array_def tree_ok_def)
  ultimately have "acl_json_build j [] = Ret (j, render v)" using json_build_text [OF j(3), of "[]"] w by simp
  then show ?thesis using j(1) by simp
qed

theorem json_roundtrip_witness:
  "cbind (acl_json_update acl_json_alloc (render (JObj [(bytes_of ''k'', JArr [JStr [c_quot, 10, 200], JObj []])])))
     (\<lambda>(j, rest). map_cres snd (acl_json_build j [])) = Ret (bytes_of ''{\"k\":[\"'' @ [c_bslash, c_quot, c_bslash, 110, 200] @ bytes_of ''\",{}]}'')"
proof -
  let ?v = "JObj [(bytes_of ''k'', JArr [JStr [c_quot, 10, 200], JObj []])]"
  have "top_ok ?v" "jval_ok ?v" by code_simp+
  moreover have "render ?v = bytes_of ''{\"k\":[\"'' @ [c_bslash, c_quot, c_bslash, 110, 200] @ bytes_of ''\",{}]}''" by code_simp
  ultimately show ?thesis using json_roundtrip [of ?v] by simp
qed

subsection \<open>Documents that do not come back\<close>

definition json_echo :: "byte list \<Rightarrow> byte list cres" where
  "json_echo text = cbind (acl_json_update acl_json_alloc text) (\<lambda>(j, rest). map_cres snd (acl_json_build j []))"

text \<open>An empty array at the top is read as an array of one empty string.\<close>

lemma empty_array_grows: "json_echo (bytes_of ''[]'') = Ret (bytes_of ''[\"\"]'')"
  by code_simp

text \<open>A member with an empty key is not written, and its container loses its name.\<close>

lemma empty_key_lost: "json_echo (bytes_of ''{\"\":1}'') = Ret (bytes_of ''{}'')" "json_echo (bytes_of ''{\"\":{}}'') = Ret (bytes_of ''{{}}'')"
  by code_simp+

text \<open>A character written with its code loses the backslash.\<close>

lemma unicode_escape_lost: "json_echo (bytes_of ''{\"a\":\"'' @ [c_bslash] @ bytes_of ''u0041\"}'') = Ret (bytes_of ''{\"a\":\"u0041\"}'')"
  by code_simp

end
