(* ===== verification/Acl_Token.thy ===== *)
theory Acl_Token
  imports Acl_Prelude Acl_Mystring
begin

text \<open>
  The tree of words of \<open>lib_acl/src/stdlib/common/acl_token_tree.c\<close>. The nodes of a tree are a heap of
  their own: a pointer to a node is its index, a freed node is \<open>None\<close>. The array of the 256 children of a
  node is a function.
\<close>

abbreviation (input) "TOKEN_STOP \<equiv> 0"
abbreviation (input) "TOKEN_PASS \<equiv> 1"
abbreviation (input) "TOKEN_DENY \<equiv> 2"

record 'c acl_token =
  tk_ch :: byte
  tk_flag :: "32 word"
  tk_tokens :: "byte \<Rightarrow> nat option"
  tk_parent :: "nat option"
  tk_ctx :: "'c option"

type_synonym 'c token_heap = "'c acl_token option list"

definition tk_get :: "'c token_heap \<Rightarrow> nat \<Rightarrow> 'c acl_token cres" where
  "tk_get h i = cbind (tab_at h i) (\<lambda>t. case t of None \<Rightarrow> Fault | Some t \<Rightarrow> Ret t)"

definition tk_upd :: "'c token_heap \<Rightarrow> nat \<Rightarrow> ('c acl_token \<Rightarrow> 'c acl_token) \<Rightarrow> 'c token_heap cres" where
  "tk_upd h i f = map_cres (\<lambda>t. h[i := Some (f t)]) (tk_get h i)"

definition token_stop :: "'c acl_token \<Rightarrow> bool" where
  "token_stop t \<longleftrightarrow> bit (tk_flag t) TOKEN_STOP"

definition acl_token_new :: "'c token_heap \<Rightarrow> 'c token_heap \<times> nat" where
  "acl_token_new h = (h @ [Some \<lparr>tk_ch = ch CHR ''-'', tk_flag = 0, tk_tokens = (\<lambda>_. None), tk_parent = None, tk_ctx = None\<rparr>], length h)"

definition acl_token_free :: "'c token_heap \<Rightarrow> nat \<Rightarrow> 'c token_heap cres" where
  "acl_token_free h i = map_cres (\<lambda>_. h[i := None]) (tk_get h i)"

subsection \<open>Adding, finding and removing a word\<close>

fun add_loop :: "'c token_heap \<Rightarrow> nat \<Rightarrow> nat option \<Rightarrow> byte list \<Rightarrow> ('c token_heap \<times> nat option) cres" where
  "add_loop h iter token [] = Ret (h, token)"
| "add_loop h iter token (c # word) = cbind (tk_get h iter) (\<lambda>it. case tk_tokens it c of
     None \<Rightarrow> (let (h, n) = acl_token_new h in
       cbind (tk_upd h n (\<lambda>t. t\<lparr>tk_ch := c\<rparr>)) (\<lambda>h.
       cbind (tk_upd h iter (\<lambda>t. t\<lparr>tk_tokens := (tk_tokens t)(c := Some n)\<rparr>)) (\<lambda>h.
       cbind (tk_upd h n (\<lambda>t. t\<lparr>tk_parent := Some iter\<rparr>)) (\<lambda>h. add_loop h n (Some n) word))))
   | Some n \<Rightarrow> cbind (tk_get h n) (\<lambda>t. if tk_ch t \<noteq> c then Fault else add_loop h n (Some n) word))"

definition pass_and_deny :: "32 word \<Rightarrow> bool" where
  "pass_and_deny flag \<longleftrightarrow> bit flag TOKEN_PASS \<and> bit flag TOKEN_DENY"

definition acl_token_tree_add :: "'c token_heap \<Rightarrow> nat \<Rightarrow> byte list \<Rightarrow> 32 word \<Rightarrow> 'c option \<Rightarrow> ('c token_heap \<times> nat option) cres" where
  "acl_token_tree_add h tree word flag ctx =
    (if pass_and_deny flag then Ret (h, None)
     else cbind (add_loop h tree None word) (\<lambda>(h, token). case token of
       None \<Rightarrow> Ret (h, None)
     | Some n \<Rightarrow> map_cres (\<lambda>h. (h, Some n)) (tk_upd h n (\<lambda>t. t\<lparr>tk_flag := flag, tk_ctx := ctx\<rparr>))))"

text \<open>
  The variant that stores other bytes in the nodes than it branches on. The pointer into \<open>word_map\<close> is
  read at its terminator, as zero, but not behind it.
\<close>

fun map_loop :: "'c token_heap \<Rightarrow> nat \<Rightarrow> nat option \<Rightarrow> byte list \<Rightarrow> byte list option \<Rightarrow> ('c token_heap \<times> nat option) cres" where
  "map_loop h iter token [] wmap = Ret (h, token)"
| "map_loop h iter token (c # word) None = Fault"
| "map_loop h iter token (c # word) (Some wmap) = (let m = peek wmap; wmap' = (case wmap of [] \<Rightarrow> None | _ # r \<Rightarrow> Some r) in
     cbind (tk_get h iter) (\<lambda>it. case tk_tokens it c of
       None \<Rightarrow> (let (h, n) = acl_token_new h in
         cbind (tk_upd h n (\<lambda>t. t\<lparr>tk_ch := m\<rparr>)) (\<lambda>h.
         cbind (tk_upd h iter (\<lambda>t. t\<lparr>tk_tokens := (tk_tokens t)(c := Some n)\<rparr>)) (\<lambda>h.
         cbind (tk_upd h n (\<lambda>t. t\<lparr>tk_parent := Some iter\<rparr>)) (\<lambda>h. map_loop h n (Some n) word wmap'))))
     | Some n \<Rightarrow> cbind (tk_get h n) (\<lambda>t. if tk_ch t \<noteq> m then Fault else map_loop h n (Some n) word wmap')))"

definition acl_token_tree_add_word_map :: "'c token_heap \<Rightarrow> nat \<Rightarrow> byte list \<Rightarrow> byte list \<Rightarrow> 32 word \<Rightarrow> ('c token_heap \<times> nat option) cres" where
  "acl_token_tree_add_word_map h tree word word_map flag =
    (if pass_and_deny flag then Ret (h, None)
     else cbind (map_loop h tree None word (Some word_map)) (\<lambda>(h, token). case token of
       None \<Rightarrow> Ret (h, None)
     | Some n \<Rightarrow> map_cres (\<lambda>h. (h, Some n)) (tk_upd h n (\<lambda>t. t\<lparr>tk_flag := flag\<rparr>))))"

fun match_loop :: "'c token_heap \<Rightarrow> nat \<Rightarrow> nat option \<Rightarrow> byte list \<Rightarrow> nat option cres" where
  "match_loop h iter token [] = Ret token"
| "match_loop h iter token (c # word) = cbind (tk_get h iter) (\<lambda>it. case tk_tokens it c of
     None \<Rightarrow> Ret None
   | Some n \<Rightarrow> match_loop h n (Some n) word)"

definition acl_token_tree_word_match :: "'c token_heap \<Rightarrow> nat \<Rightarrow> byte list \<Rightarrow> nat option cres" where
  "acl_token_tree_word_match h tree word = cbind (match_loop h tree None word) (\<lambda>token. case token of
     None \<Rightarrow> Ret None
   | Some n \<Rightarrow> map_cres (\<lambda>t. if token_stop t then Some n else None) (tk_get h n))"

text \<open>The search for the first child at an index, which the loops over the 256 slots make.\<close>

definition child_from :: "'c acl_token \<Rightarrow> nat \<Rightarrow> byte option" where
  "child_from t i = map_option of_nat (find (\<lambda>k. tk_tokens t (of_nat k) \<noteq> None) [i..<256])"

definition acl_token_tree_word_remove :: "'c token_heap \<Rightarrow> nat \<Rightarrow> byte list \<Rightarrow> ('c token_heap \<times> 'c option) cres" where
  "acl_token_tree_word_remove h tree word = cbind (acl_token_tree_word_match h tree word) (\<lambda>token. case token of
     None \<Rightarrow> Ret (h, None)
   | Some n \<Rightarrow> cbind (tk_upd h n (\<lambda>t. t\<lparr>tk_ctx := None\<rparr>)) (\<lambda>h. cbind (tk_get h n) (\<lambda>t.
       if child_from t 0 \<noteq> None then map_cres (\<lambda>h. (h, None)) (tk_upd h n (\<lambda>t. t\<lparr>tk_flag := 0\<rparr>))
       else case tk_parent t of None \<Rightarrow> Fault
         | Some p \<Rightarrow> cbind (tk_upd h p (\<lambda>u. u\<lparr>tk_tokens := (tk_tokens u)(tk_ch t := None)\<rparr>)) (\<lambda>h.
             cbind (tk_get h n) (\<lambda>t. map_cres (\<lambda>h. (h, tk_ctx t)) (acl_token_free h n))))))"

subsection \<open>Names, walks and iterators\<close>

fun name_up :: "nat \<Rightarrow> 'c token_heap \<Rightarrow> nat \<Rightarrow> byte list \<Rightarrow> byte list cres" where
  "name_up 0 h i buf = Fault"
| "name_up (Suc fuel) h i buf = cbind (tk_get h i) (\<lambda>t. case tk_parent t of
     None \<Rightarrow> Ret buf
   | Some p \<Rightarrow> name_up fuel h p (buf @ [tk_ch t]))"

text \<open>The loop that turns the name around, from both ends.\<close>

fun swap_ends :: "nat \<Rightarrow> nat \<Rightarrow> 'a list \<Rightarrow> 'a list" where
  "swap_ends 0 i buf = buf"
| "swap_ends (Suc n) i buf = swap_ends n (Suc i) (buf[i := buf ! (length buf - 1 - i), length buf - 1 - i := buf ! i])"

definition acl_token_name :: "'c token_heap \<Rightarrow> nat \<Rightarrow> byte list cres" where
  "acl_token_name h i = map_cres (\<lambda>buf. swap_ends (length buf div 2) 0 buf) (name_up (length h) h i [])"

text \<open>The tokens that \<open>acl_token_tree_walk\<close> hands to its callback, in order; the fuel is for the depth.\<close>

fun acl_token_tree_walk :: "nat \<Rightarrow> 'c token_heap \<Rightarrow> nat \<Rightarrow> nat list cres" where
  "acl_token_tree_walk 0 h i = Fault"
| "acl_token_tree_walk (Suc fuel) h i = cbind (tk_get h i) (\<lambda>t.
     fold (\<lambda>k acc. case tk_tokens t (of_nat k) of None \<Rightarrow> acc
         | Some n \<Rightarrow> cbind acc (\<lambda>xs. map_cres (\<lambda>ys. xs @ ys) (acl_token_tree_walk fuel h n))) [0..<256]
       (Ret (if token_stop t then [i] else [])))"

fun acl_token_tree_destroy :: "nat \<Rightarrow> 'c token_heap \<Rightarrow> nat \<Rightarrow> 'c token_heap cres" where
  "acl_token_tree_destroy 0 h i = Fault"
| "acl_token_tree_destroy (Suc fuel) h i = cbind (tk_get h i) (\<lambda>t.
     cbind (fold (\<lambda>k acc. case tk_tokens t (of_nat k) of None \<Rightarrow> acc
         | Some n \<Rightarrow> cbind acc (\<lambda>h. acl_token_tree_destroy fuel h n)) [0..<256] (Ret h))
     (\<lambda>h. acl_token_free h i))"

text \<open>The next node in the tree: the first child, or the next brother of the node or of one above it.\<close>

fun brother_up :: "nat \<Rightarrow> 'c token_heap \<Rightarrow> nat \<Rightarrow> nat option \<Rightarrow> (byte \<times> nat) option cres" where
  "brother_up fuel h i None = Ret None"
| "brother_up 0 h i (Some p) = Fault"
| "brother_up (Suc fuel) h i (Some p) = cbind (tk_get h p) (\<lambda>t. case child_from t i of
     Some c \<Rightarrow> Ret (map_option (\<lambda>n. (c, n)) (tk_tokens t c))
   | None \<Rightarrow> brother_up fuel h (unat (tk_ch t) + 1) (tk_parent t))"

definition token_next :: "'c token_heap \<Rightarrow> nat \<Rightarrow> (byte \<times> nat) option cres" where
  "token_next h i = cbind (tk_get h i) (\<lambda>t. case child_from t 0 of
     Some c \<Rightarrow> Ret (map_option (\<lambda>n. (c, n)) (tk_tokens t c))
   | None \<Rightarrow> brother_up (length h) h (unat (tk_ch t) + 1) (tk_parent t))"

type_synonym token_iter = "(nat, nat) acl_iter"

definition next_token :: "token_iter \<Rightarrow> 'c token_heap \<Rightarrow> nat \<Rightarrow> (token_iter \<times> nat option) cres" where
  "next_token it h i = map_cres (\<lambda>r. case r of
     None \<Rightarrow> (it\<lparr>it_ptr := None, it_data := None, it_i := 0\<rparr>, None)
   | Some (c, n) \<Rightarrow> (it\<lparr>it_ptr := Some n, it_data := Some n, it_i := uint c\<rparr>, Some n)) (token_next h i)"

fun next_stop :: "nat \<Rightarrow> token_iter \<Rightarrow> 'c token_heap \<Rightarrow> nat \<Rightarrow> token_iter cres" where
  "next_stop 0 it h i = Fault"
| "next_stop (Suc fuel) it h i = cbind (next_token it h i) (\<lambda>(it, curr). case curr of
     None \<Rightarrow> Ret it
   | Some n \<Rightarrow> cbind (tk_get h n) (\<lambda>t. if token_stop t then Ret it else next_stop fuel it h n))"

definition token_iter_next :: "token_iter \<Rightarrow> 'c token_heap \<Rightarrow> token_iter cres" where
  "token_iter_next it h = (case it_ptr it of None \<Rightarrow> Fault | Some i \<Rightarrow> next_stop (length h) it h i)"

definition token_iter_head :: "'c token_heap \<Rightarrow> nat \<Rightarrow> token_iter cres" where
  "token_iter_head h tree = cbind (tk_get h tree) (\<lambda>t. if tk_parent t \<noteq> None then Fault
     else token_iter_next \<lparr>it_ptr = Some tree, it_data = None, it_dlen = -1, it_key = None, it_klen = -1, it_i = 0, it_size = 0\<rparr> h)"

subsection \<open>Searching a text\<close>

lemma ptr_inc_less: "ptr_inc s = Ret s' \<Longrightarrow> length s' < length s"
  by (cases s) auto

text \<open>
  The three search functions differ only in how they test for a delimiter. A byte above 128 is taken for
  the first of a double-byte character. The result is the token and the text from the pointer on, which may reach the terminator and not pass it.
\<close>

function search_loop :: "(byte \<Rightarrow> bool) \<Rightarrow> 'c token_heap \<Rightarrow> nat \<Rightarrow> nat \<Rightarrow> nat option \<Rightarrow> byte list \<Rightarrow> (nat option \<times> byte list) cres" where
  "search_loop delim h tree iter found ptr =
    (if ptr = [] then Ret (found, ptr)
     else let c = peek ptr in
     if delim c then Ret (found, ptr)
     else cbind (tk_get h iter) (\<lambda>it.
       if tk_tokens it c = None \<and> found \<noteq> None then Ret (found, ptr)
       else cbind (if tk_tokens it c \<noteq> None then Ret (tk_tokens it c) else map_cres (\<lambda>r. tk_tokens r c) (tk_get h tree)) (\<lambda>token.
         case token of
           None \<Rightarrow> cbind (ptr_inc ptr) (\<lambda>ptr. if ptr = [] then Ret (found, ptr)
             else cbind (if c > 128 then ptr_inc ptr else Ret ptr) (\<lambda>ptr. search_loop delim h tree tree found ptr))
         | Some n \<Rightarrow>
             if \<not> c > 128 then cbind (tk_get h n) (\<lambda>t. cbind (ptr_inc ptr) (\<lambda>ptr.
               search_loop delim h tree n (if token_stop t then Some n else found) ptr))
             else cbind (ptr_inc ptr) (\<lambda>ptr. if ptr = [] then Ret (found, ptr)
             else cbind (tk_get h n) (\<lambda>t. case tk_tokens t (peek ptr) of
               None \<Rightarrow> if found \<noteq> None then Ret (found, ptr) else cbind (ptr_inc ptr) (\<lambda>ptr. search_loop delim h tree tree found ptr)
             | Some m \<Rightarrow> cbind (tk_get h m) (\<lambda>u. cbind (ptr_inc ptr) (\<lambda>ptr.
                 search_loop delim h tree m (if token_stop u then Some m else found) ptr)))))))"
  by pat_completeness auto

termination
  by (relation "measure (\<lambda>(_, _, _, _, _, ptr). length ptr)") (auto dest!: ptr_inc_less split: if_splits)

declare search_loop.simps [simp del]

text \<open>The equations that the proofs use: the pointer stays in front of the terminator where it is moved.\<close>

lemma search_loop_Nil: "search_loop delim h tree iter found [] = Ret (found, [])"
  by (simp add: search_loop.simps)

lemma search_loop_Cons: "search_loop delim h tree iter found (c # rest) =
    (if delim c then Ret (found, c # rest)
     else cbind (tk_get h iter) (\<lambda>it.
       if tk_tokens it c = None \<and> found \<noteq> None then Ret (found, c # rest)
       else cbind (if tk_tokens it c \<noteq> None then Ret (tk_tokens it c) else map_cres (\<lambda>r. tk_tokens r c) (tk_get h tree)) (\<lambda>token.
         case token of
           None \<Rightarrow> if rest = [] then Ret (found, []) else search_loop delim h tree tree found (if c > 128 then tl rest else rest)
         | Some n \<Rightarrow>
             if \<not> c > 128 then cbind (tk_get h n) (\<lambda>t. search_loop delim h tree n (if token_stop t then Some n else found) rest)
             else if rest = [] then Ret (found, [])
             else cbind (tk_get h n) (\<lambda>t. case tk_tokens t (hd rest) of
               None \<Rightarrow> if found \<noteq> None then Ret (found, rest) else search_loop delim h tree tree found (tl rest)
             | Some m \<Rightarrow> cbind (tk_get h m) (\<lambda>u. search_loop delim h tree m (if token_stop u then Some m else found) (tl rest))))))"
  by (cases rest; subst search_loop.simps) (simp_all add: Let_def cong: option.case_cong cbind_cong if_cong)

lemmas search_loop_eqs = search_loop_Nil search_loop_Cons

definition search_stop_at_delim :: "'c token_heap \<Rightarrow> nat \<Rightarrow> byte list \<Rightarrow> byte list \<Rightarrow> (nat option \<times> byte list) cres" where
  "search_stop_at_delim h tree text delim = search_loop (\<lambda>c. c \<in> set delim) h tree tree None text"

definition acl_token_delim_tab_new :: "byte list \<Rightarrow> byte \<Rightarrow> bool" where
  "acl_token_delim_tab_new delim = fold (\<lambda>c tab. tab(c := True)) delim (\<lambda>_. False)"

definition search_stop_at_delim_tab :: "'c token_heap \<Rightarrow> nat \<Rightarrow> byte list \<Rightarrow> (byte \<Rightarrow> bool) \<Rightarrow> (nat option \<times> byte list) cres" where
  "search_stop_at_delim_tab h tree text delim_tab = search_loop delim_tab h tree tree None text"

definition search_all :: "'c token_heap \<Rightarrow> nat \<Rightarrow> byte list \<Rightarrow> (nat option \<times> byte list) cres" where
  "search_all h tree text = search_loop (\<lambda>_. False) h tree tree None text"

definition acl_token_tree_match :: "'c token_heap \<Rightarrow> nat \<Rightarrow> byte list \<Rightarrow> byte list option \<Rightarrow> (byte \<Rightarrow> bool) option \<Rightarrow> (nat option \<times> byte list) cres" where
  "acl_token_tree_match h tree text delim delim_tab = (case delim of
     Some d \<Rightarrow> search_stop_at_delim h tree text d
   | None \<Rightarrow> (case delim_tab of Some tab \<Rightarrow> search_stop_at_delim_tab h tree text tab | None \<Rightarrow> search_all h tree text))"

subsection \<open>Building a tree from a list of words\<close>

text \<open>The flags behind a bar: deny or pass.\<close>

definition word_flag :: "byte list \<Rightarrow> 32 word \<Rightarrow> 32 word" where
  "word_flag opts flag = (let c = peek opts;
     flag = (if c = ch CHR ''D'' \<or> c = ch CHR ''d'' then flag OR 4 else flag) in
     if c = ch CHR ''P'' \<or> c = ch CHR ''p'' then flag OR 2 else flag)"

definition split_word :: "byte \<Rightarrow> byte list \<Rightarrow> 32 word \<Rightarrow> byte list \<times> 32 word" where
  "split_word sep word plain = (let w = takeWhile (\<lambda>c. c \<noteq> sep) word in
     (w, if length w < length word then word_flag (drop (Suc (length w)) word) 1 else plain))"

fun add_words :: "'c token_heap \<Rightarrow> nat \<Rightarrow> (byte list \<times> 32 word) list \<Rightarrow> 'c token_heap cres" where
  "add_words h tree [] = Ret h"
| "add_words h tree ((w, flag) # ws) = cbind (acl_token_tree_add h tree w flag None) (\<lambda>(h, _). add_words h tree ws)"

definition acl_token_tree_create2 :: "byte list \<Rightarrow> byte list \<Rightarrow> ('c token_heap \<times> nat) cres" where
  "acl_token_tree_create2 s sep = (let (h, tree) = acl_token_new [] in
     map_cres (\<lambda>h. (h, tree)) (add_words h tree (map (\<lambda>w. split_word (ch CHR ''|'') w 1) (strtok_all s sep))))"

definition acl_token_tree_create :: "byte list \<Rightarrow> ('c token_heap \<times> nat) cres" where
  "acl_token_tree_create s = acl_token_tree_create2 s (map of_char '';, '' @ [9])"

text \<open>The lines of a file of words; the file is read by the caller of the model.\<close>

definition acl_token_tree_load_deny :: "byte list list \<Rightarrow> 'c token_heap \<Rightarrow> nat \<Rightarrow> 'c token_heap cres" where
  "acl_token_tree_load_deny lines h tree = add_words h tree (map (\<lambda>w. split_word (ch CHR ''|'') w 5) lines)"

definition acl_token_tree_load_pass :: "byte list list \<Rightarrow> 'c token_heap \<Rightarrow> nat \<Rightarrow> 'c token_heap cres" where
  "acl_token_tree_load_pass lines h tree = add_words h tree (map (\<lambda>w. split_word (ch CHR '':'') w 3) lines)"

end
