(* ===== verification/Token_Rep.thy ===== *)
theory Token_Rep
  imports Acl_Token
begin

text \<open>The tree of tokens as a finite map from words, and every operation against it.\<close>

subsection \<open>The heap\<close>

named_theorems tk_heap \<open>reading the heap after a change\<close>

lemma tk_get_len: "tk_get h i = Ret t \<Longrightarrow> i < length h"
  by (cases "i < length h") (simp_all add: tk_get_def)

lemma tk_get_none: "length h \<le> i \<Longrightarrow> tk_get h i = Fault"
  by (simp add: tk_get_def)

lemma tk_upd_ok [simp]: "tk_get h i = Ret t \<Longrightarrow> tk_upd h i f = Ret (h[i := Some (f t)])"
  by (simp add: tk_upd_def)

lemma tk_get_put [tk_heap]: "tk_get (h[i := Some t]) k = (if k = i \<and> i < length h then Ret t else tk_get h k)"
  by (auto simp: tk_get_def tab_at_def nth_list_update)

lemma tk_get_free [tk_heap]: "tk_get (h[i := None]) k = (if k = i then Fault else tk_get h k)"
  by (auto simp: tk_get_def tab_at_def nth_list_update)

lemma tk_get_app [tk_heap]: "tk_get (h @ [Some t]) k = (if k = length h then Ret t else tk_get h k)"
  by (auto simp: tk_get_def tab_at_def nth_append)

subsection \<open>Trees and paths\<close>

definition token_ok :: "'c token_heap \<Rightarrow> nat \<Rightarrow> 'c acl_token \<Rightarrow> bool" where
  "token_ok h i t \<longleftrightarrow>
     (\<forall>c n. tk_tokens t c = Some n \<longrightarrow> i < n \<and> (\<exists>u. tk_get h n = Ret u \<and> tk_parent u = Some i \<and> tk_ch u = c))
     \<and> (case tk_parent t of None \<Rightarrow> i = 0 \<and> \<not> token_stop t | Some p \<Rightarrow> \<exists>u. tk_get h p = Ret u \<and> tk_tokens u (tk_ch t) = Some i)"

definition trie_ok :: "'c token_heap \<Rightarrow> bool" where
  "trie_ok h \<longleftrightarrow> (\<exists>r. tk_get h 0 = Ret r \<and> tk_parent r = None) \<and> (\<forall>i t. tk_get h i = Ret t \<longrightarrow> token_ok h i t)"

lemma trie_root: "trie_ok h \<Longrightarrow> \<exists>r. tk_get h 0 = Ret r \<and> tk_parent r = None \<and> \<not> token_stop r"
  by (fastforce simp: trie_ok_def token_ok_def)

lemma trie_child:
  assumes "trie_ok h" "tk_get h i = Ret t" "tk_tokens t c = Some n"
  obtains u where "tk_get h n = Ret u" "tk_parent u = Some i" "tk_ch u = c" "i < n"
  using assms unfolding trie_ok_def token_ok_def by blast

lemma trie_parent:
  assumes "trie_ok h" "tk_get h i = Ret t" "tk_parent t = Some p"
  obtains u where "tk_get h p = Ret u" "tk_tokens u (tk_ch t) = Some i" "p < i"
proof -
  obtain u where u: "tk_get h p = Ret u" "tk_tokens u (tk_ch t) = Some i"
    using assms unfolding trie_ok_def token_ok_def by fastforce
  then show ?thesis using that trie_child [OF assms(1) u] by blast
qed

lemma trie_orphan: "trie_ok h \<Longrightarrow> tk_get h i = Ret t \<Longrightarrow> tk_parent t = None \<Longrightarrow> i = 0"
  by (fastforce simp: trie_ok_def token_ok_def)

fun node_at :: "'c token_heap \<Rightarrow> nat \<Rightarrow> byte list \<Rightarrow> nat option" where
  "node_at h i [] = Some i"
| "node_at h i (c # w) = (case tk_get h i of Fault \<Rightarrow> None
     | Ret t \<Rightarrow> (case tk_tokens t c of None \<Rightarrow> None | Some n \<Rightarrow> node_at h n w))"

lemma node_at_append: "node_at h i (v @ w) = (case node_at h i v of None \<Rightarrow> None | Some n \<Rightarrow> node_at h n w)"
  by (induction v arbitrary: i) (auto split: option.splits cres.splits)

lemma node_at_live: "trie_ok h \<Longrightarrow> tk_get h i = Ret t \<Longrightarrow> node_at h i w = Some n \<Longrightarrow> \<exists>u. tk_get h n = Ret u \<and> i \<le> n"
proof (induction w arbitrary: i t)
  case (Cons c w)
  then obtain m where m: "tk_tokens t c = Some m" "node_at h m w = Some n" by (auto split: option.splits)
  obtain u where "tk_get h m = Ret u" "i < m" by (rule trie_child [OF Cons.prems(1,2) m(1)], rule that)
  then show ?case using Cons.IH [OF Cons.prems(1) _ m(2)] by fastforce
qed simp

lemma node_at_snoc:
  assumes "trie_ok h" "node_at h 0 (w @ [c]) = Some n"
  obtains m u where "node_at h 0 w = Some m" "tk_get h n = Ret u" "tk_parent u = Some m" "tk_ch u = c" "n \<noteq> 0"
proof -
  obtain r where r: "tk_get h 0 = Ret r" using trie_root [OF assms(1)] by blast
  obtain m where m: "node_at h 0 w = Some m" "node_at h m [c] = Some n"
    using assms(2) by (auto simp: node_at_append split: option.splits)
  obtain t where t: "tk_get h m = Ret t" using node_at_live [OF assms(1) r m(1)] by blast
  then have "tk_tokens t c = Some n" using m(2) by (auto split: option.splits)
  then show ?thesis using trie_child [OF assms(1) t] that m(1) by (metis not_less_zero)
qed

lemma path_unique: "trie_ok h \<Longrightarrow> node_at h 0 v = Some n \<Longrightarrow> node_at h 0 w = Some n \<Longrightarrow> v = w"
proof (induction v arbitrary: w n rule: rev_induct)
  case Nil
  then have n: "n = 0" by simp
  show ?case
  proof (cases w rule: rev_cases)
    case (snoc w' c)
    then show ?thesis using node_at_snoc [OF Nil(1), of w' c n] Nil(3) n by (metis (no_types))
  qed simp
next
  case (snoc c v)
  obtain m u where m: "node_at h 0 v = Some m" "tk_get h n = Ret u" "tk_parent u = Some m" "tk_ch u = c" "n \<noteq> 0"
    by (rule node_at_snoc [OF snoc.prems(1,2)], rule that)
  show ?case
  proof (cases w rule: rev_cases)
    case Nil
    then show ?thesis using snoc.prems(3) m(5) by simp
  next
    case (snoc w' d)
    obtain m' u' where "node_at h 0 w' = Some m'" "tk_get h n = Ret u'" "tk_parent u' = Some m'" "tk_ch u' = d"
      by (rule node_at_snoc [OF snoc.prems(1) snoc.prems(3) [unfolded snoc]], rule that)
    then show ?thesis using m snoc.IH [OF snoc.prems(1) m(1)] snoc by simp
  qed
qed

lemma path_exists: "trie_ok h \<Longrightarrow> tk_get h i = Ret t \<Longrightarrow> \<exists>w. node_at h 0 w = Some i \<and> length w \<le> i"
proof (induction i arbitrary: t rule: less_induct)
  case (less i)
  show ?case
  proof (cases "tk_parent t")
    case None
    then show ?thesis using trie_orphan [OF less.prems] by (intro exI [of _ "[]"]) simp
  next
    case (Some p)
    obtain u where u: "tk_get h p = Ret u" "tk_tokens u (tk_ch t) = Some i" "p < i"
      by (rule trie_parent [OF less.prems Some], rule that)
    obtain w where "node_at h 0 w = Some p" "length w \<le> p" using less.IH [OF u(3) less.prems(1) u(1)] by blast
    then show ?thesis using u by (intro exI [of _ "w @ [tk_ch t]"]) (simp add: node_at_append)
  qed
qed

text \<open>Paths depend only on the children.\<close>

lemma node_at_cong:
  assumes "\<And>k. map_cres tk_tokens (tk_get h' k) = map_cres tk_tokens (tk_get h k)"
  shows "node_at h' i w = node_at h i w"
proof (induction w arbitrary: i)
  case (Cons c w)
  show ?case using assms [of i] Cons.IH by (cases "tk_get h' i"; cases "tk_get h i") (simp_all split: option.split)
qed simp

subsection \<open>The words\<close>

definition word_entry :: "'c acl_token \<Rightarrow> (32 word \<times> 'c option) option" where
  "word_entry t = (if token_stop t then Some (tk_flag t, tk_ctx t) else None)"

definition token_words :: "'c token_heap \<Rightarrow> byte list \<Rightarrow> (32 word \<times> 'c option) option" where
  "token_words h w = (case node_at h 0 w of None \<Rightarrow> None
     | Some n \<Rightarrow> (case tk_get h n of Fault \<Rightarrow> None | Ret t \<Rightarrow> word_entry t))"

lemma trie_new: "trie_ok (fst (acl_token_new [] :: 'c token_heap \<times> nat))" "token_words (fst (acl_token_new [] :: 'c token_heap \<times> nat)) w = None"
  "node_at (fst (acl_token_new [] :: 'c token_heap \<times> nat)) 0 w = (if w = [] then Some 0 else None)"
proof -
  let ?t = "\<lparr>tk_ch = 45, tk_flag = 0, tk_tokens = (\<lambda>_. None), tk_parent = None, tk_ctx = None\<rparr> :: 'c acl_token"
  have g: "tk_get [Some ?t] k = (if k = 0 then Ret ?t else Fault)" for k by (cases k) (simp_all add: tk_get_def tab_at_def)
  show "trie_ok (fst (acl_token_new [] :: 'c token_heap \<times> nat))" by (simp add: acl_token_new_def trie_ok_def g token_ok_def token_stop_def)
  show p: "node_at (fst (acl_token_new [] :: 'c token_heap \<times> nat)) 0 w = (if w = [] then Some 0 else None)"
    by (cases w) (simp_all add: acl_token_new_def g)
  then show "token_words (fst (acl_token_new [] :: 'c token_heap \<times> nat)) w = None"
    by (simp add: token_words_def acl_token_new_def g word_entry_def token_stop_def)
qed

text \<open>A new child.\<close>

definition put_child :: "'c token_heap \<Rightarrow> nat \<Rightarrow> 'c acl_token \<Rightarrow> byte \<Rightarrow> 'c token_heap" where
  "put_child h i t c = (h[i := Some (t\<lparr>tk_tokens := (tk_tokens t)(c := Some (length h))\<rparr>)]) @
     [Some \<lparr>tk_ch = c, tk_flag = 0, tk_tokens = (\<lambda>_. None), tk_parent = Some i, tk_ctx = None\<rparr>]"

lemma put_child_get:
  assumes "tk_get h i = Ret t"
  shows "tk_get (put_child h i t c) k = (if k = length h then Ret \<lparr>tk_ch = c, tk_flag = 0, tk_tokens = (\<lambda>_. None), tk_parent = Some i, tk_ctx = None\<rparr>
     else if k = i then Ret (t\<lparr>tk_tokens := (tk_tokens t)(c := Some (length h))\<rparr>) else tk_get h k)"
  using tk_get_len [OF assms] by (auto simp: put_child_def tk_get_app tk_get_put tk_get_def tab_at_def nth_append)

lemma put_child_ok:
  assumes h: "trie_ok h" and i: "tk_get h i = Ret t" and c: "tk_tokens t c = None"
  shows "trie_ok (put_child h i t c)"
proof -
  note g = put_child_get [OF i, of c]
  have l: "i < length h" using tk_get_len [OF i] .
  have old: "\<exists>u'. tk_get (put_child h i t c) k = Ret u' \<and> tk_parent u' = tk_parent u \<and> tk_ch u' = tk_ch u \<and> token_stop u' = token_stop u
      \<and> (\<forall>d m. tk_tokens u d = Some m \<longrightarrow> tk_tokens u' d = Some m)" if "tk_get h k = Ret u" for k u
    using that g [of k] i c tk_get_len [OF that] by (auto simp: token_stop_def)
  have "token_ok (put_child h i t c) k u'" if k: "tk_get (put_child h i t c) k = Ret u'" for k u'
  proof (cases "k = length h")
    case True
    then show ?thesis using k g [of k] g [of i] l by (auto simp: token_ok_def)
  next
    case False
    then obtain u where u: "tk_get h k = Ret u" "u' = (if k = i then t\<lparr>tk_tokens := (tk_tokens t)(c := Some (length h))\<rparr> else u)"
      using k g [of k] i by (auto split: if_splits)
    have o: "token_ok h k u" using h u(1) by (simp add: trie_ok_def)
    have "k < n \<and> (\<exists>v. tk_get (put_child h i t c) n = Ret v \<and> tk_parent v = Some k \<and> tk_ch v = d)" if n: "tk_tokens u' d = Some n" for d n
    proof (cases "k = i \<and> d = c")
      case True
      then have "n = length h" using n u(2) by simp
      then show ?thesis using True g [of n] l by simp
    next
      case False
      then have "tk_tokens u d = Some n" using n u i by (auto split: if_splits)
      then obtain v where "tk_get h n = Ret v" "tk_parent v = Some k" "tk_ch v = d" "k < n" using o unfolding token_ok_def by blast
      then show ?thesis using old by metis
    qed
    moreover have "case tk_parent u' of None \<Rightarrow> k = 0 \<and> \<not> token_stop u' | Some p \<Rightarrow> \<exists>v. tk_get (put_child h i t c) p = Ret v \<and> tk_tokens v (tk_ch u') = Some k"
    proof -
      have same: "tk_parent u' = tk_parent u" "tk_ch u' = tk_ch u" "token_stop u' = token_stop u" using u i by (auto simp: token_stop_def)
      show ?thesis
      proof (cases "tk_parent u")
        case None
        then show ?thesis using o same by (simp add: token_ok_def)
      next
        case (Some p)
        then obtain v where "tk_get h p = Ret v" "tk_tokens v (tk_ch u) = Some k" using o by (auto simp: token_ok_def)
        then show ?thesis using old [of p v] same Some by auto
      qed
    qed
    ultimately show ?thesis by (simp add: token_ok_def)
  qed
  moreover have "\<exists>r. tk_get (put_child h i t c) 0 = Ret r \<and> tk_parent r = None" using trie_root [OF h] old [of 0] by auto
  ultimately show ?thesis by (simp add: trie_ok_def)
qed

lemma put_child_path:
  assumes h: "trie_ok h" and i: "tk_get h i = Ret t" and c: "tk_tokens t c = None" and k: "tk_get h k = Ret u"
  shows "node_at (put_child h i t c) k w = (if node_at h k w \<noteq> None then node_at h k w
    else if w \<noteq> [] \<and> last w = c \<and> node_at h k (butlast w) = Some i then Some (length h) else None)"
  using k
proof (induction w arbitrary: k u)
  case (Cons d w)
  note g = put_child_get [OF i, of c]
  have l: "k < length h" using tk_get_len [OF Cons.prems] .
  show ?case
  proof (cases "tk_tokens u d")
    case (Some n)
    obtain v where v: "tk_get h n = Ret v" by (rule trie_child [OF h Cons.prems Some], rule that)
    have "node_at (put_child h i t c) k (d # w) = node_at (put_child h i t c) n w"
      using g [of k] l Cons.prems Some i c by (auto split: if_splits)
    then show ?thesis using Cons.IH [OF v] Cons.prems Some by (cases w) auto
  next
    case None
    show ?thesis
    proof (cases "k = i \<and> d = c")
      case True
      then have "node_at (put_child h i t c) k (d # w) = node_at (put_child h i t c) (length h) w"
        using g [of k] l Cons.prems i by auto
      then show ?thesis using True None Cons.prems g [of "length h"] by (cases w) auto
    next
      case False
      then have "node_at (put_child h i t c) k (d # w) = None"
        using g [of k] l Cons.prems None i by auto
      then show ?thesis using False None Cons.prems by (cases w) auto
    qed
  qed
qed simp

lemma put_child_words:
  assumes h: "trie_ok h" and i: "tk_get h i = Ret t" and c: "tk_tokens t c = None"
  shows "token_words (put_child h i t c) = token_words h"
proof
  fix w
  note g = put_child_get [OF i, of c]
  obtain r where r: "tk_get h 0 = Ret r" using trie_root [OF h] by blast
  show "token_words (put_child h i t c) w = token_words h w"
  proof (cases "node_at h 0 w")
    case (Some n)
    obtain u where u: "tk_get h n = Ret u" using node_at_live [OF h r Some] by blast
    have "n \<noteq> length h" using tk_get_len [OF u] by simp
    then show ?thesis using put_child_path [OF h i c r, of w] Some g [of n] i by (auto simp: token_words_def word_entry_def token_stop_def)
  next
    case None
    then show ?thesis using put_child_path [OF h i c r, of w] g [of "length h"]
      by (auto simp: token_words_def word_entry_def token_stop_def)
  qed
qed

subsection \<open>Adding a word\<close>

lemma token_words_node: "node_at h 0 w = Some n \<Longrightarrow> tk_get h n = Ret t \<Longrightarrow> token_words h w = word_entry t"
  by (simp add: token_words_def)

lemma add_loop_ok:
  assumes "trie_ok h" "tk_get h i = Ret t" "node_at h 0 u = Some i"
  shows "\<exists>h' n t'. add_loop h i tok w = Ret (h', if w = [] then tok else Some n) \<and> trie_ok h' \<and> node_at h' 0 (u @ w) = Some n
    \<and> tk_get h' n = Ret t' \<and> token_words h' = token_words h
    \<and> (\<forall>v. node_at h' 0 v \<noteq> None \<longleftrightarrow> node_at h 0 v \<noteq> None \<or> (\<exists>x y. w = x @ y \<and> v = u @ x))"
  using assms
proof (induction w arbitrary: h i t u tok)
  case Nil
  then show ?case by (intro exI [of _ h] exI [of _ i] exI [of _ t]) auto
next
  case (Cons c w)
  note h = Cons.prems(1) and i = Cons.prems(2) and u = Cons.prems(3)
  have pre: "(\<exists>x y. c # w = x @ y \<and> v = u @ x) \<longleftrightarrow> v = u \<or> (\<exists>x y. w = x @ y \<and> v = (u @ [c]) @ x)" for v
    by (auto simp: Cons_eq_append_conv)
  show ?case
  proof (cases "tk_tokens t c")
    case (Some n)
    obtain t1 where n: "tk_get h n = Ret t1" "tk_ch t1 = c" by (rule trie_child [OF h i Some], rule that)
    have un: "node_at h 0 (u @ [c]) = Some n" using u i Some by (simp add: node_at_append)
    obtain h' m t' where r: "add_loop h n (Some n) w = Ret (h', if w = [] then Some n else Some m)" "trie_ok h'" "node_at h' 0 ((u @ [c]) @ w) = Some m"
      "tk_get h' m = Ret t'" "token_words h' = token_words h"
      "\<forall>v. node_at h' 0 v \<noteq> None \<longleftrightarrow> node_at h 0 v \<noteq> None \<or> (\<exists>x y. w = x @ y \<and> v = (u @ [c]) @ x)"
      using Cons.IH [OF h n(1) un, of "Some n"] by blast
    have m: "w = [] \<Longrightarrow> m = n"
    proof -
      assume w: "w = []"
      then have "h' = h" using r(1) by simp
      then show "m = n" using r(3) un w by simp
    qed
    have "add_loop h i tok (c # w) = Ret (h', Some m)" using r(1) i n Some m by (cases "w = []") simp_all
    then show ?thesis using r(2-5) r(6) u pre by (intro exI [of _ h'] exI [of _ m] exI [of _ t']) auto
  next
    case None
    let ?h = "put_child h i t c" and ?n = "length h"
    note g = put_child_get [OF i, of c]
    have l: "i < length h" using tk_get_len [OF i] .
    obtain t1 where n: "tk_get ?h ?n = Ret t1" using g [of ?n] by simp
    obtain r0 where r0: "tk_get h 0 = Ret r0" using trie_root [OF h] by blast
    note pth = put_child_path [OF h i None r0]
    have nu: "node_at h 0 (u @ [c]) = None" using u i None by (simp add: node_at_append)
    have un: "node_at ?h 0 (u @ [c]) = Some ?n" using pth [of "u @ [c]"] nu u by simp
    obtain h' m t' where r: "add_loop ?h ?n (Some ?n) w = Ret (h', if w = [] then Some ?n else Some m)" "trie_ok h'" "node_at h' 0 ((u @ [c]) @ w) = Some m"
      "tk_get h' m = Ret t'" "token_words h' = token_words ?h"
      "\<forall>v. node_at h' 0 v \<noteq> None \<longleftrightarrow> node_at ?h 0 v \<noteq> None \<or> (\<exists>x y. w = x @ y \<and> v = (u @ [c]) @ x)"
      using Cons.IH [OF put_child_ok [OF h i None] n un, of "Some ?n"] by blast
    have m: "w = [] \<Longrightarrow> m = ?n"
    proof -
      assume w: "w = []"
      then have "h' = ?h" using r(1) by simp
      then show "m = ?n" using r(3) un w by simp
    qed
    have "add_loop h i tok (c # w) = add_loop ?h ?n (Some ?n) w"
      using i None l by (simp add: acl_token_new_def tk_heap Let_def put_child_def list_update_append)
    then have s: "add_loop h i tok (c # w) = Ret (h', Some m)" using r(1) m by (cases "w = []") simp_all
    have ex: "node_at ?h 0 v \<noteq> None \<longleftrightarrow> node_at h 0 v \<noteq> None \<or> v = u @ [c]" for v
    proof -
      have "v \<noteq> [] \<and> last v = c \<and> node_at h 0 (butlast v) = Some i \<longleftrightarrow> v = u @ [c]"
        using u path_unique [OF h, of "butlast v" i u] by (cases v rule: rev_cases) auto
      then show ?thesis using pth [of v] by simp
    qed
    have "node_at h' 0 v \<noteq> None \<longleftrightarrow> node_at h 0 v \<noteq> None \<or> (\<exists>x y. c # w = x @ y \<and> v = u @ x)" for v
      using r(6) ex [of v] u pre [of v] by auto
    then show ?thesis using s r(2-5) put_child_words [OF h i None] by (intro exI [of _ h'] exI [of _ m] exI [of _ t']) simp
  qed
qed

lemma put_entry:
  assumes h: "trie_ok h" and n: "tk_get h n = Ret t" and w: "node_at h 0 w = Some n" and f: "tk_tokens (f t) = tk_tokens t" "tk_ch (f t) = tk_ch t" "tk_parent (f t) = tk_parent t"
    and root: "n = 0 \<Longrightarrow> \<not> token_stop (f t)"
  shows "trie_ok (h[n := Some (f t)])" "token_words (h[n := Some (f t)]) = (token_words h)(w := word_entry (f t))" "node_at (h[n := Some (f t)]) k v = node_at h k v"
proof -
  let ?h = "h[n := Some (f t)]"
  have l: "n < length h" using tk_get_len [OF n] .
  have g: "tk_get ?h k = (if k = n then Ret (f t) else tk_get h k)" for k using l by (simp add: tk_heap)
  show p: "node_at ?h k v = node_at h k v" for k v by (rule node_at_cong) (simp add: g n f)
  have "token_words ?h v = ((token_words h)(w := word_entry (f t))) v" for v
  proof (cases "v = w")
    case False
    then have "node_at h 0 v \<noteq> Some n" using path_unique [OF h, of v n w] w by blast
    then show ?thesis using False p g by (simp add: token_words_def split: option.split)
  qed (use p g w in \<open>simp add: token_words_def\<close>)
  then show "token_words ?h = (token_words h)(w := word_entry (f t))" by blast
  have old: "\<exists>u'. tk_get ?h k = Ret u' \<and> tk_tokens u' = tk_tokens u \<and> tk_ch u' = tk_ch u \<and> tk_parent u' = tk_parent u" if "tk_get h k = Ret u" for k u
    using that g [of k] n f by auto
  have "token_ok ?h k u'" if k: "tk_get ?h k = Ret u'" for k u'
  proof -
    obtain u where u: "tk_get h k = Ret u" "tk_tokens u' = tk_tokens u" "tk_ch u' = tk_ch u" "tk_parent u' = tk_parent u"
      "k \<noteq> n \<Longrightarrow> u' = u" "k = n \<Longrightarrow> u' = f t"
      using k g [of k] n f by (cases "k = n") auto
    have o: "token_ok h k u" using h u(1) by (simp add: trie_ok_def)
    have "k < m \<and> (\<exists>v. tk_get ?h m = Ret v \<and> tk_parent v = Some k \<and> tk_ch v = c)" if "tk_tokens u' c = Some m" for c m
    proof -
      have m: "tk_tokens u c = Some m" using that u(2) by simp
      obtain v where "k < m" "tk_get h m = Ret v" "tk_parent v = Some k" "tk_ch v = c" by (rule trie_child [OF h u(1) m]) blast
      then show ?thesis using old by metis
    qed
    moreover have "case tk_parent u' of None \<Rightarrow> k = 0 \<and> \<not> token_stop u' | Some p \<Rightarrow> \<exists>v. tk_get ?h p = Ret v \<and> tk_tokens v (tk_ch u') = Some k"
    proof (cases "tk_parent u")
      case None
      then have "k = 0 \<and> \<not> token_stop u" using o by (simp add: token_ok_def)
      then show ?thesis using None u root by (cases "k = n") auto
    next
      case (Some p)
      then obtain v where "tk_get h p = Ret v" "tk_tokens v (tk_ch u) = Some k" using o by (auto simp: token_ok_def)
      then show ?thesis using Some u old [of p v] by auto
    qed
    ultimately show ?thesis by (simp add: token_ok_def)
  qed
  moreover have "\<exists>r. tk_get ?h 0 = Ret r \<and> tk_parent r = None" using trie_root [OF h] old [of 0] by auto
  ultimately show "trie_ok ?h" by (simp add: trie_ok_def)
qed

lemma node_root: "trie_ok h \<Longrightarrow> node_at h 0 w = Some 0 \<longleftrightarrow> w = []"
  using path_unique [of h w 0 "[]"] by auto

text \<open>Adding a word: the tree afterwards, and the nodes that there are.\<close>

lemma tree_add_ok:
  assumes h: "trie_ok h" and flag: "\<not> pass_and_deny flag" and w: "w \<noteq> []"
  obtains h' n where "acl_token_tree_add h 0 w flag ctx = Ret (h', Some n)" "trie_ok h'" "node_at h' 0 w = Some n"
    "token_words h' = (token_words h)(w := if bit flag 0 then Some (flag, ctx) else None)"
    "\<And>v. node_at h' 0 v \<noteq> None \<longleftrightarrow> node_at h 0 v \<noteq> None \<or> (\<exists>y. w = v @ y)"
proof -
  obtain r where r: "tk_get h 0 = Ret r" using trie_root [OF h] by blast
  obtain h1 n t where 1: "add_loop h 0 None w = Ret (h1, Some n)" "trie_ok h1" "node_at h1 0 w = Some n" "tk_get h1 n = Ret t"
    "token_words h1 = token_words h" "\<forall>v. node_at h1 0 v \<noteq> None \<longleftrightarrow> node_at h 0 v \<noteq> None \<or> (\<exists>x y. w = x @ y \<and> v = x)"
    using add_loop_ok [OF h r, of "[]" None w] w by auto
  define f where "f = (\<lambda>t :: 'a acl_token. t\<lparr>tk_flag := flag, tk_ctx := ctx\<rparr>)"
  have n0: "n \<noteq> 0" using node_root [OF 1(2), of w] 1(3) w by auto
  have e: "word_entry (f t) = (if bit flag 0 then Some (flag, ctx) else None)" by (simp add: f_def word_entry_def token_stop_def)
  have "acl_token_tree_add h 0 w flag ctx = Ret (h1[n := Some (f t)], Some n)"
    using 1(1,4) flag by (simp add: acl_token_tree_add_def f_def)
  moreover note put_entry [OF 1(2,4,3), of f]
  ultimately show thesis using n0 1(3,5,6) e by (intro that [of "h1[n := Some (f t)]" n]) (auto simp: f_def)
qed

subsection \<open>Finding and removing a word\<close>

lemma match_loop_eq:
  assumes "trie_ok h"
  shows "tk_get h i = Ret t \<Longrightarrow> match_loop h i tok w = Ret (if w = [] then tok else node_at h i w)"
proof (induction w arbitrary: i t tok)
  case (Cons c w)
  show ?case
  proof (cases "tk_tokens t c")
    case (Some n)
    obtain u where "tk_get h n = Ret u" by (rule trie_child [OF assms Cons.prems Some])
    then show ?thesis using Cons.IH [of n u "Some n"] Cons.prems Some by simp
  qed (use Cons.prems in simp)
qed simp

lemma word_match_eq:
  assumes h: "trie_ok h"
  shows "acl_token_tree_word_match h 0 w = Ret (if token_words h w = None then None else node_at h 0 w)"
proof -
  obtain r where r: "tk_get h 0 = Ret r" "\<not> token_stop r" using trie_root [OF h] by blast
  show ?thesis
  proof (cases "w = [] \<or> node_at h 0 w = None")
    case True
    then show ?thesis using match_loop_eq [OF h r(1)] r
      by (auto simp: acl_token_tree_word_match_def token_words_def word_entry_def)
  next
    case False
    then obtain n where n: "node_at h 0 w = Some n" by blast
    obtain t where "tk_get h n = Ret t" using node_at_live [OF h r(1) n] by blast
    then show ?thesis using n False match_loop_eq [OF h r(1)]
      by (simp add: acl_token_tree_word_match_def token_words_def word_entry_def)
  qed
qed

lemma child_from_ctx [simp]: "child_from (t\<lparr>tk_ctx := x\<rparr>) i = child_from t i"
  by (simp add: child_from_def)

lemma child_from_None: "child_from t 0 = None \<longleftrightarrow> (\<forall>c. tk_tokens t c = None)"
proof -
  have "child_from t 0 = None \<longleftrightarrow> (\<forall>k < 256. tk_tokens t (of_nat k) = None)"
    by (auto simp: child_from_def find_None_iff)
  also have "\<dots> \<longleftrightarrow> (\<forall>c. tk_tokens t c = None)"
  proof
    assume a: "\<forall>k < 256. tk_tokens t (of_nat k) = None"
    show "\<forall>c. tk_tokens t c = None"
    proof
      fix c :: byte
      have "unat c < 256" using unsigned_less [of c] by simp
      then have "tk_tokens t (of_nat (unat c)) = None" using a by blast
      then show "tk_tokens t c = None" by simp
    qed
  qed simp
  finally show ?thesis .
qed

lemma drop_leaf:
  assumes h: "trie_ok h" and n: "tk_get h n = Ret t" "node_at h 0 w = Some n" and leaf: "\<And>c. tk_tokens t c = None"
    and p: "tk_parent t = Some p" "tk_get h p = Ret u"
  defines "h' \<equiv> (h[p := Some (u\<lparr>tk_tokens := (tk_tokens u)(tk_ch t := None)\<rparr>)])[n := None]"
  shows "trie_ok h'" "token_words h' = (token_words h)(w := None)"
proof -
  obtain u1 where pu: "tk_tokens u (tk_ch t) = Some n" "p < n"
    using p by (metis trie_parent [OF h n(1) p(1)] cres.inject)
  have l: "p < length h" using tk_get_len [OF p(2)] .
  have g: "tk_get h' k = (if k = n then Fault else if k = p then Ret (u\<lparr>tk_tokens := (tk_tokens u)(tk_ch t := None)\<rparr>) else tk_get h k)" for k
    using l by (simp add: h'_def tk_heap)
  have edge: "m \<noteq> n \<or> k = p \<and> c = tk_ch t" if "tk_get h k = Ret v" "tk_tokens v c = Some m" for k v c m
    by (rule trie_child [OF h that]) (use n(1) p(1) in auto)
  have old: "\<exists>v'. tk_get h' k = Ret v' \<and> tk_parent v' = tk_parent v \<and> tk_ch v' = tk_ch v \<and> token_stop v' = token_stop v \<and> word_entry v' = word_entry v
      \<and> (\<forall>c m. tk_tokens v' c = Some m \<longleftrightarrow> tk_tokens v c = Some m \<and> m \<noteq> n)" if "tk_get h k = Ret v" "k \<noteq> n" for k v
  proof (cases "k = p")
    case True
    then have v: "v = u" using that(1) p(2) by simp
    have "tk_tokens u c = Some m \<Longrightarrow> c \<noteq> tk_ch t \<Longrightarrow> m \<noteq> n" for c m using edge [OF p(2)] by blast
    then show ?thesis using True v g [of k] that(2) pu(1) by (auto simp: token_stop_def word_entry_def)
  next
    case False
    then show ?thesis using that g [of k] edge [OF that(1)] by auto
  qed
  have path: "node_at h' k v = (if node_at h k v = Some n then None else node_at h k v)" if "tk_get h k = Ret x" "k \<noteq> n" for k x v
    using that
  proof (induction v arbitrary: k x)
    case (Cons c v)
    obtain x' where x': "tk_get h' k = Ret x'" "\<And>m. tk_tokens x' c = Some m \<longleftrightarrow> tk_tokens x c = Some m \<and> m \<noteq> n"
      using old [OF Cons.prems] by blast
    show ?case
    proof (cases "tk_tokens x c")
      case None
      then have "tk_tokens x' c \<noteq> Some m" for m using x'(2) [of m] by simp
      then have "tk_tokens x' c = None" by (metis option.exhaust)
      then show ?thesis using None x'(1) Cons.prems by simp
    next
      case (Some m)
      show ?thesis
      proof (cases "m = n")
        case True
        then have "tk_tokens x' c \<noteq> Some k" for k using x'(2) [of k] Some by simp
        then have "tk_tokens x' c = None" by (metis option.exhaust)
        moreover have "node_at h n v = (if v = [] then Some n else None)" using n(1) leaf by (cases v) auto
        ultimately show ?thesis using True Some x'(1) Cons.prems by simp
      next
        case False
        obtain y where "tk_get h m = Ret y" by (rule trie_child [OF h Cons.prems(1) Some])
        moreover have "tk_tokens x' c = Some m" using x'(2) Some False by blast
        ultimately show ?thesis using Cons.IH [of m y] False Some x'(1) Cons.prems by simp
      qed
    qed
  qed simp
  obtain r where r: "tk_get h 0 = Ret r" "tk_parent r = None" using trie_root [OF h] by blast
  have n0: "n \<noteq> 0" using pu(2) by simp
  have "token_words h' v = ((token_words h)(w := None)) v" for v
  proof (cases "v = w")
    case False
    then have v: "node_at h 0 v \<noteq> Some n" using path_unique [OF h, of v n w] n(2) by blast
    then have pv: "node_at h' 0 v = node_at h 0 v" using path [OF r(1)] n0 by simp
    show ?thesis
    proof (cases "node_at h 0 v")
      case (Some m)
      obtain y where y: "tk_get h m = Ret y" using node_at_live [OF h r(1) Some] by blast
      obtain y' where "tk_get h' m = Ret y'" "word_entry y' = word_entry y" using old [OF y] v Some by auto
      then show ?thesis using pv Some y False by (simp add: token_words_def)
    qed (use pv False in \<open>simp add: token_words_def\<close>)
  qed (use path [OF r(1)] n0 n(2) in \<open>simp add: token_words_def\<close>)
  then show "token_words h' = (token_words h)(w := None)" by blast
  have "token_ok h' k v'" if k: "tk_get h' k = Ret v'" for k v'
  proof -
    have kn: "k \<noteq> n" using k g [of k] by auto
    have "\<exists>v. tk_get h k = Ret v" using k g [of k] kn p(2) by (auto split: if_splits)
    then obtain v where v: "tk_get h k = Ret v" by blast
    have v': "tk_parent v' = tk_parent v" "tk_ch v' = tk_ch v" "token_stop v' = token_stop v"
      "\<And>c m. tk_tokens v' c = Some m \<longleftrightarrow> tk_tokens v c = Some m \<and> m \<noteq> n"
      using old [OF v kn] k by auto
    have "k < m \<and> (\<exists>y. tk_get h' m = Ret y \<and> tk_parent y = Some k \<and> tk_ch y = c)" if "tk_tokens v' c = Some m" for c m
    proof -
      have m: "tk_tokens v c = Some m" "m \<noteq> n" using that v'(4) by auto
      obtain y where y: "tk_get h m = Ret y" "tk_parent y = Some k" "tk_ch y = c" "k < m" by (rule trie_child [OF h v m(1)])
      then show ?thesis using old [OF y(1) m(2)] by auto
    qed
    moreover have "case tk_parent v' of None \<Rightarrow> k = 0 \<and> \<not> token_stop v' | Some q \<Rightarrow> \<exists>y. tk_get h' q = Ret y \<and> tk_tokens y (tk_ch v') = Some k"
    proof (cases "tk_parent v")
      case None
      have "token_ok h k v" using h v by (simp add: trie_ok_def)
      then show ?thesis using None v' by (simp add: token_ok_def)
    next
      case (Some q)
      obtain y where y: "tk_get h q = Ret y" "tk_tokens y (tk_ch v) = Some k" by (rule trie_parent [OF h v Some])
      have "q \<noteq> n" using y leaf n(1) by auto
      then obtain y' where "tk_get h' q = Ret y'" "tk_tokens y' (tk_ch v) = Some k" using old [OF y(1)] y(2) kn by blast
      then show ?thesis using Some v' by auto
    qed
    ultimately show ?thesis by (simp add: token_ok_def)
  qed
  moreover have "\<exists>x. tk_get h' 0 = Ret x \<and> tk_parent x = None" using old [OF r(1)] n0 r(2) by auto
  ultimately show "trie_ok h'" by (simp add: trie_ok_def)
qed

lemma tree_remove_ok:
  assumes h: "trie_ok h"
  obtains h' where "acl_token_tree_word_remove h 0 w = Ret (h', None)" "trie_ok h'" "token_words h' = (token_words h)(w := None)"
proof (cases "token_words h w")
  case None
  then show thesis using word_match_eq [OF h, of w] h by (intro that [of h]) (auto simp: acl_token_tree_word_remove_def)
next
  case (Some e)
  then obtain n t where n: "node_at h 0 w = Some n" "tk_get h n = Ret t" "word_entry t = Some e"
    by (auto simp: token_words_def split: option.splits cres.splits)
  have m: "acl_token_tree_word_match h 0 w = Ret (Some n)" using word_match_eq [OF h, of w] Some n(1) by simp
  define t1 where "t1 = t\<lparr>tk_ctx := None\<rparr>"
  define h1 where "h1 = h[n := Some t1]"
  have l: "n < length h" using tk_get_len [OF n(2)] .
  have h1: "tk_get h1 n = Ret t1" "h1[n := x] = h[n := x]" for x using l by (simp_all add: h1_def tk_heap)
  have u1: "tk_upd h n (\<lambda>t. t\<lparr>tk_ctx := None\<rparr>) = Ret h1" "child_from t1 0 = child_from t 0" using n(2) by (simp_all add: h1_def t1_def)
  have n0: "n \<noteq> 0"
  proof
    assume "n = 0"
    then show False using trie_root [OF h] n(2,3) by (auto simp: word_entry_def)
  qed
  show thesis
  proof (cases "child_from t 0 = None")
    case False
    define f where "f = (\<lambda>t :: 'a acl_token. t\<lparr>tk_flag := 0, tk_ctx := None\<rparr>)"
    have ff: "f t = t\<lparr>tk_ctx := None, tk_flag := 0\<rparr>" by (simp add: f_def)
    have "acl_token_tree_word_remove h 0 w = Ret (h[n := Some (f t)], None)"
      using m False h1 u1 by (simp add: acl_token_tree_word_remove_def ff) (simp add: t1_def)
    moreover note put_entry [OF h n(2,1), of f]
    moreover have "word_entry (f t) = None" by (simp add: f_def word_entry_def token_stop_def)
    ultimately show thesis using n0 by (intro that [of "h[n := Some (f t)]"]) (auto simp: f_def token_stop_def)
  next
    case True
    then have leaf: "tk_tokens t c = None" for c using child_from_None by blast
    obtain p where p: "tk_parent t = Some p" using trie_orphan [OF h n(2)] n0 by (cases "tk_parent t") auto
    define f where "f = (\<lambda>t :: 'a acl_token. t\<lparr>tk_ctx := None\<rparr>)"
    note e = put_entry [OF h n(2,1), of f]
    have h1ok: "trie_ok h1" "token_words h1 = (token_words h)(w := word_entry t1)" "node_at h1 0 w = Some n"
      using e n0 n(1) by (simp_all add: f_def h1_def t1_def)
    have p1: "tk_parent t1 = Some p" "\<And>c. tk_tokens t1 c = None" "tk_ch t1 = tk_ch t" using p leaf by (simp_all add: t1_def)
    obtain u where u: "tk_get h1 p = Ret u" "p < n" by (rule trie_parent [OF h1ok(1) h1(1) p1(1)])
    define h2 where "h2 = h1[p := Some (u\<lparr>tk_tokens := (tk_tokens u)(tk_ch t := None)\<rparr>)]"
    have h2: "tk_get h2 n = Ret t1" using h1(1) u(2) by (simp add: h2_def tk_heap)
    have "acl_token_tree_word_remove h 0 w = Ret (h2[n := None], None)"
      using m True h1(1) p1(1,3) u(1) h2 u1 by (simp add: acl_token_tree_word_remove_def h2_def [symmetric] acl_token_free_def) (simp add: t1_def)
    moreover note drop_leaf [OF h1ok(1) h1(1) h1ok(3) p1(2,1) u(1)]
    ultimately show thesis using h1ok(2) p1(3) by (intro that [of "h2[n := None]"]) (simp_all add: h2_def)
  qed
qed

end
