(* ===== verification/Token_Walk.thy ===== *)
theory Token_Walk
  imports Token_Rep Acl_Interfaces
begin

text \<open>Names of tokens, the walk over a tree and its iterator, which visit the words in ascending order.\<close>

subsection \<open>Names\<close>

lemma swap_ends_len [simp]: "length (swap_ends n i buf) = length buf"
  by (induction n arbitrary: i buf) simp_all

lemma swap_ends_nth: "i + n = length buf div 2 \<Longrightarrow> k < length buf \<Longrightarrow>
    swap_ends n i buf ! k = (if i \<le> k \<and> k < length buf - i then buf ! (length buf - 1 - k) else buf ! k)"
proof (induction n arbitrary: i buf)
  case 0
  have "k = length buf - 1 - k" if "i \<le> k" "k < length buf - i" using 0 that by linarith
  then show ?case by simp
next
  case (Suc n)
  let ?m = "length buf - 1 - i" and ?b = "buf[i := buf ! (length buf - 1 - i), length buf - 1 - i := buf ! i]"
  have im: "i < ?m" "?m < length buf" using Suc.prems(1) by linarith+
  have b: "?b ! j = (if j = ?m then buf ! i else if j = i then buf ! ?m else buf ! j)" if "j < length buf" for j
    using that im by (simp add: nth_list_update)
  have r: "swap_ends (Suc n) i buf ! k = (if Suc i \<le> k \<and> k < length buf - Suc i then ?b ! (length buf - 1 - k) else ?b ! k)"
    using Suc.IH [of "Suc i" ?b] Suc.prems by simp
  have bk: "?b ! k = (if k = ?m then buf ! i else if k = i then buf ! ?m else buf ! k)" by (rule b [OF Suc.prems(2)])
  consider "k = i" | "k = ?m" | "i < k" "k < ?m" | "k < i" | "?m < k" by linarith
  then show ?case
  proof cases
    case 1
    then have "\<not> Suc i \<le> k" "k \<noteq> ?m" "k < length buf - i" "i \<le> k" "length buf - 1 - k = ?m" using im by linarith+
    then show ?thesis unfolding r bk using 1 by (simp only: simp_thms if_True if_False)
  next
    case 2
    then have "\<not> k < length buf - Suc i" "k < length buf - i" "length buf - 1 - k = i" "i \<le> k" using im by linarith+
    then show ?thesis unfolding r bk using 2 by (simp only: simp_thms if_True if_False)
  next
    case 3
    then have "i \<noteq> length buf - 1 - k" "?m \<noteq> length buf - 1 - k" "length buf - 1 - k < length buf" "k < length buf - i"
      "Suc i \<le> k" "k < length buf - Suc i" "i \<le> k" using im by linarith+
    then show ?thesis unfolding r using b [of "length buf - 1 - k"] by simp
  next
    case 4
    then have "\<not> Suc i \<le> k" "k \<noteq> ?m" "k \<noteq> i" "\<not> i \<le> k" using im by linarith+
    then show ?thesis unfolding r bk by (simp only: simp_thms if_True if_False)
  next
    case 5
    then have "\<not> k < length buf - Suc i" "\<not> k < length buf - i" "k \<noteq> i" "k \<noteq> ?m" using im by linarith+
    then show ?thesis unfolding r bk by (simp only: simp_thms if_True if_False)
  qed
qed

lemma swap_ends_rev: "swap_ends (length buf div 2) 0 buf = rev buf"
  by (rule nth_equalityI) (simp_all add: swap_ends_nth rev_nth)

lemma name_up_eq: "trie_ok h \<Longrightarrow> node_at h 0 w = Some n \<Longrightarrow> length w < fuel \<Longrightarrow> name_up fuel h n buf = Ret (buf @ rev w)"
proof (induction w arbitrary: n fuel buf rule: rev_induct)
  case Nil
  then show ?case using trie_root [OF Nil(1)] by (cases fuel) auto
next
  case (snoc c w)
  obtain m u where m: "node_at h 0 w = Some m" "tk_get h n = Ret u" "tk_parent u = Some m" "tk_ch u = c"
    by (rule node_at_snoc [OF snoc.prems(1,2)])
  then show ?case using snoc.IH [OF snoc.prems(1) m(1), of "fuel - 1" "buf @ [c]"] snoc.prems(3) by (cases fuel) auto
qed

lemma token_name_eq:
  assumes h: "trie_ok h" and n: "node_at h 0 w = Some n"
  shows "acl_token_name h n = Ret w"
proof -
  obtain r where "tk_get h 0 = Ret r" using trie_root [OF h] by blast
  then obtain t where t: "tk_get h n = Ret t" using node_at_live [OF h _ n] by blast
  obtain v where "node_at h 0 v = Some n" "length v \<le> n" using path_exists [OF h t] by blast
  then have "length w < length h" using path_unique [OF h n, of v] tk_get_len [OF t] by simp
  then show ?thesis using name_up_eq [OF h n, of "length h" "[]"] swap_ends_rev [of "rev w"] by (simp add: acl_token_name_def)
qed

subsection \<open>The walk\<close>

definition slots :: "'c acl_token \<Rightarrow> nat list" where
  "slots t = concat (map (\<lambda>k. case tk_tokens t (of_nat k) of None \<Rightarrow> [] | Some n \<Rightarrow> [n]) [0..<256])"

fun nodes_below :: "nat \<Rightarrow> 'c token_heap \<Rightarrow> nat \<Rightarrow> nat list" where
  "nodes_below 0 h i = []"
| "nodes_below (Suc fuel) h i = (case tk_get h i of Fault \<Rightarrow> [] | Ret t \<Rightarrow> i # concat (map (nodes_below fuel h) (slots t)))"

definition stop_at :: "'c token_heap \<Rightarrow> nat \<Rightarrow> bool" where
  "stop_at h i \<longleftrightarrow> (case tk_get h i of Fault \<Rightarrow> False | Ret t \<Rightarrow> token_stop t)"

lemma walk_fold:
  assumes "\<And>n. n \<in> set (concat (map (\<lambda>k. case tk_tokens t (of_nat k) of None \<Rightarrow> [] | Some n \<Rightarrow> [n]) ks)) \<Longrightarrow> f n = Ret (g n)"
  shows "fold (\<lambda>k acc. case tk_tokens t (of_nat k) of None \<Rightarrow> acc | Some n \<Rightarrow> cbind acc (\<lambda>xs. map_cres (\<lambda>ys. xs @ ys) (f n))) ks (Ret xs)
    = Ret (xs @ concat (map g (concat (map (\<lambda>k. case tk_tokens t (of_nat k) of None \<Rightarrow> [] | Some n \<Rightarrow> [n]) ks))))"
  using assms
proof (induction ks arbitrary: xs)
  case (Cons k ks)
  then show ?case by (cases "tk_tokens t (of_nat k)") simp_all
qed simp

lemma slots_child: "n \<in> set (slots t) \<longleftrightarrow> (\<exists>c. tk_tokens t c = Some n)"
proof
  assume "n \<in> set (slots t)"
  then show "\<exists>c. tk_tokens t c = Some n" by (auto simp: slots_def split: option.splits)
next
  assume "\<exists>c. tk_tokens t c = Some n"
  then obtain c where c: "tk_tokens t c = Some n" by blast
  have "unat c < 256" using unsigned_less [of c] by simp
  then show "n \<in> set (slots t)" using c by (auto simp: slots_def intro!: bexI [of _ "unat c"])
qed

lemma walk_eq:
  assumes h: "trie_ok h"
  shows "tk_get h i = Ret t \<Longrightarrow> length h \<le> fuel + i \<Longrightarrow> acl_token_tree_walk fuel h i = Ret (filter (stop_at h) (nodes_below fuel h i))"
proof (induction fuel arbitrary: i t)
  case 0
  then show ?case using tk_get_len [OF 0(1)] by simp
next
  case (Suc fuel)
  have c: "acl_token_tree_walk fuel h n = Ret (filter (stop_at h) (nodes_below fuel h n))" if n: "n \<in> set (slots t)" for n
  proof -
    obtain c where c: "tk_tokens t c = Some n" using n slots_child by blast
    obtain u where "tk_get h n = Ret u" "i < n" by (rule trie_child [OF h Suc.prems(1) c])
    then show ?thesis using Suc.IH [of n u] Suc.prems(2) by simp
  qed
  have s: "stop_at h i = token_stop t" using Suc.prems(1) by (simp add: stop_at_def)
  show ?case
    using walk_fold [of t "[0..<256]" "acl_token_tree_walk fuel h" "\<lambda>n. filter (stop_at h) (nodes_below fuel h n)" "if token_stop t then [i] else []"] c Suc.prems(1)
    s
    by (simp add: slots_def [symmetric] filter_concat comp_def)
qed

subsection \<open>The order of the walk\<close>

lemma nodes_below_set:
  assumes h: "trie_ok h"
  shows "tk_get h i = Ret t \<Longrightarrow> length h \<le> fuel + i \<Longrightarrow> n \<in> set (nodes_below fuel h i) \<longleftrightarrow> (\<exists>w. node_at h i w = Some n)"
proof (induction fuel arbitrary: i t)
  case 0
  then show ?case using tk_get_len [OF 0(1)] by simp
next
  case (Suc fuel)
  have c: "n \<in> set (nodes_below fuel h m) \<longleftrightarrow> (\<exists>w. node_at h m w = Some n)" if m: "tk_tokens t c = Some m" for c m
  proof -
    obtain u where "tk_get h m = Ret u" "i < m" by (rule trie_child [OF h Suc.prems(1) m])
    then show ?thesis using Suc.IH [of m u] Suc.prems(2) by simp
  qed
  have "(\<exists>w. node_at h i w = Some n) \<longleftrightarrow> n = i \<or> (\<exists>c m w. tk_tokens t c = Some m \<and> node_at h m w = Some n)"
  proof
    assume "\<exists>w. node_at h i w = Some n"
    then obtain w where "node_at h i w = Some n" by blast
    then show "n = i \<or> (\<exists>c m w. tk_tokens t c = Some m \<and> node_at h m w = Some n)"
      using Suc.prems(1) by (cases w) (auto split: option.splits)
  next
    assume "n = i \<or> (\<exists>c m w. tk_tokens t c = Some m \<and> node_at h m w = Some n)"
    then show "\<exists>w. node_at h i w = Some n"
    proof
      assume "n = i"
      then show ?thesis by (intro exI [of _ "[]"]) simp
    next
      assume "\<exists>c m w. tk_tokens t c = Some m \<and> node_at h m w = Some n"
      then obtain c m w where "tk_tokens t c = Some m" "node_at h m w = Some n" by blast
      then show ?thesis using Suc.prems(1) by (intro exI [of _ "c # w"]) simp
    qed
  qed
  moreover have "n \<in> set (nodes_below (Suc fuel) h i) \<longleftrightarrow> n = i \<or> (\<exists>m \<in> set (slots t). n \<in> set (nodes_below fuel h m))"
    using Suc.prems(1) by auto
  ultimately show ?case using c slots_child by metis
qed

definition path_less :: "'c token_heap \<Rightarrow> nat \<Rightarrow> nat \<Rightarrow> nat \<Rightarrow> bool" where
  "path_less h i m n \<longleftrightarrow> (\<exists>v w. node_at h i v = Some m \<and> node_at h i w = Some n \<and> ord_class.lexordp v w)"

lemma sorted_concat: "sorted_wrt (\<lambda>xs ys. \<forall>x \<in> set xs. \<forall>y \<in> set ys. R x y) xss \<Longrightarrow> (\<And>xs. xs \<in> set xss \<Longrightarrow> sorted_wrt R xs) \<Longrightarrow> sorted_wrt R (concat xss)"
  by (induction xss) (auto simp: sorted_wrt_append)

lemma nodes_below_sorted:
  assumes h: "trie_ok h"
  shows "tk_get h i = Ret t \<Longrightarrow> length h \<le> fuel + i \<Longrightarrow> sorted_wrt (path_less h i) (nodes_below fuel h i)"
proof (induction fuel arbitrary: i t)
  case 0
  then show ?case by simp
next
  case (Suc fuel)
  let ?f = "\<lambda>k. case tk_tokens t (of_nat k) of None \<Rightarrow> [] | Some n \<Rightarrow> nodes_below fuel h n"
  have e: "concat (map (nodes_below fuel h) (slots t)) = concat (map ?f [0..<256])"
  proof -
    have "concat (map g (concat (map (\<lambda>k. case tk_tokens t (of_nat k) of None \<Rightarrow> [] | Some n \<Rightarrow> [n]) ks))) = concat (map (\<lambda>k. case tk_tokens t (of_nat k) of None \<Rightarrow> [] | Some n \<Rightarrow> g n) ks)"
      for g :: "nat \<Rightarrow> nat list" and ks
    proof (induction ks)
      case (Cons k ks)
      then show ?case by (cases "tk_tokens t (of_nat k)") simp_all
    qed simp
    then show ?thesis by (simp only: slots_def)
  qed
  have sub: "tk_tokens t c = Some m \<Longrightarrow> sorted_wrt (path_less h i) (nodes_below fuel h m) \<and> (\<forall>n \<in> set (nodes_below fuel h m). \<exists>w. node_at h i (c # w) = Some n)" for c m
  proof -
    assume m: "tk_tokens t c = Some m"
    obtain u where u: "tk_get h m = Ret u" "i < m" by (rule trie_child [OF h Suc.prems(1) m])
    have f: "length h \<le> fuel + m" using Suc.prems(2) u(2) by simp
    have p: "node_at h i (c # w) = node_at h m w" for w using Suc.prems(1) m by simp
    have "path_less h m x y \<Longrightarrow> path_less h i x y" for x y
    proof -
      assume "path_less h m x y"
      then obtain v w where "node_at h m v = Some x" "node_at h m w = Some y" "ord_class.lexordp v w" by (auto simp: path_less_def)
      then show "path_less h i x y" using p unfolding path_less_def by (intro exI [of _ "c # v"] exI [of _ "c # w"]) simp
    qed
    then have "sorted_wrt (path_less h i) (nodes_below fuel h m)" using sorted_wrt_mono_rel [OF _ Suc.IH [OF u(1) f]] by blast
    then show ?thesis using nodes_below_set [OF h u(1) f] p by auto
  qed
  have "sorted_wrt (\<lambda>xs ys. \<forall>x \<in> set xs. \<forall>y \<in> set ys. path_less h i x y) (map ?f [0..<256])"
  proof (unfold sorted_wrt_map, rule sorted_wrt_mono_rel [OF _ sorted_wrt_upt])
    fix k l assume kl: "k \<in> set [0..<256]" "l \<in> set [0..<256]" "k < l"
    have less: "(of_nat k :: byte) < of_nat l" using kl by (simp add: word_less_nat_alt unsigned_of_nat take_bit_nat_eq_self)
    show "\<forall>x \<in> set (?f k). \<forall>y \<in> set (?f l). path_less h i x y"
    proof (intro ballI)
      fix x y assume xy: "x \<in> set (?f k)" "y \<in> set (?f l)"
      obtain m where "tk_tokens t (of_nat k) = Some m" "x \<in> set (nodes_below fuel h m)" using xy(1) by (cases "tk_tokens t (of_nat k)") auto
      moreover obtain m' where "tk_tokens t (of_nat l) = Some m'" "y \<in> set (nodes_below fuel h m')" using xy(2) by (cases "tk_tokens t (of_nat l)") auto
      ultimately obtain v w where "node_at h i (of_nat k # v) = Some x" "node_at h i (of_nat l # w) = Some y" using sub by blast
      then show "path_less h i x y" using less unfolding path_less_def by (intro exI [of _ "of_nat k # v"] exI [of _ "of_nat l # w"]) simp
    qed
  qed
  moreover have "sorted_wrt (path_less h i) xs" if "xs \<in> set (map ?f [0..<256])" for xs
    using that sub by (auto split: option.splits)
  ultimately have "sorted_wrt (path_less h i) (concat (map ?f [0..<256]))" by (rule sorted_concat)
  moreover have "path_less h i i n" if "n \<in> set (concat (map ?f [0..<256]))" for n
  proof -
    obtain k where "n \<in> set (?f k)" using \<open>n \<in> _\<close> by auto
    then obtain c m where "tk_tokens t c = Some m" "n \<in> set (nodes_below fuel h m)" by (cases "tk_tokens t (of_nat k)") auto
    then obtain w where "node_at h i (c # w) = Some n" using sub by blast
    then show ?thesis unfolding path_less_def by (intro exI [of _ "[]"] exI [of _ "c # w"]) simp
  qed
  ultimately show ?case using Suc.prems(1) e by simp
qed

subsection \<open>The iterator\<close>

lemma brother_up_fuel: "trie_ok h \<Longrightarrow> tk_get h p = Ret t \<Longrightarrow> p < f \<Longrightarrow> p < f' \<Longrightarrow> brother_up f h k (Some p) = brother_up f' h k (Some p)"
proof (induction f arbitrary: p t k f')
  case (Suc f)
  obtain g where f': "f' = Suc g" using Suc.prems(4) by (cases f') auto
  show ?case
  proof (cases "tk_parent t")
    case None
    then show ?thesis using Suc.prems(2) f' by (simp split: option.split)
  next
    case (Some q)
    obtain u where u: "tk_get h q = Ret u" "q < p" by (rule trie_parent [OF Suc.prems(1,2) Some])
    have "q < f" "q < g" using u(2) Suc.prems(3,4) f' by linarith+
    then have "brother_up f h k (Some q) = brother_up g h k (Some q)" for k
      by (rule Suc.IH [OF Suc.prems(1) u(1)])
    then show ?thesis using Suc.prems(2) f' Some by (simp split: option.split)
  qed
qed simp

definition node_next :: "'c token_heap \<Rightarrow> nat \<Rightarrow> nat option cres" where
  "node_next h i = map_cres (map_option snd) (token_next h i)"

definition node_up :: "'c token_heap \<Rightarrow> nat \<Rightarrow> nat option cres" where
  "node_up h i = cbind (tk_get h i) (\<lambda>t. map_cres (map_option snd) (brother_up (length h) h (unat (tk_ch t) + 1) (tk_parent t)))"

fun linked :: "(nat \<Rightarrow> nat option cres) \<Rightarrow> nat list \<Rightarrow> nat option cres \<Rightarrow> bool" where
  "linked f [] e = True"
| "linked f [x] e = (f x = e)"
| "linked f (x # y # xs) e = (f x = Ret (Some y) \<and> linked f (y # xs) e)"

lemma linked_append: "xs \<noteq> [] \<Longrightarrow> linked f (xs @ ys) e \<longleftrightarrow> linked f xs (if ys = [] then e else Ret (Some (hd ys))) \<and> linked f ys e"
  by (induction f xs e rule: linked.induct) (cases ys; simp)+

lemma find_upt: "find P [i..<n] = (if i < n then if P i then Some i else find P [Suc i..<n] else None)"
  by (simp add: upt_rec)

text \<open>The slots from an index on: the first of them is what the search finds.\<close>

definition slots_from :: "'c acl_token \<Rightarrow> nat \<Rightarrow> nat list" where
  "slots_from t i = concat (map (\<lambda>k. case tk_tokens t (of_nat k) of None \<Rightarrow> [] | Some n \<Rightarrow> [n]) [i..<256])"

lemma slots_from_step: "slots_from t i = (if i < 256 then (case tk_tokens t (of_nat i) of None \<Rightarrow> [] | Some n \<Rightarrow> [n]) @ slots_from t (Suc i) else [])"
  unfolding slots_from_def by (subst upt_rec) simp

lemma child_from_step: "child_from t i = (if i < 256 then if tk_tokens t (of_nat i) \<noteq> None then Some (of_nat i) else child_from t (Suc i) else None)"
  unfolding child_from_def by (subst find_upt) simp

lemma child_from_slots:
  "case slots_from t i of [] \<Rightarrow> child_from t i = None
   | n # ns \<Rightarrow> \<exists>c. child_from t i = Some c \<and> tk_tokens t c = Some n \<and> ns = slots_from t (Suc (unat c))"
proof (induction "256 - i" arbitrary: i)
  case 0
  then show ?case by (simp add: slots_from_step [of t i] child_from_step [of t i])
next
  case (Suc m)
  then have i: "i < 256" by linarith
  then have u: "unat (of_nat i :: byte) = i" by (simp add: unat_of_nat)
  show ?case
  proof (cases "tk_tokens t (of_nat i)")
    case None
    then have e: "slots_from t i = slots_from t (Suc i)" "child_from t i = child_from t (Suc i)"
      using i slots_from_step [of t i] child_from_step [of t i] by simp_all
    show ?thesis unfolding e by (rule Suc.hyps(1)) (use Suc.hyps(2) i in linarith)
  next
    case (Some n)
    then show ?thesis using i u by (simp add: slots_from_step [of t i] child_from_step [of t i])
  qed
qed

lemma nodes_below_Cons: "tk_get h i = Ret t \<Longrightarrow> nodes_below (Suc fuel) h i = i # concat (map (nodes_below fuel h) (slots t))"
  by simp

lemma slots_from_child: "n \<in> set (slots_from t i) \<Longrightarrow> \<exists>c. tk_tokens t c = Some n"
  by (auto simp: slots_from_def split: option.splits)

lemma nodes_linked:
  assumes h: "trie_ok h"
  shows "tk_get h i = Ret t \<Longrightarrow> length h \<le> fuel + i \<Longrightarrow> linked (node_next h) (nodes_below fuel h i) (node_up h i)"
proof (induction fuel arbitrary: i t)
  case (Suc fuel)
  have l: "i < length h" using tk_get_len [OF Suc.prems(1)] .
  have up: "map_cres (map_option snd) (brother_up (length h) h k (Some i)) = (case slots_from t k of [] \<Rightarrow> node_up h i | n # _ \<Rightarrow> Ret (Some n))" for k
  proof -
    obtain g where g: "length h = Suc g" using l by (cases "length h") auto
    have "brother_up g h j (tk_parent t) = brother_up (length h) h j (tk_parent t)" for j
    proof (cases "tk_parent t")
      case (Some q)
      obtain u where "tk_get h q = Ret u" "q < i" by (rule trie_parent [OF h Suc.prems(1) Some])
      then show ?thesis using brother_up_fuel [OF h, of q u g "length h" j] l g Some by simp
    qed simp
    then show ?thesis using child_from_slots [of t k] Suc.prems(1) g
      by (cases "slots_from t k") (auto simp: node_up_def)
  qed
  have kids: "ns = slots_from t k \<Longrightarrow> ns \<noteq> [] \<Longrightarrow> linked (node_next h) (concat (map (nodes_below fuel h) ns)) (node_up h i)" for ns k
  proof (induction ns arbitrary: k)
    case (Cons n ns)
    obtain c where c: "tk_tokens t c = Some n" "ns = slots_from t (Suc (unat c))"
      using child_from_slots [of t k] Cons.prems(1) by (auto split: list.splits)
    obtain u where u: "tk_get h n = Ret u" "tk_parent u = Some i" "tk_ch u = c" "i < n" by (rule trie_child [OF h Suc.prems(1) c(1)])
    have fn: "length h \<le> fuel + n" using Suc.prems(2) u(4) by simp
    have ln: "linked (node_next h) (nodes_below fuel h n) (node_up h n)" by (rule Suc.IH [OF u(1) fn])
    have ne: "nodes_below fuel h n \<noteq> []" using nodes_below_set [OF h u(1) fn, of n] by (metis node_at.simps(1) empty_iff list.set(1))
    have nu: "node_up h n = (case ns of [] \<Rightarrow> node_up h i | m # _ \<Rightarrow> Ret (Some m))"
      using up [of "Suc (unat c)"] u c(2) by (simp add: node_up_def)
    show ?case
    proof (cases ns)
      case Nil
      then show ?thesis using ln nu by simp
    next
      case (Cons m ms)
      define ks where "ks = concat (map (nodes_below fuel h) ns)"
      have 1: "linked (node_next h) ks (node_up h i)" using Cons.IH [OF c(2)] Cons by (simp add: ks_def)
      have "m \<in> set (slots_from t (Suc (unat c)))" unfolding c(2) [symmetric] Cons by simp
      then obtain d where d: "tk_tokens t d = Some m" using slots_from_child by blast
      obtain v where v: "tk_get h m = Ret v" "i < m" by (rule trie_child [OF h Suc.prems(1) d])
      have "fuel \<noteq> 0" using Suc.prems(2) v tk_get_len [OF v(1)] by (cases fuel) auto
      then obtain g where "fuel = Suc g" by (cases fuel) auto
      then have 2: "ks \<noteq> []" "hd ks = m" using Cons v(1) by (simp_all add: ks_def)
      have "linked (node_next h) (nodes_below fuel h n @ ks) (node_up h i)"
        unfolding linked_append [OF ne] using ln nu Cons 1 2 by simp
      then show ?thesis by (simp add: ks_def)
    qed
  qed simp
  have s0: "slots_from t 0 = slots t" by (simp add: slots_from_def slots_def)
  show ?case
  proof (cases "slots t")
    case Nil
    then have "child_from t 0 = None" using child_from_slots [of t 0] s0 by simp
    then have "node_next h i = node_up h i" using Suc.prems(1) by (simp add: node_next_def token_next_def node_up_def)
    then show ?thesis using Suc.prems(1) Nil by simp
  next
    case (Cons m ms)
    obtain d where d: "tk_tokens t d = Some m" "child_from t 0 = Some d" using child_from_slots [of t 0] s0 Cons by auto
    obtain v where v: "tk_get h m = Ret v" "i < m" by (rule trie_child [OF h Suc.prems(1) d(1)])
    have "fuel \<noteq> 0" using Suc.prems(2) v tk_get_len [OF v(1)] by (cases fuel) auto
    then obtain g where g: "fuel = Suc g" by (cases fuel) auto
    have "node_next h i = Ret (Some m)" using Suc.prems(1) d by (simp add: node_next_def token_next_def)
    moreover have "concat (map (nodes_below fuel h) (slots t)) = m # tl (concat (map (nodes_below fuel h) (slots t)))" using Cons v(1) g by simp
    moreover have "linked (node_next h) (concat (map (nodes_below fuel h) (slots t))) (node_up h i)" using kids [of "slots t" 0] s0 Cons by simp
    ultimately show ?thesis using Suc.prems(1) by (metis linked.simps(3) nodes_below_Cons)
  qed
qed simp

text \<open>The nodes of a tree in the order of the walk, and the words among them.\<close>

definition tree_nodes :: "'c token_heap \<Rightarrow> nat list" where
  "tree_nodes h = nodes_below (length h) h 0"

definition token_list :: "'c token_heap \<Rightarrow> nat list" where
  "token_list h = filter (stop_at h) (tree_nodes h)"

lemma tree_nodes_linked:
  assumes h: "trie_ok h"
  shows "linked (node_next h) (tree_nodes h) (Ret None)" "tree_nodes h = 0 # tl (tree_nodes h)" "\<not> stop_at h 0"
proof -
  obtain r where r: "tk_get h 0 = Ret r" "tk_parent r = None" "\<not> token_stop r" using trie_root [OF h] by blast
  have "node_up h 0 = Ret None" using r by (simp add: node_up_def)
  then show "linked (node_next h) (tree_nodes h) (Ret None)" using nodes_linked [OF h r(1), of "length h"] by (simp add: tree_nodes_def)
  show "tree_nodes h = 0 # tl (tree_nodes h)" using tk_get_len [OF r(1)] r(1) by (cases "length h") (simp_all add: tree_nodes_def)
  show "\<not> stop_at h 0" using r by (simp add: stop_at_def)
qed

lemma node_live: "trie_ok h \<Longrightarrow> n \<in> set (tree_nodes h) \<Longrightarrow> \<exists>t w. tk_get h n = Ret t \<and> node_at h 0 w = Some n"
proof -
  assume a: "trie_ok h" "n \<in> set (tree_nodes h)"
  obtain r where r: "tk_get h 0 = Ret r" using trie_root [OF a(1)] by blast
  then obtain w where "node_at h 0 w = Some n" using nodes_below_set [OF a(1) r, of "length h" n] a(2) by (auto simp: tree_nodes_def)
  then show ?thesis using node_at_live [OF a(1) r] by blast
qed

lemma distinct_tree_nodes: "trie_ok h \<Longrightarrow> distinct (tree_nodes h)"
proof -
  assume h: "trie_ok h"
  obtain r where r: "tk_get h 0 = Ret r" using trie_root [OF h] by blast
  have "sorted_wrt (path_less h 0) (tree_nodes h)" using nodes_below_sorted [OF h r, of "length h"] by (simp add: tree_nodes_def)
  moreover have "\<not> path_less h 0 n n" for n
  proof
    assume "path_less h 0 n n"
    then obtain v w where vw: "node_at h 0 v = Some n" "node_at h 0 w = Some n" "ord_class.lexordp v w" unfolding path_less_def by blast
    then have "v = w" using path_unique [OF h] by blast
    then show False using vw(3) lexordp_irreflexive' by blast
  qed
  ultimately show ?thesis
  proof (induction "tree_nodes h" rule: rev_induct)
    case Nil
    then show ?case by simp
  next
    case (snoc x xs)
    then show ?case by (metis distinct_conv_nth linorder_neqE_nat sorted_wrt_iff_nth_less)
  qed
qed

lemma tree_nodes_le: "trie_ok h \<Longrightarrow> length (tree_nodes h) \<le> length h"
proof -
  assume h: "trie_ok h"
  have "set (tree_nodes h) \<subseteq> {..<length h}" using node_live [OF h] tk_get_len by blast
  then have "card (set (tree_nodes h)) \<le> card {..<length h}" by (intro card_mono) simp_all
  then show ?thesis using distinct_card [OF distinct_tree_nodes [OF h]] by simp
qed

lemma token_next_node: "node_next h i = Ret (Some n) \<Longrightarrow> \<exists>c. token_next h i = Ret (Some (c, n))"
  "node_next h i = Ret None \<Longrightarrow> token_next h i = Ret None"
  by (cases "token_next h i"; auto simp: node_next_def)+

lemma next_stop_linked:
  assumes h: "trie_ok h"
  shows "linked (node_next h) (x # ys) (Ret None) \<Longrightarrow> set ys \<subseteq> set (tree_nodes h) \<Longrightarrow> length ys < fuel \<Longrightarrow>
    \<exists>it'. next_stop fuel it h x = Ret it' \<and> (case filter (stop_at h) ys of [] \<Rightarrow> it_ptr it' = None | y # _ \<Rightarrow> it_ptr it' = Some y \<and> it_data it' = Some y)"
proof (induction ys arbitrary: x fuel it)
  case Nil
  then have "token_next h x = Ret None" using token_next_node(2) by simp
  then show ?case using Nil by (cases fuel) (simp_all add: next_token_def)
next
  case (Cons y ys)
  obtain f where f: "fuel = Suc f" "length ys < f" using Cons.prems(3) by (cases fuel) auto
  obtain c where c: "token_next h x = Ret (Some (c, y))" using token_next_node(1) [of h x y] Cons.prems(1) by auto
  obtain t where t: "tk_get h y = Ret t" using node_live [OF h, of y] Cons.prems(2) by auto
  have st: "stop_at h y = token_stop t" using t by (simp add: stop_at_def)
  show ?case
  proof (cases "token_stop t")
    case True
    then show ?thesis using f c t st by (simp add: next_token_def)
  next
    case False
    define it1 where "it1 = it\<lparr>it_ptr := Some y, it_data := Some y, it_i := uint c\<rparr>"
    have "next_stop fuel it h x = next_stop f it1 h y" using f c t False by (simp add: next_token_def it1_def)
    then show ?thesis using Cons.IH [of y f it1] Cons.prems f False st by simp
  qed
qed

definition token_at :: "'c token_heap \<Rightarrow> nat \<Rightarrow> token_iter \<Rightarrow> bool" where
  "token_at h k it \<longleftrightarrow> (if k < length (token_list h) then it_ptr it = Some (token_list h ! k) \<and> it_data it = Some (token_list h ! k) else it_ptr it = None)"

text \<open>From a node on, the iterator moves to the next word behind it.\<close>

lemma iter_next_from:
  assumes h: "trie_ok h" and x: "tree_nodes h = pre @ x # post" and it: "it_ptr it = Some x"
  shows "\<exists>it'. token_iter_next it h = Ret it' \<and> (case filter (stop_at h) post of [] \<Rightarrow> it_ptr it' = None | y # _ \<Rightarrow> it_ptr it' = Some y \<and> it_data it' = Some y)"
proof -
  have "linked (node_next h) (x # post) (Ret None)"
    using tree_nodes_linked(1) [OF h] x linked_append [of pre "node_next h" "x # post"] by (cases "pre = []") auto
  moreover have "length post < length h" using tree_nodes_le [OF h] x by simp
  moreover have "set post \<subseteq> set (tree_nodes h)" using x by auto
  ultimately have "\<exists>it'. next_stop (length h) it h x = Ret it' \<and> (case filter (stop_at h) post of [] \<Rightarrow> it_ptr it' = None | y # _ \<Rightarrow> it_ptr it' = Some y \<and> it_data it' = Some y)"
    by (intro next_stop_linked [OF h])
  then show ?thesis using it by (simp add: token_iter_next_def)
qed

lemma filter_split: "filter P xs = us @ vs \<Longrightarrow> \<exists>ys zs. xs = ys @ zs \<and> filter P ys = us \<and> filter P zs = vs"
proof (induction xs arbitrary: us)
  case (Cons x xs)
  show ?case
  proof (cases "us = [] \<or> \<not> P x")
    case True
    then show ?thesis
    proof
      assume "us = []"
      then show ?thesis using Cons.prems by (intro exI [of _ "[]"] exI [of _ "x # xs"]) simp
    next
      assume "\<not> P x"
      then obtain ys zs where "xs = ys @ zs" "filter P ys = us" "filter P zs = vs" using Cons by auto
      then show ?thesis using \<open>\<not> P x\<close> by (intro exI [of _ "x # ys"] exI [of _ zs]) simp
    qed
  next
    case False
    then obtain us' where us: "us = x # us'" "filter P xs = us' @ vs" using Cons.prems by (cases us) auto
    then obtain ys zs where "xs = ys @ zs" "filter P ys = us'" "filter P zs = vs" using Cons.IH by blast
    then show ?thesis using False us by (intro exI [of _ "x # ys"] exI [of _ zs]) simp
  qed
qed simp

interpretation token_it: acl_iterable "\<lambda>h. token_iter_head h 0" token_iter_next token_list trie_ok token_at
proof (unfold_locales, goal_cases)
  case (1 h)
  obtain r where r: "tk_get h 0 = Ret r" "tk_parent r = None" using trie_root [OF 1] by blast
  define it where "it = \<lparr>it_ptr = Some (0 :: nat), it_data = None :: nat option, it_dlen = -1, it_key = None, it_klen = -1, it_i = 0, it_size = 0\<rparr>"
  obtain post where post: "tree_nodes h = 0 # post" using tree_nodes_linked(2) [OF 1] by blast
  have l: "token_list h = filter (stop_at h) post" using post tree_nodes_linked(3) [OF 1] by (simp add: token_list_def)
  have "token_iter_head h 0 = token_iter_next it h" using r by (simp add: token_iter_head_def it_def)
  moreover obtain it' where i: "token_iter_next it h = Ret it'"
    "case token_list h of [] \<Rightarrow> it_ptr it' = None | y # _ \<Rightarrow> it_ptr it' = Some y \<and> it_data it' = Some y"
    using iter_next_from [OF 1, of "[]" 0 post it] post l by (auto simp: it_def)
  moreover have "token_at h 0 it'" using i(2) by (cases "token_list h") (simp_all add: token_at_def)
  ultimately show ?case by auto
next
  case (2 h k it)
  have "filter (stop_at h) (tree_nodes h) = take k (token_list h) @ token_list h ! k # drop (Suc k) (token_list h)"
    using id_take_nth_drop [OF 2(3)] by (simp add: token_list_def)
  then obtain us vs where uv: "tree_nodes h = us @ vs" "filter (stop_at h) us = take k (token_list h)" "filter (stop_at h) vs = token_list h ! k # drop (Suc k) (token_list h)"
    using filter_split by blast
  obtain ws post where wp: "vs = ws @ token_list h ! k # post" "filter (stop_at h) post = drop (Suc k) (token_list h)"
    using uv(3) unfolding filter_eq_Cons_iff by metis
  have "it_ptr it = Some (token_list h ! k)" using 2(2,3) by (simp add: token_at_def)
  moreover have "tree_nodes h = (us @ ws) @ token_list h ! k # post" using uv(1) wp(1) by (simp only: append_assoc)
  ultimately have "\<exists>it'. token_iter_next it h = Ret it'
    \<and> (case drop (Suc k) (token_list h) of [] \<Rightarrow> it_ptr it' = None | y # _ \<Rightarrow> it_ptr it' = Some y \<and> it_data it' = Some y)"
    using iter_next_from [OF 2(1)] unfolding wp(2) [symmetric] by blast
  then obtain it' where i: "token_iter_next it h = Ret it'"
    "case drop (Suc k) (token_list h) of [] \<Rightarrow> it_ptr it' = None | y # _ \<Rightarrow> it_ptr it' = Some y \<and> it_data it' = Some y" by blast
  have "token_at h (Suc k) it'"
  proof (cases "Suc k < length (token_list h)")
    case True
    then show ?thesis using i(2) by (simp add: token_at_def Cons_nth_drop_Suc [symmetric])
  qed (use i(2) in \<open>simp add: token_at_def\<close>)
  then show ?case using i(1) by blast
qed (auto simp: token_at_def)

end
