(* ===== verification/Token_Match.thy ===== *)
theory Token_Match
  imports Token_Walk "HOL-Library.Sublist"
begin

text \<open>Searching a inp for the words of a tree.\<close>

subsection \<open>One turn of the loop\<close>

definition step_found :: "'c acl_token \<Rightarrow> nat \<Rightarrow> nat option \<Rightarrow> nat option" where
  "step_found t n found = (if token_stop t then Some n else found)"

text \<open>The child for the next byte, of the node reached or else of the root.\<close>

lemma search_follow:
  assumes "\<not> delim c" "tk_get h iter = Ret it" "tk_tokens it c = Some n" "tk_get h n = Ret t"
  shows "search_loop delim h tree iter found (c # rest) =
    (if \<not> c > 128 then search_loop delim h tree n (step_found t n found) rest
     else if rest = [] then Ret (found, [])
     else case tk_tokens t (hd rest) of
       None \<Rightarrow> if found \<noteq> None then Ret (found, rest) else search_loop delim h tree tree found (tl rest)
     | Some m \<Rightarrow> cbind (tk_get h m) (\<lambda>u. search_loop delim h tree m (step_found u m found) (tl rest)))"
  using assms by (cases found) (simp_all add: search_loop_eqs step_found_def split: option.split)

lemma search_restart:
  assumes "\<not> delim c" "tk_get h iter = Ret it" "tk_tokens it c = None" "tk_get h tree = Ret r"
  shows "search_loop delim h tree iter None (c # rest) = (if tk_tokens r c = None
      then if rest = [] then Ret (None, []) else search_loop delim h tree tree None (if c > 128 then tl rest else rest)
      else search_loop delim h tree tree None (c # rest))"
  using assms by (cases "tk_tokens r c") (simp_all add: search_loop_eqs)

lemma search_stuck:
  assumes "tk_get h iter = Ret it" "tk_tokens it c = None"
  shows "search_loop delim h tree iter (Some n) (c # rest) = Ret (Some n, c # rest)"
  using assms by (simp add: search_loop_eqs)

subsection \<open>What is found is there\<close>

definition found_in :: "'c token_heap \<Rightarrow> byte list \<Rightarrow> nat option \<Rightarrow> bool" where
  "found_in h inp found \<longleftrightarrow> (\<forall>n. found = Some n \<longrightarrow> (\<exists>a w b. inp = a @ w @ b \<and> node_at h 0 w = Some n \<and> token_words h w \<noteq> None))"

lemma found_in_more: "found_in h inp found \<Longrightarrow> found_in h (inp @ extra) found"
  unfolding found_in_def by fastforce

lemma found_in_None [simp]: "found_in h inp None"
  by (simp add: found_in_def)

lemma found_in_step:
  assumes "found_in h inp found" "node_at h 0 w = Some n" "tk_get h n = Ret t" "inp' = a @ w" "inp' = inp @ extra"
  shows "found_in h inp' (step_found t n found)"
proof (cases "token_stop t")
  case True
  then have "token_words h w \<noteq> None" using assms(2,3) by (simp add: token_words_def word_entry_def)
  then show ?thesis using True assms(2,4) unfolding found_in_def step_found_def by (metis append_Nil2 option.inject)
next
  case False
  then show ?thesis using found_in_more [OF assms(1)] assms(5) by (simp add: step_found_def)
qed

text \<open>A result of the loop: the inp in front of the pointer has been read, and it holds the word found.\<close>

definition search_ok :: "'c token_heap \<Rightarrow> (byte \<Rightarrow> bool) \<Rightarrow> byte list \<Rightarrow> (nat option \<times> byte list) cres \<Rightarrow> bool" where
  "search_ok h delim inp r \<longleftrightarrow> (\<exists>found read rest. r = Ret (found, rest) \<and> inp = read @ rest \<and> found_in h read found
     \<and> (found = None \<longrightarrow> rest = [] \<or> delim (hd rest)))"

lemma search_okI: "found_in h read found \<Longrightarrow> (found = None \<Longrightarrow> rest = [] \<or> delim (hd rest)) \<Longrightarrow> search_ok h delim (read @ rest) (Ret (found, rest))"
  by (auto simp: search_ok_def)

lemma child_path: "trie_ok h \<Longrightarrow> node_at h 0 u = Some i \<Longrightarrow> tk_get h i = Ret t \<Longrightarrow> tk_tokens t c = Some n \<Longrightarrow> node_at h 0 (u @ [c]) = Some n \<and> (\<exists>v. tk_get h n = Ret v)"
  using trie_child [of h i t c n] by (auto simp: node_at_append)

lemma search_loop_ok:
  assumes h: "trie_ok h"
  shows "node_at h 0 u = Some iter \<Longrightarrow> read = a @ u \<Longrightarrow> found_in h read found \<Longrightarrow> search_ok h delim (read @ inp) (search_loop delim h 0 iter found inp)"
proof (induction "2 * length inp + (if iter = 0 then 0 else 1)" arbitrary: u iter read a found inp rule: less_induct)
  case less
  obtain r where r: "tk_get h 0 = Ret r" using trie_root [OF h] by blast
  obtain it where it: "tk_get h iter = Ret it" using node_at_live [OF h r less.prems(1)] by blast
  have root: "search_ok h delim (read' @ inp') (search_loop delim h 0 0 found' inp')"
    if "length inp' < length inp \<or> length inp' = length inp \<and> iter \<noteq> 0" "found_in h read' found'" for read' inp' found'
    using that by (intro less.hyps [of inp' 0 "[]" read' read']) auto
  show ?case
  proof (cases inp)
    case Nil
    then show ?thesis using less.prems(3) search_okI [of h read found "[]"] by (simp add: search_loop_eqs)
  next
    case (Cons c rest)
    show ?thesis
    proof (cases "delim c")
      case True
      then show ?thesis using Cons search_okI [OF less.prems(3), of "c # rest" delim] by (simp add: search_loop_eqs)
    next
      case False
      show ?thesis
      proof (cases "tk_tokens it c")
        case None
        show ?thesis
        proof (cases found)
          case (Some n)
          then show ?thesis using search_stuck [OF it None] Cons search_okI [OF less.prems(3), of "c # rest" delim] by simp
        next
          case nf: None
          note e = search_restart [of delim c, OF False it None r, of rest]
          show ?thesis
          proof (cases "tk_tokens r c")
            case (Some n)
            then have "iter \<noteq> 0" using it r None by (metis cres.inject option.distinct(1))
            then show ?thesis using e Some root [of "c # rest" read None] Cons nf by simp
          next
            case rn: None
            show ?thesis
            proof (cases rest)
              case Nil
              then show ?thesis using e rn nf Cons search_okI [of h "read @ [c]" None "[]" delim] by simp
            next
              case (Cons d rest')
              then show ?thesis using e rn nf root [of rest "read @ [c]" None] root [of rest' "read @ [c, d]" None] \<open>inp = c # rest\<close> by simp
            qed
          qed
        qed
      next
        case (Some n)
        obtain t where n: "node_at h 0 (u @ [c]) = Some n" "tk_get h n = Ret t" using child_path [OF h less.prems(1) it Some] by blast
        note e = search_follow [of delim c, OF False it Some n(2), of 0 found rest]
        show ?thesis
        proof (cases "c > 128 \<and> rest \<noteq> []")
          case False
          show ?thesis
          proof (cases "c > 128")
            case True
            then have "rest = []" using False by simp
            then show ?thesis using True e Cons found_in_more [OF less.prems(3), of "[c]"] search_okI [of h "read @ [c]" found "[]" delim] by simp
          next
            case False
            have f: "found_in h (read @ [c]) (step_found t n found)"
              by (rule found_in_step [OF less.prems(3) n]) (use less.prems(2) in auto)
            have "search_ok h delim ((read @ [c]) @ rest) (search_loop delim h 0 n (step_found t n found) rest)"
              by (rule less.hyps [OF _ n(1) _ f, of _ "a"]) (use Cons less.prems(2) in \<open>auto split: if_splits\<close>)
            then show ?thesis using False e Cons by simp
          qed
        next
          case True
          then obtain d rest' where rest: "rest = d # rest'" by (cases rest) auto
          show ?thesis
          proof (cases "tk_tokens t d")
            case None
            show ?thesis
            proof (cases found)
              case None
              then show ?thesis using True e rest \<open>tk_tokens t d = None\<close> root [of rest' "read @ [c, d]" None] Cons by simp
            next
              case (Some k)
              then show ?thesis using True e rest \<open>tk_tokens t d = None\<close> Cons found_in_more [OF less.prems(3), of "[c]"]
                  search_okI [of h "read @ [c]" found rest delim] by simp
            qed
          next
            case (Some m)
            obtain v where m: "node_at h 0 ((u @ [c]) @ [d]) = Some m" "tk_get h m = Ret v" using child_path [OF h n Some] by blast
            have f: "found_in h (read @ [c, d]) (step_found v m found)"
              by (rule found_in_step [OF less.prems(3) m]) (use less.prems(2) in auto)
            have "search_ok h delim ((read @ [c, d]) @ rest') (search_loop delim h 0 m (step_found v m found) rest')"
              by (rule less.hyps [OF _ m(1) _ f, of _ "a"]) (use Cons rest less.prems(2) in \<open>auto split: if_splits\<close>)
            then show ?thesis using True e Cons rest Some m(2) by simp
          qed
        qed
      qed
    qed
  qed
qed

subsection \<open>A word at the start of a inp is not missed\<close>

definition long_prefix :: "'c token_heap \<Rightarrow> byte list \<Rightarrow> nat \<Rightarrow> (nat option \<times> byte list) cres \<Rightarrow> bool" where
  "long_prefix h inp k r \<longleftrightarrow> (\<exists>n v b rest. r = Ret (Some n, rest) \<and> inp = v @ b @ rest \<and> node_at h 0 v = Some n \<and> token_words h v \<noteq> None \<and> k \<le> length v)"

lemma step_found_prefix:
  assumes "node_at h 0 v = Some n" "token_words h v \<noteq> None" "u = v @ b" "k \<le> length v" "node_at h 0 u' = Some m" "tk_get h m = Ret t" "u' = u @ x"
  obtains n' v' b' where "step_found t m (Some n) = Some n'" "node_at h 0 v' = Some n'" "token_words h v' \<noteq> None" "u' = v' @ b'" "k \<le> length v'"
proof (cases "token_stop t")
  case True
  then have "token_words h u' \<noteq> None" using assms(5,6) by (simp add: token_words_def word_entry_def)
  then show ?thesis using True assms that [of m u' "[]"] by (simp add: step_found_def)
next
  case False
  then show ?thesis using assms that [of n v "b @ x"] by (simp add: step_found_def)
qed

lemma search_keeps:
  assumes h: "trie_ok h"
  shows "node_at h 0 u = Some iter \<Longrightarrow> node_at h 0 v = Some n \<Longrightarrow> token_words h v \<noteq> None \<Longrightarrow> u = v @ b \<Longrightarrow> k \<le> length v
    \<Longrightarrow> long_prefix h (u @ inp) k (search_loop delim h 0 iter (Some n) inp)"
proof (induction "length inp" arbitrary: u iter n v b inp rule: less_induct)
  case less
  obtain r where r: "tk_get h 0 = Ret r" using trie_root [OF h] by blast
  obtain it where it: "tk_get h iter = Ret it" using node_at_live [OF h r less.prems(1)] by blast
  have fin: "long_prefix h (u @ x @ rest) k (Ret (Some n, rest))" for x rest
    using less.prems unfolding long_prefix_def by (intro exI [of _ n] exI [of _ v] exI [of _ "b @ x"] exI [of _ rest]) simp
  show ?case
  proof (cases inp)
    case Nil
    then show ?thesis using fin [of "[]" "[]"] by (simp add: search_loop_eqs)
  next
    case (Cons c rest)
    show ?thesis
    proof (cases "delim c \<or> tk_tokens it c = None")
      case True
      then show ?thesis using fin [of "[]" "c # rest"] Cons it by (auto simp: search_loop_eqs)
    next
      case False
      then obtain m where m0: "tk_tokens it c = Some m" by auto
      obtain t where m: "node_at h 0 (u @ [c]) = Some m" "tk_get h m = Ret t" using child_path [OF h less.prems(1) it m0] by blast
      have e: "search_loop delim h 0 iter (Some n) (c # rest) =
        (if \<not> c > 128 then search_loop delim h 0 m (step_found t m (Some n)) rest
         else if rest = [] then Ret (Some n, [])
         else case tk_tokens t (hd rest) of
           None \<Rightarrow> Ret (Some n, rest)
         | Some m \<Rightarrow> cbind (tk_get h m) (\<lambda>u. search_loop delim h 0 m (step_found u m (Some n)) (tl rest)))"
        using search_follow [of delim c h iter it m t 0 "Some n" rest] False it m0 m(2) by simp
      show ?thesis
      proof (cases "c > 128")
        case False
        obtain n' v' b' where s: "step_found t m (Some n) = Some n'" "node_at h 0 v' = Some n'" "token_words h v' \<noteq> None" "u @ [c] = v' @ b'" "k \<le> length v'"
          by (rule step_found_prefix [OF less.prems(2-5) m refl])
        have "long_prefix h ((u @ [c]) @ rest) k (search_loop delim h 0 m (Some n') rest)"
          by (rule less.hyps [OF _ m(1) s(2-5)]) (simp add: Cons)
        then show ?thesis using e False s(1) Cons by simp
      next
        case True
        show ?thesis
        proof (cases "rest = [] \<or> tk_tokens t (hd rest) = None")
          case True
          then show ?thesis using e \<open>c > 128\<close> fin [of "[c]" rest] Cons by auto
        next
          case False
          then obtain d rest' m' where rest: "rest = d # rest'" "tk_tokens t d = Some m'" by (cases rest) auto
          obtain y where m': "node_at h 0 ((u @ [c]) @ [d]) = Some m'" "tk_get h m' = Ret y" using child_path [OF h m rest(2)] by blast
          obtain n' v' b' where s: "step_found y m' (Some n) = Some n'" "node_at h 0 v' = Some n'" "token_words h v' \<noteq> None" "(u @ [c]) @ [d] = v' @ b'" "k \<le> length v'"
            by (rule step_found_prefix [OF less.prems(2-5) m', of "[c, d]"]) simp
          have "long_prefix h (((u @ [c]) @ [d]) @ rest') k (search_loop delim h 0 m' (Some n') rest')"
            by (rule less.hyps [OF _ m'(1) s(2-5)]) (simp add: Cons rest)
          then show ?thesis using e \<open>c > 128\<close> s(1) Cons rest m'(2) by simp
        qed
      qed
    qed
  qed
qed

text \<open>Before the end of the word, whatever shorter words have been found on the way.\<close>

lemma search_word:
  assumes h: "trie_ok h" and w: "token_words h (u @ w) \<noteq> None" "w \<noteq> []" "list_all (\<lambda>c. \<not> delim c \<and> \<not> c > 128) w"
  shows "node_at h 0 u = Some iter \<Longrightarrow> long_prefix h (u @ w @ z) (length (u @ w)) (search_loop delim h 0 iter found (w @ z))"
  using w
proof (induction w arbitrary: u iter found)
  case (Cons c w)
  obtain r where r: "tk_get h 0 = Ret r" using trie_root [OF h] by blast
  obtain it where it: "tk_get h iter = Ret it" using node_at_live [OF h r Cons.prems(1)] by blast
  have "node_at h 0 (u @ c # w) \<noteq> None" using Cons.prems(2) by (auto simp: token_words_def split: option.splits)
  then obtain m where m0: "tk_tokens it c = Some m" using Cons.prems(1) it by (auto simp: node_at_append split: option.splits)
  obtain t where m: "node_at h 0 (u @ [c]) = Some m" "tk_get h m = Ret t" using child_path [OF h Cons.prems(1) it m0] by blast
  have e: "search_loop delim h 0 iter found (c # w @ z) = search_loop delim h 0 m (step_found t m found) (w @ z)"
    using search_follow [of delim c h iter it m t 0 found "w @ z"] Cons.prems(4) it m0 m(2) by simp
  show ?case
  proof (cases "w = []")
    case True
    then have st: "token_stop t" using Cons.prems(2) m by (auto simp: token_words_def word_entry_def split: if_splits)
    have tw: "token_words h (u @ [c]) \<noteq> None" using Cons.prems(2) True by simp
    have "long_prefix h ((u @ [c]) @ z) (length (u @ [c])) (search_loop delim h 0 m (Some m) z)"
      by (rule search_keeps [OF h m(1) m(1) tw]) simp_all
    then show ?thesis using e True st by (simp add: step_found_def)
  next
    case False
    then show ?thesis using Cons.IH [OF m(1), of "step_found t m found"] Cons.prems e by simp
  qed
qed simp

end
