(* ===== verification/Token_Props.thy ===== *)
theory Token_Props
  imports Token_Match
begin

text \<open>What the tree of tokens does as a whole: histories, walks, searches and its release.\<close>

subsection \<open>Histories\<close>

datatype 'c token_op = Token_Add "byte list" "32 word" "'c option" | Token_Remove "byte list"

fun token_step :: "'c token_heap \<Rightarrow> 'c token_op \<Rightarrow> 'c token_heap cres" where
  "token_step h (Token_Add w flag ctx) = map_cres fst (acl_token_tree_add h 0 w flag ctx)"
| "token_step h (Token_Remove w) = map_cres fst (acl_token_tree_word_remove h 0 w)"

fun token_run :: "'c token_heap \<Rightarrow> 'c token_op list \<Rightarrow> 'c token_heap cres" where
  "token_run h [] = Ret h"
| "token_run h (x # xs) = cbind (token_step h x) (\<lambda>h. token_run h xs)"

fun words_step :: "(byte list \<Rightarrow> (32 word \<times> 'c option) option) \<Rightarrow> 'c token_op \<Rightarrow> byte list \<Rightarrow> (32 word \<times> 'c option) option" where
  "words_step m (Token_Add w flag ctx) = (if w = [] \<or> pass_and_deny flag then m else m(w := if bit flag TOKEN_STOP then Some (flag, ctx) else None))"
| "words_step m (Token_Remove w) = m(w := None)"

definition words_after :: "'c token_op list \<Rightarrow> byte list \<Rightarrow> (32 word \<times> 'c option) option" where
  "words_after ops = foldl words_step (\<lambda>_. None) ops"

lemma token_step_ok:
  assumes h: "trie_ok h"
  shows "\<exists>h'. token_step h x = Ret h' \<and> trie_ok h' \<and> token_words h' = words_step (token_words h) x"
proof (cases x)
  case (Token_Add w flag ctx)
  show ?thesis
  proof (cases "w = [] \<or> pass_and_deny flag")
    case True
    then show ?thesis using Token_Add h by (auto simp: acl_token_tree_add_def)
  next
    case False
    obtain h' n where "acl_token_tree_add h 0 w flag ctx = Ret (h', Some n)" "trie_ok h'"
      "token_words h' = (token_words h)(w := if bit flag 0 then Some (flag, ctx) else None)"
      by (rule tree_add_ok [OF h, of flag w ctx]) (use False in auto)
    then show ?thesis using Token_Add False by auto
  qed
next
  case (Token_Remove w)
  obtain h' where "acl_token_tree_word_remove h 0 w = Ret (h', None)" "trie_ok h'" "token_words h' = (token_words h)(w := None)"
    by (rule tree_remove_ok [OF h])
  then show ?thesis using Token_Remove by auto
qed

lemma token_run_ok: "trie_ok h \<Longrightarrow> \<exists>h'. token_run h ops = Ret h' \<and> trie_ok h' \<and> token_words h' = foldl words_step (token_words h) ops"
proof (induction ops arbitrary: h)
  case (Cons x ops)
  then show ?case using token_step_ok [OF Cons.prems, of x] by fastforce
qed simp

lemma token_history_ok:
  obtains h :: "'c token_heap" where "token_run (fst (acl_token_new [])) ops = Ret h" "trie_ok h" "token_words h = words_after ops"
proof -
  have "token_words (fst (acl_token_new [] :: 'c token_heap \<times> nat)) = (\<lambda>_. None)" using trie_new(2) by blast
  then show thesis using token_run_ok [OF trie_new(1), of ops] that unfolding words_after_def by auto
qed

text \<open>What a caller sees of a word: the name of the token found, its flag and its context.\<close>

definition token_find :: "'c token_heap \<Rightarrow> byte list \<Rightarrow> (byte list \<times> 32 word \<times> 'c option) option cres" where
  "token_find h w = cbind (acl_token_tree_word_match h 0 w) (\<lambda>r. case r of None \<Rightarrow> Ret None
     | Some n \<Rightarrow> cbind (tk_get h n) (\<lambda>t. map_cres (\<lambda>name. Some (name, tk_flag t, tk_ctx t)) (acl_token_name h n)))"

text \<open>
  C10: After any history of additions and removals on a new tree, shared prefixes and refused words
  included, a word is found exactly if the last operation on it left it there, with its own name,
  its last flag and its last context.
\<close>

theorem token_history: "\<exists>h. token_run (fst (acl_token_new [])) ops = Ret h
    \<and> (\<forall>w. token_find h w = Ret (map_option (Pair w) (words_after ops w)))"
proof -
  obtain h where h: "token_run (fst (acl_token_new [])) ops = Ret h" "trie_ok h" "token_words h = words_after ops" by (rule token_history_ok)
  have "token_find h w = Ret (map_option (Pair w) (words_after ops w))" for w
  proof (cases "token_words h w")
    case None
    then show ?thesis using word_match_eq [OF h(2)] h(3) by (simp add: token_find_def)
  next
    case (Some e)
    then obtain n t where n: "node_at h 0 w = Some n" "tk_get h n = Ret t" "word_entry t = Some e"
      by (auto simp: token_words_def split: option.splits cres.splits)
    then have "e = (tk_flag t, tk_ctx t)" by (auto simp: word_entry_def split: if_splits)
    then show ?thesis using word_match_eq [OF h(2), of w] h(3) Some n token_name_eq [OF h(2) n(1)] by (simp add: token_find_def)
  qed
  then show ?thesis using h(1) by blast
qed

subsection \<open>Walks\<close>

text \<open>
  C13: The recursive walk and the iterator visit the same tokens, each once: those whose words are in the
  tree, in ascending order of the words.
\<close>

theorem token_walk_sorted: "\<exists>h ns ws it. token_run (fst (acl_token_new [])) ops = Ret h \<and> acl_token_tree_walk (length h) h 0 = Ret ns
    \<and> token_iter_head h 0 = Ret it \<and> acl_foreach (Suc (length h)) token_iter_next h it = Ret (Some (map Some ns))
    \<and> list_all2 (\<lambda>n w. acl_token_name h n = Ret w) ns ws \<and> sorted_wrt ord_class.lexordp ws \<and> set ws = {w. words_after ops w \<noteq> None}"
proof -
  obtain h where h: "token_run (fst (acl_token_new [])) ops = Ret h" "trie_ok h" "token_words h = words_after ops" by (rule token_history_ok)
  obtain r where r: "tk_get h 0 = Ret r" using trie_root [OF h(2)] by blast
  have walk: "acl_token_tree_walk (length h) h 0 = Ret (token_list h)"
    using walk_eq [OF h(2) r, of "length h"] by (simp add: token_list_def tree_nodes_def)
  have "length (token_list h) < Suc (length h)"
    using tree_nodes_le [OF h(2)] length_filter_le [of "stop_at h" "tree_nodes h"] unfolding token_list_def by linarith
  then obtain it where it: "token_iter_head h 0 = Ret it" "acl_foreach (Suc (length h)) token_iter_next h it = Ret (Some (map Some (token_list h)))"
    using token_it.foreach_all [OF h(2)] by blast
  define word where "word = (\<lambda>n. SOME w. node_at h 0 w = Some n)"
  have word: "node_at h 0 (word n) = Some n" if "n \<in> set (token_list h)" for n
    using node_live [OF h(2), of n] that someI_ex [of "\<lambda>w. node_at h 0 w = Some n"] by (auto simp: word_def token_list_def)
  have names: "list_all2 (\<lambda>n w. acl_token_name h n = Ret w) (token_list h) (map word (token_list h))"
    using word token_name_eq [OF h(2)] by (simp add: list_all2_map2 list.rel_refl_strong)
  have "sorted_wrt (path_less h 0) (token_list h)"
    using nodes_below_sorted [OF h(2) r, of "length h"] by (simp add: token_list_def tree_nodes_def sorted_wrt_filter)
  then have "sorted_wrt (\<lambda>m n. ord_class.lexordp (word m) (word n)) (token_list h)"
  proof (rule sorted_wrt_mono_rel [rotated])
    fix m n assume mn: "m \<in> set (token_list h)" "n \<in> set (token_list h)" "path_less h 0 m n"
    then obtain v w where vw: "node_at h 0 v = Some m" "node_at h 0 w = Some n" "ord_class.lexordp v w" by (auto simp: path_less_def)
    then have "v = word m" "w = word n" using path_unique [OF h(2)] word mn by blast+
    then show "ord_class.lexordp (word m) (word n)" using vw(3) by simp
  qed
  then have sorted: "sorted_wrt ord_class.lexordp (map word (token_list h))" by (simp add: sorted_wrt_map)
  have "w \<in> set (map word (token_list h)) \<longleftrightarrow> words_after ops w \<noteq> None" for w
  proof
    assume "w \<in> set (map word (token_list h))"
    then obtain n where n: "n \<in> set (token_list h)" "w = word n" by auto
    then obtain t where "tk_get h n = Ret t" "token_stop t" by (auto simp: token_list_def stop_at_def split: cres.splits)
    then show "words_after ops w \<noteq> None" using word [OF n(1)] n(2) h(3) [symmetric] by (simp add: token_words_def word_entry_def)
  next
    assume "words_after ops w \<noteq> None"
    then obtain n t where n: "node_at h 0 w = Some n" "tk_get h n = Ret t" "token_stop t"
      using h(3) [symmetric] by (auto simp: token_words_def word_entry_def split: option.splits cres.splits if_splits)
    then have "n \<in> set (token_list h)"
      using nodes_below_set [OF h(2) r, of "length h" n] by (auto simp: token_list_def tree_nodes_def stop_at_def)
    then show "w \<in> set (map word (token_list h))" using word path_unique [OF h(2) n(1)] by auto
  qed
  then have "set (map word (token_list h)) = {w. words_after ops w \<noteq> None}" by blast
  then show ?thesis using h(1) walk it names sorted by blast
qed

subsection \<open>Searches\<close>

text \<open>
  C11: A search ends without leaving the tree or moving the pointer past the terminator, whatever the text and the delimiters. The token
  it gives is a word of the tree that stands in the text read; without a token the search has come to
  the end of the text or to a delimiter.
\<close>

theorem token_match_sound: "\<exists>h found read rest. token_run (fst (acl_token_new [])) ops = Ret h
    \<and> acl_token_tree_match h 0 inp delim tab = Ret (found, rest) \<and> inp = read @ rest
    \<and> (case found of
         None \<Rightarrow> rest = [] \<or> (case delim of Some d \<Rightarrow> hd rest \<in> set d | None \<Rightarrow> (case tab of Some t \<Rightarrow> t (hd rest) | None \<Rightarrow> False))
       | Some n \<Rightarrow> \<exists>a w b. read = a @ w @ b \<and> acl_token_name h n = Ret w \<and> words_after ops w \<noteq> None)"
proof -
  obtain h where h: "token_run (fst (acl_token_new [])) ops = Ret h" "trie_ok h" "token_words h = words_after ops" by (rule token_history_ok)
  define stop where "stop = (case delim of Some d \<Rightarrow> (\<lambda>c. c \<in> set d) | None \<Rightarrow> (case tab of Some t \<Rightarrow> t | None \<Rightarrow> (\<lambda>_. False)))"
  have m: "acl_token_tree_match h 0 inp delim tab = search_loop stop h 0 0 None inp"
    by (simp add: acl_token_tree_match_def stop_def search_stop_at_delim_def search_stop_at_delim_tab_def search_all_def split: option.split)
  have "search_ok h stop ([] @ inp) (search_loop stop h 0 0 None inp)" by (rule search_loop_ok [OF h(2), of "[]" _ _ "[]"]) simp_all
  then obtain found read rest where f: "search_loop stop h 0 0 None inp = Ret (found, rest)" "inp = read @ rest" "found_in h read found"
    "found = None \<longrightarrow> rest = [] \<or> stop (hd rest)" by (auto simp: search_ok_def)
  show ?thesis
  proof (cases found)
    case None
    then have "rest = [] \<or> (case delim of Some d \<Rightarrow> hd rest \<in> set d | None \<Rightarrow> (case tab of Some t \<Rightarrow> t (hd rest) | None \<Rightarrow> False))"
      using f(4) by (auto simp: stop_def split: option.splits)
    then show ?thesis using h(1) m f(1,2) None by (intro exI [of _ h] exI [of _ found] exI [of _ read] exI [of _ rest]) simp
  next
    case (Some n)
    then obtain a w b where "read = a @ w @ b" "node_at h 0 w = Some n" "token_words h w \<noteq> None" using f(3) by (auto simp: found_in_def)
    then have "\<exists>a w b. read = a @ w @ b \<and> acl_token_name h n = Ret w \<and> words_after ops w \<noteq> None" using token_name_eq [OF h(2)] h(3) by metis
    then show ?thesis using h(1) m f(1,2) Some by (intro exI [of _ h] exI [of _ found] exI [of _ read] exI [of _ rest]) simp
  qed
qed

text \<open>
  C12: If a text begins with a word of the tree of bytes up to 128, without delimiters, the search gives
  a word at the start of the text that is at least as long.
\<close>

theorem token_match_prefix:
  assumes "words_after ops w \<noteq> None" "list_all (\<lambda>c. c \<notin> set delim \<and> \<not> c > 128) w"
  shows "\<exists>h n v b rest. token_run (fst (acl_token_new [])) ops = Ret h \<and> acl_token_tree_match h 0 (w @ z) (Some delim) None = Ret (Some n, rest)
    \<and> w @ z = v @ b @ rest \<and> acl_token_name h n = Ret v \<and> words_after ops v \<noteq> None \<and> length w \<le> length v"
proof -
  obtain h where h: "token_run (fst (acl_token_new [])) ops = Ret h" "trie_ok h" "token_words h = words_after ops" by (rule token_history_ok)
  have "w \<noteq> []"
  proof
    assume "w = []"
    then show False using assms(1) h(3) [symmetric] trie_root [OF h(2)] by (auto simp: token_words_def word_entry_def)
  qed
  then have "long_prefix h ([] @ w @ z) (length ([] @ w)) (search_loop (\<lambda>c. c \<in> set delim) h 0 0 None (w @ z))"
    using assms h(3) by (intro search_word [OF h(2)]) simp_all
  then obtain n v b rest where r: "search_loop (\<lambda>c. c \<in> set delim) h 0 0 None (w @ z) = Ret (Some n, rest)" "w @ z = v @ b @ rest"
    "node_at h 0 v = Some n" "token_words h v \<noteq> None" "length w \<le> length v" by (auto simp: long_prefix_def)
  have "acl_token_tree_match h 0 (w @ z) (Some delim) None = Ret (Some n, rest)"
    using r(1) by (simp add: acl_token_tree_match_def search_stop_at_delim_def)
  then show ?thesis using h(1,3) r token_name_eq [OF h(2) r(3)] by metis
qed

theorem token_match_prefix_witness:
  "\<exists>h n v b rest. token_run (fst (acl_token_new [])) [Token_Add (bytes_of ''ab'') 1 (None :: nat option), Token_Add (bytes_of ''abc'') 1 None] = Ret h
    \<and> acl_token_tree_match h 0 (bytes_of ''ab'' @ bytes_of ''cd,'') (Some (bytes_of '','')) None = Ret (Some n, rest)
    \<and> bytes_of ''ab'' @ bytes_of ''cd,'' = v @ b @ rest \<and> acl_token_name h n = Ret v"
proof -
  let ?ops = "[Token_Add (bytes_of ''ab'') 1 (None :: nat option), Token_Add (bytes_of ''abc'') 1 None]"
  have "words_after ?ops (bytes_of ''ab'') \<noteq> None" by (simp add: words_after_def pass_and_deny_def)
  moreover have "list_all (\<lambda>c. c \<notin> set (bytes_of '','') \<and> \<not> c > 128) (bytes_of ''ab'')" by simp
  ultimately show ?thesis using token_match_prefix [of ?ops "bytes_of ''ab''" "bytes_of '',''" "bytes_of ''cd,''"] by blast
qed

subsection \<open>Release and creation\<close>

lemma destroy_fold:
  assumes "\<And>n g. n \<in> set (concat (map sl ks)) \<Longrightarrow> (\<And>k. k \<in> B n \<Longrightarrow> tk_get g k = tk_get h k) \<Longrightarrow> \<exists>g'. f g n = Ret g' \<and> (\<forall>k. tk_get g' k = (if k \<in> B n then Fault else tk_get g k))"
    and "\<And>k. sl k = (case tok k of None \<Rightarrow> [] | Some n \<Rightarrow> [n])"
    and "distinct (concat (map (\<lambda>n. bl n) (concat (map sl ks))))" "\<And>n. B n = set (bl n)"
    and "\<And>n k. n \<in> set (concat (map sl ks)) \<Longrightarrow> k \<in> B n \<Longrightarrow> tk_get g k = tk_get h k"
  shows "\<exists>g'. fold (\<lambda>k acc. case tok k of None \<Rightarrow> acc | Some n \<Rightarrow> cbind acc (\<lambda>h. f h n)) ks (Ret g) = Ret g'
    \<and> (\<forall>k. tk_get g' k = (if \<exists>n \<in> set (concat (map sl ks)). k \<in> B n then Fault else tk_get g k))"
  using assms(1,3,5)
proof (induction ks arbitrary: g)
  case (Cons k ks)
  show ?case
  proof (cases "tok k")
    case None
    then have "sl k = []" using assms(2) by simp
    then show ?thesis using Cons None by simp
  next
    case (Some n)
    then have sl: "sl k = [n]" using assms(2) by simp
    obtain g1 where g1: "f g n = Ret g1" "\<forall>k. tk_get g1 k = (if k \<in> B n then Fault else tk_get g k)"
      using Cons.prems(1) [of n g] Cons.prems(3) [of n] sl by auto
    have dis: "m \<in> set (concat (map sl ks)) \<Longrightarrow> x \<in> B m \<Longrightarrow> x \<notin> B n" for m x
    proof -
      assume "m \<in> set (concat (map sl ks))" "x \<in> B m"
      then have "x \<in> set (concat (map bl (concat (map sl ks))))" using assms(4) by auto
      moreover have "set (bl n) \<inter> set (concat (map bl (concat (map sl ks)))) = {}" using Cons.prems(2) sl by (simp del: set_concat)
      ultimately show "x \<notin> B n" using assms(4) by blast
    qed
    have sub: "m \<in> set (concat (map sl (k # ks)))" if "m \<in> set (concat (map sl ks))" for m using that by simp
    have keep: "tk_get g1 x = tk_get h x" if "m \<in> set (concat (map sl ks))" "x \<in> B m" for m x
      using g1(2) dis [OF that] Cons.prems(3) [OF sub [OF that(1)] that(2)] by simp
    have d: "distinct (concat (map bl (concat (map sl ks))))" using Cons.prems(2) sl by simp
    have "\<exists>g2. fold (\<lambda>k acc. case tok k of None \<Rightarrow> acc | Some n \<Rightarrow> cbind acc (\<lambda>h. f h n)) ks (Ret g1) = Ret g2
      \<and> (\<forall>k. tk_get g2 k = (if \<exists>n \<in> set (concat (map sl ks)). k \<in> B n then Fault else tk_get g1 k))"
    proof (rule Cons.IH [OF _ d])
      fix m g assume m: "m \<in> set (concat (map sl ks))" and a: "\<And>k. k \<in> B m \<Longrightarrow> tk_get g k = tk_get h k"
      show "\<exists>g'. f g m = Ret g' \<and> (\<forall>k. tk_get g' k = (if k \<in> B m then Fault else tk_get g k))"
        by (rule Cons.prems(1) [OF sub [OF m]]) (rule a)
    qed (rule keep)
    then obtain g2 where g2: "fold (\<lambda>k acc. case tok k of None \<Rightarrow> acc | Some n \<Rightarrow> cbind acc (\<lambda>h. f h n)) ks (Ret g1) = Ret g2"
      "\<forall>k. tk_get g2 k = (if \<exists>n \<in> set (concat (map sl ks)). k \<in> B n then Fault else tk_get g1 k)" by blast
    show ?thesis using g1 g2 Some sl by (intro exI [of _ g2]) auto
  qed
qed simp

lemma destroy_ok:
  assumes h: "trie_ok h"
  shows "tk_get h i = Ret t \<Longrightarrow> length h \<le> fuel + i \<Longrightarrow> (\<And>k. k \<in> set (nodes_below fuel h i) \<Longrightarrow> tk_get g k = tk_get h k)
    \<Longrightarrow> \<exists>g'. acl_token_tree_destroy fuel g i = Ret g' \<and> (\<forall>k. tk_get g' k = (if k \<in> set (nodes_below fuel h i) then Fault else tk_get g k))"
proof (induction fuel arbitrary: i t g)
  case 0
  then show ?case using tk_get_len [OF 0(1)] by simp
next
  case (Suc fuel)
  let ?sl = "\<lambda>k. case tk_tokens t (of_nat k) of None \<Rightarrow> [] | Some n \<Rightarrow> [n]"
  have below: "nodes_below (Suc fuel) h i = i # concat (map (nodes_below fuel h) (slots t))" using Suc.prems(1) by simp
  have nb: "sorted_wrt (path_less h i) (nodes_below (Suc fuel) h i)" by (rule nodes_below_sorted [OF h Suc.prems(1,2)])
  have irr: "\<not> path_less h i n n" for n
  proof
    assume "path_less h i n n"
    then obtain v w where vw: "node_at h i v = Some n" "node_at h i w = Some n" "ord_class.lexordp v w" unfolding path_less_def by blast
    obtain u where "node_at h 0 u = Some i" using path_exists [OF h Suc.prems(1)] by blast
    then have "u @ v = u @ w" using vw path_unique [OF h, of "u @ v" n "u @ w"] by (simp add: node_at_append)
    then show False using vw(3) lexordp_irreflexive' by blast
  qed
  have dist: "distinct (nodes_below (Suc fuel) h i)"
    using nb irr unfolding distinct_conv_nth sorted_wrt_iff_nth_less by (metis linorder_neqE_nat)
  have gi: "tk_get g i = Ret t" using Suc.prems(1,3) below by simp
  have "\<exists>g'. fold (\<lambda>k acc. case tk_tokens t (of_nat k) of None \<Rightarrow> acc | Some n \<Rightarrow> cbind acc (\<lambda>h. acl_token_tree_destroy fuel h n)) [0..<256] (Ret g) = Ret g'
    \<and> (\<forall>k. tk_get g' k = (if \<exists>n \<in> set (concat (map ?sl [0..<256])). k \<in> set (nodes_below fuel h n) then Fault else tk_get g k))"
  proof (rule destroy_fold [where h = h and bl = "nodes_below fuel h"])
    fix n g assume n: "n \<in> set (concat (map ?sl [0..<256]))" and a: "\<And>k. k \<in> set (nodes_below fuel h n) \<Longrightarrow> tk_get g k = tk_get h k"
    have "n \<in> set (slots t)" unfolding slots_def using n .
    then obtain c where c: "tk_tokens t c = Some n" using slots_child by blast
    obtain u where "tk_get h n = Ret u" "i < n" by (rule trie_child [OF h Suc.prems(1) c])
    then show "\<exists>g'. acl_token_tree_destroy fuel g n = Ret g' \<and> (\<forall>k. tk_get g' k = (if k \<in> set (nodes_below fuel h n) then Fault else tk_get g k))"
      using Suc.IH [of n u g] Suc.prems(2) a by simp
  next
    show "distinct (concat (map (nodes_below fuel h) (concat (map ?sl [0..<256]))))" using dist below unfolding slots_def by simp
  next
    fix n k assume "n \<in> set (concat (map ?sl [0..<256]))" "k \<in> set (nodes_below fuel h n)"
    then have "k \<in> set (nodes_below (Suc fuel) h i)" unfolding below slots_def by auto
    then show "tk_get g k = tk_get h k" by (rule Suc.prems(3))
  qed simp_all
  then obtain g1 where g1: "fold (\<lambda>k acc. case tk_tokens t (of_nat k) of None \<Rightarrow> acc | Some n \<Rightarrow> cbind acc (\<lambda>h. acl_token_tree_destroy fuel h n)) [0..<256] (Ret g) = Ret g1"
    "\<forall>k. tk_get g1 k = (if \<exists>n \<in> set (slots t). k \<in> set (nodes_below fuel h n) then Fault else tk_get g k)" unfolding slots_def by blast
  have "i \<notin> set (concat (map (nodes_below fuel h) (slots t)))" using dist below by simp
  then have "tk_get g1 i = Ret t" using g1(2) gi by auto
  then have "acl_token_tree_destroy (Suc fuel) g i = Ret (g1[i := None])" using gi g1(1) by (simp add: acl_token_free_def)
  moreover have "tk_get (g1[i := None]) k = (if k \<in> set (nodes_below (Suc fuel) h i) then Fault else tk_get g k)" for k
    using g1(2) unfolding below by (simp add: tk_get_free) 
  ultimately show ?case by blast
qed

text \<open>Releasing a tree after any history frees every node once and leaves none.\<close>

lemma token_destroy: "\<exists>h g. token_run (fst (acl_token_new [])) ops = Ret h \<and> acl_token_tree_destroy (length h) h 0 = Ret g \<and> (\<forall>k. tk_get g k = Fault)"
proof -
  obtain h where h: "token_run (fst (acl_token_new [])) ops = Ret h" "trie_ok h" by (rule token_history_ok)
  obtain r where r: "tk_get h 0 = Ret r" using trie_root [OF h(2)] by blast
  obtain g where g: "acl_token_tree_destroy (length h) h 0 = Ret g" "\<forall>k. tk_get g k = (if k \<in> set (tree_nodes h) then Fault else tk_get h k)"
    using destroy_ok [OF h(2) r, of "length h" h] by (auto simp: tree_nodes_def)
  have "tk_get h k = Fault" if "k \<notin> set (tree_nodes h)" for k
  proof (cases "tk_get h k")
    case (Ret t)
    then show ?thesis using that path_exists [OF h(2) Ret] nodes_below_set [OF h(2) r, of "length h" k] by (auto simp: tree_nodes_def)
  qed
  then show ?thesis using h(1) g by (intro exI [of _ h] exI [of _ g]) simp
qed

lemma add_words_ok: "trie_ok h \<Longrightarrow> \<exists>h'. add_words h 0 ws = Ret h' \<and> trie_ok h' \<and> token_words h' = foldl words_step (token_words h) (map (\<lambda>(w, f). Token_Add w f None) ws)"
proof (induction ws arbitrary: h)
  case (Cons x ws)
  obtain w f where x: "x = (w, f)" by (cases x)
  obtain h1 where h1: "token_step h (Token_Add w f None) = Ret h1" "trie_ok h1" "token_words h1 = words_step (token_words h) (Token_Add w f None)"
    using token_step_ok [OF Cons.prems] by blast
  obtain p where "acl_token_tree_add h 0 w f None = Ret (h1, p)" using h1(1) by (cases "acl_token_tree_add h 0 w f None") auto
  then show ?case using Cons.IH [OF h1(2)] x h1(3) by simp
qed simp

text \<open>A tree made from a text holds the words between its separators, with the flags behind their bars.\<close>

lemma token_create: "\<exists>h. acl_token_tree_create2 s sep = Ret (h, 0)
    \<and> token_words h = words_after (map (\<lambda>w. case split_word (ch CHR ''|'') w 1 of (u, f) \<Rightarrow> Token_Add u f None) (strtok_all s sep))"
proof -
  let ?ws = "map (\<lambda>w. split_word (ch CHR ''|'') w 1) (strtok_all s sep)"
  obtain h where h: "add_words (fst (acl_token_new [] :: 'a token_heap \<times> nat)) 0 ?ws = Ret h"
    "token_words h = foldl words_step (token_words (fst (acl_token_new []))) (map (\<lambda>(w, f). Token_Add w f None) ?ws)"
    using add_words_ok [OF trie_new(1)] by blast
  moreover have "token_words (fst (acl_token_new [] :: 'a token_heap \<times> nat)) = (\<lambda>_. None)" using trie_new(2) by blast
  moreover have "snd (acl_token_new [] :: 'a token_heap \<times> nat) = 0" by (simp add: acl_token_new_def)
  ultimately show ?thesis
    by (intro exI [of _ h]) (simp add: acl_token_tree_create2_def words_after_def case_prod_unfold comp_def)
qed

subsection \<open>What the code does otherwise\<close>

text \<open>Removing a word never gives its context back: it is cleared before it is read.\<close>

lemma remove_forgets_ctx: "trie_ok h \<Longrightarrow> \<exists>h'. acl_token_tree_word_remove h 0 w = Ret (h', None)"
  using tree_remove_ok by blast

text \<open>After a mismatch the search goes on from the root at the byte that did not match, so it misses words.\<close>

lemma match_misses: "cbind (token_run (fst (acl_token_new [])) [Token_Add (bytes_of ''aab'') 1 (None :: nat option)]) (\<lambda>h. acl_token_tree_match h 0 (bytes_of ''aaab'') None None)
    = Ret (None, [])"
  by code_simp

text \<open>In a tree made with a map of other bytes, removing a word frees a token that its parent still points to.\<close>

lemma remove_mapped_dangles: "cbind (acl_token_tree_add_word_map (fst (acl_token_new [] :: nat token_heap \<times> nat)) 0 (bytes_of ''a'') (bytes_of ''b'') 1) (\<lambda>(h, _).
    cbind (acl_token_tree_word_remove h 0 (bytes_of ''a'')) (\<lambda>(h, _). acl_token_tree_word_match h 0 (bytes_of ''a''))) = Fault"
  by code_simp

end
