(* ===== verification/Xml_Code.thy ===== *)
theory Xml_Code
  imports Token_Props
begin

text \<open>
  Text in XML: \<open>lib_acl/src/code/acl_xmlcode.c\<close> and \<open>uni2utf8.c\<close>. The decoder finds the entities with a tree of
  tokens. Texts are C strings; an output that is appended to a growing string is the list of its bytes,
  one in a buffer has the room that is left beside it.
\<close>

subsection \<open>Encoding\<close>

definition xml_charmap :: "byte \<Rightarrow> byte list option" where
  "xml_charmap c = (if c = 34 then Some (bytes_of ''&quot;'') else if c = 38 then Some (bytes_of ''&amp;'')
     else if c = 39 then Some (bytes_of ''&apos;'') else if c = 60 then Some (bytes_of ''&lt;'')
     else if c = 62 then Some (bytes_of ''&gt;'') else None)"

fun xml_encode_loop :: "byte list \<Rightarrow> byte list \<Rightarrow> int \<Rightarrow> byte list \<times> int" where
  "xml_encode_loop [] out n = (out, n)"
| "xml_encode_loop (c # s) out n = (case xml_charmap c of
     Some e \<Rightarrow> xml_encode_loop s (out @ e) (n + 1)
   | None \<Rightarrow> xml_encode_loop s (out @ [c]) n)"

definition acl_xml_encode :: "byte list \<Rightarrow> byte list \<Rightarrow> byte list \<times> int" where
  "acl_xml_encode inp out = xml_encode_loop inp out 0"

text \<open>
  Into a buffer: the bytes written and the room left. The terminator is written behind them, whether
  there is room or not.
\<close>

fun xml_encode2_loop :: "byte list \<Rightarrow> byte list \<Rightarrow> nat \<Rightarrow> byte list \<times> byte list \<times> nat" where
  "xml_encode2_loop [] out olen = ([], out, olen)"
| "xml_encode2_loop (c # s) out olen = (if olen \<le> 1 then (c # s, out, olen)
     else case xml_charmap c of
       Some e \<Rightarrow> if olen < length e then (c # s, out, olen) else xml_encode2_loop s (out @ e) (olen - length e)
     | None \<Rightarrow> xml_encode2_loop s (out @ [c]) (olen - 1))"

definition acl_xml_encode2 :: "byte list \<Rightarrow> nat \<Rightarrow> (byte list \<times> byte list \<times> nat) cres" where
  "acl_xml_encode2 inp olen = (if olen = 0 then Ret (inp, [], 0)
     else case xml_encode2_loop inp [] olen of (inp, out, room) \<Rightarrow>
       if room = 0 then Fault else Ret (inp, out @ [0], olen - room))"

subsection \<open>The tree of the entities\<close>

type_synonym xml_spec = "byte list \<times> byte list"

definition xml_tab :: "xml_spec list" where
  "xml_tab = [(bytes_of ''<'', bytes_of ''&lt;''), (bytes_of ''>'', bytes_of ''&gt;''), (bytes_of ''&'', bytes_of ''&amp;''),
     ([39], bytes_of ''&apos;''), (bytes_of ''\"'', bytes_of ''&quot;''), ([194, 169], bytes_of ''&copy;''),
     ([194, 174], bytes_of ''&reg;''), (bytes_of '' '', bytes_of ''&nbsp;'')]"

definition xml_decode_init :: "xml_spec token_heap cres" where
  "xml_decode_init = foldl (\<lambda>m spec. cbind m (\<lambda>h. map_cres fst (acl_token_tree_add h 0 (snd spec) 1 (Some spec))))
     (Ret (fst (acl_token_new []))) xml_tab"

subsection \<open>References to characters by number\<close>

text \<open>The bytes behind the first one, from the last to the second, and what is left of the code.\<close>

fun utf8_tail :: "nat \<Rightarrow> 32 word \<Rightarrow> byte list \<Rightarrow> 32 word \<times> byte list" where
  "utf8_tail 0 c acc = (c, acc)"
| "utf8_tail (Suc n) c acc = utf8_tail n (drop_bit 6 c) (ucast ((c AND 63) OR 128) # acc)"

definition uni2utf8 :: "32 word \<Rightarrow> nat \<Rightarrow> byte list" where
  "uni2utf8 c room = (let (first, len) =
       (if c < 0x80 then (0, 1) else if c < 0x800 then (0xc0, 2) else if c < 0x10000 then (0xe0, 3) else if c < 0x200000 then (0xf0, 4)
        else if c < 0x4000000 then (0xf8, 5) else (0xfc, 6 :: nat));
     len = min len room; (c, tail) = utf8_tail (len - 1) c [] in ucast (c OR first) # tail)"

definition digit_value :: "byte \<Rightarrow> nat" where
  "digit_value c = (if is_digit c then unat c - 48 else if is_lower c then unat c - 87 else unat c - 55)"

text \<open>
  The conversions \<open>%u\<close> and \<open>%x\<close> of \<open>sscanf\<close>, followed by \<open>%1[;]\<close>: the number, if both succeed. A number is
  read as an \<open>unsigned long\<close> of 64 bits, which stays at its maximum when it is too large, and stored in
  an \<open>unsigned int\<close>.
\<close>

definition scan_number :: "nat \<Rightarrow> byte list \<Rightarrow> 32 word option" where
  "scan_number base s =
    (let s = dropWhile c_space s;
         neg = (s \<noteq> [] \<and> hd s = ch CHR ''-'');
         s = (if s \<noteq> [] \<and> (hd s = ch CHR ''-'' \<or> hd s = ch CHR ''+'') then tl s else s);
         s = (if base = 16 \<and> 2 \<le> length s \<and> hd s = 48 \<and> (s ! 1 = ch CHR ''x'' \<or> s ! 1 = ch CHR ''X'') then drop 2 s else s);
         ok = (if base = 16 then is_xdigit else is_digit);
         ds = takeWhile ok s; rest = dropWhile ok s;
         v = foldl (\<lambda>v c. v * base + digit_value c) 0 ds in
     if ds = [] \<or> rest = [] \<or> hd rest \<noteq> ch CHR '';'' then None
     else Some (if 2 ^ 64 \<le> v then - 1 else if neg then - of_nat v else of_nat v))"

definition char_ref :: "byte list \<Rightarrow> 32 word option" where
  "char_ref s = (case s of a # b # s' \<Rightarrow>
       if a = 38 \<and> b = 35 then
         (case scan_number 10 s' of Some n \<Rightarrow> if n \<noteq> 0 then Some n else None
          | None \<Rightarrow> (case s' of x # s'' \<Rightarrow> if x = ch CHR ''x'' then (case scan_number 16 s'' of Some n \<Rightarrow> if n \<noteq> 0 then Some n else None | None \<Rightarrow> None) else None | [] \<Rightarrow> None))
       else None
     | _ \<Rightarrow> None)"

text \<open>What follows a reference: the digits, hexadecimal ones in either case, and a semicolon are skipped.\<close>

definition ref_end :: "byte list \<Rightarrow> byte list" where
  "ref_end s = (let s = dropWhile is_xdigit (drop (if 3 \<le> length s \<and> s ! 2 = ch CHR ''x'' then 3 else 2) s) in
     if s \<noteq> [] \<and> hd s = ch CHR '';'' then tl s else s)"

lemma length_ref_end: "s \<noteq> [] \<Longrightarrow> length (ref_end s) < length s"
proof -
  assume s: "s \<noteq> []"
  have "length (dropWhile is_xdigit (drop k s)) \<le> length s - k" for k using length_dropWhile_le [of is_xdigit "drop k s"] by simp
  then have "length (dropWhile is_xdigit (drop k s)) < length s" if "0 < k" for k using s that by (metis diff_less le_less_trans length_greater_0_conv)
  then show ?thesis by (auto simp: ref_end_def Let_def) (metis One_nat_def diff_le_self le_less_trans length_tl zero_less_numeral)+
qed

lemma length_ref_end_Cons: "length (ref_end (c # s)) < Suc (length s)"
  using length_ref_end [of "c # s"] by simp

text \<open>The zero behind the bytes of a character is the seventh of its buffer at most.\<close>

function markup_unescape :: "byte list \<Rightarrow> byte list \<Rightarrow> byte list cres" where
  "markup_unescape [] out = Ret out"
| "markup_unescape (c # s) out = (case char_ref (c # s) of
     Some n \<Rightarrow> (let buf = uni2utf8 n 7 in
       if 7 \<le> length buf then Fault else markup_unescape (ref_end (c # s)) (out @ takeWhile (\<lambda>b. b \<noteq> 0) buf))
   | None \<Rightarrow> markup_unescape s (out @ [c]))"
  by pat_completeness auto

termination by (relation "measure (\<lambda>(s, _). length s)") (simp_all add: length_ref_end_Cons)

subsection \<open>Decoding\<close>

text \<open>The loop of \<open>acl_xml_decode\<close>; every turn but the last consumes something, so the length is enough fuel.\<close>

fun xml_decode_loop :: "nat \<Rightarrow> xml_spec token_heap \<Rightarrow> byte list \<Rightarrow> byte list \<Rightarrow> int \<Rightarrow> (byte list \<times> int) cres" where
  "xml_decode_loop fuel h [] out n = Ret (out, n)"
| "xml_decode_loop 0 h (c # s) out n = Fault"
| "xml_decode_loop (Suc fuel) h (c # s) out n = cbind (acl_token_tree_match h 0 (c # s) None None) (\<lambda>(token, ptr). case token of
     None \<Rightarrow> map_cres (\<lambda>out. (out, n)) (markup_unescape (c # s) out)
   | Some t \<Rightarrow> cbind (tk_get h t) (\<lambda>t. case tk_ctx t of None \<Rightarrow> Fault
     | Some (str, txt) \<Rightarrow> xml_decode_loop fuel h ptr (out @ take (length (c # s) - length ptr - length txt) (c # s) @ str) (n + 1)))"

definition acl_xml_decode :: "byte list \<Rightarrow> byte list \<Rightarrow> (byte list \<times> int) cres" where
  "acl_xml_decode inp out = cbind xml_decode_init (\<lambda>h. xml_decode_loop (length inp) h inp out 0)"

text \<open>Into a buffer: \<open>copy_buf\<close> keeps the last byte of the room free, and gives back what did not fit.\<close>

definition copy_buf :: "byte list \<Rightarrow> nat \<Rightarrow> byte list \<Rightarrow> byte list \<times> nat \<times> nat" where
  "copy_buf out olen inp = (let k = min (length inp) (olen - 1) in (out @ take k inp, olen - k, length inp - k))"

function markup_unescape2 :: "byte list \<Rightarrow> byte list \<Rightarrow> nat \<Rightarrow> byte list \<times> byte list \<times> nat" where
  "markup_unescape2 [] out room = ([], out, room)"
| "markup_unescape2 (c # s) out room = (case char_ref (c # s) of
     Some n \<Rightarrow> (case copy_buf out room (uni2utf8 n 7) of (out, room, left) \<Rightarrow>
       if 0 < left then (c # s, out, room) else markup_unescape2 (ref_end (c # s)) out room)
   | None \<Rightarrow> if room = 0 then (c # s, out, room) else markup_unescape2 s (out @ [c]) (room - 1))"
  by pat_completeness auto

termination by (relation "measure (\<lambda>(s, _, _). length s)") (simp_all add: length_ref_end_Cons)

fun xml_decode2_loop :: "nat \<Rightarrow> xml_spec token_heap \<Rightarrow> byte list \<Rightarrow> byte list \<Rightarrow> nat \<Rightarrow> (byte list \<times> byte list \<times> nat) cres" where
  "xml_decode2_loop fuel h [] out room = Ret ([], out, room)"
| "xml_decode2_loop 0 h (c # s) out room = Fault"
| "xml_decode2_loop (Suc fuel) h (c # s) out room = cbind (acl_token_tree_match h 0 (c # s) None None) (\<lambda>(token, ptr). case token of
     None \<Rightarrow> Ret (case markup_unescape2 (c # s) out room of (pre, out, room) \<Rightarrow>
       if room = 0 \<or> length pre \<le> length ptr then (ptr, out, room)
       else case copy_buf out room (take (length pre - length ptr) pre) of (out, room, _) \<Rightarrow> (ptr, out, room))
   | Some t \<Rightarrow> cbind (tk_get h t) (\<lambda>t. case tk_ctx t of None \<Rightarrow> Fault
     | Some (str, txt) \<Rightarrow>
         let len = length (c # s) - length ptr - length txt;
             (out, room, _) = (if 0 < len then copy_buf out room (take len (c # s)) else (out, room, 0)) in
         if room = 0 then Ret (ptr, out, room)
         else let (out, room, _) = copy_buf out room str in
           if room = 0 then Ret (ptr, out, room) else xml_decode2_loop fuel h ptr out room))"

text \<open>The text not read, the bytes written, with their terminator, and the room left.\<close>

definition acl_xml_decode2 :: "byte list \<Rightarrow> nat \<Rightarrow> (byte list \<times> byte list \<times> nat) cres" where
  "acl_xml_decode2 inp room = (if room = 0 then Ret (inp, [], 0)
     else cbind xml_decode_init (\<lambda>h. map_cres (\<lambda>(inp, out, room). (inp, out @ [0], room)) (xml_decode2_loop (length inp) h inp [] (room - 1))))"

declare markup_unescape.simps [simp del] markup_unescape2.simps [simp del]

end
