(* ===== verification/Xml_Props.thy ===== *)
theory Xml_Props
  imports Xml_Code
begin

text \<open>The decoder undoes the encoder, stays inside its buffers, and where it does not do what it should.\<close>

subsection \<open>The tree of the entities\<close>

definition xml_ops :: "xml_spec token_op list" where
  "xml_ops = map (\<lambda>spec. Token_Add (snd spec) 1 (Some spec)) xml_tab"

lemma entities_ok: "spec \<in> set xml_tab \<Longrightarrow> snd spec \<noteq> [] \<and> list_all (\<lambda>c. \<not> c > 128) (snd spec)"
  by (auto simp: xml_tab_def)

lemma init_steps: "trie_ok h \<Longrightarrow> (\<And>s. s \<in> set specs \<Longrightarrow> snd s \<noteq> []) \<Longrightarrow>
    \<exists>h'. foldl (\<lambda>m spec. cbind m (\<lambda>h. map_cres fst (acl_token_tree_add h 0 (snd spec) 1 (Some spec)))) (Ret h) specs = Ret h' \<and> trie_ok h'
      \<and> token_words h' = foldl words_step (token_words h) (map (\<lambda>spec. Token_Add (snd spec) 1 (Some spec)) specs)
      \<and> (\<forall>v. node_at h' 0 v \<noteq> None \<longleftrightarrow> node_at h 0 v \<noteq> None \<or> (\<exists>s \<in> set specs. \<exists>y. snd s = v @ y))"
proof (induction specs arbitrary: h)
  case (Cons s specs)
  have f: "\<not> pass_and_deny (1 :: 32 word)" by (simp add: pass_and_deny_def)
  have s: "snd s \<noteq> []" using Cons.prems(2) by simp
  obtain h1 n where 1: "acl_token_tree_add h 0 (snd s) 1 (Some s) = Ret (h1, Some n)" "trie_ok h1" "node_at h1 0 (snd s) = Some n"
    "token_words h1 = (token_words h)(snd s := if bit (1 :: 32 word) 0 then Some (1, Some s) else None)"
    "\<And>v. node_at h1 0 v \<noteq> None \<longleftrightarrow> node_at h 0 v \<noteq> None \<or> (\<exists>y. snd s = v @ y)"
    by (rule tree_add_ok [OF Cons.prems(1) f s, of "Some s"], rule that)
  obtain h' where "foldl (\<lambda>m spec. cbind m (\<lambda>h. map_cres fst (acl_token_tree_add h 0 (snd spec) 1 (Some spec)))) (Ret h1) specs = Ret h'" "trie_ok h'"
    "token_words h' = foldl words_step (token_words h1) (map (\<lambda>spec. Token_Add (snd spec) 1 (Some spec)) specs)"
    "\<forall>v. node_at h' 0 v \<noteq> None \<longleftrightarrow> node_at h1 0 v \<noteq> None \<or> (\<exists>s \<in> set specs. \<exists>y. snd s = v @ y)"
    using Cons.IH [OF 1(2)] Cons.prems(2) by auto
  then show ?case using 1 f s by (intro exI [of _ h']) auto
qed simp

text \<open>The tree: the words and the nodes that it has.\<close>

definition xml_tree_ok :: "xml_spec token_heap \<Rightarrow> bool" where
  "xml_tree_ok h \<longleftrightarrow> trie_ok h \<and> (\<forall>w. token_words h w = map_option (\<lambda>s. (1, Some s)) (find (\<lambda>s. snd s = w) xml_tab))
     \<and> (\<forall>v. node_at h 0 v \<noteq> None \<longleftrightarrow> v = [] \<or> (\<exists>s \<in> set xml_tab. \<exists>y. snd s = v @ y))"

lemma xml_init: "\<exists>h. xml_decode_init = Ret h \<and> xml_tree_ok h"
proof -
  let ?new = "fst (acl_token_new [] :: xml_spec token_heap \<times> nat)"
  obtain h where h: "xml_decode_init = Ret h" "trie_ok h" "token_words h = foldl words_step (token_words ?new) xml_ops"
    "\<forall>v. node_at h 0 v \<noteq> None \<longleftrightarrow> node_at ?new 0 v \<noteq> None \<or> (\<exists>s \<in> set xml_tab. \<exists>y. snd s = v @ y)"
    using init_steps [OF trie_new(1), of xml_tab] entities_ok unfolding xml_decode_init_def xml_ops_def by blast
  have e: "token_words ?new = (\<lambda>_. None)" using trie_new(2) by blast
  have "foldl words_step (\<lambda>_. None) xml_ops w = map_option (\<lambda>s. (1, Some s)) (find (\<lambda>s. snd s = w) xml_tab)" for w
    by (simp add: xml_ops_def xml_tab_def pass_and_deny_def)
  moreover have "\<forall>v. node_at h 0 v \<noteq> None \<longleftrightarrow> v = [] \<or> (\<exists>s \<in> set xml_tab. \<exists>y. snd s = v @ y)" using h(4) by (simp add: trie_new(3))
  ultimately show ?thesis using h(1,2,3) e by (auto simp: xml_tree_ok_def)
qed

lemma xml_tree_okD:
  assumes "xml_tree_ok h"
  shows "trie_ok h" "token_words h w = map_option (\<lambda>s. (1, Some s)) (find (\<lambda>s. snd s = w) xml_tab)"
    "node_at h 0 v \<noteq> None \<longleftrightarrow> v = [] \<or> (\<exists>s \<in> set xml_tab. \<exists>y. snd s = v @ y)"
  using assms unfolding xml_tree_ok_def by blast+

lemma xml_root:
  assumes "xml_tree_ok h" "tk_get h 0 = Ret r"
  shows "tk_tokens r c = None \<longleftrightarrow> c \<noteq> 38"
proof -
  have "node_at h 0 [c] \<noteq> None \<longleftrightarrow> c = 38" unfolding xml_tree_okD(3) [OF assms(1)] by (auto simp: xml_tab_def)
  then show ?thesis using assms(2) by (auto split: option.splits)
qed

lemma xml_prefix_free: "list_all (\<lambda>s. list_all (\<lambda>u. \<not> (prefix (snd s) (snd u) \<and> snd s \<noteq> snd u)) xml_tab) xml_tab"
  by code_simp

lemma xml_find: "list_all (\<lambda>s. find (\<lambda>x. snd x = snd s) xml_tab = Some s) xml_tab"
  by code_simp

lemma xml_leaf: "spec \<in> set xml_tab \<Longrightarrow> xml_tree_ok h \<Longrightarrow> node_at h 0 (snd spec @ [c]) = None"
proof -
  assume a: "spec \<in> set xml_tab" "xml_tree_ok h"
  have "\<not> (\<exists>s \<in> set xml_tab. \<exists>y. snd s = (snd spec @ [c]) @ y)"
  proof
    assume "\<exists>s \<in> set xml_tab. \<exists>y. snd s = (snd spec @ [c]) @ y"
    then obtain u y where u: "u \<in> set xml_tab" "snd u = (snd spec @ [c]) @ y" by blast
    then have "prefix (snd spec) (snd u)" "snd spec \<noteq> snd u" by simp_all
    then show False using xml_prefix_free a(1) u(1) unfolding list_all_iff by blast
  qed
  then show ?thesis using xml_tree_okD(3) [OF a(2), of "snd spec @ [c]"] by auto
qed

lemma xml_entity:
  assumes s: "spec \<in> set xml_tab" and h: "xml_tree_ok h"
  obtains n t where "node_at h 0 (snd spec) = Some n" "tk_get h n = Ret t" "token_stop t" "tk_ctx t = Some spec" "\<And>c. tk_tokens t c = None"
proof -
  have "find (\<lambda>x. snd x = snd spec) xml_tab = Some spec" using s xml_find unfolding list_all_iff by blast
  then have "token_words h (snd spec) = Some (1, Some spec)" using xml_tree_okD(2) [OF h] by simp
  then obtain n t where n: "node_at h 0 (snd spec) = Some n" "tk_get h n = Ret t" "word_entry t = Some (1, Some spec)"
    by (auto simp: token_words_def split: option.splits cres.splits)
  have "tk_tokens t c = None" for c using xml_leaf [OF s h, of c] n(1,2) by (auto simp: node_at_append split: option.splits)
  then show thesis using that n by (auto simp: word_entry_def split: if_splits)
qed

subsection \<open>Searching encoded text\<close>

text \<open>Along a path of bytes up to 128 the search goes to the node at its end.\<close>

lemma search_path:
  assumes h: "trie_ok h"
  shows "node_at h 0 u = Some iter \<Longrightarrow> node_at h 0 (u @ w) = Some n \<Longrightarrow> tk_get h n = Ret t \<Longrightarrow> token_stop t \<Longrightarrow> w \<noteq> [] \<Longrightarrow> list_all (\<lambda>c. \<not> c > 128) w
    \<Longrightarrow> search_loop (\<lambda>_. False) h 0 iter found (w @ z) = search_loop (\<lambda>_. False) h 0 n (Some n) z"
proof (induction w arbitrary: u iter found)
  case (Cons c w)
  obtain r where r: "tk_get h 0 = Ret r" using trie_root [OF h] by blast
  obtain it where it: "tk_get h iter = Ret it" using node_at_live [OF h r Cons.prems(1)] by blast
  obtain m where m0: "tk_tokens it c = Some m" using Cons.prems(1,2) it by (auto simp: node_at_append split: option.splits)
  obtain t' where m: "node_at h 0 (u @ [c]) = Some m" "tk_get h m = Ret t'" using child_path [OF h Cons.prems(1) it m0] by blast
  have e: "search_loop (\<lambda>_. False) h 0 iter found (c # w @ z) = search_loop (\<lambda>_. False) h 0 m (step_found t' m found) (w @ z)"
    using search_follow [of "\<lambda>_. False" c h iter it m t' 0 found "w @ z"] Cons.prems(6) it m0 m(2) by simp
  show ?case
  proof (cases "w = []")
    case True
    then show ?thesis using e m Cons.prems(2,3,4) by (simp add: step_found_def)
  next
    case False
    then show ?thesis using Cons.IH [OF m(1), of "step_found t' m found"] Cons.prems e by simp
  qed
qed simp

lemma match_entity:
  assumes s: "spec \<in> set xml_tab" and h: "xml_tree_ok h"
  obtains n t where "search_loop (\<lambda>_. False) h 0 0 None (snd spec @ z) = Ret (Some n, z)" "tk_get h n = Ret t" "tk_ctx t = Some spec"
proof -
  obtain n t where n: "node_at h 0 (snd spec) = Some n" "tk_get h n = Ret t" "token_stop t" "tk_ctx t = Some spec" "\<And>c. tk_tokens t c = None"
    by (rule xml_entity [OF s h], rule that)
  have "search_loop (\<lambda>_. False) h 0 0 None (snd spec @ z) = search_loop (\<lambda>_. False) h 0 n (Some n) z"
    by (rule search_path [OF xml_tree_okD(1) [OF h], of "[]"]) (use n entities_ok [OF s] in simp_all)
  also have "\<dots> = Ret (Some n, z)"
  proof (cases z)
    case (Cons c s)
    then show ?thesis using search_stuck [OF n(2) n(5) [of c]] by simp
  qed (simp add: search_loop_eqs)
  finally show thesis using that n by blast
qed

text \<open>Text in which the search finds no ampersand: bytes, and pairs of bytes of which the first is above 128.\<close>

fun plain_units :: "byte list \<Rightarrow> bool" where
  "plain_units [] = True"
| "plain_units (c # s) = (c \<noteq> 38 \<and> (if c > 128 then (case s of [] \<Rightarrow> False | d # s' \<Rightarrow> d \<noteq> 38 \<and> plain_units s') else plain_units s))"

lemma search_plain:
  assumes h: "xml_tree_ok h"
  shows "plain_units p \<Longrightarrow> search_loop (\<lambda>_. False) h 0 0 None (p @ z) = search_loop (\<lambda>_. False) h 0 0 None z"
proof (induction p rule: plain_units.induct)
  case (2 c s)
  obtain r where r: "tk_get h 0 = Ret r" using trie_root [OF xml_tree_okD(1) [OF h]] by blast
  have n: "tk_tokens r c = None" using xml_root [OF h r] 2(3) by simp
  note e = search_restart [of "\<lambda>_. False" c, OF _ r n r]
  have nil: "search_loop (\<lambda>_. False) h 0 0 None [] = Ret (None, [])" by (simp add: search_loop_eqs)
  show ?case
  proof (cases "c > 128")
    case True
    then obtain d s' where s: "s = d # s'" "plain_units s'" using 2(3) by (cases s) auto
    then show ?thesis using 2(1) [OF True s(1)] e [of "s @ z"] n True by simp
  next
    case False
    then show ?thesis using 2 e [of "s @ z"] n nil by auto
  qed
qed simp

lemma plain_units_app: "plain_units p \<Longrightarrow> plain_units (p @ q) \<longleftrightarrow> plain_units q"
proof (induction p rule: plain_units.induct)
  case (2 c s)
  show ?case
  proof (cases "c > 128")
    case True
    then obtain d s' where s: "s = d # s'" "plain_units s'" using 2(3) by (cases s) auto
    then show ?thesis using 2(1) [OF True s] 2(3) True by simp
  next
    case False
    then show ?thesis using 2(2) [OF False] 2(3) by simp
  qed
qed simp

lemma plain_units_amp: "plain_units p \<Longrightarrow> 38 \<notin> set p"
proof (induction p rule: plain_units.induct)
  case (2 c s)
  show ?case
  proof (cases "c > 128")
    case True
    then obtain d s' where s: "s = d # s'" "d \<noteq> 38" "plain_units s'" using 2(3) by (cases s) auto
    then show ?thesis using 2(1) [OF True s(1,3)] 2(3) by simp
  next
    case False
    then show ?thesis using 2(2) [OF False] 2(3) by simp
  qed
qed simp

lemma unescape_plain: "38 \<notin> set s \<Longrightarrow> markup_unescape s out = Ret (out @ s)"
proof (induction s arbitrary: out)
  case (Cons c s)
  have "char_ref (c # s) = None" using Cons.prems by (auto simp: char_ref_def split: list.split)
  then show ?case using Cons by (simp add: markup_unescape.simps)
qed (simp add: markup_unescape.simps)

subsection \<open>The round trip\<close>

text \<open>
  The texts that come back: a byte above 128 and the one behind it, which is not one of the five special
  characters, are taken together, as in a double-byte character set. So are texts in UTF-8 only where the
  bytes above 128 come in even numbers.
\<close>

fun xml_units :: "byte list \<Rightarrow> bool" where
  "xml_units [] = True"
| "xml_units (c # s) = (if c > 128 then (case s of [] \<Rightarrow> True | d # s' \<Rightarrow> xml_charmap d = None \<and> xml_units s') else xml_units s)"

definition enc :: "byte list \<Rightarrow> byte list" where
  "enc s = concat (map (\<lambda>c. case xml_charmap c of Some e \<Rightarrow> e | None \<Rightarrow> [c]) s)"

definition specials :: "byte list \<Rightarrow> int" where
  "specials s = int (length (filter (\<lambda>c. xml_charmap c \<noteq> None) s))"

lemma encode_eq: "xml_encode_loop s out n = (out @ enc s, n + specials s)"
  by (induction s arbitrary: out n) (auto simp: enc_def specials_def split: option.split)

lemma special_spec: "xml_charmap c = Some e \<Longrightarrow> ([c], e) \<in> set xml_tab \<and> \<not> c > 128 \<and> e \<noteq> []"
  by (auto simp: xml_charmap_def xml_tab_def split: if_splits)

lemma match_search: "acl_token_tree_match h 0 s None None = search_loop (\<lambda>_. False) h 0 0 None s"
  by (simp add: acl_token_tree_match_def search_all_def)

lemma decode_end:
  assumes h: "xml_tree_ok h" and p: "38 \<notin> set p" and s: "search_loop (\<lambda>_. False) h 0 0 None p = Ret (None, [])"
  shows "length p \<le> fuel \<Longrightarrow> xml_decode_loop fuel h p out n = Ret (out @ p, n)"
proof (cases p)
  case (Cons c q)
  assume l: "length p \<le> fuel"
  then obtain f where "fuel = Suc f" using Cons by (cases fuel) auto
  then show ?thesis using s unescape_plain [OF p, of out] Cons by (simp add: match_search)
qed simp

lemma decode_loop_eq:
  assumes h: "xml_tree_ok h"
  shows "xml_units s \<Longrightarrow> plain_units p \<Longrightarrow> length (p @ enc s) \<le> fuel \<Longrightarrow>
    xml_decode_loop fuel h (p @ enc s) out n = Ret (out @ p @ s, n + specials s)"
proof (induction s arbitrary: p fuel out n rule: xml_units.induct)
  case 1
  have "search_loop (\<lambda>_. False) h 0 0 None p = Ret (None, [])" using search_plain [OF h 1(2), of "[]"] by (simp add: search_loop_eqs)
  then show ?case using decode_end [OF h plain_units_amp [OF 1(2)]] 1 by (simp add: enc_def specials_def)
next
  case (2 c s)
  show ?case
  proof (cases "xml_charmap c")
    case (Some e)
    note sp = special_spec [OF Some]
    have es: "enc (c # s) = e @ enc s" "specials (c # s) = 1 + specials s" using Some by (simp_all add: enc_def specials_def)
    obtain m t where m: "search_loop (\<lambda>_. False) h 0 0 None (e @ enc s) = Ret (Some m, enc s)" "tk_get h m = Ret t" "tk_ctx t = Some ([c], e)"
      using match_entity [OF conjunct1 [OF sp] h, of "enc s"] by auto
    obtain x xs where x: "p @ enc (c # s) = x # xs" using sp es by (cases "p @ enc (c # s)") auto
    obtain f where f: "fuel = Suc f" using 2(5) x by (cases fuel) auto
    have l: "length (p @ enc (c # s)) - length (enc s) - length e = length p" using es by simp
    have "search_loop (\<lambda>_. False) h 0 0 None (x # xs) = Ret (Some m, enc s)" using search_plain [OF h 2(4), of "e @ enc s"] m(1) es x by simp
    then have "xml_decode_loop fuel h (x # xs) out n = xml_decode_loop f h (enc s) (out @ take (length (x # xs) - length (enc s) - length e) (x # xs) @ [c]) (n + 1)"
      using m(2,3) f by (simp add: match_search)
    moreover have "take (length (x # xs) - length (enc s) - length e) (x # xs) = p" using l unfolding x [symmetric] by simp
    moreover have "length (enc s) \<le> f" using sp 2(5) es f by (cases e) simp_all
    then have "xml_decode_loop f h (enc s) (out @ p @ [c]) (n + 1) = Ret (out @ p @ c # s, n + 1 + specials s)"
      using 2(2) [of "[]" f "out @ p @ [c]" "n + 1"] sp 2(3) by simp
    ultimately show ?thesis using x es by simp
  next
    case None
    have es: "enc (c # s) = c # enc s" "specials (c # s) = specials s" using None by (simp_all add: enc_def specials_def)
    have c38: "c \<noteq> 38" using None by (auto simp: xml_charmap_def)
    show ?thesis
    proof (cases "c > 128")
      case False
      have "plain_units (p @ [c])" using plain_units_app [OF 2(4)] False c38 by simp
      then show ?thesis using 2(2) [of "p @ [c]" fuel out n] False 2(3,5) es by simp
    next
      case True
      show ?thesis
      proof (cases s)
        case Nil
        obtain r where r: "tk_get h 0 = Ret r" using trie_root [OF xml_tree_okD(1) [OF h]] by blast
        have "tk_tokens r c = None" using xml_root [OF h r] c38 by simp
        then have "search_loop (\<lambda>_. False) h 0 0 None [c] = Ret (None, [])"
          using search_restart [of "\<lambda>_. False" c, OF _ r _ r, of "[]"] by simp
        then have "search_loop (\<lambda>_. False) h 0 0 None (p @ [c]) = Ret (None, [])" using search_plain [OF h 2(4)] by simp
        moreover have "38 \<notin> set (p @ [c])" using plain_units_amp [OF 2(4)] c38 by simp
        ultimately show ?thesis using decode_end [OF h, of "p @ [c]" fuel out n] 2(5) es Nil by (simp add: enc_def specials_def)
      next
        case (Cons d s')
        have d: "xml_charmap d = None" "xml_units s'" using 2(3) True Cons by simp_all
        then have "d \<noteq> 38" by (auto simp: xml_charmap_def)
        then have pu: "plain_units (p @ [c, d])" using plain_units_app [OF 2(4)] True c38 by simp
        have "enc s = d # enc s'" "specials s = specials s'" using d(1) Cons by (simp_all add: enc_def specials_def)
        then show ?thesis using 2(1) [OF True Cons d(2) pu, of fuel out n] 2(5) es Cons by simp
      qed
    qed
  qed
qed

text \<open>
  C14: Decoding what the encoder wrote gives the text back, with as many entities read as written, for
  every text of units as the decoder reads them: in particular every text of bytes up to 128 and every
  double-byte text.
\<close>

theorem xml_roundtrip:
  assumes "xml_units s" "acl_xml_encode s [] = (t, n)"
  shows "acl_xml_decode t [] = Ret (s, n)"
proof -
  obtain h where h: "xml_decode_init = Ret h" "xml_tree_ok h" using xml_init by blast
  have "t = enc s" "n = specials s" using assms(2) by (simp_all add: acl_xml_encode_def encode_eq)
  then show ?thesis using decode_loop_eq [OF h(2) assms(1), of "[]" "length t" "[]" 0] unfolding acl_xml_decode_def h(1) by simp
qed

theorem xml_roundtrip_witness: "acl_xml_decode (bytes_of ''a&lt;'' @ [206, 210] @ bytes_of ''&quot;&amp;&amp;'') [] = Ret (bytes_of ''a<'' @ [206, 210] @ bytes_of ''\"&&'', 4)"
proof -
  let ?s = "bytes_of ''a<'' @ [206, 210] @ bytes_of ''\"&&''"
  have "xml_units ?s" by code_simp
  moreover have "acl_xml_encode ?s [] = (bytes_of ''a&lt;'' @ [206, 210] @ bytes_of ''&quot;&amp;&amp;'', 4)" by code_simp
  ultimately show ?thesis by (rule xml_roundtrip)
qed

subsection \<open>Every input\<close>

lemma utf8_tail_len: "length (snd (utf8_tail n c acc)) = n + length acc"
  by (induction n arbitrary: c acc) simp_all

lemma uni2utf8_len: "length (uni2utf8 c room) \<le> 6"
proof -
  have "min k room - Suc 0 \<le> 5" if "k \<le> 6" for k using that by arith
  then show ?thesis by (simp add: uni2utf8_def Let_def case_prod_beta utf8_tail_len)
qed

lemma unescape_total: "\<exists>t. markup_unescape s out = Ret t"
proof (induction s out rule: markup_unescape.induct)
  case (2 c s out)
  show ?case
  proof (cases "char_ref (c # s)")
    case (Some n)
    have "\<not> 7 \<le> length (uni2utf8 n 7)" using uni2utf8_len [of n 7] by simp
    then show ?thesis using 2(2) [OF Some refl] Some by (simp add: markup_unescape.simps Let_def)
  qed (use 2(1) in \<open>simp add: markup_unescape.simps\<close>)
qed (simp add: markup_unescape.simps)

text \<open>What a search gives to the decoders.\<close>

lemma match_cases:
  assumes h: "xml_tree_ok h"
  obtains "acl_token_tree_match h 0 s None None = Ret (None, [])"
  | n t spec rest where "acl_token_tree_match h 0 s None None = Ret (Some n, rest)" "tk_get h n = Ret t" "tk_ctx t = Some spec" "spec \<in> set xml_tab"
    "length rest + length (snd spec) \<le> length s" "suffix rest s" "length rest < length s"
proof -
  have "search_ok h (\<lambda>_. False) ([] @ s) (search_loop (\<lambda>_. False) h 0 0 None s)"
    by (rule search_loop_ok [OF xml_tree_okD(1) [OF h], of "[]" _ _ "[]"]) simp_all
  then obtain found read rest where f: "search_loop (\<lambda>_. False) h 0 0 None s = Ret (found, rest)" "s = read @ rest" "found_in h read found" "found = None \<longrightarrow> rest = []"
    by (auto simp: search_ok_def)
  show thesis
  proof (cases found)
    case None
    then show thesis using f(1,4) that(1) by (simp add: match_search)
  next
    case (Some n)
    then obtain a w b where w: "read = a @ w @ b" "node_at h 0 w = Some n" "token_words h w \<noteq> None" using f(3) by (auto simp: found_in_def)
    obtain spec where sp: "find (\<lambda>x. snd x = w) xml_tab = Some spec" using w(3) xml_tree_okD(2) [OF h, of w] by auto
    then have sw: "spec \<in> set xml_tab" "snd spec = w" by (auto simp: find_Some_iff)
    obtain m t where m: "node_at h 0 (snd spec) = Some m" "tk_get h m = Ret t" "tk_ctx t = Some spec" by (rule xml_entity [OF sw(1) h])
    have "w \<noteq> []" using entities_ok [OF sw(1)] sw(2) by simp
    then have "length rest < length s" "length rest + length w \<le> length s" using f(2) w(1) by (cases w; simp)+
    moreover have "m = n" using m(1) w(2) sw(2) by simp
    moreover have "suffix rest s" using f(2) by (simp add: suffix_def)
    ultimately show thesis using that(2) [of n rest t spec] m f(1) Some sw by (simp add: match_search)
  qed
qed

lemma decode_loop_total:
  assumes h: "xml_tree_ok h"
  shows "length s \<le> fuel \<Longrightarrow> \<exists>t m. xml_decode_loop fuel h s out n = Ret (t, m)"
proof (induction fuel arbitrary: s out n)
  case (Suc fuel)
  show ?case
  proof (cases s)
    case (Cons c q)
    show ?thesis
    proof (rule match_cases [OF h, of s])
      assume "acl_token_tree_match h 0 s None None = Ret (None, [])"
      then show ?thesis using unescape_total [of s out] Cons by auto
    next
      fix k t spec rest
      assume m: "acl_token_tree_match h 0 s None None = Ret (Some k, rest)" "tk_get h k = Ret t" "tk_ctx t = Some spec" "length rest < length s"
      obtain str tx where sp: "spec = (str, tx)" by (cases spec)
      have "\<exists>t' m'. xml_decode_loop fuel h rest o' n' = Ret (t', m')" for o' n' using Suc m(4) by simp
      then show ?thesis using m(1-3) Cons sp by simp
    qed
  qed simp
qed simp

lemma copy_buf_room: "copy_buf out olen s = (out', olen', left) \<Longrightarrow> length out' + olen' = length out + olen"
  by (auto simp: copy_buf_def Let_def)

lemma unescape2_room: "markup_unescape2 s out room = (rest, out', room') \<Longrightarrow> length out' + room' = length out + room"
proof (induction s out room rule: markup_unescape2.induct)
  case (2 c s out room)
  show ?case
  proof (cases "char_ref (c # s)")
    case (Some n)
    obtain o1 r1 left where cb: "copy_buf out room (uni2utf8 n 7) = (o1, r1, left)" by (cases "copy_buf out room (uni2utf8 n 7)")
    have l: "length o1 + r1 = length out + room" by (rule copy_buf_room [OF cb])
    show ?thesis
    proof (cases "0 < left")
      case False
      then have "markup_unescape2 (ref_end (c # s)) o1 r1 = (rest, out', room')" using 2(3) Some cb by (simp add: markup_unescape2.simps)
      then show ?thesis using 2(2) [OF Some cb [symmetric] refl False] l by simp
    qed (use 2(3) Some cb l in \<open>auto simp: markup_unescape2.simps\<close>)
  next
    case None
    then show ?thesis using 2(1) [OF None] 2(3) by (auto simp: markup_unescape2.simps split: if_splits)
  qed
qed (simp add: markup_unescape2.simps)

lemma decode2_loop_room:
  assumes h: "xml_tree_ok h"
  shows "length s \<le> fuel \<Longrightarrow> \<exists>rest out' room'. xml_decode2_loop fuel h s out room = Ret (rest, out', room') \<and> length out' + room' = length out + room \<and> suffix rest s"
proof (induction fuel arbitrary: s out room)
  case (Suc fuel)
  show ?case
  proof (cases s)
    case (Cons c q)
    show ?thesis
    proof (rule match_cases [OF h, of s])
      assume m: "acl_token_tree_match h 0 s None None = Ret (None, [])"
      obtain pre o1 r1 where u: "markup_unescape2 s out room = (pre, o1, r1)" by (cases "markup_unescape2 s out room")
      obtain o2 r2 l2 where cb: "copy_buf o1 r1 pre = (o2, r2, l2)" by (cases "copy_buf o1 r1 pre")
      have "length o1 + r1 = length out + room" "length o2 + r2 = length o1 + r1" using unescape2_room [OF u] copy_buf_room [OF cb] by simp_all
      then show ?thesis using m Cons u cb by auto
    next
      fix k t spec rest
      assume m: "acl_token_tree_match h 0 s None None = Ret (Some k, rest)" "tk_get h k = Ret t" "tk_ctx t = Some spec" "length rest < length s" "suffix rest s"
      obtain str tx where sp: "spec = (str, tx)" by (cases spec)
      let ?len = "length s - length rest - length tx"
      obtain o1 r1 l1 where 1: "(if 0 < ?len then copy_buf out room (take ?len s) else (out, room, 0)) = (o1, r1, l1)"
        by (cases "if 0 < ?len then copy_buf out room (take ?len s) else (out, room, 0)")
      then have r1: "length o1 + r1 = length out + room" using copy_buf_room by (auto split: if_splits)
      obtain o2 r2 l2 where 2: "copy_buf o1 r1 str = (o2, r2, l2)" by (cases "copy_buf o1 r1 str")
      have r2: "length o2 + r2 = length out + room" using copy_buf_room [OF 2] r1 by simp
      have e: "xml_decode2_loop (Suc fuel) h s out room = (if r1 = 0 then Ret (rest, o1, r1) else if r2 = 0 then Ret (rest, o2, r2) else xml_decode2_loop fuel h rest o2 r2)"
      proof (cases "0 < ?len")
        case True
        then show ?thesis using m(1-3) sp 1 2 Cons by (simp add: Let_def)
      next
        case False
        then show ?thesis using m(1-3) sp 1 2 Cons by (simp add: Let_def)
      qed
      obtain rest' o3 r3 where "xml_decode2_loop fuel h rest o2 r2 = Ret (rest', o3, r3)" "length o3 + r3 = length o2 + r2" "suffix rest' rest"
        using Suc.IH [of rest o2 r2] Suc.prems m(4) by auto
      then show ?thesis using e r1 r2 m(5) suffix_order.trans by (cases "r1 = 0"; cases "r2 = 0") auto
    qed
  qed simp
qed simp

text \<open>
  C15: Both decoders come to an end on every input, with references and broken entities, and never follow
  a null pointer. The one that writes into a buffer fills it with the terminator at most, and the text
  it reports as not read is a part of the input.
\<close>

theorem xml_decode_safe: "(\<exists>t n. acl_xml_decode inp [] = Ret (t, n))
    \<and> (\<exists>rest out. acl_xml_decode2 inp (Suc room) = Ret (rest, out @ [0], room - length out) \<and> length (out @ [0]) \<le> Suc room \<and> suffix rest inp)"
proof -
  obtain h where h: "xml_decode_init = Ret h" "xml_tree_ok h" using xml_init by blast
  obtain t n where "xml_decode_loop (length inp) h inp [] 0 = Ret (t, n)" using decode_loop_total [OF h(2), of inp "length inp"] by blast
  moreover obtain rest out room' where "xml_decode2_loop (length inp) h inp [] room = Ret (rest, out, room')" "length out + room' = room" "suffix rest inp"
    using decode2_loop_room [OF h(2), of inp "length inp" "[]" room] by auto
  ultimately show ?thesis unfolding acl_xml_decode_def acl_xml_decode2_def h(1) by auto
qed

subsection \<open>What the code does otherwise\<close>

text \<open>A character of three bytes in UTF-8 hides the entity behind it.\<close>

lemma utf8_hides_entity: "acl_xml_decode (fst (acl_xml_encode [228, 184, 173, 60] [])) [] = Ret ([228, 184, 173] @ bytes_of ''&lt;'', 0)"
proof -
  obtain h where h: "xml_decode_init = Ret h" "xml_tree_ok h" using xml_init by blast
  obtain r where r: "tk_get h 0 = Ret r" using trie_root [OF xml_tree_okD(1) [OF h(2)]] by blast
  have n: "tk_tokens r 173 = None" using xml_root [OF h(2) r] by simp
  let ?find = "search_loop (\<lambda>_. False) h 0 0 None"
  have "?find [228, 184, 173, 38, 108, 116, 59] = ?find [173, 38, 108, 116, 59]" using search_plain [OF h(2), of "[228, 184]"] by simp
  also have "\<dots> = ?find [108, 116, 59]" using search_restart [of "\<lambda>_. False" 173, OF _ r n r] n by simp
  also have "\<dots> = Ret (None, [])" using search_plain [OF h(2), of "[108, 116, 59]" "[]"] by (simp add: search_loop_eqs)
  finally have "?find [228, 184, 173, 38, 108, 116, 59] = Ret (None, [])" .
  moreover have "markup_unescape [228, 184, 173, 38, 108, 116, 59] [] = Ret [228, 184, 173, 38, 108, 116, 59]"
    by (simp add: markup_unescape.simps char_ref_def)
  moreover have "fst (acl_xml_encode [228, 184, 173, 60] []) = [228, 184, 173, 38, 108, 116, 59]" by code_simp
  moreover have "bytes_of ''&lt;'' = [38, 108, 116, 59]" by code_simp
  ultimately show ?thesis unfolding acl_xml_decode_def h(1) by (simp add: match_search numeral_eq_Suc)
qed

text \<open>References by number are replaced only behind the last entity.\<close>

lemma search_reference:
  assumes h: "xml_tree_ok h"
  shows "search_loop (\<lambda>_. False) h 0 0 None (38 # 35 # c # s) = search_loop (\<lambda>_. False) h 0 0 None (c # s)"
proof -
  obtain r where r: "tk_get h 0 = Ret r" using trie_root [OF xml_tree_okD(1) [OF h]] by blast
  have n: "tk_tokens r 35 = None" "tk_tokens r 38 \<noteq> None" using xml_root [OF h r] by simp_all
  obtain a where a: "tk_tokens r 38 = Some a" using n(2) by blast
  have "node_at h 0 [] = Some 0" by simp
  then obtain t where t: "node_at h 0 [38] = Some a" "tk_get h a = Ret t" using child_path [OF xml_tree_okD(1) [OF h] _ r a, of "[]"] by auto
  have "node_at h 0 [38, 35] = None" using xml_tree_okD(3) [OF h, of "[38, 35]"] by (auto simp: xml_tab_def)
  then have k: "tk_tokens t 35 = None" using r a t(2) by (auto split: option.splits)
  have "token_words h [38] = None" using xml_tree_okD(2) [OF h, of "[38]"] by (simp add: xml_tab_def)
  then have "step_found t a None = None" using t by (simp add: token_words_def word_entry_def step_found_def split: if_splits)
  then have "search_loop (\<lambda>_. False) h 0 0 None (38 # 35 # c # s) = search_loop (\<lambda>_. False) h 0 a None (35 # c # s)"
    using search_follow [of "\<lambda>_. False" 38 h 0 r a t 0 None "35 # c # s", OF _ r a t(2)] by simp
  also have "\<dots> = search_loop (\<lambda>_. False) h 0 0 None (c # s)"
    using search_restart [of "\<lambda>_. False" 35, OF _ t(2) k r, of "c # s"] n(1) by simp
  finally show ?thesis .
qed

lemma reference_before_entity: "acl_xml_decode (bytes_of ''&#65;&lt;&#65;'') [] = Ret (bytes_of ''&#65;<A'', 1)"
proof -
  obtain h where h: "xml_decode_init = Ret h" "xml_tree_ok h" using xml_init by blast
  let ?find = "search_loop (\<lambda>_. False) h 0 0 None"
  have "([60], [38, 108, 116, 59]) \<in> set xml_tab" by code_simp
  then obtain n t where m: "?find ([38, 108, 116, 59] @ [38, 35, 54, 53, 59]) = Ret (Some n, [38, 35, 54, 53, 59])" "tk_get h n = Ret t" "tk_ctx t = Some ([60], [38, 108, 116, 59])"
    by (rule match_entity [OF _ h(2), of "([60], [38, 108, 116, 59])" "[38, 35, 54, 53, 59]", unfolded snd_conv]) (rule that)
  have "?find [38, 35, 54, 53, 59, 38, 108, 116, 59, 38, 35, 54, 53, 59] = ?find ([54, 53, 59] @ [38, 108, 116, 59, 38, 35, 54, 53, 59])"
    using search_reference [OF h(2), of 54 "[53, 59, 38, 108, 116, 59, 38, 35, 54, 53, 59]"] by simp
  also have "\<dots> = ?find [38, 108, 116, 59, 38, 35, 54, 53, 59]" by (rule search_plain [OF h(2)]) simp
  finally have 1: "?find [38, 35, 54, 53, 59, 38, 108, 116, 59, 38, 35, 54, 53, 59] = Ret (Some n, [38, 35, 54, 53, 59])" using m(1) by simp
  have "?find [38, 35, 54, 53, 59] = ?find ([54, 53, 59] @ [])" using search_reference [OF h(2), of 54 "[53, 59]"] by simp
  also have "\<dots> = ?find []" by (rule search_plain [OF h(2)]) simp
  finally have 2: "?find [38, 35, 54, 53, 59] = Ret (None, [])" by (simp add: search_loop_eqs)
  have 3: "markup_unescape [38, 35, 54, 53, 59] [38, 35, 54, 53, 59, 60] = Ret [38, 35, 54, 53, 59, 60, 65]"
    by (simp add: markup_unescape.simps char_ref_def scan_number_def c_space_def is_digit_def digit_value_def ref_end_def is_xdigit_def uni2utf8_def Let_def)
  have "bytes_of ''&#65;&lt;&#65;'' = [38, 35, 54, 53, 59, 38, 108, 116, 59, 38, 35, 54, 53, 59]" "bytes_of ''&#65;<A'' = [38, 35, 54, 53, 59, 60, 65]" by code_simp+
  then show ?thesis using m(2,3) 1 2 3 unfolding acl_xml_decode_def h(1) by (simp add: match_search numeral_eq_Suc)
qed

text \<open>An entity that fills the buffer to its end leaves no room for the terminator, which is written behind it.\<close>

lemma encode2_overflows: "acl_xml_encode2 (bytes_of ''<'') 4 = Fault"
  by code_simp

text \<open>When the buffer is too small the decoder reports that it has read everything.\<close>

lemma decode2_loses: "acl_xml_decode2 (bytes_of ''abcdef'') 3 = Ret ([], bytes_of ''ab'' @ [0], 0)"
  by code_simp

end
