(* ===== verification/Acl_Host.thy ===== *)
theory Acl_Host
  imports Acl_Mystring
begin

text \<open>
  Host names and addresses, \<open>net/acl_valid_hostname.c\<close> and \<open>net/acl_host_port.c\<close>. A check that refuses its
  argument gives the reason, which the code logs when it is asked to; \<open>Inr ()\<close> is the result one.
\<close>

datatype host_error = Empty_Name | Label_Long | Bad_Delimiter | Bad_Hyphen | Bad_Char byte | Numeric_Name | Name_Long
  | Empty_Addr | Octet_Value | Bad_Dot | First_Octet | Octet_Count
  | Few_Colons | Null_Last | V4_In_V6 | Null_First | Many_Colons | Many_Nulls | Bad_Field
  | Not_Addr host_error host_error

subsection \<open>Splitting at a byte\<close>

text \<open>Both write a zero over the byte: the text in front of it, and the pointer behind it.\<close>

definition acl_split_at :: "byte list \<Rightarrow> byte \<Rightarrow> byte list \<times> byte list option" where
  "acl_split_at s d = (takeWhile (\<lambda>c. c \<noteq> d) s, if d \<in> set s then Some (tl (dropWhile (\<lambda>c. c \<noteq> d) s)) else None)"

definition acl_split_at_right :: "byte list \<Rightarrow> byte \<Rightarrow> byte list \<times> byte list option" where
  "acl_split_at_right s d = (if d \<in> set s then (rev (tl (dropWhile (\<lambda>c. c \<noteq> d) (rev s))), Some (rev (takeWhile (\<lambda>c. c \<noteq> d) (rev s)))) else (s, None))"

text \<open>The conversion \<open>(int) strtol (s, NULL, 10)\<close>, where a \<open>long\<close> has 64 bits and stays at its bounds.\<close>

definition dec_value :: "byte list \<Rightarrow> nat" where
  "dec_value ds = foldl (\<lambda>v c. v * 10 + (unat c - 48)) 0 ds"

definition atoi :: "byte list \<Rightarrow> int" where
  "atoi s = (let s = dropWhile c_space s; neg = (peek s = ch CHR ''-'');
     v = int (dec_value (takeWhile is_digit (if neg \<or> peek s = ch CHR ''+'' then tl s else s)));
     v = (if neg then max (- (2 ^ 63)) (- v) else min (2 ^ 63 - 1) v) in
   sint (word_of_int v :: 32 word))"

subsection \<open>Names\<close>

fun hostname_loop :: "byte list \<Rightarrow> nat \<Rightarrow> bool \<Rightarrow> host_error + bool" where
  "hostname_loop [] label_length non_numeric = Inr non_numeric"
| "hostname_loop (c # cp) label_length non_numeric =
    (if is_alnum c \<or> c = ch CHR ''_'' then
       if label_length + 1 > 63 then Inl Label_Long else hostname_loop cp (label_length + 1) (non_numeric \<or> \<not> is_digit c)
     else if c = ch CHR ''.'' then
       if label_length = 0 \<or> peek cp = 0 then Inl Bad_Delimiter else hostname_loop cp 0 non_numeric
     else if c = ch CHR ''-'' then
       if label_length + 1 = 1 \<or> peek cp = 0 \<or> peek cp = ch CHR ''.'' then Inl Bad_Hyphen else hostname_loop cp (label_length + 1) non_numeric
     else Inl (Bad_Char c))"

definition acl_valid_hostname :: "byte list \<Rightarrow> host_error + unit" where
  "acl_valid_hostname name =
    (if name = [] then Inl Empty_Name
     else case hostname_loop name 0 False of
       Inl e \<Rightarrow> Inl e
     | Inr non_numeric \<Rightarrow> if \<not> non_numeric then Inl Numeric_Name else if length name > 255 then Inl Name_Long else Inr ())"

definition acl_valid_unix :: "byte list option \<Rightarrow> bool" where
  "acl_valid_unix addr = (case addr of None \<Rightarrow> False
   | Some s \<Rightarrow> 2 \<le> length s \<and> (hd s = ch CHR ''@''
       \<or> (let nslash = length (filter (\<lambda>c. c = ch CHR ''/'') s); nchars = length s - nslash in
            \<not> (nslash = 0 \<or> nchars = 0 \<or> last s = 0 \<or> last s = ch CHR ''/''))))"

subsection \<open>IPv4 addresses\<close>

fun ipv4_loop :: "byte list \<Rightarrow> byte list \<Rightarrow> bool \<Rightarrow> nat \<Rightarrow> nat \<Rightarrow> host_error + nat" where
  "ipv4_loop addr [] in_byte byte_count byte_val = Inr byte_count"
| "ipv4_loop addr (c # cp) in_byte byte_count byte_val =
    (if is_digit c then
       let (byte_val, byte_count) = (if in_byte then (byte_val, byte_count) else (0, byte_count + 1));
           byte_val = byte_val * 10 + (unat c - 48) in
       if byte_val > 255 then Inl Octet_Value else ipv4_loop addr cp True byte_count byte_val
     else if c = ch CHR ''.'' then
       if \<not> in_byte \<or> peek cp = 0 then Inl Bad_Dot
       else if byte_count = 1 \<and> byte_val = 0 \<and> dropWhile (\<lambda>d. d \<in> set (bytes_of ''0.'')) addr \<noteq> [] then Inl First_Octet
       else ipv4_loop addr cp False byte_count byte_val
     else Inl (Bad_Char c))"

definition acl_valid_ipv4_hostaddr :: "byte list \<Rightarrow> host_error + unit" where
  "acl_valid_ipv4_hostaddr addr_in =
    (let addr = acl_safe_strncpy addr_in 128;
         addr = (if ch CHR ''|'' \<in> set addr then fst (acl_split_at_right addr (ch CHR ''|'')) else fst (acl_split_at_right addr (ch CHR '':''))) in
     case ipv4_loop addr addr False 0 0 of
       Inl e \<Rightarrow> Inl e
     | Inr byte_count \<Rightarrow> if byte_count \<noteq> 4 \<and> addr \<noteq> bytes_of ''0'' then Inl Octet_Count else Inr ())"

subsection \<open>IPv6 addresses\<close>

text \<open>The text at \<open>cp\<close> and at \<open>cp - len\<close>, where the field begins.\<close>

function ipv6_loop :: "byte list \<Rightarrow> byte list \<Rightarrow> nat \<Rightarrow> nat \<Rightarrow> nat \<Rightarrow> host_error + unit" where
  "ipv6_loop start [] null_field field len =
    (if field < 2 then Inl Few_Colons else if len = 0 \<and> null_field \<noteq> field - 1 then Inl Null_Last else Inr ())"
| "ipv6_loop start (c # cp) null_field field len =
    (if c = ch CHR ''.'' then
       if field < 2 \<or> field > 6 then Inl V4_In_V6 else acl_valid_ipv4_hostaddr start
     else if c = ch CHR '':'' then
       if field = 0 \<and> len = 0 \<and> is_alnum (peek cp) then Inl Null_First
       else if field + 1 > 7 then Inl Many_Colons
       else if peek cp = ch CHR '':'' then
         if null_field > 0 then Inl Many_Nulls else ipv6_loop cp cp (field + 1) (field + 1) 0
       else ipv6_loop cp cp null_field (field + 1) 0
     else let len = length (takeWhile is_xdigit (c # cp)) in
       if len > 4 then Inl Bad_Field else if len = 0 then Inl (Bad_Char c)
       else ipv6_loop (c # cp) (drop len (c # cp)) null_field field len)"
  by pat_completeness auto

termination by (relation "measure (\<lambda>(_, cp, _, _, _). length cp)") auto

declare ipv6_loop.simps [simp del]

definition acl_valid_ipv6_hostaddr :: "byte list \<Rightarrow> host_error + unit" where
  "acl_valid_ipv6_hostaddr addr_in =
    (let addr = fst (acl_split_at_right (fst (acl_split_at_right (acl_safe_strncpy addr_in 128) (ch CHR ''|''))) (ch CHR ''%'')) in
     ipv6_loop addr addr 0 0 0)"

subsection \<open>Addresses with wildcards and ports\<close>

definition valid_ipv4_field :: "byte list \<Rightarrow> bool" where
  "valid_ipv4_field s \<longleftrightarrow> s = bytes_of ''*'' \<or> (acl_alldig s \<and> \<not> (atoi s < 0 \<or> atoi s > 255))"

definition valid_port :: "byte list \<Rightarrow> bool" where
  "valid_port s \<longleftrightarrow> acl_alldig s \<and> 0 \<le> atoi s \<and> atoi s \<le> 65535"

definition valid_ipv4_wildcard :: "byte list \<Rightarrow> bool" where
  "valid_ipv4_wildcard addr = (case strtok_all addr (bytes_of ''.'') of
     [a, b, c, s4] \<Rightarrow> valid_ipv4_field a \<and> valid_ipv4_field b \<and> valid_ipv4_field c
       \<and> (case acl_split_at s4 (if ch CHR ''|'' \<in> set s4 then ch CHR ''|'' else ch CHR '':'') of
            (s4, port) \<Rightarrow> valid_ipv4_field s4 \<and> (case port of None \<Rightarrow> True | Some p \<Rightarrow> valid_port p))
   | _ \<Rightarrow> False)"

definition port_at :: "byte list \<Rightarrow> bool" where
  "port_at s \<longleftrightarrow> acl_alldig s \<and> atoi s > 0"

definition addr_sep :: "byte \<Rightarrow> bool" where
  "addr_sep c \<longleftrightarrow> c = ch CHR ''|'' \<or> c = ch CHR '':''"

definition acl_valid_hostaddr :: "byte list \<Rightarrow> host_error + unit" where
  "acl_valid_hostaddr addr =
    (if addr = [] then Inl Empty_Addr
     else if port_at addr then Inr ()
     else if addr_sep (hd addr) \<and> port_at (tl addr) then Inr ()
     else if hd addr = ch CHR ''*'' \<and> addr_sep (peek (tl addr)) \<and> port_at (drop 2 addr) then Inr ()
     else if valid_ipv4_wildcard addr then Inr ()
     else case acl_valid_ipv4_hostaddr addr of Inr _ \<Rightarrow> Inr ()
       | Inl e4 \<Rightarrow> (case acl_valid_ipv6_hostaddr addr of Inr _ \<Rightarrow> Inr () | Inl e6 \<Rightarrow> Inl (Not_Addr e4 e6)))"

subsection \<open>Hosts with ports\<close>

text \<open>A part of an address points into the buffer or is the default of the caller.\<close>

datatype addr_part = Given "byte list" | Default "byte list"

datatype host_port_error = Missing_Bracket | Garbage_Behind_Bracket | Missing_Host | Invalid_Host | Garbage_Service

definition given :: "byte list \<Rightarrow> byte list option \<Rightarrow> addr_part option" where
  "given s other = (if s \<noteq> [] then Some (Given s) else map_option Default other)"

definition host_port_parts :: "byte list \<Rightarrow> byte list option \<Rightarrow> byte list option \<Rightarrow> host_port_error + addr_part option \<times> addr_part option" where
  "host_port_parts buf def_host def_service =
    (if acl_alldig buf then Inr (map_option Default def_host, Some (Given buf))
     else if peek buf = ch CHR ''['' then
       (case acl_split_at (tl buf) (ch CHR '']'') of
         (_, None) \<Rightarrow> Inl Missing_Bracket
       | (h, Some cp) \<Rightarrow> if cp \<noteq> [] \<and> hd cp \<noteq> ch CHR '':'' then Inl Garbage_Behind_Bracket
           else Inr (Some (Given h), given (tl cp) def_service))
     else case acl_split_at_right buf (ch CHR ''|'') of
       (h, Some cp) \<Rightarrow> Inr (given h def_host, given cp def_service)
     | (_, None) \<Rightarrow> (case acl_split_at_right buf (ch CHR '':'') of
         (h, Some cp) \<Rightarrow> Inr (given h def_host, given cp def_service)
       | (_, None) \<Rightarrow> Inr (given buf def_host, map_option Default def_service)))"

definition acl_host_port :: "byte list \<Rightarrow> byte list option \<Rightarrow> byte list option \<Rightarrow> host_port_error + addr_part \<times> addr_part option" where
  "acl_host_port buf def_host def_service = (case host_port_parts buf def_host def_service of
     Inl e \<Rightarrow> Inl e
   | Inr (None, port) \<Rightarrow> Inl Missing_Host
   | Inr (Some host, port) \<Rightarrow>
       if (case host of Given h \<Rightarrow> isl (acl_valid_hostname h) \<and> isl (acl_valid_hostaddr h) | Default _ \<Rightarrow> False) then Inl Invalid_Host
       else if (case port of Some (Given p) \<Rightarrow> is_digit (peek p) \<and> \<not> acl_alldig p | _ \<Rightarrow> False) then Inl Garbage_Service
       else Inr (host, port))"

fun part_text :: "addr_part \<Rightarrow> byte list" where
  "part_text (Given s) = s"
| "part_text (Default s) = s"

text \<open>The address of all interfaces stands for a host that is missing.\<close>

definition host_port :: "byte list \<Rightarrow> (byte list \<times> byte list option) option" where
  "host_port buf = (case acl_host_port buf (Some []) None of
     Inl _ \<Rightarrow> None
   | Inr (host, port) \<Rightarrow> if (case port of Some p \<Rightarrow> atoi (part_text p) < 0 | None \<Rightarrow> False) then None
       else Some (if part_text host = [] then bytes_of ''0'' else part_text host, map_option part_text port))"

text \<open>What \<open>getaddrinfo\<close> gives for a host and a service is a parameter.\<close>

definition acl_host_addrinfo2 :: "(byte list \<Rightarrow> byte list option \<Rightarrow> 'r option) \<Rightarrow> byte list \<Rightarrow> 'r option" where
  "acl_host_addrinfo2 getaddrinfo addr = (case host_port (acl_safe_strncpy addr 260) of
     None \<Rightarrow> None
   | Some (host, port) \<Rightarrow> if host = [] then None else getaddrinfo host port)"

end
