(* ===== verification/Host_Props.thy ===== *)
theory Host_Props
  imports Acl_Host
begin

text \<open>Which names and addresses are accepted, against grammars, and what \<open>acl_host_port\<close> makes of an address.\<close>

subsection \<open>Fields\<close>

text \<open>The fields between the separators, empty ones included.\<close>

fun split_on :: "'a \<Rightarrow> 'a list \<Rightarrow> 'a list list" where
  "split_on d [] = [[]]"
| "split_on d (c # s) = (if c = d then [] # split_on d s else (c # hd (split_on d s)) # tl (split_on d s))"

lemma split_on_ne [simp]: "split_on d s \<noteq> []"
  by (cases s) simp_all

lemma split_on_hd_tl: "hd (split_on d s) # tl (split_on d s) = split_on d s"
  by simp

lemma ch_alnum [simp]: "\<not> is_alnum 46" "\<not> is_alnum 45" "\<not> is_alnum 0" "\<not> is_alnum 58" "\<not> is_alnum 95"
  by (simp_all add: ctype_defs)

lemma digit_alnum: "is_digit c \<Longrightarrow> is_alnum c"
  by (simp add: is_alnum_def)

lemma digit_not_alpha: "is_digit c \<Longrightarrow> \<not> is_alpha c"
  by (simp add: ctype_defs word_le_nat_alt)

subsection \<open>Names\<close>

definition label_char :: "byte \<Rightarrow> bool" where
  "label_char c \<longleftrightarrow> is_alnum c \<or> c = ch CHR ''_'' \<or> c = ch CHR ''-''"

definition label_ok :: "byte list \<Rightarrow> bool" where
  "label_ok l \<longleftrightarrow> l \<noteq> [] \<and> length l \<le> 63 \<and> list_all label_char l \<and> hd l \<noteq> ch CHR ''-'' \<and> List.last l \<noteq> ch CHR ''-''"

definition name_letter :: "byte \<Rightarrow> bool" where
  "name_letter c \<longleftrightarrow> is_alpha c \<or> c = ch CHR ''_''"

text \<open>The rest of a label of which \<open>n\<close> bytes have been read.\<close>

definition label_rest :: "nat \<Rightarrow> byte list \<Rightarrow> bool" where
  "label_rest n l \<longleftrightarrow> 0 < n + length l \<and> (l \<noteq> [] \<longrightarrow> n + length l \<le> 63 \<and> List.last l \<noteq> ch CHR ''-'') \<and> list_all label_char l \<and> (n = 0 \<longrightarrow> hd l \<noteq> ch CHR ''-'')"

lemma label_rest_0: "label_rest 0 l = label_ok l"
  by (auto simp: label_rest_def label_ok_def)

lemma label_char_dot: "\<not> label_char 46" "\<not> label_char 0"
  by (simp_all add: label_char_def)

lemma hostname_loop_iff: "s \<noteq> [] \<or> 0 < n \<Longrightarrow> hostname_loop s n nn = Inr r \<longleftrightarrow>
    label_rest n (hd (split_on 46 s)) \<and> list_all label_ok (tl (split_on 46 s)) \<and> r = (nn \<or> (\<exists>c \<in> set s. name_letter c))"
proof (induction s arbitrary: n nn)
  case (Cons c s)
  let ?l = "hd (split_on 46 s)"
  consider (word) "is_alnum c \<or> c = 95" | (dot) "c = 46" | (hyphen) "c = 45" | (bad) "\<not> label_char c" "c \<noteq> 46"
    by (auto simp: label_char_def)
  then show ?case
  proof cases
    case word
    have c: "c \<noteq> 46" "c \<noteq> 45" "label_char c" using word by (auto simp: label_char_def)
    have nl: "name_letter c \<longleftrightarrow> \<not> is_digit c" using word digit_not_alpha [of c] by (auto simp: name_letter_def is_alnum_def is_digit_def)
    have "label_rest n (c # ?l) \<longleftrightarrow> n + 1 \<le> 63 \<and> label_rest (n + 1) ?l" using c by (auto simp: label_rest_def)
    then show ?thesis using Cons.IH [of "n + 1" "nn \<or> \<not> is_digit c"] word c nl by auto
  next
    case dot
    have lr: "label_rest n [] \<longleftrightarrow> 0 < n" by (auto simp: label_rest_def)
    have nl: "\<not> name_letter 46" by (simp add: name_letter_def ctype_defs)
    have z: "\<not> label_ok ?l" if "peek s = 0"
    proof (cases s)
      case (Cons d t)
      then show ?thesis using that label_char_dot by (auto simp: label_ok_def)
    qed (simp add: label_ok_def)
    have "list_all label_ok (split_on 46 s) \<longleftrightarrow> label_ok ?l \<and> list_all label_ok (tl (split_on 46 s))" by (cases "split_on 46 s") simp_all
    then show ?thesis using Cons.IH [of 0 nn] dot lr nl z by (cases "s = []") (auto simp: label_rest_0)
  next
    case hyphen
    have nl: "\<not> name_letter 45" by (simp add: name_letter_def ctype_defs)
    have lc: "label_char 45" by (simp add: label_char_def)
    have "label_rest n (45 # ?l) \<longleftrightarrow> 0 < n \<and> ?l \<noteq> [] \<and> label_rest (n + 1) ?l" using lc by (auto simp: label_rest_def)
    moreover have "?l = [] \<longleftrightarrow> s = [] \<or> hd s = 46" by (cases s) auto
    moreover have "\<not> label_rest (n + 1) ?l" if "s \<noteq> []" "hd s = 0" using that label_char_dot by (cases s) (auto simp: label_rest_def)
    moreover have "peek s = (if s = [] then 0 else hd s)" by (cases s) auto
    ultimately show ?thesis using Cons.IH [of "n + 1" nn] hyphen nl by auto
  next
    case bad
    then have "c \<noteq> 45" "\<not> is_alnum c" "c \<noteq> 95" by (auto simp: label_char_def)
    then show ?thesis using bad by (simp add: label_rest_def)
  qed
qed (auto simp: label_rest_def)

text \<open>
  C18: A host name is accepted exactly if it has at most 255 bytes, one of them a letter or an underscore,
  and all its labels have 1 to 63 letters, digits, underscores and hyphens, no hyphen at the ends.
\<close>

theorem hostname_spec: "acl_valid_hostname name = Inr () \<longleftrightarrow>
    list_all label_ok (split_on (ch CHR ''.'') name) \<and> (\<exists>c \<in> set name. is_alpha c \<or> c = ch CHR ''_'') \<and> length name \<le> 255"
proof (cases "name = []")
  case False
  have "list_all label_ok (split_on 46 name) \<longleftrightarrow> label_ok (hd (split_on 46 name)) \<and> list_all label_ok (tl (split_on 46 name))"
    by (cases "split_on 46 name") simp_all
  moreover have "hostname_loop name 0 False = Inr r \<longleftrightarrow> label_ok (hd (split_on 46 name)) \<and> list_all label_ok (tl (split_on 46 name)) \<and> r = (\<exists>c \<in> set name. name_letter c)" for r
    using hostname_loop_iff [of name 0 False r] False by (simp add: label_rest_0)
  ultimately show ?thesis using False
    by (cases "hostname_loop name 0 False") (auto simp: acl_valid_hostname_def name_letter_def split: if_splits)
qed (simp add: acl_valid_hostname_def label_ok_def)

subsection \<open>IPv4 addresses\<close>

definition octet_ok :: "byte list \<Rightarrow> bool" where
  "octet_ok ds \<longleftrightarrow> ds \<noteq> [] \<and> list_all is_digit ds \<and> dec_value ds \<le> 255"

definition dec_from :: "nat \<Rightarrow> byte list \<Rightarrow> nat" where
  "dec_from v ds = foldl (\<lambda>v c. v * 10 + (unat c - 48)) v ds"

lemma dec_from_simps [simp]: "dec_from v [] = v" "dec_from v (c # ds) = dec_from (v * 10 + (unat c - 48)) ds"
  by (simp_all add: dec_from_def)

lemma dec_value_from: "dec_value ds = dec_from 0 ds"
  by (simp add: dec_value_def dec_from_def)

lemma dec_from_ge: "v \<le> dec_from v ds"
  by (induction ds arbitrary: v) (simp, metis dec_from_simps(2) le_add1 le_trans mult.commute mult_le_mono1 nat_mult_1 one_le_numeral)

lemma dec_from_0: "list_all is_digit ds \<Longrightarrow> dec_from 0 ds = 0 \<longleftrightarrow> set ds \<subseteq> {48}"
proof (induction ds)
  case (Cons c ds)
  have c: "c = 48 \<longleftrightarrow> unat c - 48 = 0" using Cons.prems by (auto simp: is_digit_def word_le_nat_alt word_unat_eq_iff)
  show ?case
  proof (cases "c = 48")
    case False
    then have "0 < dec_from (unat c - 48) ds" using c dec_from_ge [of "unat c - 48" ds] by linarith
    then show ?thesis using False by simp
  qed (use Cons in simp)
qed simp

text \<open>The rest of an octet of which the value \<open>v\<close> has been read, if any of it has.\<close>

definition octet_rest :: "bool \<Rightarrow> nat \<Rightarrow> byte list \<Rightarrow> bool" where
  "octet_rest in_byte v ds \<longleftrightarrow> (in_byte \<or> ds \<noteq> []) \<and> list_all is_digit ds \<and> dec_from (if in_byte then v else 0) ds \<le> 255"

text \<open>The other characters of the address, if the first octet is the current one and there is another.\<close>

definition first_ok :: "byte list \<Rightarrow> bool \<Rightarrow> nat \<Rightarrow> nat \<Rightarrow> byte list list \<Rightarrow> bool" where
  "first_ok addr in_byte n v os \<longleftrightarrow>
     ((if in_byte then n = 1 else n = 0) \<and> tl os \<noteq> [] \<and> dec_from (if in_byte then v else 0) (hd os) = 0 \<longrightarrow> set addr \<subseteq> {48, 46})"

lemma zeros_dots: "dropWhile (\<lambda>d. d \<in> set (bytes_of ''0.'')) addr \<noteq> [] \<longleftrightarrow> \<not> set addr \<subseteq> {48, 46}"
  by (auto simp: dropWhile_eq_Nil_conv)

lemma ipv4_loop_iff: "s \<noteq> [] \<or> b \<Longrightarrow> b \<longrightarrow> 0 < n \<and> v \<le> 255 \<Longrightarrow> ipv4_loop addr s b n v = Inr m \<longleftrightarrow>
    octet_rest b v (hd (split_on 46 s)) \<and> list_all octet_ok (tl (split_on 46 s)) \<and> first_ok addr b n v (split_on 46 s)
    \<and> m = n + length (split_on 46 s) - (if b then 1 else 0)"
proof (induction s arbitrary: b n v)
  case (Cons c s)
  let ?os = "split_on 46 s"
  consider (digit) "is_digit c" | (dot) "c = 46" | (bad) "\<not> is_digit c" "c \<noteq> 46" by blast
  then show ?case
  proof cases
    case digit
    have c: "c \<noteq> 46" using digit by (auto simp: is_digit_def)
    define w where "w = (if b then v else 0) * 10 + (unat c - 48)"
    define k where "k = (if b then n else n + 1)"
    have e: "ipv4_loop addr (c # s) b n v = (if 255 < w then Inl Octet_Value else ipv4_loop addr s True k w)"
      using digit by (auto simp: w_def k_def Let_def)
    have r: "octet_rest b v (c # hd ?os) \<longleftrightarrow> w \<le> 255 \<and> octet_rest True w (hd ?os)"
      using digit dec_from_ge [of w "hd ?os"] by (auto simp: octet_rest_def w_def)
    have f: "first_ok addr b n v ((c # hd ?os) # tl ?os) = first_ok addr True k w ?os"
      using Cons.prems by (auto simp: first_ok_def w_def k_def)
    have "0 < length ?os" by simp
    then have l: "k + length ?os - 1 = n + length ?os - (if b then 1 else 0)" by (simp add: k_def)
    show ?thesis
    proof (cases "255 < w")
      case False
      then have "ipv4_loop addr s True k w = Inr m \<longleftrightarrow> octet_rest True w (hd ?os) \<and> list_all octet_ok (tl ?os) \<and> first_ok addr True k w ?os \<and> m = k + length ?os - 1"
        using Cons.IH [of True k w] Cons.prems by (simp add: k_def)
      then show ?thesis using e False r f l c by simp
    qed (use e r c in simp)
  next
    case dot
    have d: "\<not> is_digit 46" by (simp add: is_digit_def)
    have r: "octet_rest b v [] \<longleftrightarrow> b" using Cons.prems by (auto simp: octet_rest_def)
    have f: "first_ok addr b n v ([] # ?os) \<longleftrightarrow> (b \<and> n = 1 \<and> v = 0 \<or> \<not> b \<and> n = 0 \<longrightarrow> set addr \<subseteq> {48, 46})" by (auto simp: first_ok_def)
    have z: "\<not> octet_ok (hd ?os)" if "peek s = 0"
    proof (cases s)
      case (Cons x t)
      then show ?thesis using that by (simp add: octet_ok_def is_digit_def)
    qed (simp add: octet_ok_def)
    have os: "list_all octet_ok ?os \<longleftrightarrow> octet_ok (hd ?os) \<and> list_all octet_ok (tl ?os)" by (cases ?os) simp_all
    have o0: "octet_rest False x (hd ?os) = octet_ok (hd ?os)" for x by (auto simp: octet_rest_def octet_ok_def dec_value_from)
    show ?thesis
    proof (cases "b \<and> peek s \<noteq> 0")
      case True
      then have "s \<noteq> []" "n \<noteq> 0" using Cons.prems by auto
      moreover from this have "first_ok addr False n v ?os" by (simp add: first_ok_def)
      ultimately show ?thesis using Cons.IH [of False n v] True d dot r f os o0 zeros_dots [of addr] by auto
    next
      case False
      then show ?thesis using d dot r z os by auto
    qed
  next
    case bad
    then show ?thesis by (simp add: octet_rest_def)
  qed
qed (auto simp: octet_rest_def first_ok_def)

text \<open>
  C19: A text of less than 128 bytes without a bar or a colon is accepted as an IPv4 address exactly if it is a zero alone, or four decimal numbers up
  to 255 with dots between them, of which the first is zero only if all are.
\<close>

theorem ipv4_spec:
  assumes "length addr < 128" "ch CHR ''|'' \<notin> set addr" "ch CHR '':'' \<notin> set addr"
  shows "acl_valid_ipv4_hostaddr addr = Inr () \<longleftrightarrow> addr = bytes_of ''0'' \<or>
    (let os = split_on (ch CHR ''.'') addr in length os = 4 \<and> list_all octet_ok os \<and> (dec_value (hd os) = 0 \<longrightarrow> set addr \<subseteq> set (bytes_of ''0.'')))"
proof (cases "addr = []")
  case True
  then show ?thesis by (simp add: acl_valid_ipv4_hostaddr_def acl_safe_strncpy_def acl_split_at_right_def)
next
  case False
  let ?os = "split_on 46 addr"
  have a: "acl_valid_ipv4_hostaddr addr = (case ipv4_loop addr addr False 0 0 of Inl e \<Rightarrow> Inl e
     | Inr n \<Rightarrow> if n \<noteq> 4 \<and> addr \<noteq> bytes_of ''0'' then Inl Octet_Count else Inr ())"
    using assms by (simp add: acl_valid_ipv4_hostaddr_def acl_safe_strncpy_def acl_split_at_right_def)
  have l: "ipv4_loop addr addr False 0 0 = Inr m \<longleftrightarrow> list_all octet_ok ?os \<and> first_ok addr False 0 0 ?os \<and> m = length ?os" for m
  proof -
    have "octet_rest False 0 (hd ?os) = octet_ok (hd ?os)" by (auto simp: octet_rest_def octet_ok_def dec_value_from)
    moreover have "list_all octet_ok ?os \<longleftrightarrow> octet_ok (hd ?os) \<and> list_all octet_ok (tl ?os)" by (cases ?os) simp_all
    ultimately show ?thesis using ipv4_loop_iff [of addr False 0 0 addr m] False by simp
  qed
  have f: "first_ok addr False 0 0 ?os \<longleftrightarrow> (dec_value (hd ?os) = 0 \<longrightarrow> set addr \<subseteq> {48, 46})" if "length ?os = 4"
  proof -
    have "tl ?os \<noteq> []" using that by (cases ?os) auto
    then show ?thesis by (simp add: first_ok_def dec_value_from)
  qed
  have z: "list_all octet_ok (split_on 46 [48]) \<and> first_ok [48] False 0 0 (split_on 46 [48])"
    by (simp add: octet_ok_def first_ok_def is_digit_def dec_value_def)
  show ?thesis
  proof (cases "addr = [48]")
    case True
    then show ?thesis using a l [of "length ?os"] z by auto
  next
    case False
    then show ?thesis using a l f by (cases "ipv4_loop addr addr False 0 0") (auto simp: Let_def)
  qed
qed

theorem ipv4_spec_witness: "acl_valid_ipv4_hostaddr (bytes_of ''10.0.0.255'') = Inr () \<and> acl_valid_ipv4_hostaddr (bytes_of ''0.1.2.3'') \<noteq> Inr ()"
proof
  show "acl_valid_ipv4_hostaddr (bytes_of ''10.0.0.255'') = Inr ()"
    by (subst ipv4_spec) (simp_all add: octet_ok_def is_digit_def dec_value_def)
  show "acl_valid_ipv4_hostaddr (bytes_of ''0.1.2.3'') \<noteq> Inr ()"
    by (subst ipv4_spec) (simp_all add: octet_ok_def is_digit_def dec_value_def)
qed

subsection \<open>IPv6 addresses\<close>

definition hex_field :: "byte list \<Rightarrow> bool" where
  "hex_field f \<longleftrightarrow> list_all is_xdigit f \<and> length f \<le> 4"

text \<open>The fields behind \<open>k\<close> colons, where the null field so far, if any, is the one with number \<open>nf\<close>.\<close>

fun fields_ok :: "nat \<Rightarrow> nat \<Rightarrow> byte list list \<Rightarrow> bool" where
  "fields_ok nf k [] = False"
| "fields_ok nf k [p] = (hex_field p \<and> 2 \<le> k \<and> (p = [] \<longrightarrow> nf = k - 1))"
| "fields_ok nf k (p # q # ps) = (hex_field p \<and> (k = 0 \<and> p = [] \<longrightarrow> q = []) \<and> k + 1 \<le> 7
     \<and> (if q = [] \<and> ps \<noteq> [] then nf = 0 \<and> fields_ok (k + 1) (k + 1) (q # ps) else fields_ok nf (k + 1) (q # ps)))"

lemma xdigit_not [simp]: "\<not> is_xdigit 58" "\<not> is_xdigit 46"
  by (simp_all add: is_xdigit_def is_digit_def)

lemma xdigit_alnum: "is_xdigit c \<Longrightarrow> is_alnum c"
  by (auto simp: is_xdigit_def ctype_defs word_le_nat_alt)

lemma fields_ok_hd: "fields_ok nf k ps \<Longrightarrow> hex_field (hd ps)"
  by (cases "(nf, k, ps)" rule: fields_ok.cases) auto

lemma split_on_prefix: "d \<notin> set p \<Longrightarrow> split_on d (p @ s) = (p @ hd (split_on d s)) # tl (split_on d s)"
  by (induction p) auto

text \<open>At a colon behind \<open>len\<close> bytes of a field.\<close>

lemma ipv6_colon:
  assumes IH: "\<And>nf k. ipv6_loop s s nf k 0 = Inr () \<longleftrightarrow> fields_ok nf k (split_on 58 s)" and f: "hex_field p" and l: "len = length p"
  shows "ipv6_loop start (58 # s) nf k len = Inr () \<longleftrightarrow> fields_ok nf k (p # split_on 58 s)"
proof -
  obtain q ps where q: "split_on 58 s = q # ps" by (cases "split_on 58 s") auto
  have n: "q = [] \<and> ps \<noteq> [] \<longleftrightarrow> peek s = 58" using q by (cases s) (auto split: if_splits)
  have a: "is_alnum (peek s) \<Longrightarrow> q \<noteq> []" using q by (cases s) (auto split: if_splits)
  have b: "\<not> is_alnum (peek s) \<Longrightarrow> q \<noteq> [] \<Longrightarrow> \<not> hex_field q"
    using q xdigit_alnum by (cases s) (auto simp: hex_field_def split: if_splits)
  have c: "fields_ok x y (q # ps) \<Longrightarrow> hex_field q" for x y using fields_ok_hd [of x y "q # ps"] by simp
  show ?thesis
  proof (cases "k = 0 \<and> len = 0")
    case True
    then show ?thesis using IH f l q n a b c by (auto simp: ipv6_loop.simps)
  next
    case False
    then show ?thesis using IH f l q n by (auto simp: ipv6_loop.simps)
  qed
qed

lemma ipv6_loop_iff: "46 \<notin> set s \<Longrightarrow> ipv6_loop s s nf k 0 = Inr () \<longleftrightarrow> fields_ok nf k (split_on 58 s)"
proof (induction "length s" arbitrary: s nf k rule: less_induct)
  case less
  show ?case
  proof (cases s)
    case Nil
    then show ?thesis by (auto simp: ipv6_loop.simps hex_field_def)
  next
    case (Cons c cp)
    show ?thesis
    proof (cases "c = 58")
      case True
      have IH: "ipv6_loop cp cp nf k 0 = Inr () \<longleftrightarrow> fields_ok nf k (split_on 58 cp)" for nf k using less Cons by simp
      show ?thesis using ipv6_colon [OF IH, of "[]" 0 s nf k] Cons True by (simp add: hex_field_def)
    next
      case False
      define run where "run = takeWhile is_xdigit s"
      define t where "t = drop (length run) s"
      have st: "s = run @ t" by (metis append_take_drop_id run_def t_def takeWhile_eq_take)
      have dw: "t = dropWhile is_xdigit s" by (metis append_same_eq run_def st takeWhile_dropWhile_id append_eq_append_conv)
      have rx: "list_all is_xdigit run" by (auto simp: run_def list_all_iff dest: set_takeWhileD)
      have r58: "58 \<notin> set run" using rx by (auto simp: list_all_iff)
      have sp: "split_on 58 s = (run @ hd (split_on 58 t)) # tl (split_on 58 t)" using split_on_prefix [OF r58, of t] st by simp
      have e: "ipv6_loop s s nf k 0 = (if length run > 4 then Inl Bad_Field else if length run = 0 then Inl (Bad_Char c) else ipv6_loop s t nf k (length run))"
        using Cons False less(2) by (simp add: ipv6_loop.simps Let_def run_def t_def)
      show ?thesis
      proof (cases "length run > 4")
        case True
        then have "\<not> fields_ok nf k (split_on 58 s)" using fields_ok_hd [of nf k "split_on 58 s"] sp by (auto simp: hex_field_def)
        then show ?thesis using e True by simp
      next
        case 4: False
        show ?thesis
        proof (cases t)
          case Nil
          then have "run \<noteq> []" using st Cons by auto
          then show ?thesis using e 4 sp Nil rx by (auto simp: ipv6_loop.simps hex_field_def)
        next
          case t: (Cons d u)
          have x: "\<not> is_xdigit d" using dw t by (metis hd_dropWhile list.distinct(1) list.sel(1))
          have u46: "46 \<notin> set u" "d \<noteq> 46" using less(2) st t by auto
          show ?thesis
          proof (cases "d = 58")
            case True
            then have "run \<noteq> []" using False st t Cons by auto
            moreover have "length u < length s" using st t by simp
            then have "\<And>nf k. ipv6_loop u u nf k 0 = Inr () \<longleftrightarrow> fields_ok nf k (split_on 58 u)" using less(1) u46 by simp
            moreover have "hex_field run" using rx 4 by (simp add: hex_field_def)
            ultimately have "ipv6_loop s t nf k (length run) = Inr () \<longleftrightarrow> fields_ok nf k (run # split_on 58 u)"
              using ipv6_colon [of u run "length run" s nf k] t True by simp
            then show ?thesis using e 4 sp t True \<open>run \<noteq> []\<close> by simp
          next
            case False
            then have "hd (split_on 58 t) = d # hd (split_on 58 u)" using t by simp
            then have "\<not> fields_ok nf k (split_on 58 s)" using fields_ok_hd [of nf k "split_on 58 s"] sp x by (auto simp: hex_field_def)
            moreover have "ipv6_loop s t nf k (length run) \<noteq> Inr ()" using t x False u46 by (simp add: ipv6_loop.simps)
            ultimately show ?thesis using e 4 by simp
          qed
        qed
      qed
    qed
  qed
qed

text \<open>The same without the recursion: the null fields between the first and the last.\<close>

definition ipv6_fields :: "byte list list \<Rightarrow> bool" where
  "ipv6_fields fs \<longleftrightarrow> 3 \<le> length fs \<and> length fs \<le> 8 \<and> list_all hex_field fs
     \<and> length (filter (\<lambda>f. f = []) (butlast (tl fs))) \<le> 1
     \<and> (hd fs = [] \<longrightarrow> hd (tl fs) = []) \<and> (List.last fs = [] \<longrightarrow> List.last (butlast fs) = [])"

lemma fields_ok_later: "ps \<noteq> [] \<Longrightarrow> 0 < k \<Longrightarrow> nf \<le> k \<Longrightarrow> nf = k \<longleftrightarrow> p = [] \<Longrightarrow> fields_ok nf k (p # ps) \<longleftrightarrow>
    2 \<le> k + length ps \<and> k + length ps \<le> 7 \<and> list_all hex_field (p # ps)
    \<and> length (filter (\<lambda>f. f = []) (butlast ps)) + (if nf = 0 then 0 else 1) \<le> 1
    \<and> (List.last ps = [] \<longrightarrow> List.last (butlast (p # ps)) = [])"
proof (induction ps arbitrary: nf k p)
  case (Cons q ps)
  show ?case
  proof (cases ps)
    case (Cons r rs)
    show ?thesis
    proof (cases "q = []")
      case True
      then have "fields_ok (k + 1) (k + 1) (q # ps) \<longleftrightarrow> 2 \<le> k + 1 + length ps \<and> k + 1 + length ps \<le> 7 \<and> list_all hex_field (q # ps)
          \<and> length (filter (\<lambda>f. f = []) (butlast ps)) = 0 \<and> (List.last ps = [] \<longrightarrow> List.last (butlast (q # ps)) = [])"
        using Cons.IH [of "k + 1" "k + 1" q] Cons.prems Cons by auto
      then show ?thesis using True Cons Cons.prems by auto
    next
      case False
      then have "fields_ok nf (k + 1) (q # ps) \<longleftrightarrow> 2 \<le> k + 1 + length ps \<and> k + 1 + length ps \<le> 7 \<and> list_all hex_field (q # ps)
          \<and> length (filter (\<lambda>f. f = []) (butlast ps)) + (if nf = 0 then 0 else 1) \<le> 1 \<and> (List.last ps = [] \<longrightarrow> List.last (butlast (q # ps)) = [])"
        using Cons.IH [of "k + 1" nf q] Cons.prems Cons by auto
      then show ?thesis using False Cons Cons.prems by auto
    qed
  qed (use Cons.prems in auto)
qed simp

lemma fields_ok_all: "fields_ok 0 0 fs \<longleftrightarrow> ipv6_fields fs"
proof (cases "(0 :: nat, 0 :: nat, fs)" rule: fields_ok.cases)
  case (3 nf k p q ps)
  have fs: "fs = p # q # ps" using 3 by simp
  show ?thesis
  proof (cases "ps = []")
    case False
    have "fields_ok 1 1 (q # ps) \<longleftrightarrow> 2 \<le> 1 + length ps \<and> 1 + length ps \<le> 7 \<and> list_all hex_field (q # ps)
          \<and> length (filter (\<lambda>f. f = []) (butlast ps)) = 0 \<and> (List.last ps = [] \<longrightarrow> List.last (butlast (q # ps)) = [])" if "q = []"
      using fields_ok_later [of ps 1 1 q] False that by auto
    moreover have "fields_ok 0 1 (q # ps) \<longleftrightarrow> 2 \<le> 1 + length ps \<and> 1 + length ps \<le> 7 \<and> list_all hex_field (q # ps)
          \<and> length (filter (\<lambda>f. f = []) (butlast ps)) \<le> 1 \<and> (List.last ps = [] \<longrightarrow> List.last (butlast (q # ps)) = [])" if "q \<noteq> []"
      using fields_ok_later [of ps 1 0 q] False that by auto
    ultimately show ?thesis using fs False by (cases ps) (auto simp: ipv6_fields_def)
  qed (simp add: fs ipv6_fields_def)
qed (simp_all add: ipv6_fields_def)

text \<open>The forms of RFC 4291: eight fields, or fewer with one run of null fields left out.\<close>

definition full_ipv6 :: "byte list list \<Rightarrow> bool" where
  "full_ipv6 fs \<longleftrightarrow> length fs = 8 \<and> list_all (\<lambda>f. hex_field f \<and> f \<noteq> []) fs"

definition compressed_ipv6 :: "byte list list \<Rightarrow> bool" where
  "compressed_ipv6 fs \<longleftrightarrow> 3 \<le> length fs \<and> length fs \<le> 8 \<and> list_all hex_field fs
     \<and> length (filter (\<lambda>f. f = []) (butlast (tl fs))) = 1
     \<and> (hd fs = [] \<longrightarrow> hd (tl fs) = []) \<and> (List.last fs = [] \<longrightarrow> List.last (butlast fs) = [])"

lemma three_fields:
  assumes "3 \<le> length fs"
  obtains a m b where "fs = a # m @ [b]" "m \<noteq> []"
proof -
  obtain a xs where a: "fs = a # xs" using assms by (cases fs) auto
  then have "xs \<noteq> []" using assms by auto
  then obtain m b where "xs = m @ [b]" by (metis append_butlast_last_id)
  then show thesis using a assms that by (cases m) auto
qed

lemma ipv6_fields_forms:
  assumes "length fs = 8 \<or> [] \<in> set fs"
  shows "ipv6_fields fs \<longleftrightarrow> full_ipv6 fs \<or> compressed_ipv6 fs"
proof (cases "3 \<le> length fs")
  case False
  then show ?thesis by (simp add: ipv6_fields_def full_ipv6_def compressed_ipv6_def)
next
  case True
  then obtain a m b where m: "fs = a # m @ [b]" "m \<noteq> []" by (rule three_fields)
  have hl: "hd m \<in> set m" "List.last m \<in> set m" using m(2) by auto
  have simps: "butlast (tl fs) = m" "hd fs = a" "hd (tl fs) = hd m" "List.last fs = b" "List.last (butlast fs) = List.last m"
    using m by (simp_all add: butlast_append)
  show ?thesis
  proof (cases "[] \<in> set m")
    case True
    then have "0 < length (filter (\<lambda>f. f = []) m)" by (auto simp: filter_empty_conv)
    then have "length (filter (\<lambda>f. f = []) m) \<le> 1 \<longleftrightarrow> length (filter (\<lambda>f. f = []) m) = 1" by linarith
    moreover have "\<not> full_ipv6 fs" using True m by (auto simp: full_ipv6_def list_all_iff)
    ultimately show ?thesis unfolding ipv6_fields_def compressed_ipv6_def simps by blast
  next
    case False
    then have 0: "length (filter (\<lambda>f. f = []) m) = 0" by (auto simp: filter_empty_conv)
    have e: "[] \<in> set fs \<longleftrightarrow> a = [] \<or> b = []" using False m by auto
    have ab: "\<not> (a = [] \<longrightarrow> hd m = []) \<longleftrightarrow> a = []" "\<not> (b = [] \<longrightarrow> List.last m = []) \<longleftrightarrow> b = []" using False hl by auto
    have "full_ipv6 fs \<longleftrightarrow> length fs = 8 \<and> list_all hex_field fs \<and> [] \<notin> set fs" by (auto simp: full_ipv6_def list_all_iff)
    then show ?thesis using 0 e ab assms True by (auto simp: ipv6_fields_def compressed_ipv6_def simps)
  qed
qed

text \<open>
  C20: An IPv6 address of less than 128 bytes without port, zone and dots, which has eight fields or a null
  field, is accepted exactly if it has one of the forms that the comment of the code asks for: eight fields of
  one to four hexadecimal digits, or up to eight fields with one inner null field, of which the first and the
  last are null only next to that one. (An address of fewer fields without a null field is the subject of
  lemma ipv6_short.)
\<close>

theorem ipv6_spec:
  assumes "length addr < 128" "set addr \<inter> set (bytes_of ''|%.'') = {}"
    "length (split_on (ch CHR '':'') addr) = 8 \<or> [] \<in> set (split_on (ch CHR '':'') addr)"
  shows "acl_valid_ipv6_hostaddr addr = Inr () \<longleftrightarrow>
    full_ipv6 (split_on (ch CHR '':'') addr) \<or> compressed_ipv6 (split_on (ch CHR '':'') addr)"
proof -
  have "acl_valid_ipv6_hostaddr addr = ipv6_loop addr addr 0 0 0"
    using assms(1,2) by (simp add: acl_valid_ipv6_hostaddr_def acl_safe_strncpy_def acl_split_at_right_def)
  then show ?thesis using ipv6_loop_iff [of addr 0 0] fields_ok_all ipv6_fields_forms [OF assms(3)] assms(2) by simp
qed

theorem ipv6_spec_witness: "acl_valid_ipv6_hostaddr (bytes_of ''fe80::1'') = Inr () \<and> acl_valid_ipv6_hostaddr (bytes_of ''1::2::3'') \<noteq> Inr ()"
proof
  show "acl_valid_ipv6_hostaddr (bytes_of ''fe80::1'') = Inr ()"
    by (subst ipv6_spec) (simp_all add: compressed_ipv6_def hex_field_def is_xdigit_def is_digit_def)
  show "acl_valid_ipv6_hostaddr (bytes_of ''1::2::3'') \<noteq> Inr ()"
    by (subst ipv6_spec) (simp_all add: full_ipv6_def compressed_ipv6_def hex_field_def is_xdigit_def is_digit_def)
qed

subsection \<open>Hosts with ports\<close>

lemma not_isl_unit: "\<not> isl x \<longleftrightarrow> x = Inr ()"
  by (cases x) auto

lemma split_at_some: "acl_split_at s d = (h, Some p) \<Longrightarrow> s = h @ d # p \<and> d \<notin> set h"
proof -
  assume a: "acl_split_at s d = (h, Some p)"
  then have d: "d \<in> set s" "h = takeWhile (\<lambda>c. c \<noteq> d) s" "p = tl (dropWhile (\<lambda>c. c \<noteq> d) s)"
    by (auto simp: acl_split_at_def split: if_splits)
  have "dropWhile (\<lambda>c. c \<noteq> d) s \<noteq> []" using d(1) by (auto simp: dropWhile_eq_Nil_conv)
  then have "dropWhile (\<lambda>c. c \<noteq> d) s = d # p" using hd_dropWhile [of "\<lambda>c. c \<noteq> d" s] d(3) by (cases "dropWhile (\<lambda>c. c \<noteq> d) s") auto
  then have "s = h @ d # p" using takeWhile_dropWhile_id [of "\<lambda>c. c \<noteq> d" s] d(2) by simp
  moreover have "d \<notin> set h" using d(2) by (auto dest: set_takeWhileD)
  ultimately show ?thesis by blast
qed

lemma split_right_rev: "acl_split_at_right s d = (case acl_split_at (rev s) d of (p, Some h) \<Rightarrow> (rev h, Some (rev p)) | (_, None) \<Rightarrow> (s, None))"
  by (simp add: acl_split_at_right_def acl_split_at_def)

lemma split_right_some: "acl_split_at_right s d = (h, Some p) \<Longrightarrow> s = h @ d # p \<and> d \<notin> set p"
proof -
  assume a: "acl_split_at_right s d = (h, Some p)"
  obtain x y where e: "acl_split_at (rev s) d = (x, y)" by (cases "acl_split_at (rev s) d")
  then obtain z where y: "y = Some z" using a by (cases y) (auto simp: split_right_rev)
  then have "rev s = x @ d # z \<and> d \<notin> set x" "h = rev z" "p = rev x" using split_at_some e a by (auto simp: split_right_rev)
  then have "rev (rev s) = rev (x @ d # z)" by metis
  then have "s = rev z @ d # rev x" by simp
  then show ?thesis using \<open>h = rev z\<close> \<open>p = rev x\<close> \<open>rev s = x @ d # z \<and> d \<notin> set x\<close> by simp
qed

lemma split_right_eq: "d \<notin> set p \<Longrightarrow> acl_split_at_right (h @ d # p) d = (h, Some p)"
proof -
  assume d: "d \<notin> set p"
  have "takeWhile (\<lambda>c. c \<noteq> d) (rev p @ d # rev h) = rev p" using d by (subst takeWhile_append2) auto
  moreover have "dropWhile (\<lambda>c. c \<noteq> d) (rev p @ d # rev h) = d # rev h" using d by (subst dropWhile_append2) auto
  ultimately show ?thesis by (simp add: acl_split_at_right_def)
qed

lemma split_right_none: "d \<notin> set s \<Longrightarrow> acl_split_at_right s d = (s, None)"
  by (simp add: acl_split_at_right_def)

lemma split_at_eq: "d \<notin> set h \<Longrightarrow> acl_split_at (h @ d # p) d = (h, Some p)"
proof -
  assume d: "d \<notin> set h"
  have "takeWhile (\<lambda>c. c \<noteq> d) (h @ d # p) = h" using d by (subst takeWhile_append2) auto
  moreover have "dropWhile (\<lambda>c. c \<noteq> d) (h @ d # p) = d # p" using d by (subst dropWhile_append2) auto
  ultimately show ?thesis by (simp add: acl_split_at_def)
qed

text \<open>The forms of an address, with the host and the port that it gives.\<close>

definition or_empty :: "byte list option \<Rightarrow> byte list" where
  "or_empty x = (case x of None \<Rightarrow> [] | Some s \<Rightarrow> s)"

text \<open>
  The forms exclude each other: a number alone is a port; behind an opening bracket the host ends at the
  first closing one; else the last bar, or without a bar the last colon, divides host and port.
\<close>

definition divided :: "byte \<Rightarrow> byte list \<Rightarrow> byte list option \<Rightarrow> byte list option \<Rightarrow> bool" where
  "divided sep buf h p \<longleftrightarrow> sep \<notin> set (or_empty p) \<and> buf = or_empty h @ sep # or_empty p \<and> h \<noteq> Some [] \<and> p \<noteq> Some []"

definition addr_form :: "byte list \<Rightarrow> byte list option \<Rightarrow> byte list option \<Rightarrow> bool" where
  "addr_form buf h p \<longleftrightarrow>
    (if acl_alldig buf then h = None \<and> p = Some buf
     else if peek buf = ch CHR ''['' then p \<noteq> Some []
       \<and> (\<exists>x r. h = Some x \<and> ch CHR '']'' \<notin> set x \<and> buf = ch CHR ''['' # x @ ch CHR '']'' # r \<and> (r = [] \<and> p = None \<or> r = ch CHR '':'' # or_empty p))
     else if ch CHR ''|'' \<in> set buf then divided (ch CHR ''|'') buf h p
     else if ch CHR '':'' \<in> set buf then divided (ch CHR '':'') buf h p
     else p = None \<and> buf = or_empty h \<and> h \<noteq> Some [])"

lemma first_sep_unique: "a \<notin> set x \<Longrightarrow> a \<notin> set y \<Longrightarrow> x @ a # r = y @ a # t \<Longrightarrow> x = y \<and> r = t"
proof (induction x arbitrary: y)
  case Nil
  then show ?case by (cases y) auto
next
  case (Cons b x)
  then show ?case by (cases y) auto
qed

lemma or_empty_inj: "or_empty x = or_empty y \<Longrightarrow> x \<noteq> Some [] \<Longrightarrow> y \<noteq> Some [] \<Longrightarrow> x = y"
  by (auto simp: or_empty_def split: option.splits)

lemma divided_unique:
  assumes "divided sep buf h p" "divided sep buf h' p'"
  shows "h = h' \<and> p = p'"
proof -
  have "rev (or_empty p) @ sep # rev (or_empty h) = rev (or_empty p') @ sep # rev (or_empty h')"
    using assms unfolding divided_def by (metis append.assoc append_Cons append_Nil rev.simps(2) rev_append)
  moreover have "sep \<notin> set (rev (or_empty p))" "sep \<notin> set (rev (or_empty p'))" using assms by (simp_all add: divided_def)
  ultimately have "or_empty p = or_empty p' \<and> or_empty h = or_empty h'" using first_sep_unique rev_is_rev_conv by metis
  then show ?thesis using assms or_empty_inj by (metis divided_def)
qed

lemma addr_form_cases:
  assumes a: "addr_form buf h p" and b: "addr_form buf h' p'"
  obtains (port) "acl_alldig buf" | (bracket) "\<not> acl_alldig buf" "peek buf = ch CHR ''[''"
    | (div) sep where "divided sep buf h p" "divided sep buf h' p'"
    | (host) "p = None" "p' = None" "or_empty h = or_empty h'" "h \<noteq> Some []" "h' \<noteq> Some []"
proof (cases "acl_alldig buf \<or> peek buf = ch CHR ''[''")
  case False
  note ab = a [unfolded addr_form_def] b [unfolded addr_form_def]
  show thesis
  proof (cases "ch CHR ''|'' \<in> set buf")
    case True
    then show thesis using ab False by (intro div [of "ch CHR ''|''"]) simp_all
  next
    case n: False
    show thesis
    proof (cases "ch CHR '':'' \<in> set buf")
      case True
      then show thesis using ab False n by (intro div [of "ch CHR '':''"]) simp_all
    next
      case nc: False
      show thesis by (rule host) (use ab False n nc in simp_all)
    qed
  qed
qed (use port bracket in blast)

lemma bracket_form:
  assumes "addr_form buf h p" "\<not> acl_alldig buf" "peek buf = ch CHR ''[''"
  obtains x r where "h = Some x" "ch CHR '']'' \<notin> set x" "buf = ch CHR ''['' # x @ ch CHR '']'' # r"
    "r = [] \<and> p = None \<or> r = ch CHR '':'' # or_empty p" "p \<noteq> Some []"
  using assms by (auto simp: addr_form_def)

lemma addr_form_unique:
  assumes a: "addr_form buf h p" and b: "addr_form buf h' p'"
  shows "h = h' \<and> p = p'"
proof -
  consider (port) "acl_alldig buf" | (bracket) "\<not> acl_alldig buf" "peek buf = ch CHR ''[''"
    | (div) sep where "divided sep buf h p" "divided sep buf h' p'"
    | (host) "p = None" "p' = None" "or_empty h = or_empty h'" "h \<noteq> Some []" "h' \<noteq> Some []"
    by (rule addr_form_cases [OF a b])
  then show ?thesis
  proof cases
    case port
    then show ?thesis using a b by (simp add: addr_form_def)
  next
    case bracket
    obtain x r where x: "h = Some x" "ch CHR '']'' \<notin> set x" "buf = ch CHR ''['' # x @ ch CHR '']'' # r" "r = [] \<and> p = None \<or> r = ch CHR '':'' # or_empty p" "p \<noteq> Some []"
      by (rule bracket_form [OF a bracket])
    obtain y t where y: "h' = Some y" "ch CHR '']'' \<notin> set y" "buf = ch CHR ''['' # y @ ch CHR '']'' # t" "t = [] \<and> p' = None \<or> t = ch CHR '':'' # or_empty p'" "p' \<noteq> Some []"
      by (rule bracket_form [OF b bracket])
    have e: "x = y" "r = t" using first_sep_unique [OF x(2) y(2), of r t] x(3) y(3) by simp_all
    then have "p = p'" using x(4,5) y(4,5) or_empty_inj by (metis list.distinct(1) list.sel(3))
    then show ?thesis using e x(1) y(1) by simp
  next
    case div
    then show ?thesis by (rule divided_unique)
  next
    case host
    then show ?thesis using or_empty_inj by simp
  qed
qed

definition text_or :: "byte list option \<Rightarrow> byte list option \<Rightarrow> addr_part option" where
  "text_or x other = (case x of Some s \<Rightarrow> Some (Given s) | None \<Rightarrow> map_option Default other)"

definition not_empty :: "byte list \<Rightarrow> byte list option" where
  "not_empty s = (if s = [] then None else Some s)"

lemma given_text: "given s other = text_or (not_empty s) other" "or_empty (not_empty s) = s" "not_empty s \<noteq> Some []"
  by (simp_all add: given_def text_or_def not_empty_def or_empty_def)

lemma divided_given:
  assumes "acl_split_at_right buf sep = (h, Some cp)"
  shows "divided sep buf (not_empty h) (not_empty cp)"
  using split_right_some [OF assms] given_text(3) by (simp add: divided_def given_text(2))

lemma split_right_in: "snd (acl_split_at_right s d) \<noteq> None \<longleftrightarrow> d \<in> set s"
  by (auto simp: acl_split_at_right_def)

lemma parts_form:
  assumes "host_port_parts buf dh ds = Inr (host, port)"
  shows "\<exists>h p. addr_form buf h p \<and> p \<noteq> Some [] \<and> host = text_or h dh \<and> port = text_or p ds"
proof (cases "acl_alldig buf")
  case True
  then have "addr_form buf None (Some buf) \<and> host = text_or None dh \<and> port = text_or (Some buf) ds"
    using assms by (simp add: host_port_parts_def addr_form_def text_or_def)
  moreover have "buf \<noteq> []" using True by (simp add: acl_alldig_def)
  ultimately show ?thesis by blast
next
  case nd: False
  show ?thesis
  proof (cases "peek buf = ch CHR ''[''")
    case True
    then obtain b where b: "buf = ch CHR ''['' # b" by (cases buf) auto
    obtain h cp where c: "acl_split_at b (ch CHR '']'') = (h, Some cp)" "\<not> (cp \<noteq> [] \<and> hd cp \<noteq> ch CHR '':'')" "host = Some (Given h)" "port = given (tl cp) ds"
      using assms nd b by (auto simp: host_port_parts_def split: prod.splits option.splits if_splits)
    have f: "b = h @ ch CHR '']'' # cp" "ch CHR '']'' \<notin> set h" using split_at_some [OF c(1)] by blast+
    have "cp = [] \<and> not_empty (tl cp) = None \<or> cp = ch CHR '':'' # or_empty (not_empty (tl cp))"
      using c(2) by (cases cp) (auto simp: given_text(2), simp add: not_empty_def)
    then have "addr_form buf (Some h) (not_empty (tl cp))" using b f nd given_text(3) by (auto simp: addr_form_def)
    then show ?thesis using c(3,4) given_text(1,3) by (metis option.case(2) text_or_def)
  next
    case False
    consider (bar) h cp where "acl_split_at_right buf (ch CHR ''|'') = (h, Some cp)" "host = given h dh" "port = given cp ds"
      | (colon) h cp where "ch CHR ''|'' \<notin> set buf" "acl_split_at_right buf (ch CHR '':'') = (h, Some cp)" "host = given h dh" "port = given cp ds"
      | (none) "ch CHR ''|'' \<notin> set buf" "ch CHR '':'' \<notin> set buf" "host = given buf dh" "port = map_option Default ds"
      using assms nd False split_right_in [of buf "ch CHR ''|''"] split_right_in [of buf "ch CHR '':''"]
      by (auto simp: host_port_parts_def split: prod.splits option.splits if_splits)
    then show ?thesis
    proof cases
      case bar
      then have "addr_form buf (not_empty h) (not_empty cp)"
        using nd False divided_given [OF bar(1)] split_right_in [of buf "ch CHR ''|''"] by (simp add: addr_form_def)
      then show ?thesis using bar(2,3) given_text(1,3) by metis
    next
      case colon
      then have "addr_form buf (not_empty h) (not_empty cp)"
        using nd False divided_given [OF colon(2)] split_right_in [of buf "ch CHR '':''"] by (simp add: addr_form_def)
      then show ?thesis using colon(3,4) given_text(1,3) by metis
    next
      case none
      have "addr_form buf (not_empty buf) None" using none(1,2) nd False given_text(3) by (simp add: addr_form_def given_text(2))
      then show ?thesis using none(3,4) given_text(1,3) by (metis option.case(1) option.distinct(1) text_or_def)
    qed
  qed
qed

definition valid_host :: "byte list \<Rightarrow> bool" where
  "valid_host x \<longleftrightarrow> acl_valid_hostname x = Inr () \<or> acl_valid_hostaddr x = Inr ()"

text \<open>
  C16: What is refused and why: an opening bracket without a closing one, something other than a colon behind
  the closing one, neither a host nor a default, a host that is neither a name nor an address, a port that
  begins with a digit and is not a number, behind a good host. What is accepted has the form of an address
  (of which lemma addr_form_unique shows that it fixes host and port), with a valid host and a port that is
  not empty, where they are given, and the defaults where they are not. The cases exclude each other, so
  they say what the result is for every text.
\<close>

theorem host_port_errors: "case acl_host_port buf dh ds of
    Inl Missing_Bracket \<Rightarrow> peek buf = ch CHR ''['' \<and> ch CHR '']'' \<notin> set buf
  | Inl Garbage_Behind_Bracket \<Rightarrow> \<exists>h r. buf = ch CHR ''['' # h @ ch CHR '']'' # r \<and> ch CHR '']'' \<notin> set h \<and> r \<noteq> [] \<and> hd r \<noteq> ch CHR '':''
  | Inl Missing_Host \<Rightarrow> dh = None \<and> (\<exists>p. addr_form buf None p)
  | Inl Invalid_Host \<Rightarrow> \<exists>h p. addr_form buf (Some h) p \<and> \<not> valid_host h
  | Inl Garbage_Service \<Rightarrow> \<exists>h p. addr_form buf h (Some p) \<and> (case h of Some x \<Rightarrow> valid_host x | None \<Rightarrow> dh \<noteq> None) \<and> is_digit (hd p) \<and> \<not> list_all is_digit p
  | Inr (host, port) \<Rightarrow> \<exists>h p. addr_form buf h p
      \<and> Some host = text_or h dh \<and> (case h of Some x \<Rightarrow> valid_host x | None \<Rightarrow> True)
      \<and> port = text_or p ds \<and> (case p of Some x \<Rightarrow> x \<noteq> [] \<and> is_digit (hd x) = list_all is_digit x | None \<Rightarrow> True)"
proof (cases "host_port_parts buf dh ds")
  case (Inl e)
  then have nd: "\<not> acl_alldig buf" "peek buf = ch CHR ''[''" by (auto simp: host_port_parts_def split: if_splits prod.splits option.splits)
  then obtain b where b: "buf = ch CHR ''['' # b" by (cases buf) auto
  consider "e = Missing_Bracket" "ch CHR '']'' \<notin> set b" | h cp where "e = Garbage_Behind_Bracket" "acl_split_at b (ch CHR '']'') = (h, Some cp)" "cp \<noteq> []" "hd cp \<noteq> ch CHR '':''"
    using Inl nd b by (auto simp: host_port_parts_def acl_split_at_def split: if_splits)
  then show ?thesis
  proof cases
    case 1
    then show ?thesis using Inl b by (simp add: acl_host_port_def)
  next
    case 2
    then show ?thesis using Inl b split_at_some [OF 2(2)] by (auto simp: acl_host_port_def)
  qed
next
  case (Inr hp)
  obtain host port where hp: "hp = (host, port)" by (cases hp)
  obtain h p where f: "addr_form buf h p" "p \<noteq> Some []" "host = text_or h dh" "port = text_or p ds" using parts_form Inr hp by blast
  have port: "(case port of Some (Given x) \<Rightarrow> is_digit (peek x) \<and> \<not> acl_alldig x | _ \<Rightarrow> False) \<longleftrightarrow> (\<exists>x. p = Some x \<and> is_digit (hd x) \<and> \<not> list_all is_digit x)"
    using f(2,4) by (cases p; cases ds) (auto simp: text_or_def acl_alldig_def neq_Nil_conv)
  have port2: "case p of Some x \<Rightarrow> x \<noteq> [] \<and> is_digit (hd x) = list_all is_digit x | None \<Rightarrow> True" if "\<not> (\<exists>x. p = Some x \<and> is_digit (hd x) \<and> \<not> list_all is_digit x)"
    using that f(2) by (cases p) (auto simp: neq_Nil_conv)
  show ?thesis
  proof (cases host)
    case None
    then have "h = None" "dh = None" using f(3) by (auto simp: text_or_def split: option.splits)
    then show ?thesis using Inr hp None f(1) by (auto simp: acl_host_port_def)
  next
    case (Some ho)
    have bad: "(case ho of Given x \<Rightarrow> isl (acl_valid_hostname x) \<and> isl (acl_valid_hostaddr x) | Default _ \<Rightarrow> False) \<longleftrightarrow> (\<exists>x. h = Some x \<and> \<not> valid_host x)"
      using f(3) Some not_isl_unit by (cases h; cases dh) (auto simp: text_or_def valid_host_def)
    have valid: "case h of Some x \<Rightarrow> valid_host x | None \<Rightarrow> dh \<noteq> None" if "\<not> (\<exists>x. h = Some x \<and> \<not> valid_host x)"
      using that f(3) Some by (cases h; cases dh) (auto simp: text_or_def)
    then have valid2: "case h of Some x \<Rightarrow> valid_host x | None \<Rightarrow> True" if "\<not> (\<exists>x. h = Some x \<and> \<not> valid_host x)"
      using that by (cases h) auto
    have e: "acl_host_port buf dh ds = (if \<exists>x. h = Some x \<and> \<not> valid_host x then Inl Invalid_Host
        else if \<exists>x. p = Some x \<and> is_digit (hd x) \<and> \<not> list_all is_digit x then Inl Garbage_Service else Inr (ho, port))"
      unfolding acl_host_port_def Inr hp Some sum.case prod.case option.case bad port ..
    consider (host) x where "h = Some x" "\<not> valid_host x"
      | (port) x where "\<not> (\<exists>x. h = Some x \<and> \<not> valid_host x)" "p = Some x" "is_digit (hd x)" "\<not> list_all is_digit x"
      | (good) "\<not> (\<exists>x. h = Some x \<and> \<not> valid_host x)" "\<not> (\<exists>x. p = Some x \<and> is_digit (hd x) \<and> \<not> list_all is_digit x)" by blast
    then show ?thesis
    proof cases
      case host
      then show ?thesis using e f(1) by auto
    next
      case port
      then have "acl_host_port buf dh ds = Inl Garbage_Service" using e by auto
      then show ?thesis using port(2-4) f(1) valid [OF port(1)] by auto
    next
      case good
      then have "acl_host_port buf dh ds = Inr (ho, port)" using e by simp
      then show ?thesis using f(1,3,4) Some valid2 [OF good(1)] port2 [OF good(2)] by auto
    qed
  qed
qed

text \<open>
  C17: A valid host and a port come back from the three ways to write them together, whatever the defaults.
\<close>

theorem host_port_roundtrip:
  assumes "acl_valid_hostname h = Inr () \<or> acl_valid_hostaddr h = Inr ()" "set h \<inter> set (bytes_of ''[]|'') = {}" "acl_alldig p"
  shows "acl_host_port (h @ ch CHR ''|'' # p) dh ds = Inr (Given h, Some (Given p))
    \<and> acl_host_port (h @ ch CHR '':'' # p) dh ds = Inr (Given h, Some (Given p))
    \<and> acl_host_port (bytes_of ''['' @ h @ bytes_of '']:'' @ p) dh ds = Inr (Given h, Some (Given p))"
proof -
  have h: "h \<noteq> []" "93 \<notin> set h" "124 \<notin> set h" using assms(1,2) by (auto simp: acl_valid_hostname_def acl_valid_hostaddr_def)
  have p: "p \<noteq> []" "list_all is_digit p" "58 \<notin> set p" "124 \<notin> set p" using assms(3) by (auto simp: acl_alldig_def list_all_iff is_digit_def)
  have nd: "\<not> acl_alldig (h @ d # p)" if "\<not> is_digit d" for d using that by (simp add: acl_alldig_def)
  have d: "\<not> is_digit 124" "\<not> is_digit 58" "\<not> is_digit 91" by (simp_all add: is_digit_def)
  have pk: "peek (h @ x) \<noteq> 91" for x using h(1) assms(2) by (cases h) auto
  have v: "\<not> (isl (acl_valid_hostname h) \<and> isl (acl_valid_hostaddr h))" using assms(1) by auto
  have 1: "host_port_parts (h @ 124 # p) dh ds = Inr (Some (Given h), Some (Given p))"
    using h p nd [OF d(1)] pk split_right_eq [OF p(4), of h] by (simp add: host_port_parts_def given_def)
  have 2: "host_port_parts (h @ 58 # p) dh ds = Inr (Some (Given h), Some (Given p))"
    using h p nd [OF d(2)] pk split_right_eq [OF p(3), of h] split_right_none [of 124 "h @ 58 # p"] by (simp add: host_port_parts_def given_def)
  have 3: "host_port_parts (91 # h @ 93 # 58 # p) dh ds = Inr (Some (Given h), Some (Given p))"
    using h p d split_at_eq [OF h(2), of "58 # p"] by (simp add: host_port_parts_def given_def acl_alldig_def)
  show ?thesis using 1 2 3 v assms(3) by (simp add: acl_host_port_def)
qed

theorem host_port_roundtrip_witness: "acl_host_port (bytes_of ''::1'' @ ch CHR ''|'' # bytes_of ''80'') None None = Inr (Given (bytes_of ''::1''), Some (Given (bytes_of ''80'')))"
proof -
  have "acl_valid_ipv6_hostaddr (bytes_of ''::1'') = Inr ()" by (simp add: acl_valid_ipv6_hostaddr_def acl_safe_strncpy_def acl_split_at_right_def ipv6_loop.simps is_xdigit_def is_digit_def is_alnum_def is_alpha_def is_upper_def is_lower_def)
  then have "acl_valid_hostaddr (bytes_of ''::1'') = Inr ()" by (simp add: acl_valid_hostaddr_def split: sum.split)
  moreover have "acl_alldig (bytes_of ''80'')" by (simp add: acl_alldig_def is_digit_def)
  ultimately show ?thesis using host_port_roundtrip [of "bytes_of ''::1''" "bytes_of ''80''" None None] by simp
qed

subsection \<open>What the code does otherwise\<close>

text \<open>Without an empty field any number of fields from three on is accepted.\<close>

lemma ipv6_short: "acl_valid_ipv6_hostaddr (bytes_of ''1:2:3'') = Inr ()"
  by (simp add: acl_valid_ipv6_hostaddr_def acl_safe_strncpy_def acl_split_at_right_def ipv6_loop.simps is_xdigit_def is_digit_def is_alnum_def)

text \<open>The fields of an address are split at runs of dots.\<close>

lemma wildcard_dots: "acl_valid_hostaddr (bytes_of ''.1..2...3.4.'') = Inr ()"
  by code_simp

text \<open>A port beyond 32 bits is taken modulo \<open>2 ^ 32\<close>.\<close>

lemma port_wraps: "valid_port (bytes_of ''4294967376'')"
  by (simp add: valid_port_def acl_alldig_def is_digit_def atoi_def c_space_def dec_value_def Let_def)

text \<open>What lies behind the first 127 bytes is ignored.\<close>

lemma ipv4_truncates: "acl_valid_ipv4_hostaddr (replicate 120 48 @ bytes_of ''1.2.3.4xyz'') = Inr ()"
  by code_simp

end
