(* ===== verification/Acl_Vstring.thy ===== *)
theory Acl_Vstring
  imports Acl_Prelude
begin

text \<open>
  The growing strings of \<open>stdlib/acl_vstring.c\<close> and \<open>acl_vbuf.c\<close>: the bytes of the buffer, of which the ones in
  front of \<open>vs_ptr\<close> are the text. New memory is filled with an arbitrary byte, \<open>vs_fresh\<close>. Pools change
  only where the memory comes from; buffers in mapped files are left out. Where the code converts a length to
  \<open>int\<close>, so does the model, with \<open>int_of_size\<close>; a position in front of the buffer, to which every such operation
  writes the terminator next, a negative length of a buffer and \<open>acl_msg_panic\<close> are \<open>Fault\<close>.
\<close>

record acl_vstring =
  vs_data :: "byte list"
  vs_ptr :: nat
  vs_maxlen :: nat
  vs_fixed :: bool
  vs_eof :: bool
  vs_fresh :: byte

abbreviation vs_len :: "acl_vstring \<Rightarrow> nat" where
  "vs_len vp \<equiv> length (vs_data vp)"

definition vs_text :: "acl_vstring \<Rightarrow> byte list" where
  "vs_text vp = take (vs_ptr vp) (vs_data vp)"

text \<open>Writing into the buffer.\<close>

definition vs_poke :: "acl_vstring \<Rightarrow> nat \<Rightarrow> byte \<Rightarrow> acl_vstring cres" where
  "vs_poke vp i b = (if i < vs_len vp then Ret (vp\<lparr>vs_data := (vs_data vp)[i := b]\<rparr>) else Fault)"

definition vs_copy :: "acl_vstring \<Rightarrow> nat \<Rightarrow> byte list \<Rightarrow> acl_vstring cres" where
  "vs_copy vp i s = (if i + length s \<le> vs_len vp then Ret (vp\<lparr>vs_data := take i (vs_data vp) @ s @ drop (i + length s) (vs_data vp)\<rparr>) else Fault)"

subsection \<open>Room\<close>

text \<open>
  \<open>vstring_extend\<close> returns whether there is more room. Where the limit is reached it ends the text at the
  limit; the position is inside the buffer then, so the terminator needs no more room.
\<close>

definition vstring_extend :: "acl_vstring \<Rightarrow> nat \<Rightarrow> (acl_vstring \<times> bool) cres" where
  "vstring_extend vp incr =
    (if 0 < vs_maxlen vp \<and> vs_maxlen vp \<le> vs_ptr vp then
       map_cres (\<lambda>vp. (vp\<lparr>vs_eof := True\<rparr>, False)) (vs_poke (vp\<lparr>vs_ptr := vs_maxlen vp - 1\<rparr>) (vs_maxlen vp - 1) 0)
     else if vs_fixed vp then Ret (vp, False)
     else
       let new_len = vs_len vp + (if vs_len vp > incr then vs_len vp else incr);
           new_len = (if 0 < vs_maxlen vp \<and> vs_maxlen vp < new_len then vs_maxlen vp else new_len) in
       Ret (vp\<lparr>vs_data := take new_len (vs_data vp) @ replicate (new_len - vs_len vp) (vs_fresh vp)\<rparr>, True))"

definition acl_vstring_put_ready :: "acl_vstring \<Rightarrow> (acl_vstring \<times> bool) cres" where
  "acl_vstring_put_ready vp = vstring_extend vp 0"

text \<open>The bytes behind the text, which are fewer than none when the position lies behind the buffer.\<close>

definition vs_avail :: "acl_vstring \<Rightarrow> int" where
  "vs_avail vp = int (vs_len vp) - int (vs_ptr vp)"

definition acl_vstring_space :: "acl_vstring \<Rightarrow> int \<Rightarrow> (acl_vstring \<times> bool) cres" where
  "acl_vstring_space vp len = (if len < 0 then Fault
     else let need = len - vs_avail vp in if need > 0 then vstring_extend vp (nat need) else Ret (vp, True))"

text \<open>\<open>ACL_VSTRING_AT_OFFSET\<close>.\<close>

definition vs_at_offset :: "acl_vstring \<Rightarrow> int \<Rightarrow> acl_vstring cres" where
  "vs_at_offset vp offset = (if offset < 0 then Fault else Ret (vp\<lparr>vs_ptr := nat offset\<rparr>))"

text \<open>How much of \<open>len\<close> bytes is copied; \<open>avail\<close> is compared as an unsigned number.\<close>

definition fitting :: "acl_vstring \<Rightarrow> nat \<Rightarrow> nat" where
  "fitting vp len = (let n = vs_avail vp in if n < 0 \<or> int len \<le> n then len else nat n)"

definition vs_terminate :: "acl_vstring \<Rightarrow> acl_vstring cres" where
  "vs_terminate vp = (if vs_ptr vp < vs_len vp then vs_poke vp (vs_ptr vp) 0
     else cbind (acl_vstring_space vp 1) (\<lambda>(vp, _). vs_poke vp (vs_ptr vp) 0))"

definition vs_reset :: "acl_vstring \<Rightarrow> acl_vstring" where
  "vs_reset vp = vp\<lparr>vs_ptr := 0, vs_eof := False\<rparr>"

text \<open>\<open>ACL_VBUF_PUT\<close>: the result is false where the code returns \<open>ACL_VBUF_EOF\<close>.\<close>

definition vbuf_store :: "acl_vstring \<Rightarrow> byte \<Rightarrow> (acl_vstring \<times> bool) cres" where
  "vbuf_store vp c = map_cres (\<lambda>vp. (vp\<lparr>vs_ptr := vs_ptr vp + 1\<rparr>, True)) (vs_poke vp (vs_ptr vp) c)"

definition acl_vbuf_put :: "acl_vstring \<Rightarrow> byte \<Rightarrow> (acl_vstring \<times> bool) cres" where
  "acl_vbuf_put vp c = cbind (acl_vstring_put_ready vp) (\<lambda>(vp, ok). if \<not> ok then Ret (vp, False) else vbuf_store vp c)"

definition vs_addch :: "acl_vstring \<Rightarrow> byte \<Rightarrow> (acl_vstring \<times> bool) cres" where
  "vs_addch vp c = (if vs_ptr vp < vs_len vp then vbuf_store vp c else acl_vbuf_put vp c)"

text \<open>
  \<open>acl_vbuf_write\<close>: the number of bytes written, or \<open>None\<close> when the fuel is used up.
\<close>

fun acl_vbuf_write :: "nat \<Rightarrow> acl_vstring \<Rightarrow> byte list \<Rightarrow> nat \<Rightarrow> (acl_vstring \<times> nat) option cres" where
  "acl_vbuf_write fuel vp [] written = Ret (Some (vp, written))"
| "acl_vbuf_write 0 vp (c # cp) written = Ret None"
| "acl_vbuf_write (Suc fuel) vp (c # cp) written =
    cbind (if vs_len vp \<le> vs_ptr vp then acl_vstring_put_ready vp else Ret (vp, True)) (\<lambda>(vp, ok).
      if \<not> ok then Ret (Some (vp, written))
      else let n = min (length (c # cp)) (vs_ptr vp) in
        cbind (vs_copy vp (vs_ptr vp) (take n (c # cp))) (\<lambda>vp.
          acl_vbuf_write fuel (vp\<lparr>vs_ptr := vs_ptr vp + n\<rparr>) (drop n (c # cp)) (written + n)))"

subsection \<open>Creation\<close>

definition vs_new :: "byte \<Rightarrow> nat \<Rightarrow> acl_vstring cres" where
  "vs_new fresh len = (if int_of_size len < 0 then Fault
     else Ret \<lparr>vs_data = take (nat (int_of_size len)) (0 # replicate (len - 1) fresh), vs_ptr = 0, vs_maxlen = 0,
       vs_fixed = False, vs_eof = False, vs_fresh = fresh\<rparr>)"

definition acl_vstring_alloc :: "byte \<Rightarrow> nat \<Rightarrow> acl_vstring cres" where
  "acl_vstring_alloc fresh len = vs_new fresh (if len < 1 then 64 else len)"

definition acl_vstring_init :: "byte \<Rightarrow> nat \<Rightarrow> acl_vstring cres" where
  "acl_vstring_init fresh len = (if len < 1 then Fault else vs_new fresh len)"

definition acl_vstring_ctl :: "acl_vstring \<Rightarrow> int \<Rightarrow> acl_vstring cres" where
  "acl_vstring_ctl vp maxlen = (if maxlen < 0 then Fault else Ret (vp\<lparr>vs_maxlen := nat maxlen\<rparr>))"

definition acl_vstring_import :: "byte \<Rightarrow> byte list \<Rightarrow> acl_vstring cres" where
  "acl_vstring_import fresh str = (let len = int_of_size (length str) in
     if len + 1 > INT_MAX \<or> len + 1 < 0 then Fault
     else vs_at_offset \<lparr>vs_data = take (nat (len + 1)) (str @ [0]), vs_ptr = 0, vs_maxlen = 0, vs_fixed = False, vs_eof = False, vs_fresh = fresh\<rparr> len)"

text \<open>What is left of the object is the array with its terminator.\<close>

definition acl_vstring_export :: "acl_vstring \<Rightarrow> byte list" where
  "acl_vstring_export vp = vs_data vp"

subsection \<open>Copying\<close>

definition acl_vstring_truncate :: "acl_vstring \<Rightarrow> nat \<Rightarrow> acl_vstring cres" where
  "acl_vstring_truncate vp len = (if len < vs_ptr vp then cbind (vs_at_offset vp (int_of_size len)) vs_terminate else Ret vp)"

definition acl_vstring_memcpy :: "acl_vstring \<Rightarrow> byte list \<Rightarrow> acl_vstring cres" where
  "acl_vstring_memcpy vp src = (let vp = vs_reset vp in
     cbind (if src = [] then Ret vp
       else cbind (acl_vstring_space vp (int (length src))) (\<lambda>(vp, _).
         let n = fitting vp (length src) in
         if 0 < n then map_cres (\<lambda>vp. vp\<lparr>vs_ptr := n\<rparr>) (vs_copy vp 0 (take n src)) else Ret vp))
     vs_terminate)"

definition acl_vstring_memcat :: "acl_vstring \<Rightarrow> byte list \<Rightarrow> acl_vstring cres" where
  "acl_vstring_memcat vp src =
     cbind (if src = [] then Ret vp
       else cbind (acl_vstring_space vp (int (length src))) (\<lambda>(vp, _).
         let n = fitting vp (length src) in
         if 0 < n then map_cres (\<lambda>vp. vp\<lparr>vs_ptr := vs_ptr vp + n\<rparr>) (vs_copy vp (vs_ptr vp) (take n src)) else Ret vp))
     vs_terminate"

definition acl_vstring_strcpy :: "acl_vstring \<Rightarrow> byte list \<Rightarrow> acl_vstring cres" where
  "acl_vstring_strcpy vp src = acl_vstring_memcpy vp src"

definition acl_vstring_strncpy :: "acl_vstring \<Rightarrow> byte list \<Rightarrow> nat \<Rightarrow> acl_vstring cres" where
  "acl_vstring_strncpy vp src len = acl_vstring_memcpy vp (take len src)"

definition acl_vstring_strcat :: "acl_vstring \<Rightarrow> byte list \<Rightarrow> acl_vstring cres" where
  "acl_vstring_strcat vp src = acl_vstring_memcat vp src"

definition acl_vstring_strncat :: "acl_vstring \<Rightarrow> byte list \<Rightarrow> nat \<Rightarrow> acl_vstring cres" where
  "acl_vstring_strncat vp src len = acl_vstring_memcat vp (take len src)"

text \<open>The source of \<open>acl_vstring_memmove\<close> lies in the buffer itself, or elsewhere.\<close>

datatype vs_source = Inside nat nat | Outside "byte list"

fun acl_vstring_memmove :: "acl_vstring \<Rightarrow> vs_source \<Rightarrow> acl_vstring cres" where
  "acl_vstring_memmove vp (Inside off len) =
    (if len = 0 then Ret vp
     else if off + len \<le> vs_len vp then cbind (vs_copy vp 0 (take len (drop off (vs_data vp)))) (\<lambda>vp. cbind (vs_at_offset vp (int_of_size len)) vs_terminate)
     else Fault)"
| "acl_vstring_memmove vp (Outside src) =
    (if src = [] then Ret vp else vs_terminate (vp\<lparr>vs_data := src, vs_ptr := length src\<rparr>))"

text \<open>The gap for the new text is made and filled, and the position is set to \<open>offset\<close>.\<close>

definition vs_open_gap :: "acl_vstring \<Rightarrow> nat \<Rightarrow> byte list \<Rightarrow> int \<Rightarrow> acl_vstring cres" where
  "vs_open_gap vp start buf offset = (let len = fitting vp (length buf) in
     if 0 < len then
       if vs_ptr vp < start then Fault
       else cbind (vs_copy vp (start + len) (take (vs_ptr vp - start) (drop start (vs_data vp)))) (\<lambda>vp.
         cbind (vs_copy vp start (take len buf)) (\<lambda>vp. cbind (vs_at_offset vp offset) vs_terminate))
     else Ret vp)"

definition acl_vstring_insert :: "acl_vstring \<Rightarrow> nat \<Rightarrow> byte list \<Rightarrow> acl_vstring cres" where
  "acl_vstring_insert vp start buf =
    (if vs_ptr vp \<le> start then Fault
     else let new_len = vs_ptr vp + length buf in
       cbind (acl_vstring_space vp (int (length buf))) (\<lambda>(vp, _). vs_open_gap vp start buf (int_of_size new_len)))"

definition acl_vstring_prepend :: "acl_vstring \<Rightarrow> byte list \<Rightarrow> acl_vstring cres" where
  "acl_vstring_prepend vp buf = (let new_len = vs_ptr vp + length buf in
     cbind (acl_vstring_space vp (int_of_size (length buf))) (\<lambda>(vp, _). vs_open_gap vp 0 buf (int new_len)))"

subsection \<open>Searching\<close>

definition acl_vstring_charat :: "acl_vstring \<Rightarrow> nat \<Rightarrow> byte cres" where
  "acl_vstring_charat vp offset = (if vs_ptr vp \<le> offset then Fault else tab_at (vs_data vp) offset)"

fun memchr_loop :: "byte \<Rightarrow> nat \<Rightarrow> byte list \<Rightarrow> nat option" where
  "memchr_loop c i [] = None"
| "memchr_loop c i (b # s) = (if b = c then Some i else memchr_loop c (i + 1) s)"

definition acl_vstring_memchr :: "acl_vstring \<Rightarrow> byte \<Rightarrow> nat option" where
  "acl_vstring_memchr vp c = memchr_loop c 0 (vs_text vp)"

text \<open>
  The loop of the four searches: what is still to be matched, if anything has been, the position where the
  match began, and the current one. The result is both positions at the end of a match.
\<close>

fun search_text :: "(byte \<Rightarrow> byte \<Rightarrow> bool) \<Rightarrow> byte list \<Rightarrow> byte list \<Rightarrow> nat \<Rightarrow> nat \<Rightarrow> byte list \<Rightarrow> (nat \<times> nat) option" where
  "search_text eq needle np startn i [] = None"
| "search_text eq needle np startn i (c # s) =
    (if np \<noteq> [] \<and> eq c (hd np) then
       if tl np = [] then Some (startn, i) else search_text eq needle (tl np) startn (i + 1) s
     else if eq c (hd needle) then
       if tl needle = [] then Some (i, i) else search_text eq needle (tl needle) i (i + 1) s
     else search_text eq needle [] startn (i + 1) s)"

definition acl_vstring_strstr :: "acl_vstring \<Rightarrow> byte list \<Rightarrow> nat option" where
  "acl_vstring_strstr vp needle = (if needle = [] then None else map_option fst (search_text (=) needle [] 0 0 (vs_text vp)))"

definition acl_vstring_strcasestr :: "acl_vstring \<Rightarrow> byte list \<Rightarrow> nat option" where
  "acl_vstring_strcasestr vp needle = (if needle = [] then None
     else map_option fst (search_text (\<lambda>c d. to_lower c = to_lower d) needle [] 0 0 (vs_text vp)))"

text \<open>The searches from the end run through the text and the needle backwards.\<close>

definition acl_vstring_rstrstr :: "acl_vstring \<Rightarrow> byte list \<Rightarrow> nat option" where
  "acl_vstring_rstrstr vp needle = (if needle = [] then None
     else map_option (\<lambda>(_, i). vs_ptr vp - 1 - i) (search_text (=) (rev needle) [] 0 0 (rev (vs_text vp))))"

definition acl_vstring_rstrcasestr :: "acl_vstring \<Rightarrow> byte list \<Rightarrow> nat option" where
  "acl_vstring_rstrcasestr vp needle = (if needle = [] then None
     else map_option (\<lambda>(_, i). vs_ptr vp - 1 - i) (search_text (\<lambda>c d. c = to_lower d) (rev needle) [] 0 0 (rev (vs_text vp))))"

subsection \<open>Lines\<close>

text \<open>
  The next line of a chunk of data is appended to the buffer: the rest of the data, and whether the line is
  complete.
\<close>

definition acl_buffer_gets_nonl :: "acl_vstring \<Rightarrow> byte list \<Rightarrow> (acl_vstring \<times> byte list \<times> bool) cres" where
  "acl_buffer_gets_nonl vp src =
    (if src = [] then Ret (vp, src, False)
     else if 10 \<notin> set src then cbind (acl_vstring_memcat vp src) (\<lambda>vp. map_cres (\<lambda>vp. (vp, [], False)) (vs_terminate vp))
     else let line = rev (dropWhile (\<lambda>c. c = 13 \<or> c = 10) (rev (takeWhile (\<lambda>c. c \<noteq> 10) src))); rest = tl (dropWhile (\<lambda>c. c \<noteq> 10) src) in
       cbind (if line = [] then Ret vp else acl_vstring_memcat vp line) (\<lambda>vp. map_cres (\<lambda>vp. (vp, rest, True)) (vs_terminate vp)))"

definition acl_buffer_gets :: "acl_vstring \<Rightarrow> byte list \<Rightarrow> (acl_vstring \<times> byte list \<times> bool) cres" where
  "acl_buffer_gets vp src =
    (if src = [] then Ret (vp, src, False)
     else if 10 \<notin> set src then cbind (acl_vstring_memcat vp src) (\<lambda>vp. map_cres (\<lambda>vp. (vp, [], False)) (vs_terminate vp))
     else cbind (acl_vstring_memcat vp (takeWhile (\<lambda>c. c \<noteq> 10) src @ [10])) (\<lambda>vp.
       map_cres (\<lambda>vp. (vp, tl (dropWhile (\<lambda>c. c \<noteq> 10) src), True)) (vs_terminate vp)))"

end
