(* ===== verification/Vstring_Props.thy ===== *)
theory Vstring_Props
  imports Acl_Vstring "HOL-Library.Sublist"
begin

text \<open>What the operations do to the text of a string, with and without a limit, and what the searches find.\<close>

subsection \<open>Room and terminator\<close>

definition vs_wf :: "acl_vstring \<Rightarrow> bool" where
  "vs_wf vp \<longleftrightarrow> vs_ptr vp \<le> vs_len vp \<and> 0 < vs_len vp \<and> \<not> vs_fixed vp \<and> (0 < vs_maxlen vp \<longrightarrow> vs_len vp \<le> vs_maxlen vp)"

text \<open>A text that reaches the limit is cut in front of it.\<close>

definition clip :: "nat \<Rightarrow> byte list \<Rightarrow> byte list" where
  "clip m s = (if m = 0 \<or> length s < m then s else take (m - 1) s)"

lemma length_vs_text: "vs_wf vp \<Longrightarrow> length (vs_text vp) = vs_ptr vp"
  by (simp add: vs_wf_def vs_text_def)

lemma clip_idem [simp]: "clip m (clip m s) = clip m s"
  by (auto simp: clip_def)

text \<open>What \<open>acl_vstring_space\<close> leaves: the text, cut if it filled the buffer up to the limit, and the room.\<close>

lemma space_ok:
  assumes wf: "vs_wf vp"
  obtains vp' ok where "acl_vstring_space vp (int n) = Ret (vp', ok)" "vs_wf vp'" "vs_maxlen vp' = vs_maxlen vp"
    "vs_ptr vp + n \<le> vs_len vp' \<or> 0 < vs_maxlen vp \<and> vs_len vp' = vs_maxlen vp"
    "vs_ptr vp < vs_maxlen vp \<or> vs_maxlen vp = 0 \<or> n = 0 \<longrightarrow> vs_text vp' = vs_text vp \<and> vs_ptr vp' = vs_ptr vp"
    "vs_ptr vp = vs_maxlen vp \<and> 0 < vs_maxlen vp \<and> 0 < n \<longrightarrow> vs_text vp' = take (vs_maxlen vp - 1) (vs_text vp) \<and> vs_ptr vp' = vs_maxlen vp - 1"
proof (cases "vs_ptr vp + n \<le> vs_len vp")
  case True
  then have "acl_vstring_space vp (int n) = Ret (vp, True)" by (simp add: acl_vstring_space_def vs_avail_def Let_def)
  moreover have "\<not> (vs_ptr vp = vs_maxlen vp \<and> 0 < vs_maxlen vp \<and> 0 < n)" using True wf by (auto simp: vs_wf_def)
  ultimately show thesis using that wf True by blast
next
  case False
  let ?need = "vs_ptr vp + n - vs_len vp"
  have need: "int n - vs_avail vp > 0" "nat (int n - vs_avail vp) = ?need" using False by (simp_all add: vs_avail_def)
  then have sp: "acl_vstring_space vp (int n) = vstring_extend vp ?need" by (simp add: acl_vstring_space_def Let_def)
  have p: "vs_ptr vp \<le> vs_len vp" "0 < vs_len vp" "\<not> vs_fixed vp" and m: "0 < vs_maxlen vp \<Longrightarrow> vs_len vp \<le> vs_maxlen vp"
    using wf by (auto simp: vs_wf_def)
  show thesis
  proof (cases "0 < vs_maxlen vp \<and> vs_maxlen vp \<le> vs_ptr vp")
    case True
    then have e: "vs_ptr vp = vs_maxlen vp" "vs_len vp = vs_maxlen vp" using p m by linarith+
    define vp' where "vp' = vp\<lparr>vs_ptr := vs_maxlen vp - 1, vs_data := (vs_data vp)[vs_maxlen vp - 1 := 0], vs_eof := True\<rparr>"
    have "vstring_extend vp ?need = Ret (vp', False)" using True e by (simp add: vstring_extend_def vs_poke_def vp'_def)
    moreover have "vs_wf vp'" using p True e by (simp add: vs_wf_def vp'_def)
    moreover have "vs_text vp' = take (vs_maxlen vp - 1) (vs_text vp)" using e by (simp add: vs_text_def vp'_def)
    ultimately show thesis using that [of vp' False] sp True e False by (simp add: vp'_def)
  next
    case below: False
    define k where "k = vs_len vp + (if vs_len vp > ?need then vs_len vp else ?need)"
    define k' where "k' = (if 0 < vs_maxlen vp \<and> vs_maxlen vp < k then vs_maxlen vp else k)"
    define vp' where "vp' = vp\<lparr>vs_data := take k' (vs_data vp) @ replicate (k' - vs_len vp) (vs_fresh vp)\<rparr>"
    have e: "vstring_extend vp ?need = Ret (vp', True)" using below p(3) by (auto simp: vstring_extend_def Let_def k_def k'_def vp'_def)
    have k: "vs_ptr vp + n \<le> k" "vs_len vp \<le> k'" using p False m by (auto simp: k_def k'_def)
    have l: "vs_len vp' = k'" using k by (simp add: vp'_def)
    have t: "vs_text vp' = vs_text vp" "vs_ptr vp' = vs_ptr vp" using k p by (simp_all add: vs_text_def vp'_def)
    have "0 < k'" using k(2) p(2) by linarith
    then have "vs_wf vp'" using l k p by (auto simp: vs_wf_def vp'_def k'_def)
    moreover have "vs_ptr vp + n \<le> vs_len vp' \<or> 0 < vs_maxlen vp \<and> vs_len vp' = vs_maxlen vp" using k l by (simp add: k'_def)
    moreover have "vs_maxlen vp' = vs_maxlen vp" by (simp add: vp'_def)
    moreover have "\<not> (vs_ptr vp = vs_maxlen vp \<and> 0 < vs_maxlen vp)" using below by auto
    ultimately show thesis using that [of vp' True] trans [OF sp e] t by blast
  qed
qed

definition vs_ended :: "acl_vstring \<Rightarrow> bool" where
  "vs_ended vp \<longleftrightarrow> vs_ptr vp < vs_len vp \<and> vs_data vp ! vs_ptr vp = 0"

lemma terminate_ok:
  assumes wf: "vs_wf vp"
  obtains vp' where "vs_terminate vp = Ret vp'" "vs_wf vp'" "vs_maxlen vp' = vs_maxlen vp" "vs_text vp' = clip (vs_maxlen vp) (vs_text vp)" "vs_ended vp'"
proof -
  have poke: "\<exists>vp'. vs_poke v (vs_ptr v) 0 = Ret vp' \<and> vs_wf vp' \<and> vs_maxlen vp' = vs_maxlen v \<and> vs_text vp' = vs_text v \<and> vs_ended vp'"
    if "vs_wf v" "vs_ptr v < vs_len v" for v
    using that by (auto simp: vs_poke_def vs_wf_def vs_text_def vs_ended_def)
  show thesis
  proof (cases "vs_ptr vp < vs_len vp")
    case True
    obtain vp' where v: "vs_poke vp (vs_ptr vp) 0 = Ret vp'" "vs_wf vp'" "vs_maxlen vp' = vs_maxlen vp" "vs_text vp' = vs_text vp" "vs_ended vp'"
      using poke [OF wf True] by blast
    have "clip (vs_maxlen vp) (vs_text vp) = vs_text vp" using True wf by (auto simp: clip_def length_vs_text vs_wf_def)
    then show thesis using that [of vp'] v True by (simp add: vs_terminate_def)
  next
    case False
    obtain v ok where v: "acl_vstring_space vp 1 = Ret (v, ok)" "vs_wf v" "vs_maxlen v = vs_maxlen vp"
      "vs_ptr vp + 1 \<le> vs_len v \<or> 0 < vs_maxlen vp \<and> vs_len v = vs_maxlen vp"
      "vs_ptr vp < vs_maxlen vp \<or> vs_maxlen vp = 0 \<longrightarrow> vs_text v = vs_text vp \<and> vs_ptr v = vs_ptr vp"
      "vs_ptr vp = vs_maxlen vp \<and> 0 < vs_maxlen vp \<longrightarrow> vs_text v = take (vs_maxlen vp - 1) (vs_text vp) \<and> vs_ptr v = vs_maxlen vp - 1"
      by (rule space_ok [OF wf, of 1]) (rule that; simp)
    have le: "vs_ptr vp \<le> vs_maxlen vp" if "0 < vs_maxlen vp" using that wf by (auto simp: vs_wf_def)
    have "vs_text v = clip (vs_maxlen vp) (vs_text vp) \<and> vs_ptr v < vs_len v"
    proof (cases "vs_ptr vp < vs_maxlen vp \<or> vs_maxlen vp = 0")
      case True
      then have "vs_text v = vs_text vp" "vs_ptr v = vs_ptr vp" using v(5) by simp_all
      then show ?thesis using True v(4) by (auto simp: clip_def length_vs_text [OF wf])
    next
      case False
      then have "vs_ptr vp = vs_maxlen vp" "0 < vs_maxlen vp" using le by auto
      then show ?thesis using v(4,6) by (auto simp: clip_def length_vs_text [OF wf])
    qed
    then show thesis using poke [OF v(2)] that v(1,3) False by (auto simp: vs_terminate_def)
  qed
qed

text \<open>Behind the buffer, where an insertion that was cut leaves the position.\<close>

lemma terminate_behind:
  assumes "0 < vs_maxlen vp" "vs_len vp = vs_maxlen vp" "vs_maxlen vp \<le> vs_ptr vp" "\<not> vs_fixed vp"
  obtains vp' where "vs_terminate vp = Ret vp'" "vs_wf vp'" "vs_maxlen vp' = vs_maxlen vp" "vs_text vp' = take (vs_maxlen vp - 1) (vs_data vp)" "vs_ended vp'"
proof -
  define vp' where "vp' = vp\<lparr>vs_ptr := vs_maxlen vp - 1, vs_data := (vs_data vp)[vs_maxlen vp - 1 := 0], vs_eof := True\<rparr>"
  have "int 1 - vs_avail vp > 0" using assms by (simp add: vs_avail_def)
  then have "acl_vstring_space vp 1 = Ret (vp', False)"
    using assms by (simp add: acl_vstring_space_def vstring_extend_def vs_poke_def vp'_def Let_def)
  moreover have "vs_poke vp' (vs_ptr vp') 0 = Ret vp'" using assms by (simp add: vs_poke_def vp'_def)
  ultimately have "vs_terminate vp = Ret vp'" using assms by (simp add: vs_terminate_def)
  then show thesis using that [of vp'] assms by (simp add: vp'_def vs_wf_def vs_text_def vs_ended_def)
qed

subsection \<open>Histories\<close>

datatype vs_op = Vs_Memcpy "byte list" | Vs_Memcat "byte list" | Vs_Addch byte | Vs_Terminate | Vs_Reset
  | Vs_Truncate nat | Vs_Insert nat "byte list" | Vs_Prepend "byte list"

fun vs_step :: "acl_vstring \<Rightarrow> vs_op \<Rightarrow> acl_vstring cres" where
  "vs_step vp (Vs_Memcpy s) = acl_vstring_memcpy vp s"
| "vs_step vp (Vs_Memcat s) = acl_vstring_memcat vp s"
| "vs_step vp (Vs_Addch c) = map_cres fst (vs_addch vp c)"
| "vs_step vp Vs_Terminate = vs_terminate vp"
| "vs_step vp Vs_Reset = Ret (vs_reset vp)"
| "vs_step vp (Vs_Truncate n) = acl_vstring_truncate vp n"
| "vs_step vp (Vs_Insert i s) = acl_vstring_insert vp i s"
| "vs_step vp (Vs_Prepend s) = acl_vstring_prepend vp s"

fun vs_run :: "acl_vstring \<Rightarrow> vs_op list \<Rightarrow> acl_vstring cres" where
  "vs_run vp [] = Ret vp"
| "vs_run vp (x # xs) = cbind (vs_step vp x) (\<lambda>vp. vs_run vp xs)"

text \<open>
  The same on texts with a limit, zero for none. An insertion that does not fit is cut, but not the text
  behind it; a character that does not fit costs the one in front of it.
\<close>

definition insert_text :: "nat \<Rightarrow> byte list \<Rightarrow> nat \<Rightarrow> byte list \<Rightarrow> byte list" where
  "insert_text m t i s = (if s = [] then t
     else if m = 0 \<or> length t + length s < m then take i t @ s @ drop i t
     else take (m - 1) (take i t @ take (max 1 (m - length t)) s @ drop i t))"

fun text_step :: "nat \<Rightarrow> byte list \<Rightarrow> vs_op \<Rightarrow> byte list option" where
  "text_step m t (Vs_Memcpy s) = Some (clip m s)"
| "text_step m t (Vs_Memcat s) = Some (clip m (t @ s))"
| "text_step m t (Vs_Addch c) = Some (if 0 < m \<and> m \<le> length t then take (m - 1) t else t @ [c])"
| "text_step m t Vs_Terminate = Some (clip m t)"
| "text_step m t Vs_Reset = Some []"
| "text_step m t (Vs_Truncate n) = Some (take n t)"
| "text_step m t (Vs_Insert i s) = (if i < length t then Some (insert_text m t i s) else None)"
| "text_step m t (Vs_Prepend s) = Some (insert_text m t 0 s)"

text \<open>The bytes that a history brings in.\<close>

fun op_size :: "vs_op \<Rightarrow> nat" where
  "op_size (Vs_Memcpy s) = length s"
| "op_size (Vs_Memcat s) = length s"
| "op_size (Vs_Addch c) = 1"
| "op_size (Vs_Insert i s) = length s"
| "op_size (Vs_Prepend s) = length s"
| "op_size _ = 0"

definition ops_size :: "vs_op list \<Rightarrow> nat" where
  "ops_size ops = sum_list (map op_size ops)"

lemma insert_text_length:
  assumes i: "i \<le> length t"
  shows "length (insert_text m t i s) \<le> length t + length s"
proof -
  consider (none) "s = []" | (fits) "s \<noteq> []" "m = 0 \<or> length t + length s < m"
    | (cut) "s \<noteq> []" "\<not> (m = 0 \<or> length t + length s < m)" by blast
  then show ?thesis
  proof cases
    case cut
    have e: "insert_text m t i s = take (m - 1) (take i t @ take (max 1 (m - length t)) s @ drop i t)"
      unfolding insert_text_def using cut by (simp only: if_False)
    have "length (take i t @ take n s @ drop i t) \<le> length t + length s" for n using i by (simp add: min_def)
    then show ?thesis unfolding e by (metis length_take min.coboundedI1 min.commute)
  qed (use i in \<open>simp_all add: insert_text_def\<close>)
qed

lemma text_step_length: "text_step m t x = Some t' \<Longrightarrow> length t' \<le> length t + op_size x"
  using insert_text_length [of _ t m] by (cases x) (auto simp: clip_def split: if_splits)

fun text_run :: "nat \<Rightarrow> byte list \<Rightarrow> vs_op list \<Rightarrow> byte list option" where
  "text_run m t [] = Some t"
| "text_run m t (x # xs) = (case text_step m t x of None \<Rightarrow> None | Some t \<Rightarrow> text_run m t xs)"

text \<open>A step ends in a well-formed string with the given text.\<close>

definition gives :: "nat \<Rightarrow> byte list \<Rightarrow> acl_vstring cres \<Rightarrow> bool" where
  "gives m t r \<longleftrightarrow> (\<exists>vp. r = Ret vp \<and> vs_wf vp \<and> vs_maxlen vp = m \<and> vs_text vp = t)"

lemma gives_terminate: "gives m t r \<Longrightarrow> gives m (clip m t) (cbind r vs_terminate)"
  unfolding gives_def by (metis terminate_ok cbind.simps(2))

lemma reset_wf: "vs_wf vp \<Longrightarrow> vs_wf (vs_reset vp)" "vs_text (vs_reset vp) = []" "vs_maxlen (vs_reset vp) = vs_maxlen vp" "vs_ptr (vs_reset vp) = 0"
  by (simp_all add: vs_wf_def vs_reset_def vs_text_def)

text \<open>Appending what fits: all of it, or up to the limit.\<close>

lemma append_ok:
  assumes wf: "vs_wf vp" and s: "s \<noteq> []"
  shows "\<exists>t. gives (vs_maxlen vp) t (cbind (acl_vstring_space vp (int (length s))) (\<lambda>(vp, _).
         let n = fitting vp (length s) in
         if 0 < n then map_cres (\<lambda>vp. vp\<lparr>vs_ptr := vs_ptr vp + n\<rparr>) (vs_copy vp (vs_ptr vp) (take n s)) else Ret vp))
    \<and> clip (vs_maxlen vp) t = clip (vs_maxlen vp) (vs_text vp @ s)"
proof -
  let ?m = "vs_maxlen vp"
  obtain v ok where v: "acl_vstring_space vp (int (length s)) = Ret (v, ok)" "vs_wf v" "vs_maxlen v = ?m"
    "vs_ptr vp + length s \<le> vs_len v \<or> 0 < ?m \<and> vs_len v = ?m"
    "vs_ptr vp < ?m \<or> ?m = 0 \<longrightarrow> vs_text v = vs_text vp \<and> vs_ptr v = vs_ptr vp"
    "vs_ptr vp = ?m \<and> 0 < ?m \<longrightarrow> vs_text v = take (?m - 1) (vs_text vp) \<and> vs_ptr v = ?m - 1"
    by (rule space_ok [OF wf, of "length s"]) (rule that; simp add: s)
  define n where "n = fitting v (length s)"
  have av: "vs_avail v = int (vs_len v - vs_ptr v)" using v(2) by (simp add: vs_wf_def vs_avail_def)
  then have n: "n = min (length s) (vs_len v - vs_ptr v)" by (auto simp: n_def fitting_def Let_def)
  have le: "?m = 0 \<or> vs_ptr vp \<le> ?m" using wf by (auto simp: vs_wf_def)
  have lt: "0 < n"
  proof -
    consider "vs_ptr vp < ?m" | "?m = 0" | "vs_ptr vp = ?m" "0 < ?m" using le by linarith
    then have "vs_ptr v < vs_len v"
    proof cases
      case 1
      then show ?thesis using v(4,5) s by (cases s) auto
    next
      case 2
      then show ?thesis using v(4,5) s by (cases s) auto
    qed (use v(4,6) in auto)
    then show ?thesis using n s by simp
  qed
  define w where "w = v\<lparr>vs_data := take (vs_ptr v) (vs_data v) @ take n s @ drop (vs_ptr v + n) (vs_data v), vs_ptr := vs_ptr v + n\<rparr>"
  have fit: "vs_ptr v + n \<le> vs_len v" "length (take n s) = n" using n v(2) by (auto simp: vs_wf_def)
  have "map_cres (\<lambda>vp. vp\<lparr>vs_ptr := vs_ptr vp + n\<rparr>) (vs_copy v (vs_ptr v) (take n s)) = Ret w"
    unfolding vs_copy_def fit(2) using fit(1) by (simp add: w_def)
  then have r: "cbind (acl_vstring_space vp (int (length s))) (\<lambda>(vp, _).
         let n = fitting vp (length s) in
         if 0 < n then map_cres (\<lambda>vp. vp\<lparr>vs_ptr := vs_ptr vp + n\<rparr>) (vs_copy vp (vs_ptr vp) (take n s)) else Ret vp) = Ret w"
    using v(1) lt by (simp add: n_def Let_def)
  have wl: "vs_len w = vs_len v" using fit by (simp add: w_def)
  then have "vs_wf w" using v(2) fit by (simp add: w_def vs_wf_def)
  moreover have t: "vs_text w = vs_text v @ take n s" using fit by (simp add: w_def vs_text_def)
  moreover have "clip ?m (vs_text v @ take n s) = clip ?m (vs_text vp @ s)"
  proof -
    have lv: "length (vs_text v) = vs_ptr v" "length (vs_text vp) = vs_ptr vp" using v(2) wf by (simp_all add: length_vs_text)
    consider "vs_ptr vp < ?m \<or> ?m = 0" | "vs_ptr vp = ?m" "0 < ?m" using le by linarith
    then show ?thesis
    proof cases
      case 1
      then have e: "vs_text v = vs_text vp" "vs_ptr v = vs_ptr vp" using v(5) by simp_all
      show ?thesis
      proof (cases "vs_ptr vp + length s \<le> vs_len v")
        case True
        then have "n = length s" using n e by simp
        then show ?thesis using e by simp
      next
        case False
        then have f: "0 < ?m" "vs_len v = ?m" using v(4) by auto
        then have "n = ?m - vs_ptr vp" "?m < vs_ptr vp + length s" using n e False by simp_all
        then show ?thesis using e f lv 1 by (simp add: clip_def min_def)
      qed
    next
      case 2
      then have e: "vs_text v = take (?m - 1) (vs_text vp)" "vs_ptr v = ?m - 1" using v(6) by simp_all
      moreover have "length (take n s) = n" using n by simp
      moreover have "length s \<noteq> 0" using s by simp
      ultimately show ?thesis using 2 lv lt by (simp add: clip_def)
    qed
  qed
  ultimately show ?thesis unfolding r gives_def using v(3) by (intro exI [of _ "vs_text v @ take n s"]) (simp add: w_def)
qed

lemma memcat_ok:
  assumes "vs_wf vp"
  shows "gives (vs_maxlen vp) (clip (vs_maxlen vp) (vs_text vp @ s)) (acl_vstring_memcat vp s)"
proof (cases "s = []")
  case True
  have "gives (vs_maxlen vp) (vs_text vp) (Ret vp)" using assms by (simp add: gives_def)
  then show ?thesis using gives_terminate True by (fastforce simp: acl_vstring_memcat_def)
next
  case False
  show ?thesis using append_ok [OF assms False] gives_terminate False unfolding acl_vstring_memcat_def by fastforce
qed

lemma memcpy_memcat: "acl_vstring_memcpy vp s = acl_vstring_memcat (vs_reset vp) s" if "vs_wf vp"
proof (cases "s = []")
  case False
  have 0: "vs_wf (vs_reset vp)" "vs_ptr (vs_reset vp) = 0" using that by (simp_all add: reset_wf)
  obtain v ok where v: "acl_vstring_space (vs_reset vp) (int (length s)) = Ret (v, ok)"
    "vs_ptr (vs_reset vp) < vs_maxlen (vs_reset vp) \<or> vs_maxlen (vs_reset vp) = 0 \<or> length s = 0 \<longrightarrow> vs_text v = vs_text (vs_reset vp) \<and> vs_ptr v = vs_ptr (vs_reset vp)"
    by (rule space_ok [OF 0(1), of "length s"]) (rule that; assumption)
  then have "vs_ptr v = 0" using 0 by auto
  then show ?thesis using v(1) False by (simp add: acl_vstring_memcpy_def acl_vstring_memcat_def Let_def vs_copy_def)
qed (simp add: acl_vstring_memcpy_def acl_vstring_memcat_def)

lemma memcpy_ok: "vs_wf vp \<Longrightarrow> gives (vs_maxlen vp) (clip (vs_maxlen vp) s) (acl_vstring_memcpy vp s)"
  using memcat_ok [OF reset_wf(1), of vp s] by (simp add: memcpy_memcat reset_wf)

lemma vbuf_store_ok:
  assumes "vs_wf v" "vs_ptr v < vs_len v"
  shows "gives (vs_maxlen v) (vs_text v @ [c]) (map_cres fst (vbuf_store v c))"
proof -
  have "take (Suc (vs_ptr v)) ((vs_data v)[vs_ptr v := c]) = take (vs_ptr v) (vs_data v) @ [c]"
    using assms(2) by (simp add: take_Suc_conv_app_nth)
  then show ?thesis using assms by (auto simp: gives_def vbuf_store_def vs_poke_def vs_wf_def vs_text_def)
qed

lemma addch_ok:
  assumes wf: "vs_wf vp"
  shows "gives (vs_maxlen vp) (if 0 < vs_maxlen vp \<and> vs_maxlen vp \<le> length (vs_text vp) then take (vs_maxlen vp - 1) (vs_text vp) else vs_text vp @ [c])
    (map_cres fst (vs_addch vp c))"
proof (cases "vs_ptr vp < vs_len vp")
  case True
  then have "\<not> (0 < vs_maxlen vp \<and> vs_maxlen vp \<le> length (vs_text vp))" using wf by (auto simp: length_vs_text vs_wf_def)
  then show ?thesis using vbuf_store_ok [OF wf True, of c] True by (auto simp: vs_addch_def)
next
  case False
  then have full: "vs_ptr vp = vs_len vp" "0 < vs_len vp" "\<not> vs_fixed vp" using wf by (auto simp: vs_wf_def)
  show ?thesis
  proof (cases "0 < vs_maxlen vp \<and> vs_maxlen vp \<le> vs_ptr vp")
    case True
    then have m: "vs_ptr vp = vs_maxlen vp" "vs_len vp = vs_maxlen vp" using wf full by (auto simp: vs_wf_def)
    define v where "v = vp\<lparr>vs_ptr := vs_maxlen vp - 1, vs_data := (vs_data vp)[vs_maxlen vp - 1 := 0], vs_eof := True\<rparr>"
    have "acl_vstring_put_ready vp = Ret (v, False)" using True m by (simp add: acl_vstring_put_ready_def vstring_extend_def vs_poke_def v_def)
    then have "vs_addch vp c = Ret (v, False)" using full by (simp add: vs_addch_def acl_vbuf_put_def)
    moreover have "vs_wf v" "vs_text v = take (vs_maxlen vp - 1) (vs_text vp)" "vs_maxlen v = vs_maxlen vp"
      using True m full by (simp_all add: v_def vs_wf_def vs_text_def)
    ultimately show ?thesis using True length_vs_text [OF wf] by (simp add: gives_def)
  next
    case below: False
    define k where "k = (if 0 < vs_maxlen vp \<and> vs_maxlen vp < vs_len vp + vs_len vp then vs_maxlen vp else vs_len vp + vs_len vp)"
    define v where "v = vp\<lparr>vs_data := take k (vs_data vp) @ replicate (k - vs_len vp) (vs_fresh vp)\<rparr>"
    have k: "vs_ptr vp < k" using below full by (auto simp: k_def)
    have "acl_vstring_put_ready vp = Ret (v, True)"
      using below full by (auto simp: acl_vstring_put_ready_def vstring_extend_def k_def v_def Let_def)
    then have e: "vs_addch vp c = vbuf_store v c" using full by (simp add: vs_addch_def acl_vbuf_put_def)
    have "vs_len v = k" "vs_ptr v = vs_ptr vp" using k full by (simp_all add: v_def)
    moreover from this have "vs_wf v" using k full by (auto simp: vs_wf_def v_def k_def)
    moreover have "vs_text v = vs_text vp" "vs_maxlen v = vs_maxlen vp" using k full by (simp_all add: v_def vs_text_def)
    ultimately have "gives (vs_maxlen vp) (vs_text vp @ [c]) (map_cres fst (vs_addch vp c))"
      using vbuf_store_ok [of v c] k e by simp
    then show ?thesis using below length_vs_text [OF wf] by auto
  qed
qed

lemma truncate_ok:
  assumes wf: "vs_wf vp" and max: "int (vs_ptr vp) \<le> INT_MAX"
  shows "gives (vs_maxlen vp) (take n (vs_text vp)) (acl_vstring_truncate vp n)"
proof (cases "n < vs_ptr vp")
  case True
  let ?v = "vp\<lparr>vs_ptr := n\<rparr>"
  have v: "vs_wf ?v" "vs_text ?v = take n (vs_text vp)" using wf True by (auto simp: vs_wf_def vs_text_def)
  have "clip (vs_maxlen vp) (take n (vs_text vp)) = take n (vs_text vp)"
    using True wf length_vs_text [OF wf] by (auto simp: clip_def vs_wf_def)
  moreover obtain w where "vs_terminate ?v = Ret w" "vs_wf w" "vs_maxlen w = vs_maxlen ?v" "vs_text w = clip (vs_maxlen ?v) (vs_text ?v)"
    by (rule terminate_ok [OF v(1)], rule that)
  moreover have "vs_at_offset vp (int_of_size n) = Ret ?v" using True max by (simp add: int_of_size_eq vs_at_offset_def)
  ultimately show ?thesis using True v(2) by (simp add: gives_def acl_vstring_truncate_def)
next
  case False
  then show ?thesis using wf length_vs_text [OF wf] by (simp add: gives_def acl_vstring_truncate_def)
qed

text \<open>Making and filling the gap for an insertion.\<close>

lemma insert_ok:
  assumes wf: "vs_wf vp" and i: "i \<le> vs_ptr vp" "vs_ptr vp = i \<longrightarrow> i = 0"
  shows "gives (vs_maxlen vp) (insert_text (vs_maxlen vp) (vs_text vp) i s)
    (cbind (acl_vstring_space vp (int (length s))) (\<lambda>(v, _). vs_open_gap v i s (int (vs_ptr vp + length s))))"
proof (cases "s = []")
  case True
  have "acl_vstring_space vp 0 = Ret (vp, True)" using wf by (simp add: acl_vstring_space_def vs_avail_def vs_wf_def Let_def)
  then show ?thesis using True wf by (simp add: insert_text_def gives_def vs_open_gap_def fitting_def vs_avail_def vs_wf_def Let_def)
next
  case False
  let ?m = "vs_maxlen vp" and ?t = "vs_text vp"
  obtain v ok where v: "acl_vstring_space vp (int (length s)) = Ret (v, ok)" "vs_wf v" "vs_maxlen v = ?m"
    "vs_ptr vp + length s \<le> vs_len v \<or> 0 < ?m \<and> vs_len v = ?m"
    "vs_ptr vp < ?m \<or> ?m = 0 \<longrightarrow> vs_text v = vs_text vp \<and> vs_ptr v = vs_ptr vp"
    "vs_ptr vp = ?m \<and> 0 < ?m \<longrightarrow> vs_text v = take (?m - 1) (vs_text vp) \<and> vs_ptr v = ?m - 1"
    by (rule space_ok [OF wf, of "length s"]) (rule that; simp add: False)
  define n where "n = fitting v (length s)"
  have av: "vs_avail v = int (vs_len v - vs_ptr v)" using v(2) by (simp add: vs_wf_def vs_avail_def)
  then have n: "n = min (length s) (vs_len v - vs_ptr v)" by (auto simp: n_def fitting_def Let_def)
  have le: "?m = 0 \<or> vs_ptr vp \<le> ?m" using wf by (auto simp: vs_wf_def)
  have lt: "length ?t = vs_ptr vp" "length (vs_text v) = vs_ptr v" using wf v(2) by (simp_all add: length_vs_text)
  have ls: "0 < length s" using False by simp
  have p: "i \<le> vs_ptr v" "vs_ptr v < vs_len v"
  proof -
    consider "vs_ptr vp < ?m \<or> ?m = 0" | "vs_ptr vp = ?m" "0 < ?m" using le by linarith
    then have "i \<le> vs_ptr v \<and> vs_ptr v < vs_len v"
    proof cases
      case 1
      then have "vs_ptr v = vs_ptr vp" using v(5) by blast
      moreover have "vs_ptr vp < vs_len v" using 1 v(4) ls by arith
      ultimately show ?thesis using i(1) by simp
    next
      case 2
      then show ?thesis using v(4,6) i ls by auto
    qed
    then show "i \<le> vs_ptr v" "vs_ptr v < vs_len v" by blast+
  qed
  have n0: "0 < n" "vs_ptr v + n \<le> vs_len v" "n \<le> length s" using n p ls by auto
  define w where "w = v\<lparr>vs_data := take i (vs_text v) @ take n s @ drop i (vs_text v) @ drop (vs_ptr v + n) (vs_data v)\<rparr>"
  have wl: "vs_len w = vs_len v" using n0 p lt by (simp add: w_def)
  have gap: "vs_open_gap v i s (int k) = vs_terminate (w\<lparr>vs_ptr := k\<rparr>)" for k
  proof -
    let ?d = "take (i + n) (vs_data v) @ drop i (vs_text v) @ drop (vs_ptr v + n) (vs_data v)"
    have 1: "vs_copy v (i + n) (take (vs_ptr v - i) (drop i (vs_data v))) = Ret (v\<lparr>vs_data := ?d\<rparr>)"
    proof -
      have x: "take (vs_ptr v - i) (drop i (vs_data v)) = drop i (vs_text v)" by (simp add: vs_text_def drop_take)
      have "i + n + length (drop i (vs_text v)) = vs_ptr v + n" using p lt by simp
      then show ?thesis unfolding x vs_copy_def using n0(2) by (simp only: if_True)
    qed
    have "take i ?d @ take n s @ drop (i + n) ?d = take i (vs_text v) @ take n s @ drop i (vs_text v) @ drop (vs_ptr v + n) (vs_data v)"
      using n0 p by (simp add: vs_text_def)
    moreover have "length ?d = vs_len v" using n0 p lt by simp
    ultimately have 2: "vs_copy (v\<lparr>vs_data := ?d\<rparr>) i (take n s) = Ret w"
      using n0 p by (simp add: vs_copy_def w_def min_def)
    show ?thesis using n0 p 1 2 by (simp add: vs_open_gap_def n_def [symmetric] vs_at_offset_def Let_def)
  qed
  have sp: "cbind (acl_vstring_space vp (int (length s))) (\<lambda>(v, _). vs_open_gap v i s (int (vs_ptr vp + length s))) = vs_terminate (w\<lparr>vs_ptr := vs_ptr vp + length s\<rparr>)"
    using v(1) gap [of "vs_ptr vp + length s"] by simp
  have wt: "take (vs_ptr v + n) (vs_data w) = take i (vs_text v) @ take n s @ drop i (vs_text v)"
    using n0 p lt by (simp add: w_def)
  show ?thesis
  proof (cases "vs_ptr vp + length s \<le> vs_len v \<and> (vs_ptr vp < ?m \<or> ?m = 0)")
    case True
    then have e: "vs_text v = ?t" "vs_ptr v = vs_ptr vp" "n = length s" using v(5) n by auto
    let ?w = "w\<lparr>vs_ptr := vs_ptr vp + length s\<rparr>"
    have w: "vs_wf ?w" "vs_maxlen ?w = ?m" using v(2,3) wl True by (simp_all add: vs_wf_def w_def)
    have "vs_text ?w = take (vs_ptr v + n) (vs_data w)" using e(2,3) by (simp add: vs_text_def)
    then have t: "vs_text ?w = take i ?t @ s @ drop i ?t" using wt e(1,3) by simp
    have "clip ?m (take i ?t @ s @ drop i ?t) = insert_text ?m ?t i s"
    proof (cases "?m = 0 \<or> vs_ptr vp + length s < ?m")
      case True
      then show ?thesis using lt i(1) \<open>s \<noteq> []\<close> by (auto simp: clip_def insert_text_def)
    next
      case False
      moreover have "vs_len v \<le> ?m" using v(2,3) False by (simp add: vs_wf_def)
      ultimately have "max 1 (?m - vs_ptr vp) = length s" "length ?t + length s = ?m" using True lt ls by auto
      then show ?thesis using False lt i(1) \<open>s \<noteq> []\<close> by (simp add: clip_def insert_text_def)
    qed
    then show ?thesis unfolding sp using w t by (metis gives_def terminate_ok)
  next
    case False
    moreover have "?m = 0 \<or> vs_len v \<le> ?m" using v(2,3) by (auto simp: vs_wf_def)
    ultimately have m: "0 < ?m" "vs_len v = ?m" "?m \<le> vs_ptr vp + length s" using v(4) le ls by auto
    let ?w = "w\<lparr>vs_ptr := vs_ptr vp + length s\<rparr>"
    obtain w' where w': "vs_terminate ?w = Ret w'" "vs_wf w'" "vs_maxlen w' = ?m" "vs_text w' = take (?m - 1) (vs_data w)"
    proof -
      have w: "0 < vs_maxlen ?w" "vs_len ?w = vs_maxlen ?w" "vs_maxlen ?w \<le> vs_ptr ?w" "\<not> vs_fixed ?w"
        using m v(2,3) wl by (simp_all add: w_def vs_wf_def)
      have "vs_maxlen ?w = ?m" using v(3) by (simp add: w_def)
      then show thesis using terminate_behind [OF w] that by auto
    qed
    have nm: "vs_ptr v + n = ?m"
    proof (cases "vs_ptr vp < ?m")
      case True
      then have "vs_ptr v = vs_ptr vp" using v(5) by blast
      then show ?thesis using n m True by linarith
    next
      case False
      then have "vs_ptr v = ?m - 1" using v(6) le m(1) by auto
      then show ?thesis using n m ls by linarith
    qed
    have "vs_text w' = take (?m - 1) (take (vs_ptr v + n) (vs_data w))" using w'(4) nm by simp
    then have "vs_text w' = take (?m - 1) (take i (vs_text v) @ take n s @ drop i (vs_text v))" unfolding wt .
    also have "\<dots> = insert_text ?m ?t i s"
    proof (cases "vs_ptr vp < ?m")
      case True
      then have e: "vs_text v = ?t" "vs_ptr v = vs_ptr vp" using v(5) by blast+
      then have "max 1 (?m - vs_ptr vp) = n" using nm n0 by linarith
      then show ?thesis using e m lt \<open>s \<noteq> []\<close> by (simp add: insert_text_def)
    next
      case full: False
      then have pm: "vs_ptr vp = ?m" using le m(1) by linarith
      then have e: "vs_text v = take (?m - 1) ?t" "vs_ptr v = ?m - 1" using v(6) m(1) by auto
      then have "n = 1" using nm m(1) by linarith
      then show ?thesis using e m lt pm p(1) \<open>s \<noteq> []\<close> by (simp add: insert_text_def min_def drop_take)
    qed
    finally show ?thesis unfolding sp using w' by (simp add: gives_def)
  qed
qed

lemma vs_step_ok:
  assumes wf: "vs_wf vp" and max: "int (vs_ptr vp + op_size x) \<le> INT_MAX"
  shows "case text_step (vs_maxlen vp) (vs_text vp) x of None \<Rightarrow> vs_step vp x = Fault | Some t \<Rightarrow> gives (vs_maxlen vp) t (vs_step vp x)"
proof (cases x)
  case (Vs_Addch c)
  then show ?thesis using addch_ok [OF wf] by simp
next
  case Vs_Terminate
  then show ?thesis using terminate_ok [OF wf] by (metis gives_def option.case(2) text_step.simps(4) vs_step.simps(4))
next
  case Vs_Reset
  then show ?thesis using reset_wf [of vp] wf by (simp add: gives_def)
next
  case (Vs_Insert i s)
  then show ?thesis using insert_ok [OF wf, of i s] length_vs_text [OF wf]
    using max by (cases "i < vs_ptr vp") (simp_all add: acl_vstring_insert_def int_of_size_eq Let_def)
next
  case (Vs_Prepend s)
  then show ?thesis using insert_ok [OF wf, of 0 s] max by (simp add: acl_vstring_prepend_def int_of_size_eq Let_def)
qed (use memcpy_ok [OF wf] memcat_ok [OF wf] truncate_ok [OF wf] max in simp_all)

lemma vs_run_ok: "vs_wf vp \<Longrightarrow> int (vs_ptr vp + ops_size ops) \<le> INT_MAX \<Longrightarrow>
    case text_run (vs_maxlen vp) (vs_text vp) ops of None \<Rightarrow> vs_run vp ops = Fault | Some t \<Rightarrow> gives (vs_maxlen vp) t (vs_run vp ops)"
proof (induction ops arbitrary: vp)
  case (Cons x ops)
  have x: "int (vs_ptr vp + op_size x) \<le> INT_MAX" using Cons.prems(2) by (simp add: ops_size_def)
  show ?case
  proof (cases "text_step (vs_maxlen vp) (vs_text vp) x")
    case None
    then show ?thesis using vs_step_ok [OF Cons.prems(1) x] by simp
  next
    case (Some t)
    then obtain v where v: "vs_step vp x = Ret v" "vs_wf v" "vs_maxlen v = vs_maxlen vp" "vs_text v = t"
      using vs_step_ok [OF Cons.prems(1) x] by (auto simp: gives_def)
    have "vs_ptr v \<le> vs_ptr vp + op_size x"
      using text_step_length [OF Some] v(4) length_vs_text [OF v(2)] length_vs_text [OF Cons.prems(1)] by simp
    then have "int (vs_ptr v + ops_size ops) \<le> INT_MAX" using Cons.prems(2) by (simp add: ops_size_def)
    then show ?thesis using Cons.IH [OF v(2)] v Some by (cases "text_run (vs_maxlen vp) t ops") simp_all
  qed
qed (simp add: gives_def)

definition vs_history :: "byte \<Rightarrow> nat \<Rightarrow> nat \<Rightarrow> vs_op list \<Rightarrow> acl_vstring cres" where
  "vs_history fresh len m ops = cbind (acl_vstring_alloc fresh len) (\<lambda>vp. cbind (acl_vstring_ctl vp (int m)) (\<lambda>vp. vs_run vp ops))"

text \<open>
  C21: Whatever is copied, appended, put, inserted, prepended and cut off, less than \<open>2 ^ 31\<close> bytes together,
  without a limit on the length or with one that is not below the first allocation, a string that grows as it
  needs holds the text that the same operations give on lists, cut at the limit; no access leaves the buffer,
  the code ends the process exactly for an insertion that does not start inside the text, and a terminator fits
  behind the text.
\<close>

theorem vstring_history:
  assumes "m = 0 \<or> len \<le> m" "0 < len" "int len \<le> INT_MAX" "int m \<le> INT_MAX" "int (ops_size ops) \<le> INT_MAX"
  shows "case text_run m [] ops of
      None \<Rightarrow> vs_history fresh len m ops = Fault
    | Some t \<Rightarrow> \<exists>vp vp'. vs_history fresh len m ops = Ret vp \<and> vs_text vp = t
        \<and> vs_terminate vp = Ret vp' \<and> vs_text vp' = clip m t \<and> vs_ptr vp' < vs_len vp' \<and> vs_data vp' ! vs_ptr vp' = 0"
proof -
  let ?v = "\<lparr>vs_data = take len (0 # replicate (len - 1) fresh), vs_ptr = 0, vs_maxlen = m, vs_fixed = False, vs_eof = False, vs_fresh = fresh\<rparr>"
  have c: "vs_history fresh len m ops = vs_run ?v ops"
    using assms(2,3) by (simp add: vs_history_def acl_vstring_alloc_def vs_new_def acl_vstring_ctl_def int_of_size_eq)
  have v: "vs_wf ?v" "vs_text ?v = []" "vs_maxlen ?v = m" "vs_ptr ?v = 0" using assms(1,2) by (auto simp: vs_wf_def vs_text_def)
  have "int (vs_ptr ?v + ops_size ops) \<le> INT_MAX" using assms(5) by simp
  then have r: "case text_run m [] ops of None \<Rightarrow> vs_run ?v ops = Fault | Some t \<Rightarrow> gives m t (vs_run ?v ops)"
    using vs_run_ok [OF v(1), of ops] unfolding v(2,3) by blast
  show ?thesis
  proof (cases "text_run m [] ops")
    case None
    then show ?thesis using c r by simp
  next
    case (Some t)
    then obtain v where v: "vs_run ?v ops = Ret v" "vs_wf v" "vs_maxlen v = m" "vs_text v = t" using r by (auto simp: gives_def)
    obtain w where "vs_terminate v = Ret w" "vs_text w = clip (vs_maxlen v) (vs_text v)" "vs_ended w" by (rule terminate_ok [OF v(2)], rule that)
    then show ?thesis using Some v c by (auto simp: vs_ended_def)
  qed
qed

theorem vstring_history_witness:
  "\<exists>vp. vs_history 7 4 8 [Vs_Memcpy (bytes_of ''abc''), Vs_Memcat (bytes_of ''defghi''), Vs_Prepend (bytes_of ''x'')] = Ret vp
    \<and> vs_text vp = bytes_of ''xabcdef''"
proof -
  let ?ops = "[Vs_Memcpy (bytes_of ''abc''), Vs_Memcat (bytes_of ''defghi''), Vs_Prepend (bytes_of ''x'')]"
  have "text_run 8 [] ?ops = Some (bytes_of ''xabcdef'')" by (simp add: clip_def insert_text_def)
  moreover have "int (ops_size ?ops) \<le> INT_MAX" by (simp add: ops_size_def INT_MAX_def)
  ultimately show ?thesis using vstring_history [of 8 4 ?ops 7] by (auto simp: INT_MAX_def)
qed

subsection \<open>Searches\<close>

lemma search_map: "needle \<noteq> [] \<Longrightarrow> search_text (\<lambda>c d. f c = g d) needle np st i s = search_text (=) (map g needle) (map g np) st i (map f s)"
  by (induction s arbitrary: np st i) (auto simp: hd_map map_tl [symmetric])

text \<open>What has been matched: the front of the needle stands at the end of the text read.\<close>

definition matched :: "byte list \<Rightarrow> byte list \<Rightarrow> nat \<Rightarrow> byte list \<Rightarrow> bool" where
  "matched needle np st pre \<longleftrightarrow> (np \<noteq> [] \<longrightarrow> (\<exists>m. needle = m @ np \<and> m \<noteq> [] \<and> st + length m = length pre \<and> drop st pre = m))"

lemma matched_step:
  assumes "needle \<noteq> []" "matched needle np st pre" "np \<noteq> []" "c = hd np"
  shows "matched needle (tl np) st (pre @ [c])" "tl np = [] \<Longrightarrow> drop st (pre @ [c]) = needle \<and> st + length needle = Suc (length pre)"
proof -
  obtain m where m: "needle = m @ np" "m \<noteq> []" "st + length m = length pre" "drop st pre = m" using assms(2,3) unfolding matched_def by blast
  obtain x xs where np: "np = x # xs" using assms(3) by (cases np) auto
  show "matched needle (tl np) st (pre @ [c])" using m np assms(4) by (auto simp: matched_def intro!: exI [of _ "m @ [x]"])
  show "tl np = [] \<Longrightarrow> drop st (pre @ [c]) = needle \<and> st + length needle = Suc (length pre)" using m np assms(4) by simp
qed

lemma matched_start:
  assumes "needle \<noteq> []" "c = hd needle"
  shows "matched needle (tl needle) (length pre) (pre @ [c])" "tl needle = [] \<Longrightarrow> needle = [c]"
  using assms by (cases needle; auto simp: matched_def)+

lemma search_sound: "needle \<noteq> [] \<Longrightarrow> matched needle np st pre \<Longrightarrow> search_text (=) needle np st (length pre) s = Some (a, b) \<Longrightarrow>
    prefix needle (drop a (pre @ s)) \<and> Suc b = a + length needle"
proof (induction s arbitrary: np st pre)
  case (Cons c s)
  have app: "pre @ c # s = (pre @ [c]) @ s" by simp
  consider (hit) "np \<noteq> []" "c = hd np" | (start) "\<not> (np \<noteq> [] \<and> c = hd np)" "c = hd needle" | (miss) "\<not> (np \<noteq> [] \<and> c = hd np)" "c \<noteq> hd needle" by blast
  then show ?case
  proof cases
    case hit
    show ?thesis
    proof (cases "tl np = []")
      case True
      then have "a = st" "b = length pre" using Cons.prems(3) hit by simp_all
      moreover have "st \<le> length pre" using Cons.prems(2) hit(1) by (auto simp: matched_def)
      then have "drop st (pre @ c # s) = drop st (pre @ [c]) @ s" by simp
      then have "drop st (pre @ c # s) = needle @ s" "st + length needle = Suc (length pre)" using matched_step(2) [OF Cons.prems(1,2) hit True] by auto
      ultimately show ?thesis by simp
    next
      case False
      then show ?thesis using Cons.IH [OF Cons.prems(1) matched_step(1) [OF Cons.prems(1,2) hit]] Cons.prems(3) hit unfolding app by simp
    qed
  next
    case start
    show ?thesis
    proof (cases "tl needle = []")
      case True
      then have "a = length pre" "b = length pre" using Cons.prems(3) start by auto
      then show ?thesis using matched_start(2) [OF Cons.prems(1) start(2) True] by simp
    next
      case False
      then show ?thesis using Cons.IH [OF Cons.prems(1) matched_start(1) [OF Cons.prems(1) start(2), of pre]] Cons.prems(3) start unfolding app by auto
    qed
  next
    case miss
    have "matched needle [] st (pre @ [c])" by (simp add: matched_def)
    then show ?thesis using Cons.IH [OF Cons.prems(1), of "[]" st "pre @ [c]"] Cons.prems(3) miss unfolding app by auto
  qed
qed simp

text \<open>If the first byte of the needle does not come again in it, no occurrence is missed.\<close>

lemma search_first: "needle \<noteq> [] \<Longrightarrow> hd needle \<notin> set (tl needle) \<Longrightarrow> matched needle np st pre \<Longrightarrow>
    (\<And>j. j < (if np = [] then length pre else st) \<Longrightarrow> \<not> prefix needle (drop j (pre @ s))) \<Longrightarrow>
    case search_text (=) needle np st (length pre) s of
      None \<Rightarrow> \<forall>j. \<not> prefix needle (drop j (pre @ s))
    | Some (a, b) \<Rightarrow> \<forall>j < a. \<not> prefix needle (drop j (pre @ s))"
proof (induction s arbitrary: np st pre)
  case Nil
  have "\<not> prefix needle (drop j pre)" if j: "(if np = [] then length pre else st) \<le> j" for j
  proof
    assume p: "prefix needle (drop j pre)"
    then have "j < length pre" using Nil.prems(1) by (cases "j < length pre") auto
    then have np: "np \<noteq> []" "st \<le> j" using j by (auto split: if_splits)
    then obtain m where "needle = m @ np" "st + length m = length pre" using Nil.prems(3) by (auto simp: matched_def)
    moreover have "length needle \<le> length pre - j" using prefix_length_le [OF p] by simp
    moreover have "0 < length np" using np(1) by simp
    moreover have "length needle = length m + length np" using \<open>needle = m @ np\<close> by simp
    ultimately show False using np(2) by linarith
  qed
  then have "\<not> prefix needle (drop j pre)" for j using Nil.prems(4) [of j] by (cases "(if np = [] then length pre else st) \<le> j") auto
  then show ?case by simp
next
  case (Cons c s)
  have app: "pre @ c # s = (pre @ [c]) @ s" by simp
  have before: "\<not> prefix needle (drop j (pre @ c # s))" if j: "j < length pre" "\<not> (np \<noteq> [] \<and> c = hd np)" for j
  proof (cases "j < (if np = [] then length pre else st)")
    case False
    then have np: "np \<noteq> []" "st \<le> j" using j(1) by (auto split: if_splits)
    obtain m where m: "needle = m @ np" "m \<noteq> []" "st + length m = length pre" "drop st pre = m" using Cons.prems(3) np(1) unfolding matched_def by blast
    show ?thesis
    proof
      assume p: "prefix needle (drop j (pre @ c # s))"
      show False
      proof (cases "j = st")
        case True
        then have "drop j (pre @ c # s) = m @ c # s" using m by simp
        then have "prefix np (c # s)" using p m(1) by simp
        then show False using np(1) j(2) by (cases np) auto
      next
        case False
        then have k: "0 < j - st" "j - st < length m" using np(2) j(1) m(3) by linarith+
        have "drop j (pre @ c # s) = drop (j - st) m @ c # s" using np(2) j(1) m(3,4) by (metis append_eq_append_conv_if drop_append drop_drop le_add_diff_inverse2 less_imp_le diff_is_0_eq drop0)
        then have "hd needle = hd (drop (j - st) m)" using p k Cons.prems(1) by (cases needle; cases "drop (j - st) m") (auto simp: prefix_Cons)
        also have "\<dots> = m ! (j - st)" using k(2) by (simp add: hd_drop_conv_nth)
        also have "\<dots> = tl m ! (j - st - 1)" using k m(2) by (cases m) (auto simp: nth_Cons')
        also have "\<dots> \<in> set (tl m)" using k by (intro nth_mem) simp
        finally have "hd needle \<in> set (tl needle)" using m(1,2) by simp
        then show False using Cons.prems(2) by blast
      qed
    qed
  qed (use Cons.prems(4) in blast)
  consider (hit) "np \<noteq> []" "c = hd np" | (start) "\<not> (np \<noteq> [] \<and> c = hd np)" "c = hd needle" | (miss) "\<not> (np \<noteq> [] \<and> c = hd np)" "c \<noteq> hd needle" by blast
  then show ?case
  proof cases
    case hit
    have "\<And>j. j < st \<Longrightarrow> \<not> prefix needle (drop j ((pre @ [c]) @ s))" using Cons.prems(4) hit(1) by simp
    moreover have st: "st < length pre" using Cons.prems(3) hit(1) by (auto simp: matched_def)
    show ?thesis
    proof (cases "tl np = []")
      case True
      then show ?thesis using hit Cons.prems(4) by simp
    next
      case False
      then show ?thesis using Cons.IH [OF Cons.prems(1,2) matched_step(1) [OF Cons.prems(1,3) hit]] Cons.prems(4) hit unfolding app by simp
    qed
  next
    case start
    have b: "\<And>j. j < length pre \<Longrightarrow> \<not> prefix needle (drop j ((pre @ [c]) @ s))" using before start(1) by simp
    show ?thesis
    proof (cases "tl needle = []")
      case True
      then show ?thesis using start b by auto
    next
      case False
      then show ?thesis using Cons.IH [OF Cons.prems(1,2) matched_start(1) [OF Cons.prems(1) start(2), of pre]] b start unfolding app by auto
    qed
  next
    case miss
    have b: "\<not> prefix needle (drop j ((pre @ [c]) @ s))" if "j < length (pre @ [c])" for j
    proof (cases "j = length pre")
      case True
      then show ?thesis using miss(2) Cons.prems(1) by (cases needle) auto
    next
      case False
      then show ?thesis using before [of j] miss(1) that by simp
    qed
    have "matched needle [] st (pre @ [c])" by (simp add: matched_def)
    then show ?thesis using Cons.IH [OF Cons.prems(1,2), of "[]" st "pre @ [c]"] b miss unfolding app by auto
  qed
qed

text \<open>The first occurrence, and the last one by way of the reversed text.\<close>

definition first_at :: "byte list \<Rightarrow> byte list \<Rightarrow> nat option" where
  "first_at needle t = find (\<lambda>i. prefix needle (drop i t)) [0..<length t]"

definition last_at :: "byte list \<Rightarrow> byte list \<Rightarrow> nat option" where
  "last_at needle t = find (\<lambda>i. prefix needle (drop i t)) (rev [0..<length t])"

lemma find_first: "(case r of None \<Rightarrow> \<forall>j. \<not> P j | Some a \<Rightarrow> a < n \<and> P a \<and> (\<forall>j < a. \<not> P j)) \<Longrightarrow> find P [0..<n] = r"
proof (cases r)
  case None
  assume "case r of None \<Rightarrow> \<forall>j. \<not> P j | Some a \<Rightarrow> a < n \<and> P a \<and> (\<forall>j < a. \<not> P j)"
  then show ?thesis using None by (simp add: find_None_iff)
next
  case (Some a)
  assume "case r of None \<Rightarrow> \<forall>j. \<not> P j | Some a \<Rightarrow> a < n \<and> P a \<and> (\<forall>j < a. \<not> P j)"
  then have a: "a < n" "P a" "\<forall>j < a. \<not> P j" using Some by simp_all
  have "find P [0..<n] = Some a" unfolding find_Some_iff using a by (intro exI [of _ a]) simp
  then show ?thesis using Some by simp
qed

lemma search_first_at:
  assumes "needle \<noteq> []"
  shows "case map_option fst (search_text (=) needle [] 0 0 t) of None \<Rightarrow> True | Some i \<Rightarrow> prefix needle (drop i t) \<and> i < length t"
    "hd needle \<notin> set (tl needle) \<Longrightarrow> map_option fst (search_text (=) needle [] 0 0 t) = first_at needle t"
proof -
  have m: "matched needle [] 0 []" by (simp add: matched_def)
  have s: "prefix needle (drop a t) \<and> Suc b = a + length needle \<and> a < length t" if "search_text (=) needle [] 0 0 t = Some (a, b)" for a b
  proof -
    have "prefix needle (drop a t) \<and> Suc b = a + length needle" using search_sound [OF assms m] that by simp
    moreover from this have "a < length t" using assms by (cases "a < length t") auto
    ultimately show ?thesis by blast
  qed
  then show "case map_option fst (search_text (=) needle [] 0 0 t) of None \<Rightarrow> True | Some i \<Rightarrow> prefix needle (drop i t) \<and> i < length t"
    by (auto split: option.split)
  assume "hd needle \<notin> set (tl needle)"
  then have "case search_text (=) needle [] 0 0 t of None \<Rightarrow> \<forall>j. \<not> prefix needle (drop j t) | Some (a, b) \<Rightarrow> \<forall>j < a. \<not> prefix needle (drop j t)"
    using search_first [OF assms _ m, of t] by (auto split: option.splits)
  then have "case map_option fst (search_text (=) needle [] 0 0 t) of None \<Rightarrow> \<forall>j. \<not> prefix needle (drop j t)
      | Some a \<Rightarrow> a < length t \<and> prefix needle (drop a t) \<and> (\<forall>j < a. \<not> prefix needle (drop j t))"
    using s by (auto split: option.splits)
  then show "map_option fst (search_text (=) needle [] 0 0 t) = first_at needle t" unfolding first_at_def by (rule find_first [symmetric])
qed

text \<open>
  C22: What the searches from the start find is an occurrence of the needle, with or without regard to case,
  and it is the first one if the first byte of the needle does not come again in it.
\<close>

theorem vstring_search:
  assumes "needle \<noteq> []"
  shows "(case acl_vstring_strstr vp needle of None \<Rightarrow> True | Some i \<Rightarrow> prefix needle (drop i (vs_text vp)))
    \<and> (case acl_vstring_strcasestr vp needle of None \<Rightarrow> True | Some i \<Rightarrow> prefix (map to_lower needle) (drop i (map to_lower (vs_text vp))))
    \<and> (hd needle \<notin> set (tl needle) \<longrightarrow> acl_vstring_strstr vp needle = first_at needle (vs_text vp))
    \<and> (to_lower (hd needle) \<notin> to_lower ` set (tl needle) \<longrightarrow> acl_vstring_strcasestr vp needle = first_at (map to_lower needle) (map to_lower (vs_text vp)))"
proof -
  have 1: "acl_vstring_strstr vp needle = map_option fst (search_text (=) needle [] 0 0 (vs_text vp))" using assms by (simp add: acl_vstring_strstr_def)
  have 2: "acl_vstring_strcasestr vp needle = map_option fst (search_text (=) (map to_lower needle) [] 0 0 (map to_lower (vs_text vp)))"
    using assms search_map [OF assms, of to_lower to_lower "[]"] by (simp add: acl_vstring_strcasestr_def)
  have n: "map to_lower needle \<noteq> []" using assms by simp
  have h: "to_lower (hd needle) \<notin> to_lower ` set (tl needle) \<longleftrightarrow> hd (map to_lower needle) \<notin> set (tl (map to_lower needle))" using assms by (cases needle) auto
  have 3: "(case r of None \<Rightarrow> True | Some i \<Rightarrow> P i)" if "case r of None \<Rightarrow> True | Some i \<Rightarrow> P i \<and> Q i" for r :: "nat option" and P Q
    using that by (cases r) auto
  show ?thesis unfolding 1 2 h
    using 3 [OF search_first_at(1) [OF assms]] 3 [OF search_first_at(1) [OF n]] search_first_at(2) [OF assms] search_first_at(2) [OF n] by (intro conjI impI) blast+
qed

lemma import_eq:
  assumes "int (length str) < INT_MAX"
  obtains v where "acl_vstring_import fresh str = Ret v" "vs_text v = str" "vs_ptr v = length str"
  using assms that by (auto simp: acl_vstring_import_def int_of_size_eq vs_at_offset_def vs_text_def nat_add_distrib)

theorem vstring_search_witness: "map_cres (\<lambda>vp. acl_vstring_strstr vp (bytes_of ''need'')) (acl_vstring_import 0 (bytes_of ''a needle'')) = Ret (Some 2)"
proof -
  obtain v where v: "acl_vstring_import 0 (bytes_of ''a needle'') = Ret v" "vs_text v = bytes_of ''a needle''"
    by (rule import_eq [of "bytes_of ''a needle''" 0]) (simp add: INT_MAX_def, rule that)
  have n: "bytes_of ''need'' \<noteq> []" by simp
  have "hd (bytes_of ''need'') \<notin> set (tl (bytes_of ''need''))" by simp
  moreover have "first_at (bytes_of ''need'') (bytes_of ''a needle'') = Some 2" by (simp add: first_at_def upt_rec)
  ultimately show ?thesis using vstring_search [OF n, of v] v by simp
qed

subsection \<open>What the code does otherwise\<close>

text \<open>A match that fails is given up where it failed.\<close>

lemma strstr_misses: "map_cres (\<lambda>vp. acl_vstring_strstr vp (bytes_of ''aab'')) (acl_vstring_import 0 (bytes_of ''aaab'')) = Ret None"
proof -
  obtain v where v: "acl_vstring_import 0 (bytes_of ''aaab'') = Ret v" "vs_text v = bytes_of ''aaab''"
    by (rule import_eq [of "bytes_of ''aaab''" 0]) (simp add: INT_MAX_def, rule that)
  then show ?thesis by (simp add: acl_vstring_strstr_def)
qed

text \<open>The search from the end without regard to case compares the lower case of the needle with the text as it is.\<close>

lemma rstrcasestr_upper: "map_cres (\<lambda>vp. acl_vstring_rstrcasestr vp (bytes_of ''ABC'')) (acl_vstring_import 0 (bytes_of ''ABC'')) = Ret None"
proof -
  obtain v where v: "acl_vstring_import 0 (bytes_of ''ABC'') = Ret v" "vs_text v = bytes_of ''ABC''"
    by (rule import_eq [of "bytes_of ''ABC''" 0]) (simp add: INT_MAX_def, rule that)
  then show ?thesis by (simp add: acl_vstring_rstrcasestr_def to_lower_def is_upper_def)
qed

text \<open>
  A length of \<open>2 ^ 31\<close> or more becomes negative, and the position moves in front of the buffer.
\<close>

lemma insert_wraps:
  assumes "start < vs_ptr vp" "vs_ptr vp + length buf = 2 ^ 31" "acl_vstring_space vp (int (length buf)) = Ret (v, ok)" "0 < fitting v (length buf)"
  shows "acl_vstring_insert vp start buf = Fault"
proof -
  have neg: "int_of_size (vs_ptr vp + length buf) < 0" unfolding assms(2) by (simp add: int_of_size_def)
  have gap: "vs_open_gap v start buf k = Fault" if "k < 0" for k
  proof -
    have "cbind (vs_copy w i s) (\<lambda>vp. cbind (vs_copy vp j u) (\<lambda>vp. cbind (vs_at_offset vp k) vs_terminate)) = Fault" for w i s j u
      using that by (simp add: vs_at_offset_def vs_copy_def)
    then show ?thesis using assms(4) by (simp add: vs_open_gap_def Let_def)
  qed
  show ?thesis using assms(1,3) gap [OF neg] by (simp add: acl_vstring_insert_def Let_def)
qed

text \<open>A character at the limit costs the last one, and the next one takes its place.\<close>

lemma addch_at_limit:
  "map_cres vs_text (vs_history 0 3 3 (map Vs_Addch (bytes_of ''abcde''))) = Ret (bytes_of ''abe'')"
  by code_simp

text \<open>\<open>acl_vbuf_write\<close> copies as much as the buffer already holds: never anything into an empty one, and too much into a full one.\<close>

lemma vbuf_write_stuck: "cbind (acl_vstring_alloc 0 8) (\<lambda>vp. acl_vbuf_write fuel vp [1] 0) = Ret None"
proof -
  have "acl_vbuf_write fuel vp [1] 0 = Ret None" if "vs_ptr vp = 0" "0 < vs_len vp" for vp
    using that by (induction fuel) (simp_all add: vs_copy_def)
  then show ?thesis by (simp add: acl_vstring_alloc_def vs_new_def int_of_size_eq INT_MAX_def)
qed

lemma vbuf_write_overflows: "cbind (cbind (acl_vstring_alloc 0 8) (\<lambda>vp. acl_vstring_memcpy vp (bytes_of ''abcdef''))) (\<lambda>vp. acl_vbuf_write 9 vp (bytes_of ''ghij'') 0) = Fault"
  by code_simp

text \<open>A line end that is divided between two chunks leaves its first byte in the line.\<close>

lemma gets_nonl_split: "cbind (cbind (acl_vstring_alloc 0 8) (\<lambda>vp. acl_buffer_gets_nonl vp (bytes_of ''ab'' @ [13]))) (\<lambda>(vp, _). map_cres (\<lambda>(vp, rest, ok). (vs_text vp, rest, ok)) (acl_buffer_gets_nonl vp [10]))
    = Ret (bytes_of ''ab'' @ [13], [], True)"
  by code_simp

end
