(* ===== verification/Spec2Isabelle.thy ===== *)
theory Spec2Isabelle
  imports Base64 Url_Code Dlink Acl_Stack Acl_Fifo Acl_Ring Htable_Walk Cache_Hist Acl_Ypipe Fiber_Lock Fiber_Sem Fiber_Rwlock Fiber_Channel Rfc1035_Msg Json_Props Xml_Props Host_Props Vstring_Props
begin

text \<open>
  The acl library under the socket servers of this repository: its data structures, codecs, DNS messages
  and the synchronisation of its fibers, as the C code of \<open>src/acl/lib_acl\<close> and \<open>src/acl/lib_fiber\<close> has them.

  The parts and how they interact. The containers of \<open>lib_acl\<close> keep objects for the rest of the library:
  array, pointer stack, linked queue, ring, hash table and the list of disjoint intervals, which is built
  on the array. Codecs turn bytes into text and back, and the DNS code turns records into
  messages and back for resolver and server, with the string routines; JSON text is parsed in chunks, as it
  comes from a connection, into a tree and built from one. A fiber runs on a thread until it
  yields or blocks; the scheduler keeps the runnable fibers in a ring, and locks, semaphores and channels
  block a fiber by queueing it and switching, and unblock it by making it ready.

  Theories and code:
  \<^item> \<open>Acl_Prelude\<close>: bytes, C strings, accesses that may leave an object, \<open>ACL_FOREACH\<close> of
    \<open>stdlib/acl_iterator.h\<close>; \<open>Acl_Interfaces\<close>: the interfaces of codecs, sequences, queues, maps and
    iterators as locales. Every component interprets the ones that it provides.
  \<^item> \<open>Base64\<close>, \<open>Url_Code\<close>: \<open>code/acl_base64.c\<close>, \<open>acl_vstring_base64.c\<close>, \<open>acl_urlcode.c\<close>, \<open>stdlib/string/acl_hex_code.c\<close>.
    Round trips, that the string decoder accepts what the buffer decoder does, accesses inside the tables and buffers.
  \<^item> \<open>Acl_Array\<close>, \<open>Acl_Stack\<close>, \<open>Acl_Fifo\<close>, \<open>Acl_Ring\<close> with \<open>Acl_Links\<close>, \<open>Dlink\<close>: \<open>stdlib/common/acl_array.c\<close>, \<open>acl_stack.c\<close>,
    \<open>acl_fifo.c\<close>, \<open>acl_ring.c\<close>, \<open>acl_dlink.c\<close>. Arrays are the cells up to the capacity, stale ones included;
    queue and ring are heaps of nodes with their links. The operations refine lists, the interval list
    a set of 64-bit numbers below the largest.
  \<^item> \<open>Acl_Htable\<close>, \<open>Htable_Rep\<close>, \<open>Htable_Ops\<close>, \<open>Htable_Walk\<close>: \<open>stdlib/common/acl_htable.c\<close>. Buckets of chains on a heap of
    entries; the representation as a map, every operation against it, histories, iterators and walks.
  \<^item> \<open>Acl_Cache\<close>, \<open>Cache_Rep\<close>, \<open>Cache_Spec\<close>, \<open>Cache_Hist\<close>: \<open>stdlib/common/acl_cache.c\<close>, over the table and the ring. What an
    operation does to the ordered list of entries, and that the code does it in every history.
  \<^item> \<open>Acl_Yqueue\<close>, \<open>Yqueue_Rep\<close>, \<open>Acl_Ypipe\<close>: \<open>stdlib/common/acl_yqueue.c\<close>, \<open>acl_ypipe.c\<close>. The chunked queue as the list of its
    cells; the steps of the writer and the reader of the pipe in any order: first in first out, no lost wakeup.
  \<^item> \<open>Acl_Mystring\<close>: \<open>stdlib/string/acl_mystring.c\<close>. Splitting, and that it undoes joining.
  \<^item> \<open>Acl_Vstring\<close>, \<open>Vstring_Props\<close>: \<open>stdlib/acl_vstring.c\<close>, \<open>acl_vbuf.c\<close>, the growing strings with their limit: histories
    against lists, searches.
  \<^item> \<open>Rfc1035\<close>, \<open>Rfc1035_Msg\<close>: \<open>net/dns/acl_rfc1035.c\<close>. Messages as bytes in network order; a reference encoding
    of names, questions and records; the parser stays inside every message; queries and replies come back.
  \<^item> \<open>Acl_Json\<close>, \<open>Json_Build\<close>: \<open>json/acl_json_parse.c\<close>, \<open>acl_json.c\<close>, \<open>acl_json_util.c\<close>. The streaming parser, a state
    machine over the list of all nodes, and the builder with its iterator. \<open>Json_Tree\<close>, \<open>Json_Safe\<close>, \<open>Json_Stream\<close>:
    every handler keeps the nodes a tree, the machine gets nearer to the end in every turn, chunks do not matter;
    \<open>Json_Text\<close>: the builder against a recursion over the tree; \<open>Json_Rep\<close>, \<open>Json_Roundtrip\<close>, \<open>Json_Props\<close>: documents,
    the trees that stand for them, and the way from text to tree to text.
  \<^item> \<open>Acl_Token\<close>: \<open>stdlib/common/acl_token_tree.c\<close>, a tree of words on a heap of nodes. \<open>Token_Rep\<close>: the words of a
    well-formed tree and what adding and removing does to them; \<open>Token_Walk\<close>: the nodes in order, walk and iterator;
    \<open>Token_Match\<close>, \<open>Token_Props\<close>: searches in a text, histories. \<open>Xml_Code\<close>, \<open>Xml_Props\<close>: \<open>code/acl_xmlcode.c\<close> and
    \<open>uni2utf8.c\<close>, whose decoders search the tree of the entities: round trip, bounds.
  \<^item> \<open>Acl_Host\<close>, \<open>Host_Props\<close>: \<open>net/acl_valid_hostname.c\<close>, \<open>acl_host_port.c\<close>. The checks of names and addresses against
    grammars, and every way in which an address with a port is taken apart or refused.
  \<^item> \<open>Fiber_Sched\<close>: \<open>lib_fiber/c/src/fiber.c\<close>, the status of each fiber, its signal and its place in the rings;
    \<open>Fiber_Lock\<close>, \<open>Fiber_Rwlock\<close>, \<open>Fiber_Sem\<close>, \<open>Fiber_Channel\<close>: \<open>sync/fiber_lock.c\<close>, \<open>fiber_sem.c\<close>, \<open>channel.c\<close>. An operation that
    blocks is two definitions, before and behind the switch; a program counter says where a fiber
    stands. The step relations let the fibers of a thread take any of these steps and any steps of the
    scheduler, kills included, and the invariants hold in every reachable state; for the channel they are those of the
    histories without a signal or a kill during an operation. \<open>acl_fiber_lock_trylock\<close> is modelled but not a step, because
    its result is the opposite of the documented one.

  Conventions. \<open>Fault\<close> is undefined behaviour or the end of the process by \<open>acl_msg_fatal\<close>, and \<open>Ret\<close> is a
  result that was reached without any; so a theorem that says \<open>Ret\<close> says that the code returns. Memory is
  never exhausted. Machine integers are words where the code lets them wrap or reads their bits.
  Where a value given by the caller may leave its type, the model converts as the code does (the lengths of strings,
  \<open>int_of_size\<close>), or is \<open>Fault\<close> on overflow (the ends of intervals, \<open>add64\<close>, and the counter of a semaphore), and the
  theorems say for which values it does not happen. Elsewhere sizes and indices are \<open>int\<close> or \<open>nat\<close>: they are bounded by
  the size of objects in memory. A pointer into a text or a message is moved and read with a test (\<open>ptr_inc\<close>,
  \<open>tab_at\<close>, \<open>bytes_at\<close>), so that passing the end is \<open>Fault\<close>. Loops are recursive functions with termination proofs.
  The chains of the hash table and the loops over linked nodes have fuel, the number of nodes in
  the heap, and the theorems show that it suffices; so have the turns of the JSON machine, 16 for a byte and
  two for a node, and the builder, one for a node, the walks up and down the tree of words, the number of nodes, and the
  XML decoders, one turn for a byte.
  A fact about the code that looks wrong is a lemma about the model that shows it on an input, next to the
  component.

  Not modelled: memory pools, buffered streams, sockets, event engines, threads and processes, where the
  code is mostly calls of the operating system; the DNS client around the messages; fiber
  stacks, hooks and event loops; the wrappers of database clients; the C++ framework and the servers and
  clients that the repository adds, which call it. Planned: the list of IP intervals,
  the node functions of JSON, HTTP headers.
\<close>

end
